(* ===== verification/Prelude.thy ===== *)
theory Prelude
  imports Main
begin

text \<open>
  Shared vocabulary of the development.

  \<^item> Machine integers. The C++ sources compute with \<open>uint32_t\<close>, \<open>uint64_t\<close>
    (\<open>DeviceAddr\<close>) and \<open>size_t\<close>. They are modelled as natural numbers with the
    wrap-around written out: \<open>add64\<close>, \<open>sub64\<close>, \<open>mul64\<close> and their 32-bit
    companions reduce modulo \<open>2 ^ 64\<close> and \<open>2 ^ 32\<close>. The collection
    \<open>no_wrap\<close> holds the lemmas that turn them into plain arithmetic where no
    wrap-around can happen.
  \<^item> Errors. \<open>TT_FATAL\<close>, \<open>TT_THROW\<close> and (in debug builds) \<open>TT_ASSERT\<close> of
    src/tt_metal/common/assert.hpp raise a C++ exception. They are values of the
    datatype \<open>tt_error\<close>, returned as the left summand of \<open>tt_error + 'a\<close>.
  \<^item> Doubly linked lists. \<open>dll\<close> says that two pointer fields link a list of
    pointers both ways; its lemmas carry the pointer proofs of the free list.
  \<^item> A few facts on lists.
\<close>

named_theorems no_wrap \<open>machine arithmetic that does not wrap around\<close>
named_theorems link_simps \<open>rules for doubly linked lists\<close>

section \<open>Machine integers\<close>

type_synonym u64 = nat
type_synonym u32 = nat
type_synonym addr = u64

definition add64 :: "u64 \<Rightarrow> u64 \<Rightarrow> u64" where
  "add64 a b = (a + b) mod 2 ^ 64"

definition sub64 :: "u64 \<Rightarrow> u64 \<Rightarrow> u64" where
  "sub64 a b = (a + (2 ^ 64 - b mod 2 ^ 64)) mod 2 ^ 64"

definition mul64 :: "u64 \<Rightarrow> u64 \<Rightarrow> u64" where
  "mul64 a b = (a * b) mod 2 ^ 64"

definition add32 :: "u32 \<Rightarrow> u32 \<Rightarrow> u32" where
  "add32 a b = (a + b) mod 2 ^ 32"

definition sub32 :: "u32 \<Rightarrow> u32 \<Rightarrow> u32" where
  "sub32 a b = (a + (2 ^ 32 - b mod 2 ^ 32)) mod 2 ^ 32"

definition mul32 :: "u32 \<Rightarrow> u32 \<Rightarrow> u32" where
  "mul32 a b = (a * b) mod 2 ^ 32"

lemma add64_small [no_wrap]: "a + b < 2 ^ 64 \<Longrightarrow> add64 a b = a + b"
  by (simp add: add64_def)

lemma mul64_small [no_wrap]: "a * b < 2 ^ 64 \<Longrightarrow> mul64 a b = a * b"
  by (simp add: mul64_def)

lemma wrapping_sub_small:
  fixes a b m :: nat
  assumes "b \<le> a" and "a < m"
  shows "(a + (m - b mod m)) mod m = a - b"
proof -
  from assms have "a + (m - b mod m) = (a - b) + m" by simp
  then have "(a + (m - b mod m)) mod m = (a - b) mod m" by (simp only: mod_add_self2)
  with assms show ?thesis by simp
qed

lemma sub64_small [no_wrap]: "b \<le> a \<Longrightarrow> a < 2 ^ 64 \<Longrightarrow> sub64 a b = a - b"
  unfolding sub64_def by (rule wrapping_sub_small)

lemma add32_small [no_wrap]: "a + b < 2 ^ 32 \<Longrightarrow> add32 a b = a + b"
  by (simp add: add32_def)

lemma mul32_small [no_wrap]: "a * b < 2 ^ 32 \<Longrightarrow> mul32 a b = a * b"
  by (simp add: mul32_def)

lemma sub32_small [no_wrap]: "b \<le> a \<Longrightarrow> a < 2 ^ 32 \<Longrightarrow> sub32 a b = a - b"
  unfolding sub32_def by (rule wrapping_sub_small)

lemma add64_bound [simp]: "add64 a b < 2 ^ 64"
  by (simp add: add64_def)

lemma sub64_bound [simp]: "sub64 a b < 2 ^ 64"
  by (simp add: sub64_def)

lemma mul64_bound [simp]: "mul64 a b < 2 ^ 64"
  by (simp add: mul64_def)

lemma add32_bound [simp]: "add32 a b < 2 ^ 32"
  by (simp add: add32_def)

lemma sub32_bound [simp]: "sub32 a b < 2 ^ 32"
  by (simp add: sub32_def)

lemma mul32_bound [simp]: "mul32 a b < 2 ^ 32"
  by (simp add: mul32_def)

lemma ceil_div_mult_bounds:
  fixes a k :: nat
  assumes "0 < k"
  shows "a \<le> (a + k - 1) div k * k" and "(a + k - 1) div k * k < a + k"
    and "(a + k - 1) div k * k \<le> a + k - 1"
proof -
  let ?q = "(a + k - 1) div k"
  have dm: "?q * k + (a + k - 1) mod k = a + k - 1" by simp
  have "(a + k - 1) mod k < k" using assms by simp
  with dm assms show "a \<le> ?q * k" by linarith
  show "?q * k \<le> a + k - 1" using dm by linarith
  with assms show "?q * k < a + k" by linarith
qed

text \<open>Joining two bit fields that do not overlap is addition.\<close>

lemma push_or_add: "v < 2 ^ n \<Longrightarrow> or (push_bit n i) v = i * 2 ^ n + (v :: nat)"
proof -
  assume "v < 2 ^ n"
  then have v: "take_bit n v = v" by (simp add: take_bit_eq_mod)
  have "and (push_bit n i) v = 0"
    by (subst v [symmetric]) (auto simp: bit_eq_iff bit_simps)
  then show ?thesis by (simp add: push_bit_eq_mult flip: disjunctive_add_eq_or)
qed

section \<open>Errors\<close>

datatype tt_error =
    Tt_fatal string
  | Tt_throw string
  | Tt_assert string
  | Null_deref
  | Out_of_range
  | Div_by_zero
  | Undefined

text \<open>Sequencing of computations that can raise: the first exception ends the sequence.\<close>

fun bind_result :: "'e + 'a \<Rightarrow> ('a \<Rightarrow> 'e + 'b) \<Rightarrow> 'e + 'b" where
  "bind_result (Inl e) f = Inl e"
| "bind_result (Inr v) f = f v"

lemma bind_result_Inr: "bind_result m f = Inr v \<longleftrightarrow> (\<exists>u. m = Inr u \<and> f u = Inr v)"
  by (cases m) auto

lemma bind_result_assoc: "bind_result (bind_result m f) g = bind_result m (\<lambda>v. bind_result (f v) g)"
  by (cases m) auto

section \<open>Lists\<close>

lemma find_append:
  "find P (xs @ ys) = (case find P xs of None \<Rightarrow> find P ys | Some x \<Rightarrow> Some x)"
  by (induction xs) auto

lemma list_all2_setD: "list_all2 P xs ys \<Longrightarrow> y \<in> set ys \<Longrightarrow> \<exists>x \<in> set xs. P x y"
  by (induction rule: list_all2_induct) auto

section \<open>Doubly linked lists\<close>

type_synonym ptr = nat

fun hd_opt :: "'a list \<Rightarrow> 'a option \<Rightarrow> 'a option" where
  "hd_opt [] c = c"
| "hd_opt (x # xs) c = Some x"

definition last_opt :: "'a list \<Rightarrow> 'a option \<Rightarrow> 'a option" where
  "last_opt xs a = (if xs = [] then a else Some (last xs))"

lemma last_opt_simps [simp]:
  "last_opt [] a = a"
  "last_opt (x # xs) a = last_opt xs (Some x)"
  "last_opt (xs @ ys) a = last_opt ys (last_opt xs a)"
  by (auto simp: last_opt_def)

lemma hd_opt_append [simp]: "hd_opt (xs @ ys) c = hd_opt xs (hd_opt ys c)"
  by (cases xs) auto

lemma hd_opt_None_iff [simp]: "hd_opt xs None = None \<longleftrightarrow> xs = []"
  by (cases xs) auto

lemma last_opt_None_iff [simp]: "last_opt xs None = None \<longleftrightarrow> xs = []"
  by (auto simp: last_opt_def)

lemma opt_ends_Some [simp]:
  "hd_opt xs (Some a) \<noteq> None" "last_opt xs (Some a) \<noteq> None"
  by (cases xs; simp add: last_opt_def)+

lemma opt_ends_ne:
  "xs \<noteq> [] \<Longrightarrow> hd_opt xs c = Some (hd xs)" "xs \<noteq> [] \<Longrightarrow> last_opt xs c = Some (last xs)"
  by (cases xs; simp add: last_opt_def)+

lemma opt_ends_default:
  assumes "p \<notin> set xs"
  shows "hd_opt xs (Some p) = Some p \<longleftrightarrow> xs = []" "Some p = hd_opt xs (Some p) \<longleftrightarrow> xs = []"
    "last_opt xs (Some p) = Some p \<longleftrightarrow> xs = []" "Some p = last_opt xs (Some p) \<longleftrightarrow> xs = []"
  using assms by (cases xs; auto simp: last_opt_def)+

lemma hd_opt_rev: "hd_opt (rev xs) c = last_opt xs c"
  by (induction xs arbitrary: c) auto

lemma last_opt_rev: "last_opt (rev xs) c = hd_opt xs c"
  by (metis hd_opt_rev rev_rev_ident)

lemma hd_opt_in: "hd_opt xs None = Some p \<Longrightarrow> p \<in> set xs"
  by (cases xs) auto

lemma last_opt_in: "last_opt xs None = Some p \<Longrightarrow> p \<in> set xs"
  by (auto simp: last_opt_def split: if_splits)

primrec dll ::
    "('p \<Rightarrow> 'p option) \<Rightarrow> ('p \<Rightarrow> 'p option) \<Rightarrow> 'p option \<Rightarrow> 'p list \<Rightarrow> 'p option \<Rightarrow> bool" where
  "dll nx pv a [] c = True"
| "dll nx pv a (p # ps) c = (pv p = a \<and> nx p = hd_opt ps c \<and> dll nx pv (Some p) ps c)"

lemma dll_append [link_simps]:
  "dll nx pv a (xs @ ys) c \<longleftrightarrow> dll nx pv a xs (hd_opt ys c) \<and> dll nx pv (last_opt xs a) ys c"
  by (induction xs arbitrary: a) auto

lemma dll_cong:
  assumes "\<And>p. p \<in> set ps \<Longrightarrow> nx' p = nx p" and "\<And>p. p \<in> set ps \<Longrightarrow> pv' p = pv p"
  shows "dll nx' pv' a ps c = dll nx pv a ps c"
  using assms by (induction ps arbitrary: a) auto

lemma dll_neighbours:
  assumes "dll nx pv a (xs @ p # ys) c"
  shows "last_opt xs None = Some z \<Longrightarrow> nx z = Some p"
    and "hd_opt ys None = Some z \<Longrightarrow> pv z = Some p"
  using assms by (cases xs rule: rev_cases; cases ys; auto simp: link_simps)+

text \<open>The end of a list is relinked: only the last element's forward link changes.\<close>

lemma dll_relink_last:
  assumes "dll nx pv a xs c" and "distinct xs"
    and "\<And>z. z \<in> set xs \<Longrightarrow> pv' z = pv z"
    and "\<And>z. z \<in> set xs \<Longrightarrow> last_opt xs None \<noteq> Some z \<Longrightarrow> nx' z = nx z"
    and "\<And>z. last_opt xs None = Some z \<Longrightarrow> nx' z = c'"
  shows "dll nx' pv' a xs c'"
proof (cases xs rule: rev_cases)
  case Nil
  then show ?thesis by simp
next
  case (snoc ys y)
  with assms(1) have ys: "dll nx pv a ys (Some y)" and y: "pv y = last_opt ys a"
    by (auto simp: link_simps)
  have "dll nx' pv' a ys (Some y) = dll nx pv a ys (Some y)"
    by (rule dll_cong) (use snoc assms(2-4) in auto)
  with ys y snoc assms(3,5) show ?thesis by (auto simp: link_simps)
qed

text \<open>The start of a list is relinked: only the first element's backward link changes.\<close>

lemma dll_relink_first:
  assumes "dll nx pv a ys c" and "distinct ys"
    and "\<And>z. z \<in> set ys \<Longrightarrow> nx' z = nx z"
    and "\<And>z. z \<in> set ys \<Longrightarrow> hd_opt ys None \<noteq> Some z \<Longrightarrow> pv' z = pv z"
    and "\<And>z. hd_opt ys None = Some z \<Longrightarrow> pv' z = a'"
  shows "dll nx' pv' a' ys c"
proof (cases ys)
  case Nil
  then show ?thesis by simp
next
  case (Cons z zs)
  with assms(1) have zs: "dll nx pv (Some z) zs c" and nz: "nx z = hd_opt zs c" by auto
  have "dll nx' pv' (Some z) zs c = dll nx pv (Some z) zs c"
    by (rule dll_cong) (use Cons assms(2-4) in auto)
  with zs nz Cons assms(3,5) show ?thesis by auto
qed

text \<open>
  Replacing a segment of a list: the links inside the new segment, the forward link of
  the element before it and the backward link of the element after it are what changes.
\<close>

lemma dll_splice:
  assumes "dll nx pv a (xs @ ms @ ys) c" and "distinct xs" and "distinct ys"
    and "\<And>z. z \<in> set xs \<Longrightarrow> pv' z = pv z"
    and "\<And>z. z \<in> set xs \<Longrightarrow> nx' z =
           (if last_opt xs None = Some z then hd_opt ms' (hd_opt ys c) else nx z)"
    and "\<And>z. z \<in> set ys \<Longrightarrow> nx' z = nx z"
    and "\<And>z. z \<in> set ys \<Longrightarrow> pv' z =
           (if hd_opt ys None = Some z then last_opt ms' (last_opt xs a) else pv z)"
    and "dll nx' pv' (last_opt xs a) ms' (hd_opt ys c)"
  shows "dll nx' pv' a (xs @ ms' @ ys) c"
proof -
  from assms(1) have xs: "dll nx pv a xs (hd_opt ms (hd_opt ys c))"
    and ys: "dll nx pv (last_opt ms (last_opt xs a)) ys c"
    by (auto simp: link_simps)
  have "dll nx' pv' a xs (hd_opt ms' (hd_opt ys c))"
    by (rule dll_relink_last [OF xs assms(2)]) (use assms(4,5) last_opt_in in force)+
  moreover have "dll nx' pv' (last_opt ms' (last_opt xs a)) ys c"
    by (rule dll_relink_first [OF ys assms(3)]) (use assms(6,7) hd_opt_in in force)+
  ultimately show ?thesis using assms(8) by (simp add: link_simps)
qed

lemma dll_rev: "dll nx pv a ps c \<longleftrightarrow> dll pv nx c (rev ps) a"
  by (induction ps arbitrary: a) (auto simp: link_simps hd_opt_rev last_opt_rev)

end
