(* ===== verification/Free_List.thy ===== *)
theory Free_List
  imports Prelude
begin

text \<open>
  The free list allocator: src/tt_metal/impl/allocator/algorithms/free_list.cpp, with its
  base class in allocator_algorithm.hpp.

  A \<open>Block\<close> of the source is a heap cell with an address, a size and four pointers;
  the blocks of a list are linked in address order by \<open>prev_block\<close>/\<open>next_block\<close>,
  and the free ones among them by \<open>prev_free\<close>/\<open>next_free\<close>. The model keeps this
  shape with one component per field of \<open>Block\<close>, a function from pointers to the
  field's value (the split heap of Burstall and Bornat): \<open>p->next_free\<close> is
  \<open>next_free s p\<close>, \<open>None\<close> is \<open>nullptr\<close>, every assignment of the source is one
  function update, and blocks are created at the pointer \<open>fresh_ptr\<close>. A loop that follows pointers is a
  \<^theory_text>\<open>partial_function (option)\<close>: \<open>None\<close> means that it does not return.
  An operation that can raise returns the error together with the state it leaves behind,
  since C++ keeps the mutations made before the \<open>throw\<close>. \<open>TT_ASSERT\<close> is modelled
  as in a debug build.
\<close>

section \<open>State\<close>

datatype search_policy = BEST | FIRST

record free_list =
  address :: "ptr \<Rightarrow> addr"
  bsize :: "ptr \<Rightarrow> u64"
  prev_block :: "ptr \<Rightarrow> ptr option"
  next_block :: "ptr \<Rightarrow> ptr option"
  prev_free :: "ptr \<Rightarrow> ptr option"
  next_free :: "ptr \<Rightarrow> ptr option"
  fresh_ptr :: ptr
  search_policy :: search_policy
  block_head :: "ptr option"
  block_tail :: "ptr option"
  free_block_head :: "ptr option"
  free_block_tail :: "ptr option"
  max_size_bytes :: u64
  offset_bytes :: u64
  min_allocation_size :: u64
  alignment :: u64
  shrink_size :: u64
  lowest_occupied :: "addr option"

record statistics =
  total_allocatable_size_bytes :: u64
  total_allocated_bytes :: u64
  total_free_bytes :: u64
  largest_free_block_bytes :: u64
  largest_free_block_addrs :: "u32 list"

type_synonym 'a fl_result = "(tt_error + 'a) \<times> free_list"

text \<open>
  \<open>set_at r v f\<close> is the assignment \<open>r->field = v\<close> under \<open>if (r != nullptr)\<close>;
  \<open>new_block\<close> is \<open>make_local_shared<Block>(...)\<close> with the six-argument constructor.
\<close>

fun set_at :: "'p option \<Rightarrow> 'v \<Rightarrow> ('p \<Rightarrow> 'v) \<Rightarrow> 'p \<Rightarrow> 'v" where
  "set_at None v f = f"
| "set_at (Some p) v f = f(p := v)"

definition new_block ::
    "addr \<Rightarrow> u64 \<Rightarrow> ptr option \<Rightarrow> ptr option \<Rightarrow> ptr option \<Rightarrow> ptr option \<Rightarrow> free_list
       \<Rightarrow> ptr \<times> free_list" where
  "new_block a n pb nb pf nf s =
     (fresh_ptr s,
      s\<lparr>address := (address s)(fresh_ptr s := a), bsize := (bsize s)(fresh_ptr s := n),
        prev_block := (prev_block s)(fresh_ptr s := pb),
        next_block := (next_block s)(fresh_ptr s := nb),
        prev_free := (prev_free s)(fresh_ptr s := pf),
        next_free := (next_free s)(fresh_ptr s := nf),
        fresh_ptr := Suc (fresh_ptr s)\<rparr>)"

text \<open>The two-argument constructor: the four pointers start as \<open>nullptr\<close>.\<close>

definition Block :: "addr \<Rightarrow> u64 \<Rightarrow> free_list \<Rightarrow> ptr \<times> free_list" where
  "Block a n s = new_block a n None None None None s"

section \<open>The base class and the constructor\<close>

definition align :: "free_list \<Rightarrow> addr \<Rightarrow> addr" where
  "align s a =
     (let factor = sub64 (add64 a (alignment s)) 1 div alignment s
      in mul64 factor (alignment s))"

definition lowest_occupied_address :: "free_list \<Rightarrow> addr option" where
  "lowest_occupied_address s =
     (case lowest_occupied s of None \<Rightarrow> None | Some a \<Rightarrow> Some (add64 a (offset_bytes s)))"

partial_function (option) unlink_loop :: "ptr option \<Rightarrow> free_list \<Rightarrow> free_list option" where
  "unlink_loop cur s =
     (case cur of
        None \<Rightarrow> Some s
      | Some p \<Rightarrow> unlink_loop (next_block s p)
          (s\<lparr>prev_block := (prev_block s)(p := None), next_block := (next_block s)(p := None),
             prev_free := (prev_free s)(p := None), next_free := (next_free s)(p := None)\<rparr>))"

definition init :: "free_list \<Rightarrow> free_list option" where
  "init s =
     (case unlink_loop (block_head s) s of
        None \<Rightarrow> None
      | Some s1 \<Rightarrow>
          let s2 = s1\<lparr>shrink_size := 0\<rparr>;
              (p, s3) = Block 0 (max_size_bytes s2) s2
          in Some (s3\<lparr>block_head := Some p, block_tail := Some p,
                      free_block_head := Some p, free_block_tail := Some p\<rparr>))"

definition free_list_new ::
    "u64 \<Rightarrow> u64 \<Rightarrow> u64 \<Rightarrow> u64 \<Rightarrow> search_policy \<Rightarrow> tt_error + free_list option" where
  "free_list_new max_size off min_alloc al pol =
     (if al = 0 \<or> off mod al \<noteq> 0 then Inl (Tt_assert ''Offset should be aligned'')
      else Inr (init \<lparr>address = (\<lambda>_. 0), bsize = (\<lambda>_. 0), prev_block = (\<lambda>_. None),
             next_block = (\<lambda>_. None), prev_free = (\<lambda>_. None), next_free = (\<lambda>_. None),
             fresh_ptr = 0, search_policy = pol,
             block_head = None, block_tail = None, free_block_head = None,
             free_block_tail = None, max_size_bytes = max_size, offset_bytes = off,
             min_allocation_size = min_alloc, alignment = al, shrink_size = 0,
             lowest_occupied = None\<rparr>))"

definition clear :: "free_list \<Rightarrow> free_list option" where
  "clear s = init s"

definition is_allocated :: "free_list \<Rightarrow> ptr \<Rightarrow> bool" where
  "is_allocated s p \<longleftrightarrow>
     prev_free s p = None \<and> next_free s p = None \<and>
     Some p \<noteq> free_block_head s \<and> Some p \<noteq> free_block_tail s"

section \<open>Searching the free blocks\<close>

definition request_size :: "free_list \<Rightarrow> u64 \<Rightarrow> u64" where
  "request_size s size_bytes =
     align s (if size_bytes < min_allocation_size s then min_allocation_size s else size_bytes)"

partial_function (option) available_loop ::
    "free_list \<Rightarrow> u64 \<Rightarrow> ptr option \<Rightarrow> (addr \<times> addr) list \<Rightarrow> (addr \<times> addr) list option" where
  "available_loop s alloc_size cur acc =
     (case cur of
        None \<Rightarrow> Some acc
      | Some p \<Rightarrow>
          available_loop s alloc_size (next_free s p)
            (if alloc_size \<le> bsize s p
             then acc @ [(address s p,
                     sub64 (add64 (address s p) (bsize s p)) alloc_size)]
             else acc))"

definition available_addresses :: "free_list \<Rightarrow> u64 \<Rightarrow> (addr \<times> addr) list option" where
  "available_addresses s size_bytes =
     available_loop s (request_size s size_bytes) (free_block_head s) []"

partial_function (option) search_best_loop ::
    "free_list \<Rightarrow> u64 \<Rightarrow> bool \<Rightarrow> ptr option \<Rightarrow> ptr option \<Rightarrow> ptr option option" where
  "search_best_loop s size_bytes bottom_up cur best =
     (case cur of
        None \<Rightarrow> Some best
      | Some p \<Rightarrow>
          if bsize s p = size_bytes then Some (Some p)
          else search_best_loop s size_bytes bottom_up
                 (if bottom_up then next_free s p else prev_free s p)
                 (if size_bytes \<le> bsize s p \<and>
                     (case best of None \<Rightarrow> True
                      | Some q \<Rightarrow> bsize s p < bsize s q)
                  then Some p else best))"

definition search_best :: "free_list \<Rightarrow> u64 \<Rightarrow> bool \<Rightarrow> ptr option option" where
  "search_best s size_bytes bottom_up =
     search_best_loop s size_bytes bottom_up
       (if bottom_up then free_block_head s else free_block_tail s) None"

partial_function (option) search_first_loop ::
    "free_list \<Rightarrow> u64 \<Rightarrow> bool \<Rightarrow> ptr option \<Rightarrow> ptr option option" where
  "search_first_loop s size_bytes bottom_up cur =
     (case cur of
        None \<Rightarrow> Some cur
      | Some p \<Rightarrow>
          if size_bytes \<le> bsize s p then Some (Some p)
          else search_first_loop s size_bytes bottom_up
                 (if bottom_up then next_free s p else prev_free s p))"

definition search_first :: "free_list \<Rightarrow> u64 \<Rightarrow> bool \<Rightarrow> ptr option option" where
  "search_first s size_bytes bottom_up =
     search_first_loop s size_bytes bottom_up
       (if bottom_up then free_block_head s else free_block_tail s)"

definition search :: "free_list \<Rightarrow> u64 \<Rightarrow> bool \<Rightarrow> ptr option option" where
  "search s size_bytes bottom_up =
     (case search_policy s of
        BEST \<Rightarrow> search_best s size_bytes bottom_up
      | FIRST \<Rightarrow> search_first s size_bytes bottom_up)"

section \<open>Carving an allocation out of a free block\<close>

definition allocate_entire_free_block :: "free_list \<Rightarrow> ptr \<Rightarrow> unit fl_result" where
  "allocate_entire_free_block s p =
     (if is_allocated s p then (Inl (Tt_assert ''not is_allocated''), s)
      else
        let s = s\<lparr>next_free := set_at (prev_free s p) (next_free s p) (next_free s)\<rparr>;
            s = s\<lparr>prev_free := set_at (next_free s p) (prev_free s p) (prev_free s)\<rparr>;
            s = s\<lparr>free_block_head := (if Some p = free_block_head s
                   then if next_free s p = None then None else next_free s p
                   else free_block_head s)\<rparr>;
            s = s\<lparr>free_block_tail := (if Some p = free_block_tail s
                   then if prev_free s p = None then None else prev_free s p
                   else free_block_tail s)\<rparr>;
            s = s\<lparr>prev_free := (prev_free s)(p := None)\<rparr>;
            s = s\<lparr>next_free := (next_free s)(p := None)\<rparr>
        in (Inr (), s))"

definition update_left_aligned_allocated_block_connections ::
    "free_list \<Rightarrow> ptr \<Rightarrow> ptr \<Rightarrow> free_list" where
  "update_left_aligned_allocated_block_connections s fb ab =
     (let s = s\<lparr>prev_block := (prev_block s)(ab := prev_block s fb)\<rparr>;
          s = s\<lparr>next_block := (next_block s)(ab := Some fb)\<rparr>;
          s = s\<lparr>next_block := set_at (prev_block s fb) (Some ab) (next_block s)\<rparr>;
          s = s\<lparr>block_head := (if Some fb = block_head s then Some ab else block_head s)\<rparr>;
          s = s\<lparr>prev_block := (prev_block s)(fb := Some ab)\<rparr>;
          s = s\<lparr>address := (address s)(fb := add64 (address s ab) (bsize s ab))\<rparr>
      in s\<lparr>bsize := (bsize s)(fb := sub64 (bsize s fb) (bsize s ab))\<rparr>)"

definition update_right_aligned_allocated_block_connections ::
    "free_list \<Rightarrow> ptr \<Rightarrow> ptr \<Rightarrow> free_list" where
  "update_right_aligned_allocated_block_connections s fb ab =
     (let s = s\<lparr>prev_block := (prev_block s)(ab := Some fb)\<rparr>;
          s = s\<lparr>next_block := (next_block s)(ab := next_block s fb)\<rparr>;
          s = s\<lparr>prev_block := set_at (next_block s fb) (Some ab) (prev_block s)\<rparr>;
          s = s\<lparr>block_tail := (if Some fb = block_tail s then Some ab else block_tail s)\<rparr>;
          s = s\<lparr>next_block := (next_block s)(fb := Some ab)\<rparr>
      in s\<lparr>bsize := (bsize s)(fb := sub64 (bsize s fb) (bsize s ab))\<rparr>)"

text \<open>The third case of \<open>allocate_slice_of_free_block\<close>: free space is left on both sides.\<close>

definition allocate_middle :: "free_list \<Rightarrow> ptr \<Rightarrow> ptr \<Rightarrow> u64 \<Rightarrow> u64 \<Rightarrow> free_list" where
  "allocate_middle s fb ab off size_bytes =
     (let nf_addr = add64 (add64 (address s fb) off) size_bytes;
          nf_size = sub64 (add64 (address s fb) (bsize s fb)) nf_addr;
          (nf, s) = new_block nf_addr nf_size (Some ab) (next_block s fb) (Some fb)
                      (next_free s fb) s;
          s = s\<lparr>prev_block := set_at (next_block s fb) (Some nf) (prev_block s)\<rparr>;
          s = s\<lparr>prev_free := set_at (next_free s fb) (Some nf) (prev_free s)\<rparr>;
          s = s\<lparr>free_block_tail := (if free_block_tail s = Some fb then Some nf
                                   else free_block_tail s)\<rparr>;
          s = s\<lparr>block_tail := (if block_tail s = Some fb then Some nf else block_tail s)\<rparr>;
          s = s\<lparr>next_free := (next_free s)(fb := Some nf)\<rparr>;
          s = s\<lparr>next_block := (next_block s)(fb := Some ab)\<rparr>;
          s = s\<lparr>prev_block := (prev_block s)(ab := Some fb)\<rparr>;
          s = s\<lparr>next_block := (next_block s)(ab := Some nf)\<rparr>
      in s\<lparr>bsize := (bsize s)(fb := sub64 (bsize s fb) (add64 (bsize s ab) (bsize s nf)))\<rparr>)"

definition allocate_slice_of_free_block ::
    "free_list \<Rightarrow> ptr \<Rightarrow> u64 \<Rightarrow> u64 \<Rightarrow> ptr fl_result" where
  "allocate_slice_of_free_block s fb off size_bytes =
     (let slice_end = add64 (add64 (address s fb) off) size_bytes;
          block_end = add64 (address s fb) (bsize s fb)
      in if \<not> slice_end \<le> block_end then (Inl (Tt_assert ''slice in block''), s)
      else if off = 0 \<and> size_bytes = bsize s fb then
        (case allocate_entire_free_block s fb of
           (Inl e, s') \<Rightarrow> (Inl e, s')
         | (Inr _, s') \<Rightarrow> (Inr fb, s'))
      else
        let (ab, s1) = Block (add64 (address s fb) off) size_bytes s;
            case_one = (off = 0 \<and> size_bytes < bsize s fb);
            case_two = (off > 0 \<and> slice_end = block_end);
            case_three = (off > 0 \<and> slice_end < block_end)
        in if of_bool case_one + of_bool case_two + of_bool case_three \<noteq> (1 :: nat)
           then (Inl (Tt_assert ''exactly one case''), s1)
           else if case_one then
             (Inr ab, update_left_aligned_allocated_block_connections s1 fb ab)
           else if case_two then
             (Inr ab, update_right_aligned_allocated_block_connections s1 fb ab)
           else (Inr ab, allocate_middle s1 fb ab off size_bytes))"

definition update_lowest :: "free_list \<Rightarrow> addr \<Rightarrow> free_list" where
  "update_lowest s a =
     s\<lparr>lowest_occupied := (case lowest_occupied s of
         None \<Rightarrow> Some a | Some l \<Rightarrow> Some (min l a))\<rparr>"

section \<open>Allocation\<close>

definition allocate :: "free_list \<Rightarrow> u64 \<Rightarrow> bool \<Rightarrow> u64 \<Rightarrow> addr option fl_result option" where
  "allocate s size_bytes bottom_up address_limit =
     (let alloc_size = request_size s size_bytes in
      case search s alloc_size bottom_up of
        None \<Rightarrow> None
      | Some None \<Rightarrow> Some (Inr None, s)
      | Some (Some fb) \<Rightarrow>
          let off = (if bottom_up then 0
                     else sub64 (sub64 (add64 (address s fb) (bsize s fb)) alloc_size)
                            (address s fb))
          in (case allocate_slice_of_free_block s fb off alloc_size of
                (Inl e, s1) \<Rightarrow> Some (Inl e, s1)
              | (Inr ab, s1) \<Rightarrow>
                  let s2 = update_lowest s1 (address s1 ab);
                      abs_addr = add64 (address s2 ab) (offset_bytes s2)
                  in if abs_addr < address_limit
                     then Some (Inl (Tt_throw ''Out of Memory: below address limit''), s2)
                     else Some (Inr (Some abs_addr), s2)))"

text \<open>Leaving the search loop by \<open>break\<close> after the slice was carved, or by its exception.\<close>

fun found :: "ptr fl_result \<Rightarrow> bool fl_result" where
  "found (Inl e, s) = (Inl e, s)"
| "found (Inr _, s) = (Inr True, s)"

partial_function (option) allocate_at_loop ::
    "free_list \<Rightarrow> addr \<Rightarrow> u64 \<Rightarrow> ptr option \<Rightarrow> bool fl_result option" where
  "allocate_at_loop s start_address alloc_size cur =
     (case cur of
        None \<Rightarrow> Some (Inr (cur \<noteq> None), s)
      | Some p \<Rightarrow>
          if alloc_size \<le> bsize s p \<and> address s p = start_address then
            Some (found (allocate_slice_of_free_block s p 0 alloc_size))
          else if alloc_size \<le> bsize s p \<and> start_address > address s p \<and>
                  add64 start_address alloc_size
                    \<le> add64 (address s p) (bsize s p) then
            Some (found (allocate_slice_of_free_block s p
                           (sub64 start_address (address s p)) alloc_size))
          else allocate_at_loop s start_address alloc_size (next_free s p))"

definition allocate_at_address ::
    "free_list \<Rightarrow> addr \<Rightarrow> u64 \<Rightarrow> addr option fl_result option" where
  "allocate_at_address s absolute_start_address size_bytes =
     (if absolute_start_address mod alignment s \<noteq> 0
      then Some (Inl (Tt_assert ''Requested address should be aligned''), s)
      else
        let start_address = sub64 absolute_start_address (offset_bytes s);
            alloc_size = request_size s size_bytes
        in case allocate_at_loop s start_address alloc_size (free_block_head s) of
             None \<Rightarrow> None
           | Some (Inl e, s1) \<Rightarrow> Some (Inl e, s1)
           | Some (Inr False, s1) \<Rightarrow> Some (Inr None, s1)
           | Some (Inr True, s1) \<Rightarrow>
               Some (Inr (Some absolute_start_address), update_lowest s1 start_address))"

section \<open>Deallocation\<close>

partial_function (option) find_block_loop ::
    "free_list \<Rightarrow> addr \<Rightarrow> ptr option \<Rightarrow> ptr option option" where
  "find_block_loop s a cur =
     (case cur of
        None \<Rightarrow> Some cur
      | Some p \<Rightarrow> if address s p = a then Some (Some p)
                 else find_block_loop s a (next_block s p))"

definition find_block :: "free_list \<Rightarrow> addr \<Rightarrow> ptr option option" where
  "find_block s a = find_block_loop s a (block_head s)"

text \<open>
  The three loops that skip blocks by their state: to the first allocated block from the
  start, and to the nearest free block in either direction.
\<close>

partial_function (option) skip_loop ::
    "free_list \<Rightarrow> bool \<Rightarrow> bool \<Rightarrow> ptr option \<Rightarrow> ptr option option" where
  "skip_loop s forward skip_allocated cur =
     (case cur of
        None \<Rightarrow> Some cur
      | Some p \<Rightarrow> if is_allocated s p \<noteq> skip_allocated then Some (Some p)
                 else skip_loop s forward skip_allocated
                        (if forward then next_block s p else prev_block s p))"

definition update_lowest_occupied_address :: "free_list \<Rightarrow> free_list option" where
  "update_lowest_occupied_address s =
     (case skip_loop s True False (block_head s) of
        None \<Rightarrow> None
      | Some None \<Rightarrow> Some (s\<lparr>lowest_occupied := None\<rparr>)
      | Some (Some p) \<Rightarrow> Some (s\<lparr>lowest_occupied := Some (address s p)\<rparr>))"

definition merge_prev :: "free_list \<Rightarrow> ptr \<Rightarrow> ptr option \<Rightarrow> free_list \<times> ptr \<times> bool" where
  "merge_prev s p prev =
     (case prev of
        Some q \<Rightarrow>
          if \<not> is_allocated s q then
            let s = s\<lparr>next_block := (next_block s)(q := next_block s p)\<rparr>;
                s = s\<lparr>prev_block := set_at (next_block s p) (Some q) (prev_block s)\<rparr>;
                s = s\<lparr>bsize := (bsize s)(q := add64 (bsize s q) (bsize s p))\<rparr>
            in (s, q, True)
          else (s, p, False)
      | None \<Rightarrow> (s, p, False))"

definition merge_next ::
    "free_list \<Rightarrow> ptr \<Rightarrow> bool \<Rightarrow> ptr option \<Rightarrow> free_list \<times> bool" where
  "merge_next s p merged_prev nxt =
     (case nxt of
        Some n \<Rightarrow>
          if \<not> is_allocated s n then
            let s = s\<lparr>next_block := (next_block s)(p := next_block s n)\<rparr>;
                s = s\<lparr>prev_block := set_at (next_block s n) (Some p) (prev_block s)\<rparr>;
                s = s\<lparr>free_block_head := (if Some n = free_block_head s then Some p
                                         else free_block_head s)\<rparr>;
                s = s\<lparr>free_block_tail := (if Some n = free_block_tail s then Some p
                                         else free_block_tail s)\<rparr>;
                s = s\<lparr>next_free := (next_free s)(p := next_free s n)\<rparr>;
                s = s\<lparr>prev_free := set_at (next_free s n) (Some p) (prev_free s)\<rparr>;
                s = (if \<not> merged_prev then
                       let s = s\<lparr>prev_free := (prev_free s)(p := prev_free s n)\<rparr>
                       in s\<lparr>next_free := set_at (prev_free s n) (Some p) (next_free s)\<rparr>
                     else s);
                s = s\<lparr>bsize := (bsize s)(p := add64 (bsize s p) (bsize s n))\<rparr>
            in (s, True)
          else (s, False)
      | None \<Rightarrow> (s, False))"

definition insert_free :: "free_list \<Rightarrow> ptr \<Rightarrow> free_list option" where
  "insert_free s p =
     (case skip_loop s False True (prev_block s p) of
        None \<Rightarrow> None
      | Some pf \<Rightarrow>
          (case skip_loop s True True (next_block s p) of
             None \<Rightarrow> None
           | Some nf \<Rightarrow>
               let s = s\<lparr>prev_free := (prev_free s)(p := pf)\<rparr>;
                   s = s\<lparr>next_free := set_at pf (Some p) (next_free s),
                         free_block_head := (if pf = None then Some p else free_block_head s)\<rparr>;
                   s = s\<lparr>next_free := (next_free s)(p := nf)\<rparr>
               in Some (s\<lparr>prev_free := set_at nf (Some p) (prev_free s),
                          free_block_tail := (if nf = None then Some p
                                              else free_block_tail s)\<rparr>)))"

definition release_block :: "free_list \<Rightarrow> ptr \<Rightarrow> free_list option" where
  "release_block s p =
     (let prev = prev_block s p;
          nxt = next_block s p;
          (s1, p1, merged_prev) = merge_prev s p prev;
          (s2, merged_next) = merge_next s1 p1 merged_prev nxt
      in if \<not> merged_prev \<and> \<not> merged_next then insert_free s2 p1 else Some s2)"

definition deallocate :: "free_list \<Rightarrow> addr \<Rightarrow> free_list option" where
  "deallocate s absolute_address =
     (let a = sub64 absolute_address (offset_bytes s) in
      case find_block s a of
        None \<Rightarrow> None
      | Some None \<Rightarrow> Some s
      | Some (Some p) \<Rightarrow>
          if \<not> is_allocated s p then Some s
          else (case release_block s p of
                  None \<Rightarrow> None
                | Some s1 \<Rightarrow> if lowest_occupied s1 = Some a
                             then update_lowest_occupied_address s1 else Some s1))"

section \<open>Statistics and reporting\<close>

partial_function (option) statistics_loop ::
    "free_list \<Rightarrow> ptr option \<Rightarrow> statistics \<Rightarrow> statistics option" where
  "statistics_loop s cur st =
     (case cur of
        None \<Rightarrow> Some st
      | Some p \<Rightarrow>
          statistics_loop s (next_block s p)
            (if is_allocated s p
             then st\<lparr>total_allocated_bytes := add64 (total_allocated_bytes st) (bsize s p)\<rparr>
             else
               let st1 = st\<lparr>total_free_bytes := add64 (total_free_bytes st) (bsize s p)\<rparr>
               in if largest_free_block_bytes st1 \<le> bsize s p
                  then st1\<lparr>largest_free_block_bytes := bsize s p,
                           largest_free_block_addrs := largest_free_block_addrs st1 @
                             [add64 (address s p) (offset_bytes s) mod 2 ^ 32]\<rparr>
                  else st1))"

definition get_statistics :: "free_list \<Rightarrow> statistics option" where
  "get_statistics s =
     (case statistics_loop s (block_head s)
             \<lparr>total_allocatable_size_bytes = max_size_bytes s, total_allocated_bytes = 0,
              total_free_bytes = 0, largest_free_block_bytes = 0,
              largest_free_block_addrs = []\<rparr> of
        None \<Rightarrow> None
      | Some st \<Rightarrow>
          Some (if total_allocated_bytes st = 0
                then st\<lparr>total_free_bytes := max_size_bytes s,
                        largest_free_block_bytes := max_size_bytes s\<rparr>
                else st))"

text \<open>A row of the dump: absolute address, size, and whether the block is allocated.\<close>

definition dump_block :: "free_list \<Rightarrow> ptr \<Rightarrow> addr \<times> u64 \<times> bool" where
  "dump_block s p =
     (add64 (address s p) (offset_bytes s), bsize s p, is_allocated s p)"

partial_function (option) dump_blocks_loop ::
    "free_list \<Rightarrow> ptr option \<Rightarrow> (addr \<times> u64 \<times> bool) list \<Rightarrow> (addr \<times> u64 \<times> bool) list option" where
  "dump_blocks_loop s cur out =
     (case cur of
        None \<Rightarrow> Some out
      | Some p \<Rightarrow> dump_blocks_loop s (next_block s p) (out @ [dump_block s p]))"

definition dump_blocks :: "free_list \<Rightarrow> (addr \<times> u64 \<times> bool) list option" where
  "dump_blocks s = dump_blocks_loop s (block_head s) []"

section \<open>Shrinking and resetting the size\<close>

definition shrink_head :: "free_list \<Rightarrow> u64 \<Rightarrow> unit fl_result" where
  "shrink_head s amount =
     (case free_block_head s of
        None \<Rightarrow> (Inl (Tt_assert ''Free block head should not be null''), s)
      | Some fh \<Rightarrow>
          if amount < bsize s fh then
            if address s fh \<noteq> 0
            then (Inl (Tt_assert ''Free block head should start at 0''), s)
            else (Inr (), s\<lparr>address := (address s)(fh := amount),
                            bsize := (bsize s)(fh := sub64 (bsize s fh) amount)\<rparr>)
          else
            (case block_head s of
               None \<Rightarrow> (Inl Null_deref, s)
             | Some bh \<Rightarrow>
                 let s = s\<lparr>block_head := next_block s bh\<rparr> in
                 (case block_head s of
                    None \<Rightarrow> (Inl Null_deref, s)
                  | Some bh1 \<Rightarrow>
                      let s = s\<lparr>prev_block := (prev_block s)(bh1 := None)\<rparr> in
                      (case next_free s fh of
                         None \<Rightarrow> (Inr (), s\<lparr>free_block_tail := None, free_block_head := None\<rparr>)
                       | Some nf \<Rightarrow>
                           let s = s\<lparr>prev_free := (prev_free s)(nf := None)\<rparr>
                           in (Inr (), s\<lparr>free_block_head := next_free s fh\<rparr>)))))"

definition shrink :: "free_list \<Rightarrow> u64 \<Rightarrow> bool \<Rightarrow> unit fl_result" where
  "shrink s amount bottom_up =
     (if amount = 0 then (Inr (), s)
      else if \<not> bottom_up then (Inl (Tt_fatal ''Shrinking from the top''), s)
      else if \<not> amount \<le> max_size_bytes s then (Inl (Tt_fatal ''Shrink size too large''), s)
      else if (case lowest_occupied s of None \<Rightarrow> False | Some l \<Rightarrow> \<not> amount \<le> l)
        then (Inl (Tt_fatal ''Shrinking cuts into allocated memory''), s)
      else if shrink_size s \<noteq> 0 then (Inl (Tt_fatal ''Already shrunk''), s)
      else (case shrink_head s amount of
              (Inl e, s1) \<Rightarrow> (Inl e, s1)
            | (Inr _, s1) \<Rightarrow>
                (Inr (), s1\<lparr>max_size_bytes := sub64 (max_size_bytes s1) amount,
                            shrink_size := amount\<rparr>)))"

definition reset_head :: "free_list \<Rightarrow> free_list" where
  "reset_head s =
     (case free_block_head s of
        None \<Rightarrow>
          let (p, s) = Block 0 (shrink_size s) s;
              s = s\<lparr>free_block_head := Some p\<rparr>;
              s = s\<lparr>next_block := (next_block s)(p := block_head s)\<rparr>;
              s = s\<lparr>free_block_tail := free_block_head s\<rparr>
          in s\<lparr>block_head := free_block_head s\<rparr>
      | Some fh \<Rightarrow>
          if address s fh \<noteq> shrink_size s then
            let (p, s) = Block 0 (shrink_size s) s;
                s = s\<lparr>next_block := (next_block s)(p := block_head s)\<rparr>;
                s = s\<lparr>next_free := (next_free s)(p := free_block_head s)\<rparr>;
                s = s\<lparr>prev_free := (prev_free s)(fh := Some p)\<rparr>;
                s = s\<lparr>free_block_head := Some p\<rparr>
            in s\<lparr>block_head := free_block_head s\<rparr>
          else s\<lparr>address := (address s)(fh := 0),
                 bsize := (bsize s)(fh := add64 (bsize s fh) (shrink_size s))\<rparr>)"

definition reset_size :: "free_list \<Rightarrow> free_list" where
  "reset_size s =
     (if shrink_size s = 0 then s
      else
        let s1 = reset_head s
        in s1\<lparr>max_size_bytes := add64 (max_size_bytes s1) (shrink_size s1), shrink_size := 0\<rparr>)"

declare unlink_loop.simps [code] available_loop.simps [code] search_best_loop.simps [code]
  search_first_loop.simps [code] allocate_at_loop.simps [code] find_block_loop.simps [code]
  skip_loop.simps [code] statistics_loop.simps [code] dump_blocks_loop.simps [code]

end
