(* ===== verification/Region_Spec.thy ===== *)
theory Region_Spec
  imports Prelude
begin

text \<open>
  The abstract specification of a region allocator: the managed address range is tiled by
  regions, each free or used, in address order. Allocation carves a piece off a free
  region, release returns a used region and merges it with free neighbours. The free list
  is shown to implement these operations.
\<close>

type_synonym region = "addr \<times> u64 \<times> bool"

abbreviation is_free :: "region \<Rightarrow> bool" where
  "is_free r \<equiv> snd (snd r)"

primrec tiled :: "nat \<Rightarrow> nat \<Rightarrow> region list \<Rightarrow> bool" where
  "tiled b e [] = (b = e)"
| "tiled b e (r # rs) = (fst r = b \<and> 0 < fst (snd r) \<and> tiled (b + fst (snd r)) e rs)"

definition coalesced :: "region list \<Rightarrow> bool" where
  "coalesced rs = successively (\<lambda>r q. \<not> (is_free r \<and> is_free q)) rs"

definition used :: "region list \<Rightarrow> (addr \<times> u64) set" where
  "used rs = {(a, n). (a, n, False) \<in> set rs}"

definition lowest :: "region list \<Rightarrow> addr option" where
  "lowest rs = map_option fst (find (\<lambda>r. \<not> is_free r) rs)"

definition bytes :: "bool \<Rightarrow> region list \<Rightarrow> nat" where
  "bytes f rs = sum_list (map (\<lambda>r. fst (snd r)) (filter (\<lambda>r. is_free r = f) rs))"

primrec largest :: "region list \<Rightarrow> nat" where
  "largest [] = 0"
| "largest (r # rs) = (if is_free r then max (fst (snd r)) (largest rs) else largest rs)"

definition span :: "addr \<times> u64 \<Rightarrow> addr set" where
  "span r = {fst r ..< fst r + snd r}"

text \<open>Carving \<open>n\<close> bytes at offset \<open>off\<close> out of the free region \<open>(a, m)\<close>.\<close>

definition carve :: "addr \<Rightarrow> u64 \<Rightarrow> u64 \<Rightarrow> u64 \<Rightarrow> region list" where
  "carve a m off n =
     (if off = 0 then [] else [(a, off, True)]) @ [(a + off, n, False)] @
     (if off + n = m then [] else [(a + off + n, m - off - n, True)])"

text \<open>Releasing the region between \<open>A\<close> and \<open>B\<close>, merged with free neighbours.\<close>

definition release :: "region list \<Rightarrow> addr \<Rightarrow> u64 \<Rightarrow> region list \<Rightarrow> region list" where
  "release A a n B =
     (let (A', a', n') = (if A \<noteq> [] \<and> is_free (last A)
            then (butlast A, fst (last A), fst (snd (last A)) + n) else (A, a, n));
          (n'', B') = (if B \<noteq> [] \<and> is_free (hd B) then (n' + fst (snd (hd B)), tl B) else (n', B))
      in A' @ (a', n'', True) # B')"

section \<open>Tilings\<close>

lemma tiled_append [simp]:
  "tiled b e (A @ B) \<longleftrightarrow> (\<exists>m. tiled b m A \<and> tiled m e B)"
  by (induction A arbitrary: b) auto

lemma tiled_le: "tiled b e rs \<Longrightarrow> b \<le> e"
  by (induction rs arbitrary: b) force+

lemma tiled_bounds: "tiled b e rs \<Longrightarrow> r \<in> set rs \<Longrightarrow> b \<le> fst r \<and> fst r + fst (snd r) \<le> e \<and> 0 < fst (snd r)"
proof (induction rs arbitrary: b)
  case Nil
  then show ?case by simp
next
  case (Cons q rs)
  from Cons.prems(1) have "tiled (b + fst (snd q)) e rs" by simp
  with Cons show ?case using tiled_le [of "b + fst (snd q)" e rs] by fastforce
qed

lemma tiled_end: "tiled b e rs \<Longrightarrow> tiled b e' rs \<Longrightarrow> e = e'"
  by (induction rs arbitrary: b) auto

lemma tiled_ne: "tiled b e rs \<Longrightarrow> b < e \<Longrightarrow> rs \<noteq> []"
  by auto

lemma tiled_disjoint:
  assumes "tiled b e rs" and "r \<in> set rs" and "q \<in> set rs" and "r \<noteq> q"
  shows "{fst r ..< fst r + fst (snd r)} \<inter> {fst q ..< fst q + fst (snd q)} = {}"
  using assms
proof (induction rs arbitrary: b)
  case Nil
  then show ?case by simp
next
  case (Cons x rs)
  from Cons.prems(1) have x: "fst x = b" and t: "tiled (b + fst (snd x)) e rs" by auto
  have "b + fst (snd x) \<le> fst z" if "z \<in> set rs" for z
    using tiled_bounds [OF t that] by simp
  then show ?case using Cons.IH [OF t] Cons.prems(2-4) x by fastforce
qed

lemma tiled_address_unique:
  assumes "tiled b e rs" and "r \<in> set rs" and "q \<in> set rs" and "fst r = fst q"
  shows "r = q"
proof (rule ccontr)
  assume "r \<noteq> q"
  from tiled_disjoint [OF assms(1-3) this] tiled_bounds [OF assms(1,2)] tiled_bounds [OF assms(1,3)]
    assms(4) show False by fastforce
qed

lemma tiled_bytes: "tiled b e rs \<Longrightarrow> bytes True rs + bytes False rs = e - b"
proof (induction rs arbitrary: b)
  case Nil
  then show ?case by (simp add: bytes_def)
next
  case (Cons r rs)
  from Cons.prems have t: "tiled (b + fst (snd r)) e rs" by simp
  from Cons.IH [OF t] tiled_le [OF t] show ?case by (auto simp: bytes_def)
qed

lemma bytes_simps [simp]:
  "bytes f [] = 0" "bytes f (A @ B) = bytes f A + bytes f B"
  "bytes f ((a, n, g) # B) = (if f = g then n else 0) + bytes f B"
  by (auto simp: bytes_def)

lemma largest_append [simp]: "largest (A @ B) = max (largest A) (largest B)"
  by (induction A) auto

lemma largest_ge: "(a, n, True) \<in> set rs \<Longrightarrow> n \<le> largest rs"
  by (induction rs) auto

lemma largest_attained: "0 < largest rs \<Longrightarrow> \<exists>a. (a, largest rs, True) \<in> set rs"
  by (induction rs) (auto simp: max_def split: if_splits)

lemma used_simps [simp]:
  "used [] = {}"
  "used ((a, n, f) # rs) = (if f then used rs else insert (a, n) (used rs))"
  "used (A @ B) = used A \<union> used B"
  by (auto simp: used_def)

lemma in_used_iff: "(a, n) \<in> used rs \<longleftrightarrow> (a, n, False) \<in> set rs"
  by (simp add: used_def)

lemma used_disjoint:
  assumes "tiled b e rs" and "r \<in> used rs" and "q \<in> used rs" and "r \<noteq> q"
  shows "span r \<inter> span q = {}"
proof -
  obtain a n a' n' where rq: "r = (a, n)" "q = (a', n')" by fastforce
  from tiled_disjoint [OF assms(1), of "(a, n, False)" "(a', n', False)"] assms(2-4) rq
  show ?thesis by (simp add: in_used_iff span_def)
qed

lemma used_bounds:
  assumes "tiled b e rs" and "(a, n) \<in> used rs"
  shows "b \<le> a" "a + n \<le> e" "0 < n"
  using tiled_bounds [OF assms(1), of "(a, n, False)"] assms(2) by (auto simp: in_used_iff)

section \<open>Carving\<close>

lemma carve_facts:
  assumes "off + n \<le> m" and "0 < n"
  shows "tiled b e (carve a m off n) \<longleftrightarrow> a = b \<and> e = b + m"
    and "used (carve a m off n) = {(a + off, n)}"
    and "bytes False (carve a m off n) = n"
  using assms by (auto simp: carve_def bytes_def)

lemma tiled_carve:
  assumes "tiled b e (A @ (a, m, True) # B)" and "off + n \<le> m" and "0 < n"
  shows "tiled b e (A @ carve a m off n @ B)"
  using assms by (auto simp: carve_facts)

lemma coalesced_append:
  "coalesced (A @ B) \<longleftrightarrow> coalesced A \<and> coalesced B \<and>
     (A \<noteq> [] \<longrightarrow> B \<noteq> [] \<longrightarrow> \<not> (is_free (last A) \<and> is_free (hd B)))"
  by (auto simp: coalesced_def successively_append_iff)

lemma coalesced_Cons:
  "coalesced (r # B) \<longleftrightarrow> coalesced B \<and> (B \<noteq> [] \<longrightarrow> \<not> (is_free r \<and> is_free (hd B)))"
  using coalesced_append [of "[r]" B] by (auto simp: coalesced_def)

lemma coalesced_carve:
  assumes "coalesced (A @ (a, m, True) # B)"
  shows "coalesced (A @ carve a m off n @ B)"
  using assms by (auto simp: coalesced_append coalesced_Cons carve_def coalesced_def [of "[]"])

lemma lowest_append:
  "lowest (A @ B) = (case lowest A of None \<Rightarrow> lowest B | Some l \<Rightarrow> Some l)"
  by (induction A) (auto simp: lowest_def)

lemma lowest_Cons [simp]:
  "lowest [] = None" "lowest ((a, n, f) # rs) = (if f then lowest rs else Some a)"
  by (auto simp: lowest_def)

lemma lowest_bounds:
  assumes "tiled b e rs" and "lowest rs = Some l"
  shows "b \<le> l \<and> l < e"
proof -
  from assms(2) obtain r where "find (\<lambda>r. \<not> is_free r) rs = Some r" and l: "l = fst r"
    by (auto simp: lowest_def)
  then have "r \<in> set rs" by (auto simp: find_Some_iff)
  with tiled_bounds [OF assms(1)] l show ?thesis by fastforce
qed

lemma lowest_carve:
  assumes t: "tiled b e (A @ (a, m, True) # B)" and on: "off + n \<le> m" "0 < n"
  shows "lowest (A @ carve a m off n @ B) =
    (case lowest (A @ (a, m, True) # B) of None \<Rightarrow> Some (a + off) | Some l \<Rightarrow> Some (min l (a + off)))"
proof -
  from t obtain k where A: "tiled b a A" and B: "tiled (a + m) e B" by auto
  have mid: "lowest (carve a m off n @ B) = Some (a + off)" by (auto simp: carve_def lowest_append)
  show ?thesis
    using lowest_bounds [OF A] lowest_bounds [OF B] mid on
    by (force simp: lowest_append split: option.splits)
qed

lemma lowest_Some_used: "lowest rs = Some l \<Longrightarrow> \<exists>n. (l, n) \<in> used rs"
  by (induction rs) (auto split: if_splits)

lemma lowest_None_iff: "lowest rs = None \<longleftrightarrow> used rs = {}"
  by (induction rs) (auto split: if_splits)

lemma lowest_least:
  assumes "tiled b e rs" and "lowest rs = Some l" and "(a, n) \<in> used rs"
  shows "l \<le> a"
  using assms
proof (induction rs arbitrary: b)
  case Nil
  then show ?case by simp
next
  case (Cons r rs)
  obtain a' n' f where r: "r = (a', n', f)" by (metis prod_cases3)
  with Cons.prems(1) have t: "tiled (b + n') e rs" and a': "a' = b" by auto
  show ?case
  proof (cases f)
    case True
    with Cons r t show ?thesis by auto
  next
    case False
    with Cons.prems r have "l = a'" by simp
    with Cons.prems r a' False used_bounds [OF t] show ?thesis by fastforce
  qed
qed

section \<open>Releasing\<close>

lemma release_facts:
  assumes "tiled b e (A @ (a, n, False) # B)" and "coalesced (A @ (a, n, False) # B)"
  shows "tiled b e (release A a n B)" and "coalesced (release A a n B)"
    and "used (release A a n B) = used A \<union> used B"
    and "lowest (release A a n B) = (case lowest A of None \<Rightarrow> lowest B | Some l \<Rightarrow> Some l)"
proof -
  obtain A' where A: "A \<noteq> [] \<Longrightarrow> A = A' @ [last A]" by (metis append_butlast_last_id)
  obtain B' where B: "B \<noteq> [] \<Longrightarrow> B = hd B # B'" by (metis list.collapse)
  obtain x y f where l: "last A = (x, y, f)" by (metis prod_cases3)
  obtain u v g where h: "hd B = (u, v, g)" by (metis prod_cases3)
  show "tiled b e (release A a n B)"
    using assms(1) A B l h by (auto simp: release_def add.assoc)
  show "coalesced (release A a n B)"
    using assms(2) A B l h by (auto simp: release_def coalesced_append coalesced_Cons)
  show "used (release A a n B) = used A \<union> used B"
    using A B l h by (auto simp: release_def)
  show "lowest (release A a n B) = (case lowest A of None \<Rightarrow> lowest B | Some l \<Rightarrow> Some l)"
    using A B l h by (auto simp: release_def lowest_append split: option.splits)
qed

lemma tiled_split_unique:
  assumes "tiled b e (A @ r # B)" and "A @ r # B = A' @ q # B'" and "fst r = fst q"
  shows "A = A' \<and> r = q \<and> B = B'"
  using assms
proof (induction A arbitrary: b A')
  case Nil
  then have t: "tiled (fst r + fst (snd r)) e B" and "0 < fst (snd r)" by auto
  moreover have "A' = []"
  proof (rule ccontr)
    assume "A' \<noteq> []"
    with Nil.prems(2) have "q \<in> set B" by (cases A') auto
    from tiled_bounds [OF t this] Nil.prems(3) \<open>0 < fst (snd r)\<close> show False by simp
  qed
  ultimately show ?case using Nil.prems(2) by simp
next
  case (Cons x A)
  then have t: "tiled (b + fst (snd x)) e (A @ r # B)" and x: "fst x = b" "0 < fst (snd x)"
    by auto
  have "A' \<noteq> []"
  proof
    assume "A' = []"
    with Cons.prems(2) have "q = x" by simp
    with tiled_bounds [OF t, of r] x Cons.prems(3) show False by simp
  qed
  then obtain A'' where A': "A' = x # A''" using Cons.prems(2) by (cases A') auto
  with Cons.IH [OF t, of A''] Cons.prems(2,3) show ?case by simp
qed

text \<open>Releasing a region right after it was carved restores the tiling.\<close>

lemma release_carve:
  assumes t: "tiled b e (A @ (a, m, True) # B)" and c: "coalesced (A @ (a, m, True) # B)"
    and on: "off + n \<le> m" "0 < n"
    and eq: "A @ carve a m off n @ B = A' @ (a + off, n', False) # B'"
  shows "n' = n \<and> release A' (a + off) n B' = A @ (a, m, True) # B"
proof -
  let ?l = "if off = 0 then [] else [(a, off, True)]"
  let ?r = "if off + n = m then [] else [(a + off + n, m - off - n, True)]"
  have eq': "(A @ ?l) @ (a + off, n, False) # (?r @ B) = A' @ (a + off, n', False) # B'"
    using eq by (simp add: carve_def)
  have "tiled b e ((A @ ?l) @ (a + off, n, False) # (?r @ B))"
    using tiled_carve [OF t on] by (simp add: carve_def)
  from tiled_split_unique [OF this eq'] have "A' = A @ ?l" "B' = ?r @ B" "n' = n" by auto
  then show ?thesis using c on
    by (auto simp: release_def coalesced_append coalesced_Cons)
qed

end
