(* ===== verification/Free_List_Links.thy ===== *)
theory Free_List_Links
  imports Free_List Region_Spec
begin

text \<open>
  The pointer structure of the free list. \<open>links s ns\<close> says that the two doubly
  linked lists of \<open>s\<close> hold exactly the blocks of \<open>ns\<close>, a list of pointers with a
  flag for free blocks, in order. \<open>view\<close> forgets the pointers and leaves the addresses,
  sizes and flags: the abstract state. Each mutating helper of the source is shown to
  replace a segment of \<open>ns\<close> and to have the matching effect on the view.
  \<open>block_tail_\<close> is no part of the structure: no operation reads it except to compare,
  and \<open>deallocate\<close> leaves it pointing to a block that was merged away.
\<close>

type_synonym node = "ptr \<times> bool"

definition frees :: "node list \<Rightarrow> ptr list" where
  "frees ns = map fst (filter snd ns)"

lemma frees_simps [simp]:
  "frees [] = []"
  "frees ((p, f) # ns) = (if f then p # frees ns else frees ns)"
  "frees (xs @ ys) = frees xs @ frees ys"
  by (auto simp: frees_def)

lemma set_frees: "set (frees ns) \<subseteq> fst ` set ns"
  by (auto simp: frees_def)

lemma in_frees_iff: "p \<in> set (frees ns) \<longleftrightarrow> (p, True) \<in> set ns"
  by (force simp: frees_def)

lemma distinct_frees [simp]: "distinct (map fst ns) \<Longrightarrow> distinct (frees ns)"
  by (auto simp: frees_def distinct_map intro: inj_on_subset)

definition links :: "free_list \<Rightarrow> node list \<Rightarrow> bool" where
  "links s ns \<longleftrightarrow>
     distinct (map fst ns) \<and> (\<forall>p \<in> fst ` set ns. p < fresh_ptr s) \<and>
     block_head s = hd_opt (map fst ns) None \<and>
     dll (next_block s) (prev_block s) None (map fst ns) None \<and>
     free_block_head s = hd_opt (frees ns) None \<and> free_block_tail s = last_opt (frees ns) None \<and>
     dll (next_free s) (prev_free s) None (frees ns) None \<and>
     (\<forall>p. (p, False) \<in> set ns \<longrightarrow>
        prev_free s p = None \<and> next_free s p = None)"

definition view :: "free_list \<Rightarrow> node list \<Rightarrow> region list" where
  "view s ns = map (\<lambda>(p, f). (address s p, bsize s p, f)) ns"

lemma view_simps [simp]:
  "view s [] = []"
  "view s ((p, f) # ns) = (address s p, bsize s p, f) # view s ns"
  "view s (xs @ ys) = view s xs @ view s ys"
  by (auto simp: view_def)

lemma view_cong:
  "(\<And>p. p \<in> fst ` set ns \<Longrightarrow> address s' p = address s p \<and>
      bsize s' p = bsize s p) \<Longrightarrow> view s' ns = view s ns"
  by (force simp: view_def)

section \<open>Reading an updated state\<close>

lemma set_at_apply [simp]: "set_at r v f q = (if r = Some q then v else f q)"
  by (cases r) auto

text \<open>The fields no list operation writes.\<close>

definition same_config :: "free_list \<Rightarrow> free_list \<Rightarrow> bool" where
  "same_config s s' \<longleftrightarrow>
     search_policy s' = search_policy s \<and> max_size_bytes s' = max_size_bytes s \<and>
     offset_bytes s' = offset_bytes s \<and> min_allocation_size s' = min_allocation_size s \<and>
     alignment s' = alignment s \<and> shrink_size s' = shrink_size s"

lemma is_allocated_iff:
  assumes L: "links s ns" and m: "(p, f) \<in> set ns"
  shows "is_allocated s p \<longleftrightarrow> \<not> f"
proof (cases f)
  case True
  with m obtain xs ys where fs: "frees ns = xs @ p # ys"
    by (metis in_frees_iff split_list)
  from L fs have "prev_free s p = last_opt xs None"
    and "free_block_head s = hd_opt (xs @ [p]) None"
    by (auto simp: links_def link_simps)
  with True show ?thesis by (cases xs) (auto simp: is_allocated_def)
next
  case False
  from L m False have "p \<notin> set (frees ns)"
    by (force simp: links_def in_frees_iff distinct_map inj_on_def)
  then have "Some p \<noteq> hd_opt (frees ns) None" and "Some p \<noteq> last_opt (frees ns) None"
    by (auto dest: hd_opt_in [OF sym] last_opt_in [OF sym])
  with L m False show ?thesis by (auto simp: is_allocated_def links_def)
qed

section \<open>Carving\<close>

text \<open>What an operation keeps besides the links: the configuration and the lowest address.\<close>

definition frame :: "free_list \<Rightarrow> free_list \<Rightarrow> bool" where
  "frame s s' \<longleftrightarrow> same_config s s' \<and> lowest_occupied s' = lowest_occupied s \<and> fresh_ptr s \<le> fresh_ptr s'"

lemma not_end:
  assumes "z \<notin> fst ` set ns"
  shows "last_opt (map fst ns) None \<noteq> Some z" "hd_opt (map fst ns) None \<noteq> Some z"
    "last_opt (frees ns) None \<noteq> Some z" "hd_opt (frees ns) None \<noteq> Some z"
  using assms set_frees [of ns] by (auto dest!: last_opt_in hd_opt_in)

lemma not_freeD:
  assumes "distinct (map fst ns)" and "(z, False) \<in> set ns"
  shows "z \<notin> set (frees ns)"
  using assms by (force simp: in_frees_iff distinct_map inj_on_def)

text \<open>
  Every mutation replaces a segment \<open>ms\<close> of the block list by \<open>ms'\<close>: outside of it
  only the links that lead into the segment change.
\<close>

lemma links_splice:
  assumes L: "links s (xs @ ms @ ys)"
    and dist: "distinct (map fst (xs @ ms' @ ys))"
    and fresh: "\<forall>z \<in> fst ` set ms'. z < fresh_ptr s'" "fresh_ptr s \<le> fresh_ptr s'"
    and heads: "block_head s' = hd_opt (map fst (xs @ ms' @ ys)) None"
      "free_block_head s' = hd_opt (frees (xs @ ms' @ ys)) None"
      "free_block_tail s' = last_opt (frees (xs @ ms' @ ys)) None"
    and nb: "\<And>z. z \<in> fst ` set xs \<union> fst ` set ys \<Longrightarrow> next_block s' z =
        (if last_opt (map fst xs) None = Some z then hd_opt (map fst (ms' @ ys)) None
         else next_block s z)"
    and pb: "\<And>z. z \<in> fst ` set xs \<union> fst ` set ys \<Longrightarrow> prev_block s' z =
        (if hd_opt (map fst ys) None = Some z then last_opt (map fst (xs @ ms')) None
         else prev_block s z)"
    and nf: "\<And>z. z \<in> fst ` set xs \<union> fst ` set ys \<Longrightarrow> next_free s' z =
        (if last_opt (frees xs) None = Some z then hd_opt (frees (ms' @ ys)) None
         else next_free s z)"
    and pf: "\<And>z. z \<in> fst ` set xs \<union> fst ` set ys \<Longrightarrow> prev_free s' z =
        (if hd_opt (frees ys) None = Some z then last_opt (frees (xs @ ms')) None
         else prev_free s z)"
    and inner: "dll (next_block s') (prev_block s')
        (last_opt (map fst xs) None) (map fst ms') (hd_opt (map fst ys) None)"
      "dll (next_free s') (prev_free s')
        (last_opt (frees xs) None) (frees ms') (hd_opt (frees ys) None)"
      "\<And>z. (z, False) \<in> set ms' \<Longrightarrow>
         prev_free s' z = None \<and> next_free s' z = None"
  shows "links s' (xs @ ms' @ ys)"
proof -
  from dist have d: "distinct (map fst xs)" "distinct (map fst ys)"
    "fst ` set xs \<inter> fst ` set ys = {}" by auto
  have nox: "z \<notin> fst ` set xs" if "z \<in> fst ` set ys" for z using that d(3) by auto
  have noy: "z \<notin> fst ` set ys" if "z \<in> fst ` set xs" for z using that d(3) by auto
  from L have B: "dll (next_block s) (prev_block s) None
      (map fst xs @ map fst ms @ map fst ys) None"
    and F: "dll (next_free s) (prev_free s) None
      (frees xs @ frees ms @ frees ys) None"
    by (simp_all add: links_def)
  have inxs: "z \<in> fst ` set xs" if "z \<in> set (frees xs)" for z using that set_frees by auto
  have inys: "z \<in> fst ` set ys" if "z \<in> set (frees ys)" for z using that set_frees by auto
  have "dll (next_block s') (prev_block s') None
      (map fst xs @ map fst ms' @ map fst ys) None"
    by (rule dll_splice [OF B]) (simp_all add: d inner(1) nb pb not_end nox noy)
  moreover have "dll (next_free s') (prev_free s') None
      (frees xs @ frees ms' @ frees ys) None"
    by (rule dll_splice [OF F]) (simp_all add: d inner(2) nf pf not_end nox noy inxs inys)
  moreover have "prev_free s' z = None \<and> next_free s' z = None"
    if z: "(z, False) \<in> set xs \<union> set ys" for z
  proof -
    from z have m: "z \<in> fst ` set xs \<union> fst ` set ys" by force
    from z L have old: "prev_free s z = None" "next_free s z = None"
      by (auto simp: links_def)
    have "z \<notin> set (frees xs)" "z \<notin> set (frees ys)"
      using not_freeD [of "xs @ ys" z] z d by simp_all
    then have "last_opt (frees xs) None \<noteq> Some z" "hd_opt (frees ys) None \<noteq> Some z"
      by (auto dest: last_opt_in hd_opt_in)
    with nf [OF m] pf [OF m] old show ?thesis by simp
  qed
  moreover have "z < fresh_ptr s'" if "z \<in> fst ` set (xs @ ms' @ ys)" for z
  proof -
    from L have "\<forall>z \<in> fst ` set xs \<union> fst ` set ys. z < fresh_ptr s"
      by (auto simp: links_def)
    with fresh(2) have "\<forall>z \<in> fst ` set xs \<union> fst ` set ys. z < fresh_ptr s'"
      by (meson less_le_trans)
    with fresh(1) that show ?thesis by auto
  qed
  ultimately show ?thesis
    using dist heads inner(3) unfolding links_def by auto
qed

lemma links_segment:
  assumes L: "links s (xs @ (p, f) # ys)"
  shows "prev_block s p = last_opt (map fst xs) None"
    "next_block s p = hd_opt (map fst ys) None"
    "f \<Longrightarrow> prev_free s p = last_opt (frees xs) None"
    "f \<Longrightarrow> next_free s p = hd_opt (frees ys) None"
    "\<not> f \<Longrightarrow> prev_free s p = None"
    "\<not> f \<Longrightarrow> next_free s p = None"
    "block_head s = hd_opt (map fst xs) (Some p)"
    "free_block_head s = hd_opt (frees xs) (hd_opt (frees ((p, f) # ys)) None)"
    "free_block_tail s = last_opt (frees ys) (last_opt (frees (xs @ [(p, f)])) None)"
  using assms by (simp_all add: links_def link_simps split: if_splits)

lemma links_apart:
  assumes L: "links s (xs @ (p, f) # ys)"
  shows "p \<notin> fst ` set xs" "p \<notin> fst ` set ys" "distinct (map fst xs)" "distinct (map fst ys)"
    "fst ` set xs \<inter> fst ` set ys = {}" "p \<notin> set (frees xs)" "p \<notin> set (frees ys)"
    "\<And>z. z \<in> fst ` set xs \<union> fst ` set ys \<Longrightarrow> z \<noteq> p"
proof -
  show "p \<notin> fst ` set xs" "p \<notin> fst ` set ys" "distinct (map fst xs)" "distinct (map fst ys)"
    "fst ` set xs \<inter> fst ` set ys = {}" using L by (auto simp: links_def)
  then show "p \<notin> set (frees xs)" "p \<notin> set (frees ys)"
    "\<And>z. z \<in> fst ` set xs \<union> fst ` set ys \<Longrightarrow> z \<noteq> p"
    using set_frees [of xs] set_frees [of ys] by auto
qed

lemma links_fresh:
  assumes L: "links s (xs @ (p, f) # ys)" and le: "fresh_ptr s \<le> q"
  shows "p < q" "p \<noteq> q" "q \<noteq> p" "q \<notin> fst ` set xs" "q \<notin> fst ` set ys"
    "\<And>z. z \<in> fst ` set xs \<union> fst ` set ys \<Longrightarrow> z \<noteq> q"
proof -
  from L have b: "\<forall>z \<in> insert p (fst ` set xs \<union> fst ` set ys). z < fresh_ptr s"
    by (auto simp: links_def)
  with le show "p < q" by simp
  then show "p \<noteq> q" "q \<noteq> p" by auto
  from b le show "\<And>z. z \<in> fst ` set xs \<union> fst ` set ys \<Longrightarrow> z \<noteq> q" by (metis insertCI leD)
  then show "q \<notin> fst ` set xs" "q \<notin> fst ` set ys" by auto
qed

lemma links_neighbours:
  assumes L: "links s (xs @ (p, f) # ys)"
  shows "\<And>z. last_opt (map fst xs) None = Some z \<Longrightarrow> next_block s z = Some p"
    "\<And>z. hd_opt (map fst ys) None = Some z \<Longrightarrow> prev_block s z = Some p"
    "\<And>z. f \<Longrightarrow> last_opt (frees xs) None = Some z \<Longrightarrow> next_free s z = Some p"
    "\<And>z. f \<Longrightarrow> hd_opt (frees ys) None = Some z \<Longrightarrow> prev_free s z = Some p"
proof -
  from L have B: "dll (next_block s) (prev_block s) None
      (map fst xs @ p # map fst ys) None" by (simp add: links_def)
  show "next_block s z = Some p" if "last_opt (map fst xs) None = Some z" for z
    using dll_neighbours(1) [OF B that] .
  show "prev_block s z = Some p" if "hd_opt (map fst ys) None = Some z" for z
    using dll_neighbours(2) [OF B that] .
  have F: "dll (next_free s) (prev_free s) None
      (frees xs @ p # frees ys) None" if f using that L by (simp add: links_def)
  show "next_free s z = Some p" if "f" "last_opt (frees xs) None = Some z" for z
    using dll_neighbours(1) [OF F that(2)] that(1) by simp
  show "prev_free s z = Some p" if "f" "hd_opt (frees ys) None = Some z" for z
    using dll_neighbours(2) [OF F that(2)] that(1) by simp
qed

lemma links_allocate_entire:
  assumes L: "links s (xs @ (p, True) # ys)"
  shows "\<exists>s'. allocate_entire_free_block s p = (Inr (), s') \<and> links s' (xs @ (p, False) # ys) \<and>
     (\<forall>zs. view s' zs = view s zs) \<and> frame s s'"
proof -
  note S = links_segment [OF L, simplified] links_apart [OF L, simplified]
    links_fresh [OF L order_refl, simplified]
  note N = links_neighbours [OF L, simplified]
  have na: "\<not> is_allocated s p" using is_allocated_iff [OF L, of p True] by simp
  define s' where "s' = snd (allocate_entire_free_block s p)"
  note defs = s'_def allocate_entire_free_block_def Let_def
  have eq: "allocate_entire_free_block s p = (Inr (), s')"
    using na by (simp add: defs)
  have heads: "block_head s' = block_head s"
    "free_block_head s' = hd_opt (frees xs) (hd_opt (frees ys) None)"
    "free_block_tail s' = last_opt (frees ys) (last_opt (frees xs) None)"
    by (auto simp: defs S na opt_ends_default opt_ends_ne not_end)
  have "links s' (xs @ [(p, False)] @ ys)"
    by (rule links_splice [where s = s and ms = "[(p, True)]"])
       (use L in \<open>simp_all add: heads, simp_all add: defs S N na not_end\<close>)
  moreover have "view s' zs = view s zs" for zs
    by (rule view_cong) (simp add: defs na)
  ultimately show ?thesis using eq na by (auto simp: frame_def same_config_def defs)
qed

text \<open>A new allocated block in front of, or behind, what is left of the free block.\<close>

lemma links_left:
  assumes L: "links s (xs @ (p, True) # ys)"
    and s': "s' = update_left_aligned_allocated_block_connections (snd (Block a n s)) p (fresh_ptr s)"
  shows "links s' (xs @ (fresh_ptr s, False) # (p, True) # ys)"
    and "view s' (xs @ (fresh_ptr s, False) # (p, True) # ys) =
           view s xs @ [(a, n, False), (add64 a n, sub64 (bsize s p) n, True)] @ view s ys"
    and "frame s s'"
proof -
  note S = links_segment [OF L, simplified] links_apart [OF L, simplified]
    links_fresh [OF L order_refl, simplified]
  note N = links_neighbours [OF L, simplified]
  note defs = s' update_left_aligned_allocated_block_connections_def Block_def new_block_def Let_def
  have heads: "block_head s' = hd_opt (map fst xs) (Some (fresh_ptr s))"
    "free_block_head s' = free_block_head s"
    "free_block_tail s' = free_block_tail s" "fresh_ptr s' = Suc (fresh_ptr s)"
    by (auto simp: defs S opt_ends_default opt_ends_ne)
  have "links s' (xs @ [(fresh_ptr s, False), (p, True)] @ ys)"
    by (rule links_splice [where s = s and ms = "[(p, True)]"])
       (use L in \<open>simp_all add: heads S less_Suc_eq, simp_all add: defs S N not_end\<close>)
  then show "links s' (xs @ (fresh_ptr s, False) # (p, True) # ys)" by simp
  have "view s' xs = view s xs" "view s' ys = view s ys"
    by (rule view_cong, simp add: defs S)+
  then show "view s' (xs @ (fresh_ptr s, False) # (p, True) # ys) =
           view s xs @ [(a, n, False), (add64 a n, sub64 (bsize s p) n, True)] @ view s ys"
    by (simp add: defs S)
  show "frame s s'" by (simp add: frame_def same_config_def defs)
qed

lemma links_right:
  assumes L: "links s (xs @ (p, True) # ys)"
    and s': "s' = update_right_aligned_allocated_block_connections (snd (Block a n s)) p (fresh_ptr s)"
  shows "links s' (xs @ (p, True) # (fresh_ptr s, False) # ys)"
    and "view s' (xs @ (p, True) # (fresh_ptr s, False) # ys) =
           view s xs @ [(address s p, sub64 (bsize s p) n, True), (a, n, False)] @ view s ys"
    and "frame s s'"
proof -
  note S = links_segment [OF L, simplified] links_apart [OF L, simplified]
    links_fresh [OF L order_refl, simplified]
  note N = links_neighbours [OF L, simplified]
  note defs = s' update_right_aligned_allocated_block_connections_def Block_def new_block_def Let_def
  have heads: "block_head s' = block_head s"
    "free_block_head s' = free_block_head s"
    "free_block_tail s' = free_block_tail s" "fresh_ptr s' = Suc (fresh_ptr s)"
    by (auto simp: defs S opt_ends_default opt_ends_ne)
  have "links s' (xs @ [(p, True), (fresh_ptr s, False)] @ ys)"
    by (rule links_splice [where s = s and ms = "[(p, True)]"])
       (use L in \<open>simp_all add: heads S less_Suc_eq, simp_all add: defs S N not_end\<close>)
  then show "links s' (xs @ (p, True) # (fresh_ptr s, False) # ys)" by simp
  have "view s' xs = view s xs" "view s' ys = view s ys"
    by (rule view_cong, simp add: defs S)+
  then show "view s' (xs @ (p, True) # (fresh_ptr s, False) # ys) =
           view s xs @ [(address s p, sub64 (bsize s p) n, True), (a, n, False)] @ view s ys"
    by (simp add: defs S)
  show "frame s s'" by (simp add: frame_def same_config_def defs)
qed

text \<open>The slice lies strictly inside: two new blocks, the second of them free.\<close>

lemma links_middle:
  assumes L: "links s (xs @ (p, True) # ys)"
    and s': "s' = allocate_middle (snd (Block a n s)) p (fresh_ptr s) off n"
    and e: "e = add64 (add64 (address s p) off) n"
    and r: "r = sub64 (add64 (address s p) (bsize s p)) e"
    and ns': "ns' = xs @ (p, True) # (fresh_ptr s, False) # (Suc (fresh_ptr s), True) # ys"
  shows "links s' ns'"
    and "view s' ns' = view s xs @ [(address s p, sub64 (bsize s p) (add64 n r), True),
           (a, n, False), (e, r, True)] @ view s ys"
    and "frame s s'"
proof -
  note S = links_segment [OF L, simplified] links_apart [OF L, simplified]
    links_fresh [OF L order_refl, simplified]
  note N = links_neighbours [OF L, simplified]
  have "fresh_ptr s \<le> Suc (fresh_ptr s)" by simp
  note S2 = links_fresh [OF L this, simplified]
  note defs = s' e r allocate_middle_def Block_def new_block_def Let_def
  have heads: "block_head s' = block_head s"
    "free_block_head s' = free_block_head s"
    "free_block_tail s' = last_opt (frees ys) (Some (Suc (fresh_ptr s)))"
    "fresh_ptr s' = Suc (Suc (fresh_ptr s))"
    by (auto simp: defs S S2 opt_ends_default opt_ends_ne)
  have "links s' (xs @ [(p, True), (fresh_ptr s, False), (Suc (fresh_ptr s), True)] @ ys)"
    by (rule links_splice [where s = s and ms = "[(p, True)]"])
       (use L in \<open>simp_all add: heads S S2 less_Suc_eq, simp_all add: defs S S2 N not_end\<close>)
  then show "links s' ns'" by (simp add: ns')
  have "view s' xs = view s xs" "view s' ys = view s ys"
    by (rule view_cong, simp add: defs S S2)+
  then show "view s' ns' = view s xs @ [(address s p, sub64 (bsize s p) (add64 n r), True),
           (a, n, False), (e, r, True)] @ view s ys"
    by (simp add: ns' defs S S2)
  show "frame s s'" by (simp add: frame_def same_config_def defs)
qed

section \<open>Releasing\<close>

text \<open>
  The three ways to give a block back: into the free block before it, into the one after
  it, and as a new entry of the free list.
\<close>

lemma links_merge_prev:
  assumes L: "links s (xs @ (q, True) # (p, False) # ys)"
    and s': "merge_prev s p (Some q) = (s', r, m)"
  shows "r = q" "m" "links s' (xs @ (q, True) # ys)"
    and "view s' (xs @ (q, True) # ys) =
           view s xs @ (address s q, add64 (bsize s q) (bsize s p), True) # view s ys"
    and "view s' xs = view s xs" "view s' ys = view s ys"
    and "frame s s'" "bsize s' q = add64 (bsize s q) (bsize s p)" "address s' q = address s q"
proof -
  have na: "\<not> is_allocated s q" using is_allocated_iff [OF L, of q True] by simp
  have L2: "links s ((xs @ [(q, True)]) @ (p, False) # ys)" using L by simp
  note S = links_segment [OF L, simplified] links_apart [OF L, simplified]
    links_segment [OF L2, simplified] links_apart [OF L2, simplified]
    links_fresh [OF L order_refl, simplified]
  note N = links_neighbours [OF L, simplified]
  note defs = merge_prev_def Let_def
  from s' na have rm: "r = q" "m" and s'_eq: "s' = s\<lparr>
      next_block := (next_block s)(q := next_block s p),
      prev_block := set_at (hd_opt (map fst ys) None) (Some q) (prev_block s),
      bsize := (bsize s)(q := add64 (bsize s q) (bsize s p))\<rparr>"
    by (auto simp: defs S)
  then show "r = q" "m" by simp_all
  have "links s' (xs @ [(q, True)] @ ys)"
    by (rule links_splice [where s = s and ms = "[(q, True), (p, False)]"])
       (use L in \<open>simp_all add: s'_eq S N not_end\<close>)
  then show "links s' (xs @ (q, True) # ys)" by simp
  show "view s' xs = view s xs" "view s' ys = view s ys"
    by (rule view_cong, simp add: s'_eq S)+
  then show "view s' (xs @ (q, True) # ys) =
           view s xs @ (address s q, add64 (bsize s q) (bsize s p), True) # view s ys"
    by (simp add: s'_eq)
  show "frame s s'" "bsize s' q = add64 (bsize s q) (bsize s p)" "address s' q = address s q"
    by (simp_all add: frame_def same_config_def s'_eq)
qed

lemma links_merge_next:
  assumes L: "links s (xs @ (p, False) # (n, True) # ys)"
    and s': "merge_next s p False (Some n) = (s', m)"
  shows "m" "links s' (xs @ (p, True) # ys)"
    and "view s' (xs @ (p, True) # ys) =
           view s xs @ (address s p, add64 (bsize s p) (bsize s n), True) # view s ys"
    and "frame s s'"
proof -
  have L2: "links s ((xs @ [(p, False)]) @ (n, True) # ys)" using L by simp
  have na: "\<not> is_allocated s n" using is_allocated_iff [OF L2, of n True] by simp
  note S = links_segment [OF L, simplified] links_apart [OF L, simplified]
    links_segment [OF L2, simplified] links_apart [OF L2, simplified]
    links_fresh [OF L order_refl, simplified]
  note N = links_neighbours [OF L, simplified] links_neighbours [OF L2, simplified]
  define s1 where "s1 = fst (merge_next s p False (Some n))"
  note defs = s1_def merge_next_def Let_def
  from s' na have m: "m" and s'_eq: "s' = s1" by (auto simp: defs)
  show "m" by (rule m)
  have heads: "block_head s1 = block_head s"
    "free_block_head s1 = hd_opt (frees xs) (Some p)"
    "free_block_tail s1 = last_opt (frees ys) (Some p)" "fresh_ptr s1 = fresh_ptr s"
    by (auto simp: defs na S opt_ends_default opt_ends_ne)
  have "links s1 (xs @ [(p, True)] @ ys)"
    by (rule links_splice [where s = s and ms = "[(p, False), (n, True)]"])
       (use L in \<open>simp_all add: heads S, simp_all add: defs na S N not_end\<close>)
  then show "links s' (xs @ (p, True) # ys)" by (simp add: s'_eq)
  have "view s1 xs = view s xs" "view s1 ys = view s ys"
    by (rule view_cong, simp add: defs na S)+
  then show "view s' (xs @ (p, True) # ys) =
           view s xs @ (address s p, add64 (bsize s p) (bsize s n), True) # view s ys"
    by (simp add: s'_eq defs na)
  show "frame s s'" by (simp add: frame_def same_config_def s'_eq defs na)
qed

text \<open>The released block has already been merged into its free predecessor \<open>p\<close>.\<close>

lemma links_merge_both:
  assumes L: "links s (xs @ (p, True) # (n, True) # ys)"
    and s': "merge_next s p True (Some n) = (s', m)"
  shows "m" "links s' (xs @ (p, True) # ys)"
    and "view s' (xs @ (p, True) # ys) =
           view s xs @ (address s p, add64 (bsize s p) (bsize s n), True) # view s ys"
    and "frame s s'"
proof -
  have L2: "links s ((xs @ [(p, True)]) @ (n, True) # ys)" using L by simp
  have na: "\<not> is_allocated s n" using is_allocated_iff [OF L2, of n True] by simp
  note S = links_segment [OF L, simplified] links_apart [OF L, simplified]
    links_segment [OF L2, simplified] links_apart [OF L2, simplified]
    links_fresh [OF L order_refl, simplified]
  note N = links_neighbours [OF L, simplified] links_neighbours [OF L2, simplified]
  have "n \<notin> set (p # frees xs)" using links_apart(6) [OF L2] by simp
  then have neq: "Some n \<noteq> hd_opt (frees xs) (Some p)" by (cases "frees xs") auto
  define s1 where "s1 = fst (merge_next s p True (Some n))"
  note defs = s1_def merge_next_def Let_def
  from s' na have m: "m" and s'_eq: "s' = s1" by (auto simp: defs)
  show "m" by (rule m)
  have heads: "block_head s1 = block_head s"
    "free_block_head s1 = hd_opt (frees xs) (Some p)"
    "free_block_tail s1 = last_opt (frees ys) (Some p)" "fresh_ptr s1 = fresh_ptr s"
    using neq by (auto simp: defs na S opt_ends_default opt_ends_ne)
  have "links s1 (xs @ [(p, True)] @ ys)"
    by (rule links_splice [where s = s and ms = "[(p, True), (n, True)]"])
       (use L in \<open>simp_all add: heads S, simp_all add: defs na S N not_end\<close>)
  then show "links s' (xs @ (p, True) # ys)" by (simp add: s'_eq)
  have "view s1 xs = view s xs" "view s1 ys = view s ys"
    by (rule view_cong, simp add: defs na S)+
  then show "view s' (xs @ (p, True) # ys) =
           view s xs @ (address s p, add64 (bsize s p) (bsize s n), True) # view s ys"
    by (simp add: s'_eq defs na)
  show "frame s s'" by (simp add: frame_def same_config_def s'_eq defs na)
qed

text \<open>What the skipping loops of the source find.\<close>

lemma skip_loop_forward:
  assumes "dll (next_block s) pv a (map fst ns) None"
    and "\<And>p f. (p, f) \<in> set ns \<Longrightarrow> is_allocated s p \<longleftrightarrow> \<not> f"
  shows "skip_loop s True sk (hd_opt (map fst ns) None) =
    Some (map_option fst (find (\<lambda>(p, f). f = sk) ns))"
  using assms
proof (induction ns arbitrary: a)
  case Nil
  then show ?case by (simp add: skip_loop.simps)
next
  case (Cons nd ns)
  obtain p f where nd: "nd = (p, f)" by fastforce
  from Cons.prems nd have nx: "next_block s p = hd_opt (map fst ns) None"
    and al: "is_allocated s p \<longleftrightarrow> \<not> f" by auto
  have "skip_loop s True sk (hd_opt (map fst ns) None) =
      Some (map_option fst (find (\<lambda>(p, f). f = sk) ns))"
    by (rule Cons.IH) (use Cons.prems in auto)
  with nx al nd show ?case by (subst skip_loop.simps) auto
qed

lemma skip_loop_backward:
  assumes "dll nx (prev_block s) None (map fst ns) c"
    and "\<And>p f. (p, f) \<in> set ns \<Longrightarrow> is_allocated s p \<longleftrightarrow> \<not> f"
  shows "skip_loop s False sk (last_opt (map fst ns) None) =
    Some (map_option fst (find (\<lambda>(p, f). f = sk) (rev ns)))"
  using assms
proof (induction ns arbitrary: c rule: rev_induct)
  case Nil
  then show ?case by (simp add: skip_loop.simps)
next
  case (snoc nd ns)
  obtain p f where nd: "nd = (p, f)" by fastforce
  from snoc.prems nd have pv: "prev_block s p = last_opt (map fst ns) None"
    and al: "is_allocated s p \<longleftrightarrow> \<not> f" by (auto simp: link_simps)
  have "skip_loop s False sk (last_opt (map fst ns) None) =
      Some (map_option fst (find (\<lambda>(p, f). f = sk) (rev ns)))"
    by (rule snoc.IH) (use snoc.prems in \<open>auto simp: link_simps\<close>)
  with pv al nd show ?case by (subst skip_loop.simps) auto
qed

lemma find_free_hd: "map_option fst (find (\<lambda>(p, f). f) ns) = hd_opt (frees ns) None"
  by (induction ns) auto

lemma find_free_last: "map_option fst (find (\<lambda>(p, f). f) (rev ns)) = last_opt (frees ns) None"
  by (induction ns rule: rev_induct) auto

lemma links_insert_free:
  assumes L: "links s (xs @ (p, False) # ys)"
  shows "\<exists>s'. insert_free s p = Some s' \<and> links s' (xs @ (p, True) # ys) \<and>
    (\<forall>zs. view s' zs = view s zs) \<and> frame s s'"
proof -
  note S = links_segment [OF L, simplified] links_apart [OF L, simplified]
    links_fresh [OF L order_refl, simplified]
  note N = links_neighbours [OF L, simplified]
  have al: "\<And>z f. (z, f) \<in> set xs \<union> set ys \<Longrightarrow> is_allocated s z \<longleftrightarrow> \<not> f"
    using is_allocated_iff [OF L] by auto
  from L have dx: "dll (next_block s) (prev_block s) None (map fst xs) (Some p)"
    and dy: "dll (next_block s) (prev_block s) (Some p) (map fst ys) None"
    by (auto simp: links_def link_simps)
  have "skip_loop s False True (prev_block s p) = Some (last_opt (frees xs) None)"
    unfolding S(1) using skip_loop_backward [OF dx, of True] al by (simp add: find_free_last)
  moreover have "skip_loop s True True (next_block s p) = Some (hd_opt (frees ys) None)"
    unfolding S(2) using skip_loop_forward [OF dy, of True] al by (simp add: find_free_hd)
  ultimately obtain s' where eq: "insert_free s p = Some s'" and s': "s' = s\<lparr>
      prev_free := set_at (hd_opt (frees ys) None) (Some p)
         ((prev_free s)(p := last_opt (frees xs) None)),
      next_free := (set_at (last_opt (frees xs) None) (Some p) (next_free s))
         (p := hd_opt (frees ys) None),
      free_block_head := (if last_opt (frees xs) None = None then Some p else free_block_head s),
      free_block_tail := (if hd_opt (frees ys) None = None then Some p else free_block_tail s)\<rparr>"
    by (auto simp: insert_free_def Let_def)
  have heads: "free_block_head s' = hd_opt (frees xs) (Some p)"
    "free_block_tail s' = last_opt (frees ys) (Some p)"
    by (auto simp: s' S opt_ends_ne)
  have "links s' (xs @ [(p, True)] @ ys)"
    by (rule links_splice [where s = s and ms = "[(p, False)]"])
       (use L in \<open>simp_all add: heads S, simp_all add: s' S N not_end\<close>)
  moreover have "view s' zs = view s zs" for zs by (rule view_cong) (simp add: s')
  moreover have "frame s s'" by (simp add: s' frame_def same_config_def)
  ultimately show ?thesis using eq by auto
qed

end
