(* ===== verification/Free_List_Correct.thy ===== *)
theory Free_List_Correct
  imports Free_List_Links
begin

text \<open>
  The free list implements the region allocator: under the invariant \<open>fl_inv s rs\<close>
  the state \<open>s\<close> represents the tiling \<open>rs\<close>, and every operation of the source
  returns, raises no assertion, keeps the invariant and has the effect the specification
  gives it.
\<close>

section \<open>The searches\<close>

lemma frees_dll:
  assumes "links s ns"
  shows "dll (next_free s) (prev_free s) None (frees ns) None"
    and "dll (prev_free s) (next_free s) None (rev (frees ns)) None"
    and "free_block_head s = hd_opt (frees ns) None"
    and "free_block_tail s = hd_opt (rev (frees ns)) None"
  using assms by (auto simp: links_def hd_opt_rev dll_rev [symmetric])

definition search_order :: "bool \<Rightarrow> node list \<Rightarrow> ptr list" where
  "search_order bottom_up ns = (if bottom_up then frees ns else rev (frees ns))"

lemma search_first_loop_find:
  assumes "dll (if bu then next_free s else prev_free s) pv a ps None"
  shows "search_first_loop s n bu (hd_opt ps None) = Some (find (\<lambda>p. n \<le> bsize s p) ps)"
  using assms
proof (induction ps arbitrary: a)
  case Nil
  then show ?case by (simp add: search_first_loop.simps)
next
  case (Cons p ps)
  then show ?case by (subst search_first_loop.simps) (auto split: if_splits)
qed

lemma search_first_find:
  assumes "links s ns"
  shows "search_first s n bu = Some (find (\<lambda>p. n \<le> bsize s p) (search_order bu ns))"
  using search_first_loop_find [of True s "prev_free s" None "frees ns" n]
    search_first_loop_find [of False s "next_free s" None "rev (frees ns)" n] frees_dll [OF assms]
  by (simp add: search_first_def search_order_def)

fun best_fit :: "(ptr \<Rightarrow> u64) \<Rightarrow> u64 \<Rightarrow> ptr option \<Rightarrow> ptr list \<Rightarrow> ptr option" where
  "best_fit sz n best [] = best"
| "best_fit sz n best (p # ps) =
     (if sz p = n then Some p
      else best_fit sz n (if n \<le> sz p \<and> (case best of None \<Rightarrow> True | Some q \<Rightarrow> sz p < sz q)
                          then Some p else best) ps)"

lemma search_best_loop_fit:
  assumes "dll (if bu then next_free s else prev_free s) pv a ps None"
  shows "search_best_loop s n bu (hd_opt ps None) best = Some (best_fit (bsize s) n best ps)"
  using assms
proof (induction ps arbitrary: a best)
  case Nil
  then show ?case by (simp add: search_best_loop.simps)
next
  case (Cons p ps)
  then show ?case by (subst search_best_loop.simps) (auto split: if_splits)
qed

lemma search_best_fit:
  assumes "links s ns"
  shows "search_best s n bu = Some (best_fit (bsize s) n None (search_order bu ns))"
  using search_best_loop_fit [of True s "prev_free s" None "frees ns" n]
    search_best_loop_fit [of False s "next_free s" None "rev (frees ns)" n] frees_dll [OF assms]
  by (simp add: search_best_def search_order_def)

text \<open>The best fit is a candidate or the block found before, and none is smaller.\<close>

lemma best_fit_None: "best_fit sz n best ps = None \<longleftrightarrow> best = None \<and> (\<forall>p \<in> set ps. sz p < n)"
  by (induction ps arbitrary: best) (auto split: option.splits)

lemma best_fit_Some:
  assumes "best_fit sz n best ps = Some p" and "\<And>q. best = Some q \<Longrightarrow> n \<le> sz q"
  shows "(p \<in> set ps \<or> best = Some p) \<and> n \<le> sz p \<and>
    (\<forall>q \<in> set ps. n \<le> sz q \<longrightarrow> sz p \<le> sz q) \<and> (\<forall>q. best = Some q \<longrightarrow> sz p \<le> sz q)"
  using assms
proof (induction ps arbitrary: best)
  case Nil
  then show ?case by simp
next
  case (Cons x ps)
  show ?case
  proof (cases "sz x = n")
    case True
    with Cons.prems show ?thesis by auto
  next
    case False
    let ?b = "if n \<le> sz x \<and> (case best of None \<Rightarrow> True | Some q \<Rightarrow> sz x < sz q)
              then Some x else best"
    have "best_fit sz n ?b ps = Some p" using Cons.prems(1) False by simp
    moreover have "n \<le> sz q" if "?b = Some q" for q using that Cons.prems(2) by (auto split: if_splits)
    ultimately have "(p \<in> set ps \<or> ?b = Some p) \<and> n \<le> sz p \<and>
      (\<forall>q \<in> set ps. n \<le> sz q \<longrightarrow> sz p \<le> sz q) \<and> (\<forall>q. ?b = Some q \<longrightarrow> sz p \<le> sz q)"
      by (rule Cons.IH)
    then show ?thesis by (auto split: if_splits option.splits)
  qed
qed

definition chosen :: "free_list \<Rightarrow> node list \<Rightarrow> u64 \<Rightarrow> bool \<Rightarrow> ptr option" where
  "chosen s ns n bu =
     (case search_policy s of
        BEST \<Rightarrow> best_fit (bsize s) n None (search_order bu ns)
      | FIRST \<Rightarrow> find (\<lambda>p. n \<le> bsize s p) (search_order bu ns))"

lemma search_chosen: "links s ns \<Longrightarrow> search s n bu = Some (chosen s ns n bu)"
  by (simp add: search_def chosen_def search_best_fit search_first_find split: search_policy.splits)

lemma set_search_order [simp]: "set (search_order bu ns) = set (frees ns)"
  by (simp add: search_order_def)

lemma chosen_None: "chosen s ns n bu = None \<longleftrightarrow> (\<forall>p \<in> set (frees ns). bsize s p < n)"
  by (auto simp: chosen_def best_fit_None find_None_iff not_le split: search_policy.splits)

lemma chosen_Some:
  assumes "chosen s ns n bu = Some p"
  shows "(p, True) \<in> set ns \<and> n \<le> bsize s p"
proof (cases "search_policy s")
  case BEST
  with assms best_fit_Some [of "bsize s" n None "search_order bu ns" p] show ?thesis
    by (simp add: chosen_def in_frees_iff)
next
  case FIRST
  with assms have "p \<in> set (search_order bu ns) \<and> n \<le> bsize s p"
    by (auto simp: chosen_def find_Some_iff simp del: set_search_order)
  then show ?thesis by (simp add: in_frees_iff)
qed

section \<open>The invariant\<close>

definition represents :: "free_list \<Rightarrow> region list \<Rightarrow> bool" where
  "represents s rs \<longleftrightarrow> (\<exists>ns. links s ns \<and> view s ns = rs)"

text \<open>The range of addresses the list manages, relative to its offset.\<close>

abbreviation lo :: "free_list \<Rightarrow> nat" where
  "lo s \<equiv> shrink_size s"

abbreviation hi :: "free_list \<Rightarrow> nat" where
  "hi s \<equiv> shrink_size s + max_size_bytes s"

definition fl_inv :: "free_list \<Rightarrow> region list \<Rightarrow> bool" where
  "fl_inv s rs \<longleftrightarrow>
     represents s rs \<and> tiled (lo s) (hi s) rs \<and> coalesced rs \<and>
     lowest_occupied s = lowest rs \<and> 0 < alignment s \<and> 0 < min_allocation_size s \<and>
     hi s + offset_bytes s < 2 ^ 64"

lemma view_split:
  assumes "view s ns = A @ (a, n, f) # B"
  obtains xs p ys where "ns = xs @ (p, f) # ys" "view s xs = A" "view s ys = B"
    "address s p = a" "bsize s p = n"
proof -
  from assms obtain xs nd ys where "ns = xs @ nd # ys" "view s xs = A" "view s ys = B"
    "view s [nd] = [(a, n, f)]"
    unfolding view_def by (force simp: map_eq_append_conv map_eq_Cons_conv)
  then show thesis by (cases nd) (auto intro: that)
qed

lemma view_mem: "(p, f) \<in> set ns \<Longrightarrow> (address s p, bsize s p, f) \<in> set (view s ns)"
  by (force simp: view_def)

lemma frees_view:
  "(\<exists>p \<in> set (frees ns). P (address s p) (bsize s p)) \<longleftrightarrow> (\<exists>a n. (a, n, True) \<in> set (view s ns) \<and> P a n)"
  by (force simp: view_def in_frees_iff)

section \<open>Carving refines the specification\<close>

lemma slice_refines:
  assumes L: "links s (xs @ (p, True) # ys)"
    and on: "off + n \<le> bsize s p" "0 < n" and b: "address s p + bsize s p < 2 ^ 64"
  shows "\<exists>q s' ns'. allocate_slice_of_free_block s p off n = (Inr q, s') \<and> links s' ns' \<and>
    view s' ns' = view s xs @ carve (address s p) (bsize s p) off n @ view s ys \<and>
    address s' q = address s p + off \<and> frame s s'"
proof -
  let ?a = "address s p" and ?m = "bsize s p" and ?q = "fresh_ptr s"
  have w: "add64 ?a off = ?a + off" "add64 (?a + off) n = ?a + off + n" "add64 ?a ?m = ?a + ?m"
    using on b by (simp_all add: no_wrap)
  note ql = links_fresh [OF L order_refl]
  note slice = allocate_slice_of_free_block_def Let_def w
  consider (whole) "off = 0" "n = ?m" | (left) "off = 0" "n < ?m"
    | (right) "0 < off" "off + n = ?m" | (middle) "0 < off" "off + n < ?m"
    using on by linarith
  then show ?thesis
  proof cases
    case whole
    from links_allocate_entire [OF L] obtain s' where
      s': "allocate_entire_free_block s p = (Inr (), s')" "links s' (xs @ (p, False) # ys)"
      "\<forall>zs. view s' zs = view s zs" "frame s s'" by blast
    have "address s' p = ?a" "bsize s' p = ?m"
      using s'(3)[rule_format, of "[(p, True)]"] by simp_all
    moreover from this have "view s' (xs @ (p, False) # ys) = view s xs @ carve ?a ?m off n @ view s ys"
      using s'(3) whole by (simp add: carve_def)
    moreover have "allocate_slice_of_free_block s p off n = (Inr p, s')"
      using s'(1) whole w by (simp add: slice)
    ultimately show ?thesis using s' whole by auto
  next
    case left
    define s' where "s' = update_left_aligned_allocated_block_connections (snd (Block ?a n s)) p ?q"
    note R = links_left [OF L s'_def]
    have "allocate_slice_of_free_block s p off n = (Inr ?q, s')"
      using left on w by (simp add: slice s'_def Block_def new_block_def)
    moreover have "view s' (xs @ (?q, False) # (p, True) # ys) =
        view s xs @ carve ?a ?m off n @ view s ys"
      using R(2) left on b by (simp add: carve_def no_wrap)
    moreover have "address s' ?q = ?a + off"
      using ql left by (simp add: s'_def update_left_aligned_allocated_block_connections_def Let_def
          Block_def new_block_def)
    ultimately show ?thesis using R(1,3) by blast
  next
    case right
    define s' where
      "s' = update_right_aligned_allocated_block_connections (snd (Block (?a + off) n s)) p ?q"
    note R = links_right [OF L s'_def]
    have "allocate_slice_of_free_block s p off n = (Inr ?q, s')"
      using right on w by (simp add: slice s'_def Block_def new_block_def)
    moreover have "view s' (xs @ (p, True) # (?q, False) # ys) =
        view s xs @ carve ?a ?m off n @ view s ys"
      using R(2) right on b by (auto simp: carve_def no_wrap)
    moreover have "address s' ?q = ?a + off"
      by (simp add: s'_def update_right_aligned_allocated_block_connections_def Let_def
          Block_def new_block_def)
    ultimately show ?thesis using R(1,3) by blast
  next
    case middle
    define s' where "s' = allocate_middle (snd (Block (?a + off) n s)) p ?q off n"
    define r where "r = sub64 (add64 ?a ?m) (add64 (add64 ?a off) n)"
    note R = links_middle [OF L s'_def refl r_def refl]
    have "r = ?m - off - n" using middle w b by (simp add: r_def no_wrap)
    moreover have "allocate_slice_of_free_block s p off n = (Inr ?q, s')"
      using middle on w by (simp add: slice s'_def Block_def new_block_def)
    moreover have "address s' ?q = ?a + off"
      using ql by (simp add: s'_def allocate_middle_def Let_def Block_def new_block_def)
    ultimately show ?thesis using R middle on b
      by (intro exI [of _ ?q] exI [of _ s'] exI) (auto simp: carve_def no_wrap w)
  qed
qed

lemma represents_bounds:
  assumes "fl_inv s rs" and "(a, n, f) \<in> set rs"
  shows "lo s \<le> a" "a + n \<le> hi s" "0 < n" "a + n < 2 ^ 64" "a + n + offset_bytes s < 2 ^ 64"
  using tiled_bounds [of "lo s" "hi s" rs "(a, n, f)"] assms by (auto simp: fl_inv_def)

lemma frame_inv:
  assumes "fl_inv s rs" and "frame s s'" and "represents s' rs'" and "tiled (lo s) (hi s) rs'"
    and "coalesced rs'" and "lowest rs' = l"
  shows "fl_inv (s'\<lparr>lowest_occupied := l\<rparr>) rs'"
proof -
  have "represents (s'\<lparr>lowest_occupied := l\<rparr>) rs'"
    using assms(3) by (auto simp: represents_def links_def view_def)
  with assms show ?thesis by (auto simp: fl_inv_def frame_def same_config_def)
qed

text \<open>The effect of carving a slice and recording its address, on the invariant.\<close>

lemma carve_inv:
  assumes I: "fl_inv s (A @ (a, m, True) # B)" and on: "off + n \<le> m" "0 < n"
    and R: "represents s' (A @ carve a m off n @ B)" and F: "frame s s'"
  shows "fl_inv (update_lowest s' (a + off)) (A @ carve a m off n @ B)"
proof -
  let ?rs = "A @ (a, m, True) # B"
  from I have t: "tiled (lo s) (hi s) ?rs" and c: "coalesced ?rs"
    and l: "lowest_occupied s = lowest ?rs" by (auto simp: fl_inv_def)
  have "lowest (A @ carve a m off n @ B) =
      (case lowest_occupied s' of None \<Rightarrow> Some (a + off) | Some l \<Rightarrow> Some (min l (a + off)))"
    using lowest_carve [OF t on] F l by (simp add: frame_def)
  from frame_inv [OF I F R tiled_carve [OF t on] coalesced_carve [OF c] this]
  show ?thesis by (simp add: update_lowest_def)
qed

definition placed :: "bool \<Rightarrow> addr \<Rightarrow> u64 \<Rightarrow> u64 \<Rightarrow> addr" where
  "placed bottom_up a m n = (if bottom_up then a else a + (m - n))"

definition limited :: "addr \<Rightarrow> u64 \<Rightarrow> tt_error + addr option" where
  "limited a limit = (if a < limit then Inl (Tt_throw ''Out of Memory: below address limit'')
                      else Inr (Some a))"

text \<open>
  The region the search policy picks: the smallest that fits, or the first in the search
  direction.
\<close>

definition preferred :: "search_policy \<Rightarrow> bool \<Rightarrow> region list \<Rightarrow> u64 \<Rightarrow> addr \<Rightarrow> u64 \<Rightarrow> bool" where
  "preferred pol bottom_up rs n a m \<longleftrightarrow>
     (\<forall>b k. (b, k, True) \<in> set rs \<longrightarrow> n \<le> k \<longrightarrow>
        (case pol of BEST \<Rightarrow> m \<le> k | FIRST \<Rightarrow> if bottom_up then a \<le> b else b \<le> a))"

lemma sorted_frees: "tiled b e (view s ns) \<Longrightarrow> sorted_wrt (\<lambda>p q. address s p \<le> address s q) (frees ns)"
proof (induction ns arbitrary: b)
  case Nil
  then show ?case by simp
next
  case (Cons nd ns)
  obtain p f where nd: "nd = (p, f)" by fastforce
  from Cons.prems nd have t: "tiled (b + bsize s p) e (view s ns)" and p: "address s p = b" by auto
  have "address s p \<le> address s q" if "q \<in> set (frees ns)" for q
    using tiled_bounds [OF t view_mem [of q True ns s]] that p by (auto simp: in_frees_iff)
  with Cons.IH [OF t] nd show ?case by simp
qed

lemma find_sorted:
  assumes "find P xs = Some x" and "sorted_wrt R xs" and "y \<in> set xs" and "P y"
  shows "y = x \<or> R x y"
  using assms
proof (induction xs)
  case Nil
  then show ?case by simp
next
  case (Cons z xs)
  then show ?case by (auto split: if_splits)
qed

lemma chosen_preferred:
  assumes c: "chosen s ns n bu = Some p" and t: "tiled b e (view s ns)"
  shows "preferred (search_policy s) bu (view s ns) n (address s p) (bsize s p)"
  unfolding preferred_def
proof (intro allI impI)
  fix b k
  assume "(b, k, True) \<in> set (view s ns)" and k: "n \<le> k"
  then obtain q where q: "q \<in> set (search_order bu ns)" "b = address s q" "k = bsize s q"
    by (auto simp: view_def in_frees_iff)
  show "case search_policy s of BEST \<Rightarrow> bsize s p \<le> k
      | FIRST \<Rightarrow> if bu then address s p \<le> b else b \<le> address s p"
  proof (cases "search_policy s")
    case BEST
    with c best_fit_Some [of "bsize s" n None "search_order bu ns" p] q k show ?thesis
      by (auto simp: chosen_def simp del: set_search_order)
  next
    case FIRST
    let ?R = "\<lambda>p q. if bu then address s p \<le> address s q else address s q \<le> address s p"
    have "sorted_wrt ?R (search_order bu ns)"
      using sorted_frees [OF t] by (simp add: search_order_def sorted_wrt_rev)
    with FIRST c find_sorted [of "\<lambda>p. n \<le> bsize s p" "search_order bu ns" p ?R q] q k show ?thesis
      by (auto simp: chosen_def simp del: set_search_order)
  qed
qed

lemma allocate_refines:
  assumes I: "fl_inv s rs" and n: "n = request_size s size_bytes" "0 < n"
  shows "(\<forall>a m. (a, m, True) \<in> set rs \<longrightarrow> m < n) \<and>
           allocate s size_bytes bu limit = Some (Inr None, s) \<or>
         (\<exists>A a m B s'. rs = A @ (a, m, True) # B \<and> n \<le> m \<and>
           preferred (search_policy s) bu rs n a m \<and>
           allocate s size_bytes bu limit =
             Some (limited (placed bu a m n + offset_bytes s) limit, s') \<and>
           fl_inv s' (A @ carve a m (placed bu a m n - a) n @ B) \<and> same_config s s')"
proof -
  from I obtain ns where L: "links s ns" and v: "view s ns = rs"
    by (auto simp: fl_inv_def represents_def)
  note sc = search_chosen [OF L, of n bu]
  show ?thesis
  proof (cases "chosen s ns n bu")
    case None
    then have "\<not> (\<exists>p \<in> set (frees ns). n \<le> bsize s p)" by (auto simp: chosen_None)
    then have "\<forall>a m. (a, m, True) \<in> set rs \<longrightarrow> m < n"
      using frees_view [of ns "\<lambda>_ m. n \<le> m" s] v by (auto simp: not_le)
    with None sc n show ?thesis by (simp add: allocate_def Let_def)
  next
    case (Some p)
    from chosen_Some [OF Some] obtain xs ys where ns: "ns = xs @ (p, True) # ys"
      and nm: "n \<le> bsize s p" by (auto dest: split_list)
    define a where "a = address s p"
    define m where "m = bsize s p"
    define off where "off = placed bu a m n - a"
    have rs: "rs = view s xs @ (a, m, True) # view s ys" using v ns by (simp add: a_def m_def)
    note B = represents_bounds [OF I, of a m True, unfolded rs, simplified]
    from nm have off: "off + n \<le> m" "off = (if bu then 0 else m - n)"
      by (auto simp: off_def placed_def m_def)
    from slice_refines [OF L [unfolded ns], of off n] off n(2) B(4) obtain q s1 ns' where
      sl: "allocate_slice_of_free_block s p off n = (Inr q, s1)" and L1: "links s1 ns'"
      and v1: "view s1 ns' = view s xs @ carve a m off n @ view s ys"
      and q: "address s1 q = a + off" and F: "frame s s1" by (auto simp: a_def m_def)
    define s' where "s' = update_lowest s1 (a + off)"
    from L1 v1 have "represents s1 (view s xs @ carve a m off n @ view s ys)"
      by (auto simp: represents_def)
    from carve_inv [OF I [unfolded rs] off(1) n(2) this F]
    have I': "fl_inv s' (view s xs @ carve a m off n @ view s ys)" by (simp add: s'_def)
    have o: "(if bu then 0 else sub64 (sub64 (add64 a m) n) a) = off"
      using off B(4) nm by (simp add: m_def no_wrap)
    have fr: "offset_bytes s1 = offset_bytes s" using F by (simp add: frame_def same_config_def)
    have pl: "placed bu a m n = a + off" using nm by (auto simp: off_def placed_def m_def)
    have "add64 (a + off) (offset_bytes s) = placed bu a m n + offset_bytes s"
      using B(5) off n(2) by (simp add: pl no_wrap)
    then have "allocate s size_bytes bu limit =
        Some (limited (placed bu a m n + offset_bytes s) limit, s')"
      unfolding allocate_def Let_def n(1) [symmetric] sc Some
      by (simp add: o [unfolded a_def m_def] sl q fr s'_def update_lowest_def limited_def)
    moreover have "same_config s s'"
      using F by (simp add: s'_def frame_def same_config_def update_lowest_def)
    moreover have "preferred (search_policy s) bu rs n a m"
      using chosen_preferred [OF Some] I v by (auto simp: fl_inv_def a_def m_def)
    ultimately show ?thesis using rs I' nm
      by (intro disjI2 exI [of _ "view s xs"] exI [of _ a] exI [of _ m] exI [of _ "view s ys"]
          exI [of _ s']) (auto simp: off_def m_def)
  qed
qed

section \<open>Allocation at a given address\<close>

definition covers :: "addr \<Rightarrow> u64 \<Rightarrow> addr \<Rightarrow> u64 \<Rightarrow> bool" where
  "covers st n a m \<longleftrightarrow> a \<le> st \<and> st + n \<le> a + m"

lemma allocate_at_loop_find:
  assumes "dll (next_free s) pv a ps None" and "0 < n" and "st + n < 2 ^ 64"
    and "\<And>p. p \<in> set ps \<Longrightarrow> address s p + bsize s p < 2 ^ 64"
  shows "allocate_at_loop s st n (hd_opt ps None) =
    Some (case find (\<lambda>p. covers st n (address s p) (bsize s p)) ps of
            None \<Rightarrow> (Inr False, s)
          | Some p \<Rightarrow> found (allocate_slice_of_free_block s p (st - address s p) n))"
  using assms
proof (induction ps arbitrary: a)
  case Nil
  then show ?case by (simp add: allocate_at_loop.simps)
next
  case (Cons p ps)
  have IH: "allocate_at_loop s st n (hd_opt ps None) =
    Some (case find (\<lambda>p. covers st n (address s p) (bsize s p)) ps of
            None \<Rightarrow> (Inr False, s)
          | Some p \<Rightarrow> found (allocate_slice_of_free_block s p (st - address s p) n))"
    by (rule Cons.IH) (use Cons.prems in auto)
  have nx: "next_free s p = hd_opt ps None" using Cons.prems(1) by simp
  have w: "add64 st n = st + n" "add64 (address s p) (bsize s p) = address s p + bsize s p"
    "address s p \<le> st \<Longrightarrow> sub64 st (address s p) = st - address s p"
    using Cons.prems(3) Cons.prems(4) [of p] by (simp_all add: no_wrap)
  consider (no) "\<not> covers st n (address s p) (bsize s p)"
    | (exact) "covers st n (address s p) (bsize s p)" "address s p = st"
    | (inside) "covers st n (address s p) (bsize s p)" "address s p < st"
    unfolding covers_def by (metis le_neq_implies_less)
  then show ?case
    by cases (subst allocate_at_loop.simps, use IH nx w in \<open>auto simp: covers_def\<close>)+
qed

lemma allocate_at_address_refines:
  assumes I: "fl_inv s rs" and n: "n = request_size s size_bytes" "0 < n"
    and al: "alignment s dvd abs_addr" and off: "offset_bytes s \<le> abs_addr" "abs_addr + n < 2 ^ 64"
    and st: "st = abs_addr - offset_bytes s"
  shows "(\<forall>a m. (a, m, True) \<in> set rs \<longrightarrow> \<not> covers st n a m) \<and>
           allocate_at_address s abs_addr size_bytes = Some (Inr None, s) \<or>
         (\<exists>A a m B s'. rs = A @ (a, m, True) # B \<and> covers st n a m \<and>
           allocate_at_address s abs_addr size_bytes = Some (Inr (Some abs_addr), s') \<and>
           fl_inv s' (A @ carve a m (st - a) n @ B) \<and> same_config s s')"
proof -
  from I obtain ns where L: "links s ns" and v: "view s ns = rs"
    by (auto simp: fl_inv_def represents_def)
  have b: "address s p + bsize s p < 2 ^ 64" if "p \<in> set (frees ns)" for p
    using that represents_bounds(4) [OF I] view_mem [of p True ns s] v by (simp add: in_frees_iff)
  have e: "sub64 abs_addr (offset_bytes s) = st" "st + n < 2 ^ 64"
    using off st by (simp_all add: no_wrap)
  note lp = allocate_at_loop_find [OF frees_dll(1) [OF L] n(2) e(2) b, folded frees_dll(3) [OF L]]
  let ?f = "find (\<lambda>p. covers st n (address s p) (bsize s p)) (frees ns)"
  show ?thesis
  proof (cases ?f)
    case None
    then have "\<not> (\<exists>p \<in> set (frees ns). covers st n (address s p) (bsize s p))"
      by (auto simp: find_None_iff)
    then have "\<forall>a m. (a, m, True) \<in> set rs \<longrightarrow> \<not> covers st n a m"
      using frees_view [of ns "covers st n" s] v by auto
    with None lp al e n(1) show ?thesis by (simp add: allocate_at_address_def Let_def)
  next
    case (Some p)
    then have "p \<in> set (frees ns)" and cv: "covers st n (address s p) (bsize s p)"
      by (auto simp: find_Some_iff)
    then obtain xs ys where ns: "ns = xs @ (p, True) # ys"
      by (auto simp: in_frees_iff dest: split_list)
    define a where "a = address s p"
    define m where "m = bsize s p"
    have rs: "rs = view s xs @ (a, m, True) # view s ys" using v ns by (simp add: a_def m_def)
    have on: "st - a + n \<le> m" "a + (st - a) = st" using cv by (auto simp: covers_def a_def m_def)
    from slice_refines [OF L [unfolded ns], of "st - a" n] on n(2) b [of p] ns
    obtain q s1 ns' where
      sl: "allocate_slice_of_free_block s p (st - a) n = (Inr q, s1)" and L1: "links s1 ns'"
      and v1: "view s1 ns' = view s xs @ carve a m (st - a) n @ view s ys" and F: "frame s s1"
      by (auto simp: a_def m_def)
    from L1 v1 have "represents s1 (view s xs @ carve a m (st - a) n @ view s ys)"
      by (auto simp: represents_def)
    from carve_inv [OF I [unfolded rs] on(1) n(2) this F] on(2)
    have I': "fl_inv (update_lowest s1 st) (view s xs @ carve a m (st - a) n @ view s ys)" by simp
    have "allocate_at_address s abs_addr size_bytes = Some (Inr (Some abs_addr), update_lowest s1 st)"
      using Some lp al e n(1) sl by (simp add: allocate_at_address_def Let_def a_def)
    moreover have "same_config s (update_lowest s1 st)"
      using F by (simp add: frame_def same_config_def update_lowest_def)
    ultimately show ?thesis using rs I' cv unfolding a_def m_def by blast
  qed
qed

section \<open>Deallocation\<close>

lemma find_block_loop_find:
  assumes "dll (next_block s) pv a ps None"
  shows "find_block_loop s x (hd_opt ps None) = Some (find (\<lambda>p. address s p = x) ps)"
  using assms
proof (induction ps arbitrary: a)
  case Nil
  then show ?case by (simp add: find_block_loop.simps)
next
  case (Cons p ps)
  then show ?case by (subst find_block_loop.simps) auto
qed

lemma find_block_find:
  "links s ns \<Longrightarrow> find_block s x = Some (find (\<lambda>p. address s p = x) (map fst ns))"
  using find_block_loop_find [of s "prev_block s" None "map fst ns" x]
  by (simp add: find_block_def links_def)

lemma no_merge_prev:
  assumes "links s (xs @ (p, False) # ys)" and "xs = [] \<or> \<not> snd (last xs)"
  shows "merge_prev s p (prev_block s p) = (s, p, False)"
  using assms(2)
proof (cases xs rule: rev_cases)
  case Nil
  with links_segment(1) [OF assms(1)] show ?thesis by (simp add: merge_prev_def)
next
  case (snoc zs nd)
  with assms(2) obtain q where "nd = (q, False)" by (cases nd) auto
  with snoc links_segment(1) [OF assms(1)] is_allocated_iff [OF assms(1), of q False]
  show ?thesis by (simp add: merge_prev_def)
qed

lemma no_merge_next:
  assumes "links s (xs @ (p, f) # ys)" and "ys = [] \<or> \<not> snd (hd ys)"
  shows "merge_next s p m (hd_opt (map fst ys) None) = (s, False)"
  using assms(2)
proof (cases ys)
  case Nil
  then show ?thesis by (simp add: merge_next_def)
next
  case (Cons nd zs)
  with assms(2) obtain q where "nd = (q, False)" by (cases nd) auto
  with Cons is_allocated_iff [OF assms(1), of q False] show ?thesis by (simp add: merge_next_def)
qed

lemma frame_trans: "frame s s' \<Longrightarrow> frame s' s'' \<Longrightarrow> frame s s''"
  by (auto simp: frame_def same_config_def)

lemma last_view: "xs \<noteq> [] \<Longrightarrow> is_free (last (view s xs)) = snd (last xs)"
  by (cases xs rule: rev_cases) auto

lemma hd_view: "xs \<noteq> [] \<Longrightarrow> is_free (hd (view s xs)) = snd (hd xs)"
  by (cases xs) auto

lemma view_eq_Nil [simp]: "view s xs = [] \<longleftrightarrow> xs = []"
  by (simp add: view_def)

lemma release_block_refines:
  assumes L: "links s (xs @ (p, False) # ys)"
    and t: "tiled b e (view s (xs @ (p, False) # ys))" "e < 2 ^ 64"
  shows "\<exists>s' ns'. release_block s p = Some s' \<and> links s' ns' \<and> frame s s' \<and>
    view s' ns' = release (view s xs) (address s p) (bsize s p) (view s ys)"
proof (cases "xs = [] \<or> \<not> snd (last xs)")
  case True
  note S = links_segment [OF L, simplified]
  note rel = release_block_def Let_def S(2) no_merge_prev [OF L True]
  have nA: "\<not> (view s xs \<noteq> [] \<and> is_free (last (view s xs)))" using True by (auto simp: last_view)
  show ?thesis
  proof (cases "ys = [] \<or> \<not> snd (hd ys)")
    case B: True
    have nB: "\<not> (view s ys \<noteq> [] \<and> is_free (hd (view s ys)))" using B by (auto simp: hd_view)
    from links_insert_free [OF L] obtain s' where s': "insert_free s p = Some s'"
      "links s' (xs @ (p, True) # ys)" "\<forall>zs. view s' zs = view s zs" "frame s s'" by blast
    have "view s (xs @ (p, True) # ys) = release (view s xs) (address s p) (bsize s p) (view s ys)"
      using nA nB by (auto simp: release_def)
    with s' show ?thesis by (auto simp: rel no_merge_next [OF L B])
  next
    case False
    then obtain n zs where ys: "ys = (n, True) # zs" by (cases ys) auto
    obtain s' m where mn: "merge_next s p False (Some n) = (s', m)" by fastforce
    note M = links_merge_next [OF L [unfolded ys] mn]
    have "bsize s p + bsize s n < 2 ^ 64"
      using t tiled_le [of _ e "view s zs"] unfolding ys by fastforce
    then have "view s' (xs @ (p, True) # zs) =
        release (view s xs) (address s p) (bsize s p) (view s ys)"
      using M(3) nA by (auto simp: release_def ys no_wrap)
    with M mn ys show ?thesis by (auto simp: rel)
  qed
next
  case False
  then obtain q zs where xs: "xs = zs @ [(q, True)]" by (cases xs rule: rev_cases) auto
  have L': "links s (zs @ (q, True) # (p, False) # ys)" using L xs by simp
  have pv: "prev_block s p = Some q" "next_block s p = hd_opt (map fst ys) None"
    using links_segment(1,2) [OF L] xs by simp_all
  obtain s1 r m where mp: "merge_prev s p (Some q) = (s1, r, m)" by (metis prod_cases3)
  note M = links_merge_prev [OF L' mp]
  note rel = release_block_def Let_def pv mp M(1,2)
  have w: "bsize s q + bsize s p < 2 ^ 64"
    using t tiled_le [of _ e "view s ys"] unfolding xs by fastforce
  show ?thesis
  proof (cases "ys = [] \<or> \<not> snd (hd ys)")
    case B: True
    have nB: "\<not> (view s ys \<noteq> [] \<and> is_free (hd (view s ys)))" using B by (auto simp: hd_view)
    have "view s1 (zs @ (q, True) # ys) = release (view s xs) (address s p) (bsize s p) (view s ys)"
      using M(4) nB w by (auto simp: release_def xs no_wrap)
    with M no_merge_next [OF M(3) B, of True] show ?thesis by (auto simp: rel)
  next
    case False
    then obtain n us where ys: "ys = (n, True) # us" by (cases ys) auto
    obtain s' m' where mn: "merge_next s1 q True (Some n) = (s', m')" by fastforce
    note M2 = links_merge_both [OF M(3) [unfolded ys] mn]
    have "bsize s q + bsize s p + bsize s n < 2 ^ 64"
      using t tiled_le [of _ e "view s us"] unfolding xs ys by fastforce
    then have "view s' (zs @ (q, True) # us) =
        release (view s xs) (address s p) (bsize s p) (view s ys)"
      using M2(3) M(5,6,8,9) w by (auto simp: release_def xs ys no_wrap)
    with M M2 mn ys frame_trans show ?thesis by (auto simp: rel)
  qed
qed

lemma update_lowest_occupied_refines:
  assumes L: "links s ns"
  shows "update_lowest_occupied_address s = Some (s\<lparr>lowest_occupied := lowest (view s ns)\<rparr>)"
proof -
  have "skip_loop s True False (hd_opt (map fst ns) None) =
      Some (map_option fst (find (\<lambda>(p, f). f = False) ns))"
    by (rule skip_loop_forward [of _ "prev_block s" None])
       (use L is_allocated_iff [OF L] in \<open>auto simp: links_def\<close>)
  moreover have "map_option fst (find (\<lambda>r. \<not> is_free r) (view s ns)) =
      map_option (address s) (map_option fst (find (\<lambda>(p, f). f = False) ns))"
    by (induction ns) auto
  moreover have "block_head s = hd_opt (map fst ns) None" using L by (simp add: links_def)
  ultimately show ?thesis
    by (auto simp: update_lowest_occupied_address_def lowest_def split: option.splits)
qed

lemma deallocate_used:
  assumes I: "fl_inv s (A @ (a, n, False) # B)"
  shows "\<exists>s'. deallocate s (a + offset_bytes s) = Some s' \<and>
    fl_inv s' (release A a n B) \<and> same_config s s'"
proof -
  let ?rs = "A @ (a, n, False) # B"
  from I obtain ns where L: "links s ns" and v: "view s ns = ?rs"
    by (auto simp: fl_inv_def represents_def)
  from v obtain xs p ys where ns: "ns = xs @ (p, False) # ys" and va: "view s xs = A" "view s ys = B"
    and p: "address s p = a" "bsize s p = n" by (rule view_split)
  from I have t: "tiled (lo s) (hi s) ?rs" and c: "coalesced ?rs" and h: "hi s < 2 ^ 64"
    and l: "lowest_occupied s = lowest ?rs" by (auto simp: fl_inv_def)
  have w: "sub64 (a + offset_bytes s) (offset_bytes s) = a"
    using represents_bounds(5) [OF I, of a n False] by (simp add: no_wrap)
  have "address s z \<noteq> a" if "z \<in> set (map fst xs)" for z
  proof
    assume "address s z = a"
    moreover from that obtain f where "(z, f) \<in> set xs" by auto
    then have "(address s z, bsize s z, f) \<in> set A" using view_mem va(1) by force
    moreover from t obtain k where "tiled (lo s) a A" by auto
    ultimately show False using tiled_bounds by fastforce
  qed
  then have "find (\<lambda>q. address s q = a) (map fst xs) = None" by (auto simp: find_None_iff)
  then have fb: "find_block s a = Some (Some p)"
    using find_block_find [OF L, of a] p ns by (simp add: find_append)
  have al: "is_allocated s p" using is_allocated_iff [OF L, of p False] ns by simp
  from release_block_refines [OF L [unfolded ns], of "lo s" "hi s"] t h v ns va p
  obtain s1 ns1 where rb: "release_block s p = Some s1" and L1: "links s1 ns1" and F: "frame s s1"
    and v1: "view s1 ns1 = release A a n B" by auto
  note R = release_facts [OF t c]
  have rep: "represents s1 (release A a n B)" using L1 v1 by (auto simp: represents_def)
  show ?thesis
  proof (cases "lowest ?rs = Some a")
    case True
    define s' where "s' = s1\<lparr>lowest_occupied := lowest (release A a n B)\<rparr>"
    have "deallocate s (a + offset_bytes s) = Some s'"
      using True w fb al rb F l update_lowest_occupied_refines [OF L1] v1
      by (simp add: deallocate_def Let_def frame_def s'_def)
    moreover have "fl_inv s' (release A a n B)"
      unfolding s'_def by (rule frame_inv [OF I F rep R(1,2) refl])
    ultimately show ?thesis using F by (auto simp: s'_def frame_def same_config_def)
  next
    case False
    then obtain k where k: "lowest A = Some k" by (cases "lowest A") (auto simp: lowest_append)
    have "lowest (release A a n B) = lowest_occupied s1"
      using R(4) k l F by (simp add: lowest_append frame_def)
    from frame_inv [OF I F rep R(1,2) this] have "fl_inv s1 (release A a n B)" by simp
    moreover have "deallocate s (a + offset_bytes s) = Some s1"
      using False w fb al rb F l by (simp add: deallocate_def Let_def frame_def)
    ultimately show ?thesis using F by (auto simp: frame_def)
  qed
qed

text \<open>An address at which no allocated block starts is ignored.\<close>

lemma deallocate_other:
  assumes I: "fl_inv s rs" and x: "\<And>n. (sub64 x (offset_bytes s), n) \<notin> used rs"
  shows "deallocate s x = Some s"
proof -
  from I obtain ns where L: "links s ns" and v: "view s ns = rs"
    by (auto simp: fl_inv_def represents_def)
  let ?f = "find (\<lambda>q. address s q = sub64 x (offset_bytes s)) (map fst ns)"
  show ?thesis
  proof (cases ?f)
    case None
    with find_block_find [OF L] show ?thesis by (simp add: deallocate_def Let_def)
  next
    case (Some p)
    then have "p \<in> set (map fst ns)" and ad: "address s p = sub64 x (offset_bytes s)"
      by (force simp: find_Some_iff)+
    then obtain f where m: "(p, f) \<in> set ns" by auto
    from view_mem [OF m, of s] v ad x [of "bsize s p"] have "f"
      by (cases f) (auto simp: in_used_iff)
    with is_allocated_iff [OF L m] Some find_block_find [OF L]
    show ?thesis by (simp add: deallocate_def Let_def)
  qed
qed

section \<open>Construction, statistics and reports\<close>

lemma free_list_new_inv:
  assumes "0 < al" and "al dvd off" and "0 < min_alloc" and "0 < sz" and "sz + off < 2 ^ 64"
  shows "\<exists>s. free_list_new sz off min_alloc al pol = Inr (Some s) \<and> fl_inv s [(0, sz, True)] \<and>
    alignment s = al \<and> offset_bytes s = off \<and> max_size_bytes s = sz \<and>
    min_allocation_size s = min_alloc \<and> shrink_size s = 0 \<and> search_policy s = pol"
proof -
  obtain s where eq: "free_list_new sz off min_alloc al pol = Inr (Some s)" and
    f: "alignment s = al \<and> offset_bytes s = off \<and> max_size_bytes s = sz \<and>
      min_allocation_size s = min_alloc \<and> shrink_size s = 0 \<and> search_policy s = pol"
    and "links s [(0, True)]" and "view s [(0, True)] = [(0, sz, True)]"
    and "lowest_occupied s = None"
    using assms by (auto simp: free_list_new_def init_def unlink_loop.simps Let_def Block_def
        new_block_def links_def)
  then have "fl_inv s [(0, sz, True)]"
    using assms by (auto simp: fl_inv_def represents_def coalesced_def)
  with eq f show ?thesis by blast
qed

lemma available_loop_refines:
  assumes "dll (next_free s) pv a ps None"
    and "\<And>p. p \<in> set ps \<Longrightarrow> address s p + bsize s p < 2 ^ 64"
  shows "available_loop s n (hd_opt ps None) acc =
    Some (acc @ map (\<lambda>p. (address s p, address s p + bsize s p - n)) (filter (\<lambda>p. n \<le> bsize s p) ps))"
  using assms
proof (induction ps arbitrary: a acc)
  case Nil
  then show ?case by (simp add: available_loop.simps)
next
  case (Cons p ps)
  from Cons.prems(2) [of p] have
    "n \<le> bsize s p \<Longrightarrow> sub64 (add64 (address s p) (bsize s p)) n = address s p + bsize s p - n"
    by (simp add: no_wrap)
  with Cons show ?case by (subst available_loop.simps) auto
qed

lemma available_addresses_refines:
  assumes I: "fl_inv s rs" and n: "n = request_size s size_bytes"
  shows "available_addresses s size_bytes =
    Some (map (\<lambda>(a, m, f). (a, a + m - n)) (filter (\<lambda>(a, m, f). f \<and> n \<le> m) rs))"
proof -
  from I obtain ns where L: "links s ns" and v: "view s ns = rs"
    by (auto simp: fl_inv_def represents_def)
  have b: "address s p + bsize s p < 2 ^ 64" if "p \<in> set (frees ns)" for p
    using that represents_bounds(4) [OF I] view_mem [of p True ns s] v by (simp add: in_frees_iff)
  have "map (\<lambda>p. (address s p, address s p + bsize s p - n))
        (filter (\<lambda>p. n \<le> bsize s p) (frees ns)) =
      map (\<lambda>(a, m, f). (a, a + m - n)) (filter (\<lambda>(a, m, f). f \<and> n \<le> m) (view s ns))"
    by (induction ns) auto
  with available_loop_refines [OF frees_dll(1) [OF L] b, of n "[]"] v n frees_dll(3) [OF L]
  show ?thesis by (simp add: available_addresses_def)
qed

lemma dump_blocks_loop_refines:
  assumes "dll (next_block s) pv a ps None"
  shows "dump_blocks_loop s (hd_opt ps None) out = Some (out @ map (dump_block s) ps)"
  using assms
proof (induction ps arbitrary: a out)
  case Nil
  then show ?case by (simp add: dump_blocks_loop.simps)
next
  case (Cons p ps)
  then show ?case by (subst dump_blocks_loop.simps) auto
qed

lemma dump_blocks_refines:
  assumes I: "fl_inv s rs"
  shows "dump_blocks s = Some (map (\<lambda>(a, n, f). (a + offset_bytes s, n, \<not> f)) rs)"
proof -
  from I obtain ns where L: "links s ns" and v: "view s ns = rs"
    by (auto simp: fl_inv_def represents_def)
  have "dump_block s p = (address s p + offset_bytes s, bsize s p, \<not> f)" if "(p, f) \<in> set ns" for p f
    using represents_bounds(5) [OF I] view_mem [OF that, of s] v is_allocated_iff [OF L that]
    by (fastforce simp: dump_block_def no_wrap)
  then have "map (dump_block s) (map fst ns) =
      map (\<lambda>(a, n, f). (a + offset_bytes s, n, \<not> f)) (view s ns)"
    by (auto simp: view_def)
  moreover have "dump_blocks s = Some (map (dump_block s) (map fst ns))"
    using dump_blocks_loop_refines [of s "prev_block s" None "map fst ns" "[]"] L
    by (simp add: dump_blocks_def links_def)
  ultimately show ?thesis using v by simp
qed

definition stats_of :: "u64 \<Rightarrow> region list \<Rightarrow> statistics \<Rightarrow> bool" where
  "stats_of cap rs st \<longleftrightarrow>
     total_allocatable_size_bytes st = cap \<and> total_allocated_bytes st = bytes False rs \<and>
     total_free_bytes st = bytes True rs \<and>
     largest_free_block_bytes st = largest rs"

lemma statistics_loop_refines:
  assumes "dll (next_block s) pv a (map fst ns) None"
    and "\<And>p f. (p, f) \<in> set ns \<Longrightarrow> is_allocated s p \<longleftrightarrow> \<not> f"
    and "stats_of cap pre st"
    and "bytes True (pre @ view s ns) + bytes False (pre @ view s ns) < 2 ^ 64"
  shows "\<exists>st'. statistics_loop s (hd_opt (map fst ns) None) st = Some st' \<and>
    stats_of cap (pre @ view s ns) st'"
  using assms
proof (induction ns arbitrary: a pre st)
  case Nil
  then show ?case by (simp add: statistics_loop.simps)
next
  case (Cons nd ns)
  obtain p f where nd: "nd = (p, f)" by fastforce
  let ?pre' = "pre @ [(address s p, bsize s p, f)]"
  let ?st1 = "st\<lparr>total_free_bytes := add64 (total_free_bytes st) (bsize s p)\<rparr>"
  define st1 where "st1 = (if is_allocated s p
     then st\<lparr>total_allocated_bytes := add64 (total_allocated_bytes st) (bsize s p)\<rparr>
     else if largest_free_block_bytes ?st1 \<le> bsize s p
          then ?st1\<lparr>largest_free_block_bytes := bsize s p,
                 largest_free_block_addrs := largest_free_block_addrs ?st1 @
                   [add64 (address s p) (offset_bytes s) mod 2 ^ 32]\<rparr>
          else ?st1)"
  have al: "is_allocated s p \<longleftrightarrow> \<not> f" and nx: "next_block s p = hd_opt (map fst ns) None"
    using Cons.prems(1,2) nd by auto
  have "stats_of cap ?pre' st1"
    using Cons.prems(3,4) al unfolding stats_of_def nd st1_def by (auto simp: no_wrap max_def)
  then have "\<exists>st'. statistics_loop s (hd_opt (map fst ns) None) st1 = Some st' \<and>
      stats_of cap (?pre' @ view s ns) st'"
    by (rule Cons.IH [rotated 2]) (use Cons.prems nd in auto)
  moreover have "statistics_loop s (hd_opt (map fst (nd # ns)) None) st =
      statistics_loop s (hd_opt (map fst ns) None) st1"
    by (subst statistics_loop.simps) (simp add: Let_def nd nx st1_def)
  ultimately show ?case using nd by simp
qed

lemma get_statistics_refines:
  assumes I: "fl_inv s rs"
  shows "\<exists>st. get_statistics s = Some st \<and> stats_of (max_size_bytes s) rs st"
proof -
  from I obtain ns where L: "links s ns" and v: "view s ns = rs"
    by (auto simp: fl_inv_def represents_def)
  from I have t: "tiled (lo s) (hi s) rs" and h: "hi s < 2 ^ 64" by (auto simp: fl_inv_def)
  from tiled_bytes [OF t] have tot: "bytes True rs + bytes False rs = max_size_bytes s" by simp
  let ?st0 = "\<lparr>total_allocatable_size_bytes = max_size_bytes s, total_allocated_bytes = 0,
              total_free_bytes = 0, largest_free_block_bytes = 0,
              largest_free_block_addrs = []\<rparr>"
  from statistics_loop_refines [of s "prev_block s" None ns "max_size_bytes s" "[]" ?st0]
    L is_allocated_iff [OF L] tot h v
  obtain st where st: "statistics_loop s (block_head s) ?st0 = Some st"
    and so: "stats_of (max_size_bytes s) rs st" by (auto simp: links_def stats_of_def)
  show ?thesis
  proof (cases "total_allocated_bytes st = 0")
    case False
    with st so show ?thesis by (simp add: get_statistics_def)
  next
    case True
    then have z: "bytes False rs = 0" using so by (simp add: stats_of_def)
    have "bytes False rs = 0 \<Longrightarrow> \<forall>r \<in> set rs. 0 < fst (snd r) \<Longrightarrow> \<forall>r \<in> set rs. is_free r"
      by (induction rs) (force split: if_splits)+
    then have "\<forall>r \<in> set rs. is_free r" using z tiled_bounds [OF t] by blast
    with I have "rs = [] \<or> rs = [(lo s, max_size_bytes s, True)]"
      by (cases rs; cases "tl rs") (auto simp: fl_inv_def coalesced_def)
    then have "stats_of (max_size_bytes s) rs (st\<lparr>total_free_bytes := max_size_bytes s,
        largest_free_block_bytes := max_size_bytes s\<rparr>)"
      using so t by (auto simp: stats_of_def)
    with st True show ?thesis by (simp add: get_statistics_def)
  qed
qed

end
