(* ===== verification/Free_List_Resize.thy ===== *)
theory Free_List_Resize
  imports Free_List_Correct
begin

text \<open>
  Shrinking the managed range from below and restoring it
  (\<open>FreeList::shrink_size\<close>, \<open>FreeList::reset_size\<close>), and \<open>FreeList::clear\<close>.
\<close>

lemma shrink_head_part:
  assumes L: "links s ((p, True) # ys)" and a: "address s p = 0"
    and n: "amount < bsize s p" "bsize s p < 2 ^ 64"
  shows "\<exists>s'. shrink_head s amount = (Inr (), s') \<and> links s' ((p, True) # ys) \<and> frame s s' \<and>
    view s' ((p, True) # ys) = (amount, bsize s p - amount, True) # view s ys"
proof -
  define s' where "s' = s\<lparr>address := (address s)(p := amount),
      bsize := (bsize s)(p := sub64 (bsize s p) amount)\<rparr>"
  have "free_block_head s = Some p" using L by (simp add: links_def)
  then have "shrink_head s amount = (Inr (), s')" using a n by (simp add: shrink_head_def s'_def)
  moreover have "links s' ((p, True) # ys)" using L by (simp add: links_def s'_def)
  moreover have "view s' ys = view s ys"
    by (rule view_cong) (use L in \<open>auto simp: s'_def links_def\<close>)
  then have "view s' ((p, True) # ys) = (amount, bsize s p - amount, True) # view s ys"
    using n by (simp add: s'_def no_wrap)
  moreover have "frame s s'" by (simp add: frame_def same_config_def s'_def)
  ultimately show ?thesis by blast
qed

lemma shrink_head_whole:
  assumes L: "links s ((p, True) # ys)" and n: "\<not> amount < bsize s p" and ne: "ys \<noteq> []"
  shows "\<exists>s'. shrink_head s amount = (Inr (), s') \<and> links s' ys \<and> frame s s' \<and>
    view s' ys = view s ys"
proof -
  obtain q f zs where ys: "ys = (q, f) # zs" using ne by (cases ys) auto
  have hd: "free_block_head s = Some p" "block_head s = Some p" "next_block s p = Some q"
    "next_free s p = hd_opt (frees ys) None" using L ys by (simp_all add: links_def)
  define s' where "s' = s\<lparr>block_head := Some q, prev_block := (prev_block s)(q := None),
      prev_free := set_at (hd_opt (frees ys) None) None (prev_free s),
      free_block_head := hd_opt (frees ys) None,
      free_block_tail := (if frees ys = [] then None else free_block_tail s)\<rparr>"
  have "shrink_head s amount = (Inr (), s')"
    using n hd by (cases "frees ys") (simp_all add: shrink_head_def s'_def)
  moreover have "links s' ([] @ [] @ ys)"
    by (rule links_splice [where s = s and ms = "[(p, True)]"])
       (use L ys in \<open>simp_all add: s'_def hd links_def opt_ends_ne\<close>)
  moreover have "view s' ys = view s ys" by (rule view_cong) (simp add: s'_def)
  moreover have "frame s s'" by (simp add: frame_def same_config_def s'_def)
  ultimately show ?thesis by auto
qed

text \<open>The tiling after cutting \<open>amount\<close> bytes off its start.\<close>

definition cut :: "u64 \<Rightarrow> region list \<Rightarrow> region list" where
  "cut amount rs =
     (case rs of
        (a, m, f) # B \<Rightarrow> if amount < m then (amount, m - amount, f) # B else B
      | [] \<Rightarrow> [])"

lemma shrink_refines:
  assumes I: "fl_inv s rs" and z: "shrink_size s = 0" and n: "0 < amount" "amount \<le> max_size_bytes s"
    and l: "\<And>a k. (a, k) \<in> used rs \<Longrightarrow> amount \<le> a" and ne: "rs \<noteq> [(0, amount, True)]"
  shows "\<exists>s'. shrink s amount True = (Inr (), s') \<and> fl_inv s' (cut amount rs) \<and>
    shrink_size s' = amount \<and> max_size_bytes s' = max_size_bytes s - amount \<and>
    offset_bytes s' = offset_bytes s \<and> alignment s' = alignment s"
proof -
  from I have t: "tiled 0 (max_size_bytes s) rs" and c: "coalesced rs"
    and lo: "lowest_occupied s = lowest rs" and bd: "max_size_bytes s + offset_bytes s < 2 ^ 64"
    using z by (auto simp: fl_inv_def)
  from t n obtain m f B where rs: "rs = (0, m, f) # B" and m: "0 < m"
    and tB: "tiled m (max_size_bytes s) B" by (cases rs) auto
  have f: "f" using l [of 0 m] n rs by (cases f) auto
  have B: "amount \<le> m" if "B \<noteq> []"
  proof -
    from that tB c f rs obtain k B' where "B = (m, k, False) # B'"
      by (cases B) (auto simp: coalesced_Cons)
    with l [of m k] rs f show ?thesis by simp
  qed
  have mle: "m \<le> max_size_bytes s" using tiled_le [OF tB] .
  have am: "\<not> amount < m \<Longrightarrow> amount = m \<and> B \<noteq> []"
    using B tB n ne rs f by (cases B) auto
  from I obtain ns where L: "links s ns" and v: "view s ns = rs"
    by (auto simp: fl_inv_def represents_def)
  with rs f obtain p ys where ns: "ns = (p, True) # ys" and p: "address s p = 0" "bsize s p = m"
    and vy: "view s ys = B" by (cases ns) (auto simp: view_def)
  have "\<exists>s1 ns1. shrink_head s amount = (Inr (), s1) \<and> links s1 ns1 \<and> frame s s1 \<and>
      view s1 ns1 = cut amount rs"
  proof (cases "amount < m")
    case True
    with p mle bd have "amount < bsize s p" "bsize s p < 2 ^ 64" by auto
    from shrink_head_part [OF L [unfolded ns] p(1) this] obtain s1 where
      "shrink_head s amount = (Inr (), s1)" "links s1 ((p, True) # ys)" "frame s s1"
      and v1: "view s1 ((p, True) # ys) = (amount, bsize s p - amount, True) # view s ys" by blast
    moreover have "view s1 ((p, True) # ys) = cut amount rs"
      unfolding v1 using True p vy f rs by (simp add: cut_def)
    ultimately show ?thesis by blast
  next
    case False
    with am vy have "ys \<noteq> []" by auto
    with shrink_head_whole [OF L [unfolded ns], of amount] False p vy rs show ?thesis
      by (auto simp: cut_def)
  qed
  then obtain s1 ns1 where sh: "shrink_head s amount = (Inr (), s1)" and L1: "links s1 ns1"
    and F: "frame s s1" and v1: "view s1 ns1 = cut amount rs" by blast
  define s' where "s' = s1\<lparr>max_size_bytes := max_size_bytes s - amount, shrink_size := amount\<rparr>"
  have lw: "lowest rs = Some k \<Longrightarrow> amount \<le> k" for k
    using lowest_Some_used [of rs k] l by blast
  have "shrink s amount True = (Inr (), s')"
    using n z lo lw sh F bd
    by (auto simp: shrink_def s'_def frame_def same_config_def no_wrap split: option.splits)
  moreover have "represents s' (cut amount rs)"
    using L1 v1 by (auto simp: represents_def s'_def links_def view_def)
  moreover have "tiled amount (max_size_bytes s) (cut amount rs)" "coalesced (cut amount rs)"
    "lowest (cut amount rs) = lowest rs"
    using tB c rs am f by (auto simp: cut_def coalesced_Cons)
  ultimately show ?thesis
    using I F n z bd lo by (auto simp: fl_inv_def s'_def frame_def same_config_def)
qed

text \<open>Restoring the size when the range starts with a free region: it grows downwards.\<close>

lemma reset_refines:
  assumes I: "fl_inv s ((a, m, True) # B)" and z: "0 < shrink_size s"
  shows "fl_inv (reset_size s) ((0, m + shrink_size s, True) # B) \<and> shrink_size (reset_size s) = 0 \<and>
    max_size_bytes (reset_size s) = max_size_bytes s + shrink_size s"
proof -
  let ?k = "shrink_size s"
  from I obtain ns where L: "links s ns" and v: "view s ns = (a, m, True) # B"
    by (auto simp: fl_inv_def represents_def)
  then obtain p ys where ns: "ns = (p, True) # ys" and p: "address s p = a" "bsize s p = m"
    and vy: "view s ys = B" by (cases ns) (auto simp: view_def)
  from I have t: "tiled ?k (?k + max_size_bytes s) ((a, m, True) # B)"
    and bd: "?k + max_size_bytes s + offset_bytes s < 2 ^ 64" by (auto simp: fl_inv_def)
  then have a: "a = ?k" and tB: "tiled (?k + m) (?k + max_size_bytes s) B" by auto
  from tiled_le [OF tB] bd have w: "m + ?k < 2 ^ 64" by simp
  have fh: "free_block_head s = Some p" using L ns by (simp add: links_def)
  define s' where "s' = s\<lparr>address := (address s)(p := 0), bsize := (bsize s)(p := m + ?k),
      max_size_bytes := max_size_bytes s + ?k, shrink_size := 0\<rparr>"
  have eq: "reset_size s = s'"
    using z fh a p w bd by (simp add: reset_size_def reset_head_def s'_def no_wrap)
  have "links s' ns" using L by (simp add: links_def s'_def)
  moreover have "view s' ys = view s ys"
    by (rule view_cong) (use L ns in \<open>auto simp: s'_def links_def\<close>)
  then have "view s' ns = (0, m + ?k, True) # B" using ns vy by (simp add: s'_def)
  ultimately have "represents s' ((0, m + ?k, True) # B)" by (auto simp: represents_def)
  then show ?thesis
    using I tB eq z by (auto simp: fl_inv_def s'_def coalesced_Cons ac_simps)
qed

text \<open>Shrinking and restoring is the identity on the tiling when free space is left at the start.\<close>

lemma shrink_reset_roundtrip:
  assumes I: "fl_inv s ((0, m, True) # B)" and z: "shrink_size s = 0"
    and n: "0 < amount" "amount < m"
  shows "\<exists>s'. shrink s amount True = (Inr (), s') \<and>
    fl_inv s' ((amount, m - amount, True) # B) \<and> fl_inv (reset_size s') ((0, m, True) # B)"
proof -
  let ?rs = "(0, m, True) # B"
  from I z have t: "tiled m (max_size_bytes s) B" by (auto simp: fl_inv_def)
  have "amount \<le> a" if "(a, k) \<in> used ?rs" for a k
    using used_bounds(1) [OF t, of a k] that n by simp
  with shrink_refines [OF I z n(1)] n tiled_le [OF t] obtain s' where
    s': "shrink s amount True = (Inr (), s')" "fl_inv s' (cut amount ?rs)" "shrink_size s' = amount"
    by force
  then have "fl_inv s' ((amount, m - amount, True) # B)" using n by (simp add: cut_def)
  with reset_refines [OF this] s' n show ?thesis by auto
qed

end
