(* ===== verification/Region_Interface.thy ===== *)
theory Region_Interface
  imports Region_Spec
begin

text \<open>
  The contract of an allocation algorithm towards the bank manager
  (the virtual functions of \<open>Algorithm\<close> in
  src/tt_metal/impl/allocator/algorithms/allocator_algorithm.hpp): what is held after an
  allocation and after a release. The lemmas the bank manager needs are proved from the
  contract alone.
\<close>

text \<open>Releasing a list of addresses one after the other.\<close>

primrec free_each :: "('s \<Rightarrow> addr \<Rightarrow> 's option) \<Rightarrow> addr list \<Rightarrow> 's \<Rightarrow> 's option" where
  "free_each free [] s = Some s"
| "free_each free (x # xs) s = (case free s x of None \<Rightarrow> None | Some s1 \<Rightarrow> free_each free xs s1)"

locale region_allocator =
  fixes ok :: "'s \<Rightarrow> bool"
    and held :: "'s \<Rightarrow> (addr \<times> u64) set"
    and accepts :: "'s \<Rightarrow> u64 \<Rightarrow> bool"
    and req :: "'s \<Rightarrow> u64 \<Rightarrow> u64"
    and alloc :: "'s \<Rightarrow> u64 \<Rightarrow> bool \<Rightarrow> u64 \<Rightarrow> ((tt_error + addr option) \<times> 's) option"
    and free :: "'s \<Rightarrow> addr \<Rightarrow> 's option"
  assumes held_disjoint:
      "ok s \<Longrightarrow> r \<in> held s \<Longrightarrow> q \<in> held s \<Longrightarrow> r \<noteq> q \<Longrightarrow> span r \<inter> span q = {}"
    and held_bounds: "ok s \<Longrightarrow> (x, n) \<in> held s \<Longrightarrow> 0 < n \<and> x + n < 2 ^ 64"
    and alloc_total: "ok s \<Longrightarrow> accepts s n \<Longrightarrow> \<exists>v s'. alloc s n bu lim = Some (v, s')"
    and alloc_found: "ok s \<Longrightarrow> accepts s n \<Longrightarrow> alloc s n bu lim = Some (Inr (Some x), s') \<Longrightarrow>
        ok s' \<and> held s' = insert (x, req s n) (held s) \<and> (\<forall>k. (x, k) \<notin> held s) \<and> lim \<le> x"
    and alloc_none: "ok s \<Longrightarrow> accepts s n \<Longrightarrow> alloc s n bu lim = Some (Inr None, s') \<Longrightarrow> s' = s"
    and alloc_error: "ok s \<Longrightarrow> accepts s n \<Longrightarrow> alloc s n bu lim = Some (Inl e, s') \<Longrightarrow>
        ok s' \<and> held s \<subseteq> held s'"
    and alloc_accepts: "ok s \<Longrightarrow> accepts s n \<Longrightarrow> alloc s n bu lim = Some (v, s') \<Longrightarrow>
        accepts s' = accepts s \<and> req s' = req s"
    and free_spec: "ok s \<Longrightarrow> x < 2 ^ 64 \<Longrightarrow>
        \<exists>s'. free s x = Some s' \<and> ok s' \<and> held s' = held s - {r. fst r = x} \<and>
             accepts s' = accepts s \<and> req s' = req s"
begin

text \<open>A new region overlaps no region held before.\<close>

lemma alloc_fresh:
  assumes "ok s" and "accepts s n" and "alloc s n bu lim = Some (Inr (Some x), s')"
    and "(y, k) \<in> held s"
  shows "span (x, req s n) \<inter> span (y, k) = {}"
proof -
  note A = alloc_found [OF assms(1-3)]
  with assms(4) have "(x, req s n) \<noteq> (y, k)" by auto
  with A assms(4) held_disjoint [of s' "(x, req s n)" "(y, k)"] show ?thesis by simp
qed

lemma alloc_free:
  assumes "ok s" and "accepts s n" and "alloc s n bu lim = Some (Inr (Some x), s')"
  shows "\<exists>s''. free s' x = Some s'' \<and> ok s'' \<and> held s'' = held s"
proof -
  note A = alloc_found [OF assms]
  then have "x < 2 ^ 64" using held_bounds [of s' x "req s n"] by simp
  with free_spec [of s' x] A obtain s'' where
    "free s' x = Some s''" "ok s''" "held s'' = held s' - {r. fst r = x}" by blast
  moreover have "held s' - {r. fst r = x} = held s" using A by auto
  ultimately show ?thesis by auto
qed

lemma free_each_spec:
  assumes "ok s" and "\<forall>x \<in> set xs. x < 2 ^ 64"
  shows "\<exists>s'. free_each free xs s = Some s' \<and> ok s' \<and> held s' = held s - {r. fst r \<in> set xs} \<and>
    accepts s' = accepts s \<and> req s' = req s"
  using assms
proof (induction xs arbitrary: s)
  case Nil
  then show ?case by simp
next
  case (Cons x xs)
  from free_spec [OF Cons.prems(1), of x] Cons.prems(2) obtain s1 where
    s1: "free s x = Some s1" "ok s1" "held s1 = held s - {r. fst r = x}"
    "accepts s1 = accepts s" "req s1 = req s" by auto
  from Cons.IH [OF s1(2)] Cons.prems(2) obtain s' where
    "free_each free xs s1 = Some s'" "ok s'" "held s' = held s1 - {r. fst r \<in> set xs}"
    "accepts s' = accepts s1" "req s' = req s1" by auto
  moreover have "held s1 - {r. fst r \<in> set xs} = held s - {r. fst r \<in> set (x # xs)}"
    using s1(3) by auto
  ultimately show ?case using s1 by simp
qed

lemma free_each_covering:
  assumes "ok s" and "\<forall>x \<in> set xs. x < 2 ^ 64" and "fst ` held s \<subseteq> set xs"
  shows "\<exists>s'. free_each free xs s = Some s' \<and> ok s' \<and> held s' = {}"
proof -
  have "held s - {r. fst r \<in> set xs} = {}" using assms(3) by auto
  with free_each_spec [OF assms(1,2)] show ?thesis by metis
qed

end

end
