(* ===== verification/Free_List_Props.thy ===== *)
theory Free_List_Props
  imports Free_List_Resize Region_Interface
begin

text \<open>
  The properties of the free list, with the step relation of its operations and the
  reachable states, and the interface its clients use: the locale \<open>region_allocator\<close>,
  interpreted on the free list.
\<close>

section \<open>Request sizes\<close>

lemma request_size_bounds:
  assumes "0 < alignment s" and "max (min_allocation_size s) n + alignment s \<le> 2 ^ 64"
    and k: "k = max (min_allocation_size s) n"
  shows "alignment s dvd request_size s n" "k \<le> request_size s n" "request_size s n < k + alignment s"
proof -
  have e: "(if n < min_allocation_size s then min_allocation_size s else n) = k" using k by auto
  note c = ceil_div_mult_bounds [OF assms(1), of k]
  have "add64 k (alignment s) = (k + alignment s) mod 2 ^ 64" by (simp add: add64_def)
  have "sub64 (add64 k (alignment s)) 1 = k + alignment s - 1"
  proof (cases "k + alignment s < 2 ^ 64")
    case True
    then show ?thesis using assms(1) by (simp add: no_wrap)
  next
    case False
    then have "k + alignment s = 2 ^ 64" using assms(2) k by simp
    then show ?thesis by (simp add: add64_def sub64_def)
  qed
  moreover have "(k + alignment s - 1) div alignment s * alignment s < 2 ^ 64"
    using c(3) assms(1,2) k by linarith
  ultimately have "request_size s n = (k + alignment s - 1) div alignment s * alignment s"
    unfolding request_size_def align_def Let_def e by (simp add: mul64_def)
  then show "alignment s dvd request_size s n" "k \<le> request_size s n"
    "request_size s n < k + alignment s" using c by auto
qed

definition representable :: "free_list \<Rightarrow> u64 \<Rightarrow> bool" where
  "representable s n \<longleftrightarrow> max (min_allocation_size s) n + alignment s \<le> 2 ^ 64"

lemma request_size_pos:
  assumes "fl_inv s rs" and "representable s n"
  shows "0 < request_size s n" and "n \<le> request_size s n"
  using request_size_bounds(2) [OF _ _ refl, of s n] assms
  by (auto simp: fl_inv_def representable_def)

section \<open>Steps and reachable states\<close>

text \<open>
  One rule per operation, whatever it returns. The guards say where the source is called
  correctly: sizes that the rounding can represent, addresses inside the address space, a
  shrink that leaves some memory, and a reset while the range still starts with the free
  block the shrink has left (without that guard the operation breaks the list, see
  \<open>reset_size_loses_memory\<close>).
\<close>

inductive fl_step :: "free_list \<Rightarrow> free_list \<Rightarrow> bool" where
  allocate: "representable s n \<Longrightarrow> allocate s n bu lim = Some (r, s') \<Longrightarrow> fl_step s s'"
| allocate_at: "representable s n \<Longrightarrow> offset_bytes s \<le> x \<Longrightarrow> x + request_size s n < 2 ^ 64 \<Longrightarrow>
    allocate_at_address s x n = Some (r, s') \<Longrightarrow> fl_step s s'"
| deallocate: "x < 2 ^ 64 \<Longrightarrow> deallocate s x = Some s' \<Longrightarrow> fl_step s s'"
| shrink: "k < max_size_bytes s \<Longrightarrow> shrink s k bu = (r, s') \<Longrightarrow> fl_step s s'"
| reset: "free_block_head s = Some p \<Longrightarrow> address s p = shrink_size s \<Longrightarrow> fl_step s (reset_size s)"

inductive fl_reachable :: "free_list \<Rightarrow> bool" where
  new: "0 < al \<Longrightarrow> al dvd off \<Longrightarrow> 0 < min_alloc \<Longrightarrow> 0 < sz \<Longrightarrow> sz + off < 2 ^ 64 \<Longrightarrow>
    free_list_new sz off min_alloc al pol = Inr (Some s) \<Longrightarrow> fl_reachable s"
| step: "fl_reachable s \<Longrightarrow> fl_step s s' \<Longrightarrow> fl_reachable s'"

lemma allocate_inv:
  assumes "fl_inv s rs" and "0 < request_size s n" and "allocate s n bu lim = Some (r, s')"
  shows "\<exists>rs'. fl_inv s' rs'"
  using allocate_refines [OF assms(1) refl assms(2), of bu lim] assms(1,3) by force

lemma allocate_at_inv:
  assumes I: "fl_inv s rs" and "0 < request_size s n" and "offset_bytes s \<le> x"
    and "x + request_size s n < 2 ^ 64" and eq: "allocate_at_address s x n = Some (r, s')"
  shows "\<exists>rs'. fl_inv s' rs'"
proof (cases "alignment s dvd x")
  case True
  with allocate_at_address_refines [OF I refl assms(2) True assms(3,4) refl] I eq
  show ?thesis by force
next
  case False
  with eq I show ?thesis by (auto simp: allocate_at_address_def dvd_eq_mod_eq_0)
qed

text \<open>Deallocation of any address: the region that starts there, if any, is released.\<close>

lemma deallocate_cases:
  assumes I: "fl_inv s rs" and x: "x < 2 ^ 64"
  obtains (used) A a n B s' where "rs = A @ (a, n, False) # B" "x = a + offset_bytes s"
      "deallocate s x = Some s'" "fl_inv s' (release A a n B)" "same_config s s'"
      "used (release A a n B) = used rs - {r. fst r + offset_bytes s = x}"
  | (other) "deallocate s x = Some s" "used rs - {r. fst r + offset_bytes s = x} = used rs"
proof (cases "\<exists>a n. (a, n) \<in> used rs \<and> a + offset_bytes s = x")
  case True
  then obtain a n where u: "(a, n, False) \<in> set rs" and ax: "x = a + offset_bytes s"
    by (auto simp: in_used_iff)
  then obtain A B where rs: "rs = A @ (a, n, False) # B" by (auto dest: split_list)
  from deallocate_used [OF I [unfolded rs]] ax obtain s' where s': "deallocate s x = Some s'"
    "fl_inv s' (release A a n B)" "same_config s s'" by auto
  from I rs have t: "tiled (lo s) (hi s) (A @ (a, n, False) # B)"
    and c: "coalesced (A @ (a, n, False) # B)" by (auto simp: fl_inv_def)
  from t have tA: "tiled (lo s) a A" and tB: "tiled (a + n) (hi s) B" and n: "0 < n" by auto
  have "(a, k) \<notin> used A \<union> used B" for k
    using used_bounds [OF tA, of a k] used_bounds [OF tB, of a k] n by auto
  then have "used (release A a n B) = used rs - {r. fst r + offset_bytes s = x}"
    using release_facts(3) [OF t c] rs ax by auto
  with rs ax s' show ?thesis by (rule used)
next
  case False
  have "(sub64 x (offset_bytes s), n) \<notin> used rs" for n
  proof
    assume u: "(sub64 x (offset_bytes s), n) \<in> used rs"
    then have b: "sub64 x (offset_bytes s) + n + offset_bytes s < 2 ^ 64" "0 < n"
      using represents_bounds [OF I] by (auto simp: in_used_iff)
    show False
    proof (cases "offset_bytes s \<le> x")
      case True
      with False u x show ?thesis by (auto simp: no_wrap)
    next
      case no: False
      with x b have "sub64 x (offset_bytes s) = x + (2 ^ 64 - offset_bytes s)" by (simp add: sub64_def)
      with b no show ?thesis by simp
    qed
  qed
  with deallocate_other [OF I] have "deallocate s x = Some s" by blast
  moreover have "used rs - {r. fst r + offset_bytes s = x} = used rs" using False by force
  ultimately show ?thesis by (rule other)
qed

lemma deallocate_refines:
  assumes I: "fl_inv s rs" and x: "x < 2 ^ 64"
  shows "\<exists>s' rs'. deallocate s x = Some s' \<and> fl_inv s' rs' \<and> same_config s s' \<and>
    used rs' = used rs - {r. fst r + offset_bytes s = x}"
  using assms
proof (cases rule: deallocate_cases)
  case used
  then show ?thesis by blast
next
  case other
  moreover have "same_config s s" by (simp add: same_config_def)
  ultimately show ?thesis using I by metis
qed

lemma shrink_inv:
  assumes I: "fl_inv s rs" and k: "k < max_size_bytes s" and eq: "shrink s k bu = (r, s')"
  shows "\<exists>rs'. fl_inv s' rs'"
proof (cases "k = 0 \<or> \<not> bu \<or> shrink_size s \<noteq> 0 \<or>
    (case lowest_occupied s of None \<Rightarrow> False | Some l \<Rightarrow> \<not> k \<le> l)")
  case True
  with eq I k show ?thesis by (auto simp: shrink_def split: if_splits)
next
  case False
  from I have t: "tiled (lo s) (hi s) rs" and lw: "lowest_occupied s = lowest rs"
    by (auto simp: fl_inv_def)
  have l: "k \<le> a" if u: "(a, n) \<in> used rs" for a n
  proof -
    from u obtain l where "lowest rs = Some l" using lowest_None_iff [of rs] by fastforce
    with lowest_least [OF t this u] False lw show ?thesis by auto
  qed
  have "rs \<noteq> [(0, k, True)]" using t k by auto
  moreover have "shrink_size s = 0" "0 < k" "k \<le> max_size_bytes s" using False k by auto
  ultimately obtain s1 where "shrink s k True = (Inr (), s1)" "fl_inv s1 (cut k rs)"
    using shrink_refines [OF I, of k] l by blast
  with False eq show ?thesis by auto
qed

lemma reset_inv:
  assumes I: "fl_inv s rs" and h: "free_block_head s = Some p" "address s p = shrink_size s"
  shows "\<exists>rs'. fl_inv (reset_size s) rs'"
proof (cases "shrink_size s = 0")
  case True
  with I show ?thesis by (auto simp: reset_size_def)
next
  case False
  from I obtain ns where L: "links s ns" and v: "view s ns = rs"
    by (auto simp: fl_inv_def represents_def)
  from L h have "hd_opt (frees ns) None = Some p" by (simp add: links_def)
  then have "(p, True) \<in> set ns" by (auto simp: in_frees_iff [symmetric] dest: hd_opt_in)
  from view_mem [OF this, of s] v h have m: "(lo s, bsize s p, True) \<in> set rs" by simp
  from I have t: "tiled (lo s) (hi s) rs" by (simp add: fl_inv_def)
  from m obtain r B where rs: "rs = r # B" by (cases rs) auto
  have "r = (lo s, bsize s p, True)"
    using tiled_address_unique [OF t, of r "(lo s, bsize s p, True)"] m rs t by auto
  with reset_refines [of s "lo s" "bsize s p" B] I rs False show ?thesis by auto
qed

lemma fl_step_inv:
  assumes "fl_step s s'" and I: "fl_inv s rs"
  shows "\<exists>rs'. fl_inv s' rs'"
  using assms(1)
proof cases
  case (allocate n bu lim r)
  then show ?thesis using allocate_inv [OF I request_size_pos(1) [OF I]] by blast
next
  case (allocate_at n x r)
  then show ?thesis using allocate_at_inv [OF I request_size_pos(1) [OF I]] by blast
next
  case (deallocate x)
  then show ?thesis using deallocate_refines [OF I] by fastforce
next
  case (shrink k bu r)
  then show ?thesis using shrink_inv [OF I] by blast
next
  case (reset p)
  then show ?thesis using reset_inv [OF I] by simp
qed

lemma fl_reachable_ok: "fl_reachable s \<Longrightarrow> \<exists>rs. fl_inv s rs"
proof (induction rule: fl_reachable.induct)
  case (new al off min_alloc sz pol s)
  then show ?case using free_list_new_inv [of al off min_alloc sz pol] by auto
next
  case (step s s')
  then show ?case using fl_step_inv by blast
qed

lemma lowest_Min:
  assumes t: "tiled b e rs"
  shows "lowest rs = (if used rs = {} then None else Some (Min (fst ` used rs)))"
proof (cases "lowest rs")
  case None
  then show ?thesis by (simp add: lowest_None_iff)
next
  case (Some l)
  have "finite (used rs)" by (rule finite_subset [of _ "(\<lambda>(a, n, f). (a, n)) ` set rs"]) (force simp: used_def)+
  moreover from lowest_Some_used [OF Some] have "l \<in> fst ` used rs" by force
  moreover have "l \<le> a" if "a \<in> fst ` used rs" for a using lowest_least [OF t Some] that by force
  ultimately have "Min (fst ` used rs) = l" by (intro Min_eqI) auto
  with Some show ?thesis using lowest_None_iff [of rs] by auto
qed

section \<open>The allocated regions of a list\<close>

text \<open>
  What a client can observe: the rows of the dump that are allocated, with absolute
  addresses. \<open>fl_ok\<close> hides the tiling.
\<close>

definition fl_held :: "free_list \<Rightarrow> (addr \<times> u64) set" where
  "fl_held s = (case dump_blocks s of None \<Rightarrow> {} | Some bs \<Rightarrow> {(x, n). (x, n, True) \<in> set bs})"

definition fl_ok :: "free_list \<Rightarrow> bool" where
  "fl_ok s \<longleftrightarrow> (\<exists>rs. fl_inv s rs)"

lemma fl_held_used: "fl_inv s rs \<Longrightarrow> fl_held s = (\<lambda>(a, n). (a + offset_bytes s, n)) ` used rs"
  by (force simp: fl_held_def dump_blocks_refines used_def)

lemma same_config_request:
  "same_config s s' \<Longrightarrow> request_size s' n = request_size s n \<and> representable s' n = representable s n"
  by (simp add: same_config_def request_size_def representable_def align_def)


text \<open>The laws of the interface, for the free list.\<close>

lemma fl_held_disjoint:
  assumes "fl_ok s" and "r \<in> fl_held s" and "q \<in> fl_held s" and "r \<noteq> q"
  shows "span r \<inter> span q = {}"
proof -
  from assms(1) obtain rs where I: "fl_inv s rs" by (auto simp: fl_ok_def)
  then have t: "tiled (lo s) (hi s) rs" by (simp add: fl_inv_def)
  from assms(2,3) obtain a n b m where u: "(a, n) \<in> used rs" "(b, m) \<in> used rs"
    and rq: "r = (a + offset_bytes s, n)" "q = (b + offset_bytes s, m)"
    unfolding fl_held_used [OF I] by auto
  with assms(4) have "(a, n) \<noteq> (b, m)" by auto
  from used_disjoint [OF t u this] rq used_bounds(3) [OF t u(1)] used_bounds(3) [OF t u(2)]
  show ?thesis by (auto simp: span_def disjoint_iff)
qed

lemma fl_held_bounds:
  assumes "fl_ok s" and "(x, n) \<in> fl_held s"
  shows "0 < n \<and> x + n < 2 ^ 64 \<and> offset_bytes s + shrink_size s \<le> x \<and>
    x + n \<le> offset_bytes s + shrink_size s + max_size_bytes s"
proof -
  from assms(1) obtain rs where I: "fl_inv s rs" by (auto simp: fl_ok_def)
  from assms(2) obtain a where "(a, n) \<in> used rs" "x = a + offset_bytes s"
    unfolding fl_held_used [OF I] by auto
  with represents_bounds [OF I, of a n False] show ?thesis by (auto simp: in_used_iff)
qed

lemma carve_used:
  assumes "tiled b e (A @ (a, m, True) # B)" and "off + n \<le> m" and "0 < n"
  shows "used (A @ carve a m off n @ B) = insert (a + off, n) (used (A @ (a, m, True) # B))"
    and "(a + off, k) \<notin> used (A @ (a, m, True) # B)"
proof -
  from assms have tA: "tiled b a A" and tB: "tiled (a + m) e B" by auto
  show "used (A @ carve a m off n @ B) = insert (a + off, n) (used (A @ (a, m, True) # B))"
    using assms by (auto simp: carve_facts)
  show "(a + off, k) \<notin> used (A @ (a, m, True) # B)"
    using used_bounds [OF tA, of "a + off" k] used_bounds [OF tB, of "a + off" k] assms by auto
qed

lemma allocate_cases:
  assumes I: "fl_inv s rs" and n: "representable s size_bytes"
  obtains (none) "\<forall>a m. (a, m, True) \<in> set rs \<longrightarrow> m < request_size s size_bytes"
      "allocate s size_bytes bu lim = Some (Inr None, s)"
  | (some) A a m B s' rs' x where "rs = A @ (a, m, True) # B" "request_size s size_bytes \<le> m"
      "x = placed bu a m (request_size s size_bytes)"
      "allocate s size_bytes bu lim = Some (limited (x + offset_bytes s) lim, s')"
      "rs' = A @ carve a m (x - a) (request_size s size_bytes) @ B"
      "fl_inv s' rs'" "same_config s s'"
      "used rs' = insert (x, request_size s size_bytes) (used rs)" "\<And>k. (x, k) \<notin> used rs"
      "preferred (search_policy s) bu rs (request_size s size_bytes) a m"
proof -
  let ?n = "request_size s size_bytes"
  note pos = request_size_pos(1) [OF I n]
  from allocate_refines [OF I refl pos, of bu lim] show thesis
  proof (elim disjE exE conjE)
    fix A a m B s'
    assume p: "preferred (search_policy s) bu rs ?n a m"
    assume *: "rs = A @ (a, m, True) # B" "?n \<le> m"
      "allocate s size_bytes bu lim = Some (limited (placed bu a m ?n + offset_bytes s) lim, s')"
      "fl_inv s' (A @ carve a m (placed bu a m ?n - a) ?n @ B)" "same_config s s'"
    have off: "placed bu a m ?n - a + ?n \<le> m" "a + (placed bu a m ?n - a) = placed bu a m ?n"
      using *(2) by (auto simp: placed_def)
    from I * have "tiled (lo s) (hi s) (A @ (a, m, True) # B)" by (simp add: fl_inv_def)
    from carve_used [OF this off(1) pos] off(2) * p show thesis by (intro some [OF *(1,2) refl *(3) refl]) auto
  qed (auto intro: none)
qed

lemma allocate_held:
  assumes ok: "fl_ok s" and n: "representable s size_bytes"
  obtains r s' where "allocate s size_bytes bu lim = Some (r, s')" "fl_ok s'" "same_config s s'"
    "r = Inr None \<and> s' = s \<or>
     (\<exists>x. r = limited x lim \<and> fl_held s' = insert (x, request_size s size_bytes) (fl_held s) \<and>
          (\<forall>k. (x, k) \<notin> fl_held s))"
proof -
  from ok obtain rs where I: "fl_inv s rs" by (auto simp: fl_ok_def)
  from I n show thesis
  proof (cases rule: allocate_cases [where bu = bu and lim = lim])
    case none
    with ok show ?thesis by (intro that) (auto simp: same_config_def)
  next
    case (some A a m B s' rs' x)
    then have "fl_held s' = insert (x + offset_bytes s, request_size s size_bytes) (fl_held s)"
      "\<forall>k. (x + offset_bytes s, k) \<notin> fl_held s"
      unfolding fl_held_used [OF I] fl_held_used [OF some(6)] by (auto simp: same_config_def)
    with some show ?thesis by (intro that) (auto simp: fl_ok_def)
  qed
qed

lemma limited_simps [simp]:
  "limited x lim = Inr (Some y) \<longleftrightarrow> y = x \<and> lim \<le> x" "limited x lim \<noteq> Inr None"
  "Inr (Some y) = limited x lim \<longleftrightarrow> y = x \<and> lim \<le> x" "Inr None \<noteq> limited x lim"
  by (auto simp: limited_def)

lemma deallocate_held:
  assumes ok: "fl_ok s" and x: "x < 2 ^ 64"
  shows "\<exists>s'. deallocate s x = Some s' \<and> fl_ok s' \<and> same_config s s' \<and>
    fl_held s' = fl_held s - {r. fst r = x}"
proof -
  from ok obtain rs where I: "fl_inv s rs" by (auto simp: fl_ok_def)
  from deallocate_refines [OF I x] obtain s' rs' where
    s': "deallocate s x = Some s'" "fl_inv s' rs'" "same_config s s'"
    "used rs' = used rs - {r. fst r + offset_bytes s = x}" by blast
  then have "fl_held s' = fl_held s - {r. fst r = x}"
    unfolding fl_held_used [OF I] fl_held_used [OF s'(2)] by (auto simp: same_config_def)
  with s' show ?thesis by (auto simp: fl_ok_def)
qed

interpretation fl: region_allocator fl_ok fl_held representable request_size allocate deallocate
proof
  fix s :: free_list and n bu lim and x :: addr and r :: "tt_error + addr option" and s' e
  assume ok: "fl_ok s"
  { assume n: "representable s n"
    from ok n obtain r1 s1 where A: "allocate s n bu lim = Some (r1, s1)" "fl_ok s1"
      "same_config s s1"
      "r1 = Inr None \<and> s1 = s \<or> (\<exists>x. r1 = limited x lim \<and>
         fl_held s1 = insert (x, request_size s n) (fl_held s) \<and> (\<forall>k. (x, k) \<notin> fl_held s))"
      by (rule allocate_held)
    then show "\<exists>r s'. allocate s n bu lim = Some (r, s')" by blast
    { assume "allocate s n bu lim = Some (Inr (Some x), s')"
      with A show "fl_ok s' \<and> fl_held s' = insert (x, request_size s n) (fl_held s) \<and>
        (\<forall>k. (x, k) \<notin> fl_held s) \<and> lim \<le> x" by auto }
    { assume "allocate s n bu lim = Some (Inr None, s')"
      with A show "s' = s" by auto }
    { assume "allocate s n bu lim = Some (Inl e, s')"
      with A show "fl_ok s' \<and> fl_held s \<subseteq> fl_held s'" by auto }
    { assume "allocate s n bu lim = Some (r, s')"
      with A show "representable s' = representable s \<and> request_size s' = request_size s"
        using same_config_request by auto } }
  { assume "x < 2 ^ 64"
    from deallocate_held [OF ok this] same_config_request
    show "\<exists>s'. deallocate s x = Some s' \<and> fl_ok s' \<and> fl_held s' = fl_held s - {r. fst r = x} \<and>
      representable s' = representable s \<and> request_size s' = request_size s" by blast }
qed (auto dest: fl_held_disjoint fl_held_bounds)

end
