(* ===== verification/Free_List_Theorems.thy ===== *)
theory Free_List_Theorems
  imports Free_List_Props
begin

text \<open>
  The correctness theorems of the free list, each with an instance on a small list: 128
  bytes at offset 64, allocated in units of 32.
\<close>

definition demo_list :: "search_policy \<Rightarrow> free_list" where
  "demo_list pol = (case free_list_new 128 64 32 32 pol of Inr (Some s) \<Rightarrow> s)"

lemma demo_list_inv:
  "fl_inv (demo_list pol) [(0, 128, True)]" "alignment (demo_list pol) = 32"
  "offset_bytes (demo_list pol) = 64" "max_size_bytes (demo_list pol) = 128"
  "min_allocation_size (demo_list pol) = 32" "shrink_size (demo_list pol) = 0"
  "search_policy (demo_list pol) = pol"
  using free_list_new_inv [of 32 64 32 128 pol] by (auto simp: demo_list_def)

lemma demo_request: "n \<le> 1024 \<Longrightarrow> representable (demo_list pol) n"
  "request_size (demo_list pol) 40 = 64" "request_size (demo_list pol) 64 = 64"
  by (simp_all add: representable_def request_size_def align_def demo_list_inv no_wrap)

lemma singleton_split: "[r] = A @ q # B \<longleftrightarrow> A = [] \<and> q = r \<and> B = []"
  by (cases A) auto

lemma demo_split:
  "[(x, y, True), (b, k, False), r] = A @ (a, n, False) # B \<and> a = b \<longrightarrow> is_free r \<longrightarrow>
     A = [(x, y, True)] \<and> n = k \<and> B = [r]"
  by (cases A; cases "tl A"; cases "tl (tl A)") auto

section \<open>Allocation\<close>

text \<open>
  C2: \<open>FreeList::allocate\<close> always returns. It finds space exactly when some free region
  can hold the rounded request; it then carves the request off the low end (bottom up) or
  the high end (top down) of the free region the policy prefers (the smallest that fits, or
  the first one in the direction of the search), and leaves every other region as it was. When
  nothing fits it returns \<open>nullopt\<close> and changes nothing. An address below the limit
  is reported by an exception, raised after the region was taken.
\<close>

theorem allocate_spec:
  assumes "fl_inv s rs" and "representable s n"
  shows "\<exists>r s' rs'. allocate s n bu lim = Some (r, s') \<and> fl_inv s' rs' \<and> same_config s s' \<and>
    (if \<exists>a m. (a, m, True) \<in> set rs \<and> request_size s n \<le> m
     then \<exists>A a m B x. rs = A @ (a, m, True) # B \<and> request_size s n \<le> m \<and>
            preferred (search_policy s) bu rs (request_size s n) a m \<and>
            x = (if bu then a else a + m - request_size s n) \<and>
            rs' = A @ carve a m (x - a) (request_size s n) @ B \<and>
            r = (if x + offset_bytes s < lim
                 then Inl (Tt_throw ''Out of Memory: below address limit'')
                 else Inr (Some (x + offset_bytes s)))
     else r = Inr None \<and> s' = s)"
  using assms
proof (cases rule: allocate_cases [where bu = bu and lim = lim])
  case none
  then have no: "\<not> (\<exists>a m. (a, m, True) \<in> set rs \<and> request_size s n \<le> m)" by (auto simp: not_le)
  have "same_config s s" by (simp add: same_config_def)
  with none(2) assms(1) show ?thesis unfolding if_not_P [OF no] by blast
next
  case (some A a m B s' rs' x)
  then have yes: "\<exists>a m. (a, m, True) \<in> set rs \<and> request_size s n \<le> m" by auto
  have "x = (if bu then a else a + m - request_size s n)" using some(2,3) by (simp add: placed_def)
  with some(1,2,4-7,10) show ?thesis unfolding if_P [OF yes] limited_def by blast
qed

theorem allocate_spec_witness:
  "\<exists>s' rs'. allocate (demo_list FIRST) 40 False 0 = Some (Inr (Some 128), s') \<and>
     fl_inv s' [(0, 64, True), (64, 64, False)]"
  using allocate_spec [OF demo_list_inv(1) demo_request(1), of 40 FIRST False 0]
  by (auto simp: demo_request demo_list_inv singleton_split carve_def)

text \<open>
  \<open>FreeList::allocate_at_address\<close> succeeds exactly when one free region covers the
  whole rounded request at the address asked for; the request is then carved out of it and
  the address returned is the one asked for. Otherwise nothing changes.
\<close>

theorem allocate_at_address_spec:
  assumes "fl_inv s rs" and "representable s n" and "alignment s dvd x"
    and "offset_bytes s \<le> x" and "x + request_size s n < 2 ^ 64"
  shows "\<exists>r s' rs'. allocate_at_address s x n = Some (Inr r, s') \<and> fl_inv s' rs' \<and> same_config s s' \<and>
    (if \<exists>a m. (a, m, True) \<in> set rs \<and> a + offset_bytes s \<le> x \<and>
              x + request_size s n \<le> a + m + offset_bytes s
     then \<exists>A a m B. rs = A @ (a, m, True) # B \<and>
            rs' = A @ carve a m (x - offset_bytes s - a) (request_size s n) @ B \<and> r = Some x
     else r = None \<and> s' = s)"
proof -
  let ?n = "request_size s n"
  have c: "covers (x - offset_bytes s) ?n a m \<longleftrightarrow>
      a + offset_bytes s \<le> x \<and> x + ?n \<le> a + m + offset_bytes s" for a m
    using assms(4) by (auto simp: covers_def)
  from allocate_at_address_refines [OF assms(1) refl request_size_pos(1) [OF assms(1,2)] assms(3-5) refl]
  show ?thesis
  proof (elim disjE exE conjE)
    assume "\<forall>a m. (a, m, True) \<in> set rs \<longrightarrow> \<not> covers (x - offset_bytes s) ?n a m"
      "allocate_at_address s x n = Some (Inr None, s)"
    with assms(1) show ?thesis unfolding c by (auto simp: same_config_def)
  next
    fix A a m B s'
    assume "rs = A @ (a, m, True) # B" "covers (x - offset_bytes s) ?n a m"
      "allocate_at_address s x n = Some (Inr (Some x), s')"
      "fl_inv s' (A @ carve a m (x - offset_bytes s - a) ?n @ B)" "same_config s s'"
    moreover from this have yes: "\<exists>a m. (a, m, True) \<in> set rs \<and> a + offset_bytes s \<le> x \<and>
        x + ?n \<le> a + m + offset_bytes s" unfolding c by auto
    ultimately show ?thesis unfolding if_P [OF yes] by blast
  qed
qed

theorem allocate_at_address_spec_witness:
  "\<exists>s'. allocate_at_address (demo_list BEST) 96 64 = Some (Inr (Some 96), s') \<and>
     fl_inv s' [(0, 32, True), (32, 64, False), (96, 32, True)]"
  using allocate_at_address_spec [OF demo_list_inv(1) demo_request(1), of 64 BEST 96]
  by (auto simp: demo_request demo_list_inv singleton_split carve_def)


section \<open>Release\<close>

text \<open>
  C3: \<open>FreeList::deallocate\<close> returns for every address. When an allocated region starts
  there it becomes free and is merged with the free regions before and after it; any other
  address leaves the list unchanged.
\<close>

theorem deallocate_spec:
  assumes "fl_inv s rs" and "x < 2 ^ 64"
  shows "(\<exists>A a n B s'. rs = A @ (a, n, False) # B \<and> x = a + offset_bytes s \<and>
            deallocate s x = Some s' \<and> fl_inv s' (release A a n B) \<and> same_config s s') \<or>
         (\<forall>a n. (a, n, False) \<in> set rs \<longrightarrow> x \<noteq> a + offset_bytes s) \<and> deallocate s x = Some s"
  using assms
proof (cases rule: deallocate_cases)
  case used
  then show ?thesis by blast
next
  case other
  then have "\<forall>a n. (a, n, False) \<in> set rs \<longrightarrow> x \<noteq> a + offset_bytes s"
    by (force simp: in_used_iff [symmetric])
  with other show ?thesis by blast
qed

lemma demo_taken:
  obtains s where "allocate_at_address (demo_list pol) 96 64 = Some (Inr (Some 96), s)"
    "fl_inv s [(0, 32, True), (32, 64, False), (96, 32, True)]" "offset_bytes s = 64"
proof -
  let ?s = "demo_list pol"
  note d = demo_list_inv [of pol]
  have "alignment ?s dvd 96" "offset_bytes ?s \<le> 96" "96 + 64 < (2 :: nat) ^ 64"
    "32 = 96 - offset_bytes ?s" by (simp_all add: d)
  note R = allocate_at_address_refines [OF d(1) demo_request(3) [symmetric] _ this, simplified]
  have "covers 32 64 0 128" by (simp add: covers_def)
  with R obtain s where s: "allocate_at_address ?s 96 64 = Some (Inr (Some 96), s)"
    "fl_inv s (carve 0 128 32 64)" "same_config ?s s"
    unfolding singleton_split by auto
  moreover have "carve 0 128 32 64 = [(0, 32, True), (32, 64, False), (96, 32, True)]"
    by (simp add: carve_def)
  moreover have "offset_bytes s = 64" using s(3) d by (simp add: same_config_def)
  ultimately show thesis using that by simp
qed

theorem deallocate_spec_witness:
  "\<exists>s s'. allocate_at_address (demo_list BEST) 96 64 = Some (Inr (Some 96), s) \<and>
     deallocate s 96 = Some s' \<and> fl_inv s' [(0, 128, True)]"
proof -
  obtain s where s: "allocate_at_address (demo_list BEST) 96 64 = Some (Inr (Some 96), s)"
    "fl_inv s [(0, 32, True), (32, 64, False), (96, 32, True)]" "offset_bytes s = 64"
    by (rule demo_taken)
  let ?rs = "[(0, 32, True), (32, 64, False), (96, 32, True)] :: region list"
  have r: "release [(0, 32, True)] 32 64 [(96, 32, True)] = [(0, 128, True)]"
    by (simp add: release_def)
  have "(32, 64, False) \<in> set ?rs" "96 = 32 + offset_bytes s" using s(3) by simp_all
  with deallocate_spec [OF s(2), of 96] obtain A a n B s' where rs: "?rs = A @ (a, n, False) # B"
    and a: "96 = a + offset_bytes s" and d: "deallocate s 96 = Some s'" "fl_inv s' (release A a n B)"
    by force
  from rs a s(3) demo_split [of 0 32 32 64 "(96, 32, True)" A a n B]
  have "release A a n B = [(0, 128, True)]" using r by simp
  with d s(1) show ?thesis by auto
qed

text \<open>
  Releasing an address right after it was allocated gives back exactly the regions that
  were there before, so no fragmentation is left behind.
\<close>

theorem allocate_deallocate:
  assumes "fl_inv s rs" and "representable s n"
    and "allocate s n bu lim = Some (Inr (Some x), s')"
  shows "\<exists>s''. deallocate s' x = Some s'' \<and> fl_inv s'' rs \<and> same_config s s''"
  using assms(1,2)
proof (cases rule: allocate_cases [where bu = bu and lim = lim])
  case none
  with assms(3) show ?thesis by simp
next
  case (some A a m B s1 rs1 y)
  let ?n = "request_size s n"
  from some(4) assms(3) have s1: "s1 = s'" "x = y + offset_bytes s" by auto
  have y: "y - a + ?n \<le> m" "a + (y - a) = y" using some(2,3) by (auto simp: placed_def)
  from assms(1) some(1) have t: "tiled (lo s) (hi s) (A @ (a, m, True) # B)"
    and c: "coalesced (A @ (a, m, True) # B)" by (auto simp: fl_inv_def)
  have "x < 2 ^ 64" using represents_bounds(5) [OF assms(1), of a m True] some(1) y s1 by auto
  with some(6) [unfolded s1] show ?thesis
  proof (cases rule: deallocate_cases)
    case (used A' a' n' B' s'')
    have "offset_bytes s' = offset_bytes s" using some(7) s1 by (simp add: same_config_def)
    then have "a' = a + (y - a)" using used(2) s1 y by simp
    from release_carve [OF t c y(1) request_size_pos(1) [OF assms(1,2)]] used(1,4) this some(1,5)
    have "fl_inv s'' rs" by metis
    with used some(7) s1 show ?thesis by (auto simp: same_config_def)
  next
    case other
    have "offset_bytes s' = offset_bytes s" using some(7) s1 by (simp add: same_config_def)
    moreover have "(y, ?n) \<in> used rs1 - {r. fst r + offset_bytes s' = x}"
      using other(2) some(8) by simp
    ultimately show ?thesis using s1 by simp
  qed
qed

theorem allocate_deallocate_witness:
  "\<exists>s' s''. allocate (demo_list FIRST) 40 False 0 = Some (Inr (Some 128), s') \<and>
     deallocate s' 128 = Some s'' \<and> fl_inv s'' [(0, 128, True)]"
proof -
  note d = demo_list_inv(1) [of FIRST] demo_request(1) [of 40 FIRST, simplified]
  have "\<exists>s'. allocate (demo_list FIRST) 40 False 0 = Some (Inr (Some 128), s')"
    using d by (cases rule: allocate_cases [where bu = False and lim = 0])
      (auto simp: demo_request demo_list_inv singleton_split placed_def limited_def)
  then show ?thesis using allocate_deallocate [OF d, of False 0] by blast
qed

section \<open>Reachable states\<close>




section \<open>Reporting\<close>

text \<open>
  \<open>FreeList::get_statistics\<close> reports the bytes of the allocated and of the free
  regions and the size of the largest free region; their sum is the size of the range, and
  a request that the rounding turns into at most the reported largest size is satisfied.
\<close>

theorem get_statistics_spec:
  assumes "fl_inv s rs"
  shows "\<exists>st. get_statistics s = Some st \<and> total_allocatable_size_bytes st = max_size_bytes s \<and>
    total_allocated_bytes st = bytes False rs \<and> total_free_bytes st = bytes True rs \<and>
    total_allocated_bytes st + total_free_bytes st = max_size_bytes s \<and>
    (\<forall>n bu. representable s n \<longrightarrow>
       ((\<exists>x s'. allocate s n bu 0 = Some (Inr (Some x), s')) \<longleftrightarrow>
        request_size s n \<le> largest_free_block_bytes st))"
proof -
  from get_statistics_refines [OF assms] obtain st where st: "get_statistics s = Some st"
    and so: "stats_of (max_size_bytes s) rs st" by blast
  from assms have t: "tiled (lo s) (hi s) rs" by (simp add: fl_inv_def)
  have "(\<exists>x s'. allocate s n bu 0 = Some (Inr (Some x), s')) \<longleftrightarrow> request_size s n \<le> largest rs"
    if r: "representable s n" for n bu
    using assms r
  proof (cases rule: allocate_cases [where bu = bu and lim = 0])
    case none
    have "0 < request_size s n" by (rule request_size_pos [OF assms r])
    then have "largest rs < request_size s n"
      using none(1) largest_attained [of rs] by (cases "largest rs") auto
    with none(2) show ?thesis by simp
  next
    case (some A a m B s' rs' x)
    then show ?thesis using largest_ge [of a m rs] by (auto simp: limited_def)
  qed
  with st so tiled_bytes [OF t] show ?thesis unfolding stats_of_def by auto
qed

theorem get_statistics_spec_witness:
  "\<exists>st. get_statistics (demo_list FIRST) = Some st \<and> total_free_bytes st = 128"
  using get_statistics_spec [OF demo_list_inv(1), of FIRST] by (auto simp: demo_list_inv)

text \<open>
  \<open>FreeList::available_addresses\<close> lists exactly the addresses where
  \<open>allocate_at_address\<close> will succeed: an aligned address lies in one of the reported
  ranges if and only if allocating there returns it.
\<close>

theorem available_addresses_spec:
  assumes "fl_inv s rs" and "representable s n" and "alignment s dvd x"
    and "offset_bytes s \<le> x" and "x + request_size s n < 2 ^ 64"
  shows "\<exists>ps. available_addresses s n = Some ps \<and>
    ((\<exists>(l, h) \<in> set ps. l + offset_bytes s \<le> x \<and> x \<le> h + offset_bytes s) \<longleftrightarrow>
     (\<exists>s'. allocate_at_address s x n = Some (Inr (Some x), s')))"
proof -
  let ?n = "request_size s n"
  let ?ps = "map (\<lambda>(a, m, f). (a, a + m - ?n)) (filter (\<lambda>(a, m, f). f \<and> ?n \<le> m) rs)"
  have "(\<exists>(l, h) \<in> set ?ps. l + offset_bytes s \<le> x \<and> x \<le> h + offset_bytes s) \<longleftrightarrow>
      (\<exists>a m. (a, m, True) \<in> set rs \<and> covers (x - offset_bytes s) ?n a m)"
    using assms(4) by (force simp: covers_def)
  moreover have "(\<exists>a m. (a, m, True) \<in> set rs \<and> covers (x - offset_bytes s) ?n a m) \<longleftrightarrow>
      (\<exists>s'. allocate_at_address s x n = Some (Inr (Some x), s'))"
    using allocate_at_address_refines
      [OF assms(1) refl request_size_pos(1) [OF assms(1,2)] assms(3-5) refl] by force
  ultimately have "(\<exists>(l, h) \<in> set ?ps. l + offset_bytes s \<le> x \<and> x \<le> h + offset_bytes s) \<longleftrightarrow>
      (\<exists>s'. allocate_at_address s x n = Some (Inr (Some x), s'))" by (rule trans)
  with available_addresses_refines [OF assms(1) refl, of n] show ?thesis by blast
qed

theorem available_addresses_spec_witness:
  "\<exists>s' ps. available_addresses (demo_list FIRST) 64 = Some ps \<and> (0, 64) \<in> set ps \<and>
     allocate_at_address (demo_list FIRST) 96 64 = Some (Inr (Some 96), s')"
  using available_addresses_spec [OF demo_list_inv(1) demo_request(1), of 64 FIRST 96]
    available_addresses_refines [OF demo_list_inv(1) refl, of FIRST 64]
  by (auto simp: demo_request demo_list_inv)

definition aligned :: "u64 \<Rightarrow> region list \<Rightarrow> bool" where
  "aligned al rs \<longleftrightarrow> (\<forall>(a, n, f) \<in> set rs. al dvd a \<and> al dvd n)"

text \<open>
  When the range and its offset are multiples of the alignment, so is every address
  \<open>FreeList::allocate\<close> returns, and the property carries over to the next call.
\<close>

theorem allocate_aligned:
  assumes "fl_inv s rs" and "representable s n" and "aligned (alignment s) rs"
    and "alignment s dvd offset_bytes s" and "allocate s n bu lim = Some (Inr (Some x), s')"
  shows "alignment s dvd x \<and> (\<exists>rs'. fl_inv s' rs' \<and> aligned (alignment s') rs')"
  using assms(1,2)
proof (cases rule: allocate_cases [where bu = bu and lim = lim])
  case none
  with assms(5) show ?thesis by simp
next
  case (some A a m B s1 rs1 y)
  let ?n = "request_size s n"
  from some(4) assms(5) have s1: "s1 = s'" "x = y + offset_bytes s" by auto
  have n: "alignment s dvd ?n"
    using request_size_bounds(1) [OF _ _ refl] assms(1,2) by (simp add: fl_inv_def representable_def)
  have "alignment s dvd a \<and> alignment s dvd m" using assms(3) some(1) by (auto simp: aligned_def)
  moreover from this n have y: "alignment s dvd y" "alignment s dvd (y - a)"
    "alignment s dvd m - (y - a) - ?n" using some(2,3) by (auto simp: placed_def)
  moreover have "a + (y - a) = y" using some(2,3) by (auto simp: placed_def)
  ultimately have "aligned (alignment s) rs1"
    using assms(3) n some(1,5) by (auto simp: aligned_def carve_def)
  then show ?thesis using some(6,7) s1 y(1) assms(4) by (auto simp: same_config_def)
qed

theorem allocate_aligned_witness:
  "\<exists>x s'. allocate (demo_list BEST) 40 False 0 = Some (Inr (Some x), s') \<and> 32 dvd x"
proof -
  note d = demo_list_inv(1) [of BEST] demo_request(1) [of 40 BEST, simplified]
  have "\<exists>x s'. allocate (demo_list BEST) 40 False 0 = Some (Inr (Some x), s')"
    using d by (cases rule: allocate_cases [where bu = False and lim = 0])
      (auto simp: demo_request demo_list_inv singleton_split placed_def limited_def)
  then show ?thesis using allocate_aligned [OF d, of False 0]
    by (force simp: demo_list_inv aligned_def)
qed

section \<open>Shrinking\<close>

text \<open>
  \<open>FreeList::shrink_size\<close> followed by \<open>reset_size\<close> gives the original range
  back, whatever is allocated above the part cut off, as long as that part is smaller than
  the free region at the start.
\<close>

theorem shrink_reset:
  assumes "fl_inv s ((0, m, True) # B)" and "shrink_size s = 0" and "0 < amount" and "amount < m"
  shows "\<exists>s'. shrink s amount True = (Inr (), s') \<and>
    max_size_bytes s' = max_size_bytes s - amount \<and> fl_inv s' ((amount, m - amount, True) # B) \<and>
    fl_inv (reset_size s') ((0, m, True) # B) \<and> max_size_bytes (reset_size s') = max_size_bytes s"
proof -
  from shrink_reset_roundtrip [OF assms] obtain s' where
    s': "shrink s amount True = (Inr (), s')" "fl_inv s' ((amount, m - amount, True) # B)"
    "fl_inv (reset_size s') ((0, m, True) # B)" by blast
  from s'(2) have "shrink_size s' = amount" by (simp add: fl_inv_def)
  moreover from this reset_refines [OF s'(2)] assms(3)
  have "max_size_bytes (reset_size s') = max_size_bytes s' + amount" by simp
  moreover have "tiled 0 (max_size_bytes s) ((0, m, True) # B)"
    using assms(1,2) by (simp add: fl_inv_def)
  moreover have "tiled amount (amount + max_size_bytes s') ((amount, m - amount, True) # B)"
    using s'(2) \<open>shrink_size s' = amount\<close> unfolding fl_inv_def by (simp only:)
  ultimately show ?thesis using s' assms(4) tiled_end [of m] by fastforce
qed

theorem shrink_reset_witness:
  "\<exists>s'. shrink (demo_list FIRST) 32 True = (Inr (), s') \<and> fl_inv s' [(32, 96, True)] \<and>
     fl_inv (reset_size s') [(0, 128, True)]"
  using shrink_reset [of "demo_list FIRST" 128 "[]" 32] demo_list_inv [of FIRST] by auto

text \<open>Three states of a list with 128 bytes: new, 64 bytes taken at the top, and restored.\<close>

definition lost_new :: free_list where
  "lost_new = \<lparr>address = (\<lambda>_. 0), bsize = (\<lambda>_. 0)(0 := 128), prev_block = (\<lambda>_. None),
     next_block = (\<lambda>_. None), prev_free = (\<lambda>_. None), next_free = (\<lambda>_. None), fresh_ptr = 1,
     search_policy = FIRST, block_head = Some 0, block_tail = Some 0, free_block_head = Some 0,
     free_block_tail = Some 0, max_size_bytes = 128, offset_bytes = 0, min_allocation_size = 32,
     alignment = 32, shrink_size = 0, lowest_occupied = None\<rparr>"

definition lost_taken :: free_list where
  "lost_taken = lost_new\<lparr>address := (\<lambda>_. 0)(1 := 64), bsize := (\<lambda>_. 0)(0 := 64, 1 := 64),
     prev_block := (\<lambda>_. None)(1 := Some 0), next_block := (\<lambda>_. None)(0 := Some 1),
     fresh_ptr := 2, block_tail := Some 1, lowest_occupied := Some 64\<rparr>"

definition lost_reset :: free_list where
  "lost_reset = lost_taken\<lparr>bsize := (\<lambda>_. 0)(0 := 64, 1 := 64, 2 := 64),
     prev_block := (\<lambda>_. None), next_block := (\<lambda>_. None)(0 := Some 1, 2 := Some 1),
     fresh_ptr := 3, block_head := Some 2, free_block_head := Some 2, free_block_tail := Some 2\<rparr>"

lemmas lost_defs = lost_new_def lost_taken_def lost_reset_def fun_eq_iff
  Let_def Block_def new_block_def add64_def sub64_def mul64_def

lemma lost_steps:
  "free_list_new 128 0 32 32 FIRST = Inr (Some lost_new)"
  "allocate_at_address lost_new 64 64 = Some (Inr (Some 64), lost_taken)"
  "fst (shrink lost_taken 64 True) = Inr ()"
  "reset_size (snd (shrink lost_taken 64 True)) = lost_reset"
proof -
  show "free_list_new 128 0 32 32 FIRST = Inr (Some lost_new)"
    by (simp add: free_list_new_def init_def unlink_loop.simps lost_defs)
  show "allocate_at_address lost_new 64 64 = Some (Inr (Some 64), lost_taken)"
    by (simp add: allocate_at_address_def request_size_def align_def allocate_at_loop.simps
        allocate_slice_of_free_block_def update_right_aligned_allocated_block_connections_def
        update_lowest_def lost_defs)
  show "fst (shrink lost_taken 64 True) = Inr ()"
    by (simp add: shrink_def shrink_head_def lost_defs)
  show "reset_size (snd (shrink lost_taken 64 True)) = lost_reset"
    by (simp add: reset_size_def reset_head_def shrink_def shrink_head_def lost_defs)
qed

definition lost_freed :: free_list where
  "lost_freed = lost_reset\<lparr>free_block_head := Some 1, free_block_tail := Some 1,
     lowest_occupied := Some 0\<rparr>"

lemma lost_release:
  "deallocate lost_reset 64 = Some lost_freed"
  "dump_blocks lost_freed = Some [(0, 64, True), (64, 64, False)]"
  "allocate lost_freed 128 True 0 = Some (Inr None, lost_freed)"
proof -
  show "deallocate lost_reset 64 = Some lost_freed"
    by (simp add: deallocate_def find_block_def find_block_loop.simps is_allocated_def
        release_block_def merge_prev_def merge_next_def insert_free_def skip_loop.simps
        update_lowest_occupied_address_def lost_freed_def lost_defs)
  show "dump_blocks lost_freed = Some [(0, 64, True), (64, 64, False)]"
    by (simp add: dump_blocks_def dump_blocks_loop.simps dump_block_def is_allocated_def lost_freed_def lost_defs)
  show "allocate lost_freed 128 True 0 = Some (Inr None, lost_freed)"
    by (simp add: allocate_def request_size_def align_def search_def search_first_def
        search_first_loop.simps lost_freed_def lost_defs)
qed


end
