(* ===== verification/Core_Coord.thy ===== *)
theory Core_Coord
  imports Prelude
begin

text \<open>
  Core coordinates, core ranges and sets of core ranges:
  src/tt_metal/common/core_coord.hpp and core_coord.cpp.

  \<open>CoreCoord\<close> is the type \<open>tt_xy_pair\<close> of the device library, a pair of unsigned
  numbers. Coordinates are natural numbers here: they index the cores of a chip, so that the
  \<open>size_t\<close> and \<open>unsigned\<close> arithmetic on single coordinates stays far from its
  bounds. Counts of cores are \<open>uint32_t\<close> in the source and wrap here too. The locks
  that protect copies of a \<open>CoreRangeSet\<close> are left out. The iteration order of a
  \<open>std::set<CoreRange>\<close> is given by the device library's \<open>operator<\<close> on
  coordinates; it is the parameter \<open>iter\<close> of the definitions that use it.
\<close>

section \<open>Coordinates and ranges\<close>

record core_coord =
  cx :: nat
  cy :: nat

record relative_core_coord =
  rel_x :: int
  rel_y :: int

record core_range =
  start_coord :: core_coord
  end_coord :: core_coord

abbreviation coord :: "nat \<Rightarrow> nat \<Rightarrow> core_coord" where
  "coord a b \<equiv> \<lparr>cx = a, cy = b\<rparr>"

abbreviation box :: "nat \<Rightarrow> nat \<Rightarrow> nat \<Rightarrow> nat \<Rightarrow> core_range" where
  "box a b c d \<equiv> \<lparr>start_coord = coord a b, end_coord = coord c d\<rparr>"

text \<open>The addition is done in \<open>size_t\<close>: a negative coordinate wraps around.\<close>

definition get_core_coord_from_relative :: "relative_core_coord \<Rightarrow> core_coord \<Rightarrow> core_coord" where
  "get_core_coord_from_relative r grid =
     coord (nat ((rel_x r + (if rel_x r < 0 then int (cx grid) else 0)) mod 2 ^ 64))
           (nat ((rel_y r + (if rel_y r < 0 then int (cy grid) else 0)) mod 2 ^ 64))"

definition core_range_point :: "core_coord \<Rightarrow> core_range" where
  "core_range_point p = \<lparr>start_coord = p, end_coord = p\<rparr>"

definition core_range_new :: "core_coord \<Rightarrow> core_coord \<Rightarrow> tt_error + core_range" where
  "core_range_new s e =
     (if cx s \<le> cx e \<and> cy s \<le> cy e then Inr \<lparr>start_coord = s, end_coord = e\<rparr>
      else Inl (Tt_fatal ''Invalid core range''))"

definition cr_intersects :: "core_range \<Rightarrow> core_range \<Rightarrow> bool" where
  "cr_intersects r q =
     (let left = cx (end_coord r) < cx (start_coord q);
          right = cx (start_coord r) > cx (end_coord q);
          above = cy (end_coord r) < cy (start_coord q);
          below = cy (start_coord r) > cy (end_coord q)
      in \<not> (left \<or> right \<or> above \<or> below))"

definition cr_intersection :: "core_range \<Rightarrow> core_range \<Rightarrow> core_range option" where
  "cr_intersection r q =
     (let x1 = max (cx (start_coord r)) (cx (start_coord q));
          y1 = max (cy (start_coord r)) (cy (start_coord q));
          x2 = min (cx (end_coord r)) (cx (end_coord q));
          y2 = min (cy (end_coord r)) (cy (end_coord q))
      in if x1 \<le> x2 \<and> y1 \<le> y2 then Some (box x1 y1 x2 y2) else None)"

definition cr_adjacent :: "core_range \<Rightarrow> core_range \<Rightarrow> bool" where
  "cr_adjacent r q =
     (let x1 = max (cx (start_coord r)) (cx (start_coord q));
          y1 = max (cy (start_coord r)) (cy (start_coord q));
          x2 = min (cx (end_coord r)) (cx (end_coord q));
          y2 = min (cy (end_coord r)) (cy (end_coord q))
      in x2 + 1 = x1 \<and> y1 \<le> y2 \<or> y2 + 1 = y1 \<and> x1 \<le> x2)"

definition cr_contains_coord :: "core_range \<Rightarrow> core_coord \<Rightarrow> bool" where
  "cr_contains_coord r c \<longleftrightarrow>
     cx c \<ge> cx (start_coord r) \<and> cx c \<le> cx (end_coord r) \<and>
     cy c \<ge> cy (start_coord r) \<and> cy c \<le> cy (end_coord r)"

definition cr_contains_range :: "core_range \<Rightarrow> core_range \<Rightarrow> bool" where
  "cr_contains_range r q \<longleftrightarrow>
     cx (start_coord q) \<ge> cx (start_coord r) \<and> cx (end_coord q) \<le> cx (end_coord r) \<and>
     cy (start_coord q) \<ge> cy (start_coord r) \<and> cy (end_coord q) \<le> cy (end_coord r)"

definition cr_merge :: "core_range \<Rightarrow> core_range \<Rightarrow> core_range option" where
  "cr_merge r q =
     (if cr_intersects r q \<or> cr_adjacent r q then
        if cx (start_coord r) = cx (start_coord q) \<and> cx (end_coord r) = cx (end_coord q) then
          Some (box (cx (start_coord r)) (min (cy (start_coord r)) (cy (start_coord q)))
                    (cx (end_coord r)) (max (cy (end_coord r)) (cy (end_coord q))))
        else if cy (start_coord r) = cy (start_coord q) \<and> cy (end_coord r) = cy (end_coord q) then
          Some (box (min (cx (start_coord r)) (cx (start_coord q))) (cy (start_coord r))
                    (max (cx (end_coord r)) (cx (end_coord q))) (cy (end_coord r)))
        else None
      else None)"

definition cr_str :: "(core_coord \<Rightarrow> string) \<Rightarrow> core_range \<Rightarrow> string" where
  "cr_str show_coord r =
     ''['' @ show_coord (start_coord r) @ '' - '' @ show_coord (end_coord r) @ '']''"

definition cr_size :: "core_range \<Rightarrow> nat" where
  "cr_size r =
     (cx (end_coord r) - cx (start_coord r) + 1) * (cy (end_coord r) - cy (start_coord r) + 1)"

definition cr_grid_size :: "core_range \<Rightarrow> core_coord" where
  "cr_grid_size r =
     coord (cx (end_coord r) - cx (start_coord r) + 1) (cy (end_coord r) - cy (start_coord r) + 1)"

text \<open>The iterator: \<open>++\<close>, \<open>begin\<close>, \<open>end\<close>, and the loop \<open>for (c : range)\<close>.\<close>

definition iter_next :: "core_range \<Rightarrow> core_coord \<Rightarrow> core_coord" where
  "iter_next r c =
     (if cx c = cx (end_coord r) then coord (cx (start_coord r)) (cy c + 1)
      else coord (cx c + 1) (cy c))"

definition iter_begin :: "core_range \<Rightarrow> core_coord" where
  "iter_begin r = start_coord r"

definition iter_end :: "core_range \<Rightarrow> core_coord" where
  "iter_end r = coord (cx (start_coord r)) (cy (end_coord r) + 1)"

partial_function (option) iter_loop ::
    "core_range \<Rightarrow> core_coord \<Rightarrow> core_coord list \<Rightarrow> core_coord list option" where
  "iter_loop r c visited =
     (if c = iter_end r then Some visited
      else iter_loop r (iter_next r c) (visited @ [c]))"

declare iter_loop.simps [code]

section \<open>Sets of ranges\<close>

record core_range_set =
  ranges_of :: "core_range list"

definition cr_contains_set :: "core_range \<Rightarrow> core_range_set \<Rightarrow> bool" where
  "cr_contains_set r s = list_all (cr_contains_range r) (ranges_of s)"

fun validate_no_overlap :: "core_range list \<Rightarrow> (tt_error + unit)" where
  "validate_no_overlap [] = Inr ()"
| "validate_no_overlap (r # rs) =
     (if list_ex (cr_intersects r) rs
      then Inl (Tt_throw ''Cannot create CoreRangeSet: core ranges overlap'')
      else validate_no_overlap rs)"

definition core_range_set_new :: "core_range list \<Rightarrow> (tt_error + core_range_set)" where
  "core_range_set_new rs =
     (case validate_no_overlap rs of Inl e \<Rightarrow> Inl e | Inr _ \<Rightarrow> Inr \<lparr>ranges_of = rs\<rparr>)"

definition crs_single :: "core_range \<Rightarrow> core_range_set" where
  "crs_single r = \<lparr>ranges_of = [r]\<rparr>"

definition crs_empty :: "core_range_set \<Rightarrow> bool" where
  "crs_empty s = (ranges_of s = [])"

definition crs_size :: "core_range_set \<Rightarrow> nat" where
  "crs_size s = length (ranges_of s)"

text \<open>
  \<open>merge\<close>: the cells of all ranges are marked in a grid with one spare column, each row
  is cut into its runs of marked cells, and a run is joined with a range above it that has
  the same columns. \<open>run_end\<close> is the inner \<open>while\<close>, which stops at the spare column
  at the latest; \<open>row_runs\<close> is the loop over the columns.
\<close>

definition extent_step :: "core_range \<Rightarrow> nat \<times> nat \<times> nat \<times> nat \<Rightarrow> nat \<times> nat \<times> nat \<times> nat" where
  "extent_step r m =
     (case m of (min_x, max_x, min_y, max_y) \<Rightarrow>
        (min min_x (cx (start_coord r)), max max_x (cx (end_coord r)),
         min min_y (cy (start_coord r)), max max_y (cy (end_coord r))))"

definition mark_range :: "core_range \<Rightarrow> (nat \<Rightarrow> nat \<Rightarrow> bool) \<Rightarrow> nat \<Rightarrow> nat \<Rightarrow> bool" where
  "mark_range r grid =
     fold (\<lambda>b g. fold (\<lambda>a g. g(b := (g b)(a := True))) [cx (start_coord r) ..< cx (end_coord r) + 1] g)
       [cy (start_coord r) ..< cy (end_coord r) + 1] grid"

function run_end :: "(nat \<Rightarrow> bool) \<Rightarrow> nat \<Rightarrow> nat \<Rightarrow> nat" where
  "run_end row width a = (if a \<le> width \<and> row a then run_end row width (a + 1) else a)"
  by pat_completeness auto
termination by (relation "measure (\<lambda>(row, width, a). Suc width - a)") auto

declare run_end.simps [simp del]

lemma run_end_ge: "a \<le> run_end row width a"
proof (induction row width a rule: run_end.induct)
  case (1 row width a)
  then show ?case by (subst run_end.simps) auto
qed

function row_runs :: "(nat \<Rightarrow> bool) \<Rightarrow> nat \<Rightarrow> nat \<Rightarrow> nat \<Rightarrow> core_range list" where
  "row_runs row width b a =
     (if a \<le> width then
        if row a then
          box a b (run_end row width a - 1) b # row_runs row width b (run_end row width a + 1)
        else row_runs row width b (a + 1)
      else [])"
  by pat_completeness auto
termination
  by (relation "measure (\<lambda>(row, width, b, a). Suc width - a)")
     (auto intro!: le_less_trans [OF diff_le_mono2 [OF run_end_ge]])

declare row_runs.simps [simp del]

type_synonym merge_state = "core_range set \<times> core_range set \<times> core_range set"

definition try_merge :: "core_range \<Rightarrow> core_range \<Rightarrow> core_range set \<times> core_range set \<Rightarrow>
    core_range set \<times> core_range set" where
  "try_merge cr prev acc =
     (case acc of (new_crs, filter_set) \<Rightarrow>
        (case cr_merge cr prev of
           None \<Rightarrow> (new_crs, filter_set)
         | Some m \<Rightarrow> (insert m new_crs, insert cr (insert prev filter_set))))"

definition merge_run ::
    "(core_range set \<Rightarrow> core_range list) \<Rightarrow> core_range \<Rightarrow> merge_state \<Rightarrow> merge_state" where
  "merge_run iter cr st =
     (case st of (new_crs, filter_set, crs) \<Rightarrow>
        (case fold (try_merge cr) (iter crs) (new_crs, filter_set) of
           (new_crs', filter_set') \<Rightarrow> (new_crs', filter_set', insert cr crs)))"

definition merge_row ::
    "(core_range set \<Rightarrow> core_range list) \<Rightarrow> (nat \<Rightarrow> nat \<Rightarrow> bool) \<Rightarrow> nat \<Rightarrow> nat \<Rightarrow> nat \<Rightarrow>
       core_range set \<Rightarrow> core_range set" where
  "merge_row iter grid min_x max_x b crs =
     (case fold (merge_run iter) (row_runs (grid b) (max_x + 1) b min_x) ({}, {}, crs) of
        (new_crs, filter_set, crs') \<Rightarrow> (crs' - filter_set) \<union> new_crs)"

definition crs_merge ::
    "(core_range set \<Rightarrow> core_range list) \<Rightarrow> core_range_set \<Rightarrow> core_range list \<Rightarrow>
       (tt_error + core_range_set)" where
  "crs_merge iter s other =
     (let crs = iter (set (ranges_of s) \<union> set other);
          (min_x, max_x, min_y, max_y) = fold extent_step crs (2 ^ 64 - 1, 0, 2 ^ 64 - 1, 0);
          grid = fold mark_range crs (\<lambda>_ _. False)
      in core_range_set_new
           (iter (fold (merge_row iter grid min_x max_x) [min_y ..< max_y + 1] {})))"

definition crs_intersects_range :: "core_range_set \<Rightarrow> core_range \<Rightarrow> bool" where
  "crs_intersects_range s r = list_ex (\<lambda>local_cr. cr_intersects local_cr r) (ranges_of s)"

definition crs_intersects :: "core_range_set \<Rightarrow> core_range_set \<Rightarrow> bool" where
  "crs_intersects s t = list_ex (crs_intersects_range s) (ranges_of t)"

definition crs_intersection :: "core_range_set \<Rightarrow> core_range_set \<Rightarrow> (tt_error + core_range_set)" where
  "crs_intersection s t =
     core_range_set_new
       (concat (map (\<lambda>l. List.map_filter (cr_intersection l) (ranges_of t)) (ranges_of s)))"

definition crs_contains_coord :: "core_range_set \<Rightarrow> core_coord \<Rightarrow> bool" where
  "crs_contains_coord s c = list_ex (\<lambda>r. cr_contains_coord r c) (ranges_of s)"

definition num_cores :: "core_range_set \<Rightarrow> u32" where
  "num_cores s = fold (\<lambda>r n. add32 n (cr_size r)) (ranges_of s) 0"

text \<open>The loops that count down the cores not yet covered, over the intersections found.\<close>

fun count_covered :: "u32 \<Rightarrow> core_range option list \<Rightarrow> bool" where
  "count_covered remaining [] = False"
| "count_covered remaining (None # is) = count_covered remaining is"
| "count_covered remaining (Some i # is) =
     (let remaining' = sub32 remaining (cr_size i)
      in if remaining' = 0 then True else count_covered remaining' is)"

definition crs_contains_range :: "core_range_set \<Rightarrow> core_range \<Rightarrow> bool" where
  "crs_contains_range s r =
     (let remaining = cr_size r mod 2 ^ 32
      in if remaining = 0 then True
         else if num_cores s < remaining then False
         else count_covered remaining (map (\<lambda>c. cr_intersection c r) (ranges_of s)))"

definition crs_contains :: "core_range_set \<Rightarrow> core_range_set \<Rightarrow> bool" where
  "crs_contains s t =
     (let remaining = num_cores t
      in if remaining = 0 then True
         else if num_cores s < remaining then False
         else count_covered remaining
                (concat (map (\<lambda>c. map (cr_intersection c) (ranges_of t)) (ranges_of s))))"

definition crs_str :: "(core_coord \<Rightarrow> string) \<Rightarrow> core_range_set \<Rightarrow> string" where
  "crs_str show_coord s =
     (if length (ranges_of s) > 0 then
        let str = fold (\<lambda>r out. out @ cr_str show_coord r @ '', '') (ranges_of s) ''{''
        in butlast (str[length str - 2 := CHR ''}''])
      else ''{}'')"

definition bounding_box :: "core_range_set \<Rightarrow> (tt_error + core_range)" where
  "bounding_box s =
     (if length (ranges_of s) > 0 then
        (case fold extent_step (ranges_of s) (2 ^ 32 - 1, 0, 2 ^ 32 - 1, 0) of
           (min_x, max_x, min_y, max_y) \<Rightarrow> core_range_new (coord min_x min_y) (coord max_x max_y))
      else Inl (Tt_fatal ''Cannot get bounding_box of an empty CoreRangeSet''))"

definition crs_eq :: "core_range_set \<Rightarrow> core_range_set \<Rightarrow> bool" where
  "crs_eq s t =
     (if length (ranges_of s) = length (ranges_of t)
      then list_all (\<lambda>(a, b). a = b) (zip (ranges_of s) (ranges_of t)) else False)"

section \<open>Enumerating cores\<close>

definition grid_to_cores_num :: "u32 \<Rightarrow> u32 \<Rightarrow> u32 \<Rightarrow> bool \<Rightarrow> (tt_error + core_coord list)" where
  "grid_to_cores_num n grid_x grid_y row_wise =
     (if \<not> n \<le> mul32 grid_x grid_y then Inl (Tt_assert ''Number of cores exceeds grid size'')
      else Inr (if row_wise then map (\<lambda>i. coord (i mod grid_x) (i div grid_x)) [0 ..< n]
                else map (\<lambda>i. coord (i div grid_y) (i mod grid_y)) [0 ..< n]))"

definition grid_to_cores :: "core_coord \<Rightarrow> core_coord \<Rightarrow> bool \<Rightarrow> core_coord list" where
  "grid_to_cores s e row_wise =
     (if row_wise then
        concat (map (\<lambda>j. map (\<lambda>i. coord i j) [cx s ..< cx e + 1]) [cy s ..< cy e + 1])
      else
        concat (map (\<lambda>i. map (\<lambda>j. coord i j) [cy s ..< cy e + 1]) [cx s ..< cx e + 1]))"

definition grid_to_cores_with_noop ::
    "u32 \<Rightarrow> u32 \<Rightarrow> u32 \<Rightarrow> u32 \<Rightarrow> bool \<Rightarrow> (tt_error + core_coord list)" where
  "grid_to_cores_with_noop bbox_x bbox_y grid_x grid_y row_wise =
     (if \<not> bbox_x < grid_x then Inl (Tt_assert ''bbox_x < grid_size_x'')
      else if \<not> bbox_y < grid_y then Inl (Tt_assert ''bbox_y < grid_size_y'')
      else
        let size_x = bbox_x + 1; size_y = bbox_y + 1
        in Inr ((if row_wise
                 then map (\<lambda>i. coord (i mod size_x) (i div size_x)) [0 ..< size_x * size_y]
                 else map (\<lambda>i. coord (i div size_y) (i mod size_y)) [0 ..< size_x * size_y]) @
                concat (map (\<lambda>a. map (\<lambda>b. coord a b) [0 ..< grid_y]) [size_x ..< grid_x]) @
                concat (map (\<lambda>b. map (\<lambda>a. coord a b) [0 ..< size_x]) [size_y ..< grid_y])))"

fun corerange_loop ::
    "core_range list \<Rightarrow> u32 option \<Rightarrow> bool \<Rightarrow> core_coord list \<Rightarrow> core_coord list" where
  "corerange_loop [] max_cores row_wise all_cores = all_cores"
| "corerange_loop (r # rs) max_cores row_wise all_cores =
     (let cores = grid_to_cores (start_coord r) (end_coord r) row_wise
      in case max_cores of
           Some m \<Rightarrow>
             if length all_cores + length cores > m
             then all_cores @ take (m - length all_cores) cores
             else corerange_loop rs max_cores row_wise (all_cores @ cores)
         | None \<Rightarrow> corerange_loop rs max_cores row_wise (all_cores @ cores))"

definition corerange_to_cores :: "core_range_set \<Rightarrow> u32 option \<Rightarrow> bool \<Rightarrow> core_coord list" where
  "corerange_to_cores s max_cores row_wise = corerange_loop (ranges_of s) max_cores row_wise []"

end
