(* ===== verification/Core_Coord_Props.thy ===== *)
theory Core_Coord_Props
  imports Core_Coord "HOL-Library.Disjoint_Sets" "HOL-Library.Product_Lexorder"
begin

text \<open>
  The operations on core ranges against their meaning: a range is the set of the cores
  inside its rectangle, a set of ranges the union of these sets.
\<close>

section \<open>The cores of a range\<close>

definition cells :: "core_range \<Rightarrow> core_coord set" where
  "cells r = {c. cr_contains_coord r c}"

definition valid_range :: "core_range \<Rightarrow> bool" where
  "valid_range r \<longleftrightarrow> cx (start_coord r) \<le> cx (end_coord r) \<and> cy (start_coord r) \<le> cy (end_coord r)"

definition cover :: "core_range set \<Rightarrow> core_coord set" where
  "cover S = (\<Union>r \<in> S. cells r)"

definition apart :: "core_range set \<Rightarrow> bool" where
  "apart S \<longleftrightarrow> (\<forall>r \<in> S. \<forall>q \<in> S. r \<noteq> q \<longrightarrow> cells r \<inter> cells q = {})"

lemma in_cells: "c \<in> cells r \<longleftrightarrow> cx (start_coord r) \<le> cx c \<and> cx c \<le> cx (end_coord r) \<and>
    cy (start_coord r) \<le> cy c \<and> cy c \<le> cy (end_coord r)"
  by (simp add: cells_def cr_contains_coord_def)

lemma corners_in_cells:
  assumes "valid_range r"
  shows "start_coord r \<in> cells r" "end_coord r \<in> cells r"
  using assms by (auto simp: in_cells valid_range_def)

lemma valid_cells_ne: "valid_range r \<Longrightarrow> cells r \<noteq> {}"
  using corners_in_cells by blast

lemma core_range_new_valid: "core_range_new s e = Inr r \<Longrightarrow> valid_range r"
  by (auto simp: core_range_new_def valid_range_def split: if_splits)

lemma cells_image:
  "cells r = (\<lambda>(a, b). coord a b) `
     ({cx (start_coord r) .. cx (end_coord r)} \<times> {cy (start_coord r) .. cy (end_coord r)})"
proof
  show "cells r \<subseteq> (\<lambda>(a, b). coord a b) `
      ({cx (start_coord r) .. cx (end_coord r)} \<times> {cy (start_coord r) .. cy (end_coord r)})"
  proof
    fix c
    assume "c \<in> cells r"
    moreover have "c = (\<lambda>(a, b). coord a b) (cx c, cy c)" by simp
    ultimately show "c \<in> (\<lambda>(a, b). coord a b) `
        ({cx (start_coord r) .. cx (end_coord r)} \<times> {cy (start_coord r) .. cy (end_coord r)})"
      by (intro image_eqI) (auto simp: in_cells)
  qed
qed (auto simp: in_cells)

lemma finite_cells [simp]: "finite (cells r)"
  by (simp add: cells_image)

lemma card_cells: "valid_range r \<Longrightarrow> card (cells r) = cr_size r"
  unfolding cells_image
  by (subst card_image) (auto simp: inj_on_def cr_size_def valid_range_def card_cartesian_product Suc_diff_le)

lemma finite_cover [simp]: "finite S \<Longrightarrow> finite (cover S)"
  by (simp add: cover_def)

lemma cells_intersect: "valid_range r \<Longrightarrow> valid_range q \<Longrightarrow> cr_intersects r q \<longleftrightarrow> cells r \<inter> cells q \<noteq> {}"
proof
  assume v: "valid_range r" "valid_range q" and i: "cr_intersects r q"
  let ?c = "coord (max (cx (start_coord r)) (cx (start_coord q)))
              (max (cy (start_coord r)) (cy (start_coord q)))"
  have "?c \<in> cells r \<inter> cells q"
    using v i by (auto simp: in_cells valid_range_def cr_intersects_def Let_def)
  then show "cells r \<inter> cells q \<noteq> {}" by blast
qed (auto simp: in_cells cr_intersects_def)

lemma cells_intersection:
  "cells r \<inter> cells q = (case cr_intersection r q of None \<Rightarrow> {} | Some i \<Rightarrow> cells i)"
  by (auto simp: in_cells cr_intersection_def Let_def)

lemma intersection_valid: "cr_intersection r q = Some i \<Longrightarrow> valid_range i"
  by (auto simp: cr_intersection_def Let_def valid_range_def split: if_splits)

lemma cells_merge:
  assumes "valid_range r" and "valid_range q" and "cr_merge r q = Some m"
  shows "cells m = cells r \<union> cells q" and "valid_range m"
proof -
  note d = cr_merge_def cr_intersects_def cr_adjacent_def Let_def valid_range_def
  show "valid_range m" using assms by (auto simp: d split: if_splits)
  show "cells m = cells r \<union> cells q"
    using assms by (auto simp: d in_cells split: if_splits)
qed

lemma apart_insert:
  "apart (insert r S) \<longleftrightarrow> apart S \<and> (\<forall>q \<in> S. q \<noteq> r \<longrightarrow> cells r \<inter> cells q = {})"
proof
  assume "apart (insert r S)"
  then show "apart S \<and> (\<forall>q \<in> S. q \<noteq> r \<longrightarrow> cells r \<inter> cells q = {})"
    unfolding apart_def by fast
next
  assume *: "apart S \<and> (\<forall>q \<in> S. q \<noteq> r \<longrightarrow> cells r \<inter> cells q = {})"
  show "apart (insert r S)"
    unfolding apart_def
  proof (intro ballI impI)
    fix a b
    assume "a \<in> insert r S" "b \<in> insert r S" "a \<noteq> b"
    with * show "cells a \<inter> cells b = {}"
      by (cases "a = r"; cases "b = r") (simp_all add: apart_def Int_commute)
  qed
qed

lemma validate_no_overlap_iff:
  assumes "\<forall>r \<in> set rs. valid_range r"
  shows "validate_no_overlap rs = Inr () \<longleftrightarrow> distinct rs \<and> apart (set rs)"
  using assms
proof (induction rs)
  case Nil
  then show ?case by (simp add: apart_def)
next
  case (Cons r rs)
  have "list_ex (cr_intersects r) rs \<longleftrightarrow> (\<exists>q \<in> set rs. cells r \<inter> cells q \<noteq> {})"
    using Cons.prems by (auto simp: list_ex_iff cells_intersect)
  moreover have "r \<in> set rs \<Longrightarrow> \<exists>q \<in> set rs. cells r \<inter> cells q \<noteq> {}"
    using Cons.prems valid_cells_ne [of r] by force
  ultimately show ?case using Cons by (auto simp: apart_insert)
qed

text \<open>The constructor accepts a list of ranges exactly when no two of them share a core.\<close>

definition crs_ok :: "core_range_set \<Rightarrow> bool" where
  "crs_ok s \<longleftrightarrow> (\<forall>r \<in> set (ranges_of s). valid_range r) \<and> distinct (ranges_of s) \<and>
     apart (set (ranges_of s))"

definition cores_of :: "core_range_set \<Rightarrow> core_coord set" where
  "cores_of s = cover (set (ranges_of s))"

lemma core_range_set_new_ok:
  assumes "\<forall>r \<in> set rs. valid_range r"
  shows "core_range_set_new rs = Inr s \<longleftrightarrow> s = \<lparr>ranges_of = rs\<rparr> \<and> crs_ok s"
  using validate_no_overlap_iff [OF assms] assms
  by (cases "validate_no_overlap rs") (auto simp: core_range_set_new_def crs_ok_def)

section \<open>Counting cores\<close>

lemma card_cover:
  assumes "\<forall>r \<in> set rs. valid_range r" and "distinct rs" and "apart (set rs)"
  shows "card (cover (set rs)) = sum_list (map cr_size rs)"
  using assms
proof (induction rs)
  case Nil
  then show ?case by (simp add: cover_def)
next
  case (Cons r rs)
  have "cells r \<inter> cover (set rs) = {}" using Cons.prems by (auto simp: cover_def apart_def)
  then have "card (cover (set (r # rs))) = card (cells r) + card (cover (set rs))"
    by (simp add: cover_def card_Un_disjoint)
  with Cons show ?case by (simp add: card_cells apart_def)
qed

lemma fold_add32: "fold (\<lambda>r n. add32 n (cr_size r)) rs n = (n + sum_list (map cr_size rs)) mod 2 ^ 32"
  if "n < 2 ^ 32"
  using that by (induction rs arbitrary: n) (simp_all add: add32_def mod_simps ac_simps)

lemma num_cores_card: "crs_ok s \<Longrightarrow> num_cores s = card (cores_of s) mod 2 ^ 32"
  by (simp add: num_cores_def fold_add32 crs_ok_def cores_of_def card_cover)

text \<open>The countdown succeeds exactly when the intersections add up to what remained.\<close>

definition covered :: "core_range option list \<Rightarrow> nat" where
  "covered is = sum_list (map (\<lambda>i. case i of None \<Rightarrow> 0 | Some r \<Rightarrow> cr_size r) is)"

lemma count_covered_iff:
  assumes "0 < n" and "n < 2 ^ 32" and "covered is \<le> n"
  shows "count_covered n is \<longleftrightarrow> covered is = n"
  using assms
proof (induction "n" "is" rule: count_covered.induct)
  case (1 n)
  then show ?case by (simp add: covered_def)
next
  case (2 n "is")
  then show ?case by (simp add: covered_def)
next
  case (3 n i "is")
  then have c: "cr_size i + covered is \<le> n" by (simp add: covered_def)
  then have s: "sub32 n (cr_size i) = n - cr_size i" using 3 by (simp add: no_wrap)
  show ?case
  proof (cases "n = cr_size i")
    case True
    with c s show ?thesis by (simp add: covered_def)
  next
    case False
    with c s 3 have "count_covered (n - cr_size i) is \<longleftrightarrow> covered is = n - cr_size i" by auto
    with False c s show ?thesis by (auto simp: covered_def)
  qed
qed

lemma card_intersection:
  "(case cr_intersection r q of None \<Rightarrow> 0 | Some i \<Rightarrow> cr_size i) = card (cells r \<inter> cells q)"
  by (auto simp: cells_intersection card_cells intersection_valid split: option.splits)

lemma covered_one:
  assumes "\<forall>r \<in> set rs. valid_range r" and "distinct rs" and "apart (set rs)"
  shows "covered (map (\<lambda>c. cr_intersection c q) rs) = card (cover (set rs) \<inter> cells q)"
  using assms
proof (induction rs)
  case Nil
  then show ?case by (simp add: cover_def covered_def)
next
  case (Cons r rs)
  have "cells r \<inter> cover (set rs) = {}" using Cons.prems by (auto simp: cover_def apart_def)
  then have "card (cells r \<inter> cells q \<union> cover (set rs) \<inter> cells q) =
      card (cells r \<inter> cells q) + card (cover (set rs) \<inter> cells q)"
    by (intro card_Un_disjoint) auto
  moreover have "cover (set (r # rs)) \<inter> cells q = cells r \<inter> cells q \<union> cover (set rs) \<inter> cells q"
    by (auto simp: cover_def)
  ultimately show ?case using Cons by (simp add: covered_def card_intersection apart_def)
qed

lemma intersection_commute: "cr_intersection r q = cr_intersection q r"
  by (simp add: cr_intersection_def max.commute min.commute)

lemma covered_append: "covered (a @ b) = covered a + covered b"
  by (simp add: covered_def)

lemma covered_many:
  assumes "\<forall>r \<in> set rs. valid_range r" and "distinct rs" and "apart (set rs)"
    and "\<forall>r \<in> set qs. valid_range r" and "distinct qs" and "apart (set qs)"
  shows "covered (concat (map (\<lambda>c. map (cr_intersection c) qs) rs)) =
    card (cover (set rs) \<inter> cover (set qs))"
  using assms(1-3)
proof (induction rs)
  case Nil
  then show ?case by (simp add: cover_def covered_def)
next
  case (Cons r rs)
  have "cells r \<inter> cover (set rs) = {}" using Cons.prems by (auto simp: cover_def apart_def)
  then have "card (cells r \<inter> cover (set qs) \<union> cover (set rs) \<inter> cover (set qs)) =
      card (cells r \<inter> cover (set qs)) + card (cover (set rs) \<inter> cover (set qs))"
    by (intro card_Un_disjoint) auto
  moreover have "cover (set (r # rs)) \<inter> cover (set qs) =
      cells r \<inter> cover (set qs) \<union> cover (set rs) \<inter> cover (set qs)" by (auto simp: cover_def)
  moreover have "cr_intersection r = (\<lambda>c. cr_intersection c r)"
    by (rule ext) (rule intersection_commute)
  then have "covered (map (cr_intersection r) qs) = card (cells r \<inter> cover (set qs))"
    using covered_one [OF assms(4-6), of r] by (simp add: Int_commute)
  ultimately show ?case using Cons by (simp add: covered_append apart_def)
qed

lemma card_Int_full:
  assumes "finite B"
  shows "card (A \<inter> B) = card B \<longleftrightarrow> B \<subseteq> A"
  using assms by (metis Int_lower2 card_subset_eq inf.absorb_iff2)

lemma crs_contains_range_iff:
  assumes "crs_ok s" and "valid_range r" and "card (cores_of s) < 2 ^ 32" and "cr_size r < 2 ^ 32"
  shows "crs_contains_range s r \<longleftrightarrow> cells r \<subseteq> cores_of s"
proof -
  let ?n = "cr_size r" and ?is = "map (\<lambda>c. cr_intersection c r) (ranges_of s)"
  have n: "?n = card (cells r)" "0 < ?n" using assms(2) by (auto simp: card_cells cr_size_def)
  have c: "covered ?is = card (cores_of s \<inter> cells r)"
    using assms(1) by (simp add: crs_ok_def cores_of_def covered_one)
  then have "covered ?is \<le> ?n" using n card_mono [of "cells r" "cores_of s \<inter> cells r"] by simp
  with assms(4) n c have "count_covered ?n ?is \<longleftrightarrow> cells r \<subseteq> cores_of s"
    by (simp add: count_covered_iff card_Int_full)
  moreover have "cells r \<subseteq> cores_of s \<Longrightarrow> \<not> card (cores_of s) < ?n"
    using n card_mono [of "cores_of s" "cells r"] by (simp add: cores_of_def not_less)
  ultimately show ?thesis
    using assms(1,3,4) n(2) by (auto simp: crs_contains_range_def num_cores_card Let_def)
qed

lemma crs_contains_iff:
  assumes "crs_ok s" and "crs_ok t" and "card (cores_of s) < 2 ^ 32" and "card (cores_of t) < 2 ^ 32"
  shows "crs_contains s t \<longleftrightarrow> cores_of t \<subseteq> cores_of s"
proof -
  let ?n = "card (cores_of t)"
  let ?is = "concat (map (\<lambda>c. map (cr_intersection c) (ranges_of t)) (ranges_of s))"
  have c: "covered ?is = card (cores_of s \<inter> cores_of t)"
    using assms(1,2) by (simp add: crs_ok_def cores_of_def covered_many)
  have fin: "finite (cores_of t)" "finite (cores_of s)" by (simp_all add: cores_of_def)
  then have "covered ?is \<le> ?n" using c by (simp add: card_mono)
  with assms(4) c fin have "0 < ?n \<Longrightarrow> count_covered ?n ?is \<longleftrightarrow> cores_of t \<subseteq> cores_of s"
    by (simp add: count_covered_iff card_Int_full)
  moreover have "cores_of t \<subseteq> cores_of s \<Longrightarrow> \<not> card (cores_of s) < ?n"
    using fin by (simp add: card_mono not_less)
  ultimately show ?thesis using assms fin
    by (cases "cores_of t = {}") (auto simp: crs_contains_def num_cores_card Let_def card_gt_0_iff)
qed

end
