(* ===== verification/Core_Coord_Merge.thy ===== *)
theory Core_Coord_Merge
  imports Core_Coord_Props
begin

text \<open>
  \<open>CoreRangeSet::merge\<close>: the ranges it builds row by row never overlap and cover exactly
  the cores of the ranges it was given.
\<close>

section \<open>The grid and its extent\<close>

lemma mark_row:
  "fold (\<lambda>a g. g(b := (g b)(a := True))) as g = g(b := (\<lambda>x. g b x \<or> x \<in> set as))"
  by (induction as arbitrary: g) (auto simp: fun_eq_iff)

lemma mark_rows:
  "fold (\<lambda>b g. fold (\<lambda>a g. g(b := (g b)(a := True))) as g) bs g =
     (\<lambda>y x. g y x \<or> y \<in> set bs \<and> x \<in> set as)"
  unfolding mark_row by (induction bs arbitrary: g) (auto simp: fun_eq_iff)

lemma mark_range_cells: "mark_range r g y x \<longleftrightarrow> g y x \<or> coord x y \<in> cells r"
  unfolding mark_range_def mark_rows by (auto simp: in_cells)

lemma mark_all: "fold mark_range rs g y x \<longleftrightarrow> g y x \<or> coord x y \<in> cover (set rs)"
  by (induction rs arbitrary: g) (auto simp: mark_range_cells cover_def)

lemma extent_step_simp [simp]:
  "extent_step r (a, b, c, d) =
     (min a (cx (start_coord r)), max b (cx (end_coord r)),
      min c (cy (start_coord r)), max d (cy (end_coord r)))"
  by (simp add: extent_step_def)

lemma extent_bounds:
  assumes "fold extent_step rs (a, b, c, d) = (a', b', c', d')"
  shows "a' \<le> a \<and> b \<le> b' \<and> c' \<le> c \<and> d \<le> d' \<and>
    (\<forall>r \<in> set rs. a' \<le> cx (start_coord r) \<and> cx (end_coord r) \<le> b' \<and>
                  c' \<le> cy (start_coord r) \<and> cy (end_coord r) \<le> d')"
  using assms
proof (induction rs arbitrary: a b c d)
  case Nil
  then show ?case by simp
next
  case (Cons r rs)
  from Cons.prems have "fold extent_step rs
      (min a (cx (start_coord r)), max b (cx (end_coord r)),
       min c (cy (start_coord r)), max d (cy (end_coord r))) = (a', b', c', d')"
    by simp
  from Cons.IH [OF this] show ?case by simp
qed

lemma extent_least:
  assumes "fold extent_step rs (a, b, c, d) = (a', b', c', d')"
    and "\<forall>r \<in> set rs. u \<le> cx (start_coord r) \<and> cx (end_coord r) \<le> v \<and>
                      w \<le> cy (start_coord r) \<and> cy (end_coord r) \<le> z"
    and "u \<le> a" "b \<le> v" "w \<le> c" "d \<le> z"
  shows "u \<le> a' \<and> b' \<le> v \<and> w \<le> c' \<and> d' \<le> z"
  using assms
proof (induction rs arbitrary: a b c d)
  case Nil
  then show ?case by simp
next
  case (Cons r rs)
  from Cons.prems(1) have "fold extent_step rs
      (min a (cx (start_coord r)), max b (cx (end_coord r)),
       min c (cy (start_coord r)), max d (cy (end_coord r))) = (a', b', c', d')"
    by simp
  from Cons.IH [OF this] Cons.prems(2-) show ?case by simp
qed

section \<open>The runs of a row\<close>

lemma run_end_spec:
  assumes "a \<le> width" and "\<not> row width"
  shows "run_end row width a \<le> width \<and> \<not> row (run_end row width a) \<and>
    (\<forall>x. a \<le> x \<longrightarrow> x < run_end row width a \<longrightarrow> row x)"
  using assms
proof (induction row width a rule: run_end.induct)
  case (1 row width a)
  have nw: "\<not> row width" using 1 by simp
  have le: "a \<le> width" using 1 by simp
  show ?case
  proof (cases "row a")
    case True
    have s: "a + 1 \<le> width" using True le nw by (cases "a = width") auto
    have ih: "run_end row width (a + 1) \<le> width \<and> \<not> row (run_end row width (a + 1)) \<and>
      (\<forall>x. a + 1 \<le> x \<longrightarrow> x < run_end row width (a + 1) \<longrightarrow> row x)"
      using 1(1) True le nw s by simp
    have e: "run_end row width a = run_end row width (a + 1)"
      using True le by (subst run_end.simps) simp
    have "row x" if "a \<le> x" "x < run_end row width (a + 1)" for x
      using that True ih by (cases "x = a") auto
    then show ?thesis using e ih by simp
  next
    case False
    then have "run_end row width a = a" by (subst run_end.simps) simp
    with False le show ?thesis by simp
  qed
qed

definition runs_from :: "(nat \<Rightarrow> bool) \<Rightarrow> nat \<Rightarrow> nat \<Rightarrow> nat \<Rightarrow> core_range list \<Rightarrow> bool" where
  "runs_from row width b a rs \<longleftrightarrow>
     (\<forall>r \<in> set rs. \<exists>u v. r = box u b v b \<and> a \<le> u \<and> u \<le> v \<and> v < width) \<and>
     (\<forall>x. (\<exists>r \<in> set rs. cx (start_coord r) \<le> x \<and> x \<le> cx (end_coord r)) \<longleftrightarrow>
          a \<le> x \<and> x \<le> width \<and> row x) \<and>
     sorted_wrt (\<lambda>r q. cx (end_coord r) + 1 < cx (start_coord q)) rs"

lemma row_runs_spec:
  assumes "\<not> row width"
  shows "runs_from row width b a (row_runs row width b a)"
  using assms
proof (induction row width b a rule: row_runs.induct)
  case (1 row width b a)
  note IH = 1(1,2) and nw = 1(3)
  show ?case
  proof (cases "a \<le> width")
    case False
    then have "row_runs row width b a = []" by (subst row_runs.simps) simp
    with False show ?thesis by (simp add: runs_from_def)
  next
    case le: True
    show ?thesis
    proof (cases "row a")
      case False
      then have "row_runs row width b a = row_runs row width b (a + 1)"
        using le by (subst row_runs.simps) simp
      moreover have "runs_from row width b (a + 1) (row_runs row width b (a + 1))"
        using IH(2) [OF le False nw] .
      moreover have "a + 1 \<le> x \<and> x \<le> width \<and> row x \<longleftrightarrow> a \<le> x \<and> x \<le> width \<and> row x" for x
        using False by (cases "x = a") auto
      ultimately show ?thesis unfolding runs_from_def by (metis add_leD1)
    next
      case True
      define e where "e = run_end row width a"
      define rs where "rs = row_runs row width b (e + 1)"
      from run_end_spec [where row = row, OF le nw] run_end_ge [of a row width]
      have e: "e \<le> width" "\<not> row e" "\<And>x. a \<le> x \<Longrightarrow> x < e \<Longrightarrow> row x" "a \<le> e"
        by (auto simp: e_def)
      with True have ae: "a < e" by (cases "a = e") auto
      have eq: "row_runs row width b a = box a b (e - 1) b # rs"
        using le True by (subst row_runs.simps) (simp add: e_def rs_def)
      have R: "runs_from row width b (e + 1) rs" using IH(1) [OF le True nw] by (simp add: rs_def e_def)
      then have "\<forall>r \<in> set rs. e + 1 \<le> cx (start_coord r)" unfolding runs_from_def by fastforce
      moreover have "(\<exists>r \<in> set (box a b (e - 1) b # rs). cx (start_coord r) \<le> x \<and> x \<le> cx (end_coord r))
          \<longleftrightarrow> a \<le> x \<and> x \<le> width \<and> row x" for x
      proof -
        have "(\<exists>r \<in> set rs. cx (start_coord r) \<le> x \<and> x \<le> cx (end_coord r)) \<longleftrightarrow>
            e + 1 \<le> x \<and> x \<le> width \<and> row x" using R unfolding runs_from_def by blast
        with e ae show ?thesis by (cases "x < e"; cases "x = e") auto
      qed
      moreover have "\<forall>r \<in> set rs. \<exists>u v. r = box u b v b \<and> a \<le> u \<and> u \<le> v \<and> v < width"
        using R ae unfolding runs_from_def by fastforce
      moreover have "sorted_wrt (\<lambda>r q. cx (end_coord r) + 1 < cx (start_coord q)) rs"
        using R unfolding runs_from_def by blast
      moreover have "\<exists>u v. box a b (e - 1) b = box u b v b \<and> a \<le> u \<and> u \<le> v \<and> v < width"
        using ae e(1) by (intro exI [of _ a] exI [of _ "e - 1"]) auto
      ultimately show ?thesis unfolding eq runs_from_def using ae by fastforce
    qed
  qed
qed


section \<open>Joining a run with the ranges above it\<close>

definition hits :: "core_range set \<Rightarrow> core_range \<Rightarrow> core_range set" where
  "hits C r = {p \<in> C. cr_merge r p \<noteq> None}"

definition joined :: "core_range set \<Rightarrow> core_range \<Rightarrow> core_range set" where
  "joined C r = {m. \<exists>p \<in> C. cr_merge r p = Some m}"

lemma try_merge_fold:
  "fold (try_merge r) ps (N, F) =
     (N \<union> joined (set ps) r, F \<union> hits (set ps) r \<union> (if hits (set ps) r = {} then {} else {r}))"
proof (induction ps arbitrary: N F)
  case Nil
  then show ?case by (simp add: joined_def hits_def)
next
  case (Cons p ps)
  show ?case
  proof (cases "cr_merge r p")
    case None
    then have "joined (set (p # ps)) r = joined (set ps) r" "hits (set (p # ps)) r = hits (set ps) r"
      by (auto simp: joined_def hits_def)
    with None Cons show ?thesis by (simp add: try_merge_def)
  next
    case (Some m)
    then have "joined (set (p # ps)) r = insert m (joined (set ps) r)"
      "hits (set (p # ps)) r = insert p (hits (set ps) r)"
      by (auto simp: joined_def hits_def)
    with Some Cons show ?thesis by (auto simp: try_merge_def)
  qed
qed

text \<open>The iteration order of \<open>std::set<CoreRange>\<close>: every element, each once.\<close>

locale set_order =
  fixes iter :: "core_range set \<Rightarrow> core_range list"
  assumes set_iter: "finite S \<Longrightarrow> set (iter S) = S"
    and distinct_iter: "finite S \<Longrightarrow> distinct (iter S)"
begin

lemma merge_run_fold:
  assumes "finite C" and "finite D" and "\<forall>r \<in> set rs. \<forall>q \<in> D. cr_merge r q = None"
    and "sorted_wrt (\<lambda>q r. cr_merge r q = None) rs"
  shows "fold (merge_run iter) rs (N, F, C \<union> D) =
    (N \<union> (\<Union>r \<in> set rs. joined C r),
     F \<union> (\<Union>r \<in> set rs. hits C r) \<union> {r \<in> set rs. hits C r \<noteq> {}}, C \<union> D \<union> set rs)"
  using assms
proof (induction rs arbitrary: N F D)
  case Nil
  then show ?case by simp
next
  case (Cons r rs)
  have s: "set (iter (C \<union> D)) = C \<union> D" using Cons.prems by (simp add: set_iter)
  have h: "joined (C \<union> D) r = joined C r" "hits (C \<union> D) r = hits C r"
    using Cons.prems(3) by (auto simp: joined_def hits_def)
  have "merge_run iter r (N, F, C \<union> D) = (N \<union> joined C r,
      F \<union> hits C r \<union> (if hits C r = {} then {} else {r}), C \<union> insert r D)"
    by (simp add: merge_run_def try_merge_fold s h)
  moreover note Cons.IH [of "insert r D" "N \<union> joined C r"
      "F \<union> hits C r \<union> (if hits C r = {} then {} else {r})"]
  ultimately show ?case using Cons.prems by auto
qed

end

text \<open>A run of row \<open>b\<close> joins exactly the range that ends just above it with the same columns.\<close>

lemma merge_above:
  assumes "valid_range p" and "cy (end_coord p) < b" and "u \<le> v"
  shows "cr_merge (box u b v b) p = Some m \<longleftrightarrow>
    cx (start_coord p) = u \<and> cx (end_coord p) = v \<and> cy (end_coord p) + 1 = b \<and>
    m = box u (cy (start_coord p)) v b"
  using assms by (auto simp: cr_merge_def cr_intersects_def cr_adjacent_def Let_def valid_range_def)

lemma merge_same_row:
  assumes "v + 1 < u'" and "u \<le> v" and "u' \<le> v'"
  shows "cr_merge (box u' b v' b) (box u b v b) = None"
  using assms by (simp add: cr_merge_def cr_intersects_def cr_adjacent_def Let_def)

text \<open>What holds before row \<open>b\<close> is processed.\<close>

definition merged_above :: "core_coord set \<Rightarrow> nat \<Rightarrow> core_range set \<Rightarrow> bool" where
  "merged_above G b C \<longleftrightarrow> finite C \<and> (\<forall>p \<in> C. valid_range p \<and> cy (end_coord p) < b) \<and> apart C \<and>
     cover C = {c \<in> G. cy c < b}"

lemma merge_row_apart:
  assumes C: "\<forall>p \<in> C. valid_range p \<and> cy (end_coord p) < b" "apart C"
    and R: "\<forall>r \<in> R. \<exists>u v. r = box u b v b \<and> u \<le> v" "apart R"
    and C': "C' = (C \<union> R - ((\<Union>r \<in> R. hits C r) \<union> {r \<in> R. hits C r \<noteq> {}})) \<union> (\<Union>r \<in> R. joined C r)"
  shows "apart C'" and "cover C' = cover (C \<union> R)" and "\<forall>p \<in> C'. valid_range p \<and> cy (end_coord p) \<le> b"
proof -
  have val: "valid_range r" if "r \<in> R" for r using R(1) that by (auto simp: valid_range_def)
  have cr: "cells p \<inter> cells r = {}" if "p \<in> C" "r \<in> R" for p r
    using C(1) R(1) that by (fastforce simp: in_cells)
  have J: "\<exists>r p. r \<in> R \<and> p \<in> C \<and> p \<in> hits C r \<and> cells m = cells r \<union> cells p \<and> valid_range m \<and>
      cy (end_coord m) \<le> b \<and> cx (start_coord p) = cx (start_coord r) \<and>
      cx (end_coord p) = cx (end_coord r) \<and> cy (end_coord p) + 1 = b \<and>
      m = box (cx (start_coord r)) (cy (start_coord p)) (cx (end_coord r)) b"
    if m: "m \<in> (\<Union>r \<in> R. joined C r)" for m
  proof -
    from m obtain r p where rp: "r \<in> R" "p \<in> C" "cr_merge r p = Some m" by (auto simp: joined_def)
    with R(1) obtain u v where r: "r = box u b v b" "u \<le> v" by blast
    from rp C(1) have p: "valid_range p" "cy (end_coord p) < b" by auto
    from merge_above [OF p r(2), of m] rp(3) r(1) have
      "cx (start_coord p) = u \<and> cx (end_coord p) = v \<and> cy (end_coord p) + 1 = b \<and>
       m = box u (cy (start_coord p)) v b" by simp
    with rp r cells_merge [OF val p(1) rp(3)] show ?thesis
      by (intro exI [of _ r] exI [of _ p]) (auto simp: hits_def)
  qed
  show "\<forall>p \<in> C'. valid_range p \<and> cy (end_coord p) \<le> b"
    unfolding C' using C(1) R(1) val J by fastforce
  have sub: "cells p \<subseteq> cover (\<Union>r \<in> R. joined C r)"
    if p: "p \<in> (\<Union>r \<in> R. hits C r) \<union> {r \<in> R. hits C r \<noteq> {}}" for p
  proof -
    from p obtain r q m where "r \<in> R" "q \<in> C" "cr_merge r q = Some m" "p = q \<or> p = r"
      by (auto simp: hits_def)
    with cells_merge(1) [OF val, of r q m] C(1) show ?thesis by (force simp: cover_def joined_def)
  qed
  show "cover C' = cover (C \<union> R)"
  proof
    show "cover C' \<subseteq> cover (C \<union> R)" unfolding C' cover_def using J by blast
    show "cover (C \<union> R) \<subseteq> cover C'"
    proof
      fix c
      assume "c \<in> cover (C \<union> R)"
      then obtain p where p: "p \<in> C \<union> R" "c \<in> cells p" by (auto simp: cover_def)
      show "c \<in> cover C'"
      proof (cases "p \<in> (\<Union>r \<in> R. hits C r) \<union> {r \<in> R. hits C r \<noteq> {}}")
        case True
        from sub [OF this] p(2) have "c \<in> cover (\<Union>r \<in> R. joined C r)" by blast
        then show ?thesis unfolding C' by (auto simp: cover_def)
      next
        case False
        with p show ?thesis unfolding C' by (auto simp: cover_def)
      qed
    qed
  qed
  have apCR: "cells p \<inter> cells q = {}" if "p \<in> C \<union> R" "q \<in> C \<union> R" "p \<noteq> q" for p q
    using that C(2) R(2) cr Int_commute unfolding apart_def by (metis Un_iff)
  have new_old: "cells m \<inter> cells q = {}"
    if m: "m \<in> (\<Union>r \<in> R. joined C r)"
      and q: "q \<in> C \<union> R - ((\<Union>r \<in> R. hits C r) \<union> {r \<in> R. hits C r \<noteq> {}})" for m q
  proof -
    from J [OF m] obtain r p where rp: "r \<in> R" "p \<in> C" "p \<in> hits C r" "cells m = cells r \<union> cells p"
      by blast
    with q have "q \<noteq> r" "q \<noteq> p" by auto
    with rp q apCR [of r q] apCR [of p q] show ?thesis by auto
  qed
  have new_new: "cells m \<inter> cells n = {}"
    if mn: "m \<in> (\<Union>r \<in> R. joined C r)" "n \<in> (\<Union>r \<in> R. joined C r)" "m \<noteq> n" for m n
  proof -
    from J [OF mn(1)] obtain r p where m: "r \<in> R" "p \<in> C" "cells m = cells r \<union> cells p"
      "cx (start_coord p) = cx (start_coord r)" "cx (end_coord p) = cx (end_coord r)"
      "cy (end_coord p) + 1 = b"
      "m = box (cx (start_coord r)) (cy (start_coord p)) (cx (end_coord r)) b" by blast
    from J [OF mn(2)] obtain r' p' where n: "r' \<in> R" "p' \<in> C" "cells n = cells r' \<union> cells p'"
      "cx (start_coord p') = cx (start_coord r')" "cx (end_coord p') = cx (end_coord r')"
      "cy (end_coord p') + 1 = b"
      "n = box (cx (start_coord r')) (cy (start_coord p')) (cx (end_coord r')) b" by blast
    have "p \<noteq> p'"
      using m n mn(3) by auto
    have "r \<noteq> r'"
    proof
      assume "r = r'"
      then have "cx (end_coord p') = cx (end_coord p)" "cy (end_coord p') = cy (end_coord p)"
        using m n by auto
      then have "end_coord p = end_coord p'" by (cases "end_coord p"; cases "end_coord p'") auto
      moreover have "end_coord p \<in> cells p" "end_coord p' \<in> cells p'"
        using C(1) m(2) n(2) by (auto intro: corners_in_cells)
      ultimately show False using apCR [of p p'] m(2) n(2) \<open>p \<noteq> p'\<close> by auto
    qed
    with \<open>p \<noteq> p'\<close> m n apCR [of r r'] apCR [of p p'] cr [of p r'] cr [of p' r] show ?thesis by auto
  qed
  show "apart C'"
    unfolding apart_def
  proof (intro ballI impI)
    fix x y
    assume "x \<in> C'" "y \<in> C'" "x \<noteq> y"
    then show "cells x \<inter> cells y = {}"
      unfolding C' using apCR [of x y] new_old [of x y] new_old [of y x] new_new [of x y]
      by (auto simp: Int_commute)
  qed
qed


lemma runs_apart:
  assumes "runs_from row width b a rs"
  shows "apart (set rs)" and "distinct rs" and "sorted_wrt (\<lambda>q r. cr_merge r q = None) rs"
    and "\<forall>r \<in> set rs. \<exists>u v. r = box u b v b \<and> u \<le> v"
proof -
  let ?P = "\<lambda>r q. cx (end_coord r) + 1 < cx (start_coord q)"
  from assms have s: "sorted_wrt ?P rs"
    and b: "\<forall>r \<in> set rs. \<exists>u v. r = box u b v b \<and> u \<le> v" unfolding runs_from_def by blast+
  show "\<forall>r \<in> set rs. \<exists>u v. r = box u b v b \<and> u \<le> v" by (rule b)
  show "sorted_wrt (\<lambda>q r. cr_merge r q = None) rs"
  proof (rule sorted_wrt_mono_rel [OF _ s])
    fix q r
    assume "q \<in> set rs" "r \<in> set rs" and gap: "?P q r"
    then obtain u v u' v' where q: "q = box u b v b" "u \<le> v" and r: "r = box u' b v' b" "u' \<le> v'"
      using b by blast
    with gap merge_same_row [of v u' u v'] show "cr_merge r q = None" by simp
  qed
  have "distinct rs \<and> apart (set rs)"
    using s b
  proof (induction rs)
    case Nil
    then show ?case by (simp add: apart_def)
  next
    case (Cons r rs)
    from Cons.prems(1) have gap: "\<forall>q \<in> set rs. cx (end_coord r) + 1 < cx (start_coord q)" by simp
    from Cons.prems(2) have "cx (start_coord r) \<le> cx (end_coord r)" by auto
    with gap have "r \<notin> set rs" by auto
    moreover have "cells r \<inter> cells q = {}" if "q \<in> set rs" for q
      using gap that by (auto simp: in_cells)
    ultimately show ?case using Cons by (simp add: apart_insert)
  qed
  then show "apart (set rs)" "distinct rs" by simp_all
qed

lemma runs_cover:
  assumes R: "runs_from (\<lambda>x. coord x b \<in> G) width b a rs"
    and G: "\<And>c. c \<in> G \<Longrightarrow> a \<le> cx c \<and> cx c < width"
  shows "cover (set rs) = {c \<in> G. cy c = b}"
proof -
  from R have iff: "(\<exists>r \<in> set rs. cx (start_coord r) \<le> x \<and> x \<le> cx (end_coord r)) \<longleftrightarrow>
      a \<le> x \<and> x \<le> width \<and> coord x b \<in> G" for x unfolding runs_from_def by blast
  have row: "cy (start_coord r) = b \<and> cy (end_coord r) = b" if "r \<in> set rs" for r
    using R that unfolding runs_from_def by fastforce
  have "c \<in> cover (set rs) \<longleftrightarrow> c \<in> {c \<in> G. cy c = b}" for c
  proof -
    have "c \<in> cover (set rs) \<longleftrightarrow>
        cy c = b \<and> (\<exists>r \<in> set rs. cx (start_coord r) \<le> cx c \<and> cx c \<le> cx (end_coord r))"
      using row by (fastforce simp: cover_def in_cells)
    also have "\<dots> \<longleftrightarrow> cy c = b \<and> coord (cx c) b \<in> G"
      using iff [of "cx c"] G [of "coord (cx c) b"] by auto
    also have "\<dots> \<longleftrightarrow> c \<in> {c \<in> G. cy c = b}" by (cases c) auto
    finally show ?thesis .
  qed
  then show ?thesis by blast
qed

context set_order
begin

lemma merge_row_step:
  assumes I: "merged_above G b C" and g: "\<And>x. grid b x \<longleftrightarrow> coord x b \<in> G"
    and G: "\<And>c. c \<in> G \<Longrightarrow> min_x \<le> cx c \<and> cx c \<le> max_x"
  shows "merged_above G (b + 1) (merge_row iter grid min_x max_x b C)"
proof -
  define rs where "rs = row_runs (grid b) (max_x + 1) b min_x"
  have nw: "\<not> grid b (max_x + 1)" using g G [of "coord (max_x + 1) b"] by auto
  note R = row_runs_spec [where row = "grid b", OF nw, of b min_x, folded rs_def]
  note A = runs_apart [OF R]
  from I have C: "finite C" "\<forall>p \<in> C. valid_range p \<and> cy (end_coord p) < b" "apart C"
    and cov: "cover C = {c \<in> G. cy c < b}" by (auto simp: merged_above_def)
  define C' where "C' = (C \<union> set rs - ((\<Union>r \<in> set rs. hits C r) \<union> {r \<in> set rs. hits C r \<noteq> {}})) \<union>
      (\<Union>r \<in> set rs. joined C r)"
  have "merge_row iter grid min_x max_x b C = C'"
    unfolding merge_row_def rs_def [symmetric] C'_def
    using merge_run_fold [OF C(1), of "{}" rs "{}" "{}"] A(3) by simp
  moreover note D = merge_row_apart [OF C(2,3) A(4,1) C'_def]
  moreover have "finite C'"
  proof -
    have "joined C r \<subseteq> (\<lambda>p. the (cr_merge r p)) ` C" for r by (force simp: joined_def)
    then have "finite (joined C r)" for r using C(1) by (meson finite_imageI finite_subset)
    then show ?thesis using C(1) by (simp add: C'_def)
  qed
  moreover have "grid b = (\<lambda>x. coord x b \<in> G)" using g by (simp add: fun_eq_iff)
  with R have "cover (set rs) = {c \<in> G. cy c = b}"
    by (intro runs_cover [of b G "max_x + 1" min_x]) (use G in \<open>auto simp: less_Suc_eq_le\<close>)
  with cov have "cover (C \<union> set rs) = {c \<in> G. cy c < b + 1}" by (auto simp: cover_def)
  ultimately show ?thesis by (auto simp: merged_above_def)
qed

lemma merge_rows:
  assumes "merged_above G m {}" and "\<And>b x. grid b x \<longleftrightarrow> coord x b \<in> G"
    and "\<And>c. c \<in> G \<Longrightarrow> min_x \<le> cx c \<and> cx c \<le> max_x"
  shows "merged_above G (max m n) (fold (merge_row iter grid min_x max_x) [m ..< n] {})"
proof (induction n)
  case 0
  then show ?case using assms(1) by simp
next
  case (Suc n)
  show ?case
  proof (cases "m \<le> n")
    case True
    have "merged_above G (max m n + 1)
        (merge_row iter grid min_x max_x (max m n) (fold (merge_row iter grid min_x max_x) [m ..< n] {}))"
      by (rule merge_row_step [where grid = grid, OF Suc.IH assms(2,3)])
    with True show ?thesis by (simp add: max_def le_Suc_eq)
  next
    case False
    then show ?thesis using assms(1) by simp
  qed
qed

lemma merge_correct:
  assumes "\<forall>r \<in> set (ranges_of s) \<union> set other. valid_range r"
  shows "\<exists>s'. crs_merge iter s other = Inr s' \<and> crs_ok s' \<and>
    cores_of s' = cores_of s \<union> cover (set other)"
proof -
  define S where "S = set (ranges_of s) \<union> set other"
  define G where "G = cover S"
  define grid where "grid = fold mark_range (iter S) (\<lambda>_ _. False)"
  obtain min_x max_x min_y max_y where ext:
    "fold extent_step (iter S) (2 ^ 64 - 1, 0, 2 ^ 64 - 1, 0) = (min_x, max_x, min_y, max_y)"
    by (metis prod_cases4)
  have S: "finite S" "set (iter S) = S" by (simp_all add: S_def set_iter)
  have grid: "grid b x \<longleftrightarrow> coord x b \<in> G" for b x by (simp add: grid_def mark_all S G_def)
  have bnd: "min_x \<le> cx c \<and> cx c \<le> max_x \<and> min_y \<le> cy c \<and> cy c \<le> max_y" if "c \<in> G" for c
    using extent_bounds [OF ext] that S(2) unfolding G_def cover_def
    by (force simp: in_cells)
  define C where "C = fold (merge_row iter grid min_x max_x) [min_y ..< max_y + 1] {}"
  have init: "merged_above G min_y {}"
    unfolding merged_above_def using bnd by (fastforce simp: apart_def cover_def)
  from merge_rows [OF init grid, of min_x max_x "max_y + 1"] bnd
  have M: "merged_above G (max min_y (max_y + 1)) C" by (simp add: C_def)
  have "{c \<in> G. cy c < max min_y (max_y + 1)} = G" using bnd by fastforce
  with M have C: "finite C" "\<forall>p \<in> C. valid_range p" "apart C" "cover C = G"
    by (auto simp: merged_above_def)
  define s' where "s' = \<lparr>ranges_of = iter C\<rparr>"
  have "crs_ok s'" using C by (simp add: s'_def crs_ok_def set_iter distinct_iter)
  moreover have "crs_merge iter s other = core_range_set_new (iter C)"
    unfolding crs_merge_def Let_def S_def [symmetric] grid_def [symmetric] ext
    unfolding prod.case C_def ..
  ultimately have "crs_merge iter s other = Inr s'"
    using core_range_set_new_ok [of "iter C" s'] C by (simp add: s'_def set_iter)
  moreover have "cores_of s' = cores_of s \<union> cover (set other)"
    using C by (auto simp: cores_of_def s'_def set_iter G_def S_def cover_def)
  ultimately show ?thesis using \<open>crs_ok s'\<close> by blast
qed

end

text \<open>The order by columns, then rows, of the two corners.\<close>

definition range_key :: "core_range \<Rightarrow> (nat \<times> nat) \<times> nat \<times> nat" where
  "range_key r = ((cx (start_coord r), cy (start_coord r)), cx (end_coord r), cy (end_coord r))"

definition key_range :: "(nat \<times> nat) \<times> nat \<times> nat \<Rightarrow> core_range" where
  "key_range k = (case k of ((a, b), c, d) \<Rightarrow> box a b c d)"

definition column_order :: "core_range set \<Rightarrow> core_range list" where
  "column_order S = map key_range (sorted_list_of_set (range_key ` S))"

lemma key_range_inverse [simp]: "key_range (range_key r) = r"
  by (cases r; cases "start_coord r"; cases "end_coord r") (simp add: key_range_def range_key_def)

lemma range_key_inverse [simp]: "range_key (key_range k) = k"
  by (simp add: key_range_def range_key_def split: prod.splits)

interpretation column: set_order column_order
proof
  fix S :: "core_range set"
  assume "finite S"
  then show "set (column_order S) = S"
    by (simp add: column_order_def image_image)
  have "inj key_range" by (metis injI range_key_inverse)
  then have "inj_on key_range A" for A by (rule inj_on_subset) simp
  then show "distinct (column_order S)" by (simp add: column_order_def distinct_map)
qed

end
