(* ===== verification/Core_Coord_Theorems.thy ===== *)
theory Core_Coord_Theorems
  imports Core_Coord_Merge "HOL-Library.Multiset"
begin

text \<open>The enumerations of cores, and the theorems about core ranges.\<close>

section \<open>Enumerations\<close>

lemma core_range_eta [simp]: "\<lparr>start_coord = start_coord r, end_coord = end_coord r\<rparr> = r"
  by simp

lemma coord_eta [simp]: "coord (cx c) (cy c) = c"
  by simp

lemma concat_product: "concat (map (\<lambda>b. map (f b) as) bs) = map (\<lambda>(b, a). f b a) (List.product bs as)"
  by (induction bs) auto

lemma grid_to_cores_product:
  "grid_to_cores s e rw =
     (if rw then map (\<lambda>(b, a). coord a b) (List.product [cy s ..< cy e + 1] [cx s ..< cx e + 1])
      else map (\<lambda>(a, b). coord a b) (List.product [cx s ..< cx e + 1] [cy s ..< cy e + 1]))"
  unfolding grid_to_cores_def concat_product by simp

lemma distinct_grid_to_cores [simp]: "distinct (grid_to_cores s e rw)"
  unfolding grid_to_cores_product
  by (auto simp: distinct_map inj_on_def simp del: upt_Suc intro!: distinct_product)

lemma set_grid_to_cores: "set (grid_to_cores s e rw) = cells \<lparr>start_coord = s, end_coord = e\<rparr>"
  unfolding grid_to_cores_product cells_image by (auto simp del: upt_Suc)

lemma length_grid_to_cores:
  "valid_range r \<Longrightarrow> length (grid_to_cores (start_coord r) (end_coord r) rw) = cr_size r"
  using distinct_card [OF distinct_grid_to_cores, of "start_coord r" "end_coord r" rw]
  by (simp add: set_grid_to_cores card_cells)

lemma row_enum:
  assumes "0 < m"
  shows "map (\<lambda>i. f (i mod m) (i div m)) [0 ..< m * n] = concat (map (\<lambda>j. map (\<lambda>i. f i j) [0 ..< m]) [0 ..< n])"
proof (induction n)
  case 0
  then show ?case by simp
next
  case (Suc n)
  have "[0 ..< m * Suc n] = [0 ..< m * n] @ map (\<lambda>i. i + m * n) [0 ..< m]"
    unfolding map_add_upt using upt_add_eq_append [of 0 "m * n" m] by (simp add: add.commute)
  moreover have "map (\<lambda>i. f ((i + m * n) mod m) ((i + m * n) div m)) [0 ..< m] = map (\<lambda>i. f i n) [0 ..< m]"
    using assms by (intro map_cong) auto
  ultimately show ?case using Suc by (simp add: o_def)
qed

lemma box_enum:
  assumes "0 < m" and "0 < n"
  shows "(if rw then map (\<lambda>i. coord (i mod m) (i div m)) [0 ..< m * n]
          else map (\<lambda>i. coord (i div n) (i mod n)) [0 ..< m * n]) =
    grid_to_cores (coord 0 0) (coord (m - 1) (n - 1)) rw"
  using row_enum [OF assms(1), of coord n] row_enum [OF assms(2), of "\<lambda>a b. coord b a" m] assms
  by (simp add: grid_to_cores_def mult.commute)

lemma corerange_loop_take:
  "corerange_loop rs None rw acc = acc @ concat (map (\<lambda>r. grid_to_cores (start_coord r) (end_coord r) rw) rs)"
  "length acc \<le> m \<Longrightarrow> corerange_loop rs (Some m) rw acc =
     acc @ take (m - length acc) (concat (map (\<lambda>r. grid_to_cores (start_coord r) (end_coord r) rw) rs))"
  by (induction rs arbitrary: acc) (auto simp: Let_def)

lemma all_cores:
  assumes "crs_ok s"
    and xs_def: "xs = concat (map (\<lambda>r. grid_to_cores (start_coord r) (end_coord r) rw) (ranges_of s))"
  shows "distinct xs" "set xs = cores_of s" "length xs = card (cores_of s)"
proof -
  from assms(1) have "\<forall>r \<in> set (ranges_of s). valid_range r" "distinct (ranges_of s)"
    "apart (set (ranges_of s))" by (auto simp: crs_ok_def)
  then have "distinct (concat (map (\<lambda>r. grid_to_cores (start_coord r) (end_coord r) rw) (ranges_of s)))"
  proof (induction "ranges_of s" arbitrary: s)
    case Nil
    then show ?case by simp
  next
    case (Cons r rs)
    then have "cells r \<inter> cover (set rs) = {}" "apart (set rs)" "r \<notin> set rs" "distinct rs"
      by (auto simp: Cons.hyps(2) [symmetric] apart_insert cover_def)
    with Cons.hyps(1) [of "\<lparr>ranges_of = rs\<rparr>"] Cons.prems Cons.hyps(2) [symmetric] show ?case
      by (auto simp: set_grid_to_cores cover_def)
  qed
  then show d: "distinct xs" by (simp add: xs_def)
  show s: "set xs = cores_of s" by (auto simp: xs_def set_grid_to_cores cores_of_def cover_def)
  show "length xs = card (cores_of s)" using distinct_card [OF d] s by simp
qed

lemma iter_row:
  assumes "a \<le> cx (end_coord r)" and "b \<le> cy (end_coord r)"
  shows "iter_loop r (coord a b) acc =
    iter_loop r (coord (cx (start_coord r)) (b + 1)) (acc @ map (\<lambda>i. coord i b) [a ..< cx (end_coord r) + 1])"
  using assms(1)
proof (induction "cx (end_coord r) - a" arbitrary: a acc)
  case 0
  with assms(2) show ?case by (subst iter_loop.simps) (simp add: iter_end_def iter_next_def)
next
  case (Suc k)
  then have "k = cx (end_coord r) - (a + 1)" "a + 1 \<le> cx (end_coord r)" by auto
  from Suc.hyps(1) [OF this] Suc.hyps(2) Suc.prems assms(2) show ?case
    by (subst iter_loop.simps) (auto simp: iter_end_def iter_next_def upt_conv_Cons simp del: upt_Suc)
qed

lemma iter_rows:
  assumes "cx (start_coord r) \<le> cx (end_coord r)" and "b \<le> cy (end_coord r) + 1"
  shows "iter_loop r (coord (cx (start_coord r)) b) acc =
    Some (acc @ concat (map (\<lambda>j. map (\<lambda>i. coord i j) [cx (start_coord r) ..< cx (end_coord r) + 1])
      [b ..< cy (end_coord r) + 1]))"
  using assms(2)
proof (induction "cy (end_coord r) + 1 - b" arbitrary: b acc)
  case 0
  then show ?case by (subst iter_loop.simps) (simp add: iter_end_def)
next
  case (Suc k)
  then have "k = cy (end_coord r) + 1 - (b + 1)" "b + 1 \<le> cy (end_coord r) + 1"
    "b \<le> cy (end_coord r)" by auto
  with Suc.hyps(1) iter_row [OF assms(1), of b] show ?case
    by (simp add: upt_conv_Cons del: upt_Suc)
qed


section \<open>Theorems\<close>

text \<open>
  The operations on two core ranges mean what their names say on the sets of cores:
  \<open>intersects\<close> and \<open>contains\<close> decide overlap and inclusion, \<open>intersection\<close> is
  the common part, a successful \<open>merge\<close> is the union, and \<open>size\<close> is the number of
  cores.
\<close>

theorem core_range_operations:
  assumes "valid_range r" and "valid_range q"
  shows "(cr_intersects r q \<longleftrightarrow> cells r \<inter> cells q \<noteq> {}) \<and>
    (cr_contains_range r q \<longleftrightarrow> cells q \<subseteq> cells r) \<and>
    cells r \<inter> cells q = (case cr_intersection r q of None \<Rightarrow> {} | Some i \<Rightarrow> cells i) \<and>
    (\<forall>m. cr_merge r q = Some m \<longrightarrow> valid_range m \<and> cells m = cells r \<union> cells q) \<and>
    cr_size r = card (cells r)"
proof -
  have "cr_contains_range r q \<longleftrightarrow> cells q \<subseteq> cells r"
  proof
    assume "cells q \<subseteq> cells r"
    with corners_in_cells [OF assms(2)] have "start_coord q \<in> cells r" "end_coord q \<in> cells r" by auto
    then show "cr_contains_range r q" by (simp add: in_cells cr_contains_range_def)
  qed (auto simp: in_cells cr_contains_range_def)
  then show ?thesis
    using cells_intersect [OF assms] cells_intersection cells_merge [OF assms] card_cells [OF assms(1)]
    by simp
qed

theorem core_range_operations_witness:
  "cr_intersects (box 0 0 3 1) (box 2 1 5 5) \<and> cr_size (box 0 0 3 1) = 8"
  using core_range_operations [of "box 0 0 3 1" "box 2 1 5 5"]
  by (simp add: valid_range_def cr_intersects_def cr_size_def)



text \<open>
  C27: The counting test of \<open>CoreRangeSet::contains\<close> is right: as long as the number of
  cores fits 32 bits, adding up the sizes of the pairwise intersections decides whether all
  cores of the argument belong to the set, for a range and for a set of ranges.
\<close>

theorem core_range_set_contains:
  assumes "crs_ok s" and "crs_ok t" and "card (cores_of s) < 2 ^ 32" and "card (cores_of t) < 2 ^ 32"
    and "valid_range r" and "cr_size r < 2 ^ 32"
  shows "(crs_contains s t \<longleftrightarrow> cores_of t \<subseteq> cores_of s) \<and>
    (crs_contains_range s r \<longleftrightarrow> cells r \<subseteq> cores_of s) \<and> num_cores s = card (cores_of s)"
  using crs_contains_iff [OF assms(1-4)] crs_contains_range_iff [OF assms(1,5,3,6)]
    num_cores_card [OF assms(1)] assms(3) by simp

lemma single_ok:
  assumes "valid_range r"
  shows "crs_ok (crs_single r)" "cores_of (crs_single r) = cells r"
    "card (cores_of (crs_single r)) = cr_size r"
  using assms by (simp_all add: crs_single_def crs_ok_def cores_of_def cover_def apart_def card_cells)

theorem core_range_set_contains_witness:
  "crs_contains (crs_single (box 0 0 3 3)) (crs_single (box 1 1 2 2)) \<and>
   \<not> crs_contains_range (crs_single (box 0 0 3 3)) (box 1 1 4 2)"
proof -
  have v: "valid_range (box 0 0 3 3)" "valid_range (box 1 1 2 2)" "valid_range (box 1 1 4 2)"
    by (simp_all add: valid_range_def)
  have "\<not> cells (box 1 1 4 2) \<subseteq> cells (box 0 0 3 3)"
    using core_range_operations [OF v(1,3)] by (simp add: cr_contains_range_def)
  moreover have "cells (box 1 1 2 2) \<subseteq> cells (box 0 0 3 3)" by (auto simp: in_cells)
  ultimately show ?thesis
    using core_range_set_contains [OF single_ok(1) single_ok(1) _ _ v(3), OF v(1,2)] v
    by (simp add: single_ok card_cells cr_size_def)
qed

text \<open>Lists of ranges that are disjoint pair by pair.\<close>

abbreviation disjoint_list :: "core_range list \<Rightarrow> bool" where
  "disjoint_list rs \<equiv> sorted_wrt (\<lambda>i j. cells i \<inter> cells j = {}) rs"

lemma disjoint_list_iff:
  assumes "\<forall>r \<in> set rs. valid_range r"
  shows "disjoint_list rs \<longleftrightarrow> distinct rs \<and> apart (set rs)"
  using assms
proof (induction rs)
  case Nil
  then show ?case by (simp add: apart_def)
next
  case (Cons r rs)
  have "(\<forall>q \<in> set rs. cells r \<inter> cells q = {}) \<longleftrightarrow>
      r \<notin> set rs \<and> (\<forall>q \<in> set rs. q \<noteq> r \<longrightarrow> cells r \<inter> cells q = {})"
    using valid_cells_ne [of r] Cons.prems by force
  with Cons show ?case by (auto simp: apart_insert)
qed

lemma map_filter_mem: "i \<in> set (List.map_filter f qs) \<longleftrightarrow> (\<exists>q \<in> set qs. f q = Some i)"
  by (induction qs) (auto simp: map_filter_simps split: option.splits)

lemma disjoint_intersections:
  assumes "disjoint_list qs"
  shows "disjoint_list (List.map_filter (cr_intersection l) qs)"
  using assms
proof (induction qs)
  case Nil
  then show ?case by (simp add: map_filter_simps)
next
  case (Cons q qs)
  have "cells i \<inter> cells j = {}"
    if "cr_intersection l q = Some i" "j \<in> set (List.map_filter (cr_intersection l) qs)" for i j
  proof -
    from that(2) obtain p where "p \<in> set qs" "cr_intersection l p = Some j"
      by (auto simp: map_filter_mem)
    with that(1) Cons.prems cells_intersection [of l q] cells_intersection [of l p] show ?thesis by auto
  qed
  with Cons show ?case by (auto simp: map_filter_simps split: option.splits)
qed

lemma disjoint_all_intersections:
  assumes "disjoint_list rs" and "disjoint_list qs"
  shows "disjoint_list (concat (map (\<lambda>l. List.map_filter (cr_intersection l) qs) rs))"
  using assms
proof (induction rs)
  case Nil
  then show ?case by simp
next
  case (Cons r rs)
  have "cells i \<inter> cells j = {}"
    if "i \<in> set (List.map_filter (cr_intersection r) qs)" "l \<in> set rs"
      "j \<in> set (List.map_filter (cr_intersection l) qs)" for i j l
  proof -
    from that obtain p q where "cr_intersection r p = Some i" "cr_intersection l q = Some j"
      by (auto simp: map_filter_mem)
    with that(2) Cons.prems(1) cells_intersection [of r p] cells_intersection [of l q]
    show ?thesis by auto
  qed
  with Cons disjoint_intersections [of qs r] show ?case by (fastforce simp: sorted_wrt_append)
qed

text \<open>
  \<open>CoreRangeSet::intersection\<close> never fails on well-formed sets: the pairwise
  intersections are disjoint and make up the common cores.
\<close>

theorem core_range_set_intersection:
  assumes "crs_ok s" and "crs_ok t"
  shows "\<exists>u. crs_intersection s t = Inr u \<and> crs_ok u \<and> cores_of u = cores_of s \<inter> cores_of t"
proof -
  let ?rs = "concat (map (\<lambda>l. List.map_filter (cr_intersection l) (ranges_of t)) (ranges_of s))"
  define u where "u = \<lparr>ranges_of = ?rs\<rparr>"
  have mem: "i \<in> set ?rs \<longleftrightarrow>
      (\<exists>l \<in> set (ranges_of s). \<exists>q \<in> set (ranges_of t). cr_intersection l q = Some i)" for i
    by (auto simp: map_filter_mem)
  have val: "\<forall>i \<in> set ?rs. valid_range i" using mem intersection_valid by blast
  have "disjoint_list ?rs"
    using assms disjoint_list_iff by (intro disjoint_all_intersections) (auto simp: crs_ok_def)
  with disjoint_list_iff [OF val] val have ok: "crs_ok u" by (simp add: u_def crs_ok_def)
  moreover have "crs_intersection s t = Inr u"
    unfolding crs_intersection_def using core_range_set_new_ok [OF val] ok u_def by blast
  moreover have "c \<in> cores_of u \<longleftrightarrow> c \<in> cores_of s \<inter> cores_of t" for c
  proof -
    have "c \<in> cores_of u \<longleftrightarrow> (\<exists>l \<in> set (ranges_of s). \<exists>q \<in> set (ranges_of t). \<exists>i.
        cr_intersection l q = Some i \<and> c \<in> cells i)"
      unfolding u_def cores_of_def cover_def by (force simp: map_filter_mem)
    also have "\<dots> \<longleftrightarrow> (\<exists>l \<in> set (ranges_of s). \<exists>q \<in> set (ranges_of t). c \<in> cells l \<inter> cells q)"
      unfolding cells_intersection by (force split: option.splits)
    finally show ?thesis by (auto simp: cores_of_def cover_def)
  qed
  ultimately show ?thesis by blast
qed

theorem core_range_set_intersection_witness:
  "\<exists>u. crs_intersection (crs_single (box 0 0 3 3)) (crs_single (box 2 2 5 5)) = Inr u \<and>
     coord 3 3 \<in> cores_of u"
  using core_range_set_intersection [OF single_ok(1) single_ok(1), of "box 0 0 3 3" "box 2 2 5 5"]
  by (auto simp: valid_range_def single_ok in_cells)

text \<open>
  \<open>corerange_to_cores\<close> lists every core of a set exactly once, whether by rows or by
  columns, and with a maximum the first so many of them. Iterating over a range with its
  iterator ends, and visits the cores in the same row-wise order.
\<close>

theorem corerange_to_cores_enumerates:
  assumes "crs_ok s" and "valid_range r"
  shows "distinct (corerange_to_cores s None rw) \<and> set (corerange_to_cores s None rw) = cores_of s \<and>
    (\<forall>m. corerange_to_cores s (Some m) rw = take m (corerange_to_cores s None rw)) \<and>
    iter_loop r (iter_begin r) [] = Some (grid_to_cores (start_coord r) (end_coord r) True)"
proof -
  note A = all_cores [OF assms(1) refl, of rw]
  have "iter_loop r (iter_begin r) [] = Some (grid_to_cores (start_coord r) (end_coord r) True)"
    using iter_rows [of r "cy (start_coord r)" "[]"] assms(2)
    by (simp add: iter_begin_def grid_to_cores_def valid_range_def del: upt_Suc)
  with A(1,2) show ?thesis by (simp add: corerange_to_cores_def corerange_loop_take)
qed

theorem corerange_to_cores_enumerates_witness:
  "set (corerange_to_cores (crs_single (box 0 0 1 1)) None True) = cells (box 0 0 1 1) \<and>
   iter_loop (box 1 2 2 3) (coord 1 2) [] = Some [coord 1 2, coord 2 2, coord 1 3, coord 2 3]"
proof -
  have v: "valid_range (box 0 0 1 1)" "valid_range (box 1 2 2 3)" by (simp_all add: valid_range_def)
  have "grid_to_cores (coord 1 2) (coord 2 3) True = [coord 1 2, coord 2 2, coord 1 3, coord 2 3]"
    by (simp add: grid_to_cores_def upt_rec)
  with corerange_to_cores_enumerates [OF single_ok(1) [OF v(1)] v(2), of True] single_ok(2) [OF v(1)]
  show ?thesis by (simp add: iter_begin_def)
qed

text \<open>
  \<open>grid_to_cores_with_noop\<close> returns a permutation of the whole grid that starts with
  the cores of the bounding box; \<open>grid_to_cores\<close> with a number of cores returns the first
  so many distinct cores of the grid.
\<close>

theorem grid_to_cores_with_noop_permutes:
  assumes "bx < gx" and "by' < gy"
  shows "\<exists>cores. grid_to_cores_with_noop bx by' gx gy rw = Inr cores \<and>
    mset cores = mset (grid_to_cores (coord 0 0) (coord (gx - 1) (gy - 1)) True) \<and>
    take ((bx + 1) * (by' + 1)) cores = grid_to_cores (coord 0 0) (coord bx by') rw"
proof -
  let ?box = "grid_to_cores (coord 0 0) (coord bx by') rw"
  define right where "right = concat (map (\<lambda>a. map (\<lambda>b. coord a b) [0 ..< gy]) [bx + 1 ..< gx])"
  define bottom where "bottom = concat (map (\<lambda>b. map (\<lambda>a. coord a b) [0 ..< bx + 1]) [by' + 1 ..< gy])"
  have eq: "grid_to_cores_with_noop bx by' gx gy rw = Inr (?box @ right @ bottom)"
    unfolding grid_to_cores_with_noop_def Let_def right_def bottom_def
    using assms by (subst box_enum) (auto simp del: upt_Suc)
  have r: "right = grid_to_cores (coord (bx + 1) 0) (coord (gx - 1) (gy - 1)) False"
    using assms by (simp add: right_def grid_to_cores_def del: upt_Suc)
  have b: "bottom = grid_to_cores (coord 0 (by' + 1)) (coord bx (gy - 1)) True"
    using assms by (simp add: bottom_def grid_to_cores_def del: upt_Suc)
  have "distinct (?box @ right @ bottom)"
    unfolding r b by (auto simp: set_grid_to_cores in_cells)
  moreover have "set (?box @ right @ bottom) = set (grid_to_cores (coord 0 0) (coord (gx - 1) (gy - 1)) True)"
    unfolding r b using assms by (auto simp: set_grid_to_cores in_cells)
  ultimately have "mset (?box @ right @ bottom) = mset (grid_to_cores (coord 0 0) (coord (gx - 1) (gy - 1)) True)"
    by (intro set_eq_iff_mset_eq_distinct [THEN iffD1]) auto
  moreover have "length ?box = (bx + 1) * (by' + 1)"
    using length_grid_to_cores [of "box 0 0 bx by'" rw] by (simp add: valid_range_def cr_size_def)
  ultimately show ?thesis using eq by auto
qed

theorem grid_to_cores_with_noop_permutes_witness:
  "\<exists>cores. grid_to_cores_with_noop 1 0 3 2 True = Inr cores \<and> take 2 cores = [coord 0 0, coord 1 0]"
  using grid_to_cores_with_noop_permutes [of 1 3 0 2 True]
  by (auto simp: grid_to_cores_def upt_rec numeral_2_eq_2)

text \<open>
  \<open>CoreRangeSet::bounding_box\<close> of a non-empty set is the smallest range that contains
  every range of the set.
\<close>

theorem bounding_box_least:
  assumes "ranges_of s \<noteq> []"
    and "\<forall>r \<in> set (ranges_of s). valid_range r \<and> cx (start_coord r) < 2 ^ 32 \<and> cy (start_coord r) < 2 ^ 32"
  shows "\<exists>b. bounding_box s = Inr b \<and> valid_range b \<and> cr_contains_set b s \<and>
    (\<forall>q. cr_contains_set q s \<longrightarrow> cr_contains_range q b)"
proof -
  obtain a b c d where ext: "fold extent_step (ranges_of s) (2 ^ 32 - 1, 0, 2 ^ 32 - 1, 0) = (a, b, c, d)"
    by (metis prod_cases4)
  note B = extent_bounds [OF ext]
  from assms(1) obtain r where r: "r \<in> set (ranges_of s)" by (cases "ranges_of s") auto
  with B assms(2) have le: "a \<le> b" "c \<le> d" by (force simp: valid_range_def)+
  have "cr_contains_range q (box a c b d)" if q: "cr_contains_set q s" for q
  proof -
    have "\<forall>r \<in> set (ranges_of s). cx (start_coord q) \<le> cx (start_coord r) \<and>
        cx (end_coord r) \<le> cx (end_coord q) \<and> cy (start_coord q) \<le> cy (start_coord r) \<and>
        cy (end_coord r) \<le> cy (end_coord q)"
      using q by (auto simp: cr_contains_set_def list_all_iff cr_contains_range_def)
    moreover from this r assms(2) have "cx (start_coord q) \<le> 2 ^ 32 - 1" "cy (start_coord q) \<le> 2 ^ 32 - 1"
      by fastforce+
    ultimately show ?thesis using extent_least [OF ext] by (simp add: cr_contains_range_def)
  qed
  moreover have "bounding_box s = Inr (box a c b d)"
    using assms(1) ext le by (simp add: bounding_box_def core_range_new_def)
  moreover have "cr_contains_set (box a c b d) s"
    using B by (auto simp: cr_contains_set_def list_all_iff cr_contains_range_def)
  ultimately show ?thesis using le by (auto simp: valid_range_def)
qed

theorem bounding_box_least_witness:
  "\<exists>b. bounding_box \<lparr>ranges_of = [box 0 3 1 4, box 5 0 6 1]\<rparr> = Inr b \<and> cr_contains_range b (box 0 3 1 4)"
  using bounding_box_least [of "\<lparr>ranges_of = [box 0 3 1 4, box 5 0 6 1]\<rparr>"]
  by (auto simp: valid_range_def cr_contains_set_def)

end
