(* ===== verification/Tt_Math.thy ===== *)
theory Tt_Math
  imports Prelude
begin

text \<open>
  Integer helpers: src/tt_metal/common/math.hpp, and src/tt_metal/common/tt_rounding.h
  with its template parameter instantiated by \<open>uint32_t\<close>.
\<close>

unbundle bit_operations_syntax

definition div_up :: "u32 \<Rightarrow> u32 \<Rightarrow> tt_error + u32" where
  "div_up a b =
     (if b > 0 then Inr (sub32 (add32 a b) 1 div b) else Inl (Tt_fatal ''Divide by 0 error''))"

definition round_up :: "u32 \<Rightarrow> u32 \<Rightarrow> tt_error + u32" where
  "round_up a b = bind_result (div_up a b) (\<lambda>q. Inr (mul32 b q))"

definition round_down :: "u32 \<Rightarrow> u32 \<Rightarrow> tt_error + u32" where
  "round_down a b = (if b = 0 then Inl Div_by_zero else Inr (mul32 (a div b) b))"

definition positive_pow_of_2 :: "u32 \<Rightarrow> tt_error + u32" where
  "positive_pow_of_2 e =
     (if e < 32 then Inr (push_bit e 1 mod 2 ^ 32) else Inl (Tt_fatal ''Exponent out of bounds''))"

text \<open>The loop over the 32 digits; the second argument is the number of digits left.\<close>

fun power_loop :: "u32 \<Rightarrow> nat \<Rightarrow> u32 \<Rightarrow> tt_error + u32" where
  "power_loop x 0 p = Inl (Tt_assert ''round_to_power_of_2'')"
| "power_loop x (Suc k) p = (if p \<ge> x then Inr p else power_loop x k (p * 2 mod 2 ^ 32))"

definition round_to_power_of_2 :: "u32 \<Rightarrow> tt_error + u32" where
  "round_to_power_of_2 x = power_loop x 32 1"

definition round_up_to :: "u32 \<Rightarrow> u32 \<Rightarrow> tt_error + u32" where
  "round_up_to x multiple =
     (if \<not> multiple > 0 then Inl (Tt_assert ''multiple > 0'')
      else let remainder = x mod multiple
           in Inr (if remainder \<noteq> 0 then add32 (sub32 x remainder) multiple else x))"

definition round_up_div :: "u32 \<Rightarrow> u32 \<Rightarrow> tt_error + u32" where
  "round_up_div dividend divisor =
     (if \<not> divisor > 0 then Inl (Tt_assert ''divisor > 0'')
      else Inr (add32 (dividend div divisor) (if dividend mod divisor \<noteq> 0 then 1 else 0)))"

definition log2_const :: "u32 \<Rightarrow> u32" where
  "log2_const x = (case find (\<lambda>i. x \<le> 2 ^ i) [0 ..< 32] of None \<Rightarrow> 32 | Some i \<Rightarrow> i)"

definition log2_flr_const :: "u32 \<Rightarrow> u32" where
  "log2_flr_const x = (case find (\<lambda>i. drop_bit i x = 1) [0 ..< 32] of None \<Rightarrow> 32 | Some i \<Rightarrow> i)"

text \<open>\<open>align\<close> of src/tt_metal/common/base.hpp, for a power of two.\<close>

definition align_u32 :: "u32 \<Rightarrow> u32 \<Rightarrow> u32" where
  "align_u32 addr al = add32 (sub32 addr 1 OR sub32 al 1) 1"

section \<open>Rounding\<close>

lemma div_up_small:
  assumes "0 < b" and "a + b \<le> 2 ^ 32"
  shows "div_up a b = Inr ((a + b - 1) div b)"
proof (cases "a + b < 2 ^ 32")
  case True
  with assms show ?thesis by (simp add: div_up_def no_wrap)
next
  case False
  with assms have "a + b = 2 ^ 32" by simp
  with assms show ?thesis by (simp add: div_up_def add32_def sub32_def)
qed

lemma round_up_small:
  assumes "0 < b" and "a + b \<le> 2 ^ 32"
  shows "round_up a b = Inr (b * ((a + b - 1) div b))"
proof -
  note c = ceil_div_mult_bounds [OF assms(1), of a]
  have "b * ((a + b - 1) div b) < 2 ^ 32"
    using c(3) assms by (simp only: mult.commute [of b])
  with assms show ?thesis by (simp add: round_up_def div_up_small no_wrap)
qed

text \<open>The least multiple of \<open>b\<close> that is not below \<open>a\<close>.\<close>

definition ceil_to :: "nat \<Rightarrow> nat \<Rightarrow> nat" where
  "ceil_to a b = (a + b - 1) div b * b"

lemma ceil_to_props:
  assumes "0 < b"
  shows "b dvd ceil_to a b" "a \<le> ceil_to a b" "ceil_to a b < a + b"
  using ceil_div_mult_bounds [OF assms] by (auto simp: ceil_to_def)

lemma ceil_to_least:
  assumes "0 < b" and "b dvd m" and "a \<le> m"
  shows "ceil_to a b \<le> m"
proof (rule ccontr)
  assume "\<not> ceil_to a b \<le> m"
  moreover from assms ceil_to_props(1) [OF assms(1), of a] obtain k l where
    kl: "ceil_to a b = b * k" "m = b * l" unfolding dvd_def by blast
  ultimately have "b * Suc l \<le> b * k" using assms(1) by (intro mult_le_mono) auto
  with kl ceil_to_props(3) [OF assms(1), of a] assms(3) show False by simp
qed

lemma ceil_to_unique:
  assumes "0 < b" and "b dvd m" and "a \<le> m" and "m < a + b"
  shows "m = ceil_to a b"
proof -
  from assms ceil_to_props(1) [OF assms(1), of a] obtain k l where
    kl: "ceil_to a b = b * k" "m = b * l" unfolding dvd_def by blast
  have "k \<le> l" using ceil_to_least [OF assms(1-3)] kl assms(1) by simp
  moreover have "l < k + 1"
  proof -
    have "b * l < b * (k + 1)" using kl assms ceil_to_props(2) [OF assms(1), of a] by (simp add: algebra_simps)
    then show ?thesis unfolding mult_less_cancel1 by simp
  qed
  ultimately show ?thesis using kl by simp
qed

lemma or_mask: "x OR mask k = x div 2 ^ k * 2 ^ k + (2 ^ k - 1 :: nat)"
proof -
  have "x OR mask k = push_bit k (drop_bit k x) OR mask k"
    by (rule bit_eqI) (auto simp: bit_simps)
  also have "\<dots> = push_bit k (drop_bit k x) + mask k"
    by (rule disjunctive_add_eq_or [symmetric]) (auto simp: bit_eq_iff bit_simps)
  finally show ?thesis by (simp add: push_bit_eq_mult drop_bit_eq_div mask_eq_exp_minus_1)
qed

lemma align_u32_ceil:
  assumes "0 < p" and "p + 2 ^ k \<le> 2 ^ 32"
  shows "align_u32 p (2 ^ k) = ceil_to p (2 ^ k)"
proof -
  have k: "(2 :: nat) ^ k < 2 ^ 32" "(1 :: nat) \<le> 2 ^ k" using assms by (auto intro: le_less_trans)
  have "p < 2 ^ 32" using assms(2) k(2) by linarith
  then have "sub32 p 1 = p - 1" "sub32 (2 ^ k) 1 = 2 ^ k - 1" using assms k by (auto intro!: sub32_small)
  then have "sub32 p 1 OR sub32 (2 ^ k) 1 = (p - 1) div 2 ^ k * 2 ^ k + (2 ^ k - 1)"
    using or_mask [of "p - 1" k] by (simp add: mask_eq_exp_minus_1)
  moreover have "ceil_to p (2 ^ k) = (p - 1) div 2 ^ k * 2 ^ k + 2 ^ k"
  proof -
    have "p + 2 ^ k - 1 = (p - 1) + 2 ^ k" using assms(1) by simp
    then have "(p + 2 ^ k - 1) div 2 ^ k = (p - 1) div 2 ^ k + 1" using div_add_self2 [of "2 ^ k" "p - 1"] by simp
    then show ?thesis by (simp add: ceil_to_def)
  qed
  moreover have "(p - 1) div 2 ^ k * 2 ^ k \<le> p - 1" by simp
  then have "(p - 1) div 2 ^ k * 2 ^ k + 2 ^ k < 2 ^ 32" using assms by linarith
  ultimately show ?thesis using k(2) by (simp add: align_u32_def add32_def)
qed

lemma align_u32_aligned:
  assumes "2 ^ k dvd p" and "p < 2 ^ 32" and "k < 32"
  shows "align_u32 p (2 ^ k) = p"
proof (cases "p = 0")
  case True
  have "sub32 0 1 = mask 32" by (simp add: sub32_def mask_eq_exp_minus_1)
  moreover have "sub32 (2 ^ k) 1 = 2 ^ k - 1"
    using assms(3) power_strict_increasing [of k 32 "2 :: nat"] by (intro sub32_small) auto
  then have "sub32 (2 ^ k) 1 = mask k" by (simp add: mask_eq_exp_minus_1)
  moreover have "mask 32 OR mask k = (mask 32 :: nat)" using assms(3) by (auto simp: bit_eq_iff bit_simps)
  ultimately show ?thesis using True by (simp add: align_u32_def add32_def mask_eq_exp_minus_1)
next
  case False
  have "p + 2 ^ k \<le> 2 ^ 32"
  proof -
    obtain a where a: "p = 2 ^ k * a" using assms(1) ..
    have e: "(2 :: nat) ^ 32 = 2 ^ k * 2 ^ (32 - k)" using assms(3) by (simp flip: power_add)
    have "2 ^ k * a < 2 ^ k * (2 ^ (32 - k) :: nat)" using assms(2) unfolding e a .
    then have "a < 2 ^ (32 - k)" by (simp only: mult_less_cancel1)
    then have "2 ^ k * Suc a \<le> 2 ^ k * (2 ^ (32 - k) :: nat)" by (intro mult_left_mono) auto
    then show ?thesis unfolding e a by simp
  qed
  then show ?thesis
    using align_u32_ceil [of p k] ceil_to_unique [of "2 ^ k" p p] assms(1) False by simp
qed

lemma pow2_le_4096: "k \<le> 12 \<Longrightarrow> (2 :: nat) ^ k \<le> 4096"
  using power_increasing [of k 12 "2 :: nat"] by simp

lemma align_u32_near:
  assumes "p < 2 ^ 31" "k \<le> 12"
  shows "2 ^ k dvd align_u32 p (2 ^ k)" "p \<le> align_u32 p (2 ^ k)" "align_u32 p (2 ^ k) < p + 4096"
proof -
  have k: "(2 :: nat) ^ k \<le> 4096" by (rule pow2_le_4096 [OF assms(2)])
  have "align_u32 p (2 ^ k) = ceil_to p (2 ^ k)"
  proof (cases "p = 0")
    case True
    then show ?thesis using align_u32_aligned [of k 0] assms(2) by (simp add: ceil_to_def)
  qed (use align_u32_ceil [of p k] assms k in simp)
  then show "2 ^ k dvd align_u32 p (2 ^ k)" "p \<le> align_u32 p (2 ^ k)" "align_u32 p (2 ^ k) < p + 4096"
    using ceil_to_props [of "2 ^ k" p] k by (simp_all add: add_strict_mono less_le_trans)
qed

lemma power_loop_spec:
  assumes "p = 2 ^ j" and "j + k = 32" and "0 < k" and "j = 0 \<or> 2 ^ (j - 1) < x" and "x \<le> 2 ^ 31"
  shows "\<exists>e. power_loop x k p = Inr (2 ^ e) \<and> x \<le> 2 ^ e \<and> (e = 0 \<or> 2 ^ (e - 1) < x)"
  using assms
proof (induction x k p arbitrary: j rule: power_loop.induct)
  case (1 x p)
  then show ?case by simp
next
  case (2 x k p)
  show ?case
  proof (cases "p \<ge> x")
    case True
    with "2.prems" show ?thesis by auto
  next
    case False
    with "2.prems" have "j < 31" by (metis leI le_trans nat_less_le not_less one_le_numeral power_increasing)
    then have "p * 2 mod 2 ^ 32 = 2 ^ Suc j" using "2.prems"(1)
      using power_strict_increasing [of "Suc j" 32 "2 :: nat"] by simp
    moreover have "\<exists>e. power_loop x k (2 ^ Suc j) = Inr (2 ^ e) \<and> x \<le> 2 ^ e \<and> (e = 0 \<or> 2 ^ (e - 1) < x)"
      using "2.IH" [OF False, of "Suc j"] calculation "2.prems" False \<open>j < 31\<close>
      by (simp add: mult.commute)
    ultimately show ?thesis using False by simp
  qed
qed

text \<open>
  The rounding helpers agree and are correct while nothing overflows: \<open>round_up\<close>
  and \<open>round_up_to\<close> give the least multiple not below the argument, \<open>div_up\<close> and
  \<open>round_up_div\<close> the quotient rounded up, and a zero divisor is an error in each.
\<close>

theorem rounding_correct:
  assumes "a + b \<le> 2 ^ 32" and "a < 2 ^ 32"
  shows "(if b = 0 then round_up a b = Inl (Tt_fatal ''Divide by 0 error'')
      else round_up a b = Inr (ceil_to a b)) \<and>
    (0 < b \<longrightarrow> ceil_to a b < 2 ^ 32 \<longrightarrow> round_up_to a b = round_up a b) \<and>
    (0 < b \<longrightarrow> round_up_div a b = div_up a b \<and> div_up a b = Inr (ceil_to a b div b))"
proof (cases "b = 0")
  case True
  then show ?thesis by (simp add: round_up_def div_up_def)
next
  case False
  then have b: "0 < b" by simp
  have ru: "round_up a b = Inr (ceil_to a b)"
    using round_up_small [OF b assms(1)] by (simp add: ceil_to_def mult.commute)
  have du: "div_up a b = Inr (ceil_to a b div b)"
    using div_up_small [OF b assms(1)] b by (simp add: ceil_to_def)
  have d: "b dvd a - a mod b + b" by (rule dvd_add [OF dvd_minus_mod dvd_refl])
  have "a mod b < b" "a mod b \<le> a" using b by simp_all
  with d have eq: "ceil_to a b = (if a mod b \<noteq> 0 then a - a mod b + b else a)"
    by (intro ceil_to_unique [symmetric, OF b]) (auto split: if_splits)
  have "round_up_to a b = Inr (ceil_to a b)" if "ceil_to a b < 2 ^ 32"
    using that eq b assms(2) by (auto simp: round_up_to_def Let_def no_wrap)
  moreover have "ceil_to a b div b = a div b + (if a mod b \<noteq> 0 then 1 else 0)"
    unfolding eq using b by (simp add: minus_mod_eq_mult_div)
  moreover have "a div b + 1 < 2 ^ 32 \<or> a mod b = 0"
  proof (cases "b = 1")
    case False
    with b have "a div b \<le> a div 2" by (intro div_le_mono2) auto
    moreover have "a div 2 < 2 ^ 31" using assms(2) by (simp add: div_less_iff_less_mult)
    ultimately show ?thesis by simp
  qed simp
  moreover have "a div b < 2 ^ 32" using assms(2) div_le_dividend [of a b] by linarith
  ultimately show ?thesis using ru du b assms(2) False
    by (auto simp: round_up_div_def add32_def)
qed

theorem rounding_correct_witness:
  "round_up 100 32 = Inr 128 \<and> round_up_to 100 32 = Inr 128 \<and> round_up_div 100 32 = Inr 4"
  using rounding_correct [of 100 32] by (simp add: ceil_to_def)

text \<open>
  \<open>round_to_power_of_2\<close> returns the least power of two not below its argument, for
  every argument up to \<open>2 ^ 31\<close>, the largest power a 32-bit number can hold.
\<close>

theorem round_to_power_of_2_least:
  assumes "x \<le> 2 ^ 31"
  shows "\<exists>e. round_to_power_of_2 x = Inr (2 ^ e) \<and> x \<le> 2 ^ e \<and> (\<forall>k. x \<le> 2 ^ k \<longrightarrow> e \<le> k)"
proof -
  from power_loop_spec [of 1 0 32 x] assms obtain e where
    e: "power_loop x 32 1 = Inr (2 ^ e)" "x \<le> 2 ^ e" "e = 0 \<or> 2 ^ (e - 1) < x" by auto
  have "e \<le> k" if "x \<le> 2 ^ k" for k
  proof (rule ccontr)
    assume "\<not> e \<le> k"
    then have "(2 :: nat) ^ k \<le> 2 ^ (e - 1)" and "e \<noteq> 0" by (auto intro!: power_increasing)
    then show False using e(3) that by (metis leD le_trans)
  qed
  with e show ?thesis by (auto simp: round_to_power_of_2_def)
qed

theorem round_to_power_of_2_least_witness:
  "\<exists>e. round_to_power_of_2 100 = Inr (2 ^ e) \<and> 100 \<le> (2 :: nat) ^ e"
  using round_to_power_of_2_least [of 100] by auto

end
