(* ===== verification/Work_Split.thy ===== *)
theory Work_Split
  imports Core_Coord
begin

text \<open>
  Partitioning work between cores: src/tt_metal/common/work_split.cpp.

  The functions that build core ranges go through the constructor \<open>core_range_new\<close>,
  which raises on an inverted range; \<open>bind_result\<close> passes the exception on. Grid sizes
  are truncated to \<open>uint32_t\<close> as the source does; core counts wrap at 32 bits.
\<close>

section \<open>Divisors\<close>

text \<open>
  The loop over candidate read sizes. It does not return when the 32-bit counter wraps
  around before it exceeds the maximum.
\<close>

partial_function (option) merge_sticks_loop :: "u32 \<Rightarrow> u32 \<Rightarrow> u32 \<Rightarrow> u32 \<Rightarrow> u32 \<Rightarrow> (tt_error + u32) option" where
  "merge_sticks_loop total_bytes stick max_read current new_num =
     (if current \<le> max_read then
        if current = 0 then Some (Inl Div_by_zero)
        else merge_sticks_loop total_bytes stick max_read (add32 current stick)
               (if total_bytes mod current = 0 then total_bytes div current else new_num)
      else Some (Inr new_num))"

declare merge_sticks_loop.simps [code]

definition merge_num_sticks_to_read :: "u32 \<Rightarrow> u32 \<Rightarrow> u32 \<Rightarrow> (tt_error + u32) option" where
  "merge_num_sticks_to_read num_sticks stick max_read =
     merge_sticks_loop (mul32 num_sticks stick) stick max_read stick num_sticks"

definition get_max_cores_divisible_by_tiles_per_core_tiles ::
    "u32 \<Rightarrow> u32 \<Rightarrow> bool \<Rightarrow> tt_error + u32 \<times> u32" where
  "get_max_cores_divisible_by_tiles_per_core_tiles num_tiles num_cores_max request_even =
     (let num_cores = fold (\<lambda>i n. if num_tiles mod i = 0 then i else n) [2 ..< num_cores_max + 1] 1;
          num_cores = (if request_even then num_cores - num_cores mod 2 else num_cores)
      in if num_cores = 0 then Inl Div_by_zero
         else let per_core = num_tiles div num_cores
              in Inr (num_cores, if num_tiles mod num_cores \<noteq> 0 then add32 per_core 1 else per_core))"

text \<open>
  The loops count down an \<open>int\<close> that starts at an unsigned number: from \<open>2 ^ 31\<close> on
  it is negative, and the loop is not entered.
\<close>

definition count_down :: "u32 \<Rightarrow> nat list" where
  "count_down start = (if start < 2 ^ 31 then rev [1 ..< start + 1] else [])"

definition find_max_divisor :: "u32 \<Rightarrow> u32 \<Rightarrow> nat" where
  "find_max_divisor val start_max_div =
     (case find (\<lambda>d. \<not> (d = 7 \<or> d = 5) \<and> val mod d = 0) (count_down start_max_div) of
        None \<Rightarrow> 1 | Some d \<Rightarrow> d)"

definition find_max_block_size :: "u32 \<Rightarrow> u32 \<Rightarrow> nat" where
  "find_max_block_size val max_block_size =
     (case find (\<lambda>d. val mod d = 0) (count_down max_block_size) of None \<Rightarrow> 1 | Some d \<Rightarrow> d)"

section \<open>The first cores of a grid\<close>

text \<open>Ranges so far, the next core, and the number of cores left.\<close>

type_synonym split_state = "core_range list \<times> core_coord \<times> u32"

definition emplace :: "core_coord \<Rightarrow> core_coord \<Rightarrow> core_coord \<Rightarrow> split_state \<Rightarrow> tt_error + split_state" where
  "emplace s e s' st =
     (case st of (rs, _, n) \<Rightarrow>
        bind_result (core_range_new s e) (\<lambda>r. Inr (rs @ [r], s', sub32 n (cr_size r))))"

definition row_start :: "u32 \<Rightarrow> split_state \<Rightarrow> tt_error + split_state" where
  "row_start gx st =
     (case st of (rs, s, n) \<Rightarrow>
        if cx s \<noteq> 0 \<and> n > gx - cx s
        then emplace s (coord (gx - 1) (cy s)) (coord 0 (cy s + 1)) st else Inr st)"

definition row_full :: "u32 \<Rightarrow> split_state \<Rightarrow> tt_error + split_state" where
  "row_full gx st =
     (case st of (rs, s, n) \<Rightarrow>
        if n > gx
        then emplace s (coord (gx - 1) (cy s + n div gx - 1)) (coord 0 (cy s + n div gx)) st
        else Inr st)"

definition row_rest :: "split_state \<Rightarrow> tt_error + core_range list" where
  "row_rest st =
     (case st of (rs, s, n) \<Rightarrow>
        if n > 0
        then bind_result (core_range_new s (coord (cx s + n - 1) (cy s))) (\<lambda>r. Inr (rs @ [r]))
        else Inr rs)"

definition col_start :: "u32 \<Rightarrow> split_state \<Rightarrow> tt_error + split_state" where
  "col_start gy st =
     (case st of (rs, s, n) \<Rightarrow>
        if cy s \<noteq> 0 \<and> n > gy - cy s
        then emplace s (coord (cx s) (gy - 1)) (coord (cx s + 1) 0) st else Inr st)"

definition col_full :: "u32 \<Rightarrow> split_state \<Rightarrow> tt_error + split_state" where
  "col_full gy st =
     (case st of (rs, s, n) \<Rightarrow>
        if n > gy
        then emplace s (coord (cx s + n div gy - 1) (gy - 1)) (coord (cx s + n div gy) 0) st
        else Inr st)"

definition col_rest :: "split_state \<Rightarrow> tt_error + core_range list" where
  "col_rest st =
     (case st of (rs, s, n) \<Rightarrow>
        if n > 0
        then bind_result (core_range_new s (coord (cx s) (cy s + n - 1))) (\<lambda>r. Inr (rs @ [r]))
        else Inr rs)"

definition num_cores_to_corerangeset ::
    "core_coord \<Rightarrow> u32 \<Rightarrow> core_coord \<Rightarrow> bool \<Rightarrow> tt_error + core_range_set" where
  "num_cores_to_corerangeset start_core target grid_size row_wise =
     (let gx = cx grid_size mod 2 ^ 32; gy = cy grid_size mod 2 ^ 32
      in if \<not> (cx start_core < gx \<and> cy start_core < gy)
         then Inl (Tt_fatal ''Start core must be within grid size'')
         else
           let available =
                 (if row_wise then add32 (((gy - 1 - cy start_core) * gx) mod 2 ^ 32) (gx - cx start_core)
                  else add32 (((gx - 1 - cx start_core) * gy) mod 2 ^ 32) (gy - cy start_core))
           in if \<not> target \<le> available
              then Inl (Tt_fatal ''Target number of cores is greater than available'')
              else
                bind_result
                  (if row_wise then
                     bind_result (row_start gx ([], start_core, target))
                       (\<lambda>st. bind_result (row_full gx st) row_rest)
                   else
                     bind_result (col_start gy ([], start_core, target))
                       (\<lambda>st. bind_result (col_full gy st) col_rest))
                  core_range_set_new)"

section \<open>Cores of a set of sub-grids\<close>

text \<open>Result ranges, \<open>current_start_core\<close>, \<open>current_end_core\<close>, \<open>remaining_cores\<close>.\<close>

type_synonym sub_state = "core_range list \<times> core_coord \<times> core_coord \<times> u32"

definition push_pending :: "sub_state \<Rightarrow> tt_error + core_range list" where
  "push_pending st =
     (case st of (res, s, e, rem) \<Rightarrow>
        if s \<noteq> e then bind_result (core_range_new s e) (\<lambda>r. Inr (res @ [r])) else Inr res)"

fun row_wise_loop :: "core_range \<Rightarrow> nat list \<Rightarrow> sub_state \<Rightarrow> tt_error + sub_state" where
  "row_wise_loop g [] st = Inr st"
| "row_wise_loop g (b # bs) (res, s, e, rem) =
     (if rem = 0 then Inr (res, s, e, rem)
      else
        let w = min (add32 (sub32 (cx (end_coord g)) (cx s)) 1) rem
        in if w < cx (cr_grid_size g) then
             bind_result (push_pending (res, s, e, rem)) (\<lambda>res.
             bind_result (core_range_new (coord (cx s) b) (coord (cx s + w - 1) b)) (\<lambda>r.
               row_wise_loop g bs
                 (res @ [r], coord (cx (start_coord g)) (b + 1), coord (cx (start_coord g)) (b + 1),
                  sub32 rem w)))
           else row_wise_loop g bs (res, s, coord (cx (end_coord g)) b, sub32 rem w))"

fun col_wise_loop :: "core_range \<Rightarrow> nat list \<Rightarrow> sub_state \<Rightarrow> tt_error + sub_state" where
  "col_wise_loop g [] st = Inr st"
| "col_wise_loop g (a # as) (res, s, e, rem) =
     (if rem = 0 then Inr (res, s, e, rem)
      else
        let h = min (add32 (sub32 (cy (end_coord g)) (cy s)) 1) rem
        in if h < cy (cr_grid_size g) then
             bind_result (push_pending (res, s, e, rem)) (\<lambda>res.
             bind_result (core_range_new (coord a (cy s)) (coord a (cy s + h - 1))) (\<lambda>r.
               col_wise_loop g as
                 (res @ [r], coord (a + 1) (cy (start_coord g)), coord (a + 1) (cy (start_coord g)),
                  sub32 rem h)))
           else col_wise_loop g as (res, s, coord a (cy (end_coord g)), sub32 rem h))"

definition process_sub_grid :: "bool \<Rightarrow> core_range \<Rightarrow> sub_state \<Rightarrow> tt_error + sub_state" where
  "process_sub_grid row_wise g st =
     (case st of (res, s, e, rem) \<Rightarrow>
        bind_result
          (if row_wise then row_wise_loop g [cy s ..< cy (end_coord g) + 1] st
           else col_wise_loop g [cx s ..< cx (end_coord g) + 1] st)
          (\<lambda>st'. bind_result (push_pending st')
             (\<lambda>res'. case st' of (_, s', e', rem') \<Rightarrow> Inr (res', s', e', rem'))))"

fun sub_grids_loop ::
    "core_coord \<Rightarrow> bool \<Rightarrow> core_range list \<Rightarrow> bool \<Rightarrow> sub_state \<Rightarrow> tt_error + sub_state" where
  "sub_grids_loop start row_wise [] seen st = Inr st"
| "sub_grids_loop start row_wise (g # gs) seen (res, s, e, rem) =
     (if cr_contains_coord g start then
        bind_result (process_sub_grid row_wise g (res, s, e, rem))
          (sub_grids_loop start row_wise gs True)
      else if \<not> seen then sub_grids_loop start row_wise gs seen (res, s, e, rem)
      else bind_result (process_sub_grid row_wise g (res, start_coord g, start_coord g, rem))
             (sub_grids_loop start row_wise gs seen))"

definition num_cores_to_corerangeset_in_subcoregrids ::
    "core_coord \<Rightarrow> u32 \<Rightarrow> core_range_set \<Rightarrow> bool \<Rightarrow> tt_error + core_range_set" where
  "num_cores_to_corerangeset_in_subcoregrids start target grids row_wise =
     (if \<not> target > 0 then Inl (Tt_fatal ''Target number of cores must be greater than 0'')
      else if \<not> target \<le> num_cores grids
        then Inl (Tt_fatal ''Target number of cores is greater than available'')
      else if \<not> crs_contains_coord grids start
        then Inl (Tt_fatal ''Start core must be contained within the input CoreRangeSet'')
      else
        bind_result (sub_grids_loop start row_wise (ranges_of grids) False ([], start, start, target))
          (\<lambda>(res, s, e, rem).
             if rem \<noteq> 0 then Inl (Tt_fatal ''Failed to split target number of cores'')
             else core_range_set_new res))"

section \<open>Splitting work\<close>

record work_split =
  target_num_cores :: u32
  all_cores_split :: core_range_set
  core_group_1 :: core_range_set
  core_group_2 :: core_range_set
  units_per_core_group_1 :: u32
  units_per_core_group_2 :: u32

definition last_end :: "core_range_set \<Rightarrow> tt_error + core_coord" where
  "last_end s = (if ranges_of s = [] then Inl Out_of_range else Inr (end_coord (last (ranges_of s))))"

definition group_2_rows :: "u32 \<Rightarrow> core_coord \<Rightarrow> core_coord \<Rightarrow> tt_error + core_range_set" where
  "group_2_rows gx last_1 last_all =
     (if cy last_1 = cy last_all \<and> cx last_1 \<noteq> cx last_all then
        bind_result (core_range_new (coord (cx last_1 + 1) (cy last_1)) last_all)
          (\<lambda>r. Inr (crs_single r))
      else
        bind_result
          (if cx last_1 \<noteq> gx - 1 then
             bind_result
               (core_range_new (coord (cx last_1 + 1) (cy last_1)) (coord (gx - 1) (cy last_1)))
               (\<lambda>r. Inr [r])
           else Inr [])
          (\<lambda>rs. bind_result (core_range_new (coord 0 (cy last_1 + 1)) last_all)
             (\<lambda>r. core_range_set_new (rs @ [r]))))"

definition group_2_cols :: "u32 \<Rightarrow> core_coord \<Rightarrow> core_coord \<Rightarrow> tt_error + core_range_set" where
  "group_2_cols gy last_1 last_all =
     (if cx last_1 = cx last_all \<and> cy last_1 \<noteq> cy last_all then
        bind_result (core_range_new (coord (cx last_1) (cy last_1 + 1)) last_all)
          (\<lambda>r. Inr (crs_single r))
      else
        bind_result
          (if cy last_1 \<noteq> gy - 1 then
             bind_result
               (core_range_new (coord (cx last_1) (cy last_1 + 1)) (coord (cx last_1) (gy - 1)))
               (\<lambda>r. Inr [r])
           else Inr [])
          (\<lambda>rs. bind_result (core_range_new (coord (cx last_1 + 1) 0) last_all)
             (\<lambda>r. core_range_set_new (rs @ [r]))))"

definition split_work_to_cores :: "core_coord \<Rightarrow> u32 \<Rightarrow> bool \<Rightarrow> tt_error + work_split" where
  "split_work_to_cores grid_size units row_wise =
     (let gx = cx grid_size mod 2 ^ 32; gy = cy grid_size mod 2 ^ 32;
          target = min units (mul32 gx gy)
      in bind_result (num_cores_to_corerangeset (coord 0 0) target grid_size row_wise) (\<lambda>all.
           let units_1 = (if target = 0 then 0 else units div target)
           in if target = 0 \<or> units mod target = 0 then
                Inr \<lparr>target_num_cores = target, all_cores_split = all, core_group_1 = all,
                     core_group_2 = \<lparr>ranges_of = []\<rparr>, units_per_core_group_1 = units_1,
                     units_per_core_group_2 = 0\<rparr>
              else
                bind_result (num_cores_to_corerangeset (coord 0 0) (units mod target) grid_size row_wise)
                  (\<lambda>group_1. bind_result (last_end group_1) (\<lambda>last_1. bind_result (last_end all) (\<lambda>last_all.
                   bind_result (if row_wise then group_2_rows gx last_1 last_all
                                else group_2_cols gy last_1 last_all) (\<lambda>group_2.
                     Inr \<lparr>target_num_cores = target, all_cores_split = all, core_group_1 = group_1,
                          core_group_2 = group_2, units_per_core_group_1 = add32 units_1 1,
                          units_per_core_group_2 = units_1\<rparr>))))))"

end
