(* ===== verification/Work_Split_Props.thy ===== *)
theory Work_Split_Props
  imports Work_Split Core_Coord_Theorems
begin

text \<open>
  The work-splitting functions against a linear numbering of the cores of a grid: row-wise,
  the cores a grid of width \<open>w\<close> hands out are consecutive in row-major order. The
  column-wise branches are the row-wise ones with the coordinates exchanged.
\<close>

section \<open>Segments of a grid\<close>

definition linear :: "nat \<Rightarrow> core_coord \<Rightarrow> nat" where
  "linear w c = cy c * w + cx c"

definition segment :: "nat \<Rightarrow> nat \<Rightarrow> nat \<Rightarrow> core_coord set" where
  "segment w a n = {c. cx c < w \<and> a \<le> linear w c \<and> linear w c < a + n}"

lemma segment_append: "segment w a n \<union> segment w (a + n) m = segment w a (n + m)"
  by (auto simp: segment_def)

lemma segment_disjoint: "segment w a n \<inter> segment w (a + n) m = {}"
  by (auto simp: segment_def)

lemma segment_0 [simp]: "segment w a 0 = {}"
  by (auto simp: segment_def)

lemma linear_inverse:
  assumes "cx c < w"
  shows "linear w c mod w = cx c" "linear w c div w = cy c"
  using assms by (simp_all add: linear_def)

lemma linear_inj: "cx c < w \<Longrightarrow> cx d < w \<Longrightarrow> linear w c = linear w d \<Longrightarrow> c = d"
  using linear_inverse [of c w] linear_inverse [of d w] by (cases c; cases d) auto

lemma card_segment:
  assumes "0 < w"
  shows "card (segment w a n) = n" and "finite (segment w a n)"
proof -
  have b: "bij_betw (linear w) (segment w a n) {a ..< a + n}"
  proof (rule bij_betw_imageI)
    show "inj_on (linear w) (segment w a n)"
      by (rule inj_onI) (auto simp: segment_def intro: linear_inj)
    show "linear w ` segment w a n = {a ..< a + n}"
    proof
      show "{a ..< a + n} \<subseteq> linear w ` segment w a n"
      proof
        fix i
        assume "i \<in> {a ..< a + n}"
        moreover have "linear w (coord (i mod w) (i div w)) = i" by (simp add: linear_def)
        ultimately show "i \<in> linear w ` segment w a n"
          using assms by (intro image_eqI [of _ _ "coord (i mod w) (i div w)"]) (auto simp: segment_def)
      qed
    qed (auto simp: segment_def)
  qed
  then show "card (segment w a n) = n" using bij_betw_same_card by fastforce
  show "finite (segment w a n)" using b bij_betw_finite by blast
qed

lemma row_piece:
  assumes "u \<le> v" and "v < w"
  shows "cells (box u b v b) = segment w (b * w + u) (v - u + 1)"
proof -
  have "c \<in> cells (box u b v b) \<longleftrightarrow> c \<in> segment w (b * w + u) (v - u + 1)" for c
  proof
    assume "c \<in> cells (box u b v b)"
    then show "c \<in> segment w (b * w + u) (v - u + 1)"
      using assms by (auto simp: in_cells segment_def linear_def)
  next
    assume s: "c \<in> segment w (b * w + u) (v - u + 1)"
    then have l: "cx c < w" "b * w + u \<le> linear w c" "linear w c \<le> b * w + v"
      using assms by (auto simp: segment_def)
    have "b \<le> linear w c div w" using l(2) assms by (simp add: less_eq_div_iff_mult_less_eq)
    moreover have "linear w c div w < b + 1" using l(3) assms by (simp add: div_less_iff_less_mult)
    ultimately have "cy c = b" using linear_inverse [OF l(1)] by simp
    with l show "c \<in> cells (box u b v b)" by (simp add: in_cells linear_def)
  qed
  then show ?thesis by blast
qed

lemma row_block:
  assumes "0 < w" and "b \<le> d"
  shows "cells (box 0 b (w - 1) d) = segment w (b * w) ((d - b + 1) * w)"
proof -
  have "c \<in> cells (box 0 b (w - 1) d) \<longleftrightarrow> c \<in> segment w (b * w) ((d - b + 1) * w)" for c
  proof (cases "cx c < w")
    case True
    have "b \<le> cy c \<longleftrightarrow> b * w \<le> linear w c"
      using assms(1) linear_inverse(2) [OF True] by (metis less_eq_div_iff_mult_less_eq)
    moreover have "cy c \<le> d \<longleftrightarrow> linear w c < (d + 1) * w"
      using assms(1) linear_inverse(2) [OF True] by (metis Suc_eq_plus1 div_less_iff_less_mult less_Suc_eq_le)
    moreover have "b * w + (d - b + 1) * w = (d + 1) * w"
      using assms(2) by (simp add: add_mult_distrib [symmetric])
    ultimately show ?thesis using True assms(1) by (auto simp: in_cells segment_def)
  next
    case False
    then show ?thesis using assms(1) by (auto simp: in_cells segment_def)
  qed
  then show ?thesis by blast
qed

section \<open>Building the ranges\<close>

definition split_inv :: "nat \<Rightarrow> nat \<Rightarrow> nat \<Rightarrow> split_state \<Rightarrow> bool" where
  "split_inv w a n st \<longleftrightarrow>
     (case st of (rs, s, k) \<Rightarrow>
        (\<forall>r \<in> set rs. valid_range r) \<and> disjoint_list rs \<and> cx s < w \<and> k \<le> n \<and>
        cover (set rs) = segment w a (n - k) \<and> linear w s = a + (n - k) \<and>
        (rs \<noteq> [] \<longrightarrow> cx (end_coord (last rs)) < w \<and> linear w (end_coord (last rs)) + 1 = a + (n - k)))"

lemma split_inv_append:
  assumes I: "split_inv w a n (rs, s, k)" and v: "valid_range r"
    and c: "cells r = segment w (linear w s) m" and m: "m \<le> k"
    and s': "cx s' < w" "linear w s' = linear w s + m"
    and e: "cx (end_coord r) < w" "linear w (end_coord r) + 1 = linear w s + m"
  shows "split_inv w a n (rs @ [r], s', k - m)"
proof -
  let ?S = "segment w a (n - k)"
  from I have cov: "cover (set rs) = ?S" and l: "linear w s = a + (n - k)" "k \<le> n"
    and D: "disjoint_list rs" by (auto simp: split_inv_def)
  have r: "cells r = segment w (a + (n - k)) m" using c l by simp
  have "cells q \<inter> cells r = {}" if "q \<in> set rs" for q
  proof -
    have "cells q \<subseteq> ?S" using that cov by (auto simp: cover_def)
    with segment_disjoint [of w a "n - k" m] show ?thesis unfolding r by blast
  qed
  with D have "disjoint_list (rs @ [r])" by (simp add: sorted_wrt_append)
  moreover have "cover (set (rs @ [r])) = segment w a (n - (k - m))"
  proof -
    have "cover (set (rs @ [r])) = ?S \<union> cells r" using cov by (auto simp: cover_def)
    also have "\<dots> = segment w a (n - k + m)" unfolding r by (rule segment_append)
    finally show ?thesis using m l(2) by simp
  qed
  ultimately show ?thesis using I v m s' e l by (auto simp: split_inv_def)
qed

lemma emplace_inv:
  assumes I: "split_inv w a n (rs, s, k)" and v: "cx s \<le> cx e" "cy s \<le> cy e"
    and r: "r = \<lparr>start_coord = s, end_coord = e\<rparr>" and c: "cells r = segment w (linear w s) m"
    and m: "m \<le> k" "k < 2 ^ 32" "m = cr_size r"
    and s': "cx s' < w" "linear w s' = linear w s + m"
    and e: "cx e < w" "linear w e + 1 = linear w s + m"
  shows "emplace s e s' (rs, s, k) = Inr (rs @ [r], s', k - m) \<and> split_inv w a n (rs @ [r], s', k - m)"
proof -
  have "valid_range r" using v r by (simp add: valid_range_def)
  from split_inv_append [OF I this c m(1) s'] e r have "split_inv w a n (rs @ [r], s', k - m)" by simp
  moreover have "core_range_new s e = Inr r" using v r by (simp add: core_range_new_def)
  ultimately show ?thesis using m by (simp add: emplace_def no_wrap)
qed

lemma row_start_inv:
  assumes I: "split_inv w a n (rs, s, k)" and k: "k < 2 ^ 32"
  shows "\<exists>rs' s' k'. row_start w (rs, s, k) = Inr (rs', s', k') \<and> split_inv w a n (rs', s', k') \<and>
    k' \<le> k \<and> (cx s' = 0 \<or> k' \<le> w - cx s')"
proof (cases "cx s \<noteq> 0 \<and> k > w - cx s")
  case True
  let ?e = "coord (w - 1) (cy s)"
  let ?r = "\<lparr>start_coord = s, end_coord = ?e\<rparr>" and ?m = "w - cx s"
  from I have x: "cx s < w" by (simp add: split_inv_def)
  have "?r = box (cx s) (cy s) (w - 1) (cy s)" by simp
  then have "cells ?r = segment w (linear w s) ?m"
    using row_piece [of "cx s" "w - 1" w "cy s"] x by (simp add: linear_def Suc_diff_Suc)
  from emplace_inv [OF I _ _ refl this, of "coord 0 (cy s + 1)"] True x k
  have "emplace s ?e (coord 0 (cy s + 1)) (rs, s, k) = Inr (rs @ [?r], coord 0 (cy s + 1), k - ?m) \<and>
      split_inv w a n (rs @ [?r], coord 0 (cy s + 1), k - ?m)"
    by (simp add: cr_size_def linear_def)
  with True show ?thesis by (auto simp: row_start_def)
next
  case False
  with I show ?thesis by (auto simp: row_start_def)
qed

lemma row_full_inv:
  assumes I: "split_inv w a n (rs, s, k)" and k: "k < 2 ^ 32" and z: "cx s = 0 \<or> k \<le> w - cx s"
  shows "\<exists>rs' s' k'. row_full w (rs, s, k) = Inr (rs', s', k') \<and> split_inv w a n (rs', s', k') \<and>
    k' \<le> w - cx s'"
proof (cases "k > w")
  case True
  from I have w: "0 < w" by (auto simp: split_inv_def)
  define q where "q = k div w"
  have q: "0 < q" "q * w \<le> k" "k - q * w < w"
    using True w by (auto simp: q_def div_greater_zero_iff minus_div_mult_eq_mod)
  have s: "s = coord 0 (cy s)" using z True by (cases s) auto
  let ?e = "coord (w - 1) (cy s + q - 1)"
  let ?r = "\<lparr>start_coord = s, end_coord = ?e\<rparr>"
  have "?r = box 0 (cy s) (w - 1) (cy s + q - 1)" using s by simp
  then have c: "cells ?r = segment w (linear w s) (q * w)"
    using row_block [OF w, of "cy s" "cy s + q - 1"] q(1) s by (simp add: linear_def) (metis add_0_right core_coord.select_convs(1))
  have sz: "q * w = cr_size ?r" using s q(1) w by (cases s) (auto simp: cr_size_def mult.commute)
  have "linear w (coord 0 (cy s + q)) = linear w s + q * w" "linear w ?e + 1 = linear w s + q * w"
  proof -
    have x: "cx s = 0" using s by (metis core_coord.select_convs(1))
    show "linear w (coord 0 (cy s + q)) = linear w s + q * w" using x by (simp add: linear_def add_mult_distrib)
    obtain p where "q = Suc p" using q(1) by (cases q) auto
    then show "linear w ?e + 1 = linear w s + q * w" using x w by (simp add: linear_def add_mult_distrib)
  qed
  with emplace_inv [OF I _ _ refl c q(2) k sz, of "coord 0 (cy s + q)"] s w q(1)
  have "emplace s ?e (coord 0 (cy s + q)) (rs, s, k) = Inr (rs @ [?r], coord 0 (cy s + q), k - q * w) \<and>
      split_inv w a n (rs @ [?r], coord 0 (cy s + q), k - q * w)"
    by (metis add_diff_assoc core_coord.select_convs le_add1 less_eq_Suc_le diff_less zero_less_one zero_le One_nat_def)
  with True q(3) show ?thesis by (auto simp: row_full_def q_def)
next
  case False
  with I z show ?thesis by (auto simp: row_full_def)
qed


definition row_ranges :: "nat \<Rightarrow> core_coord \<Rightarrow> nat \<Rightarrow> tt_error + core_range list" where
  "row_ranges w s n =
     bind_result (row_start w ([], s, n)) (\<lambda>st. bind_result (row_full w st) row_rest)"

text \<open>The ranges that make up \<open>n\<close> cores from \<open>s\<close> on, and where the last one ends.\<close>

lemma row_ranges_spec:
  assumes x: "cx s < w" and n: "n < 2 ^ 32"
  shows "\<exists>rs. row_ranges w s n = Inr rs \<and> (\<forall>r \<in> set rs. valid_range r) \<and> disjoint_list rs \<and>
    cover (set rs) = segment w (linear w s) n \<and>
    (0 < n \<longrightarrow> rs \<noteq> [] \<and> cx (end_coord (last rs)) < w \<and>
       linear w (end_coord (last rs)) + 1 = linear w s + n)"
proof -
  have "split_inv w (linear w s) n ([], s, n)" using x by (simp add: split_inv_def cover_def)
  from row_start_inv [OF this n] obtain rs1 s1 k1 where
    1: "row_start w ([], s, n) = Inr (rs1, s1, k1)" "split_inv w (linear w s) n (rs1, s1, k1)"
      "k1 \<le> n" "cx s1 = 0 \<or> k1 \<le> w - cx s1" by blast
  from row_full_inv [OF 1(2) _ 1(4)] 1(3) n obtain rs2 s2 k2 where
    2: "row_full w (rs1, s1, k1) = Inr (rs2, s2, k2)" "split_inv w (linear w s) n (rs2, s2, k2)"
      "k2 \<le> w - cx s2" by auto
  have eq: "row_ranges w s n = row_rest (rs2, s2, k2)" by (simp add: row_ranges_def 1 2)
  show ?thesis
  proof (cases "k2 = 0")
    case True
    have "n = 0" if "rs2 = []"
    proof -
      have "segment w (linear w s) n = {}"
        using 2(2) that True by (simp add: split_inv_def cover_def)
      with card_segment(1) [of w "linear w s" n] x show ?thesis by simp
    qed
    with True 2(2) eq show ?thesis by (auto simp: row_rest_def split_inv_def)
  next
    case False
    let ?r = "\<lparr>start_coord = s2, end_coord = coord (cx s2 + k2 - 1) (cy s2)\<rparr>"
    from 2(2) have x2: "cx s2 < w" by (simp add: split_inv_def)
    have rb: "?r = box (cx s2) (cy s2) (cx s2 + k2 - 1) (cy s2)" by simp
    have c: "cells ?r = segment w (linear w s2) k2"
      unfolding rb using row_piece [of "cx s2" "cx s2 + k2 - 1" w "cy s2"] x2 2(3) False
      by (simp add: linear_def)
    have v: "valid_range ?r" using False by (simp add: valid_range_def)
    have ends: "cx (end_coord ?r) < w" "linear w (end_coord ?r) + 1 = linear w s2 + k2"
      using x2 2(3) False by (auto simp: linear_def)
    let ?t = "coord ((linear w s2 + k2) mod w) ((linear w s2 + k2) div w)"
    have "cx ?t < w" "linear w ?t = linear w s2 + k2" using x2 by (auto simp: linear_def)
    from split_inv_append [OF 2(2) v c order_refl this ends]
    have "split_inv w (linear w s) n (rs2 @ [?r], ?t, 0)" by simp
    moreover have "row_ranges w s n = Inr (rs2 @ [?r])"
      unfolding eq using False by (simp add: row_rest_def core_range_new_def)
    ultimately show ?thesis by (auto simp: split_inv_def)
  qed
qed

section \<open>Exchanging the coordinates\<close>

definition flip :: "core_coord \<Rightarrow> core_coord" where
  "flip c = coord (cy c) (cx c)"

definition flip_range :: "core_range \<Rightarrow> core_range" where
  "flip_range r = \<lparr>start_coord = flip (start_coord r), end_coord = flip (end_coord r)\<rparr>"

fun flip_state :: "split_state \<Rightarrow> split_state" where
  "flip_state (rs, s, n) = (map flip_range rs, flip s, n)"

lemma flip_simps [simp]:
  "cx (flip c) = cy c" "cy (flip c) = cx c" "flip (flip c) = c" "flip (coord a b) = coord b a"
  "start_coord (flip_range r) = flip (start_coord r)" "end_coord (flip_range r) = flip (end_coord r)"
  "flip_range (flip_range r) = r" "cr_size (flip_range r) = cr_size r"
  "valid_range (flip_range r) = valid_range r"
  by (auto simp: flip_def flip_range_def cr_size_def valid_range_def)

lemma cells_flip: "cells (flip_range r) = flip ` cells r"
proof
  show "cells (flip_range r) \<subseteq> flip ` cells r"
  proof
    fix c
    assume "c \<in> cells (flip_range r)"
    then show "c \<in> flip ` cells r" by (intro image_eqI [of _ _ "flip c"]) (auto simp: in_cells)
  qed
qed (auto simp: in_cells)

lemma cover_flip: "cover (flip_range ` S) = flip ` cover S"
  by (auto simp: cover_def cells_flip)

lemma inj_flip: "inj flip"
  by (metis flip_simps(3) injI)

lemma disjoint_flip: "disjoint_list (map flip_range rs) \<longleftrightarrow> disjoint_list rs"
  by (simp add: sorted_wrt_map cells_flip image_Int [OF inj_flip, symmetric])

lemma core_range_new_flip: "core_range_new (flip s) (flip e) = map_sum id flip_range (core_range_new s e)"
  by (simp add: core_range_new_def flip_range_def)

lemma emplace_flip:
  "emplace (flip s) (flip e) (flip t) (flip_state st) = map_sum id flip_state (emplace s e t st)"
  by (cases st; cases "core_range_new s e") (simp_all add: emplace_def core_range_new_flip)

lemma col_flip:
  "col_start w (flip_state st) = map_sum id flip_state (row_start w st)"
  "col_full w (flip_state st) = map_sum id flip_state (row_full w st)"
  "col_rest (flip_state st) = map_sum id (map flip_range) (row_rest st)"
proof -
  obtain rs s n where st: "st = (rs, s, n)" by (metis prod_cases3)
  show "col_start w (flip_state st) = map_sum id flip_state (row_start w st)"
    using emplace_flip [of s "coord (w - 1) (cy s)" "coord 0 (cy s + 1)" st]
    by (simp add: st col_start_def row_start_def)
  show "col_full w (flip_state st) = map_sum id flip_state (row_full w st)"
    using emplace_flip [of s "coord (w - 1) (cy s + n div w - 1)" "coord 0 (cy s + n div w)" st]
    by (simp add: st col_full_def row_full_def)
  show "col_rest (flip_state st) = map_sum id (map flip_range) (row_rest st)"
    using core_range_new_flip [of s "coord (cx s + n - 1) (cy s)"]
    by (cases "core_range_new s (coord (cx s + n - 1) (cy s))")
       (simp_all add: st col_rest_def row_rest_def)
qed

definition col_ranges :: "nat \<Rightarrow> core_coord \<Rightarrow> nat \<Rightarrow> tt_error + core_range list" where
  "col_ranges w s n =
     bind_result (col_start w ([], s, n)) (\<lambda>st. bind_result (col_full w st) col_rest)"

lemma col_ranges_flip: "col_ranges w (flip s) n = map_sum id (map flip_range) (row_ranges w s n)"
proof -
  have e: "([], flip s, n) = flip_state ([], s, n)" by simp
  show ?thesis unfolding col_ranges_def row_ranges_def e col_flip(1)
  proof (cases "row_start w ([], s, n)")
    case (Inr st)
    show "bind_result (map_sum id flip_state (row_start w ([], s, n)))
        (\<lambda>st. bind_result (col_full w st) col_rest) =
      map_sum id (map flip_range) (bind_result (row_start w ([], s, n))
        (\<lambda>st. bind_result (row_full w st) row_rest))"
      unfolding Inr by (cases "row_full w st") (simp_all add: col_flip)
  qed simp
qed


section \<open>The cores handed out\<close>

text \<open>
  The cores that a grid hands out: \<open>n\<close> consecutive cores from \<open>s\<close> on, in row-major
  or in column-major order.
\<close>

definition handed_out :: "bool \<Rightarrow> core_coord \<Rightarrow> core_coord \<Rightarrow> nat \<Rightarrow> core_coord set" where
  "handed_out row_wise grid s n =
     (if row_wise then segment (cx grid) (linear (cx grid) s) n
      else flip ` segment (cy grid) (linear (cy grid) (flip s)) n)"

lemma card_handed_out:
  assumes "0 < cx grid" and "0 < cy grid"
  shows "card (handed_out rw grid s n) = n" "finite (handed_out rw grid s n)"
  using assms card_segment card_image [OF inj_on_subset [OF inj_flip]] by (auto simp: handed_out_def)

text \<open>The last core handed out, as the end of the last range.\<close>

definition ends_at :: "bool \<Rightarrow> core_coord \<Rightarrow> core_range_set \<Rightarrow> nat \<Rightarrow> bool" where
  "ends_at row_wise grid s i \<longleftrightarrow>
     ranges_of s \<noteq> [] \<and>
     (let e = end_coord (last (ranges_of s))
      in if row_wise then cx e < cx grid \<and> linear (cx grid) e = i
         else cy e < cy grid \<and> linear (cy grid) (flip e) = i)"

lemma grid_ranges:
  assumes "cx s < cx grid" and "cy s < cy grid" and "n < 2 ^ 32"
  shows "\<exists>t. bind_result (if rw then row_ranges (cx grid) s n else col_ranges (cy grid) s n)
      core_range_set_new = Inr t \<and> crs_ok t \<and> cores_of t = handed_out rw grid s n \<and>
    (0 < n \<longrightarrow> ends_at rw grid t
       ((if rw then linear (cx grid) s else linear (cy grid) (flip s)) + n - 1))"
proof (cases rw)
  case True
  from row_ranges_spec [OF assms(1,3)] obtain rs where
    rs: "row_ranges (cx grid) s n = Inr rs" "\<forall>r \<in> set rs. valid_range r" "disjoint_list rs"
      "cover (set rs) = segment (cx grid) (linear (cx grid) s) n"
      "0 < n \<longrightarrow> rs \<noteq> [] \<and> cx (end_coord (last rs)) < cx grid \<and>
         linear (cx grid) (end_coord (last rs)) + 1 = linear (cx grid) s + n" by blast
  let ?t = "\<lparr>ranges_of = rs\<rparr>"
  have ok: "crs_ok ?t" using rs(2,3) disjoint_list_iff [OF rs(2)] by (simp add: crs_ok_def)
  moreover from this core_range_set_new_ok [OF rs(2), of ?t] have "core_range_set_new rs = Inr ?t" by simp
  moreover have "cores_of ?t = handed_out rw grid s n"
    using rs(4) True by (simp add: cores_of_def handed_out_def)
  ultimately show ?thesis using True rs(1,5)
    by (intro exI [of _ ?t]) (auto simp: ends_at_def Let_def)
next
  case False
  from row_ranges_spec [of "flip s" "cy grid" n] assms obtain rs where
    rs: "row_ranges (cy grid) (flip s) n = Inr rs" "\<forall>r \<in> set rs. valid_range r" "disjoint_list rs"
      "cover (set rs) = segment (cy grid) (linear (cy grid) (flip s)) n"
      "0 < n \<longrightarrow> rs \<noteq> [] \<and> cx (end_coord (last rs)) < cy grid \<and>
         linear (cy grid) (end_coord (last rs)) + 1 = linear (cy grid) (flip s) + n" by auto
  let ?fs = "map flip_range rs"
  let ?t = "\<lparr>ranges_of = ?fs\<rparr>"
  have v: "\<forall>r \<in> set ?fs. valid_range r" using rs(2) by simp
  have ok: "crs_ok ?t"
    using rs(3) v disjoint_list_iff [OF v] by (simp only: disjoint_flip crs_ok_def core_range_set.simps)
  moreover from this core_range_set_new_ok [OF v, of ?t] have "core_range_set_new ?fs = Inr ?t" by simp
  moreover have "cores_of ?t = handed_out rw grid s n"
    using rs(4) False by (simp add: cores_of_def handed_out_def cover_flip)
  moreover have "col_ranges (cy grid) s n = Inr ?fs"
    using col_ranges_flip [of "cy grid" "flip s" n] rs(1) by simp
  ultimately show ?thesis using False rs(5)
    by (intro exI [of _ ?t]) (auto simp: ends_at_def Let_def last_map)
qed

lemma available_cores:
  assumes g: "cx s < cx grid" "cy s < cy grid" "cx grid * cy grid < 2 ^ 32"
  shows "(if rw then add32 (((cy grid - 1 - cy s) * cx grid) mod 2 ^ 32) (cx grid - cx s)
      else add32 (((cx grid - 1 - cx s) * cy grid) mod 2 ^ 32) (cy grid - cy s)) =
    (if rw then cx grid * cy grid - linear (cx grid) s else cx grid * cy grid - linear (cy grid) (flip s))"
proof -
  let ?x = "cx grid" and ?y = "cy grid"
  have row: "(?y - 1 - cy s) * ?x + (?x - cx s) = ?x * ?y - linear ?x s"
  proof -
    obtain k where k: "?y = Suc (cy s + k)" using g(2) less_imp_Suc_add by blast
    show ?thesis using g(1) by (simp add: k linear_def algebra_simps)
  qed
  have col: "(?x - 1 - cx s) * ?y + (?y - cy s) = ?x * ?y - linear ?y (flip s)"
  proof -
    obtain k where k: "?x = Suc (cx s + k)" using g(1) less_imp_Suc_add by blast
    show ?thesis using g(2) by (simp add: k linear_def algebra_simps)
  qed
  show ?thesis using row col g(3) by (simp add: add32_def mod_simps)
qed

lemma num_cores_to_corerangeset_spec:
  assumes g: "cx s < cx grid" "cy s < cy grid" "cx grid * cy grid < 2 ^ 32"
    and n: "n \<le> (if rw then cx grid * cy grid - linear (cx grid) s
                 else cx grid * cy grid - linear (cy grid) (flip s))"
  shows "\<exists>t. num_cores_to_corerangeset s n grid rw = Inr t \<and> crs_ok t \<and>
    cores_of t = handed_out rw grid s n \<and>
    (0 < n \<longrightarrow> ends_at rw grid t
       ((if rw then linear (cx grid) s else linear (cy grid) (flip s)) + n - 1))"
proof -
  let ?x = "cx grid" and ?y = "cy grid"
  have pos: "0 < ?x" "0 < ?y" using g by auto
  have le: "?x \<le> ?x * ?y" "?y \<le> ?x * ?y" using pos by auto
  then have b: "?x < 2 ^ 32" "?y < 2 ^ 32" using g(3) by linarith+
  note av = available_cores [OF g, of rw]
  have "n < 2 ^ 32" using n g(3) by (auto split: if_splits)
  moreover have "num_cores_to_corerangeset s n grid rw =
      bind_result (if rw then row_ranges ?x s n else col_ranges ?y s n) core_range_set_new"
    unfolding num_cores_to_corerangeset_def Let_def mod_less [OF b(1)] mod_less [OF b(2)] av
      row_ranges_def [symmetric] col_ranges_def [symmetric]
    using g n by simp
  ultimately show ?thesis using grid_ranges [OF g(1,2), of n rw] by presburger
qed

end
