(* ===== verification/Work_Split_Theorems.thy ===== *)
theory Work_Split_Theorems
  imports Work_Split_Props
begin

text \<open>The theorems about splitting work between cores.\<close>

section \<open>The second group of cores\<close>

definition flip_set :: "core_range_set \<Rightarrow> core_range_set" where
  "flip_set s = \<lparr>ranges_of = map flip_range (ranges_of s)\<rparr>"

lemma validate_flip: "validate_no_overlap (map flip_range rs) = validate_no_overlap rs"
proof (induction rs)
  case (Cons r rs)
  have "cr_intersects (flip_range r) (flip_range q) = cr_intersects r q" for q
    by (auto simp: cr_intersects_def)
  then have "list_ex (cr_intersects (flip_range r)) (map flip_range rs) = list_ex (cr_intersects r) rs"
    by (simp add: list_ex_iff)
  with Cons show ?case by simp
qed simp

lemma core_range_set_new_flip:
  "core_range_set_new (map flip_range rs) = map_sum id flip_set (core_range_set_new rs)"
  by (cases "validate_no_overlap rs") (simp_all add: core_range_set_new_def validate_flip flip_set_def)

lemma map_sum_bind: "map_sum id f (bind_result m g) = bind_result m (\<lambda>v. map_sum id f (g v))"
  by (cases m) auto

lemma bind_map_sum: "bind_result (map_sum id f m) g = bind_result m (g \<circ> f)"
  by (cases m) auto

lemma group_2_flip: "group_2_cols w (flip p) (flip q) = map_sum id flip_set (group_2_rows w p q)"
proof -
  let ?m = "core_range_new (coord (cx p + 1) (cy p)) (coord (w - 1) (cy p))"
  have m: "core_range_new (coord (cy p) (cx p + 1)) (coord (cy p) (w - 1)) = map_sum id flip_range ?m"
    using core_range_new_flip [of "coord (cx p + 1) (cy p)" "coord (w - 1) (cy p)"] by simp
  have q: "core_range_new (coord b a) (flip q) = map_sum id flip_range (core_range_new (coord a b) q)" for a b
    using core_range_new_flip [of "coord a b" q] by simp
  have s: "core_range_set_new [flip_range r] = map_sum id flip_set (core_range_set_new [r])"
    "core_range_set_new [flip_range r', flip_range r] = map_sum id flip_set (core_range_set_new [r', r])" for r r'
    using core_range_set_new_flip [of "[r]"] core_range_set_new_flip [of "[r', r]"] by simp_all
  show ?thesis
    unfolding group_2_cols_def group_2_rows_def flip_simps m q
    by (simp add: map_sum_bind bind_map_sum o_def bind_result_assoc s crs_single_def flip_set_def)
qed

lemma flip_set_ok:
  assumes "crs_ok s"
  shows "crs_ok (flip_set s)" "cores_of (flip_set s) = flip ` cores_of s"
proof -
  have v: "\<forall>r \<in> set (ranges_of s). valid_range r" "\<forall>r \<in> set (map flip_range (ranges_of s)). valid_range r"
    using assms by (auto simp: crs_ok_def)
  show "crs_ok (flip_set s)"
    using assms disjoint_list_iff [OF v(1)] disjoint_list_iff [OF v(2)] v
    by (simp add: crs_ok_def flip_set_def disjoint_flip)
  show "cores_of (flip_set s) = flip ` cores_of s"
    by (simp add: cores_of_def flip_set_def cover_flip)
qed

lemma crs_ok_list:
  assumes "\<forall>r \<in> set rs. valid_range r" and "disjoint_list rs"
  shows "core_range_set_new rs = Inr \<lparr>ranges_of = rs\<rparr> \<and> crs_ok \<lparr>ranges_of = rs\<rparr>"
  using core_range_set_new_ok [OF assms(1), of "\<lparr>ranges_of = rs\<rparr>"] disjoint_list_iff [OF assms(1)] assms
  by (simp add: crs_ok_def)

lemma group_2_rows_spec:
  assumes w: "0 < w" and p: "cx p < w" "linear w p + 1 = r" and q: "cx q < w" "linear w q + 1 = w * h"
    and r: "r < w * h"
  shows "\<exists>t. group_2_rows w p q = Inr t \<and> crs_ok t \<and> cores_of t = segment w r (w * h - r)"
proof -
  have h: "0 < h" using r by (cases h) auto
  have "linear w q = linear w (coord (w - 1) (h - 1))"
    using q(2) w h by (cases h) (auto simp: linear_def algebra_simps)
  with q(1) w have "q = coord (w - 1) (h - 1)" by (intro linear_inj [of q w]) auto
  then have cq: "q = coord (w - 1) (h - 1)" .
  have lt: "cy p < h"
  proof -
    have "linear w p < h * w" using p r by (simp add: mult.commute)
    then have "linear w p div w < h" using w by (simp add: div_less_iff_less_mult)
    with linear_inverse [OF p(1)] show ?thesis by simp
  qed
  have rl: "r = cy p * w + (cx p + 1)" using p by (simp add: linear_def)
  show ?thesis
  proof (cases "cy p = h - 1")
    case True
    have x: "cx p + 1 \<le> w - 1"
    proof (rule ccontr)
      assume "\<not> cx p + 1 \<le> w - 1"
      with p(1) have "cx p + 1 = w" by simp
      with rl True h have "r = w * h" by (cases h) (auto simp: algebra_simps)
      with r show False by simp
    qed
    let ?r = "box (cx p + 1) (cy p) (w - 1) (cy p)"
    have "w * h - r = w - 1 - (cx p + 1) + 1"
      using rl True h x by (cases h) (auto simp: algebra_simps)
    then have "cells ?r = segment w r (w * h - r)"
      using row_piece [OF x, of w "cy p"] w rl by simp
    moreover have v: "valid_range ?r" using x by (simp add: valid_range_def)
    moreover have "group_2_rows w p q = Inr (crs_single ?r)"
      using True x by (simp add: group_2_rows_def core_range_new_def cq)
    ultimately show ?thesis using single_ok(1,2) [OF v] by simp
  next
    case False
    with lt have y: "cy p + 1 \<le> h - 1" by simp
    let ?b = "box 0 (cy p + 1) (w - 1) (h - 1)"
    have vb: "valid_range ?b" using y by (simp add: valid_range_def)
    have "h - 1 - (cy p + 1) + 1 = h - (cy p + 1)" using y by simp
    then have cb: "cells ?b = segment w ((cy p + 1) * w) ((h - (cy p + 1)) * w)"
      using row_block [OF w y] by simp
    have hw: "(cy p + 1) * w + (h - (cy p + 1)) * w = w * h"
      unfolding add_mult_distrib [symmetric] using y by (simp add: mult.commute)
    have new_b: "core_range_new (coord 0 (cy p + 1)) q = Inr ?b"
      using cq y by (simp add: core_range_new_def)
    show ?thesis
    proof (cases "cx p = w - 1")
      case True
      then have rr: "r = (cy p + 1) * w" using rl w by simp
      have "group_2_rows w p q = core_range_set_new [?b]"
        using False True cq new_b by (simp add: group_2_rows_def)
      with crs_ok_list [of "[?b]"] vb have
        "group_2_rows w p q = Inr \<lparr>ranges_of = [?b]\<rparr>" "crs_ok \<lparr>ranges_of = [?b]\<rparr>" by simp_all
      moreover have "cores_of \<lparr>ranges_of = [?b]\<rparr> = segment w r (w * h - r)"
        unfolding rr using cb hw [symmetric] by (simp add: cores_of_def cover_def)
      ultimately show ?thesis by blast
    next
      case x: False
      with p(1) have le: "cx p + 1 \<le> w - 1" by simp
      let ?a = "box (cx p + 1) (cy p) (w - 1) (cy p)"
      have va: "valid_range ?a" using le by (simp add: valid_range_def)
      have ca: "cells ?a = segment w r (w - 1 - cx p)"
        using row_piece [OF le, of w "cy p"] w rl le by (simp add: Suc_diff_Suc)
      have mid: "r + (w - 1 - cx p) = (cy p + 1) * w" using rl p(1) by simp
      have "group_2_rows w p q = core_range_set_new [?a, ?b]"
        using False x le cq new_b by (simp add: group_2_rows_def core_range_new_def)
      moreover have "cells ?a \<inter> cells ?b = {}" by (auto simp: in_cells)
      ultimately have "group_2_rows w p q = Inr \<lparr>ranges_of = [?a, ?b]\<rparr>" "crs_ok \<lparr>ranges_of = [?a, ?b]\<rparr>"
        using crs_ok_list [of "[?a, ?b]"] va vb by simp_all
      moreover have "cores_of \<lparr>ranges_of = [?a, ?b]\<rparr> = segment w r (w * h - r)"
      proof -
        have "cores_of \<lparr>ranges_of = [?a, ?b]\<rparr> =
            segment w r (w - 1 - cx p) \<union> segment w (r + (w - 1 - cx p)) ((h - (cy p + 1)) * w)"
          using ca cb mid by (simp add: cores_of_def cover_def)
        also have "\<dots> = segment w r ((w - 1 - cx p) + (h - (cy p + 1)) * w)" by (rule segment_append)
        also have "(w - 1 - cx p) + (h - (cy p + 1)) * w = w * h - r" using mid hw by linarith
        finally show ?thesis .
      qed
      ultimately show ?thesis by blast
    qed
  qed
qed


section \<open>Theorems\<close>

text \<open>
  \<open>num_cores_to_corerangeset\<close> hands out exactly the requested number of cores:
  consecutive cores from the start core on, in row-major order (or column-major when not
  row-wise), as at most three disjoint ranges, whenever that many cores are left in the
  grid; a start core outside the grid or a request for more cores is an error.
\<close>

theorem num_cores_to_corerangeset_correct:
  assumes "cx grid * cy grid < 2 ^ 32" and "cx grid < 2 ^ 32" and "cy grid < 2 ^ 32"
  shows "if cx s < cx grid \<and> cy s < cy grid \<and>
            n \<le> cx grid * cy grid - (if rw then linear (cx grid) s else linear (cy grid) (flip s))
         then \<exists>t. num_cores_to_corerangeset s n grid rw = Inr t \<and> crs_ok t \<and>
                cores_of t = handed_out rw grid s n \<and> card (cores_of t) = n
         else \<exists>e. num_cores_to_corerangeset s n grid rw = Inl (Tt_fatal e)"
proof (cases "cx s < cx grid \<and> cy s < cy grid")
  case False
  then show ?thesis using assms by (auto simp: num_cores_to_corerangeset_def)
next
  case True
  show ?thesis
  proof (cases "n \<le> cx grid * cy grid - (if rw then linear (cx grid) s else linear (cy grid) (flip s))")
    case n: True
    from n have "n \<le> (if rw then cx grid * cy grid - linear (cx grid) s
                 else cx grid * cy grid - linear (cy grid) (flip s))" by (simp split: if_splits)
    with num_cores_to_corerangeset_spec [of s grid n rw] True assms(1) obtain t where
      "num_cores_to_corerangeset s n grid rw = Inr t" "crs_ok t" "cores_of t = handed_out rw grid s n"
      by blast
    moreover have "card (handed_out rw grid s n) = n" using True by (intro card_handed_out) auto
    ultimately show ?thesis using True n by auto
  next
    case n: False
    have av: "(if rw then add32 (((cy grid - 1 - cy s) * cx grid) mod 2 ^ 32) (cx grid - cx s)
      else add32 (((cx grid - 1 - cx s) * cy grid) mod 2 ^ 32) (cy grid - cy s)) =
      cx grid * cy grid - (if rw then linear (cx grid) s else linear (cy grid) (flip s))"
      using available_cores [of s grid rw] True assms(1) by simp
    have "num_cores_to_corerangeset s n grid rw =
        Inl (Tt_fatal ''Target number of cores is greater than available'')"
      unfolding num_cores_to_corerangeset_def Let_def mod_less [OF assms(2)] mod_less [OF assms(3)] av
      using True n by simp
    with True n show ?thesis by auto
  qed
qed

theorem num_cores_to_corerangeset_correct_witness:
  "\<exists>t. num_cores_to_corerangeset (coord 2 0) 10 (coord 4 4) True = Inr t \<and> card (cores_of t) = 10"
  using num_cores_to_corerangeset_correct [of "coord 4 4" "coord 2 0" 10 True]
  by (auto simp: linear_def)

lemma handed_out_all:
  assumes "0 < cx grid" and "0 < cy grid" and "n \<le> cx grid * cy grid"
  shows "handed_out rw grid (coord 0 0) n \<union> (if rw then segment (cx grid) n (cx grid * cy grid - n)
      else flip ` segment (cy grid) n (cx grid * cy grid - n)) =
    handed_out rw grid (coord 0 0) (cx grid * cy grid)"
    and "handed_out rw grid (coord 0 0) n \<inter> (if rw then segment (cx grid) n (cx grid * cy grid - n)
      else flip ` segment (cy grid) n (cx grid * cy grid - n)) = {}"
proof -
  have l: "linear w (coord 0 0) = 0" for w by (simp add: linear_def)
  show "handed_out rw grid (coord 0 0) n \<union> (if rw then segment (cx grid) n (cx grid * cy grid - n)
      else flip ` segment (cy grid) n (cx grid * cy grid - n)) =
    handed_out rw grid (coord 0 0) (cx grid * cy grid)"
    using segment_append [of _ 0 n "cx grid * cy grid - n"] assms(3)
    by (simp add: handed_out_def l image_Un [symmetric])
  show "handed_out rw grid (coord 0 0) n \<inter> (if rw then segment (cx grid) n (cx grid * cy grid - n)
      else flip ` segment (cy grid) n (cx grid * cy grid - n)) = {}"
    using segment_disjoint [of _ 0 n "cx grid * cy grid - n"]
    by (simp add: handed_out_def l image_Int [OF inj_flip, symmetric])
qed

lemma last_end_ends_at:
  assumes "ends_at rw grid t i"
  obtains e where "last_end t = Inr e"
    "if rw then cx e < cx grid \<and> linear (cx grid) e = i else cy e < cy grid \<and> linear (cy grid) (flip e) = i"
  using assms by (auto simp: ends_at_def last_end_def Let_def split: if_splits)

lemma group_2_spec:
  assumes g: "0 < cx grid" "0 < cy grid" and p: "ends_at rw grid t1 (r - 1)"
    and q: "ends_at rw grid t (cx grid * cy grid - 1)" and r: "0 < r" "r < cx grid * cy grid"
  shows "\<exists>e1 e u. last_end t1 = Inr e1 \<and> last_end t = Inr e \<and>
    (if rw then group_2_rows (cx grid) e1 e else group_2_cols (cy grid) e1 e) = Inr u \<and> crs_ok u \<and>
    cores_of u = (if rw then segment (cx grid) r (cx grid * cy grid - r)
      else flip ` segment (cy grid) r (cx grid * cy grid - r))"
proof -
  from p obtain e1 where e1: "last_end t1 = Inr e1"
    "if rw then cx e1 < cx grid \<and> linear (cx grid) e1 = r - 1 else cy e1 < cy grid \<and> linear (cy grid) (flip e1) = r - 1"
    by (rule last_end_ends_at)
  from q obtain e where e: "last_end t = Inr e"
    "if rw then cx e < cx grid \<and> linear (cx grid) e = cx grid * cy grid - 1
     else cy e < cy grid \<and> linear (cy grid) (flip e) = cx grid * cy grid - 1"
    by (rule last_end_ends_at)
  show ?thesis
  proof (cases rw)
    case True
    with group_2_rows_spec [OF g(1), of e1 r e "cy grid"] e1 e r g show ?thesis by auto
  next
    case False
    with group_2_rows_spec [OF g(2), of "flip e1" r "flip e" "cx grid"] e1 e r g
    obtain v where v: "group_2_rows (cy grid) (flip e1) (flip e) = Inr v" "crs_ok v"
      "cores_of v = segment (cy grid) r (cx grid * cy grid - r)" by (auto simp: mult.commute)
    have "group_2_cols (cy grid) e1 e = Inr (flip_set v)"
      using group_2_flip [of "cy grid" "flip e1" "flip e"] v(1) by simp
    with False e1(1) e(1) v flip_set_ok [OF v(2)] show ?thesis by auto
  qed
qed

text \<open>
  C19: \<open>split_work_to_cores\<close> distributes the work completely and evenly: the two groups
  of cores are disjoint and together are the cores used, which are the first cores of the
  grid; the cores of the first group do one unit more than those of the second; and the
  units of all cores add up to the units to divide.
\<close>

theorem split_work_to_cores_correct:
  assumes g: "0 < cx grid" "0 < cy grid" "cx grid * cy grid < 2 ^ 32" and u: "units < 2 ^ 32"
  shows "\<exists>w. split_work_to_cores grid units rw = Inr w \<and>
    target_num_cores w = min units (cx grid * cy grid) \<and>
    crs_ok (all_cores_split w) \<and> crs_ok (core_group_1 w) \<and> crs_ok (core_group_2 w) \<and>
    cores_of (all_cores_split w) = handed_out rw grid (coord 0 0) (target_num_cores w) \<and>
    cores_of (core_group_1 w) \<union> cores_of (core_group_2 w) = cores_of (all_cores_split w) \<and>
    cores_of (core_group_1 w) \<inter> cores_of (core_group_2 w) = {} \<and>
    (cores_of (core_group_2 w) \<noteq> {} \<longrightarrow> units_per_core_group_1 w = units_per_core_group_2 w + 1) \<and>
    card (cores_of (core_group_1 w)) * units_per_core_group_1 w +
      card (cores_of (core_group_2 w)) * units_per_core_group_2 w = units"
proof -
  let ?N = "cx grid * cy grid" and ?z = "coord 0 0"
  define target where "target = min units ?N"
  have le: "cx grid \<le> ?N" "cy grid \<le> ?N" using g by auto
  then have b: "cx grid < 2 ^ 32" "cy grid < 2 ^ 32" using g(3) by linarith+
  have m: "mul32 (cx grid) (cy grid) = ?N" using g(3) by (simp add: no_wrap)
  have l0: "linear w ?z = 0" "linear w (flip ?z) = 0" for w by (simp_all add: linear_def)
  have N: "\<exists>t. num_cores_to_corerangeset ?z n grid rw = Inr t \<and> crs_ok t \<and>
      cores_of t = handed_out rw grid ?z n \<and> (0 < n \<longrightarrow> ends_at rw grid t (n - 1))" if "n \<le> ?N" for n
    using num_cores_to_corerangeset_spec [of ?z grid n rw, unfolded l0] g that by simp
  from N [of target] obtain all where all: "num_cores_to_corerangeset ?z target grid rw = Inr all"
    "crs_ok all" "cores_of all = handed_out rw grid ?z target"
    "0 < target \<longrightarrow> ends_at rw grid all (target - 1)" by (auto simp: target_def)
  note card = card_handed_out [OF g(1,2)]
  note defs = split_work_to_cores_def Let_def mod_less [OF b(1)] mod_less [OF b(2)] m target_def [symmetric]
  show ?thesis
  proof (cases "target = 0 \<or> units mod target = 0")
    case True
    let ?w = "\<lparr>target_num_cores = target, all_cores_split = all, core_group_1 = all,
       core_group_2 = \<lparr>ranges_of = []\<rparr>, units_per_core_group_1 = (if target = 0 then 0 else units div target),
       units_per_core_group_2 = 0\<rparr>"
    have "split_work_to_cores grid units rw = Inr ?w" unfolding defs using all(1) True by simp
    moreover have "target * (if target = 0 then 0 else units div target) = units"
      using True g by (auto simp: target_def min_def split: if_splits)
    moreover have "crs_ok \<lparr>ranges_of = []\<rparr>" "cores_of \<lparr>ranges_of = []\<rparr> = {}"
      by (simp_all add: crs_ok_def apart_def cores_of_def cover_def)
    ultimately show ?thesis using all card(1) by (intro exI [of _ ?w]) (auto simp: target_def)
  next
    case False
    then have t: "target = ?N" "?N < units" by (auto simp: target_def min_def split: if_splits)
    define r where "r = units mod target"
    have r: "0 < r" "r < ?N" using False t g by (auto simp: r_def)
    from N [of r] r obtain t1 where t1: "num_cores_to_corerangeset ?z r grid rw = Inr t1" "crs_ok t1"
      "cores_of t1 = handed_out rw grid ?z r" "ends_at rw grid t1 (r - 1)" by auto
    have "ends_at rw grid all (?N - 1)" using all(4) t False by auto
    from group_2_spec [OF g(1,2) t1(4) this r] obtain e1 e v where v: "last_end t1 = Inr e1" "last_end all = Inr e"
      "(if rw then group_2_rows (cx grid) e1 e else group_2_cols (cy grid) e1 e) = Inr v" "crs_ok v"
      "cores_of v = (if rw then segment (cx grid) r (?N - r) else flip ` segment (cy grid) r (?N - r))"
      by blast
    let ?w = "\<lparr>target_num_cores = target, all_cores_split = all, core_group_1 = t1, core_group_2 = v,
       units_per_core_group_1 = add32 (units div target) 1, units_per_core_group_2 = units div target\<rparr>"
    have "split_work_to_cores grid units rw = Inr ?w"
      unfolding defs using all(1) False t1(1) v(1-3) by (simp add: r_def [symmetric])
    moreover have hu: "cores_of t1 \<union> cores_of v = cores_of all" "cores_of t1 \<inter> cores_of v = {}"
      using handed_out_all [OF g(1,2), of r rw] r v(5) t1(3) all(3) t by auto
    moreover have a: "add32 (units div target) 1 = units div target + 1"
    proof -
      have "units div target \<le> units div 2" if "1 < ?N" using that t by (intro div_le_mono2) auto
      moreover have "1 < ?N" using r by simp
      ultimately have "units div target + 1 < 2 ^ 32" using u by simp
      then show ?thesis by (simp add: no_wrap)
    qed
    moreover have "card (cores_of t1) = r" "card (cores_of v) = ?N - r"
    proof -
      show c1: "card (cores_of t1) = r" using t1(3) card(1) by simp
      have "card (cores_of all) = card (cores_of t1) + card (cores_of v)"
        using card_Un_disjoint [of "cores_of t1" "cores_of v"] hu by (simp add: cores_of_def)
      with c1 all(3) card(1) t show "card (cores_of v) = ?N - r" by simp
    qed
    moreover have "r * (units div target + 1) + (?N - r) * (units div target) = units"
    proof -
      have "r * (units div target + 1) + (?N - r) * (units div target) = ?N * (units div target) + r"
        using r by (simp add: algebra_simps)
      then show ?thesis using t(1) by (simp add: r_def)
    qed
    ultimately show ?thesis using all t1 v t(1) by (intro exI [of _ ?w]) (auto simp: target_def)
  qed
qed

theorem split_work_to_cores_correct_witness:
  "\<exists>w. split_work_to_cores (coord 8 8) 100 False = Inr w \<and> target_num_cores w = 64 \<and>
     card (cores_of (core_group_1 w)) * units_per_core_group_1 w +
       card (cores_of (core_group_2 w)) * units_per_core_group_2 w = 100"
  using split_work_to_cores_correct [of "coord 8 8" 100 False] by auto


section \<open>Divisors\<close>

lemma fold_last_divisor:
  "fold (\<lambda>i n. if P i then i else n) [2 ..< m + 1] 1 = (GREATEST d :: nat. d = 1 \<or> P d \<and> 2 \<le> d \<and> d \<le> m)"
proof (induction m)
  case 0
  then show ?case by (intro Greatest_equality [symmetric]) auto
next
  case (Suc m)
  let ?Q = "\<lambda>m d. d = 1 \<or> P d \<and> 2 \<le> d \<and> d \<le> m"
  show ?case
  proof (cases "2 \<le> Suc m \<and> P (Suc m)")
    case True
    have "(GREATEST d. ?Q (Suc m) d) = Suc m" using True by (intro Greatest_equality) auto
    with True show ?thesis by simp
  next
    case False
    then have "?Q (Suc m) = ?Q m" by (auto simp: le_Suc_eq fun_eq_iff)
    then have "(GREATEST d. ?Q (Suc m) d) = (GREATEST d. ?Q m d)" by simp
    moreover have "fold (\<lambda>i n. if P i then i else n) [2 ..< Suc m + 1] 1 =
        fold (\<lambda>i n. if P i then i else n) [2 ..< m + 1] 1"
      using False by (cases "2 \<le> Suc m") auto
    ultimately show ?thesis using Suc by simp
  qed
qed

text \<open>
  \<open>get_max_cores_divisible_by_tiles_per_core_tiles\<close> returns the largest number of
  cores within the maximum that divides the tiles, with the exact quotient. When an even
  number is requested and only one core divides the tiles, the number is rounded down to
  zero and the function divides by zero.
\<close>

theorem get_max_cores_divisible:
  assumes "0 < num_tiles"
    and d: "d = (GREATEST k. k = 1 \<or> num_tiles mod k = 0 \<and> 2 \<le> k \<and> k \<le> max_cores)"
  shows "get_max_cores_divisible_by_tiles_per_core_tiles num_tiles max_cores False =
      Inr (d, num_tiles div d) \<and> d dvd num_tiles \<and>
    (\<forall>k. k dvd num_tiles \<longrightarrow> 1 \<le> k \<longrightarrow> k \<le> max_cores \<longrightarrow> k \<le> d) \<and>
    (d = 1 \<longrightarrow> get_max_cores_divisible_by_tiles_per_core_tiles num_tiles max_cores True = Inl Div_by_zero)"
proof -
  let ?Q = "\<lambda>k. k = 1 \<or> num_tiles mod k = 0 \<and> 2 \<le> k \<and> k \<le> max_cores"
  have bound: "\<And>k. ?Q k \<Longrightarrow> k \<le> max 1 max_cores" by auto
  have Qd: "?Q d" unfolding d by (rule GreatestI_nat [of ?Q 1, OF _ bound]) auto
  have up: "k \<le> d" if "?Q k" for k unfolding d by (rule Greatest_le_nat [of ?Q, OF that bound])
  have f: "fold (\<lambda>i n. if num_tiles mod i = 0 then i else n) [2 ..< max_cores + 1] 1 = d"
    unfolding d by (rule fold_last_divisor)
  have "d dvd num_tiles" "0 < d" using Qd by auto
  moreover have "k \<le> d" if "k dvd num_tiles" "1 \<le> k" "k \<le> max_cores" for k
    using up [of k] that by (cases "k = 1") (auto simp: dvd_eq_mod_eq_0)
  ultimately show ?thesis
    unfolding get_max_cores_divisible_by_tiles_per_core_tiles_def Let_def f by (auto simp: dvd_eq_mod_eq_0)
qed

theorem get_max_cores_divisible_witness:
  "get_max_cores_divisible_by_tiles_per_core_tiles 13 8 False = Inr (1, 13) \<and>
   get_max_cores_divisible_by_tiles_per_core_tiles 13 8 True = Inl Div_by_zero"
proof -
  have "(GREATEST k. k = 1 \<or> 13 mod k = 0 \<and> 2 \<le> k \<and> k \<le> (8 :: nat)) = 1"
  proof (rule Greatest_equality)
    fix k :: nat
    assume "k = 1 \<or> 13 mod k = 0 \<and> 2 \<le> k \<and> k \<le> 8"
    then consider "k = 1" | "k \<in> {2, 3, 4, 5, 6, 7, 8}" "13 mod k = 0" by force
    then show "k \<le> 1" by cases auto
  qed simp
  with get_max_cores_divisible [of 13 1 8] show ?thesis by simp
qed

lemma find_rev_upt:
  "find P (rev [1 ..< m + 1]) =
     (if \<exists>d. 1 \<le> d \<and> d \<le> m \<and> P d then Some (GREATEST d :: nat. 1 \<le> d \<and> d \<le> m \<and> P d) else None)"
proof (induction m)
  case (Suc m)
  let ?Q = "\<lambda>m d. 1 \<le> d \<and> d \<le> m \<and> P d"
  show ?case
  proof (cases "P (Suc m)")
    case True
    have "(GREATEST d. ?Q (Suc m) d) = Suc m" using True by (intro Greatest_equality) auto
    with True show ?thesis by auto
  next
    case False
    then have "?Q (Suc m) = ?Q m" by (auto simp: le_Suc_eq fun_eq_iff)
    then have "(GREATEST d. ?Q (Suc m) d) = (GREATEST d. ?Q m d)" "Ex (?Q (Suc m)) = Ex (?Q m)" by simp_all
    moreover have "find P (rev [1 ..< Suc m + 1]) = find P (rev [1 ..< m + 1])" using False by simp
    ultimately show ?thesis using Suc by presburger
  qed
qed simp

text \<open>
  \<open>find_max_block_size\<close> is the largest divisor up to the given bound, and
  \<open>find_max_divisor\<close> the largest one other than 5 and 7, for every bound from 1 on that
  fits a signed integer.
\<close>

theorem find_max_divisor_greatest:
  assumes "1 \<le> m" and "m < 2 ^ 31"
  shows "find_max_block_size val m dvd val \<and> find_max_block_size val m \<le> m \<and>
    (\<forall>d. d dvd val \<longrightarrow> 1 \<le> d \<longrightarrow> d \<le> m \<longrightarrow> d \<le> find_max_block_size val m) \<and>
    find_max_divisor val m dvd val \<and> find_max_divisor val m \<notin> {5, 7} \<and>
    (\<forall>d. d dvd val \<longrightarrow> d \<notin> {5, 7} \<longrightarrow> 1 \<le> d \<longrightarrow> d \<le> m \<longrightarrow> d \<le> find_max_divisor val m)"
proof -
  have G: "P (GREATEST d :: nat. 1 \<le> d \<and> d \<le> m \<and> P d) \<and> (GREATEST d. 1 \<le> d \<and> d \<le> m \<and> P d) \<le> m \<and>
      (\<forall>d. 1 \<le> d \<longrightarrow> d \<le> m \<longrightarrow> P d \<longrightarrow> d \<le> (GREATEST d. 1 \<le> d \<and> d \<le> m \<and> P d))" if "P 1" for P
  proof -
    let ?Q = "\<lambda>d. 1 \<le> d \<and> d \<le> m \<and> P d"
    have b: "\<And>k. ?Q k \<Longrightarrow> k \<le> m" by simp
    have "?Q (GREATEST d. ?Q d)" by (rule GreatestI_nat [of ?Q 1, OF _ b]) (use that assms in auto)
    moreover have "\<And>d. ?Q d \<Longrightarrow> d \<le> (GREATEST d. ?Q d)" by (rule Greatest_le_nat [of ?Q, OF _ b])
    ultimately show ?thesis by blast
  qed
  have F: "find P (count_down m) = Some (GREATEST d. 1 \<le> d \<and> d \<le> m \<and> P d)" if "P 1" for P
  proof -
    have "\<exists>d. 1 \<le> d \<and> d \<le> m \<and> P d" using assms(1) that by auto
    then show ?thesis unfolding count_down_def if_P [OF assms(2)] find_rev_upt by (rule if_P)
  qed
  show ?thesis
    using G [of "\<lambda>d. val mod d = 0"] G [of "\<lambda>d. \<not> (d = 7 \<or> d = 5) \<and> val mod d = 0"]
    unfolding find_max_block_size_def find_max_divisor_def
    by (simp add: F dvd_eq_mod_eq_0)
qed

theorem find_max_divisor_greatest_witness:
  "6 \<le> find_max_divisor 30 7 \<and> 6 \<le> find_max_block_size 30 8"
proof -
  have "(6 :: nat) dvd 30" by simp
  with find_max_divisor_greatest [of 7 30] find_max_divisor_greatest [of 8 30] show ?thesis by simp
qed

section \<open>Sub-grids\<close>

text \<open>
  \<open>num_cores_to_corerangeset_in_subcoregrids\<close> loses a core when a sub-grid is one core
  wide: asked row-wise for one core of a set that consists of a single core, it reports
  success with an empty set.
\<close>

theorem sub_core_grid_loses_core:
  "num_cores_to_corerangeset_in_subcoregrids (coord 0 0) 1 (crs_single (box 0 0 0 0)) True =
     Inr \<lparr>ranges_of = []\<rparr>"
  by (simp add: num_cores_to_corerangeset_in_subcoregrids_def num_cores_def crs_single_def
      crs_contains_coord_def cr_contains_coord_def process_sub_grid_def cr_grid_size_def
      push_pending_def core_range_set_new_def cr_size_def add32_def sub32_def)

end
