(* ===== verification/Bank_Manager.thy ===== *)
theory Bank_Manager
  imports Free_List_Props Core_Coord Tt_Math
begin

text \<open>
  \<open>BankManager\<close> of src/tt_metal/impl/allocator/allocator.cpp: one allocation algorithm
  for all banks of a memory type, with an offset per bank. Sets and maps of the source are
  lists here, in insertion order; \<open>insert\<close> keeps the first value of a key, as
  \<open>std::unordered_map::insert\<close> does. An operation returns the result or exception with
  the state it leaves; \<open>None\<close> stands for a pointer loop that does not return.
\<close>

unbundle bit_operations_syntax

datatype buffer_type = DRAM | L1 | SYSTEM_MEMORY | L1_SMALL | TRACE

record bank_manager =
  bm_buffer_type :: buffer_type
  allocated_addrs :: "addr list"
  bank_id_to_bank_offset :: "(u32 \<times> int) list"
  bm_allocator :: "free_list option"
  interleaved_address_limit :: u64
  alignment_bytes :: u32

type_synonym 'a bm_result = "((tt_error + 'a) \<times> bank_manager) option"

definition map_insert :: "'k \<Rightarrow> 'v \<Rightarrow> ('k \<times> 'v) list \<Rightarrow> ('k \<times> 'v) list" where
  "map_insert k v m = (if k \<in> fst ` set m then m else m @ [(k, v)])"

section \<open>Construction\<close>

text \<open>The default constructor: no algorithm yet.\<close>

definition bank_manager_default :: "buffer_type \<Rightarrow> bank_manager" where
  "bank_manager_default t =
     \<lparr>bm_buffer_type = t, allocated_addrs = [], bank_id_to_bank_offset = [], bm_allocator = None,
      interleaved_address_limit = 0, alignment_bytes = 0\<rparr>"

definition init_allocator :: "bank_manager \<Rightarrow> u64 \<Rightarrow> u32 \<Rightarrow> u64 \<Rightarrow> (tt_error + bank_manager) option" where
  "init_allocator bm size_bytes al offset =
     (case free_list_new size_bytes offset al al FIRST of
        Inl e \<Rightarrow> Some (Inl e)
      | Inr None \<Rightarrow> None
      | Inr (Some s) \<Rightarrow> Some (Inr (bm\<lparr>bm_allocator := Some s\<rparr>)))"

definition validate_num_banks :: "u32 \<Rightarrow> buffer_type \<Rightarrow> bool \<Rightarrow> tt_error + unit" where
  "validate_num_banks num_banks buffer_type disable_interleaved =
     (let doesnt_support_interleaved = (buffer_type = L1_SMALL \<or> disable_interleaved);
          is_pow2_num_banks = (num_banks \<noteq> 0 \<and> num_banks AND (num_banks - 1) = 0);
          custom_mod = (num_banks \<in> set [12, 56, 70, 80, 94, 124, 130, 140]);
          valid = (is_pow2_num_banks \<or> custom_mod \<or> doesnt_support_interleaved)
      in if \<not> valid then Inl (Tt_throw ''Invalid number of memory banks'') else Inr ())"

fun insert_offsets :: "u32 \<Rightarrow> int list \<Rightarrow> (u32 \<times> int) list \<Rightarrow> (u32 \<times> int) list" where
  "insert_offsets bank_id [] m = m"
| "insert_offsets bank_id (off # offs) m = insert_offsets (bank_id + 1) offs (map_insert bank_id off m)"

definition bank_manager_new ::
    "buffer_type \<Rightarrow> int list \<Rightarrow> u64 \<Rightarrow> u32 \<Rightarrow> u64 \<Rightarrow> bool \<Rightarrow> (tt_error + bank_manager) option" where
  "bank_manager_new t bank_offsets size_bytes al alloc_offset disable_interleaved =
     (let bm = (bank_manager_default t)\<lparr>alignment_bytes := al,
                 bank_id_to_bank_offset := insert_offsets 0 bank_offsets []\<rparr>
      in case validate_num_banks (length (bank_id_to_bank_offset bm)) t disable_interleaved of
           Inl e \<Rightarrow> Some (Inl e)
         | Inr _ \<Rightarrow> init_allocator bm size_bytes al alloc_offset)"

definition bank_manager_new_map ::
    "buffer_type \<Rightarrow> (u32 \<times> int) list \<Rightarrow> u64 \<Rightarrow> u64 \<Rightarrow> u32 \<Rightarrow> u64 \<Rightarrow> bool \<Rightarrow>
       (tt_error + bank_manager) option" where
  "bank_manager_new_map t offsets size_bytes address_limit al alloc_offset disable_interleaved =
     (let bm = (bank_manager_default t)\<lparr>alignment_bytes := al, bank_id_to_bank_offset := offsets,
                 interleaved_address_limit := address_limit\<rparr>
      in case validate_num_banks (length (bank_id_to_bank_offset bm)) t disable_interleaved of
           Inl e \<Rightarrow> Some (Inl e)
         | Inr _ \<Rightarrow> init_allocator bm size_bytes al alloc_offset)"

section \<open>Queries\<close>

definition bm_num_banks :: "bank_manager \<Rightarrow> u32" where
  "bm_num_banks bm = length (bank_id_to_bank_offset bm)"

definition bm_bank_size :: "bank_manager \<Rightarrow> tt_error + u64" where
  "bm_bank_size bm =
     (case bm_allocator bm of
        None \<Rightarrow> Inl (Tt_assert ''Allocator not initialized!'')
      | Some s \<Rightarrow> if max_size_bytes s > 2 ^ 64 - 1 then Inl (Tt_throw ''Bank size overflows'')
                  else Inr (max_size_bytes s))"

definition validate_bank_id :: "bank_manager \<Rightarrow> u32 \<Rightarrow> tt_error + unit" where
  "validate_bank_id bm bank_id =
     (if map_of (bank_id_to_bank_offset bm) bank_id = None
      then Inl (Tt_fatal ''Expected bank to be tracked!'') else Inr ())"

definition bm_bank_offset :: "bank_manager \<Rightarrow> u32 \<Rightarrow> tt_error + int" where
  "bm_bank_offset bm bank_id =
     bind_result (validate_bank_id bm bank_id)
       (\<lambda>_. case map_of (bank_id_to_bank_offset bm) bank_id of
              None \<Rightarrow> Inl Out_of_range | Some off \<Rightarrow> Inr off)"

definition bm_lowest_occupied_address :: "bank_manager \<Rightarrow> u32 \<Rightarrow> tt_error + addr option" where
  "bm_lowest_occupied_address bm bank_id =
     (case bm_allocator bm of
        None \<Rightarrow> Inr None
      | Some s \<Rightarrow>
          (case lowest_occupied_address s of
             None \<Rightarrow> Inr None
           | Some a \<Rightarrow> bind_result (bm_bank_offset bm bank_id)
                         (\<lambda>off. Inr (Some (nat ((int a + off) mod 2 ^ 64))))))"

definition bm_get_statistics :: "bank_manager \<Rightarrow> statistics option" where
  "bm_get_statistics bm =
     (case bm_allocator bm of
        None \<Rightarrow> Some \<lparr>total_allocatable_size_bytes = 0, total_allocated_bytes = 0,
                     total_free_bytes = 0, largest_free_block_bytes = 0,
                     largest_free_block_addrs = []\<rparr>
      | Some s \<Rightarrow> get_statistics s)"

definition bm_dump_blocks :: "bank_manager \<Rightarrow> (addr \<times> u64 \<times> bool) list option" where
  "bm_dump_blocks bm = (case bm_allocator bm of None \<Rightarrow> Some [] | Some s \<Rightarrow> dump_blocks s)"

section \<open>Allocation\<close>

text \<open>\<open>SizeBytesPerBank\<close> of src/tt_metal/detail/util.hpp.\<close>

definition SizeBytesPerBank :: "u64 \<Rightarrow> u64 \<Rightarrow> u32 \<Rightarrow> u32 \<Rightarrow> tt_error + u64" where
  "SizeBytesPerBank size_bytes page_size num_banks al =
     (if \<not> (if page_size = 0 then size_bytes = 0 else size_bytes mod page_size = 0)
      then Inl (Tt_assert ''Page size should be divisible by buffer size'')
      else
        let num_pages = (if page_size = 0 then 0 else size_bytes div page_size)
        in if num_pages \<noteq> 0 \<and> num_banks = 0 then Inl Div_by_zero
           else
             let per_bank = (if num_pages = 0 then 0 else 1 + (num_pages - 1) div num_banks)
             in bind_result (round_up (page_size mod 2 ^ 32) al) (\<lambda>p. Inr (mul64 per_bank p)))"

definition bm_num_shards :: "bank_manager \<Rightarrow> core_range_set \<Rightarrow> u32 option \<Rightarrow> tt_error + u32" where
  "bm_num_shards bm compute_grid num_shards =
     (case num_shards of
        None \<Rightarrow> Inr (bm_num_banks bm)
      | Some n \<Rightarrow> if \<not> n \<le> num_cores compute_grid
                  then Inl (Tt_fatal ''Expected number of shards at most the number of L1 banks'')
                  else Inr n)"

definition bm_address_limit :: "bank_manager \<Rightarrow> bool \<Rightarrow> tt_error + u64" where
  "bm_address_limit bm is_sharded =
     (if \<not> is_sharded \<and> bm_buffer_type bm = L1
      then if \<not> interleaved_address_limit bm > 0
           then Inl (Tt_fatal ''Address limit needs to be larger than zero.'')
           else Inr (interleaved_address_limit bm)
      else Inr 0)"

definition bm_allocate_buffer ::
    "bank_manager \<Rightarrow> u64 \<Rightarrow> u64 \<Rightarrow> bool \<Rightarrow> core_range_set \<Rightarrow> u32 option \<Rightarrow> addr bm_result" where
  "bm_allocate_buffer bm size_bytes page_size bottom_up compute_grid num_shards =
     (case bind_result (bm_num_shards bm compute_grid num_shards) (\<lambda>num_banks.
           bind_result (SizeBytesPerBank size_bytes page_size num_banks (alignment_bytes bm)) (\<lambda>per_bank.
           bind_result (bm_address_limit bm (num_shards \<noteq> None)) (\<lambda>limit. Inr (per_bank, limit)))) of
        Inl e \<Rightarrow> Some (Inl e, bm)
      | Inr (per_bank, limit) \<Rightarrow>
          (case bm_allocator bm of
             None \<Rightarrow> Some (Inl (Tt_assert ''Allocator not initialized!''), bm)
           | Some s \<Rightarrow>
               (case allocate s per_bank bottom_up limit of
                  None \<Rightarrow> None
                | Some (Inl e, s') \<Rightarrow> Some (Inl e, bm\<lparr>bm_allocator := Some s'\<rparr>)
                | Some (Inr None, s') \<Rightarrow>
                    Some (Inl (Tt_throw ''Out of Memory: Not enough space to allocate''),
                          bm\<lparr>bm_allocator := Some s'\<rparr>)
                | Some (Inr (Some a), s') \<Rightarrow>
                    Some (Inr a, bm\<lparr>bm_allocator := Some s',
                                    allocated_addrs := List.insert a (allocated_addrs bm)\<rparr>))))"

definition bm_deallocate_buffer :: "bank_manager \<Rightarrow> addr \<Rightarrow> unit bm_result" where
  "bm_deallocate_buffer bm a =
     (case bm_allocator bm of
        None \<Rightarrow> Some (Inl Null_deref, bm)
      | Some s \<Rightarrow> (case deallocate s a of
                     None \<Rightarrow> None | Some s' \<Rightarrow> Some (Inr (), bm\<lparr>bm_allocator := Some s'\<rparr>)))"

definition bm_deallocate_all :: "bank_manager \<Rightarrow> unit bm_result" where
  "bm_deallocate_all bm =
     (case bm_allocator bm of
        None \<Rightarrow> Some (if allocated_addrs bm = [] then Inr () else Inl Null_deref, bm)
      | Some s \<Rightarrow> (case free_each deallocate (allocated_addrs bm) s of
                     None \<Rightarrow> None | Some s' \<Rightarrow> Some (Inr (), bm\<lparr>bm_allocator := Some s'\<rparr>)))"

definition bm_clear :: "bank_manager \<Rightarrow> bank_manager option" where
  "bm_clear bm =
     (case bm_allocator bm of
        None \<Rightarrow> Some bm
      | Some s \<Rightarrow> (case clear s of None \<Rightarrow> None | Some s' \<Rightarrow> Some (bm\<lparr>bm_allocator := Some s'\<rparr>)))"

text \<open>Move assignment: the moved-from manager keeps its fields but loses its algorithm.\<close>

definition bm_move :: "bank_manager \<Rightarrow> bank_manager \<Rightarrow> bank_manager \<times> bank_manager" where
  "bm_move this that =
     (\<lparr>bm_buffer_type = bm_buffer_type that, allocated_addrs = allocated_addrs that,
       bank_id_to_bank_offset = bank_id_to_bank_offset that, bm_allocator = bm_allocator that,
       interleaved_address_limit = interleaved_address_limit that,
       alignment_bytes = alignment_bytes that\<rparr>,
      that\<lparr>bm_allocator := None\<rparr>)"

definition bm_shrink_size :: "bank_manager \<Rightarrow> u64 \<Rightarrow> bool \<Rightarrow> (tt_error + unit) \<times> bank_manager" where
  "bm_shrink_size bm amount bottom_up =
     (case bm_allocator bm of
        None \<Rightarrow> (Inr (), bm)
      | Some s \<Rightarrow> (case shrink s amount bottom_up of (r, s') \<Rightarrow> (r, bm\<lparr>bm_allocator := Some s'\<rparr>)))"

definition bm_reset_size :: "bank_manager \<Rightarrow> bank_manager" where
  "bm_reset_size bm =
     (case bm_allocator bm of None \<Rightarrow> bm | Some s \<Rightarrow> bm\<lparr>bm_allocator := Some (reset_size s)\<rparr>)"

end
