(* ===== verification/Device_Allocator.thy ===== *)
theory Device_Allocator
  imports Bank_Manager
begin

text \<open>
  The allocator of a device, with one bank manager per memory type:
  src/tt_metal/impl/allocator/allocator.cpp (the free functions and \<open>Allocator\<close>),
  allocator_types.hpp, basic_allocator.cpp and l1_banking_allocator.cpp.

  The callbacks of \<open>AllocDescriptor\<close> are given by the constructor of \<open>alloc_kind\<close>:
  both allocators of the source use \<open>base_alloc\<close> and differ in the initialisation of L1.
  A \<open>Buffer\<close> enters with the values of the accessors that are called on it. The random
  shuffle of bank ids and the mailbox address of the hardware layer are the parameters
  \<open>shuffle\<close> and \<open>mailbox_base\<close>.
\<close>

section \<open>State\<close>

datatype alloc_core_type = Dispatch | StorageOnly | ComputeOnly | ComputeAndStore | Invalid

datatype alloc_kind = BASIC | L1_BANKING

record allocator_config =
  num_dram_channels :: u64
  dram_bank_size :: u64
  dram_bank_offsets :: "u64 list"
  dram_unreserved_base :: u32
  l1_unreserved_base :: u32
  worker_grid :: core_range_set
  worker_l1_size :: u64
  storage_core_bank_size :: "u32 option"
  l1_small_size :: u64
  trace_region_size :: u64
  core_type_from_noc_coord_table :: "(core_coord \<times> alloc_core_type) list"
  worker_log_to_physical_routing_x :: "(nat \<times> nat) list"
  worker_log_to_physical_routing_y :: "(nat \<times> nat) list"
  l1_bank_remap :: "u32 list"
  compute_grid :: core_range_set
  cfg_alignment :: u32
  cfg_disable_interleaved :: bool

record allocator =
  allocations_unsafe :: bool
  dram_manager :: bank_manager
  l1_manager :: bank_manager
  l1_small_manager :: bank_manager
  trace_buffer_manager :: bank_manager
  bank_id_to_dram_channel :: "(u32 \<times> u32) list"
  dram_channel_to_bank_ids :: "(u32 \<times> u32 list) list"
  bank_id_to_logical_core :: "(u32 \<times> core_coord) list"
  logical_core_to_bank_ids :: "buffer_type \<Rightarrow> (core_coord \<times> u32 list) list option"
  allocated_buffers :: "ptr list"
  alloc_config :: allocator_config

record buffer_view =
  buf_ptr :: ptr
  buf_aligned_size :: u64
  buf_aligned_page_size :: u64
  buf_type :: buffer_type
  buf_bottom_up :: bool
  buf_num_cores :: "u32 option"
  buf_address :: addr

text \<open>Sequencing of steps that may not return and may raise.\<close>

fun bind_run :: "('e + 'a) option \<Rightarrow> ('a \<Rightarrow> ('e + 'b) option) \<Rightarrow> ('e + 'b) option" where
  "bind_run None f = None"
| "bind_run (Some (Inl e)) f = Some (Inl e)"
| "bind_run (Some (Inr v)) f = f v"

definition to_int32 :: "nat \<Rightarrow> int" where
  "to_int32 n = (let m = int (n mod 2 ^ 32) in if m < 2 ^ 31 then m else m - 2 ^ 32)"

definition insert_core_banks ::
    "buffer_type \<Rightarrow> core_coord \<Rightarrow> u32 list \<Rightarrow> allocator \<Rightarrow> allocator" where
  "insert_core_banks t c ids a =
     a\<lparr>logical_core_to_bank_ids := (logical_core_to_bank_ids a)
         (t := Some (map_insert c ids (case logical_core_to_bank_ids a t of None \<Rightarrow> [] | Some m \<Rightarrow> m)))\<rparr>"

section \<open>Initialisation of DRAM and basic L1\<close>

fun copy_offsets :: "u64 list \<Rightarrow> nat list \<Rightarrow> tt_error + int list" where
  "copy_offsets offs [] = Inr []"
| "copy_offsets offs (c # cs) =
     (if c < length offs
      then bind_result (copy_offsets offs cs) (\<lambda>r. Inr (to_int32 (offs ! c) # r))
      else Inl Out_of_range)"

definition add_dram_bank :: "buffer_type \<Rightarrow> u32 \<Rightarrow> allocator \<Rightarrow> allocator" where
  "add_dram_bank t bank_id a =
     (let a = a\<lparr>bank_id_to_dram_channel := map_insert bank_id bank_id (bank_id_to_dram_channel a)\<rparr>;
          a = a\<lparr>dram_channel_to_bank_ids := map_insert bank_id [bank_id] (dram_channel_to_bank_ids a)\<rparr>
      in insert_core_banks t (coord bank_id 0) [bank_id] a)"

definition init_one_bank_per_channel :: "allocator \<Rightarrow> allocator_config \<Rightarrow> (tt_error + allocator) option" where
  "init_one_bank_per_channel a cfg =
     (let bank_size = sub64 (sub64 (dram_bank_size cfg) (dram_unreserved_base cfg)) (trace_region_size cfg);
          banks = [0 ..< num_dram_channels cfg]
      in bind_run (Some (copy_offsets (dram_bank_offsets cfg) banks)) (\<lambda>offsets.
         bind_run (bank_manager_new DRAM offsets bank_size (cfg_alignment cfg)
                     (dram_unreserved_base cfg) (cfg_disable_interleaved cfg)) (\<lambda>dram.
         let a = fold (add_dram_bank DRAM) banks (a\<lparr>dram_manager := dram\<rparr>)
         in bind_run (bank_manager_new TRACE offsets (trace_region_size cfg) (cfg_alignment cfg)
                        (add64 bank_size (dram_unreserved_base cfg)) (cfg_disable_interleaved cfg)) (\<lambda>trace.
            Some (Inr (fold (add_dram_bank TRACE) banks (a\<lparr>trace_buffer_manager := trace\<rparr>)))))))"

fun add_l1_banks :: "u32 \<Rightarrow> core_coord list \<Rightarrow> allocator \<Rightarrow> allocator" where
  "add_l1_banks bank_id [] a = a"
| "add_l1_banks bank_id (c # cs) a =
     add_l1_banks (bank_id + 1) cs
       (insert_core_banks L1 c [bank_id]
          (a\<lparr>bank_id_to_logical_core := map_insert bank_id c (bank_id_to_logical_core a)\<rparr>))"

definition init_one_bank_per_l1 :: "allocator \<Rightarrow> allocator_config \<Rightarrow> (tt_error + allocator) option" where
  "init_one_bank_per_l1 a cfg =
     (if l1_small_size cfg \<noteq> 0 then Some (Inl (Tt_assert ''l1_small_size == 0''))
      else
        let num_l1_banks = num_cores (worker_grid cfg);
            bank_size = sub64 (worker_l1_size cfg) (l1_unreserved_base cfg)
        in bind_run (bank_manager_new L1 (replicate num_l1_banks 0) bank_size (cfg_alignment cfg)
                       (l1_unreserved_base cfg) (cfg_disable_interleaved cfg)) (\<lambda>l1.
           Some (Inr (add_l1_banks 0 (corerange_to_cores (worker_grid cfg) None True)
                        (a\<lparr>l1_manager := l1\<rparr>)))))"

section \<open>Initialisation of banked L1\<close>

record num_banks_t =
  nb_total :: u32
  num_l1_banks :: u32
  num_l1_small_banks :: u32
  per_storage_core :: u32

definition num_in_category :: "(core_coord \<times> alloc_core_type) list \<Rightarrow> alloc_core_type \<Rightarrow> nat" where
  "num_in_category table t = length (filter (\<lambda>(c, u). u = t) table)"

definition compute_total_and_storage_only_num_l1_banks :: "allocator_config \<Rightarrow> tt_error + num_banks_t" where
  "compute_total_and_storage_only_num_l1_banks cfg =
     (let compute = num_in_category (core_type_from_noc_coord_table cfg) ComputeAndStore;
          storage = num_in_category (core_type_from_noc_coord_table cfg) StorageOnly
      in bind_result
           (if storage > 0 then
              (case storage_core_bank_size cfg of
                 None \<Rightarrow> Inl (Tt_assert ''storage_core_bank_size.has_value()'')
               | Some sz \<Rightarrow>
                   if sz = 0 then Inl Div_by_zero
                   else if worker_l1_size cfg mod sz \<noteq> 0
                     then Inl (Tt_assert ''worker_l1_size % storage_core_bank_size == 0'')
                   else Inr ((worker_l1_size cfg div sz) mod 2 ^ 32))
            else Inr 0)
           (\<lambda>per_core.
              let small = (if l1_small_size cfg > 0 then compute else 0);
                  l1 = add32 compute (mul32 per_core storage)
              in Inr \<lparr>nb_total = add32 l1 small, num_l1_banks = l1, num_l1_small_banks = small,
                      per_storage_core = per_core\<rparr>))"

definition logical_to_noc_coord :: "allocator_config \<Rightarrow> core_coord \<Rightarrow> tt_error + core_coord" where
  "logical_to_noc_coord cfg c =
     (case (map_of (worker_log_to_physical_routing_x cfg) (cx c),
            map_of (worker_log_to_physical_routing_y cfg) (cy c)) of
        (Some px, Some py) \<Rightarrow>
          if map_of (core_type_from_noc_coord_table cfg) (coord px py) = None
          then Inl (Tt_assert ''Cannot find noc-coord in core_type_from_noc_coord_table'')
          else Inr (coord px py)
      | _ \<Rightarrow> Inl (Tt_assert ''Cannot find log_coord in logical to routing coord lookup tables''))"

definition core_type :: "allocator_config \<Rightarrow> core_coord \<Rightarrow> tt_error + alloc_core_type" where
  "core_type cfg c =
     bind_result (logical_to_noc_coord cfg c)
       (\<lambda>noc. case map_of (core_type_from_noc_coord_table cfg) noc of
                None \<Rightarrow> Inl Out_of_range | Some t \<Rightarrow> Inr t)"

definition shuffled_bank_ids ::
    "(u32 list \<Rightarrow> u32 list) \<Rightarrow> allocator_config \<Rightarrow> num_banks_t \<Rightarrow> tt_error + u32 list" where
  "shuffled_bank_ids shuffle cfg nb =
     (if l1_bank_remap cfg \<noteq> [] then
        if num_l1_banks nb \<noteq> length (l1_bank_remap cfg)
        then Inl (Tt_assert ''override l1_bank_remap.size() is not the expected number of banks'')
        else Inr (l1_bank_remap cfg)
      else Inr (shuffle [0 ..< num_l1_banks nb]))"

text \<open>Maps of the allocator, the next bank id, and the offsets collected so far.\<close>

type_synonym l1_state = "allocator \<times> u32 \<times> (u32 \<times> int) list"

definition add_bank :: "u32 \<Rightarrow> core_coord \<Rightarrow> int \<Rightarrow> l1_state \<Rightarrow> l1_state" where
  "add_bank remapped c off st =
     (case st of (a, bank_id, offs) \<Rightarrow>
        (a\<lparr>bank_id_to_logical_core := map_insert remapped c (bank_id_to_logical_core a)\<rparr>,
         bank_id + 1, map_insert remapped off offs))"

definition storage_bank_offset ::
    "allocator_config \<Rightarrow> num_banks_t \<Rightarrow> nat \<Rightarrow> tt_error + int" where
  "storage_bank_offset cfg nb index =
     (case storage_core_bank_size cfg of
        None \<Rightarrow> Inl Out_of_range
      | Some sz \<Rightarrow>
          if sz \<noteq> worker_l1_size cfg then Inr (int (mul32 index sz) - int sz)
          else if per_storage_core nb \<noteq> 1
            then Inl (Tt_throw ''Expected 1 bank per storage core'')
          else Inr 0)"

fun add_storage_banks ::
    "allocator_config \<Rightarrow> num_banks_t \<Rightarrow> u32 list \<Rightarrow> core_coord \<Rightarrow> nat list \<Rightarrow> u32 list \<Rightarrow> l1_state \<Rightarrow>
       tt_error + u32 list \<times> l1_state" where
  "add_storage_banks cfg nb ids c [] acc st = Inr (acc, st)"
| "add_storage_banks cfg nb ids c (i # is) acc (a, bank_id, offs) =
     (if bank_id < length ids then
        bind_result (storage_bank_offset cfg nb i) (\<lambda>off.
          add_storage_banks cfg nb ids c is (acc @ [ids ! bank_id])
            (add_bank (ids ! bank_id) c off (a, bank_id, offs)))
      else Inl Out_of_range)"

fun add_core :: "allocator_config \<Rightarrow> num_banks_t \<Rightarrow> u32 list \<Rightarrow> core_coord \<Rightarrow> l1_state \<Rightarrow> tt_error + l1_state" where
  "add_core cfg nb ids c (a, bank_id, offs) =
     bind_result (core_type cfg c) (\<lambda>t.
       if t = ComputeAndStore then
         if bank_id < length ids
         then Inr (add_bank (ids ! bank_id) c 0 (insert_core_banks L1 c [ids ! bank_id] a, bank_id, offs))
         else Inl Out_of_range
       else if t = StorageOnly then
         bind_result (add_storage_banks cfg nb ids c [0 ..< per_storage_core nb] [] (a, bank_id, offs))
           (\<lambda>(bank_ids, a', bank_id', offs'). Inr (insert_core_banks L1 c bank_ids a', bank_id', offs'))
       else Inr (a, bank_id, offs))"

fun add_cores ::
    "allocator_config \<Rightarrow> num_banks_t \<Rightarrow> u32 list \<Rightarrow> core_coord list \<Rightarrow> l1_state \<Rightarrow> tt_error + l1_state" where
  "add_cores cfg nb ids [] st = Inr st"
| "add_cores cfg nb ids (c # cs) st =
     bind_result (add_core cfg nb ids c st) (add_cores cfg nb ids cs)"

fun add_small_cores :: "allocator_config \<Rightarrow> core_coord list \<Rightarrow> l1_state \<Rightarrow> tt_error + l1_state" where
  "add_small_cores cfg [] st = Inr st"
| "add_small_cores cfg (c # cs) (a, bank_id, offs) =
     bind_result (core_type cfg c) (\<lambda>t.
       if t \<noteq> ComputeAndStore then add_small_cores cfg cs (a, bank_id, offs)
       else add_small_cores cfg cs
              (add_bank bank_id c 0 (insert_core_banks L1_SMALL c [bank_id] a, bank_id, offs)))"

definition assign_l1_banks ::
    "(u32 list \<Rightarrow> u32 list) \<Rightarrow> allocator \<Rightarrow> allocator_config \<Rightarrow>
       tt_error + allocator \<times> (u32 \<times> int) list \<times> (u32 \<times> int) list" where
  "assign_l1_banks shuffle a cfg =
     (if \<not> crs_contains (worker_grid cfg) (compute_grid cfg)
      then Inl (Tt_fatal ''Compute grid must be a subset of worker grid'')
      else
        bind_result (compute_total_and_storage_only_num_l1_banks cfg) (\<lambda>nb.
        bind_result (shuffled_bank_ids shuffle cfg nb) (\<lambda>ids.
        let cores = corerange_to_cores (worker_grid cfg) None True
        in bind_result (add_cores cfg nb ids cores (a, 0, [])) (\<lambda>(a1, bank_id, offs).
           if bank_id \<noteq> length ids then Inl (Tt_assert ''bank_id == shuffled_bank_id.size()'')
           else if l1_small_size cfg > 0 \<and> \<not> num_l1_small_banks nb > 0
             then Inl (Tt_assert ''num_l1_small_banks > 0'')
           else
             bind_result (if l1_small_size cfg > 0 then add_small_cores cfg cores (a1, bank_id, [])
                          else Inr (a1, bank_id, [])) (\<lambda>(a2, bank_id2, small).
             if length offs \<noteq> num_l1_banks nb then Inl (Tt_assert ''number of L1 banks'')
             else if length small \<noteq> num_l1_small_banks nb then Inl (Tt_assert ''number of L1 small banks'')
             else if length offs + length small \<noteq> nb_total nb then Inl (Tt_assert ''number of banks'')
             else Inr (a2, offs, small))))))"

definition init_compute_and_storage_l1_bank_manager ::
    "(u32 list \<Rightarrow> u32 list) \<Rightarrow> u32 \<Rightarrow> allocator \<Rightarrow> allocator_config \<Rightarrow> (tt_error + allocator) option" where
  "init_compute_and_storage_l1_bank_manager shuffle mailbox_base a cfg =
     bind_run (Some (assign_l1_banks shuffle a cfg)) (\<lambda>(a, offs, small).
       if cfg_alignment cfg = 0 then Some (Inl Div_by_zero)
       else
         let storage_base = mul32 (sub32 (add32 mailbox_base (cfg_alignment cfg)) 1 div cfg_alignment cfg)
                              (cfg_alignment cfg);
             bank_size = (case storage_core_bank_size cfg of
                Some sz \<Rightarrow> sz | None \<Rightarrow> sub64 (worker_l1_size cfg) (l1_unreserved_base cfg));
             limit = add64 (sub64 (worker_l1_size cfg) bank_size) storage_base;
             allocatable = sub64 (sub64 (worker_l1_size cfg) (l1_unreserved_base cfg)) (l1_small_size cfg)
         in bind_run (bank_manager_new_map L1 offs allocatable limit (cfg_alignment cfg)
                        (l1_unreserved_base cfg) (cfg_disable_interleaved cfg)) (\<lambda>l1.
            if \<not> add64 (l1_unreserved_base cfg) (l1_small_size cfg) \<le> worker_l1_size cfg
            then Some (Inl (Tt_assert ''L1 small region extends past L1 size''))
            else
              bind_run (bank_manager_new_map L1_SMALL small (l1_small_size cfg)
                          (sub64 (worker_l1_size cfg) (l1_small_size cfg)) (cfg_alignment cfg)
                          (add64 (l1_unreserved_base cfg) allocatable) (cfg_disable_interleaved cfg)) (\<lambda>l1_small.
              Some (Inr (a\<lparr>l1_manager := l1, l1_small_manager := l1_small\<rparr>)))))"

section \<open>The allocator\<close>

definition allocator_new ::
    "alloc_kind \<Rightarrow> (u32 list \<Rightarrow> u32 list) \<Rightarrow> u32 \<Rightarrow> allocator_config \<Rightarrow> (tt_error + allocator) option" where
  "allocator_new kind shuffle mailbox_base cfg =
     (let a = \<lparr>allocations_unsafe = False, dram_manager = bank_manager_default DRAM,
               l1_manager = bank_manager_default L1, l1_small_manager = bank_manager_default L1_SMALL,
               trace_buffer_manager = bank_manager_default TRACE, bank_id_to_dram_channel = [],
               dram_channel_to_bank_ids = [], bank_id_to_logical_core = [],
               logical_core_to_bank_ids = (\<lambda>_. None), allocated_buffers = [], alloc_config = cfg\<rparr>
      in bind_run (init_one_bank_per_channel a cfg) (\<lambda>a.
         bind_run (case kind of
                     BASIC \<Rightarrow> init_one_bank_per_l1 a cfg
                   | L1_BANKING \<Rightarrow> init_compute_and_storage_l1_bank_manager shuffle mailbox_base a cfg) (\<lambda>a.
         if bank_id_to_dram_channel a = [] \<or> dram_channel_to_bank_ids a = []
         then Some (Inl (Tt_assert ''no DRAM banks''))
         else if bank_id_to_logical_core a = [] then Some (Inl (Tt_assert ''no L1 banks''))
         else Some (Inr a))))"

text \<open>The \<open>switch\<close> over the buffer type: which manager is meant, and how it is replaced.\<close>

definition manager_of :: "allocator \<Rightarrow> buffer_type \<Rightarrow> tt_error + bank_manager" where
  "manager_of a t =
     (case t of
        DRAM \<Rightarrow> Inr (dram_manager a)
      | L1 \<Rightarrow> Inr (l1_manager a)
      | L1_SMALL \<Rightarrow> Inr (l1_small_manager a)
      | TRACE \<Rightarrow> Inr (trace_buffer_manager a)
      | SYSTEM_MEMORY \<Rightarrow> Inl (Tt_throw ''Unsupported buffer type!''))"

definition set_manager :: "buffer_type \<Rightarrow> bank_manager \<Rightarrow> allocator \<Rightarrow> allocator" where
  "set_manager t bm a =
     (case t of
        DRAM \<Rightarrow> a\<lparr>dram_manager := bm\<rparr>
      | L1 \<Rightarrow> a\<lparr>l1_manager := bm\<rparr>
      | L1_SMALL \<Rightarrow> a\<lparr>l1_small_manager := bm\<rparr>
      | TRACE \<Rightarrow> a\<lparr>trace_buffer_manager := bm\<rparr>
      | SYSTEM_MEMORY \<Rightarrow> a)"

datatype hal_mem_type = HAL_L1 | HAL_DRAM | HAL_HOST

definition get_unreserved_base_address :: "allocator \<Rightarrow> hal_mem_type \<Rightarrow> tt_error + u64" where
  "get_unreserved_base_address a t =
     (case t of
        HAL_DRAM \<Rightarrow> Inr (dram_unreserved_base (alloc_config a))
      | HAL_L1 \<Rightarrow> Inr (l1_unreserved_base (alloc_config a))
      | HAL_HOST \<Rightarrow> Inl (Tt_throw ''Allocator does not support allocating in this memory''))"

definition alloc_num_banks :: "allocator \<Rightarrow> buffer_type \<Rightarrow> tt_error + u32" where
  "alloc_num_banks a t = bind_result (manager_of a t) (\<lambda>bm. Inr (bm_num_banks bm))"

definition alloc_bank_size :: "allocator \<Rightarrow> buffer_type \<Rightarrow> tt_error + u64" where
  "alloc_bank_size a t = bind_result (manager_of a t) bm_bank_size"

definition dram_channel_from_bank_id :: "allocator \<Rightarrow> u32 \<Rightarrow> tt_error + u32" where
  "dram_channel_from_bank_id a bank_id =
     (case map_of (bank_id_to_dram_channel a) bank_id of
        None \<Rightarrow> Inl (Tt_assert ''unknown DRAM bank'') | Some c \<Rightarrow> Inr c)"

definition logical_core_from_bank_id :: "allocator \<Rightarrow> u32 \<Rightarrow> tt_error + core_coord" where
  "logical_core_from_bank_id a bank_id =
     (case map_of (bank_id_to_logical_core a) bank_id of
        None \<Rightarrow> Inl (Tt_assert ''unknown L1 bank'') | Some c \<Rightarrow> Inr c)"

definition alloc_bank_offset :: "allocator \<Rightarrow> buffer_type \<Rightarrow> u32 \<Rightarrow> tt_error + int" where
  "alloc_bank_offset a t bank_id =
     bind_result (manager_of a t) (\<lambda>bm. bind_result (bm_bank_offset bm bank_id)
       (\<lambda>off. Inr (to_int32 (nat (off mod 2 ^ 64)))))"

definition bank_ids_from_dram_channel :: "allocator \<Rightarrow> u32 \<Rightarrow> tt_error + u32 list" where
  "bank_ids_from_dram_channel a ch =
     (case map_of (dram_channel_to_bank_ids a) ch of
        None \<Rightarrow> Inl (Tt_throw ''No DRAM bank exists for DRAM channel'') | Some ids \<Rightarrow> Inr ids)"

definition bank_ids_from_logical_core :: "allocator \<Rightarrow> buffer_type \<Rightarrow> core_coord \<Rightarrow> tt_error + u32 list" where
  "bank_ids_from_logical_core a t c =
     (case logical_core_to_bank_ids a t of
        None \<Rightarrow> Inl Out_of_range
      | Some m \<Rightarrow> (case map_of m c of
                     None \<Rightarrow> Inl (Tt_throw ''No bank exists for core'') | Some ids \<Rightarrow> Inr ids))"

definition alloc_get_statistics :: "allocator \<Rightarrow> buffer_type \<Rightarrow> (tt_error + statistics) option" where
  "alloc_get_statistics a t =
     (case manager_of a t of
        Inl e \<Rightarrow> Some (Inl e) | Inr bm \<Rightarrow> map_option Inr (bm_get_statistics bm))"

definition dump_memory_blocks :: "allocator \<Rightarrow> buffer_type \<Rightarrow> (tt_error + (addr \<times> u64 \<times> bool) list) option" where
  "dump_memory_blocks a t =
     (case manager_of a t of
        Inl e \<Rightarrow> Some (Inl e) | Inr bm \<Rightarrow> map_option Inr (bm_dump_blocks bm))"

definition lowest_occupied_l1_address :: "allocator \<Rightarrow> u32 \<Rightarrow> tt_error + addr option" where
  "lowest_occupied_l1_address a bank_id = bm_lowest_occupied_address (l1_manager a) bank_id"

definition mark_allocations_unsafe :: "allocator \<Rightarrow> allocator" where
  "mark_allocations_unsafe a = a\<lparr>allocations_unsafe := True\<rparr>"

definition mark_allocations_safe :: "allocator \<Rightarrow> allocator" where
  "mark_allocations_safe a = a\<lparr>allocations_unsafe := False\<rparr>"

text \<open>Whether a warning is printed, and whether one has been printed by this thread.\<close>

definition verify_safe_allocation :: "allocator \<Rightarrow> bool \<Rightarrow> bool \<times> bool" where
  "verify_safe_allocation a warning_generated =
     (if allocations_unsafe a \<and> \<not> warning_generated then (True, True) else (False, warning_generated))"

definition base_alloc ::
    "allocator_config \<Rightarrow> bank_manager \<Rightarrow> u64 \<Rightarrow> u64 \<Rightarrow> bool \<Rightarrow> u32 option \<Rightarrow> addr bm_result" where
  "base_alloc cfg bm size_bytes page_size bottom_up num_shards =
     bm_allocate_buffer bm size_bytes page_size bottom_up (compute_grid cfg) num_shards"

definition allocate_buffer :: "allocator \<Rightarrow> buffer_view \<Rightarrow> ((tt_error + addr) \<times> allocator) option" where
  "allocate_buffer a b =
     (if cfg_disable_interleaved (alloc_config a) \<and> buf_num_cores b = None
      then Some (Inl (Tt_fatal ''Interleaved allocation is disabled, see validate_num_banks''), a)
      else
        (case manager_of a (buf_type b) of
           Inl e \<Rightarrow> Some (Inl e, a)
         | Inr bm \<Rightarrow>
             if buf_type b = L1_SMALL \<and> buf_num_cores b = None
             then Some (Inl (Tt_fatal ''L1_SMALL only supports sharded allocations''), a)
             else
               (case base_alloc (alloc_config a) bm (buf_aligned_size b) (buf_aligned_page_size b)
                       (buf_bottom_up b) (buf_num_cores b) of
                  None \<Rightarrow> None
                | Some (Inl e, bm') \<Rightarrow> Some (Inl e, set_manager (buf_type b) bm' a)
                | Some (Inr x, bm') \<Rightarrow>
                    let a' = set_manager (buf_type b) bm' a
                    in Some (Inr x, a'\<lparr>allocated_buffers :=
                                        List.insert (buf_ptr b) (allocated_buffers a')\<rparr>))))"

definition deallocate_buffer :: "allocator \<Rightarrow> buffer_view \<Rightarrow> ((tt_error + unit) \<times> allocator) option" where
  "deallocate_buffer a b =
     (case manager_of a (buf_type b) of
        Inl e \<Rightarrow> Some (Inl e, a)
      | Inr bm \<Rightarrow>
          (case bm_deallocate_buffer bm (buf_address b) of
             None \<Rightarrow> None
           | Some (Inl e, bm') \<Rightarrow> Some (Inl e, set_manager (buf_type b) bm' a)
           | Some (Inr _, bm') \<Rightarrow>
               let a' = set_manager (buf_type b) bm' a
               in Some (Inr (), a'\<lparr>allocated_buffers := removeAll (buf_ptr b) (allocated_buffers a')\<rparr>)))"

definition shrink_allocator_size ::
    "allocator \<Rightarrow> buffer_type \<Rightarrow> u64 \<Rightarrow> bool \<Rightarrow> (tt_error + unit) \<times> allocator" where
  "shrink_allocator_size a t amount bottom_up =
     (case manager_of a t of
        Inl e \<Rightarrow> (Inl e, a)
      | Inr bm \<Rightarrow> (case bm_shrink_size bm amount bottom_up of (r, bm') \<Rightarrow> (r, set_manager t bm' a)))"

definition reset_allocator_size :: "allocator \<Rightarrow> buffer_type \<Rightarrow> (tt_error + unit) \<times> allocator" where
  "reset_allocator_size a t =
     (case manager_of a t of
        Inl e \<Rightarrow> (Inl e, a) | Inr bm \<Rightarrow> (Inr (), set_manager t (bm_reset_size bm) a))"

text \<open>The four managers one after the other; an exception ends the sequence.\<close>

fun each_manager ::
    "(bank_manager \<Rightarrow> unit bm_result) \<Rightarrow> buffer_type list \<Rightarrow> allocator \<Rightarrow> ((tt_error + unit) \<times> allocator) option" where
  "each_manager f [] a = Some (Inr (), a)"
| "each_manager f (t # ts) a =
     (case manager_of a t of
        Inl e \<Rightarrow> Some (Inl e, a)
      | Inr bm \<Rightarrow>
          (case f bm of
             None \<Rightarrow> None
           | Some (Inl e, bm') \<Rightarrow> Some (Inl e, set_manager t bm' a)
           | Some (Inr _, bm') \<Rightarrow> each_manager f ts (set_manager t bm' a)))"

definition deallocate_buffers :: "allocator \<Rightarrow> ((tt_error + unit) \<times> allocator) option" where
  "deallocate_buffers a = each_manager bm_deallocate_all [DRAM, L1, L1_SMALL, TRACE] a"

definition allocator_clear :: "allocator \<Rightarrow> ((tt_error + unit) \<times> allocator) option" where
  "allocator_clear a =
     each_manager (\<lambda>bm. map_option (\<lambda>bm'. (Inr (), bm')) (bm_clear bm)) [DRAM, L1, L1_SMALL, TRACE] a"

definition config_reset :: "allocator_config \<Rightarrow> allocator_config" where
  "config_reset cfg =
     cfg\<lparr>dram_bank_offsets := [], core_type_from_noc_coord_table := [],
         worker_log_to_physical_routing_x := [], worker_log_to_physical_routing_y := [],
         l1_bank_remap := []\<rparr>"

definition allocator_reset :: "allocator \<Rightarrow> ((tt_error + unit) \<times> allocator) option" where
  "allocator_reset a =
     (let a = a\<lparr>bank_id_to_dram_channel := [], dram_channel_to_bank_ids := [],
                bank_id_to_logical_core := [],
                logical_core_to_bank_ids := map_option (\<lambda>_. []) \<circ> logical_core_to_bank_ids a\<rparr>
      in case allocator_clear a of
           None \<Rightarrow> None
         | Some (r, a) \<Rightarrow> Some (r, a\<lparr>allocated_buffers := [], alloc_config := config_reset (alloc_config a)\<rparr>))"

end
