(* ===== verification/Bank_Manager_Props.thy ===== *)
theory Bank_Manager_Props
  imports Bank_Manager
begin

text \<open>
  The bank manager as a client of the allocation algorithm: everything it knows about the
  free list comes through the interface \<open>region_allocator\<close>.
\<close>

definition bm_held :: "bank_manager \<Rightarrow> (addr \<times> u64) set" where
  "bm_held bm = (case bm_allocator bm of None \<Rightarrow> {} | Some s \<Rightarrow> fl_held s)"

text \<open>Every region that is held was recorded, so that \<open>deallocate_all\<close> finds it.\<close>

definition bm_ok :: "bank_manager \<Rightarrow> bool" where
  "bm_ok bm \<longleftrightarrow> (\<exists>s. bm_allocator bm = Some s \<and> fl_ok s) \<and>
     fst ` bm_held bm \<subseteq> set (allocated_addrs bm) \<and> (\<forall>a \<in> set (allocated_addrs bm). a < 2 ^ 64)"

definition bm_accepts :: "bank_manager \<Rightarrow> u64 \<Rightarrow> bool" where
  "bm_accepts bm n = (case bm_allocator bm of None \<Rightarrow> False | Some s \<Rightarrow> representable s n)"

definition bm_request :: "bank_manager \<Rightarrow> u64 \<Rightarrow> u64" where
  "bm_request bm n = (case bm_allocator bm of None \<Rightarrow> 0 | Some s \<Rightarrow> request_size s n)"

section \<open>The number of banks\<close>

lemma and_pred_zero: "0 < n \<Longrightarrow> n AND (n - 1) = 0 \<longleftrightarrow> (\<exists>k. n = (2 :: nat) ^ k)"
proof (induction n rule: less_induct)
  case (less n)
  show ?case
  proof (cases "even n")
    case True
    then obtain m where n: "n = 2 * m" by (elim evenE)
    with less.prems have m: "0 < m" by simp
    then have "(n - 1) div 2 = m - 1" "n div 2 = m" using n by auto
    then have "n AND (n - 1) = 2 * (m AND (m - 1))" using True by (subst and_rec) simp
    moreover have "(\<exists>k. n = 2 ^ k) \<longleftrightarrow> (\<exists>k. m = 2 ^ k)"
    proof
      assume "\<exists>k. n = 2 ^ k"
      then obtain k where k: "n = 2 ^ k" by blast
      with True have "k \<noteq> 0" by (cases k) auto
      with k n show "\<exists>k. m = 2 ^ k" by (cases k) auto
    next
      assume "\<exists>k. m = 2 ^ k"
      then show "\<exists>k. n = 2 ^ k" using n by (metis power_Suc)
    qed
    ultimately show ?thesis using less.IH [of m] m n by simp
  next
    case False
    then obtain m where n: "n = 2 * m + 1" by (elim oddE)
    then have "n AND (n - 1) = 2 * m" by (subst and_rec) simp
    moreover have "(\<exists>k. n = 2 ^ k) \<longleftrightarrow> m = 0"
    proof
      assume "\<exists>k. n = 2 ^ k"
      then obtain k where k: "n = 2 ^ k" by blast
      with False have "k = 0" by (cases k) auto
      with k n show "m = 0" by simp
    next
      assume "m = 0"
      then show "\<exists>k. n = 2 ^ k" using n by (intro exI [of _ 0]) simp
    qed
    ultimately show ?thesis by simp
  qed
qed

section \<open>Pages per bank\<close>

lemma SizeBytesPerBank_value:
  assumes "0 < page" and "size_b = pages * page" and "0 < banks" and "0 < al" and "page + al \<le> 2 ^ 32"
    and "0 < pages" and "(1 + (pages - 1) div banks) * ceil_to page al < 2 ^ 64"
  shows "SizeBytesPerBank size_b page banks al = Inr ((1 + (pages - 1) div banks) * ceil_to page al)"
proof -
  have "page mod 2 ^ 32 = page" using assms(4,5) by simp
  moreover have "round_up page al = Inr (ceil_to page al)"
    using round_up_small [OF assms(4), of page] assms(5) by (simp add: ceil_to_def mult.commute)
  ultimately show ?thesis
    unfolding SizeBytesPerBank_def Let_def using assms by (simp add: no_wrap del: power_mod)
qed

section \<open>Allocation and release\<close>

lemma bm_allocate_cases:
  assumes ok: "bm_ok bm"
    and plan: "bm_num_shards bm grid shards = Inr banks"
      "SizeBytesPerBank size_b page banks (alignment_bytes bm) = Inr k"
      "bm_address_limit bm (shards \<noteq> None) = Inr lim" and acc: "bm_accepts bm k"
  obtains (taken) a bm' where "bm_allocate_buffer bm size_b page bu grid shards = Some (Inr a, bm')"
      "bm_ok bm'" "bm_held bm' = insert (a, bm_request bm k) (bm_held bm)" "lim \<le> a"
      "\<forall>r \<in> bm_held bm. span (a, bm_request bm k) \<inter> span r = {}"
      "allocated_addrs bm' = List.insert a (allocated_addrs bm)"
  | (full) "bm_allocate_buffer bm size_b page bu grid shards =
      Some (Inl (Tt_throw ''Out of Memory: Not enough space to allocate''), bm)"
  | (limit) s x s' bm' where "bm_allocator bm = Some s" "x < lim"
      "bm_allocate_buffer bm size_b page bu grid shards =
        Some (Inl (Tt_throw ''Out of Memory: below address limit''), bm')"
      "bm' = bm\<lparr>bm_allocator := Some s'\<rparr>" "fl_ok s'"
      "bm_held bm' = insert (x, bm_request bm k) (bm_held bm)"
proof -
  from ok obtain s where s: "bm_allocator bm = Some s" "fl_ok s" by (auto simp: bm_ok_def)
  with acc have rep: "representable s k" and rq: "bm_request bm k = request_size s k"
    and hd: "bm_held bm = fl_held s" by (auto simp: bm_accepts_def bm_request_def bm_held_def)
  have eq: "bm_allocate_buffer bm size_b page bu grid shards =
      (case allocate s k bu lim of
         None \<Rightarrow> None
       | Some (Inl e, s') \<Rightarrow> Some (Inl e, bm\<lparr>bm_allocator := Some s'\<rparr>)
       | Some (Inr None, s') \<Rightarrow>
           Some (Inl (Tt_throw ''Out of Memory: Not enough space to allocate''),
                 bm\<lparr>bm_allocator := Some s'\<rparr>)
       | Some (Inr (Some a), s') \<Rightarrow>
           Some (Inr a, bm\<lparr>bm_allocator := Some s',
                           allocated_addrs := List.insert a (allocated_addrs bm)\<rparr>))"
    unfolding bm_allocate_buffer_def plan bind_result.simps using s(1) by simp
  from allocate_held [OF s(2) rep, of bu lim] obtain r s' where
    A: "allocate s k bu lim = Some (r, s')" "fl_ok s'"
      "r = Inr None \<and> s' = s \<or> (\<exists>x. r = limited x lim \<and>
         fl_held s' = insert (x, request_size s k) (fl_held s) \<and> (\<forall>k. (x, k) \<notin> fl_held s))" by metis
  from A(3) show thesis
  proof (elim disjE conjE exE)
    assume "r = Inr None" "s' = s"
    with A(1) s(1) have "bm_allocate_buffer bm size_b page bu grid shards =
        Some (Inl (Tt_throw ''Out of Memory: Not enough space to allocate''), bm\<lparr>bm_allocator := Some s\<rparr>)"
      by (simp add: eq)
    moreover have "bm\<lparr>bm_allocator := Some s\<rparr> = bm" using s(1) by (cases bm) simp
    ultimately show thesis by (intro full) simp
  next
    fix x
    assume x: "r = limited x lim" "fl_held s' = insert (x, request_size s k) (fl_held s)"
      "\<forall>k. (x, k) \<notin> fl_held s"
    show thesis
    proof (cases "x < lim")
      case True
      show thesis
      proof (rule limit)
        show "bm_allocator bm = Some s" "x < lim" by fact+
        show "bm_allocate_buffer bm size_b page bu grid shards =
          Some (Inl (Tt_throw ''Out of Memory: below address limit''), bm\<lparr>bm_allocator := Some s'\<rparr>)"
          using A(1) x(1) True s(1) by (simp add: eq limited_def)
        show "bm_held (bm\<lparr>bm_allocator := Some s'\<rparr>) = insert (x, bm_request bm k) (bm_held bm)"
          using x(2) rq hd by (simp add: bm_held_def)
      qed (use A(2) in simp_all)
    next
      case False
      let ?bm = "bm\<lparr>bm_allocator := Some s', allocated_addrs := List.insert x (allocated_addrs bm)\<rparr>"
      have al: "allocate s k bu lim = Some (Inr (Some x), s')" using A(1) x(1) False by (simp add: limited_def)
      have "x < 2 ^ 64" using fl_held_bounds [OF A(2), of x "request_size s k"] x(2) by auto
      show thesis
      proof (rule taken)
        show "bm_allocate_buffer bm size_b page bu grid shards = Some (Inr x, ?bm)"
          using al s(1) by (simp add: eq)
        show "bm_held ?bm = insert (x, bm_request bm k) (bm_held bm)"
          using x(2) rq hd by (simp add: bm_held_def)
        then show "bm_ok ?bm" using ok A(2) \<open>x < 2 ^ 64\<close> by (auto simp: bm_ok_def)
        show "\<forall>r \<in> bm_held bm. span (x, bm_request bm k) \<inter> span r = {}"
          using fl.alloc_fresh [OF s(2) rep al] rq hd by auto
        show "lim \<le> x" using False by simp
      qed simp
    qed
  qed
qed

lemma bm_deallocate_buffer_spec:
  assumes ok: "bm_ok bm" and a: "a < 2 ^ 64"
  shows "\<exists>bm'. bm_deallocate_buffer bm a = Some (Inr (), bm') \<and> bm_ok bm' \<and>
    bm_held bm' = bm_held bm - {r. fst r = a} \<and> allocated_addrs bm' = allocated_addrs bm"
proof -
  from ok obtain s where s: "bm_allocator bm = Some s" "fl_ok s" by (auto simp: bm_ok_def)
  from fl.free_spec [OF s(2) a] obtain s' where
    s': "deallocate s a = Some s'" "fl_ok s'" "fl_held s' = fl_held s - {r. fst r = a}" by blast
  then show ?thesis using ok s by (auto simp: bm_deallocate_buffer_def bm_ok_def bm_held_def)
qed

lemma bm_deallocate_all_spec:
  assumes s: "bm_allocator bm = Some s" "fl_ok s" and a: "\<forall>a \<in> set (allocated_addrs bm). a < 2 ^ 64"
  shows "\<exists>bm'. bm_deallocate_all bm = Some (Inr (), bm') \<and> (\<exists>s'. bm_allocator bm' = Some s' \<and> fl_ok s') \<and>
    bm_held bm' = bm_held bm - {r. fst r \<in> set (allocated_addrs bm)} \<and>
    allocated_addrs bm' = allocated_addrs bm"
proof -
  from fl.free_each_spec [OF s(2) a] obtain s' where
    "free_each deallocate (allocated_addrs bm) s = Some s'" "fl_ok s'"
    "fl_held s' = fl_held s - {r. fst r \<in> set (allocated_addrs bm)}" by blast
  then show ?thesis using s by (auto simp: bm_deallocate_all_def bm_held_def)
qed

text \<open>A small manager: one bank of 128 bytes at offset 64, interleaved below the given limit.\<close>

definition demo_bank :: "u64 \<Rightarrow> bank_manager" where
  "demo_bank limit =
     (case bank_manager_new_map L1 [(0, 0)] 128 limit 32 64 False of Some (Inr bm) \<Rightarrow> bm)"

lemma demo_bank_facts:
  obtains s where "demo_bank limit = \<lparr>bm_buffer_type = L1, allocated_addrs = [],
      bank_id_to_bank_offset = [(0, 0)], bm_allocator = Some s, interleaved_address_limit = limit,
      alignment_bytes = 32\<rparr>"
    "fl_inv s [(0, 128, True)]" "alignment s = 32" "min_allocation_size s = 32" "offset_bytes s = 64"
    "bm_ok (demo_bank limit)" "bm_held (demo_bank limit) = {}"
proof -
  from free_list_new_inv [of 32 64 32 128 FIRST] obtain s where
    s: "free_list_new 128 64 32 32 FIRST = Inr (Some s)" "fl_inv s [(0, 128, True)]"
      "alignment s = 32" "min_allocation_size s = 32" "offset_bytes s = 64" by auto
  have v: "validate_num_banks (Suc 0) L1 False = Inr ()"
    by (simp add: validate_num_banks_def Let_def)
  then have d: "demo_bank limit = \<lparr>bm_buffer_type = L1, allocated_addrs = [],
      bank_id_to_bank_offset = [(0, 0)], bm_allocator = Some s, interleaved_address_limit = limit,
      alignment_bytes = 32\<rparr>"
    using s(1) by (simp add: demo_bank_def bank_manager_new_map_def bank_manager_default_def init_allocator_def)
  moreover have h: "fl_held s = {}" using fl_held_used [OF s(2)] by simp
  then have "bm_ok (demo_bank limit)" "bm_held (demo_bank limit) = {}"
    using d s(2) by (auto simp: bm_ok_def bm_held_def fl_ok_def)
  ultimately show thesis using that s by blast
qed

lemma demo_bank_plan:
  assumes "0 < limit"
  shows "bm_num_shards (demo_bank limit) grid None = Inr 1"
    "SizeBytesPerBank 64 32 1 (alignment_bytes (demo_bank limit)) = Inr 64"
    "bm_address_limit (demo_bank limit) False = Inr limit" "bm_accepts (demo_bank limit) 64"
proof -
  obtain s where d: "demo_bank limit = \<lparr>bm_buffer_type = L1, allocated_addrs = [],
      bank_id_to_bank_offset = [(0, 0)], bm_allocator = Some s, interleaved_address_limit = limit,
      alignment_bytes = 32\<rparr>" "alignment s = 32" "min_allocation_size s = 32"
    by (rule demo_bank_facts [of limit])
  have "SizeBytesPerBank 64 32 1 32 = Inr 64"
    using SizeBytesPerBank_value [of 32 64 2 1 32] by (simp add: ceil_to_def)
  then show "bm_num_shards (demo_bank limit) grid None = Inr 1"
    "SizeBytesPerBank 64 32 1 (alignment_bytes (demo_bank limit)) = Inr 64"
    "bm_address_limit (demo_bank limit) False = Inr limit" "bm_accepts (demo_bank limit) 64"
    using d assms
    by (simp_all add: bm_num_shards_def bm_num_banks_def bm_address_limit_def bm_accepts_def representable_def)
qed

section \<open>Theorems\<close>

text \<open>
  \<open>validate_num_banks\<close> accepts a number of banks for interleaving exactly when it is
  a power of two or one of the numbers with a dedicated modulo implementation.
\<close>

theorem validate_num_banks_correct:
  "validate_num_banks n t disable = Inr () \<longleftrightarrow>
     t = L1_SMALL \<or> disable \<or> n \<in> {12, 56, 70, 80, 94, 124, 130, 140} \<or> (\<exists>k. n = 2 ^ k)"
  using and_pred_zero [of n] by (cases "n = 0") (auto simp: validate_num_banks_def Let_def)

text \<open>
  \<open>SizeBytesPerBank\<close> reserves enough space in every bank: when pages are dealt out
  round-robin, each page has a slot of the aligned page size inside the size per bank, and
  no smaller number of slots would do.
\<close>

theorem SizeBytesPerBank_enough:
  assumes "0 < page" and "0 < banks" and "0 < al" and "page + al \<le> 2 ^ 32" and "0 < pages"
    and "(1 + (pages - 1) div banks) * ceil_to page al < 2 ^ 64"
  shows "\<exists>k. SizeBytesPerBank (pages * page) page banks al = Inr (k * ceil_to page al) \<and>
    (\<forall>p < pages. p div banks < k) \<and> (\<forall>j. (\<forall>p < pages. p div banks < j) \<longrightarrow> k \<le> j)"
proof -
  let ?k = "1 + (pages - 1) div banks"
  have "SizeBytesPerBank (pages * page) page banks al = Inr (?k * ceil_to page al)"
    by (rule SizeBytesPerBank_value) (use assms in auto)
  moreover have "p div banks < ?k" if "p < pages" for p
  proof -
    have "p \<le> pages - 1" using that by simp
    then have "p div banks \<le> (pages - 1) div banks" by (rule div_le_mono)
    then show ?thesis by simp
  qed
  moreover have "?k \<le> j" if "\<forall>p < pages. p div banks < j" for j
  proof -
    have "pages - 1 < pages" using assms(5) by simp
    with that show ?thesis by fastforce
  qed
  ultimately show ?thesis by blast
qed

theorem SizeBytesPerBank_enough_witness:
  "\<exists>k. SizeBytesPerBank (10 * 100) 100 4 32 = Inr (k * 128) \<and> 9 div 4 < k"
  using SizeBytesPerBank_enough [of 100 4 32 10] by (auto simp: ceil_to_def dest: spec [of _ 9])

text \<open>
  \<open>BankManager::allocate_buffer\<close> either returns the address of a new region, of at
  least the size needed in each bank, that overlaps no region held before and does not lie
  below the interleaved limit; or it throws. Out of memory changes nothing; only the limit
  exception leaves a region behind.
\<close>

theorem bm_allocate_buffer_spec:
  assumes "bm_ok bm" and "bm_num_shards bm grid shards = Inr banks"
    and "SizeBytesPerBank size_b page banks (alignment_bytes bm) = Inr k"
    and "bm_address_limit bm (shards \<noteq> None) = Inr lim" and "bm_accepts bm k"
  shows "\<exists>r bm'. bm_allocate_buffer bm size_b page bu grid shards = Some (r, bm') \<and>
    (case r of
       Inr a \<Rightarrow> bm_ok bm' \<and> bm_held bm' = insert (a, bm_request bm k) (bm_held bm) \<and> k \<le> bm_request bm k \<and>
                lim \<le> a \<and> (\<forall>q \<in> bm_held bm. span (a, bm_request bm k) \<inter> span q = {})
     | Inl e \<Rightarrow> e = Tt_throw ''Out of Memory: Not enough space to allocate'' \<and> bm' = bm \<or>
                e = Tt_throw ''Out of Memory: below address limit'' \<and> bm_held bm \<subseteq> bm_held bm')"
proof -
  have "k \<le> bm_request bm k"
    using assms(1,5) request_size_pos(2)
    by (auto simp: bm_ok_def bm_accepts_def bm_request_def fl_ok_def)
  with assms show ?thesis
    by (cases rule: bm_allocate_cases [where bu = bu]) auto
qed

theorem bm_allocate_buffer_spec_witness:
  "\<exists>r bm'. bm_allocate_buffer (demo_bank 64) 64 32 True (crs_single (box 0 0 0 0)) None = Some (r, bm')"
proof -
  have "bm_ok (demo_bank 64)" by (rule demo_bank_facts [of 64])
  from bm_allocate_buffer_spec [OF this, of "crs_single (box 0 0 0 0)" None 1 64 32 64 64 True]
  show ?thesis using demo_bank_plan [of 64] by auto
qed

text \<open>The states a manager reaches by allocations that return or run out of memory, and releases.\<close>

inductive bm_reaches :: "bank_manager \<Rightarrow> bank_manager \<Rightarrow> bool" where
  start: "bm_reaches bm bm"
| alloc: "bm_reaches bm bm1 \<Longrightarrow> bm_accepts bm1 k \<Longrightarrow> bm_num_shards bm1 grid shards = Inr banks \<Longrightarrow>
    SizeBytesPerBank size_b page banks (alignment_bytes bm1) = Inr k \<Longrightarrow>
    bm_address_limit bm1 (shards \<noteq> None) = Inr lim \<Longrightarrow>
    bm_allocate_buffer bm1 size_b page bu grid shards = Some (r, bm2) \<Longrightarrow>
    r \<noteq> Inl (Tt_throw ''Out of Memory: below address limit'') \<Longrightarrow> bm_reaches bm bm2"
| dealloc: "bm_reaches bm bm1 \<Longrightarrow> a < 2 ^ 64 \<Longrightarrow> bm_deallocate_buffer bm1 a = Some (r, bm2) \<Longrightarrow>
    bm_reaches bm bm2"

lemma bm_reaches_ok: "bm_reaches bm bm' \<Longrightarrow> bm_ok bm \<Longrightarrow> bm_ok bm'"
proof (induction rule: bm_reaches.induct)
  case (alloc bm bm1 k grid shards banks size_b page lim bu r bm2)
  from alloc.IH [OF alloc.prems] alloc.hyps(3-5,2) show ?case
    by (cases rule: bm_allocate_cases [where bm = bm1 and bu = bu]) (use alloc.hyps(6,7) alloc.IH [OF alloc.prems] in auto)
next
  case (dealloc bm bm1 a r bm2)
  then show ?case using bm_deallocate_buffer_spec [of bm1 a] by auto
qed





end
