(* ===== verification/Device_Allocator_Props.thy ===== *)
theory Device_Allocator_Props
  imports Device_Allocator Bank_Manager_Props
begin

text \<open>
  The allocator of a device: what its operations do to its four managers, that the address
  ranges of the managers of one memory never meet, and how banks and cores are paired.
\<close>

section \<open>Managers without memory\<close>

text \<open>
  A trace region or a small L1 region of size zero is legal and is the default; its
  manager then holds one empty block and refuses every request.
\<close>

definition fl_idle :: "free_list \<Rightarrow> bool" where
  "fl_idle s \<longleftrightarrow> (\<exists>off al. free_list_new 0 off al al FIRST = Inr (Some s))"

definition fl_wf :: "free_list \<Rightarrow> bool" where
  "fl_wf s \<longleftrightarrow> fl_ok s \<or> fl_idle s"

lemma free_list_new_fields:
  assumes "free_list_new sz off al al FIRST = Inr (Some s)"
  shows "0 < al" "al dvd off" "offset_bytes s = off" "max_size_bytes s = sz" "shrink_size s = 0"
    "alignment s = al" "min_allocation_size s = al" "search_policy s = FIRST"
    "block_head s = Some 0" "free_block_head s = Some 0" "free_block_tail s = Some 0"
    "next_block s 0 = None" "next_free s 0 = None" "prev_free s 0 = None" "bsize s 0 = sz"
    "address s 0 = 0"
  using assms by (auto simp: free_list_new_def init_def unlink_loop.simps Let_def Block_def
      new_block_def dvd_eq_mod_eq_0 split: if_splits)

lemma fl_idle_ops:
  assumes "fl_idle s"
  shows "fl_held s = {}" and "deallocate s x = Some s"
    and "representable s n \<Longrightarrow> allocate s n bu lim = Some (Inr None, s)"
proof -
  from assms obtain off al where f: "free_list_new 0 off al al FIRST = Inr (Some s)"
    by (auto simp: fl_idle_def)
  note f = free_list_new_fields [OF f]
  have na: "\<not> is_allocated s 0" using f by (simp add: is_allocated_def)
  then show "fl_held s = {}"
    using f by (simp add: fl_held_def dump_blocks_def dump_blocks_loop.simps dump_block_def)
  show "deallocate s x = Some s"
    using f na by (auto simp: deallocate_def Let_def find_block_def find_block_loop.simps split: option.splits)
  assume r: "representable s n"
  have "0 < request_size s n"
    using request_size_bounds(2) [of s n, OF _ _ refl] r f by (simp add: representable_def)
  with f show "allocate s n bu lim = Some (Inr None, s)"
    by (simp add: allocate_def Let_def search_def search_first_def search_first_loop.simps)
qed

section \<open>The window of a manager\<close>

definition bm_wf :: "bank_manager \<Rightarrow> bool" where
  "bm_wf bm \<longleftrightarrow> (\<exists>s. bm_allocator bm = Some s \<and> fl_wf s)"

text \<open>The addresses a manager may hand out.\<close>

definition bm_window :: "bank_manager \<Rightarrow> addr set" where
  "bm_window bm = (case bm_allocator bm of
     None \<Rightarrow> {}
   | Some s \<Rightarrow> {offset_bytes s ..< offset_bytes s + shrink_size s + max_size_bytes s})"

lemma init_allocator_window:
  assumes "init_allocator bm sz al off = Some (Inr bm')" and "sz + off < 2 ^ 64"
  shows "bm_wf bm'" "bm_held bm' = {}" "bm_window bm' = {off ..< off + sz}"
    "allocated_addrs bm = [] \<Longrightarrow> sz \<noteq> 0 \<Longrightarrow> bm_ok bm'"
proof -
  from assms(1) obtain s where s: "free_list_new sz off al al FIRST = Inr (Some s)"
    and bm': "bm' = bm\<lparr>bm_allocator := Some s\<rparr>"
    by (auto simp: init_allocator_def split: sum.splits option.splits)
  note f = free_list_new_fields [OF s]
  have ok: "fl_ok s \<and> fl_held s = {}" if "sz \<noteq> 0"
  proof -
    from free_list_new_inv [of al off al sz FIRST] f s that assms(2) have "fl_inv s [(0, sz, True)]" by auto
    then show ?thesis using fl_held_used by (auto simp: fl_ok_def)
  qed
  moreover have id: "fl_idle s" if "sz = 0" using s that by (auto simp: fl_idle_def)
  ultimately show "bm_wf bm'" using bm' by (auto simp: bm_wf_def fl_wf_def)
  show h: "bm_held bm' = {}" using ok id fl_idle_ops(1) bm' by (cases "sz = 0") (auto simp: bm_held_def)
  show "bm_window bm' = {off ..< off + sz}" using f bm' by (simp add: bm_window_def)
  show "bm_ok bm'" if "allocated_addrs bm = []" "sz \<noteq> 0"
    using ok that h bm' by (auto simp: bm_ok_def)
qed

lemma fl_wf_bounds:
  assumes "fl_wf s" and "(x, n) \<in> fl_held s"
  shows "0 < n" "offset_bytes s \<le> x" "x + n \<le> offset_bytes s + shrink_size s + max_size_bytes s"
  using assms fl_held_bounds [of s x n] by (auto simp: fl_wf_def fl_idle_ops)

lemma bm_held_window:
  assumes "bm_wf bm" and "r \<in> bm_held bm"
  shows "span r \<subseteq> bm_window bm"
proof -
  from assms(1) obtain s where s: "bm_allocator bm = Some s" "fl_wf s" by (auto simp: bm_wf_def)
  with assms(2) have "(fst r, snd r) \<in> fl_held s" by (simp add: bm_held_def)
  from fl_wf_bounds(2,3) [OF s(2) this] s(1) show ?thesis by (auto simp: bm_window_def span_def)
qed

lemma bm_held_disjoint:
  assumes "bm_wf bm" and "r \<in> bm_held bm" and "q \<in> bm_held bm" and "r \<noteq> q"
  shows "span r \<inter> span q = {}"
proof -
  from assms(1) obtain s where s: "bm_allocator bm = Some s" "fl_wf s" by (auto simp: bm_wf_def)
  with assms(2,3) have h: "r \<in> fl_held s" "q \<in> fl_held s" by (simp_all add: bm_held_def)
  with s(2) have "fl_ok s" by (auto simp: fl_wf_def fl_idle_ops)
  from fl_held_disjoint [OF this h assms(4)] show ?thesis .
qed

text \<open>Whether the size computed for a request can be aligned without wrap-around.\<close>

definition bm_admits :: "bank_manager \<Rightarrow> u64 \<Rightarrow> u64 \<Rightarrow> core_range_set \<Rightarrow> u32 option \<Rightarrow> bool" where
  "bm_admits bm size_b page grid shards \<longleftrightarrow>
     (\<forall>banks k. bm_num_shards bm grid shards = Inr banks \<longrightarrow>
        SizeBytesPerBank size_b page banks (alignment_bytes bm) = Inr k \<longrightarrow> bm_accepts bm k)"

lemma fl_wf_allocate:
  assumes "fl_wf s" and "representable s n"
  obtains r s' where "allocate s n bu lim = Some (r, s')" "fl_wf s'" "same_config s s'"
  using assms allocate_held [of s n bu lim] fl_idle_ops(3) [of s n bu lim]
  by (metis fl_wf_def same_config_def)

lemma bm_wf_allocate:
  assumes "bm_wf bm" and "bm_admits bm size_b page grid shards"
  shows "\<exists>r bm'. bm_allocate_buffer bm size_b page bu grid shards = Some (r, bm') \<and>
    bm_wf bm' \<and> bm_window bm' = bm_window bm"
proof (cases "\<exists>banks k lim. bm_num_shards bm grid shards = Inr banks \<and>
    SizeBytesPerBank size_b page banks (alignment_bytes bm) = Inr k \<and>
    bm_address_limit bm (shards \<noteq> None) = Inr lim")
  case True
  then obtain banks k lim where plan: "bm_num_shards bm grid shards = Inr banks"
    "SizeBytesPerBank size_b page banks (alignment_bytes bm) = Inr k"
    "bm_address_limit bm (shards \<noteq> None) = Inr lim" by blast
  from assms(1) obtain s where s: "bm_allocator bm = Some s" "fl_wf s" by (auto simp: bm_wf_def)
  with assms(2) plan have "representable s k" by (auto simp: bm_admits_def bm_accepts_def)
  with s(2) obtain r s' where "allocate s k bu lim = Some (r, s')" "fl_wf s'" "same_config s s'"
    by (rule fl_wf_allocate)
  then show ?thesis unfolding bm_allocate_buffer_def plan bind_result.simps using s
    by (auto simp: bm_wf_def bm_window_def same_config_def split: sum.splits option.splits)
next
  case False
  then obtain e where "bm_allocate_buffer bm size_b page bu grid shards = Some (Inl e, bm)"
    by (cases "bm_num_shards bm grid shards";
        cases "SizeBytesPerBank size_b page (projr (bm_num_shards bm grid shards)) (alignment_bytes bm)";
        cases "bm_address_limit bm (shards \<noteq> None)") (auto simp: bm_allocate_buffer_def)
  then show ?thesis using assms(1) by simp
qed

lemma fl_wf_deallocate:
  assumes "fl_wf s" and "x < 2 ^ 64"
  obtains s' where "deallocate s x = Some s'" "fl_wf s'" "same_config s s'"
  using assms deallocate_held [of s x] fl_idle_ops(2) [of s x] by (metis fl_wf_def same_config_def)

lemma bm_wf_deallocate:
  assumes "bm_wf bm" and "x < 2 ^ 64"
  shows "\<exists>bm'. bm_deallocate_buffer bm x = Some (Inr (), bm') \<and> bm_wf bm' \<and> bm_window bm' = bm_window bm"
proof -
  from assms(1) obtain s where s: "bm_allocator bm = Some s" "fl_wf s" by (auto simp: bm_wf_def)
  from s(2) assms(2) obtain s' where "deallocate s x = Some s'" "fl_wf s'" "same_config s s'"
    by (rule fl_wf_deallocate)
  with s show ?thesis by (auto simp: bm_deallocate_buffer_def bm_wf_def bm_window_def same_config_def)
qed

section \<open>Steps of the allocator\<close>

text \<open>The buffer types that have a manager.\<close>

definition managed :: "buffer_type list" where
  "managed = [DRAM, L1, L1_SMALL, TRACE]"

definition man :: "allocator \<Rightarrow> buffer_type \<Rightarrow> bank_manager" where
  "man a t = projr (manager_of a t)"

lemma man_simps [simp]:
  "man a DRAM = dram_manager a" "man a L1 = l1_manager a"
  "man a L1_SMALL = l1_small_manager a" "man a TRACE = trace_buffer_manager a"
  by (simp_all add: man_def manager_of_def)

lemma manager_of_managed:
  "manager_of a t = (if t = SYSTEM_MEMORY then Inl (Tt_throw ''Unsupported buffer type!'') else Inr (man a t))"
  by (cases t) (simp_all add: manager_of_def)

lemma man_set_manager [simp]:
  "t \<noteq> SYSTEM_MEMORY \<Longrightarrow> u \<noteq> SYSTEM_MEMORY \<Longrightarrow>
     man (set_manager t bm a) u = (if u = t then bm else man a u)"
  by (cases t; cases u) (simp_all add: set_manager_def)

lemma man_allocated_buffers [simp]: "man (a\<lparr>allocated_buffers := bs\<rparr>) t = man a t"
  by (cases t) (simp_all add: man_def manager_of_def)

lemma set_manager_fields [simp]:
  "allocated_buffers (set_manager t bm a) = allocated_buffers a"
  "alloc_config (set_manager t bm a) = alloc_config a"
  by (cases t; simp add: set_manager_def)+

definition alloc_wf :: "allocator \<Rightarrow> bool" where
  "alloc_wf a \<longleftrightarrow> (\<forall>t \<in> set managed. bm_wf (man a t))"

definition buffer_admitted :: "allocator \<Rightarrow> buffer_view \<Rightarrow> bool" where
  "buffer_admitted a b \<longleftrightarrow>
     (buf_type b \<noteq> SYSTEM_MEMORY \<longrightarrow>
        bm_admits (man a (buf_type b)) (buf_aligned_size b) (buf_aligned_page_size b)
          (compute_grid (alloc_config a)) (buf_num_cores b))"

inductive alloc_reaches :: "allocator \<Rightarrow> allocator \<Rightarrow> bool" where
  created: "alloc_reaches a a"
| allocates: "alloc_reaches a a1 \<Longrightarrow> buffer_admitted a1 b \<Longrightarrow> allocate_buffer a1 b = Some (r, a2) \<Longrightarrow>
    alloc_reaches a a2"
| deallocates: "alloc_reaches a a1 \<Longrightarrow> buf_address b < 2 ^ 64 \<Longrightarrow>
    deallocate_buffer a1 b = Some (r', a2) \<Longrightarrow> alloc_reaches a a2"

lemma managed_iff: "t \<in> set managed \<longleftrightarrow> t \<noteq> SYSTEM_MEMORY"
  by (cases t) (simp_all add: managed_def)

text \<open>An operation changes at most the manager of the buffer's type.\<close>

definition same_windows :: "allocator \<Rightarrow> allocator \<Rightarrow> bool" where
  "same_windows a a' \<longleftrightarrow> (\<forall>t \<in> set managed. bm_window (man a' t) = bm_window (man a t))"

lemma alloc_wf_set:
  assumes "alloc_wf a" and "t \<noteq> SYSTEM_MEMORY" and "bm_wf bm" and "bm_window bm = bm_window (man a t)"
  shows "alloc_wf (set_manager t bm a)" "same_windows a (set_manager t bm a)"
  using assms by (simp_all add: alloc_wf_def same_windows_def managed_iff)

lemma alloc_wf_buffers [simp]:
  "alloc_wf (a\<lparr>allocated_buffers := bs\<rparr>) = alloc_wf a"
  "same_windows a0 (a\<lparr>allocated_buffers := bs\<rparr>) = same_windows a0 a"
  by (simp_all add: alloc_wf_def same_windows_def)

lemma allocate_buffer_wf:
  assumes wf: "alloc_wf a" and ad: "buffer_admitted a b"
  shows "\<exists>r a'. allocate_buffer a b = Some (r, a') \<and> alloc_wf a' \<and> same_windows a a'"
proof (cases "(cfg_disable_interleaved (alloc_config a) \<and> buf_num_cores b = None) \<or>
    buf_type b = SYSTEM_MEMORY \<or> (buf_type b = L1_SMALL \<and> buf_num_cores b = None)")
  case True
  then have "\<exists>e. allocate_buffer a b = Some (Inl e, a)"
    by (auto simp: allocate_buffer_def manager_of_managed)
  with wf show ?thesis by (auto simp: same_windows_def)
next
  case False
  let ?t = "buf_type b"
  from False wf have "bm_wf (man a ?t)" by (simp add: alloc_wf_def managed_iff)
  with ad False bm_wf_allocate [of "man a ?t" "buf_aligned_size b" "buf_aligned_page_size b"
      "compute_grid (alloc_config a)" "buf_num_cores b" "buf_bottom_up b"]
  obtain r bm' where bm': "bm_allocate_buffer (man a ?t) (buf_aligned_size b) (buf_aligned_page_size b)
      (buf_bottom_up b) (compute_grid (alloc_config a)) (buf_num_cores b) = Some (r, bm')"
    "bm_wf bm'" "bm_window bm' = bm_window (man a ?t)" by (auto simp: buffer_admitted_def)
  from False have t: "?t \<noteq> SYSTEM_MEMORY" by simp
  note set = alloc_wf_set [OF wf t bm'(2,3)]
  from False bm'(1) have "\<exists>bs. allocate_buffer a b = Some (r, (set_manager ?t bm' a)\<lparr>allocated_buffers := bs\<rparr>)"
    by (cases r) (auto simp: allocate_buffer_def manager_of_managed base_alloc_def Let_def
        intro: exI [of _ "allocated_buffers a"])
  with set show ?thesis by auto
qed

lemma deallocate_buffer_wf:
  assumes wf: "alloc_wf a" and x: "buf_address b < 2 ^ 64"
  shows "\<exists>r a'. deallocate_buffer a b = Some (r, a') \<and> alloc_wf a' \<and> same_windows a a'"
proof (cases "buf_type b = SYSTEM_MEMORY")
  case True
  then show ?thesis using wf by (simp add: deallocate_buffer_def manager_of_managed same_windows_def)
next
  case False
  with wf have "bm_wf (man a (buf_type b))" by (simp add: alloc_wf_def managed_iff)
  from bm_wf_deallocate [OF this x] obtain bm' where
    bm': "bm_deallocate_buffer (man a (buf_type b)) (buf_address b) = Some (Inr (), bm')" "bm_wf bm'"
      "bm_window bm' = bm_window (man a (buf_type b))" by blast
  from alloc_wf_set [OF wf False bm'(2,3)] bm'(1) False show ?thesis
    by (simp add: deallocate_buffer_def manager_of_managed Let_def)
qed

lemma alloc_reaches_wf:
  "alloc_reaches a a' \<Longrightarrow> alloc_wf a \<Longrightarrow> alloc_wf a' \<and> same_windows a a'"
proof (induction rule: alloc_reaches.induct)
  case (created a)
  then show ?case by (simp add: same_windows_def)
next
  case (allocates a a1 b r a2)
  then show ?case using allocate_buffer_wf [of a1 b] by (auto simp: same_windows_def)
next
  case (deallocates a a1 b r' a2)
  then show ?case using deallocate_buffer_wf [of a1 b] by (auto simp: same_windows_def)
qed

section \<open>Initialisation\<close>

lemma bind_run_Inr: "bind_run m f = Some (Inr v) \<longleftrightarrow> (\<exists>u. m = Some (Inr u) \<and> f u = Some (Inr v))"
  by (cases "(m, f)" rule: bind_run.cases) auto

lemmas result_iff = bind_run_Inr bind_result_Inr

lemma bank_manager_new_init:
  assumes "bank_manager_new t offs sz al off dis = Some (Inr bm)"
  obtains bm0 where "init_allocator bm0 sz al off = Some (Inr bm)" "allocated_addrs bm0 = []"
    "interleaved_address_limit bm0 = 0" "bm_buffer_type bm0 = t"
proof
  let ?bm = "(bank_manager_default t)\<lparr>alignment_bytes := al, bank_id_to_bank_offset := insert_offsets 0 offs []\<rparr>"
  show "init_allocator ?bm sz al off = Some (Inr bm)"
    using assms by (auto simp: bank_manager_new_def Let_def split: sum.splits)
qed (simp_all add: bank_manager_default_def)

lemma bank_manager_new_map_init:
  assumes "bank_manager_new_map t offs sz lim al off dis = Some (Inr bm)"
  obtains bm0 where "init_allocator bm0 sz al off = Some (Inr bm)" "allocated_addrs bm0 = []"
proof
  let ?bm = "(bank_manager_default t)\<lparr>alignment_bytes := al, bank_id_to_bank_offset := offs,
                 interleaved_address_limit := lim\<rparr>"
  show "init_allocator ?bm sz al off = Some (Inr bm)"
    using assms by (auto simp: bank_manager_new_map_def Let_def split: sum.splits)
qed (simp add: bank_manager_default_def)

lemma bank_manager_new_map_offsets:
  "bank_manager_new_map t offs sz lim al off dis = Some (Inr bm) \<Longrightarrow> bank_id_to_bank_offset bm = offs"
  by (auto simp: bank_manager_new_map_def init_allocator_def Let_def split: sum.splits option.splits)

text \<open>The part of the allocator the assignment of L1 banks does not touch.\<close>

definition same_dram :: "allocator \<Rightarrow> allocator \<Rightarrow> bool" where
  "same_dram a a' \<longleftrightarrow> dram_manager a' = dram_manager a \<and> trace_buffer_manager a' = trace_buffer_manager a \<and>
     bank_id_to_dram_channel a' = bank_id_to_dram_channel a \<and>
     dram_channel_to_bank_ids a' = dram_channel_to_bank_ids a \<and>
     logical_core_to_bank_ids a' DRAM = logical_core_to_bank_ids a DRAM \<and>
     logical_core_to_bank_ids a' TRACE = logical_core_to_bank_ids a TRACE"

lemma same_dram_refl [simp]: "same_dram a a"
  by (simp add: same_dram_def)

lemma same_dram_trans: "same_dram a b \<Longrightarrow> same_dram b c \<Longrightarrow> same_dram a c"
  by (simp add: same_dram_def)

lemma same_dram_add [simp]:
  "same_dram a0 (a\<lparr>bank_id_to_logical_core := m\<rparr>) = same_dram a0 a"
  "same_dram a0 (fst (add_bank r c off (a, bank_id, offs))) = same_dram a0 a"
  "t = L1 \<or> t = L1_SMALL \<Longrightarrow> same_dram a0 (insert_core_banks t c ids a) = same_dram a0 a"
  "same_dram (a\<lparr>bank_id_to_logical_core := m\<rparr>) a0 = same_dram a a0"
  "same_dram (fst (add_bank r c off (a, bank_id, offs))) a0 = same_dram a a0"
  "t = L1 \<or> t = L1_SMALL \<Longrightarrow> same_dram (insert_core_banks t c ids a) a0 = same_dram a a0"
  by (auto simp: same_dram_def add_bank_def insert_core_banks_def)

lemma same_dram_l1 [simp]:
  "same_dram a0 (a\<lparr>l1_manager := bm, l1_small_manager := bm'\<rparr>) = same_dram a0 a"
  "same_dram a0 (a\<lparr>l1_manager := bm\<rparr>) = same_dram a0 a"
  by (simp_all add: same_dram_def)

lemma add_storage_banks_dram:
  "add_storage_banks cfg nb ids c is acc st = Inr (acc', st') \<Longrightarrow> same_dram (fst st) (fst st')"
proof (induction cfg nb ids c "is" acc st rule: add_storage_banks.induct)
  case (2 cfg nb ids c i "is" acc a bank_id offs)
  then show ?case by (auto simp: bind_result_Inr split: if_splits)
qed simp

lemma add_cores_dram: "add_cores cfg nb ids cs st = Inr st' \<Longrightarrow> same_dram (fst st) (fst st')"
proof (induction cs arbitrary: st)
  case (Cons c cs)
  then obtain st1 where st1: "add_core cfg nb ids c st = Inr st1" "same_dram (fst st1) (fst st')"
    by (auto simp: bind_result_Inr)
  have "same_dram (fst st) (fst st1)"
    using st1(1) by (cases st) (auto simp: bind_result_Inr dest!: add_storage_banks_dram split: if_splits)
  with st1(2) show ?case by (blast intro: same_dram_trans)
qed simp

lemma add_small_cores_dram: "add_small_cores cfg cs st = Inr st' \<Longrightarrow> same_dram (fst st) (fst st')"
proof (induction cs arbitrary: st)
  case (Cons c cs)
  obtain a bank_id offs where st: "st = (a, bank_id, offs)" by (cases st)
  from Cons.prems show ?case
    unfolding st by (auto simp: bind_result_Inr dest!: Cons.IH split: if_splits)
qed simp

lemma assign_l1_banks_dram:
  "assign_l1_banks shuffle a cfg = Inr (a', offs, small) \<Longrightarrow> same_dram a a'"
  by (fastforce simp: assign_l1_banks_def Let_def bind_result_Inr
      dest!: add_cores_dram add_small_cores_dram intro: same_dram_trans split: if_splits)

end
