(* ===== verification/Device_Allocator_Banks.thy ===== *)
theory Device_Allocator_Banks
  imports Device_Allocator_Props Core_Coord_Theorems
begin

text \<open>
  What the initialisation of the allocator establishes: the windows of the four managers,
  and the tables that pair bank ids with logical cores.
\<close>

section \<open>Windows\<close>

lemma add_dram_banks_managers:
  "dram_manager (fold (add_dram_bank t) bs a) = dram_manager a"
  "l1_manager (fold (add_dram_bank t) bs a) = l1_manager a"
  "l1_small_manager (fold (add_dram_bank t) bs a) = l1_small_manager a"
  "trace_buffer_manager (fold (add_dram_bank t) bs a) = trace_buffer_manager a"
  "bank_id_to_logical_core (fold (add_dram_bank t) bs a) = bank_id_to_logical_core a"
  "u \<noteq> t \<Longrightarrow> logical_core_to_bank_ids (fold (add_dram_bank t) bs a) u = logical_core_to_bank_ids a u"
  by (induction bs arbitrary: a) (simp_all add: add_dram_bank_def insert_core_banks_def Let_def)

text \<open>The reserved space fits into the banks, and sums of sizes do not wrap around.\<close>

definition cfg_fits :: "allocator_config \<Rightarrow> bool" where
  "cfg_fits cfg \<longleftrightarrow> dram_unreserved_base cfg + trace_region_size cfg \<le> dram_bank_size cfg \<and>
     dram_bank_size cfg < 2 ^ 64 \<and> worker_l1_size cfg < 2 ^ 64 \<and>
     l1_unreserved_base cfg + l1_small_size cfg < 2 ^ 64"

lemma bank_split:
  assumes "base + upper \<le> n" and "n < 2 ^ 64"
  shows "sub64 (sub64 n base) upper = n - base - upper" "add64 (sub64 (sub64 n base) upper) base = n - upper"
    "add64 base (sub64 (sub64 n base) upper) = n - upper"
proof -
  have "sub64 n base = n - base" by (rule sub64_small) (use assms in auto)
  then show s: "sub64 (sub64 n base) upper = n - base - upper" by (simp only:) (rule sub64_small, use assms in auto)
  have "n - base - upper + base = n - upper" using assms by simp
  then show "add64 (sub64 (sub64 n base) upper) base = n - upper" "add64 base (sub64 (sub64 n base) upper) = n - upper"
    unfolding s using assms by (simp_all add: add64_def add.commute)
qed

lemma init_dram_windows:
  assumes "init_one_bank_per_channel a cfg = Some (Inr a')" and "cfg_fits cfg"
  shows "bm_wf (dram_manager a')" "bm_wf (trace_buffer_manager a')"
    "bm_window (dram_manager a') = {dram_unreserved_base cfg ..< dram_bank_size cfg - trace_region_size cfg}"
    "bm_window (trace_buffer_manager a') = {dram_bank_size cfg - trace_region_size cfg ..< dram_bank_size cfg}"
    "l1_manager a' = l1_manager a" "bank_id_to_logical_core a' = bank_id_to_logical_core a"
    "logical_core_to_bank_ids a' L1 = logical_core_to_bank_ids a L1"
    "logical_core_to_bank_ids a' L1_SMALL = logical_core_to_bank_ids a L1_SMALL"
proof -
  let ?size = "sub64 (sub64 (dram_bank_size cfg) (dram_unreserved_base cfg)) (trace_region_size cfg)"
  have size: "?size = dram_bank_size cfg - dram_unreserved_base cfg - trace_region_size cfg"
    "add64 ?size (dram_unreserved_base cfg) = dram_bank_size cfg - trace_region_size cfg"
    by (rule bank_split; use assms(2) in \<open>simp add: cfg_fits_def\<close>)+
  from assms(1) obtain offs d t where
    d: "bank_manager_new DRAM offs ?size (cfg_alignment cfg) (dram_unreserved_base cfg)
          (cfg_disable_interleaved cfg) = Some (Inr d)"
    and t: "bank_manager_new TRACE offs (trace_region_size cfg) (cfg_alignment cfg)
          (add64 ?size (dram_unreserved_base cfg)) (cfg_disable_interleaved cfg) = Some (Inr t)"
    and a': "a' = fold (add_dram_bank TRACE) [0 ..< num_dram_channels cfg]
      ((fold (add_dram_bank DRAM) [0 ..< num_dram_channels cfg] (a\<lparr>dram_manager := d\<rparr>))\<lparr>trace_buffer_manager := t\<rparr>)"
    unfolding init_one_bank_per_channel_def Let_def bind_run_Inr by blast
  then show "l1_manager a' = l1_manager a" "bank_id_to_logical_core a' = bank_id_to_logical_core a"
    "logical_core_to_bank_ids a' L1 = logical_core_to_bank_ids a L1"
    "logical_core_to_bank_ids a' L1_SMALL = logical_core_to_bank_ids a L1_SMALL"
    by (simp_all add: add_dram_banks_managers)
  have m: "dram_manager a' = d" "trace_buffer_manager a' = t"
    using a' by (simp_all add: add_dram_banks_managers)
  from d obtain d0 where d0: "init_allocator d0 ?size (cfg_alignment cfg) (dram_unreserved_base cfg) = Some (Inr d)"
    by (rule bank_manager_new_init)
  from t obtain t0 where t0: "init_allocator t0 (trace_region_size cfg) (cfg_alignment cfg)
      (add64 ?size (dram_unreserved_base cfg)) = Some (Inr t)" by (rule bank_manager_new_init)
  have fits: "?size + dram_unreserved_base cfg < 2 ^ 64"
    "trace_region_size cfg + add64 ?size (dram_unreserved_base cfg) < 2 ^ 64"
    unfolding size(2) using assms(2) by (auto simp: size(1) cfg_fits_def)
  note D = init_allocator_window [OF d0 fits(1)] and T = init_allocator_window [OF t0 fits(2)]
  show "bm_wf (dram_manager a')" "bm_wf (trace_buffer_manager a')" using D(1) T(1) m by auto
  show "bm_window (dram_manager a') = {dram_unreserved_base cfg ..< dram_bank_size cfg - trace_region_size cfg}"
    "bm_window (trace_buffer_manager a') = {dram_bank_size cfg - trace_region_size cfg ..< dram_bank_size cfg}"
    unfolding m D(3) T(3) size(2) using assms(2) by (auto simp: size(1) cfg_fits_def)
qed

lemma init_l1_windows:
  assumes "init_compute_and_storage_l1_bank_manager shuffle mb a cfg = Some (Inr a')" and "cfg_fits cfg"
  shows "l1_unreserved_base cfg + l1_small_size cfg \<le> worker_l1_size cfg"
    "bm_wf (l1_manager a')" "bm_wf (l1_small_manager a')" "same_dram a a'"
    "bm_window (l1_manager a') = {l1_unreserved_base cfg ..< worker_l1_size cfg - l1_small_size cfg}"
    "bm_window (l1_small_manager a') = {worker_l1_size cfg - l1_small_size cfg ..< worker_l1_size cfg}"
proof -
  let ?base = "l1_unreserved_base cfg" and ?al = "cfg_alignment cfg"
  let ?room = "sub64 (sub64 (worker_l1_size cfg) ?base) (l1_small_size cfg)"
  from assms(1) obtain a1 offs small lim l1 lim' sm where
    as: "assign_l1_banks shuffle a cfg = Inr (a1, offs, small)"
    and l1: "bank_manager_new_map L1 offs ?room lim ?al ?base (cfg_disable_interleaved cfg) = Some (Inr l1)"
    and le: "add64 ?base (l1_small_size cfg) \<le> worker_l1_size cfg"
    and sm: "bank_manager_new_map L1_SMALL small (l1_small_size cfg) lim' ?al (add64 ?base ?room)
               (cfg_disable_interleaved cfg) = Some (Inr sm)"
    and a': "a' = a1\<lparr>l1_manager := l1, l1_small_manager := sm\<rparr>"
    unfolding init_compute_and_storage_l1_bank_manager_def Let_def
    by (auto simp: bind_run_Inr split: if_splits)
  show le: "?base + l1_small_size cfg \<le> worker_l1_size cfg"
    using le assms(2) by (simp add: cfg_fits_def no_wrap)
  have room: "?room = worker_l1_size cfg - ?base - l1_small_size cfg"
    "add64 ?base ?room = worker_l1_size cfg - l1_small_size cfg"
    by (rule bank_split; use assms(2) le in \<open>simp add: cfg_fits_def\<close>)+
  have fits: "?room + ?base < 2 ^ 64" "l1_small_size cfg + add64 ?base ?room < 2 ^ 64"
    unfolding room(2) using assms(2) le by (auto simp: room(1) cfg_fits_def)
  from l1 obtain b0 where "init_allocator b0 ?room ?al ?base = Some (Inr l1)"
    by (rule bank_manager_new_map_init)
  note L = init_allocator_window [OF this fits(1)]
  from sm obtain b1 where "init_allocator b1 (l1_small_size cfg) ?al (add64 ?base ?room) = Some (Inr sm)"
    by (rule bank_manager_new_map_init)
  note S = init_allocator_window [OF this fits(2)]
  show "bm_wf (l1_manager a')" "bm_wf (l1_small_manager a')" using L(1) S(1) a' by auto
  show "same_dram a a'" using a' assign_l1_banks_dram [OF as] by simp
  have m: "l1_manager a' = l1" "l1_small_manager a' = sm" using a' by simp_all
  show "bm_window (l1_manager a') = {?base ..< worker_l1_size cfg - l1_small_size cfg}"
    "bm_window (l1_small_manager a') = {worker_l1_size cfg - l1_small_size cfg ..< worker_l1_size cfg}"
    unfolding m L(3) S(3) room(2) using le by (auto simp: room(1))
qed

lemma allocator_new_windows:
  assumes "allocator_new L1_BANKING shuffle mb cfg = Some (Inr a)" and "cfg_fits cfg"
  shows "alloc_wf a" "bm_window (man a DRAM) \<inter> bm_window (man a TRACE) = {}"
    "bm_window (man a L1) \<inter> bm_window (man a L1_SMALL) = {}"
    "bm_window (man a DRAM) \<union> bm_window (man a TRACE) = {dram_unreserved_base cfg ..< dram_bank_size cfg}"
    "bm_window (man a L1) \<union> bm_window (man a L1_SMALL) = {l1_unreserved_base cfg ..< worker_l1_size cfg}"
proof -
  from assms(1) obtain a0 a1 where
    d: "init_one_bank_per_channel a0 cfg = Some (Inr a1)" and
    l: "init_compute_and_storage_l1_bank_manager shuffle mb a1 cfg = Some (Inr a)"
    unfolding allocator_new_def Let_def by (auto simp: bind_run_Inr split: if_splits)
  note D = init_dram_windows [OF d assms(2)] and L = init_l1_windows [OF l assms(2)]
  have m: "dram_manager a = dram_manager a1" "trace_buffer_manager a = trace_buffer_manager a1"
    using L(4) by (simp_all add: same_dram_def)
  show "alloc_wf a" using D L m by (simp add: alloc_wf_def managed_def)
  show "bm_window (man a DRAM) \<inter> bm_window (man a TRACE) = {}"
    "bm_window (man a L1) \<inter> bm_window (man a L1_SMALL) = {}" using D L m by auto
  show "bm_window (man a DRAM) \<union> bm_window (man a TRACE) = {dram_unreserved_base cfg ..< dram_bank_size cfg}"
    "bm_window (man a L1) \<union> bm_window (man a L1_SMALL) = {l1_unreserved_base cfg ..< worker_l1_size cfg}"
    using D(3,4) L(1,5,6) m assms(2) by (auto simp: cfg_fits_def)
qed

section \<open>Banks and cores\<close>

text \<open>The table of bank ids of a buffer type.\<close>

definition bank_table :: "allocator \<Rightarrow> buffer_type \<Rightarrow> (core_coord \<times> u32 list) list" where
  "bank_table a t = (case logical_core_to_bank_ids a t of None \<Rightarrow> [] | Some m \<Rightarrow> m)"

text \<open>
  Up to now the banks \<open>S\<close> and the cores \<open>C\<close> have been entered, and for the banks the
  two tables are inverse to each other.
\<close>

definition paired :: "buffer_type \<Rightarrow> u32 set \<Rightarrow> core_coord set \<Rightarrow> allocator \<Rightarrow> bool" where
  "paired t S C a \<longleftrightarrow> fst ` set (bank_table a t) \<subseteq> C \<and>
     (\<forall>c bs. map_of (bank_table a t) c = Some bs \<longrightarrow> set bs \<subseteq> S) \<and>
     S \<subseteq> fst ` set (bank_id_to_logical_core a) \<and>
     (\<forall>b \<in> S. \<forall>c. map_of (bank_id_to_logical_core a) b = Some c \<longleftrightarrow>
        (\<exists>bs. map_of (bank_table a t) c = Some bs \<and> b \<in> set bs))"

lemma paired_lookup:
  assumes "paired t S C a" and "map_of (bank_table a t) c = Some bs" and "b \<in> set bs"
  shows "b \<in> S" "map_of (bank_id_to_logical_core a) b = Some c"
proof -
  show S: "b \<in> S" using assms unfolding paired_def by blast
  show "map_of (bank_id_to_logical_core a) b = Some c" using assms S unfolding paired_def by blast
qed

lemma map_insert_new: "k \<notin> fst ` set m \<Longrightarrow> map_of (map_insert k v m) = (map_of m)(k \<mapsto> v)"
  by (auto simp: map_insert_def map_add_def fun_eq_iff map_of_eq_None_iff [symmetric] split: option.splits)

lemma fst_map_insert [simp]: "fst ` set (map_insert k v m) = insert k (fst ` set m)"
  by (auto simp: map_insert_def)

lemma bank_table_insert [simp]:
  "bank_table (insert_core_banks t c ids a) u =
     (if u = t then map_insert c ids (bank_table a u) else bank_table a u)"
  "bank_id_to_logical_core (insert_core_banks t c ids a) = bank_id_to_logical_core a"
  "bank_table (a\<lparr>bank_id_to_logical_core := m\<rparr>) u = bank_table a u"
  by (simp_all add: bank_table_def insert_core_banks_def)

text \<open>Entering the banks \<open>bs\<close> of one core.\<close>

definition enter_banks :: "core_coord \<Rightarrow> u32 list \<Rightarrow> allocator \<Rightarrow> allocator" where
  "enter_banks c bs a = a\<lparr>bank_id_to_logical_core :=
     fold (\<lambda>b. map_insert b c) bs (bank_id_to_logical_core a)\<rparr>"

lemma fold_map_insert:
  assumes "set bs \<inter> fst ` set m = {}" and "distinct bs"
  shows "map_of (fold (\<lambda>b. map_insert b c) bs m) = (\<lambda>b. if b \<in> set bs then Some c else map_of m b)"
    and "fst ` set (fold (\<lambda>b. map_insert b c) bs m) = set bs \<union> fst ` set m"
proof -
  have "map_of (fold (\<lambda>b. map_insert b c) bs m) = (\<lambda>b. if b \<in> set bs then Some c else map_of m b) \<and>
    fst ` set (fold (\<lambda>b. map_insert b c) bs m) = set bs \<union> fst ` set m"
    using assms by (induction bs arbitrary: m) (auto simp: map_insert_new fun_eq_iff)
  then show "map_of (fold (\<lambda>b. map_insert b c) bs m) = (\<lambda>b. if b \<in> set bs then Some c else map_of m b)"
    "fst ` set (fold (\<lambda>b. map_insert b c) bs m) = set bs \<union> fst ` set m" by simp_all
qed

lemma paired_enter:
  assumes p: "paired t S C a" and c: "c \<notin> C" and bs: "distinct bs" "set bs \<inter> S = {}"
    and new: "set bs \<inter> fst ` set (bank_id_to_logical_core a) = {}"
  shows "paired t (S \<union> set bs) (insert c C) (insert_core_banks t c bs (enter_banks c bs a))"
proof -
  note e = fold_map_insert [OF new bs(1), of c]
  from p c have ct: "c \<notin> fst ` set (bank_table a t)" by (auto simp: paired_def)
  then have cn: "map_of (bank_table a t) c = None" by (simp add: map_of_eq_None_iff)
  have tab: "bank_table (enter_banks c bs a) t = bank_table a t" by (simp add: enter_banks_def)
  have lc: "map_of (bank_id_to_logical_core (insert_core_banks t c bs (enter_banks c bs a))) =
      (\<lambda>b. if b \<in> set bs then Some c else map_of (bank_id_to_logical_core a) b)"
    "fst ` set (bank_id_to_logical_core (insert_core_banks t c bs (enter_banks c bs a))) =
      set bs \<union> fst ` set (bank_id_to_logical_core a)" by (simp_all add: enter_banks_def e)
  have tb: "fst ` set (bank_table (insert_core_banks t c bs (enter_banks c bs a)) t) =
      insert c (fst ` set (bank_table a t))"
    "map_of (bank_table (insert_core_banks t c bs (enter_banks c bs a)) t) = (map_of (bank_table a t))(c \<mapsto> bs)"
    by (simp_all add: tab map_insert_new [OF ct])
  show ?thesis unfolding paired_def tb lc
  proof (intro conjI allI impI ballI)
    show "insert c (fst ` set (bank_table a t)) \<subseteq> insert c C"
      "S \<union> set bs \<subseteq> set bs \<union> fst ` set (bank_id_to_logical_core a)"
      using p by (auto simp: paired_def)
    show "set bs' \<subseteq> S \<union> set bs" if "((map_of (bank_table a t))(c \<mapsto> bs)) d = Some bs'" for d bs'
      using p that unfolding paired_def by (cases "d = c"; simp) blast+
    show "(if b \<in> set bs then Some c else map_of (bank_id_to_logical_core a) b) = Some d \<longleftrightarrow>
        (\<exists>bs'. ((map_of (bank_table a t))(c \<mapsto> bs)) d = Some bs' \<and> b \<in> set bs')"
      if "b \<in> S \<union> set bs" for b d
    proof (cases "b \<in> set bs")
      case True
      then have "b \<notin> S" using bs(2) by auto
      then have "b \<notin> set bs'" if "map_of (bank_table a t) d = Some bs'" for bs'
        using p that unfolding paired_def by blast
      with True show ?thesis by auto
    next
      case False
      with that have b: "b \<in> S" by simp
      with p have "map_of (bank_id_to_logical_core a) b = Some d \<longleftrightarrow>
          (\<exists>bs'. map_of (bank_table a t) d = Some bs' \<and> b \<in> set bs')" by (simp add: paired_def)
      with False cn show ?thesis by auto
    qed
  qed
qed

lemma paired_other:
  assumes p: "paired t S C a" and "u \<noteq> t" and bs: "distinct bs"
    and new: "set bs \<inter> fst ` set (bank_id_to_logical_core a) = {}"
  shows "paired t S C (insert_core_banks u c ids (enter_banks c bs a))"
proof -
  note e = fold_map_insert [OF new bs, of c]
  have tab: "bank_table (insert_core_banks u c ids (enter_banks c bs a)) t = bank_table a t"
    using assms(2) by (simp add: enter_banks_def)
  have lc: "map_of (bank_id_to_logical_core (insert_core_banks u c ids (enter_banks c bs a))) b =
      map_of (bank_id_to_logical_core a) b" if "b \<in> S" for b
    using p that new by (auto simp: enter_banks_def e paired_def)
  have "fst ` set (bank_id_to_logical_core (insert_core_banks u c ids (enter_banks c bs a))) =
      set bs \<union> fst ` set (bank_id_to_logical_core a)" by (simp add: enter_banks_def e)
  with p show ?thesis unfolding paired_def tab using lc by auto
qed

text \<open>The loop over the worker cores enters the next bank ids of the permutation.\<close>

lemma add_bank_enter: "add_bank b c off (a, k, offs) = (enter_banks c [b] a, k + 1, map_insert b off offs)"
  by (simp add: add_bank_def enter_banks_def)

lemma enter_banks_append: "enter_banks c bs' (enter_banks c bs a) = enter_banks c (bs @ bs') a"
  by (simp add: enter_banks_def)

lemma insert_enter_commute:
  "enter_banks c bs (insert_core_banks t d ids a) = insert_core_banks t d ids (enter_banks c bs a)"
  by (simp add: enter_banks_def insert_core_banks_def)

lemma add_storage_banks_enters:
  assumes "add_storage_banks cfg nb ids c is acc (a, k, offs) = Inr (acc', a', k', offs')" and "k \<le> length ids"
  shows "k' = k + length is \<and> k' \<le> length ids \<and> acc' = acc @ take (length is) (drop k ids) \<and>
    a' = enter_banks c (take (length is) (drop k ids)) a"
  using assms
proof (induction "is" arbitrary: acc a k offs)
  case Nil
  then show ?case by (simp add: enter_banks_def)
next
  case (Cons i "is")
  from Cons.prems have k: "k < length ids" by (simp split: if_splits)
  then have d: "drop k ids = ids ! k # drop (k + 1) ids" by (simp add: Cons_nth_drop_Suc)
  from Cons.prems(1) k obtain off where
    "add_storage_banks cfg nb ids c is (acc @ [ids ! k]) (enter_banks c [ids ! k] a, k + 1, map_insert (ids ! k) off offs)
       = Inr (acc', a', k', offs')" by (auto simp: add_bank_enter bind_result_Inr)
  from Cons.IH [OF this] k show ?case by (simp add: d enter_banks_append)
qed

lemma take_step:
  assumes "distinct ids" and "k + n \<le> length ids"
  shows "take (k + n) ids = take k ids @ take n (drop k ids)" "distinct (take n (drop k ids))"
    "set (take n (drop k ids)) \<inter> set (take k ids) = {}"
proof -
  show e: "take (k + n) ids = take k ids @ take n (drop k ids)" by (rule take_add)
  have "distinct (take (k + n) ids)" using assms(1) by (rule distinct_take)
  then show "distinct (take n (drop k ids))" "set (take n (drop k ids)) \<inter> set (take k ids) = {}"
    unfolding e by auto
qed

definition l1_inv :: "u32 list \<Rightarrow> core_coord set \<Rightarrow> l1_state \<Rightarrow> bool" where
  "l1_inv ids C st = (case st of (a, k, offs) \<Rightarrow>
     k \<le> length ids \<and> paired L1 (set (take k ids)) C a \<and>
     fst ` set (bank_id_to_logical_core a) = set (take k ids) \<and> bank_table a L1_SMALL = [])"

lemma l1_inv_enter:
  assumes I: "l1_inv ids C (a, k, offs)" and "distinct ids" and "c \<notin> C" and n: "k + n \<le> length ids"
    and bs: "bs = take n (drop k ids)"
  shows "l1_inv ids (insert c C) (insert_core_banks L1 c bs (enter_banks c bs a), k + n, offs')"
proof -
  note t = take_step [OF assms(2) n]
  from I have p: "paired L1 (set (take k ids)) C a"
    and f: "fst ` set (bank_id_to_logical_core a) = set (take k ids)" "bank_table a L1_SMALL = []"
    by (auto simp: l1_inv_def)
  have new: "set bs \<inter> fst ` set (bank_id_to_logical_core a) = {}" using f t(3) bs by simp
  have "fst ` set (bank_id_to_logical_core (enter_banks c bs a)) = set (take (k + n) ids)"
    using fold_map_insert(2) [OF new] t bs f by (auto simp: enter_banks_def)
  moreover have "bank_table (enter_banks c bs a) u = bank_table a u" for u
    by (simp add: enter_banks_def)
  ultimately show ?thesis
    using paired_enter [OF p assms(3), of bs] t bs new n f
    by (simp add: l1_inv_def Un_commute)
qed

lemma add_core_inv:
  assumes I: "l1_inv ids C st" and d: "distinct ids" and c: "c \<notin> C"
    and "add_core cfg nb ids c st = Inr st'"
  shows "l1_inv ids (insert c C) st'"
proof -
  obtain a k offs where st: "st = (a, k, offs)" by (cases st)
  from assms(4) obtain t where "core_type cfg c = Inr t" and
    *: "(if t = ComputeAndStore then
         if k < length ids
         then Inr (add_bank (ids ! k) c 0 (insert_core_banks L1 c [ids ! k] a, k, offs))
         else Inl Out_of_range
       else if t = StorageOnly then
         bind_result (add_storage_banks cfg nb ids c [0 ..< per_storage_core nb] [] (a, k, offs))
           (\<lambda>(bank_ids, a', bank_id', offs'). Inr (insert_core_banks L1 c bank_ids a', bank_id', offs'))
       else Inr (a, k, offs)) = Inr st'" unfolding st by (auto simp: bind_result_Inr)
  have k: "k \<le> length ids" using I st by (simp add: l1_inv_def)
  consider (compute) "t = ComputeAndStore" | (storage) "t = StorageOnly"
    | (none) "t \<noteq> ComputeAndStore" "t \<noteq> StorageOnly" by blast
  then show ?thesis
  proof cases
    case compute
    with * have "k < length ids" and st': "st' = (insert_core_banks L1 c [ids ! k] (enter_banks c [ids ! k] a),
        k + 1, map_insert (ids ! k) 0 offs)"
      by (auto simp: add_bank_enter insert_enter_commute split: if_splits)
    then have "[ids ! k] = take 1 (drop k ids)" by (simp add: take_Suc hd_drop_conv_nth)
    from l1_inv_enter [OF I [unfolded st] d c _ this] \<open>k < length ids\<close> show ?thesis unfolding st' by simp
  next
    case storage
    let ?n = "length [0 ..< per_storage_core nb]"
    from storage * obtain bs a' k' offs' where
      s: "add_storage_banks cfg nb ids c [0 ..< per_storage_core nb] [] (a, k, offs) = Inr (bs, a', k', offs')"
      and st': "st' = (insert_core_banks L1 c bs a', k', offs')" by (auto simp: bind_result_Inr)
    from add_storage_banks_enters [OF s k] l1_inv_enter [OF I [unfolded st] d c _ refl, of ?n offs']
    show ?thesis unfolding st' by simp
  next
    case none
    then show ?thesis using * I st by (auto simp: l1_inv_def paired_def)
  qed
qed

lemma add_cores_inv:
  assumes "l1_inv ids C st" and "distinct ids" and "distinct cs" and "set cs \<inter> C = {}"
    and "add_cores cfg nb ids cs st = Inr st'"
  shows "l1_inv ids (C \<union> set cs) st'"
  using assms
proof (induction cs arbitrary: C st)
  case (Cons c cs)
  then obtain st1 where st1: "add_core cfg nb ids c st = Inr st1" "add_cores cfg nb ids cs st1 = Inr st'"
    by (auto simp: bind_result_Inr)
  from add_core_inv [OF Cons.prems(1,2) _ st1(1)] Cons.prems(4) have "l1_inv ids (insert c C) st1" by auto
  from Cons.IH [OF this Cons.prems(2) _ _ st1(2)] Cons.prems(3,4) show ?case by auto
qed simp

text \<open>The loop over the cores for small L1 buffers continues with fresh bank ids.\<close>

definition small_inv :: "u32 list \<Rightarrow> core_coord set \<Rightarrow> core_coord set \<Rightarrow> l1_state \<Rightarrow> bool" where
  "small_inv ids C D st = (case st of (a, k, offs) \<Rightarrow>
     length ids \<le> k \<and> paired L1 (set ids) C a \<and> paired L1_SMALL {length ids ..< k} D a \<and>
     fst ` set (bank_id_to_logical_core a) = set ids \<union> {length ids ..< k})"

lemma small_inv_enter:
  assumes I: "small_inv ids C D (a, k, offs)" and ids: "set ids \<subseteq> {..< length ids}" and c: "c \<notin> D"
  shows "small_inv ids C (insert c D) (insert_core_banks L1_SMALL c [k] (enter_banks c [k] a), k + 1, offs')"
proof -
  from I have k: "length ids \<le> k" and p: "paired L1 (set ids) C a" "paired L1_SMALL {length ids ..< k} D a"
    and f: "fst ` set (bank_id_to_logical_core a) = set ids \<union> {length ids ..< k}" by (auto simp: small_inv_def)
  have new: "set [k] \<inter> fst ` set (bank_id_to_logical_core a) = {}" using f ids k by auto
  have "{length ids ..< k + 1} = {length ids ..< k} \<union> set [k]" using k by auto
  moreover have "fst ` set (bank_id_to_logical_core (enter_banks c [k] a)) = insert k (set ids \<union> {length ids ..< k})"
    using f by (simp add: enter_banks_def)
  ultimately show ?thesis
    using paired_enter [OF p(2) c _ _ new] paired_other [OF p(1) _ _ new, of L1_SMALL c "[k]"] k
    by (auto simp: small_inv_def)
qed

lemma add_small_cores_inv:
  assumes "small_inv ids C D st" and "set ids \<subseteq> {..< length ids}" and "distinct cs" and "set cs \<inter> D = {}"
    and "add_small_cores cfg cs st = Inr st'"
  shows "small_inv ids C (D \<union> set cs) st'"
  using assms
proof (induction cs arbitrary: D st)
  case (Cons c cs)
  obtain a k offs where st: "st = (a, k, offs)" by (cases st)
  have "add_small_cores cfg cs (a, k, offs) = Inr st' \<or>
      add_small_cores cfg cs (insert_core_banks L1_SMALL c [k] (enter_banks c [k] a), k + 1, map_insert k 0 offs) = Inr st'"
    using Cons.prems(5) unfolding st
    by (auto simp: bind_result_Inr add_bank_enter insert_enter_commute split: if_splits)
  moreover have "small_inv ids C (insert c D) (a, k, offs)"
    using Cons.prems(1) st by (auto simp: small_inv_def paired_def)
  moreover have "small_inv ids C (insert c D)
      (insert_core_banks L1_SMALL c [k] (enter_banks c [k] a), k + 1, map_insert k 0 offs)"
    by (rule small_inv_enter) (use Cons.prems st in auto)
  ultimately obtain st1 where "add_small_cores cfg cs st1 = Inr st'" "small_inv ids C (insert c D) st1"
    by (metis (full_types))
  from Cons.IH [OF this(2) Cons.prems(2) _ _ this(1)] Cons.prems(3,4) show ?case by auto
qed simp

lemma shuffled_bank_ids_perm:
  assumes "shuffled_bank_ids shuffle cfg nb = Inr ids" and "\<forall>xs. mset (shuffle xs) = mset xs"
    and "distinct (l1_bank_remap cfg)" and "set (l1_bank_remap cfg) \<subseteq> {..< length (l1_bank_remap cfg)}"
  shows "distinct ids" "set ids = {..< num_l1_banks nb}" "length ids = num_l1_banks nb"
proof -
  consider (remap) "ids = l1_bank_remap cfg" "num_l1_banks nb = length ids" | (shuffled) "mset ids = mset [0 ..< num_l1_banks nb]"
    using assms(1,2) by (auto simp: shuffled_bank_ids_def split: if_splits)
  then have "distinct ids \<and> set ids = {..< num_l1_banks nb} \<and> length ids = num_l1_banks nb"
  proof cases
    case remap
    then have "card (set ids) = card {..< length ids}" using assms(3) by (simp add: distinct_card)
    with remap assms(4) have "set ids = {..< length ids}" by (intro card_subset_eq) auto
    with remap assms(3) show ?thesis by simp
  next
    case shuffled
    have "distinct ids" using mset_eq_imp_distinct_iff [OF shuffled] by simp
    moreover have "set ids = {..< num_l1_banks nb}" using mset_eq_setD [OF shuffled] by (simp only: set_upt atLeast0LessThan)
    moreover have "length ids = num_l1_banks nb" using mset_eq_length [OF shuffled] by simp
    ultimately show ?thesis by simp
  qed
  then show "distinct ids" "set ids = {..< num_l1_banks nb}" "length ids = num_l1_banks nb" by simp_all
qed

lemma assign_l1_banks_paired:
  assumes as: "assign_l1_banks shuffle a cfg = Inr (a', offs, small)"
    and a: "bank_id_to_logical_core a = []" "bank_table a L1 = []" "bank_table a L1_SMALL = []"
    and grid: "crs_ok (worker_grid cfg)" and sh: "\<forall>xs. mset (shuffle xs) = mset xs"
    and remap: "distinct (l1_bank_remap cfg)" "set (l1_bank_remap cfg) \<subseteq> {..< length (l1_bank_remap cfg)}"
  shows "\<exists>C D m. paired L1 {..< length offs} C a' \<and> paired L1_SMALL {length offs ..< m} D a' \<and>
    fst ` set (bank_id_to_logical_core a') = {..< m} \<and> length offs \<le> m"
proof -
  let ?cores = "corerange_to_cores (worker_grid cfg) None True"
  have dc: "distinct ?cores" using all_cores(1) [OF grid refl] by (simp add: corerange_to_cores_def corerange_loop_take)
  from as obtain nb ids a1 k m where ids: "shuffled_bank_ids shuffle cfg nb = Inr ids"
    and ac: "add_cores cfg nb ids ?cores (a, 0, []) = Inr (a1, k, offs)" and k: "k = length ids"
    and sm: "(if l1_small_size cfg > 0 then add_small_cores cfg ?cores (a1, k, []) else Inr (a1, k, [])) = Inr (a', m, small)"
    and n: "length offs = num_l1_banks nb"
    unfolding assign_l1_banks_def Let_def by (auto simp: bind_result_Inr split: if_splits)
  note P = shuffled_bank_ids_perm [OF ids sh remap]
  have "l1_inv ids {} (a, 0, [])" using a by (simp add: l1_inv_def paired_def)
  from add_cores_inv [OF this P(1) dc _ ac] have I: "l1_inv ids (set ?cores) (a1, k, offs)" by simp
  then have S: "small_inv ids (set ?cores) {} (a1, k, [])"
    using k by (auto simp: small_inv_def l1_inv_def paired_def)
  from add_small_cores_inv [OF S _ dc _, of cfg] P(2,3) sm
  have "small_inv ids (set ?cores) {} (a', m, small) \<or> small_inv ids (set ?cores) (set ?cores) (a', m, small)"
    using S by (auto split: if_splits)
  then obtain D where "small_inv ids (set ?cores) D (a', m, small)" by blast
  moreover from this have "{..< length ids} \<union> {length ids ..< m} = {..< m}" by (auto simp: small_inv_def)
  ultimately show ?thesis using P(2,3) n unfolding small_inv_def prod.case by metis
qed

end
