(* ===== verification/Device_Allocator_Theorems.thy ===== *)
theory Device_Allocator_Theorems
  imports Device_Allocator_Banks
begin

text \<open>The theorems about the allocator of a device, with a small device to apply them to.\<close>

section \<open>Successful requests\<close>

text \<open>A request that succeeds has passed all checks of the bank manager.\<close>

lemma bm_allocate_plan:
  assumes "bm_allocate_buffer bm size_b page bu grid shards = Some (Inr x, bm')"
  obtains banks k lim where "bm_num_shards bm grid shards = Inr banks"
    "SizeBytesPerBank size_b page banks (alignment_bytes bm) = Inr k"
    "bm_address_limit bm (shards \<noteq> None) = Inr lim"
proof (cases "bm_num_shards bm grid shards")
  case (Inl e)
  with assms show thesis by (simp add: bm_allocate_buffer_def)
next
  case (Inr banks)
  then show thesis
    using assms that by (cases "SizeBytesPerBank size_b page banks (alignment_bytes bm)";
      cases "bm_address_limit bm (shards \<noteq> None)") (auto simp: bm_allocate_buffer_def)
qed

lemma bm_allocate_found:
  assumes "bm_ok bm" and "bm_num_shards bm grid shards = Inr banks"
    and "SizeBytesPerBank size_b page banks (alignment_bytes bm) = Inr k"
    and "bm_address_limit bm (shards \<noteq> None) = Inr lim" and "bm_accepts bm k"
    and eq: "bm_allocate_buffer bm size_b page bu grid shards = Some (Inr x, bm')"
  shows "bm_ok bm'" "bm_held bm' = insert (x, bm_request bm k) (bm_held bm)"
    "\<forall>q \<in> bm_held bm. span (x, bm_request bm k) \<inter> span q = {}" "x \<in> set (allocated_addrs bm')"
  using assms(1-5) by (cases rule: bm_allocate_cases [where bu = bu]; use eq in simp)+

section \<open>A small device\<close>

text \<open>One DRAM channel of 1024 bytes and one worker core with 1024 bytes of L1.\<close>

definition demo_cfg :: allocator_config where
  "demo_cfg = \<lparr>num_dram_channels = 1, dram_bank_size = 1024, dram_bank_offsets = [0],
     dram_unreserved_base = 32, l1_unreserved_base = 64, worker_grid = crs_single (box 0 0 0 0),
     worker_l1_size = 1024, storage_core_bank_size = None, l1_small_size = 128, trace_region_size = 256,
     core_type_from_noc_coord_table = [(coord 1 1, ComputeAndStore)],
     worker_log_to_physical_routing_x = [(0, 1)], worker_log_to_physical_routing_y = [(0, 1)],
     l1_bank_remap = [], compute_grid = crs_single (box 0 0 0 0), cfg_alignment = 32,
     cfg_disable_interleaved = False\<rparr>"

text \<open>A manager with one free block that is large enough for 64 bytes.\<close>

definition fresh_bank :: "bank_manager \<Rightarrow> bool" where
  "fresh_bank bm \<longleftrightarrow> allocated_addrs bm = [] \<and> alignment_bytes bm = 32 \<and> bm_num_banks bm = 1 \<and>
     (\<exists>s sz. bm_allocator bm = Some s \<and> fl_inv s [(0, sz, True)] \<and> 64 \<le> sz \<and> alignment s = 32 \<and>
        min_allocation_size s = 32)"

lemma demo_free_list:
  assumes "64 \<le> sz" "32 dvd off" "sz + off < 2 ^ 64"
  shows "\<exists>s. free_list_new sz off 32 32 FIRST = Inr (Some s) \<and> fl_inv s [(0, sz, True)] \<and> 64 \<le> sz \<and>
    alignment s = 32 \<and> min_allocation_size s = 32"
  using free_list_new_inv [of 32 off 32 sz FIRST] assms by auto

lemma demo_manager:
  assumes "64 \<le> sz" "32 dvd off" "sz + off < 2 ^ 64"
  shows "\<exists>bm. bank_manager_new t [0] sz 32 off False = Some (Inr bm) \<and> fresh_bank bm"
    "\<exists>bm. bank_manager_new_map t [(k, 0)] sz lim 32 off False = Some (Inr bm) \<and> fresh_bank bm"
proof -
  from demo_free_list [OF assms] obtain s where s: "free_list_new sz off 32 32 FIRST = Inr (Some s)"
    and "\<exists>sz. fl_inv s [(0, sz, True)] \<and> 64 \<le> sz" "alignment s = 32" "min_allocation_size s = 32" by blast
  then show "\<exists>bm. bank_manager_new t [0] sz 32 off False = Some (Inr bm) \<and> fresh_bank bm"
    "\<exists>bm. bank_manager_new_map t [(k, 0)] sz lim 32 off False = Some (Inr bm) \<and> fresh_bank bm"
    by (simp_all add: bank_manager_new_def bank_manager_new_map_def bank_manager_default_def init_allocator_def
        validate_num_banks_def Let_def map_insert_def fresh_bank_def bm_num_banks_def)
qed

lemma demo_managers:
  "\<exists>bm. bank_manager_new t [0] 736 32 32 False = Some (Inr bm) \<and> fresh_bank bm"
  "\<exists>bm. bank_manager_new t [0] 256 32 768 False = Some (Inr bm) \<and> fresh_bank bm"
  "\<exists>bm. bank_manager_new t [0] 960 32 64 False = Some (Inr bm) \<and> fresh_bank bm"
  "\<exists>bm. bank_manager_new_map t [(k, 0)] 832 lim 32 64 False = Some (Inr bm) \<and> fresh_bank bm"
  "\<exists>bm. bank_manager_new_map t [(k, 0)] 128 lim 32 896 False = Some (Inr bm) \<and> fresh_bank bm"
  by (rule demo_manager; simp)+

lemma demo_sizes: "SizeBytesPerBank 64 64 1 32 = Inr 64"
  using SizeBytesPerBank_value [of 64 64 1 1 32] by (simp add: ceil_to_def)

lemma fresh_bank_allocates:
  assumes "fresh_bank bm"
  shows "bm_ok bm" "bm_admits bm 64 64 (crs_single (box 0 0 0 0)) (Some 1)"
    "\<exists>x bm'. bm_allocate_buffer bm 64 64 bu (crs_single (box 0 0 0 0)) (Some 1) = Some (Inr x, bm') \<and>
       (x, 64) \<in> bm_held bm'"
proof -
  let ?g = "crs_single (box 0 0 0 0)"
  from assms obtain s sz where s: "bm_allocator bm = Some s" "fl_inv s [(0, sz, True)]" "64 \<le> sz"
    "alignment s = 32" "min_allocation_size s = 32" and e: "allocated_addrs bm = []" "alignment_bytes bm = 32"
    by (auto simp: fresh_bank_def)
  have g: "num_cores ?g = 1" by (simp add: num_cores_def crs_single_def cr_size_def add32_def)
  show ok: "bm_ok bm" using s e fl_held_used [OF s(2)] by (auto simp: bm_ok_def bm_held_def fl_ok_def)
  have rep: "representable s 64" using s by (simp add: representable_def)
  have rq: "request_size s 64 = 64"
    using s by (simp add: request_size_def align_def add64_def sub64_def mul64_def Let_def)
  have plan: "bm_num_shards bm ?g (Some 1) = Inr 1" "SizeBytesPerBank 64 64 1 (alignment_bytes bm) = Inr 64"
    "bm_address_limit bm (Some 1 \<noteq> None) = Inr 0"
    using e g demo_sizes by (simp_all add: bm_num_shards_def bm_address_limit_def)
  then show "bm_admits bm 64 64 ?g (Some 1)" using rep s(1) by (simp add: bm_admits_def bm_accepts_def)
  from s(2) rep show "\<exists>x bm'. bm_allocate_buffer bm 64 64 bu ?g (Some 1) = Some (Inr x, bm') \<and> (x, 64) \<in> bm_held bm'"
  proof (cases rule: allocate_cases [where bu = bu and lim = 0])
    case none
    with rq s(3) show ?thesis by auto
  next
    case (some A a m B s' rs' x)
    then have "allocate s 64 bu 0 = Some (Inr (Some (x + offset_bytes s)), s')" by (simp add: limited_def)
    then have "bm_allocate_buffer bm 64 64 bu ?g (Some 1) = Some (Inr (x + offset_bytes s),
        bm\<lparr>bm_allocator := Some s', allocated_addrs := List.insert (x + offset_bytes s) (allocated_addrs bm)\<rparr>)"
      unfolding bm_allocate_buffer_def plan bind_result.simps using s(1) by simp
    moreover note bm_allocate_found(2) [OF ok plan _ this]
    ultimately show ?thesis using rep s(1) rq by (auto simp: bm_accepts_def bm_request_def)
  qed
qed

lemma demo_assign:
  "\<exists>a'. assign_l1_banks (\<lambda>xs. xs) a demo_cfg = Inr (a', [(0, 0)], [(1, 0)]) \<and>
     alloc_config a' = alloc_config a \<and> allocated_buffers a' = allocated_buffers a \<and> bank_id_to_dram_channel a' = bank_id_to_dram_channel a \<and>
     dram_channel_to_bank_ids a' = dram_channel_to_bank_ids a \<and> bank_id_to_logical_core a' \<noteq> []"
proof -
  have c: "crs_contains (crs_single (box 0 0 0 0)) (crs_single (box 0 0 0 0))"
    by (simp add: crs_contains_def num_cores_def crs_single_def cr_size_def add32_def sub32_def
        cr_intersection_def cr_intersects_def Let_def)
  have l: "corerange_to_cores (crs_single (box 0 0 0 0)) None True = [coord 0 0]" by code_simp
  show ?thesis using c
    by (auto simp: assign_l1_banks_def demo_cfg_def Let_def l compute_total_and_storage_only_num_l1_banks_def
        num_in_category_def shuffled_bank_ids_def add32_def mul32_def core_type_def logical_to_noc_coord_def
        add_bank_def map_insert_def insert_core_banks_def)
qed

lemma demo_dram:
  "\<exists>a'. init_one_bank_per_channel a demo_cfg = Some (Inr a') \<and> alloc_config a' = alloc_config a \<and> allocated_buffers a' = allocated_buffers a \<and>
     bank_id_to_dram_channel a' \<noteq> [] \<and> dram_channel_to_bank_ids a' \<noteq> []"
proof -
  obtain d t where "bank_manager_new DRAM [0] 736 32 32 False = Some (Inr d)"
    "bank_manager_new TRACE [0] 256 32 768 False = Some (Inr t)" using demo_managers by blast
  then show ?thesis
    by (auto simp: init_one_bank_per_channel_def demo_cfg_def Let_def sub64_def add64_def to_int32_def
        add_dram_bank_def insert_core_banks_def map_insert_def)
qed

lemma demo_device:
  "\<exists>a. allocator_new L1_BANKING (\<lambda>xs. xs) 64 demo_cfg = Some (Inr a) \<and> alloc_config a = demo_cfg \<and>
     allocated_buffers a = [] \<and> fresh_bank (l1_manager a) \<and> fresh_bank (l1_small_manager a)"
proof -
  obtain l where l: "bank_manager_new_map L1 [(0, 0)] 832 128 32 64 False = Some (Inr l)" "fresh_bank l"
    using demo_managers(4) by blast
  obtain s where s: "bank_manager_new_map L1_SMALL [(1, 0)] 128 896 32 896 False = Some (Inr s)" "fresh_bank s"
    using demo_managers(5) by blast
  have init: "\<exists>a'. init_compute_and_storage_l1_bank_manager (\<lambda>xs. xs) 64 a demo_cfg = Some (Inr a') \<and>
     alloc_config a' = alloc_config a \<and> allocated_buffers a' = allocated_buffers a \<and> bank_id_to_dram_channel a' = bank_id_to_dram_channel a \<and>
     dram_channel_to_bank_ids a' = dram_channel_to_bank_ids a \<and> bank_id_to_logical_core a' \<noteq> [] \<and>
     fresh_bank (l1_manager a') \<and> fresh_bank (l1_small_manager a')" for a
  proof -
    obtain a' where "assign_l1_banks (\<lambda>xs. xs) a demo_cfg = Inr (a', [(0, 0)], [(1, 0)])"
      "alloc_config a' = alloc_config a" "allocated_buffers a' = allocated_buffers a" "bank_id_to_dram_channel a' = bank_id_to_dram_channel a"
      "dram_channel_to_bank_ids a' = dram_channel_to_bank_ids a" "bank_id_to_logical_core a' \<noteq> []"
      using demo_assign by blast
    moreover have "cfg_alignment demo_cfg = 32" "storage_core_bank_size demo_cfg = None"
      "worker_l1_size demo_cfg = 1024" "l1_unreserved_base demo_cfg = 64" "l1_small_size demo_cfg = 128"
      "cfg_disable_interleaved demo_cfg = False" by (simp_all add: demo_cfg_def)
    ultimately show ?thesis using l s
      by (simp add: init_compute_and_storage_l1_bank_manager_def Let_def sub64_def add64_def sub32_def
          add32_def mul32_def)
  qed
  let ?a = "\<lparr>allocations_unsafe = False, dram_manager = bank_manager_default DRAM,
     l1_manager = bank_manager_default L1, l1_small_manager = bank_manager_default L1_SMALL,
     trace_buffer_manager = bank_manager_default TRACE, bank_id_to_dram_channel = [],
     dram_channel_to_bank_ids = [], bank_id_to_logical_core = [],
     logical_core_to_bank_ids = (\<lambda>_. None), allocated_buffers = [], alloc_config = demo_cfg\<rparr>"
  obtain a1 where "init_one_bank_per_channel ?a demo_cfg = Some (Inr a1)" "alloc_config a1 = demo_cfg" "allocated_buffers a1 = []"
    "bank_id_to_dram_channel a1 \<noteq> []" "dram_channel_to_bank_ids a1 \<noteq> []" using demo_dram [of ?a] by auto
  with init [of a1] show ?thesis by (auto simp: allocator_new_def Let_def)
qed

lemma demo_cfg_facts:
  "cfg_fits demo_cfg" "crs_ok (worker_grid demo_cfg)" "l1_bank_remap demo_cfg = []"
  by (simp_all add: demo_cfg_def cfg_fits_def single_ok valid_range_def)

section \<open>Theorems\<close>


text \<open>A sharded buffer of 64 bytes on one core.\<close>

definition demo_buffer :: "buffer_type \<Rightarrow> buffer_view" where
  "demo_buffer t = \<lparr>buf_ptr = 1, buf_aligned_size = 64, buf_aligned_page_size = 64, buf_type = t,
     buf_bottom_up = True, buf_num_cores = Some 1, buf_address = 0\<rparr>"

lemma demo_allocates:
  assumes "alloc_config a = demo_cfg" and "t = L1 \<or> t = L1_SMALL" and "fresh_bank (man a t)"
  shows "buffer_admitted a (demo_buffer t)"
    "\<exists>x a'. allocate_buffer a (demo_buffer t) = Some (Inr x, a') \<and> (x, 64) \<in> bm_held (man a' t) \<and>
       alloc_config a' = demo_cfg \<and> (\<forall>u. u \<noteq> SYSTEM_MEMORY \<and> u \<noteq> t \<longrightarrow> man a' u = man a u)"
proof -
  note F = fresh_bank_allocates [OF assms(3)]
  have g: "compute_grid demo_cfg = crs_single (box 0 0 0 0)" "\<not> cfg_disable_interleaved demo_cfg"
    by (simp_all add: demo_cfg_def)
  then show "buffer_admitted a (demo_buffer t)"
    using F(2) assms by (auto simp: buffer_admitted_def demo_buffer_def)
  from F(3) [of True] obtain x bm' where "bm_allocate_buffer (man a t) 64 64 True (crs_single (box 0 0 0 0)) (Some 1) =
      Some (Inr x, bm')" "(x, 64) \<in> bm_held bm'" by blast
  then show "\<exists>x a'. allocate_buffer a (demo_buffer t) = Some (Inr x, a') \<and> (x, 64) \<in> bm_held (man a' t) \<and>
       alloc_config a' = demo_cfg \<and> (\<forall>u. u \<noteq> SYSTEM_MEMORY \<and> u \<noteq> t \<longrightarrow> man a' u = man a u)"
    using g assms(1,2)
    by (auto simp: allocate_buffer_def demo_buffer_def base_alloc_def manager_of_managed Let_def simp del: man_simps)
qed


text \<open>
  On a device with banked L1 the two tables of the allocator agree: every L1 bank
  belongs to exactly one logical core, and the banks listed for a core are exactly the
  banks that belong to it. This holds for any permutation of the bank ids.
\<close>

theorem l1_banks_paired:
  assumes new: "allocator_new L1_BANKING shuffle mailbox_base cfg = Some (Inr a)" and fits: "cfg_fits cfg"
    and "crs_ok (worker_grid cfg)" and "\<forall>xs. mset (shuffle xs) = mset xs"
    and "distinct (l1_bank_remap cfg)" and "set (l1_bank_remap cfg) \<subseteq> {..< length (l1_bank_remap cfg)}"
  shows "\<exists>n. alloc_num_banks a L1 = Inr n \<and>
    (\<forall>b < n. \<exists>c bs. logical_core_from_bank_id a b = Inr c \<and> bank_ids_from_logical_core a L1 c = Inr bs \<and> b \<in> set bs) \<and>
    (\<forall>c bs. bank_ids_from_logical_core a L1 c = Inr bs \<longrightarrow>
       (\<forall>b \<in> set bs. b < n \<and> logical_core_from_bank_id a b = Inr c)) \<and>
    (\<forall>c bs. bank_ids_from_logical_core a L1_SMALL c = Inr bs \<longrightarrow>
       (\<forall>b \<in> set bs. n \<le> b \<and> logical_core_from_bank_id a b = Inr c))"
proof -
  from new obtain a0 a1 where
    d: "init_one_bank_per_channel a0 cfg = Some (Inr a1)" and
    l: "init_compute_and_storage_l1_bank_manager shuffle mailbox_base a1 cfg = Some (Inr a)" and
    a0: "bank_id_to_logical_core a0 = []" "logical_core_to_bank_ids a0 = (\<lambda>_. None)"
    unfolding allocator_new_def Let_def by (auto simp: bind_run_Inr split: if_splits)
  note D = init_dram_windows [OF d fits]
  have t: "bank_id_to_logical_core a1 = []" "bank_table a1 L1 = []" "bank_table a1 L1_SMALL = []"
    using D a0 by (simp_all add: bank_table_def)
  from l obtain a2 offs small l1 sm sz lim off where
    as: "assign_l1_banks shuffle a1 cfg = Inr (a2, offs, small)" and
    "bank_manager_new_map L1 offs sz lim (cfg_alignment cfg) off (cfg_disable_interleaved cfg) = Some (Inr l1)"
    and a: "a = a2\<lparr>l1_manager := l1, l1_small_manager := sm\<rparr>"
    unfolding init_compute_and_storage_l1_bank_manager_def Let_def
    by (auto simp: bind_run_Inr split: if_splits)
  then have n: "alloc_num_banks a L1 = Inr (length offs)"
    by (simp add: alloc_num_banks_def manager_of_def bm_num_banks_def bank_manager_new_map_offsets)
  from assign_l1_banks_paired [OF as t assms(3-6)] obtain C D m where
    p: "paired L1 {..< length offs} C a2" "paired L1_SMALL {length offs ..< m} D a2" by blast
  have tab: "bank_ids_from_logical_core a t c = Inr bs \<longleftrightarrow> map_of (bank_table a2 t) c = Some bs"
    "logical_core_from_bank_id a b = Inr c \<longleftrightarrow> map_of (bank_id_to_logical_core a2) b = Some c" for t c bs b
    by (auto simp: a bank_ids_from_logical_core_def bank_table_def logical_core_from_bank_id_def
        split: option.splits)
  show ?thesis unfolding tab
  proof (intro exI [of _ "length offs"] conjI allI impI ballI)
    show "\<exists>c bs. map_of (bank_id_to_logical_core a2) b = Some c \<and> map_of (bank_table a2 L1) c = Some bs \<and> b \<in> set bs"
      if "b < length offs" for b
    proof -
      from p(1) that have "b \<in> fst ` set (bank_id_to_logical_core a2)" by (auto simp: paired_def)
      then obtain c where "map_of (bank_id_to_logical_core a2) b = Some c"
        by (metis dom_map_of_conv_image_fst domD)
      with p(1) that show ?thesis unfolding paired_def by blast
    qed
  qed (use n paired_lookup [OF p(1)] paired_lookup [OF p(2)] in auto)
qed

theorem l1_banks_paired_witness:
  "\<exists>a c bs. allocator_new L1_BANKING (\<lambda>xs. xs) 64 demo_cfg = Some (Inr a) \<and>
     logical_core_from_bank_id a 0 = Inr c \<and> bank_ids_from_logical_core a L1 c = Inr bs \<and> 0 \<in> set bs"
proof -
  obtain a where a: "allocator_new L1_BANKING (\<lambda>xs. xs) 64 demo_cfg = Some (Inr a)" "fresh_bank (l1_manager a)"
    using demo_device by blast
  then have "alloc_num_banks a L1 = Inr 1" by (simp add: alloc_num_banks_def manager_of_def fresh_bank_def)
  with l1_banks_paired [OF a(1) demo_cfg_facts(1,2)] demo_cfg_facts(3) a(1) show ?thesis by auto
qed

text \<open>
  Allocating a buffer takes a fresh region from the manager of the buffer's type only
  and records the buffer; deallocating the buffer at the returned address restores the
  regions held and the set of recorded buffers.
\<close>

theorem allocate_deallocate_buffer:
  assumes ok: "bm_ok (man a (buf_type b))" and t: "buf_type b \<noteq> SYSTEM_MEMORY"
    and ad: "buffer_admitted a b" and new: "buf_ptr b \<notin> set (allocated_buffers a)"
    and al: "allocate_buffer a b = Some (Inr x, a1)"
  shows "(\<exists>n. bm_held (man a1 (buf_type b)) = insert (x, n) (bm_held (man a (buf_type b))) \<and>
      (\<forall>q \<in> bm_held (man a (buf_type b)). span (x, n) \<inter> span q = {})) \<and>
    (\<forall>u. u \<noteq> SYSTEM_MEMORY \<and> u \<noteq> buf_type b \<longrightarrow> man a1 u = man a u) \<and>
    set (allocated_buffers a1) = insert (buf_ptr b) (set (allocated_buffers a)) \<and>
    (\<exists>a2. deallocate_buffer a1 (b\<lparr>buf_address := x\<rparr>) = Some (Inr (), a2) \<and>
       bm_held (man a2 (buf_type b)) = bm_held (man a (buf_type b)) \<and>
       set (allocated_buffers a2) = set (allocated_buffers a))"
proof -
  let ?t = "buf_type b" and ?g = "compute_grid (alloc_config a)"
  from al t obtain bm' where
    bm: "bm_allocate_buffer (man a ?t) (buf_aligned_size b) (buf_aligned_page_size b) (buf_bottom_up b) ?g
        (buf_num_cores b) = Some (Inr x, bm')"
    and a1: "a1 = (set_manager ?t bm' a)\<lparr>allocated_buffers := List.insert (buf_ptr b) (allocated_buffers a)\<rparr>"
    by (auto simp: allocate_buffer_def manager_of_managed base_alloc_def Let_def
        split: if_splits option.splits sum.splits)
  from bm obtain banks k lim where plan: "bm_num_shards (man a ?t) ?g (buf_num_cores b) = Inr banks"
    "SizeBytesPerBank (buf_aligned_size b) (buf_aligned_page_size b) banks (alignment_bytes (man a ?t)) = Inr k"
    "bm_address_limit (man a ?t) (buf_num_cores b \<noteq> None) = Inr lim" by (rule bm_allocate_plan)
  with ad t have "bm_accepts (man a ?t) k" by (auto simp: buffer_admitted_def bm_admits_def)
  note B = bm_allocate_found [OF ok plan this bm]
  from B(1,4) have "x < 2 ^ 64" by (simp add: bm_ok_def)
  from bm_deallocate_buffer_spec [OF B(1) this] obtain bm2 where
    bm2: "bm_deallocate_buffer bm' x = Some (Inr (), bm2)" "bm_held bm2 = bm_held bm' - {r. fst r = x}" by blast
  have "0 < bm_request (man a ?t) k"
    using B(1,2) fl_held_bounds by (force simp: bm_ok_def bm_held_def)
  have "(x, m) \<notin> bm_held (man a ?t)" for m
  proof
    assume h: "(x, m) \<in> bm_held (man a ?t)"
    then have "0 < m" using ok fl_held_bounds by (force simp: bm_ok_def bm_held_def)
    with \<open>0 < bm_request (man a ?t) k\<close> have "x \<in> span (x, bm_request (man a ?t) k) \<inter> span (x, m)"
      by (simp add: span_def)
    with B(3) h show False by blast
  qed
  with bm2(2) B(2) have "bm_held bm2 = bm_held (man a ?t)" by auto
  with bm2(1) a1 t new B(2,3) show ?thesis
    by (auto simp: deallocate_buffer_def manager_of_managed Let_def)
qed

theorem allocate_deallocate_buffer_witness:
  "\<exists>a a1 a2 x. allocator_new L1_BANKING (\<lambda>xs. xs) 64 demo_cfg = Some (Inr a) \<and>
     allocate_buffer a (demo_buffer L1) = Some (Inr x, a1) \<and>
     deallocate_buffer a1 ((demo_buffer L1)\<lparr>buf_address := x\<rparr>) = Some (Inr (), a2) \<and>
     bm_held (man a2 L1) = bm_held (man a L1)"
proof -
  obtain a where a: "allocator_new L1_BANKING (\<lambda>xs. xs) 64 demo_cfg = Some (Inr a)" "alloc_config a = demo_cfg"
    "fresh_bank (man a L1)" "allocated_buffers a = []" using demo_device by auto
  from demo_allocates [OF a(2) _ a(3)] obtain x a1 where
    a1: "buffer_admitted a (demo_buffer L1)" "allocate_buffer a (demo_buffer L1) = Some (Inr x, a1)" by auto
  have b: "buf_type (demo_buffer L1) = L1" by (simp add: demo_buffer_def)
  from allocate_deallocate_buffer [of a "demo_buffer L1" x a1] a a1 b fresh_bank_allocates(1) [OF a(3)]
  show ?thesis by auto
qed

text \<open>
  With the basic allocator no interleaved L1 buffer can be allocated at all: its bank
  manager is constructed without an interleaved address limit, and the check that the limit
  is positive rejects every such request.
\<close>

theorem basic_interleaved_l1_rejected:
  assumes new: "allocator_new BASIC shuffle mailbox_base cfg = Some (Inr a)"
    and "buf_type b = L1" and "buf_num_cores b = None"
  shows "\<exists>e. allocate_buffer a b = Some (Inl e, a)"
proof -
  from new obtain a1 offs sz off l1 where
    l1: "bank_manager_new L1 offs sz (cfg_alignment cfg) off (cfg_disable_interleaved cfg) = Some (Inr l1)"
    and a: "a = add_l1_banks 0 (corerange_to_cores (worker_grid cfg) None True) (a1\<lparr>l1_manager := l1\<rparr>)"
    unfolding allocator_new_def Let_def init_one_bank_per_l1_def by (auto simp: bind_run_Inr split: if_splits)
  have "l1_manager (add_l1_banks i cs x) = l1_manager x" for i cs x
    by (induction i cs x rule: add_l1_banks.induct) (simp_all add: insert_core_banks_def)
  with a have m: "l1_manager a = l1" by simp
  from l1 obtain bm0 where "init_allocator bm0 sz (cfg_alignment cfg) off = Some (Inr l1)"
    "interleaved_address_limit bm0 = 0" "bm_buffer_type bm0 = L1" by (rule bank_manager_new_init)
  then have "interleaved_address_limit l1 = 0" "bm_buffer_type l1 = L1"
    by (auto simp: init_allocator_def split: sum.splits option.splits)
  then have lim: "bm_address_limit l1 False = Inl (Tt_fatal ''Address limit needs to be larger than zero.'')"
    by (simp add: bm_address_limit_def)
  have set: "set_manager L1 l1 a = a" using m by (cases a) (simp add: set_manager_def)
  have "\<exists>e. bm_allocate_buffer l1 n page bu grid None = Some (Inl e, l1)" for n page bu grid
    by (cases "SizeBytesPerBank n page (bm_num_banks l1) (alignment_bytes l1)")
      (simp_all add: bm_allocate_buffer_def bm_num_shards_def lim)
  then obtain e where "bm_allocate_buffer l1 (buf_aligned_size b) (buf_aligned_page_size b) (buf_bottom_up b)
      (compute_grid (alloc_config a)) None = Some (Inl e, l1)" by blast
  then show ?thesis using assms(2,3) m set by (simp add: allocate_buffer_def manager_of_def base_alloc_def)
qed

text \<open>The small device without a small L1 region, for the basic allocator.\<close>

definition basic_cfg :: allocator_config where
  "basic_cfg = demo_cfg\<lparr>l1_small_size := 0\<rparr>"

theorem basic_interleaved_l1_rejected_witness:
  "\<exists>a e. allocator_new BASIC (\<lambda>xs. xs) 64 basic_cfg = Some (Inr a) \<and>
     allocate_buffer a ((demo_buffer L1)\<lparr>buf_num_cores := None\<rparr>) = Some (Inl e, a)"
proof -
  let ?a = "\<lparr>allocations_unsafe = False, dram_manager = bank_manager_default DRAM,
     l1_manager = bank_manager_default L1, l1_small_manager = bank_manager_default L1_SMALL,
     trace_buffer_manager = bank_manager_default TRACE, bank_id_to_dram_channel = [],
     dram_channel_to_bank_ids = [], bank_id_to_logical_core = [],
     logical_core_to_bank_ids = (\<lambda>_. None), allocated_buffers = [], alloc_config = basic_cfg\<rparr>"
  have "init_one_bank_per_channel ?a basic_cfg = init_one_bank_per_channel ?a demo_cfg"
    by (simp add: init_one_bank_per_channel_def basic_cfg_def)
  then obtain a1 where a1: "init_one_bank_per_channel ?a basic_cfg = Some (Inr a1)"
    "bank_id_to_dram_channel a1 \<noteq> []" "dram_channel_to_bank_ids a1 \<noteq> []" using demo_dram [of ?a] by auto
  obtain l where l: "bank_manager_new L1 [0] 960 32 64 False = Some (Inr l)" using demo_managers(3) by blast
  have g: "num_cores (crs_single (box 0 0 0 0)) = 1" by (simp add: num_cores_def crs_single_def cr_size_def add32_def)
  have c: "corerange_to_cores (crs_single (box 0 0 0 0)) None True = [coord 0 0]" by code_simp
  have "\<exists>a. allocator_new BASIC (\<lambda>xs. xs) 64 basic_cfg = Some (Inr a)"
    using a1 l by (auto simp: allocator_new_def Let_def init_one_bank_per_l1_def basic_cfg_def demo_cfg_def
        sub64_def c g insert_core_banks_def map_insert_def)
  then obtain a where a: "allocator_new BASIC (\<lambda>xs. xs) 64 basic_cfg = Some (Inr a)" by blast
  from basic_interleaved_l1_rejected [OF a, of "(demo_buffer L1)\<lparr>buf_num_cores := None\<rparr>"] a show ?thesis
    by (auto simp: demo_buffer_def)
qed

end
