(* ===== verification/Slot_Map.thy ===== *)
theory Slot_Map
  imports Prelude
begin

text \<open>
  The slot map of src/tt_metal/tt_stl/slotmap.hpp: a vector of slots with a version each,
  a free list threaded through the vacant slots, and keys that pack an index and a version.

  The template parameters of \<open>Key\<close>, the width of \<open>T\<close> and \<open>INDEX_BITS\<close>, are a record.
  Values of \<open>T\<close> are natural numbers below \<open>2 ^ type_bits\<close> with the conversions written
  out. The union in \<open>Slot\<close> is a datatype; reading the member that is not active is
  \<open>Undefined\<close>. The C assertions in the constructor of \<open>Key\<close> are errors, as in builds
  without \<open>NDEBUG\<close>; \<open>pack_key\<close> is the value computed when they are off.
\<close>

unbundle bit_operations_syntax

section \<open>Keys\<close>

record key_layout =
  type_bits :: nat
  index_bits :: nat

type_synonym key = nat

definition VERSION_BITS :: "key_layout \<Rightarrow> nat" where
  "VERSION_BITS L = type_bits L - index_bits L"

definition INDEX_MASK :: "key_layout \<Rightarrow> nat" where
  "INDEX_MASK L = push_bit (VERSION_BITS L) (2 ^ index_bits L - 1)"

definition VERSION_MASK :: "key_layout \<Rightarrow> nat" where
  "VERSION_MASK L = 2 ^ type_bits L - 1 - INDEX_MASK L"

definition max_index :: "key_layout \<Rightarrow> nat" where
  "max_index L = 2 ^ index_bits L - 1"

definition pack_key :: "key_layout \<Rightarrow> nat \<Rightarrow> nat \<Rightarrow> key" where
  "pack_key L idx ver = (push_bit (VERSION_BITS L) idx mod 2 ^ type_bits L) OR ver OR 1"

definition key_new :: "key_layout \<Rightarrow> nat \<Rightarrow> nat \<Rightarrow> tt_error + key" where
  "key_new L idx ver =
     (if push_bit (VERSION_BITS L) idx AND INDEX_MASK L \<noteq> push_bit (VERSION_BITS L) idx
      then Inl (Tt_assert ''index bits'')
      else if ver AND VERSION_MASK L \<noteq> ver then Inl (Tt_assert ''version bits'')
      else Inr (pack_key L idx ver))"

definition key_of_value :: "nat \<Rightarrow> tt_error + key" where
  "key_of_value full_value = (if full_value AND 1 = 0 then Inl (Tt_assert ''value & 1'') else Inr full_value)"

definition key_index :: "key_layout \<Rightarrow> key \<Rightarrow> nat" where
  "key_index L k = drop_bit (VERSION_BITS L) k"

definition key_version :: "key_layout \<Rightarrow> key \<Rightarrow> nat" where
  "key_version L k = k AND VERSION_MASK L"

section \<open>Slots\<close>

datatype 'a content = Value 'a | Next_free nat

record 'a slot =
  version :: nat
  content :: "'a content"

definition occupied :: "'a slot \<Rightarrow> bool" where
  "occupied s \<longleftrightarrow> version s AND 1 \<noteq> 0"

record 'a slot_map =
  slots :: "'a slot list"
  free_head :: u32
  num_elems :: u32

definition invalid_index :: "key_layout \<Rightarrow> nat" where
  "invalid_index L = 2 ^ type_bits L - 1"

definition slot_map_new :: "key_layout \<Rightarrow> 'a slot_map" where
  "slot_map_new L = \<lparr>slots = [], free_head = invalid_index L mod 2 ^ 32, num_elems = 0\<rparr>"

section \<open>Operations\<close>

text \<open>\<open>sm_emplace\<close>: the key or the error, and the map it leaves. \<open>insert\<close> only forwards to it.\<close>

definition sm_emplace :: "key_layout \<Rightarrow> 'a \<Rightarrow> 'a slot_map \<Rightarrow> (tt_error + key) \<times> 'a slot_map" where
  "sm_emplace L v m =
     (if free_head m \<noteq> invalid_index L \<and> free_head m < length (slots m) then
        let idx = free_head m mod 2 ^ type_bits L;
            sl = slots m ! idx
        in case content sl of
             Value _ \<Rightarrow> (Inl Undefined, m)
           | Next_free n \<Rightarrow>
               let new_version = version sl OR 1;
                   m = m\<lparr>free_head := n mod 2 ^ 32,
                         slots := (slots m)[idx := \<lparr>version = new_version, content = Value v\<rparr>],
                         num_elems := add32 (num_elems m) 1\<rparr>
               in (key_new L idx (version (slots m ! idx)), m)
      else
        let idx = length (slots m) mod 2 ^ type_bits L
        in if \<not> idx \<le> max_index L then (Inl (Tt_fatal ''SlotMap index out of bounds''), m)
           else
             let m = m\<lparr>slots := slots m @ [\<lparr>version = 1, content = Value v\<rparr>],
                       num_elems := add32 (num_elems m) 1\<rparr>
             in if idx < length (slots m) then (key_new L idx (version (slots m ! idx)), m)
                else (Inl Undefined, m))"

definition contains :: "key_layout \<Rightarrow> 'a slot_map \<Rightarrow> key \<Rightarrow> bool" where
  "contains L m k =
     (if key_index L k \<ge> length (slots m) then False
      else version (slots m ! key_index L k) = key_version L k)"

definition get :: "key_layout \<Rightarrow> 'a slot_map \<Rightarrow> key \<Rightarrow> tt_error + 'a option" where
  "get L m k =
     (if \<not> contains L m k then Inr None
      else case content (slots m ! key_index L k) of Value v \<Rightarrow> Inr (Some v) | Next_free _ \<Rightarrow> Inl Undefined)"

definition remove_unchecked :: "key_layout \<Rightarrow> u32 \<Rightarrow> 'a slot_map \<Rightarrow> 'a slot_map" where
  "remove_unchecked L idx m =
     (let sl = slots m ! idx
      in m\<lparr>slots := (slots m)[idx := \<lparr>version = (version sl + 1) mod 2 ^ type_bits L,
                                    content = Next_free (free_head m mod 2 ^ type_bits L)\<rparr>],
           free_head := idx, num_elems := sub32 (num_elems m) 1\<rparr>)"

definition remove :: "key_layout \<Rightarrow> key \<Rightarrow> 'a slot_map \<Rightarrow> 'a slot_map" where
  "remove L k m = (if \<not> contains L m k then m else remove_unchecked L (key_index L k mod 2 ^ 32) m)"

definition sm_size :: "'a slot_map \<Rightarrow> nat" where
  "sm_size m = num_elems m"

definition sm_empty :: "'a slot_map \<Rightarrow> bool" where
  "sm_empty m \<longleftrightarrow> num_elems m = 0"

text \<open>Reserving only changes the capacity of the vector, which nothing observes.\<close>

definition reserve :: "key_layout \<Rightarrow> nat \<Rightarrow> 'a slot_map \<Rightarrow> (tt_error + unit) \<times> 'a slot_map" where
  "reserve L new_capacity m =
     (if \<not> new_capacity \<le> max_index L then (Inl (Tt_fatal ''SlotMap capacity out of bounds''), m)
      else (Inr (), m))"

definition sm_clear :: "key_layout \<Rightarrow> 'a slot_map \<Rightarrow> 'a slot_map" where
  "sm_clear L m = m\<lparr>slots := [], num_elems := 0, free_head := invalid_index L mod 2 ^ 32\<rparr>"

section \<open>Iteration\<close>

text \<open>The loop of \<open>operator++\<close>: step at least once, then past vacant slots.\<close>

function it_next :: "'a slot_map \<Rightarrow> nat \<Rightarrow> nat" where
  "it_next m i =
     (if i + 1 < length (slots m) \<and> \<not> occupied (slots m ! (i + 1)) then it_next m (i + 1) else i + 1)"
  by auto
termination by (relation "measure (\<lambda>(m, i). length (slots m) - i)") auto

declare it_next.simps [simp del]

definition it_new :: "'a slot_map \<Rightarrow> nat \<Rightarrow> nat" where
  "it_new m i = (if i < length (slots m) \<and> \<not> occupied (slots m ! i) then it_next m i else i)"

definition it_begin :: "'a slot_map \<Rightarrow> nat" where
  "it_begin m = it_new m 0"

definition it_end :: "'a slot_map \<Rightarrow> nat" where
  "it_end m = it_new m (length (slots m))"

definition it_deref :: "'a slot_map \<Rightarrow> nat \<Rightarrow> tt_error + 'a" where
  "it_deref m i =
     (if i < length (slots m)
      then case content (slots m ! i) of Value v \<Rightarrow> Inr v | Next_free _ \<Rightarrow> Inl Undefined
      else Inl Out_of_range)"

text \<open>The loop \<open>for (it = begin(); it != end(); ++it)\<close>, collecting the elements.\<close>

partial_function (option) sm_each :: "'a slot_map \<Rightarrow> nat \<Rightarrow> (tt_error + 'a) list \<Rightarrow> (tt_error + 'a) list option" where
  "sm_each m i acc =
     (if i = it_end m then Some acc else sm_each m (it_next m i) (acc @ [it_deref m i]))"

declare sm_each.simps [code]

end
