(* ===== verification/Keyed_Store.thy ===== *)
theory Keyed_Store
  imports Prelude
begin

text \<open>
  The contract of a store that hands out keys: inserting returns a key that was not in use
  and was never retired, deleting retires the key, and a retired key is never found again.
\<close>

text \<open>Later states, by insertions that return a key and by deletions.\<close>

inductive store_later ::
    "('v \<Rightarrow> 's \<Rightarrow> ('e + 'k) \<times> 's) \<Rightarrow> ('k \<Rightarrow> 's \<Rightarrow> 's) \<Rightarrow> ('k \<Rightarrow> bool) \<Rightarrow> 's \<Rightarrow> 's \<Rightarrow> bool"
  for ins del key_ok where
  now: "store_later ins del key_ok s s"
| inserted: "store_later ins del key_ok s s1 \<Longrightarrow> ins v s1 = (Inr k, s2) \<Longrightarrow> store_later ins del key_ok s s2"
| deleted: "store_later ins del key_ok s s1 \<Longrightarrow> key_ok k \<Longrightarrow> store_later ins del key_ok s (del k s1)"

locale keyed_store =
  fixes ok :: "'s \<Rightarrow> bool"
    and key_ok :: "'k \<Rightarrow> bool"
    and lookup :: "'s \<Rightarrow> 'k \<Rightarrow> 'v option"
    and retired :: "'s \<Rightarrow> 'k \<Rightarrow> bool"
    and ins :: "'v \<Rightarrow> 's \<Rightarrow> ('e + 'k) \<times> 's"
    and del :: "'k \<Rightarrow> 's \<Rightarrow> 's"
  assumes ins_ok: "ok s \<Longrightarrow> ins v s = (Inr k, s') \<Longrightarrow> ok s' \<and> key_ok k"
    and ins_fresh: "ok s \<Longrightarrow> ins v s = (Inr k, s') \<Longrightarrow> lookup s k = None \<and> \<not> retired s k"
    and ins_lookup: "ok s \<Longrightarrow> ins v s = (Inr k, s') \<Longrightarrow> key_ok j \<Longrightarrow>
        lookup s' j = (if j = k then Some v else lookup s j)"
    and ins_retired: "ok s \<Longrightarrow> ins v s = (Inr k, s') \<Longrightarrow> retired s j \<Longrightarrow> retired s' j"
    and del_ok: "ok s \<Longrightarrow> key_ok k \<Longrightarrow> ok (del k s)"
    and del_lookup: "ok s \<Longrightarrow> key_ok k \<Longrightarrow> key_ok j \<Longrightarrow>
        lookup (del k s) j = (if j = k then None else lookup s j)"
    and del_retires: "ok s \<Longrightarrow> key_ok k \<Longrightarrow> lookup s k \<noteq> None \<Longrightarrow> retired (del k s) k"
    and del_retired: "ok s \<Longrightarrow> key_ok k \<Longrightarrow> retired s j \<Longrightarrow> retired (del k s) j"
    and retired_lookup: "ok s \<Longrightarrow> retired s k \<Longrightarrow> lookup s k = None"
begin

lemma later_ok: "store_later ins del key_ok s s' \<Longrightarrow> ok s \<Longrightarrow> ok s'"
  by (induction rule: store_later.induct) (auto simp: ins_ok del_ok)

lemma later_retired: "store_later ins del key_ok s s' \<Longrightarrow> ok s \<Longrightarrow> retired s k \<Longrightarrow> retired s' k"
proof (induction rule: store_later.induct)
  case (inserted s s1 v j s2)
  then show ?case using later_ok ins_retired by blast
next
  case (deleted s s1 j)
  then show ?case using later_ok del_retired by blast
qed

text \<open>A key that was deleted is dead: it is not found, and no insertion returns it again.\<close>

lemma deleted_dead:
  assumes "ok s" and "key_ok k" and "lookup s k \<noteq> None" and "store_later ins del key_ok (del k s) s'"
  shows "lookup s' k = None" and "ins v s' = (Inr j, s'') \<Longrightarrow> j \<noteq> k"
proof -
  have ok: "ok (del k s)" "ok s'" using assms del_ok later_ok by blast+
  have r: "retired s' k" using assms ok del_retires later_retired by blast
  then show "lookup s' k = None" using ok retired_lookup by blast
  show "j \<noteq> k" if "ins v s' = (Inr j, s'')" using ins_fresh [OF ok(2) that] r by auto
qed

text \<open>A key that is in use finds its value until it is deleted.\<close>

lemma kept:
  assumes "ok s" and "ins v s = (Inr k, s')" and "ins w s' = (Inr j, s'')"
  shows "lookup s'' k = Some v \<and> j \<noteq> k"
proof -
  have "ok s'" "key_ok k" using ins_ok [OF assms(1,2)] by auto
  moreover have "lookup s' k = Some v" using ins_lookup [OF assms(1,2)] calculation(2) by simp
  moreover have "j \<noteq> k" using ins_fresh [OF calculation(1) assms(3)] calculation(3) by auto
  ultimately show ?thesis using ins_lookup [OF _ assms(3)] by simp
qed

end

end
