(* ===== verification/Slot_Map_Props.thy ===== *)
theory Slot_Map_Props
  imports Slot_Map Keyed_Store
begin

text \<open>
  Keys as pairs of index and version, the invariant of the slot map, and the slot map as a
  keyed store.
\<close>

section \<open>Packing keys\<close>

definition layout_ok :: "key_layout \<Rightarrow> bool" where
  "layout_ok L \<longleftrightarrow> 0 < index_bits L \<and> index_bits L < type_bits L \<and> type_bits L \<le> 32"

lemma layout_split:
  assumes "layout_ok L"
  shows "2 ^ type_bits L = 2 ^ index_bits L * (2 :: nat) ^ VERSION_BITS L" "0 < VERSION_BITS L"
  using assms by (auto simp: layout_ok_def VERSION_BITS_def simp flip: power_add)

lemma mask_values:
  assumes "layout_ok L"
  shows "INDEX_MASK L = (2 ^ index_bits L - 1) * 2 ^ VERSION_BITS L"
    and "VERSION_MASK L = mask (VERSION_BITS L)"
proof -
  show i: "INDEX_MASK L = (2 ^ index_bits L - 1) * 2 ^ VERSION_BITS L"
    by (simp add: INDEX_MASK_def push_bit_eq_mult)
  show "VERSION_MASK L = mask (VERSION_BITS L)"
    unfolding VERSION_MASK_def i layout_split(1) [OF assms] mask_eq_exp_minus_1
    by (simp add: diff_mult_distrib)
qed

lemma key_parts:
  assumes "layout_ok L"
  shows "key_index L k = k div 2 ^ VERSION_BITS L" and "key_version L k = k mod 2 ^ VERSION_BITS L"
  by (simp_all add: key_index_def key_version_def drop_bit_eq_div mask_values(2) [OF assms]
      flip: take_bit_eq_mask take_bit_eq_mod)

lemma key_new_spec:
  assumes L: "layout_ok L" and i: "idx < 2 ^ index_bits L"
  shows "key_new L idx ver =
    (if ver < 2 ^ VERSION_BITS L then Inr (pack_key L idx ver) else Inl (Tt_assert ''version bits''))"
proof -
  have "idx * 2 ^ VERSION_BITS L AND (2 ^ index_bits L - 1) * 2 ^ VERSION_BITS L = idx * 2 ^ VERSION_BITS L"
  proof -
    have "take_bit (index_bits L) idx = idx" using i by (simp add: take_bit_eq_mod)
    then have "idx AND (2 ^ index_bits L - 1) = idx" by (simp add: take_bit_eq_mask mask_eq_exp_minus_1)
    then show ?thesis by (metis push_bit_and push_bit_eq_mult)
  qed
  moreover have "ver AND VERSION_MASK L = ver mod 2 ^ VERSION_BITS L"
    using key_parts(2) [OF L] by (simp add: key_version_def)
  moreover have "ver mod 2 ^ VERSION_BITS L = ver \<longleftrightarrow> ver < 2 ^ VERSION_BITS L"
    by (metis mod_less mod_less_divisor zero_less_numeral zero_less_power)
  ultimately show ?thesis by (simp add: key_new_def mask_values(1) [OF L] push_bit_eq_mult)
qed

lemma pack_key_parts:
  assumes L: "layout_ok L" and i: "idx < 2 ^ index_bits L" and v: "ver < 2 ^ VERSION_BITS L" "odd ver"
  shows "key_index L (pack_key L idx ver) = idx" "key_version L (pack_key L idx ver) = ver"
    "odd (pack_key L idx ver)"
proof -
  have m: "push_bit (VERSION_BITS L) idx mod 2 ^ type_bits L = push_bit (VERSION_BITS L) idx"
    using i layout_split(1) [OF L] by (simp add: push_bit_eq_mult)
  have "ver OR 1 = ver" using v(2) or_one_eq [of ver] by simp
  then have p: "pack_key L idx ver = idx * 2 ^ VERSION_BITS L + ver"
    unfolding pack_key_def m using push_or_add [OF v(1)] by (simp add: or.assoc)
  then show "key_index L (pack_key L idx ver) = idx" "key_version L (pack_key L idx ver) = ver"
    using v(1) by (simp_all add: key_parts [OF L])
  show "odd (pack_key L idx ver)" using p v(2) layout_split(2) [OF L] by simp
qed

lemma key_eqI: "layout_ok L \<Longrightarrow> key_index L j = key_index L k \<Longrightarrow> key_version L j = key_version L k \<Longrightarrow> j = k"
  by (metis key_parts mod_div_mult_eq)

lemma key_version_parity: "layout_ok L \<Longrightarrow> odd (key_version L k) = odd k"
  using layout_split(2) by (simp add: key_parts(2) dvd_mod_iff)

section \<open>The invariant\<close>

fun chain :: "'a slot list \<Rightarrow> nat \<Rightarrow> nat \<Rightarrow> nat list \<Rightarrow> bool" where
  "chain sl stop h [] \<longleftrightarrow> h = stop"
| "chain sl stop h (i # is) \<longleftrightarrow> h = i \<and> (\<exists>n. content (sl ! i) = Next_free n \<and> chain sl stop n is)"

definition live :: "'a slot list \<Rightarrow> nat set" where
  "live sl = {i. i < length sl \<and> odd (version (sl ! i))}"

definition slot_ok :: "key_layout \<Rightarrow> 'a slot \<Rightarrow> bool" where
  "slot_ok L s \<longleftrightarrow> 0 < version s \<and> version s \<le> 2 ^ VERSION_BITS L \<and>
     (odd (version s) \<longleftrightarrow> (\<exists>v. content s = Value v))"

definition sm_inv :: "key_layout \<Rightarrow> 'a slot_map \<Rightarrow> nat list \<Rightarrow> bool" where
  "sm_inv L m fs \<longleftrightarrow> layout_ok L \<and> length (slots m) \<le> 2 ^ index_bits L \<and>
     (\<forall>s \<in> set (slots m). slot_ok L s) \<and> distinct fs \<and> set fs = {..< length (slots m)} - live (slots m) \<and>
     chain (slots m) (invalid_index L) (free_head m) fs \<and> num_elems m = card (live (slots m))"

definition sm_ok :: "key_layout \<Rightarrow> 'a slot_map \<Rightarrow> bool" where
  "sm_ok L m \<longleftrightarrow> (\<exists>fs. sm_inv L m fs)"

lemma layout_bounds:
  assumes "layout_ok L"
  shows "2 ^ index_bits L < (2 :: nat) ^ type_bits L" "2 ^ index_bits L \<le> invalid_index L"
    "2 ^ VERSION_BITS L < (2 :: nat) ^ type_bits L" "invalid_index L < 2 ^ 32"
    "even ((2 :: nat) ^ VERSION_BITS L)" "2 ^ type_bits L \<le> (2 :: nat) ^ 32"
proof -
  show lt: "2 ^ index_bits L < (2 :: nat) ^ type_bits L" "2 ^ VERSION_BITS L < (2 :: nat) ^ type_bits L"
    using assms by (auto simp: layout_ok_def VERSION_BITS_def)
  show "2 ^ index_bits L \<le> invalid_index L" unfolding invalid_index_def using lt(1) by linarith
  have "(2 :: nat) ^ type_bits L \<le> 2 ^ 32" using assms by (intro power_increasing) (auto simp: layout_ok_def)
  then show "2 ^ type_bits L \<le> (2 :: nat) ^ 32" "invalid_index L < 2 ^ 32" by (simp_all add: invalid_index_def)
  show "even ((2 :: nat) ^ VERSION_BITS L)" using layout_split(2) [OF assms] by simp
qed

lemma chain_update: "i \<notin> set fs \<Longrightarrow> chain (sl[i := s]) stop h fs = chain sl stop h fs"
  by (induction fs arbitrary: h) (auto simp: nth_list_update)

lemma chain_append: "set fs \<subseteq> {..< length sl} \<Longrightarrow> chain (sl @ ys) stop h fs = chain sl stop h fs"
  by (induction fs arbitrary: h) (auto simp: nth_append)

lemma finite_live [simp]: "finite (live sl)"
  by (simp add: live_def)

lemma live_sub: "live sl \<subseteq> {..< length sl}"
  by (auto simp: live_def)

lemma live_update:
  "i < length sl \<Longrightarrow> live (sl[i := s]) = (if odd (version s) then insert i (live sl) else live sl - {i})"
  by (auto simp: live_def nth_list_update split: if_splits)

lemma live_append: "live (sl @ [s]) = (if odd (version s) then insert (length sl) (live sl) else live sl)"
  by (auto simp: live_def nth_append less_Suc_eq)

lemma card_live: "card (live sl) \<le> length sl"
  using card_mono [OF _ live_sub [of sl]] by simp

lemma slot_map_new_ok: "layout_ok L \<Longrightarrow> sm_inv L (slot_map_new L) []"
  using layout_bounds(4) [of L] by (simp add: sm_inv_def slot_map_new_def live_def)

lemma sm_clear_ok: "layout_ok L \<Longrightarrow> sm_inv L (sm_clear L m) []"
  using layout_bounds(4) [of L] by (simp add: sm_inv_def sm_clear_def live_def)

lemma elems_bound:
  assumes "sm_inv L m fs"
  shows "num_elems m + 1 < 2 ^ 32"
proof -
  from assms have ly: "layout_ok L" by (simp add: sm_inv_def)
  have "2 ^ index_bits L \<le> (2 :: nat) ^ 31" using ly by (intro power_increasing) (auto simp: layout_ok_def)
  then have "num_elems m \<le> 2 ^ 31" using assms card_live [of "slots m"] unfolding sm_inv_def by linarith
  then show ?thesis by simp
qed

text \<open>The two ways an element is stored: in the first vacant slot, or in a new one.\<close>

lemma emplace_reuse:
  assumes I: "sm_inv L m (i # fs)"
  shows "\<exists>n. content (slots m ! i) = Next_free n \<and> sm_emplace L v m =
    (key_new L i (version (slots m ! i) + 1),
     m\<lparr>free_head := n, slots := (slots m)[i := \<lparr>version = version (slots m ! i) + 1, content = Value v\<rparr>],
       num_elems := num_elems m + 1\<rparr>)"
    and "i < length (slots m)" "even (version (slots m ! i))"
proof -
  note L = layout_bounds
  from I have ly: "layout_ok L" by (simp add: sm_inv_def)
  from I have "i \<in> {..< length (slots m)} - live (slots m)" by (auto simp: sm_inv_def)
  then show il: "i < length (slots m)" and ev: "even (version (slots m ! i))" by (auto simp: live_def)
  from I obtain n where h: "free_head m = i" "content (slots m ! i) = Next_free n"
    "chain (slots m) (invalid_index L) n fs" by (auto simp: sm_inv_def)
  have i: "i < 2 ^ index_bits L" using I il by (simp add: sm_inv_def)
  have ii: "i \<noteq> invalid_index L" using i L(2) [OF ly] by linarith
  have im: "i mod 2 ^ type_bits L = i" using less_trans [OF i L(1) [OF ly]] by (rule mod_less)
  have "n < 2 ^ 32"
  proof (cases fs)
    case Nil
    then show ?thesis using h(3) L(4) [OF ly] by simp
  next
    case (Cons j js)
    then have "n \<in> set (i # fs)" using h(3) by simp
    then have "n < length (slots m)" using I by (auto simp: sm_inv_def)
    then have "n < 2 ^ index_bits L" using I by (simp add: sm_inv_def)
    then show ?thesis using L(1,6) [OF ly] by linarith
  qed
  moreover have "add32 (num_elems m) 1 = num_elems m + 1"
    using elems_bound [OF I] by (rule add32_small)
  moreover have "version (slots m ! i) OR 1 = version (slots m ! i) + 1"
    using ev or_one_eq [of "version (slots m ! i)"] by simp
  ultimately show "\<exists>n. content (slots m ! i) = Next_free n \<and> sm_emplace L v m =
    (key_new L i (version (slots m ! i) + 1),
     m\<lparr>free_head := n, slots := (slots m)[i := \<lparr>version = version (slots m ! i) + 1, content = Value v\<rparr>],
       num_elems := num_elems m + 1\<rparr>)"
    using h il ii im by (simp add: sm_emplace_def Let_def)
qed

lemma emplace_grow:
  assumes I: "sm_inv L m []"
  shows "sm_emplace L v m =
    (if length (slots m) < 2 ^ index_bits L
     then (key_new L (length (slots m)) 1,
           m\<lparr>slots := slots m @ [\<lparr>version = 1, content = Value v\<rparr>], num_elems := num_elems m + 1\<rparr>)
     else (Inl (Tt_fatal ''SlotMap index out of bounds''), m))"
proof -
  note L = layout_bounds
  from I have ly: "layout_ok L" and h: "free_head m = invalid_index L" by (simp_all add: sm_inv_def)
  have len: "length (slots m) \<le> 2 ^ index_bits L" using I by (simp add: sm_inv_def)
  have lm: "length (slots m) mod 2 ^ type_bits L = length (slots m)"
    using le_less_trans [OF len L(1) [OF ly]] by (rule mod_less)
  have "add32 (num_elems m) 1 = num_elems m + 1" using elems_bound [OF I] by (rule add32_small)
  moreover have "length (slots m) \<le> max_index L \<longleftrightarrow> length (slots m) < 2 ^ index_bits L"
    unfolding max_index_def by (simp add: Suc_le_eq [symmetric] le_diff_conv2)
  ultimately show ?thesis using h lm by (simp add: sm_emplace_def Let_def)
qed

text \<open>Storing succeeds unless the indices or the versions of the slot are used up.\<close>

lemma emplace_cases:
  assumes I: "sm_inv L m fs" and eq: "sm_emplace L v m = (Inr k, m')"
  obtains i ver fs' where "k = pack_key L i ver" "i < 2 ^ index_bits L" "ver < 2 ^ VERSION_BITS L" "odd ver"
    "i < length (slots m) \<longrightarrow> even (version (slots m ! i)) \<and> ver = version (slots m ! i) + 1"
    "i \<le> length (slots m)" "i = length (slots m) \<longrightarrow> ver = 1"
    "slots m' = (if i < length (slots m) then (slots m)[i := \<lparr>version = ver, content = Value v\<rparr>]
                 else slots m @ [\<lparr>version = ver, content = Value v\<rparr>])" "sm_inv L m' fs'"
proof (cases fs)
  case Nil
  from I have ly: "layout_ok L" by (simp add: sm_inv_def)
  from emplace_grow [OF I [unfolded Nil], of v] eq have lt: "length (slots m) < 2 ^ index_bits L"
    and k: "key_new L (length (slots m)) 1 = Inr k"
    and m': "m' = m\<lparr>slots := slots m @ [\<lparr>version = 1, content = Value v\<rparr>], num_elems := num_elems m + 1\<rparr>"
    by (auto split: if_splits)
  have one: "(1 :: nat) < 2 ^ VERSION_BITS L" using layout_split(2) [OF ly] by (intro one_less_power) auto
  have "sm_inv L m' []"
    using I Nil lt one live_sub [of "slots m"]
    by (auto simp: sm_inv_def m' live_append slot_ok_def card_insert_if lessThan_Suc)
  then show thesis using that [of "length (slots m)" 1 "[]"] k lt one m' by (simp add: key_new_spec [OF ly lt])
next
  case (Cons i fs')
  from I have ly: "layout_ok L" by (simp add: sm_inv_def)
  note R = emplace_reuse [OF I [unfolded Cons]]
  let ?ver = "version (slots m ! i) + 1"
  from R(1) [of v] eq obtain n where n: "content (slots m ! i) = Next_free n" and k: "key_new L i ?ver = Inr k"
    and m': "m' = m\<lparr>free_head := n, slots := (slots m)[i := \<lparr>version = ?ver, content = Value v\<rparr>],
       num_elems := num_elems m + 1\<rparr>" by auto
  have i: "i < 2 ^ index_bits L" using I R(2) by (simp add: sm_inv_def)
  with k have ver: "?ver < 2 ^ VERSION_BITS L" "k = pack_key L i ?ver"
    by (auto simp: key_new_spec [OF ly] split: if_splits)
  have nl: "i \<notin> live (slots m)" "i \<notin> set fs'" using R(3) I Cons by (auto simp: live_def sm_inv_def)
  have "sm_inv L m' fs'"
    using I Cons ver R(2,3) n nl
    by (auto simp: sm_inv_def m' live_update slot_ok_def chain_update dest!: set_update_subset_insert [THEN subsetD])
  then show thesis using that [of i ?ver fs'] i ver R m' by auto
qed

section \<open>Lookup and removal\<close>

text \<open>The keys a program can hold: packed ones, which are odd, and the default key.\<close>

definition key_ok :: "key \<Rightarrow> bool" where
  "key_ok k \<longleftrightarrow> odd k \<or> k = 0"

lemma contains_iff:
  assumes I: "sm_inv L m fs" and k: "key_ok k"
  shows "contains L m k \<longleftrightarrow> key_index L k \<in> live (slots m) \<and> version (slots m ! key_index L k) = key_version L k"
proof (cases "odd k")
  case True
  from I have "layout_ok L" by (simp add: sm_inv_def)
  then have "odd (key_version L k)" using True by (simp add: key_version_parity)
  then show ?thesis by (auto simp: contains_def live_def)
next
  case False
  with k have "k = 0" by (simp add: key_ok_def)
  then have z: "key_version L k = 0" "key_index L k = 0"
    by (simp_all add: key_version_def key_index_def)
  have "version (slots m ! 0) \<noteq> 0" if "0 < length (slots m)"
    using I that by (auto simp: sm_inv_def slot_ok_def)
  with z show ?thesis by (cases "slots m = []") (auto simp: contains_def live_def)
qed

lemma live_key_bounds:
  assumes I: "sm_inv L m fs" and i: "i \<in> live (slots m)"
  shows "i < 2 ^ index_bits L" "version (slots m ! i) < 2 ^ VERSION_BITS L" "odd (version (slots m ! i))"
proof -
  from I have ly: "layout_ok L" by (simp add: sm_inv_def)
  from i have il: "i < length (slots m)" and od: "odd (version (slots m ! i))" by (auto simp: live_def)
  show "i < 2 ^ index_bits L" using I il by (simp add: sm_inv_def)
  have "slot_ok L (slots m ! i)" using I il by (simp add: sm_inv_def)
  then show "version (slots m ! i) < 2 ^ VERSION_BITS L"
    using od layout_bounds(5) [OF ly] by (cases "version (slots m ! i) = 2 ^ VERSION_BITS L") (auto simp: slot_ok_def)
  show "odd (version (slots m ! i))" by (rule od)
qed

definition sm_lookup :: "key_layout \<Rightarrow> 'a slot_map \<Rightarrow> key \<Rightarrow> 'a option" where
  "sm_lookup L m k = (case get L m k of Inr r \<Rightarrow> r | Inl e \<Rightarrow> None)"

lemma live_value:
  assumes "sm_inv L m fs" and "i \<in> live (slots m)"
  shows "\<exists>v. content (slots m ! i) = Value v"
  using assms by (auto simp: sm_inv_def live_def slot_ok_def)

lemma get_total:
  assumes "sm_inv L m fs" and "key_ok k"
  shows "get L m k = Inr (sm_lookup L m k)"
    and "sm_lookup L m k \<noteq> None \<longleftrightarrow> contains L m k"
    and "contains L m k \<Longrightarrow> content (slots m ! key_index L k) = Value v \<Longrightarrow> sm_lookup L m k = Some v"
  using contains_iff [OF assms] live_value [OF assms(1), of "key_index L k"]
  by (auto simp: get_def sm_lookup_def split: content.splits)

lemma free_head_bound:
  assumes I: "sm_inv L m fs"
  shows "free_head m < 2 ^ type_bits L"
proof -
  from I have ly: "layout_ok L" by (simp add: sm_inv_def)
  show ?thesis
  proof (cases fs)
    case Nil
    then show ?thesis using I by (simp add: sm_inv_def invalid_index_def)
  next
    case (Cons i js)
    then have "free_head m \<in> {..< length (slots m)}" using I by (auto simp: sm_inv_def)
    then have "free_head m < 2 ^ index_bits L" using I by (simp add: sm_inv_def)
    then show ?thesis using layout_bounds(1) [OF ly] by (rule less_trans)
  qed
qed

lemma remove_spec:
  assumes I: "sm_inv L m fs" and k: "key_ok k" and c: "contains L m k" and i: "i = key_index L k"
  shows "remove L k m = m\<lparr>slots := (slots m)[i := \<lparr>version = key_version L k + 1, content = Next_free (free_head m)\<rparr>],
           free_head := i, num_elems := num_elems m - 1\<rparr>"
    and "sm_inv L (remove L k m) (i # fs)" and "i < length (slots m)" "version (slots m ! i) = key_version L k"
    and "key_version L k < 2 ^ VERSION_BITS L"
proof -
  from I have ly: "layout_ok L" by (simp add: sm_inv_def)
  from c contains_iff [OF I k] i have l: "i \<in> live (slots m)" and v: "version (slots m ! i) = key_version L k" by auto
  then show il: "i < length (slots m)" and "version (slots m ! i) = key_version L k" by (auto simp: live_def)
  have od: "odd (key_version L k)" using l v by (simp add: live_def)
  show kv: "key_version L k < 2 ^ VERSION_BITS L" using live_key_bounds(2) [OF I l] v by simp
  have "key_version L k + 1 < 2 ^ type_bits L" using kv layout_bounds(3) [OF ly] by linarith
  then have vm: "(key_version L k + 1) mod 2 ^ type_bits L = key_version L k + 1" by (rule mod_less)
  have "i < 2 ^ 32" using il I layout_bounds(1,6) [OF ly] unfolding sm_inv_def by linarith
  then have im: "i mod 2 ^ 32 = i" by (rule mod_less)
  have fm: "free_head m mod 2 ^ type_bits L = free_head m" using free_head_bound [OF I] by (rule mod_less)
  have n: "0 < num_elems m" using l I by (auto simp: sm_inv_def card_gt_0_iff)
  then have nm: "sub32 (num_elems m) 1 = num_elems m - 1" using elems_bound [OF I] by (intro sub32_small) auto
  show r: "remove L k m = m\<lparr>slots := (slots m)[i := \<lparr>version = key_version L k + 1, content = Next_free (free_head m)\<rparr>],
           free_head := i, num_elems := num_elems m - 1\<rparr>"
    using c v im fm nm vm by (simp add: remove_def remove_unchecked_def Let_def i [symmetric])
  have "i \<notin> set fs" using l I by (auto simp: sm_inv_def)
  then show "sm_inv L (remove L k m) (i # fs)"
    unfolding r using I il l od kv v
    by (auto simp: sm_inv_def live_update slot_ok_def chain_update dest!: set_update_subset_insert [THEN subsetD])
qed

section \<open>The slot map as a keyed store\<close>

definition sm_retired :: "key_layout \<Rightarrow> 'a slot_map \<Rightarrow> key \<Rightarrow> bool" where
  "sm_retired L m k \<longleftrightarrow> key_index L k < length (slots m) \<and> key_version L k < version (slots m ! key_index L k)"

lemma emplace_store:
  assumes I: "sm_inv L m fs" and eq: "sm_emplace L v m = (Inr k, m')"
  shows "sm_ok L m'" "odd k" "\<not> contains L m k" "\<not> sm_retired L m k"
    and "key_ok j \<Longrightarrow> sm_lookup L m' j = (if j = k then Some v else sm_lookup L m j)"
    and "sm_retired L m j \<Longrightarrow> sm_retired L m' j"
proof -
  from I have ly: "layout_ok L" by (simp add: sm_inv_def)
  from emplace_cases [OF I eq] obtain i ver fs' where k: "k = pack_key L i ver" and b: "i < 2 ^ index_bits L"
      "ver < 2 ^ VERSION_BITS L" "odd ver"
    and old: "i < length (slots m) \<longrightarrow> even (version (slots m ! i)) \<and> ver = version (slots m ! i) + 1"
      "i \<le> length (slots m)" "i = length (slots m) \<longrightarrow> ver = 1"
    and sl: "slots m' = (if i < length (slots m) then (slots m)[i := \<lparr>version = ver, content = Value v\<rparr>]
                 else slots m @ [\<lparr>version = ver, content = Value v\<rparr>])" and I': "sm_inv L m' fs'" .
  note P = pack_key_parts [OF ly b]
  have nth: "slots m' ! a = (if a = i then \<lparr>version = ver, content = Value v\<rparr> else slots m ! a)"
    if "a < length (slots m')" for a
    using that old(2) unfolding sl by (auto simp: nth_append split: if_splits)
  have len: "length (slots m) \<le> length (slots m')" "a < length (slots m') \<longleftrightarrow> a < length (slots m) \<or> a = i" for a
    using old(2) unfolding sl by (auto split: if_splits)
  show "sm_ok L m'" "odd k" using I' P(3) k by (auto simp: sm_ok_def)
  show nc: "\<not> contains L m k" "\<not> sm_retired L m k" using old k P by (auto simp: contains_def sm_retired_def)
  show "sm_retired L m' j" if "sm_retired L m j"
    using that nth len old(1) unfolding sm_retired_def by fastforce
  assume j: "key_ok j"
  have other: "contains L m' j = contains L m j \<and> (contains L m j \<longrightarrow> slots m' ! key_index L j = slots m ! key_index L j)"
    if "j \<noteq> k"
  proof (cases "key_index L j = i")
    case True
    with that k P key_eqI [OF ly, of j k] have "key_version L j \<noteq> ver" by auto
    then have "\<not> contains L m' j" using True nth [of i] len(2) [of i] by (auto simp: contains_def)
    moreover have "\<not> contains L m j"
      unfolding contains_iff [OF I j] using True old by (auto simp: live_def)
    ultimately show ?thesis by simp
  next
    case False
    with len(2) [of "key_index L j"] nth [of "key_index L j"] show ?thesis by (auto simp: contains_def)
  qed
  have "sm_lookup L m' k = Some v"
  proof (rule get_total(3) [OF I'])
    show "key_ok k" using P(3) k by (simp add: key_ok_def)
    show "contains L m' k" "content (slots m' ! key_index L k) = Value v"
      using nth [of i] len(2) [of i] k P by (auto simp: contains_def)
  qed
  with other show "sm_lookup L m' j = (if j = k then Some v else sm_lookup L m j)"
    by (auto simp: sm_lookup_def get_def)
qed

lemma remove_store:
  assumes I: "sm_inv L m fs" and k: "key_ok k"
  shows "sm_ok L (remove L k m)"
    and "key_ok j \<Longrightarrow> sm_lookup L (remove L k m) j = (if j = k then None else sm_lookup L m j)"
    and "sm_lookup L m k \<noteq> None \<Longrightarrow> sm_retired L (remove L k m) k"
    and "sm_retired L m j \<Longrightarrow> sm_retired L (remove L k m) j"
proof -
  from I have ly: "layout_ok L" by (simp add: sm_inv_def)
  have "sm_ok L (remove L k m) \<and> (key_ok j \<longrightarrow> sm_lookup L (remove L k m) j = (if j = k then None else sm_lookup L m j)) \<and>
    (sm_lookup L m k \<noteq> None \<longrightarrow> sm_retired L (remove L k m) k) \<and> (sm_retired L m j \<longrightarrow> sm_retired L (remove L k m) j)"
  proof (cases "contains L m k")
    case False
    then have "remove L k m = m" by (simp add: remove_def)
    with False get_total(2) [OF I k] I show ?thesis by (auto simp: sm_ok_def)
  next
    case True
    note R = remove_spec [OF I k True refl]
    have odd_k: "odd (key_version L k)" using contains_iff [OF I k] True by (auto simp: live_def)
    have j: "sm_lookup L (remove L k m) j = (if j = k then None else sm_lookup L m j)" if "key_ok j"
    proof (cases "key_index L j = key_index L k")
      case same: True
      show ?thesis
      proof (cases "j = k")
        case True
        with R(3,4) show ?thesis by (simp add: R(1) sm_lookup_def get_def contains_def)
      next
        case False
        with key_eqI [OF ly] same have "key_version L j \<noteq> key_version L k" by blast
        then have "\<not> contains L m j" using same R(4) by (simp add: contains_def)
        moreover have "\<not> contains L (remove L k m) j"
          unfolding contains_iff [OF R(2) that] using same R(3) key_version_parity [OF ly, of k] True odd_k
          by (auto simp: live_def R(1))
        ultimately show ?thesis using False by (simp add: sm_lookup_def get_def)
      qed
    next
      case False
      then have "j \<noteq> k" by auto
      with False show ?thesis by (simp add: R(1) sm_lookup_def get_def contains_def)
    qed
    have "sm_retired L (remove L k m) j" if "sm_retired L m j"
      using that R(3,4) by (cases "key_index L j = key_index L k") (auto simp: R(1) sm_retired_def)
    moreover have "sm_retired L (remove L k m) k" using R(3) by (simp add: R(1) sm_retired_def)
    ultimately show ?thesis using j R(2) unfolding sm_ok_def by blast
  qed
  then show "sm_ok L (remove L k m)"
    and "key_ok j \<Longrightarrow> sm_lookup L (remove L k m) j = (if j = k then None else sm_lookup L m j)"
    and "sm_lookup L m k \<noteq> None \<Longrightarrow> sm_retired L (remove L k m) k"
    and "sm_retired L m j \<Longrightarrow> sm_retired L (remove L k m) j" by blast+
qed

interpretation sm: keyed_store "sm_ok L" key_ok "sm_lookup L" "sm_retired L" "sm_emplace L" "remove L"
proof
  fix s s' :: "'a slot_map" and v and k j :: key
  assume ok: "sm_ok L s"
  then obtain fs where I: "sm_inv L s fs" by (auto simp: sm_ok_def)
  { assume e: "sm_emplace L v s = (Inr k, s')"
    note E = emplace_store [OF I e]
    show "sm_ok L s' \<and> key_ok k" using E by (simp add: key_ok_def)
    show "sm_lookup L s k = None \<and> \<not> sm_retired L s k"
      using E(2-4) get_total(2) [OF I, of k] by (auto simp: key_ok_def)
    show "key_ok j \<Longrightarrow> sm_lookup L s' j = (if j = k then Some v else sm_lookup L s j)" by (rule E(5))
    show "sm_retired L s j \<Longrightarrow> sm_retired L s' j" by (rule E(6)) }
  { assume k: "key_ok k"
    note R = remove_store [OF I k]
    show "sm_ok L (remove L k s)" by (rule R(1))
    show "key_ok j \<Longrightarrow> sm_lookup L (remove L k s) j = (if j = k then None else sm_lookup L s j)" by (rule R(2))
    show "sm_lookup L s k \<noteq> None \<Longrightarrow> sm_retired L (remove L k s) k" by (rule R(3))
    show "sm_retired L s j \<Longrightarrow> sm_retired L (remove L k s) j" by (rule R(4)) }
  show "sm_retired L s k \<Longrightarrow> sm_lookup L s k = None"
    by (auto simp: sm_lookup_def get_def contains_def sm_retired_def)
qed

section \<open>Iteration\<close>

lemma occupied_odd: "occupied s \<longleftrightarrow> odd (version s)"
  using and_one_eq [of "version s"] by (simp add: occupied_def odd_iff_mod_2_eq_one)

text \<open>The elements from a position on, in the order of the slots.\<close>

definition elems_from :: "'a slot_map \<Rightarrow> nat \<Rightarrow> nat list" where
  "elems_from m i = filter (\<lambda>j. occupied (slots m ! j)) [i ..< length (slots m)]"

lemma it_next_spec:
  assumes "i < length (slots m)"
  shows "i < it_next m i" "it_next m i \<le> length (slots m)" "elems_from m (it_next m i) = elems_from m (i + 1)"
    "it_next m i < length (slots m) \<longrightarrow> occupied (slots m ! it_next m i)"
  using assms
proof (induction m i rule: it_next.induct)
  case (1 m i)
  have e: "elems_from m (i + 2) = elems_from m (i + 1)" if "i + 1 < length (slots m)" "\<not> occupied (slots m ! (i + 1))"
    using that by (simp add: elems_from_def upt_conv_Cons)
  {
    case 1
    then show ?case using "1.IH"(1) by (subst it_next.simps) auto
  next
    case 2
    then show ?case using "1.IH"(2) by (subst it_next.simps) auto
  next
    case 3
    then show ?case using "1.IH"(3) e by (subst it_next.simps) auto
  next
    case 4
    then show ?case using "1.IH"(4) it_next.simps [of m i] by auto
  }
qed

lemma sm_each_spec:
  assumes "i \<le> length (slots m)" and "i < length (slots m) \<longrightarrow> occupied (slots m ! i)"
  shows "sm_each m i acc = Some (acc @ map (it_deref m) (elems_from m i))"
  using assms
proof (induction "length (slots m) - i" arbitrary: i acc rule: less_induct)
  case less
  have e: "it_end m = length (slots m)" by (simp add: it_end_def it_new_def)
  show ?case
  proof (cases "i = length (slots m)")
    case True
    then show ?thesis by (subst sm_each.simps) (simp add: e elems_from_def)
  next
    case False
    with less.prems have i: "i < length (slots m)" by simp
    note N = it_next_spec [OF i]
    have "elems_from m i = i # elems_from m (i + 1)"
      using less.prems(2) i by (simp add: elems_from_def upt_conv_Cons)
    with less.hyps [of "it_next m i" "acc @ [it_deref m i]"] N i show ?thesis
      by (subst sm_each.simps) (simp add: e)
  qed
qed

lemma it_begin_spec:
  "it_begin m \<le> length (slots m)" "it_begin m < length (slots m) \<longrightarrow> occupied (slots m ! it_begin m)"
  "elems_from m (it_begin m) = elems_from m 0"
proof -
  have "it_begin m \<le> length (slots m) \<and> (it_begin m < length (slots m) \<longrightarrow> occupied (slots m ! it_begin m)) \<and>
    elems_from m (it_begin m) = elems_from m 0"
  proof (cases "0 < length (slots m) \<and> \<not> occupied (slots m ! 0)")
    case True
    note N = it_next_spec [of 0 m, OF conjunct1 [OF True]]
    have "elems_from m 0 = elems_from m 1" using True by (simp add: elems_from_def upt_conv_Cons)
    then show ?thesis using True N by (simp add: it_begin_def it_new_def)
  next
    case False
    then show ?thesis by (auto simp: it_begin_def it_new_def)
  qed
  then show "it_begin m \<le> length (slots m)" "it_begin m < length (slots m) \<longrightarrow> occupied (slots m ! it_begin m)"
    "elems_from m (it_begin m) = elems_from m 0" by auto
qed

end
