(* ===== verification/Slot_Map_Theorems.thy ===== *)
theory Slot_Map_Theorems
  imports Slot_Map_Props
begin

text \<open>The theorems about the slot map.\<close>

text \<open>The layout of the keys in the repository's tests: 16 bits, 10 of them for the index.\<close>

definition demo_layout :: key_layout where
  "demo_layout = \<lparr>type_bits = 16, index_bits = 10\<rparr>"

lemma demo_layout_ok: "layout_ok demo_layout" "VERSION_BITS demo_layout = 6"
  by (simp_all add: demo_layout_def layout_ok_def VERSION_BITS_def)

definition demo_map :: "nat slot_map" where
  "demo_map = snd (sm_emplace demo_layout 42 (slot_map_new demo_layout))"

lemma demo_map_key: "sm_emplace demo_layout 42 (slot_map_new demo_layout) = (Inr 1, demo_map)"
proof -
  have "sm_emplace demo_layout 42 (slot_map_new demo_layout) = (key_new demo_layout 0 1, demo_map)"
    using emplace_grow [OF slot_map_new_ok [OF demo_layout_ok(1)], of "42 :: nat"]
    by (simp add: demo_map_def slot_map_new_def)
  moreover have "pack_key demo_layout 0 1 = 1" by (simp add: pack_key_def)
  ultimately show ?thesis using key_new_spec [OF demo_layout_ok(1), of 0 1] demo_layout_ok(2) by simp
qed

lemma demo_map_ok: "sm_ok demo_layout demo_map" "key_ok 1" "sm_lookup demo_layout demo_map 1 = Some 42"
proof -
  have ok: "sm_ok demo_layout (slot_map_new demo_layout :: nat slot_map)"
    using slot_map_new_ok [OF demo_layout_ok(1)] by (auto simp: sm_ok_def)
  show "sm_ok demo_layout demo_map" "key_ok 1" using sm.ins_ok [OF ok demo_map_key] by auto
  then show "sm_lookup demo_layout demo_map 1 = Some 42" using sm.ins_lookup [OF ok demo_map_key, of 1] by simp
qed

text \<open>
  C17: The slot map refines a finite map from keys to values. A successful \<open>sm_emplace\<close>
  returns a key that was not in use and binds exactly that key; \<open>remove\<close> unbinds exactly
  the given key; \<open>get\<close> returns the binding and is defined for every key a program can
  hold; \<open>size\<close> is the number of bindings. The invariant is kept.
\<close>

theorem slot_map_refines:
  assumes "sm_inv L m fs" and "key_ok j" and "key_ok k"
  shows "get L m j = Inr (sm_lookup L m j) \<and>
    sm_size m = card (dom (sm_lookup L m) \<inter> {k. key_ok k}) \<and>
    sm_ok L (remove L k m) \<and> sm_lookup L (remove L k m) j = (if j = k then None else sm_lookup L m j) \<and>
    (case sm_emplace L v m of
       (Inr n, m') \<Rightarrow> sm_ok L m' \<and> key_ok n \<and> sm_lookup L m n = None \<and>
          sm_lookup L m' j = (if j = n then Some v else sm_lookup L m j)
     | (Inl e, m') \<Rightarrow> True)"
proof -
  from assms(1) have ok: "sm_ok L m" and ly: "layout_ok L" by (auto simp: sm_ok_def sm_inv_def)
  have "dom (sm_lookup L m) \<inter> {k. key_ok k} = (\<lambda>i. pack_key L i (version (slots m ! i))) ` live (slots m)"
  proof (intro equalityI subsetI)
    fix n assume "n \<in> dom (sm_lookup L m) \<inter> {k. key_ok k}"
    then have n: "key_ok n" "contains L m n" using get_total(2) [OF assms(1), of n] by auto
    from contains_iff [OF assms(1) n(1)] n(2) have l: "key_index L n \<in> live (slots m)"
      and v: "version (slots m ! key_index L n) = key_version L n" by auto
    note R = remove_spec(3,5) [OF assms(1) n refl]
    have i: "key_index L n < 2 ^ index_bits L" using R(1) assms(1) by (simp add: sm_inv_def)
    have "odd (key_version L n)" using l v by (simp add: live_def)
    note P = pack_key_parts [OF ly i R(2) this]
    have "n = pack_key L (key_index L n) (version (slots m ! key_index L n))"
      unfolding v by (rule key_eqI [OF ly P(1) [symmetric] P(2) [symmetric]])
    then show "n \<in> (\<lambda>i. pack_key L i (version (slots m ! i))) ` live (slots m)" using l by (rule image_eqI)
  next
    fix n assume "n \<in> (\<lambda>i. pack_key L i (version (slots m ! i))) ` live (slots m)"
    then obtain i where i: "i \<in> live (slots m)" and n: "n = pack_key L i (version (slots m ! i))" by blast
    have P: "key_index L n = i" "key_version L n = version (slots m ! i)" "odd n"
      using pack_key_parts [OF ly live_key_bounds [OF assms(1) i]] n by auto
    then have "contains L m n" using i by (simp add: contains_def live_def)
    then show "n \<in> dom (sm_lookup L m) \<inter> {k. key_ok k}"
      using get_total(2) [OF assms(1), of n] P(3) by (auto simp: key_ok_def)
  qed
  moreover have "inj_on (\<lambda>i. pack_key L i (version (slots m ! i))) (live (slots m))"
    by (rule inj_on_inverseI [where g = "key_index L"])
      (use pack_key_parts(1) [OF ly live_key_bounds [OF assms(1)]] in auto)
  ultimately have "sm_size m = card (dom (sm_lookup L m) \<inter> {k. key_ok k})"
    using assms(1) by (simp add: card_image sm_size_def sm_inv_def)
  moreover have "case sm_emplace L v m of
       (Inr n, m') \<Rightarrow> sm_ok L m' \<and> key_ok n \<and> sm_lookup L m n = None \<and>
          sm_lookup L m' j = (if j = n then Some v else sm_lookup L m j)
     | (Inl e, m') \<Rightarrow> True"
    using sm.ins_ok [OF ok] sm.ins_fresh [OF ok] sm.ins_lookup [OF ok _ assms(2)]
    by (auto split: prod.splits sum.splits)
  ultimately show ?thesis
    using get_total(1) [OF assms(1,2)] sm.del_ok [OF ok assms(3)] sm.del_lookup [OF ok assms(3,2)] by simp
qed

theorem slot_map_refines_witness:
  "get demo_layout demo_map 1 = Inr (Some 42) \<and> sm_lookup demo_layout (remove demo_layout 1 demo_map) 1 = None"
proof -
  obtain fs where "sm_inv demo_layout demo_map fs" using demo_map_ok(1) by (auto simp: sm_ok_def)
  from slot_map_refines [OF this demo_map_ok(2,2), of 0] demo_map_ok(3) show ?thesis by simp
qed

text \<open>
  C20: A removed key stays dead. However elements are stored and removed afterwards, the map
  never contains the key again, \<open>get\<close> returns \<open>nullptr\<close> for it, and no later element
  is given the same key, although its slot is reused.
\<close>

theorem slot_map_removed_key_dead:
  assumes "sm_ok L m" and "key_ok k" and "contains L m k"
    and "store_later (sm_emplace L) (remove L) key_ok (remove L k m) m'"
  shows "\<not> contains L m' k \<and> get L m' k = Inr None \<and> fst (sm_emplace L v m') \<noteq> Inr k"
proof -
  from assms(1) obtain fs where I: "sm_inv L m fs" by (auto simp: sm_ok_def)
  have l: "sm_lookup L m k \<noteq> None" using get_total(2) [OF I assms(2)] assms(3) by simp
  note D = sm.deleted_dead [OF assms(1,2) l assms(4)]
  have "sm_ok L m'" using sm.later_ok [OF assms(4)] sm.del_ok [OF assms(1,2)] by blast
  then obtain fs' where I': "sm_inv L m' fs'" by (auto simp: sm_ok_def)
  show ?thesis
    using D(1) D(2) [of v _ "snd (sm_emplace L v m')"] get_total(1,2) [OF I' assms(2)]
    by (cases "sm_emplace L v m'") auto
qed

theorem slot_map_removed_key_dead_witness:
  "\<not> contains demo_layout (remove demo_layout 1 demo_map) 1 \<and>
   get demo_layout (remove demo_layout 1 demo_map) 1 = Inr None \<and>
   fst (sm_emplace demo_layout 7 (remove demo_layout 1 demo_map)) \<noteq> Inr 1"
proof -
  obtain fs where "sm_inv demo_layout demo_map fs" using demo_map_ok(1) by (auto simp: sm_ok_def)
  from get_total(2) [OF this demo_map_ok(2)] demo_map_ok(3) have "contains demo_layout demo_map 1" by simp
  from slot_map_removed_key_dead [OF demo_map_ok(1,2) this store_later.now] show ?thesis .
qed

text \<open>
  Iterating from \<open>begin()\<close> to \<open>end()\<close> ends, reads only occupied slots, and visits as
  many elements as \<open>size()\<close> says.
\<close>

theorem slot_map_iteration:
  assumes "sm_inv L m fs"
  shows "\<exists>vs. sm_each m (it_begin m) [] = Some (map Inr vs) \<and> length vs = sm_size m \<and>
    set vs = {v. \<exists>k. key_ok k \<and> sm_lookup L m k = Some v}"
proof -
  from assms have ly: "layout_ok L" by (simp add: sm_inv_def)
  let ?is = "elems_from m 0"
  let ?val = "\<lambda>i. case content (slots m ! i) of Value v \<Rightarrow> v"
  have live: "set ?is = live (slots m)" "distinct ?is" by (auto simp: elems_from_def live_def occupied_odd)
  have val: "content (slots m ! i) = Value (?val i)" if "i \<in> live (slots m)" for i
    using live_value [OF assms that] by auto
  have "it_deref m i = Inr (?val i)" if "i \<in> live (slots m)" for i
    using val [OF that] that by (auto simp: it_deref_def live_def split: content.splits)
  then have "map (it_deref m) ?is = map Inr (map ?val ?is)" using live(1) by simp
  moreover have "length (map ?val ?is) = sm_size m"
    using distinct_card [OF live(2)] live(1) assms by (simp add: sm_inv_def sm_size_def)
  moreover have "set (map ?val ?is) = {v. \<exists>k. key_ok k \<and> sm_lookup L m k = Some v}"
  proof (intro equalityI subsetI)
    fix v assume "v \<in> set (map ?val ?is)"
    then obtain i where i: "i \<in> live (slots m)" and v: "v = ?val i" using live(1) by auto
    let ?k = "pack_key L i (version (slots m ! i))"
    note P = pack_key_parts [OF ly live_key_bounds [OF assms i]]
    have "contains L m ?k" using P i by (simp add: contains_def live_def)
    then have "sm_lookup L m ?k = Some v"
      using get_total(3) [OF assms, of ?k v] P val [OF i] v by (simp add: key_ok_def)
    with P show "v \<in> {v. \<exists>k. key_ok k \<and> sm_lookup L m k = Some v}" by (auto simp: key_ok_def)
  next
    fix v assume "v \<in> {v. \<exists>k. key_ok k \<and> sm_lookup L m k = Some v}"
    then obtain k where k: "key_ok k" "sm_lookup L m k = Some v" by blast
    then have c: "contains L m k" using get_total(2) [OF assms k(1)] by simp
    then have l: "key_index L k \<in> live (slots m)" using contains_iff [OF assms k(1)] by simp
    with get_total(3) [OF assms k(1) c val [OF l]] k(2) live(1) show "v \<in> set (map ?val ?is)" by auto
  qed
  moreover have "sm_each m (it_begin m) [] = Some (map (it_deref m) ?is)"
    using sm_each_spec [OF it_begin_spec(1,2), of m "[]"] it_begin_spec(3) [of m] by simp
  ultimately show ?thesis by metis
qed

theorem slot_map_iteration_witness: "\<exists>vs. sm_each demo_map (it_begin demo_map) [] = Some (map Inr vs) \<and> length vs = sm_size demo_map"
proof -
  obtain fs where "sm_inv demo_layout demo_map fs" using demo_map_ok(1) by (auto simp: sm_ok_def)
  from slot_map_iteration [OF this] show ?thesis by blast
qed

section \<open>Versions run out\<close>

text \<open>Storing an element and removing it again, several times.\<close>

fun churn :: "key_layout \<Rightarrow> 'a \<Rightarrow> nat \<Rightarrow> 'a slot_map \<Rightarrow> 'a slot_map" where
  "churn L v 0 m = m"
| "churn L v (Suc n) m =
     (case sm_emplace L v m of (Inr k, m') \<Rightarrow> churn L v n (remove L k m') | (Inl e, m') \<Rightarrow> m')"

definition churned :: "key_layout \<Rightarrow> nat \<Rightarrow> 'a slot_map" where
  "churned L n = \<lparr>slots = [\<lparr>version = 2 * n, content = Next_free (invalid_index L)\<rparr>], free_head = 0, num_elems = 0\<rparr>"

lemma churned_inv:
  assumes "layout_ok L" and "0 < n" and "2 * n \<le> 2 ^ VERSION_BITS L"
  shows "sm_inv L (churned L n :: 'a slot_map) [0]"
proof -
  have "live (slots (churned L n :: 'a slot_map)) = {}" by (auto simp: live_def churned_def nth_Cons')
  with assms show ?thesis by (simp add: sm_inv_def churned_def slot_ok_def lessThan_Suc)
qed

lemma churn_step:
  assumes ly: "layout_ok L" and n: "0 < n" "2 * n < 2 ^ VERSION_BITS L"
  shows "sm_emplace L v (churned L n) = (Inr (pack_key L 0 (2 * n + 1)),
      \<lparr>slots = [\<lparr>version = 2 * n + 1, content = Value v\<rparr>], free_head = invalid_index L, num_elems = 1\<rparr>)"
    and "churn L v (Suc m) (churned L n) = churn L v m (churned L (n + 1))"
proof -
  have i0: "(0 :: nat) < 2 ^ index_bits L" by simp
  have ver: "2 * n + 1 < 2 ^ VERSION_BITS L" "odd (2 * n + 1)"
    using n(2) layout_bounds(5) [OF ly] by (cases "2 * n + 1 = 2 ^ VERSION_BITS L", presburger, simp)
      simp
  have I: "sm_inv L (churned L n) [0]" by (rule churned_inv) (use ly n in auto)
  note P = pack_key_parts [OF ly i0 ver]
  show e: "sm_emplace L v (churned L n) = (Inr (pack_key L 0 (2 * n + 1)),
      \<lparr>slots = [\<lparr>version = 2 * n + 1, content = Value v\<rparr>], free_head = invalid_index L, num_elems = 1\<rparr>)"
    using emplace_reuse(1) [OF I, of v] ver by (auto simp: churned_def key_new_spec [OF ly i0])
  let ?k = "pack_key L 0 (2 * n + 1)"
  let ?m = "\<lparr>slots = [\<lparr>version = 2 * n + 1, content = Value v\<rparr>], free_head = invalid_index L, num_elems = 1\<rparr>"
  from emplace_store(1) [OF I e] obtain fs where I': "sm_inv L ?m fs" by (auto simp: sm_ok_def)
  have "contains L ?m ?k" using P by (simp add: contains_def)
  from remove_spec(1) [OF I' _ this refl] P have "remove L ?k ?m = churned L (n + 1)"
    by (simp add: key_ok_def churned_def)
  with e show "churn L v (Suc m) (churned L n) = churn L v m (churned L (n + 1))" by simp
qed

lemma churn_churned:
  assumes ly: "layout_ok L" and "0 < n" and "2 * (n + m) \<le> 2 ^ VERSION_BITS L"
  shows "churn L v m (churned L n) = churned L (n + m)"
  using assms(2,3)
proof (induction m arbitrary: n)
  case (Suc m)
  then show ?case using churn_step(2) [OF ly, of n v m] by simp
qed simp

lemma churn_first:
  assumes ly: "layout_ok L"
  shows "churn L v (Suc n) (slot_map_new L) = churn L v n (churned L 1)"
proof -
  have i0: "(0 :: nat) < 2 ^ index_bits L" by simp
  have one: "(1 :: nat) < 2 ^ VERSION_BITS L" "odd (1 :: nat)"
    using one_less_power [of "2 :: nat", OF _ layout_split(2) [OF ly]] by simp_all
  note P = pack_key_parts [OF ly i0 one]
  let ?m = "\<lparr>slots = [\<lparr>version = 1, content = Value v\<rparr>], free_head = invalid_index L, num_elems = 1\<rparr>"
  have e: "sm_emplace L v (slot_map_new L) = (Inr (pack_key L 0 1), ?m)"
    using emplace_grow [OF slot_map_new_ok [OF ly], of v] one(1) layout_bounds(4) [OF ly]
    by (simp add: slot_map_new_def key_new_spec [OF ly i0])
  from emplace_store(1) [OF slot_map_new_ok [OF ly] e] obtain fs where I': "sm_inv L ?m fs" by (auto simp: sm_ok_def)
  have "contains L ?m (pack_key L 0 1)" using P by (simp add: contains_def)
  from remove_spec(1) [OF I' _ this refl] P have "remove L (pack_key L 0 1) ?m = churned L 1"
    by (simp add: key_ok_def churned_def)
  with e show ?thesis by simp
qed

text \<open>
  A slot can be reused only \<open>2 ^ (VERSION_BITS - 1)\<close> times. After so many pairs of
  \<open>sm_emplace\<close> and \<open>remove\<close>, with never more than one element stored, the next
  \<open>sm_emplace\<close> fails the assertion on the version bits; and without assertions the key it
  computes names a different slot.
\<close>

theorem slot_map_version_exhausted:
  assumes "layout_ok L"
  shows "fst (sm_emplace L v (churn L v (2 ^ (VERSION_BITS L - 1)) (slot_map_new L))) = Inl (Tt_assert ''version bits'') \<and>
    key_index L (pack_key L 0 (2 ^ VERSION_BITS L + 1)) = 1"
proof -
  let ?n = "2 ^ (VERSION_BITS L - 1) :: nat"
  have V: "2 * ?n = 2 ^ VERSION_BITS L" using layout_split(2) [OF assms] by (cases "VERSION_BITS L") auto
  have i0: "(0 :: nat) < 2 ^ index_bits L" by simp
  have "churn L v ?n (slot_map_new L) = churned L ?n"
    using churn_first [OF assms, of v "?n - 1"] churn_churned [OF assms, of 1 "?n - 1" v] V by simp
  moreover have "sm_inv L (churned L ?n) [0]" by (rule churned_inv [OF assms]) (use V in auto)
  from emplace_reuse(1) [OF this, of v]
  have "fst (sm_emplace L v (churned L ?n)) = key_new L 0 (2 ^ VERSION_BITS L + 1)"
    unfolding V [symmetric] by (auto simp: churned_def)
  moreover have "pack_key L 0 (2 ^ VERSION_BITS L + 1) = 2 ^ VERSION_BITS L + 1"
    using or_one_eq [of "2 ^ VERSION_BITS L + 1 :: nat"] layout_bounds(5) [OF assms] by (simp add: pack_key_def)
  then have "key_index L (pack_key L 0 (2 ^ VERSION_BITS L + 1)) = 1"
    using div_mult_self3 [of "2 ^ VERSION_BITS L" 1 "1 :: nat"] one_less_power [of "2 :: nat", OF _ layout_split(2) [OF assms]]
    by (simp add: key_parts(1) [OF assms])
  ultimately show ?thesis by (simp add: key_new_spec [OF assms i0])
qed

theorem slot_map_version_exhausted_witness:
  "fst (sm_emplace demo_layout (5 :: nat) (churn demo_layout 5 32 (slot_map_new demo_layout))) = Inl (Tt_assert ''version bits'')"
  using slot_map_version_exhausted [OF demo_layout_ok(1), of "5 :: nat"] by (simp add: demo_layout_ok(2))

text \<open>
  Clearing starts the versions again: a key from before can name an element stored later.
\<close>

lemma slot_map_clear_revives_key:
  "sm_emplace demo_layout 42 (sm_clear demo_layout demo_map) = (Inr 1, demo_map)"
proof -
  have "sm_clear demo_layout demo_map = slot_map_new demo_layout"
    by (cases demo_map) (simp add: sm_clear_def slot_map_new_def)
  then show ?thesis using demo_map_key by simp
qed

end
