(* ===== verification/Buffer_Pages.thy ===== *)
theory Buffer_Pages
  imports Device_Allocator
begin

text \<open>
  Shapes and pages of a buffer: the shard specification, the sizes derived from it, the
  addresses of pages and the mapping between host pages and device pages of a sharded
  buffer (src/tt_metal/impl/buffers/buffer.cpp and buffer.hpp).

  An array of two numbers is a pair. An access to a vector out of range is \<open>Undefined\<close>.
  The fields of \<open>Buffer\<close> that concern its allocation are in the theory of its life cycle.
\<close>

unbundle bit_operations_syntax

section \<open>Data\<close>

datatype tensor_memory_layout = INTERLEAVED | SINGLE_BANK | HEIGHT_SHARDED | WIDTH_SHARDED | BLOCK_SHARDED

datatype shard_orientation = ROW_MAJOR | COL_MAJOR

datatype shard_mode = PHYSICAL | LOGICAL

record shard_spec =
  grid :: core_range_set
  shard_shape :: "u32 \<times> u32"
  orientation :: shard_orientation
  halo :: bool
  mode :: shard_mode
  physical_shard_shape :: "(u32 \<times> u32) option"

record shard_spec_buffer =
  tensor_shard_spec :: shard_spec
  page_shape :: "u32 \<times> u32"
  tensor2d_shape :: "u32 \<times> u32"

definition shard_spec_new :: "core_range_set \<Rightarrow> u32 \<times> u32 \<Rightarrow> shard_orientation \<Rightarrow> bool \<Rightarrow> shard_mode \<Rightarrow> shard_spec" where
  "shard_spec_new g sh ori h md =
     \<lparr>grid = g, shard_shape = sh, orientation = ori, halo = h, mode = md, physical_shard_shape = None\<rparr>"

definition shard_spec_physical ::
    "core_range_set \<Rightarrow> u32 \<times> u32 \<Rightarrow> u32 \<times> u32 \<Rightarrow> shard_orientation \<Rightarrow> bool \<Rightarrow> tt_error + shard_spec" where
  "shard_spec_physical g sh phys ori h =
     (if \<not> (fst phys \<ge> fst sh \<and> snd phys \<ge> snd sh)
      then Inl (Tt_fatal ''Physical shard shape must be greater or equal to logical shard shape'')
      else Inr \<lparr>grid = g, shard_shape = sh, orientation = ori, halo = h, mode = LOGICAL,
                physical_shard_shape = Some phys\<rparr>)"

definition spec_num_cores :: "shard_spec \<Rightarrow> u32" where
  "spec_num_cores s = num_cores (grid s)"

definition spec_numel :: "shard_spec \<Rightarrow> u32" where
  "spec_numel s = mul32 (fst (shard_shape s)) (snd (shard_shape s))"

definition shape_in_pages :: "shard_spec_buffer \<Rightarrow> u32 \<times> u32" where
  "shape_in_pages sp =
     (let sh = shard_shape (tensor_shard_spec sp); pg = page_shape sp
      in (if fst pg = 0 then 0 else fst sh div fst pg, if snd pg = 0 then 0 else snd sh div snd pg))"

definition spec_size :: "shard_spec_buffer \<Rightarrow> u64" where
  "spec_size sp = mul32 (fst (shape_in_pages sp)) (snd (shape_in_pages sp))"

text \<open>The part of \<open>Buffer\<close> that does not change with its allocation.\<close>

record buffer_shape =
  bf_size :: u64
  bf_page_size :: u64
  bf_type :: buffer_type
  bf_layout :: tensor_memory_layout
  shard_parameters :: "shard_spec_buffer option"

section \<open>Checks and sizes\<close>

definition is_sharded :: "tensor_memory_layout \<Rightarrow> bool" where
  "is_sharded l \<longleftrightarrow> l = HEIGHT_SHARDED \<or> l = WIDTH_SHARDED \<or> l = BLOCK_SHARDED"

definition is_l1 :: "buffer_type \<Rightarrow> bool" where
  "is_l1 t \<longleftrightarrow> t = L1 \<or> t = L1_SMALL"

definition is_dram :: "buffer_type \<Rightarrow> bool" where
  "is_dram t \<longleftrightarrow> t = DRAM \<or> t = TRACE"

definition is_trace :: "buffer_type \<Rightarrow> bool" where
  "is_trace t \<longleftrightarrow> t = TRACE"

definition validate_buffer_size_and_page_size ::
    "u64 \<Rightarrow> u64 \<Rightarrow> tensor_memory_layout \<Rightarrow> shard_spec_buffer option \<Rightarrow> tt_error + unit" where
  "validate_buffer_size_and_page_size sz page layout params =
     (if sz = 0 then Inr ()
      else if page = 0 then Inl Div_by_zero
      else if sz mod page \<noteq> 0 then Inl (Tt_fatal ''page size'')
      else if is_sharded layout then
        if params = None then Inl (Tt_fatal ''sharded without shard_parameters'') else Inr ()
      else if params \<noteq> None then Inl (Tt_fatal ''not sharded but has shard_parameters'')
      else if layout = SINGLE_BANK \<and> page \<noteq> sz then Inl (Tt_fatal ''Contiguous buffer must be one contiguous page'')
      else Inr ())"

definition validate_sub_device_id ::
    "'id option \<Rightarrow> ('id \<Rightarrow> core_range_set) \<Rightarrow> buffer_type \<Rightarrow> shard_spec_buffer option \<Rightarrow> tt_error + unit" where
  "validate_sub_device_id sub_device_id worker_cores t params =
     (case sub_device_id of
        None \<Rightarrow> Inr ()
      | Some sd \<Rightarrow>
          (case params of
             None \<Rightarrow> Inl (Tt_fatal ''Specifying sub-device for buffer requires buffer to be sharded'')
           | Some sp \<Rightarrow>
               if \<not> is_l1 t then Inl (Tt_fatal ''Specifying sub-device for buffer requires buffer to be L1'')
               else if \<not> crs_contains (worker_cores sd) (grid (tensor_shard_spec sp))
                 then Inl (Tt_fatal ''Shard cores do not match sub-device cores'')
               else Inr ()))"

definition get_shard_spec :: "buffer_shape \<Rightarrow> tt_error + shard_spec_buffer" where
  "get_shard_spec b =
     (if \<not> is_sharded (bf_layout b) then Inl (Tt_fatal ''Buffer not sharded'')
      else case shard_parameters b of
             None \<Rightarrow> Inl (Tt_fatal ''Buffer is sharded, but no shard parameters specified'')
           | Some sp \<Rightarrow> Inr sp)"

definition bf_num_cores :: "buffer_shape \<Rightarrow> tt_error + u32 option" where
  "bf_num_cores b =
     (if \<not> is_sharded (bf_layout b) then Inr None
      else bind_result (get_shard_spec b) (\<lambda>sp. Inr (Some (num_cores (grid (tensor_shard_spec sp))))))"

definition num_pages :: "buffer_shape \<Rightarrow> u32" where
  "num_pages b = (if bf_page_size b = 0 then 0 else (bf_size b div bf_page_size b) mod 2 ^ 32)"

definition num_dev_pages :: "buffer_shape \<Rightarrow> tt_error + u32" where
  "num_dev_pages b =
     (if \<not> is_sharded (bf_layout b) then Inr (num_pages b)
      else bind_result (get_shard_spec b) (\<lambda>sp. Inr (mul64 (spec_size sp) (num_cores (grid (tensor_shard_spec sp))) mod 2 ^ 32)))"

definition aligned_page_size :: "buffer_shape \<Rightarrow> u32 \<Rightarrow> u64" where
  "aligned_page_size b al = align_u32 (bf_page_size b mod 2 ^ 32) (al mod 2 ^ 32)"

definition aligned_size :: "buffer_shape \<Rightarrow> u32 \<Rightarrow> tt_error + u64" where
  "aligned_size b al = bind_result (num_dev_pages b) (\<lambda>n. Inr (mul64 n (aligned_page_size b al)))"

definition aligned_size_per_bank :: "buffer_shape \<Rightarrow> u32 \<Rightarrow> u32 \<Rightarrow> tt_error + u64" where
  "aligned_size_per_bank b al device_num_banks =
     bind_result (bf_num_cores b) (\<lambda>nc.
     bind_result (aligned_size b al) (\<lambda>sz.
       SizeBytesPerBank sz (aligned_page_size b al)
         (case nc of Some n \<Rightarrow> n | None \<Rightarrow> device_num_banks) al))"

definition set_page_size :: "u64 \<Rightarrow> buffer_shape \<Rightarrow> (tt_error + unit) \<times> buffer_shape" where
  "set_page_size page b =
     (if \<not> (if page = 0 then bf_size b = 0 else bf_size b mod page = 0)
      then (Inl (Tt_fatal ''buffer size must be divisible by new page size''), b)
      else (Inr (), b\<lparr>bf_page_size := page\<rparr>))"

definition set_shard_spec :: "shard_spec_buffer \<Rightarrow> buffer_shape \<Rightarrow> buffer_shape" where
  "set_shard_spec sp b = b\<lparr>shard_parameters := Some sp\<rparr>"

section \<open>Addresses of pages\<close>

text \<open>The address of the buffer is 32 bits wide; the offset of a bank may be negative.\<close>

definition translate_page_address :: "allocator \<Rightarrow> buffer_type \<Rightarrow> u32 \<Rightarrow> u64 \<Rightarrow> u32 \<Rightarrow> tt_error + u64" where
  "translate_page_address a t base_address offset bank_id =
     bind_result (alloc_bank_offset a t bank_id) (\<lambda>off.
       Inr (add64 (nat ((int base_address + off) mod 2 ^ 32)) offset))"

definition page_address :: "allocator \<Rightarrow> buffer_shape \<Rightarrow> u32 \<Rightarrow> u32 \<Rightarrow> u32 \<Rightarrow> tt_error + u64" where
  "page_address a b base_address bank_id page_index =
     bind_result (alloc_num_banks a (bf_type b)) (\<lambda>num_banks.
       if \<not> bank_id < num_banks then Inl (Tt_fatal ''Invalid Bank ID'')
       else
         bind_result (round_up (bf_page_size b mod 2 ^ 32) (cfg_alignment (alloc_config a))) (\<lambda>p.
           translate_page_address a (bf_type b) base_address (mul32 p (page_index div num_banks)) bank_id))"

definition sharded_page_address :: "allocator \<Rightarrow> buffer_shape \<Rightarrow> u32 \<Rightarrow> u32 \<Rightarrow> u32 \<Rightarrow> tt_error + u64" where
  "sharded_page_address a b base_address bank_id page_index =
     bind_result (get_shard_spec b) (\<lambda>sp.
       if spec_size sp = 0 then Inl Div_by_zero
       else
         bind_result (round_up (bf_page_size b mod 2 ^ 32) (cfg_alignment (alloc_config a))) (\<lambda>p.
           translate_page_address a (bf_type b) base_address (mul32 p (page_index mod spec_size sp)) bank_id))"

section \<open>Host pages of a shard\<close>

text \<open>
  \<open>core_to_host_pages\<close> for height sharding: each shard takes the next pages. The result is
  the pages and the shape in pages of each shard.
\<close>

fun height_shards :: "u32 \<Rightarrow> u32 \<times> u32 \<Rightarrow> nat \<Rightarrow> u32 \<Rightarrow> u32 \<Rightarrow> tt_error + (u32 list \<times> u32 \<times> u32) list" where
  "height_shards pages_per_shard sip 0 rem_pages page_id = Inr []"
| "height_shards pages_per_shard sip (Suc n) rem_pages page_id =
     (if rem_pages = 0 then
        bind_result (height_shards pages_per_shard sip n rem_pages page_id) (\<lambda>rest. Inr (([], 0, 0) # rest))
      else
        let cols = min pages_per_shard rem_pages
        in if pages_per_shard > rem_pages \<and> snd sip = 0 then Inl Div_by_zero
           else
             let shape = (if pages_per_shard > rem_pages then (rem_pages div snd sip, snd sip) else sip)
             in bind_result (height_shards pages_per_shard sip n (rem_pages - cols) (add32 page_id cols))
                  (\<lambda>rest. Inr ((map (add32 page_id) [0 ..< cols], shape) # rest)))"

text \<open>One shard of a width or block sharding, at the given offsets.\<close>

definition block_shard :: "u32 \<times> u32 \<Rightarrow> u32 \<times> u32 \<Rightarrow> u32 \<Rightarrow> u32 \<Rightarrow> u32 list \<times> u32 \<times> u32" where
  "block_shard sip tensor2d i_offset j_offset =
     (let rows = takeWhile (\<lambda>i. i < fst tensor2d) [i_offset ..< add32 (fst sip) i_offset];
          cols = takeWhile (\<lambda>j. j < snd tensor2d) [j_offset ..< add32 (snd sip) j_offset]
      in (concat (map (\<lambda>i. map (\<lambda>j. add32 (mul32 i (snd tensor2d)) j) cols) rows),
          length rows, if rows = [] then sub32 0 j_offset else length cols))"

fun block_shards ::
    "u32 \<times> u32 \<Rightarrow> u32 \<times> u32 \<Rightarrow> u32 \<Rightarrow> nat \<Rightarrow> u32 \<Rightarrow> u32 \<Rightarrow> u32 \<Rightarrow> (u32 list \<times> u32 \<times> u32) list" where
  "block_shards sip tensor2d ncols 0 i_offset j_offset shard_in_row = []"
| "block_shards sip tensor2d ncols (Suc n) i_offset j_offset shard_in_row =
     block_shard sip tensor2d i_offset j_offset #
     (if add32 shard_in_row 1 = ncols
      then block_shards sip tensor2d ncols n (add32 i_offset (fst sip)) 0 0
      else block_shards sip tensor2d ncols n i_offset (add32 j_offset (snd sip)) (add32 shard_in_row 1))"

definition core_to_host_pages ::
    "u32 \<Rightarrow> u32 \<Rightarrow> tensor_memory_layout \<Rightarrow> u32 \<times> u32 \<Rightarrow> u32 \<times> u32 \<Rightarrow> u32 \<times> u32 \<Rightarrow>
       tt_error + (u32 list \<times> u32 \<times> u32) list" where
  "core_to_host_pages pages_per_shard num_shards layout page sh tensor2d =
     (let sip = (if fst page = 0 then 0 else fst sh div fst page, if snd page = 0 then 0 else snd sh div snd page)
      in if layout = HEIGHT_SHARDED
         then height_shards pages_per_shard sip num_shards (mul32 (fst tensor2d) (snd tensor2d)) 0
         else if layout = WIDTH_SHARDED \<or> layout = BLOCK_SHARDED
         then bind_result (if snd sip = 0 then Inr 0 else div_up (snd tensor2d) (snd sip))
                (\<lambda>ncols. Inr (block_shards sip tensor2d ncols num_shards 0 0 0))
         else Inr (replicate num_shards ([], sip)))"

section \<open>The page mapping\<close>

record page_mapping =
  all_cores :: "core_coord list"
  core_host_page_indices :: "u32 list list"
  dev_page_to_core_mapping :: "u32 list"
  dev_page_to_host_page_mapping :: "u32 option list"
  host_page_to_dev_page_mapping :: "u32 list"
  core_to_core_id :: "(core_coord \<times> u32) list"
  host_page_to_local_shard_page_mapping :: "u32 list"
  core_shard_shape :: "(u32 \<times> u32) list"

text \<open>The mapping with the counters of the loops: device page, page in the shard, valid page.\<close>

type_synonym mapping_state = "page_mapping \<times> u32 \<times> u32 \<times> u32"

definition map_page :: "nat \<Rightarrow> u32 list \<Rightarrow> u32 \<times> u32 \<Rightarrow> u32 \<times> u32 \<Rightarrow> mapping_state \<Rightarrow> tt_error + mapping_state" where
  "map_page core pages shape xy st =
     (case st of (pm, dev, local, valid) \<Rightarrow>
        if \<not> dev < length (dev_page_to_core_mapping pm) then Inl Undefined
        else
          let pm = pm\<lparr>dev_page_to_core_mapping := (dev_page_to_core_mapping pm)[dev := core]\<rparr>
          in if fst xy < fst shape \<and> snd xy < snd shape then
               if \<not> (valid < length pages \<and> dev < length (dev_page_to_host_page_mapping pm) \<and>
                     core < length (core_host_page_indices pm)) then Inl Undefined
               else
                 let host_page = pages ! valid
                 in if \<not> (host_page < length (host_page_to_local_shard_page_mapping pm) \<and>
                          host_page < length (host_page_to_dev_page_mapping pm)) then Inl Undefined
                    else Inr (pm\<lparr>dev_page_to_host_page_mapping := (dev_page_to_host_page_mapping pm)[dev := Some host_page],
                                core_host_page_indices := (core_host_page_indices pm)
                                  [core := core_host_page_indices pm ! core @ [host_page]],
                                host_page_to_local_shard_page_mapping :=
                                  (host_page_to_local_shard_page_mapping pm)[host_page := local],
                                host_page_to_dev_page_mapping :=
                                  (host_page_to_dev_page_mapping pm)[host_page := dev]\<rparr>,
                              dev + 1, local + 1, valid + 1)
             else Inr (pm, dev + 1, local + 1, valid))"

fun map_pages ::
    "nat \<Rightarrow> u32 list \<Rightarrow> u32 \<times> u32 \<Rightarrow> (u32 \<times> u32) list \<Rightarrow> mapping_state \<Rightarrow> tt_error + mapping_state" where
  "map_pages core pages shape [] st = Inr st"
| "map_pages core pages shape (xy # xys) st =
     bind_result (map_page core pages shape xy st) (map_pages core pages shape xys)"

fun map_cores ::
    "u32 \<times> u32 \<Rightarrow> nat \<Rightarrow> (u32 list \<times> u32 \<times> u32) list \<Rightarrow> page_mapping \<times> u32 \<Rightarrow> tt_error + page_mapping \<times> u32" where
  "map_cores sip core [] st = Inr st"
| "map_cores sip core ((pages, shape) # rest) (pm, dev) =
     bind_result (map_pages core pages shape (List.product [0 ..< fst sip] [0 ..< snd sip]) (pm, dev, 0, 0))
       (\<lambda>(pm, dev, _, _). map_cores sip (core + 1) rest (pm, dev))"

fun number_cores :: "u32 \<Rightarrow> core_coord list \<Rightarrow> (core_coord \<times> u32) list \<Rightarrow> (core_coord \<times> u32) list" where
  "number_cores i [] m = m"
| "number_cores i (c # cs) m = number_cores (i + 1) cs (map_insert c i m)"

definition empty_mapping :: page_mapping where
  "empty_mapping = \<lparr>all_cores = [], core_host_page_indices = [], dev_page_to_core_mapping = [],
     dev_page_to_host_page_mapping = [], host_page_to_dev_page_mapping = [], core_to_core_id = [],
     host_page_to_local_shard_page_mapping = [], core_shard_shape = []\<rparr>"

definition generate_buffer_page_mapping :: "buffer_shape \<Rightarrow> tt_error + page_mapping" where
  "generate_buffer_page_mapping b =
     (if bf_size b = 0 then Inr empty_mapping
      else
        bind_result (get_shard_spec b) (\<lambda>sp.
          let num = num_cores (grid (tensor_shard_spec sp));
              cores = corerange_to_cores (grid (tensor_shard_spec sp)) (Some num)
                        (orientation (tensor_shard_spec sp) = ROW_MAJOR)
          in if num \<noteq> length cores then Inl (Tt_fatal ''page mapping expects other number of cores'')
             else
               bind_result (num_dev_pages b) (\<lambda>ndev.
               bind_result (core_to_host_pages (spec_size sp mod 2 ^ 32) num (bf_layout b) (page_shape sp)
                              (shard_shape (tensor_shard_spec sp)) (tensor2d_shape sp)) (\<lambda>shards.
                 bind_result (map_cores (shape_in_pages sp) 0 shards
                   (\<lparr>all_cores = cores, core_host_page_indices = replicate num [],
                     dev_page_to_core_mapping = replicate ndev 0,
                     dev_page_to_host_page_mapping = replicate ndev None,
                     host_page_to_dev_page_mapping = replicate (num_pages b) 0,
                     core_to_core_id = number_cores 0 cores [],
                     host_page_to_local_shard_page_mapping = replicate (num_pages b) 0,
                     core_shard_shape = map snd shards\<rparr>, 0))
                   (\<lambda>(pm, _). Inr pm)))))"

end
