(* ===== verification/Buffer_Pages_Props.thy ===== *)
theory Buffer_Pages_Props
  imports Buffer_Pages Core_Coord_Theorems
begin

text \<open>
  The mapping loop as a list of device pages: which of them carry a host page, and that the
  tables from host pages to device pages and back agree with this list.
\<close>

section \<open>Positions that carry a page\<close>

fun assign :: "bool list \<Rightarrow> 'h list \<Rightarrow> 'h option list" where
  "assign [] hs = []"
| "assign (False # bs) hs = None # assign bs hs"
| "assign (True # bs) [] = None # assign bs []"
| "assign (True # bs) (h # hs) = Some h # assign bs hs"

definition somes :: "'h option list \<Rightarrow> 'h list" where
  "somes xs = concat (map (\<lambda>x. case x of None \<Rightarrow> [] | Some h \<Rightarrow> [h]) xs)"

lemma somes_simps [simp]:
  "somes [] = []" "somes (None # xs) = somes xs" "somes (Some h # xs) = h # somes xs"
  "somes (xs @ ys) = somes xs @ somes ys"
  by (simp_all add: somes_def)

lemma set_somes: "h \<in> set (somes xs) \<longleftrightarrow> Some h \<in> set xs"
  by (auto simp: somes_def split: option.splits intro: bexI [of _ "Some h"])

lemma length_assign [simp]: "length (assign bs hs) = length bs"
  by (induction bs hs rule: assign.induct) simp_all

lemma somes_assign: "length (filter id bs) = length hs \<Longrightarrow> somes (assign bs hs) = hs"
  by (induction bs hs rule: assign.induct) simp_all

lemma somes_concat: "somes (concat xss) = concat (map somes xss)"
  by (induction xss) simp_all

lemma distinct_somes_nth:
  assumes "distinct (somes xs)" and "i < length xs" and "j < length xs" and "xs ! i = Some h" and "xs ! j = Some h"
  shows "i = j"
  using assms
proof (induction xs arbitrary: i j)
  case (Cons x xs)
  have *: "Some h \<in> set xs" if "k < length xs" "xs ! k = Some h" for k using that nth_mem by fastforce
  show ?case
  proof (cases i; cases j)
    fix k assume "i = 0" "j = Suc k"
    with Cons.prems * [of k] show ?thesis by (auto simp: set_somes)
  next
    fix k assume "i = Suc k" "j = 0"
    with Cons.prems * [of k] show ?thesis by (auto simp: set_somes)
  next
    fix k l assume "i = Suc k" "j = Suc l"
    with Cons.IH [of k l] Cons.prems show ?thesis by (cases x) auto
  qed simp
qed simp

section \<open>The loop over device pages\<close>

definition mapped :: "nat \<Rightarrow> nat \<Rightarrow> nat \<Rightarrow> u32 option list \<Rightarrow> page_mapping \<Rightarrow> bool" where
  "mapped n N S D pm \<longleftrightarrow> length D \<le> n \<and>
     dev_page_to_host_page_mapping pm = D @ replicate (n - length D) None \<and>
     dev_page_to_core_mapping pm = map (\<lambda>d. d div S) [0 ..< length D] @ replicate (n - length D) 0 \<and>
     length (host_page_to_dev_page_mapping pm) = N \<and> length (host_page_to_local_shard_page_mapping pm) = N \<and>
     (\<forall>d h. d < length D \<and> D ! d = Some h \<longrightarrow>
        h < N \<and> host_page_to_dev_page_mapping pm ! h = d \<and> host_page_to_local_shard_page_mapping pm ! h = d mod S)"

lemma update_replicate:
  "k = length xs \<Longrightarrow> k < n \<Longrightarrow> (xs @ replicate (n - k) z)[k := v] = (xs @ [v]) @ replicate (n - Suc k) z"
proof -
  assume k: "k = length xs" "k < n"
  then obtain m where "n - k = Suc m" "n - Suc k = m" by (metis Suc_diff_Suc)
  with k show ?thesis by (simp add: list_update_append)
qed

lemma replicate_step: "k < n \<Longrightarrow> replicate (n - k) z = z # replicate (n - Suc k) z"
  by (metis Suc_diff_Suc replicate_Suc)

lemma map_page_spec:
  assumes M: "mapped n N S D pm" and d: "d = length D" "d < n" and c: "c = d div S" and l: "l = d mod S"
    and A: "core_host_page_indices pm = A @ acc # B" "length A = c"
    and v: "fst xy < fst shape \<and> snd xy < snd shape \<longrightarrow> valid < length pages \<and> pages ! valid < N \<and> pages ! valid \<notin> set (somes D)"
    and r: "r = (if fst xy < fst shape \<and> snd xy < snd shape then [pages ! valid] else [])"
    and x: "x = (if fst xy < fst shape \<and> snd xy < snd shape then Some (pages ! valid) else None)"
  shows "\<exists>pm'. map_page c pages shape xy (pm, d, l, valid) = Inr (pm', d + 1, l + 1, valid + length r) \<and>
    mapped n N S (D @ [x]) pm' \<and> core_host_page_indices pm' = A @ (acc @ r) # B \<and>
    all_cores pm' = all_cores pm \<and> core_to_core_id pm' = core_to_core_id pm \<and> core_shard_shape pm' = core_shard_shape pm"
proof -
  have core: "(dev_page_to_core_mapping pm)[d := c] = map (\<lambda>d. d div S) [0 ..< Suc d] @ replicate (n - Suc d) 0"
    using M d c update_replicate [of d "map (\<lambda>d. d div S) [0 ..< d]" n 0 c] by (simp add: mapped_def)
  have len: "length (dev_page_to_core_mapping pm) = n" "length (dev_page_to_host_page_mapping pm) = n"
    using M d by (auto simp: mapped_def)
  show ?thesis
  proof (cases "fst xy < fst shape \<and> snd xy < snd shape")
    case True
    let ?h = "pages ! valid"
    have v: "valid < length pages" "?h < N" "?h \<notin> set (somes D)" using v True by auto
    have host: "(dev_page_to_host_page_mapping pm)[d := Some ?h] = (D @ [Some ?h]) @ replicate (n - Suc d) None"
      using M d update_replicate [of d D n None "Some ?h"] by (simp add: mapped_def)
    have ne: "?h \<noteq> h" if "e < d" "D ! e = Some h" for e h
      using v(3) that d(1) by (auto simp: set_somes dest: nth_mem)
    let ?pm = "pm\<lparr>dev_page_to_core_mapping := (dev_page_to_core_mapping pm)[d := c],
      dev_page_to_host_page_mapping := (dev_page_to_host_page_mapping pm)[d := Some ?h],
      core_host_page_indices := (core_host_page_indices pm)[c := core_host_page_indices pm ! c @ [?h]],
      host_page_to_local_shard_page_mapping := (host_page_to_local_shard_page_mapping pm)[?h := l],
      host_page_to_dev_page_mapping := (host_page_to_dev_page_mapping pm)[?h := d]\<rparr>"
    have "map_page c pages shape xy (pm, d, l, valid) = Inr (?pm, d + 1, l + 1, valid + 1)"
      using True v d len M A by (simp add: map_page_def mapped_def Let_def)
    moreover have "mapped n N S (D @ [Some ?h]) ?pm"
      unfolding mapped_def
      using M d host core v l ne by (auto simp: mapped_def nth_append less_Suc_eq nth_list_update)
    moreover have "(core_host_page_indices pm)[c := core_host_page_indices pm ! c @ [?h]] = A @ (acc @ [?h]) # B"
      using A by (simp add: list_update_append nth_append)
    ultimately show ?thesis using True by (simp add: r x)
  next
    case False
    then have "map_page c pages shape xy (pm, d, l, valid) =
        Inr (pm\<lparr>dev_page_to_core_mapping := (dev_page_to_core_mapping pm)[d := c]\<rparr>, d + 1, l + 1, valid)"
      using d len by (auto simp: map_page_def Let_def)
    moreover have "mapped n N S (D @ [None]) (pm\<lparr>dev_page_to_core_mapping := (dev_page_to_core_mapping pm)[d := c]\<rparr>)"
      using M d core by (auto simp: mapped_def nth_append less_Suc_eq replicate_step)
    ultimately show ?thesis using False A by (auto simp: r x)
  qed
qed

definition in_shard :: "u32 \<times> u32 \<Rightarrow> u32 \<times> u32 \<Rightarrow> bool" where
  "in_shard shape xy \<longleftrightarrow> fst xy < fst shape \<and> snd xy < snd shape"

text \<open>The fields the loops do not write.\<close>

definition same_frame :: "page_mapping \<Rightarrow> page_mapping \<Rightarrow> bool" where
  "same_frame pm pm' \<longleftrightarrow> all_cores pm' = all_cores pm \<and> core_to_core_id pm' = core_to_core_id pm \<and>
     core_shard_shape pm' = core_shard_shape pm"

lemma map_pages_spec:
  assumes "mapped n N S D pm" and "d = length D" and "d + length xys \<le> n" and "d = c * S + l"
    and "l + length xys \<le> S" and "core_host_page_indices pm = A @ acc # B" and "length A = c"
    and "hs = take (length (filter (in_shard shape) xys)) (drop valid pages)"
    and "valid + length (filter (in_shard shape) xys) \<le> length pages"
    and "set hs \<subseteq> {..< N}" and "distinct (somes D @ hs)"
  shows "\<exists>pm' l' v'. map_pages c pages shape xys (pm, d, l, valid) = Inr (pm', d + length xys, l', v') \<and>
    mapped n N S (D @ assign (map (in_shard shape) xys) hs) pm' \<and> core_host_page_indices pm' = A @ (acc @ hs) # B \<and>
    same_frame pm pm'"
  using assms
proof (induction xys arbitrary: D pm d l valid acc hs)
  case Nil
  then show ?case by (simp add: same_frame_def)
next
  case (Cons xy xys)
  let ?v = "in_shard shape xy"
  let ?r = "if ?v then [pages ! valid] else []" and ?x = "if ?v then Some (pages ! valid) else None"
  let ?hs = "take (length (filter (in_shard shape) xys)) (drop (valid + length ?r) pages)"
  have hs: "hs = ?r @ ?hs"
    using Cons.prems(8,9) by (auto simp: Cons_nth_drop_Suc [symmetric])
  have "l < S" using Cons.prems(5) by simp
  then have cl: "c = d div S" "l = d mod S" using Cons.prems(4) by simp_all
  have v: "?v \<longrightarrow> valid < length pages \<and> pages ! valid < N \<and> pages ! valid \<notin> set (somes D)"
    using Cons.prems(9,10,11) hs by auto
  have dn: "d < n" using Cons.prems(3) by simp
  from map_page_spec [OF Cons.prems(1,2) dn cl Cons.prems(6,7), of xy shape valid pages ?r ?x] v
  obtain pm1 where pm1: "map_page c pages shape xy (pm, d, l, valid) = Inr (pm1, d + 1, l + 1, valid + length ?r)"
    "mapped n N S (D @ [?x]) pm1" "core_host_page_indices pm1 = A @ (acc @ ?r) # B" "same_frame pm pm1"
    unfolding in_shard_def [symmetric] same_frame_def by auto
  have so: "somes (D @ [?x]) = somes D @ ?r" by simp
  have "\<exists>pm' l' v'. map_pages c pages shape xys (pm1, d + 1, l + 1, valid + length ?r) =
      Inr (pm', d + 1 + length xys, l', v') \<and>
    mapped n N S ((D @ [?x]) @ assign (map (in_shard shape) xys) ?hs) pm' \<and>
    core_host_page_indices pm' = A @ ((acc @ ?r) @ ?hs) # B \<and> same_frame pm1 pm'"
  proof (rule Cons.IH [OF pm1(2) _ _ _ _ pm1(3) Cons.prems(7) refl])
    show "distinct (somes (D @ [?x]) @ ?hs)" unfolding so using Cons.prems(11) hs by simp
    show "set ?hs \<subseteq> {..< N}" using Cons.prems(10) hs by auto
  qed (use Cons.prems in auto)
  then obtain pm' l' v' where "map_pages c pages shape xys (pm1, d + 1, l + 1, valid + length ?r) =
      Inr (pm', d + 1 + length xys, l', v')"
    "mapped n N S ((D @ [?x]) @ assign (map (in_shard shape) xys) ?hs) pm'"
    "core_host_page_indices pm' = A @ ((acc @ ?r) @ ?hs) # B" "same_frame pm1 pm'" by blast
  moreover have "(D @ [?x]) @ assign (map (in_shard shape) xys) ?hs = D @ assign (map (in_shard shape) (xy # xys)) hs"
    unfolding hs by (cases ?v) simp_all
  ultimately show ?case using pm1(1,4) hs by (simp add: same_frame_def)
qed

section \<open>The loop over cores\<close>

text \<open>A shard fits: it has as many pages as its shape has places inside the shard.\<close>

definition shard_fits :: "u32 \<times> u32 \<Rightarrow> u32 list \<times> u32 \<times> u32 \<Rightarrow> bool" where
  "shard_fits sip s \<longleftrightarrow> (case s of (pages, shape) \<Rightarrow>
     length pages = length (filter (in_shard shape) (List.product [0 ..< fst sip] [0 ..< snd sip])))"

definition dev_pages :: "u32 \<times> u32 \<Rightarrow> u32 list \<times> u32 \<times> u32 \<Rightarrow> u32 option list" where
  "dev_pages sip s = (case s of (pages, shape) \<Rightarrow>
     assign (map (in_shard shape) (List.product [0 ..< fst sip] [0 ..< snd sip])) pages)"

lemma somes_dev_pages: "shard_fits sip s \<Longrightarrow> somes (dev_pages sip s) = fst s"
  by (cases s) (simp add: shard_fits_def dev_pages_def somes_assign filter_map o_def)

lemma length_dev_pages [simp]: "length (dev_pages sip s) = fst sip * snd sip"
  by (cases s) (simp add: dev_pages_def)

lemma map_cores_spec:
  assumes "mapped n N S D pm" and "S = fst sip * snd sip" and "length D = core * S" and "core * S + length shards * S \<le> n"
    and "core_host_page_indices pm = A @ replicate (length shards) []" and "length A = core"
    and "\<forall>s \<in> set shards. shard_fits sip s" and "\<forall>s \<in> set shards. set (fst s) \<subseteq> {..< N}"
    and "distinct (somes D @ concat (map fst shards))"
  shows "\<exists>pm' d'. map_cores sip core shards (pm, core * S) = Inr (pm', d') \<and>
    mapped n N S (D @ concat (map (dev_pages sip) shards)) pm' \<and>
    core_host_page_indices pm' = A @ map fst shards \<and> same_frame pm pm'"
  using assms
proof (induction shards arbitrary: D pm core A)
  case Nil
  then show ?case by (simp add: same_frame_def)
next
  case (Cons s shards)
  obtain pages shape where s: "s = (pages, shape)" by (cases s)
  let ?xys = "List.product [0 ..< fst sip] [0 ..< snd sip]"
  have fit: "length pages = length (filter (in_shard shape) ?xys)" using Cons.prems(7) s by (simp add: shard_fits_def)
  have len: "length ?xys = S" using Cons.prems(2) by simp
  have dd: "set (somes D) \<inter> set pages = {}" using Cons.prems(9) s by auto
  from map_pages_spec [of n N S D pm "core * S" ?xys core 0 A "[]" "replicate (length shards) []" pages shape 0 pages]
    Cons.prems fit len s dd obtain pm1 l' v' where
    m1: "map_pages core pages shape ?xys (pm, core * S, 0, 0) = Inr (pm1, core * S + S, l', v')"
      "mapped n N S (D @ dev_pages sip s) pm1" "core_host_page_indices pm1 = (A @ [pages]) @ replicate (length shards) []"
      "same_frame pm pm1"
    by (auto simp: dev_pages_def)
  have so: "somes (D @ dev_pages sip s) = somes D @ pages" using somes_dev_pages [of sip s] Cons.prems(7) s by simp
  from Cons.IH [OF m1(2) Cons.prems(2) _ _ m1(3), where core = "core + 1"] Cons.prems s so obtain pm' d' where
    "map_cores sip (core + 1) shards (pm1, (core + 1) * S) = Inr (pm', d')"
    "mapped n N S ((D @ dev_pages sip s) @ concat (map (dev_pages sip) shards)) pm'"
    "core_host_page_indices pm' = (A @ [pages]) @ map fst shards" "same_frame pm1 pm'"
    by (auto simp: algebra_simps)
  with m1 s show ?case by (auto simp: same_frame_def add.commute)
qed

section \<open>The pages of the shards\<close>

lemma count_in_shard:
  "length (filter (in_shard (a, b)) (List.product [0 ..< m] [0 ..< n])) = min a m * min b n"
proof -
  have "filter (in_shard (a, b)) (List.product xs ys) = List.product (filter (\<lambda>x. x < a) xs) (filter (\<lambda>y. y < b) ys)" for xs ys
    by (induction xs) (auto simp: in_shard_def filter_map o_def)
  moreover have "length (filter (\<lambda>x. x < a) [0 ..< m]) = min a m" for a m :: nat
  proof -
    have "{x. x < m \<and> x < a} = {..< min a m}" by auto
    then show ?thesis by (simp add: length_filter_conv_card cong: conj_cong)
  qed
  ultimately show ?thesis by simp
qed

definition covers :: "nat \<Rightarrow> (u32 list \<times> u32 \<times> u32) list \<Rightarrow> bool" where
  "covers N shards \<longleftrightarrow> distinct (concat (map fst shards)) \<and> set (concat (map fst shards)) = {..< N}"

lemma height_shards_spec:
  assumes "pps = fst sip * snd sip" and "0 < pps" and "snd sip dvd rem" and "rem \<le> n * pps" and "page_id + rem < 2 ^ 32"
  shows "\<exists>shards. height_shards pps sip n rem page_id = Inr shards \<and> length shards = n \<and>
    (\<forall>s \<in> set shards. shard_fits sip s) \<and> concat (map fst shards) = [page_id ..< page_id + rem]"
  using assms
proof (induction n arbitrary: rem page_id)
  case (Suc n)
  have pos: "0 < fst sip" "0 < snd sip" using Suc.prems(1,2) by simp_all
  show ?case
  proof (cases "rem = 0")
    case True
    with Suc.IH [of 0 page_id] Suc.prems obtain shards where
      "height_shards pps sip n 0 page_id = Inr shards" "length shards = n"
      "\<forall>s \<in> set shards. shard_fits sip s" "concat (map fst shards) = []" by auto
    moreover have "shard_fits sip ([], 0, 0)"
      by (simp add: shard_fits_def in_shard_def)
    ultimately show ?thesis using True by simp
  next
    case False
    let ?c = "min pps rem" and ?shape = "if pps > rem then (rem div snd sip, snd sip) else sip"
    have dv: "snd sip dvd rem - ?c" using Suc.prems(1,3) by (auto simp: min_def intro: dvd_diff_nat)
    have pg: "add32 page_id k = page_id + k" if "k \<le> rem" for k using Suc.prems(5) that by (simp add: add32_def)
    have "rem - ?c \<le> n * pps" using Suc.prems(4) by (cases "pps \<le> rem") (auto simp: min_def)
    with Suc.IH [OF Suc.prems(1,2) dv, of "page_id + ?c"] Suc.prems(5) obtain shards where
      sh: "height_shards pps sip n (rem - ?c) (page_id + ?c) = Inr shards" "length shards = n"
        "\<forall>s \<in> set shards. shard_fits sip s" "concat (map fst shards) = [page_id + ?c ..< page_id + ?c + (rem - ?c)]"
      by auto
    have "shard_fits sip (map (add32 page_id) [0 ..< ?c], ?shape)"
    proof (cases "pps > rem")
      case True
      then have "rem div snd sip \<le> fst sip" using Suc.prems(1) pos
        by (metis div_le_mono less_imp_le nonzero_mult_div_cancel_right not_gr_zero)
      then show ?thesis using True Suc.prems(3) count_in_shard [of "rem div snd sip" "snd sip" "fst sip" "snd sip"]
        by (simp add: shard_fits_def min_def)
    next
      case False
      then show ?thesis using Suc.prems(1) count_in_shard [of "fst sip" "snd sip" "fst sip" "snd sip"]
        by (simp add: shard_fits_def)
    qed
    moreover have "map (add32 page_id) [0 ..< ?c] = [page_id ..< page_id + ?c]"
    proof -
      have "map (add32 page_id) [0 ..< ?c] = map (\<lambda>k. k + page_id) [0 ..< ?c]" by (rule map_cong) (auto simp: pg)
      then show ?thesis by (simp add: map_add_upt add.commute)
    qed
    moreover have "[page_id ..< page_id + ?c] @ [page_id + ?c ..< page_id + ?c + (rem - ?c)] = [page_id ..< page_id + rem]"
      using upt_add_eq_append [of page_id "page_id + ?c" "rem - ?c"] by (simp add: min_def)
    moreover have "\<not> (pps > rem \<and> snd sip = 0)" using pos by simp
    ultimately show ?thesis using False sh pg [of ?c] by (auto simp: Let_def)
  qed
qed simp

lemma takeWhile_upt: "takeWhile (\<lambda>i. i < h) [a ..< b] = [a ..< min b h]"
proof (induction "b - a" arbitrary: a)
  case 0
  then show ?case by simp
next
  case (Suc n)
  then have "a < b" "n = b - Suc a" by auto
  with Suc.hyps(1) [of "Suc a"] show ?case by (auto simp: upt_conv_Cons min_def)
qed

text \<open>The pages of the shard in row \<open>r\<close> and column \<open>c\<close> of the shard grid.\<close>

definition tile :: "nat \<times> nat \<Rightarrow> nat \<times> nat \<Rightarrow> nat \<Rightarrow> nat \<Rightarrow> nat set" where
  "tile sip hw r c = {p. p < fst hw * snd hw \<and> p div snd hw div fst sip = r \<and> p mod snd hw div snd sip = c}"

lemma block_shard_spec:
  assumes pos: "0 < fst sip" "0 < snd sip" and hw: "fst hw * snd hw < 2 ^ 32"
    and io: "r * fst sip + fst sip < 2 ^ 32" and jo: "c * snd sip + snd sip < 2 ^ 32"
  shows "shard_fits sip (block_shard sip hw (r * fst sip) (c * snd sip))"
    and "distinct (fst (block_shard sip hw (r * fst sip) (c * snd sip)))"
    and "set (fst (block_shard sip hw (r * fst sip) (c * snd sip))) = tile sip hw r c"
proof -
  obtain H W where HW: "hw = (H, W)" by (cases hw)
  obtain a b where sip: "sip = (a, b)" by (cases sip)
  let ?rows = "[r * a ..< min (r * a + a) H]" and ?cols = "[c * b ..< min (c * b + b) W]"
  have add: "add32 a (r * a) = r * a + a" "add32 b (c * b) = c * b + b"
    using io jo sip by (simp_all add: add32_def)
  have pg: "i * W + j < H * W" if "i < H" "j < W" for i j
  proof -
    have "i * W + j < i * W + W" using that by simp
    also have "\<dots> \<le> H * W" using that(1) mult_le_mono1 [of "Suc i" H W] by simp
    finally show ?thesis .
  qed
  have pgs: "map (\<lambda>j. add32 (mul32 i W) j) ?cols = map (\<lambda>j. i * W + j) ?cols" if "i \<in> set ?rows" for i
  proof (rule map_cong [OF refl])
    fix j assume "j \<in> set ?cols"
    with that have "i * W + j < H * W" using pg by auto
    then show "add32 (mul32 i W) j = i * W + j" using hw HW by (simp add: add32_def mul32_def)
  qed
  have bs: "block_shard sip hw (r * fst sip) (c * snd sip) =
      (concat (map (\<lambda>i. map (\<lambda>j. i * W + j) ?cols) ?rows), length ?rows,
       if ?rows = [] then sub32 0 (c * b) else length ?cols)"
  proof -
    have "map (\<lambda>i. map (\<lambda>j. add32 (mul32 i W) j) ?cols) ?rows = map (\<lambda>i. map (\<lambda>j. i * W + j) ?cols) ?rows"
      by (rule map_cong [OF refl]) (rule pgs)
    then show ?thesis unfolding block_shard_def Let_def takeWhile_upt sip HW fst_conv snd_conv add by (simp only:)
  qed
  have fst_bs: "fst (block_shard sip hw (r * fst sip) (c * snd sip)) = map (\<lambda>(i, j). i * W + j) (List.product ?rows ?cols)"
    unfolding bs fst_conv concat_product ..
  have inj: "inj_on (\<lambda>(i, j). i * W + j) (set (List.product ?rows ?cols))"
  proof (rule inj_onI)
    fix p q assume "p \<in> set (List.product ?rows ?cols)" "q \<in> set (List.product ?rows ?cols)"
      "(case p of (i, j) \<Rightarrow> i * W + j) = (case q of (i, j) \<Rightarrow> i * W + j)"
    then have "fst p * W + snd p = fst q * W + snd q" "snd p < W" "snd q < W" by auto
    then have "(fst p * W + snd p) div W = (fst q * W + snd q) div W" "(fst p * W + snd p) mod W = (fst q * W + snd q) mod W"
      by simp_all
    with \<open>snd p < W\<close> \<open>snd q < W\<close> show "p = q" by (auto simp: prod_eq_iff)
  qed
  show "distinct (fst (block_shard sip hw (r * fst sip) (c * snd sip)))"
    unfolding fst_bs by (simp add: distinct_map inj distinct_product del: set_product)
  have "length ?rows \<le> a" "length ?cols \<le> b" by auto
  then show "shard_fits sip (block_shard sip hw (r * fst sip) (c * snd sip))"
    unfolding bs using count_in_shard [of "length ?rows" _ a b]
    by (auto simp: shard_fits_def sip length_concat comp_def sum_list_triv min_def)
  show "set (fst (block_shard sip hw (r * fst sip) (c * snd sip))) = tile sip hw r c"
  proof (intro equalityI subsetI)
    fix p assume "p \<in> set (fst (block_shard sip hw (r * fst sip) (c * snd sip)))"
    then obtain i j where ij: "p = i * W + j" "r * a \<le> i" "i < r * a + a" "i < H" "c * b \<le> j" "j < c * b + b" "j < W"
      unfolding fst_bs by auto
    then have "p div W = i" "p mod W = j" by simp_all
    moreover have "i div a = r" "j div b = c"
      using ij by (auto intro!: div_nat_eqI simp: algebra_simps)
    ultimately show "p \<in> tile sip hw r c" using ij pg by (simp add: tile_def sip HW)
  next
    fix p assume "p \<in> tile sip hw r c"
    then have p: "p < H * W" "p div W div a = r" "p mod W div b = c" by (simp_all add: tile_def sip HW)
    then have "0 < W" by (cases W) auto
    have "p div W < H" using p(1) by (simp add: less_mult_imp_div_less)
    moreover have "p mod W < W" using \<open>0 < W\<close> by simp
    moreover have "r * a \<le> p div W" "p div W < r * a + a" "c * b \<le> p mod W" "p mod W < c * b + b"
      using p(2,3) pos sip by (metis div_times_less_eq_dividend, metis dividend_less_div_times fst_conv add.commute,
        metis div_times_less_eq_dividend, metis dividend_less_div_times snd_conv add.commute)
    moreover have "p = (p div W) * W + p mod W" by simp
    ultimately show "p \<in> set (fst (block_shard sip hw (r * fst sip) (c * snd sip)))"
      unfolding fst_bs by (auto intro!: image_eqI [of _ _ "(p div W, p mod W)"])
  qed
qed

lemma block_shards_eq:
  assumes nc: "0 < nc" "nc < 2 ^ 32" "nc * snd sip + snd sip < 2 ^ 32" and n: "(s + n) * fst sip + fst sip < 2 ^ 32"
  shows "block_shards sip hw nc n (s div nc * fst sip) (s mod nc * snd sip) (s mod nc) =
    map (\<lambda>t. block_shard sip hw (t div nc * fst sip) (t mod nc * snd sip)) [s ..< s + n]"
  using n
proof (induction n arbitrary: s)
  case (Suc n)
  have m: "s mod nc < nc" using nc(1) by simp
  have inc: "add32 (s mod nc) 1 = s mod nc + 1" using m nc(2) by (simp add: add32_def)
  have up: "[s ..< s + Suc n] = s # [Suc s ..< Suc s + n]" by (simp add: upt_conv_Cons del: upt_Suc)
  note IH = Suc.IH [of "Suc s"]
  have bound: "s div nc * fst sip + fst sip < 2 ^ 32"
  proof -
    have "s div nc * fst sip \<le> (s + Suc n) * fst sip" by (intro mult_le_mono1) (simp add: le_trans [OF div_le_dividend])
    then show ?thesis using Suc.prems by linarith
  qed
  show ?case
  proof (cases "s mod nc + 1 = nc")
    case True
    then have s: "Suc s mod nc = 0" "Suc s div nc = s div nc + 1" by (simp_all add: mod_Suc div_Suc)
    have "add32 (s div nc * fst sip) (fst sip) = Suc s div nc * fst sip" using bound s by (simp add: add32_def)
    then show ?thesis using IH Suc.prems True inc s up by simp
  next
    case False
    then have s: "Suc s mod nc = s mod nc + 1" "Suc s div nc = s div nc" by (simp_all add: mod_Suc div_Suc)
    have "s mod nc * snd sip \<le> nc * snd sip" using m by (intro mult_le_mono1) simp
    then have "s mod nc * snd sip + snd sip < 2 ^ 32" using nc(3) by linarith
    then have "add32 (s mod nc * snd sip) (snd sip) = Suc s mod nc * snd sip" using s by (simp add: add32_def)
    then show ?thesis using IH Suc.prems False inc s up by simp
  qed
qed simp

lemma distinct_concat_map:
  assumes "\<And>t. t < n \<Longrightarrow> distinct (f t)" and "\<And>t u. t < n \<Longrightarrow> u < n \<Longrightarrow> t \<noteq> u \<Longrightarrow> set (f t) \<inter> set (f u) = {}"
  shows "distinct (concat (map f [0 ..< n]))"
  using assms
proof (induction n)
  case (Suc n)
  then have "set (f t) \<inter> set (f n) = {}" if "t < n" for t using that by simp
  then have "set (concat (map f [0 ..< n])) \<inter> set (f n) = {}" by (auto simp: disjoint_iff)
  moreover have "distinct (concat (map f [0 ..< n]))" using Suc by simp
  ultimately show ?case using Suc.prems(1) [of n] by simp
qed simp

lemma block_shards_spec:
  assumes pos: "0 < fst sip" "0 < snd sip" and hw: "fst hw * snd hw < 2 ^ 32" "0 < snd hw"
    and nc: "nc = (snd hw + snd sip - 1) div snd sip" "snd hw + 2 * snd sip \<le> 2 ^ 32"
    and n: "(fst hw + fst sip - 1) div fst sip * nc \<le> n" "n * fst sip + fst sip < 2 ^ 32"
  shows "length (block_shards sip hw nc n 0 0 0) = n" "\<forall>s \<in> set (block_shards sip hw nc n 0 0 0). shard_fits sip s"
    "covers (fst hw * snd hw) (block_shards sip hw nc n 0 0 0)"
proof -
  have nc0: "0 < nc" using nc(1) hw(2) pos(2) by (simp add: div_greater_zero_iff)
  have ncb: "nc * snd sip < snd hw + snd sip" using ceil_div_mult_bounds(2) [OF pos(2), of "snd hw"] nc(1) by simp
  have ncs: "nc \<le> nc * snd sip" using pos(2) by simp
  let ?f = "\<lambda>t. block_shard sip hw (t div nc * fst sip) (t mod nc * snd sip)"
  have eq: "block_shards sip hw nc n 0 0 0 = map ?f [0 ..< n]"
    using block_shards_eq [of nc sip 0 n hw] nc0 ncb ncs nc(2) n(2) by simp
  then show "length (block_shards sip hw nc n 0 0 0) = n" by simp
  have B: "shard_fits sip (?f t)" "distinct (fst (?f t))" "set (fst (?f t)) = tile sip hw (t div nc) (t mod nc)"
    if "t < n" for t
  proof -
    have "t div nc * fst sip \<le> n * fst sip" using that by (intro mult_le_mono1) (simp add: le_trans [OF div_le_dividend])
    then have r: "t div nc * fst sip + fst sip < 2 ^ 32" using n(2) by linarith
    have "t mod nc * snd sip \<le> nc * snd sip" using nc0 by (intro mult_le_mono1) simp
    then have c: "t mod nc * snd sip + snd sip < 2 ^ 32" using ncb nc(2) by linarith
    note S = block_shard_spec [OF pos hw(1) r c]
    show "shard_fits sip (?f t)" "distinct (fst (?f t))" "set (fst (?f t)) = tile sip hw (t div nc) (t mod nc)"
      using S by auto
  qed
  then show "\<forall>s \<in> set (block_shards sip hw nc n 0 0 0). shard_fits sip s" unfolding eq by auto
  have "distinct (concat (map (fst \<circ> ?f) [0 ..< n]))"
  proof (rule distinct_concat_map)
    fix t u assume tu: "t < n" "u < n" "t \<noteq> u"
    then have "t div nc \<noteq> u div nc \<or> t mod nc \<noteq> u mod nc" by (metis div_mod_decomp)
    with B(3) tu show "set ((fst \<circ> ?f) t) \<inter> set ((fst \<circ> ?f) u) = {}" by (auto simp: tile_def)
  qed (use B(2) in auto)
  moreover have "set (concat (map (fst \<circ> ?f) [0 ..< n])) = {..< fst hw * snd hw}"
  proof (intro equalityI subsetI)
    fix p assume "p \<in> set (concat (map (fst \<circ> ?f) [0 ..< n]))"
    with B(3) show "p \<in> {..< fst hw * snd hw}" by (auto simp: tile_def)
  next
    fix p assume p: "p \<in> {..< fst hw * snd hw}"
    let ?r = "p div snd hw div fst sip" and ?c = "p mod snd hw div snd sip"
    have lt: "a div k < (b + k - 1) div k" if "a < b" "0 < k" for a b k :: nat
    proof -
      have "(a div k) * k \<le> a" by simp
      also have "a < b" by fact
      also have "b \<le> (b + k - 1) div k * k" by (rule ceil_div_mult_bounds(1) [OF that(2)])
      finally show ?thesis by simp
    qed
    have "p div snd hw < fst hw" using p by (simp add: less_mult_imp_div_less)
    from lt [OF this pos(1)] have r: "?r < (fst hw + fst sip - 1) div fst sip" .
    have c: "?c < nc" using lt [of "p mod snd hw" "snd hw" "snd sip"] hw(2) pos(2) nc(1) by simp
    have "?r * nc + ?c < ?r * nc + nc" using c by simp
    also have "\<dots> \<le> (fst hw + fst sip - 1) div fst sip * nc" using mult_le_mono1 [OF Suc_leI [OF r], of nc] by (simp add: add.commute)
    finally have t: "?r * nc + ?c < n" using n(1) by linarith
    have "p \<in> tile sip hw ((?r * nc + ?c) div nc) ((?r * nc + ?c) mod nc)" using p c by (simp add: tile_def)
    with B(3) [OF t] t show "p \<in> set (concat (map (fst \<circ> ?f) [0 ..< n]))"
      by (auto intro!: bexI [of _ "?r * nc + ?c"])
  qed
  ultimately show "covers (fst hw * snd hw) (block_shards sip hw nc n 0 0 0)"
    unfolding covers_def eq by (simp only: map_map)
qed

section \<open>The tables of a sharded buffer\<close>

text \<open>
  What a buffer must satisfy: its shards, taken together, have room for the tensor, and the
  quantities computed fit into 32 bits.
\<close>

definition shards_suffice :: "tensor_memory_layout \<Rightarrow> nat \<times> nat \<Rightarrow> nat \<times> nat \<Rightarrow> nat \<Rightarrow> bool" where
  "shards_suffice layout sip hw n \<longleftrightarrow>
     (if layout = HEIGHT_SHARDED
      then snd sip dvd fst hw * snd hw \<and> fst hw * snd hw \<le> n * (fst sip * snd sip)
      else (fst hw + fst sip - 1) div fst sip * ((snd hw + snd sip - 1) div snd sip) \<le> n)"

definition sizes_fit :: "nat \<times> nat \<Rightarrow> nat \<times> nat \<Rightarrow> nat \<Rightarrow> bool" where
  "sizes_fit sip hw n \<longleftrightarrow> 0 < fst sip \<and> 0 < snd sip \<and> 0 < snd hw \<and> fst hw * snd hw < 2 ^ 32 \<and>
     snd hw + 2 * snd sip \<le> 2 ^ 32 \<and> n * fst sip + fst sip < 2 ^ 32 \<and> fst sip * snd sip < 2 ^ 32 \<and>
     n * (fst sip * snd sip) < 2 ^ 32"

lemma core_to_host_pages_spec:
  assumes lay: "is_sharded layout"
    and sip: "sip = (if fst page = 0 then 0 else fst sh div fst page, if snd page = 0 then 0 else snd sh div snd page)"
    and fit: "sizes_fit sip hw n" and suf: "shards_suffice layout sip hw n"
  shows "\<exists>shards. core_to_host_pages (fst sip * snd sip) n layout page sh hw = Inr shards \<and> length shards = n \<and>
    (\<forall>s \<in> set shards. shard_fits sip s) \<and> covers (fst hw * snd hw) shards"
proof (cases "layout = HEIGHT_SHARDED")
  case True
  have m: "mul32 (fst hw) (snd hw) = fst hw * snd hw" using fit by (simp add: sizes_fit_def mul32_def)
  from height_shards_spec [OF refl, of sip "fst hw * snd hw" n 0] fit suf True obtain shards where
    hs: "height_shards (fst sip * snd sip) sip n (fst hw * snd hw) 0 = Inr shards" "length shards = n"
    "\<forall>s \<in> set shards. shard_fits sip s" "concat (map fst shards) = [0 ..< fst hw * snd hw]"
    by (auto simp: sizes_fit_def shards_suffice_def)
  have "covers (fst hw * snd hw) shards" unfolding covers_def hs(4) by (simp add: atLeast0LessThan)
  with hs(1-3) show ?thesis
    unfolding core_to_host_pages_def Let_def sip [symmetric] using True m by simp
next
  case False
  then have lay: "layout = WIDTH_SHARDED \<or> layout = BLOCK_SHARDED" using lay by (auto simp: is_sharded_def)
  let ?nc = "(snd hw + snd sip - 1) div snd sip"
  have "div_up (snd hw) (snd sip) = Inr ?nc"
  proof -
    have "add32 (snd hw) (snd sip) = snd hw + snd sip" "sub32 (snd hw + snd sip) 1 = snd hw + snd sip - 1"
      using fit by (auto simp: sizes_fit_def intro!: add32_small sub32_small)
    then show ?thesis using fit by (simp add: div_up_def sizes_fit_def)
  qed
  moreover note block_shards_spec [of sip hw ?nc n] fit suf False
  ultimately show ?thesis
    unfolding core_to_host_pages_def Let_def sip [symmetric] using lay
    by (auto simp: sizes_fit_def shards_suffice_def)
qed

lemma generate_mapping_spec:
  assumes b: "bf_size b \<noteq> 0" "is_sharded (bf_layout b)" "shard_parameters b = Some sp"
    and g: "crs_ok (grid (tensor_shard_spec sp))" "n = num_cores (grid (tensor_shard_spec sp))"
      "card (cores_of (grid (tensor_shard_spec sp))) = n"
    and sip: "sip = shape_in_pages sp" and hw: "hw = tensor2d_shape sp"
    and np: "num_pages b = fst hw * snd hw"
    and fit: "sizes_fit sip hw n" and suf: "shards_suffice (bf_layout b) sip hw n"
  shows "\<exists>pm D shards. generate_buffer_page_mapping b = Inr pm \<and> mapped (n * (fst sip * snd sip)) (fst hw * snd hw) (fst sip * snd sip) D pm \<and>
    length D = n * (fst sip * snd sip) \<and> somes D = concat (map fst shards) \<and> covers (fst hw * snd hw) shards \<and>
    core_host_page_indices pm = map fst shards"
proof -
  let ?S = "fst sip * snd sip" and ?N = "fst hw * snd hw"
  let ?g = "grid (tensor_shard_spec sp)" and ?rw = "orientation (tensor_shard_spec sp) = ROW_MAJOR"
  have cores: "length (corerange_to_cores ?g (Some n) ?rw) = n"
    using all_cores(3) [OF g(1) refl, of ?rw] g(3) by (simp add: corerange_to_cores_def corerange_loop_take)
  have size: "spec_size sp = ?S" "spec_size sp mod 2 ^ 32 = ?S"
    using fit sip by (simp_all add: spec_size_def mul32_def sizes_fit_def)
  have ndev: "num_dev_pages b = Inr (n * ?S)"
  proof -
    have "mul64 ?S n mod 2 ^ 32 = n * ?S"
      using fit by (simp add: mul64_def sizes_fit_def mult.commute mod_mod_cancel)
    then show ?thesis using b g(2) size by (simp add: num_dev_pages_def get_shard_spec_def)
  qed
  from core_to_host_pages_spec [OF b(2) _ fit suf, of "page_shape sp" "shard_shape (tensor_shard_spec sp)"] sip
  obtain shards where sh: "core_to_host_pages ?S n (bf_layout b) (page_shape sp) (shard_shape (tensor_shard_spec sp)) hw = Inr shards"
    "length shards = n" "\<forall>s \<in> set shards. shard_fits sip s" "covers ?N shards"
    by (auto simp: shape_in_pages_def Let_def)
  let ?pm = "\<lparr>all_cores = corerange_to_cores ?g (Some n) ?rw, core_host_page_indices = replicate n [],
      dev_page_to_core_mapping = replicate (n * ?S) 0, dev_page_to_host_page_mapping = replicate (n * ?S) None,
      host_page_to_dev_page_mapping = replicate ?N 0,
      core_to_core_id = number_cores 0 (corerange_to_cores ?g (Some n) ?rw) [],
      host_page_to_local_shard_page_mapping = replicate ?N 0, core_shard_shape = map snd shards\<rparr>"
  have "mapped (n * ?S) ?N ?S [] ?pm" by (simp add: mapped_def)
  moreover have "\<forall>s \<in> set shards. set (fst s) \<subseteq> {..< ?N}" using sh(4) by (auto simp: covers_def)
  ultimately obtain pm d where
    pm: "map_cores sip 0 shards (?pm, 0) = Inr (pm, d)" "mapped (n * ?S) ?N ?S (concat (map (dev_pages sip) shards)) pm"
      "core_host_page_indices pm = map fst shards"
    using map_cores_spec [of "n * ?S" ?N ?S "[]" ?pm sip 0 shards "[]"] sh by (auto simp: covers_def)
  have "generate_buffer_page_mapping b = Inr pm"
    using b cores g(2) size(2) ndev sh(1) pm(1) np
    by (simp add: generate_buffer_page_mapping_def get_shard_spec_def Let_def hw sip)
  moreover have "length (concat (map (dev_pages sip) shards)) = n * ?S"
    using sh(2) by (simp add: length_concat comp_def sum_list_triv)
  moreover have "somes (concat (map (dev_pages sip) shards)) = concat (map fst shards)"
  proof -
    have "map (somes \<circ> dev_pages sip) shards = map fst shards" using sh(3) by (simp add: somes_dev_pages)
    then show ?thesis by (simp only: somes_concat map_map)
  qed
  ultimately show ?thesis using pm sh(4) by blast
qed

end
