(* ===== verification/Buffer_Pages_Theorems.thy ===== *)
theory Buffer_Pages_Theorems
  imports Buffer_Pages_Props Device_Allocator_Theorems
begin

text \<open>The theorems about the pages of buffers.\<close>

text \<open>A height-sharded buffer of six pages on two cores, four pages for each shard.\<close>

definition demo_spec :: shard_spec_buffer where
  "demo_spec = \<lparr>tensor_shard_spec = shard_spec_new (crs_single (box 0 0 1 0)) (64, 64) ROW_MAJOR False PHYSICAL,
     page_shape = (32, 32), tensor2d_shape = (3, 2)\<rparr>"

definition demo_sharded :: buffer_shape where
  "demo_sharded = \<lparr>bf_size = 12288, bf_page_size = 2048, bf_type = L1, bf_layout = HEIGHT_SHARDED,
     shard_parameters = Some demo_spec\<rparr>"

text \<open>
  C14: The page mapping of a sharded buffer loses no page and duplicates none. If the shards
  have room for the tensor, the mapping is computed, every host page has its own device
  page, the two tables are inverse to each other, padding pages carry no host page, and the
  core and the position inside the shard are quotient and remainder of the device page.
\<close>

theorem page_mapping_bijective:
  assumes b: "bf_size b \<noteq> 0" "is_sharded (bf_layout b)" "shard_parameters b = Some sp"
    and g: "crs_ok (grid (tensor_shard_spec sp))" "n = num_cores (grid (tensor_shard_spec sp))"
      "card (cores_of (grid (tensor_shard_spec sp))) = n"
    and s: "S = fst (shape_in_pages sp) * snd (shape_in_pages sp)"
    and np: "num_pages b = fst (tensor2d_shape sp) * snd (tensor2d_shape sp)"
    and fit: "sizes_fit (shape_in_pages sp) (tensor2d_shape sp) n"
    and suf: "shards_suffice (bf_layout b) (shape_in_pages sp) (tensor2d_shape sp) n"
  shows "\<exists>pm. generate_buffer_page_mapping b = Inr pm \<and>
    (\<forall>h < num_pages b. \<exists>d < n * S. host_page_to_dev_page_mapping pm ! h = d \<and>
       dev_page_to_host_page_mapping pm ! d = Some h \<and> dev_page_to_core_mapping pm ! d = d div S \<and>
       host_page_to_local_shard_page_mapping pm ! h = d mod S) \<and>
    (\<forall>d < n * S. \<forall>h. dev_page_to_host_page_mapping pm ! d = Some h \<longrightarrow>
       h < num_pages b \<and> host_page_to_dev_page_mapping pm ! h = d) \<and>
    mset (concat (core_host_page_indices pm)) = mset [0 ..< num_pages b]"
proof -
  let ?N = "fst (tensor2d_shape sp) * snd (tensor2d_shape sp)"
  from generate_mapping_spec [OF b g refl refl np fit suf] obtain pm D shards where
    pm: "generate_buffer_page_mapping b = Inr pm" "mapped (n * S) ?N S D pm" "length D = n * S"
      "somes D = concat (map fst shards)" "covers ?N shards" "core_host_page_indices pm = map fst shards"
    unfolding s [symmetric] by blast
  have D: "dev_page_to_host_page_mapping pm = D" "dev_page_to_core_mapping pm = map (\<lambda>d. d div S) [0 ..< n * S]"
    using pm(2,3) by (simp_all add: mapped_def)
  have M: "h < ?N \<and> host_page_to_dev_page_mapping pm ! h = d \<and> host_page_to_local_shard_page_mapping pm ! h = d mod S"
    if "d < n * S" "D ! d = Some h" for d h
    using pm(2,3) that by (simp add: mapped_def)
  have "\<exists>d < n * S. D ! d = Some h" if "h < ?N" for h
  proof -
    have "h \<in> set (somes D)" using pm(4,5) that unfolding covers_def by simp
    then have "Some h \<in> set D" by (simp add: set_somes)
    then show ?thesis using pm(3) by (auto simp: in_set_conv_nth)
  qed
  then have "\<exists>d < n * S. host_page_to_dev_page_mapping pm ! h = d \<and> D ! d = Some h \<and>
      map (\<lambda>d. d div S) [0 ..< n * S] ! d = d div S \<and> host_page_to_local_shard_page_mapping pm ! h = d mod S"
    if "h < ?N" for h using M that by fastforce
  moreover have "h < ?N \<and> host_page_to_dev_page_mapping pm ! h = d" if "d < n * S" "D ! d = Some h" for d h
    using M [OF that] by simp
  moreover have "mset (concat (core_host_page_indices pm)) = mset [0 ..< ?N]"
  proof -
    from pm(5) have d: "distinct (concat (map fst shards))" and st: "set (concat (map fst shards)) = set [0 ..< ?N]"
      unfolding covers_def by (simp_all only: set_upt atLeast0LessThan)
    show ?thesis unfolding pm(6) by (rule iffD1 [OF set_eq_iff_mset_eq_distinct [OF d distinct_upt] st])
  qed
  ultimately show ?thesis by (intro exI [of _ pm] conjI allI impI pm(1)) (simp_all add: D np)
qed

theorem page_mapping_bijective_witness:
  "\<exists>pm d. generate_buffer_page_mapping demo_sharded = Inr pm \<and> host_page_to_dev_page_mapping pm ! 5 = d \<and>
     dev_page_to_host_page_mapping pm ! d = Some 5"
proof -
  have r: "valid_range (box 0 0 1 0)" by (simp add: valid_range_def)
  have n: "num_cores (crs_single (box 0 0 1 0)) = 2" by (simp add: num_cores_def crs_single_def cr_size_def add32_def)
  have c: "card (cores_of (crs_single (box 0 0 1 0))) = 2"
    using single_ok(2) [OF r] card_cells [OF r] by (simp add: cr_size_def)
  have sh: "shape_in_pages demo_spec = (2, 2)" "tensor2d_shape demo_spec = (3, 2)"
    "grid (tensor_shard_spec demo_spec) = crs_single (box 0 0 1 0)"
    by (simp_all add: demo_spec_def shape_in_pages_def shard_spec_new_def Let_def)
  have np: "num_pages demo_sharded = 6" by (simp add: num_pages_def demo_sharded_def)
  from page_mapping_bijective [of demo_sharded demo_spec 2 4] obtain pm where
    pm: "generate_buffer_page_mapping demo_sharded = Inr pm"
    "\<forall>h < num_pages demo_sharded. \<exists>d < 2 * 4. host_page_to_dev_page_mapping pm ! h = d \<and>
       dev_page_to_host_page_mapping pm ! d = Some h"
    using sh n c np single_ok(1) [OF r]
    by (auto simp: demo_sharded_def is_sharded_def sizes_fit_def shards_suffice_def)
  from pm(2) [rule_format, of 5] np have "\<exists>d < 2 * 4. host_page_to_dev_page_mapping pm ! 5 = d \<and>
       dev_page_to_host_page_mapping pm ! d = Some 5" by simp
  with pm(1) show ?thesis by blast
qed

section \<open>Addresses\<close>

text \<open>
  The pages of an interleaved buffer lie inside the space the allocator reserves for it
  in every bank, and different pages do not overlap: page \<open>p\<close> is in bank
  \<open>p mod num_banks\<close>, and the address computed for it is that of its slot among the
  slots of equal aligned size.
\<close>

theorem interleaved_pages_fit:
  assumes lay: "\<not> is_sharded (bf_layout b)" and pages: "bf_page_size b = page" "bf_size b = pages * page" "p < pages"
    and nb: "alloc_num_banks a (bf_type b) = Inr nb" "0 < nb"
    and al: "cfg_alignment (alloc_config a) = 2 ^ k" and pos: "0 < page" "page + 2 ^ k \<le> 2 ^ 32"
    and off: "alloc_bank_offset a (bf_type b) (p mod nb) = Inr off" "0 \<le> int base + off" "int base + off < 2 ^ 32"
    and small: "pages * ceil_to page (2 ^ k) < 2 ^ 32"
  shows "\<exists>per_bank slot. aligned_size_per_bank b (2 ^ k) nb = Inr per_bank \<and>
    page_address a b base (p mod nb) p = Inr (nat (int base + off) + slot * ceil_to page (2 ^ k)) \<and>
    slot * ceil_to page (2 ^ k) + page \<le> per_bank \<and> p = slot * nb + p mod nb"
proof -
  let ?c = "ceil_to page (2 ^ k)"
  have c: "page \<le> ?c" "?c < page + 2 ^ k" "2 ^ k dvd ?c" using ceil_to_props [of "2 ^ k" page] by simp_all
  have "pages * 1 \<le> pages * ?c" using c(1) pos(1) by (intro mult_le_mono2) simp
  then have pl: "pages < 2 ^ 32" using small by linarith
  have k1: "(1 :: nat) \<le> 2 ^ k" by simp
  then have pm: "page < 2 ^ 32" using pos(2) by linarith
  have k32: "(2 :: nat) ^ k < 2 ^ 32" using pos by linarith
  have np: "num_pages b = pages" using pages(1,2) pos(1) pl by (simp add: num_pages_def)
  have ap: "aligned_page_size b (2 ^ k) = ?c"
    using align_u32_ceil [OF pos] pages(1) pm k32 by (simp add: aligned_page_size_def)
  have cc: "ceil_to ?c (2 ^ k) = ?c"
    using ceil_to_least [of "2 ^ k" ?c ?c] ceil_to_props(2) [of "2 ^ k" ?c] c(3) by simp
  have cl: "?c + 2 ^ k \<le> 2 ^ 32"
  proof -
    have "k < 32" using k32 by (metis linorder_not_less power_increasing one_le_numeral)
    then have "(2 :: nat) ^ k dvd 2 ^ 32" by (intro le_imp_power_dvd) simp
    then have "2 ^ k dvd 2 ^ 32 - (2 :: nat) ^ k" by (intro dvd_diff_nat) simp_all
    then have "?c \<le> 2 ^ 32 - 2 ^ k" using pos by (intro ceil_to_least) simp_all
    then show ?thesis using k32 by linarith
  qed
  have sz: "aligned_size b (2 ^ k) = Inr (pages * ?c)"
    using lay np ap small by (simp add: aligned_size_def num_dev_pages_def mul64_def)
  let ?s = "p div nb" and ?k = "1 + (pages - 1) div nb"
  have sk: "?s + 1 \<le> ?k" using pages(3) by (simp add: div_le_mono)
  have kp: "?k \<le> pages" using pages(3) div_le_dividend [of "pages - 1" nb] by linarith
  have kc: "?k * ?c < 2 ^ 32" using mult_le_mono1 [OF kp, of ?c] small by linarith
  have "SizeBytesPerBank (pages * ?c) ?c nb (2 ^ k) = Inr (?k * ceil_to ?c (2 ^ k))"
    by (rule SizeBytesPerBank_value) (use nb pages(3) c pos cl cc kc in auto)
  then have pb: "aligned_size_per_bank b (2 ^ k) nb = Inr (?k * ?c)"
    using lay sz ap cc by (simp add: aligned_size_per_bank_def bf_num_cores_def)
  have "round_up page (2 ^ k) = Inr ?c"
    using round_up_small [of "2 ^ k" page] pos by (simp add: ceil_to_def mult.commute)
  moreover have sc: "?s * ?c + ?c \<le> ?k * ?c" using mult_le_mono1 [OF sk, of ?c] by simp
  then have sb: "?s * ?c < 2 ^ 32" using kc by linarith
  then have "mul32 ?c ?s = ?s * ?c" by (simp add: mul32_def mult.commute)
  moreover have "nat ((int base + off) mod 2 ^ 32) = nat (int base + off)" using off by simp
  moreover have "add64 (nat (int base + off)) (?s * ?c) = nat (int base + off) + ?s * ?c"
  proof (rule add64_small)
    have "nat (int base + off) < 2 ^ 32" using off by simp
    then show "nat (int base + off) + ?s * ?c < 2 ^ 64" using sb by simp
  qed
  ultimately have "page_address a b base (p mod nb) p = Inr (nat (int base + off) + ?s * ?c)"
    using nb al off(1) pages(1) pm by (simp add: page_address_def translate_page_address_def)
  moreover have "?s * ?c + page \<le> ?k * ?c" using sc c(1) by linarith
  ultimately show ?thesis using pb by (metis div_mod_decomp)
qed

text \<open>An allocator with a single L1 bank, and an interleaved buffer of three pages.\<close>

definition demo_alloc :: allocator where
  "demo_alloc = \<lparr>allocations_unsafe = False, dram_manager = bank_manager_default DRAM, l1_manager = demo_bank 64,
     l1_small_manager = bank_manager_default L1_SMALL, trace_buffer_manager = bank_manager_default TRACE,
     bank_id_to_dram_channel = [], dram_channel_to_bank_ids = [], bank_id_to_logical_core = [],
     logical_core_to_bank_ids = (\<lambda>_. None), allocated_buffers = [], alloc_config = demo_cfg\<rparr>"

definition demo_interleaved :: buffer_shape where
  "demo_interleaved = \<lparr>bf_size = 3 * 40, bf_page_size = 40, bf_type = L1, bf_layout = INTERLEAVED, shard_parameters = None\<rparr>"

theorem interleaved_pages_fit_witness:
  "\<exists>per_bank slot. aligned_size_per_bank demo_interleaved 32 1 = Inr per_bank \<and>
     page_address demo_alloc demo_interleaved 100 0 2 = Inr (100 + slot * 64) \<and> slot * 64 + 40 \<le> per_bank \<and> slot = 2"
proof -
  obtain s where d: "demo_bank 64 = \<lparr>bm_buffer_type = L1, allocated_addrs = [], bank_id_to_bank_offset = [(0, 0)],
      bm_allocator = Some s, interleaved_address_limit = 64, alignment_bytes = 32\<rparr>" by (rule demo_bank_facts [of 64])
  have n: "alloc_num_banks demo_alloc (bf_type demo_interleaved) = Inr 1"
    and o: "alloc_bank_offset demo_alloc (bf_type demo_interleaved) (2 mod 1) = Inr 0"
    by (simp_all add: demo_alloc_def demo_interleaved_def d alloc_num_banks_def alloc_bank_offset_def manager_of_def
        bm_num_banks_def bm_bank_offset_def validate_bank_id_def to_int32_def Let_def)
  have c: "ceil_to 40 (2 ^ 5) = 64" by (simp add: ceil_to_def)
  from interleaved_pages_fit [OF _ _ _ _ n _ _ _ _ o, where page = 40 and pages = 3 and k = 5 and base = 100]
  show ?thesis unfolding c by (auto simp: demo_interleaved_def is_sharded_def demo_alloc_def demo_cfg_def)
qed

end
