(* ===== verification/Lock_Free_Queue.thy ===== *)
theory Lock_Free_Queue
  imports Prelude
begin

text \<open>
  The queue between the host thread and a device's worker thread:
  src/tt_metal/impl/dispatch/lock_free_queue.hpp, a ring of nodes with one writer and one
  reader.

  A node is its position in the ring and \<open>data\<close> its shared pointer, \<open>None\<close> for null. The
  first part has the operations as functions, as a thread sees them that runs alone; an
  operation that would spin without another thread has the result \<open>None\<close>. The second part
  has them as the atomic steps of two threads, one load or store of a shared variable at a
  time.
\<close>

section \<open>The queue\<close>

record 'a lf_queue =
  q_data :: "nat \<Rightarrow> 'a option"
  q_next :: "nat \<Rightarrow> nat"
  q_head :: nat
  q_tail :: nat
  q_lock_based :: bool

definition ring_buffer_size :: nat where
  "ring_buffer_size = 8192"

definition queue_new :: "'a lf_queue" where
  "queue_new = \<lparr>q_data = (\<lambda>_. None),
     q_next = (\<lambda>i. if i < ring_buffer_size - 1 then i + 1 else 0),
     q_head = 0, q_tail = 0, q_lock_based = False\<rparr>"

definition q_empty :: "'a lf_queue \<Rightarrow> bool" where
  "q_empty q \<longleftrightarrow> q_head q = q_tail q"

definition pop_head :: "'a lf_queue \<Rightarrow> nat option \<times> 'a lf_queue" where
  "pop_head q =
     (if q_head q = q_tail q then (None, q)
      else (Some (q_head q), q\<lparr>q_head := q_next q (q_head q)\<rparr>))"

text \<open>Both overloads of \<open>push\<close>; the value arrives by copy or as a shared pointer.\<close>

definition q_push :: "'a \<Rightarrow> 'a lf_queue \<Rightarrow> 'a lf_queue option" where
  "q_push v q =
     (if q_next q (q_tail q) = q_head q then None
      else let q = q\<lparr>q_data := (q_data q)(q_tail q := Some v)\<rparr>
           in Some (q\<lparr>q_tail := q_next q (q_tail q)\<rparr>))"

definition q_pop :: "'a lf_queue \<Rightarrow> (tt_error + 'a option) \<times> 'a lf_queue" where
  "q_pop q =
     (case pop_head q of
        (None, q) \<Rightarrow> (Inl Null_deref, q)
      | (Some old, q) \<Rightarrow> (Inr (q_data q old), q\<lparr>q_data := (q_data q)(old := None)\<rparr>))"

partial_function (option) q_clear :: "'a lf_queue \<Rightarrow> 'a lf_queue option" where
  "q_clear q = (if q_empty q then Some q else q_clear (snd (q_pop q)))"

definition set_lock_free :: "'a lf_queue \<Rightarrow> 'a lf_queue" where
  "set_lock_free q = q\<lparr>q_lock_based := False\<rparr>"

definition set_lock_based :: "'a lf_queue \<Rightarrow> 'a lf_queue" where
  "set_lock_based q = q\<lparr>q_lock_based := True\<rparr>"

text \<open>Walking from \<open>begin()\<close> to \<open>end()\<close> with the iterator, collecting the data.\<close>

partial_function (option) q_walk :: "'a lf_queue \<Rightarrow> nat \<Rightarrow> 'a option list \<Rightarrow> 'a option list option" where
  "q_walk q cur acc =
     (if cur = q_tail q then Some acc else q_walk q (q_next q cur) (acc @ [q_data q cur]))"

section \<open>Two threads\<close>

text \<open>
  Where the writer is in \<open>push\<close>: before the loop condition, before the store of the data,
  before the store of \<open>tail\<close>. Where the reader is in \<open>pop\<close>: before it loads \<open>head\<close> and
  compares it with \<open>tail\<close>, before it stores \<open>head\<close>, before it copies the data, before it
  resets the node; \<open>R_fault\<close> is the dereference of the null pointer \<open>pop_head\<close> returns for
  an empty queue.
\<close>

datatype 'a writer = W_idle | W_spin 'a | W_write 'a | W_publish 'a

datatype 'a reader = R_idle | R_load | R_advance nat | R_copy nat | R_reset nat "'a option" | R_fault

record 'a threads =
  queue :: "'a lf_queue"
  writer :: "'a writer"
  reader :: "'a reader"
  pushed :: "'a list"
  popped :: "'a option list"

definition threads_new :: "'a threads" where
  "threads_new = \<lparr>queue = queue_new, writer = W_idle, reader = R_idle, pushed = [], popped = []\<rparr>"

text \<open>
  The steps. The reader calls \<open>pop\<close> after it has seen the queue non-empty, as the worker
  loop does. \<open>pushed\<close> and \<open>popped\<close> record the values whose \<open>push\<close> has published them
  and the results of \<open>pop\<close>.
\<close>

definition advance_tail :: "'a lf_queue \<Rightarrow> 'a lf_queue" where
  "advance_tail q = q\<lparr>q_tail := q_next q (q_tail q)\<rparr>"

inductive queue_step :: "'a threads \<Rightarrow> 'a threads \<Rightarrow> bool" where
  call_push: "writer s = W_idle \<Longrightarrow> queue_step s (s\<lparr>writer := W_spin v\<rparr>)"
| spin: "writer s = W_spin v \<Longrightarrow> q_next (queue s) (q_tail (queue s)) = q_head (queue s) \<Longrightarrow> queue_step s s"
| leave_loop: "writer s = W_spin v \<Longrightarrow> q_next (queue s) (q_tail (queue s)) \<noteq> q_head (queue s) \<Longrightarrow>
    queue_step s (s\<lparr>writer := W_write v\<rparr>)"
| store_data: "writer s = W_write v \<Longrightarrow>
    queue_step s (s\<lparr>queue := (queue s)\<lparr>q_data := (q_data (queue s))(q_tail (queue s) := Some v)\<rparr>,
                    writer := W_publish v\<rparr>)"
| store_tail: "writer s = W_publish v \<Longrightarrow>
    queue_step s (s\<lparr>queue := advance_tail (queue s), writer := W_idle, pushed := pushed s @ [v]\<rparr>)"
| call_pop: "reader s = R_idle \<Longrightarrow> \<not> q_empty (queue s) \<Longrightarrow> queue_step s (s\<lparr>reader := R_load\<rparr>)"
| load_head: "reader s = R_load \<Longrightarrow> q_head (queue s) \<noteq> q_tail (queue s) \<Longrightarrow>
    queue_step s (s\<lparr>reader := R_advance (q_head (queue s))\<rparr>)"
| found_empty: "reader s = R_load \<Longrightarrow> q_head (queue s) = q_tail (queue s) \<Longrightarrow>
    queue_step s (s\<lparr>reader := R_fault\<rparr>)"
| store_head: "reader s = R_advance old \<Longrightarrow>
    queue_step s (s\<lparr>queue := (queue s)\<lparr>q_head := q_next (queue s) old\<rparr>, reader := R_copy old\<rparr>)"
| copy_data: "reader s = R_copy old \<Longrightarrow> queue_step s (s\<lparr>reader := R_reset old (q_data (queue s) old)\<rparr>)"
| reset_data: "reader s = R_reset old r \<Longrightarrow>
    queue_step s (s\<lparr>queue := (queue s)\<lparr>q_data := (q_data (queue s))(old := None)\<rparr>,
                    reader := R_idle, popped := popped s @ [r]\<rparr>)"

inductive queue_reachable :: "'a threads \<Rightarrow> bool" where
  initial: "queue_reachable threads_new"
| step: "queue_reachable s \<Longrightarrow> queue_step s s' \<Longrightarrow> queue_reachable s'"

end
