(* ===== verification/Lock_Free_Queue_Props.thy ===== *)
theory Lock_Free_Queue_Props
  imports Lock_Free_Queue
begin

text \<open>
  Lemmas on the queue. \<open>ring_holds q h xs\<close> says that the ring holds the values \<open>xs\<close>, the
  first of them \<open>h\<close> positions after the start of the ring, counted without wrapping. It is
  the abstraction of the operations run alone, and the core of the invariant of the two
  threads.
\<close>

section \<open>What the ring holds\<close>

definition ring_holds :: "'a lf_queue \<Rightarrow> nat \<Rightarrow> 'a list \<Rightarrow> bool" where
  "ring_holds q h xs \<longleftrightarrow>
     q_next q = q_next (queue_new :: 'a lf_queue) \<and>
     q_head q = h mod ring_buffer_size \<and>
     q_tail q = (h + length xs) mod ring_buffer_size \<and>
     length xs < ring_buffer_size \<and>
     (\<forall>i < length xs. q_data q ((h + i) mod ring_buffer_size) = Some (xs ! i))"

lemma ring_size_ge: "2 \<le> ring_buffer_size"
  by (simp add: ring_buffer_size_def)

lemma ring_size_pos [simp]: "0 < ring_buffer_size" "ring_buffer_size \<noteq> 0"
  using ring_size_ge by linarith+

lemma ring_next [simp]:
  "q_next queue_new (i mod ring_buffer_size) = Suc i mod ring_buffer_size"
proof -
  have "i mod ring_buffer_size < ring_buffer_size" by simp
  then have "i mod ring_buffer_size < ring_buffer_size - 1 \<longleftrightarrow> Suc (i mod ring_buffer_size) \<noteq> ring_buffer_size"
    by linarith
  then show ?thesis by (simp add: queue_new_def mod_Suc)
qed

lemma ring_positions_eq:
  assumes "a \<le> b" "b < a + ring_buffer_size"
  shows "a mod ring_buffer_size = b mod ring_buffer_size \<longleftrightarrow> a = b"
proof
  assume "a mod ring_buffer_size = b mod ring_buffer_size"
  then have "ring_buffer_size dvd b - a"
    using assms(1) by (metis mod_eq_dvd_iff_nat)
  then show "a = b"
    using assms nat_dvd_not_less [of "b - a" ring_buffer_size] by (cases "b = a") auto
qed simp

lemma ring_holds_new [simp]: "ring_holds queue_new 0 []"
  by (simp add: ring_holds_def) (simp add: queue_new_def)

lemma ring_holds_empty: "ring_holds q h xs \<Longrightarrow> q_empty q \<longleftrightarrow> xs = []"
  using ring_positions_eq [of h "h + length xs"] by (auto simp: ring_holds_def q_empty_def)

lemma ring_holds_full:
  assumes "ring_holds q h xs"
  shows "q_next q (q_tail q) = q_head q \<longleftrightarrow> Suc (length xs) = ring_buffer_size"
proof (cases "Suc (length xs) = ring_buffer_size")
  case True
  then have "Suc (h + length xs) = h + ring_buffer_size" by simp
  with True show ?thesis using assms
    by (metis mod_add_self2 ring_holds_def ring_next)
next
  case False
  then show ?thesis using assms ring_positions_eq [of h "Suc (h + length xs)"]
    by (auto simp: ring_holds_def)
qed

text \<open>The value stored behind the last one of the ring is not yet part of what it holds.\<close>

lemma ring_holds_store:
  assumes "ring_holds q h xs"
  shows "ring_holds (q\<lparr>q_data := (q_data q)(q_tail q := w)\<rparr>) h xs"
proof -
  have "(h + i) mod ring_buffer_size \<noteq> (h + length xs) mod ring_buffer_size" if "i < length xs" for i
    using that assms ring_positions_eq [of "h + i" "h + length xs"] by (simp add: ring_holds_def)
  with assms show ?thesis by (simp add: ring_holds_def)
qed

lemma ring_holds_publish:
  assumes "ring_holds q h xs" "Suc (length xs) < ring_buffer_size" "q_data q (q_tail q) = Some v"
  shows "ring_holds (advance_tail q) h (xs @ [v])"
  using assms by (auto simp: ring_holds_def advance_tail_def nth_append less_Suc_eq)

lemma ring_holds_advance:
  assumes "ring_holds q h (x # xs)"
  shows "ring_holds (q\<lparr>q_head := q_next q (q_head q)\<rparr>) (Suc h) xs"
proof -
  have "q_data q ((h + Suc i) mod ring_buffer_size) = Some (xs ! i)" if "i < length xs" for i
    using assms that by (force simp: ring_holds_def)
  with assms show ?thesis by (simp add: ring_holds_def)
qed

lemma ring_holds_first: "ring_holds q h (x # xs) \<Longrightarrow> q_data q (q_head q) = Some x"
  by (force simp: ring_holds_def)

text \<open>
  The node the reader has just taken: the head has passed it, and a writer that has found
  room does not reach it.
\<close>

lemma ring_holds_reset:
  assumes "ring_holds q (Suc h) xs"
  shows "ring_holds (q\<lparr>q_data := (q_data q)(h mod ring_buffer_size := w)\<rparr>) (Suc h) xs"
proof -
  have "(Suc h + i) mod ring_buffer_size \<noteq> h mod ring_buffer_size" if "i < length xs" for i
    using that assms ring_positions_eq [of h "Suc h + i"] by (simp add: ring_holds_def)
  with assms show ?thesis by (simp add: ring_holds_def)
qed

lemma ring_holds_tail_old:
  assumes "ring_holds q (Suc h) xs" "Suc (length xs) < ring_buffer_size"
  shows "q_tail q \<noteq> h mod ring_buffer_size"
  using assms ring_positions_eq [of h "Suc h + length xs"] by (simp add: ring_holds_def)

section \<open>The operations alone\<close>

lemma q_push_room:
  assumes "ring_holds q h xs" "Suc (length xs) < ring_buffer_size"
  shows "\<exists>q'. q_push v q = Some q' \<and> ring_holds q' h (xs @ [v])"
proof -
  let ?q = "q\<lparr>q_data := (q_data q)(q_tail q := Some v)\<rparr>"
  have "ring_holds (advance_tail ?q) h (xs @ [v])"
    by (intro ring_holds_publish ring_holds_store assms) simp
  moreover have "q_push v q = Some (advance_tail ?q)"
    using ring_holds_full [OF assms(1)] assms(2) by (simp add: q_push_def advance_tail_def)
  ultimately show ?thesis by blast
qed

lemma q_push_full:
  assumes "ring_holds q h xs" "Suc (length xs) = ring_buffer_size"
  shows "q_push v q = None"
  using ring_holds_full [OF assms(1)] assms(2) by (simp add: q_push_def)

lemma q_pop_cons:
  assumes "ring_holds q h (x # xs)"
  shows "fst (q_pop q) = Inr (Some x) \<and> ring_holds (snd (q_pop q)) (Suc h) xs"
proof -
  have ne: "q_head q \<noteq> q_tail q" and hd: "q_head q = h mod ring_buffer_size"
    using ring_holds_empty [OF assms] assms by (simp_all add: q_empty_def ring_holds_def)
  let ?q = "q\<lparr>q_head := q_next q (q_head q)\<rparr>"
  have "ring_holds (?q\<lparr>q_data := (q_data ?q)(h mod ring_buffer_size := None)\<rparr>) (Suc h) xs"
    by (rule ring_holds_reset [OF ring_holds_advance [OF assms]])
  with ne show ?thesis
    using ring_holds_first [OF assms] by (simp add: q_pop_def pop_head_def hd)
qed

lemma q_pop_nil:
  assumes "ring_holds q h []"
  shows "q_pop q = (Inl Null_deref, q)"
  using ring_holds_empty [OF assms] by (simp add: q_pop_def pop_head_def q_empty_def)

lemma q_clear_empties:
  assumes "ring_holds q h xs"
  shows "\<exists>q'. q_clear q = Some q' \<and> ring_holds q' (h + length xs) []"
  using assms
proof (induction xs arbitrary: q h)
  case Nil
  then show ?case using ring_holds_empty [OF Nil] by (subst q_clear.simps) simp
next
  case (Cons x xs)
  then show ?case
    using ring_holds_empty [OF Cons.prems] q_pop_cons [OF Cons.prems] Cons.IH [of "snd (q_pop q)" "Suc h"]
    by (subst q_clear.simps) simp
qed

lemma q_walk_collects:
  assumes "ring_holds q h xs" "n \<le> length xs"
  shows "q_walk q ((h + n) mod ring_buffer_size) acc = Some (acc @ map Some (drop n xs))"
  using assms(2)
proof (induction "length xs - n" arbitrary: n acc)
  case 0
  then show ?case using assms(1) by (subst q_walk.simps) (simp add: ring_holds_def)
next
  case (Suc k)
  then have n: "n < length xs" by simp
  have "(h + n) mod ring_buffer_size \<noteq> q_tail q"
    using ring_positions_eq [of "h + n" "h + length xs"] n assms(1) by (simp add: ring_holds_def)
  moreover have "q_next q ((h + n) mod ring_buffer_size) = (h + Suc n) mod ring_buffer_size"
    using assms(1) by (simp add: ring_holds_def)
  moreover have "q_data q ((h + n) mod ring_buffer_size) = Some (xs ! n)"
    using assms(1) n by (simp add: ring_holds_def)
  ultimately show ?case
    using Suc(1)[of "Suc n"] Suc(2) n
    by (subst q_walk.simps) (simp add: Cons_nth_drop_Suc [symmetric])
qed

end
