(* ===== verification/Lock_Free_Queue_Threads.thy ===== *)
theory Lock_Free_Queue_Threads
  imports Lock_Free_Queue_Props
begin

text \<open>
  The invariant of the two threads: what the ring holds is what has been published and not
  been passed by the head, the writer between its loop and its store of \<open>tail\<close> has a free
  node beside the one it writes, and the reader between its store of \<open>head\<close> and its reset
  owns the node it has passed.
\<close>

fun writer_ok :: "'a lf_queue \<Rightarrow> 'a list \<Rightarrow> 'a writer \<Rightarrow> bool" where
  "writer_ok q xs (W_write v) \<longleftrightarrow> Suc (length xs) < ring_buffer_size"
| "writer_ok q xs (W_publish v) \<longleftrightarrow>
     Suc (length xs) < ring_buffer_size \<and> q_data q (q_tail q) = Some v"
| "writer_ok q xs _ \<longleftrightarrow> True"

text \<open>The number of results the reader has handed out when the head has advanced \<open>h\<close> times.\<close>

fun reader_ok :: "'a lf_queue \<Rightarrow> 'a list \<Rightarrow> nat \<Rightarrow> 'a option list \<Rightarrow> 'a reader \<Rightarrow> bool" where
  "reader_ok q ps h rs R_idle \<longleftrightarrow> rs = map Some (take h ps)"
| "reader_ok q ps h rs R_load \<longleftrightarrow> rs = map Some (take h ps) \<and> h < length ps"
| "reader_ok q ps h rs (R_advance n) \<longleftrightarrow> rs = map Some (take h ps) \<and> h < length ps \<and> n = q_head q"
| "reader_ok q ps h rs (R_copy n) \<longleftrightarrow> (\<exists>k. h = Suc k \<and> n = k mod ring_buffer_size \<and>
     rs = map Some (take k ps) \<and> q_data q n = Some (ps ! k))"
| "reader_ok q ps h rs (R_reset n r) \<longleftrightarrow> (\<exists>k. h = Suc k \<and> n = k mod ring_buffer_size \<and>
     rs = map Some (take k ps) \<and> r = Some (ps ! k))"
| "reader_ok q ps h rs R_fault \<longleftrightarrow> False"

definition queue_inv :: "nat \<Rightarrow> 'a threads \<Rightarrow> bool" where
  "queue_inv h s \<longleftrightarrow> h \<le> length (pushed s) \<and>
     ring_holds (queue s) h (drop h (pushed s)) \<and>
     writer_ok (queue s) (drop h (pushed s)) (writer s) \<and>
     reader_ok (queue s) (pushed s) h (popped s) (reader s)"

lemma queue_inv_new: "queue_inv 0 threads_new"
  by (simp add: queue_inv_def threads_new_def)

section \<open>The writer's steps\<close>

lemma inv_leave_loop:
  assumes "queue_inv h s" "q_next (queue s) (q_tail (queue s)) \<noteq> q_head (queue s)"
  shows "queue_inv h (s\<lparr>writer := W_write v\<rparr>)"
proof -
  have r: "ring_holds (queue s) h (drop h (pushed s))" using assms(1) by (simp add: queue_inv_def)
  then have "length (drop h (pushed s)) < ring_buffer_size" by (simp add: ring_holds_def)
  then have "Suc (length (drop h (pushed s))) < ring_buffer_size"
    using ring_holds_full [OF r] assms(2) by linarith
  then show ?thesis using assms(1) by (simp add: queue_inv_def)
qed

lemma inv_store_data:
  assumes "queue_inv h s" "writer s = W_write v"
  shows "queue_inv h (s\<lparr>queue := (queue s)\<lparr>q_data := (q_data (queue s))(q_tail (queue s) := Some v)\<rparr>,
    writer := W_publish v\<rparr>)"
proof -
  let ?q = "(queue s)\<lparr>q_data := (q_data (queue s))(q_tail (queue s) := Some v)\<rparr>"
  have r: "ring_holds (queue s) h (drop h (pushed s))" using assms(1) by (simp add: queue_inv_def)
  have room: "Suc (length (drop h (pushed s))) < ring_buffer_size"
    using assms by (simp add: queue_inv_def)
  have ro: "reader_ok (queue s) (pushed s) h (popped s) (reader s)" using assms(1) by (simp add: queue_inv_def)
  have "q_tail (queue s) \<noteq> k mod ring_buffer_size" if "h = Suc k" for k
    using ring_holds_tail_old [of "queue s" k] r room that by simp
  then have "reader_ok ?q (pushed s) h (popped s) (reader s)"
    using ro by (cases "reader s") auto
  then show ?thesis
    using assms ring_holds_store [OF r] room by (simp add: queue_inv_def)
qed

lemma reader_ok_publish:
  assumes "reader_ok q ps h rs r" "h \<le> length ps"
  shows "reader_ok (advance_tail q) (ps @ [v]) h rs r"
proof (cases r)
  case (R_copy n)
  then obtain k where "h = Suc k" "n = k mod ring_buffer_size" "rs = map Some (take k ps)"
    "q_data q n = Some (ps ! k)"
    using assms(1) by auto
  then show ?thesis using assms(2) R_copy by (simp add: advance_tail_def nth_append)
next
  case (R_reset n w)
  then obtain k where "h = Suc k" "n = k mod ring_buffer_size" "rs = map Some (take k ps)"
    "w = Some (ps ! k)"
    using assms(1) by auto
  then show ?thesis using assms(2) R_reset by (simp add: nth_append)
qed (use assms in \<open>simp_all add: advance_tail_def\<close>)

lemma inv_store_tail:
  assumes "queue_inv h s" "writer s = W_publish v"
  shows "queue_inv h (s\<lparr>queue := advance_tail (queue s), writer := W_idle, pushed := pushed s @ [v]\<rparr>)"
proof -
  have "ring_holds (advance_tail (queue s)) h (drop h (pushed s) @ [v])"
    using assms by (intro ring_holds_publish) (simp_all add: queue_inv_def)
  moreover have "reader_ok (queue s) (pushed s) h (popped s) (reader s)" "h \<le> length (pushed s)"
    using assms(1) by (simp_all add: queue_inv_def)
  then have "reader_ok (advance_tail (queue s)) (pushed s @ [v]) h (popped s) (reader s)"
    by (rule reader_ok_publish)
  ultimately show ?thesis using \<open>h \<le> length (pushed s)\<close> by (simp add: queue_inv_def)
qed

section \<open>The reader's steps\<close>

lemma inv_nonempty:
  assumes "queue_inv h s"
  shows "\<not> q_empty (queue s) \<longleftrightarrow> h < length (pushed s)"
  using assms ring_holds_empty [of "queue s" h "drop h (pushed s)"]
  by (simp add: queue_inv_def not_le)

lemma writer_ok_fewer: "writer_ok q (x # xs) w \<Longrightarrow> writer_ok (q\<lparr>q_head := n\<rparr>) xs w"
  by (cases w) auto

lemma inv_store_head:
  assumes "queue_inv h s" "reader s = R_advance n"
  shows "queue_inv (Suc h) (s\<lparr>queue := (queue s)\<lparr>q_head := q_next (queue s) n\<rparr>, reader := R_copy n\<rparr>)"
proof -
  have h: "h < length (pushed s)" and n: "n = q_head (queue s)"
    using assms by (simp_all add: queue_inv_def)
  have d: "drop h (pushed s) = pushed s ! h # drop (Suc h) (pushed s)"
    using h by (simp add: Cons_nth_drop_Suc)
  have r: "ring_holds (queue s) h (pushed s ! h # drop (Suc h) (pushed s))"
    using assms(1) d by (simp add: queue_inv_def)
  have w: "writer_ok (queue s) (pushed s ! h # drop (Suc h) (pushed s)) (writer s)"
    using assms(1) d by (simp add: queue_inv_def)
  have "n = h mod ring_buffer_size" using r n by (simp add: ring_holds_def)
  then show ?thesis
    using ring_holds_advance [OF r] ring_holds_first [OF r] writer_ok_fewer [OF w] assms n h
    by (simp add: queue_inv_def)
qed

lemma inv_copy_data:
  assumes "queue_inv h s" "reader s = R_copy n"
  shows "queue_inv h (s\<lparr>reader := R_reset n (q_data (queue s) n)\<rparr>)"
  using assms by (auto simp: queue_inv_def)

lemma inv_reset_data:
  assumes "queue_inv h s" "reader s = R_reset n r"
  shows "queue_inv h (s\<lparr>queue := (queue s)\<lparr>q_data := (q_data (queue s))(n := None)\<rparr>,
    reader := R_idle, popped := popped s @ [r]\<rparr>)"
proof -
  obtain k where k: "h = Suc k" "n = k mod ring_buffer_size" "popped s = map Some (take k (pushed s))"
    "r = Some (pushed s ! k)"
    using assms by (auto simp: queue_inv_def)
  have rh: "ring_holds (queue s) (Suc k) (drop (Suc k) (pushed s))"
    and w: "writer_ok (queue s) (drop (Suc k) (pushed s)) (writer s)"
    and l: "k < length (pushed s)"
    using assms(1) k(1) by (simp_all add: queue_inv_def)
  have "writer_ok ((queue s)\<lparr>q_data := (q_data (queue s))(n := None)\<rparr>) (drop (Suc k) (pushed s)) (writer s)"
    using w ring_holds_tail_old [OF rh] k(2) by (cases "writer s") simp_all
  with ring_holds_reset [OF rh, of None] show ?thesis
    using assms(1) k l by (simp add: queue_inv_def take_Suc_conv_app_nth)
qed

section \<open>Every reachable state\<close>

lemma queue_inv_step:
  assumes "queue_step s s'" "queue_inv h s"
  shows "\<exists>h'. queue_inv h' s'"
  using assms
proof cases
  case (call_push v)
  then have "queue_inv h s'" using assms(2) by (simp add: queue_inv_def)
  then show ?thesis by blast
next
  case (found_empty)
  then show ?thesis using inv_nonempty [OF assms(2)] assms(2) by (simp add: queue_inv_def q_empty_def)
next
  case (call_pop)
  then have "queue_inv h s'" using inv_nonempty [OF assms(2)] assms(2) by (simp add: queue_inv_def)
  then show ?thesis by blast
next
  case (load_head)
  then have "queue_inv h s'" using assms(2) by (simp add: queue_inv_def)
  then show ?thesis by blast
next
  case (leave_loop v)
  then show ?thesis using inv_leave_loop [OF assms(2)] by blast
next
  case (store_data v)
  then show ?thesis using inv_store_data [OF assms(2)] by blast
next
  case (store_tail v)
  then show ?thesis using inv_store_tail [OF assms(2)] by blast
next
  case (store_head n)
  then show ?thesis using inv_store_head [OF assms(2)] by blast
next
  case (copy_data n)
  then show ?thesis using inv_copy_data [OF assms(2)] by blast
next
  case (reset_data n r)
  then show ?thesis using inv_reset_data [OF assms(2)] by blast
qed (use assms(2) in blast)

lemma queue_inv_reachable: "queue_reachable s \<Longrightarrow> \<exists>h. queue_inv h s"
  by (induction rule: queue_reachable.induct) (use queue_inv_new queue_inv_step in blast)+

lemma queue_inv_results:
  assumes "queue_inv h s"
  shows "popped s = map Some (take (length (popped s)) (pushed s))"
    and "h \<le> length (popped s) + 1" "length (popped s) \<le> h"
  using assms by (cases "reader s"; auto simp: queue_inv_def)+

section \<open>The reader drains the queue\<close>

lemma reader_pops_one:
  assumes "queue_inv h s" "reader s = R_idle" "h < length (pushed s)"
  shows "\<exists>s'. queue_step\<^sup>*\<^sup>* s s' \<and> queue_inv (Suc h) s' \<and> reader s' = R_idle \<and> pushed s' = pushed s"
proof -
  let ?s1 = "s\<lparr>reader := R_load\<rparr>"
  let ?s2 = "s\<lparr>reader := R_advance (q_head (queue s))\<rparr>"
  let ?n = "q_head (queue s)"
  let ?s3 = "?s2\<lparr>queue := (queue s)\<lparr>q_head := q_next (queue s) ?n\<rparr>, reader := R_copy ?n\<rparr>"
  let ?s4 = "?s3\<lparr>reader := R_reset ?n (q_data (queue ?s3) ?n)\<rparr>"
  let ?s5 = "?s4\<lparr>queue := (queue ?s4)\<lparr>q_data := (q_data (queue ?s4))(?n := None)\<rparr>, reader := R_idle,
    popped := popped ?s4 @ [q_data (queue ?s3) ?n]\<rparr>"
  have ne: "\<not> q_empty (queue s)" using inv_nonempty [OF assms(1)] assms(3) by simp
  have "queue_step s ?s1" by (rule call_pop [OF assms(2) ne])
  moreover have "queue_step ?s1 ?s2"
    using load_head [of ?s1] ne by (simp add: q_empty_def)
  moreover have "queue_step ?s2 ?s3" using store_head [of ?s2 ?n] by simp
  moreover have "queue_step ?s3 ?s4" using copy_data [of ?s3 ?n] by simp
  moreover have "queue_step ?s4 ?s5" by (rule reset_data) simp
  moreover have "queue_inv h ?s2" using assms by (simp add: queue_inv_def)
  then have "queue_inv (Suc h) ?s3" using inv_store_head [of h ?s2 ?n] by simp
  then have "queue_inv (Suc h) ?s4" by (rule inv_copy_data) simp
  then have "queue_inv (Suc h) ?s5" by (rule inv_reset_data) simp
  ultimately have "queue_step\<^sup>*\<^sup>* s ?s5" and "queue_inv (Suc h) ?s5"
    by (meson r_into_rtranclp rtranclp_trans)+
  then show ?thesis by (intro exI [of _ ?s5]) simp
qed

lemma idle_drains:
  assumes "queue_inv h s" "reader s = R_idle"
  shows "\<exists>s'. queue_step\<^sup>*\<^sup>* s s' \<and> popped s' = map Some (pushed s) \<and> pushed s' = pushed s"
  using assms
proof (induction "length (pushed s) - h" arbitrary: h s)
  case 0
  then have "popped s = map Some (pushed s)" by (simp add: queue_inv_def)
  then show ?case by blast
next
  case (Suc n)
  have "h < length (pushed s)" using Suc.hyps(2) by simp
  then obtain s' where s': "queue_step\<^sup>*\<^sup>* s s'" "queue_inv (Suc h) s'" "reader s' = R_idle" "pushed s' = pushed s"
    using reader_pops_one [OF Suc.prems] by blast
  have "n = length (pushed s') - Suc h" using Suc.hyps(2) s'(4) by simp
  then obtain s'' where "queue_step\<^sup>*\<^sup>* s' s''" "popped s'' = map Some (pushed s)" "pushed s'' = pushed s"
    using Suc.hyps(1) [OF _ s'(2,3)] s'(4) by auto
  then show ?case using s'(1) by (meson rtranclp_trans)
qed

text \<open>A reader in the middle of \<open>pop\<close> finishes it.\<close>

lemma reader_finishes:
  assumes "queue_inv h s"
  shows "\<exists>s' h'. queue_step\<^sup>*\<^sup>* s s' \<and> queue_inv h' s' \<and> reader s' = R_idle \<and> pushed s' = pushed s"
proof -
  have reset: "\<exists>s' h'. queue_step\<^sup>*\<^sup>* s s' \<and> queue_inv h' s' \<and> reader s' = R_idle \<and> pushed s' = pushed s"
    if "queue_inv h s" "reader s = R_reset n r" for h n r and s :: "'a threads"
    using inv_reset_data [OF that] reset_data [OF that(2)] by (force intro!: r_into_rtranclp)
  have copy: "\<exists>s' h'. queue_step\<^sup>*\<^sup>* s s' \<and> queue_inv h' s' \<and> reader s' = R_idle \<and> pushed s' = pushed s"
    if "queue_inv h s" "reader s = R_copy n" for h n and s :: "'a threads"
    using reset [OF inv_copy_data [OF that]] copy_data [OF that(2)]
    by simp (meson converse_rtranclp_into_rtranclp)
  have adv: "\<exists>s' h'. queue_step\<^sup>*\<^sup>* s s' \<and> queue_inv h' s' \<and> reader s' = R_idle \<and> pushed s' = pushed s"
    if "queue_inv h s" "reader s = R_advance n" for h n and s :: "'a threads"
    using copy [OF inv_store_head [OF that]] store_head [OF that(2)]
    by simp (meson converse_rtranclp_into_rtranclp)
  show ?thesis
  proof (cases "reader s")
    case R_load
    let ?s = "s\<lparr>reader := R_advance (q_head (queue s))\<rparr>"
    have "queue_inv h ?s" using assms R_load by (simp add: queue_inv_def)
    moreover have "queue_step s ?s"
      using load_head [OF R_load] inv_nonempty [OF assms] assms R_load
      by (simp add: queue_inv_def q_empty_def)
    ultimately show ?thesis using adv [of h ?s] by simp (meson converse_rtranclp_into_rtranclp)
  next
    case R_fault
    then show ?thesis using assms by (simp add: queue_inv_def)
  qed (use assms reset copy adv in blast)+
qed

end
