(* ===== verification/Lock_Free_Queue_Theorems.thy ===== *)
theory Lock_Free_Queue_Theorems
  imports Lock_Free_Queue_Threads
begin

text \<open>
  The properties of the queue between the host thread and the worker thread. The hypotheses
  on one thread alone name the contents of the ring with \<open>ring_holds\<close>; the theorems on two
  threads speak of every state that can be reached from the new queue.
\<close>

lemma two_pushes_reachable:
  "\<exists>s. queue_reachable s \<and> pushed s = [a, b] \<and> popped s = []"
proof -
  let ?p = "\<lambda>v s. s\<lparr>queue := advance_tail ((queue s)\<lparr>q_data := (q_data (queue s))(q_tail (queue s) := Some v)\<rparr>),
    writer := W_idle, pushed := pushed s @ [v]\<rparr>"
  have push: "queue_reachable (?p v s) \<and> queue_inv h (?p v s)"
    if "queue_reachable s" "queue_inv h s" "writer s = W_idle" "Suc (length (pushed s)) < ring_buffer_size" for h v
      and s :: "'a threads"
  proof -
    let ?s1 = "s\<lparr>writer := W_spin v\<rparr>"
    let ?s2 = "s\<lparr>writer := W_write v\<rparr>"
    let ?s3 = "s\<lparr>queue := (queue s)\<lparr>q_data := (q_data (queue s))(q_tail (queue s) := Some v)\<rparr>, writer := W_publish v\<rparr>"
    have r: "ring_holds (queue s) h (drop h (pushed s))" using that(2) by (simp add: queue_inv_def)
    have ne: "q_next (queue s) (q_tail (queue s)) \<noteq> q_head (queue s)"
      using ring_holds_full [OF r] that(4) by simp
    have "queue_step s ?s1" by (rule call_push [OF that(3)])
    moreover have "queue_step ?s1 ?s2" using leave_loop [of ?s1 v] ne by simp
    moreover have "queue_step ?s2 ?s3" using store_data [of ?s2 v] by simp
    moreover have "queue_step ?s3 (?p v s)" using store_tail [of ?s3 v] by simp
    ultimately have "queue_reachable (?p v s)" using that(1) queue_reachable.step by metis
    moreover have "queue_inv h ?s2" using inv_leave_loop [OF that(2) ne] .
    then have "queue_inv h ?s3" using inv_store_data [of h ?s2 v] by simp
    then have "queue_inv h (?p v s)" using inv_store_tail [of h ?s3 v] by simp
    ultimately show ?thesis by blast
  qed
  have N: "Suc (Suc 0) < ring_buffer_size" by (simp add: ring_buffer_size_def)
  have "queue_reachable (?p a threads_new) \<and> queue_inv 0 (?p a threads_new)"
    by (rule push [OF initial queue_inv_new]) (use N in \<open>simp_all add: threads_new_def\<close>)
  then have "queue_reachable (?p b (?p a threads_new))"
    using push [of "?p a threads_new" 0 b] N by (simp add: threads_new_def)
  then show ?thesis
    by (intro exI [of _ "?p b (?p a threads_new)"]) (simp add: threads_new_def)
qed

text \<open>
  C6: With one writer and one reader running in any interleaving of their loads and stores,
  \<open>pop\<close> returns the pushed values in the order they were pushed, each once, never a null
  pointer and never from an empty queue; at most \<open>ring_buffer_size\<close> values are between the
  two threads, although the reader frees the node before it has copied the data out of it.
\<close>

theorem queue_fifo:
  assumes "queue_reachable s"
  shows "popped s = map Some (take (length (popped s)) (pushed s)) \<and>
    reader s \<noteq> R_fault \<and>
    length (popped s) \<le> length (pushed s) \<and>
    length (pushed s) \<le> length (popped s) + ring_buffer_size"
proof -
  obtain h where h: "queue_inv h s" using queue_inv_reachable [OF assms] by blast
  have "reader s \<noteq> R_fault" using h by (auto simp: queue_inv_def)
  moreover have "h \<le> length (pushed s)" "length (drop h (pushed s)) < ring_buffer_size"
    using h by (simp_all add: queue_inv_def ring_holds_def)
  then have "length (popped s) \<le> length (pushed s)"
    "length (pushed s) \<le> length (popped s) + ring_buffer_size"
    using queue_inv_results(2,3) [OF h] by simp_all
  ultimately show ?thesis using queue_inv_results(1) [OF h] by blast
qed

theorem queue_fifo_witness:
  "\<exists>s. queue_reachable s \<and> pushed s = [1, 2::nat] \<and> popped s = map Some (take (length (popped s)) [1, 2]) \<and>
     reader s \<noteq> R_fault"
proof -
  obtain s where s: "queue_reachable s" "pushed s = [1, 2::nat]"
    using two_pushes_reachable [of 1 "2::nat"] by blast
  note fifo = queue_fifo [OF s(1), unfolded s(2)]
  show ?thesis
    by (intro exI [of _ s] conjI s fifo [THEN conjunct1] fifo [THEN conjunct2, THEN conjunct1])
qed

text \<open>
  The reader can always drain the queue on its own: from every reachable state there are
  steps, none of them of the writer's pushes, after which every value published so far has
  been popped, so a writer that spins on a full ring finds room again.
\<close>

theorem queue_drains:
  assumes "queue_reachable s"
  shows "\<exists>s'. queue_step\<^sup>*\<^sup>* s s' \<and> pushed s' = pushed s \<and> popped s' = map Some (pushed s)"
proof -
  obtain h where "queue_inv h s" using queue_inv_reachable [OF assms] by blast
  then obtain s1 h1 where s1: "queue_step\<^sup>*\<^sup>* s s1" "queue_inv h1 s1" "reader s1 = R_idle" "pushed s1 = pushed s"
    using reader_finishes by blast
  then obtain s2 where "queue_step\<^sup>*\<^sup>* s1 s2" "popped s2 = map Some (pushed s1)" "pushed s2 = pushed s1"
    using idle_drains [OF s1(2,3)] by blast
  then show ?thesis using s1 by (metis rtranclp_trans)
qed

theorem queue_drains_witness:
  "\<exists>s s'. queue_reachable s \<and> popped s = [] \<and> queue_step\<^sup>*\<^sup>* s s' \<and> popped s' = [Some 1, Some (2::nat)]"
proof -
  obtain s where s: "queue_reachable s" "pushed s = [1, 2::nat]" "popped s = []"
    using two_pushes_reachable [of 1 "2::nat"] by blast
  obtain s' where "queue_step\<^sup>*\<^sup>* s s'" "popped s' = map Some (pushed s)"
    using queue_drains [OF s(1)] by blast
  then show ?thesis using s by (intro exI [of _ s] exI [of _ s']) simp
qed

text \<open>
  Run by one thread, the ring is a bounded first-in first-out queue: a push appends when
  fewer than \<open>ring_buffer_size - 1\<close> values are held and never returns otherwise, a pop
  removes the oldest value or dereferences a null pointer when there is none, \<open>clear\<close>
  terminates with the empty queue, and the iterator visits the values in order and stops.
\<close>

theorem queue_refines_list:
  assumes "ring_holds q h xs"
  shows "(if length xs < ring_buffer_size - 1
          then \<exists>q'. q_push v q = Some q' \<and> ring_holds q' h (xs @ [v]) else q_push v q = None) \<and>
    (case xs of [] \<Rightarrow> q_pop q = (Inl Null_deref, q)
     | y # ys \<Rightarrow> fst (q_pop q) = Inr (Some y) \<and> ring_holds (snd (q_pop q)) (Suc h) ys) \<and>
    (\<exists>q'. q_clear q = Some q' \<and> q_empty q') \<and>
    q_walk q (q_head q) [] = Some (map Some xs)"
proof (intro conjI)
  have "length xs < ring_buffer_size" using assms by (simp add: ring_holds_def)
  then show "if length xs < ring_buffer_size - 1
      then \<exists>q'. q_push v q = Some q' \<and> ring_holds q' h (xs @ [v]) else q_push v q = None"
    using q_push_room [OF assms, of v] q_push_full [OF assms, of v]
    by (cases "Suc (length xs) = ring_buffer_size") auto
  show "case xs of [] \<Rightarrow> q_pop q = (Inl Null_deref, q)
      | y # ys \<Rightarrow> fst (q_pop q) = Inr (Some y) \<and> ring_holds (snd (q_pop q)) (Suc h) ys"
    using q_pop_nil [of q h] q_pop_cons [of q h "hd xs" "tl xs"] assms by (cases xs) simp_all
  show "\<exists>q'. q_clear q = Some q' \<and> q_empty q'"
    using q_clear_empties [OF assms] ring_holds_empty by blast
  show "q_walk q (q_head q) [] = Some (map Some xs)"
    using q_walk_collects [OF assms, of 0 "[]"] assms by (simp add: ring_holds_def)
qed

theorem queue_refines_list_witness:
  "\<exists>q q'. ring_holds q 0 [7::nat] \<and> q_push 8 q = Some q' \<and> ring_holds q' 0 [7, 8] \<and>
     fst (q_pop q') = Inr (Some 7)"
proof -
  have N: "length [7::nat] < ring_buffer_size - 1" "length ([]::nat list) < ring_buffer_size - 1"
    by (simp_all add: ring_buffer_size_def)
  obtain q where q: "ring_holds q 0 [7::nat]"
    using queue_refines_list [OF ring_holds_new, of "7::nat"] N by auto
  obtain q' where "q_push 8 q = Some q'" "ring_holds q' 0 [7, 8]"
    using queue_refines_list [OF q, of 8] N by auto
  then show ?thesis using queue_refines_list [of q' 0 "[7, 8]"] q by auto
qed

end
