(* ===== verification/Config_Buffer.thy ===== *)
theory Config_Buffer
  imports Prelude
begin

text \<open>
  The manager of the kernel configuration buffers on the device,
  src/tt_metal/impl/dispatch/worker_config_buffer.hpp and worker_config_buffer.cpp, and its
  client, the head of \<open>EnqueueProgramCommand::process\<close> in
  src/tt_metal/impl/dispatch/command_queue.cpp.

  The manager keeps, for each type of core, a table of eight entries that is used as a ring,
  the indices of the next entry to allocate and to free, and the last reservation. The
  source stores them as parallel vectors indexed by the type; here the vectors are one list
  of records, one record per type. A sync that is not needed is \<open>None\<close>.
\<close>

section \<open>Data\<close>

record config_entry =
  ce_addr :: u32
  ce_size :: u32
  ce_sync :: u32

record config_ring =
  ring_base :: u32
  ring_end :: u32
  ring_entries :: "config_entry list"
  alloc_index :: u32
  free_index :: u32
  reservation :: config_entry

type_synonym config_mgr = "config_ring list"

type_synonym config_sync = "u32 option"

definition kernel_config_entry_count :: nat where
  "kernel_config_entry_count = 8"

definition config_mgr_new :: config_mgr where
  "config_mgr_new = []"

definition init_add_buffer :: "u32 \<Rightarrow> u32 \<Rightarrow> config_mgr \<Rightarrow> config_mgr" where
  "init_add_buffer base_addr sz m =
     m @ [\<lparr>ring_base = base_addr, ring_end = add32 base_addr sz,
           ring_entries = (replicate kernel_config_entry_count \<lparr>ce_addr = 0, ce_size = 0, ce_sync = 0\<rparr>)
             [0 := \<lparr>ce_addr = base_addr, ce_size = 0, ce_sync = 0\<rparr>],
           alloc_index = 0, free_index = 0, reservation = \<lparr>ce_addr = 0, ce_size = 0, ce_sync = 0\<rparr>\<rparr>]"

section \<open>Reserving\<close>

definition next_index :: "u32 \<Rightarrow> u32" where
  "next_index i = (if i + 1 = kernel_config_entry_count then 0 else i + 1)"

definition note_sync :: "config_sync \<Rightarrow> u32 \<Rightarrow> config_sync" where
  "note_sync sync c = (case sync of None \<Rightarrow> Some c | Some c' \<Rightarrow> Some (max c' c))"

text \<open>
  Where the reservation would go and where the space for it ends, before any entry is freed:
  behind the last entry, or at the base of the buffer.
\<close>

definition window :: "config_ring \<Rightarrow> u32 \<Rightarrow> u32 \<Rightarrow> u32 \<times> u32" where
  "window r sz fi =
     (let a = ce_addr (ring_entries r ! alloc_index r);
          e = ring_entries r ! fi;
          limit = (if a \<ge> add32 (ce_addr e) (ce_size e) then ring_end r else ce_addr e)
      in if add32 a sz > limit \<and> limit = ring_end r then (ring_base r, ce_addr e) else (a, limit))"

partial_function (option) reserve_loop ::
    "config_ring \<Rightarrow> u32 \<Rightarrow> config_sync \<Rightarrow> u32 \<Rightarrow> (tt_error + u32 \<times> config_sync) option" where
  "reserve_loop r sz sync fi =
     (if sz = 0 then Some (Inr (ce_addr (ring_entries r ! alloc_index r), sync))
      else if \<not> sz \<le> sub32 (ring_end r) (ring_base r) then Some (Inl (Tt_assert ''size''))
      else if add32 (fst (window r sz fi)) sz > snd (window r sz fi) then
        if next_index fi = alloc_index r
        then Some (Inr (ring_base r, note_sync sync (ce_sync (ring_entries r ! fi))))
        else if add32 (fst (window r sz fi)) sz
                > (if fst (window r sz fi) \<ge> ce_addr (ring_entries r ! next_index fi) then ring_end r
                   else ce_addr (ring_entries r ! next_index fi))
        then reserve_loop r sz sync (next_index fi)
        else Some (Inr (fst (window r sz fi), note_sync sync (ce_sync (ring_entries r ! fi))))
      else if alloc_index r + 1 = fi \<or> (alloc_index r + 1 = kernel_config_entry_count \<and> fi = 0)
      then Some (Inr (fst (window r sz fi), note_sync sync (ce_sync (ring_entries r ! fi))))
      else Some (Inr (fst (window r sz fi), sync)))"

fun reserve_rings ::
    "u32 list \<Rightarrow> config_mgr \<Rightarrow> config_sync \<Rightarrow> (tt_error + config_sync \<times> config_mgr) option" where
  "reserve_rings (sz # sizes) (r # rs) sync =
     Option.bind (reserve_loop r sz sync (free_index r)) (\<lambda>res.
       case res of
         Inl e \<Rightarrow> Some (Inl e)
       | Inr (a, sync) \<Rightarrow>
           Option.bind (reserve_rings sizes rs sync) (\<lambda>rest.
             case rest of
               Inl e \<Rightarrow> Some (Inl e)
             | Inr (sync, rs) \<Rightarrow>
                 Some (Inr (sync, r\<lparr>reservation := (reservation r)\<lparr>ce_size := sz, ce_addr := a\<rparr>\<rparr> # rs))))"
| "reserve_rings _ rs sync = Some (Inr (sync, rs))"

definition mgr_reserve :: "u32 list \<Rightarrow> config_mgr \<Rightarrow> (tt_error + config_sync \<times> config_mgr) option" where
  "mgr_reserve sizes m =
     (if length sizes \<noteq> length m then Some (Inl (Tt_assert ''sizes'')) else reserve_rings sizes m None)"

section \<open>Freeing and allocating\<close>

partial_function (option) free_loop :: "config_ring \<Rightarrow> u32 \<Rightarrow> u32 \<Rightarrow> u32 option" where
  "free_loop r c fi =
     (if c \<ge> ce_sync (ring_entries r ! fi) \<and> fi \<noteq> alloc_index r then free_loop r c (next_index fi)
      else Some fi)"

fun mgr_free :: "u32 \<Rightarrow> config_mgr \<Rightarrow> config_mgr option" where
  "mgr_free c [] = Some []"
| "mgr_free c (r # rs) =
     Option.bind (free_loop r c (free_index r)) (\<lambda>fi.
       Option.bind (mgr_free c rs) (\<lambda>rs. Some (r\<lparr>free_index := fi\<rparr> # rs)))"

definition ring_alloc :: "u32 \<Rightarrow> config_ring \<Rightarrow> config_ring" where
  "ring_alloc c r =
     (let old = alloc_index r;
          new = next_index old;
          es = (ring_entries r)[old := \<lparr>ce_addr = ce_addr (reservation r), ce_size = ce_size (reservation r), ce_sync = c\<rparr>]
      in r\<lparr>ring_entries := es[new := \<lparr>ce_addr = add32 (ce_addr (es ! old)) (ce_size (es ! old)), ce_size = 0,
                                     ce_sync = 0xbabababa\<rparr>],
           alloc_index := new\<rparr>)"

definition mgr_alloc :: "u32 \<Rightarrow> config_mgr \<Rightarrow> config_mgr" where
  "mgr_alloc c m = map (ring_alloc c) m"

definition ring_mark_full :: "u32 \<Rightarrow> config_ring \<Rightarrow> config_ring" where
  "ring_mark_full sync r =
     r\<lparr>alloc_index := 1, free_index := 0,
       ring_entries := (ring_entries r)
         [0 := \<lparr>ce_addr = ring_base r, ce_size = sub32 (ring_end r) (ring_base r), ce_sync = sync\<rparr>,
          1 := \<lparr>ce_addr = ring_end r, ce_size = 0, ce_sync = 0xbabababa\<rparr>]\<rparr>"

definition mark_completely_full :: "u32 \<Rightarrow> config_mgr \<Rightarrow> config_mgr" where
  "mark_completely_full sync m = map (ring_mark_full sync) m"

datatype core_type_index = TENSIX | ACTIVE_ETH | IDLE_ETH

fun type_index :: "core_type_index \<Rightarrow> nat" where
  "type_index TENSIX = 0"
| "type_index ACTIVE_ETH = 1"
| "type_index IDLE_ETH = 2"

definition get_last_slot_addr :: "core_type_index \<Rightarrow> config_mgr \<Rightarrow> tt_error + u32" where
  "get_last_slot_addr t m =
     (if t = IDLE_ETH then Inl (Tt_assert ''programmable_core_type'')
      else if type_index t < length m then Inr (ce_addr (reservation (m ! type_index t))) else Inl Out_of_range)"

section \<open>The client\<close>

text \<open>
  The head of \<open>EnqueueProgramCommand::process\<close>: reserve, decide what to wait for, free what
  the wait makes free, allocate. The result has the two stall flags, the count to wait for
  and the manager. \<open>stored\<close> is \<open>kernel_binary_always_stored_in_ringbuffer()\<close>, \<open>cached\<close>
  whether a command sequence of the program is cached, \<open>expected\<close> the completed workers
  expected of the earlier programs and \<open>num_workers\<close> the workers of this one.
\<close>

record stalls =
  stall_first :: bool
  stall_before_program :: bool
  wait_count :: u32

definition decide_stalls ::
    "u32 list \<Rightarrow> bool \<Rightarrow> u32 \<Rightarrow> config_sync \<Rightarrow> config_mgr \<Rightarrow> (tt_error + stalls \<times> config_mgr) option" where
  "decide_stalls sizes stored expected sync m =
     (if \<not> stored
      then Some (Inr (\<lparr>stall_first = sync \<noteq> None, stall_before_program = sync = None, wait_count = expected\<rparr>, m))
      else case sync of
        None \<Rightarrow> Some (Inr (\<lparr>stall_first = False, stall_before_program = False, wait_count = 0\<rparr>, m))
      | Some c \<Rightarrow>
          Option.bind (mgr_reserve (sizes[length sizes - 1 := 0]) m) (\<lambda>memory.
            case memory of
              Inl e \<Rightarrow> Some (Inl e)
            | Inr (memory_sync, m) \<Rightarrow>
                Option.bind (mgr_reserve sizes m) (\<lambda>again.
                  case again of
                    Inl e \<Rightarrow> Some (Inl e)
                  | Inr (_, m) \<Rightarrow>
                      Some (Inr (\<lparr>stall_first = memory_sync \<noteq> None, stall_before_program = memory_sync = None,
                                  wait_count = c\<rparr>, m)))))"

definition config_process ::
    "u32 list \<Rightarrow> bool \<Rightarrow> bool \<Rightarrow> u32 \<Rightarrow> u32 \<Rightarrow> config_mgr \<Rightarrow> (tt_error + stalls \<times> config_mgr) option" where
  "config_process sizes stored cached expected num_workers m =
     Option.bind (mgr_reserve sizes m) (\<lambda>res.
       case res of
         Inl e \<Rightarrow> Some (Inl e)
       | Inr (sync, m) \<Rightarrow>
           Option.bind (decide_stalls sizes stored expected sync m) (\<lambda>decided.
             case decided of
               Inl e \<Rightarrow> Some (Inl e)
             | Inr (st, m) \<Rightarrow>
                 Option.bind
                   (if \<not> cached then mgr_free expected m
                    else if stall_first st \<or> stall_before_program st then mgr_free (wait_count st) m
                    else Some m)
                   (\<lambda>m. Some (Inr (st, mgr_alloc (add32 expected num_workers) m)))))"

end
