(* ===== verification/Config_Buffer_Layout.thy ===== *)
theory Config_Buffer_Layout
  imports Config_Buffer
begin

text \<open>
  The layout of the entries of a configuration ring that are in use, oldest first, and of
  the address behind the newest one: either one run of adjacent entries, or a run up to the
  end of the buffer followed by a run from its base that stops before the oldest entry. The
  lemmas follow one turn of the search loop of \<open>reserve\<close> on a layout.
\<close>

section \<open>Layouts\<close>

fun run :: "nat \<Rightarrow> config_entry list \<Rightarrow> nat \<Rightarrow> bool" where
  "run p [] q \<longleftrightarrow> p = q"
| "run p (e # es) q \<longleftrightarrow> ce_addr e = p \<and> 0 < ce_size e \<and> run (p + ce_size e) es q"

definition straight :: "nat \<Rightarrow> nat \<Rightarrow> config_entry list \<Rightarrow> nat \<Rightarrow> bool" where
  "straight b l es n \<longleftrightarrow> (\<exists>p \<ge> b. run p es n) \<and> n \<le> l"

definition wrapped :: "nat \<Rightarrow> nat \<Rightarrow> config_entry list \<Rightarrow> nat \<Rightarrow> bool" where
  "wrapped b l es n \<longleftrightarrow>
     (\<exists>xs ys p q. es = xs @ ys \<and> xs \<noteq> [] \<and> ys \<noteq> [] \<and> run p xs q \<and> q \<le> l \<and> run b ys n \<and> n \<le> p)"

definition ring_layout :: "nat \<Rightarrow> nat \<Rightarrow> config_entry list \<Rightarrow> nat \<Rightarrow> bool" where
  "ring_layout b l es n \<longleftrightarrow> straight b l es n \<or> wrapped b l es n"

lemma run_mono: "run p es q \<Longrightarrow> p + length es \<le> q"
  by (induction es arbitrary: p) force+

lemma run_append: "run p (xs @ ys) q \<longleftrightarrow> (\<exists>m. run p xs m \<and> run m ys q)"
  by (induction xs arbitrary: p) auto

lemma run_snoc: "run p xs n \<Longrightarrow> ce_addr e = n \<Longrightarrow> 0 < ce_size e \<Longrightarrow> run p (xs @ [e]) (n + ce_size e)"
  by (simp add: run_append)

lemma run_in: "run p es q \<Longrightarrow> e \<in> set es \<Longrightarrow> p \<le> ce_addr e \<and> ce_addr e + ce_size e \<le> q \<and> 0 < ce_size e"
proof (induction es arbitrary: p)
  case (Cons a es)
  then show ?case using run_mono [of "p + ce_size a" es q] by (cases "e = a") force+
qed simp

lemma run_disjoint:
  "run p es q \<Longrightarrow> i < j \<Longrightarrow> j < length es \<Longrightarrow> ce_addr (es ! i) + ce_size (es ! i) \<le> ce_addr (es ! j)"
proof (induction es arbitrary: p i j)
  case (Cons a es)
  then obtain k where k: "j = Suc k" by (cases j) auto
  have run: "run (p + ce_size a) es q" using Cons.prems by simp
  show ?case
  proof (cases i)
    case 0
    then show ?thesis using Cons.prems k run_in [OF run, of "es ! k"] by simp
  next
    case (Suc i')
    then show ?thesis using Cons.prems k Cons.IH [OF run, of i' k] by simp
  qed
qed simp

lemma straight_Nil: "straight b l [] n \<longleftrightarrow> b \<le> n \<and> n \<le> l"
  by (auto simp: straight_def)

lemma straight_tl:
  assumes "straight b l (e # es) n"
  shows "straight b l es n"
proof -
  obtain p where "b \<le> p" "run p (e # es) n" "n \<le> l" using assms by (auto simp: straight_def)
  then show ?thesis by (auto simp: straight_def intro: exI [of _ "p + ce_size e"])
qed

lemma ring_layout_tl: "ring_layout b l (e # es) n \<Longrightarrow> ring_layout b l es n"
proof (cases "straight b l (e # es) n")
  case True
  then show ?thesis using straight_tl by (auto simp: ring_layout_def)
next
  case False
  assume "ring_layout b l (e # es) n"
  then obtain xs ys p q where w: "e # es = xs @ ys" "xs \<noteq> []" "ys \<noteq> []" "run p xs q" "q \<le> l" "run b ys n" "n \<le> p"
    using False by (auto simp: ring_layout_def wrapped_def)
  then obtain xs' where xs: "xs = e # xs'" "es = xs' @ ys" by (cases xs) auto
  show ?thesis
  proof (cases "xs' = []")
    case True
    have "p \<le> l" using w(4,5) run_mono by fastforce
    then show ?thesis using w True xs by (auto simp: ring_layout_def straight_def)
  next
    case False
    have "run (p + ce_size e) xs' q" "n \<le> p + ce_size e" using w xs by simp_all
    then show ?thesis using w xs False unfolding ring_layout_def wrapped_def by blast
  qed
qed

lemma ring_layout_drop: "ring_layout b l es n \<Longrightarrow> ring_layout b l (drop k es) n"
proof (induction k arbitrary: es)
  case (Suc k)
  then show ?case using ring_layout_tl by (cases es) auto
qed simp

text \<open>Entries in use lie in the buffer and do not overlap.\<close>

lemma ring_layout_inside:
  assumes "ring_layout b l es n" "e \<in> set es"
  shows "b \<le> ce_addr e \<and> ce_addr e + ce_size e \<le> l \<and> 0 < ce_size e"
  using assms(1) unfolding ring_layout_def
proof
  assume "straight b l es n"
  then obtain p where "b \<le> p" "run p es n" "n \<le> l" by (auto simp: straight_def)
  then show ?thesis using run_in assms(2) by fastforce
next
  assume "wrapped b l es n"
  then obtain xs ys p q where w: "es = xs @ ys" "run p xs q" "q \<le> l" "run b ys n" "n \<le> p"
    by (auto simp: wrapped_def)
  have "b \<le> n" "p \<le> q" using run_mono [OF w(4)] run_mono [OF w(2)] by simp_all
  then show ?thesis
    using w run_in [OF w(2), of e] run_in [OF w(4), of e] assms(2) by (cases "e \<in> set xs") auto
qed

definition apart :: "config_entry \<Rightarrow> config_entry \<Rightarrow> bool" where
  "apart d e \<longleftrightarrow> ce_addr d + ce_size d \<le> ce_addr e \<or> ce_addr e + ce_size e \<le> ce_addr d"

lemma ring_layout_apart:
  assumes "ring_layout b l es n" "i < j" "j < length es"
  shows "apart (es ! i) (es ! j)"
  using assms(1) unfolding ring_layout_def
proof
  assume "straight b l es n"
  then show ?thesis using run_disjoint assms(2,3) by (fastforce simp: straight_def apart_def)
next
  assume "wrapped b l es n"
  then obtain xs ys p q where w: "es = xs @ ys" "run p xs q" "run b ys n" "n \<le> p"
    by (auto simp: wrapped_def)
  consider "j < length xs" | "length xs \<le> i" | "i < length xs" "length xs \<le> j" by linarith
  then show ?thesis
  proof cases
    case 1
    then show ?thesis using run_disjoint [OF w(2) assms(2)] assms w(1) by (simp add: apart_def nth_append)
  next
    case 2
    then show ?thesis
      using run_disjoint [OF w(3), of "i - length xs" "j - length xs"] assms w(1)
      by (simp add: apart_def nth_append)
  next
    case 3
    have "xs ! i \<in> set xs" "ys ! (j - length xs) \<in> set ys" using 3 assms w(1) by simp_all
    then have "p \<le> ce_addr (xs ! i)" "ce_addr (ys ! (j - length xs)) + ce_size (ys ! (j - length xs)) \<le> n"
      using run_in [OF w(2)] run_in [OF w(3)] by blast+
    then show ?thesis using 3 w(1,4) by (simp add: apart_def nth_append)
  qed
qed

section \<open>One turn of the search\<close>

text \<open>The window of the source on plain numbers; \<open>n\<close> is the address behind the newest entry.\<close>

definition gap :: "nat \<Rightarrow> nat \<Rightarrow> nat \<Rightarrow> nat \<Rightarrow> config_entry \<Rightarrow> nat \<times> nat" where
  "gap b l n s e =
     (let limit = (if n \<ge> ce_addr e + ce_size e then l else ce_addr e)
      in if n + s > limit \<and> limit = l then (b, ce_addr e) else (n, limit))"

definition too_big :: "nat \<Rightarrow> nat \<Rightarrow> nat \<Rightarrow> nat \<Rightarrow> config_entry \<Rightarrow> bool" where
  "too_big b l n s e \<longleftrightarrow> snd (gap b l n s e) < fst (gap b l n s e) + s"

definition next_limit :: "nat \<Rightarrow> nat \<Rightarrow> config_entry \<Rightarrow> nat" where
  "next_limit l a e = (if a \<ge> ce_addr e then l else ce_addr e)"

lemma straight_Cons:
  assumes "straight b l (e # es) n"
  shows "b \<le> ce_addr e" "0 < ce_size e" "ce_addr e + ce_size e \<le> n" "n \<le> l" "run (ce_addr e) (e # es) n"
    and "es = d # ds \<Longrightarrow> ce_addr d = ce_addr e + ce_size e"
  using assms run_mono [of "ce_addr e + ce_size e" es n] by (auto simp: straight_def)

lemma wrapped_Cons:
  assumes "wrapped b l (e # es) n"
  obtains xs ys q where "es = xs @ ys" "ys \<noteq> []" "run (ce_addr e + ce_size e) xs q" "0 < ce_size e" "q \<le> l"
    "run b ys n" "n \<le> ce_addr e" "ce_addr e + ce_size e \<le> q" "b < n"
proof -
  obtain xs ys p q where w: "e # es = xs @ ys" "xs \<noteq> []" "ys \<noteq> []" "run p xs q" "q \<le> l" "run b ys n" "n \<le> p"
    using assms by (auto simp: wrapped_def)
  then obtain xs' where xs: "xs = e # xs'" "es = xs' @ ys" by (cases xs) auto
  have "p + ce_size e \<le> q" "b + length ys \<le> n"
    using w(4) xs run_mono [of "p + ce_size e" xs' q] run_mono [OF w(6)] by auto
  moreover have "b < n" using \<open>b + length ys \<le> n\<close> w(3) by (cases ys) auto
  ultimately show ?thesis using that [of xs' ys q] w xs by auto
qed

definition placed :: "nat \<Rightarrow> config_entry \<Rightarrow> nat \<Rightarrow> bool" where
  "placed s e a \<longleftrightarrow> ce_addr e = a \<and> ce_size e = s \<and> 0 < s"

lemma straight_snoc:
  assumes "straight b l es n" "n + s \<le> l" "placed s new n"
  shows "straight b l (es @ [new]) (n + s)"
  using assms run_snoc [of _ es n new] by (auto simp: straight_def placed_def)

lemma straight_wrap:
  assumes "straight b l (e # es) n" "b + s \<le> ce_addr e" "placed s new b"
  shows "wrapped b l ((e # es) @ [new]) (b + s)"
proof -
  have "run b [new] (b + s)" using assms(3) by (simp add: placed_def)
  then show ?thesis
    unfolding wrapped_def using straight_Cons(4,5) [OF assms(1)] assms(2)
    by (intro exI [of _ "e # es"] exI [of _ "[new]"] exI [of _ "ce_addr e"] exI [of _ n]) simp
qed

lemma wrapped_snoc:
  assumes "wrapped b l (e # es) n" "n + s \<le> ce_addr e" "placed s new n"
  shows "wrapped b l ((e # es) @ [new]) (n + s)"
proof -
  obtain xs ys q where w: "es = xs @ ys" "ys \<noteq> []" "run (ce_addr e + ce_size e) xs q" "0 < ce_size e" "q \<le> l"
    "run b ys n"
    using wrapped_Cons [OF assms(1)] by metis
  have "run b (ys @ [new]) (n + s)" using run_snoc [OF w(6), of new] assms(3) by (simp add: placed_def)
  then show ?thesis unfolding wrapped_def using w assms(2)
    by (intro exI [of _ "e # xs"] exI [of _ "ys @ [new]"] exI [of _ "ce_addr e"] exI [of _ q]) simp
qed

lemma gap_straight:
  assumes "straight b l (e # es) n"
  shows "gap b l n s e = (if n + s > l then (b, ce_addr e) else (n, l))"
  using straight_Cons [OF assms] by (simp add: gap_def)

lemma gap_wrapped:
  assumes "wrapped b l (e # es) n"
  shows "gap b l n s e = (n, ce_addr e)"
  using wrapped_Cons [OF assms] by (fastforce simp: gap_def)

text \<open>The reservation fits without freeing anything.\<close>

lemma fits_layout:
  assumes "ring_layout b l (e # es) n" "\<not> too_big b l n s e" "placed s new (fst (gap b l n s e))"
  shows "ring_layout b l ((e # es) @ [new]) (fst (gap b l n s e) + s)"
proof (cases "straight b l (e # es) n")
  case True
  then show ?thesis
    using assms straight_snoc [OF True] straight_wrap [OF True]
    by (auto simp: gap_straight [OF True] too_big_def ring_layout_def split: if_splits)
next
  case False
  then have w: "wrapped b l (e # es) n" using assms(1) by (simp add: ring_layout_def)
  then show ?thesis
    using assms wrapped_snoc [OF w] by (simp add: gap_wrapped [OF w] too_big_def ring_layout_def)
qed

text \<open>It fits once the oldest entry is freed, or the oldest entry is the only one.\<close>

lemma too_big_singleton:
  assumes "ring_layout b l [e] n"
  shows "straight b l [e] n"
  using assms wrapped_Cons [of b l e "[]" n] by (force simp: ring_layout_def)

lemma fits_after_free:
  assumes "ring_layout b l (e # d # es) n" "too_big b l n s e"
    "fst (gap b l n s e) + s \<le> next_limit l (fst (gap b l n s e)) d" "placed s new (fst (gap b l n s e))"
  shows "ring_layout b l ((d # es) @ [new]) (fst (gap b l n s e) + s)"
proof (cases "straight b l (e # d # es) n")
  case True
  note c = straight_Cons [OF True]
  have "n + s > l" using assms(2) by (auto simp: too_big_def gap_straight [OF True] split: if_splits)
  then have "b + s \<le> ce_addr d" using assms(3) c(1,2) c(6) [of d es]
    by (simp add: gap_straight [OF True] next_limit_def)
  then show ?thesis
    using straight_wrap [OF straight_tl [OF True]] assms(4) \<open>n + s > l\<close>
    by (simp add: gap_straight [OF True] ring_layout_def)
next
  case False
  then have w: "wrapped b l (e # d # es) n" using assms(1) by (simp add: ring_layout_def)
  then obtain xs ys q where v: "d # es = xs @ ys" "ys \<noteq> []" "run (ce_addr e + ce_size e) xs q" "0 < ce_size e"
    "q \<le> l" "run b ys n" "n \<le> ce_addr e" "b < n" "ce_addr e + ce_size e \<le> q" by (rule wrapped_Cons) blast
  note g = gap_wrapped [OF w]
  show ?thesis
  proof (cases xs)
    case Nil
    then have "straight b l (d # es) n" using v by (auto simp: straight_def)
    moreover have "ce_addr d = b" using v Nil by (cases ys) auto
    ultimately show ?thesis
      using straight_snoc [of b l "d # es" n s new] assms(3,4) v(8)
      by (simp add: g next_limit_def ring_layout_def)
  next
    case (Cons x xs')
    then have d: "ce_addr d = ce_addr e + ce_size e" and x: "x = d" using v by auto
    have "wrapped b l (d # es) n"
      unfolding wrapped_def using v Cons d x
      by (intro exI [of _ xs] exI [of _ ys] exI [of _ "ce_addr e + ce_size e"] exI [of _ q]) simp
    then show ?thesis
      using wrapped_snoc [of b l d es n s new] assms(3,4) d v(4,7)
      by (simp add: g next_limit_def ring_layout_def)
  qed
qed

text \<open>If it does not, the next turn finds the reservation too big for the next entry as well.\<close>

lemma still_too_big:
  assumes "ring_layout b l (e # d # es) n" "too_big b l n s e" "0 < s"
    "\<not> fst (gap b l n s e) + s \<le> next_limit l (fst (gap b l n s e)) d"
  shows "too_big b l n s d"
proof (cases "straight b l (e # d # es) n")
  case True
  note c = straight_Cons [OF True] and tl = straight_tl [OF True]
  have "n + s > l" using assms(2) by (auto simp: too_big_def gap_straight [OF True] split: if_splits)
  then show ?thesis using assms(4) c(1,2) c(6) [of d es]
    by (simp add: gap_straight [OF True] gap_straight [OF tl] too_big_def next_limit_def)
next
  case False
  then have w: "wrapped b l (e # d # es) n" using assms(1) by (simp add: ring_layout_def)
  then obtain xs ys q where v: "d # es = xs @ ys" "ys \<noteq> []" "run (ce_addr e + ce_size e) xs q" "0 < ce_size e"
    "q \<le> l" "run b ys n" "n \<le> ce_addr e" "b < n" "ce_addr e + ce_size e \<le> q" by (rule wrapped_Cons) blast
  note g = gap_wrapped [OF w]
  show ?thesis
  proof (cases xs)
    case Nil
    then have st: "straight b l (d # es) n" using v by (auto simp: straight_def)
    moreover have "ce_addr d = b" using v Nil by (cases ys) auto
    ultimately show ?thesis
      using assms(3,4) v(8) by (simp add: g gap_straight [OF st] next_limit_def too_big_def)
  next
    case (Cons x xs')
    then have d: "ce_addr d = ce_addr e + ce_size e" and x: "x = d" using v by auto
    have w': "wrapped b l (d # es) n"
      unfolding wrapped_def using v Cons d x
      by (intro exI [of _ xs] exI [of _ ys] exI [of _ "ce_addr e + ce_size e"] exI [of _ q]) simp
    then show ?thesis
      using assms(4) d v(4,7) by (simp add: g gap_wrapped [OF w'] next_limit_def too_big_def)
  qed
qed

end
