(* ===== verification/Config_Buffer_Props.thy ===== *)
theory Config_Buffer_Props
  imports Config_Buffer_Layout
begin

text \<open>
  The configuration ring as the source stores it: the entries in use are those from
  \<open>free_index\<close> up to \<open>alloc_index\<close>, counted around the table. The lemmas show that the
  search of \<open>reserve\<close> ends and where it places a reservation, what \<open>free\<close> releases and
  that \<open>alloc\<close> appends the reservation.
\<close>

section \<open>The entries in use\<close>

definition live_count :: "config_ring \<Rightarrow> nat" where
  "live_count r = (alloc_index r + 8 - free_index r) mod 8"

definition live :: "config_ring \<Rightarrow> config_entry list" where
  "live r = map (\<lambda>i. ring_entries r ! ((free_index r + i) mod 8)) [0..<live_count r]"

definition next_addr :: "config_ring \<Rightarrow> nat" where
  "next_addr r = ce_addr (ring_entries r ! alloc_index r)"

definition table_ok :: "config_ring \<Rightarrow> bool" where
  "table_ok r \<longleftrightarrow> length (ring_entries r) = 8 \<and> alloc_index r < 8 \<and> free_index r < 8 \<and>
     ring_base r < ring_end r \<and> ring_end r < 2 ^ 31"

definition ring_ok :: "config_ring \<Rightarrow> bool" where
  "ring_ok r \<longleftrightarrow> table_ok r \<and> ring_layout (ring_base r) (ring_end r) (live r) (next_addr r) \<and>
     sorted (map ce_sync (live r)) \<and>
     (live r = [] \<longrightarrow> next_addr r = ring_base r \<and> ce_size (ring_entries r ! alloc_index r) = 0)"

lemma length_live [simp]: "length (live r) = live_count r"
  by (simp add: live_def)

lemma live_count_less: "live_count r < 8"
  by (simp add: live_count_def)

lemma live_nth: "i < live_count r \<Longrightarrow> live r ! i = ring_entries r ! ((free_index r + i) mod 8)"
  by (simp add: live_def)

lemma live_end: "table_ok r \<Longrightarrow> (free_index r + live_count r) mod 8 = alloc_index r"
  by (simp add: live_count_def table_ok_def mod_simps)

lemma next_index_mod: "i < 8 \<Longrightarrow> next_index i = Suc i mod 8"
  by (simp add: next_index_def kernel_config_entry_count_def mod_Suc)

lemma next_index_add: "next_index ((f + j) mod 8) = (f + Suc j) mod 8"
  by (simp add: next_index_mod mod_simps)

lemma index_less: "(f + j) mod 8 < (8::nat)"
  by simp

lemma live_count_eq:
  assumes "table_ok r"
  shows "live_count r = (if free_index r \<le> alloc_index r then alloc_index r - free_index r
    else alloc_index r + 8 - free_index r)"
  using assms by (auto simp: live_count_def table_ok_def mod_if)

lemma position_mod:
  assumes "table_ok r" "j \<le> live_count r"
  shows "(free_index r + j) mod 8 = (if free_index r + j < 8 then free_index r + j else free_index r + j - 8)"
proof -
  have "free_index r + j < 16" using assms live_count_less [of r] by (simp add: table_ok_def)
  then show ?thesis by (auto simp: le_mod_geq)
qed

lemma position_cases:
  fixes a f j n :: nat
  assumes "a < 8" "f < 8" and n: "n = (if f \<le> a then a - f else a + 8 - f)" and "j \<le> n"
  shows "(if f + j < 8 then f + j else f + j - 8) = a \<longleftrightarrow> j = n"
    and "j < n \<Longrightarrow> a + 1 = (if f + j < 8 then f + j else f + j - 8) \<or>
      (a + 1 = 8 \<and> (if f + j < 8 then f + j else f + j - 8) = 0) \<longleftrightarrow> n = 7 \<and> j = 0"
    and "f' = (if f + j < 8 then f + j else f + j - 8) \<Longrightarrow> (if f' \<le> a then a - f' else a + 8 - f') = n - j"
  using assms by (cases "f \<le> a"; cases "f + j < 8"; simp; linarith)+

lemma live_position_eq:
  assumes "table_ok r" "j \<le> live_count r"
  shows "(free_index r + j) mod 8 = alloc_index r \<longleftrightarrow> j = live_count r"
  unfolding position_mod [OF assms]
  by (rule position_cases(1) [OF _ _ live_count_eq [OF assms(1)] assms(2)])
    (use assms(1) in \<open>simp_all add: table_ok_def\<close>)

lemma ring_layout_next: "ring_layout b l es n \<Longrightarrow> b < l \<Longrightarrow> b \<le> n \<and> n \<le> l"
proof -
  assume "ring_layout b l es n" "b < l"
  moreover have "b \<le> n \<and> n \<le> l" if w: "wrapped b l es n"
  proof -
    obtain xs ys p q where "run p xs q" "q \<le> l" "run b ys n" "n \<le> p"
      using w unfolding wrapped_def by blast
    then show ?thesis using run_mono [of p xs q] run_mono [of b ys n] by linarith
  qed
  moreover have "b \<le> n \<and> n \<le> l" if "straight b l es n"
    using that run_mono by (fastforce simp: straight_def)
  ultimately show ?thesis by (auto simp: ring_layout_def)
qed

section \<open>The search\<close>

lemma window_gap:
  assumes "ring_end r < 2 ^ 31" "next_addr r \<le> ring_end r" "s \<le> ring_end r"
    "ce_addr (ring_entries r ! fi) + ce_size (ring_entries r ! fi) \<le> ring_end r"
  shows "window r s fi = gap (ring_base r) (ring_end r) (next_addr r) s (ring_entries r ! fi)"
proof -
  have "add32 (next_addr r) s = next_addr r + s"
    "add32 (ce_addr (ring_entries r ! fi)) (ce_size (ring_entries r ! fi)) =
       ce_addr (ring_entries r ! fi) + ce_size (ring_entries r ! fi)"
    using assms by (simp_all add: add32_small)
  then show ?thesis by (simp add: window_def gap_def next_addr_def [symmetric] Let_def)
qed

lemma gap_bounds:
  assumes "n \<le> l" "b \<le> l" "ce_addr e \<le> l"
  shows "fst (gap b l n s e) \<le> l"
  using assms by (simp add: gap_def Let_def)

text \<open>\<open>k\<close> is the number of entries that have to be freed before the reservation is written.\<close>

definition fits_after :: "config_ring \<Rightarrow> nat \<Rightarrow> nat \<Rightarrow> nat \<Rightarrow> bool" where
  "fits_after r s a k \<longleftrightarrow> k \<le> live_count r \<and> (live_count r = 7 \<longrightarrow> 0 < k) \<and>
     (\<forall>new. placed s new a \<longrightarrow> ring_layout (ring_base r) (ring_end r) (drop k (live r) @ [new]) (a + s))"

definition sync_for :: "config_ring \<Rightarrow> config_sync \<Rightarrow> nat \<Rightarrow> config_sync" where
  "sync_for r sync k = (if k = 0 then sync else note_sync sync (ce_sync (live r ! (k - 1))))"

lemma fits_after_first:
  assumes "live r = []" "0 < s" "s \<le> ring_end r - ring_base r" "ring_base r < ring_end r"
  shows "fits_after r s (ring_base r) 0"
  using assms length_live [of r] by (auto simp: fits_after_def ring_layout_def straight_def placed_def)

lemma ring_layout_single:
  assumes "placed s new b" "b + s \<le> l"
  shows "ring_layout b l [new] (b + s)"
  using assms by (simp add: ring_layout_def straight_def placed_def)

lemma fits_after_all:
  assumes "ring_base r + s \<le> ring_end r" "k = live_count r" "0 < k"
  shows "fits_after r s (ring_base r) k"
  using assms ring_layout_single by (simp add: fits_after_def)

lemma reserve_loop_one:
  assumes "table_ok r" "0 < s" "s \<le> ring_end r - ring_base r" "next_addr r \<le> ring_end r"
    and e: "e = ring_entries r ! ((free_index r + j) mod 8)" "ce_addr e + ce_size e \<le> ring_end r"
    and d: "d = ring_entries r ! ((free_index r + Suc j) mod 8)" "j < live_count r"
    and g: "g = fst (gap (ring_base r) (ring_end r) (next_addr r) s e)"
  shows "reserve_loop r s sync ((free_index r + j) mod 8) =
    (if too_big (ring_base r) (ring_end r) (next_addr r) s e then
       if Suc j = live_count r then Some (Inr (ring_base r, note_sync sync (ce_sync e)))
       else if \<not> g + s \<le> next_limit (ring_end r) g d then reserve_loop r s sync ((free_index r + Suc j) mod 8)
       else Some (Inr (g, note_sync sync (ce_sync e)))
     else if live_count r = 7 \<and> j = 0 then Some (Inr (g, note_sync sync (ce_sync e)))
     else Some (Inr (g, sync)))"
proof -
  have t: "ring_end r < 2 ^ 31" "ring_base r < ring_end r" using assms(1) by (simp_all add: table_ok_def)
  have w: "window r s ((free_index r + j) mod 8) = gap (ring_base r) (ring_end r) (next_addr r) s e"
    unfolding e(1) by (rule window_gap) (use t assms e in simp_all)
  have "g \<le> ring_end r" unfolding g by (rule gap_bounds) (use assms(4) t e(2) in simp_all)
  then have a: "add32 g s = g + s" using t assms(3) by (intro add32_small) simp
  have sz: "s \<le> sub32 (ring_end r) (ring_base r)" using t assms(3) by (simp add: sub32_small)
  have nx: "next_index ((free_index r + j) mod 8) = alloc_index r \<longleftrightarrow> Suc j = live_count r"
    unfolding next_index_add by (rule live_position_eq) (use assms(1) d(2) in simp_all)
  have full: "alloc_index r + 1 = (free_index r + j) mod 8 \<or>
      (alloc_index r + 1 = kernel_config_entry_count \<and> (free_index r + j) mod 8 = 0) \<longleftrightarrow>
      live_count r = 7 \<and> j = 0"
    unfolding position_mod [OF assms(1) less_imp_le [OF d(2)]] kernel_config_entry_count_def
    by (rule position_cases(2) [OF _ _ live_count_eq [OF assms(1)] less_imp_le [OF d(2)] d(2)])
      (use assms(1) in \<open>simp_all add: table_ok_def\<close>)
  have fw: "fst (window r s ((free_index r + j) mod 8)) = g" using w g by simp
  have tb: "add32 g s > snd (window r s ((free_index r + j) mod 8)) \<longleftrightarrow>
      too_big (ring_base r) (ring_end r) (next_addr r) s e"
    using w g a by (simp add: too_big_def)
  have lim: "(if g \<ge> ce_addr (ring_entries r ! next_index ((free_index r + j) mod 8)) then ring_end r
      else ce_addr (ring_entries r ! next_index ((free_index r + j) mod 8))) = next_limit (ring_end r) g d"
    by (simp add: next_limit_def d(1) next_index_add)
  have "s \<noteq> 0" using assms(2) by simp
  then show ?thesis
    using sz unfolding reserve_loop.simps [of r s sync "(free_index r + j) mod 8"]
    unfolding fw tb nx full lim unfolding next_index_add e(1) [symmetric] a
    by (simp only: not_le if_False if_True simp_thms if_cancel)
qed

lemma reserve_loop_from:
  assumes ok: "table_ok r" "ring_layout (ring_base r) (ring_end r) (live r) (next_addr r)"
    and s: "0 < s" "s \<le> ring_end r - ring_base r"
    and j: "j < live_count r"
      "j = 0 \<or> too_big (ring_base r) (ring_end r) (next_addr r) s (live r ! j)"
  shows "\<exists>a k. reserve_loop r s sync ((free_index r + j) mod 8) = Some (Inr (a, sync_for r sync k)) \<and>
    fits_after r s a k"
  using j
proof (induction "live_count r - j" arbitrary: j)
  case (Suc m)
  let ?b = "ring_base r" and ?l = "ring_end r" and ?n = "next_addr r"
  define e where "e = live r ! j"
  define g where "g = fst (gap ?b ?l ?n s e)"
  define d where "d = ring_entries r ! ((free_index r + Suc j) mod 8)"
  have e': "e = ring_entries r ! ((free_index r + j) mod 8)" using Suc.prems by (simp add: e_def live_nth)
  have lay: "ring_layout ?b ?l (drop j (live r)) ?n" by (rule ring_layout_drop [OF ok(2)])
  have dr: "drop j (live r) = e # drop (Suc j) (live r)" using Suc.prems(1) by (simp add: e_def Cons_nth_drop_Suc)
  have bl: "?b < ?l" using ok(1) by (simp add: table_ok_def)
  have n: "?n \<le> ?l" using ring_layout_next [OF ok(2) bl] by simp
  have ein: "ce_addr e + ce_size e \<le> ?l" using ring_layout_inside [OF lay, of e] dr by simp
  note one = reserve_loop_one [OF ok(1) s n e' ein d_def Suc.prems(1) g_def, of sync]
  show ?case
  proof (cases "too_big ?b ?l ?n s e")
    case False
    then have j0: "j = 0" using Suc.prems(2) e_def by simp
    have fit: "ring_layout ?b ?l (live r @ [new]) (g + s)" if "placed s new g" for new
      using fits_layout [of ?b ?l e "drop (Suc j) (live r)" ?n s new] lay False that j0
      unfolding dr [symmetric] by (simp add: g_def)
    show ?thesis
    proof (cases "live_count r = 7")
      case True
      have "fits_after r s g 1"
        using True ring_layout_drop [OF fit, of _ 1] by (auto simp: fits_after_def)
      moreover have "reserve_loop r s sync ((free_index r + j) mod 8) = Some (Inr (g, sync_for r sync 1))"
        using one False True j0 by (simp add: sync_for_def e_def)
      ultimately show ?thesis by blast
    next
      case False2: False
      have "fits_after r s g 0" using False2 fit by (auto simp: fits_after_def)
      moreover have "reserve_loop r s sync ((free_index r + j) mod 8) = Some (Inr (g, sync_for r sync 0))"
        using one False False2 by (simp add: sync_for_def)
      ultimately show ?thesis by blast
    qed
  next
    case True
    show ?thesis
    proof (cases "Suc j = live_count r")
      case last: True
      have "fits_after r s ?b (Suc j)" using fits_after_all [of r s "Suc j"] last s bl by simp
      moreover have "reserve_loop r s sync ((free_index r + j) mod 8) = Some (Inr (?b, sync_for r sync (Suc j)))"
        using one True last by (simp add: sync_for_def e_def flip: last)
      ultimately show ?thesis by blast
    next
      case more: False
      then have j': "Suc j < live_count r" using Suc.prems(1) by simp
      then have d: "live r ! Suc j = d" "drop (Suc j) (live r) = d # drop (Suc (Suc j)) (live r)"
        by (simp_all add: d_def live_nth Cons_nth_drop_Suc [symmetric])
      have lay': "ring_layout ?b ?l (e # d # drop (Suc (Suc j)) (live r)) ?n" using lay dr d(2) by simp
      show ?thesis
      proof (cases "g + s \<le> next_limit ?l g d")
        case fit: True
        have "fits_after r s g (Suc j)"
          using fits_after_free [OF lay' True] fit j' d(2) by (auto simp: fits_after_def g_def)
        moreover have "reserve_loop r s sync ((free_index r + j) mod 8) = Some (Inr (g, sync_for r sync (Suc j)))"
        using one True more fit by (simp add: sync_for_def e_def)
      ultimately show ?thesis by blast
      next
        case False
        have "too_big ?b ?l ?n s (live r ! Suc j)"
          using still_too_big [OF lay' True s(1)] False d(1) by (simp add: g_def)
        then show ?thesis
          using Suc.hyps(1) [of "Suc j"] Suc.hyps(2) j' one True more False by simp
      qed
    qed
  qed
qed simp

lemma reserve_loop_empty:
  assumes "ring_ok r" "live r = []" "0 < s" "s \<le> ring_end r - ring_base r"
  shows "reserve_loop r s sync (free_index r) = Some (Inr (ring_base r, sync))"
proof -
  have t: "table_ok r" "next_addr r = ring_base r" "ce_size (ring_entries r ! alloc_index r) = 0"
    using assms(1,2) by (simp_all add: ring_ok_def)
  then have bl: "ring_base r < ring_end r" "ring_end r < 2 ^ 31" by (simp_all add: table_ok_def)
  have "live_count r = 0" using assms(2) length_live [of r] by simp
  then have f: "free_index r = alloc_index r" using live_end [OF t(1)] t(1) by (simp add: table_ok_def)
  have "ce_addr (ring_entries r ! free_index r) = ring_base r" using t(2) f by (simp add: next_addr_def)
  then have w: "window r s (alloc_index r) = (ring_base r, ring_end r)"
    using window_gap [of r s "free_index r"] t bl assms(3,4) f by (simp add: gap_def Let_def)
  moreover have "add32 (ring_base r) s = ring_base r + s" using bl assms(4) by (intro add32_small) simp
  moreover have "s \<le> sub32 (ring_end r) (ring_base r)" using bl assms(4) by (simp add: sub32_small)
  moreover have "\<not> ring_end r < ring_base r + s" using bl assms(4) by simp
  ultimately show ?thesis using assms(3) unfolding f
    by (subst reserve_loop.simps) (auto simp: w kernel_config_entry_count_def)
qed

text \<open>The search of a positive size ends and finds a place.\<close>

lemma reserve_loop_ok:
  assumes "ring_ok r" "0 < s" "s \<le> ring_end r - ring_base r"
  shows "\<exists>a k. reserve_loop r s sync (free_index r) = Some (Inr (a, sync_for r sync k)) \<and> fits_after r s a k"
proof (cases "live r = []")
  case True
  have "ring_base r < ring_end r" using assms(1) by (simp add: ring_ok_def table_ok_def)
  then show ?thesis
    using reserve_loop_empty [OF assms(1) True assms(2,3), of sync] fits_after_first [OF True assms(2,3)]
    unfolding sync_for_def by force
next
  case False
  then have "0 < live_count r" using length_live [of r] by (metis length_greater_0_conv)
  then show ?thesis
    using reserve_loop_from [of r s 0 sync] assms by (simp add: ring_ok_def table_ok_def)
qed

text \<open>The search does not look at the previous reservation.\<close>

lemma window_reservation [simp]: "window (r\<lparr>reservation := x\<rparr>) s fi = window r s fi"
  by (auto simp: window_def Let_def)

lemma reserve_loop_reservation:
  assumes "fi < 8" "alloc_index r < 8"
  shows "reserve_loop (r\<lparr>reservation := x\<rparr>) s sync fi = reserve_loop r s sync fi"
  using assms(1)
proof (induction "(alloc_index r + 7 - fi) mod 8" arbitrary: fi rule: less_induct)
  case less
  have rec: "reserve_loop (r\<lparr>reservation := x\<rparr>) s sync (next_index fi) = reserve_loop r s sync (next_index fi)"
    if "next_index fi \<noteq> alloc_index r"
  proof (rule less.hyps)
    show "next_index fi < 8" using less.prems by (simp add: next_index_mod)
    have "(alloc_index r + 7 - fi) mod 8 = (if fi < alloc_index r then alloc_index r - fi - 1 else alloc_index r + 7 - fi)"
      if "fi < 8" for fi
      using that assms(2) by (auto simp: mod_if)
    then show "(alloc_index r + 7 - next_index fi) mod 8 < (alloc_index r + 7 - fi) mod 8"
      using that less.prems assms(2) by (auto simp: next_index_def kernel_config_entry_count_def)
  qed
  show ?case
    unfolding reserve_loop.simps [of "r\<lparr>reservation := x\<rparr>" s sync fi] reserve_loop.simps [of r s sync fi]
    by (simp add: rec cong: if_cong)
qed

section \<open>Freeing\<close>

lemma free_loop_from:
  assumes "table_ok r" "j \<le> live_count r"
  shows "\<exists>k. free_loop r c ((free_index r + j) mod 8) = Some ((free_index r + k) mod 8) \<and> j \<le> k \<and> k \<le> live_count r \<and>
    (\<forall>i. j \<le> i \<longrightarrow> i < live_count r \<longrightarrow> (\<forall>i'. j \<le> i' \<longrightarrow> i' \<le> i \<longrightarrow> ce_sync (live r ! i') \<le> c) \<longrightarrow> i < k)"
  using assms(2)
proof (induction "live_count r - j" arbitrary: j)
  case 0
  then have "j = live_count r" by simp
  then show ?case using live_end [OF assms(1)] by (subst free_loop.simps) (auto intro: exI [of _ j])
next
  case (Suc m)
  then have j: "j < live_count r" by simp
  then have a: "(free_index r + j) mod 8 \<noteq> alloc_index r" using live_position_eq [OF assms(1)] by simp
  have e: "ring_entries r ! ((free_index r + j) mod 8) = live r ! j" using j by (simp add: live_nth)
  show ?case
  proof (cases "ce_sync (live r ! j) \<le> c")
    case True
    have step: "free_loop r c ((free_index r + j) mod 8) = free_loop r c ((free_index r + Suc j) mod 8)"
      using True a e by (subst free_loop.simps) (simp add: next_index_add)
    obtain k where k: "free_loop r c ((free_index r + Suc j) mod 8) = Some ((free_index r + k) mod 8)" "Suc j \<le> k"
      "k \<le> live_count r"
      "\<forall>i. Suc j \<le> i \<longrightarrow> i < live_count r \<longrightarrow> (\<forall>i'. Suc j \<le> i' \<longrightarrow> i' \<le> i \<longrightarrow> ce_sync (live r ! i') \<le> c) \<longrightarrow> i < k"
      using Suc.hyps(1) [of "Suc j"] Suc.hyps(2) j by (metis Suc_diff_Suc Suc_inject Suc_leI)
    have "i < k" if "j \<le> i" "i < live_count r" "\<forall>i'. j \<le> i' \<longrightarrow> i' \<le> i \<longrightarrow> ce_sync (live r ! i') \<le> c" for i
      using that k(2,4) by (cases "i = j") auto
    then show ?thesis using k(1,2,3) step by (intro exI [of _ k]) simp
  next
    case False
    then have "free_loop r c ((free_index r + j) mod 8) = Some ((free_index r + j) mod 8)"
      using e by (subst free_loop.simps) simp
    then show ?thesis using False j by (intro exI [of _ j]) auto
  qed
qed

lemma live_drop:
  assumes "table_ok r" "k \<le> live_count r"
  shows "live (r\<lparr>free_index := (free_index r + k) mod 8\<rparr>) = drop k (live r)"
    and "table_ok (r\<lparr>free_index := (free_index r + k) mod 8\<rparr>)"
proof -
  show t: "table_ok (r\<lparr>free_index := (free_index r + k) mod 8\<rparr>)" using assms(1) by (simp add: table_ok_def)
  have "live_count (r\<lparr>free_index := (free_index r + k) mod 8\<rparr>) = live_count r - k"
    using position_cases(3) [OF _ _ live_count_eq [OF assms(1)] assms(2) position_mod [OF assms]] assms(1)
    unfolding live_count_eq [OF t] by (simp add: table_ok_def split: if_splits)
  then show "live (r\<lparr>free_index := (free_index r + k) mod 8\<rparr>) = drop k (live r)"
    by (intro nth_equalityI) (simp_all add: live_nth mod_simps add.assoc)
qed

text \<open>Freeing up to a count releases at least the entries at and before any entry with that count.\<close>

lemma free_ring:
  assumes "table_ok r" "sorted (map ce_sync (live r))"
  shows "\<exists>fi k. free_loop r c (free_index r) = Some fi \<and> k \<le> live_count r \<and>
    live (r\<lparr>free_index := fi\<rparr>) = drop k (live r) \<and> table_ok (r\<lparr>free_index := fi\<rparr>) \<and>
    (\<forall>i < live_count r. ce_sync (live r ! i) \<le> c \<longrightarrow> i < k)"
proof -
  obtain k where k: "free_loop r c (free_index r) = Some ((free_index r + k) mod 8)" "k \<le> live_count r"
    "\<forall>i < live_count r. (\<forall>i' \<le> i. ce_sync (live r ! i') \<le> c) \<longrightarrow> i < k"
    using free_loop_from [OF assms(1), of 0 c] assms(1) by (auto simp: table_ok_def)
  have "ce_sync (live r ! i') \<le> ce_sync (live r ! i)" if "i' \<le> i" "i < live_count r" for i i'
    using assms(2) that by (auto simp: sorted_iff_nth_mono)
  then have "\<forall>i < live_count r. ce_sync (live r ! i) \<le> c \<longrightarrow> i < k"
    using k(3) le_trans by blast
  then show ?thesis using k(1,2) live_drop [OF assms(1) k(2)] by blast
qed

section \<open>Allocating\<close>

lemma ring_alloc_live:
  assumes "table_ok r" "live_count r < 7" "ce_addr (reservation r) + ce_size (reservation r) < 2 ^ 32"
  shows "live (ring_alloc c r) =
      live r @ [\<lparr>ce_addr = ce_addr (reservation r), ce_size = ce_size (reservation r), ce_sync = c\<rparr>]"
    and "next_addr (ring_alloc c r) = ce_addr (reservation r) + ce_size (reservation r)"
    and "table_ok (ring_alloc c r)"
proof -
  let ?new = "\<lparr>ce_addr = ce_addr (reservation r), ce_size = ce_size (reservation r), ce_sync = c\<rparr>"
  have t: "length (ring_entries r) = 8" "alloc_index r < 8" "free_index r < 8"
    using assms(1) by (simp_all add: table_ok_def)
  have nx: "next_index (alloc_index r) = Suc (alloc_index r) mod 8" "next_index (alloc_index r) \<noteq> alloc_index r"
    using t(2) by (simp_all add: next_index_mod mod_Suc)
  have es: "ring_entries (ring_alloc c r) = (ring_entries r)[alloc_index r := ?new, Suc (alloc_index r) mod 8 :=
      \<lparr>ce_addr = ce_addr (reservation r) + ce_size (reservation r), ce_size = 0, ce_sync = 0xbabababa\<rparr>]"
    and ix: "alloc_index (ring_alloc c r) = Suc (alloc_index r) mod 8" "free_index (ring_alloc c r) = free_index r"
    using t nx(1) assms(3) by (simp_all add: ring_alloc_def Let_def add32_small)
  show tk: "table_ok (ring_alloc c r)"
    using assms(1) t nx by (simp add: table_ok_def ring_alloc_def Let_def)
  show "next_addr (ring_alloc c r) = ce_addr (reservation r) + ce_size (reservation r)"
    using t by (simp add: next_addr_def es ix)
  have n: "live_count (ring_alloc c r) = Suc (live_count r)"
    using assms(2) t unfolding live_count_eq [OF tk] ix live_count_eq [OF assms(1)] by (auto simp: mod_Suc split: if_splits)
  have pos: "(free_index r + i) mod 8 \<noteq> alloc_index r \<and> (free_index r + i) mod 8 \<noteq> Suc (alloc_index r) mod 8"
    if "i < live_count r" for i
  proof -
    have "(free_index r + i) mod 8 = alloc_index r \<longleftrightarrow> i = live_count r"
      by (rule live_position_eq [OF assms(1)]) (use that in simp)
    moreover have "(free_index r + i) mod 8 = Suc (alloc_index r) mod 8 \<longleftrightarrow> i = Suc (live_count r)"
      using live_position_eq [OF tk, of i] that n ix by simp
    ultimately show ?thesis using that by simp
  qed
  have last: "(free_index r + live_count r) mod 8 = alloc_index r" by (rule live_end [OF assms(1)])
  show "live (ring_alloc c r) = live r @ [?new]"
  proof (rule nth_equalityI)
    fix i
    assume "i < length (live (ring_alloc c r))"
    then have i: "i < Suc (live_count r)" using n by simp
    show "live (ring_alloc c r) ! i = (live r @ [?new]) ! i"
    proof (cases "i = live_count r")
      case True
      then show ?thesis using i n last t nx by (simp add: live_nth es ix nth_append)
    next
      case False
      then show ?thesis using i n pos [of i] by (simp add: live_nth es ix nth_append)
    qed
  qed (simp add: n)
qed

end
