(* ===== verification/Config_Buffer_Process.thy ===== *)
theory Config_Buffer_Process
  imports Config_Buffer_Props
begin

text \<open>
  The manager over its rings and the launch of programs: reserving, freeing and allocating
  preserve the layout of every ring when every reservation has a positive size.
\<close>

section \<open>One ring\<close>

lemma live_reservation [simp]:
  "live (r\<lparr>reservation := x\<rparr>) = live r" "live_count (r\<lparr>reservation := x\<rparr>) = live_count r"
  "next_addr (r\<lparr>reservation := x\<rparr>) = next_addr r" "table_ok (r\<lparr>reservation := x\<rparr>) = table_ok r"
  by (simp_all add: live_def live_count_def next_addr_def table_ok_def)

lemma ring_ok_reservation [simp]: "ring_ok (r\<lparr>reservation := x\<rparr>) = ring_ok r"
  by (simp add: ring_ok_def)

lemma fits_after_reservation [simp]: "fits_after (r\<lparr>reservation := x\<rparr>) s a k = fits_after r s a k"
  by (simp add: fits_after_def)

definition reserved :: "config_sync \<Rightarrow> config_ring \<Rightarrow> bool" where
  "reserved sync r \<longleftrightarrow> 0 < ce_size (reservation r) \<and>
     (\<exists>k. fits_after r (ce_size (reservation r)) (ce_addr (reservation r)) k \<and>
          (0 < k \<longrightarrow> (\<exists>c. sync = Some c \<and> ce_sync (live r ! (k - 1)) \<le> c)))"

lemma fits_after_more:
  assumes "fits_after r s a k" "k \<le> k'" "k' \<le> live_count r" "placed s new a"
  shows "ring_layout (ring_base r) (ring_end r) (drop k' (live r) @ [new]) (a + s)"
proof -
  have "ring_layout (ring_base r) (ring_end r) (drop (k' - k) (drop k (live r) @ [new])) (a + s)"
    using assms(1,4) by (intro ring_layout_drop) (simp add: fits_after_def)
  then show ?thesis using assms(2,3) by simp
qed

lemma ring_alloc_ok:
  assumes ok: "ring_ok r" "fits_after r (ce_size (reservation r)) (ce_addr (reservation r)) k"
    "0 < ce_size (reservation r)" "k \<le> k'" "k' \<le> live_count r"
    and r': "r' = r\<lparr>free_index := fi\<rparr>" "live r' = drop k' (live r)" "table_ok r'"
    and c: "\<forall>e \<in> set (live r). ce_sync e \<le> c"
  shows "ring_ok (ring_alloc c r') \<and> (\<forall>e \<in> set (live (ring_alloc c r')). ce_sync e \<le> c) \<and>
    ring_base (ring_alloc c r') = ring_base r \<and> ring_end (ring_alloc c r') = ring_end r"
proof -
  let ?a = "ce_addr (reservation r)" and ?s = "ce_size (reservation r)"
  let ?new = "\<lparr>ce_addr = ?a, ce_size = ?s, ce_sync = c\<rparr>"
  have lay: "ring_layout (ring_base r) (ring_end r) (drop k' (live r) @ [?new]) (?a + ?s)"
    by (rule fits_after_more [OF ok(2,4,5)]) (use ok(3) in \<open>simp add: placed_def\<close>)
  then have "?a + ?s \<le> ring_end r" using ring_layout_inside [OF lay, of ?new] by simp
  moreover have "ring_end r < 2 ^ 31" using ok(1) by (simp add: ring_ok_def table_ok_def)
  ultimately have sm: "ce_addr (reservation r') + ce_size (reservation r') < 2 ^ 32" using r'(1) by simp
  have "live_count r' = live_count r - k'" using arg_cong [OF r'(2), of length] by simp
  moreover have "live_count r = 7 \<longrightarrow> 0 < k" using ok(2) by (simp add: fits_after_def)
  ultimately have lt: "live_count r' < 7" using ok(4) live_count_less [of r] by linarith
  note al = ring_alloc_live [OF r'(3) lt sm]
  have geo: "ring_base (ring_alloc c r') = ring_base r" "ring_end (ring_alloc c r') = ring_end r"
    using r'(1) by (simp_all add: ring_alloc_def Let_def)
  have lv: "live (ring_alloc c r') = drop k' (live r) @ [?new]" using al(1) r'(1,2) by simp
  have "sorted (map ce_sync (drop k' (live r)))"
    using ok(1) by (simp add: ring_ok_def drop_map [symmetric] sorted_wrt_drop)
  then have "sorted (map ce_sync (live (ring_alloc c r')))"
    using c by (auto simp: lv sorted_append dest: in_set_dropD)
  moreover have "next_addr (ring_alloc c r') = ?a + ?s" using al(2) r'(1) by simp
  ultimately have "ring_ok (ring_alloc c r')"
    using lay al(3) unfolding ring_ok_def geo lv by simp
  then show ?thesis using c geo by (auto simp: lv dest: in_set_dropD)
qed

section \<open>The manager\<close>

definition strip :: "config_ring \<Rightarrow> config_ring" where
  "strip r = r\<lparr>reservation := \<lparr>ce_addr = 0, ce_size = 0, ce_sync = 0\<rparr>\<rparr>"

lemma strip_reservation [simp]: "strip (r\<lparr>reservation := x\<rparr>) = strip r"
  by (simp add: strip_def)

lemma strip_eqD:
  assumes "strip r' = strip r"
  shows "r' = r\<lparr>reservation := reservation r'\<rparr>"
  using assms by (cases r, cases r') (simp add: strip_def)

definition sync_le :: "config_sync \<Rightarrow> config_sync \<Rightarrow> bool" where
  "sync_le s t \<longleftrightarrow> (case s of None \<Rightarrow> True | Some c \<Rightarrow> \<exists>d \<ge> c. t = Some d)"

lemma sync_le_refl [simp]: "sync_le s s"
  by (cases s) (simp_all add: sync_le_def)

lemma sync_le_trans: "sync_le s t \<Longrightarrow> sync_le t u \<Longrightarrow> sync_le s u"
  by (fastforce simp: sync_le_def split: option.splits)

lemma sync_le_note [simp]: "sync_le s (note_sync s c)" "sync_le (Some c) (note_sync s c)"
  by (cases s; simp add: sync_le_def note_sync_def)+

lemma reserve_loop_total:
  assumes "ring_ok r" "s \<le> ring_end r - ring_base r"
  shows "\<exists>a sync'. reserve_loop r s sync (free_index r) = Some (Inr (a, sync'))"
proof (cases "s = 0")
  case True
  then show ?thesis by (subst reserve_loop.simps) simp
next
  case False
  then show ?thesis using reserve_loop_ok [OF assms(1) _ assms(2), of sync] by blast
qed

definition sizes_ok :: "u32 list \<Rightarrow> config_mgr \<Rightarrow> bool" where
  "sizes_ok sizes m \<longleftrightarrow> list_all2 (\<lambda>s r. s \<le> ring_end r - ring_base r) sizes m"

lemma reserve_rings_total:
  assumes "sizes_ok sizes m" "\<forall>r \<in> set m. ring_ok r"
  shows "\<exists>sync' m'. reserve_rings sizes m sync = Some (Inr (sync', m')) \<and> map strip m' = map strip m"
  using assms
proof (induction sizes m sync rule: reserve_rings.induct)
  case (1 s sizes r rs sync)
  then obtain a sync1 where "reserve_loop r s sync (free_index r) = Some (Inr (a, sync1))"
    using reserve_loop_total [of r s sync] by (auto simp: sizes_ok_def)
  then show ?case using 1 by (fastforce simp: sizes_ok_def)
qed auto

lemma reserve_rings_ConsD:
  assumes "reserve_rings (s # sizes) (r # rs) sync = Some (Inr (sync', m'))"
  shows "\<exists>a sync1 rs'. reserve_loop r s sync (free_index r) = Some (Inr (a, sync1)) \<and>
    reserve_rings sizes rs sync1 = Some (Inr (sync', rs')) \<and>
    m' = r\<lparr>reservation := (reservation r)\<lparr>ce_size := s, ce_addr := a\<rparr>\<rparr> # rs'"
proof -
  obtain res where res: "reserve_loop r s sync (free_index r) = Some res"
    using assms by (cases "reserve_loop r s sync (free_index r)") auto
  then obtain a sync1 where a: "res = Inr (a, sync1)" using assms by (cases res) auto
  obtain rest where rest: "reserve_rings sizes rs sync1 = Some rest"
    using assms res a by (cases "reserve_rings sizes rs sync1") auto
  then show ?thesis using assms res a by (cases rest) auto
qed

lemma reserve_rings_ok:
  assumes "sizes_ok sizes m" "\<forall>s \<in> set sizes. 0 < s" "\<forall>r \<in> set m. ring_ok r"
    "reserve_rings sizes m sync = Some (Inr (sync', m'))"
  shows "sync_le sync sync' \<and> (\<forall>r \<in> set m'. reserved sync' r)"
  using assms
proof (induction sizes m sync arbitrary: m' rule: reserve_rings.induct)
  case (1 s sizes r rs sync)
  then obtain a k where loop: "reserve_loop r s sync (free_index r) = Some (Inr (a, sync_for r sync k))"
    and fit: "fits_after r s a k"
    using reserve_loop_ok [of r s sync] by (auto simp: sizes_ok_def)
  then obtain rs' where rest: "reserve_rings sizes rs (sync_for r sync k) = Some (Inr (sync', rs'))"
    and m': "m' = r\<lparr>reservation := (reservation r)\<lparr>ce_size := s, ce_addr := a\<rparr>\<rparr> # rs'"
    using reserve_rings_ConsD [OF "1.prems"(4)] by auto
  have IH: "sync_le (sync_for r sync k) sync'" "\<forall>r \<in> set rs'. reserved sync' r"
    using "1.IH" [OF loop refl refl _ _ _ rest] "1.prems"(1,2,3) by (auto simp: sizes_ok_def)
  have le: "sync_le sync (sync_for r sync k)" by (simp add: sync_for_def)
  have "\<exists>c. sync' = Some c \<and> ce_sync (live r ! (k - 1)) \<le> c" if "0 < k"
  proof -
    have "sync_le (Some (ce_sync (live r ! (k - 1)))) sync'"
      using that IH(1) sync_le_trans sync_le_note(2) by (metis sync_for_def less_numeral_extra(3))
    then show ?thesis by (auto simp: sync_le_def)
  qed
  then have "reserved sync' (r\<lparr>reservation := (reservation r)\<lparr>ce_size := s, ce_addr := a\<rparr>\<rparr>)"
    using fit "1.prems"(2) by (auto simp: reserved_def)
  then show ?case using IH(2) m' sync_le_trans [OF le IH(1)] by simp
qed (auto simp: sizes_ok_def)

lemma reserve_rings_strip:
  assumes "map strip m' = map strip m" "\<forall>r \<in> set m. ring_ok r"
    "reserve_rings sizes m sync = Some (Inr (sync1, m1))"
  shows "\<exists>m1'. reserve_rings sizes m' sync = Some (Inr (sync1, m1'))"
  using assms
proof (induction sizes m sync arbitrary: m' m1 rule: reserve_rings.induct)
  case (1 s sizes r rs sync)
  obtain r' rs' where m': "m' = r' # rs'" "strip r' = strip r" "map strip rs' = map strip rs"
    using "1.prems"(1) by (cases m') auto
  obtain a sync2 m2 where loop: "reserve_loop r s sync (free_index r) = Some (Inr (a, sync2))"
    and rest: "reserve_rings sizes rs sync2 = Some (Inr (sync1, m2))"
    using reserve_rings_ConsD [OF "1.prems"(3)] by blast
  have "free_index r < 8" "alloc_index r < 8" using "1.prems"(2) by (simp_all add: ring_ok_def table_ok_def)
  then have "reserve_loop (r\<lparr>reservation := reservation r'\<rparr>) s sync (free_index r) = Some (Inr (a, sync2))"
    using loop by (simp add: reserve_loop_reservation)
  then have "reserve_loop r' s sync (free_index r') = Some (Inr (a, sync2))"
    using strip_eqD [OF m'(2)] by (metis config_ring.select_convs(5) config_ring.surjective config_ring.update_convs(6))
  moreover obtain m3 where "reserve_rings sizes rs' sync2 = Some (Inr (sync1, m3))"
    using "1.IH" [OF loop refl refl m'(3) _ rest] "1.prems"(2) by auto
  ultimately show ?case by (simp add: m'(1))
qed (auto simp: neq_Nil_conv)

section \<open>Freeing\<close>

definition freed :: "u32 \<Rightarrow> config_ring \<Rightarrow> config_ring \<Rightarrow> bool" where
  "freed c r r' \<longleftrightarrow> (\<exists>fi k. r' = r\<lparr>free_index := fi\<rparr> \<and> k \<le> live_count r \<and> live r' = drop k (live r) \<and> table_ok r' \<and>
     (\<forall>i < live_count r. ce_sync (live r ! i) \<le> c \<longrightarrow> i < k))"

lemma mgr_free_ok:
  assumes "\<forall>r \<in> set m. table_ok r \<and> sorted (map ce_sync (live r))"
  shows "\<exists>m'. mgr_free c m = Some m' \<and> list_all2 (freed c) m m'"
  using assms
proof (induction m)
  case (Cons r m)
  then obtain m' where m': "mgr_free c m = Some m'" "list_all2 (freed c) m m'" by auto
  obtain fi k where "free_loop r c (free_index r) = Some fi" "k \<le> live_count r"
    "live (r\<lparr>free_index := fi\<rparr>) = drop k (live r)" "table_ok (r\<lparr>free_index := fi\<rparr>)"
    "\<forall>i < live_count r. ce_sync (live r ! i) \<le> c \<longrightarrow> i < k"
    using free_ring [of r c] Cons.prems by auto
  then have "free_loop r c (free_index r) = Some fi" "freed c r (r\<lparr>free_index := fi\<rparr>)"
    unfolding freed_def by blast+
  then show ?case using m' by simp
qed simp

lemma freed_all:
  assumes "freed c r r'" "\<forall>e \<in> set (live r). ce_sync e \<le> c"
  shows "live r' = []" "table_ok r'" "r' = r\<lparr>free_index := free_index r'\<rparr>"
proof -
  obtain fi k where k: "r' = r\<lparr>free_index := fi\<rparr>" "k \<le> live_count r" "live r' = drop k (live r)" "table_ok r'"
    "\<forall>i < live_count r. ce_sync (live r ! i) \<le> c \<longrightarrow> i < k"
    using assms(1) by (auto simp: freed_def)
  have "\<not> k < live_count r" using k(5) assms(2) nth_mem [of k "live r"] by auto
  then show "live r' = []" using k(3) by simp
  show "table_ok r'" by fact
  show "r' = r\<lparr>free_index := free_index r'\<rparr>" using k(1) by simp
qed

definition recent :: "u32 \<Rightarrow> config_ring \<Rightarrow> bool" where
  "recent c r \<longleftrightarrow> ring_ok r \<and> (\<forall>e \<in> set (live r). ce_sync e \<le> c)"

lemma recent_reservation: "recent c (r\<lparr>reservation := x\<rparr>) = recent c r"
  by (simp add: recent_def)

lemma recent_mono: "recent c r \<Longrightarrow> c \<le> d \<Longrightarrow> recent d r"
  by (fastforce simp: recent_def)

lemma ring_alloc_freed:
  assumes "recent c r" "reserved sync r" "freed f r r'" "sync_le sync (Some f) \<or> c \<le> f" "c \<le> d"
  shows "recent d (ring_alloc d r')"
proof -
  obtain fi k' where k': "r' = r\<lparr>free_index := fi\<rparr>" "k' \<le> live_count r" "live r' = drop k' (live r)" "table_ok r'"
    "\<forall>i < live_count r. ce_sync (live r ! i) \<le> f \<longrightarrow> i < k'"
    using assms(3) by (auto simp: freed_def)
  obtain k where k: "fits_after r (ce_size (reservation r)) (ce_addr (reservation r)) k" "0 < ce_size (reservation r)"
    "0 < k \<longrightarrow> (\<exists>c. sync = Some c \<and> ce_sync (live r ! (k - 1)) \<le> c)"
    using assms(2) by (auto simp: reserved_def)
  have kn: "k \<le> live_count r" using k(1) by (simp add: fits_after_def)
  have "k \<le> k'"
  proof (cases "k = 0")
    case False
    then have lt: "k - 1 < live_count r" using kn by simp
    then have "live r ! (k - 1) \<in> set (live r)" by simp
    then have "ce_sync (live r ! (k - 1)) \<le> c" using assms(1) by (simp add: recent_def)
    moreover obtain b where "sync = Some b" "ce_sync (live r ! (k - 1)) \<le> b" using k(3) False by auto
    ultimately have "ce_sync (live r ! (k - 1)) \<le> f"
      using assms(4) by (auto simp: sync_le_def)
    moreover note lt
    ultimately show ?thesis using k'(5) False by fastforce
  qed simp
  then show ?thesis
    using ring_alloc_ok [OF _ k(1,2) _ k'(2,1,3,4), of d] assms(1,5) by (fastforce simp: recent_def)
qed

lemma ring_alloc_unfreed:
  assumes "recent c r" "reserved None r" "c \<le> d"
  shows "recent d (ring_alloc d r)"
proof -
  obtain k where k: "fits_after r (ce_size (reservation r)) (ce_addr (reservation r)) k" "0 < ce_size (reservation r)"
    "k = 0"
    using assms(2) by (auto simp: reserved_def)
  have "ring_ok r" "table_ok r" "\<forall>e \<in> set (live r). ce_sync e \<le> d"
    using assms(1,3) by (fastforce simp: recent_def ring_ok_def)+
  then show ?thesis
    using ring_alloc_ok [OF _ k(1,2), of 0 r "free_index r" d] k(3) by (simp add: recent_def)
qed

section \<open>Launching a program\<close>

definition mgr_ok :: "u32 \<Rightarrow> config_mgr \<Rightarrow> bool" where
  "mgr_ok c m \<longleftrightarrow> (\<forall>r \<in> set m. recent c r)"

lemma mgr_ok_rings: "mgr_ok c m \<Longrightarrow> \<forall>r \<in> set m. ring_ok r"
  by (simp add: mgr_ok_def recent_def)

lemma strip_mgr_ok:
  assumes "map strip m' = map strip m" "mgr_ok c m"
  shows "mgr_ok c m'"
proof -
  have "recent c r'" if r': "r' \<in> set m'" for r'
  proof -
    obtain r where "r \<in> set m" "strip r = strip r'" using assms(1) r' by (metis imageE imageI list.set_map)
    then have "recent c r" and eq: "strip r' = strip r" using assms(2) by (simp_all add: mgr_ok_def)
    then show ?thesis by (subst strip_eqD [OF eq]) (simp only: recent_reservation)
  qed
  then show ?thesis by (simp add: mgr_ok_def)
qed

lemma strip_sizes_ok: "map strip m' = map strip m \<Longrightarrow> sizes_ok sizes m \<Longrightarrow> sizes_ok sizes m'"
proof -
  assume a: "map strip m' = map strip m" "sizes_ok sizes m"
  have "ring_end (m' ! i) = ring_end (m ! i) \<and> ring_base (m' ! i) = ring_base (m ! i)" if "i < length m" for i
  proof -
    have "strip (m' ! i) = strip (m ! i)" using a(1) that by (metis length_map nth_map)
    then show ?thesis by (metis config_ring.select_convs(1,2) config_ring.surjective config_ring.update_convs(6) strip_def)
  qed
  then show ?thesis using a map_eq_imp_length_eq [OF a(1)] by (simp add: sizes_ok_def list_all2_conv_all_nth)
qed

lemma mgr_reserve_ok:
  assumes "mgr_ok c m" "sizes_ok sizes m" "\<forall>s \<in> set sizes. 0 < s"
  shows "\<exists>sync m'. mgr_reserve sizes m = Some (Inr (sync, m')) \<and> map strip m' = map strip m \<and>
    (\<forall>r \<in> set m'. reserved sync r)"
proof -
  note rings = mgr_ok_rings [OF assms(1)]
  have len: "length sizes = length m" using assms(2) by (simp add: sizes_ok_def list_all2_lengthD)
  obtain sync m' where r: "reserve_rings sizes m None = Some (Inr (sync, m'))" "map strip m' = map strip m"
    using reserve_rings_total [OF assms(2) rings] by blast
  then show ?thesis using reserve_rings_ok [OF assms(2,3) rings r(1)] len by (simp add: mgr_reserve_def)
qed

lemma mgr_reserve_zero_last:
  assumes "mgr_ok c m" "sizes_ok sizes m"
  shows "\<exists>sync m'. mgr_reserve (sizes[length sizes - 1 := 0]) m = Some (Inr (sync, m')) \<and> map strip m' = map strip m"
proof -
  have len: "length sizes = length m" using assms(2) by (simp add: sizes_ok_def list_all2_lengthD)
  have "sizes_ok (sizes[length sizes - 1 := 0]) m"
    using assms(2) by (auto simp: sizes_ok_def list_all2_conv_all_nth nth_list_update)
  then show ?thesis using reserve_rings_total [OF _ mgr_ok_rings [OF assms(1)]] len
    by (fastforce simp: mgr_reserve_def)
qed

lemma decide_stalls_ok:
  assumes "mgr_ok c m" "sizes_ok sizes m" "\<forall>s \<in> set sizes. 0 < s"
    and m1: "mgr_reserve sizes m = Some (Inr (sync, m1))"
  shows "\<exists>st m2. decide_stalls sizes stored c sync m1 = Some (Inr (st, m2)) \<and> map strip m2 = map strip m \<and>
    (\<forall>r \<in> set m2. reserved sync r) \<and>
    (if stall_first st \<or> stall_before_program st then wait_count st = c \<or> Some (wait_count st) = sync
     else sync = None)"
proof (cases "stored \<and> sync \<noteq> None")
  case False
  have "map strip m1 = map strip m" "\<forall>r \<in> set m1. reserved sync r"
    using mgr_reserve_ok [OF assms(1,2,3)] m1 by auto
  then show ?thesis using False by (auto simp: decide_stalls_def)
next
  case True
  then obtain w where w: "sync = Some w" by auto
  have s1: "map strip m1 = map strip m" using mgr_reserve_ok [OF assms(1,2,3)] m1 by auto
  obtain sync' m2 where m2: "mgr_reserve (sizes[length sizes - 1 := 0]) m1 = Some (Inr (sync', m2))"
    "map strip m2 = map strip m1"
    using mgr_reserve_zero_last [OF strip_mgr_ok [OF s1 assms(1)] strip_sizes_ok [OF s1 assms(2)]] by blast
  have s2: "map strip m2 = map strip m" using m2(2) s1 by simp
  obtain sync3 m3 where m3: "mgr_reserve sizes m2 = Some (Inr (sync3, m3))" "map strip m3 = map strip m2"
    "\<forall>r \<in> set m3. reserved sync3 r"
    using mgr_reserve_ok [OF strip_mgr_ok [OF s2 assms(1)] strip_sizes_ok [OF s2 assms(2)] assms(3)] by blast
  have len: "length sizes = length m" "length m2 = length m"
    using assms(2) map_eq_imp_length_eq [OF s2] by (simp_all add: sizes_ok_def list_all2_lengthD)
  have "sync3 = sync"
    using reserve_rings_strip [OF s2 mgr_ok_rings [OF assms(1)], of sizes None sync m1] m1 m3(1) len
    by (auto simp: mgr_reserve_def)
  then show ?thesis using True w m2(1) m3 s2
    by (intro exI [of _ "\<lparr>stall_first = sync' \<noteq> None, stall_before_program = sync' = None, wait_count = w\<rparr>"])
      (auto simp: decide_stalls_def)
qed

lemma config_process_ok:
  assumes "mgr_ok c m" "sizes_ok sizes m" "\<forall>s \<in> set sizes. 0 < s" "c + w < 2 ^ 32"
  shows "\<exists>st m'. config_process sizes stored cached c w m = Some (Inr (st, m')) \<and> mgr_ok (c + w) m'"
proof -
  obtain sync m1 where m1: "mgr_reserve sizes m = Some (Inr (sync, m1))"
    using mgr_reserve_ok [OF assms(1,2,3)] by blast
  obtain st m2 where st: "decide_stalls sizes stored c sync m1 = Some (Inr (st, m2))" "map strip m2 = map strip m"
    "\<forall>r \<in> set m2. reserved sync r"
    "if stall_first st \<or> stall_before_program st then wait_count st = c \<or> Some (wait_count st) = sync else sync = None"
    using decide_stalls_ok [OF assms(1,2,3) m1] by blast
  have m2: "\<forall>r \<in> set m2. recent c r" using strip_mgr_ok [OF st(2) assms(1)] by (simp add: mgr_ok_def)
  then have tab: "\<forall>r \<in> set m2. table_ok r \<and> sorted (map ce_sync (live r))" by (simp add: recent_def ring_ok_def)
  have proc: "config_process sizes stored cached c w m =
      Option.bind (if \<not> cached then mgr_free c m2
        else if stall_first st \<or> stall_before_program st then mgr_free (wait_count st) m2 else Some m2)
      (\<lambda>m. Some (Inr (st, mgr_alloc (c + w) m)))"
    using m1 st(1) assms(4) by (simp add: config_process_def add32_small)
  have alloc: "mgr_ok (c + w) (mgr_alloc (c + w) m3)"
    if fr: "list_all2 (freed f) m2 m3" "sync_le sync (Some f) \<or> c \<le> f" for f m3
  proof -
    have "recent (c + w) (ring_alloc (c + w) r')" if r': "r' \<in> set m3" for r'
    proof -
      obtain r where r: "r \<in> set m2" "freed f r r'" using list_all2_setD [OF fr(1) r'] by blast
      have "recent c r" "reserved sync r" using m2 st(3) r(1) by blast+
      then show ?thesis using ring_alloc_freed [OF _ _ r(2) fr(2), of "c + w"] by simp
    qed
    then show ?thesis by (auto simp: mgr_ok_def mgr_alloc_def)
  qed
  show ?thesis
  proof (cases "cached \<and> \<not> (stall_first st \<or> stall_before_program st)")
    case True
    then have "sync = None" using st(4) by simp
    then have "mgr_ok (c + w) (mgr_alloc (c + w) m2)"
      using ring_alloc_unfreed [of c _ "c + w"] m2 st(3) by (auto simp: mgr_ok_def mgr_alloc_def)
    then show ?thesis using proc True by simp
  next
    case False
    define f where "f = (if cached then wait_count st else c)"
    have "sync_le sync (Some f) \<or> c \<le> f"
      using st(4) False by (auto simp: f_def split: if_splits)
    moreover obtain m3 where "mgr_free f m2 = Some m3" "list_all2 (freed f) m2 m3"
      using mgr_free_ok [OF tab] by blast
    ultimately show ?thesis using proc False alloc by (simp add: f_def split: if_splits)
  qed
qed

end
