(* ===== verification/Command_Queue_Interface.thy ===== *)
theory Command_Queue_Interface
  imports Tt_Math
begin

text \<open>
  The host side of the queues between host and device,
  src/tt_metal/impl/dispatch/command_queue_interface.hpp: the layout of the queues in the
  memory of the dispatch core (\<open>dispatch_constants\<close>), the regions of a command queue in host
  memory (\<open>SystemMemoryCQInterface\<close>), and the operations of \<open>SystemMemoryManager\<close>.

  Numbers of 32 bits are natural numbers with the wrap-around written out. What the sources
  read from the hardware abstraction layer and from the cluster is an argument; the values a
  polling loop reads from the device are a list, and a loop that has not ended when the list
  is used up returns \<open>None\<close>. What is written to the device or to the memory shared with it is
  a list of \<open>device_write\<close>s in the result. A queue identifier indexes the vectors of the
  manager without a check; the theorems are about identifiers in range. The mutexes guard
  single accesses and are left out.
\<close>

definition shl32 :: "u32 \<Rightarrow> nat \<Rightarrow> u32" where
  "shl32 x n = push_bit n x mod 2 ^ 32"

definition shr32 :: "u32 \<Rightarrow> nat \<Rightarrow> u32" where
  "shr32 x n = drop_bit n x"

section \<open>Addresses on the dispatch core\<close>

definition MAX_HUGEPAGE_SIZE :: u32 where "MAX_HUGEPAGE_SIZE = 2 ^ 30"
definition MAX_DEV_CHANNEL_SIZE :: u32 where "MAX_DEV_CHANNEL_SIZE = 2 ^ 28"
definition DEVICES_PER_UMD_CHANNEL :: u32 where "DEVICES_PER_UMD_CHANNEL = MAX_HUGEPAGE_SIZE div MAX_DEV_CHANNEL_SIZE"

datatype cq_device_addr_type =
    PREFETCH_Q_RD | PREFETCH_Q_PCIE_RD | COMPLETION_Q_WR | COMPLETION_Q_RD | COMPLETION_Q0_LAST_EVENT
  | COMPLETION_Q1_LAST_EVENT | DISPATCH_S_SYNC_SEM | DISPATCH_MESSAGE | UNRESERVED

definition device_addr_types :: "cq_device_addr_type list" where
  "device_addr_types =
     [PREFETCH_Q_RD, PREFETCH_Q_PCIE_RD, COMPLETION_Q_WR, COMPLETION_Q_RD, COMPLETION_Q0_LAST_EVENT,
      COMPLETION_Q1_LAST_EVENT, DISPATCH_S_SYNC_SEM, DISPATCH_MESSAGE, UNRESERVED]"

fun device_addr_index :: "cq_device_addr_type \<Rightarrow> nat" where
  "device_addr_index PREFETCH_Q_RD = 0"
| "device_addr_index PREFETCH_Q_PCIE_RD = 1"
| "device_addr_index COMPLETION_Q_WR = 2"
| "device_addr_index COMPLETION_Q_RD = 3"
| "device_addr_index COMPLETION_Q0_LAST_EVENT = 4"
| "device_addr_index COMPLETION_Q1_LAST_EVENT = 5"
| "device_addr_index DISPATCH_S_SYNC_SEM = 6"
| "device_addr_index DISPATCH_MESSAGE = 7"
| "device_addr_index UNRESERVED = 8"

datatype cq_host_addr_type =
    ISSUE_Q_RD | ISSUE_Q_WR | HOST_COMPLETION_Q_WR | HOST_COMPLETION_Q_RD | HOST_UNRESERVED

fun host_addr_index :: "cq_host_addr_type \<Rightarrow> nat" where
  "host_addr_index ISSUE_Q_RD = 0"
| "host_addr_index ISSUE_Q_WR = 1"
| "host_addr_index HOST_COMPLETION_Q_WR = 2"
| "host_addr_index HOST_COMPLETION_Q_RD = 3"
| "host_addr_index HOST_UNRESERVED = 4"

text \<open>The values of the hardware abstraction layer that the queues use.\<close>

record hal_values =
  host_alignment :: u32
  l1_alignment :: u32
  tensix_unreserved :: u32
  idle_eth_unreserved :: u32
  mem_l1_size :: u32
  mem_eth_size :: u32

datatype dispatch_core = WORKER | ETH | Other_core

definition DISPATCH_MESSAGE_ENTRIES :: u32 where "DISPATCH_MESSAGE_ENTRIES = 16"
definition DISPATCH_MESSAGES_MAX_OFFSET :: u32 where "DISPATCH_MESSAGES_MAX_OFFSET = 255"
definition TRANSFER_PAGE_SIZE :: u32 where "TRANSFER_PAGE_SIZE = 2 ^ 12"
definition PREFETCH_Q_LOG_MINSIZE :: nat where "PREFETCH_Q_LOG_MINSIZE = 4"
definition DISPATCH_BUFFER_LOG_PAGE_SIZE :: nat where "DISPATCH_BUFFER_LOG_PAGE_SIZE = 12"
definition DISPATCH_BUFFER_SIZE_BLOCKS :: u32 where "DISPATCH_BUFFER_SIZE_BLOCKS = 4"
definition DISPATCH_S_BUFFER_LOG_PAGE_SIZE :: nat where "DISPATCH_S_BUFFER_LOG_PAGE_SIZE = 7"
definition PREFETCH_D_BUFFER_LOG_PAGE_SIZE :: nat where "PREFETCH_D_BUFFER_LOG_PAGE_SIZE = 12"
definition sizeof_prefetch_q_entry :: u32 where "sizeof_prefetch_q_entry = 2"

record dispatch_constants =
  prefetch_q_entries :: u32
  prefetch_q_size :: u32
  max_prefetch_command_size :: u32
  cmddat_q_base :: u32
  cmddat_q_size :: u32
  scratch_db_base :: u32
  scratch_db_size :: u32
  dispatch_buffer_base :: u32
  dispatch_buffer_block_size_pages :: u32
  dispatch_buffer_pages :: u32
  prefetch_d_buffer_size :: u32
  prefetch_d_buffer_pages :: u32
  dispatch_s_buffer_size :: u32
  device_cq_addrs :: "u32 list"

definition device_cq_addr_size :: "hal_values \<Rightarrow> cq_device_addr_type \<Rightarrow> u32" where
  "device_cq_addr_size h t =
     (if t = PREFETCH_Q_RD then 4
      else if t = PREFETCH_Q_PCIE_RD then sub32 (l1_alignment h) 4
      else if t = DISPATCH_S_SYNC_SEM then mul32 DISPATCH_MESSAGE_ENTRIES (l1_alignment h)
      else if t = DISPATCH_MESSAGE then mul32 DISPATCH_MESSAGE_ENTRIES (l1_alignment h)
      else l1_alignment h)"

text \<open>The loop over the remaining types; the first argument is the previous type.\<close>

fun place_addrs :: "hal_values \<Rightarrow> cq_device_addr_type \<Rightarrow> u32 \<Rightarrow> cq_device_addr_type list \<Rightarrow> u32 list" where
  "place_addrs h prev a [] = []"
| "place_addrs h prev a (t # ts) =
     (let b = add32 a (device_cq_addr_size h prev);
          b = (if t = UNRESERVED then align_u32 b (host_alignment h) else b)
      in b # place_addrs h t b ts)"

definition place_device_cq_addrs :: "hal_values \<Rightarrow> u32 \<Rightarrow> u32 list" where
  "place_device_cq_addrs h base = base # place_addrs h PREFETCH_Q_RD base (tl device_addr_types)"

definition dispatch_constants_new ::
    "hal_values \<Rightarrow> bool \<Rightarrow> dispatch_core \<Rightarrow> u32 \<Rightarrow> tt_error + dispatch_constants" where
  "dispatch_constants_new h is_galaxy core_type num_hw_cqs =
     (if \<not> (core_type = WORKER \<or> core_type = ETH) then Inl (Tt_assert ''core_type == WORKER or ETH'')
      else if core_type = WORKER \<and> is_galaxy \<and> num_hw_cqs = 0 then Inl Div_by_zero
      else
        let worker = (core_type = WORKER);
            entries = (if worker then (if is_galaxy then 1532 div num_hw_cqs else 1534) else 128);
            max_cmd = (if worker then 128 * 1024 else 32 * 1024);
            cmddat_size = (if worker then 256 * 1024 else 64 * 1024);
            scratch_size = (if worker then 128 * 1024 else 19 * 1024);
            block_size = (if worker then 512 * 1024 else 128 * 1024);
            prefetch_d_size = (if worker then 256 * 1024 else 128 * 1024);
            base = (if worker then tensix_unreserved h else idle_eth_unreserved h);
            pcie = host_alignment h
        in if \<not> cmddat_size \<ge> 2 * max_cmd then Inl (Tt_assert ''cmddat_q_size_ >= 2 * max_prefetch_command_size_'')
           else if \<not> scratch_size mod 2 = 0 then Inl (Tt_assert ''scratch_db_size_ % 2 == 0'')
           else if \<not> (block_size AND (block_size - 1)) = 0 then Inl (Tt_assert ''power of two'')
           else if l1_alignment h = 0 \<or> pcie = 0 then Inl Div_by_zero
           else if \<not> DISPATCH_MESSAGE_ENTRIES \<le> DISPATCH_MESSAGES_MAX_OFFSET div l1_alignment h + 1
             then Inl (Tt_assert ''Number of dispatch message entries exceeds max representable offset'')
           else
             let addrs = place_device_cq_addrs h base;
                 q_size = mul32 entries sizeof_prefetch_q_entry;
                 unreserved = addrs ! device_addr_index UNRESERVED;
                 cmddat_base = add32 unreserved (mul32 (sub32 (add32 q_size pcie) 1 div pcie) pcie);
                 scratch_base = add32 cmddat_base (mul32 (sub32 (add32 cmddat_size pcie) 1 div pcie) pcie);
                 l1_size = (if worker then mem_l1_size h else mem_eth_size h);
                 buffer_base = align_u32 unreserved (2 ^ DISPATCH_BUFFER_LOG_PAGE_SIZE);
                 block_pages = block_size div 2 ^ DISPATCH_BUFFER_LOG_PAGE_SIZE div DISPATCH_BUFFER_SIZE_BLOCKS;
                 pages = mul32 block_pages DISPATCH_BUFFER_SIZE_BLOCKS;
                 cb_end = add32 buffer_base (mul32 (2 ^ DISPATCH_BUFFER_LOG_PAGE_SIZE) pages)
             in if \<not> add32 scratch_base scratch_size < l1_size
                  then Inl (Tt_assert ''scratch_db_base_ + scratch_db_size_ < l1_size'')
                else if \<not> cb_end < l1_size then Inl (Tt_assert ''dispatch_cb_end < l1_size'')
                else Inr \<lparr>prefetch_q_entries = entries, prefetch_q_size = q_size, max_prefetch_command_size = max_cmd,
                          cmddat_q_base = cmddat_base, cmddat_q_size = cmddat_size, scratch_db_base = scratch_base,
                          scratch_db_size = scratch_size, dispatch_buffer_base = buffer_base,
                          dispatch_buffer_block_size_pages = block_pages, dispatch_buffer_pages = pages,
                          prefetch_d_buffer_size = prefetch_d_size,
                          prefetch_d_buffer_pages = prefetch_d_size div 2 ^ PREFETCH_D_BUFFER_LOG_PAGE_SIZE,
                          dispatch_s_buffer_size = 32 * 1024, device_cq_addrs = addrs\<rparr>)"

definition get_device_command_queue_addr :: "dispatch_constants \<Rightarrow> cq_device_addr_type \<Rightarrow> u32" where
  "get_device_command_queue_addr dc t = device_cq_addrs dc ! device_addr_index t"

definition get_host_command_queue_addr :: "hal_values \<Rightarrow> cq_host_addr_type \<Rightarrow> u32" where
  "get_host_command_queue_addr h t = mul32 (host_addr_index t) (host_alignment h)"

definition get_dispatch_message_offset :: "hal_values \<Rightarrow> u32 \<Rightarrow> tt_error + u32" where
  "get_dispatch_message_offset h index =
     (if \<not> index < DISPATCH_MESSAGE_ENTRIES then Inl (Tt_assert ''index < DISPATCH_MESSAGE_ENTRIES'')
      else Inr (mul32 index (l1_alignment h)))"

definition mux_buffer_size :: "dispatch_constants \<Rightarrow> nat \<Rightarrow> tt_error + u32" where
  "mux_buffer_size dc n = (if n = 0 then Inl Div_by_zero else Inr (prefetch_d_buffer_size dc div n))"

definition mux_buffer_pages :: "dispatch_constants \<Rightarrow> nat \<Rightarrow> tt_error + u32" where
  "mux_buffer_pages dc n = (if n = 0 then Inl Div_by_zero else Inr (prefetch_d_buffer_pages dc div n))"

definition dispatch_s_buffer_pages :: "dispatch_constants \<Rightarrow> u32" where
  "dispatch_s_buffer_pages dc = dispatch_s_buffer_size dc div 2 ^ DISPATCH_S_BUFFER_LOG_PAGE_SIZE"

section \<open>Regions of a command queue\<close>

definition get_relative_cq_offset :: "nat \<Rightarrow> u32 \<Rightarrow> u32" where
  "get_relative_cq_offset cq_id cq_size = mul32 cq_id cq_size"

definition get_umd_channel :: "nat \<Rightarrow> nat" where
  "get_umd_channel channel = channel AND 3"

definition get_absolute_cq_offset :: "nat \<Rightarrow> nat \<Rightarrow> u32 \<Rightarrow> u32" where
  "get_absolute_cq_offset channel cq_id cq_size =
     add32 (add32 (mul32 MAX_HUGEPAGE_SIZE (get_umd_channel channel)) (mul32 (drop_bit 2 channel) MAX_DEV_CHANNEL_SIZE))
           (get_relative_cq_offset cq_id cq_size)"

record cq_interface =
  cq_start :: u32
  command_completion_region_size :: u32
  command_issue_region_size :: u32
  cq_id :: nat
  issue_fifo_size :: u32
  issue_fifo_limit :: u32
  cq_offset :: u32
  issue_fifo_wr_ptr :: u32
  issue_fifo_wr_toggle :: bool
  completion_fifo_size :: u32
  completion_fifo_limit :: u32
  completion_fifo_rd_ptr :: u32
  completion_fifo_rd_toggle :: bool

definition cq_interface_new :: "hal_values \<Rightarrow> nat \<Rightarrow> nat \<Rightarrow> u32 \<Rightarrow> u32 \<Rightarrow> tt_error + cq_interface" where
  "cq_interface_new h channel cqid sz start =
     (let avail = sub32 sz start;
          completion_size = mul32 (avail div TRANSFER_PAGE_SIZE div 4) TRANSFER_PAGE_SIZE;
          issue_size = sub32 avail completion_size;
          absolute = get_absolute_cq_offset channel cqid sz;
          limit = shr32 (add32 (add32 start issue_size) absolute) 4;
          completion_fifo = shr32 completion_size 4
      in if host_alignment h = 0 then Inl Div_by_zero
         else if \<not> (completion_size mod host_alignment h = 0 \<and> issue_size mod host_alignment h = 0)
           then Inl (Tt_assert ''Issue queue and completion queue need to be aligned'')
         else if limit = 0 then Inl (Tt_assert ''Cannot have a 0 fifo limit'')
         else Inr \<lparr>cq_start = start, command_completion_region_size = completion_size,
                   command_issue_region_size = issue_size, cq_id = cqid, issue_fifo_size = shr32 issue_size 4,
                   issue_fifo_limit = limit, cq_offset = absolute,
                   issue_fifo_wr_ptr = shr32 (add32 start absolute) 4, issue_fifo_wr_toggle = False,
                   completion_fifo_size = completion_fifo, completion_fifo_limit = add32 limit completion_fifo,
                   completion_fifo_rd_ptr = limit, completion_fifo_rd_toggle = False\<rparr>)"

section \<open>The manager\<close>

text \<open>
  The bypass buffer is kept as its bytes, four for each of its words.
\<close>

type_synonym byte = nat

record sysmem_manager =
  num_hw_cqs :: nat
  completion_byte_addrs :: "u32 list"
  cq_interfaces :: "cq_interface list"
  cq_size :: u32
  channel_offset :: u32
  cq_to_event :: "int list"
  cq_to_last_completed_event :: "int list"
  prefetch_q_dev_ptrs :: "u32 list"
  prefetch_q_dev_fences :: "u32 list"
  bypass_enable :: bool
  bypass_buffer :: "byte list"
  bypass_buffer_write_offset :: u32

datatype device_write =
    Fetch_q_write u32 nat
  | Completion_rd_write u32 u32
  | Sysmem_word u32 u32
  | Sysmem_copy u32 "byte list"

definition get_issue_queue_size :: "sysmem_manager \<Rightarrow> nat \<Rightarrow> u32" where
  "get_issue_queue_size m q = shl32 (issue_fifo_size (cq_interfaces m ! q)) 4"

definition get_issue_queue_limit :: "sysmem_manager \<Rightarrow> nat \<Rightarrow> u32" where
  "get_issue_queue_limit m q = shl32 (issue_fifo_limit (cq_interfaces m ! q)) 4"

definition get_completion_queue_size :: "sysmem_manager \<Rightarrow> nat \<Rightarrow> u32" where
  "get_completion_queue_size m q = shl32 (completion_fifo_size (cq_interfaces m ! q)) 4"

definition get_completion_queue_limit :: "sysmem_manager \<Rightarrow> nat \<Rightarrow> u32" where
  "get_completion_queue_limit m q = shl32 (completion_fifo_limit (cq_interfaces m ! q)) 4"

definition get_issue_queue_write_ptr :: "sysmem_manager \<Rightarrow> nat \<Rightarrow> u32" where
  "get_issue_queue_write_ptr m q =
     (if bypass_enable m then bypass_buffer_write_offset m else shl32 (issue_fifo_wr_ptr (cq_interfaces m ! q)) 4)"

definition get_completion_queue_read_ptr :: "sysmem_manager \<Rightarrow> nat \<Rightarrow> u32" where
  "get_completion_queue_read_ptr m q = shl32 (completion_fifo_rd_ptr (cq_interfaces m ! q)) 4"

definition get_completion_queue_read_toggle :: "sysmem_manager \<Rightarrow> nat \<Rightarrow> u32" where
  "get_completion_queue_read_toggle m q = of_bool (completion_fifo_rd_toggle (cq_interfaces m ! q))"

definition update_cq :: "nat \<Rightarrow> (cq_interface \<Rightarrow> cq_interface) \<Rightarrow> sysmem_manager \<Rightarrow> sysmem_manager" where
  "update_cq q f m = m\<lparr>cq_interfaces := (cq_interfaces m)[q := f (cq_interfaces m ! q)]\<rparr>"

text \<open>The loop of the constructor over the command queues.\<close>

fun add_cqs :: "hal_values \<Rightarrow> dispatch_constants \<Rightarrow> nat \<Rightarrow> nat list \<Rightarrow> sysmem_manager \<Rightarrow> tt_error + sysmem_manager" where
  "add_cqs h dc channel [] m = Inr m"
| "add_cqs h dc channel (q # qs) m =
     bind_result (cq_interface_new h channel q (cq_size m) (get_host_command_queue_addr h HOST_UNRESERVED)) (\<lambda>cq.
       let m = m\<lparr>cq_interfaces := cq_interfaces m @ [cq]\<rparr>;
           base = get_device_command_queue_addr dc UNRESERVED
       in if \<not> mul32 (max_prefetch_command_size dc) (add32 (prefetch_q_entries dc) 2) \<le> get_issue_queue_size m q
          then Inl (Tt_fatal ''Issue queue is too small'')
          else add_cqs h dc channel qs
                 (m\<lparr>cq_to_event := cq_to_event m @ [0],
                    cq_to_last_completed_event := cq_to_last_completed_event m @ [0],
                    prefetch_q_dev_ptrs := (prefetch_q_dev_ptrs m)[q := base],
                    prefetch_q_dev_fences := (prefetch_q_dev_fences m)
                      [q := add32 base (mul32 (prefetch_q_entries dc) sizeof_prefetch_q_entry)]\<rparr>))"

definition sysmem_manager_new ::
    "hal_values \<Rightarrow> dispatch_constants \<Rightarrow> nat \<Rightarrow> nat \<Rightarrow> u32 option \<Rightarrow> u32 \<Rightarrow> bool \<Rightarrow> u32 list \<Rightarrow> tt_error + sysmem_manager" where
  "sysmem_manager_new h dc channel n size_override host_channel_size is_galaxy completion_addrs =
     (if size_override = None \<and> n = 0 then Inl Div_by_zero
      else
        let sz = (case size_override of Some s \<Rightarrow> s
                     | None \<Rightarrow> if is_galaxy then host_channel_size div n div DEVICES_PER_UMD_CHANNEL
                              else host_channel_size div n)
        in add_cqs h dc channel [0 ..< n]
             \<lparr>num_hw_cqs = n, completion_byte_addrs = completion_addrs, cq_interfaces = [], cq_size = sz,
              channel_offset = add32 (mul32 MAX_HUGEPAGE_SIZE (get_umd_channel channel))
                                     (mul32 (drop_bit 2 channel) MAX_DEV_CHANNEL_SIZE),
              cq_to_event = [], cq_to_last_completed_event = [], prefetch_q_dev_ptrs = replicate n 0,
              prefetch_q_dev_fences = replicate n 0, bypass_enable = False, bypass_buffer = [],
              bypass_buffer_write_offset = 0\<rparr>)"

subsection \<open>Events\<close>

definition int32_of :: "u32 \<Rightarrow> int" where
  "int32_of x = (if x < 2 ^ 31 then int x else int x - 2 ^ 32)"

definition u32_of :: "int \<Rightarrow> u32" where
  "u32_of i = nat (i mod 2 ^ 32)"

definition get_next_event :: "nat \<Rightarrow> sysmem_manager \<Rightarrow> tt_error + u32 \<times> sysmem_manager" where
  "get_next_event q m =
     (let e = cq_to_event m ! q
      in if e = 2 ^ 31 - 1 then Inl Undefined
         else Inr (u32_of (e + 1), m\<lparr>cq_to_event := (cq_to_event m)[q := e + 1]\<rparr>))"

definition reset_event_id :: "nat \<Rightarrow> sysmem_manager \<Rightarrow> sysmem_manager" where
  "reset_event_id q m = m\<lparr>cq_to_event := (cq_to_event m)[q := 0]\<rparr>"

definition increment_event_id :: "nat \<Rightarrow> u32 \<Rightarrow> sysmem_manager \<Rightarrow> sysmem_manager" where
  "increment_event_id q val m =
     m\<lparr>cq_to_event := (cq_to_event m)[q := int32_of (add32 (u32_of (cq_to_event m ! q)) val)]\<rparr>"

definition set_last_completed_event :: "nat \<Rightarrow> u32 \<Rightarrow> sysmem_manager \<Rightarrow> tt_error + sysmem_manager" where
  "set_last_completed_event q event_id m =
     (if \<not> event_id \<ge> u32_of (cq_to_last_completed_event m ! q) then Inl (Tt_assert ''Event ID is expected to increase'')
      else Inr (m\<lparr>cq_to_last_completed_event := (cq_to_last_completed_event m)[q := int32_of event_id]\<rparr>))"

definition get_last_completed_event :: "nat \<Rightarrow> sysmem_manager \<Rightarrow> u32" where
  "get_last_completed_event q m = u32_of (cq_to_last_completed_event m ! q)"

subsection \<open>Issue queue\<close>

definition cq_reset :: "nat \<Rightarrow> sysmem_manager \<Rightarrow> sysmem_manager" where
  "cq_reset q = update_cq q (\<lambda>cq. cq\<lparr>issue_fifo_wr_ptr := shr32 (add32 (cq_start cq) (cq_offset cq)) 4,
     issue_fifo_wr_toggle := False, completion_fifo_rd_ptr := issue_fifo_limit cq, completion_fifo_rd_toggle := False\<rparr>)"

definition set_issue_queue_size :: "nat \<Rightarrow> u32 \<Rightarrow> sysmem_manager \<Rightarrow> sysmem_manager" where
  "set_issue_queue_size q sz = update_cq q (\<lambda>cq. cq\<lparr>issue_fifo_size := shr32 sz 4,
     issue_fifo_limit := shr32 (add32 (add32 (cq_start cq) (cq_offset cq)) sz) 4\<rparr>)"

definition set_bypass_mode :: "bool \<Rightarrow> bool \<Rightarrow> sysmem_manager \<Rightarrow> sysmem_manager" where
  "set_bypass_mode enable clear m =
     (let m = m\<lparr>bypass_enable := enable\<rparr>
      in if clear then m\<lparr>bypass_buffer := [], bypass_buffer_write_offset := 0\<rparr> else m)"

definition wrap_issue_queue_wr_ptr :: "nat \<Rightarrow> sysmem_manager \<Rightarrow> sysmem_manager" where
  "wrap_issue_queue_wr_ptr q m =
     (if bypass_enable m then m
      else update_cq q (\<lambda>cq. cq\<lparr>issue_fifo_wr_ptr := shr32 (add32 (cq_start cq) (cq_offset cq)) 4,
                               issue_fifo_wr_toggle := \<not> issue_fifo_wr_toggle cq\<rparr>) m)"

datatype queue_ptr = In_bypass u32 | In_sysmem u32

definition issue_queue_reserve :: "hal_values \<Rightarrow> u32 \<Rightarrow> nat \<Rightarrow> sysmem_manager \<Rightarrow> queue_ptr \<times> sysmem_manager" where
  "issue_queue_reserve h cmd_size q m =
     (if bypass_enable m
      then (In_bypass (bypass_buffer_write_offset m),
            m\<lparr>bypass_buffer := bypass_buffer m @ replicate (4 * (cmd_size div 4)) 0\<rparr>)
      else
        let wr = get_issue_queue_write_ptr m q;
            m = (if add32 wr (align_u32 cmd_size (host_alignment h)) > get_issue_queue_limit m q
                 then wrap_issue_queue_wr_ptr q m else m);
            wr = get_issue_queue_write_ptr m q
        in (In_sysmem (sub32 wr (channel_offset m)), m))"

definition cq_write :: "byte list \<Rightarrow> u32 \<Rightarrow> sysmem_manager \<Rightarrow> tt_error + device_write list \<times> sysmem_manager" where
  "cq_write data write_ptr m =
     (if bypass_enable m
      then (if write_ptr + length data \<le> length (bypass_buffer m)
            then Inr ([], m\<lparr>bypass_buffer := take write_ptr (bypass_buffer m) @ data @
                                             drop (write_ptr + length data) (bypass_buffer m)\<rparr>)
            else Inl Undefined)
      else Inr ([Sysmem_copy (sub32 write_ptr (channel_offset m)) data], m))"

definition issue_queue_push_back ::
    "hal_values \<Rightarrow> u32 \<Rightarrow> nat \<Rightarrow> sysmem_manager \<Rightarrow> device_write list \<times> sysmem_manager" where
  "issue_queue_push_back h push_size q m =
     (if bypass_enable m then ([], m\<lparr>bypass_buffer_write_offset := add32 (bypass_buffer_write_offset m) push_size\<rparr>)
      else
        let n = shr32 (align_u32 push_size (host_alignment h)) 4;
            m = update_cq q (\<lambda>cq.
                  if add32 (issue_fifo_wr_ptr cq) n \<ge> issue_fifo_limit cq
                  then cq\<lparr>issue_fifo_wr_ptr := shr32 (add32 (cq_start cq) (cq_offset cq)) 4,
                          issue_fifo_wr_toggle := \<not> issue_fifo_wr_toggle cq\<rparr>
                  else cq\<lparr>issue_fifo_wr_ptr := add32 (issue_fifo_wr_ptr cq) n\<rparr>) m
        in ([Sysmem_word (add32 (get_host_command_queue_addr h ISSUE_Q_WR) (get_relative_cq_offset q (cq_size m)))
                         (issue_fifo_wr_ptr (cq_interfaces m ! q))], m))"

subsection \<open>Fetch queue\<close>

text \<open>The loop that waits until the device has moved its read pointer.\<close>

definition fetch_q_full :: "nat \<Rightarrow> sysmem_manager \<Rightarrow> bool" where
  "fetch_q_full q m \<longleftrightarrow> prefetch_q_dev_ptrs m ! q = prefetch_q_dev_fences m ! q"

definition set_fence :: "nat \<Rightarrow> u32 \<Rightarrow> sysmem_manager \<Rightarrow> sysmem_manager" where
  "set_fence q f m = m\<lparr>prefetch_q_dev_fences := (prefetch_q_dev_fences m)[q := f]\<rparr>"

fun wait_for_fetch_q_space :: "nat \<Rightarrow> u32 list \<Rightarrow> sysmem_manager \<Rightarrow> (u32 list \<times> sysmem_manager) option" where
  "wait_for_fetch_q_space q [] m = (if fetch_q_full q m then None else Some ([], m))"
| "wait_for_fetch_q_space q (f # fs) m =
     (if fetch_q_full q m then wait_for_fetch_q_space q fs (set_fence q f m) else Some (f # fs, m))"

definition prefetch_q_limit :: "dispatch_constants \<Rightarrow> u32" where
  "prefetch_q_limit dc =
     add32 (get_device_command_queue_addr dc UNRESERVED) (mul32 (prefetch_q_entries dc) sizeof_prefetch_q_entry)"

definition wrap_fetch_q :: "dispatch_constants \<Rightarrow> nat \<Rightarrow> sysmem_manager \<Rightarrow> sysmem_manager" where
  "wrap_fetch_q dc q m =
     m\<lparr>prefetch_q_dev_ptrs := (prefetch_q_dev_ptrs m)[q := get_device_command_queue_addr dc UNRESERVED]\<rparr>"

definition fetch_queue_reserve_back ::
    "dispatch_constants \<Rightarrow> nat \<Rightarrow> u32 list \<Rightarrow> sysmem_manager \<Rightarrow> (u32 list \<times> sysmem_manager) option" where
  "fetch_queue_reserve_back dc q reads m =
     (if bypass_enable m then Some (reads, m)
      else Option.bind (wait_for_fetch_q_space q reads m) (\<lambda>(reads, m).
        if prefetch_q_dev_ptrs m ! q = prefetch_q_limit dc then wait_for_fetch_q_space q reads (wrap_fetch_q dc q m)
        else Some (reads, m)))"

definition fetch_q_entry :: "u32 \<Rightarrow> bool \<Rightarrow> nat" where
  "fetch_q_entry command_size stall_prefetcher =
     (let e = shr32 command_size PREFETCH_Q_LOG_MINSIZE mod 2 ^ 16
      in if stall_prefetcher then e OR 2 ^ 15 else e)"

definition fetch_queue_write ::
    "dispatch_constants \<Rightarrow> u32 \<Rightarrow> nat \<Rightarrow> bool \<Rightarrow> sysmem_manager \<Rightarrow> tt_error + device_write list \<times> sysmem_manager" where
  "fetch_queue_write dc command_size q stall_prefetcher m =
     (if \<not> command_size \<le> max_prefetch_command_size dc then Inl (Tt_assert ''exceeds max command size'')
      else if \<not> shr32 command_size PREFETCH_Q_LOG_MINSIZE < 0xFFFF then Inl (Tt_assert ''FetchQ command too large to represent'')
      else if bypass_enable m then Inr ([], m)
      else Inr ([Fetch_q_write (prefetch_q_dev_ptrs m ! q) (fetch_q_entry command_size stall_prefetcher)],
                m\<lparr>prefetch_q_dev_ptrs := (prefetch_q_dev_ptrs m)
                    [q := add32 (prefetch_q_dev_ptrs m ! q) sizeof_prefetch_q_entry]\<rparr>))"

subsection \<open>Completion queue\<close>

text \<open>The arguments are the successive values of the device's write pointer and of the exit condition.\<close>

fun completion_queue_wait_front :: "nat \<Rightarrow> sysmem_manager \<Rightarrow> (u32 \<times> bool) list \<Rightarrow> u32 option" where
  "completion_queue_wait_front q m [] = None"
| "completion_queue_wait_front q m ((w, exit_condition) # rs) =
     (if completion_fifo_rd_ptr (cq_interfaces m ! q) = w AND 0x7fffffff \<and>
         get_completion_queue_read_toggle m q = shr32 w 31 \<and> \<not> exit_condition
      then completion_queue_wait_front q m rs else Some w)"

definition send_completion_queue_read_ptr :: "hal_values \<Rightarrow> nat \<Rightarrow> sysmem_manager \<Rightarrow> device_write list" where
  "send_completion_queue_read_ptr h q m =
     (let cq = cq_interfaces m ! q;
          w = completion_fifo_rd_ptr cq OR shl32 (of_bool (completion_fifo_rd_toggle cq)) 31
      in [Completion_rd_write (completion_byte_addrs m ! q) w,
          Sysmem_word (add32 (get_host_command_queue_addr h HOST_COMPLETION_Q_RD) (get_relative_cq_offset q (cq_size m))) w])"

definition wrap_completion_queue_rd_ptr :: "nat \<Rightarrow> sysmem_manager \<Rightarrow> sysmem_manager" where
  "wrap_completion_queue_rd_ptr q = update_cq q (\<lambda>cq. cq\<lparr>completion_fifo_rd_ptr := issue_fifo_limit cq,
     completion_fifo_rd_toggle := \<not> completion_fifo_rd_toggle cq\<rparr>)"

definition pop_completion :: "u32 \<Rightarrow> cq_interface \<Rightarrow> cq_interface" where
  "pop_completion num_pages_read cq =
     (let n = shr32 (mul32 num_pages_read TRANSFER_PAGE_SIZE) 4;
          rd = add32 (completion_fifo_rd_ptr cq) n
      in if rd \<ge> completion_fifo_limit cq
         then cq\<lparr>completion_fifo_rd_ptr := issue_fifo_limit cq,
                 completion_fifo_rd_toggle := \<not> completion_fifo_rd_toggle cq\<rparr>
         else cq\<lparr>completion_fifo_rd_ptr := rd\<rparr>)"

definition completion_queue_pop_front ::
    "hal_values \<Rightarrow> u32 \<Rightarrow> nat \<Rightarrow> sysmem_manager \<Rightarrow> device_write list \<times> sysmem_manager" where
  "completion_queue_pop_front h num_pages_read q m =
     (let m = update_cq q (pop_completion num_pages_read) m in (send_completion_queue_read_ptr h q m, m))"

section \<open>Launch message ring\<close>

record launch_message_state =
  multicast_cores_launch_message_wptr :: u32
  unicast_cores_launch_message_wptr :: u32

definition launch_msg_buffer_num_entries :: u32 where "launch_msg_buffer_num_entries = 4"

definition inc_mcast_wptr :: "u32 \<Rightarrow> launch_message_state \<Rightarrow> launch_message_state" where
  "inc_mcast_wptr v s = s\<lparr>multicast_cores_launch_message_wptr :=
     add32 (multicast_cores_launch_message_wptr s) v AND (launch_msg_buffer_num_entries - 1)\<rparr>"

definition inc_unicast_wptr :: "u32 \<Rightarrow> launch_message_state \<Rightarrow> launch_message_state" where
  "inc_unicast_wptr v s = s\<lparr>unicast_cores_launch_message_wptr :=
     add32 (unicast_cores_launch_message_wptr s) v AND (launch_msg_buffer_num_entries - 1)\<rparr>"

definition set_mcast_wptr :: "u32 \<Rightarrow> launch_message_state \<Rightarrow> launch_message_state" where
  "set_mcast_wptr v s = s\<lparr>multicast_cores_launch_message_wptr := v AND (launch_msg_buffer_num_entries - 1)\<rparr>"

definition set_unicast_wptr :: "u32 \<Rightarrow> launch_message_state \<Rightarrow> launch_message_state" where
  "set_unicast_wptr v s = s\<lparr>unicast_cores_launch_message_wptr := v AND (launch_msg_buffer_num_entries - 1)\<rparr>"

definition launch_message_reset :: "launch_message_state \<Rightarrow> launch_message_state" where
  "launch_message_reset s = s\<lparr>multicast_cores_launch_message_wptr := 0, unicast_cores_launch_message_wptr := 0\<rparr>"

end
