(* ===== verification/Prefetch_Kernel.thy ===== *)
theory Prefetch_Kernel
  imports Command_Queue_Interface
begin

text \<open>
  The part of the prefetch kernel that fetches commands from the issue queue,
  src/tt_metal/impl/dispatch/kernels/cq_prefetch.cpp, and the two sides of the queue run
  together: the host thread with the operations of \<open>Command_Queue_Interface\<close> and the kernel,
  interleaved step by step.

  The state of the kernel has its static variables and the reference parameters of
  \<open>fetch_q_get_cmds\<close>. \<open>pf_queue\<close> is the memory of the fetch queue on the core, by address;
  \<open>pf_rd_ptr_published\<close> and \<open>pf_pcie_rd_ptr_published\<close> are the two words the host polls;
  \<open>pf_reads\<close> records source address and size of the reads of host memory the kernel has
  issued. A read is in flight while \<open>pf_pending_read_size\<close> is not zero.
\<close>

section \<open>The kernel\<close>

datatype stall_state = STALL_NEXT | STALLED | NOT_STALLED

record prefetch_args =
  pa_pcie_base :: u32
  pa_pcie_size :: u32
  pa_prefetch_q_base :: u32
  pa_prefetch_q_size :: u32
  pa_cmddat_q_base :: u32
  pa_cmddat_q_size :: u32

record prefetcher =
  pf_pcie_read_ptr :: u32
  pf_rd_ptr :: u32
  pf_rd_ptr_published :: u32
  pf_pcie_rd_ptr_published :: u32
  pf_queue :: "u32 \<Rightarrow> nat"
  pf_fence :: u32
  pf_cmd_ptr :: u32
  pf_pending_read_size :: u32
  pf_stall :: stall_state
  pf_reads :: "(u32 \<times> u32) list"

definition prefetch_q_end :: "prefetch_args \<Rightarrow> u32" where
  "prefetch_q_end a = add32 (pa_prefetch_q_base a) (pa_prefetch_q_size a)"

definition cmddat_q_end :: "prefetch_args \<Rightarrow> u32" where
  "cmddat_q_end a = add32 (pa_cmddat_q_base a) (pa_cmddat_q_size a)"

definition move_cmd_ptr :: "prefetcher \<Rightarrow> prefetcher" where
  "move_cmd_ptr p = (if pf_fence p < pf_cmd_ptr p then p\<lparr>pf_cmd_ptr := pf_fence p\<rparr> else p)"

text \<open>Waiting for the read in flight: its data is then in the command queue of the core.\<close>

definition read_barrier :: "prefetcher \<Rightarrow> prefetcher" where
  "read_barrier p =
     (let p = move_cmd_ptr p
      in p\<lparr>pf_fence := add32 (pf_fence p) (pf_pending_read_size p), pf_pending_read_size := 0\<rparr>)"

definition barrier_and_stall :: "prefetcher \<Rightarrow> prefetcher" where
  "barrier_and_stall p = (read_barrier p)\<lparr>pf_stall := STALLED\<rparr>"

text \<open>The result of \<open>read_from_pcie\<close> is assigned to \<open>pending_read_size\<close> by its callers.\<close>

definition read_from_pcie :: "prefetch_args \<Rightarrow> u32 \<Rightarrow> u32 \<Rightarrow> prefetcher \<Rightarrow> prefetcher" where
  "read_from_pcie a preamble_size n p =
     (let wrap = add32 (add32 (pf_fence p) n) preamble_size > cmddat_q_end a
      in if wrap \<and> pf_cmd_ptr p \<noteq> pf_fence p then p\<lparr>pf_pending_read_size := 0\<rparr>
         else
           let p = (if wrap then p\<lparr>pf_fence := pa_cmddat_q_base a\<rparr> else p);
               src = (if add32 (pf_pcie_read_ptr p) n > add32 (pa_pcie_base a) (pa_pcie_size a)
                      then pa_pcie_base a else pf_pcie_read_ptr p);
               rd = pf_rd_ptr p;
               rd' = add32 rd 2
           in p\<lparr>pf_reads := pf_reads p @ [(src, n)],
                pf_pending_read_size := add32 n preamble_size,
                pf_pcie_read_ptr := add32 src n,
                pf_queue := (pf_queue p)(rd := 0),
                pf_rd_ptr_published := rd,
                pf_pcie_rd_ptr_published := add32 src n,
                pf_rd_ptr := (if rd' = prefetch_q_end a then pa_prefetch_q_base a else rd')\<rparr>)"

definition entry_size :: "nat \<Rightarrow> u32" where
  "entry_size e = shl32 (e mod 2 ^ 15) 4"

definition entry_stall :: "nat \<Rightarrow> bool" where
  "entry_stall e \<longleftrightarrow> e AND 2 ^ 15 \<noteq> 0"

definition stall_of :: "nat \<Rightarrow> stall_state" where
  "stall_of e = (if entry_stall e then STALL_NEXT else NOT_STALLED)"

text \<open>
  \<open>fetch_q_get_cmds\<close> reads the entry at its read pointer, may issue a read, and then, when no
  command is ready, either waits for the read in flight and looks at the next entry, or polls
  the entry and starts again. The two parts are separate steps since the host may write
  entries between them.
\<close>

datatype get_result = Return | Barrier | Stall_barrier | Poll

definition get_first :: "prefetch_args \<Rightarrow> u32 \<Rightarrow> prefetcher \<Rightarrow> get_result \<times> prefetcher" where
  "get_first a preamble_size p =
     (if pf_stall p = STALLED then (Return, p)
      else
        let p = move_cmd_ptr p;
            cmd_ready = (pf_cmd_ptr p \<noteq> pf_fence p);
            e = pf_queue p (pf_rd_ptr p);
            p = p\<lparr>pf_stall := stall_of e\<rparr>;
            issue = (entry_size e \<noteq> 0 \<and> pf_pending_read_size p = 0);
            p = (if issue then read_from_pcie a preamble_size (entry_size e) p else p)
        in (if issue \<and> pf_stall p = STALL_NEXT \<and> pf_pending_read_size p \<noteq> 0 then Stall_barrier
            else if cmd_ready then Return
            else if pf_pending_read_size p \<noteq> 0 then Barrier else Poll, p))"

definition get_second :: "prefetch_args \<Rightarrow> u32 \<Rightarrow> prefetcher \<Rightarrow> get_result \<times> prefetcher" where
  "get_second a preamble_size p =
     (let p = read_barrier p;
          e = pf_queue p (pf_rd_ptr p)
      in if entry_size e = 0 then (Return, p)
         else
           let p = p\<lparr>pf_stall := stall_of e\<rparr>
           in if pf_stall p = STALL_NEXT
              then let p = read_from_pcie a 0 (entry_size e) p
                   in (if pf_pending_read_size p \<noteq> 0 then Stall_barrier else Return, p)
              else (Return, read_from_pcie a preamble_size (entry_size e) p))"

section \<open>Host and kernel together\<close>

text \<open>
  The host thread sends a command as every caller in command_queue.cpp does: it reserves space
  in the issue queue, writes the command there, advances the queue, waits for space in the
  fetch queue, and writes the entry. \<open>H_write\<close> is the phase in which it writes the command.
\<close>

datatype host_phase =
    H_idle
  | H_write u32 bool
  | H_wait "u32 \<times> u32" bool
  | H_wait_again "u32 \<times> u32" bool
  | H_entry "u32 \<times> u32" bool

datatype dev_phase = D_call | D_barrier | D_stall

record cq_system =
  sys_host :: sysmem_manager
  sys_phase :: host_phase
  sys_dev :: prefetcher
  sys_dev_phase :: dev_phase
  sys_sent :: "(u32 \<times> u32) list"

fun dev_phase_of :: "get_result \<Rightarrow> dev_phase" where
  "dev_phase_of Return = D_call"
| "dev_phase_of Poll = D_call"
| "dev_phase_of Barrier = D_barrier"
| "dev_phase_of Stall_barrier = D_stall"

fun apply_write :: "device_write \<Rightarrow> prefetcher \<Rightarrow> prefetcher" where
  "apply_write (Fetch_q_write addr e) p = p\<lparr>pf_queue := (pf_queue p)(addr := e)\<rparr>"
| "apply_write _ p = p"

text \<open>The compile-time arguments and the initial words the host gives the kernel.\<close>

definition prefetch_args_of :: "dispatch_constants \<Rightarrow> nat \<Rightarrow> sysmem_manager \<Rightarrow> prefetch_args" where
  "prefetch_args_of dc q m =
     (let cq = cq_interfaces m ! q
      in \<lparr>pa_pcie_base = add32 (cq_offset cq) (cq_start cq), pa_pcie_size = get_issue_queue_size m q,
          pa_prefetch_q_base = get_device_command_queue_addr dc UNRESERVED, pa_prefetch_q_size = prefetch_q_size dc,
          pa_cmddat_q_base = cmddat_q_base dc, pa_cmddat_q_size = cmddat_q_size dc\<rparr>)"

definition prefetcher_new :: "prefetch_args \<Rightarrow> prefetcher" where
  "prefetcher_new a =
     \<lparr>pf_pcie_read_ptr = pa_pcie_base a, pf_rd_ptr = pa_prefetch_q_base a,
      pf_rd_ptr_published = add32 (pa_prefetch_q_base a) (pa_prefetch_q_size a),
      pf_pcie_rd_ptr_published = pa_pcie_base a, pf_queue = (\<lambda>_. 0), pf_fence = pa_cmddat_q_base a,
      pf_cmd_ptr = pa_cmddat_q_base a, pf_pending_read_size = 0, pf_stall = NOT_STALLED, pf_reads = []\<rparr>"

definition system_new :: "dispatch_constants \<Rightarrow> nat \<Rightarrow> sysmem_manager \<Rightarrow> cq_system" where
  "system_new dc q m =
     \<lparr>sys_host = m, sys_phase = H_idle, sys_dev = prefetcher_new (prefetch_args_of dc q m), sys_dev_phase = D_call,
      sys_sent = []\<rparr>"

text \<open>
  The steps. Commands have a positive size that is a multiple of the alignment of the host
  memory, as the callers compute them. The kernel processes the commands it has fetched and
  ends its stalls in code that is not part of the fetch: any such step is allowed.
\<close>

inductive cq_step :: "hal_values \<Rightarrow> dispatch_constants \<Rightarrow> nat \<Rightarrow> u32 \<Rightarrow> cq_system \<Rightarrow> cq_system \<Rightarrow> bool"
  for h :: hal_values and dc :: dispatch_constants and q :: nat and preamble_size :: u32 where
  reserve: "sys_phase s = H_idle \<Longrightarrow> 0 < n \<Longrightarrow> n \<le> max_prefetch_command_size dc \<Longrightarrow> host_alignment h dvd n \<Longrightarrow>
    issue_queue_reserve h n q (sys_host s) = (ptr, m) \<Longrightarrow>
    cq_step h dc q preamble_size s (s\<lparr>sys_host := m, sys_phase := H_write n stall\<rparr>)"
| push: "sys_phase s = H_write n stall \<Longrightarrow> issue_queue_push_back h n q (sys_host s) = (ws, m) \<Longrightarrow>
    cq_step h dc q preamble_size s
      (s\<lparr>sys_host := m, sys_phase := H_wait (get_issue_queue_write_ptr (sys_host s) q, n) stall\<rparr>)"
| poll: "sys_phase s = H_wait c stall \<or> sys_phase s = H_wait_again c stall \<Longrightarrow> fetch_q_full q (sys_host s) \<Longrightarrow>
    cq_step h dc q preamble_size s (s\<lparr>sys_host := set_fence q (pf_rd_ptr_published (sys_dev s)) (sys_host s)\<rparr>)"
| space: "sys_phase s = H_wait c stall \<Longrightarrow> \<not> fetch_q_full q (sys_host s) \<Longrightarrow>
    prefetch_q_dev_ptrs (sys_host s) ! q \<noteq> prefetch_q_limit dc \<Longrightarrow>
    cq_step h dc q preamble_size s (s\<lparr>sys_phase := H_entry c stall\<rparr>)"
| wrap: "sys_phase s = H_wait c stall \<Longrightarrow> \<not> fetch_q_full q (sys_host s) \<Longrightarrow>
    prefetch_q_dev_ptrs (sys_host s) ! q = prefetch_q_limit dc \<Longrightarrow>
    cq_step h dc q preamble_size s (s\<lparr>sys_host := wrap_fetch_q dc q (sys_host s), sys_phase := H_wait_again c stall\<rparr>)"
| space_again: "sys_phase s = H_wait_again c stall \<Longrightarrow> \<not> fetch_q_full q (sys_host s) \<Longrightarrow>
    cq_step h dc q preamble_size s (s\<lparr>sys_phase := H_entry c stall\<rparr>)"
| entry: "sys_phase s = H_entry c stall \<Longrightarrow> fetch_queue_write dc (snd c) q stall (sys_host s) = Inr (ws, m) \<Longrightarrow>
    cq_step h dc q preamble_size s
      (s\<lparr>sys_host := m, sys_phase := H_idle, sys_dev := fold apply_write ws (sys_dev s), sys_sent := sys_sent s @ [c]\<rparr>)"
| get: "sys_dev_phase s = D_call \<Longrightarrow> get_first (prefetch_args_of dc q (sys_host s)) preamble_size (sys_dev s) = (r, p) \<Longrightarrow>
    cq_step h dc q preamble_size s (s\<lparr>sys_dev := p, sys_dev_phase := dev_phase_of r\<rparr>)"
| barrier: "sys_dev_phase s = D_barrier \<Longrightarrow>
    get_second (prefetch_args_of dc q (sys_host s)) preamble_size (sys_dev s) = (r, p) \<Longrightarrow>
    cq_step h dc q preamble_size s (s\<lparr>sys_dev := p, sys_dev_phase := dev_phase_of r\<rparr>)"
| stall: "sys_dev_phase s = D_stall \<Longrightarrow>
    cq_step h dc q preamble_size s (s\<lparr>sys_dev := barrier_and_stall (sys_dev s), sys_dev_phase := D_call\<rparr>)"
| execute: "sys_dev_phase s = D_call \<Longrightarrow>
    cq_step h dc q preamble_size s (s\<lparr>sys_dev := (sys_dev s)\<lparr>pf_cmd_ptr := c, pf_stall := st\<rparr>\<rparr>)"

inductive cq_reachable :: "hal_values \<Rightarrow> dispatch_constants \<Rightarrow> nat \<Rightarrow> u32 \<Rightarrow> sysmem_manager \<Rightarrow> cq_system \<Rightarrow> bool"
  for h :: hal_values and dc :: dispatch_constants and q :: nat and preamble_size :: u32 and m :: sysmem_manager where
  initial: "cq_reachable h dc q preamble_size m (system_new dc q m)"
| step: "cq_reachable h dc q preamble_size m s \<Longrightarrow> cq_step h dc q preamble_size s s' \<Longrightarrow>
    cq_reachable h dc q preamble_size m s'"

end
