(* ===== verification/Issue_Queue_Props.thy ===== *)
theory Issue_Queue_Props
  imports Prefetch_Kernel
begin

text \<open>
  Why the host never overwrites a command the kernel has yet to read. The places of the
  commands in the issue queue form a chain that both sides compute; a fetch queue of \<open>E\<close>
  entries bounds how far the host is ahead; and an issue queue with room for \<open>E + 2\<close> commands
  of the largest size keeps commands apart that are at most \<open>E\<close> positions apart in the chain.
\<close>

section \<open>Chains of commands\<close>

definition next_pos :: "nat \<Rightarrow> nat \<Rightarrow> nat \<Rightarrow> nat \<Rightarrow> nat" where
  "next_pos lo hi pos n = (if pos + n > hi then lo else pos)"

fun last_end :: "nat \<Rightarrow> (nat \<times> nat) list \<Rightarrow> nat" where
  "last_end pos [] = pos"
| "last_end pos ((a, n) # cs) = last_end (a + n) cs"

fun chain :: "nat \<Rightarrow> nat \<Rightarrow> nat \<Rightarrow> (nat \<times> nat) list \<Rightarrow> bool" where
  "chain lo hi pos [] \<longleftrightarrow> True"
| "chain lo hi pos ((a, n) # cs) \<longleftrightarrow> a = next_pos lo hi pos n \<and> chain lo hi (a + n) cs"

lemma last_end_append: "last_end pos (cs @ ds) = last_end (last_end pos cs) ds"
  by (induction pos cs rule: last_end.induct) auto

lemma sent_chain_append: "chain lo hi pos (cs @ ds) \<longleftrightarrow> chain lo hi pos cs \<and> chain lo hi (last_end pos cs) ds"
  by (induction lo hi pos cs rule: chain.induct) auto

definition sizes_ok :: "nat \<Rightarrow> nat \<Rightarrow> (nat \<times> nat) list \<Rightarrow> bool" where
  "sizes_ok A M cs \<longleftrightarrow> (\<forall>(a, n) \<in> set cs. 0 < n \<and> n \<le> M \<and> A dvd n)"

lemma chain_places:
  assumes "chain lo hi pos cs" "sizes_ok A M cs" "lo + M \<le> hi" "lo \<le> pos" "pos \<le> hi" "B dvd A" "B dvd lo" "B dvd pos"
  shows "(\<forall>(a, n) \<in> set cs. lo \<le> a \<and> a + n \<le> hi \<and> B dvd a) \<and>
    lo \<le> last_end pos cs \<and> last_end pos cs \<le> hi \<and> B dvd last_end pos cs"
  using assms
proof (induction lo hi pos cs rule: chain.induct)
  case (2 lo hi pos a n cs)
  have n: "n \<le> M" "A dvd n" "B dvd n" and cs: "sizes_ok A M cs"
    using "2.prems"(2,6) by (auto simp: sizes_ok_def intro: dvd_trans)
  have a: "lo \<le> a" "a + n \<le> hi" "B dvd a" using "2.prems" n by (auto simp: next_pos_def split: if_splits)
  moreover have "B dvd a + n" using a n by simp
  moreover have "chain lo hi (a + n) cs" using "2.prems"(1) by auto
  ultimately show ?case using "2.IH" [OF _ cs "2.prems"(3)] "2.prems"(6,7) by auto
qed simp

text \<open>Where the chain stands after at most \<open>E\<close> commands that follow a given one.\<close>

lemma chain_window:
  assumes "chain lo hi (a + n) cs" "sizes_ok A M cs" "n \<le> M" "lo \<le> a" "a + n \<le> hi"
    "lo + (E + 2) * M \<le> hi" "length cs \<le> E"
  shows "(a + n \<le> last_end (a + n) cs \<and> last_end (a + n) cs \<le> a + (length cs + 1) * M \<and> last_end (a + n) cs \<le> hi) \<or>
    (lo \<le> last_end (a + n) cs \<and> last_end (a + n) cs + (E - length cs) * M \<le> a)"
  using assms
proof (induction cs rule: rev_induct)
  case (snoc c cs)
  obtain b k where c: "c = (b, k)" by fastforce
  let ?e = "last_end (a + n) cs"
  have k: "k \<le> M" "sizes_ok A M cs" using snoc.prems(2) c by (auto simp: sizes_ok_def)
  have b: "b = next_pos lo hi ?e k" "chain lo hi (a + n) cs" using snoc.prems(1) c by (auto simp: sent_chain_append)
  obtain d where d: "E = length cs + 1 + d" using snoc.prems(7) by (metis length_append_singleton less_eqE Suc_eq_plus1)
  have IH: "(a + n \<le> ?e \<and> ?e \<le> a + (length cs + 1) * M \<and> ?e \<le> hi) \<or> (lo \<le> ?e \<and> ?e + (d + 1) * M \<le> a)"
    using snoc.IH snoc.prems b(2) k(2) d by simp
  have E: "(E + 2) * M = (length cs + 1) * M + d * M + 2 * M" using d by (simp add: algebra_simps)
  have goal: "last_end (a + n) (cs @ [c]) = b + k" "length (cs @ [c]) + 1 = length cs + 2" "E - length (cs @ [c]) = d"
    using c d by (simp_all add: last_end_append)
  have dM: "(d + 1) * M = d * M + M" "(length cs + 2) * M = (length cs + 1) * M + M" by (simp_all add: algebra_simps)
  from IH show ?case
  proof
    assume u: "a + n \<le> ?e \<and> ?e \<le> a + (length cs + 1) * M \<and> ?e \<le> hi"
    show ?thesis
    proof (cases "?e + k > hi")
      case True
      then have "b = lo" using b by (simp add: next_pos_def)
      moreover have "lo + k + d * M \<le> a" using True u k(1) snoc.prems(6) E by linarith
      ultimately show ?thesis unfolding goal dM by simp
    next
      case False
      then have "b = ?e" using b by (simp add: next_pos_def)
      then show ?thesis unfolding goal dM using u k(1) False by linarith
    qed
  next
    assume w: "lo \<le> ?e \<and> ?e + (d + 1) * M \<le> a"
    then have "?e + d * M + M \<le> a" by (simp only: dM(1) add.assoc)
    then have e: "?e + k \<le> a" "?e + k + d * M \<le> a" using k(1) by linarith+
    then have "\<not> ?e + k > hi" using snoc.prems(5) by linarith
    then have "b = ?e" using b by (simp add: next_pos_def)
    then show ?thesis unfolding goal dM using w e by simp
  qed
qed simp

definition apart :: "nat \<times> nat \<Rightarrow> nat \<times> nat \<Rightarrow> bool" where
  "apart c d \<longleftrightarrow> fst c + snd c \<le> fst d \<or> fst d + snd d \<le> fst c"

lemma chain_apart:
  assumes "chain lo hi lo cs" "sizes_ok A M cs" "lo + (E + 2) * M \<le> hi" "i < length cs" "length cs - i \<le> E"
    "0 < n" "n \<le> M"
  shows "apart (cs ! i) (next_pos lo hi (last_end lo cs) n, n)"
proof -
  obtain a k where c: "cs ! i = (a, k)" by fastforce
  have cs: "cs = take i cs @ (a, k) # drop (Suc i) cs" using id_take_nth_drop [OF assms(4)] c by simp
  let ?ds = "drop (Suc i) cs"
  have "chain lo hi lo (take i cs @ (a, k) # ?ds)" using assms(1) cs by simp
  then have ch: "chain lo hi (a + k) ?ds" by (auto simp: sent_chain_append)
  have "(a, k) \<in> set cs" using nth_mem [OF assms(4)] c by simp
  then have sz: "sizes_ok A M ?ds" "k \<le> M"
    using assms(2) unfolding sizes_ok_def by (auto dest: in_set_dropD)
  have M: "lo + M \<le> hi" using assms(3) by simp
  have pl: "lo \<le> a" "a + k \<le> hi"
    using chain_places [OF assms(1,2) M, of 1] assms(4) c M nth_mem [OF assms(4)] by auto
  have e: "last_end lo cs = last_end (a + k) ?ds" by (subst cs) (simp add: last_end_append)
  have len: "Suc (length ?ds) \<le> E" using assms(4,5) by simp
  let ?e = "last_end (a + k) ?ds"
  obtain d where d: "E = Suc (length ?ds) + d" using len less_eqE by blast
  have E: "(E + 2) * M = (length ?ds + 1) * M + d * M + 2 * M" "E - length ?ds = d + 1" "(d + 1) * M = d * M + M"
    using d by (simp_all add: algebra_simps)
  have "(a + k \<le> ?e \<and> ?e \<le> a + (length ?ds + 1) * M \<and> ?e \<le> hi) \<or> (lo \<le> ?e \<and> ?e + (d + 1) * M \<le> a)"
    using chain_window [OF ch sz pl assms(3)] len E(2) by simp
  then show ?thesis
  proof
    assume u: "a + k \<le> ?e \<and> ?e \<le> a + (length ?ds + 1) * M \<and> ?e \<le> hi"
    show ?thesis
    proof (cases "?e + n > hi")
      case True
      then have "lo + n \<le> a" using u assms(3,7) E(1) by linarith
      then show ?thesis using True by (simp add: e c apart_def next_pos_def)
    next
      case False
      then show ?thesis using u by (simp add: e c apart_def next_pos_def)
    qed
  next
    assume w: "lo \<le> ?e \<and> ?e + (d + 1) * M \<le> a"
    then have "?e + n \<le> a" using assms(7) E(3) by linarith
    then show ?thesis using pl by (simp add: e c apart_def next_pos_def)
  qed
qed

text \<open>Advancing the pointer to the start at the very end makes no difference to the chain.\<close>

lemma next_pos_wrapped:
  assumes "0 < n" "lo + n \<le> hi"
  shows "next_pos lo hi (if e \<ge> hi then lo else e) n = next_pos lo hi e n"
  using assms by (simp add: next_pos_def)

section \<open>Slots of the fetch queue\<close>

definition slot :: "nat \<Rightarrow> nat \<Rightarrow> nat \<Rightarrow> nat" where
  "slot qb E i = qb + 2 * (i mod E)"

definition published :: "nat \<Rightarrow> nat \<Rightarrow> nat \<Rightarrow> nat" where
  "published qb E r = (if r = 0 then qb + 2 * E else slot qb E (r - 1))"

lemma slot_bounds: "0 < E \<Longrightarrow> qb \<le> slot qb E i \<and> slot qb E i + 2 \<le> qb + 2 * E"
proof -
  assume "0 < E"
  then have "i mod E + 1 \<le> E" using mod_less_divisor [of E i] by linarith
  then show ?thesis unfolding slot_def by linarith
qed

lemma slot_eq: "slot qb E i = slot qb E j \<longleftrightarrow> i mod E = j mod E"
  by (simp add: slot_def)

lemma slot_neq:
  assumes "i < j" "j < i + E"
  shows "slot qb E i \<noteq> slot qb E j"
proof
  assume "slot qb E i = slot qb E j"
  then have "E dvd j - i" using assms(1) by (metis slot_eq mod_eq_dvd_iff_nat less_imp_le)
  then have "E \<le> j - i" using assms(1) by (intro dvd_imp_le) auto
  with assms show False by simp
qed

lemma slot_Suc: "0 < E \<Longrightarrow> slot qb E (Suc i) = (if slot qb E i + 2 = qb + 2 * E then qb else slot qb E i + 2)"
  by (auto simp: slot_def mod_Suc)

lemma slot_end: "0 < E \<Longrightarrow> slot qb E i + 2 = qb + 2 * E \<longleftrightarrow> Suc i mod E = 0"
  by (auto simp: slot_def mod_Suc)

section \<open>The operations of the host\<close>

definition issue_lo :: "nat \<Rightarrow> sysmem_manager \<Rightarrow> nat" where
  "issue_lo q m = add32 (cq_start (cq_interfaces m ! q)) (cq_offset (cq_interfaces m ! q))"

definition issue_hi :: "nat \<Rightarrow> sysmem_manager \<Rightarrow> nat" where
  "issue_hi q m = 16 * issue_fifo_limit (cq_interfaces m ! q)"

definition issue_wr :: "nat \<Rightarrow> sysmem_manager \<Rightarrow> nat" where
  "issue_wr q m = 16 * issue_fifo_wr_ptr (cq_interfaces m ! q)"

text \<open>What the constructors establish and no operation on commands changes.\<close>

definition queue_ok :: "hal_values \<Rightarrow> dispatch_constants \<Rightarrow> nat \<Rightarrow> nat \<Rightarrow> sysmem_manager \<Rightarrow> bool" where
  "queue_ok h dc q k m \<longleftrightarrow>
     q < length (cq_interfaces m) \<and> q < length (prefetch_q_dev_ptrs m) \<and> q < length (prefetch_q_dev_fences m) \<and>
     \<not> bypass_enable m \<and> host_alignment h = 2 ^ k \<and> 4 \<le> k \<and> k < 32 \<and>
     16 dvd issue_lo q m \<and> issue_hi q m = issue_lo q m + get_issue_queue_size m q \<and>
     issue_hi q m + max_prefetch_command_size dc < 2 ^ 32 \<and>
     issue_lo q m + (prefetch_q_entries dc + 2) * max_prefetch_command_size dc \<le> issue_hi q m \<and>
     0 < max_prefetch_command_size dc \<and> max_prefetch_command_size dc < 2 ^ 19 \<and> 2 \<le> prefetch_q_entries dc \<and>
     get_device_command_queue_addr dc UNRESERVED + 2 * prefetch_q_entries dc < 2 ^ 32 \<and>
     prefetch_q_size dc = 2 * prefetch_q_entries dc"

definition same_queue :: "nat \<Rightarrow> sysmem_manager \<Rightarrow> sysmem_manager \<Rightarrow> bool" where
  "same_queue q m m' \<longleftrightarrow>
     length (cq_interfaces m') = length (cq_interfaces m) \<and>
     length (prefetch_q_dev_ptrs m') = length (prefetch_q_dev_ptrs m) \<and>
     length (prefetch_q_dev_fences m') = length (prefetch_q_dev_fences m) \<and> bypass_enable m' = bypass_enable m \<and>
     cq_start (cq_interfaces m' ! q) = cq_start (cq_interfaces m ! q) \<and>
     cq_offset (cq_interfaces m' ! q) = cq_offset (cq_interfaces m ! q) \<and>
     issue_fifo_limit (cq_interfaces m' ! q) = issue_fifo_limit (cq_interfaces m ! q) \<and>
     issue_fifo_size (cq_interfaces m' ! q) = issue_fifo_size (cq_interfaces m ! q)"

lemma same_queueD:
  assumes "same_queue q m m'"
  shows "issue_lo q m' = issue_lo q m" "issue_hi q m' = issue_hi q m" "queue_ok h dc q k m' = queue_ok h dc q k m"
    "prefetch_args_of dc q m' = prefetch_args_of dc q m"
  using assms unfolding same_queue_def
  by (simp_all add: issue_lo_def issue_hi_def queue_ok_def prefetch_args_of_def get_issue_queue_size_def Let_def)

lemma update_cq_nth: "q < length (cq_interfaces m) \<Longrightarrow> cq_interfaces (update_cq q f m) ! q = f (cq_interfaces m ! q)"
  by (simp add: update_cq_def)

lemma update_cq_fields [simp]:
  "length (cq_interfaces (update_cq q f m)) = length (cq_interfaces m)"
  "prefetch_q_dev_ptrs (update_cq q f m) = prefetch_q_dev_ptrs m"
  "prefetch_q_dev_fences (update_cq q f m) = prefetch_q_dev_fences m"
  "bypass_enable (update_cq q f m) = bypass_enable m"
  "channel_offset (update_cq q f m) = channel_offset m"
  "cq_size (update_cq q f m) = cq_size m"
  by (simp_all add: update_cq_def)

lemma queue_okD:
  assumes "queue_ok h dc q k m"
  shows "q < length (cq_interfaces m)" "\<not> bypass_enable m" "issue_lo q m < issue_hi q m" "issue_hi q m < 2 ^ 32"
    "16 dvd issue_lo q m" "0 < prefetch_q_entries dc" "max_prefetch_command_size dc < 2 ^ 19"
    "issue_lo q m + max_prefetch_command_size dc \<le> issue_hi q m" "(16 :: nat) dvd 2 ^ k" "k < 32"
    "host_alignment h = 2 ^ k" "issue_hi q m + max_prefetch_command_size dc < 2 ^ 32"
proof -
  have "(2 :: nat) ^ 4 dvd 2 ^ k" using assms by (intro le_imp_power_dvd) (simp add: queue_ok_def)
  then show "(16 :: nat) dvd 2 ^ k" by simp
  let ?M = "max_prefetch_command_size dc" and ?E = "prefetch_q_entries dc"
  have "issue_lo q m + (?E + 2) * ?M \<le> issue_hi q m" using assms by (simp add: queue_ok_def)
  then show "issue_lo q m + ?M \<le> issue_hi q m" by simp
qed (use assms in \<open>auto simp: queue_ok_def\<close>)

lemma issue_ptrs:
  assumes "queue_ok h dc q k m" "issue_wr q m \<le> issue_hi q m"
  shows "get_issue_queue_write_ptr m q = issue_wr q m" "get_issue_queue_limit m q = issue_hi q m"
  using assms queue_okD(2,4) [OF assms(1)]
  by (simp_all add: get_issue_queue_write_ptr_def get_issue_queue_limit_def issue_wr_def issue_hi_def shl32_def
      push_bit_eq_mult)

lemma wrap_ptr:
  assumes "queue_ok h dc q k m"
  shows "16 * shr32 (issue_lo q m) 4 = issue_lo q m"
  using queue_okD(5) [OF assms] by (auto simp: shr32_def drop_bit_eq_div)

lemma reserve_ok:
  assumes "queue_ok h dc q k m" "issue_wr q m \<le> issue_hi q m" "0 < n" "n \<le> max_prefetch_command_size dc"
    "host_alignment h dvd n" "issue_queue_reserve h n q m = (ptr, m')"
  shows "same_queue q m m' \<and> issue_wr q m' = next_pos (issue_lo q m) (issue_hi q m) (issue_wr q m) n \<and>
    prefetch_q_dev_ptrs m' = prefetch_q_dev_ptrs m \<and> prefetch_q_dev_fences m' = prefetch_q_dev_fences m"
proof -
  note ok = queue_okD [OF assms(1)]
  have "n < 2 ^ 32" using assms(4) ok(7) by simp
  then have al: "align_u32 n (host_alignment h) = n"
    using align_u32_aligned [of k n] assms(5) ok(10,11) by simp
  have add: "add32 (issue_wr q m) n = issue_wr q m + n" using assms(2,4) ok(12) by (intro add32_small) simp
  note ptrs = issue_ptrs [OF assms(1,2)]
  show ?thesis
  proof (cases "issue_wr q m + n > issue_hi q m")
    case True
    then have "m' = wrap_issue_queue_wr_ptr q m"
      using assms(6) ok(2) ptrs al add by (simp add: issue_queue_reserve_def Let_def)
    then show ?thesis using True ok(1,2) wrap_ptr [OF assms(1)]
      by (simp add: wrap_issue_queue_wr_ptr_def same_queue_def issue_wr_def update_cq_nth next_pos_def issue_lo_def)
  next
    case False
    then have "m' = m" using assms(6) ok(2) ptrs al add by (simp add: issue_queue_reserve_def Let_def)
    then show ?thesis using False by (simp add: same_queue_def next_pos_def)
  qed
qed

lemma push_ok:
  assumes "queue_ok h dc q k m" "issue_wr q m + n \<le> issue_hi q m" "0 < n" "n \<le> max_prefetch_command_size dc"
    "host_alignment h dvd n" "issue_queue_push_back h n q m = (ws, m')"
  shows "same_queue q m m' \<and>
    issue_wr q m' = (if issue_wr q m + n \<ge> issue_hi q m then issue_lo q m else issue_wr q m + n) \<and>
    prefetch_q_dev_ptrs m' = prefetch_q_dev_ptrs m \<and> prefetch_q_dev_fences m' = prefetch_q_dev_fences m"
proof -
  note ok = queue_okD [OF assms(1)]
  let ?cq = "cq_interfaces m ! q"
  have "n < 2 ^ 32" using assms(4) ok(7) by simp
  then have al: "align_u32 n (host_alignment h) = n"
    using align_u32_aligned [of k n] assms(5) ok(10,11) by simp
  have "16 dvd n" using assms(5) ok(9,11) dvd_trans by metis
  then have n: "16 * (n div 16) = n" by simp
  have le: "issue_fifo_wr_ptr ?cq + n div 16 \<le> issue_fifo_limit ?cq"
    using assms(2) n unfolding issue_wr_def issue_hi_def by linarith
  moreover have "issue_fifo_limit ?cq < 2 ^ 32" using ok(4) unfolding issue_hi_def by linarith
  ultimately have add: "add32 (issue_fifo_wr_ptr ?cq) (n div 16) = issue_fifo_wr_ptr ?cq + n div 16"
    by (intro add32_small) linarith
  have ge: "issue_fifo_wr_ptr ?cq + n div 16 \<ge> issue_fifo_limit ?cq \<longleftrightarrow> issue_wr q m + n \<ge> issue_hi q m"
    using n unfolding issue_wr_def issue_hi_def by linarith
  have m': "m' = update_cq q (\<lambda>cq.
      if add32 (issue_fifo_wr_ptr cq) (n div 16) \<ge> issue_fifo_limit cq
      then cq\<lparr>issue_fifo_wr_ptr := shr32 (add32 (cq_start cq) (cq_offset cq)) 4,
              issue_fifo_wr_toggle := \<not> issue_fifo_wr_toggle cq\<rparr>
      else cq\<lparr>issue_fifo_wr_ptr := add32 (issue_fifo_wr_ptr cq) (n div 16)\<rparr>) m"
    using assms(6) ok(2) al by (simp add: issue_queue_push_back_def Let_def shr32_def drop_bit_eq_div)
  have "issue_wr q m' = (if issue_wr q m + n \<ge> issue_hi q m then issue_lo q m else issue_wr q m + n)"
    using ok(1) wrap_ptr [OF assms(1)] n
    by (simp add: m' issue_wr_def [of q "update_cq _ _ _"] update_cq_nth add ge issue_lo_def) (simp add: issue_wr_def)
  moreover have "same_queue q m m'" using ok(1) by (simp add: m' same_queue_def update_cq_nth)
  ultimately show ?thesis by (simp add: m')
qed

section \<open>The kernel reads the commands in order\<close>

definition dev_ring :: "nat \<Rightarrow> nat \<Rightarrow> nat \<Rightarrow> (nat \<times> nat) list \<Rightarrow> prefetcher \<Rightarrow> bool" where
  "dev_ring lo qb E sent p \<longleftrightarrow>
     (let r = length (pf_reads p); w = length sent
      in r \<le> w \<and> w \<le> r + E \<and> pf_reads p = take r sent \<and> pf_rd_ptr p = slot qb E r \<and>
         pf_rd_ptr_published p = published qb E r \<and> pf_pcie_read_ptr p = last_end lo (pf_reads p) \<and>
         (\<forall>i. r \<le> i \<and> i < w \<longrightarrow> entry_size (pf_queue p (slot qb E i)) = snd (sent ! i)) \<and>
         (\<forall>j. (\<forall>i. r \<le> i \<and> i < w \<longrightarrow> slot qb E i \<noteq> slot qb E j) \<longrightarrow> pf_queue p (slot qb E j) = 0))"

definition args_ok :: "prefetch_args \<Rightarrow> nat \<Rightarrow> nat \<Rightarrow> nat \<Rightarrow> nat \<Rightarrow> bool" where
  "args_ok a lo hi qb E \<longleftrightarrow> pa_pcie_base a = lo \<and> add32 (pa_pcie_base a) (pa_pcie_size a) = hi \<and>
     pa_prefetch_q_base a = qb \<and> prefetch_q_end a = qb + 2 * E \<and> qb + 2 * E < 2 ^ 32 \<and> 0 < E"

lemma args_ok_of:
  assumes "queue_ok h dc q k m"
  shows "args_ok (prefetch_args_of dc q m) (issue_lo q m) (issue_hi q m)
    (get_device_command_queue_addr dc UNRESERVED) (prefetch_q_entries dc)"
  using assms queue_okD(4) [OF assms]
  by (auto simp: args_ok_def prefetch_args_of_def Let_def queue_ok_def issue_lo_def add.commute add32_small
      prefetch_q_end_def add32_def)

lemma dev_ring_cong:
  "pf_reads p' = pf_reads p \<Longrightarrow> pf_rd_ptr p' = pf_rd_ptr p \<Longrightarrow> pf_rd_ptr_published p' = pf_rd_ptr_published p \<Longrightarrow>
   pf_pcie_read_ptr p' = pf_pcie_read_ptr p \<Longrightarrow> pf_queue p' = pf_queue p \<Longrightarrow>
   dev_ring lo qb E sent p' = dev_ring lo qb E sent p"
  by (simp add: dev_ring_def)

lemma entry_pending:
  assumes "dev_ring lo qb E sent p" "entry_size (pf_queue p (pf_rd_ptr p)) \<noteq> 0"
  shows "length (pf_reads p) < length sent"
    "entry_size (pf_queue p (pf_rd_ptr p)) = snd (sent ! length (pf_reads p))"
proof -
  let ?r = "length (pf_reads p)"
  have d: "?r \<le> length sent" "pf_rd_ptr p = slot qb E ?r"
    and none: "\<And>j. (\<forall>i. ?r \<le> i \<and> i < length sent \<longrightarrow> slot qb E i \<noteq> slot qb E j) \<Longrightarrow> pf_queue p (slot qb E j) = 0"
    and some: "\<And>i. ?r \<le> i \<Longrightarrow> i < length sent \<Longrightarrow> entry_size (pf_queue p (slot qb E i)) = snd (sent ! i)"
    using assms(1) unfolding dev_ring_def Let_def by auto
  show "?r < length sent"
  proof (rule ccontr)
    assume "\<not> ?r < length sent"
    then have "pf_queue p (slot qb E ?r) = 0" by (intro none) simp
    then show False using assms(2) d(2) by (simp add: entry_size_def shl32_def)
  qed
  then show "entry_size (pf_queue p (pf_rd_ptr p)) = snd (sent ! ?r)" using some [of ?r] d(2) by simp
qed

lemma read_from_pcie_ring:
  assumes d: "dev_ring lo qb E sent p" and e: "entry_size (pf_queue p (pf_rd_ptr p)) = n" "n \<noteq> 0"
    and ch: "chain lo hi lo sent" and sz: "sizes_ok A M sent" and a: "args_ok a lo hi qb E"
    and M: "lo + M \<le> hi" "hi + M < 2 ^ 32"
  shows "dev_ring lo qb E sent (read_from_pcie a pre n p)"
proof (cases "add32 (add32 (pf_fence p) n) pre > cmddat_q_end a \<and> pf_cmd_ptr p \<noteq> pf_fence p")
  case True
  then show ?thesis using d by (simp add: read_from_pcie_def Let_def dev_ring_cong [of "p\<lparr>pf_pending_read_size := 0\<rparr>" p])
next
  case False
  let ?r = "length (pf_reads p)" and ?p = "read_from_pcie a pre n p"
  have E: "0 < E" "qb + 2 * E < 2 ^ 32" and a': "pa_pcie_base a = lo" "add32 lo (pa_pcie_size a) = hi"
    "pa_prefetch_q_base a = qb" "prefetch_q_end a = qb + 2 * E" using a by (auto simp: args_ok_def)
  have r: "?r < length sent" and n: "n = snd (sent ! ?r)" using entry_pending [OF d] e by auto
  have split: "sent = take ?r sent @ sent ! ?r # drop (Suc ?r) sent" by (rule id_take_nth_drop [OF r])
  have reads: "pf_reads p = take ?r sent" and rd: "pf_rd_ptr p = slot qb E ?r"
    and rp: "pf_pcie_read_ptr p = last_end lo (pf_reads p)" and wE: "length sent \<le> ?r + E"
    and some: "\<And>i. ?r \<le> i \<Longrightarrow> i < length sent \<Longrightarrow> entry_size (pf_queue p (slot qb E i)) = snd (sent ! i)"
    and none: "\<And>j. (\<forall>i. ?r \<le> i \<and> i < length sent \<longrightarrow> slot qb E i \<noteq> slot qb E j) \<Longrightarrow> pf_queue p (slot qb E j) = 0"
    using d unfolding dev_ring_def Let_def by auto
  have ch': "chain lo hi lo (take ?r sent) \<and> fst (sent ! ?r) = next_pos lo hi (last_end lo (pf_reads p)) n"
    using ch n reads by (subst (asm) split) (cases "sent ! ?r", auto simp: sent_chain_append)
  have szr: "sizes_ok A M (take ?r sent)" "n \<le> M"
    using sz n nth_mem [OF r] unfolding sizes_ok_def by (auto dest: in_set_takeD)
  have "last_end lo (pf_reads p) \<le> hi"
    using chain_places [of lo hi lo "take ?r sent" A M 1] ch' szr(1) M reads by auto
  then have "add32 (last_end lo (pf_reads p)) n = last_end lo (pf_reads p) + n" using szr(2) M by (intro add32_small) simp
  then have src: "(if add32 (pf_pcie_read_ptr p) n > hi then lo else pf_pcie_read_ptr p) = fst (sent ! ?r)"
    using ch' rp by (simp add: next_pos_def)
  have "fst (sent ! ?r) + n \<le> hi"
    using chain_places [of lo hi lo sent A M 1] ch sz M nth_mem [OF r] n by (auto simp: case_prod_beta)
  then have nx: "add32 (fst (sent ! ?r)) n = fst (sent ! ?r) + n" using M by (intro add32_small) simp
  have rd2: "add32 (slot qb E ?r) 2 = slot qb E ?r + 2" using slot_bounds [OF E(1), of qb ?r] E(2) by (intro add32_small) simp
  have f: "pf_reads ?p = pf_reads p @ [sent ! ?r]" "pf_pcie_read_ptr ?p = fst (sent ! ?r) + n"
    "pf_queue ?p = (pf_queue p)(slot qb E ?r := 0)" "pf_rd_ptr_published ?p = slot qb E ?r" "pf_rd_ptr ?p = slot qb E (Suc ?r)"
    using False src nx rd2 n
    by (auto simp: read_from_pcie_def Let_def a' rd slot_Suc [OF E(1)] prod_eq_iff split: if_splits)
  have "pf_reads ?p = take (Suc ?r) sent" using f(1) reads r by (simp add: take_Suc_conv_app_nth)
  moreover have "last_end lo (pf_reads ?p) = fst (sent ! ?r) + n" 
    unfolding f(1) by (cases "sent ! ?r") (simp add: last_end_append n)
  moreover have "slot qb E i \<noteq> slot qb E ?r" if "Suc ?r \<le> i" "i < length sent" for i
    using slot_neq [of ?r i E qb] that wE by (metis Suc_le_lessD le_trans less_le_trans not_le)
  moreover have "pf_queue ?p (slot qb E j) = 0" if "\<forall>i. Suc ?r \<le> i \<and> i < length sent \<longrightarrow> slot qb E i \<noteq> slot qb E j" for j
  proof (cases "slot qb E j = slot qb E ?r")
    case False
    then have "\<forall>i. ?r \<le> i \<and> i < length sent \<longrightarrow> slot qb E i \<noteq> slot qb E j" using that by (metis Suc_leI le_neq_implies_less)
    then show ?thesis using none f(3) False by simp
  qed (simp add: f(3))
  ultimately show ?thesis
    unfolding dev_ring_def Let_def using f some r wE by (auto simp: published_def)
qed

end
