(* ===== verification/Issue_Queue_Invariant.thy ===== *)
theory Issue_Queue_Invariant
  imports Issue_Queue_Props
begin

text \<open>
  The invariant of the host thread and the prefetch kernel run together, and that every step
  keeps it.
\<close>

section \<open>The invariant\<close>

fun pending_cmd :: "host_phase \<Rightarrow> (u32 \<times> u32) list" where
  "pending_cmd (H_wait c st) = [c]"
| "pending_cmd (H_wait_again c st) = [c]"
| "pending_cmd (H_entry c st) = [c]"
| "pending_cmd _ = []"

text \<open>
  The host knows a value \<open>r'\<close> of the number of entries the kernel has read, not above the true
  number \<open>r\<close>; its view of the fence and its pointer follow from \<open>r'\<close> and the number \<open>w\<close> of
  entries it has written.
\<close>

definition ring_view :: "nat \<Rightarrow> nat \<Rightarrow> nat \<Rightarrow> nat \<Rightarrow> nat \<Rightarrow> nat \<Rightarrow> host_phase \<Rightarrow> bool" where
  "ring_view qb E w r' ptr fence ph \<longleftrightarrow>
     fence = published qb E r' \<and> (r' = 0 \<and> w \<le> E \<or> 0 < r' \<and> w < r' + E) \<and>
     (case ph of
        H_entry c st \<Rightarrow> ptr = slot qb E w \<and> (r' = 0 \<and> w < E \<or> 0 < r' \<and> w + 1 < r' + E)
      | H_wait_again c st \<Rightarrow> ptr = slot qb E w \<and> 0 < r'
      | _ \<Rightarrow> ptr = (if w mod E = 0 \<and> 0 < w then qb + 2 * E else slot qb E w))"

definition host_ring :: "nat \<Rightarrow> nat \<Rightarrow> nat \<Rightarrow> nat \<Rightarrow> nat \<Rightarrow> nat \<Rightarrow> host_phase \<Rightarrow> bool" where
  "host_ring qb E w r ptr fence ph \<longleftrightarrow> (\<exists>r' \<le> r. ring_view qb E w r' ptr fence ph)"

definition host_place :: "nat \<Rightarrow> nat \<Rightarrow> nat \<Rightarrow> nat \<Rightarrow> nat \<Rightarrow> nat \<Rightarrow> host_phase \<Rightarrow> bool" where
  "host_place lo hi A M e wr ph \<longleftrightarrow>
     (case ph of
        H_write n st \<Rightarrow> 0 < n \<and> n \<le> M \<and> A dvd n \<and> wr = next_pos lo hi e n
      | _ \<Rightarrow> wr = (if e \<ge> hi then lo else e))"

abbreviation fetch_base :: "dispatch_constants \<Rightarrow> u32" where
  "fetch_base dc \<equiv> get_device_command_queue_addr dc UNRESERVED"

definition cq_inv :: "hal_values \<Rightarrow> dispatch_constants \<Rightarrow> nat \<Rightarrow> nat \<Rightarrow> cq_system \<Rightarrow> bool" where
  "cq_inv h dc q k s \<longleftrightarrow>
     (let m = sys_host s; p = sys_dev s; lo = issue_lo q m; hi = issue_hi q m;
          cs = sys_sent s @ pending_cmd (sys_phase s); M = max_prefetch_command_size dc; E = prefetch_q_entries dc
      in queue_ok h dc q k m \<and> chain lo hi lo cs \<and> sizes_ok (2 ^ k) M cs \<and> dev_ring lo (fetch_base dc) E (sys_sent s) p \<and>
         host_ring (fetch_base dc) E (length (sys_sent s)) (length (pf_reads p)) (prefetch_q_dev_ptrs m ! q)
           (prefetch_q_dev_fences m ! q) (sys_phase s) \<and>
         host_place lo hi (2 ^ k) M (last_end lo cs) (issue_wr q m) (sys_phase s) \<and>
         (pf_pending_read_size p \<noteq> 0 \<longrightarrow> pf_reads p \<noteq> []))"

lemma host_ring_mono: "host_ring qb E w r ptr fence ph \<Longrightarrow> r \<le> r2 \<Longrightarrow> host_ring qb E w r2 ptr fence ph"
  unfolding host_ring_def by (meson le_trans)

lemma cq_invD:
  assumes "cq_inv h dc q k s"
  defines "m \<equiv> sys_host s" and "lo \<equiv> issue_lo q (sys_host s)" and "hi \<equiv> issue_hi q (sys_host s)"
    and "cs \<equiv> sys_sent s @ pending_cmd (sys_phase s)"
  shows "queue_ok h dc q k m" "chain lo hi lo cs" "sizes_ok (2 ^ k) (max_prefetch_command_size dc) cs"
    "dev_ring lo (fetch_base dc) (prefetch_q_entries dc) (sys_sent s) (sys_dev s)"
    "host_ring (fetch_base dc) (prefetch_q_entries dc) (length (sys_sent s)) (length (pf_reads (sys_dev s)))
       (prefetch_q_dev_ptrs m ! q) (prefetch_q_dev_fences m ! q) (sys_phase s)"
    "host_place lo hi (2 ^ k) (max_prefetch_command_size dc) (last_end lo cs) (issue_wr q m) (sys_phase s)"
    "pf_pending_read_size (sys_dev s) \<noteq> 0 \<longrightarrow> pf_reads (sys_dev s) \<noteq> []"
  using assms unfolding cq_inv_def Let_def by auto

section \<open>Steps of the kernel\<close>

lemma read_from_pcie_mono:
  "length (pf_reads p) \<le> length (pf_reads (read_from_pcie a pre n p))"
  "pf_pending_read_size (read_from_pcie a pre n p) \<noteq> 0 \<Longrightarrow> pf_reads (read_from_pcie a pre n p) \<noteq> []"
  by (auto simp: read_from_pcie_def Let_def split: if_splits)

lemma kernel_moves:
  "dev_ring lo qb E sent (move_cmd_ptr p) = dev_ring lo qb E sent p" "pf_reads (move_cmd_ptr p) = pf_reads p"
  "pf_pending_read_size (move_cmd_ptr p) = pf_pending_read_size p"
  "dev_ring lo qb E sent (p\<lparr>pf_stall := t\<rparr>) = dev_ring lo qb E sent p"
  "dev_ring lo qb E sent (read_barrier p) = dev_ring lo qb E sent p" "pf_reads (read_barrier p) = pf_reads p"
  "pf_pending_read_size (read_barrier p) = 0"
  "dev_ring lo qb E sent (barrier_and_stall p) = dev_ring lo qb E sent p" "pf_reads (barrier_and_stall p) = pf_reads p"
  "pf_pending_read_size (barrier_and_stall p) = 0"
  by (simp_all add: move_cmd_ptr_def read_barrier_def barrier_and_stall_def Let_def dev_ring_def)

lemma queue_moves:
  "pf_queue (p\<lparr>pf_stall := t\<rparr>) = pf_queue p" "pf_rd_ptr (p\<lparr>pf_stall := t\<rparr>) = pf_rd_ptr p"
  "pf_queue (read_barrier p) = pf_queue p" "pf_rd_ptr (read_barrier p) = pf_rd_ptr p"
  by (simp_all add: move_cmd_ptr_def read_barrier_def Let_def)

definition kernel_ok :: "nat \<Rightarrow> nat \<Rightarrow> nat \<Rightarrow> (nat \<times> nat) list \<Rightarrow> prefetcher \<Rightarrow> prefetcher \<Rightarrow> bool" where
  "kernel_ok lo qb E sent p p' \<longleftrightarrow> dev_ring lo qb E sent p' \<and> length (pf_reads p) \<le> length (pf_reads p') \<and>
     (pf_pending_read_size p' \<noteq> 0 \<longrightarrow> pf_reads p' \<noteq> [])"

lemma kernel_read:
  assumes "dev_ring lo qb E sent p" "chain lo hi lo sent" "sizes_ok A M sent" "args_ok a lo hi qb E" "lo + M \<le> hi"
    "hi + M < 2 ^ 32" "entry_size (pf_queue p (pf_rd_ptr p)) \<noteq> 0"
  shows "kernel_ok lo qb E sent p (read_from_pcie a pre (entry_size (pf_queue p (pf_rd_ptr p))) p)"
  using read_from_pcie_ring [OF assms(1) refl assms(7,2-6)] read_from_pcie_mono [where p = p]
  by (simp add: kernel_ok_def)

lemma kernel_first:
  assumes d: "dev_ring lo qb E sent p" and c: "chain lo hi lo sent" "sizes_ok A M sent" "args_ok a lo hi qb E" "lo + M \<le> hi"
    "hi + M < 2 ^ 32" and pend: "pf_pending_read_size p \<noteq> 0 \<longrightarrow> pf_reads p \<noteq> []" and g: "get_first a pre p = (r, p')"
  shows "kernel_ok lo qb E sent p p'"
proof -
  let ?p = "(move_cmd_ptr p)\<lparr>pf_stall := stall_of (pf_queue (move_cmd_ptr p) (pf_rd_ptr (move_cmd_ptr p)))\<rparr>"
  have d': "dev_ring lo qb E sent ?p" using d by (simp add: kernel_moves)
  have read: "kernel_ok lo qb E sent p (read_from_pcie a pre (entry_size (pf_queue ?p (pf_rd_ptr ?p))) ?p)"
    if "entry_size (pf_queue ?p (pf_rd_ptr ?p)) \<noteq> 0"
    using kernel_read [OF d' c that, of pre] by (simp add: kernel_ok_def kernel_moves)
  have "p' = p \<or> p' = ?p \<or>
      entry_size (pf_queue ?p (pf_rd_ptr ?p)) \<noteq> 0 \<and> p' = read_from_pcie a pre (entry_size (pf_queue ?p (pf_rd_ptr ?p))) ?p"
    using g by (auto simp: get_first_def Let_def split: if_splits)
  then show ?thesis using read d d' pend by (auto simp: kernel_ok_def kernel_moves)
qed

lemma kernel_second:
  assumes d: "dev_ring lo qb E sent p" and c: "chain lo hi lo sent" "sizes_ok A M sent" "args_ok a lo hi qb E" "lo + M \<le> hi"
    "hi + M < 2 ^ 32" and g: "get_second a pre p = (r, p')"
  shows "kernel_ok lo qb E sent p p'"
proof -
  let ?b = "read_barrier p"
  let ?p = "?b\<lparr>pf_stall := stall_of (pf_queue ?b (pf_rd_ptr ?b))\<rparr>"
  have d': "dev_ring lo qb E sent ?p" using d by (simp add: kernel_moves)
  have read: "kernel_ok lo qb E sent p (read_from_pcie a x (entry_size (pf_queue ?p (pf_rd_ptr ?p))) ?p)"
    if "entry_size (pf_queue ?p (pf_rd_ptr ?p)) \<noteq> 0" for x
    using kernel_read [OF d' c that, of x] by (simp add: kernel_ok_def kernel_moves)
  have "p' = ?b \<or> (\<exists>x. entry_size (pf_queue ?p (pf_rd_ptr ?p)) \<noteq> 0 \<and>
      p' = read_from_pcie a x (entry_size (pf_queue ?p (pf_rd_ptr ?p))) ?p)"
    using g by (auto simp: get_second_def Let_def queue_moves split: if_splits)
  then show ?thesis using read d by (auto simp: kernel_ok_def kernel_moves)
qed

section \<open>Steps of the host in the fetch queue\<close>

lemma view_poll:
  assumes "ring_view qb E w r' ptr fence ph" "r' \<le> r" "ph = H_wait c st \<or> ph = H_wait_again c st"
  shows "ring_view qb E w r ptr (published qb E r) ph"
  using assms by (auto simp: ring_view_def)

lemma slot_not_last:
  assumes "slot qb E w \<noteq> slot qb E (r' - 1)" "0 < r'" "r' \<le> w" "w < r' + E"
  shows "w + 1 < r' + E"
proof (rule ccontr)
  assume "\<not> w + 1 < r' + E"
  then have "w = (r' - 1) + E" using assms(2,4) by simp
  then show False using assms(1) by (simp add: slot_eq)
qed

lemma view_space:
  assumes "ring_view qb E w r' ptr fence (H_wait c st)" "ptr \<noteq> fence" "ptr \<noteq> qb + 2 * E" "r' \<le> w" "0 < E"
  shows "ring_view qb E w r' ptr fence (H_entry c st)"
proof -
  have p: "ptr = slot qb E w" "\<not> (w mod E = 0 \<and> 0 < w)" using assms(1,3) by (auto simp: ring_view_def split: if_splits)
  have "w < E" if "r' = 0"
  proof -
    have "w \<le> E" using assms(1) that by (simp add: ring_view_def)
    moreover have "w \<noteq> E" using p(2) assms(5) by auto
    ultimately show ?thesis by simp
  qed
  moreover have "w + 1 < r' + E" if "0 < r'"
    using slot_not_last [of qb E w r'] assms that p(1) by (auto simp: ring_view_def published_def)
  ultimately show ?thesis using assms(1) p(1) by (auto simp: ring_view_def)
qed

lemma view_wrap:
  assumes "ring_view qb E w r' ptr fence (H_wait c st)" "ptr \<noteq> fence" "ptr = qb + 2 * E" "0 < E"
  shows "ring_view qb E w r' qb fence (H_wait_again c st)"
proof -
  have "slot qb E w \<noteq> qb + 2 * E" using slot_bounds [OF assms(4), of qb w] by linarith
  then have "w mod E = 0" using assms(1,3) by (auto simp: ring_view_def split: if_splits)
  then have "qb = slot qb E w" by (simp add: slot_def)
  moreover have "0 < r'" using assms(1-3) by (cases "r' = 0") (auto simp: ring_view_def published_def)
  ultimately show ?thesis using assms(1) by (auto simp: ring_view_def)
qed

lemma view_again:
  assumes "ring_view qb E w r' ptr fence (H_wait_again c st)" "ptr \<noteq> fence" "r' \<le> w"
  shows "ring_view qb E w r' ptr fence (H_entry c st)"
  using assms slot_not_last [of qb E w r'] by (auto simp: ring_view_def published_def)

lemma view_entry:
  assumes "ring_view qb E w r' ptr fence (H_entry c st)" "0 < E"
  shows "ring_view qb E (Suc w) r' (ptr + 2) fence H_idle"
  using assms(1) slot_Suc [OF assms(2), of qb w] slot_end [OF assms(2), of qb w]
  by (auto simp: ring_view_def)

lemma entry_size_of:
  assumes "16 dvd n" "n < 2 ^ 19"
  shows "entry_size (fetch_q_entry n st) = n"
proof -
  have n: "n div 16 < 2 ^ 15" "n div 16 * 16 = n" using assms by (auto simp: less_mult_imp_div_less)
  have "fetch_q_entry n st = (if st then 2 ^ 15 + n div 16 else n div 16)"
    using push_or_add [of "n div 16" 15 1] n(1)
    by (simp add: fetch_q_entry_def Let_def shr32_def PREFETCH_Q_LOG_MINSIZE_def drop_bit_eq_div or.commute push_bit_eq_mult)
  then have "fetch_q_entry n st mod 2 ^ 15 = n div 16" using n(1) by (simp split: if_splits)
  then show ?thesis using n assms(2) by (simp add: entry_size_def shl32_def push_bit_eq_mult)
qed

lemma dev_ring_entry:
  assumes "dev_ring lo qb E sent p" "length sent < length (pf_reads p) + E" "entry_size e = snd c"
  shows "dev_ring lo qb E (sent @ [c]) (p\<lparr>pf_queue := (pf_queue p)(slot qb E (length sent) := e)\<rparr>)"
proof -
  let ?r = "length (pf_reads p)" and ?w = "length sent"
  have r: "?r \<le> ?w" and some: "\<And>i. ?r \<le> i \<Longrightarrow> i < ?w \<Longrightarrow> entry_size (pf_queue p (slot qb E i)) = snd (sent ! i)"
    and none: "\<And>j. (\<forall>i. ?r \<le> i \<and> i < ?w \<longrightarrow> slot qb E i \<noteq> slot qb E j) \<Longrightarrow> pf_queue p (slot qb E j) = 0"
    using assms(1) unfolding dev_ring_def Let_def by auto
  have "slot qb E i \<noteq> slot qb E ?w" if "?r \<le> i" "i < ?w" for i
    using slot_neq [of i ?w E qb] that assms(2) by simp
  moreover have "slot qb E j \<noteq> slot qb E ?w \<and> pf_queue p (slot qb E j) = 0"
    if "\<forall>i. ?r \<le> i \<and> i < Suc ?w \<longrightarrow> slot qb E i \<noteq> slot qb E j" for j
    using that none [of j] r by (metis less_SucI lessI)
  ultimately show ?thesis
    using assms some r unfolding dev_ring_def Let_def by (auto simp: nth_append less_Suc_eq)
qed

section \<open>Every step keeps the invariant\<close>

lemma kernel_step_inv:
  assumes inv: "cq_inv h dc q k s"
    and ok: "kernel_ok (issue_lo q (sys_host s)) (fetch_base dc) (prefetch_q_entries dc) (sys_sent s) (sys_dev s) p"
  shows "cq_inv h dc q k (s\<lparr>sys_dev := p, sys_dev_phase := ph\<rparr>)"
  using cq_invD [OF inv] ok host_ring_mono unfolding cq_inv_def Let_def kernel_ok_def by auto

lemma kernel_setup:
  assumes inv: "cq_inv h dc q k s"
  shows "dev_ring (issue_lo q (sys_host s)) (fetch_base dc) (prefetch_q_entries dc) (sys_sent s) (sys_dev s)"
    "chain (issue_lo q (sys_host s)) (issue_hi q (sys_host s)) (issue_lo q (sys_host s)) (sys_sent s)"
    "sizes_ok (2 ^ k) (max_prefetch_command_size dc) (sys_sent s)"
    "args_ok (prefetch_args_of dc q (sys_host s)) (issue_lo q (sys_host s)) (issue_hi q (sys_host s))
       (fetch_base dc) (prefetch_q_entries dc)"
    "issue_lo q (sys_host s) + max_prefetch_command_size dc \<le> issue_hi q (sys_host s)"
    "issue_hi q (sys_host s) + max_prefetch_command_size dc < 2 ^ 32"
  using cq_invD [OF inv] args_ok_of queue_okD(8,12)
  by (auto simp: sent_chain_append sizes_ok_def)

lemma reserve_inv:
  assumes inv: "cq_inv h dc q k s" and ph: "sys_phase s = H_idle"
    and n: "0 < n" "n \<le> max_prefetch_command_size dc" "host_alignment h dvd n"
    and op: "issue_queue_reserve h n q (sys_host s) = (ptr, m)"
  shows "cq_inv h dc q k (s\<lparr>sys_host := m, sys_phase := H_write n st\<rparr>)"
proof -
  note d = cq_invD [OF inv, unfolded ph, simplified]
  note ok = queue_okD [OF d(1)]
  let ?e = "last_end (issue_lo q (sys_host s)) (sys_sent s)"
  have wr: "issue_wr q (sys_host s) = (if ?e \<ge> issue_hi q (sys_host s) then issue_lo q (sys_host s) else ?e)"
    using d(6) by (simp add: host_place_def)
  then have le: "issue_wr q (sys_host s) \<le> issue_hi q (sys_host s)" using ok(3) by simp
  have r: "same_queue q (sys_host s) m"
    "issue_wr q m = next_pos (issue_lo q (sys_host s)) (issue_hi q (sys_host s)) (issue_wr q (sys_host s)) n"
    "prefetch_q_dev_ptrs m = prefetch_q_dev_ptrs (sys_host s)" "prefetch_q_dev_fences m = prefetch_q_dev_fences (sys_host s)"
    using reserve_ok [OF d(1) le n op] by auto
  have "issue_wr q m = next_pos (issue_lo q (sys_host s)) (issue_hi q (sys_host s)) ?e n"
    unfolding r(2) wr by (rule next_pos_wrapped) (use n ok(8) in linarith)+
  then show ?thesis
    using d n ok(11) r(3,4) same_queueD [OF r(1)]
    by (simp add: cq_inv_def Let_def host_place_def host_ring_def ring_view_def)
qed

lemma push_inv:
  assumes inv: "cq_inv h dc q k s" and ph: "sys_phase s = H_write n st"
    and op: "issue_queue_push_back h n q (sys_host s) = (ws, m)"
  shows "cq_inv h dc q k (s\<lparr>sys_host := m, sys_phase := H_wait (get_issue_queue_write_ptr (sys_host s) q, n) st\<rparr>)"
proof -
  note d = cq_invD [OF inv, unfolded ph, simplified]
  note ok = queue_okD [OF d(1)]
  let ?lo = "issue_lo q (sys_host s)" and ?hi = "issue_hi q (sys_host s)" and ?wr = "issue_wr q (sys_host s)"
  let ?e = "last_end ?lo (sys_sent s)"
  have n: "0 < n" "n \<le> max_prefetch_command_size dc" "2 ^ k dvd n" and wr: "?wr = next_pos ?lo ?hi ?e n"
    using d(6) by (auto simp: host_place_def)
  have "?e \<le> ?hi" using chain_places [OF d(2,3) ok(8), of 1] ok(3) by simp
  then have le: "?wr + n \<le> ?hi" using wr n(2) ok(8) by (simp add: next_pos_def)
  then have ptr: "get_issue_queue_write_ptr (sys_host s) q = ?wr" using issue_ptrs(1) [OF d(1)] by simp
  have r: "same_queue q (sys_host s) m" "issue_wr q m = (if ?wr + n \<ge> ?hi then ?lo else ?wr + n)"
    "prefetch_q_dev_ptrs m = prefetch_q_dev_ptrs (sys_host s)" "prefetch_q_dev_fences m = prefetch_q_dev_fences (sys_host s)"
    using push_ok [OF d(1) le n(1,2) _ op] n(3) ok(11) by auto
  have "chain ?lo ?hi ?lo (sys_sent s @ [(?wr, n)])" "sizes_ok (2 ^ k) (max_prefetch_command_size dc) (sys_sent s @ [(?wr, n)])"
    using d(2,3) n wr by (auto simp: sent_chain_append sizes_ok_def)
  then show ?thesis
    using d r(2-4) same_queueD [OF r(1)] ptr
    by (simp add: cq_inv_def Let_def host_place_def host_ring_def ring_view_def last_end_append)
qed

text \<open>The steps that only touch the pointer and the fence of the fetch queue.\<close>

lemma fetch_pointer_inv:
  assumes inv: "cq_inv h dc q k s"
    and same: "same_queue q (sys_host s) m" "issue_wr q m = issue_wr q (sys_host s)"
    and ph: "pending_cmd (sys_phase s) = [c]" "pending_cmd ph = [c]"
    and ring: "host_ring (fetch_base dc) (prefetch_q_entries dc) (length (sys_sent s)) (length (pf_reads (sys_dev s)))
      (prefetch_q_dev_ptrs m ! q) (prefetch_q_dev_fences m ! q) ph"
  shows "cq_inv h dc q k (s\<lparr>sys_host := m, sys_phase := ph\<rparr>)"
proof -
  have "host_place lo hi A M e wr (sys_phase s) = host_place lo hi A M e wr ph" for lo hi A M e wr
    using ph by (cases "sys_phase s"; cases ph) (simp_all add: host_place_def)
  then show ?thesis
    using cq_invD [OF inv] same(2) same_queueD [OF same(1)] ph ring by (simp add: cq_inv_def Let_def)
qed

lemma ring_of_inv:
  assumes inv: "cq_inv h dc q k s"
  obtains r' where "r' \<le> length (pf_reads (sys_dev s))" "length (pf_reads (sys_dev s)) \<le> length (sys_sent s)"
    "ring_view (fetch_base dc) (prefetch_q_entries dc) (length (sys_sent s)) r' (prefetch_q_dev_ptrs (sys_host s) ! q)
      (prefetch_q_dev_fences (sys_host s) ! q) (sys_phase s)"
  using cq_invD(4,5) [OF inv] by (auto simp: host_ring_def dev_ring_def Let_def)

lemma limit_eq:
  assumes "queue_ok h dc q k m"
  shows "prefetch_q_limit dc = fetch_base dc + 2 * prefetch_q_entries dc"
proof -
  have "fetch_base dc + 2 * prefetch_q_entries dc < 2 ^ 32" using assms by (simp add: queue_ok_def)
  then show ?thesis by (simp add: prefetch_q_limit_def sizeof_prefetch_q_entry_def add32_def mul32_def mult.commute)
qed

lemma poll_inv:
  assumes inv: "cq_inv h dc q k s" and ph: "sys_phase s = H_wait c st \<or> sys_phase s = H_wait_again c st"
  shows "cq_inv h dc q k (s\<lparr>sys_host := set_fence q (pf_rd_ptr_published (sys_dev s)) (sys_host s)\<rparr>)"
proof -
  obtain r' where r: "r' \<le> length (pf_reads (sys_dev s))"
    "ring_view (fetch_base dc) (prefetch_q_entries dc) (length (sys_sent s)) r' (prefetch_q_dev_ptrs (sys_host s) ! q)
      (prefetch_q_dev_fences (sys_host s) ! q) (sys_phase s)" by (rule ring_of_inv [OF inv])
  have pub: "pf_rd_ptr_published (sys_dev s) = published (fetch_base dc) (prefetch_q_entries dc) (length (pf_reads (sys_dev s)))"
    using cq_invD(4) [OF inv] by (simp add: dev_ring_def Let_def)
  have "q < length (prefetch_q_dev_fences (sys_host s))" using cq_invD(1) [OF inv] by (simp add: queue_ok_def)
  then have "cq_inv h dc q k (s\<lparr>sys_host := set_fence q (pf_rd_ptr_published (sys_dev s)) (sys_host s), sys_phase := sys_phase s\<rparr>)"
    using view_poll [OF r(2,1) ph] ph pub
    by (intro fetch_pointer_inv [OF inv, of _ c])
      (auto simp: set_fence_def same_queue_def issue_wr_def host_ring_def)
  then show ?thesis by simp
qed

lemma space_inv:
  assumes inv: "cq_inv h dc q k s" and ph: "sys_phase s = H_wait c st" and sp: "\<not> fetch_q_full q (sys_host s)"
    and ptr: "prefetch_q_dev_ptrs (sys_host s) ! q \<noteq> prefetch_q_limit dc"
  shows "cq_inv h dc q k (s\<lparr>sys_phase := H_entry c st\<rparr>)"
proof -
  note ok = cq_invD(1) [OF inv]
  obtain r' where r: "r' \<le> length (pf_reads (sys_dev s))" "length (pf_reads (sys_dev s)) \<le> length (sys_sent s)"
    "ring_view (fetch_base dc) (prefetch_q_entries dc) (length (sys_sent s)) r' (prefetch_q_dev_ptrs (sys_host s) ! q)
      (prefetch_q_dev_fences (sys_host s) ! q) (sys_phase s)" by (rule ring_of_inv [OF inv])
  have "cq_inv h dc q k (s\<lparr>sys_host := sys_host s, sys_phase := H_entry c st\<rparr>)"
    using view_space [OF r(3) [unfolded ph]] r(1,2) ph sp ptr limit_eq [OF ok] queue_okD(6) [OF ok]
    by (intro fetch_pointer_inv [OF inv, of _ c])
      (auto simp: same_queue_def host_ring_def fetch_q_full_def intro!: exI [of _ r'])
  then show ?thesis by simp
qed

lemma wrap_inv:
  assumes inv: "cq_inv h dc q k s" and ph: "sys_phase s = H_wait c st" and sp: "\<not> fetch_q_full q (sys_host s)"
    and ptr: "prefetch_q_dev_ptrs (sys_host s) ! q = prefetch_q_limit dc"
  shows "cq_inv h dc q k (s\<lparr>sys_host := wrap_fetch_q dc q (sys_host s), sys_phase := H_wait_again c st\<rparr>)"
proof -
  note ok = cq_invD(1) [OF inv]
  obtain r' where r: "r' \<le> length (pf_reads (sys_dev s))"
    "ring_view (fetch_base dc) (prefetch_q_entries dc) (length (sys_sent s)) r' (prefetch_q_dev_ptrs (sys_host s) ! q)
      (prefetch_q_dev_fences (sys_host s) ! q) (sys_phase s)" by (rule ring_of_inv [OF inv])
  have "q < length (prefetch_q_dev_ptrs (sys_host s))" using ok by (simp add: queue_ok_def)
  then show ?thesis
    using view_wrap [OF r(2) [unfolded ph]] r(1) ph sp ptr limit_eq [OF ok] queue_okD(6) [OF ok]
    by (intro fetch_pointer_inv [OF inv, of _ c])
      (auto simp: wrap_fetch_q_def same_queue_def issue_wr_def host_ring_def fetch_q_full_def intro!: exI [of _ r'])
qed

lemma again_inv:
  assumes inv: "cq_inv h dc q k s" and ph: "sys_phase s = H_wait_again c st" and sp: "\<not> fetch_q_full q (sys_host s)"
  shows "cq_inv h dc q k (s\<lparr>sys_phase := H_entry c st\<rparr>)"
proof -
  obtain r' where r: "r' \<le> length (pf_reads (sys_dev s))" "length (pf_reads (sys_dev s)) \<le> length (sys_sent s)"
    "ring_view (fetch_base dc) (prefetch_q_entries dc) (length (sys_sent s)) r' (prefetch_q_dev_ptrs (sys_host s) ! q)
      (prefetch_q_dev_fences (sys_host s) ! q) (sys_phase s)" by (rule ring_of_inv [OF inv])
  have "cq_inv h dc q k (s\<lparr>sys_host := sys_host s, sys_phase := H_entry c st\<rparr>)"
    using view_again [OF r(3) [unfolded ph]] r(1,2) ph sp
    by (intro fetch_pointer_inv [OF inv, of _ c])
      (auto simp: same_queue_def host_ring_def fetch_q_full_def intro!: exI [of _ r'])
  then show ?thesis by simp
qed

lemma entry_inv:
  assumes inv: "cq_inv h dc q k s" and ph: "sys_phase s = H_entry c st"
    and op: "fetch_queue_write dc (snd c) q st (sys_host s) = Inr (ws, m)"
  shows "cq_inv h dc q k (s\<lparr>sys_host := m, sys_phase := H_idle, sys_dev := fold apply_write ws (sys_dev s),
    sys_sent := sys_sent s @ [c]\<rparr>)"
proof -
  note d = cq_invD [OF inv, unfolded ph, simplified]
  note ok = queue_okD [OF d(1)]
  let ?qb = "fetch_base dc" and ?E = "prefetch_q_entries dc" and ?w = "length (sys_sent s)" and ?p = "sys_dev s"
  obtain r' where r: "r' \<le> length (pf_reads ?p)"
    "ring_view ?qb ?E ?w r' (prefetch_q_dev_ptrs (sys_host s) ! q) (prefetch_q_dev_fences (sys_host s) ! q) (H_entry c st)"
    using ring_of_inv [OF inv, unfolded ph] by blast
  have ptr: "prefetch_q_dev_ptrs (sys_host s) ! q = slot ?qb ?E ?w" and room: "?w < length (pf_reads ?p) + ?E"
    using r by (auto simp: ring_view_def)
  have "slot ?qb ?E ?w + 2 < 2 ^ 32" using slot_bounds [OF ok(6), of ?qb ?w] d(1) by (auto simp: queue_ok_def)
  then have add: "add32 (slot ?qb ?E ?w) sizeof_prefetch_q_entry = slot ?qb ?E ?w + 2"
    by (simp add: sizeof_prefetch_q_entry_def add32_small)
  have w: "ws = [Fetch_q_write (slot ?qb ?E ?w) (fetch_q_entry (snd c) st)]"
    "m = (sys_host s)\<lparr>prefetch_q_dev_ptrs := (prefetch_q_dev_ptrs (sys_host s))[q := slot ?qb ?E ?w + 2]\<rparr>"
    using op ok(2) ptr add by (auto simp: fetch_queue_write_def split: if_splits)
  have q: "q < length (prefetch_q_dev_ptrs (sys_host s))" using d(1) by (simp add: queue_ok_def)
  have same: "same_queue q (sys_host s) m" "issue_wr q m = issue_wr q (sys_host s)"
    by (simp_all add: w(2) same_queue_def issue_wr_def)
  have c: "snd c \<le> max_prefetch_command_size dc" "2 ^ k dvd snd c" using d(3) by (auto simp: sizes_ok_def)
  then have "entry_size (fetch_q_entry (snd c) st) = snd c"
    using ok(7,9) by (intro entry_size_of) (auto intro: dvd_trans)
  then have "dev_ring (issue_lo q (sys_host s)) ?qb ?E (sys_sent s @ [c]) (fold apply_write ws ?p)"
    using dev_ring_entry [OF d(4) room] w(1) by simp
  moreover have "host_ring ?qb ?E (length (sys_sent s @ [c])) (length (pf_reads (fold apply_write ws ?p)))
      (prefetch_q_dev_ptrs m ! q) (prefetch_q_dev_fences m ! q) H_idle"
    using view_entry [OF r(2) ok(6)] r(1) w q ptr by (auto simp: host_ring_def)
  ultimately show ?thesis
    using d same(2) same_queueD [OF same(1)] w(1) by (simp add: cq_inv_def Let_def host_place_def)
qed

lemma cq_step_inv:
  assumes "cq_inv h dc q k s" "cq_step h dc q pre s s'"
  shows "cq_inv h dc q k s'"
  using assms(2)
proof cases
  case (get r p)
  then show ?thesis
    using kernel_first [OF kernel_setup [OF assms(1)] cq_invD(7) [OF assms(1)]] kernel_step_inv [OF assms(1)] by simp
next
  case (barrier r p)
  then show ?thesis
    using kernel_second [OF kernel_setup [OF assms(1)]] kernel_step_inv [OF assms(1)] by simp
next
  case stall
  then show ?thesis
    using kernel_setup(1) [OF assms(1)] by (auto simp: kernel_ok_def kernel_moves intro!: kernel_step_inv [OF assms(1)])
next
  case (execute st c)
  have "kernel_ok (issue_lo q (sys_host s)) (fetch_base dc) (prefetch_q_entries dc) (sys_sent s) (sys_dev s)
      ((sys_dev s)\<lparr>pf_cmd_ptr := c, pf_stall := st\<rparr>)"
    using kernel_setup(1) [OF assms(1)] cq_invD(7) [OF assms(1)] by (simp add: kernel_ok_def dev_ring_def)
  from kernel_step_inv [OF assms(1) this, of "sys_dev_phase s"] show ?thesis using execute by (simp add: cq_inv_def)
qed (use assms(1) in \<open>auto intro: reserve_inv push_inv poll_inv space_inv wrap_inv again_inv entry_inv\<close>)

end
