(* ===== verification/Issue_Queue_Theorems.thy ===== *)
theory Issue_Queue_Theorems
  imports Issue_Queue_Invariant
begin

text \<open>
  The constructors establish what the invariant needs, and the properties of the queues
  between host and prefetch kernel.
\<close>

section \<open>The layout on the dispatch core\<close>

definition hal_ok :: "hal_values \<Rightarrow> nat \<Rightarrow> nat \<Rightarrow> bool" where
  "hal_ok h k l \<longleftrightarrow> host_alignment h = 2 ^ k \<and> 4 \<le> k \<and> k \<le> 12 \<and> l1_alignment h = 2 ^ l \<and> 3 \<le> l \<and> l \<le> 12 \<and>
     tensix_unreserved h < 2 ^ 24 \<and> idle_eth_unreserved h < 2 ^ 24"

lemma addrs_steps:
  assumes "hal_ok h k l" "b < 2 ^ 24"
  shows "\<exists>u. place_device_cq_addrs h b =
      [b, b + 4, b + 2 ^ l, b + 2 * 2 ^ l, b + 3 * 2 ^ l, b + 4 * 2 ^ l, b + 5 * 2 ^ l, b + 21 * 2 ^ l, u] \<and>
    b + 37 * 2 ^ l \<le> u \<and> u < b + 37 * 2 ^ l + 4096 \<and> 2 ^ k dvd u \<and> u = align_u32 (b + 37 * 2 ^ l) (2 ^ k)"
proof -
  have h: "host_alignment h = 2 ^ k" "k \<le> 12" "l1_alignment h = 2 ^ l" "2 \<le> l" "l \<le> 12" using assms(1) by (auto simp: hal_ok_def)
  have L: "(2 :: nat) ^ l \<le> 4096" "4 \<le> (2 :: nat) ^ l"
    using pow2_le_4096 [OF h(5)] power_increasing [of 2 l "2 :: nat"] h(4) by simp_all
  let ?L = "(2 :: nat) ^ l" and ?u = "align_u32 (b + 37 * 2 ^ l) (2 ^ k)"
  have near: "b + 37 * ?L \<le> ?u" "?u < b + 37 * ?L + 4096" "2 ^ k dvd ?u"
    using align_u32_near [of "b + 37 * ?L" k] L(1) assms(2) h(2) by auto
  have s: "sub32 ?L 4 = ?L - 4" using L by (intro sub32_small) auto
  have m: "mul32 16 ?L = 16 * ?L" using L by (intro mul32_small) simp
  have a: "add32 x y = x + y" if "x + y < 2 ^ 31" for x y using that by (intro add32_small) simp
  have e: "b + 4 + (?L - 4) = b + ?L" using L by simp
  have "place_device_cq_addrs h b =
      [b, b + 4, b + ?L, b + 2 * ?L, b + 3 * ?L, b + 4 * ?L, b + 5 * ?L, b + 21 * ?L, ?u]"
    using assms(2) L
    by (simp add: place_device_cq_addrs_def device_addr_types_def device_cq_addr_size_def h DISPATCH_MESSAGE_ENTRIES_def
        s m a e Let_def) (simp add: add.commute)
  then show ?thesis using near by blast
qed

lemma round_pages:
  assumes "0 < x" "x < 2 ^ 24" "k \<le> 12"
  shows "mul32 (sub32 (add32 x (2 ^ k)) 1 div 2 ^ k) (2 ^ k) = ceil_to x (2 ^ k)"
proof -
  have k: "(2 :: nat) ^ k \<le> 4096" by (rule pow2_le_4096 [OF assms(3)])
  have a: "add32 x (2 ^ k) = x + 2 ^ k" using assms(2) k by (intro add32_small) simp
  have s: "sub32 (x + 2 ^ k) 1 = x + 2 ^ k - 1" using assms(1,2) k by (intro sub32_small) auto
  have "ceil_to x (2 ^ k) < x + 2 ^ k" by (rule ceil_to_props) simp
  then have "ceil_to x (2 ^ k) < 2 ^ 32" using assms(2) k by simp
  then show ?thesis unfolding a s by (simp add: ceil_to_def mul32_small)
qed

lemma dispatch_constants_values:
  assumes "dispatch_constants_new h gal core n = Inr dc" "hal_ok h k l" "0 < n" "n \<le> 2"
  obtains b where "b = (if core = WORKER then tensix_unreserved h else idle_eth_unreserved h)"
    "device_cq_addrs dc = place_device_cq_addrs h b" "128 \<le> prefetch_q_entries dc" "prefetch_q_entries dc \<le> 1534"
    "prefetch_q_size dc = 2 * prefetch_q_entries dc"
    "max_prefetch_command_size dc = 131072 \<and> cmddat_q_size dc = 262144 \<and> scratch_db_size dc = 131072 \<or>
     max_prefetch_command_size dc = 32768 \<and> cmddat_q_size dc = 65536 \<and> scratch_db_size dc = 19456"
    "cmddat_q_base dc = fetch_base dc + ceil_to (2 * prefetch_q_entries dc) (2 ^ k)"
    "scratch_db_base dc = cmddat_q_base dc + cmddat_q_size dc"
    "scratch_db_base dc + scratch_db_size dc < (if core = WORKER then mem_l1_size h else mem_eth_size h)"
    "core = WORKER \<or> core = ETH"
proof -
  define b where "b = (if core = WORKER then tensix_unreserved h else idle_eth_unreserved h)"
  have h: "host_alignment h = 2 ^ k" "k \<le> 12" "b < 2 ^ 24" "l \<le> 12" using assms(2) by (auto simp: hal_ok_def b_def)
  have core: "core = WORKER \<or> core = ETH" using assms(1) by (auto simp: dispatch_constants_new_def split: if_splits)
  define E where "E = (if core = WORKER then (if gal then 1532 div n else 1534) else 128)"
  have E: "128 \<le> E" "E \<le> 1534"
  proof -
    have "n = 1 \<or> n = 2" using assms(3,4) by linarith
    then show "128 \<le> E" "E \<le> 1534" by (auto simp: E_def)
  qed
  obtain u where u: "place_device_cq_addrs h b ! 8 = u" "u < b + 37 * 2 ^ l + 4096"
    using addrs_steps [OF assms(2) h(3)] by auto
  have u24: "u < 2 ^ 25" using u(2) h(3) pow2_le_4096 [OF h(4)] by simp
  have m: "mul32 E sizeof_prefetch_q_entry = 2 * E" using E by (simp add: sizeof_prefetch_q_entry_def mul32_small)
  have c1: "mul32 (sub32 (add32 (2 * E) (2 ^ k)) 1 div 2 ^ k) (2 ^ k) = ceil_to (2 * E) (2 ^ k)"
    by (rule round_pages) (use E h in auto)
  have le: "ceil_to (2 * E) (2 ^ k) < 2 * E + 4096"
    using ceil_to_props(3) [of "2 ^ k" "2 * E"] pow2_le_4096 [OF h(2)] by simp
  define S where "S = (if core = WORKER then 262144 else 65536 :: nat)"
  have "(2 :: nat) ^ k dvd 2 ^ 16" using h(2) by (intro le_imp_power_dvd) simp
  then have dS: "2 ^ k dvd S" using dvd_trans [of "2 ^ k" 65536 S] by (simp add: S_def)
  have "mul32 (sub32 (add32 S (2 ^ k)) 1 div 2 ^ k) (2 ^ k) = ceil_to S (2 ^ k)"
    by (rule round_pages) (use h in \<open>auto simp: S_def\<close>)
  also have "\<dots> = S" using ceil_to_unique [of "2 ^ k" S S] dS by simp
  finally have c2: "mul32 (sub32 (add32 S (2 ^ k)) 1 div 2 ^ k) (2 ^ k) = S" .
  define C where "C = ceil_to (2 * E) (2 ^ k)"
  have a1: "add32 u C = u + C" using u24 le E by (intro add32_small) (simp add: C_def)
  have a2: "add32 (u + C) S = u + C + S" using u24 le E by (intro add32_small) (simp add: C_def S_def)
  define D where "D = (if core = WORKER then 131072 else 19456 :: nat)"
  have a3: "add32 (u + C + S) D = u + C + S + D" using u24 le E by (intro add32_small) (simp add: C_def S_def D_def)
  have dc: "device_cq_addrs dc = place_device_cq_addrs h b \<and> prefetch_q_entries dc = E \<and> prefetch_q_size dc = 2 * E \<and>
    max_prefetch_command_size dc = (if core = WORKER then 131072 else 32768) \<and> cmddat_q_size dc = S \<and>
    scratch_db_size dc = D \<and> cmddat_q_base dc = u + C \<and> scratch_db_base dc = u + C + S \<and>
    u + C + S + D < (if core = WORKER then mem_l1_size h else mem_eth_size h)"
  proof (cases "core = WORKER")
    case True
    then show ?thesis
      using assms(1,3) m c1 c2 a1 a2 a3 u(1) h(1)
      by (auto simp: dispatch_constants_new_def Let_def C_def E_def S_def D_def b_def split: if_splits)
  next
    case False
    then have "core = ETH" using core by simp
    then show ?thesis
      using assms(1) m c1 c2 a1 a2 a3 u(1) h(1)
      by (auto simp: dispatch_constants_new_def Let_def C_def E_def S_def D_def b_def split: if_splits)
  qed
  have "fetch_base dc = u" using dc u(1) by (simp add: get_device_command_queue_addr_def)
  then show ?thesis using that [of b] b_def dc E core by (auto simp: C_def S_def D_def)
qed

section \<open>The regions of a command queue\<close>

lemma add_cqs_fields:
  assumes "add_cqs h dc channel [i ..< n] m0 = Inr m" "length (cq_interfaces m0) = i" "i \<le> n"
    "length (prefetch_q_dev_ptrs m0) = n" "length (prefetch_q_dev_fences m0) = n"
  shows "length (cq_interfaces m) = n \<and> length (prefetch_q_dev_ptrs m) = n \<and> length (prefetch_q_dev_fences m) = n \<and>
    bypass_enable m = bypass_enable m0 \<and> cq_size m = cq_size m0 \<and>
    (\<forall>q < i. cq_interfaces m ! q = cq_interfaces m0 ! q \<and> prefetch_q_dev_ptrs m ! q = prefetch_q_dev_ptrs m0 ! q \<and>
       prefetch_q_dev_fences m ! q = prefetch_q_dev_fences m0 ! q) \<and>
    (\<forall>q. i \<le> q \<and> q < n \<longrightarrow>
       cq_interface_new h channel q (cq_size m0) (get_host_command_queue_addr h HOST_UNRESERVED) = Inr (cq_interfaces m ! q) \<and>
       mul32 (max_prefetch_command_size dc) (add32 (prefetch_q_entries dc) 2) \<le> get_issue_queue_size m q \<and>
       prefetch_q_dev_ptrs m ! q = fetch_base dc \<and> prefetch_q_dev_fences m ! q = prefetch_q_limit dc)"
  using assms
proof (induction "n - i" arbitrary: i m0)
  case 0
  then show ?case by auto
next
  case (Suc d)
  then have i: "i < n" "d = n - Suc i" "Suc i \<le> n" by simp_all
  obtain cq where cq: "cq_interface_new h channel i (cq_size m0) (get_host_command_queue_addr h HOST_UNRESERVED) = Inr cq"
    using Suc.prems(1) i(1) by (auto simp: upt_conv_Cons bind_result_Inr)
  define m1 where "m1 = m0\<lparr>cq_interfaces := cq_interfaces m0 @ [cq], cq_to_event := cq_to_event m0 @ [0],
    cq_to_last_completed_event := cq_to_last_completed_event m0 @ [0],
    prefetch_q_dev_ptrs := (prefetch_q_dev_ptrs m0)[i := fetch_base dc],
    prefetch_q_dev_fences := (prefetch_q_dev_fences m0)[i := prefetch_q_limit dc]\<rparr>"
  have sz: "mul32 (max_prefetch_command_size dc) (add32 (prefetch_q_entries dc) 2) \<le> shl32 (issue_fifo_size cq) 4"
    and m: "add_cqs h dc channel [Suc i ..< n] m1 = Inr m"
    using Suc.prems(1,2) i(1) cq
    by (simp_all add: upt_conv_Cons Let_def get_issue_queue_size_def m1_def prefetch_q_limit_def nth_append split: if_splits)
  have IH: "length (cq_interfaces m) = n \<and> length (prefetch_q_dev_ptrs m) = n \<and> length (prefetch_q_dev_fences m) = n \<and>
    bypass_enable m = bypass_enable m1 \<and> cq_size m = cq_size m1 \<and>
    (\<forall>q < Suc i. cq_interfaces m ! q = cq_interfaces m1 ! q \<and> prefetch_q_dev_ptrs m ! q = prefetch_q_dev_ptrs m1 ! q \<and>
       prefetch_q_dev_fences m ! q = prefetch_q_dev_fences m1 ! q) \<and>
    (\<forall>q. Suc i \<le> q \<and> q < n \<longrightarrow>
       cq_interface_new h channel q (cq_size m1) (get_host_command_queue_addr h HOST_UNRESERVED) = Inr (cq_interfaces m ! q) \<and>
       mul32 (max_prefetch_command_size dc) (add32 (prefetch_q_entries dc) 2) \<le> get_issue_queue_size m q \<and>
       prefetch_q_dev_ptrs m ! q = fetch_base dc \<and> prefetch_q_dev_fences m ! q = prefetch_q_limit dc)"
    by (rule Suc.hyps(1) [OF i(2) m]) (use Suc.prems i in \<open>simp_all add: m1_def\<close>)
  have old: "cq_interfaces m ! q = cq_interfaces m0 ! q \<and> prefetch_q_dev_ptrs m ! q = prefetch_q_dev_ptrs m0 ! q \<and>
      prefetch_q_dev_fences m ! q = prefetch_q_dev_fences m0 ! q" if "q < i" for q
    using IH that Suc.prems(2) by (simp add: m1_def nth_append)
  have new: "cq_interfaces m ! i = cq \<and> prefetch_q_dev_ptrs m ! i = fetch_base dc \<and> prefetch_q_dev_fences m ! i = prefetch_q_limit dc"
    using IH Suc.prems i(1) by (simp add: m1_def nth_append)
  have sizes: "cq_size m1 = cq_size m0" "bypass_enable m1 = bypass_enable m0" by (simp_all add: m1_def)
  have "cq_interface_new h channel q (cq_size m0) (get_host_command_queue_addr h HOST_UNRESERVED) = Inr (cq_interfaces m ! q) \<and>
       mul32 (max_prefetch_command_size dc) (add32 (prefetch_q_entries dc) 2) \<le> get_issue_queue_size m q \<and>
       prefetch_q_dev_ptrs m ! q = fetch_base dc \<and> prefetch_q_dev_fences m ! q = prefetch_q_limit dc"
    if "i \<le> q" "q < n" for q
  proof (cases "q = i")
    case True
    then show ?thesis using new cq sz by (simp add: get_issue_queue_size_def)
  next
    case False
    then have "Suc i \<le> q \<and> q < n" using that by simp
    then show ?thesis using IH unfolding sizes by blast
  qed
  then show ?case using IH old unfolding sizes by blast
qed

lemma cq_interface_values:
  assumes new: "cq_interface_new h channel q sz start = Inr cq" and h: "hal_ok h k l" and start: "start = 4 * 2 ^ k" "start + 16384 \<le> sz" "sz < 2 ^ 32"
    and fit: "2 ^ 30 * (channel mod 4) + channel div 4 * 2 ^ 28 + (q + 1) * sz \<le> 2 ^ 32"
  obtains off C where "off = 2 ^ 30 * (channel mod 4) + channel div 4 * 2 ^ 28 + q * sz" "cq_start cq = start" "cq_offset cq = off"
    "16 dvd off + start" "16 dvd sz - start - C" "sz - start < 4 * C + 16384" "C \<le> sz - start"
    "issue_fifo_size cq = (sz - start - C) div 16" "issue_fifo_limit cq = (off + start + (sz - start - C)) div 16"
    "issue_fifo_wr_ptr cq = (off + start) div 16" "completion_fifo_size cq = C div 16" "4096 dvd C"
    "completion_fifo_limit cq = issue_fifo_limit cq + C div 16" "completion_fifo_rd_ptr cq = issue_fifo_limit cq"
    "completion_fifo_rd_toggle cq = False" "off + sz \<le> 2 ^ 32"
proof -
  have hk: "host_alignment h = 2 ^ k" "k \<le> 12" "(16 :: nat) dvd 2 ^ k"
    using h le_imp_power_dvd [of 4 k "2 :: nat"] by (auto simp: hal_ok_def)
  define off where "off = 2 ^ 30 * (channel mod 4) + channel div 4 * 2 ^ 28 + q * sz"
  have fit': "off + sz \<le> 2 ^ 32" using fit by (simp add: off_def algebra_simps)
  define C where "C = (sz - start) div 4096 div 4 * 4096"
  have avail: "sub32 sz start = sz - start" using start by (intro sub32_small) auto
  have C4: "4 * C = (sz - start) div 16384 * 16384" unfolding C_def by (simp flip: div_mult2_eq)
  have "(sz - start) div 16384 * 16384 + (sz - start) mod 16384 = sz - start" by (rule div_mult_mod_eq)
  moreover have "(sz - start) mod 16384 < 16384" by simp
  ultimately have Cb: "4 * C \<le> sz - start" "sz - start < 4 * C + 16384" using C4 by linarith+
  then have C: "C \<le> sz - start" "0 < C" using start(2) by linarith+
  have m1: "mul32 ((sz - start) div TRANSFER_PAGE_SIZE div 4) TRANSFER_PAGE_SIZE = C"
    using C(1) start(3) by (simp add: TRANSFER_PAGE_SIZE_def mul32_def C_def)
  have m2: "sub32 (sz - start) C = sz - start - C" using C(1) start(3) by (intro sub32_small) auto
  have and3: "channel AND 3 = channel mod 4"
    using take_bit_eq_mask [of 2 channel] by (simp add: take_bit_eq_mod mask_eq_exp_minus_1)
  have "get_absolute_cq_offset channel q sz = off"
    using fit' start(2) unfolding off_def get_absolute_cq_offset_def get_relative_cq_offset_def get_umd_channel_def
      MAX_HUGEPAGE_SIZE_def MAX_DEV_CHANNEL_SIZE_def
    by (simp add: and3 mul32_small add32_small drop_bit_eq_div)
  moreover have "add32 (add32 start (sz - start - C)) off = off + start + (sz - start - C)"
    using fit' start(2) C by (simp add: add32_small)
  moreover have "add32 start off = off + start" using fit' start(2) by (simp add: add32_small)
  moreover have dvd: "C mod 2 ^ k = 0" "(sz - start - C) mod 2 ^ k = 0"
    using new hk(1) unfolding cq_interface_new_def Let_def avail m1 m2 by (auto split: if_splits)
  moreover have "add32 ((off + start + (sz - start - C)) div 16) (C div 16) = (off + start + (sz - start - C)) div 16 + C div 16"
    using fit' start(2) C by (intro add32_small) linarith
  ultimately have cq: "cq = \<lparr>cq_start = start, command_completion_region_size = C, command_issue_region_size = sz - start - C,
      cq_id = q, issue_fifo_size = (sz - start - C) div 16, issue_fifo_limit = (off + start + (sz - start - C)) div 16,
      cq_offset = off, issue_fifo_wr_ptr = (off + start) div 16, issue_fifo_wr_toggle = False,
      completion_fifo_size = C div 16, completion_fifo_limit = (off + start + (sz - start - C)) div 16 + C div 16,
      completion_fifo_rd_ptr = (off + start + (sz - start - C)) div 16, completion_fifo_rd_toggle = False\<rparr>"
    using new hk(1) unfolding cq_interface_new_def Let_def avail m1 m2
    by (auto simp: shr32_def drop_bit_eq_div split: if_splits)
  have "2 ^ k dvd sz - start - C + C" using dvd by (intro dvd_add) auto
  then have "2 ^ k dvd sz - start" by (simp only: le_add_diff_inverse2 [OF C(1)])
  then have "2 ^ k dvd sz - start + start" unfolding start(1) by (intro dvd_add) auto
  then have sz: "2 ^ k dvd sz" using start(2) by simp
  have p: "(2 :: nat) ^ k dvd 2 ^ 30" "(2 :: nat) ^ k dvd 2 ^ 28" by (rule le_imp_power_dvd, use hk(2) in simp)+
  have "2 ^ k dvd off + start" unfolding off_def start(1) using sz p by (intro dvd_add dvd_mult dvd_mult2) auto
  then have d: "16 dvd off + start" "16 dvd sz - start - C" using hk(3) dvd by (auto intro: dvd_trans)
  have "4096 dvd C" unfolding C_def by simp
  then show ?thesis using that [of off C] cq d Cb C fit' off_def by simp
qed

lemma manager_interfaces:
  assumes m: "sysmem_manager_new h dc channel n ov hsize gal addrs = Inr m" and q: "q < n"
  shows "length (cq_interfaces m) = n" "length (prefetch_q_dev_ptrs m) = n" "length (prefetch_q_dev_fences m) = n"
    "\<not> bypass_enable m"
    "cq_interface_new h channel q (cq_size m) (get_host_command_queue_addr h HOST_UNRESERVED) = Inr (cq_interfaces m ! q)"
    "mul32 (max_prefetch_command_size dc) (add32 (prefetch_q_entries dc) 2) \<le> get_issue_queue_size m q"
    "prefetch_q_dev_ptrs m ! q = fetch_base dc" "prefetch_q_dev_fences m ! q = prefetch_q_limit dc"
proof -
  define m0 where "m0 = \<lparr>num_hw_cqs = n, completion_byte_addrs = addrs, cq_interfaces = [],
    cq_size = (case ov of Some s \<Rightarrow> s
       | None \<Rightarrow> if gal then hsize div n div DEVICES_PER_UMD_CHANNEL else hsize div n),
    channel_offset = add32 (mul32 MAX_HUGEPAGE_SIZE (get_umd_channel channel)) (mul32 (drop_bit 2 channel) MAX_DEV_CHANNEL_SIZE),
    cq_to_event = [], cq_to_last_completed_event = [], prefetch_q_dev_ptrs = replicate n 0,
    prefetch_q_dev_fences = replicate n 0, bypass_enable = False, bypass_buffer = [], bypass_buffer_write_offset = 0\<rparr>"
  have "add_cqs h dc channel [0 ..< n] m0 = Inr m"
    using m q by (simp add: sysmem_manager_new_def Let_def m0_def split: if_splits)
  note f = add_cqs_fields [OF this]
  show "length (cq_interfaces m) = n" "length (prefetch_q_dev_ptrs m) = n" "length (prefetch_q_dev_fences m) = n"
    "\<not> bypass_enable m"
    "cq_interface_new h channel q (cq_size m) (get_host_command_queue_addr h HOST_UNRESERVED) = Inr (cq_interfaces m ! q)"
    "mul32 (max_prefetch_command_size dc) (add32 (prefetch_q_entries dc) 2) \<le> get_issue_queue_size m q"
    "prefetch_q_dev_ptrs m ! q = fetch_base dc" "prefetch_q_dev_fences m ! q = prefetch_q_limit dc"
    using f q by (auto simp: m0_def)
qed

section \<open>Host and kernel\<close>

lemma manager_queue_ok:
  assumes dc: "dispatch_constants_new h gal core n = Inr dc" and m: "sysmem_manager_new h dc channel n ov hsize gal addrs = Inr m"
    and h: "hal_ok h k l" and n: "0 < n" "n \<le> 2" "q < n"
    and sz: "4 * 2 ^ k + 16384 \<le> cq_size m" "cq_size m < 2 ^ 32"
    and fit: "2 ^ 30 * (channel mod 4) + channel div 4 * 2 ^ 28 + n * cq_size m \<le> 2 ^ 32"
  shows "queue_ok h dc q k m" "prefetch_q_dev_ptrs m ! q = fetch_base dc" "prefetch_q_dev_fences m ! q = prefetch_q_limit dc"
    "issue_wr q m = issue_lo q m"
proof -
  obtain b where dcv: "device_cq_addrs dc = place_device_cq_addrs h b" "128 \<le> prefetch_q_entries dc" "prefetch_q_entries dc \<le> 1534"
    "prefetch_q_size dc = 2 * prefetch_q_entries dc" "max_prefetch_command_size dc = 131072 \<or> max_prefetch_command_size dc = 32768"
    "b = (if core = WORKER then tensix_unreserved h else idle_eth_unreserved h)"
    using dispatch_constants_values [OF dc h n(1,2)] by metis
  have b: "b < 2 ^ 24" and hk: "host_alignment h = 2 ^ k" "4 \<le> k" "k \<le> 12" "l \<le> 12" using h dcv(6) by (auto simp: hal_ok_def)
  obtain u where "fetch_base dc = u" "u < b + 37 * 2 ^ l + 4096"
    using addrs_steps [OF h b] dcv(1) by (auto simp: get_device_command_queue_addr_def)
  then have fb: "fetch_base dc < 2 ^ 25" using b pow2_le_4096 [OF hk(4)] by simp
  note f' = manager_interfaces(1-4) [OF m n(3)] refl [of "cq_size m"] manager_interfaces(5,6) [OF m n(3)]
  show p: "prefetch_q_dev_ptrs m ! q = fetch_base dc" "prefetch_q_dev_fences m ! q = prefetch_q_limit dc"
    by (rule manager_interfaces [OF m n(3)])+
  let ?M = "max_prefetch_command_size dc" and ?E = "prefetch_q_entries dc"
  have "(2 :: nat) ^ k \<le> 4096" by (rule pow2_le_4096 [OF hk(3)])
  then have start: "get_host_command_queue_addr h HOST_UNRESERVED = 4 * 2 ^ k"
    by (simp add: get_host_command_queue_addr_def hk(1) mul32_small)
  have "(q + 1) * cq_size m \<le> n * cq_size m" using n(3) by (intro mult_right_mono) auto
  then have fit': "2 ^ 30 * (channel mod 4) + channel div 4 * 2 ^ 28 + (q + 1) * cq_size m \<le> 2 ^ 32" using fit by linarith
  obtain off C where v: "cq_start (cq_interfaces m ! q) = 4 * 2 ^ k" "cq_offset (cq_interfaces m ! q) = off"
    "16 dvd off + 4 * 2 ^ k" "16 dvd cq_size m - 4 * 2 ^ k - C" "cq_size m - 4 * 2 ^ k < 4 * C + 16384" "C \<le> cq_size m - 4 * 2 ^ k"
    "issue_fifo_size (cq_interfaces m ! q) = (cq_size m - 4 * 2 ^ k - C) div 16"
    "issue_fifo_limit (cq_interfaces m ! q) = (off + 4 * 2 ^ k + (cq_size m - 4 * 2 ^ k - C)) div 16"
    "issue_fifo_wr_ptr (cq_interfaces m ! q) = (off + 4 * 2 ^ k) div 16" "off + cq_size m \<le> 2 ^ 32"
    using cq_interface_values [OF f'(6) [unfolded start] h refl sz fit'] by metis
  define I where "I = cq_size m - 4 * 2 ^ k - C"
  have lo: "issue_lo q m = off + 4 * 2 ^ k"
    unfolding issue_lo_def v(1,2) using v(10) sz(1) by (simp add: add32_small add.commute)
  have hi: "issue_hi q m = off + 4 * 2 ^ k + I" unfolding issue_hi_def v(8) I_def using v(3,4) by (simp add: dvd_add)
  have "I < 2 ^ 32" using sz(2) unfolding I_def by linarith
  then have gi: "get_issue_queue_size m q = I"
    unfolding get_issue_queue_size_def v(7) I_def [symmetric] using v(4) by (simp add: shl32_def push_bit_eq_mult I_def)
  have me: "?M * (?E + 2) \<le> 131072 * 1536" using dcv(3,5) by (intro mult_mono) auto
  have "add32 ?E 2 = ?E + 2" using dcv(3) by (intro add32_small) simp
  then have room: "?M * (?E + 2) \<le> I" using f'(7) gi me by (simp add: mul32_small)
  have "?M * 130 \<le> ?M * (?E + 2)" using dcv(2) by (intro mult_left_mono) auto
  then have "130 * ?M \<le> I" using room by linarith
  then have "?M < C" using v(5) dcv(5) unfolding I_def by linarith
  moreover have "off + 4 * 2 ^ k + I + C = off + cq_size m" using v(6) sz(1) unfolding I_def by simp
  ultimately have top: "issue_hi q m + ?M < 2 ^ 32" using v(10) hi by linarith
  show "issue_wr q m = issue_lo q m" unfolding issue_wr_def v(9) lo using v(3) by simp
  have "fetch_base dc + 2 * ?E < 2 ^ 32" using fb dcv(3) by simp
  then show "queue_ok h dc q k m"
    unfolding queue_ok_def using f' n(3) hk v(3) lo hi gi top room dcv by (simp add: mult.commute) auto
qed

lemma initial_inv:
  assumes ok: "queue_ok h dc q k m" and p: "prefetch_q_dev_ptrs m ! q = fetch_base dc"
    "prefetch_q_dev_fences m ! q = prefetch_q_limit dc" "issue_wr q m = issue_lo q m"
  shows "cq_inv h dc q k (system_new dc q m)"
proof -
  note a = args_ok_of [OF ok] and o = queue_okD [OF ok]
  have "dev_ring (issue_lo q m) (fetch_base dc) (prefetch_q_entries dc) [] (prefetcher_new (prefetch_args_of dc q m))"
    using a by (auto simp: dev_ring_def prefetcher_new_def args_ok_def slot_def published_def prefetch_q_end_def)
  moreover have "host_ring (fetch_base dc) (prefetch_q_entries dc) 0 0 (fetch_base dc) (prefetch_q_limit dc) H_idle"
    using limit_eq [OF ok] by (simp add: host_ring_def ring_view_def published_def slot_def)
  ultimately show ?thesis
    using ok p o(3) by (simp add: cq_inv_def Let_def system_new_def sizes_ok_def host_place_def prefetcher_new_def)
qed

lemma reachable_inv:
  assumes "cq_reachable h dc q pre m s" "cq_inv h dc q k (system_new dc q m)"
  shows "cq_inv h dc q k s"
  using assms by induction (auto intro: cq_step_inv)

text \<open>A device to evaluate the theorems on: one command queue in a huge page of a gigabyte.\<close>

definition demo_hal :: hal_values where
  "demo_hal = \<lparr>host_alignment = 64, l1_alignment = 16, tensix_unreserved = 102400, idle_eth_unreserved = 65536,
     mem_l1_size = 1499136, mem_eth_size = 262144\<rparr>"

lemma demo_hal_ok: "hal_ok demo_hal 6 4"
  by (simp add: hal_ok_def demo_hal_def)

lemma demo_aligned: "align_u32 102992 64 = 103040" "align_u32 103040 4096 = 106496"
  using align_u32_ceil [of 102992 6] align_u32_ceil [of 103040 12] by (simp_all add: ceil_to_def)

lemma demo_addrs: "place_device_cq_addrs demo_hal 102400 =
    [102400, 102404, 102416, 102432, 102448, 102464, 102480, 102736, 103040]"
  using addrs_steps [OF demo_hal_ok, of 102400] demo_aligned(1) by auto

definition demo_dc :: dispatch_constants where
  "demo_dc = \<lparr>prefetch_q_entries = 1534, prefetch_q_size = 3068, max_prefetch_command_size = 131072, cmddat_q_base = 106112,
     cmddat_q_size = 262144, scratch_db_base = 368256, scratch_db_size = 131072, dispatch_buffer_base = 106496,
     dispatch_buffer_block_size_pages = 32, dispatch_buffer_pages = 128, prefetch_d_buffer_size = 262144,
     prefetch_d_buffer_pages = 64, dispatch_s_buffer_size = 32768,
     device_cq_addrs = [102400, 102404, 102416, 102432, 102448, 102464, 102480, 102736, 103040]\<rparr>"

lemma demo_dispatch_constants: "dispatch_constants_new demo_hal False WORKER 1 = Inr demo_dc"
proof -
  have h: "host_alignment demo_hal = 64" "l1_alignment demo_hal = 16" "tensix_unreserved demo_hal = 102400"
    "mem_l1_size demo_hal = 1499136" by (simp_all add: demo_hal_def)
  have pow: "(524288 :: nat) AND 524287 = 0" by simp
  show ?thesis
    unfolding dispatch_constants_new_def Let_def h
    by (simp add: demo_dc_def DISPATCH_MESSAGE_ENTRIES_def DISPATCH_MESSAGES_MAX_OFFSET_def sizeof_prefetch_q_entry_def
        DISPATCH_BUFFER_LOG_PAGE_SIZE_def DISPATCH_BUFFER_SIZE_BLOCKS_def PREFETCH_D_BUFFER_LOG_PAGE_SIZE_def
        demo_addrs demo_aligned add32_def sub32_def mul32_def pow)
qed

lemma demo_sysmem:
  obtains m where "sysmem_manager_new demo_hal demo_dc 0 1 None (2 ^ 30) False [0] = Inr m" "cq_size m = 2 ^ 30"
proof -
  have h: "host_alignment demo_hal = 64" by (simp add: demo_hal_def)
  have "get_absolute_cq_offset 0 0 (2 ^ 30) = 0"
    by (simp add: get_absolute_cq_offset_def get_relative_cq_offset_def get_umd_channel_def mul32_def add32_def)
  then have "\<exists>cq. cq_interface_new demo_hal 0 0 (2 ^ 30) 256 = Inr cq \<and> issue_fifo_size cq = 50331888"
    by (simp add: cq_interface_new_def Let_def h TRANSFER_PAGE_SIZE_def sub32_def mul32_def add32_def shr32_def drop_bit_eq_div)
  have start: "get_host_command_queue_addr demo_hal HOST_UNRESERVED = 256"
    by (simp add: get_host_command_queue_addr_def h mul32_def)
  from \<open>\<exists>cq. _\<close> obtain cq where cq: "cq_interface_new demo_hal 0 0 (2 ^ 30) 256 = Inr cq" "issue_fifo_size cq = 50331888"
    by blast
  have dc: "max_prefetch_command_size demo_dc = 131072" "prefetch_q_entries demo_dc = 1534" by (simp_all add: demo_dc_def)
  have "\<exists>m. sysmem_manager_new demo_hal demo_dc 0 1 None (2 ^ 30) False [0] = Inr m \<and> cq_size m = 2 ^ 30"
    using cq start by (simp add: sysmem_manager_new_def Let_def get_issue_queue_size_def shl32_def push_bit_eq_mult dc
        mul32_def add32_def)
  then show ?thesis using that by blast
qed

text \<open>A state of it in which the host writes a command of 64 bytes, and the one after.\<close>

lemma demo_states:
  obtains m s s' where "sysmem_manager_new demo_hal demo_dc 0 1 None (2 ^ 30) False [0] = Inr m" "cq_size m = 2 ^ 30"
    "cq_reachable demo_hal demo_dc 0 0 m s" "sys_phase s = H_write 64 False" "sys_sent s = []"
    "cq_reachable demo_hal demo_dc 0 0 m s'" "\<exists>c. sys_phase s' = H_wait c False" "sys_sent s' = []" "pf_reads (sys_dev s') = []"
proof -
  obtain m where m: "sysmem_manager_new demo_hal demo_dc 0 1 None (2 ^ 30) False [0] = Inr m" "cq_size m = 2 ^ 30"
    by (rule demo_sysmem)
  let ?s = "system_new demo_dc 0 m"
  obtain ptr m1 where r: "issue_queue_reserve demo_hal 64 0 (sys_host ?s) = (ptr, m1)" by fastforce
  obtain ws m2 where p: "issue_queue_push_back demo_hal 64 0 m1 = (ws, m2)" by fastforce
  let ?s1 = "?s\<lparr>sys_host := m1, sys_phase := H_write 64 False\<rparr>"
  let ?s2 = "?s1\<lparr>sys_host := m2, sys_phase := H_wait (get_issue_queue_write_ptr (sys_host ?s1) 0, 64) False\<rparr>"
  have "cq_step demo_hal demo_dc 0 0 ?s ?s1"
    by (rule cq_step.reserve [OF _ _ _ _ r]) (simp_all add: system_new_def demo_dc_def demo_hal_def)
  then have s1: "cq_reachable demo_hal demo_dc 0 0 m ?s1" by (rule cq_reachable.step [OF cq_reachable.initial])
  have "cq_step demo_hal demo_dc 0 0 ?s1 ?s2" by (rule cq_step.push [where ws = ws]) (simp_all add: p)
  then have s2: "cq_reachable demo_hal demo_dc 0 0 m ?s2" by (rule cq_reachable.step [OF s1])
  show ?thesis by (rule that [OF m s1 _ _ s2]) (simp_all add: system_new_def prefetcher_new_def)
qed

text \<open>
  C4: The host and the prefetch kernel never get in each other's way, in any interleaving of
  their steps: the kernel reads exactly the commands that the host has written, whole and in
  order; and while the host writes a command into the issue queue, the space it writes to lies
  in the queue and is apart from every command the kernel has not read, the one whose read may
  be in flight included.
\<close>

theorem issue_queue_safe:
  assumes "dispatch_constants_new h gal core n = Inr dc" "sysmem_manager_new h dc channel n ov hsize gal addrs = Inr m"
    "hal_ok h k l" "0 < n" "n \<le> 2" "q < n" "4 * 2 ^ k + 16384 \<le> cq_size m" "cq_size m < 2 ^ 32"
    "2 ^ 30 * (channel mod 4) + channel div 4 * 2 ^ 28 + n * cq_size m \<le> 2 ^ 32" "cq_reachable h dc q pre m s"
  shows "pf_reads (sys_dev s) = take (length (pf_reads (sys_dev s))) (sys_sent s) \<and>
    (\<forall>c st. sys_phase s = H_write c st \<longrightarrow>
       issue_lo q (sys_host s) \<le> get_issue_queue_write_ptr (sys_host s) q \<and>
       get_issue_queue_write_ptr (sys_host s) q + c \<le> issue_hi q (sys_host s) \<and>
       (\<forall>i < length (sys_sent s). length (pf_reads (sys_dev s)) \<le> Suc i \<longrightarrow>
          apart (sys_sent s ! i) (get_issue_queue_write_ptr (sys_host s) q, c)))"
proof (intro conjI allI impI)
  have inv: "cq_inv h dc q k s"
    using reachable_inv [OF assms(10) initial_inv] manager_queue_ok [OF assms(1-9)] by blast
  show "pf_reads (sys_dev s) = take (length (pf_reads (sys_dev s))) (sys_sent s)"
    using cq_invD(4) [OF inv] by (simp add: dev_ring_def Let_def)
  fix c st
  assume ph: "sys_phase s = H_write c st"
  note d = cq_invD [OF inv, unfolded ph, simplified]
  note ok = queue_okD [OF d(1)]
  let ?lo = "issue_lo q (sys_host s)" and ?hi = "issue_hi q (sys_host s)" and ?e = "last_end (issue_lo q (sys_host s)) (sys_sent s)"
  have c: "0 < c" "c \<le> max_prefetch_command_size dc" and wr: "issue_wr q (sys_host s) = next_pos ?lo ?hi ?e c"
    using d(6) by (auto simp: host_place_def)
  have e: "?lo \<le> ?e" "?e \<le> ?hi" using chain_places [OF d(2,3) ok(8), of 1] ok(3) by auto
  have place: "?lo \<le> issue_wr q (sys_host s)" "issue_wr q (sys_host s) + c \<le> ?hi"
    using wr e c(2) ok(8) by (auto simp: next_pos_def)
  have ptr: "get_issue_queue_write_ptr (sys_host s) q = issue_wr q (sys_host s)" using issue_ptrs(1) [OF d(1)] place(2) by simp
  show "?lo \<le> get_issue_queue_write_ptr (sys_host s) q" "get_issue_queue_write_ptr (sys_host s) q + c \<le> ?hi"
    using place ptr by simp_all
  fix i
  assume i: "i < length (sys_sent s)" "length (pf_reads (sys_dev s)) \<le> Suc i"
  obtain r' where r': "r' \<le> length (pf_reads (sys_dev s))"
    "ring_view (fetch_base dc) (prefetch_q_entries dc) (length (sys_sent s)) r' (prefetch_q_dev_ptrs (sys_host s) ! q)
      (prefetch_q_dev_fences (sys_host s) ! q) (sys_phase s)" by (rule ring_of_inv [OF inv])
  have near: "length (sys_sent s) - i \<le> prefetch_q_entries dc" using r' i(2) by (auto simp: ring_view_def)
  have room: "?lo + (prefetch_q_entries dc + 2) * max_prefetch_command_size dc \<le> ?hi" using d(1) by (simp add: queue_ok_def)
  show "apart (sys_sent s ! i) (get_issue_queue_write_ptr (sys_host s) q, c)"
    using chain_apart [OF d(2,3) room i(1) near c] unfolding ptr wr .
qed

theorem issue_queue_safe_witness:
  "\<exists>m s. cq_reachable demo_hal demo_dc 0 0 m s \<and> sys_phase s = H_write 64 False \<and>
     issue_lo 0 (sys_host s) \<le> get_issue_queue_write_ptr (sys_host s) 0 \<and>
     get_issue_queue_write_ptr (sys_host s) 0 + 64 \<le> issue_hi 0 (sys_host s)"
proof -
  obtain m s where s: "sysmem_manager_new demo_hal demo_dc 0 1 None (2 ^ 30) False [0] = Inr m" "cq_size m = 2 ^ 30"
    "cq_reachable demo_hal demo_dc 0 0 m s" "sys_phase s = H_write 64 False" by (rule demo_states)
  show ?thesis
    using issue_queue_safe [OF demo_dispatch_constants s(1) demo_hal_ok _ _ _ _ _ _ s(3)] s by (intro exI [of _ m] exI [of _ s]) auto
qed

text \<open>
  C25: The host never waits for ever: when it waits for space in the fetch queue and the kernel
  has read every entry, looking at the read pointer of the kernel once more ends the wait.
\<close>

theorem fetch_queue_progress:
  assumes "dispatch_constants_new h gal core n = Inr dc" "sysmem_manager_new h dc channel n ov hsize gal addrs = Inr m"
    "hal_ok h k l" "0 < n" "n \<le> 2" "q < n" "4 * 2 ^ k + 16384 \<le> cq_size m" "cq_size m < 2 ^ 32"
    "2 ^ 30 * (channel mod 4) + channel div 4 * 2 ^ 28 + n * cq_size m \<le> 2 ^ 32" "cq_reachable h dc q pre m s"
    "sys_phase s = H_wait c st \<or> sys_phase s = H_wait_again c st" "length (pf_reads (sys_dev s)) = length (sys_sent s)"
  shows "\<not> fetch_q_full q (set_fence q (pf_rd_ptr_published (sys_dev s)) (sys_host s))"
proof -
  have inv: "cq_inv h dc q k s"
    using reachable_inv [OF assms(10) initial_inv] manager_queue_ok [OF assms(1-9)] by blast
  note ok = cq_invD(1) [OF inv]
  let ?w = "length (sys_sent s)" and ?qb = "fetch_base dc" and ?E = "prefetch_q_entries dc"
  have E: "2 \<le> ?E" and q: "q < length (prefetch_q_dev_fences (sys_host s))" using ok by (auto simp: queue_ok_def)
  obtain r' where r': "r' \<le> length (pf_reads (sys_dev s))"
    "ring_view ?qb ?E ?w r' (prefetch_q_dev_ptrs (sys_host s) ! q)
      (prefetch_q_dev_fences (sys_host s) ! q) (sys_phase s)" by (rule ring_of_inv [OF inv])
  have ptr: "prefetch_q_dev_ptrs (sys_host s) ! q =
      (if ?w mod ?E = 0 \<and> 0 < ?w \<and> sys_phase s = H_wait c st then ?qb + 2 * ?E else slot ?qb ?E ?w)"
    using r'(2) assms(11) by (auto simp: ring_view_def)
  have pub: "pf_rd_ptr_published (sys_dev s) = published ?qb ?E ?w"
    using cq_invD(4) [OF inv] assms(12) by (simp add: dev_ring_def Let_def)
  have end_: "slot ?qb ?E i \<noteq> ?qb + 2 * ?E" for i using slot_bounds [of ?E ?qb i] E by linarith
  have "prefetch_q_dev_ptrs (sys_host s) ! q \<noteq> published ?qb ?E ?w"
  proof (cases "?w = 0")
    case True
    then have "prefetch_q_dev_ptrs (sys_host s) ! q = slot ?qb ?E 0" using ptr by simp
    then show ?thesis using True end_ [of 0] by (simp only: published_def if_True simp_thms)
  next
    case False
    then have "slot ?qb ?E (?w - 1) \<noteq> slot ?qb ?E ?w" using E by (intro slot_neq) linarith+
    then show ?thesis using ptr end_ [of "?w - 1"] False by (auto simp: published_def)
  qed
  then show ?thesis using q pub by (simp add: fetch_q_full_def set_fence_def)
qed

theorem fetch_queue_progress_witness:
  "\<exists>m s. cq_reachable demo_hal demo_dc 0 0 m s \<and> (\<exists>c. sys_phase s = H_wait c False) \<and>
     \<not> fetch_q_full 0 (set_fence 0 (pf_rd_ptr_published (sys_dev s)) (sys_host s))"
proof -
  obtain m s c where s: "sysmem_manager_new demo_hal demo_dc 0 1 None (2 ^ 30) False [0] = Inr m" "cq_size m = 2 ^ 30"
    "cq_reachable demo_hal demo_dc 0 0 m s" "sys_phase s = H_wait c False" "sys_sent s = []" "pf_reads (sys_dev s) = []"
    by (rule demo_states) blast
  have "\<not> fetch_q_full 0 (set_fence 0 (pf_rd_ptr_published (sys_dev s)) (sys_host s))"
    by (rule fetch_queue_progress [OF demo_dispatch_constants s(1) demo_hal_ok _ _ _ _ _ _ s(3) disjI1 [OF s(4)]])
      (simp_all add: s)
  then show ?thesis using s by blast
qed

text \<open>
  The constructor of the dispatch constants lays the areas of the dispatch core out one
  after the other: the words of the queues at increasing addresses, the fetch queue, the queue
  of fetched commands, and the scratch buffer, all below the end of the memory of the core; and
  there is room for two of the largest commands in the queue of fetched commands.
\<close>

theorem dispatch_layout:
  assumes "dispatch_constants_new h gal core n = Inr dc" "hal_ok h k l" "0 < n" "n \<le> 2"
  shows "sorted_wrt (<) (device_cq_addrs dc) \<and> length (device_cq_addrs dc) = 9 \<and>
    (\<forall>i < 8. device_cq_addrs dc ! i + device_cq_addr_size h (device_addr_types ! i) \<le> device_cq_addrs dc ! Suc i) \<and>
    fetch_base dc + prefetch_q_size dc \<le> cmddat_q_base dc \<and> cmddat_q_base dc + cmddat_q_size dc \<le> scratch_db_base dc \<and>
    scratch_db_base dc + scratch_db_size dc < (if core = WORKER then mem_l1_size h else mem_eth_size h) \<and>
    2 * max_prefetch_command_size dc \<le> cmddat_q_size dc"
proof -
  obtain b where v: "b = (if core = WORKER then tensix_unreserved h else idle_eth_unreserved h)"
    "device_cq_addrs dc = place_device_cq_addrs h b" "prefetch_q_size dc = 2 * prefetch_q_entries dc"
    "max_prefetch_command_size dc = 131072 \<and> cmddat_q_size dc = 262144 \<and> scratch_db_size dc = 131072 \<or>
     max_prefetch_command_size dc = 32768 \<and> cmddat_q_size dc = 65536 \<and> scratch_db_size dc = 19456"
    "cmddat_q_base dc = fetch_base dc + ceil_to (2 * prefetch_q_entries dc) (2 ^ k)"
    "scratch_db_base dc = cmddat_q_base dc + cmddat_q_size dc"
    "scratch_db_base dc + scratch_db_size dc < (if core = WORKER then mem_l1_size h else mem_eth_size h)"
    using dispatch_constants_values [OF assms] by metis
  have b: "b < 2 ^ 24" and l: "l1_alignment h = 2 ^ l" "3 \<le> l" "l \<le> 12" using assms(2) v(1) by (auto simp: hal_ok_def)
  have L: "8 \<le> (2 :: nat) ^ l" "(2 :: nat) ^ l \<le> 4096" using power_increasing [OF l(2), of "2 :: nat"] pow2_le_4096 [OF l(3)] by simp_all
  obtain u where u: "device_cq_addrs dc =
      [b, b + 4, b + 2 ^ l, b + 2 * 2 ^ l, b + 3 * 2 ^ l, b + 4 * 2 ^ l, b + 5 * 2 ^ l, b + 21 * 2 ^ l, u]" "b + 37 * 2 ^ l \<le> u"
    using addrs_steps [OF assms(2) b] v(2) by auto
  have sz: "sub32 (2 ^ l) 4 = 2 ^ l - 4" "mul32 16 (2 ^ l) = 16 * 2 ^ l"
    using L by (auto intro!: sub32_small mul32_small)
  have "device_cq_addrs dc ! i + device_cq_addr_size h (device_addr_types ! i) \<le> device_cq_addrs dc ! Suc i" if "i < 8" for i
  proof -
    have "i = 0 \<or> i = 1 \<or> i = 2 \<or> i = 3 \<or> i = 4 \<or> i = 5 \<or> i = 6 \<or> i = 7" using that by linarith
    then show ?thesis
      unfolding u(1) using u(2) L
      by (elim disjE) (simp_all add: device_addr_types_def device_cq_addr_size_def l sz DISPATCH_MESSAGE_ENTRIES_def)
  qed
  moreover have "sorted_wrt (<) (device_cq_addrs dc)" "length (device_cq_addrs dc) = 9" unfolding u(1) using u(2) L by simp_all
  moreover have "2 * prefetch_q_entries dc \<le> ceil_to (2 * prefetch_q_entries dc) (2 ^ k)" by (rule ceil_to_props) simp
  ultimately show ?thesis using v by auto
qed

theorem dispatch_layout_witness:
  "fetch_base demo_dc + prefetch_q_size demo_dc \<le> cmddat_q_base demo_dc"
  using dispatch_layout [OF demo_dispatch_constants demo_hal_ok] by simp

end
