(* ===== verification/Completion_Queue.thy ===== *)
theory Completion_Queue
  imports Command_Queue_Interface
begin

text \<open>
  The completion queue, in which the dispatch kernel returns data to the host: the writer in
  src/tt_metal/impl/dispatch/kernels/cq_dispatch.cpp, the reader of the host in
  src/tt_metal/impl/dispatch/command_queue.cpp over the operations of
  \<open>Command_Queue_Interface\<close>, and both run together.

  The queue is a ring of pages of 4096 bytes; pointers count units of 16 bytes and carry a
  toggle that flips at each turn, in bit 31 of the word each side publishes.
\<close>

section \<open>The writer\<close>

record completion_args =
  ca_base_addr :: u32
  ca_size :: u32

definition completion_queue_page_size_16B :: u32 where
  "completion_queue_page_size_16B = shr32 4096 4"

definition completion_queue_end_addr_16B :: "completion_args \<Rightarrow> u32" where
  "completion_queue_end_addr_16B a = shr32 (add32 (ca_base_addr a) (ca_size a)) 4"

record completion_writer =
  completion_fifo_wr_ptr :: u32
  completion_fifo_wr_toggle :: u32

text \<open>The two parts of a published word, and the word of a pointer and its toggle.\<close>

definition word_ptr :: "u32 \<Rightarrow> u32" where "word_ptr w = w AND 0x7fffffff"
definition word_toggle :: "u32 \<Rightarrow> u32" where "word_toggle w = shr32 w 31"

definition available_space :: "completion_args \<Rightarrow> u32 \<Rightarrow> completion_writer \<Rightarrow> u32" where
  "available_space a rd_ptr_and_toggle cw =
     (let rd = word_ptr rd_ptr_and_toggle; rd_toggle = word_toggle rd_ptr_and_toggle
      in if rd_toggle \<noteq> completion_fifo_wr_toggle cw then sub32 rd (completion_fifo_wr_ptr cw)
         else sub32 (shr32 (ca_size a) 4) (sub32 (completion_fifo_wr_ptr cw) rd))"

text \<open>The loop ends at the first of the words read that leaves enough space.\<close>

fun completion_queue_reserve_back :: "completion_args \<Rightarrow> u32 \<Rightarrow> u32 list \<Rightarrow> completion_writer \<Rightarrow> u32 list option" where
  "completion_queue_reserve_back a num_pages [] cw = None"
| "completion_queue_reserve_back a num_pages (w # ws) cw =
     (if mul32 num_pages completion_queue_page_size_16B > available_space a w cw
      then completion_queue_reserve_back a num_pages ws cw else Some ws)"

definition notify_host_of_completion_queue_write_pointer :: "completion_writer \<Rightarrow> u32" where
  "notify_host_of_completion_queue_write_pointer cw =
     completion_fifo_wr_ptr cw OR shl32 (completion_fifo_wr_toggle cw) 31"

definition completion_queue_push_back :: "completion_args \<Rightarrow> u32 \<Rightarrow> completion_writer \<Rightarrow> completion_writer" where
  "completion_queue_push_back a num_pages cw =
     (let wr = add32 (completion_fifo_wr_ptr cw) (mul32 num_pages completion_queue_page_size_16B)
      in if wr \<ge> completion_queue_end_addr_16B a
         then \<lparr>completion_fifo_wr_ptr = add32 (sub32 wr (completion_queue_end_addr_16B a)) (shr32 (ca_base_addr a) 4),
               completion_fifo_wr_toggle = of_bool (completion_fifo_wr_toggle cw = 0)\<rparr>
         else cw\<lparr>completion_fifo_wr_ptr := wr\<rparr>)"

definition completion_writer_new :: "u32 \<Rightarrow> completion_writer" where
  "completion_writer_new w = \<lparr>completion_fifo_wr_ptr = word_ptr w, completion_fifo_wr_toggle = word_toggle w\<rparr>"

section \<open>The reader\<close>

definition bytes_avail_in_completion_queue :: "nat \<Rightarrow> u32 \<Rightarrow> sysmem_manager \<Rightarrow> u32" where
  "bytes_avail_in_completion_queue q wr_ptr_and_toggle m =
     (let wr = shl32 (word_ptr wr_ptr_and_toggle) 4;
          wr_toggle = word_toggle wr_ptr_and_toggle;
          rd = get_completion_queue_read_ptr m q;
          rd_toggle = get_completion_queue_read_toggle m q
      in if wr > rd \<and> wr_toggle = rd_toggle then sub32 wr rd else sub32 (get_completion_queue_limit m q) rd)"

section \<open>Writer and reader together\<close>

text \<open>
  The writer reserves pages, writes them and publishes its pointer; the reader waits until the
  pointer has moved, takes some of the pages that are available in one piece, and publishes
  its own. \<open>cs_pages\<close> is the content of the pages of the ring, \<open>cs_wr_word\<close> and \<open>cs_rd_word\<close> are
  the published words. What the writer sends at once is in its dispatch buffer, of at most 128
  pages. \<open>cs_written\<close> and \<open>cs_popped\<close> record the pages written and taken.
\<close>

datatype 'a writer_phase = CW_idle | CW_write "'a list" | CW_push "'a list"
datatype reader_phase = CR_idle | CR_ready u32

record 'a completion_system =
  cs_host :: sysmem_manager
  cs_reader :: reader_phase
  cs_dev :: completion_writer
  cs_writer :: "'a writer_phase"
  cs_wr_word :: u32
  cs_rd_word :: u32
  cs_pages :: "nat \<Rightarrow> 'a"
  cs_written :: "'a list"
  cs_popped :: "'a list"

definition completion_args_of :: "nat \<Rightarrow> sysmem_manager \<Rightarrow> completion_args" where
  "completion_args_of q m =
     (let cq = cq_interfaces m ! q
      in \<lparr>ca_base_addr = add32 (add32 (cq_offset cq) (cq_start cq)) (get_issue_queue_size m q),
          ca_size = get_completion_queue_size m q\<rparr>)"

text \<open>
  Page numbers of the ring. The kernel writes its data in one piece, or in two when it would
  pass the end of the queue; a piece fills the pages from its address on.
\<close>

definition page_of :: "u32 \<Rightarrow> u32 \<Rightarrow> nat" where
  "page_of base p = (p - base) div 4096"

definition completion_chunks :: "completion_args \<Rightarrow> u32 \<Rightarrow> completion_writer \<Rightarrow> (u32 \<times> u32) list" where
  "completion_chunks a xfer_size cw =
     (let addr = shl32 (completion_fifo_wr_ptr cw) 4; end_addr = add32 (ca_base_addr a) (ca_size a)
      in if add32 addr xfer_size > end_addr
         then let last_chunk_size = sub32 end_addr addr
              in [(addr, last_chunk_size), (ca_base_addr a, sub32 xfer_size last_chunk_size)]
         else [(addr, xfer_size)])"

definition put_pages :: "nat \<Rightarrow> 'a list \<Rightarrow> (nat \<Rightarrow> 'a) \<Rightarrow> nat \<Rightarrow> 'a" where
  "put_pages first data pages = (\<lambda>j. if first \<le> j \<and> j < first + length data then data ! (j - first) else pages j)"

fun store_chunks :: "u32 \<Rightarrow> (u32 \<times> u32) list \<Rightarrow> 'a list \<Rightarrow> (nat \<Rightarrow> 'a) \<Rightarrow> nat \<Rightarrow> 'a" where
  "store_chunks base [] data pages = pages"
| "store_chunks base ((addr, len) # cs) data pages =
     store_chunks base cs (drop (len div 4096) data) (put_pages (page_of base addr) (take (len div 4096) data) pages)"

definition completion_system_new :: "nat \<Rightarrow> sysmem_manager \<Rightarrow> (nat \<Rightarrow> 'a) \<Rightarrow> 'a completion_system" where
  "completion_system_new q m pages =
     (let start = shr32 (ca_base_addr (completion_args_of q m)) 4
      in \<lparr>cs_host = m, cs_reader = CR_idle, cs_dev = completion_writer_new start, cs_writer = CW_idle,
          cs_wr_word = start, cs_rd_word = start, cs_pages = pages, cs_written = [], cs_popped = []\<rparr>)"

fun published_rd :: "device_write list \<Rightarrow> u32 \<Rightarrow> u32" where
  "published_rd (Completion_rd_write addr w # ws) old = w"
| "published_rd _ old = old"

inductive completion_step :: "hal_values \<Rightarrow> nat \<Rightarrow> 'a completion_system \<Rightarrow> 'a completion_system \<Rightarrow> bool"
  for h :: hal_values and q :: nat where
  reserve_pages: "cs_writer s = CW_idle \<Longrightarrow> data \<noteq> [] \<Longrightarrow> length data \<le> 128 \<Longrightarrow>
    completion_queue_reserve_back (completion_args_of q (cs_host s)) (length data) [cs_rd_word s] (cs_dev s) = Some [] \<Longrightarrow>
    completion_step h q s (s\<lparr>cs_writer := CW_write data\<rparr>)"
| write_pages: "cs_writer s = CW_write data \<Longrightarrow>
    completion_step h q s
      (s\<lparr>cs_pages := store_chunks (ca_base_addr (completion_args_of q (cs_host s)))
           (completion_chunks (completion_args_of q (cs_host s)) (4096 * length data) (cs_dev s)) data (cs_pages s),
         cs_writer := CW_push data\<rparr>)"
| push_pages: "cs_writer s = CW_push data \<Longrightarrow>
    cw = completion_queue_push_back (completion_args_of q (cs_host s)) (length data) (cs_dev s) \<Longrightarrow>
    completion_step h q s
      (s\<lparr>cs_dev := cw, cs_wr_word := notify_host_of_completion_queue_write_pointer cw, cs_writer := CW_idle,
         cs_written := cs_written s @ data\<rparr>)"
| wait_front: "cs_reader s = CR_idle \<Longrightarrow>
    completion_queue_wait_front q (cs_host s) [(cs_wr_word s, False)] = Some w \<Longrightarrow>
    completion_step h q s (s\<lparr>cs_reader := CR_ready w\<rparr>)"
| pop_pages: "cs_reader s = CR_ready w \<Longrightarrow> 0 < n \<Longrightarrow> n * 4096 \<le> bytes_avail_in_completion_queue q w (cs_host s) \<Longrightarrow>
    completion_queue_pop_front h n q (cs_host s) = (ws, m) \<Longrightarrow>
    completion_step h q s
      (s\<lparr>cs_host := m, cs_reader := CR_idle, cs_rd_word := published_rd ws (cs_rd_word s),
         cs_popped := cs_popped s @
           map (\<lambda>i. cs_pages s (page_of (get_issue_queue_limit (cs_host s) q) (get_completion_queue_read_ptr (cs_host s) q) + i))
             [0 ..< n]\<rparr>)"

inductive completion_reachable ::
    "hal_values \<Rightarrow> nat \<Rightarrow> sysmem_manager \<Rightarrow> 'a completion_system \<Rightarrow> bool"
  for h :: hal_values and q :: nat and m :: sysmem_manager where
  initial: "completion_reachable h q m (completion_system_new q m pages)"
| step: "completion_reachable h q m s \<Longrightarrow> completion_step h q s s' \<Longrightarrow> completion_reachable h q m s'"

end
