(* ===== verification/Completion_Queue_Theorems.thy ===== *)
theory Completion_Queue_Theorems
  imports Completion_Queue Issue_Queue_Theorems
begin

text \<open>
  The completion queue delivers what the kernel wrote. Pages are counted from the start: the
  pointer of page \<open>i\<close> is at \<open>i mod S\<close> pages from the start of the ring of \<open>S\<close> pages, and its toggle
  is the parity of \<open>i div S\<close>.
\<close>

section \<open>Positions in the ring\<close>

definition ring_ptr :: "nat \<Rightarrow> nat \<Rightarrow> nat \<Rightarrow> nat" where
  "ring_ptr B S i = B + 256 * (i mod S)"

definition ring_toggle :: "nat \<Rightarrow> nat \<Rightarrow> bool" where
  "ring_toggle S i \<longleftrightarrow> odd (i div S)"

definition ring_word :: "nat \<Rightarrow> nat \<Rightarrow> nat \<Rightarrow> nat" where
  "ring_word B S i = ring_ptr B S i + 2 ^ 31 * of_bool (ring_toggle S i)"

text \<open>Two positions at most a turn apart are in the same turn or in neighbouring ones.\<close>

lemma turn_cases:
  fixes r w S :: nat
  assumes "0 < S" "r \<le> w" "w \<le> r + S"
  obtains "w div S = r div S" "w mod S = r mod S + (w - r)"
    | "w div S = Suc (r div S)" "w mod S + S = r mod S + (w - r)"
proof -
  have r: "r div S * S + r mod S = r" "r mod S < S" and w: "w div S * S + w mod S = w" "w mod S < S" using assms(1) by simp_all
  have "w div S < r div S + 2"
  proof (rule ccontr)
    assume "\<not> ?thesis"
    then have "(r div S + 2) * S \<le> w div S * S" by (intro mult_right_mono) simp_all
    then have "r div S * S + 2 * S \<le> w div S * S" by (simp add: algebra_simps)
    then show False using r w assms(3) by linarith
  qed
  moreover have "r div S \<le> w div S" by (rule div_le_mono [OF assms(2)])
  ultimately consider "w div S = r div S" | "w div S = Suc (r div S)" by linarith
  then show ?thesis
  proof cases
    case 1
    moreover have "w mod S = r mod S + (w - r)" using r w assms(2) 1 by (metis Nat.add_diff_assoc add.commute diff_add_inverse diff_diff_left le_add2)
    ultimately show ?thesis by (rule that(1))
  next
    case 2
    moreover have "w mod S + S = r mod S + (w - r)" using r w assms(2) mult_Suc [of "r div S" S, folded 2] by linarith
    ultimately show ?thesis by (rule that(2))
  qed
qed

lemma word_split:
  assumes "p < 2 ^ 31"
  shows "word_ptr (p + 2 ^ 31 * of_bool t) = p" "word_toggle (p + 2 ^ 31 * of_bool t) = of_bool t"
proof -
  have "word_ptr x = x mod 2 ^ 31" for x :: nat
    using take_bit_eq_mask [of 31 x] by (simp add: word_ptr_def take_bit_eq_mod mask_eq_exp_minus_1)
  then show "word_ptr (p + 2 ^ 31 * of_bool t) = p" using assms by (cases t) simp_all
  show "word_toggle (p + 2 ^ 31 * of_bool t) = of_bool t"
    using assms by (cases t) (simp_all add: word_toggle_def shr32_def drop_bit_eq_div)
qed

lemma word_join:
  assumes "p < 2 ^ 31"
  shows "p OR shl32 (of_bool t) 31 = p + 2 ^ 31 * of_bool t"
proof (cases t)
  case True
  have "push_bit 31 1 OR p = 2 ^ 31 + p" using push_or_add [OF assms, of 1] by simp
  moreover have "shl32 1 31 = push_bit 31 1" by (simp add: shl32_def push_bit_eq_mult)
  ultimately show ?thesis using True by (metis add.commute mult.right_neutral of_bool_eq(2) or.commute)
qed (simp add: shl32_def)

definition ring_ok :: "nat \<Rightarrow> nat \<Rightarrow> nat \<Rightarrow> sysmem_manager \<Rightarrow> bool" where
  "ring_ok q B S m \<longleftrightarrow> q < length (cq_interfaces m) \<and> 0 < S \<and> B + 256 * S + 2 ^ 15 \<le> 2 ^ 28 \<and>
     issue_fifo_limit (cq_interfaces m ! q) = B \<and> completion_fifo_limit (cq_interfaces m ! q) = B + 256 * S \<and>
     completion_args_of q m = \<lparr>ca_base_addr = 16 * B, ca_size = 4096 * S\<rparr>"

lemma ring_ptr_bound: "0 < S \<Longrightarrow> ring_ptr B S i + 256 \<le> B + 256 * S"
  using mod_less_divisor [of S i] unfolding ring_ptr_def by linarith

lemma ring_word_split:
  assumes "0 < S" "B + 256 * S + 2 ^ 15 \<le> 2 ^ 28"
  shows "word_ptr (ring_word B S i) = ring_ptr B S i" "word_toggle (ring_word B S i) = of_bool (ring_toggle S i)"
  using word_split [of "ring_ptr B S i" "ring_toggle S i"] ring_ptr_bound [OF assms(1), of B i] assms(2)
  by (simp_all add: ring_word_def)

lemma available_space_ring:
  assumes "0 < S" "B + 256 * S + 2 ^ 15 \<le> 2 ^ 28" "r \<le> w" "w \<le> r + S"
  shows "available_space \<lparr>ca_base_addr = 16 * B, ca_size = 4096 * S\<rparr> (ring_word B S r)
    \<lparr>completion_fifo_wr_ptr = ring_ptr B S w, completion_fifo_wr_toggle = of_bool (ring_toggle S w)\<rparr> = 256 * (r + S - w)"
proof -
  note parts = ring_word_split [OF assms(1,2), of r]
  have bounds: "ring_ptr B S r < 2 ^ 28" "ring_ptr B S w < 2 ^ 28"
    using ring_ptr_bound [OF assms(1), of B r] ring_ptr_bound [OF assms(1), of B w] assms(2) by linarith+
  have total: "shr32 (4096 * S) 4 = 256 * S" by (simp add: shr32_def drop_bit_eq_div)
  from assms(1,3,4) show ?thesis
  proof (cases rule: turn_cases)
    case 1
    have "sub32 (ring_ptr B S w) (ring_ptr B S r) = 256 * (w - r)"
      using bounds by (subst sub32_small) (auto simp: ring_ptr_def 1(2))
    moreover have "sub32 (256 * S) (256 * (w - r)) = 256 * (r + S - w)"
      using assms by (subst sub32_small) auto
    ultimately show ?thesis using 1(1) by (simp add: available_space_def Let_def parts total ring_toggle_def)
  next
    case 2
    have "sub32 (ring_ptr B S r) (ring_ptr B S w) = 256 * (r + S - w)"
      using bounds 2(2) assms(3,4) by (subst sub32_small) (auto simp: ring_ptr_def)
    then show ?thesis using 2(1) by (simp add: available_space_def Let_def parts ring_toggle_def)
  qed
qed

lemma push_ring:
  assumes "0 < S" "B + 256 * S + 2 ^ 15 \<le> 2 ^ 28" "n \<le> S"
  shows "completion_queue_push_back \<lparr>ca_base_addr = 16 * B, ca_size = 4096 * S\<rparr> n
      \<lparr>completion_fifo_wr_ptr = ring_ptr B S w, completion_fifo_wr_toggle = of_bool (ring_toggle S w)\<rparr> =
    \<lparr>completion_fifo_wr_ptr = ring_ptr B S (w + n), completion_fifo_wr_toggle = of_bool (ring_toggle S (w + n))\<rparr>"
proof -
  have bound: "ring_ptr B S w + 256 \<le> B + 256 * S" by (rule ring_ptr_bound [OF assms(1)])
  have e: "completion_queue_end_addr_16B \<lparr>ca_base_addr = 16 * B, ca_size = 4096 * S\<rparr> = B + 256 * S"
    using assms(2) by (simp add: completion_queue_end_addr_16B_def add32_small shr32_def drop_bit_eq_div)
  have m: "mul32 n completion_queue_page_size_16B = 256 * n"
    using assms by (simp add: completion_queue_page_size_16B_def shr32_def drop_bit_eq_div mul32_small)
  have a: "add32 (ring_ptr B S w) (256 * n) = ring_ptr B S w + 256 * n" using bound assms by (intro add32_small) simp
  have b: "shr32 (16 * B) 4 = B" by (simp add: shr32_def drop_bit_eq_div)
  have le: "w \<le> w + n" "w + n \<le> w + S" using assms(3) by simp_all
  from assms(1) le show ?thesis
  proof (cases rule: turn_cases)
    case 1
    have "(w + n) mod S < S" using assms(1) by simp
    then have lt: "ring_ptr B S w + 256 * n < B + 256 * S" using 1(2) by (simp add: ring_ptr_def)
    show ?thesis using 1 lt by (simp add: completion_queue_push_back_def Let_def m a e ring_toggle_def) (simp add: ring_ptr_def 1(2))
  next
    case 2
    then have ge: "B + 256 * S \<le> ring_ptr B S w + 256 * n" by (simp add: ring_ptr_def)
    have "sub32 (ring_ptr B S w + 256 * n) (B + 256 * S) = 256 * ((w + n) mod S)"
      using ge bound assms 2(2) by (subst sub32_small) (auto simp: ring_ptr_def)
    moreover have "add32 (256 * ((w + n) mod S)) B = ring_ptr B S (w + n)"
      using ring_ptr_bound [OF assms(1), of B "w + n"] assms(2) by (subst add32_small) (auto simp: ring_ptr_def)
    ultimately show ?thesis using 2(1) ge by (simp add: completion_queue_push_back_def Let_def m a e b ring_toggle_def)
  qed
qed

lemma notify_ring:
  assumes "0 < S" "B + 256 * S + 2 ^ 15 \<le> 2 ^ 28"
  shows "notify_host_of_completion_queue_write_pointer
     \<lparr>completion_fifo_wr_ptr = ring_ptr B S w, completion_fifo_wr_toggle = of_bool (ring_toggle S w)\<rparr> = ring_word B S w"
  using word_join [of "ring_ptr B S w" "ring_toggle S w"] ring_ptr_bound [OF assms(1), of B w] assms(2)
  by (simp add: notify_host_of_completion_queue_write_pointer_def ring_word_def)

section \<open>The content of the ring\<close>

lemma store_ring:
  fixes data :: "'a list"
  assumes "0 < S" "B + 256 * S + 2 ^ 15 \<le> 2 ^ 28" "length data \<le> S" "length data \<le> 128" "j < S"
  shows "store_chunks (16 * B) (completion_chunks \<lparr>ca_base_addr = 16 * B, ca_size = 4096 * S\<rparr> (4096 * length data)
      \<lparr>completion_fifo_wr_ptr = ring_ptr B S w, completion_fifo_wr_toggle = t\<rparr>) data pages j =
    (if w mod S \<le> j \<and> j < w mod S + length data then data ! (j - w mod S)
     else if j + S < w mod S + length data then data ! (j + S - w mod S) else pages j)"
proof -
  let ?a = "w mod S" and ?n = "length data"
  have a: "?a < S" using assms(1) by simp
  have bound: "ring_ptr B S w + 256 \<le> B + 256 * S" by (rule ring_ptr_bound [OF assms(1)])
  have addr: "shl32 (ring_ptr B S w) 4 = 16 * B + 4096 * ?a"
    using bound assms(2) by (simp add: shl32_def push_bit_eq_mult ring_ptr_def)
  have e: "add32 (16 * B) (4096 * S) = 16 * B + 4096 * S" using assms(2) by (intro add32_small) simp
  have x: "add32 (16 * B + 4096 * ?a) (4096 * ?n) = 16 * B + 4096 * ?a + 4096 * ?n"
    using a assms(2,4) by (intro add32_small) simp
  show ?thesis
  proof (cases "?a + ?n \<le> S")
    case True
    then have "completion_chunks \<lparr>ca_base_addr = 16 * B, ca_size = 4096 * S\<rparr> (4096 * ?n)
        \<lparr>completion_fifo_wr_ptr = ring_ptr B S w, completion_fifo_wr_toggle = t\<rparr> = [(16 * B + 4096 * ?a, 4096 * ?n)]"
      using assms(2) x by (simp add: completion_chunks_def Let_def addr e)
    then show ?thesis using True assms(5) by (auto simp: page_of_def put_pages_def)
  next
    case False
    have l: "sub32 (16 * B + 4096 * S) (16 * B + 4096 * ?a) = 4096 * (S - ?a)"
      using a assms(2) by (subst sub32_small) auto
    have r: "sub32 (4096 * ?n) (4096 * (S - ?a)) = 4096 * (?a + ?n - S)"
      using False a assms(4) by (subst sub32_small) auto
    have "completion_chunks \<lparr>ca_base_addr = 16 * B, ca_size = 4096 * S\<rparr> (4096 * ?n)
        \<lparr>completion_fifo_wr_ptr = ring_ptr B S w, completion_fifo_wr_toggle = t\<rparr> =
       [(16 * B + 4096 * ?a, 4096 * (S - ?a)), (16 * B, 4096 * (?a + ?n - S))]"
      using False x by (simp add: completion_chunks_def Let_def addr e l r)
    then show ?thesis using False a assms(3,5)
      by (auto simp: page_of_def put_pages_def add.commute)
  qed
qed

section \<open>The reader\<close>

lemma ring_word_eq:
  assumes "0 < S" "B + 256 * S + 2 ^ 15 \<le> 2 ^ 28" "r \<le> w" "w \<le> r + S"
  shows "ring_ptr B S r = ring_ptr B S w \<and> ring_toggle S r = ring_toggle S w \<longleftrightarrow> r = w"
  using assms(1,3,4) by (cases rule: turn_cases) (use assms(3) in \<open>auto simp: ring_ptr_def ring_toggle_def\<close>)

lemma wait_front_ring:
  assumes ok: "ring_ok q B S m" and rd: "completion_fifo_rd_ptr (cq_interfaces m ! q) = ring_ptr B S r"
    "completion_fifo_rd_toggle (cq_interfaces m ! q) = ring_toggle S r" and w: "r \<le> w" "w \<le> r + S"
  shows "completion_queue_wait_front q m [(ring_word B S w, False)] = (if r = w then None else Some (ring_word B S w))"
proof -
  have S: "0 < S" "B + 256 * S + 2 ^ 15 \<le> 2 ^ 28" using ok by (auto simp: ring_ok_def)
  show ?thesis
    using ring_word_eq [OF S w] ring_word_split [OF S, of w]
    by (auto simp: rd get_completion_queue_read_toggle_def word_ptr_def word_toggle_def)
qed

lemma bytes_avail_ring:
  assumes ok: "ring_ok q B S m" and rd: "completion_fifo_rd_ptr (cq_interfaces m ! q) = ring_ptr B S r"
    "completion_fifo_rd_toggle (cq_interfaces m ! q) = ring_toggle S r" and w: "r < w" "w \<le> r + S"
  shows "bytes_avail_in_completion_queue q (ring_word B S w) m = 4096 * min (w - r) (S - r mod S)"
proof -
  have S: "0 < S" "B + 256 * S + 2 ^ 15 \<le> 2 ^ 28" using ok by (auto simp: ring_ok_def)
  note parts = ring_word_split [OF S, of w]
  have shift: "shl32 p 4 = 16 * p" if "p \<le> B + 256 * S" for p using that S by (simp add: shl32_def push_bit_eq_mult)
  have bounds: "ring_ptr B S r \<le> B + 256 * S" "ring_ptr B S w \<le> B + 256 * S"
    using ring_ptr_bound [OF S(1), of B r] ring_ptr_bound [OF S(1), of B w] by linarith+
  have rp: "get_completion_queue_read_ptr m q = 16 * ring_ptr B S r"
    unfolding get_completion_queue_read_ptr_def rd using bounds by (simp add: shift)
  have lim: "get_completion_queue_limit m q = 16 * (B + 256 * S)"
    using ok by (simp add: get_completion_queue_limit_def ring_ok_def shift)
  have tail: "sub32 (16 * (B + 256 * S)) (16 * ring_ptr B S r) = 4096 * (S - r mod S)"
    using bounds S by (subst sub32_small) (auto simp: ring_ptr_def)
  have le: "r \<le> w" using w(1) by simp
  have r: "r mod S < S" using S(1) by simp
  from S(1) le w(2) show ?thesis
  proof (cases rule: turn_cases)
    case 1
    have "sub32 (16 * ring_ptr B S w) (16 * ring_ptr B S r) = 4096 * (w - r)"
      using bounds S by (subst sub32_small) (auto simp: ring_ptr_def 1(2))
    moreover have "ring_ptr B S r < ring_ptr B S w" using 1(2) w(1) by (simp add: ring_ptr_def)
    moreover have "min (w - r) (S - r mod S) = w - r"
      using 1(2) mod_less_divisor [OF S(1), of w] by linarith
    ultimately show ?thesis
      using 1(1) bounds by (simp add: bytes_avail_in_completion_queue_def Let_def parts shift rp ring_toggle_def
          get_completion_queue_read_toggle_def rd(2))
  next
    case 2
    then have "min (w - r) (S - r mod S) = S - r mod S" by linarith
    then show ?thesis
      using 2(1) bounds tail by (simp add: bytes_avail_in_completion_queue_def Let_def parts shift rp ring_toggle_def
          get_completion_queue_read_toggle_def rd(2) lim)
  qed
qed

lemma pop_ring:
  assumes ok: "ring_ok q B S m" and rd: "completion_fifo_rd_ptr (cq_interfaces m ! q) = ring_ptr B S r"
    "completion_fifo_rd_toggle (cq_interfaces m ! q) = ring_toggle S r" and n: "0 < n" "n \<le> S - r mod S"
    and pop: "completion_queue_pop_front h n q m = (ws, m')"
  shows "ring_ok q B S m'" "completion_fifo_rd_ptr (cq_interfaces m' ! q) = ring_ptr B S (r + n)"
    "completion_fifo_rd_toggle (cq_interfaces m' ! q) = ring_toggle S (r + n)" "published_rd ws old = ring_word B S (r + n)"
proof -
  have S: "q < length (cq_interfaces m)" "0 < S" "B + 256 * S + 2 ^ 15 \<le> 2 ^ 28" using ok by (auto simp: ring_ok_def)
  have m': "m' = update_cq q (pop_completion n) m" and ws: "ws = send_completion_queue_read_ptr h q m'"
    using pop by (auto simp: completion_queue_pop_front_def Let_def)
  have cq: "cq_interfaces m' ! q = pop_completion n (cq_interfaces m ! q)" unfolding m' by (rule update_cq_nth [OF S(1)])
  show "ring_ok q B S m'"
    using ok unfolding ring_ok_def completion_args_of_def Let_def get_issue_queue_size_def get_completion_queue_size_def cq
    by (simp add: m' update_cq_def pop_completion_def Let_def)
  have "mul32 n TRANSFER_PAGE_SIZE = 4096 * n" using n S by (simp add: TRANSFER_PAGE_SIZE_def mul32_small)
  then have sh: "shr32 (mul32 n TRANSFER_PAGE_SIZE) 4 = 256 * n" by (simp add: shr32_def drop_bit_eq_div)
  have r: "r mod S + n \<le> S" using n(2) mod_less_divisor [OF S(2), of r] by linarith
  have a: "add32 (ring_ptr B S r) (256 * n) = B + 256 * (r mod S + n)"
    using r S by (subst add32_small) (auto simp: ring_ptr_def)
  have le: "r \<le> r + n" "r + n \<le> r + S" using n by auto
  have new: "completion_fifo_rd_ptr (cq_interfaces m' ! q) = ring_ptr B S (r + n) \<and>
    completion_fifo_rd_toggle (cq_interfaces m' ! q) = ring_toggle S (r + n)"
    using S(2) le
  proof (cases rule: turn_cases)
    case 1
    have "(r + n) mod S < S" using S(2) by simp
    then have "\<not> B + 256 * (r mod S + n) \<ge> B + 256 * S" using 1(2) by simp
    then show ?thesis
      using ok 1 by (simp add: cq pop_completion_def Let_def sh rd a ring_ok_def ring_toggle_def) (simp add: ring_ptr_def)
  next
    case 2
    then have "(r + n) mod S = 0" "r mod S + n = S" using r by linarith+
    then show ?thesis
      using ok 2(1) by (simp add: cq pop_completion_def Let_def sh rd a ring_ok_def ring_toggle_def) (simp add: ring_ptr_def)
  qed
  then show "completion_fifo_rd_ptr (cq_interfaces m' ! q) = ring_ptr B S (r + n)"
    "completion_fifo_rd_toggle (cq_interfaces m' ! q) = ring_toggle S (r + n)" by simp_all
  show "published_rd ws old = ring_word B S (r + n)"
    using new word_join [of "ring_ptr B S (r + n)" "ring_toggle S (r + n)"] ring_ptr_bound [OF S(2), of B "r + n"] S(3)
    by (simp add: ws send_completion_queue_read_ptr_def Let_def ring_word_def)
qed

section \<open>The invariant\<close>

definition writer_ok :: "nat \<Rightarrow> nat \<Rightarrow> nat \<Rightarrow> (nat \<Rightarrow> 'a) \<Rightarrow> 'a writer_phase \<Rightarrow> bool" where
  "writer_ok S r w pages ph = (case ph of CW_idle \<Rightarrow> True
     | CW_write data \<Rightarrow> w + length data \<le> r + S \<and> length data \<le> 128
     | CW_push data \<Rightarrow> w + length data \<le> r + S \<and> (\<forall>i < length data. pages ((w + i) mod S) = data ! i))"

definition reader_ok :: "nat \<Rightarrow> nat \<Rightarrow> nat \<Rightarrow> nat \<Rightarrow> reader_phase \<Rightarrow> bool" where
  "reader_ok B S r w ph = (case ph of CR_idle \<Rightarrow> True | CR_ready v \<Rightarrow> \<exists>w' > r. w' \<le> w \<and> v = ring_word B S w')"

definition completion_inv :: "nat \<Rightarrow> nat \<Rightarrow> nat \<Rightarrow> 'a completion_system \<Rightarrow> bool" where
  "completion_inv q B S s \<longleftrightarrow>
     (let r = length (cs_popped s); w = length (cs_written s); cq = cq_interfaces (cs_host s) ! q
      in ring_ok q B S (cs_host s) \<and> r \<le> w \<and> w \<le> r + S \<and>
         completion_fifo_rd_ptr cq = ring_ptr B S r \<and> completion_fifo_rd_toggle cq = ring_toggle S r \<and>
         cs_dev s = \<lparr>completion_fifo_wr_ptr = ring_ptr B S w, completion_fifo_wr_toggle = of_bool (ring_toggle S w)\<rparr> \<and>
         cs_rd_word s = ring_word B S r \<and> cs_wr_word s = ring_word B S w \<and> cs_popped s = take r (cs_written s) \<and>
         (\<forall>i. r \<le> i \<and> i < w \<longrightarrow> cs_pages s (i mod S) = cs_written s ! i) \<and>
         writer_ok S r w (cs_pages s) (cs_writer s) \<and> reader_ok B S r w (cs_reader s))"

lemma completion_invD:
  assumes "completion_inv q B S s"
  shows "ring_ok q B S (cs_host s)" "length (cs_popped s) \<le> length (cs_written s)" "length (cs_written s) \<le> length (cs_popped s) + S"
    "completion_fifo_rd_ptr (cq_interfaces (cs_host s) ! q) = ring_ptr B S (length (cs_popped s))"
    "completion_fifo_rd_toggle (cq_interfaces (cs_host s) ! q) = ring_toggle S (length (cs_popped s))"
    "cs_dev s = \<lparr>completion_fifo_wr_ptr = ring_ptr B S (length (cs_written s)),
       completion_fifo_wr_toggle = of_bool (ring_toggle S (length (cs_written s)))\<rparr>"
    "cs_rd_word s = ring_word B S (length (cs_popped s))" "cs_wr_word s = ring_word B S (length (cs_written s))"
    "cs_popped s = take (length (cs_popped s)) (cs_written s)"
    "\<And>i. length (cs_popped s) \<le> i \<Longrightarrow> i < length (cs_written s) \<Longrightarrow> cs_pages s (i mod S) = cs_written s ! i"
    "writer_ok S (length (cs_popped s)) (length (cs_written s)) (cs_pages s) (cs_writer s)"
    "reader_ok B S (length (cs_popped s)) (length (cs_written s)) (cs_reader s)"
  using assms by (simp_all add: completion_inv_def Let_def)

text \<open>What the write leaves: the new pages, and the old ones that have not been taken.\<close>

lemma store_new:
  assumes "0 < S" "B + 256 * S + 2 ^ 15 \<le> 2 ^ 28" "length data \<le> S" "length data \<le> 128" "i < length data"
  shows "store_chunks (16 * B) (completion_chunks \<lparr>ca_base_addr = 16 * B, ca_size = 4096 * S\<rparr> (4096 * length data)
      \<lparr>completion_fifo_wr_ptr = ring_ptr B S w, completion_fifo_wr_toggle = t\<rparr>) data pages ((w + i) mod S) = data ! i"
proof -
  have le: "w \<le> w + i" "w + i \<le> w + S" using assms(3,5) by simp_all
  have j: "(w + i) mod S < S" using assms(1) by simp
  from assms(1) le show ?thesis
    unfolding store_ring [OF assms(1-4) j]
  proof (cases rule: turn_cases)
    case 2
    then have "(w + i) mod S + S - w mod S = i" "\<not> w mod S \<le> (w + i) mod S" using assms(3,5) by linarith+
    then show "(if w mod S \<le> (w + i) mod S \<and> (w + i) mod S < w mod S + length data then data ! ((w + i) mod S - w mod S)
       else if (w + i) mod S + S < w mod S + length data then data ! ((w + i) mod S + S - w mod S) else pages ((w + i) mod S)) = data ! i"
      using 2 assms(5) by simp
  qed (use assms(5) in simp)
qed

lemma store_old:
  assumes "0 < S" "B + 256 * S + 2 ^ 15 \<le> 2 ^ 28" "length data \<le> 128" "r \<le> i" "i < w" "w + length data \<le> r + S"
  shows "store_chunks (16 * B) (completion_chunks \<lparr>ca_base_addr = 16 * B, ca_size = 4096 * S\<rparr> (4096 * length data)
      \<lparr>completion_fifo_wr_ptr = ring_ptr B S w, completion_fifo_wr_toggle = t\<rparr>) data pages (i mod S) = pages (i mod S)"
proof -
  have le: "i \<le> w" "w \<le> i + S" and n: "length data \<le> S" using assms(4-6) by simp_all
  have j: "i mod S < S" using assms(1) by simp
  from assms(1) le show ?thesis
    by (cases rule: turn_cases) (use assms(4-6) j in \<open>auto simp: store_ring [OF assms(1,2) n assms(3) j]\<close>)
qed

lemma completion_step_inv:
  assumes inv: "completion_inv q B S s" and step: "completion_step h q s s'"
  shows "completion_inv q B S s'"
proof -
  note d = completion_invD [OF inv]
  let ?r = "length (cs_popped s)" and ?w = "length (cs_written s)"
  have S: "0 < S" "B + 256 * S + 2 ^ 15 \<le> 2 ^ 28" and a: "completion_args_of q (cs_host s) = \<lparr>ca_base_addr = 16 * B, ca_size = 4096 * S\<rparr>"
    using d(1) by (auto simp: ring_ok_def)
  from step show ?thesis
  proof cases
    case (reserve_pages data)
    have "mul32 (length data) completion_queue_page_size_16B = 256 * length data"
      using reserve_pages(4) by (simp add: completion_queue_page_size_16B_def shr32_def drop_bit_eq_div mul32_small)
    then have "256 * length data \<le> 256 * (?r + S - ?w)"
      using reserve_pages(5) available_space_ring [OF S d(2,3)] by (simp add: a d(6,7) split: if_splits)
    then have "?w + length data \<le> ?r + S" using d(3) by linarith
    then show ?thesis using inv reserve_pages(1,4) by (simp add: completion_inv_def Let_def writer_ok_def)
  next
    case (write_pages data)
    have n: "?w + length data \<le> ?r + S" "length data \<le> 128" using d(11) write_pages(2) by (simp_all add: writer_ok_def)
    have nS: "length data \<le> S" using n(1) d(2) by linarith
    show ?thesis
      using inv n(1) unfolding write_pages(1)
      by (simp add: completion_inv_def Let_def writer_ok_def a d(6) store_new [OF S nS n(2)] store_old [OF S n(2) _ _ n(1)])
  next
    case (push_pages data cw)
    have n: "?w + length data \<le> ?r + S" "\<forall>i < length data. cs_pages s ((?w + i) mod S) = data ! i"
      using d(11) push_pages(2) by (simp_all add: writer_ok_def)
    have nS: "length data \<le> S" using n(1) d(2) by linarith
    have cw: "cw = \<lparr>completion_fifo_wr_ptr = ring_ptr B S (?w + length data),
        completion_fifo_wr_toggle = of_bool (ring_toggle S (?w + length data))\<rparr>"
      unfolding push_pages(3) a d(6) by (rule push_ring [OF S nS])
    have "cs_pages s (i mod S) = (cs_written s @ data) ! i" if "?r \<le> i" "i < ?w + length data" for i
    proof (cases "i < ?w")
      case False
      then have "cs_pages s ((?w + (i - ?w)) mod S) = data ! (i - ?w)" using n(2) [rule_format, of "i - ?w"] that(2) False by linarith
      then show ?thesis using False by (simp add: nth_append)
    qed (use d(10) that(1) in \<open>simp add: nth_append\<close>)
    then show ?thesis
      using inv n(1) d(2) unfolding push_pages(1) cw
      by (auto simp: completion_inv_def Let_def writer_ok_def reader_ok_def notify_ring [OF S] split: reader_phase.splits)
  next
    case (wait_front v)
    have "?r \<noteq> ?w \<and> v = ring_word B S ?w"
      using wait_front(3) wait_front_ring [OF d(1,4,5,2,3)] by (simp add: d(8) split: if_splits)
    then have "reader_ok B S ?r ?w (CR_ready v)" using d(2) by (auto simp: reader_ok_def intro: exI [of _ ?w])
    then show ?thesis using inv unfolding wait_front(1) by (simp add: completion_inv_def Let_def)
  next
    case (pop_pages v n ws m)
    obtain w' where w': "?r < w'" "w' \<le> ?w" "v = ring_word B S w'" using d(12) pop_pages(2) by (auto simp: reader_ok_def)
    then have "w' \<le> ?r + S" using d(3) by linarith
    then have n: "n \<le> w' - ?r" "n \<le> S - ?r mod S" using pop_pages(4) bytes_avail_ring [OF d(1,4,5) w'(1)] w'(3) by simp_all
    note p = pop_ring [OF d(1,4,5) pop_pages(3) n(2) pop_pages(5)]
    have lim: "get_issue_queue_limit (cs_host s) q = 16 * B"
      using d(1) S by (simp add: ring_ok_def get_issue_queue_limit_def shl32_def push_bit_eq_mult)
    have ptr: "get_completion_queue_read_ptr (cs_host s) q = 16 * ring_ptr B S ?r"
      using ring_ptr_bound [OF S(1), of B ?r] S(2) by (simp add: get_completion_queue_read_ptr_def d(4) shl32_def push_bit_eq_mult)
    have page: "page_of (get_issue_queue_limit (cs_host s) q) (get_completion_queue_read_ptr (cs_host s) q) = ?r mod S"
      unfolding page_of_def lim ptr ring_ptr_def by simp
    have "cs_pages s (?r mod S + i) = cs_written s ! (?r + i)" if "i < n" for i
    proof -
      have "?r mod S + i < S" using that n(2) by linarith
      then have "(?r + i) mod S = ?r mod S + i" by (metis mod_add_left_eq mod_less)
      then show ?thesis using d(10) [of "?r + i"] that n(1) w'(1,2) by simp
    qed
    then have "map (\<lambda>i. cs_pages s (?r mod S + i)) [0 ..< n] = take n (drop ?r (cs_written s))"
      using n(1) w'(1,2) by (intro nth_equalityI) auto
    then have taken: "cs_popped s @ map (\<lambda>i. cs_pages s (?r mod S + i)) [0 ..< n] = take (?r + n) (cs_written s)"
      using d(9) by (simp add: take_add)
    have len: "length (take (?r + n) (cs_written s)) = ?r + n" using n(1) w'(1,2) by simp
    show ?thesis
      using d p n(1) w'(1,2) unfolding pop_pages(1) page taken
      by (auto simp: completion_inv_def Let_def len writer_ok_def reader_ok_def split: writer_phase.splits)
  qed
qed

lemma completion_reachable_inv:
  fixes s :: "'a completion_system"
  assumes "completion_reachable h q m s" and new: "\<And>pages :: nat \<Rightarrow> 'a. completion_inv q B S (completion_system_new q m pages)"
  shows "completion_inv q B S s"
  using assms(1) by induction (auto intro: completion_step_inv new)

section \<open>The constructors and the queue\<close>

lemma manager_ring_ok:
  assumes m: "sysmem_manager_new h dc channel n ov hsize gal addrs = Inr m" and h: "hal_ok h k l" and q: "q < n"
    and sz: "4 * 2 ^ k + 16384 \<le> cq_size m" "cq_size m < 2 ^ 32"
    and fit: "2 ^ 30 * (channel mod 4) + channel div 4 * 2 ^ 28 + n * cq_size m + 2 ^ 19 \<le> 2 ^ 32"
  obtains B S where "ring_ok q B S m" "completion_fifo_rd_ptr (cq_interfaces m ! q) = ring_ptr B S 0"
    "\<not> completion_fifo_rd_toggle (cq_interfaces m ! q)" "cq_size m < 4 * 2 ^ k + 16384 * (S + 1)"
proof -
  have hk: "host_alignment h = 2 ^ k" "k \<le> 12" using h by (auto simp: hal_ok_def)
  have "(2 :: nat) ^ k \<le> 4096" by (rule pow2_le_4096 [OF hk(2)])
  then have start: "get_host_command_queue_addr h HOST_UNRESERVED = 4 * 2 ^ k"
    by (simp add: get_host_command_queue_addr_def hk(1) mul32_small)
  have len: "length (cq_interfaces m) = n"
    and new: "cq_interface_new h channel q (cq_size m) (4 * 2 ^ k) = Inr (cq_interfaces m ! q)"
    using manager_interfaces [OF m q] start by simp_all
  have "(q + 1) * cq_size m \<le> n * cq_size m" using q by (intro mult_right_mono) auto
  then have fit': "2 ^ 30 * (channel mod 4) + channel div 4 * 2 ^ 28 + (q + 1) * cq_size m + 2 ^ 19 \<le> 2 ^ 32" using fit by linarith
  then have fit0: "2 ^ 30 * (channel mod 4) + channel div 4 * 2 ^ 28 + (q + 1) * cq_size m \<le> 2 ^ 32" by linarith
  let ?cq = "cq_interfaces m ! q"
  obtain off C where v: "off = 2 ^ 30 * (channel mod 4) + channel div 4 * 2 ^ 28 + q * cq_size m"
    "cq_start ?cq = 4 * 2 ^ k" "cq_offset ?cq = off" "16 dvd off + 4 * 2 ^ k" "16 dvd cq_size m - 4 * 2 ^ k - C"
    "cq_size m - 4 * 2 ^ k < 4 * C + 16384" "C \<le> cq_size m - 4 * 2 ^ k"
    "issue_fifo_size ?cq = (cq_size m - 4 * 2 ^ k - C) div 16" "issue_fifo_limit ?cq = (off + 4 * 2 ^ k + (cq_size m - 4 * 2 ^ k - C)) div 16"
    "completion_fifo_size ?cq = C div 16" "4096 dvd C" "completion_fifo_limit ?cq = issue_fifo_limit ?cq + C div 16"
    "completion_fifo_rd_ptr ?cq = issue_fifo_limit ?cq" "completion_fifo_rd_toggle ?cq = False"
    using cq_interface_values [OF new h refl sz fit0] by metis
  obtain S where S: "C = 4096 * S" using v(11) by blast
  define I where "I = cq_size m - 4 * 2 ^ k - C"
  define B where "B = (off + 4 * 2 ^ k + I) div 16"
  have B: "16 * B = off + 4 * 2 ^ k + I" unfolding B_def using v(4,5) by (simp add: I_def)
  have top: "off + 4 * 2 ^ k + I + C = off + cq_size m" using v(7) sz(1) unfolding I_def by simp
  have "off + cq_size m + 2 ^ 19 \<le> 2 ^ 32" using fit' v(1) by (simp add: algebra_simps)
  then have fits: "16 * B + 4096 * S + 2 ^ 19 \<le> 2 ^ 32" using top B S by linarith
  have I16: "I div 16 * 16 = I" using v(5) by (simp add: I_def)
  have a: "add32 off (4 * 2 ^ k) = off + 4 * 2 ^ k" "add32 (off + 4 * 2 ^ k) I = off + 4 * 2 ^ k + I"
    using fits B by (auto intro!: add32_small)
  have sh: "shl32 (I div 16) 4 = I" "shl32 (C div 16) 4 = C"
    using fits B I16 S by (simp_all add: shl32_def push_bit_eq_mult)
  have "completion_args_of q m = \<lparr>ca_base_addr = 16 * B, ca_size = 4096 * S\<rparr>"
    unfolding completion_args_of_def Let_def get_issue_queue_size_def get_completion_queue_size_def v(2,3,8,10)
      I_def [symmetric] sh a B by (simp add: S)
  moreover have "0 < S" using v(6) sz(1) S by (cases S) auto
  ultimately have "ring_ok q B S m"
    using fits len q v(9,12) S by (simp add: ring_ok_def B_def I_def)
  moreover have "cq_size m < 4 * 2 ^ k + 16384 * (S + 1)" using v(6) S by simp
  ultimately show ?thesis using that [of B S] v(9,13,14) by (simp add: ring_ptr_def B_def I_def)
qed

lemma completion_initial_inv:
  assumes ok: "ring_ok q B S m" and rd: "completion_fifo_rd_ptr (cq_interfaces m ! q) = ring_ptr B S 0"
    "\<not> completion_fifo_rd_toggle (cq_interfaces m ! q)"
  shows "completion_inv q B S (completion_system_new q m pages)"
proof -
  have S: "0 < S" "B + 256 * S + 2 ^ 15 \<le> 2 ^ 28" and a: "ca_base_addr (completion_args_of q m) = 16 * B"
    using ok by (auto simp: ring_ok_def)
  have w: "ring_word B S 0 = B" "\<not> ring_toggle S 0" "ring_ptr B S 0 = B" by (simp_all add: ring_word_def ring_toggle_def ring_ptr_def)
  have "shr32 (16 * B) 4 = B" by (simp add: shr32_def drop_bit_eq_div)
  then show ?thesis
    using ok rd ring_word_split [OF S, of 0]
    by (simp add: completion_inv_def completion_system_new_def Let_def completion_writer_new_def a w writer_ok_def reader_ok_def)
qed

lemma can_reserve:
  assumes inv: "completion_inv q B S s" and n: "n \<le> 128" "length (cs_written s) + n \<le> length (cs_popped s) + S"
  shows "completion_queue_reserve_back (completion_args_of q (cs_host s)) n [cs_rd_word s] (cs_dev s) = Some []"
proof -
  note d = completion_invD [OF inv]
  have S: "0 < S" "B + 256 * S + 2 ^ 15 \<le> 2 ^ 28" and a: "completion_args_of q (cs_host s) = \<lparr>ca_base_addr = 16 * B, ca_size = 4096 * S\<rparr>"
    using d(1) by (auto simp: ring_ok_def)
  have "mul32 n completion_queue_page_size_16B = 256 * n"
    using n(1) by (simp add: completion_queue_page_size_16B_def shr32_def drop_bit_eq_div mul32_small)
  then show ?thesis using n(2) by (simp add: a d(6,7) available_space_ring [OF S d(2,3)])
qed

lemma can_take:
  assumes inv: "completion_inv q B S s" and some: "length (cs_popped s) < length (cs_written s)"
  shows "completion_queue_wait_front q (cs_host s) [(cs_wr_word s, False)] = Some (cs_wr_word s)"
    "4096 \<le> bytes_avail_in_completion_queue q (cs_wr_word s) (cs_host s)"
proof -
  note d = completion_invD [OF inv]
  have S: "0 < S" using d(1) by (simp add: ring_ok_def)
  show "completion_queue_wait_front q (cs_host s) [(cs_wr_word s, False)] = Some (cs_wr_word s)"
    using wait_front_ring [OF d(1,4,5,2,3)] some by (simp add: d(8))
  show "4096 \<le> bytes_avail_in_completion_queue q (cs_wr_word s) (cs_host s)"
    using bytes_avail_ring [OF d(1,4,5) some d(3)] some mod_less_divisor [OF S, of "length (cs_popped s)"]
    by (simp add: d(8)) linarith
qed

text \<open>
  C5: The completion queue delivers the pages that the dispatch kernel writes, whole, in order
  and once each, in any interleaving of the kernel with the host, around the end of the ring
  and with pointers read late: what the host has taken is the beginning of what the kernel has
  written, never more than the ring holds is waiting, and while the kernel writes new pages
  into the ring, every page that the host has not taken keeps its content.
\<close>

theorem completion_queue_delivers:
  assumes "sysmem_manager_new h dc channel n ov hsize gal addrs = Inr m" "hal_ok h k l" "q < n"
    "4 * 2 ^ k + 16384 \<le> cq_size m" "cq_size m < 2 ^ 32"
    "2 ^ 30 * (channel mod 4) + channel div 4 * 2 ^ 28 + n * cq_size m + 2 ^ 19 \<le> 2 ^ 32" "completion_reachable h q m s"
  shows "let npages = get_completion_queue_size m q div 4096; taken = length (cs_popped s)
    in cs_popped s = take taken (cs_written s) \<and> length (cs_written s) \<le> taken + npages \<and>
       (\<forall>i. taken \<le> i \<and> i < length (cs_written s) \<longrightarrow> cs_pages s (i mod npages) = cs_written s ! i)"
proof -
  obtain B S where ok: "ring_ok q B S m" "completion_fifo_rd_ptr (cq_interfaces m ! q) = ring_ptr B S 0"
    "\<not> completion_fifo_rd_toggle (cq_interfaces m ! q)" by (rule manager_ring_ok [OF assms(1-6)])
  have "get_completion_queue_size m q = 4096 * S" using ok(1) by (simp add: ring_ok_def completion_args_of_def Let_def)
  moreover have "completion_inv q B S s" by (rule completion_reachable_inv [OF assms(7) completion_initial_inv [OF ok]])
  note completion_invD(3,9,10) [OF this]
  ultimately show ?thesis by (auto simp: Let_def)
qed

text \<open>
  A run in which the kernel returns two pages and the host takes what is there.
\<close>

lemma demo_completion:
  obtains m and s s' :: "nat completion_system"
  where "sysmem_manager_new demo_hal demo_dc 0 1 None (2 ^ 30) False [0] = Inr m" "cq_size m = 2 ^ 30"
    "completion_reachable demo_hal 0 m s" "cs_written s = [7, 8]" "cs_popped s = []" "cs_reader s = CR_idle" "cs_writer s = CW_idle"
    "completion_reachable demo_hal 0 m s'" "cs_written s' = [7, 8]" "length (cs_popped s') = 1"
proof -
  obtain m where m: "sysmem_manager_new demo_hal demo_dc 0 1 None (2 ^ 30) False [0] = Inr m" "cq_size m = 2 ^ 30"
    by (rule demo_sysmem)
  obtain B S where ok: "ring_ok 0 B S m" "completion_fifo_rd_ptr (cq_interfaces m ! 0) = ring_ptr B S 0"
    "\<not> completion_fifo_rd_toggle (cq_interfaces m ! 0)" "2 \<le> S"
    by (rule manager_ring_ok [OF m(1) demo_hal_ok, of 0]) (use m(2) in auto)
  let ?s = "completion_system_new 0 m (\<lambda>_. 0) :: nat completion_system"
  have inv: "completion_inv 0 B S ?s" by (rule completion_initial_inv [OF ok(1-3)])
  have new: "cs_writer ?s = CW_idle" "cs_reader ?s = CR_idle" "cs_written ?s = []" "cs_popped ?s = []"
    by (simp_all add: completion_system_new_def Let_def)
  let ?a = "?s\<lparr>cs_writer := CW_write [7, 8]\<rparr>"
  have "completion_step demo_hal 0 ?s ?a"
    by (rule reserve_pages) (use can_reserve [OF inv, of "length [7, 8 :: nat]"] ok(4) new in \<open>auto simp del: completion_queue_reserve_back.simps\<close>)
  then have a: "completion_reachable demo_hal 0 m ?a" by (rule completion_reachable.step [OF completion_reachable.initial])
  define b where "b = ?a\<lparr>cs_pages := store_chunks (ca_base_addr (completion_args_of 0 (cs_host ?a)))
     (completion_chunks (completion_args_of 0 (cs_host ?a)) (4096 * length [7, 8 :: nat]) (cs_dev ?a)) [7, 8] (cs_pages ?a),
     cs_writer := CW_push [7, 8]\<rparr>"
  have "completion_step demo_hal 0 ?a b" unfolding b_def by (rule write_pages) simp
  then have b: "completion_reachable demo_hal 0 m b" by (rule completion_reachable.step [OF a])
  define cw where "cw = completion_queue_push_back (completion_args_of 0 (cs_host b)) (length [7, 8 :: nat]) (cs_dev b)"
  define c where "c = b\<lparr>cs_dev := cw, cs_wr_word := notify_host_of_completion_queue_write_pointer cw, cs_writer := CW_idle,
    cs_written := cs_written b @ [7, 8]\<rparr>"
  have "completion_step demo_hal 0 b c" unfolding c_def by (rule push_pages [OF _ cw_def]) (simp add: b_def)
  then have c: "completion_reachable demo_hal 0 m c" by (rule completion_reachable.step [OF b])
  have c': "cs_written c = [7, 8]" "cs_popped c = []" "cs_reader c = CR_idle" "cs_writer c = CW_idle"
    by (simp_all add: c_def b_def new)
  have invc: "completion_inv 0 B S c" by (rule completion_reachable_inv [OF c completion_initial_inv [OF ok(1-3)]])
  let ?d = "c\<lparr>cs_reader := CR_ready (cs_wr_word c)\<rparr>"
  have t: "completion_queue_wait_front 0 (cs_host c) [(cs_wr_word c, False)] = Some (cs_wr_word c)"
    "4096 \<le> bytes_avail_in_completion_queue 0 (cs_wr_word c) (cs_host c)"
    by (rule can_take [OF invc], simp add: c')+
  have "completion_step demo_hal 0 c ?d" by (rule wait_front [OF c'(3) t(1)])
  then have d: "completion_reachable demo_hal 0 m ?d" by (rule completion_reachable.step [OF c])
  obtain ws m' where p: "completion_queue_pop_front demo_hal 1 0 (cs_host ?d) = (ws, m')" by fastforce
  have "completion_step demo_hal 0 ?d
      (?d\<lparr>cs_host := m', cs_reader := CR_idle, cs_rd_word := published_rd ws (cs_rd_word ?d),
         cs_popped := cs_popped ?d @
           map (\<lambda>i. cs_pages ?d (page_of (get_issue_queue_limit (cs_host ?d) 0) (get_completion_queue_read_ptr (cs_host ?d) 0) + i)) [0 ..< 1]\<rparr>)"
    (is "completion_step _ _ _ ?e") by (rule pop_pages [OF _ _ _ p]) (use t(2) in simp_all)
  then have e: "completion_reachable demo_hal 0 m ?e" by (rule completion_reachable.step [OF d])
  show ?thesis by (rule that [OF m c c'(1-4) e]) (simp_all add: c')
qed

theorem completion_queue_delivers_witness:
  "\<exists>m (s :: nat completion_system). completion_reachable demo_hal 0 m s \<and> cs_written s = [7, 8] \<and> cs_popped s = [7]"
proof -
  obtain m and s s' :: "nat completion_system"
    where s: "sysmem_manager_new demo_hal demo_dc 0 1 None (2 ^ 30) False [0] = Inr m" "cq_size m = 2 ^ 30"
    "completion_reachable demo_hal 0 m s'" "cs_written s' = [7, 8]" "length (cs_popped s') = 1"
    by (rule demo_completion)
  have "cs_popped s' = take 1 [7, 8]"
    using completion_queue_delivers [OF s(1) demo_hal_ok _ _ _ _ s(3)] s by (simp add: Let_def)
  then show ?thesis using s by auto
qed

text \<open>
  C26: Neither side of the completion queue waits for ever: when the host has taken every page,
  the next look of the kernel at the pointer of the host finds the space for any number of
  pages it may send that the queue can hold; and when a page is waiting, the next look of the
  host at the pointer of the kernel ends its wait and finds at least one whole page to take.
\<close>

theorem completion_queue_progress:
  assumes "sysmem_manager_new h dc channel n ov hsize gal addrs = Inr m" "hal_ok h k l" "q < n"
    "4 * 2 ^ k + 16384 \<le> cq_size m" "cq_size m < 2 ^ 32"
    "2 ^ 30 * (channel mod 4) + channel div 4 * 2 ^ 28 + n * cq_size m + 2 ^ 19 \<le> 2 ^ 32" "completion_reachable h q m s"
  shows "(length (cs_popped s) = length (cs_written s) \<and> j \<le> 128 \<and> 4096 * j \<le> get_completion_queue_size m q \<longrightarrow>
      completion_queue_reserve_back (completion_args_of q (cs_host s)) j [cs_rd_word s] (cs_dev s) = Some []) \<and>
    (length (cs_popped s) < length (cs_written s) \<longrightarrow>
      completion_queue_wait_front q (cs_host s) [(cs_wr_word s, False)] = Some (cs_wr_word s) \<and>
      4096 \<le> bytes_avail_in_completion_queue q (cs_wr_word s) (cs_host s))"
proof -
  obtain B S where ok: "ring_ok q B S m" "completion_fifo_rd_ptr (cq_interfaces m ! q) = ring_ptr B S 0"
    "\<not> completion_fifo_rd_toggle (cq_interfaces m ! q)" by (rule manager_ring_ok [OF assms(1-6)])
  have "get_completion_queue_size m q = 4096 * S" using ok(1) by (simp add: ring_ok_def completion_args_of_def Let_def)
  moreover have inv: "completion_inv q B S s" by (rule completion_reachable_inv [OF assms(7) completion_initial_inv [OF ok]])
  ultimately show ?thesis using can_reserve [OF inv, of j] can_take [OF inv] by simp
qed

theorem completion_queue_progress_witness:
  "\<exists>m (s :: nat completion_system). completion_reachable demo_hal 0 m s \<and> cs_written s = [7, 8] \<and> cs_popped s = [] \<and>
     4096 \<le> bytes_avail_in_completion_queue 0 (cs_wr_word s) (cs_host s)"
proof -
  obtain m and s s' :: "nat completion_system"
    where s: "sysmem_manager_new demo_hal demo_dc 0 1 None (2 ^ 30) False [0] = Inr m" "cq_size m = 2 ^ 30"
    "completion_reachable demo_hal 0 m s" "cs_written s = [7, 8]" "cs_popped s = []"
    by (rule demo_completion)
  have "4096 \<le> bytes_avail_in_completion_queue 0 (cs_wr_word s) (cs_host s)"
    using completion_queue_progress [OF s(1) demo_hal_ok _ _ _ _ s(3)] s by simp
  then show ?thesis using s by auto
qed

end
