(* ===== verification/Read_Buffer.thy ===== *)
theory Read_Buffer
  imports Tt_Math
begin

text \<open>
  The host's side of reading a buffer: \<open>HWCommandQueue::copy_into_user_space\<close> of
  src/tt_metal/impl/dispatch/command_queue.cpp takes the pages of a buffer out of the
  completion queue and puts them, without their padding, where the user wants them.

  The device sends a command of 16 bytes and then the pages, each padded to the alignment of
  the buffer. Each round of the loop finds some of it in one piece in the queue: the rounds are
  a list of pieces, each with the exit condition the round sees. The memory of the user is a
  function from offsets; the pages taken from the queue in each round are recorded. The rounds
  of the loops over a piece are partial functions, since they do not end for pages of no bytes.
\<close>

definition sizeof_CQDispatchCmd :: u32 where "sizeof_CQDispatchCmd = 16"

record read_descriptor =
  rb_page_size :: u32
  rb_padded_page_size :: u32
  rb_mapping :: "(nat \<Rightarrow> u32 option) option"
  rb_dst_offset :: u32
  rb_num_pages_read :: u32
  rb_cur_dev_page_id :: u32

record 'b read_state =
  contig_dst_offset :: u32
  remaining_bytes_to_read :: u32
  dev_page_id :: u32
  remaining_bytes_of_nonaligned_page :: u32
  host_page_id :: "u32 option"
  offset_in_completion_q_data :: u32
  user_memory :: "nat \<Rightarrow> 'b"
  pages_popped :: "u32 list"

definition copy_bytes :: "nat \<Rightarrow> 'b list \<Rightarrow> (nat \<Rightarrow> 'b) \<Rightarrow> nat \<Rightarrow> 'b" where
  "copy_bytes d bs mem = (\<lambda>x. if d \<le> x \<and> x < d + length bs then bs ! (x - d) else mem x)"

definition read_sysmem :: "nat \<Rightarrow> u32 \<Rightarrow> u32 \<Rightarrow> 'b list \<Rightarrow> (nat \<Rightarrow> 'b) \<Rightarrow> nat \<Rightarrow> 'b" where
  "read_sysmem d n src piece mem = copy_bytes d (take n (drop src piece)) mem"

definition read_state_new :: "read_descriptor \<Rightarrow> (nat \<Rightarrow> 'b) \<Rightarrow> 'b read_state" where
  "read_state_new r mem =
     \<lparr>contig_dst_offset = rb_dst_offset r,
      remaining_bytes_to_read = add32 (mul32 (rb_num_pages_read r) (rb_padded_page_size r)) sizeof_CQDispatchCmd,
      dev_page_id = rb_cur_dev_page_id r, remaining_bytes_of_nonaligned_page = 0, host_page_id = None,
      offset_in_completion_q_data = sizeof_CQDispatchCmd, user_memory = mem, pages_popped = []\<rparr>"

definition pad_size :: "read_descriptor \<Rightarrow> u32" where
  "pad_size r = sub32 (rb_padded_page_size r) (rb_page_size r)"

text \<open>
  The rest of a page that was copied in part: how much to copy, and by how much to move on.
  The two branches for interleaved and for sharded buffers share it.
\<close>

definition finish_page :: "read_descriptor \<Rightarrow> u32 \<Rightarrow> u32 \<Rightarrow> 'b read_state \<Rightarrow> u32 \<times> u32 \<times> bool \<times> 'b read_state" where
  "finish_page r bytes src s =
     (let left = sub32 bytes src;
          n = min (remaining_bytes_of_nonaligned_page s) left;
          s = s\<lparr>remaining_bytes_of_nonaligned_page := sub32 (remaining_bytes_of_nonaligned_page s) n\<rparr>
      in if remaining_bytes_of_nonaligned_page s = 0
         then let rem = sub32 left n
              in if rem \<ge> pad_size r then (n, add32 n (pad_size r), True, s)
                 else (n, n, True, s\<lparr>offset_in_completion_q_data := sub32 (pad_size r) rem\<rparr>)
         else (n, n, False, s))"

text \<open>The last page of the piece.\<close>

definition last_page :: "read_descriptor \<Rightarrow> u32 \<Rightarrow> u32 \<Rightarrow> 'b read_state \<Rightarrow> u32 \<times> bool \<times> 'b read_state" where
  "last_page r bytes src s =
     (let left = sub32 bytes src;
          n = min left (rb_page_size r);
          s = s\<lparr>remaining_bytes_of_nonaligned_page := sub32 (rb_page_size r) n\<rparr>
      in if remaining_bytes_of_nonaligned_page s = 0
         then (n, True, s\<lparr>offset_in_completion_q_data := sub32 (rb_padded_page_size r) left\<rparr>)
         else (n, False, s))"

text \<open>
  The loop over a piece when the pages go one after the other; \<open>dst\<close> is the offset of the
  start of the piece's data and \<open>copied\<close> the number of bytes copied so far.
\<close>

partial_function (option) copy_pages ::
    "read_descriptor \<Rightarrow> 'b list \<Rightarrow> u32 \<Rightarrow> nat \<Rightarrow> u32 \<Rightarrow> u32 \<Rightarrow> 'b read_state \<Rightarrow> 'b read_state option" where
  "copy_pages r piece bytes dst src copied s =
     (if src < bytes then
        let (n, inc, s) =
              (if remaining_bytes_of_nonaligned_page s > 0
               then (case finish_page r bytes src s of (n, inc, fin, s) \<Rightarrow> (n, inc, s))
               else if add32 src (rb_padded_page_size r) \<ge> bytes
               then (case last_page r bytes src s of (n, fin, s) \<Rightarrow> (n, rb_padded_page_size r, s))
               else (rb_page_size r, rb_padded_page_size r, s));
            s = s\<lparr>user_memory := read_sysmem (dst + copied) n src piece (user_memory s),
                  contig_dst_offset := add32 (contig_dst_offset s) n\<rparr>
        in copy_pages r piece bytes dst (add32 src inc) (add32 copied n) s
      else Some s)"

text \<open>
  The loop over a piece when the pages go where the page mapping of a sharded buffer says;
  \<open>dst\<close> is the variable \<open>dst_offset_bytes\<close>, \<open>n\<close> the variable \<open>num_bytes_to_copy\<close>.
\<close>

partial_function (option) copy_mapped_pages ::
    "read_descriptor \<Rightarrow> (nat \<Rightarrow> u32 option) \<Rightarrow> 'b list \<Rightarrow> u32 \<Rightarrow> u32 \<Rightarrow> u32 \<Rightarrow> u32 \<Rightarrow> 'b read_state \<Rightarrow>
     (u32 \<times> u32 \<times> 'b read_state) option" where
  "copy_mapped_pages r mapping piece bytes src dst n s =
     (if src < bytes then
        let (n, inc, dst, s) =
              (if remaining_bytes_of_nonaligned_page s > 0
               then (case finish_page r bytes src s of
                       (n, inc, fin, s) \<Rightarrow> (n, inc, dst, if fin then s\<lparr>dev_page_id := add32 (dev_page_id s) 1\<rparr> else s))
               else
                 let h = mapping (dev_page_id s);
                     dst = (case h of None \<Rightarrow> dst | Some p \<Rightarrow> mul32 p (rb_page_size r));
                     s = s\<lparr>host_page_id := h\<rparr>
                 in if add32 src (rb_padded_page_size r) \<ge> bytes
                    then (case last_page r bytes src s of
                            (n, fin, s) \<Rightarrow> (n, rb_padded_page_size r, dst, if fin then s\<lparr>dev_page_id := add32 (dev_page_id s) 1\<rparr> else s))
                    else (rb_page_size r, rb_padded_page_size r, dst, s\<lparr>dev_page_id := add32 (dev_page_id s) 1\<rparr>));
            s = s\<lparr>user_memory :=
                  if host_page_id s = None then user_memory s else read_sysmem dst n src piece (user_memory s)\<rparr>
        in copy_mapped_pages r mapping piece bytes (add32 src inc) dst n s
      else Some (dst, n, s))"

text \<open>One round: a piece of the queue. The pages of the queue it frees are counted by \<open>div_up\<close>.\<close>

definition transfer_pages :: "u32 \<Rightarrow> u32" where
  "transfer_pages bytes = sub32 (add32 bytes 4096) 1 div 4096"

definition read_piece :: "read_descriptor \<Rightarrow> 'b list \<Rightarrow> 'b read_state \<Rightarrow> 'b read_state option" where
  "read_piece r piece s =
     (let bytes = min (remaining_bytes_to_read s) (length piece);
          s = s\<lparr>remaining_bytes_to_read := sub32 (remaining_bytes_to_read s) bytes\<rparr>;
          src = offset_in_completion_q_data s;
          result =
            (case rb_mapping r of
               None \<Rightarrow>
                 if rb_page_size r = rb_padded_page_size r
                 then let n = sub32 bytes src
                      in Some (s\<lparr>user_memory := read_sysmem (contig_dst_offset s) n src piece (user_memory s),
                                 contig_dst_offset := add32 (contig_dst_offset s) n, offset_in_completion_q_data := 0\<rparr>)
                 else copy_pages r piece bytes (contig_dst_offset s) src 0 (s\<lparr>offset_in_completion_q_data := 0\<rparr>)
             | Some mapping \<Rightarrow>
                 map_option (\<lambda>(dst, n, s). s\<lparr>contig_dst_offset := add32 dst n\<rparr>)
                   (copy_mapped_pages r mapping piece bytes src (contig_dst_offset s) 0 (s\<lparr>offset_in_completion_q_data := 0\<rparr>)))
      in map_option (\<lambda>s. s\<lparr>pages_popped := pages_popped s @ [transfer_pages bytes]\<rparr>) result)"

fun read_loop :: "read_descriptor \<Rightarrow> ('b list \<times> bool) list \<Rightarrow> 'b read_state \<Rightarrow> 'b read_state option" where
  "read_loop r [] s = (if remaining_bytes_to_read s = 0 then Some s else None)"
| "read_loop r ((piece, exit_condition) # pieces) s =
     (if remaining_bytes_to_read s = 0 \<or> exit_condition then Some s
      else Option.bind (read_piece r piece s) (read_loop r pieces))"

definition copy_into_user_space :: "read_descriptor \<Rightarrow> ('b list \<times> bool) list \<Rightarrow> (nat \<Rightarrow> 'b) \<Rightarrow> 'b read_state option" where
  "copy_into_user_space r pieces mem = read_loop r pieces (read_state_new r mem)"

declare copy_pages.simps [code] copy_mapped_pages.simps [code]

end
