(* ===== verification/Read_Buffer_Props.thy ===== *)
theory Read_Buffer_Props
  imports Read_Buffer
begin

text \<open>
  How a piece of the completion queue is copied. Positions in what the device sends are
  counted from its start: page \<open>i\<close> starts after the command and \<open>i\<close> padded pages.
\<close>

section \<open>Memory\<close>

fun put_page :: "nat option \<Rightarrow> 'b list \<Rightarrow> (nat \<Rightarrow> 'b) \<Rightarrow> nat \<Rightarrow> 'b" where
  "put_page None bs mem = mem"
| "put_page (Some d) bs mem = copy_bytes d bs mem"

text \<open>The memory after the first pages have been put at their places.\<close>

fun pages_mem :: "(nat \<Rightarrow> nat option) \<Rightarrow> (nat \<Rightarrow> 'b list) \<Rightarrow> nat \<Rightarrow> (nat \<Rightarrow> 'b) \<Rightarrow> nat \<Rightarrow> 'b" where
  "pages_mem dest content 0 mem = mem"
| "pages_mem dest content (Suc i) mem = put_page (dest i) (content i) (pages_mem dest content i mem)"

definition partial_mem :: "(nat \<Rightarrow> nat option) \<Rightarrow> (nat \<Rightarrow> 'b list) \<Rightarrow> nat \<Rightarrow> nat \<Rightarrow> (nat \<Rightarrow> 'b) \<Rightarrow> nat \<Rightarrow> 'b" where
  "partial_mem dest content i off mem = put_page (dest i) (take off (content i)) (pages_mem dest content i mem)"

lemma copy_bytes_Nil: "copy_bytes d [] mem = mem"
  by (auto simp: copy_bytes_def fun_eq_iff)

lemma copy_bytes_append: "copy_bytes (d + length xs) ys (copy_bytes d xs mem) = copy_bytes d (xs @ ys) mem"
  by (auto simp: copy_bytes_def nth_append fun_eq_iff)

lemma partial_mem_0: "partial_mem dest content i 0 mem = pages_mem dest content i mem"
  by (cases "dest i") (simp_all add: partial_mem_def copy_bytes_Nil)

lemma partial_mem_full: "length (content i) = k \<Longrightarrow> partial_mem dest content i k mem = pages_mem dest content (Suc i) mem"
  by (simp add: partial_mem_def)

lemma partial_mem_step:
  assumes "dest i = Some d" "off \<le> length (content i)"
  shows "copy_bytes (d + off) (take n (drop off (content i))) (partial_mem dest content i off mem) = partial_mem dest content i (off + n) mem"
proof -
  have "length (take off (content i)) = off" using assms(2) by simp
  then show ?thesis using copy_bytes_append [of d "take off (content i)"] by (simp add: partial_mem_def assms(1) take_add)
qed

lemma partial_mem_skip: "dest i = None \<Longrightarrow> partial_mem dest content i off mem = partial_mem dest content i off' mem"
  by (simp add: partial_mem_def)

section \<open>What the device sends\<close>

definition page_start :: "read_descriptor \<Rightarrow> nat \<Rightarrow> nat" where
  "page_start r i = 16 + i * rb_padded_page_size r"

definition layout_ok :: "read_descriptor \<Rightarrow> bool" where
  "layout_ok r \<longleftrightarrow> 0 < rb_page_size r \<and> rb_page_size r \<le> rb_padded_page_size r \<and> page_start r (rb_num_pages_read r + 1) + 4096 < 2 ^ 32"

definition sent :: "read_descriptor \<Rightarrow> 'b list list \<Rightarrow> 'b list \<Rightarrow> bool" where
  "sent r pages stream \<longleftrightarrow> length pages = rb_num_pages_read r \<and> (\<forall>p \<in> set pages. length p = rb_padded_page_size r) \<and>
     (\<exists>cmd. length cmd = 16 \<and> stream = cmd @ concat pages)"

definition content :: "read_descriptor \<Rightarrow> 'b list list \<Rightarrow> nat \<Rightarrow> 'b list" where
  "content r pages i = take (rb_page_size r) (pages ! i)"

lemma page_start_Suc: "page_start r (Suc i) = page_start r i + rb_padded_page_size r"
  by (simp add: page_start_def)

lemma page_start_mono: "i \<le> j \<Longrightarrow> page_start r i \<le> page_start r j"
  by (simp add: page_start_def)

lemma length_concat_pages: "\<forall>p \<in> set ps. length p = k \<Longrightarrow> length (concat ps) = length ps * k"
  by (induction ps) auto

lemma nth_concat_pages: "\<forall>p \<in> set ps. length p = k \<Longrightarrow> i < length ps \<Longrightarrow> take k (drop (i * k) (concat ps)) = ps ! i"
proof (induction ps arbitrary: i)
  case (Cons p ps)
  then show ?case by (cases i) auto
qed simp

lemma sent_length: "sent r pages stream \<Longrightarrow> length stream = page_start r (rb_num_pages_read r)"
  using length_concat_pages [of pages "rb_padded_page_size r"] by (auto simp: sent_def page_start_def)

lemma sent_page:
  assumes "sent r pages stream" "i < rb_num_pages_read r"
  shows "take (rb_padded_page_size r) (drop (page_start r i) stream) = pages ! i"
  using nth_concat_pages [of pages "rb_padded_page_size r" i] assms by (auto simp: sent_def page_start_def)

text \<open>The bytes of the piece at a place in page \<open>i\<close>.\<close>

definition piece_ok :: "read_descriptor \<Rightarrow> 'b list \<Rightarrow> nat \<Rightarrow> 'b list \<Rightarrow> nat \<Rightarrow> bool" where
  "piece_ok r stream p piece bytes \<longleftrightarrow> p + bytes \<le> length stream \<and> bytes \<le> length piece \<and>
     take bytes piece = take bytes (drop p stream) \<and>
     (\<forall>i. page_start r i < p \<and> page_start r i + rb_page_size r < p + bytes \<longrightarrow> page_start r (Suc i) \<le> p + bytes)"

lemma piece_content:
  assumes s: "sent r pages stream" and p: "piece_ok r stream p piece bytes" and i: "i < rb_num_pages_read r"
    and place: "p + src = page_start r i + off" "src + n \<le> bytes" "off + n \<le> rb_page_size r" "rb_page_size r \<le> rb_padded_page_size r"
  shows "take n (drop src piece) = take n (drop off (content r pages i))"
proof -
  have "take n (drop src piece) = take n (drop src (take bytes piece))" using place(2) by (simp add: drop_take)
  also have "\<dots> = take n (drop src (take bytes (drop p stream)))" using p by (simp add: piece_ok_def)
  also have "\<dots> = take n (drop (page_start r i + off) stream)" using place(1,2) by (simp add: drop_take add.commute)
  also have "\<dots> = take n (drop off (take (rb_padded_page_size r) (drop (page_start r i) stream)))"
    using place(3,4) by (simp add: drop_take add.commute min_def)
  also have "\<dots> = take n (drop off (content r pages i))"
    unfolding sent_page [OF s i] content_def using place(3) by (simp add: drop_take min_def)
  finally show ?thesis .
qed

lemma content_length: "sent r pages stream \<Longrightarrow> i < rb_num_pages_read r \<Longrightarrow> rb_page_size r \<le> rb_padded_page_size r \<Longrightarrow>
    length (content r pages i) = rb_page_size r"
  by (auto simp: sent_def content_def)

section \<open>Steps of the loops\<close>

text \<open>The place reached: byte \<open>off\<close> of page \<open>i\<close>, at \<open>src\<close> in the piece that starts at \<open>p\<close>.\<close>

definition reached :: "read_descriptor \<Rightarrow> nat \<Rightarrow> nat \<Rightarrow> nat \<Rightarrow> nat \<Rightarrow> 'b read_state \<Rightarrow> bool" where
  "reached r p src i off s \<longleftrightarrow> p + src = page_start r i + off \<and> off < rb_page_size r \<and> (0 < off \<longrightarrow> src = 0 \<and> i < rb_num_pages_read r) \<and>
     i \<le> rb_num_pages_read r \<and>
     remaining_bytes_of_nonaligned_page s = (if off = 0 then 0 else rb_page_size r - off)"

lemma pad_size_eq: "layout_ok r \<Longrightarrow> pad_size r = rb_padded_page_size r - rb_page_size r"
  unfolding pad_size_def by (rule sub32_small) (auto simp: layout_ok_def page_start_def)

lemma finish_page_cases:
  assumes l: "layout_ok r" and p: "piece_ok r stream p piece bytes" and at: "reached r p src i off s" "0 < off" "src < bytes"
    and len: "length stream = page_start r (rb_num_pages_read r)"
  obtains n where "n = bytes - src" "off + n < rb_page_size r"
      "finish_page r bytes src s = (n, n, False, s\<lparr>remaining_bytes_of_nonaligned_page := rb_page_size r - (off + n)\<rparr>)"
    | n where "n = rb_page_size r - off" "p + (src + (n + pad_size r)) = page_start r (Suc i)" "src + (n + pad_size r) \<le> bytes"
      "finish_page r bytes src s = (n, n + pad_size r, True, s\<lparr>remaining_bytes_of_nonaligned_page := 0\<rparr>)"
    | n where "n = rb_page_size r - off" "src + n = bytes" "p + bytes + pad_size r = page_start r (Suc i)"
      "finish_page r bytes src s = (n, n, True, s\<lparr>remaining_bytes_of_nonaligned_page := 0, offset_in_completion_q_data := pad_size r\<rparr>)"
proof -
  let ?pg = "rb_page_size r"
  have src: "src = 0" "p = page_start r i + off" "off < ?pg" "i < rb_num_pages_read r"
    and rem: "remaining_bytes_of_nonaligned_page s = ?pg - off" using at by (auto simp: reached_def)
  have T: "p + bytes < 2 ^ 32" using p l len page_start_mono [of "rb_num_pages_read r" "rb_num_pages_read r + 1" r]
    by (auto simp: piece_ok_def layout_ok_def)
  have pg: "?pg < 2 ^ 32" "?pg \<le> rb_padded_page_size r" "rb_padded_page_size r < 2 ^ 32" using l by (auto simp: layout_ok_def page_start_def)
  have left: "sub32 bytes src = bytes" using src(1) T by (simp add: sub32_small)
  note pad = pad_size_eq [OF l]
  have pS: "page_start r (Suc i) = p - off + ?pg + pad_size r" using src(2) pad pg(2) by (simp add: page_start_Suc)
  consider "bytes < ?pg - off" | "?pg - off \<le> bytes" by linarith
  then show ?thesis
  proof cases
    case 1
    then have n: "min (?pg - off) bytes = bytes" and s: "sub32 (?pg - off) bytes = ?pg - (off + bytes)" using pg(1) by (auto simp: sub32_small)
    show ?thesis
      by (rule that(1) [of bytes])
        (use 1 src n s left rem in \<open>auto simp: finish_page_def Let_def\<close>)
  next
    case 2
    then have n: "min (?pg - off) bytes = ?pg - off" and s: "sub32 (?pg - off) (?pg - off) = 0"
      and r: "sub32 bytes (?pg - off) = bytes - (?pg - off)" using pg(1) T by (auto simp: sub32_small)
    show ?thesis
    proof (cases "bytes - (?pg - off) \<ge> pad_size r")
      case True
      have a: "add32 (?pg - off) (pad_size r) = ?pg - off + pad_size r" using pad pg by (intro add32_small) linarith
      have "?pg - off + pad_size r \<le> bytes" using True 2 by linarith
      then show ?thesis
        by (intro that(2) [of "?pg - off"])
          (use 2 True src n s r a left rem pS in \<open>auto simp: finish_page_def Let_def\<close>)
    next
      case False
      have "\<not> page_start r i + ?pg < p + bytes"
      proof
        assume "page_start r i + ?pg < p + bytes"
        then have "page_start r (Suc i) \<le> p + bytes" using p at(2) src(2) by (auto simp: piece_ok_def)
        then show False using False 2 src pS by linarith
      qed
      then have b: "bytes = ?pg - off" using 2 src by linarith
      have f: "sub32 (pad_size r) 0 = pad_size r" using pad pg by (subst sub32_small) auto
      show ?thesis
        by (rule that(3) [of "?pg - off"])
          (use 2 False src n s r left rem pS b f in \<open>auto simp: finish_page_def Let_def\<close>)
    qed
  qed
qed

lemma last_page_cases:
  assumes l: "layout_ok r" and p: "p + bytes \<le> page_start r (rb_num_pages_read r)" and at: "p + src = page_start r i"
    and last: "src < bytes" "src + rb_padded_page_size r \<ge> bytes"
  obtains n where "n = bytes - src" "n < rb_page_size r"
      "last_page r bytes src s = (n, False, s\<lparr>remaining_bytes_of_nonaligned_page := rb_page_size r - n\<rparr>)"
    | x where "p + bytes + x = page_start r (Suc i)" "src + rb_page_size r \<le> bytes"
      "last_page r bytes src s =
        (rb_page_size r, True, s\<lparr>remaining_bytes_of_nonaligned_page := 0, offset_in_completion_q_data := x\<rparr>)"
proof -
  let ?pg = "rb_page_size r"
  have T: "bytes < 2 ^ 32" using p l page_start_mono [of "rb_num_pages_read r" "rb_num_pages_read r + 1" r]
    by (auto simp: layout_ok_def)
  have pg: "?pg < 2 ^ 32" "?pg \<le> rb_padded_page_size r" "rb_padded_page_size r < 2 ^ 32" using l by (auto simp: layout_ok_def page_start_def)
  have left: "sub32 bytes src = bytes - src" using last(1) T by (simp add: sub32_small)
  show ?thesis
  proof (cases "bytes - src < ?pg")
    case True
    then have "min (bytes - src) ?pg = bytes - src" "sub32 ?pg (bytes - src) = ?pg - (bytes - src)" using pg(1) by (auto simp: sub32_small)
    then show ?thesis using that(1) [of "bytes - src"] True left by (auto simp: last_page_def Let_def)
  next
    case False
    then have m: "min (bytes - src) ?pg = ?pg" "sub32 ?pg ?pg = 0"
      "sub32 (rb_padded_page_size r) (bytes - src) = rb_padded_page_size r - (bytes - src)"
      using pg last by (auto simp: sub32_small)
    have "p + bytes + (rb_padded_page_size r - (bytes - src)) = page_start r (Suc i)"
      using at last by (simp add: page_start_Suc)
    then show ?thesis using that(2) [of "rb_padded_page_size r - (bytes - src)"] False left m last by (auto simp: last_page_def Let_def)
  qed
qed

section \<open>The loop without a mapping\<close>

definition same_rest :: "'b read_state \<Rightarrow> 'b read_state \<Rightarrow> bool" where
  "same_rest s s' \<longleftrightarrow> remaining_bytes_to_read s' = remaining_bytes_to_read s \<and> pages_popped s' = pages_popped s"

text \<open>Where a round leaves off: the next piece starts at the end of this one.\<close>

definition left_off :: "read_descriptor \<Rightarrow> (nat \<Rightarrow> nat option) \<Rightarrow> (nat \<Rightarrow> 'b list) \<Rightarrow> (nat \<Rightarrow> 'b) \<Rightarrow> nat \<Rightarrow> nat \<Rightarrow> nat \<Rightarrow> 'b read_state \<Rightarrow> bool" where
  "left_off r dest cont mem p i off s \<longleftrightarrow> reached r p (offset_in_completion_q_data s) i off s \<and>
     offset_in_completion_q_data s \<le> rb_padded_page_size r - rb_page_size r \<and>
     user_memory s = partial_mem dest cont i off mem"

lemma copy_pages_spec:
  fixes s :: "'b read_state"
  assumes l: "layout_ok r" and sn: "sent r pages stream" and pc: "piece_ok r stream p piece bytes"
    and dest: "\<forall>i < rb_num_pages_read r. dest i = Some (d0 + i * rb_page_size r)" "d0 + rb_num_pages_read r * rb_page_size r < 2 ^ 32"
    and at: "reached r p src i off s" "src \<le> bytes" "user_memory s = partial_mem dest (content r pages) i off mem"
      "offset_in_completion_q_data s = 0" "contig_dst_offset s = d0 + i * rb_page_size r + off"
      "dst + copied = d0 + i * rb_page_size r + off" "copied \<le> src"
  shows "\<exists>s' i' off'. copy_pages r piece bytes dst src copied s = Some s' \<and> same_rest s s' \<and>
    left_off r dest (content r pages) mem (p + bytes) i' off' s' \<and> contig_dst_offset s' = d0 + i' * rb_page_size r + off'"
  using at
proof (induction "bytes - src" arbitrary: src "copied" i off s rule: less_induct)
  case less
  note at = less.prems
  let ?N = "rb_num_pages_read r" and ?pg = "rb_page_size r" and ?pp = "rb_padded_page_size r" and ?c = "content r pages"
  have len: "length stream = page_start r ?N" by (rule sent_length [OF sn])
  have pg: "0 < ?pg" "?pg \<le> ?pp" "page_start r (?N + 1) < 2 ^ 32" using l by (auto simp: layout_ok_def)
  have pb: "p + bytes \<le> page_start r ?N" using pc len by (simp add: piece_ok_def)
  have big: "page_start r ?N + ?pp < 2 ^ 32" using pg(3) page_start_Suc [of r ?N] by simp
  show ?case
  proof (cases "src < bytes")
    case False
    then have "src = bytes" using at(2) by simp
    then show ?thesis
      using at by (subst copy_pages.simps) (auto simp: same_rest_def left_off_def reached_def)
  next
    case True
    have i: "i < ?N"
    proof (rule ccontr)
      assume "\<not> i < ?N"
      then have "page_start r ?N \<le> page_start r i" by (intro page_start_mono) simp
      then show False using True at(1) pb by (auto simp: reached_def)
    qed
    have clen: "length (?c i) = ?pg" by (rule content_length [OF sn i pg(2)])
    have di: "dest i = Some (d0 + i * ?pg)" using dest(1) i by simp
    have fit: "d0 + i * ?pg + ?pg < 2 ^ 32" using mult_le_mono1 [of "Suc i" ?N ?pg] i dest(2) by simp
    have written: "read_sysmem (dst + copied) n src piece (user_memory s) = partial_mem dest ?c i (off + n) mem"
      if "src + n \<le> bytes" "off + n \<le> ?pg" for n
    proof -
      have "take n (drop src piece) = take n (drop off (?c i))"
        using piece_content [OF sn pc i _ that pg(2)] at(1) by (simp add: reached_def)
      then show ?thesis using partial_mem_step [of dest i "d0 + i * ?pg" off ?c n mem] di clen at(3,6) that
        by (simp add: read_sysmem_def)
    qed
    have contig: "add32 (contig_dst_offset s) n = d0 + i * ?pg + (off + n)" if "off + n \<le> ?pg" for n
      using that fit at(5) by (subst add32_small) auto
    have sums: "add32 copied n = copied + n" "add32 src n = src + n" if "src + n \<le> bytes" for n
      using that at(7) pb big by (auto intro!: add32_small)
    have next_page: "partial_mem dest ?c i ?pg mem = partial_mem dest ?c (Suc i) 0 mem"
      using partial_mem_full [of ?c i ?pg dest mem] clen by (simp add: partial_mem_0)
    have step: "copy_pages r piece bytes dst src copied s =
        copy_pages r piece bytes dst (add32 src inc) (add32 copied n)
          (s1\<lparr>user_memory := read_sysmem (dst + copied) n src piece (user_memory s1), contig_dst_offset := add32 (contig_dst_offset s1) n\<rparr>)"
      if "(if remaining_bytes_of_nonaligned_page s > 0 then (case finish_page r bytes src s of (n, inc, fin, s) \<Rightarrow> (n, inc, s))
           else if add32 src ?pp \<ge> bytes then (case last_page r bytes src s of (n, fin, s) \<Rightarrow> (n, ?pp, s))
           else (?pg, ?pp, s)) = (n, inc, s1)" for n inc s1
      using True that by (subst copy_pages.simps) simp
    have stop: "copy_pages r piece bytes dst src' c' s' = Some s'" if "bytes \<le> src'" for src' c' s'
      using that by (subst copy_pages.simps) simp
    have finish: "copy_pages r piece bytes dst src copied s = copy_pages r piece bytes dst (src + inc) (copied + n)
        (s1\<lparr>user_memory := partial_mem dest ?c i (off + n) mem, contig_dst_offset := d0 + i * ?pg + (off + n)\<rparr>)"
      if "0 < off" "finish_page r bytes src s = (n, inc, fin, s1)" "src + n \<le> bytes" "src + inc \<le> bytes" "off + n \<le> ?pg"
        "user_memory s1 = user_memory s" "contig_dst_offset s1 = contig_dst_offset s" for n inc fin s1
      using step [of n inc s1] that at(1) written [OF that(3,5)] contig [OF that(5)] sums(1) [OF that(3)] sums(2) [OF that(4)]
      by (simp add: reached_def)
    show ?thesis
    proof (cases "off = 0")
      case False
      then have off: "0 < off" by simp
      have sN: "Suc i \<le> ?N" using i by simp
      from l pc at(1) off True len show ?thesis
      proof (cases rule: finish_page_cases)
        case (1 n)
        let ?s = "s\<lparr>remaining_bytes_of_nonaligned_page := ?pg - (off + n), user_memory := partial_mem dest ?c i (off + n) mem,
          contig_dst_offset := d0 + i * ?pg + (off + n)\<rparr>"
        have "copy_pages r piece bytes dst src copied s = Some ?s"
          using finish [OF off 1(3)] 1(1,2) True stop by simp
        moreover have "reached r (p + bytes) 0 i (off + n) ?s" using 1(1,2) at(1) True i by (auto simp: reached_def)
        ultimately show ?thesis using at(4)
          by (intro exI [of _ ?s] exI [of _ i] exI [of _ "off + n"]) (simp add: same_rest_def left_off_def)
      next
        case (2 n)
        let ?s = "s\<lparr>remaining_bytes_of_nonaligned_page := 0, user_memory := partial_mem dest ?c i (off + n) mem,
          contig_dst_offset := d0 + i * ?pg + (off + n)\<rparr>"
        have n: "off + n = ?pg" "0 < n" using 2(1) at(1) by (auto simp: reached_def)
        have run: "copy_pages r piece bytes dst src copied s = copy_pages r piece bytes dst (src + (n + pad_size r)) (copied + n) ?s"
          using finish [OF off 2(4)] 2(3) n by simp
        have "\<exists>s' i' off'. copy_pages r piece bytes dst (src + (n + pad_size r)) (copied + n) ?s = Some s' \<and> same_rest ?s s' \<and>
            left_off r dest ?c mem (p + bytes) i' off' s' \<and> contig_dst_offset s' = d0 + i' * ?pg + off'"
          by (rule less.hyps [where i = "Suc i" and off = 0])
            (use 2 True n at sN next_page pg in \<open>auto simp: reached_def\<close>)
        then show ?thesis unfolding run by (simp add: same_rest_def)
      next
        case (3 n)
        let ?s = "s\<lparr>remaining_bytes_of_nonaligned_page := 0, offset_in_completion_q_data := pad_size r,
          user_memory := partial_mem dest ?c i (off + n) mem, contig_dst_offset := d0 + i * ?pg + (off + n)\<rparr>"
        have n: "off + n = ?pg" using 3(1) at(1) by (auto simp: reached_def)
        have "copy_pages r piece bytes dst src copied s = Some ?s"
          using finish [OF off 3(4)] 3(2) n stop by simp
        moreover have "reached r (p + bytes) (pad_size r) (Suc i) 0 ?s" using 3(3) sN pg by (simp add: reached_def)
        moreover note pad_size_eq [OF l]
        ultimately show ?thesis using n next_page
          by (intro exI [of _ ?s] exI [of _ "Suc i"] exI [of _ 0]) (simp add: same_rest_def left_off_def)
      qed
    next
      case True
      then have start: "p + src = page_start r i" and rem: "remaining_bytes_of_nonaligned_page s = 0" using at(1) by (auto simp: reached_def)
      have sN: "Suc i \<le> ?N" using i by simp
      have a: "add32 src ?pp = src + ?pp" using pb big \<open>src < bytes\<close> by (intro add32_small) linarith
      show ?thesis
      proof (cases "src + ?pp \<ge> bytes")
        case last: True
        from l pb start \<open>src < bytes\<close> last show ?thesis
        proof (cases rule: last_page_cases [where s = s])
          case (1 n)
          let ?s = "s\<lparr>remaining_bytes_of_nonaligned_page := ?pg - n, user_memory := partial_mem dest ?c i (0 + n) mem,
            contig_dst_offset := d0 + i * ?pg + (0 + n)\<rparr>"
          have n: "src + n \<le> bytes" "0 < n" using 1 \<open>src < bytes\<close> by auto
          have "copy_pages r piece bytes dst src copied s = Some ?s"
            using step [of n ?pp] 1 rem a last written [of n] contig [of n] n True stop by simp
          moreover have "reached r (p + bytes) 0 i n ?s" using 1 n start i by (auto simp: reached_def)
          ultimately show ?thesis using at(4)
            by (intro exI [of _ ?s] exI [of _ i] exI [of _ n]) (simp add: same_rest_def left_off_def)
        next
          case (2 x)
          let ?s = "s\<lparr>remaining_bytes_of_nonaligned_page := 0, offset_in_completion_q_data := x,
            user_memory := partial_mem dest ?c i (0 + ?pg) mem, contig_dst_offset := d0 + i * ?pg + (0 + ?pg)\<rparr>"
          have "copy_pages r piece bytes dst src copied s = Some ?s"
            using step [of ?pg ?pp] 2 rem a last written [of ?pg] contig [of ?pg] True stop by simp
          moreover have "reached r (p + bytes) x (Suc i) 0 ?s" using 2(1) sN pg by (simp add: reached_def)
          moreover have "x \<le> ?pp - ?pg" using 2(1,2) start page_start_Suc [of r i] by linarith
          ultimately show ?thesis using next_page
            by (intro exI [of _ ?s] exI [of _ "Suc i"] exI [of _ 0]) (simp add: same_rest_def left_off_def)
        qed
      next
        case False
        let ?s = "s\<lparr>user_memory := partial_mem dest ?c i (0 + ?pg) mem, contig_dst_offset := d0 + i * ?pg + (0 + ?pg)\<rparr>"
        have run: "copy_pages r piece bytes dst src copied s = copy_pages r piece bytes dst (src + ?pp) (copied + ?pg) ?s"
          using step [of ?pg ?pp s] rem a False written [of ?pg] contig [of ?pg] sums(1) [of ?pg] True pg(2) by simp
        have "\<exists>s' i' off'. copy_pages r piece bytes dst (src + ?pp) (copied + ?pg) ?s = Some s' \<and> same_rest ?s s' \<and>
            left_off r dest ?c mem (p + bytes) i' off' s' \<and> contig_dst_offset s' = d0 + i' * ?pg + off'"
          by (rule less.hyps [where i = "Suc i" and off = 0])
            (use False \<open>src < bytes\<close> True at sN next_page pg start rem in \<open>auto simp: reached_def page_start_Suc\<close>)
        then show ?thesis unfolding run by (simp add: same_rest_def)
      qed
    qed
  qed
qed

section \<open>The loop with a mapping\<close>

lemma copy_mapped_pages_spec:
  fixes s :: "'b read_state"
  assumes l: "layout_ok r" and sn: "sent r pages stream" and pc: "piece_ok r stream p piece bytes"
    and dest: "\<forall>i < rb_num_pages_read r. dest i = map_option (\<lambda>h. h * rb_page_size r) (mapping (d0 + i))"
      "\<forall>i < rb_num_pages_read r. \<forall>h. mapping (d0 + i) = Some h \<longrightarrow> h * rb_page_size r + rb_page_size r < 2 ^ 32"
      "d0 + rb_num_pages_read r < 2 ^ 32"
    and at: "reached r p src i off s" "src \<le> bytes" "user_memory s = partial_mem dest (content r pages) i off mem"
      "offset_in_completion_q_data s = 0" "dev_page_id s = d0 + i"
      "0 < off \<longrightarrow> n = 0 \<and> host_page_id s = mapping (d0 + i) \<and> (\<forall>h. mapping (d0 + i) = Some h \<longrightarrow> dst = h * rb_page_size r + off)"
  shows "\<exists>dst' n' s' i' off'. copy_mapped_pages r mapping piece bytes src dst n s = Some (dst', n', s') \<and> same_rest s s' \<and>
    left_off r dest (content r pages) mem (p + bytes) i' off' s' \<and> dev_page_id s' = d0 + i' \<and>
    (0 < off' \<longrightarrow> host_page_id s' = mapping (d0 + i') \<and> (\<forall>h. mapping (d0 + i') = Some h \<longrightarrow> add32 dst' n' = h * rb_page_size r + off'))"
  using at
proof (induction "bytes - src" arbitrary: src dst n i off s rule: less_induct)
  case less
  note at = less.prems
  let ?N = "rb_num_pages_read r" and ?pg = "rb_page_size r" and ?pp = "rb_padded_page_size r" and ?c = "content r pages"
  have len: "length stream = page_start r ?N" by (rule sent_length [OF sn])
  have pg: "0 < ?pg" "?pg \<le> ?pp" "page_start r (?N + 1) < 2 ^ 32" using l by (auto simp: layout_ok_def)
  have pb: "p + bytes \<le> page_start r ?N" using pc len by (simp add: piece_ok_def)
  have big: "page_start r ?N + ?pp < 2 ^ 32" using pg(3) page_start_Suc [of r ?N] by simp
  have fit: "h * ?pg + ?pg < 2 ^ 32" if "mapping (d0 + i) = Some h" "i < ?N" for h i using dest(2) that by blast
  show ?case
  proof (cases "src < bytes")
    case False
    then have "src = bytes" using at(2) by simp
    moreover have "add32 dst n = h * ?pg + off" if "0 < off" "mapping (d0 + i) = Some h" for h
      using that at(1,6) fit [OF that(2)] by (auto simp: reached_def intro!: add32_small [where b = 0, simplified])
    ultimately show ?thesis
      using at by (subst copy_mapped_pages.simps) (auto simp: same_rest_def left_off_def reached_def)
  next
    case True
    have i: "i < ?N"
    proof (rule ccontr)
      assume "\<not> i < ?N"
      then have "page_start r ?N \<le> page_start r i" by (intro page_start_mono) simp
      then show False using True at(1) pb by (auto simp: reached_def)
    qed
    have clen: "length (?c i) = ?pg" by (rule content_length [OF sn i pg(2)])
    have di: "dest i = map_option (\<lambda>h. h * ?pg) (mapping (d0 + i))" using dest(1) i by simp
    have sN: "Suc i \<le> ?N" using i by simp
    have dev: "add32 (dev_page_id s) 1 = d0 + Suc i" using at(5) i dest(3) by (subst add32_small) auto
    text \<open>What is written when the destination is right, for a mapped page and for one that is skipped.\<close>
    have written: "(if mapping (d0 + i) = None then user_memory s else read_sysmem x k src piece (user_memory s)) =
        partial_mem dest ?c i (off + k) mem"
      if "src + k \<le> bytes" "off + k \<le> ?pg" "\<And>h. mapping (d0 + i) = Some h \<Longrightarrow> x = h * ?pg + off" for k x
    proof (cases "mapping (d0 + i)")
      case None
      then show ?thesis using at(3) di partial_mem_skip [of dest i ?c off mem "off + k"] by simp
    next
      case (Some h)
      have "take k (drop src piece) = take k (drop off (?c i))"
        using piece_content [OF sn pc i _ that(1,2) pg(2)] at(1) by (simp add: reached_def)
      then show ?thesis
        using partial_mem_step [of dest i "h * ?pg" off ?c k mem] di clen at(3) that(2,3) Some by (simp add: read_sysmem_def)
    qed
    have sum: "add32 src k = src + k" if "src + k \<le> bytes" for k using that pb big by (auto intro!: add32_small)
    have next_page: "partial_mem dest ?c i ?pg mem = partial_mem dest ?c (Suc i) 0 mem"
      using partial_mem_full [of ?c i ?pg dest mem] clen by (simp add: partial_mem_0)
    have stop: "copy_mapped_pages r mapping piece bytes src' x k s' = Some (x, k, s')" if "bytes \<le> src'" for src' x k s'
      using that by (subst copy_mapped_pages.simps) simp
    show ?thesis
    proof (cases "off = 0")
      case False
      then have off: "0 < off" by simp
      then have rem: "remaining_bytes_of_nonaligned_page s > 0" and hid: "host_page_id s = mapping (d0 + i)"
        and dst: "\<And>h. mapping (d0 + i) = Some h \<Longrightarrow> dst = h * ?pg + off" using at(1,6) by (auto simp: reached_def)
      have step: "copy_mapped_pages r mapping piece bytes src dst n s =
          copy_mapped_pages r mapping piece bytes (src + inc) dst k (s1\<lparr>user_memory := partial_mem dest ?c i (off + k) mem\<rparr>)"
        if "finish_page r bytes src s = (k, inc, fin, s0)" "s1 = (if fin then s0\<lparr>dev_page_id := d0 + Suc i\<rparr> else s0)"
          "src + k \<le> bytes" "src + inc \<le> bytes" "off + k \<le> ?pg"
          "user_memory s0 = user_memory s" "host_page_id s0 = host_page_id s" "dev_page_id s0 = dev_page_id s" for k inc fin s0 s1
        using True rem hid that written [OF that(3,5) dst] sum [OF that(4)] dev
        by (subst copy_mapped_pages.simps) (cases fin; cases "mapping (d0 + i)"; simp)
      from l pc at(1) off True len show ?thesis
      proof (cases rule: finish_page_cases)
        case (1 k)
        let ?s = "s\<lparr>remaining_bytes_of_nonaligned_page := ?pg - (off + k), user_memory := partial_mem dest ?c i (off + k) mem\<rparr>"
        have "copy_mapped_pages r mapping piece bytes src dst n s = Some (dst, k, ?s)"
          using step [OF 1(3) refl] 1(1,2) True stop by simp
        moreover have "reached r (p + bytes) 0 i (off + k) ?s" using 1(1,2) at(1) True i by (auto simp: reached_def)
        moreover have "add32 dst k = h * ?pg + (off + k)" if "mapping (d0 + i) = Some h" for h
          using fit [OF that i] dst [OF that] 1(2) by (subst add32_small) auto
        ultimately show ?thesis using at(4,5) hid
          by (intro exI [of _ dst] exI [of _ k] exI [of _ ?s] exI [of _ i] exI [of _ "off + k"]) (simp add: same_rest_def left_off_def)
      next
        case (2 k)
        let ?s = "s\<lparr>remaining_bytes_of_nonaligned_page := 0, dev_page_id := d0 + Suc i, user_memory := partial_mem dest ?c i (off + k) mem\<rparr>"
        have k: "off + k = ?pg" "0 < k" using 2(1) at(1) by (auto simp: reached_def)
        have run: "copy_mapped_pages r mapping piece bytes src dst n s =
            copy_mapped_pages r mapping piece bytes (src + (k + pad_size r)) dst k ?s"
          using step [OF 2(4) refl] 2(3) k by simp
        have "\<exists>dst' n' s' i' off'. copy_mapped_pages r mapping piece bytes (src + (k + pad_size r)) dst k ?s = Some (dst', n', s') \<and>
            same_rest ?s s' \<and> left_off r dest ?c mem (p + bytes) i' off' s' \<and> dev_page_id s' = d0 + i' \<and>
            (0 < off' \<longrightarrow> host_page_id s' = mapping (d0 + i') \<and> (\<forall>h. mapping (d0 + i') = Some h \<longrightarrow> add32 dst' n' = h * ?pg + off'))"
          by (rule less.hyps [where i = "Suc i" and off = 0]) (use 2 True k at sN next_page pg in \<open>auto simp: reached_def\<close>)
        then show ?thesis unfolding run by (simp add: same_rest_def)
      next
        case (3 k)
        let ?s = "s\<lparr>remaining_bytes_of_nonaligned_page := 0, offset_in_completion_q_data := pad_size r, dev_page_id := d0 + Suc i,
          user_memory := partial_mem dest ?c i (off + k) mem\<rparr>"
        have k: "off + k = ?pg" using 3(1) at(1) by (auto simp: reached_def)
        have "copy_mapped_pages r mapping piece bytes src dst n s = Some (dst, k, ?s)"
          using step [OF 3(4) refl] 3(2) k stop by simp
        moreover have "reached r (p + bytes) (pad_size r) (Suc i) 0 ?s" using 3(3) sN pg by (simp add: reached_def)
        moreover note pad_size_eq [OF l]
        ultimately show ?thesis using k next_page
          by (intro exI [of _ dst] exI [of _ k] exI [of _ ?s] exI [of _ "Suc i"] exI [of _ 0]) (simp add: same_rest_def left_off_def)
      qed
    next
      case off: True
      then have start: "p + src = page_start r i" and rem: "remaining_bytes_of_nonaligned_page s = 0" using at(1) by (auto simp: reached_def)
      have a: "add32 src ?pp = src + ?pp" using pb big \<open>src < bytes\<close> by (intro add32_small) linarith
      define x where "x = (case mapping (d0 + i) of None \<Rightarrow> dst | Some h \<Rightarrow> mul32 h ?pg)"
      define s0 where "s0 = s\<lparr>host_page_id := mapping (d0 + i)\<rparr>"
      have xh: "x = h * ?pg + 0" if "mapping (d0 + i) = Some h" for h using fit [OF that i] that by (simp add: x_def mul32_small)
      have wr: "(if mapping (d0 + i) = None then user_memory s else read_sysmem x k src piece (user_memory s)) = partial_mem dest ?c i k mem"
        if "src + k \<le> bytes" "k \<le> ?pg" for k using written [of k x] xh that off by simp
      show ?thesis
      proof (cases "src + ?pp \<ge> bytes")
        case last: True
        have step: "copy_mapped_pages r mapping piece bytes src dst n s =
            copy_mapped_pages r mapping piece bytes (src + ?pp) x k (s2\<lparr>user_memory := partial_mem dest ?c i k mem\<rparr>)"
          if "last_page r bytes src s0 = (k, fin, s1)" "s2 = (if fin then s1\<lparr>dev_page_id := d0 + Suc i\<rparr> else s1)"
            "src + k \<le> bytes" "k \<le> ?pg" "user_memory s1 = user_memory s" "host_page_id s1 = mapping (d0 + i)" "dev_page_id s1 = dev_page_id s"
          for k fin s1 s2
          using \<open>src < bytes\<close> rem a last that wr [OF that(3,4)] dev at(5)
          by (subst copy_mapped_pages.simps) (cases fin; cases "mapping (d0 + i)"; simp add: s0_def x_def Let_def)
        from l pb start \<open>src < bytes\<close> last show ?thesis
        proof (cases rule: last_page_cases [where s = s0])
          case (1 k)
          let ?s = "s0\<lparr>remaining_bytes_of_nonaligned_page := ?pg - k, user_memory := partial_mem dest ?c i k mem\<rparr>"
          have k: "src + k \<le> bytes" "0 < k" using 1 \<open>src < bytes\<close> by auto
          have "copy_mapped_pages r mapping piece bytes src dst n s = Some (x, k, ?s)"
            using step [OF 1(3) refl] 1(2) k last stop by (simp add: s0_def)
          moreover have "reached r (p + bytes) 0 i k ?s" using 1 k start i by (auto simp: reached_def)
          moreover have "add32 x k = h * ?pg + k" if "mapping (d0 + i) = Some h" for h
            using fit [OF that i] xh [OF that] 1(2) by (subst add32_small) auto
          ultimately show ?thesis using at(4,5)
            by (intro exI [of _ x] exI [of _ k] exI [of _ ?s] exI [of _ i] exI [of _ k]) (simp add: same_rest_def left_off_def s0_def)
        next
          case (2 y)
          let ?s = "s0\<lparr>remaining_bytes_of_nonaligned_page := 0, offset_in_completion_q_data := y, dev_page_id := d0 + Suc i,
            user_memory := partial_mem dest ?c i ?pg mem\<rparr>"
          have "copy_mapped_pages r mapping piece bytes src dst n s = Some (x, ?pg, ?s)"
            using step [OF 2(3) refl] 2(2) last stop by (simp add: s0_def)
          moreover have "reached r (p + bytes) y (Suc i) 0 ?s" using 2(1) sN pg by (simp add: reached_def)
          moreover have "y \<le> ?pp - ?pg" using 2(1,2) start page_start_Suc [of r i] by linarith
          ultimately show ?thesis using next_page
            by (intro exI [of _ x] exI [of _ ?pg] exI [of _ ?s] exI [of _ "Suc i"] exI [of _ 0]) (simp add: same_rest_def left_off_def s0_def)
        qed
      next
        case False
        let ?s = "s0\<lparr>dev_page_id := d0 + Suc i, user_memory := partial_mem dest ?c i ?pg mem\<rparr>"
        have run: "copy_mapped_pages r mapping piece bytes src dst n s = copy_mapped_pages r mapping piece bytes (src + ?pp) x ?pg ?s"
          using \<open>src < bytes\<close> rem a False wr [of ?pg] dev at(5) pg(2)
          by (subst copy_mapped_pages.simps) (cases "mapping (d0 + i)"; simp add: s0_def x_def Let_def)
        have "\<exists>dst' n' s' i' off'. copy_mapped_pages r mapping piece bytes (src + ?pp) x ?pg ?s = Some (dst', n', s') \<and>
            same_rest ?s s' \<and> left_off r dest ?c mem (p + bytes) i' off' s' \<and> dev_page_id s' = d0 + i' \<and>
            (0 < off' \<longrightarrow> host_page_id s' = mapping (d0 + i') \<and> (\<forall>h. mapping (d0 + i') = Some h \<longrightarrow> add32 dst' n' = h * ?pg + off'))"
          by (rule less.hyps [where i = "Suc i" and off = 0])
            (use False \<open>src < bytes\<close> off at sN next_page pg start rem in \<open>auto simp: reached_def page_start_Suc s0_def\<close>)
        then show ?thesis unfolding run by (simp add: same_rest_def s0_def)
      qed
    qed
  qed
qed

end
