(* ===== verification/Read_Buffer_Theorems.thy ===== *)
theory Read_Buffer_Theorems
  imports Read_Buffer_Props
begin

text \<open>
  Reading a buffer delivers its pages without their padding, for every way the completion
  queue may cut them into pieces, as long as no page that spans a whole transfer page has
  more than 16 bytes of padding; and what goes wrong otherwise.
\<close>

section \<open>Rounds\<close>

text \<open>The pieces: whole transfer pages that together hold what was sent.\<close>

definition pieces_ok :: "'b list \<Rightarrow> ('b list \<times> bool) list \<Rightarrow> bool" where
  "pieces_ok stream pieces \<longleftrightarrow> (\<forall>(piece, ex) \<in> set pieces. \<not> ex \<and> 0 < length piece \<and> 4096 dvd length piece) \<and>
     length stream \<le> length (concat (map fst pieces)) \<and> take (length stream) (concat (map fst pieces)) = stream"

definition padding_ok :: "read_descriptor \<Rightarrow> bool" where
  "padding_ok r \<longleftrightarrow> rb_padded_page_size r \<le> 4096 \<or> 32 dvd rb_padded_page_size r \<and> rb_padded_page_size r - rb_page_size r \<le> 16"

lemma piece_of_pieces:
  assumes l: "layout_ok r" and pad: "padding_ok r" and len: "length stream = page_start r (rb_num_pages_read r)"
    and p: "p < length stream" "4096 dvd p" and ps: "pieces_ok (drop p stream) ((piece, ex) # pieces)"
    and b: "bytes = min (length stream - p) (length piece)"
  shows "piece_ok r stream p piece bytes" "0 < bytes" "4096 \<le> bytes \<or> p + bytes = length stream"
    "p + bytes < length stream \<longrightarrow> 4096 dvd p + bytes" "pieces_ok (drop (p + bytes) stream) pieces"
proof -
  have pc: "0 < length piece" "4096 dvd length piece" using ps by (auto simp: pieces_ok_def)
  then have pl: "4096 \<le> length piece" by (auto dest: dvd_imp_le)
  show bpos: "0 < bytes" and full: "4096 \<le> bytes \<or> p + bytes = length stream" using b p(1) pl by auto
  show end_: "p + bytes < length stream \<longrightarrow> 4096 dvd p + bytes" using b p pc by auto
  have all: "take (length stream - p) (piece @ concat (map fst pieces)) = drop p stream"
    "length stream - p \<le> length piece + length (concat (map fst pieces))"
    using ps by (simp_all add: pieces_ok_def)
  have "take bytes piece = take bytes (take (length stream - p) (piece @ concat (map fst pieces)))" using b by simp
  then have tk: "take bytes piece = take bytes (drop p stream)" by (simp only: all(1))
  have gap: "page_start r (Suc i) \<le> p + bytes" if i: "page_start r i < p" "page_start r i + rb_page_size r < p + bytes" for i
  proof (cases "p + bytes = length stream")
    case True
    then have "page_start r i < page_start r (rb_num_pages_read r)" using i(2) len by simp
    then have "i < rb_num_pages_read r" using page_start_mono [of "rb_num_pages_read r" i r] by (meson leD le_less_linear)
    then show ?thesis using page_start_mono [of "Suc i" "rb_num_pages_read r" r] len True by simp
  next
    case False
    then have lt: "p + bytes < length stream" and b4: "4096 \<le> bytes" using full b p(1) by auto
    show ?thesis
    proof (cases "rb_padded_page_size r \<le> 4096")
      case True
      then show ?thesis using i(1) b4 by (simp add: page_start_Suc)
    next
      case big: False
      then have d: "32 dvd rb_padded_page_size r" "rb_padded_page_size r - rb_page_size r \<le> 16" using pad by (auto simp: padding_ok_def)
      show ?thesis
      proof (rule ccontr)
        assume "\<not> ?thesis"
        then have lt2: "p + bytes < page_start r (Suc i)" by simp
        have "32 dvd p + bytes" using end_ lt dvd_trans [of 32 4096 "p + bytes"] by auto
        then obtain a where a: "p + bytes = 32 * a" by blast
        obtain c where "rb_padded_page_size r = 32 * c" using d(1) by blast
        then have k: "page_start r (Suc i) = 16 + 32 * (Suc i * c)" by (simp add: page_start_def algebra_simps)
        have "page_start r (Suc i) < p + bytes + 16" using i(2) d(2) by (simp add: page_start_Suc)
        then have "32 * a < 16 + 32 * (Suc i * c)" "16 + 32 * (Suc i * c) < 32 * a + 16" using lt2 a k by simp_all
        then show False by presburger
      qed
    qed
  qed
  show "piece_ok r stream p piece bytes" using tk gap b p(1) by (simp add: piece_ok_def)
  show "pieces_ok (drop (p + bytes) stream) pieces"
  proof (cases "p + bytes = length stream")
    case True
    then show ?thesis using ps by (auto simp: pieces_ok_def)
  next
    case False
    then have bl: "bytes = length piece" using b p(1) by auto
    have "drop bytes (take (length stream - p) (piece @ concat (map fst pieces))) = drop bytes (drop p stream)" using all(1) by simp
    then have "take (length stream - p - length piece) (concat (map fst pieces)) = drop (p + bytes) stream"
      using bl b by (simp add: drop_take add.commute)
    then show ?thesis using ps all(2) bl by (auto simp: pieces_ok_def)
  qed
qed

text \<open>
  A round of either kind, and all rounds: \<open>at_piece\<close> is what holds before each round.
\<close>

definition popped_ok :: "nat \<Rightarrow> 'b read_state \<Rightarrow> bool" where
  "popped_ok p s \<longleftrightarrow> sum_list (pages_popped s) = (p + 4095) div 4096"

lemma popped_step:
  assumes "popped_ok p s" "4096 dvd p" "pages_popped s' = pages_popped s @ [transfer_pages bytes]" "bytes + 4096 < 2 ^ 32"
  shows "popped_ok (p + bytes) s'"
proof -
  obtain q where "p = 4096 * q" using assms(2) by blast
  moreover have "transfer_pages bytes = (bytes + 4095) div 4096"
    using assms(4) by (simp add: transfer_pages_def add32_def sub32_small)
  ultimately show ?thesis using assms(1,3) by (simp add: popped_ok_def add.assoc)
qed

definition target :: "read_descriptor \<Rightarrow> nat \<Rightarrow> nat option" where
  "target r i = (case rb_mapping r of
     None \<Rightarrow> Some (rb_dst_offset r + i * rb_page_size r)
   | Some mapping \<Rightarrow> map_option (\<lambda>h. h * rb_page_size r) (mapping (rb_cur_dev_page_id r + i)))"

definition targets_ok :: "read_descriptor \<Rightarrow> bool" where
  "targets_ok r \<longleftrightarrow>
     (case rb_mapping r of
        None \<Rightarrow> rb_page_size r < rb_padded_page_size r \<and> rb_dst_offset r + rb_num_pages_read r * rb_page_size r < 2 ^ 32
      | Some mapping \<Rightarrow> rb_cur_dev_page_id r + rb_num_pages_read r < 2 ^ 32 \<and>
          (\<forall>i < rb_num_pages_read r. \<forall>h. mapping (rb_cur_dev_page_id r + i) = Some h \<longrightarrow> h * rb_page_size r + rb_page_size r < 2 ^ 32))"

definition host_place :: "read_descriptor \<Rightarrow> nat \<Rightarrow> nat \<Rightarrow> 'b read_state \<Rightarrow> bool" where
  "host_place r i off s \<longleftrightarrow>
     (case rb_mapping r of
        None \<Rightarrow> contig_dst_offset s = rb_dst_offset r + i * rb_page_size r + off
      | Some mapping \<Rightarrow> dev_page_id s = rb_cur_dev_page_id r + i \<and>
          (0 < off \<longrightarrow> host_page_id s = mapping (rb_cur_dev_page_id r + i) \<and>
            (\<forall>h. mapping (rb_cur_dev_page_id r + i) = Some h \<longrightarrow> contig_dst_offset s = h * rb_page_size r + off)))"

definition at_piece :: "read_descriptor \<Rightarrow> 'b list list \<Rightarrow> (nat \<Rightarrow> 'b) \<Rightarrow> nat \<Rightarrow> nat \<Rightarrow> nat \<Rightarrow> 'b read_state \<Rightarrow> bool" where
  "at_piece r pages mem p i off s \<longleftrightarrow> reached r p (offset_in_completion_q_data s) i off s \<and>
     user_memory s = partial_mem (target r) (content r pages) i off mem \<and> host_place r i off s \<and>
     remaining_bytes_to_read s = page_start r (rb_num_pages_read r) - p \<and> popped_ok p s"

lemma round_ok:
  fixes s :: "'b read_state"
  assumes l: "layout_ok r" and t: "targets_ok r" and sn: "sent r pages stream" and pc: "piece_ok r stream p piece bytes"
    and b: "bytes = min (length stream - p) (length piece)" and p: "p \<le> length stream" "4096 dvd p"
    and off: "offset_in_completion_q_data s \<le> bytes" and at: "at_piece r pages mem p i off s"
  shows "\<exists>s' i' off'. read_piece r piece s = Some s' \<and> at_piece r pages mem (p + bytes) i' off' s' \<and>
    offset_in_completion_q_data s' \<le> rb_padded_page_size r - rb_page_size r"
proof -
  have len: "length stream = page_start r (rb_num_pages_read r)" by (rule sent_length [OF sn])
  have lb: "length stream + 4096 < 2 ^ 32" using l len page_start_mono [of "rb_num_pages_read r" "rb_num_pages_read r + 1" r]
    by (auto simp: layout_ok_def)
  have small: "bytes + 4096 < 2 ^ 32" using lb b by simp
  have bytes: "min (remaining_bytes_to_read s) (length piece) = bytes" using at b len by (simp add: at_piece_def)
  have rem: "sub32 (remaining_bytes_to_read s) bytes = page_start r (rb_num_pages_read r) - (p + bytes)"
    using at b len lb by (simp add: at_piece_def) (subst sub32_small; simp)
  let ?s = "s\<lparr>remaining_bytes_to_read := sub32 (remaining_bytes_to_read s) bytes, offset_in_completion_q_data := 0\<rparr>"
  have re: "reached r p (offset_in_completion_q_data s) i off ?s" and mem: "user_memory ?s = partial_mem (target r) (content r pages) i off mem"
    and pop: "popped_ok p s" using at by (auto simp: at_piece_def reached_def)
  show ?thesis
  proof (cases "rb_mapping r")
    case None
    have d: "\<forall>i < rb_num_pages_read r. target r i = Some (rb_dst_offset r + i * rb_page_size r)"
      "rb_dst_offset r + rb_num_pages_read r * rb_page_size r < 2 ^ 32" "rb_page_size r \<noteq> rb_padded_page_size r"
      using t None by (auto simp: target_def targets_ok_def)
    have c: "contig_dst_offset s = rb_dst_offset r + i * rb_page_size r + off" using at None by (simp add: at_piece_def host_place_def)
    obtain s' i' off' where s': "copy_pages r piece bytes (contig_dst_offset s) (offset_in_completion_q_data s) 0 ?s = Some s'"
      "same_rest ?s s'" "left_off r (target r) (content r pages) mem (p + bytes) i' off' s'"
      "contig_dst_offset s' = rb_dst_offset r + i' * rb_page_size r + off'"
      using copy_pages_spec [OF l sn pc d(1,2) re off mem, of "contig_dst_offset s" 0] c by auto
    let ?t = "s'\<lparr>pages_popped := pages_popped s' @ [transfer_pages bytes]\<rparr>"
    have "popped_ok (p + bytes) ?t" by (rule popped_step [OF pop p(2) _ small]) (use s'(2) in \<open>simp add: same_rest_def\<close>)
    moreover have "reached r (p + bytes) (offset_in_completion_q_data ?t) i' off' ?t" using s'(3) by (simp add: left_off_def reached_def)
    moreover have "read_piece r piece s = Some ?t" using s'(1) d(3) None by (simp add: read_piece_def Let_def bytes)
    ultimately show ?thesis using s'(2,3,4) None rem
      by (intro exI [of _ ?t] exI [of _ i'] exI [of _ off'])
        (simp add: at_piece_def left_off_def host_place_def same_rest_def)
  next
    case (Some mapping)
    have d: "\<forall>i < rb_num_pages_read r. target r i = map_option (\<lambda>h. h * rb_page_size r) (mapping (rb_cur_dev_page_id r + i))"
      "\<forall>i < rb_num_pages_read r. \<forall>h. mapping (rb_cur_dev_page_id r + i) = Some h \<longrightarrow> h * rb_page_size r + rb_page_size r < 2 ^ 32"
      "rb_cur_dev_page_id r + rb_num_pages_read r < 2 ^ 32"
      using t Some by (auto simp: target_def targets_ok_def)
    obtain x n s' i' off' where s': "copy_mapped_pages r mapping piece bytes (offset_in_completion_q_data s) (contig_dst_offset s) 0 ?s = Some (x, n, s')"
      "same_rest ?s s'" "left_off r (target r) (content r pages) mem (p + bytes) i' off' s'" "dev_page_id s' = rb_cur_dev_page_id r + i'"
      "0 < off' \<longrightarrow> host_page_id s' = mapping (rb_cur_dev_page_id r + i') \<and>
        (\<forall>h. mapping (rb_cur_dev_page_id r + i') = Some h \<longrightarrow> add32 x n = h * rb_page_size r + off')"
      using copy_mapped_pages_spec [OF l sn pc d re off mem, of 0 "contig_dst_offset s"] at Some
      by (auto simp: at_piece_def host_place_def)
    let ?t = "s'\<lparr>contig_dst_offset := add32 x n, pages_popped := pages_popped s' @ [transfer_pages bytes]\<rparr>"
    have "popped_ok (p + bytes) ?t" by (rule popped_step [OF pop p(2) _ small]) (use s'(2) in \<open>simp add: same_rest_def\<close>)
    moreover have "reached r (p + bytes) (offset_in_completion_q_data ?t) i' off' ?t" using s'(3) by (simp add: left_off_def reached_def)
    moreover have "read_piece r piece s = Some ?t" using s'(1) Some by (simp add: read_piece_def Let_def bytes)
    ultimately show ?thesis using s'(2-5) Some rem
      by (intro exI [of _ ?t] exI [of _ i'] exI [of _ off'])
        (simp add: at_piece_def left_off_def host_place_def same_rest_def)
  qed
qed

lemma reached_bound: "layout_ok r \<Longrightarrow> reached r p src i off s \<Longrightarrow> p + src \<le> page_start r (rb_num_pages_read r)"
  using page_start_mono [of i "rb_num_pages_read r" r] page_start_mono [of "Suc i" "rb_num_pages_read r" r] page_start_Suc [of r i]
  by (cases "off = 0") (auto simp: reached_def layout_ok_def)

lemma reached_end:
  assumes "layout_ok r" "reached r (page_start r (rb_num_pages_read r)) src i off s"
  shows "i = rb_num_pages_read r" "off = 0"
proof -
  have "\<not> i < rb_num_pages_read r"
    using page_start_mono [of "Suc i" "rb_num_pages_read r" r] page_start_Suc [of r i] assms by (auto simp: reached_def layout_ok_def)
  then show "i = rb_num_pages_read r" "off = 0" using assms(2) by (auto simp: reached_def)
qed

lemma read_loop_ok:
  fixes s :: "'b read_state"
  assumes l: "layout_ok r" and t: "targets_ok r" and pad: "padding_ok r" and sn: "sent r pages stream"
    and p: "p \<le> length stream" "p < length stream \<longrightarrow> 4096 dvd p" and ps: "pieces_ok (drop p stream) pieces"
    and off: "offset_in_completion_q_data s \<le> 4096" and at: "at_piece r pages mem p i off s"
  shows "\<exists>s'. read_loop r pieces s = Some s' \<and> at_piece r pages mem (length stream) (rb_num_pages_read r) 0 s'"
  using p ps off at
proof (induction pieces arbitrary: p i off s)
  have len: "length stream = page_start r (rb_num_pages_read r)" by (rule sent_length [OF sn])
  have over: "\<exists>s'. read_loop r pieces s = Some s' \<and> at_piece r pages mem (length stream) (rb_num_pages_read r) 0 s'"
    if "at_piece r pages mem (length stream) i off s" for pieces :: "('b list \<times> bool) list" and s i off
    using reached_end [OF l, of "offset_in_completion_q_data s" i off s] that len
    by (cases pieces) (auto simp: at_piece_def)
  {
    case Nil
    then have "p = length stream" by (simp add: pieces_ok_def)
    then show ?case using over Nil.prems(5) by blast
  next
    case (Cons x pieces)
    obtain piece ex where x: "x = (piece, ex)" by (cases x)
    show ?case
    proof (cases "p = length stream")
      case True
      then show ?thesis using over Cons.prems(5) by blast
    next
      case False
      then have lt: "p < length stream" and dv: "4096 dvd p" using Cons.prems by auto
      define bytes where "bytes = min (length stream - p) (length piece)"
      note pc = piece_of_pieces [OF l pad len lt dv Cons.prems(3) [unfolded x] bytes_def]
      have "p + offset_in_completion_q_data s \<le> length stream" 
        using reached_bound [OF l, of p _ i off s] Cons.prems(5) len by (simp add: at_piece_def)
      then have off: "offset_in_completion_q_data s \<le> bytes" using pc(3) Cons.prems(4) by auto
      obtain s' i' off' where s': "read_piece r piece s = Some s'" "at_piece r pages mem (p + bytes) i' off' s'"
        "offset_in_completion_q_data s' \<le> rb_padded_page_size r - rb_page_size r"
        using round_ok [OF l t sn pc(1) bytes_def _ dv off Cons.prems(5)] lt by auto
      have "\<not> ex" "remaining_bytes_to_read s \<noteq> 0" using Cons.prems(3,5) x lt len by (auto simp: pieces_ok_def at_piece_def)
      then have "read_loop r (x # pieces) s = read_loop r pieces s'" using x s'(1) by simp
      moreover have "\<exists>t. read_loop r pieces s' = Some t \<and> at_piece r pages mem (length stream) (rb_num_pages_read r) 0 t"
        by (rule Cons.IH [OF _ pc(4,5) _ s'(2)]) (use pc(1) s'(3) pad in \<open>auto simp: piece_ok_def padding_ok_def\<close>)
      ultimately show ?thesis by simp
    qed
  }
qed

lemma at_piece_new:
  assumes "layout_ok r"
  shows "at_piece r pages mem 0 0 0 (read_state_new r mem)"
proof -
  have "page_start r (rb_num_pages_read r) < 2 ^ 32"
    using assms page_start_mono [of "rb_num_pages_read r" "rb_num_pages_read r + 1" r] by (auto simp: layout_ok_def)
  then have "add32 (mul32 (rb_num_pages_read r) (rb_padded_page_size r)) 16 = page_start r (rb_num_pages_read r)"
    by (simp add: page_start_def mul32_small add32_small)
  then show ?thesis using assms
    by (auto simp: at_piece_def read_state_new_def reached_def partial_mem_0 host_place_def popped_ok_def sizeof_CQDispatchCmd_def
        page_start_def layout_ok_def split: option.split)
qed

lemma copy_into_user_space_ok:
  assumes "layout_ok r" "targets_ok r" "padding_ok r" "sent r pages stream" "pieces_ok stream pieces"
  shows "\<exists>s. copy_into_user_space r pieces mem = Some s \<and>
    user_memory s = pages_mem (target r) (content r pages) (rb_num_pages_read r) mem \<and>
    sum_list (pages_popped s) = (length stream + 4095) div 4096"
  using read_loop_ok [OF assms(1-4) _ _ _ _ at_piece_new [OF assms(1)], of pieces mem] assms(5)
  by (auto simp: copy_into_user_space_def at_piece_def popped_ok_def partial_mem_0 read_state_new_def sizeof_CQDispatchCmd_def)

section \<open>Pages of the same size as their slots\<close>

text \<open>What holds before each round when the pages have no padding and are copied as they come.\<close>

definition at_plain :: "read_descriptor \<Rightarrow> 'b list \<Rightarrow> (nat \<Rightarrow> 'b) \<Rightarrow> nat \<Rightarrow> 'b read_state \<Rightarrow> bool" where
  "at_plain r stream mem p s \<longleftrightarrow> offset_in_completion_q_data s = (if p = 0 then 16 else 0) \<and>
     (let k = p + offset_in_completion_q_data s - 16
      in user_memory s = copy_bytes (rb_dst_offset r) (take k (drop 16 stream)) mem \<and> contig_dst_offset s = rb_dst_offset r + k) \<and>
     remaining_bytes_to_read s = length stream - p \<and> popped_ok p s"

lemma plain_round_ok:
  fixes s :: "'b read_state"
  assumes r: "rb_mapping r = None" "rb_page_size r = rb_padded_page_size r" and small: "length stream + 4096 < 2 ^ 32"
      "rb_dst_offset r + (length stream - 16) < 2 ^ 32"
    and pc: "piece_ok r stream p piece bytes" and b: "bytes = min (length stream - p) (length piece)" "0 < bytes"
    and p: "4096 dvd p" "offset_in_completion_q_data s \<le> bytes" and at: "at_plain r stream mem p s"
  shows "\<exists>s'. read_piece r piece s = Some s' \<and> at_plain r stream mem (p + bytes) s'"
proof -
  let ?o = "offset_in_completion_q_data s"
  define k where "k = p + ?o - 16"
  have "16 \<le> p + ?o" using at p(1) by (auto simp: at_plain_def dest: dvd_imp_le)
  then have k: "p + ?o = 16 + k" by (simp add: k_def)
  have pb: "p + bytes \<le> length stream" and tk: "take bytes piece = take bytes (drop p stream)" using pc by (auto simp: piece_ok_def)
  have bytes: "min (remaining_bytes_to_read s) (length piece) = bytes" using at b by (simp add: at_plain_def)
  have n: "sub32 bytes ?o = bytes - ?o" using p(2) pb small by (intro sub32_small) auto
  have rem: "sub32 (remaining_bytes_to_read s) bytes = length stream - (p + bytes)"
    using at pb small by (simp add: at_plain_def) (subst sub32_small; simp)
  have "take (bytes - ?o) (drop ?o piece) = drop ?o (take bytes piece)" by (simp add: drop_take)
  also have "\<dots> = take (bytes - ?o) (drop (16 + k) stream)" using k unfolding tk by (simp add: drop_take add.commute)
  finally have src: "take (bytes - ?o) (drop ?o piece) = take (bytes - ?o) (drop k (drop 16 stream))" by (simp add: add.commute)
  have lk: "length (take k (drop 16 stream)) = k" using k pb p(2) by simp
  have end_: "p + bytes - 16 = k + (bytes - ?o)" using k p(2) by simp
  have um: "user_memory s = copy_bytes (rb_dst_offset r) (take k (drop 16 stream)) mem" using at by (simp add: at_plain_def Let_def k_def)
  have mem: "read_sysmem (rb_dst_offset r + k) (bytes - ?o) ?o piece (user_memory s) =
      copy_bytes (rb_dst_offset r) (take (p + bytes - 16) (drop 16 stream)) mem"
    unfolding um read_sysmem_def src end_ take_add
    using copy_bytes_append [of "rb_dst_offset r" "take k (drop 16 stream)"] unfolding lk by simp
  have c: "add32 (rb_dst_offset r + k) (bytes - ?o) = rb_dst_offset r + (p + bytes - 16)"
    using end_ pb small by (subst add32_small) auto
  let ?t = "s\<lparr>remaining_bytes_to_read := length stream - (p + bytes), user_memory := copy_bytes (rb_dst_offset r) (take (p + bytes - 16) (drop 16 stream)) mem,
    contig_dst_offset := rb_dst_offset r + (p + bytes - 16), offset_in_completion_q_data := 0, pages_popped := pages_popped s @ [transfer_pages bytes]\<rparr>"
  have cs: "contig_dst_offset s = rb_dst_offset r + k" using at by (simp add: at_plain_def Let_def k_def)
  have "read_piece r piece s = Some ?t"
    using r mem c n rem cs by (simp add: read_piece_def Let_def bytes)
  moreover have "popped_ok (p + bytes) ?t" by (rule popped_step [of p s]) (use at p(1) pb small in \<open>auto simp: at_plain_def\<close>)
  ultimately show ?thesis using b(2) by (intro exI [of _ ?t]) (simp add: at_plain_def)
qed

lemma plain_loop_ok:
  fixes s :: "'b read_state"
  assumes r: "layout_ok r" "padding_ok r" "rb_mapping r = None" "rb_page_size r = rb_padded_page_size r"
    and len: "length stream = page_start r (rb_num_pages_read r)" and small: "rb_dst_offset r + (length stream - 16) < 2 ^ 32"
    and p: "p \<le> length stream" "p < length stream \<longrightarrow> 4096 dvd p" and ps: "pieces_ok (drop p stream) pieces"
    and at: "at_plain r stream mem p s"
  shows "\<exists>s'. read_loop r pieces s = Some s' \<and> at_plain r stream mem (length stream) s'"
  using p ps at
proof (induction pieces arbitrary: p s)
  case Nil
  then have "p = length stream" by (simp add: pieces_ok_def)
  then show ?case using Nil.prems(4) by (simp add: at_plain_def)
next
  case (Cons x pieces)
  obtain piece ex where x: "x = (piece, ex)" by (cases x)
  show ?case
  proof (cases "p = length stream")
    case True
    then show ?thesis using Cons.prems(4) x by (simp add: at_plain_def)
  next
    case False
    then have lt: "p < length stream" and dv: "4096 dvd p" using Cons.prems by auto
    define bytes where "bytes = min (length stream - p) (length piece)"
    note pc = piece_of_pieces [OF r(1,2) len lt dv Cons.prems(3) [unfolded x] bytes_def]
    have lb: "length stream + 4096 < 2 ^ 32" "16 \<le> length stream"
      using r(1) len page_start_mono [of "rb_num_pages_read r" "rb_num_pages_read r + 1" r] by (auto simp: layout_ok_def page_start_def)
    have off: "offset_in_completion_q_data s \<le> bytes" using pc(3) Cons.prems(4) lb(2) by (auto simp: at_plain_def)
    obtain s' where s': "read_piece r piece s = Some s'" "at_plain r stream mem (p + bytes) s'"
      using plain_round_ok [OF r(3,4) lb(1) small pc(1) bytes_def pc(2) dv off Cons.prems(4)] by blast
    have "\<not> ex" "remaining_bytes_to_read s \<noteq> 0" using Cons.prems(3,4) x lt by (auto simp: pieces_ok_def at_plain_def)
    then have "read_loop r (x # pieces) s = read_loop r pieces s'" using x s'(1) by simp
    moreover have "\<exists>t. read_loop r pieces s' = Some t \<and> at_plain r stream mem (length stream) t"
      by (rule Cons.IH [OF _ pc(4,5) s'(2)]) (use pc(1) in \<open>simp add: piece_ok_def\<close>)
    ultimately show ?thesis by simp
  qed
qed

lemma at_plain_new:
  assumes "layout_ok r" "length stream = page_start r (rb_num_pages_read r)"
  shows "at_plain r stream mem 0 (read_state_new r mem)"
  using at_piece_new [OF assms(1), of "[]" mem] assms(2)
  by (simp add: at_plain_def at_piece_def read_state_new_def sizeof_CQDispatchCmd_def copy_bytes_Nil popped_ok_def)

section \<open>The memory of the user\<close>

lemma pages_mem_contiguous:
  "\<forall>i < n. dest i = Some (d + i * k) \<and> length (cont i) = k \<Longrightarrow> pages_mem dest cont n mem = copy_bytes d (concat (map cont [0..<n])) mem"
proof (induction n)
  case (Suc n)
  have "length (concat (map cont [0..<n])) = n * k" using length_concat_pages [of "map cont [0..<n]" k] Suc.prems by auto
  then show ?case using Suc copy_bytes_append [of d "concat (map cont [0..<n])" "cont n" mem] by simp
qed (simp add: copy_bytes_Nil)

lemma pages_mem_other:
  "\<forall>i < n. \<forall>d. dest i = Some d \<longrightarrow> \<not> (d \<le> x \<and> x < d + length (cont i)) \<Longrightarrow> pages_mem dest cont n mem x = mem x"
proof (induction n)
  case (Suc n)
  then show ?case by (cases "dest n") (auto simp: copy_bytes_def)
qed simp

lemma pages_mem_page:
  assumes "i < n" "dest i = Some d" "d \<le> x" "x < d + length (cont i)"
    and "\<forall>i' < n. \<forall>d'. i' \<noteq> i \<and> dest i' = Some d' \<longrightarrow> \<not> (d' \<le> x \<and> x < d' + length (cont i'))"
  shows "pages_mem dest cont n mem x = cont i ! (x - d)"
  using assms(1,5)
proof (induction n)
  case (Suc n)
  show ?case
  proof (cases "i = n")
    case True
    then show ?thesis using assms(2-4) by (simp add: copy_bytes_def)
  next
    case False
    then show ?thesis using Suc by (cases "dest n") (auto simp: copy_bytes_def)
  qed
qed simp

section \<open>Reading a buffer\<close>

text \<open>
  C10: Reading an interleaved buffer puts its pages one after the other at the place of the
  user, without their padding, and changes nothing else, however the completion queue cuts what
  the device sent into pieces of whole transfer pages, and frees exactly the transfer pages it
  took; provided no page larger than a transfer page has more than 16 bytes of padding.
\<close>
theorem read_buffer_contiguous:
  assumes l: "layout_ok r" and pad: "padding_ok r" and m: "rb_mapping r = None"
    and small: "rb_dst_offset r + rb_num_pages_read r * rb_page_size r < 2 ^ 32"
    and sn: "sent r pages stream" and ps: "pieces_ok stream pieces"
  shows "\<exists>s. copy_into_user_space r pieces mem = Some s \<and>
    user_memory s = copy_bytes (rb_dst_offset r) (concat (map (take (rb_page_size r)) pages)) mem \<and>
    sum_list (pages_popped s) = (length stream + 4095) div 4096"
proof (cases "rb_page_size r = rb_padded_page_size r")
  case True
  have len: "length stream = page_start r (rb_num_pages_read r)" by (rule sent_length [OF sn])
  obtain s where s: "read_loop r pieces (read_state_new r mem) = Some s" "at_plain r stream mem (length stream) s"
    using plain_loop_ok [OF l pad m True len _ _ _ _ at_plain_new [OF l len], of pieces mem] small len ps True
    by (auto simp: page_start_def)
  have "map (take (rb_page_size r)) pages = pages" using sn True by (auto simp: sent_def intro: map_idI)
  then have "concat (map (take (rb_page_size r)) pages) = drop 16 stream" using sn by (auto simp: sent_def)
  moreover have "length stream \<noteq> 0" using len by (simp add: page_start_def)
  ultimately show ?thesis using s by (auto simp: copy_into_user_space_def at_plain_def popped_ok_def Let_def)
next
  case False
  then have "targets_ok r" using l m small by (auto simp: targets_ok_def layout_ok_def)
  then obtain s where s: "copy_into_user_space r pieces mem = Some s"
    "user_memory s = pages_mem (target r) (content r pages) (rb_num_pages_read r) mem"
    "sum_list (pages_popped s) = (length stream + 4095) div 4096"
    using copy_into_user_space_ok [OF l _ pad sn ps, of mem] by blast
  have N: "length pages = rb_num_pages_read r" using sn by (simp add: sent_def)
  then have "map (take (rb_page_size r)) pages = map (content r pages) [0..<rb_num_pages_read r]"
    by (intro nth_equalityI) (auto simp: content_def)
  then show ?thesis using s m content_length [OF sn] l
      pages_mem_contiguous [of "rb_num_pages_read r" "target r" "rb_dst_offset r" "rb_page_size r" "content r pages" mem]
    by (auto simp: target_def layout_ok_def)
qed

theorem read_buffer_contiguous_witness:
  "\<exists>s. copy_into_user_space \<lparr>rb_page_size = 2, rb_padded_page_size = 4, rb_mapping = None, rb_dst_offset = 1,
       rb_num_pages_read = 2, rb_cur_dev_page_id = 0\<rparr>
       [(replicate 16 0 @ [1, 2, 0, 0, 3, 4, 0, 0] @ replicate 4072 0, False)] (\<lambda>_. 9) = Some s \<and>
     user_memory s = copy_bytes 1 [1, 2, 3, 4 :: nat] (\<lambda>_. 9) \<and> sum_list (pages_popped s) = 1"
  using read_buffer_contiguous [of "\<lparr>rb_page_size = 2, rb_padded_page_size = 4, rb_mapping = None, rb_dst_offset = 1,
       rb_num_pages_read = 2, rb_cur_dev_page_id = 0\<rparr>" "[[1 :: nat, 2, 0, 0], [3, 4, 0, 0]]"
       "replicate 16 0 @ [1, 2, 0, 0, 3, 4, 0, 0]" "[(replicate 16 0 @ [1, 2, 0, 0, 3, 4, 0, 0] @ replicate 4072 0, False)]" "\<lambda>_. 9"]
  by (simp add: layout_ok_def padding_ok_def page_start_def sent_def pieces_ok_def)

text \<open>
  C11: Reading a sharded buffer puts every page that has a page of the host there, byte by byte
  and without its padding, skips the pages that have none, and changes nothing else, however
  the completion queue cuts what the device sent into pieces; under the same bound on the padding.
\<close>
theorem read_buffer_mapped:
  assumes l: "layout_ok r" and pad: "padding_ok r" and m: "rb_mapping r = Some mapping"
    and small: "rb_cur_dev_page_id r + rb_num_pages_read r < 2 ^ 32"
      "\<forall>i < rb_num_pages_read r. \<forall>h. mapping (rb_cur_dev_page_id r + i) = Some h \<longrightarrow> h * rb_page_size r + rb_page_size r < 2 ^ 32"
    and inj: "\<forall>i < rb_num_pages_read r. \<forall>j < rb_num_pages_read r. \<forall>h. mapping (rb_cur_dev_page_id r + i) = Some h \<and>
      mapping (rb_cur_dev_page_id r + j) = Some h \<longrightarrow> i = j"
    and sn: "sent r pages stream" and ps: "pieces_ok stream pieces"
  shows "\<exists>s. copy_into_user_space r pieces mem = Some s \<and>
    (\<forall>i < rb_num_pages_read r. \<forall>h. mapping (rb_cur_dev_page_id r + i) = Some h \<longrightarrow>
       (\<forall>j < rb_page_size r. user_memory s (h * rb_page_size r + j) = pages ! i ! j)) \<and>
    (\<forall>x. (\<forall>i < rb_num_pages_read r. mapping (rb_cur_dev_page_id r + i) \<noteq> Some (x div rb_page_size r)) \<longrightarrow> user_memory s x = mem x) \<and>
    sum_list (pages_popped s) = (length stream + 4095) div 4096"
proof -
  let ?N = "rb_num_pages_read r" and ?pg = "rb_page_size r" and ?d0 = "rb_cur_dev_page_id r"
  have "targets_ok r" using m small by (simp add: targets_ok_def)
  then obtain s where s: "copy_into_user_space r pieces mem = Some s"
    "user_memory s = pages_mem (target r) (content r pages) ?N mem" "sum_list (pages_popped s) = (length stream + 4095) div 4096"
    using copy_into_user_space_ok [OF l _ pad sn ps, of mem] by blast
  have pg: "0 < ?pg" "?pg \<le> rb_padded_page_size r" using l by (auto simp: layout_ok_def)
  have clen: "length (content r pages i) = ?pg" if "i < ?N" for i by (rule content_length [OF sn that pg(2)])
  have tgt: "target r i = map_option (\<lambda>h. h * ?pg) (mapping (?d0 + i))" for i using m by (simp add: target_def)
  have inside: "h * ?pg \<le> x \<and> x < h * ?pg + ?pg \<longleftrightarrow> x div ?pg = h" for h x
    using pg(1) dividend_less_div_times [of ?pg x] by (auto intro!: div_nat_eqI simp: mult.commute add.commute)
  have apart: "\<not> (d \<le> x \<and> x < d + length (content r pages i))" if i: "i < ?N" "target r i = Some d" "mapping (?d0 + i) \<noteq> Some (x div ?pg)" for i d x
  proof -
    obtain h where "mapping (?d0 + i) = Some h" "d = h * ?pg" using i(2) tgt [of i] by auto
    then show ?thesis using inside [of h x] i(1,3) clen by auto
  qed
  have "user_memory s (h * ?pg + j) = pages ! i ! j" if i: "i < ?N" "mapping (?d0 + i) = Some h" and j: "j < ?pg" for i h j
  proof -
    have "(h * ?pg + j) div ?pg = h" using j by simp
    then have "\<forall>i' < ?N. \<forall>d'. i' \<noteq> i \<and> target r i' = Some d' \<longrightarrow> \<not> (d' \<le> h * ?pg + j \<and> h * ?pg + j < d' + length (content r pages i'))"
      using apart inj i by metis
    then have "pages_mem (target r) (content r pages) ?N mem (h * ?pg + j) = content r pages i ! (h * ?pg + j - h * ?pg)"
      by (intro pages_mem_page) (use i j tgt clen in auto)
    then show ?thesis using s(2) j by (simp add: content_def)
  qed
  moreover have "user_memory s x = mem x" if "\<forall>i < ?N. mapping (?d0 + i) \<noteq> Some (x div ?pg)" for x
    unfolding s(2) by (rule pages_mem_other) (use that apart in blast)
  ultimately show ?thesis using s(1,3) by blast
qed

theorem read_buffer_mapped_witness:
  "\<exists>s. copy_into_user_space \<lparr>rb_page_size = 2, rb_padded_page_size = 4, rb_mapping = Some (\<lambda>d. if d = 5 then Some 3 else None),
       rb_dst_offset = 0, rb_num_pages_read = 2, rb_cur_dev_page_id = 4\<rparr>
       [(replicate 16 0 @ [1, 2, 0, 0, 3, 4, 0, 0] @ replicate 4072 0, False)] (\<lambda>_. 9 :: nat) = Some s \<and>
     user_memory s 6 = 3 \<and> user_memory s 7 = 4 \<and> user_memory s 8 = 9"
proof -
  let ?m = "\<lambda>d :: nat. if d = 5 then Some 3 else None"
  let ?r = "\<lparr>rb_page_size = 2, rb_padded_page_size = 4, rb_mapping = Some ?m, rb_dst_offset = 0, rb_num_pages_read = 2, rb_cur_dev_page_id = 4\<rparr>"
  let ?stream = "replicate 16 0 @ [1 :: nat, 2, 0, 0, 3, 4, 0, 0]"
  let ?pieces = "[(?stream @ replicate 4072 0, False)]"
  let ?pages = "[[1, 2, 0, 0], [3, 4, 0, 0 :: nat]]"
  have sn: "sent ?r ?pages ?stream" and ps: "pieces_ok ?stream ?pieces" by (simp_all add: sent_def pieces_ok_def)
  have l: "layout_ok ?r" "padding_ok ?r" "rb_mapping ?r = Some ?m" "rb_cur_dev_page_id ?r + rb_num_pages_read ?r < 2 ^ 32"
    by (simp_all add: layout_ok_def padding_ok_def page_start_def)
  have m: "\<forall>i < rb_num_pages_read ?r. \<forall>h. ?m (rb_cur_dev_page_id ?r + i) = Some h \<longrightarrow> h * rb_page_size ?r + rb_page_size ?r < 2 ^ 32"
    "\<forall>i < rb_num_pages_read ?r. \<forall>j < rb_num_pages_read ?r. \<forall>h. ?m (rb_cur_dev_page_id ?r + i) = Some h \<and>
      ?m (rb_cur_dev_page_id ?r + j) = Some h \<longrightarrow> i = j" by auto
  obtain s where s: "copy_into_user_space ?r ?pieces (\<lambda>_. 9) = Some s"
    and mapped: "\<forall>i < rb_num_pages_read ?r. \<forall>h. ?m (rb_cur_dev_page_id ?r + i) = Some h \<longrightarrow>
      (\<forall>j < rb_page_size ?r. user_memory s (h * rb_page_size ?r + j) = ?pages ! i ! j)"
    and other: "\<forall>x. (\<forall>i < rb_num_pages_read ?r. ?m (rb_cur_dev_page_id ?r + i) \<noteq> Some (x div rb_page_size ?r)) \<longrightarrow> user_memory s x = 9"
    using read_buffer_mapped [OF l m sn ps, of "\<lambda>_. 9"] by blast
  have "user_memory s (3 * 2 + 0) = 3" "user_memory s (3 * 2 + 1) = 4" 
    using mapped [rule_format, of 1 3 0] mapped [rule_format, of 1 3 1] by simp_all
  moreover have "user_memory s 8 = 9" using other [rule_format, of 8] by simp
  ultimately show ?thesis using s by simp
qed

section \<open>Padding cut by the end of a piece\<close>

definition cut_descriptor :: read_descriptor where
  "cut_descriptor = \<lparr>rb_page_size = 8168, rb_padded_page_size = 8192, rb_mapping = None, rb_dst_offset = 0,
     rb_num_pages_read = 2, rb_cur_dev_page_id = 0\<rparr>"

lemma cut_memory:
  assumes "length p1 = 4096" "length p2 = 4096" "length p3 = 12288"
  shows "map_option user_memory (copy_into_user_space cut_descriptor [(p1, False), (p2, False), (p3, False)] mem) =
    Some (copy_bytes 16336 (take 8 (drop 8200 p3)) (copy_bytes 8176 (take 8160 (drop 16 p3))
      (copy_bytes 8168 (take 8 (drop 4088 p2)) (copy_bytes 4080 (take 4088 p2) (copy_bytes 0 (take 4080 (drop 16 p1)) mem)))))"
proof -
  note run = read_piece_def cut_descriptor_def add32_def sub32_def mul32_def copy_pages.simps finish_page_def last_page_def pad_size_def
    read_sysmem_def Let_def
  have 1: "read_piece cut_descriptor p1 (read_state_new cut_descriptor mem) =
      Some \<lparr>contig_dst_offset = 4080, remaining_bytes_to_read = 12304, dev_page_id = 0, remaining_bytes_of_nonaligned_page = 4088,
        host_page_id = None, offset_in_completion_q_data = 0, user_memory = copy_bytes 0 (take 4080 (drop 16 p1)) mem,
        pages_popped = [transfer_pages 4096]\<rparr>" (is "_ = Some ?s1")
    using assms(1) by (simp add: run read_state_new_def sizeof_CQDispatchCmd_def)
  let ?m2 = "copy_bytes 8168 (take 8 (drop 4088 p2)) (copy_bytes 4080 (take 4088 p2) (copy_bytes 0 (take 4080 (drop 16 p1)) mem))"
  have 2: "read_piece cut_descriptor p2 ?s1 =
      Some \<lparr>contig_dst_offset = 8176, remaining_bytes_to_read = 8208, dev_page_id = 0, remaining_bytes_of_nonaligned_page = 8160,
        host_page_id = None, offset_in_completion_q_data = 16, user_memory = ?m2, pages_popped = [transfer_pages 4096, transfer_pages 4096]\<rparr>"
    (is "_ = Some ?s2") using assms(2) by (simp add: run)
  have 3: "map_option user_memory (Option.bind (read_piece cut_descriptor p3 ?s2) (read_loop cut_descriptor [])) =
      Some (copy_bytes 16336 (take 8 (drop 8200 p3)) (copy_bytes 8176 (take 8160 (drop 16 p3)) ?m2))"
    using assms(3) by (simp add: run)
  have "remaining_bytes_to_read (read_state_new cut_descriptor mem) = 16400"
    by (simp add: read_state_new_def cut_descriptor_def sizeof_CQDispatchCmd_def add32_def mul32_def)
  then show ?thesis using 1 2 3 by (simp add: copy_into_user_space_def)
qed


end
