(* ===== verification/Cq_Commands.thy ===== *)
theory Cq_Commands
  imports Command_Queue_Interface
begin

text \<open>
  The commands host and device exchange, src/tt_metal/impl/dispatch/cq_commands.hpp. A packed
  structure is the list of its fields with their widths in bytes; a command is 16 bytes, the
  identifier followed by one of the structures. Fields are read and written at the offset the
  widths before them give, the lowest byte first.
\<close>

section \<open>Packed structures\<close>

type_synonym struct_layout = "(string \<times> nat) list"

fun le_bytes :: "nat \<Rightarrow> nat \<Rightarrow> byte list" where
  "le_bytes 0 v = []"
| "le_bytes (Suc w) v = v mod 256 # le_bytes w (v div 256)"

fun le_value :: "byte list \<Rightarrow> nat" where
  "le_value [] = 0"
| "le_value (b # bs) = b + 256 * le_value bs"

fun locate :: "nat \<Rightarrow> struct_layout \<Rightarrow> string \<Rightarrow> nat \<times> nat" where
  "locate off [] f = (off, 0)"
| "locate off ((g, w) # l) f = (if f = g then (off, w) else locate (off + w) l f)"

definition struct_size :: "struct_layout \<Rightarrow> nat" where
  "struct_size l = sum_list (map snd l)"

definition get_at :: "nat \<Rightarrow> struct_layout \<Rightarrow> string \<Rightarrow> byte list \<Rightarrow> nat" where
  "get_at off l f bs = (case locate off l f of (p, w) \<Rightarrow> le_value (take w (drop p bs)))"

definition set_at :: "nat \<Rightarrow> struct_layout \<Rightarrow> string \<times> nat \<Rightarrow> byte list \<Rightarrow> byte list" where
  "set_at off l x bs = (case locate off l (fst x) of (p, w) \<Rightarrow> take p bs @ le_bytes w (snd x) @ drop (p + w) bs)"

text \<open>The fields of a command follow the identifier.\<close>

definition cmd_id :: "byte list \<Rightarrow> nat" where
  "cmd_id bs = le_value (take 1 bs)"

definition get_field :: "struct_layout \<Rightarrow> string \<Rightarrow> byte list \<Rightarrow> nat" where
  "get_field = get_at 1"

definition init_cmd :: "nat \<Rightarrow> struct_layout \<Rightarrow> (string \<times> nat) list \<Rightarrow> byte list \<Rightarrow> byte list" where
  "init_cmd i l fs bs = fold (set_at 1 l) fs (le_bytes 1 i @ drop 1 bs)"

section \<open>Identifiers\<close>

definition CQ_PREFETCH_CMD_RELAY_LINEAR :: nat where "CQ_PREFETCH_CMD_RELAY_LINEAR = 1"
definition CQ_PREFETCH_CMD_RELAY_PAGED :: nat where "CQ_PREFETCH_CMD_RELAY_PAGED = 2"
definition CQ_PREFETCH_CMD_RELAY_PAGED_PACKED :: nat where "CQ_PREFETCH_CMD_RELAY_PAGED_PACKED = 3"
definition CQ_PREFETCH_CMD_RELAY_INLINE :: nat where "CQ_PREFETCH_CMD_RELAY_INLINE = 4"
definition CQ_PREFETCH_CMD_RELAY_INLINE_NOFLUSH :: nat where "CQ_PREFETCH_CMD_RELAY_INLINE_NOFLUSH = 5"
definition CQ_PREFETCH_CMD_EXEC_BUF :: nat where "CQ_PREFETCH_CMD_EXEC_BUF = 6"
definition CQ_PREFETCH_CMD_EXEC_BUF_END :: nat where "CQ_PREFETCH_CMD_EXEC_BUF_END = 7"
definition CQ_PREFETCH_CMD_STALL :: nat where "CQ_PREFETCH_CMD_STALL = 8"
definition CQ_PREFETCH_CMD_DEBUG :: nat where "CQ_PREFETCH_CMD_DEBUG = 9"
definition CQ_PREFETCH_CMD_TERMINATE :: nat where "CQ_PREFETCH_CMD_TERMINATE = 10"

definition CQ_DISPATCH_CMD_WRITE_LINEAR :: nat where "CQ_DISPATCH_CMD_WRITE_LINEAR = 1"
definition CQ_DISPATCH_CMD_WRITE_LINEAR_H :: nat where "CQ_DISPATCH_CMD_WRITE_LINEAR_H = 2"
definition CQ_DISPATCH_CMD_WRITE_LINEAR_H_HOST :: nat where "CQ_DISPATCH_CMD_WRITE_LINEAR_H_HOST = 3"
definition CQ_DISPATCH_CMD_WRITE_PAGED :: nat where "CQ_DISPATCH_CMD_WRITE_PAGED = 4"
definition CQ_DISPATCH_CMD_WRITE_PACKED :: nat where "CQ_DISPATCH_CMD_WRITE_PACKED = 5"
definition CQ_DISPATCH_CMD_WRITE_PACKED_LARGE :: nat where "CQ_DISPATCH_CMD_WRITE_PACKED_LARGE = 6"
definition CQ_DISPATCH_CMD_WAIT :: nat where "CQ_DISPATCH_CMD_WAIT = 7"
definition CQ_DISPATCH_CMD_GO :: nat where "CQ_DISPATCH_CMD_GO = 8"
definition CQ_DISPATCH_CMD_SINK :: nat where "CQ_DISPATCH_CMD_SINK = 9"
definition CQ_DISPATCH_CMD_DEBUG :: nat where "CQ_DISPATCH_CMD_DEBUG = 10"
definition CQ_DISPATCH_CMD_DELAY :: nat where "CQ_DISPATCH_CMD_DELAY = 11"
definition CQ_DISPATCH_CMD_EXEC_BUF_END :: nat where "CQ_DISPATCH_CMD_EXEC_BUF_END = 12"
definition CQ_DISPATCH_CMD_SET_WRITE_OFFSET :: nat where "CQ_DISPATCH_CMD_SET_WRITE_OFFSET = 13"
definition CQ_DISPATCH_CMD_TERMINATE :: nat where "CQ_DISPATCH_CMD_TERMINATE = 14"
definition CQ_DISPATCH_CMD_SEND_GO_SIGNAL :: nat where "CQ_DISPATCH_CMD_SEND_GO_SIGNAL = 15"
definition CQ_DISPATCH_NOTIFY_SLAVE_GO_SIGNAL :: nat where "CQ_DISPATCH_NOTIFY_SLAVE_GO_SIGNAL = 16"
definition CQ_DISPATCH_SET_NUM_WORKER_SEMS :: nat where "CQ_DISPATCH_SET_NUM_WORKER_SEMS = 17"
definition CQ_DISPATCH_SET_GO_SIGNAL_NOC_DATA :: nat where "CQ_DISPATCH_SET_GO_SIGNAL_NOC_DATA = 18"

lemmas cq_cmd_ids = CQ_PREFETCH_CMD_RELAY_LINEAR_def CQ_PREFETCH_CMD_RELAY_PAGED_def CQ_PREFETCH_CMD_RELAY_PAGED_PACKED_def
  CQ_PREFETCH_CMD_RELAY_INLINE_def CQ_PREFETCH_CMD_RELAY_INLINE_NOFLUSH_def CQ_PREFETCH_CMD_EXEC_BUF_def
  CQ_PREFETCH_CMD_EXEC_BUF_END_def CQ_PREFETCH_CMD_STALL_def CQ_PREFETCH_CMD_DEBUG_def CQ_PREFETCH_CMD_TERMINATE_def
  CQ_DISPATCH_CMD_WRITE_LINEAR_def CQ_DISPATCH_CMD_WRITE_LINEAR_H_def CQ_DISPATCH_CMD_WRITE_LINEAR_H_HOST_def
  CQ_DISPATCH_CMD_WRITE_PAGED_def CQ_DISPATCH_CMD_WRITE_PACKED_def CQ_DISPATCH_CMD_WRITE_PACKED_LARGE_def
  CQ_DISPATCH_CMD_WAIT_def CQ_DISPATCH_CMD_GO_def CQ_DISPATCH_CMD_SINK_def CQ_DISPATCH_CMD_DEBUG_def CQ_DISPATCH_CMD_DELAY_def
  CQ_DISPATCH_CMD_EXEC_BUF_END_def CQ_DISPATCH_CMD_SET_WRITE_OFFSET_def
  CQ_DISPATCH_CMD_TERMINATE_def CQ_DISPATCH_CMD_SEND_GO_SIGNAL_def CQ_DISPATCH_NOTIFY_SLAVE_GO_SIGNAL_def
  CQ_DISPATCH_SET_NUM_WORKER_SEMS_def CQ_DISPATCH_SET_GO_SIGNAL_NOC_DATA_def

section \<open>Structures\<close>

definition CQGenericDebugCmd :: struct_layout where
  "CQGenericDebugCmd = [(''pad'', 1), (''key'', 2), (''checksum'', 4), (''size'', 4), (''stride'', 4)]"

definition CQPrefetchRelayLinearCmd :: struct_layout where
  "CQPrefetchRelayLinearCmd = [(''pad1'', 1), (''pad2'', 2), (''noc_xy_addr'', 4), (''addr'', 4), (''length'', 4)]"

definition CQPrefetchRelayPagedCmd :: struct_layout where
  "CQPrefetchRelayPagedCmd =
     [(''packed_page_flags'', 1), (''length_adjust'', 2), (''base_addr'', 4), (''page_size'', 4), (''pages'', 4)]"

definition CQPrefetchRelayPagedPackedCmd :: struct_layout where
  "CQPrefetchRelayPagedPackedCmd = [(''pad1'', 1), (''count'', 2), (''total_length'', 4), (''stride'', 4)]"

definition CQPrefetchRelayPagedPackedSubCmd :: struct_layout where
  "CQPrefetchRelayPagedPackedSubCmd = [(''start_page'', 2), (''log_page_size'', 2), (''base_addr'', 4), (''length'', 4)]"

definition CQPrefetchRelayInlineCmd :: struct_layout where
  "CQPrefetchRelayInlineCmd = [(''dispatcher_type'', 1), (''pad'', 2), (''length'', 4), (''stride'', 4)]"

definition CQPrefetchExecBufCmd :: struct_layout where
  "CQPrefetchExecBufCmd = [(''pad1'', 1), (''pad2'', 2), (''base_addr'', 4), (''log_page_size'', 4), (''pages'', 4)]"

definition CQDispatchWriteCmd :: struct_layout where
  "CQDispatchWriteCmd =
     [(''num_mcast_dests'', 1), (''write_offset_index'', 1), (''pad1'', 1), (''noc_xy_addr'', 4), (''addr'', 4), (''length'', 4)]"

definition CQDispatchWriteHostCmd :: struct_layout where
  "CQDispatchWriteHostCmd = [(''is_event'', 1), (''pad1'', 2), (''pad2'', 4), (''pad3'', 4), (''length'', 4)]"

definition CQDispatchWritePagedCmd :: struct_layout where
  "CQDispatchWritePagedCmd = [(''is_dram'', 1), (''start_page'', 2), (''base_addr'', 4), (''page_size'', 4), (''pages'', 4)]"

definition CQDispatchWritePackedCmd :: struct_layout where
  "CQDispatchWritePackedCmd = [(''flags'', 1), (''count'', 2), (''write_offset_index'', 2), (''size'', 2), (''addr'', 4)]"

definition CQDispatchWritePackedUnicastSubCmd :: struct_layout where
  "CQDispatchWritePackedUnicastSubCmd = [(''noc_xy_addr'', 4)]"

definition CQDispatchWritePackedMulticastSubCmd :: struct_layout where
  "CQDispatchWritePackedMulticastSubCmd = [(''noc_xy_addr'', 4), (''num_mcast_dests'', 4)]"

definition CQDispatchWritePackedLargeSubCmd :: struct_layout where
  "CQDispatchWritePackedLargeSubCmd =
     [(''noc_xy_addr'', 4), (''addr'', 4), (''length'', 2), (''num_mcast_dests'', 1), (''flags'', 1)]"

definition CQDispatchWritePackedLargeCmd :: struct_layout where
  "CQDispatchWritePackedLargeCmd = [(''pad1'', 1), (''count'', 2), (''alignment'', 2), (''write_offset_index'', 2)]"

definition CQDispatchWaitCmd :: struct_layout where
  "CQDispatchWaitCmd = [(''barrier'', 1), (''notify_prefetch'', 1), (''clear_count'', 1), (''wait'', 1), (''pad1'', 1),
     (''pad2'', 2), (''addr'', 4), (''count'', 4)]"

definition CQDispatchSetWriteOffsetCmd :: struct_layout where
  "CQDispatchSetWriteOffsetCmd = [(''pad1'', 1), (''pad2'', 2), (''offset0'', 4), (''offset1'', 4), (''offset2'', 4)]"

definition CQDispatchDelayCmd :: struct_layout where
  "CQDispatchDelayCmd = [(''pad1'', 1), (''pad2'', 2), (''delay'', 4)]"

definition CQDispatchSetUnicastOnlyCoresCmd :: struct_layout where
  "CQDispatchSetUnicastOnlyCoresCmd = [(''pad1'', 1), (''pad2'', 2), (''num_unicast_only_cores'', 4)]"

definition CQDispatchGoSignalMcastCmd :: struct_layout where
  "CQDispatchGoSignalMcastCmd = [(''go_signal'', 4), (''num_mcast_txns'', 1), (''num_unicast_txns'', 1),
     (''noc_data_start_index'', 1), (''wait_count'', 4), (''wait_addr'', 4)]"

definition CQDispatchNotifySlaveGoSignalCmd :: struct_layout where
  "CQDispatchNotifySlaveGoSignalCmd = [(''wait'', 1), (''index_bitmask'', 2), (''pad3'', 4)]"

definition CQDispatchSetNumWorkerSemsCmd :: struct_layout where
  "CQDispatchSetNumWorkerSemsCmd = [(''pad1'', 1), (''pad2'', 2), (''num_worker_sems'', 4)]"

definition CQDispatchSetGoSignalNocDataCmd :: struct_layout where
  "CQDispatchSetGoSignalNocDataCmd = [(''pad1'', 1), (''pad2'', 2), (''num_words'', 4)]"

text \<open>The unions of the two kinds of commands; a command with no fields of its own uses none of them.\<close>

definition CQPrefetchCmd :: "struct_layout list" where
  "CQPrefetchCmd = [CQPrefetchRelayLinearCmd, CQPrefetchRelayPagedCmd, CQPrefetchRelayPagedPackedCmd, CQPrefetchRelayInlineCmd,
     CQPrefetchExecBufCmd, CQGenericDebugCmd]"

definition CQDispatchCmd :: "struct_layout list" where
  "CQDispatchCmd = [CQDispatchWriteCmd, CQDispatchWriteHostCmd, CQDispatchWritePagedCmd, CQDispatchWritePackedCmd,
     CQDispatchWritePackedLargeCmd, CQDispatchWaitCmd, CQGenericDebugCmd, CQDispatchDelayCmd, CQDispatchSetWriteOffsetCmd, CQDispatchGoSignalMcastCmd,
     CQDispatchSetUnicastOnlyCoresCmd, CQDispatchNotifySlaveGoSignalCmd, CQDispatchSetNumWorkerSemsCmd, CQDispatchSetGoSignalNocDataCmd]"

definition CMD_SIZE :: u32 where "CMD_SIZE = 16"

definition CQ_PREFETCH_RELAY_PAGED_START_PAGE_SHIFT :: nat where "CQ_PREFETCH_RELAY_PAGED_START_PAGE_SHIFT = 0"
definition CQ_PREFETCH_RELAY_PAGED_IS_DRAM_SHIFT :: nat where "CQ_PREFETCH_RELAY_PAGED_IS_DRAM_SHIFT = 4"
definition CQ_PREFETCH_RELAY_PAGED_START_PAGE_MASK :: nat where "CQ_PREFETCH_RELAY_PAGED_START_PAGE_MASK = 0x0f"
definition CQ_DISPATCH_CMD_PACKED_WRITE_FLAG_NONE :: nat where "CQ_DISPATCH_CMD_PACKED_WRITE_FLAG_NONE = 0x00"
definition CQ_DISPATCH_CMD_PACKED_WRITE_FLAG_MCAST :: nat where "CQ_DISPATCH_CMD_PACKED_WRITE_FLAG_MCAST = 0x01"
definition CQ_DISPATCH_CMD_PACKED_WRITE_FLAG_NO_STRIDE :: nat where "CQ_DISPATCH_CMD_PACKED_WRITE_FLAG_NO_STRIDE = 0x02"
definition CQ_DISPATCH_CMD_PACKED_WRITE_LARGE_MAX_SUB_CMDS :: nat where "CQ_DISPATCH_CMD_PACKED_WRITE_LARGE_MAX_SUB_CMDS = 35"

definition get_packed_write_max_multicast_sub_cmds :: "u32 \<Rightarrow> u32" where
  "get_packed_write_max_multicast_sub_cmds max_unicast =
     mul64 max_unicast (struct_size CQDispatchWritePackedUnicastSubCmd) div struct_size CQDispatchWritePackedMulticastSubCmd mod 2 ^ 32"

section \<open>Reading what was written\<close>

lemma length_le_bytes [simp]: "length (le_bytes w v) = w"
  by (induction w arbitrary: v) auto

lemma le_value_bytes: "le_value (le_bytes w v) = v mod 256 ^ w"
proof (induction w arbitrary: v)
  case (Suc w)
  then show ?case using mod_mult2_eq [of v 256 "256 ^ w"] by simp
qed simp

text \<open>The static assertions of the source: a structure and the identifier fit in 16 bytes.\<close>

lemma struct_sizes:
  "\<forall>l \<in> set CQPrefetchCmd. struct_size l < CMD_SIZE" "\<forall>l \<in> set CQDispatchCmd. struct_size l < CMD_SIZE"
  by (simp_all add: CQPrefetchCmd_def CQDispatchCmd_def struct_size_def CMD_SIZE_def CQPrefetchRelayLinearCmd_def
      CQPrefetchRelayPagedCmd_def CQPrefetchRelayPagedPackedCmd_def CQPrefetchRelayInlineCmd_def CQPrefetchExecBufCmd_def
      CQGenericDebugCmd_def CQDispatchWriteCmd_def CQDispatchWriteHostCmd_def CQDispatchWritePagedCmd_def CQDispatchWritePackedCmd_def
      CQDispatchWritePackedLargeCmd_def CQDispatchWaitCmd_def CQDispatchSetWriteOffsetCmd_def CQDispatchGoSignalMcastCmd_def
      CQDispatchNotifySlaveGoSignalCmd_def CQDispatchSetNumWorkerSemsCmd_def CQDispatchSetGoSignalNocDataCmd_def
      CQDispatchDelayCmd_def CQDispatchSetUnicastOnlyCoresCmd_def)

lemma locate_bounds:
  "f \<in> fst ` set l \<Longrightarrow> off \<le> fst (locate off l f) \<and> fst (locate off l f) + snd (locate off l f) \<le> off + struct_size l"
proof (induction l arbitrary: off)
  case (Cons x l)
  obtain g w where x: "x = (g, w)" by (cases x)
  show ?case
  proof (cases "f = g")
    case True
    then show ?thesis by (simp add: x struct_size_def)
  next
    case False
    then show ?thesis using Cons.IH [of "off + w"] Cons.prems by (auto simp: x struct_size_def)
  qed
qed simp

lemma locate_disjoint:
  assumes "f \<in> fst ` set l" "g \<in> fst ` set l" "f \<noteq> g"
  shows "fst (locate off l f) + snd (locate off l f) \<le> fst (locate off l g) \<or>
    fst (locate off l g) + snd (locate off l g) \<le> fst (locate off l f)"
  using assms
proof (induction l arbitrary: off)
  case (Cons x l)
  obtain h w where x: "x = (h, w)" by (cases x)
  have f: "off + w \<le> fst (locate (off + w) l k)" if "k \<in> fst ` set l" for k using locate_bounds [OF that, of "off + w"] by simp
  show ?case
  proof (cases "f = h \<or> g = h")
    case True
    then show ?thesis using Cons.prems f by (auto simp: x)
  next
    case False
    then show ?thesis using Cons.IH [of "off + w"] Cons.prems by (auto simp: x)
  qed
qed simp

lemma length_set_at: "f \<in> fst ` set l \<Longrightarrow> off + struct_size l \<le> length bs \<Longrightarrow> length (set_at off l (f, v) bs) = length bs"
  using locate_bounds [of f l off] by (cases "locate off l f") (simp add: set_at_def)

lemma get_set_at_same:
  assumes "f \<in> fst ` set l" "off + struct_size l \<le> length bs"
  shows "get_at off l f (set_at off l (f, v) bs) = v mod 256 ^ snd (locate off l f)"
proof -
  obtain p w where pw: "locate off l f = (p, w)" by (cases "locate off l f")
  then have "p + w \<le> length bs" using locate_bounds [OF assms(1), of off] assms(2) by simp
  then show ?thesis by (simp add: get_at_def set_at_def pw le_value_bytes)
qed

lemma get_set_at_other:
  assumes "f \<in> fst ` set l" "g \<in> fst ` set l" "f \<noteq> g" "off + struct_size l \<le> length bs"
  shows "get_at off l g (set_at off l (f, v) bs) = get_at off l g bs"
proof -
  obtain p w q u where pw: "locate off l f = (p, w)" "locate off l g = (q, u)" by (cases "locate off l f"; cases "locate off l g")
  then have b: "p + w \<le> length bs" "q + u \<le> length bs" and d: "p + w \<le> q \<or> q + u \<le> p"
    using locate_bounds [OF assms(1), of off] locate_bounds [OF assms(2), of off] locate_disjoint [OF assms(1-3), of off] assms(4) by auto
  have "take u (drop q (take p bs @ le_bytes w v @ drop (p + w) bs)) = take u (drop q bs)"
    using d
  proof
    assume "p + w \<le> q"
    then show ?thesis using b by simp
  next
    assume "q + u \<le> p"
    then show ?thesis using b by (simp add: drop_take min_absorb1)
  qed
  then show ?thesis by (simp add: get_at_def set_at_def pw)
qed

lemma length_fold_set_at:
  "fst ` set fs \<subseteq> fst ` set l \<Longrightarrow> off + struct_size l \<le> length bs \<Longrightarrow> length (fold (set_at off l) fs bs) = length bs"
proof (induction fs arbitrary: bs)
  case (Cons x fs)
  then show ?case by (cases x) (auto simp: length_set_at)
qed simp

lemma get_at_fold:
  assumes "fst ` set fs \<subseteq> fst ` set l" "distinct (map fst fs)" "f \<in> fst ` set l" "off + struct_size l \<le> length bs"
  shows "get_at off l f (fold (set_at off l) fs bs) =
    (case map_of fs f of None \<Rightarrow> get_at off l f bs | Some v \<Rightarrow> v mod 256 ^ snd (locate off l f))"
  using assms
proof (induction fs arbitrary: bs)
  case (Cons x fs)
  obtain g v where x: "x = (g, v)" by (cases x)
  have g: "g \<in> fst ` set l" using Cons.prems(1) by (auto simp: x)
  have IH: "get_at off l f (fold (set_at off l) fs (set_at off l (g, v) bs)) =
      (case map_of fs f of None \<Rightarrow> get_at off l f (set_at off l (g, v) bs) | Some v \<Rightarrow> v mod 256 ^ snd (locate off l f))"
    using Cons g by (intro Cons.IH) (auto simp: x length_set_at)
  show ?case
  proof (cases "f = g")
    case True
    then have "map_of fs f = None" using Cons.prems(2) by (auto simp: x map_of_eq_None_iff)
    then show ?thesis using IH True get_set_at_same [OF g Cons.prems(4)] by (simp add: x)
  next
    case False
    then show ?thesis using IH get_set_at_other [OF g Cons.prems(3) _ Cons.prems(4)] by (auto simp: x split: option.split)
  qed
qed simp

lemma set_at_prefix: "f \<in> fst ` set l \<Longrightarrow> off + struct_size l \<le> length bs \<Longrightarrow> take off (set_at off l (f, v) bs) = take off bs"
  using locate_bounds [of f l off] by (cases "locate off l f") (simp add: set_at_def min_absorb1)

lemma fold_set_at_prefix:
  "fst ` set fs \<subseteq> fst ` set l \<Longrightarrow> off + struct_size l \<le> length bs \<Longrightarrow> take off (fold (set_at off l) fs bs) = take off bs"
proof (induction fs arbitrary: bs)
  case (Cons x fs)
  then show ?case by (cases x) (auto simp: length_set_at set_at_prefix)
qed simp

text \<open>A command reads back as its identifier and its fields, whatever the memory held before.\<close>

lemma init_cmd_facts:
  assumes "fst ` set fs \<subseteq> fst ` set l" "distinct (map fst fs)" "1 + struct_size l \<le> length bs"
  shows "length (init_cmd i l fs bs) = length bs" "cmd_id (init_cmd i l fs bs) = i mod 256"
    "f \<in> fst ` set l \<Longrightarrow> map_of fs f = Some v \<Longrightarrow> get_field l f (init_cmd i l fs bs) = v mod 256 ^ snd (locate 1 l f)"
proof -
  have l: "length (le_bytes 1 i @ drop 1 bs) = length bs" using assms(3) by simp
  show "length (init_cmd i l fs bs) = length bs"
    unfolding init_cmd_def using length_fold_set_at [OF assms(1)] assms(3) l by metis
  show "cmd_id (init_cmd i l fs bs) = i mod 256"
    unfolding init_cmd_def cmd_id_def using fold_set_at_prefix [OF assms(1), of 1 "le_bytes 1 i @ drop 1 bs"] assms(3) l
    by (simp add: le_value_bytes)
  show "get_field l f (init_cmd i l fs bs) = v mod 256 ^ snd (locate 1 l f)" if "f \<in> fst ` set l" "map_of fs f = Some v"
    unfolding init_cmd_def get_field_def
    using get_at_fold [OF assms(1,2) that(1), of 1 "le_bytes 1 i @ drop 1 bs"] assms(3) l that(2) by simp
qed

end
