(* ===== verification/Device_Command.thy ===== *)
theory Device_Command
  imports Cq_Commands
begin

text \<open>
  The builder of command sequences, \<open>DeviceCommand\<close> of
  src/tt_metal/impl/dispatch/device_command.hpp. The memory behind \<open>cmd_region\<close> is a list of
  bytes. The template parameter \<open>hugepage_write\<close> decides whether a command is assembled in a
  local variable and copied, or in place: \<open>uninitialized\<close> is what the local variable holds
  before it is filled, or \<open>None\<close> when commands are assembled in place.
\<close>

section \<open>State and memory\<close>

record device_command =
  cmd_sequence_sizeB :: u32
  cmd_region_addr :: u64
  cmd_region :: "byte list"
  cmd_write_offsetB :: u32
  pcie_align :: u32
  l1_align :: u32
  uninitialized :: "byte list option"
  zero_init_enable :: bool

definition check_sequence_size :: "u32 \<Rightarrow> device_command \<Rightarrow> tt_error + device_command" where
  "check_sequence_size sz c = (if sz mod 4 \<noteq> 0 then Inl (Tt_fatal ''Command sequence size is not aligned'') else Inr c)"

definition host_command_new :: "hal_values \<Rightarrow> bool \<Rightarrow> u32 \<Rightarrow> tt_error + device_command" where
  "host_command_new h zero_init sz = check_sequence_size sz
     \<lparr>cmd_sequence_sizeB = sz, cmd_region_addr = 0, cmd_region = replicate (4 * (sz div 4)) 0, cmd_write_offsetB = 0,
      pcie_align = host_alignment h, l1_align = l1_alignment h, uninitialized = None, zero_init_enable = zero_init\<rparr>"

definition hugepage_command_new ::
    "hal_values \<Rightarrow> bool \<Rightarrow> byte list \<Rightarrow> u64 \<Rightarrow> byte list \<Rightarrow> u32 \<Rightarrow> tt_error + device_command" where
  "hugepage_command_new h zero_init local_contents a memory sz = check_sequence_size sz
     \<lparr>cmd_sequence_sizeB = sz, cmd_region_addr = a, cmd_region = memory, cmd_write_offsetB = 0,
      pcie_align = host_alignment h, l1_align = l1_alignment h, uninitialized = Some local_contents, zero_init_enable = zero_init\<rparr>"

definition put_bytes :: "u32 \<Rightarrow> byte list \<Rightarrow> device_command \<Rightarrow> tt_error + device_command" where
  "put_bytes off bs c =
     (if off + length bs \<le> length (cmd_region c)
      then Inr (c\<lparr>cmd_region := take off (cmd_region c) @ bs @ drop (off + length bs) (cmd_region c)\<rparr>)
      else Inl Undefined)"

text \<open>The copy to a huge page works in words: the last one is filled up with zeros.\<close>

definition fill_word :: "byte list \<Rightarrow> byte list" where
  "fill_word bs = bs @ replicate ((4 - length bs mod 4) mod 4) 0"

definition memcpy_to_device :: "u32 \<Rightarrow> byte list \<Rightarrow> device_command \<Rightarrow> tt_error + device_command" where
  "memcpy_to_device off bs c =
     (if (cmd_region_addr c + off) mod 16 \<noteq> 0 then Inl (Tt_assert ''dst % MEMCPY_ALIGNMENT == 0'')
      else put_bytes off (fill_word bs) c)"

definition dc_memcpy :: "u32 \<Rightarrow> byte list \<Rightarrow> device_command \<Rightarrow> tt_error + device_command" where
  "dc_memcpy off bs c = (if uninitialized c = None then put_bytes off bs c else memcpy_to_device off bs c)"

definition validate_cmd_write :: "u32 \<Rightarrow> device_command \<Rightarrow> tt_error + device_command" where
  "validate_cmd_write sz c =
     (if \<not> add32 (cmd_write_offsetB c) sz \<le> cmd_sequence_sizeB c
      then Inl (Tt_assert ''Out of bounds command sequence write'') else Inr c)"

definition advance :: "u32 \<Rightarrow> device_command \<Rightarrow> device_command" where
  "advance n c = c\<lparr>cmd_write_offsetB := add32 (cmd_write_offsetB c) n\<rparr>"

definition align_offset :: "device_command \<Rightarrow> device_command" where
  "align_offset c = c\<lparr>cmd_write_offsetB := align_u32 (cmd_write_offsetB c) (pcie_align c)\<rparr>"

text \<open>The first argument is the size of what the pointer refers to, \<open>None\<close> for data.\<close>

definition reserve_space :: "nat option \<Rightarrow> u32 \<Rightarrow> device_command \<Rightarrow> tt_error + u32 \<times> device_command" where
  "reserve_space object sz c =
     bind_result (validate_cmd_write sz c) (\<lambda>c.
       bind_result
         (case object of
            None \<Rightarrow> Inr c
          | Some k \<Rightarrow> if zero_init_enable c then dc_memcpy (cmd_write_offsetB c) (replicate k 0) c else Inr c)
         (\<lambda>c. Inr (cmd_write_offsetB c, advance sz c)))"

definition write_cmd :: "u32 \<Rightarrow> (byte list \<Rightarrow> byte list) \<Rightarrow> device_command \<Rightarrow> tt_error + device_command" where
  "write_cmd dst initialize c =
     (case uninitialized c of
        None \<Rightarrow> if dst + CMD_SIZE \<le> length (cmd_region c)
                then put_bytes dst (initialize (take CMD_SIZE (drop dst (cmd_region c)))) c else Inl Undefined
      | Some contents \<Rightarrow> dc_memcpy dst (initialize contents) c)"

text \<open>Reserving space for one command and filling it.\<close>

definition place_cmd :: "u32 \<Rightarrow> (byte list \<Rightarrow> byte list) \<Rightarrow> device_command \<Rightarrow> tt_error + device_command" where
  "place_cmd sz initialize c = bind_result (reserve_space (Some CMD_SIZE) sz c) (\<lambda>(dst, c). write_cmd dst initialize c)"

text \<open>A command that is cleared before its fields are set.\<close>

definition zeroed :: "(byte list \<Rightarrow> byte list) \<Rightarrow> byte list \<Rightarrow> byte list" where
  "zeroed initialize bs = initialize (replicate CMD_SIZE 0)"

definition update_cmd_sequence :: "u32 \<Rightarrow> byte list \<Rightarrow> device_command \<Rightarrow> tt_error + device_command" where
  "update_cmd_sequence off new_data c = dc_memcpy off new_data c"

definition add_data :: "byte list \<Rightarrow> u32 \<Rightarrow> device_command \<Rightarrow> tt_error + device_command" where
  "add_data data increment c =
     bind_result (validate_cmd_write increment c) (\<lambda>c.
       bind_result (dc_memcpy (cmd_write_offsetB c) data c) (\<lambda>c. Inr (advance increment c)))"

section \<open>Prefetcher commands\<close>

datatype dispatcher_select = DISPATCH_MASTER | DISPATCH_SLAVE

fun dispatcher_index :: "dispatcher_select \<Rightarrow> nat" where
  "dispatcher_index DISPATCH_MASTER = 0"
| "dispatcher_index DISPATCH_SLAVE = 1"

definition increment_sizeB :: "u32 \<Rightarrow> device_command \<Rightarrow> u32" where
  "increment_sizeB n c = align_u32 n (pcie_align c)"

definition relay_inline_cmd :: "nat \<Rightarrow> nat \<Rightarrow> u32 \<Rightarrow> u32 \<Rightarrow> byte list \<Rightarrow> byte list" where
  "relay_inline_cmd i dispatcher len al =
     init_cmd i CQPrefetchRelayInlineCmd
       [(''dispatcher_type'', dispatcher), (''length'', len), (''stride'', align_u32 (add32 CMD_SIZE len) al)]"

definition add_prefetch_relay_inline :: "bool \<Rightarrow> u32 \<Rightarrow> dispatcher_select \<Rightarrow> device_command \<Rightarrow> tt_error + device_command" where
  "add_prefetch_relay_inline flush lengthB dispatcher_type c =
     (if \<not> flush \<and> \<not> lengthB \<le> 2 ^ DISPATCH_BUFFER_LOG_PAGE_SIZE
      then Inl (Tt_assert ''Data to relay for inline no flush must fit within one page'')
      else place_cmd CMD_SIZE
             (relay_inline_cmd (if flush then CQ_PREFETCH_CMD_RELAY_INLINE else CQ_PREFETCH_CMD_RELAY_INLINE_NOFLUSH)
                (dispatcher_index dispatcher_type) lengthB (pcie_align c)) c)"

definition add_prefetch_relay_linear :: "u32 \<Rightarrow> u32 \<Rightarrow> u32 \<Rightarrow> device_command \<Rightarrow> tt_error + device_command" where
  "add_prefetch_relay_linear noc_xy_addr lengthB ad c =
     place_cmd (increment_sizeB CMD_SIZE c)
       (init_cmd CQ_PREFETCH_CMD_RELAY_LINEAR CQPrefetchRelayLinearCmd
          [(''noc_xy_addr'', noc_xy_addr), (''length'', lengthB), (''addr'', ad)]) c"

definition packed_page_flags :: "nat \<Rightarrow> nat \<Rightarrow> nat" where
  "packed_page_flags is_dram start_page =
     push_bit CQ_PREFETCH_RELAY_PAGED_IS_DRAM_SHIFT is_dram OR push_bit CQ_PREFETCH_RELAY_PAGED_START_PAGE_SHIFT start_page"

definition add_prefetch_relay_paged ::
    "nat \<Rightarrow> nat \<Rightarrow> u32 \<Rightarrow> u32 \<Rightarrow> u32 \<Rightarrow> nat \<Rightarrow> device_command \<Rightarrow> tt_error + device_command" where
  "add_prefetch_relay_paged is_dram start_page base_addr page_size pages length_adjust c =
     place_cmd (increment_sizeB CMD_SIZE c)
       (init_cmd CQ_PREFETCH_CMD_RELAY_PAGED CQPrefetchRelayPagedCmd
          [(''packed_page_flags'', packed_page_flags is_dram start_page), (''length_adjust'', length_adjust),
           (''base_addr'', base_addr), (''page_size'', page_size), (''pages'', pages)]) c"

text \<open>The sub-commands are the bytes of their structures; reading beyond their vector is undefined.\<close>

definition sub_cmd_bytes :: "u32 \<Rightarrow> u32 \<Rightarrow> byte list list \<Rightarrow> tt_error + byte list" where
  "sub_cmd_bytes offset_idx n sub_cmds =
     (if offset_idx + n \<le> length sub_cmds then Inr (concat (take n (drop offset_idx sub_cmds))) else Inl Undefined)"

definition add_prefetch_relay_paged_packed ::
    "u32 \<Rightarrow> byte list list \<Rightarrow> nat \<Rightarrow> u32 \<Rightarrow> device_command \<Rightarrow> tt_error + device_command" where
  "add_prefetch_relay_paged_packed len sub_cmds num_sub_cmds offset_idx c =
     (let sub_cmds_sizeB = mul32 num_sub_cmds (struct_size CQPrefetchRelayPagedPackedSubCmd);
          inc = increment_sizeB (add32 sub_cmds_sizeB CMD_SIZE) c
      in bind_result (reserve_space (Some CMD_SIZE) inc c) (\<lambda>(dst, c).
           bind_result (write_cmd dst
             (init_cmd CQ_PREFETCH_CMD_RELAY_PAGED_PACKED CQPrefetchRelayPagedPackedCmd
                [(''total_length'', len), (''stride'', inc), (''count'', num_sub_cmds)]) c) (\<lambda>c.
             bind_result (sub_cmd_bytes offset_idx num_sub_cmds sub_cmds) (\<lambda>bs. dc_memcpy (dst + CMD_SIZE) bs c))))"

definition add_prefetch_exec_buf :: "u32 \<Rightarrow> u32 \<Rightarrow> u32 \<Rightarrow> device_command \<Rightarrow> tt_error + device_command" where
  "add_prefetch_exec_buf base_addr log_page_size pages c =
     place_cmd (increment_sizeB CMD_SIZE c)
       (init_cmd CQ_PREFETCH_CMD_EXEC_BUF CQPrefetchExecBufCmd
          [(''base_addr'', base_addr), (''log_page_size'', log_page_size), (''pages'', pages)]) c"

definition add_prefetch_terminate :: "device_command \<Rightarrow> tt_error + device_command" where
  "add_prefetch_terminate c = place_cmd (increment_sizeB CMD_SIZE c) (zeroed (init_cmd CQ_PREFETCH_CMD_TERMINATE [] [])) c"

text \<open>Two commands whose spaces are reserved before either is filled.\<close>

definition place_two :: "(byte list \<Rightarrow> byte list) \<Rightarrow> (byte list \<Rightarrow> byte list) \<Rightarrow> device_command \<Rightarrow> tt_error + device_command" where
  "place_two first second c =
     bind_result (reserve_space (Some CMD_SIZE) CMD_SIZE c) (\<lambda>(dst1, c).
       bind_result (reserve_space (Some CMD_SIZE) CMD_SIZE c) (\<lambda>(dst2, c).
         bind_result (write_cmd dst1 first c) (\<lambda>c.
           bind_result (write_cmd dst2 second c) (\<lambda>c. Inr (align_offset c)))))"

definition add_prefetch_exec_buf_end :: "device_command \<Rightarrow> tt_error + device_command" where
  "add_prefetch_exec_buf_end c =
     place_two
       (init_cmd CQ_PREFETCH_CMD_EXEC_BUF_END CQPrefetchRelayInlineCmd
          [(''length'', CMD_SIZE), (''stride'', align_u32 (CMD_SIZE + CMD_SIZE) (pcie_align c))])
       (init_cmd CQ_DISPATCH_CMD_EXEC_BUF_END [] []) c"

section \<open>Dispatcher commands\<close>

definition add_dispatch_wait ::
    "nat \<Rightarrow> u32 \<Rightarrow> u32 \<Rightarrow> nat \<Rightarrow> bool \<Rightarrow> bool \<Rightarrow> nat \<Rightarrow> device_command \<Rightarrow> tt_error + device_command" where
  "add_dispatch_wait barrier address count clear_count notify_prefetch do_wait dispatcher_type c =
     place_two
       (relay_inline_cmd CQ_PREFETCH_CMD_RELAY_INLINE dispatcher_type CMD_SIZE (pcie_align c))
       (init_cmd CQ_DISPATCH_CMD_WAIT CQDispatchWaitCmd
          [(''barrier'', barrier), (''notify_prefetch'', of_bool notify_prefetch), (''wait'', of_bool do_wait),
           (''addr'', address), (''count'', count), (''clear_count'', clear_count)]) c"

definition add_dispatch_wait_with_prefetch_stall ::
    "nat \<Rightarrow> u32 \<Rightarrow> u32 \<Rightarrow> nat \<Rightarrow> bool \<Rightarrow> device_command \<Rightarrow> tt_error + device_command" where
  "add_dispatch_wait_with_prefetch_stall barrier address count clear_count do_wait c =
     bind_result (add_dispatch_wait barrier address count clear_count True do_wait 0 c) (\<lambda>c.
       place_cmd (increment_sizeB CMD_SIZE c) (zeroed (init_cmd CQ_PREFETCH_CMD_STALL [] [])) c)"

text \<open>Relayed commands: the inline command of the prefetcher, and the command of the dispatcher.\<close>

definition relay_cmd ::
    "bool \<Rightarrow> u32 \<Rightarrow> dispatcher_select \<Rightarrow> (byte list \<Rightarrow> byte list) \<Rightarrow> device_command \<Rightarrow> tt_error + device_command" where
  "relay_cmd flush lengthB dispatcher initialize c =
     bind_result (add_prefetch_relay_inline flush lengthB dispatcher c) (place_cmd CMD_SIZE initialize)"

definition relay_aligned ::
    "u32 \<Rightarrow> dispatcher_select \<Rightarrow> (byte list \<Rightarrow> byte list) \<Rightarrow> device_command \<Rightarrow> tt_error + device_command" where
  "relay_aligned lengthB dispatcher initialize c =
     bind_result (relay_cmd True lengthB dispatcher initialize c) (\<lambda>c. Inr (align_offset c))"

definition payload_size :: "bool \<Rightarrow> u32 \<Rightarrow> u32" where
  "payload_size flush_prefetch data_sizeB = add32 CMD_SIZE (if flush_prefetch then data_sizeB else 0)"

definition add_inline_data :: "byte list option \<Rightarrow> device_command \<Rightarrow> tt_error + device_command" where
  "add_inline_data data c = (case data of None \<Rightarrow> Inr c | Some bs \<Rightarrow> add_data bs (increment_sizeB (length bs) c) c)"

text \<open>The data of the template instances with \<open>inline_data\<close> is given, \<open>None\<close> otherwise.\<close>

definition add_dispatch_write_linear ::
    "bool \<Rightarrow> nat \<Rightarrow> u32 \<Rightarrow> u32 \<Rightarrow> u32 \<Rightarrow> byte list option \<Rightarrow> nat \<Rightarrow> device_command \<Rightarrow> tt_error + device_command" where
  "add_dispatch_write_linear flush_prefetch num_mcast_dests noc_xy_addr ad data_sizeB data write_offset_index c =
     bind_result (relay_cmd flush_prefetch (payload_size flush_prefetch data_sizeB) DISPATCH_MASTER
       (init_cmd CQ_DISPATCH_CMD_WRITE_LINEAR CQDispatchWriteCmd
          [(''num_mcast_dests'', num_mcast_dests), (''write_offset_index'', write_offset_index), (''noc_xy_addr'', noc_xy_addr),
           (''addr'', ad), (''length'', data_sizeB)]) c)
       (add_inline_data data)"

definition add_dispatch_go_signal_mcast ::
    "u32 \<Rightarrow> u32 \<Rightarrow> u32 \<Rightarrow> nat \<Rightarrow> nat \<Rightarrow> nat \<Rightarrow> dispatcher_select \<Rightarrow> device_command \<Rightarrow> tt_error + device_command" where
  "add_dispatch_go_signal_mcast wait_count go_signal wait_addr num_mcast_txns num_unicast_txns noc_data_start_index dispatcher_type =
     relay_aligned CMD_SIZE dispatcher_type
       (zeroed (init_cmd CQ_DISPATCH_CMD_SEND_GO_SIGNAL CQDispatchGoSignalMcastCmd
          [(''go_signal'', go_signal), (''wait_count'', wait_count), (''num_mcast_txns'', num_mcast_txns),
           (''num_unicast_txns'', num_unicast_txns), (''noc_data_start_index'', noc_data_start_index), (''wait_addr'', wait_addr)]))"

definition add_notify_dispatch_s_go_signal_cmd :: "nat \<Rightarrow> nat \<Rightarrow> device_command \<Rightarrow> tt_error + device_command" where
  "add_notify_dispatch_s_go_signal_cmd wait index_bitmask =
     relay_aligned CMD_SIZE DISPATCH_MASTER
       (zeroed (init_cmd CQ_DISPATCH_NOTIFY_SLAVE_GO_SIGNAL CQDispatchNotifySlaveGoSignalCmd
          [(''wait'', wait), (''index_bitmask'', index_bitmask)]))"

definition add_dispatch_write_paged ::
    "bool \<Rightarrow> nat \<Rightarrow> nat \<Rightarrow> u32 \<Rightarrow> u32 \<Rightarrow> u32 \<Rightarrow> byte list option \<Rightarrow> device_command \<Rightarrow> tt_error + device_command" where
  "add_dispatch_write_paged flush_prefetch is_dram start_page base_addr page_size pages data c =
     bind_result (relay_cmd flush_prefetch (payload_size flush_prefetch (mul32 page_size pages)) DISPATCH_MASTER
       (init_cmd CQ_DISPATCH_CMD_WRITE_PAGED CQDispatchWritePagedCmd
          [(''is_dram'', is_dram), (''start_page'', start_page), (''base_addr'', base_addr), (''page_size'', page_size),
           (''pages'', pages)]) c)
       (add_inline_data data)"

definition add_dispatch_write_host :: "bool \<Rightarrow> u32 \<Rightarrow> bool \<Rightarrow> byte list option \<Rightarrow> device_command \<Rightarrow> tt_error + device_command" where
  "add_dispatch_write_host flush_prefetch data_sizeB is_event data c =
     bind_result (relay_cmd flush_prefetch (payload_size flush_prefetch data_sizeB) DISPATCH_MASTER
       (init_cmd CQ_DISPATCH_CMD_WRITE_LINEAR_H_HOST CQDispatchWriteHostCmd
          [(''is_event'', of_bool is_event), (''length'', add32 CMD_SIZE data_sizeB)]) c) (\<lambda>c.
       bind_result (case data of None \<Rightarrow> Inr c | Some bs \<Rightarrow> add_data bs (length bs) c) (\<lambda>c. Inr (align_offset c)))"

definition add_dispatch_set_num_worker_sems :: "u32 \<Rightarrow> dispatcher_select \<Rightarrow> device_command \<Rightarrow> tt_error + device_command" where
  "add_dispatch_set_num_worker_sems num_worker_sems dispatcher_type =
     relay_aligned CMD_SIZE dispatcher_type
       (init_cmd CQ_DISPATCH_SET_NUM_WORKER_SEMS CQDispatchSetNumWorkerSemsCmd [(''num_worker_sems'', num_worker_sems)])"

definition DISPATCH_GO_SIGNAL_NOC_DATA_ENTRIES :: nat where "DISPATCH_GO_SIGNAL_NOC_DATA_ENTRIES = 64"

definition add_dispatch_set_go_signal_noc_data :: "u32 list \<Rightarrow> dispatcher_select \<Rightarrow> device_command \<Rightarrow> tt_error + device_command" where
  "add_dispatch_set_go_signal_noc_data noc_data dispatcher_type c =
     (let data_sizeB = length noc_data * 4; lengthB = add32 CMD_SIZE data_sizeB
      in if \<not> length noc_data \<le> DISPATCH_GO_SIGNAL_NOC_DATA_ENTRIES then Inl (Tt_assert ''Number of words exceeds maximum'')
         else if \<not> lengthB \<le> 2 ^ DISPATCH_BUFFER_LOG_PAGE_SIZE
           then Inl (Tt_assert ''Data for go signal mcast must fit within one page'')
         else bind_result (relay_cmd True lengthB dispatcher_type
                (init_cmd CQ_DISPATCH_SET_GO_SIGNAL_NOC_DATA CQDispatchSetGoSignalNocDataCmd [(''num_words'', length noc_data)]) c) (\<lambda>c.
                bind_result (reserve_space (Some 4) data_sizeB c) (\<lambda>(dst, c).
                  bind_result (dc_memcpy dst (concat (map (le_bytes 4) noc_data)) c) (\<lambda>c. Inr (align_offset c)))))"

definition add_dispatch_set_write_offsets :: "u32 \<Rightarrow> u32 \<Rightarrow> u32 \<Rightarrow> device_command \<Rightarrow> tt_error + device_command" where
  "add_dispatch_set_write_offsets o0 o1 o2 =
     relay_aligned CMD_SIZE DISPATCH_MASTER
       (zeroed (init_cmd CQ_DISPATCH_CMD_SET_WRITE_OFFSET CQDispatchSetWriteOffsetCmd
          [(''offset0'', o0), (''offset1'', o1), (''offset2'', o2)]))"

definition add_dispatch_terminate :: "dispatcher_select \<Rightarrow> device_command \<Rightarrow> tt_error + device_command" where
  "add_dispatch_terminate dispatcher_type =
     relay_aligned CMD_SIZE dispatcher_type (zeroed (init_cmd CQ_DISPATCH_CMD_TERMINATE [] []))"

section \<open>Packed writes\<close>

definition write_packed_flags :: "bool \<Rightarrow> bool \<Rightarrow> nat" where
  "write_packed_flags multicast no_stride =
     (if multicast then CQ_DISPATCH_CMD_PACKED_WRITE_FLAG_MCAST else CQ_DISPATCH_CMD_PACKED_WRITE_FLAG_NONE) OR
     (if no_stride then CQ_DISPATCH_CMD_PACKED_WRITE_FLAG_NO_STRIDE else CQ_DISPATCH_CMD_PACKED_WRITE_FLAG_NONE)"

definition packed_sub_cmd_size :: "bool \<Rightarrow> nat" where
  "packed_sub_cmd_size multicast =
     struct_size (if multicast then CQDispatchWritePackedMulticastSubCmd else CQDispatchWritePackedUnicastSubCmd)"

text \<open>The data of one sub-command, in pieces with their strides, and of all of them.\<close>

fun copy_pieces :: "u32 \<Rightarrow> (byte list \<times> u32) list \<Rightarrow> device_command \<Rightarrow> tt_error + device_command" where
  "copy_pieces off [] c = Inr c"
| "copy_pieces off ((bs, stride) # ps) c =
     bind_result (dc_memcpy (cmd_write_offsetB c + off) bs c) (copy_pieces (add32 off stride) ps)"

fun copy_packed :: "u32 \<Rightarrow> (byte list \<times> u32) list list \<Rightarrow> device_command \<Rightarrow> tt_error + device_command" where
  "copy_packed increment [] c = Inr c"
| "copy_packed increment (ps # ds) c =
     bind_result (copy_pieces 0 ps c) (\<lambda>c. copy_packed increment ds (advance increment c))"

definition packed_slice :: "u32 \<Rightarrow> u32 \<Rightarrow> 'a list \<Rightarrow> tt_error + 'a list" where
  "packed_slice offset_idx n xs = (if offset_idx + n \<le> length xs then Inr (take n (drop offset_idx xs)) else Inl Undefined)"

text \<open>
  The two overloads of \<open>add_dispatch_write_packed\<close> differ in the data of a sub-command, one
  piece or several, and in the kind of the first check, \<open>TT_FATAL\<close> or \<open>TT_ASSERT\<close>.
\<close>

definition write_packed ::
    "tt_error \<Rightarrow> bool \<Rightarrow> nat \<Rightarrow> u32 \<Rightarrow> nat \<Rightarrow> u32 \<Rightarrow> byte list list \<Rightarrow> (byte list \<times> u32) list list \<Rightarrow> u32 \<Rightarrow> u32 \<Rightarrow> bool \<Rightarrow> u32 \<Rightarrow>
     device_command \<Rightarrow> tt_error + device_command" where
  "write_packed too_many multicast num_sub_cmds common_addr packed_data_sizeB payload_sizeB sub_cmds data_collection
       packed_write_max_unicast_sub_cmds offset_idx no_stride write_offset_index c =
     (let max_num = (if multicast then get_packed_write_max_multicast_sub_cmds packed_write_max_unicast_sub_cmds
                     else packed_write_max_unicast_sub_cmds)
      in if \<not> num_sub_cmds \<le> max_num then Inl too_many
         else
           bind_result (relay_cmd True payload_sizeB DISPATCH_MASTER
             (init_cmd CQ_DISPATCH_CMD_WRITE_PACKED CQDispatchWritePackedCmd
                [(''flags'', write_packed_flags multicast no_stride), (''count'', num_sub_cmds),
                 (''write_offset_index'', write_offset_index), (''addr'', common_addr), (''size'', packed_data_sizeB)]) c) (\<lambda>c.
           bind_result (sub_cmd_bytes offset_idx num_sub_cmds sub_cmds) (\<lambda>bs.
           bind_result (dc_memcpy (cmd_write_offsetB c) bs c) (\<lambda>c.
             let c = advance (align_u32 (mul32 num_sub_cmds (packed_sub_cmd_size multicast)) (l1_align c)) c
             in bind_result (packed_slice offset_idx (if no_stride then 1 else num_sub_cmds) data_collection) (\<lambda>ds.
                bind_result (copy_packed (align_u32 packed_data_sizeB (l1_align c)) ds c) (\<lambda>c. Inr (align_offset c)))))))"

definition add_dispatch_write_packed ::
    "bool \<Rightarrow> nat \<Rightarrow> u32 \<Rightarrow> nat \<Rightarrow> u32 \<Rightarrow> byte list list \<Rightarrow> byte list list \<Rightarrow> u32 \<Rightarrow> u32 \<Rightarrow> bool \<Rightarrow> u32 \<Rightarrow>
     device_command \<Rightarrow> tt_error + device_command" where
  "add_dispatch_write_packed multicast num_sub_cmds common_addr packed_data_sizeB payload_sizeB sub_cmds data_collection =
     write_packed (Tt_fatal ''Max number of packed sub commands'') multicast num_sub_cmds common_addr packed_data_sizeB payload_sizeB
       sub_cmds (map (\<lambda>bs. [(bs, 0)]) data_collection)"

definition add_dispatch_write_packed_pieces ::
    "bool \<Rightarrow> nat \<Rightarrow> u32 \<Rightarrow> nat \<Rightarrow> u32 \<Rightarrow> byte list list \<Rightarrow> (byte list \<times> u32) list list \<Rightarrow> u32 \<Rightarrow> u32 \<Rightarrow> bool \<Rightarrow> u32 \<Rightarrow>
     device_command \<Rightarrow> tt_error + device_command" where
  "add_dispatch_write_packed_pieces = write_packed (Tt_assert ''Max number of packed sub commands'')"

definition add_dispatch_write_packed_large ::
    "nat \<Rightarrow> nat \<Rightarrow> byte list list \<Rightarrow> u32 \<Rightarrow> u32 \<Rightarrow> device_command \<Rightarrow> tt_error + device_command" where
  "add_dispatch_write_packed_large al num_sub_cmds sub_cmds offset_idx write_offset_index c =
     (if \<not> num_sub_cmds \<le> CQ_DISPATCH_CMD_PACKED_WRITE_LARGE_MAX_SUB_CMDS then Inl (Tt_assert ''Cannot fit sub cmds'')
      else
        let sub_cmds_sizeB = mul32 num_sub_cmds (struct_size CQDispatchWritePackedLargeSubCmd);
            payload = align_u32 (add32 CMD_SIZE sub_cmds_sizeB) (l1_align c)
        in bind_result (add_prefetch_relay_inline False payload DISPATCH_MASTER c) (\<lambda>c.
           bind_result (reserve_space (Some CMD_SIZE) (sub32 (align_u32 (add32 CMD_SIZE payload) (pcie_align c)) CMD_SIZE) c) (\<lambda>(dst, c).
           bind_result (write_cmd dst
             (init_cmd CQ_DISPATCH_CMD_WRITE_PACKED_LARGE CQDispatchWritePackedLargeCmd
                [(''count'', num_sub_cmds), (''alignment'', al), (''write_offset_index'', write_offset_index)]) c) (\<lambda>c.
           bind_result (sub_cmd_bytes offset_idx num_sub_cmds sub_cmds) (\<lambda>bs.
           bind_result (dc_memcpy (dst + CMD_SIZE) bs c) (\<lambda>c. Inr (align_offset c)))))))"

end
