(* ===== verification/Command_Reader.thy ===== *)
theory Command_Reader
  imports Device_Command
begin

text \<open>
  How the kernels on the device read commands: the prefetch kernel
  (src/tt_metal/impl/dispatch/kernels/cq_prefetch.cpp) walks over the commands it has fetched,
  and the dispatch kernel (cq_dispatch.cpp) reads what is relayed to it. The memory from the
  command pointer on is a list of bytes. What the kernels do with a command, moving data over
  the network on chip, is recorded as an action with the values they read.
\<close>

section \<open>The prefetch kernel\<close>

datatype prefetch_action =
    Relay_linear u32 u32 u32
  | Relay_paged bool nat u32 u32 u32 nat
  | Relay_paged_packed u32 "byte list"
  | Relay_inline dispatcher_select "byte list"
  | Relay_inline_noflush "byte list"
  | Exec_buf u32 u32 u32
  | Exec_buf_end "byte list"
  | Stall_prefetch
  | Debug_prefetch
  | Terminate_prefetch

definition relayed_data :: "byte list \<Rightarrow> byte list" where
  "relayed_data bs = take (get_field CQPrefetchRelayInlineCmd ''length'' bs) (drop CMD_SIZE bs)"

definition relay_stride :: "byte list \<Rightarrow> u32" where
  "relay_stride bs = get_field CQPrefetchRelayInlineCmd ''stride'' bs"

definition relay_paged_action :: "byte list \<Rightarrow> prefetch_action" where
  "relay_paged_action bs =
     (let flags = get_field CQPrefetchRelayPagedCmd ''packed_page_flags'' bs
      in Relay_paged (flags AND push_bit CQ_PREFETCH_RELAY_PAGED_IS_DRAM_SHIFT 1 \<noteq> 0)
           (drop_bit CQ_PREFETCH_RELAY_PAGED_START_PAGE_SHIFT flags AND CQ_PREFETCH_RELAY_PAGED_START_PAGE_MASK)
           (get_field CQPrefetchRelayPagedCmd ''base_addr'' bs) (get_field CQPrefetchRelayPagedCmd ''page_size'' bs)
           (get_field CQPrefetchRelayPagedCmd ''pages'' bs) (get_field CQPrefetchRelayPagedCmd ''length_adjust'' bs))"

definition relay_paged_packed_action :: "byte list \<Rightarrow> prefetch_action" where
  "relay_paged_packed_action bs =
     Relay_paged_packed (get_field CQPrefetchRelayPagedPackedCmd ''total_length'' bs)
       (take (get_field CQPrefetchRelayPagedPackedCmd ''count'' bs * struct_size CQPrefetchRelayPagedPackedSubCmd) (drop CMD_SIZE bs))"

text \<open>
  \<open>al\<close> is \<open>CQ_PREFETCH_CMD_BARE_MIN_SIZE\<close>, \<open>exec_buf\<close> whether the commands come from a trace
  buffer. The result has the action, the distance to the next command, and whether the loop
  ends; there is none for a command that fails an assertion.
\<close>

definition process_cmd :: "u32 \<Rightarrow> bool \<Rightarrow> byte list \<Rightarrow> (prefetch_action \<times> u32 \<times> bool) option" where
  "process_cmd al exec_buf bs =
     (let i = cmd_id bs
      in if i = CQ_PREFETCH_CMD_RELAY_LINEAR
         then Some (Relay_linear (get_field CQPrefetchRelayLinearCmd ''noc_xy_addr'' bs) (get_field CQPrefetchRelayLinearCmd ''addr'' bs)
                      (get_field CQPrefetchRelayLinearCmd ''length'' bs), al, False)
         else if i = CQ_PREFETCH_CMD_RELAY_PAGED then Some (relay_paged_action bs, al, False)
         else if i = CQ_PREFETCH_CMD_RELAY_PAGED_PACKED
         then Some (relay_paged_packed_action bs, get_field CQPrefetchRelayPagedPackedCmd ''stride'' bs, False)
         else if i = CQ_PREFETCH_CMD_RELAY_INLINE
         then Some (Relay_inline (if get_field CQPrefetchRelayInlineCmd ''dispatcher_type'' bs = 0 then DISPATCH_MASTER else DISPATCH_SLAVE)
                      (relayed_data bs), relay_stride bs, False)
         else if i = CQ_PREFETCH_CMD_RELAY_INLINE_NOFLUSH then Some (Relay_inline_noflush (relayed_data bs), relay_stride bs, False)
         else if i = CQ_PREFETCH_CMD_EXEC_BUF \<and> \<not> exec_buf
         then Some (Exec_buf (get_field CQPrefetchExecBufCmd ''base_addr'' bs) (get_field CQPrefetchExecBufCmd ''log_page_size'' bs)
                      (get_field CQPrefetchExecBufCmd ''pages'' bs), al, False)
         else if i = CQ_PREFETCH_CMD_EXEC_BUF_END \<and> exec_buf then Some (Exec_buf_end (relayed_data bs), relay_stride bs, True)
         else if i = CQ_PREFETCH_CMD_STALL then Some (Stall_prefetch, al, False)
         else if i = CQ_PREFETCH_CMD_DEBUG \<and> \<not> exec_buf
         then Some (Debug_prefetch, get_field CQGenericDebugCmd ''stride'' bs, False)
         else if i = CQ_PREFETCH_CMD_TERMINATE \<and> \<not> exec_buf then Some (Terminate_prefetch, 0, True)
         else None)"

text \<open>The loop over fetched commands; a command with no stride is met again for ever.\<close>

function prefetch_walk :: "u32 \<Rightarrow> bool \<Rightarrow> byte list \<Rightarrow> prefetch_action list option" where
  "prefetch_walk al exec_buf bs =
     (if bs = [] then Some []
      else case process_cmd al exec_buf bs of
             None \<Rightarrow> None
           | Some (a, stride, fin) \<Rightarrow>
               if fin then Some [a]
               else if stride = 0 then None
               else map_option (\<lambda>as. a # as) (prefetch_walk al exec_buf (drop stride bs)))"
  by pat_completeness auto
termination
  by (relation "measure (\<lambda>(al, exec_buf, bs). length bs)") auto

declare prefetch_walk.simps [simp del]

section \<open>The dispatch kernel\<close>

text \<open>Commands the builder never emits, for chained kernels and for tests, are recorded by their identifier.\<close>

datatype dispatch_cmd =
    D_write_linear nat nat u32 u32 u32 "byte list"
  | D_write_host bool u32 "byte list"
  | D_write_paged bool nat u32 u32 u32 "byte list"
  | D_write_packed bool bool u32 nat nat "(byte list \<times> byte list) list"
  | D_write_packed_large nat nat "byte list list"
  | D_wait bool bool bool bool u32 u32
  | D_set_write_offset u32 u32 u32
  | D_send_go_signal u32 nat nat nat u32 u32
  | D_notify_dispatch_s bool nat
  | D_set_num_worker_sems u32
  | D_set_go_signal_noc_data "u32 list"
  | D_exec_buf_end
  | D_terminate
  | D_other nat

fun chunks :: "nat \<Rightarrow> nat \<Rightarrow> byte list \<Rightarrow> byte list list" where
  "chunks 0 w bs = []"
| "chunks (Suc n) w bs = take w bs # chunks n w (drop w bs)"

definition write_packed_view :: "u32 \<Rightarrow> byte list \<Rightarrow> dispatch_cmd" where
  "write_packed_view al bs =
     (let f = (\<lambda>x. get_field CQDispatchWritePackedCmd x bs);
          mcast = (f ''flags'' AND CQ_DISPATCH_CMD_PACKED_WRITE_FLAG_MCAST \<noteq> 0);
          no_stride = (f ''flags'' AND CQ_DISPATCH_CMD_PACKED_WRITE_FLAG_NO_STRIDE \<noteq> 0);
          count = f ''count''; xfer_size = f ''size'';
          data_ptr = align_u32 (CMD_SIZE + count * packed_sub_cmd_size mcast) al;
          stride = (if no_stride then 0 else align_u32 xfer_size al)
      in D_write_packed mcast no_stride (f ''addr'') xfer_size (f ''write_offset_index'')
           (zip (chunks count (packed_sub_cmd_size mcast) (drop CMD_SIZE bs))
                (map (\<lambda>k. take xfer_size (drop (data_ptr + k * stride) bs)) [0..<count])))"

definition dispatch_view :: "u32 \<Rightarrow> byte list \<Rightarrow> dispatch_cmd option" where
  "dispatch_view al bs =
     (let i = cmd_id bs; data = drop CMD_SIZE bs
      in if i = CQ_DISPATCH_CMD_WRITE_LINEAR
         then let f = (\<lambda>x. get_field CQDispatchWriteCmd x bs)
              in Some (D_write_linear (f ''num_mcast_dests'') (f ''write_offset_index'') (f ''noc_xy_addr'') (f ''addr'') (f ''length'') data)
         else if i = CQ_DISPATCH_CMD_WRITE_LINEAR_H_HOST
         then Some (D_write_host (get_field CQDispatchWriteHostCmd ''is_event'' bs \<noteq> 0) (get_field CQDispatchWriteHostCmd ''length'' bs) data)
         else if i = CQ_DISPATCH_CMD_WRITE_PAGED
         then let f = (\<lambda>x. get_field CQDispatchWritePagedCmd x bs)
              in Some (D_write_paged (f ''is_dram'' \<noteq> 0) (f ''start_page'') (f ''base_addr'') (f ''page_size'') (f ''pages'') data)
         else if i = CQ_DISPATCH_CMD_WRITE_PACKED then Some (write_packed_view al bs)
         else if i = CQ_DISPATCH_CMD_WRITE_PACKED_LARGE
         then let f = (\<lambda>x. get_field CQDispatchWritePackedLargeCmd x bs)
              in Some (D_write_packed_large (f ''alignment'') (f ''write_offset_index'')
                         (chunks (f ''count'') (struct_size CQDispatchWritePackedLargeSubCmd) data))
         else if i = CQ_DISPATCH_CMD_WAIT
         then let f = (\<lambda>x. get_field CQDispatchWaitCmd x bs)
              in Some (D_wait (f ''barrier'' \<noteq> 0) (f ''notify_prefetch'' \<noteq> 0) (f ''clear_count'' \<noteq> 0) (f ''wait'' \<noteq> 0) (f ''addr'') (f ''count''))
         else if i = CQ_DISPATCH_CMD_SET_WRITE_OFFSET
         then let f = (\<lambda>x. get_field CQDispatchSetWriteOffsetCmd x bs)
              in Some (D_set_write_offset (f ''offset0'') (f ''offset1'') (f ''offset2''))
         else if i = CQ_DISPATCH_CMD_SEND_GO_SIGNAL
         then let f = (\<lambda>x. get_field CQDispatchGoSignalMcastCmd x bs)
              in Some (D_send_go_signal (f ''go_signal'') (f ''num_mcast_txns'') (f ''num_unicast_txns'') (f ''noc_data_start_index'')
                         (f ''wait_count'') (f ''wait_addr''))
         else if i = CQ_DISPATCH_NOTIFY_SLAVE_GO_SIGNAL
         then Some (D_notify_dispatch_s (get_field CQDispatchNotifySlaveGoSignalCmd ''wait'' bs \<noteq> 0)
                      (get_field CQDispatchNotifySlaveGoSignalCmd ''index_bitmask'' bs))
         else if i = CQ_DISPATCH_SET_NUM_WORKER_SEMS
         then Some (D_set_num_worker_sems (get_field CQDispatchSetNumWorkerSemsCmd ''num_worker_sems'' bs))
         else if i = CQ_DISPATCH_SET_GO_SIGNAL_NOC_DATA
         then Some (D_set_go_signal_noc_data
                      (map le_value (chunks (get_field CQDispatchSetGoSignalNocDataCmd ''num_words'' bs) 4 data)))
         else if i = CQ_DISPATCH_CMD_EXEC_BUF_END then Some D_exec_buf_end
         else if i = CQ_DISPATCH_CMD_TERMINATE then Some D_terminate
         else if i \<in> {CQ_DISPATCH_CMD_WRITE_LINEAR_H, CQ_DISPATCH_CMD_GO, CQ_DISPATCH_CMD_SINK, CQ_DISPATCH_CMD_DEBUG, CQ_DISPATCH_CMD_DELAY}
         then Some (D_other i)
         else None)"

section \<open>What the device sees\<close>

datatype device_view =
    V_prefetch prefetch_action
  | V_relay bool dispatcher_select dispatch_cmd
  | V_end dispatch_cmd

fun view_action :: "u32 \<Rightarrow> prefetch_action \<Rightarrow> device_view option" where
  "view_action al (Relay_inline d bs) = map_option (V_relay True d) (dispatch_view al bs)"
| "view_action al (Relay_inline_noflush bs) = map_option (V_relay False DISPATCH_MASTER) (dispatch_view al bs)"
| "view_action al (Exec_buf_end bs) = map_option V_end (dispatch_view al bs)"
| "view_action al a = Some (V_prefetch a)"

fun view_actions :: "u32 \<Rightarrow> prefetch_action list \<Rightarrow> device_view list option" where
  "view_actions al [] = Some []"
| "view_actions al (a # as) = Option.bind (view_action al a) (\<lambda>v. map_option (\<lambda>vs. v # vs) (view_actions al as))"

definition device_reads :: "u32 \<Rightarrow> u32 \<Rightarrow> bool \<Rightarrow> byte list \<Rightarrow> device_view list option" where
  "device_reads pcie l1 exec_buf bs = Option.bind (prefetch_walk pcie exec_buf bs) (view_actions l1)"

end
