(* ===== verification/Device_Command_Props.thy ===== *)
theory Device_Command_Props
  imports Command_Reader
begin

text \<open>
  What the operations of the command builder leave in memory, and how it reads: an operation
  appends a chunk of bytes to the region, and the walk of the prefetch kernel over the chunk
  meets exactly the command that was added and goes on right behind it.
\<close>

section \<open>Appending to the region\<close>

definition good :: "device_command \<Rightarrow> bool" where
  "good c \<longleftrightarrow> length (cmd_region c) = cmd_sequence_sizeB c \<and> cmd_sequence_sizeB c < 2 ^ 31 \<and>
     (\<exists>k. 5 \<le> k \<and> k \<le> 12 \<and> pcie_align c = 2 ^ k) \<and> l1_align c = 16 \<and> pcie_align c dvd cmd_sequence_sizeB c \<and>
     16 dvd cmd_region_addr c \<and> (\<forall>g. uninitialized c = Some g \<longrightarrow> length g = 16)"

definition same_frame :: "device_command \<Rightarrow> device_command \<Rightarrow> bool" where
  "same_frame c c' \<longleftrightarrow> cmd_sequence_sizeB c' = cmd_sequence_sizeB c \<and> cmd_region_addr c' = cmd_region_addr c \<and>
     length (cmd_region c') = length (cmd_region c) \<and> pcie_align c' = pcie_align c \<and> l1_align c' = l1_align c \<and>
     uninitialized c' = uninitialized c \<and> zero_init_enable c' = zero_init_enable c"

definition emits :: "device_command \<Rightarrow> device_command \<Rightarrow> byte list \<Rightarrow> bool" where
  "emits c c' ch \<longleftrightarrow> same_frame c c' \<and> cmd_write_offsetB c' = cmd_write_offsetB c + length ch \<and>
     cmd_write_offsetB c' \<le> cmd_sequence_sizeB c \<and>
     take (cmd_write_offsetB c') (cmd_region c') = take (cmd_write_offsetB c) (cmd_region c) @ ch"

lemma same_frame_refl: "same_frame c c"
  by (simp add: same_frame_def)

lemma same_frame_trans: "same_frame c1 c2 \<Longrightarrow> same_frame c2 c3 \<Longrightarrow> same_frame c1 c3"
  by (simp add: same_frame_def)

lemma same_frame_good: "same_frame c c' \<Longrightarrow> good c \<Longrightarrow> good c'"
  by (simp add: same_frame_def good_def)

lemma emits_good: "emits c c' ch \<Longrightarrow> good c \<Longrightarrow> good c'"
  by (auto simp: emits_def intro: same_frame_good)

lemma emits_trans: "emits c1 c2 a \<Longrightarrow> emits c2 c3 b \<Longrightarrow> emits c1 c3 (a @ b)"
  by (auto simp: emits_def same_frame_def)

lemma align_pow2:
  assumes "p < 2 ^ 31" "k \<le> 12"
  shows "align_u32 p (2 ^ k) = ceil_to p (2 ^ k)"
proof (cases "p = 0")
  case True
  then show ?thesis using align_u32_aligned [of k 0] assms(2) by (simp add: ceil_to_def)
next
  case False
  then show ?thesis using align_u32_ceil [of p k] pow2_le_4096 [OF assms(2)] assms(1) by simp
qed

lemma good_align: "good c \<Longrightarrow> p < 2 ^ 31 \<Longrightarrow> align_u32 p (pcie_align c) = ceil_to p (pcie_align c)"
  using align_pow2 by (auto simp: good_def)

lemma good_pcie: "good c \<Longrightarrow> 0 < pcie_align c" "good c \<Longrightarrow> 32 dvd pcie_align c" "good c \<Longrightarrow> pcie_align c \<le> 4096"
proof -
  assume "good c"
  then obtain k where k: "5 \<le> k" "k \<le> 12" "pcie_align c = 2 ^ k" by (auto simp: good_def)
  then show "32 dvd pcie_align c" using le_imp_power_dvd [of 5 k "2 :: nat"] by simp
  show "0 < pcie_align c" "pcie_align c \<le> 4096" using k pow2_le_4096 by auto
qed

lemma put_bytes_ok:
  assumes "p + length bs \<le> length (cmd_region c)"
  shows "\<exists>c'. put_bytes p bs c = Inr c' \<and> same_frame c c' \<and> cmd_write_offsetB c' = cmd_write_offsetB c \<and>
    cmd_region c' = take p (cmd_region c) @ bs @ drop (p + length bs) (cmd_region c)"
  using assms by (auto simp: put_bytes_def same_frame_def)

lemma fill_word_fits:
  assumes "4 dvd p" "4 dvd s" "p + n \<le> (s :: nat)"
  shows "p + (n + (4 - n mod 4) mod 4) \<le> s"
proof -
  obtain a b where ab: "p = 4 * a" "s = 4 * b" using assms(1,2) by blast
  have "n mod 4 < 4" "4 * (n div 4) + n mod 4 = n" by simp_all
  then obtain q r where n: "n = 4 * q + r" "r < 4" "n mod 4 = r" by metis
  have "a + q + 1 \<le> b" if "0 < r" using assms(3) that unfolding ab n(1) by linarith
  then show ?thesis using assms(3) n(2) unfolding ab n(3) by (cases "r = 0") (auto simp: n(1))
qed

text \<open>Copying never leaves the bytes after the data as they were, but does not touch those before.\<close>

lemma dc_memcpy_ok:
  assumes g: "good c" and p: "p + length bs \<le> cmd_sequence_sizeB c" and al: "16 dvd p"
  shows "\<exists>c' pad. dc_memcpy p bs c = Inr c' \<and> same_frame c c' \<and> cmd_write_offsetB c' = cmd_write_offsetB c \<and> length pad \<le> 3 \<and>
    (4 dvd length bs \<longrightarrow> pad = []) \<and>
    cmd_region c' = take p (cmd_region c) @ bs @ pad @ drop (p + length bs + length pad) (cmd_region c)"
proof (cases "uninitialized c = None")
  case True
  obtain c' where "put_bytes p bs c = Inr c'" "same_frame c c'" "cmd_write_offsetB c' = cmd_write_offsetB c"
    "cmd_region c' = take p (cmd_region c) @ bs @ drop (p + length bs) (cmd_region c)"
    using put_bytes_ok [of p bs c] g p by (auto simp: good_def)
  then show ?thesis using True by (intro exI [of _ c'] exI [of _ "[]"]) (simp add: dc_memcpy_def)
next
  case False
  let ?pad = "replicate ((4 - length bs mod 4) mod 4) (0 :: nat)"
  have r: "(cmd_region_addr c + p) mod 16 = 0" using al g by (auto simp: good_def)
  have "32 dvd cmd_sequence_sizeB c" using good_pcie(2) [OF g] dvd_trans g unfolding good_def by blast
  then have "4 dvd cmd_sequence_sizeB c" by (rule dvd_trans [rotated]) simp
  moreover have "4 dvd p" using al by (rule dvd_trans [rotated]) simp
  ultimately have fit: "p + length (fill_word bs) \<le> length (cmd_region c)"
    using fill_word_fits [OF _ _ p] g by (simp add: good_def fill_word_def)
  obtain c' where "put_bytes p (fill_word bs) c = Inr c'" "same_frame c c'" "cmd_write_offsetB c' = cmd_write_offsetB c"
    "cmd_region c' = take p (cmd_region c) @ fill_word bs @ drop (p + length (fill_word bs)) (cmd_region c)"
    using put_bytes_ok [OF fit] by blast
  then show ?thesis using False r
    by (intro exI [of _ c'] exI [of _ ?pad]) (auto simp: dc_memcpy_def memcpy_to_device_def fill_word_def add.assoc)
qed

lemma write_cmd_ok:
  assumes g: "good c" and p: "p + 16 \<le> cmd_sequence_sizeB c" and al: "16 dvd p"
    and len: "\<And>b. length b = 16 \<Longrightarrow> length (initialize b) = 16"
  shows "\<exists>c' b. write_cmd p initialize c = Inr c' \<and> same_frame c c' \<and> cmd_write_offsetB c' = cmd_write_offsetB c \<and> length b = 16 \<and>
    cmd_region c' = take p (cmd_region c) @ initialize b @ drop (p + 16) (cmd_region c)"
proof (cases "uninitialized c")
  case None
  let ?b = "take 16 (drop p (cmd_region c))"
  have b: "length ?b = 16" using g p by (simp add: good_def)
  obtain c' where "put_bytes p (initialize ?b) c = Inr c'" "same_frame c c'" "cmd_write_offsetB c' = cmd_write_offsetB c"
    "cmd_region c' = take p (cmd_region c) @ initialize ?b @ drop (p + length (initialize ?b)) (cmd_region c)"
    using put_bytes_ok [of p "initialize ?b" c] len [OF b] g p by (auto simp: good_def)
  then show ?thesis using None b len [OF b] g p
    by (intro exI [of _ c'] exI [of _ ?b]) (simp add: write_cmd_def CMD_SIZE_def good_def)
next
  case (Some b)
  then have b: "length b = 16" using g by (simp add: good_def)
  obtain c' pad where "dc_memcpy p (initialize b) c = Inr c'" "same_frame c c'" "cmd_write_offsetB c' = cmd_write_offsetB c" "pad = []"
    "cmd_region c' = take p (cmd_region c) @ initialize b @ pad @ drop (p + length (initialize b) + length pad) (cmd_region c)"
    using dc_memcpy_ok [OF g _ al, of "initialize b"] len [OF b] p by auto
  then show ?thesis using Some b len [OF b] by (intro exI [of _ c'] exI [of _ b]) (simp add: write_cmd_def)
qed

lemma reserve_space_ok:
  assumes g: "good c" and off: "16 dvd cmd_write_offsetB c" and fit: "cmd_write_offsetB c + sz \<le> cmd_sequence_sizeB c"
    and z: "\<And>k. object = Some k \<Longrightarrow> cmd_write_offsetB c + k \<le> cmd_sequence_sizeB c"
  shows "\<exists>c'. reserve_space object sz c = Inr (cmd_write_offsetB c, c') \<and> same_frame c c' \<and>
    cmd_write_offsetB c' = cmd_write_offsetB c + sz \<and>
    take (cmd_write_offsetB c) (cmd_region c') = take (cmd_write_offsetB c) (cmd_region c)"
proof -
  have small: "cmd_sequence_sizeB c < 2 ^ 32" using g by (simp add: good_def)
  have v: "validate_cmd_write sz c = Inr c" and a: "add32 (cmd_write_offsetB c) sz = cmd_write_offsetB c + sz"
    using fit small by (auto simp: validate_cmd_write_def add32_def)
  have "\<exists>c1. (case object of None \<Rightarrow> Inr c
      | Some k \<Rightarrow> if zero_init_enable c then dc_memcpy (cmd_write_offsetB c) (replicate k 0) c else Inr c) = Inr c1 \<and>
      same_frame c c1 \<and> cmd_write_offsetB c1 = cmd_write_offsetB c \<and>
      take (cmd_write_offsetB c) (cmd_region c1) = take (cmd_write_offsetB c) (cmd_region c)"
  proof (cases "object = None \<or> \<not> zero_init_enable c")
    case True
    then show ?thesis by (auto simp: same_frame_refl split: option.split)
  next
    case False
    then obtain k where k: "object = Some k" "zero_init_enable c" by auto
    obtain c1 pad where "dc_memcpy (cmd_write_offsetB c) (replicate k 0) c = Inr c1" "same_frame c c1"
      "cmd_write_offsetB c1 = cmd_write_offsetB c"
      "cmd_region c1 = take (cmd_write_offsetB c) (cmd_region c) @ replicate k 0 @ pad @
        drop (cmd_write_offsetB c + length (replicate k (0 :: nat)) + length pad) (cmd_region c)"
      using dc_memcpy_ok [OF g _ off, of "replicate k 0"] z [OF k(1)] by auto
    then show ?thesis using k fit g by (auto simp: good_def min_absorb2)
  qed
  then show ?thesis using v a by (auto simp: reserve_space_def advance_def same_frame_def)
qed

lemma place_cmd_ok:
  assumes g: "good c" and off: "16 dvd cmd_write_offsetB c" and sz: "16 \<le> sz" "cmd_write_offsetB c + sz \<le> cmd_sequence_sizeB c"
    and len: "\<And>b. length b = 16 \<Longrightarrow> length (initialize b) = 16"
  shows "\<exists>c' b rest. place_cmd sz initialize c = Inr c' \<and> length b = 16 \<and> length rest = sz - 16 \<and> emits c c' (initialize b @ rest)"
proof -
  let ?p = "cmd_write_offsetB c"
  obtain c1 where c1: "reserve_space (Some CMD_SIZE) sz c = Inr (?p, c1)" "same_frame c c1" "cmd_write_offsetB c1 = ?p + sz"
    "take ?p (cmd_region c1) = take ?p (cmd_region c)"
    using reserve_space_ok [OF g off sz(2), of "Some CMD_SIZE"] sz by (auto simp: CMD_SIZE_def)
  have g1: "good c1" by (rule same_frame_good [OF c1(2) g])
  have size1: "cmd_sequence_sizeB c1 = cmd_sequence_sizeB c" using c1(2) by (simp add: same_frame_def)
  obtain c2 b where c2: "write_cmd ?p initialize c1 = Inr c2" "same_frame c1 c2" "cmd_write_offsetB c2 = ?p + sz" "length b = 16"
    "cmd_region c2 = take ?p (cmd_region c1) @ initialize b @ drop (?p + 16) (cmd_region c1)"
    using write_cmd_ok [OF g1 _ off len] sz size1 c1(3) by fastforce
  let ?rest = "take (sz - 16) (drop (?p + 16) (cmd_region c1))"
  have l1: "length (cmd_region c1) = cmd_sequence_sizeB c" using g1 size1 by (simp add: good_def)
  have "length (take ?p (cmd_region c)) = ?p" using g sz by (simp add: good_def)
  then have "take (?p + sz) (cmd_region c2) = take ?p (cmd_region c) @ initialize b @ ?rest"
    unfolding c2(5) c1(4) using len [OF c2(4)] sz by simp
  moreover have "length ?rest = sz - 16" using l1 sz by simp
  moreover have "place_cmd sz initialize c = Inr c2" using c1(1) c2(1) by (simp add: place_cmd_def)
  ultimately show ?thesis using c2(3,4) sz len [OF c2(4)] same_frame_trans [OF c1(2) c2(2)]
    by (intro exI [of _ c2] exI [of _ b] exI [of _ ?rest]) (simp add: emits_def)
qed

lemma align_offset_ok:
  assumes g: "good c" and off: "cmd_write_offsetB c \<le> cmd_sequence_sizeB c"
  shows "\<exists>pad. emits c (align_offset c) pad \<and> cmd_write_offsetB (align_offset c) = ceil_to (cmd_write_offsetB c) (pcie_align c)"
proof -
  let ?p = "cmd_write_offsetB c" and ?q = "ceil_to (cmd_write_offsetB c) (pcie_align c)"
  have q: "align_u32 ?p (pcie_align c) = ?q" using good_align [OF g] off g by (simp add: good_def)
  have le: "?p \<le> ?q" by (rule ceil_to_props(2) [OF good_pcie(1) [OF g]])
  have top: "?q \<le> cmd_sequence_sizeB c" using ceil_to_least [OF good_pcie(1) [OF g] _ off] g by (simp add: good_def)
  have "take ?q (cmd_region c) = take ?p (cmd_region c) @ take (?q - ?p) (drop ?p (cmd_region c))"
    using le by (metis le_add_diff_inverse take_add)
  then show ?thesis using q le top g
    by (intro exI [of _ "take (?q - ?p) (drop ?p (cmd_region c))"]) (auto simp: emits_def align_offset_def same_frame_def good_def)
qed

lemma add_data_ok:
  assumes g: "good c" and off: "16 dvd cmd_write_offsetB c" and sz: "length bs \<le> inc" "cmd_write_offsetB c + inc \<le> cmd_sequence_sizeB c"
  shows "\<exists>c' rest. add_data bs inc c = Inr c' \<and> length rest = inc - length bs \<and> emits c c' (bs @ rest)"
proof -
  let ?p = "cmd_write_offsetB c"
  have small: "cmd_sequence_sizeB c < 2 ^ 32" using g by (simp add: good_def)
  have v: "validate_cmd_write inc c = Inr c" and a: "add32 ?p inc = ?p + inc"
    using sz(2) small by (auto simp: validate_cmd_write_def add32_def)
  obtain c1 pad where c1: "dc_memcpy ?p bs c = Inr c1" "same_frame c c1" "cmd_write_offsetB c1 = ?p"
    "cmd_region c1 = take ?p (cmd_region c) @ bs @ pad @ drop (?p + length bs + length pad) (cmd_region c)"
    using dc_memcpy_ok [OF g _ off, of bs] sz by fastforce
  let ?rest = "take (inc - length bs) (pad @ drop (?p + length bs + length pad) (cmd_region c))"
  have l: "length (cmd_region c1) = cmd_sequence_sizeB c" using c1(2) g by (simp add: same_frame_def good_def)
  have p: "length (take ?p (cmd_region c)) = ?p" using g sz by (simp add: good_def)
  have "length ?rest = inc - length bs" using l sz p unfolding c1(4) by (simp add: min_absorb2)
  moreover have "take (?p + inc) (cmd_region c1) = take ?p (cmd_region c) @ bs @ ?rest"
    using sz(1) p unfolding c1(4) by (simp add: min_absorb2)
  ultimately obtain rest where "length rest = inc - length bs" "take (?p + inc) (cmd_region c1) = take ?p (cmd_region c) @ bs @ rest"
    by blast
  moreover have "add_data bs inc c = Inr (advance inc c1)" using v c1(1) by (simp add: add_data_def)
  ultimately show ?thesis using a c1(2,3) sz
    by (intro exI [of _ "advance inc c1"] exI [of _ rest]) (simp add: emits_def advance_def same_frame_def)
qed

lemma place_two_raw:
  assumes g: "good c" and off: "16 dvd cmd_write_offsetB c" and sz: "cmd_write_offsetB c + 32 \<le> cmd_sequence_sizeB c"
    and len: "\<And>b. length b = 16 \<Longrightarrow> length (first b) = 16" "\<And>b. length b = 16 \<Longrightarrow> length (second b) = 16"
  shows "\<exists>c' b1 b2. place_two first second c = Inr (align_offset c') \<and> length b1 = 16 \<and> length b2 = 16 \<and> emits c c' (first b1 @ second b2)"
proof -
  let ?p = "cmd_write_offsetB c"
  obtain c1 where c1: "reserve_space (Some CMD_SIZE) 16 c = Inr (?p, c1)" "same_frame c c1" "cmd_write_offsetB c1 = ?p + 16"
    "take ?p (cmd_region c1) = take ?p (cmd_region c)"
    using reserve_space_ok [OF g off, of 16 "Some CMD_SIZE"] sz by (auto simp: CMD_SIZE_def)
  have g1: "good c1" and s1: "cmd_sequence_sizeB c1 = cmd_sequence_sizeB c"
    using same_frame_good [OF c1(2) g] c1(2) by (auto simp: same_frame_def)
  have off1: "16 dvd cmd_write_offsetB c1" using off by (simp add: c1(3))
  obtain c2 where c2: "reserve_space (Some CMD_SIZE) 16 c1 = Inr (?p + 16, c2)" "same_frame c1 c2" "cmd_write_offsetB c2 = ?p + 32"
    "take (?p + 16) (cmd_region c2) = take (?p + 16) (cmd_region c1)"
    using reserve_space_ok [OF g1 off1, of 16 "Some CMD_SIZE"] sz s1 c1(3) by (auto simp: CMD_SIZE_def)
  have g2: "good c2" and s2: "cmd_sequence_sizeB c2 = cmd_sequence_sizeB c"
    using same_frame_good [OF c2(2) g1] c2(2) s1 by (auto simp: same_frame_def)
  have p2: "take ?p (cmd_region c2) = take ?p (cmd_region c)"
    using arg_cong [OF c2(4), of "take ?p"] c1(4) by (simp add: min_absorb1)
  obtain c3 b1 where c3: "write_cmd ?p first c2 = Inr c3" "same_frame c2 c3" "cmd_write_offsetB c3 = ?p + 32" "length b1 = 16"
    "cmd_region c3 = take ?p (cmd_region c2) @ first b1 @ drop (?p + 16) (cmd_region c2)"
    using write_cmd_ok [OF g2 _ off len(1)] sz s2 c2(3) by fastforce
  have g3: "good c3" and s3: "cmd_sequence_sizeB c3 = cmd_sequence_sizeB c"
    using same_frame_good [OF c3(2) g2] c3(2) s2 by (auto simp: same_frame_def)
  obtain c4 b2 where c4: "write_cmd (?p + 16) second c3 = Inr c4" "same_frame c3 c4" "cmd_write_offsetB c4 = ?p + 32" "length b2 = 16"
    "cmd_region c4 = take (?p + 16) (cmd_region c3) @ second b2 @ drop (?p + 16 + 16) (cmd_region c3)"
    using write_cmd_ok [OF g3 _ _ len(2), of "?p + 16"] sz s3 c3(3) off by fastforce
  have p: "length (take ?p (cmd_region c)) = ?p" using g sz by (simp add: good_def)
  have "take (?p + 16) (cmd_region c3) = take ?p (cmd_region c) @ first b1"
    unfolding c3(5) p2 using p len(1) [OF c3(4)] by simp
  then have "take (?p + 32) (cmd_region c4) = take ?p (cmd_region c) @ first b1 @ second b2"
    unfolding c4(5) using p len(1) [OF c3(4)] len(2) [OF c4(4)] by simp
  then have "emits c c4 (first b1 @ second b2)"
    using c4(3) sz len(1) [OF c3(4)] len(2) [OF c4(4)] c1(2) c2(2) c3(2) c4(2)
    by (simp add: emits_def) (meson same_frame_trans)
  moreover have "place_two first second c = Inr (align_offset c4)"
    using c1(1) c2(1) c3(1) c4(1) by (simp add: place_two_def CMD_SIZE_def)
  ultimately show ?thesis using c3(4) c4(4) by blast
qed

text \<open>Aligning the offset after a chunk fills it up to the next multiple of the alignment.\<close>

lemma aligned_end:
  assumes g: "good c" and off: "pcie_align c dvd cmd_write_offsetB c" and e: "emits c c1 ch"
  shows "\<exists>pad. emits c (align_offset c1) (ch @ pad) \<and> length (ch @ pad) = ceil_to (length ch) (pcie_align c)"
proof -
  let ?p = "cmd_write_offsetB c" and ?a = "pcie_align c"
  have g1: "good c1" by (rule emits_good [OF e g])
  have fr: "pcie_align c1 = ?a" "cmd_sequence_sizeB c1 = cmd_sequence_sizeB c" "cmd_write_offsetB c1 = ?p + length ch"
    "cmd_write_offsetB c1 \<le> cmd_sequence_sizeB c" using e by (auto simp: emits_def same_frame_def)
  obtain pad where pad: "emits c1 (align_offset c1) pad" "cmd_write_offsetB (align_offset c1) = ceil_to (?p + length ch) ?a"
    using align_offset_ok [OF g1] fr by auto
  have a: "0 < ?a" by (rule good_pcie(1) [OF g])
  have "?p + ceil_to (length ch) ?a = ceil_to (?p + length ch) ?a"
    by (rule ceil_to_unique [OF a]) (use ceil_to_props [OF a, of "length ch"] off in auto)
  moreover have "cmd_write_offsetB (align_offset c1) = ?p + length ch + length pad" using pad(1) fr(3) by (simp add: emits_def)
  ultimately have "length (ch @ pad) = ceil_to (length ch) ?a" using pad(2) by simp
  then show ?thesis using emits_trans [OF e pad(1)] by blast
qed

lemma dvd_16: "good c \<Longrightarrow> pcie_align c dvd cmd_write_offsetB c \<Longrightarrow> 16 dvd cmd_write_offsetB c"
proof -
  assume "good c" "pcie_align c dvd cmd_write_offsetB c"
  then have "32 dvd cmd_write_offsetB c" using good_pcie(2) dvd_trans by blast
  then show ?thesis by (rule dvd_trans [rotated]) simp
qed

lemma ceil_le_size:
  assumes "good c" "pcie_align c dvd cmd_write_offsetB c" "cmd_write_offsetB c + ceil_to n (pcie_align c) \<le> cmd_sequence_sizeB c"
  shows "cmd_write_offsetB c + n \<le> cmd_sequence_sizeB c"
  using assms(3) ceil_to_props(2) [OF good_pcie(1) [OF assms(1)], of n] by simp

lemma place_two_ok:
  assumes g: "good c" and off: "pcie_align c dvd cmd_write_offsetB c"
    and sz: "cmd_write_offsetB c + ceil_to 32 (pcie_align c) \<le> cmd_sequence_sizeB c"
    and len: "\<And>b. length b = 16 \<Longrightarrow> length (first b) = 16" "\<And>b. length b = 16 \<Longrightarrow> length (second b) = 16"
  shows "\<exists>c' b1 b2 pad. place_two first second c = Inr c' \<and> length b1 = 16 \<and> length b2 = 16 \<and>
    emits c c' (first b1 @ second b2 @ pad) \<and> length (first b1 @ second b2 @ pad) = ceil_to 32 (pcie_align c)"
proof -
  obtain c1 b1 b2 where c1: "place_two first second c = Inr (align_offset c1)" "length b1 = 16" "length b2 = 16"
    "emits c c1 (first b1 @ second b2)"
    using place_two_raw [where first = first and second = second, OF g dvd_16 [OF g off] ceil_le_size [OF g off sz] len] by blast
  show ?thesis using aligned_end [OF g off c1(4)] c1(1-3) len by fastforce
qed

lemma relay_cmd_ok:
  assumes g: "good c" and off: "16 dvd cmd_write_offsetB c" and sz: "cmd_write_offsetB c + 32 \<le> cmd_sequence_sizeB c"
    and fl: "flush \<or> L \<le> 4096" and len: "\<And>b. length b = 16 \<Longrightarrow> length (initialize b) = 16"
    and rel: "\<And>i d b. length b = 16 \<Longrightarrow> length (relay_inline_cmd i d L (pcie_align c) b) = 16"
  shows "\<exists>c' b1 b2. relay_cmd flush L sel initialize c = Inr c' \<and> length b1 = 16 \<and> length b2 = 16 \<and>
    emits c c' (relay_inline_cmd (if flush then CQ_PREFETCH_CMD_RELAY_INLINE else CQ_PREFETCH_CMD_RELAY_INLINE_NOFLUSH)
      (dispatcher_index sel) L (pcie_align c) b1 @ initialize b2)"
proof -
  let ?i = "if flush then CQ_PREFETCH_CMD_RELAY_INLINE else CQ_PREFETCH_CMD_RELAY_INLINE_NOFLUSH"
  let ?r = "relay_inline_cmd ?i (dispatcher_index sel) L (pcie_align c)"
  obtain c1 b1 where c1: "place_cmd 16 ?r c = Inr c1" "length b1 = 16" "emits c c1 (?r b1)"
    using place_cmd_ok [where initialize = ?r and sz = 16, OF g off _ _ rel] sz by auto
  have o1: "cmd_write_offsetB c1 = cmd_write_offsetB c + 16" "cmd_sequence_sizeB c1 = cmd_sequence_sizeB c"
    using c1(3) rel [OF c1(2)] by (auto simp: emits_def same_frame_def)
  obtain c2 b2 where c2: "place_cmd 16 initialize c1 = Inr c2" "length b2 = 16" "emits c1 c2 (initialize b2)"
    using place_cmd_ok [where initialize = initialize and sz = 16, OF emits_good [OF c1(3) g] _ _ _ len] o1 sz off by auto
  have "\<not> (\<not> flush \<and> \<not> L \<le> 2 ^ DISPATCH_BUFFER_LOG_PAGE_SIZE)" using fl by (auto simp: DISPATCH_BUFFER_LOG_PAGE_SIZE_def)
  then have "relay_cmd flush L sel initialize c = Inr c2"
    using c1(1) c2(1) unfolding relay_cmd_def add_prefetch_relay_inline_def by (simp only: if_False bind_result.simps CMD_SIZE_def)
  then show ?thesis using c1(2) c2(2) emits_trans [OF c1(3) c2(3)] by blast
qed

end
