(* ===== verification/Command_Stream.thy ===== *)
theory Command_Stream
  imports Device_Command_Props
begin

text \<open>
  Command sequences as a whole: the operations of the builder as data, what the device is
  meant to see of each and the space each takes, and that a chunk of memory an operation
  appends reads as what it is meant to be.
\<close>

section \<open>Operations\<close>

datatype builder_op =
    Op_wait nat u32 u32 nat bool bool nat
  | Op_wait_stall nat u32 u32 nat bool
  | Op_relay_linear u32 u32 u32
  | Op_relay_paged nat nat u32 u32 u32 nat
  | Op_relay_paged_packed u32 "byte list list"
  | Op_write_linear nat u32 u32 u32 "byte list option" nat
  | Op_write_paged nat nat u32 u32 u32 "byte list option"
  | Op_write_host u32 bool "byte list option"
  | Op_go_signal u32 u32 u32 nat nat nat dispatcher_select
  | Op_notify_dispatch_s nat nat
  | Op_exec_buf u32 u32 u32
  | Op_set_num_worker_sems u32 dispatcher_select
  | Op_set_go_signal_noc_data "u32 list" dispatcher_select
  | Op_set_write_offsets u32 u32 u32
  | Op_dispatch_terminate dispatcher_select
  | Op_prefetch_terminate
  | Op_exec_buf_end
  | Op_write_packed_large nat "byte list list" u32
  | Op_write_packed bool u32 nat "byte list list" "byte list list" u32 bool u32

text \<open>The payload the callers announce for a packed write: the command with its sub-commands, and the data.\<close>

definition packed_payload :: "bool \<Rightarrow> nat \<Rightarrow> nat \<Rightarrow> nat \<Rightarrow> nat" where
  "packed_payload multicast num_sub_cmds num_data data_sizeB =
     ceil_to (16 + num_sub_cmds * packed_sub_cmd_size multicast) 16 + num_data * ceil_to data_sizeB 16"

fun apply_op :: "builder_op \<Rightarrow> device_command \<Rightarrow> tt_error + device_command" where
  "apply_op (Op_wait barrier ad count clear notify do_wait d) c = add_dispatch_wait barrier ad count clear notify do_wait d c"
| "apply_op (Op_wait_stall barrier ad count clear do_wait) c = add_dispatch_wait_with_prefetch_stall barrier ad count clear do_wait c"
| "apply_op (Op_relay_linear noc len ad) c = add_prefetch_relay_linear noc len ad c"
| "apply_op (Op_relay_paged is_dram start base page_size pages adjust) c =
     add_prefetch_relay_paged is_dram start base page_size pages adjust c"
| "apply_op (Op_relay_paged_packed len subs) c = add_prefetch_relay_paged_packed len subs (length subs) 0 c"
| "apply_op (Op_write_linear dests noc ad len data idx) c = add_dispatch_write_linear (data \<noteq> None) dests noc ad len data idx c"
| "apply_op (Op_write_paged is_dram start base page_size pages data) c =
     add_dispatch_write_paged (data \<noteq> None) is_dram start base page_size pages data c"
| "apply_op (Op_write_host len is_event data) c = add_dispatch_write_host (data \<noteq> None) len is_event data c"
| "apply_op (Op_go_signal wait_count go_signal wait_addr mcasts unicasts start d) c =
     add_dispatch_go_signal_mcast wait_count go_signal wait_addr mcasts unicasts start d c"
| "apply_op (Op_notify_dispatch_s wait bitmask) c = add_notify_dispatch_s_go_signal_cmd wait bitmask c"
| "apply_op (Op_exec_buf base log_page_size pages) c = add_prefetch_exec_buf base log_page_size pages c"
| "apply_op (Op_set_num_worker_sems n d) c = add_dispatch_set_num_worker_sems n d c"
| "apply_op (Op_set_go_signal_noc_data ws d) c = add_dispatch_set_go_signal_noc_data ws d c"
| "apply_op (Op_set_write_offsets o0 o1 o2) c = add_dispatch_set_write_offsets o0 o1 o2 c"
| "apply_op (Op_dispatch_terminate d) c = add_dispatch_terminate d c"
| "apply_op Op_prefetch_terminate c = add_prefetch_terminate c"
| "apply_op Op_exec_buf_end c = add_prefetch_exec_buf_end c"
| "apply_op (Op_write_packed_large al subs idx) c = add_dispatch_write_packed_large al (length subs) subs 0 idx c"
| "apply_op (Op_write_packed multicast ad n subs datas max_unicast no_stride idx) c =
     add_dispatch_write_packed multicast (length subs) ad n (packed_payload multicast (length subs) (length datas) n) subs datas max_unicast 0 no_stride idx c"

fun apply_ops :: "builder_op list \<Rightarrow> device_command \<Rightarrow> tt_error + device_command" where
  "apply_ops [] c = Inr c"
| "apply_ops (p # ps) c = bind_result (apply_op p c) (apply_ops ps)"

text \<open>What the device is meant to see, and whether the walk of the prefetcher ends there.\<close>

definition data_of :: "byte list option \<Rightarrow> byte list" where
  "data_of data = (case data of None \<Rightarrow> [] | Some bs \<Rightarrow> bs)"

fun intended :: "builder_op \<Rightarrow> device_view list" where
  "intended (Op_wait barrier ad count clear notify do_wait d) =
     [V_relay True (if d = 0 then DISPATCH_MASTER else DISPATCH_SLAVE) (D_wait (barrier \<noteq> 0) notify (clear \<noteq> 0) do_wait ad count)]"
| "intended (Op_wait_stall barrier ad count clear do_wait) =
     [V_relay True DISPATCH_MASTER (D_wait (barrier \<noteq> 0) True (clear \<noteq> 0) do_wait ad count), V_prefetch Stall_prefetch]"
| "intended (Op_relay_linear noc len ad) = [V_prefetch (Relay_linear noc ad len)]"
| "intended (Op_relay_paged is_dram start base page_size pages adjust) =
     [V_prefetch (Relay_paged (is_dram \<noteq> 0) start base page_size pages adjust)]"
| "intended (Op_relay_paged_packed len subs) = [V_prefetch (Relay_paged_packed len (concat subs))]"
| "intended (Op_write_linear dests noc ad len data idx) =
     [V_relay (data \<noteq> None) DISPATCH_MASTER (D_write_linear dests idx noc ad len (data_of data))]"
| "intended (Op_write_paged is_dram start base page_size pages data) =
     [V_relay (data \<noteq> None) DISPATCH_MASTER (D_write_paged (is_dram \<noteq> 0) start base page_size pages (data_of data))]"
| "intended (Op_write_host len is_event data) = [V_relay (data \<noteq> None) DISPATCH_MASTER (D_write_host is_event (16 + len) (data_of data))]"
| "intended (Op_go_signal wait_count go_signal wait_addr mcasts unicasts start d) =
     [V_relay True d (D_send_go_signal go_signal mcasts unicasts start wait_count wait_addr)]"
| "intended (Op_notify_dispatch_s wait bitmask) = [V_relay True DISPATCH_MASTER (D_notify_dispatch_s (wait \<noteq> 0) bitmask)]"
| "intended (Op_exec_buf base log_page_size pages) = [V_prefetch (Exec_buf base log_page_size pages)]"
| "intended (Op_set_num_worker_sems n d) = [V_relay True d (D_set_num_worker_sems n)]"
| "intended (Op_set_go_signal_noc_data ws d) = [V_relay True d (D_set_go_signal_noc_data ws)]"
| "intended (Op_set_write_offsets o0 o1 o2) = [V_relay True DISPATCH_MASTER (D_set_write_offset o0 o1 o2)]"
| "intended (Op_dispatch_terminate d) = [V_relay True d D_terminate]"
| "intended Op_prefetch_terminate = [V_prefetch Terminate_prefetch]"
| "intended Op_exec_buf_end = [V_end D_exec_buf_end]"
| "intended (Op_write_packed_large al subs idx) = [V_relay False DISPATCH_MASTER (D_write_packed_large al idx subs)]"
| "intended (Op_write_packed multicast ad n subs datas max_unicast no_stride idx) =
     [V_relay True DISPATCH_MASTER (D_write_packed multicast no_stride ad n idx
        (zip subs (if no_stride then replicate (length subs) (hd datas) else datas)))]"

fun ends :: "builder_op \<Rightarrow> bool" where
  "ends Op_prefetch_terminate = True"
| "ends Op_exec_buf_end = True"
| "ends _ = False"

fun intended_all :: "builder_op list \<Rightarrow> device_view list" where
  "intended_all [] = []"
| "intended_all (p # ps) = intended p @ (if ends p then [] else intended_all ps)"

text \<open>The space an operation takes with the alignment \<open>al\<close>.\<close>

fun op_size :: "nat \<Rightarrow> builder_op \<Rightarrow> nat" where
  "op_size al (Op_wait_stall _ _ _ _ _) = 2 * al"
| "op_size al (Op_relay_paged_packed len subs) = ceil_to (16 + 12 * length subs) al"
| "op_size al (Op_write_linear _ _ _ _ data _) = ceil_to (32 + length (data_of data)) al"
| "op_size al (Op_write_paged _ _ _ _ _ data) = ceil_to (32 + length (data_of data)) al"
| "op_size al (Op_write_host _ _ data) = ceil_to (32 + length (data_of data)) al"
| "op_size al (Op_set_go_signal_noc_data ws d) = ceil_to (32 + 4 * length ws) al"
| "op_size al (Op_write_packed_large a subs idx) = ceil_to (16 + ceil_to (16 + 12 * length subs) 16) al"
| "op_size al (Op_write_packed multicast ad n subs datas max_unicast no_stride idx) =
     ceil_to (16 + packed_payload multicast (length subs) (length datas) n) al"
| "op_size al _ = al"

text \<open>
  The conditions on the arguments: values fit the fields they are stored in, data has the
  announced size, and commands for a trace buffer are only used there. The two writes whose
  data is rounded up on its own are well placed only if commands are aligned to 32 bytes.
\<close>

fun op_ok :: "nat \<Rightarrow> bool \<Rightarrow> builder_op \<Rightarrow> bool" where
  "op_ok al ex (Op_wait barrier ad count clear notify do_wait d) \<longleftrightarrow> barrier < 256 \<and> ad < 2 ^ 32 \<and> count < 2 ^ 32 \<and> clear < 256 \<and> d < 256"
| "op_ok al ex (Op_wait_stall barrier ad count clear do_wait) \<longleftrightarrow> barrier < 256 \<and> ad < 2 ^ 32 \<and> count < 2 ^ 32 \<and> clear < 256"
| "op_ok al ex (Op_relay_linear noc len ad) \<longleftrightarrow> noc < 2 ^ 32 \<and> len < 2 ^ 32 \<and> ad < 2 ^ 32"
| "op_ok al ex (Op_relay_paged is_dram start base page_size pages adjust) \<longleftrightarrow>
     is_dram < 2 \<and> start < 16 \<and> base < 2 ^ 32 \<and> page_size < 2 ^ 32 \<and> pages < 2 ^ 32 \<and> adjust < 2 ^ 16"
| "op_ok al ex (Op_relay_paged_packed len subs) \<longleftrightarrow> len < 2 ^ 32 \<and> length subs < 2 ^ 16 \<and> (\<forall>x \<in> set subs. length x = 12)"
| "op_ok al ex (Op_write_linear dests noc ad len data idx) \<longleftrightarrow> al = 32 \<and> dests < 256 \<and> noc < 2 ^ 32 \<and> ad < 2 ^ 32 \<and> len < 2 ^ 32 \<and> idx < 256 \<and>
     (\<forall>bs. data = Some bs \<longrightarrow> length bs = len \<and> len < 2 ^ 30)"
| "op_ok al ex (Op_write_paged is_dram start base page_size pages data) \<longleftrightarrow> al = 32 \<and> is_dram < 256 \<and> start < 2 ^ 16 \<and> base < 2 ^ 32 \<and>
     page_size < 2 ^ 32 \<and> pages < 2 ^ 32 \<and> (\<forall>bs. data = Some bs \<longrightarrow> length bs = page_size * pages \<and> page_size * pages < 2 ^ 30)"
| "op_ok al ex (Op_write_host len is_event data) \<longleftrightarrow> 16 + len < 2 ^ 32 \<and> (\<forall>bs. data = Some bs \<longrightarrow> length bs = len \<and> len < 2 ^ 30)"
| "op_ok al ex (Op_go_signal wait_count go_signal wait_addr mcasts unicasts start d) \<longleftrightarrow>
     wait_count < 2 ^ 32 \<and> go_signal < 2 ^ 32 \<and> wait_addr < 2 ^ 32 \<and> mcasts < 256 \<and> unicasts < 256 \<and> start < 256"
| "op_ok al ex (Op_notify_dispatch_s wait bitmask) \<longleftrightarrow> wait < 256 \<and> bitmask < 2 ^ 16"
| "op_ok al ex (Op_exec_buf base log_page_size pages) \<longleftrightarrow> \<not> ex \<and> base < 2 ^ 32 \<and> log_page_size < 2 ^ 32 \<and> pages < 2 ^ 32"
| "op_ok al ex (Op_set_num_worker_sems n d) \<longleftrightarrow> n < 2 ^ 32"
| "op_ok al ex (Op_set_go_signal_noc_data ws d) \<longleftrightarrow> ws \<noteq> [] \<and> length ws \<le> 64 \<and> (\<forall>w \<in> set ws. w < 2 ^ 32)"
| "op_ok al ex (Op_set_write_offsets o0 o1 o2) \<longleftrightarrow> o0 < 2 ^ 32 \<and> o1 < 2 ^ 32 \<and> o2 < 2 ^ 32"
| "op_ok al ex (Op_dispatch_terminate d) \<longleftrightarrow> True"
| "op_ok al ex Op_prefetch_terminate \<longleftrightarrow> \<not> ex"
| "op_ok al ex Op_exec_buf_end \<longleftrightarrow> ex"
| "op_ok al ex (Op_write_packed_large a subs idx) \<longleftrightarrow> a < 2 ^ 16 \<and> idx < 2 ^ 16 \<and> length subs \<le> 35 \<and> (\<forall>x \<in> set subs. length x = 12)"
| "op_ok al ex (Op_write_packed multicast ad n subs datas max_unicast no_stride idx) \<longleftrightarrow> ad < 2 ^ 32 \<and> n < 2 ^ 16 \<and> idx < 2 ^ 16 \<and>
     length subs < 2 ^ 16 \<and> length subs \<le> (if multicast then get_packed_write_max_multicast_sub_cmds max_unicast else max_unicast) \<and>
     (\<forall>x \<in> set subs. length x = packed_sub_cmd_size multicast) \<and> (\<forall>x \<in> set datas. length x = n) \<and>
     length datas = (if no_stride then 1 else length subs) \<and> packed_payload multicast (length subs) (length datas) n \<le> 2 ^ 30"

section \<open>Reading a chunk\<close>

definition reads :: "nat \<Rightarrow> nat \<Rightarrow> bool \<Rightarrow> byte list \<Rightarrow> device_view list \<Rightarrow> bool \<Rightarrow> bool" where
  "reads al l1 ex ch vs fin \<longleftrightarrow> (\<forall>more. device_reads al l1 ex (ch @ more) =
     (if fin then Some vs else map_option (\<lambda>ws. vs @ ws) (device_reads al l1 ex more)))"

lemma reads_append: "reads al l1 ex a vs False \<Longrightarrow> reads al l1 ex b ws fin \<Longrightarrow> reads al l1 ex (a @ b) (vs @ ws) fin"
  by (auto simp: reads_def option.map_comp comp_def)

lemma reads_single:
  assumes "ch \<noteq> []" "\<And>more. process_cmd al ex (ch @ more) = Some (a, if fin then stride else length ch, fin)" "view_action l1 a = Some v"
  shows "reads al l1 ex ch [v] fin"
proof -
  have cons: "((@) [v]) = ((#) v)" by (rule ext) simp
  have "device_reads al l1 ex (ch @ more) = (if fin then Some [v] else map_option (\<lambda>ws. [v] @ ws) (device_reads al l1 ex more))" for more
    using assms unfolding device_reads_def
    by (subst prefetch_walk.simps) (cases fin; cases "prefetch_walk al ex more"; simp add: cons)
  then show ?thesis by (simp add: reads_def)
qed

lemma locate_append: "f \<in> fst ` set l \<Longrightarrow> off + struct_size l \<le> length xs \<Longrightarrow> get_at off l f (xs @ ys) = get_at off l f xs"
  using locate_bounds [of f l off] by (cases "locate off l f") (simp add: get_at_def)

lemma init_cmd_read:
  assumes "length b = 16" "struct_size l < 16" "fst ` set fs \<subseteq> fst ` set l" "distinct (map fst fs)"
  shows "length (init_cmd i l fs b) = 16" "cmd_id (init_cmd i l fs b @ rest) = i mod 256"
    "f \<in> fst ` set l \<Longrightarrow> map_of fs f = Some v \<Longrightarrow> get_field l f (init_cmd i l fs b @ rest) = v mod 256 ^ snd (locate 1 l f)"
proof -
  have l: "1 + struct_size l \<le> length b" using assms(1,2) by simp
  note facts = init_cmd_facts [OF assms(3,4) l]
  show len: "length (init_cmd i l fs b) = 16" using facts(1) assms(1) by simp
  show "cmd_id (init_cmd i l fs b @ rest) = i mod 256" using facts(2) len by (simp add: cmd_id_def)
  show "get_field l f (init_cmd i l fs b @ rest) = v mod 256 ^ snd (locate 1 l f)" if "f \<in> fst ` set l" "map_of fs f = Some v"
    using locate_append [OF that(1), of 1 "init_cmd i l fs b" rest] facts(3) [OF that] len l assms(1) by (simp add: get_field_def)
qed

lemmas struct_defs = CQGenericDebugCmd_def CQPrefetchRelayLinearCmd_def CQPrefetchRelayPagedCmd_def CQPrefetchRelayPagedPackedCmd_def
  CQPrefetchRelayInlineCmd_def CQPrefetchExecBufCmd_def CQDispatchWriteCmd_def CQDispatchWriteHostCmd_def CQDispatchWritePagedCmd_def
  CQDispatchWritePackedCmd_def CQDispatchWritePackedLargeCmd_def CQDispatchWaitCmd_def CQDispatchSetWriteOffsetCmd_def
  CQDispatchGoSignalMcastCmd_def CQDispatchNotifySlaveGoSignalCmd_def CQDispatchSetNumWorkerSemsCmd_def
  CQDispatchSetGoSignalNocDataCmd_def

subsection \<open>Relayed commands\<close>

lemma relay_inline_read:
  assumes "length b = 16"
  shows "length (relay_inline_cmd i d n al b) = 16"
    "cmd_id (relay_inline_cmd i d n al b @ rest) = i mod 256"
    "get_field CQPrefetchRelayInlineCmd ''dispatcher_type'' (relay_inline_cmd i d n al b @ rest) = d mod 256"
    "get_field CQPrefetchRelayInlineCmd ''length'' (relay_inline_cmd i d n al b @ rest) = n mod 2 ^ 32"
    "get_field CQPrefetchRelayInlineCmd ''stride'' (relay_inline_cmd i d n al b @ rest) = align_u32 (add32 16 n) al mod 2 ^ 32"
proof -
  let ?fs = "[(''dispatcher_type'', d), (''length'', n), (''stride'', align_u32 (add32 CMD_SIZE n) al)]"
  note facts = init_cmd_read [where b = b and l = CQPrefetchRelayInlineCmd and fs = ?fs and i = i, OF assms]
  have ok: "struct_size CQPrefetchRelayInlineCmd < 16" "fst ` set ?fs \<subseteq> fst ` set CQPrefetchRelayInlineCmd" "distinct (map fst ?fs)"
    by (simp_all add: CQPrefetchRelayInlineCmd_def struct_size_def)
  show "length (relay_inline_cmd i d n al b) = 16" "cmd_id (relay_inline_cmd i d n al b @ rest) = i mod 256"
    unfolding relay_inline_cmd_def by (rule facts(1) [OF ok], rule facts(2) [OF ok])
  show "get_field CQPrefetchRelayInlineCmd ''dispatcher_type'' (relay_inline_cmd i d n al b @ rest) = d mod 256"
    "get_field CQPrefetchRelayInlineCmd ''length'' (relay_inline_cmd i d n al b @ rest) = n mod 2 ^ 32"
    "get_field CQPrefetchRelayInlineCmd ''stride'' (relay_inline_cmd i d n al b @ rest) = align_u32 (add32 16 n) al mod 2 ^ 32"
    unfolding relay_inline_cmd_def
    using facts(3) [OF ok, of "''dispatcher_type''"] facts(3) [OF ok, of "''length''"] facts(3) [OF ok, of "''stride''"]
    by (simp_all add: CQPrefetchRelayInlineCmd_def CMD_SIZE_def)
qed

text \<open>A relayed command is seen by the dispatcher with its payload, and the walk goes on at its stride.\<close>

lemma reads_relay:
  assumes b: "length b = 16" and L: "length payload = n" "n < 2 ^ 30 + 16" and al: "\<exists>k \<ge> 5. k \<le> 12 \<and> al = 2 ^ k"
    and len: "16 + n + length pad = ceil_to (16 + n) al"
    and view: "dispatch_view l1 payload = Some v" and d: "d < 256" "sel = (if d = 0 \<or> \<not> flush then DISPATCH_MASTER else DISPATCH_SLAVE)"
    and i: "i = (if flush then CQ_PREFETCH_CMD_RELAY_INLINE else CQ_PREFETCH_CMD_RELAY_INLINE_NOFLUSH)"
  shows "reads al l1 ex (relay_inline_cmd i d n al b @ payload @ pad) [V_relay flush sel v] False"
proof -
  note r = relay_inline_read [OF b, of i d n al]
  have a: "align_u32 (add32 16 n) al = ceil_to (16 + n) al" using al L(2) align_pow2 [of "16 + n"] by (auto simp: add32_small)
  have "ceil_to (16 + n) al < 2 ^ 32"
    using ceil_to_props(3) [of al "16 + n"] al L(2) pow2_le_4096 by (fastforce intro: less_le_trans)
  then have stride: "relay_stride (relay_inline_cmd i d n al b @ payload @ pad @ more) = length (relay_inline_cmd i d n al b @ payload @ pad)" for more
    using r(1) r(5) [of "payload @ pad @ more"] a len L(1) by (simp add: relay_stride_def)
  have data: "relayed_data (relay_inline_cmd i d n al b @ payload @ pad @ more) = payload" for more
    using r(1) r(4) [of "payload @ pad @ more"] L by (simp add: relayed_data_def CMD_SIZE_def)
  have ne: "relay_inline_cmd i d n al b @ payload @ pad \<noteq> []" using r(1) by auto
  show ?thesis
  proof (cases flush)
    case True
    show ?thesis
      by (rule reads_single [where a = "Relay_inline sel payload" and stride = 0, OF ne])
        (use r stride data view d i True in \<open>auto simp: process_cmd_def Let_def cq_cmd_ids\<close>)
  next
    case False
    show ?thesis
      by (rule reads_single [where a = "Relay_inline_noflush payload" and stride = 0, OF ne])
        (use r stride data view d i False in \<open>auto simp: process_cmd_def Let_def cq_cmd_ids\<close>)
  qed
qed

subsection \<open>Commands of the dispatcher\<close>

definition field_width :: "struct_layout \<Rightarrow> string \<Rightarrow> nat" where
  "field_width l f = snd (locate 1 l f)"

lemma init_cmd_fields:
  assumes "length b = 16" "struct_size l < 16" "fst ` set fs \<subseteq> fst ` set l" "distinct (map fst fs)" "c = init_cmd i l fs b @ rest"
  shows "cmd_id c = i mod 256" "list_all (\<lambda>(f, v). get_field l f c = v mod 256 ^ field_width l f) fs" "drop 16 c = rest"
proof -
  have "get_field l f (init_cmd i l fs b @ rest) = v mod 256 ^ field_width l f" if "(f, v) \<in> set fs" for f v rest
  proof (rule init_cmd_read(3) [OF assms(1-4), folded field_width_def])
    show "f \<in> fst ` set l" using that assms(3) by force
    show "map_of fs f = Some v" using that assms(4) by simp
  qed
  then show "list_all (\<lambda>(f, v). get_field l f c = v mod 256 ^ field_width l f) fs" unfolding list_all_iff assms(5) by blast
  show "cmd_id c = i mod 256" "drop 16 c = rest" using init_cmd_read(1,2) [OF assms(1-4)] assms(5) by simp_all
qed

text \<open>The widths of the fields, and that every structure fits.\<close>

lemma field_widths:
  "field_width CQPrefetchRelayLinearCmd ''noc_xy_addr'' = 4"
  "field_width CQPrefetchRelayLinearCmd ''addr'' = 4"
  "field_width CQPrefetchRelayLinearCmd ''length'' = 4"
  "field_width CQPrefetchRelayPagedCmd ''packed_page_flags'' = 1"
  "field_width CQPrefetchRelayPagedCmd ''length_adjust'' = 2"
  "field_width CQPrefetchRelayPagedCmd ''base_addr'' = 4"
  "field_width CQPrefetchRelayPagedCmd ''page_size'' = 4"
  "field_width CQPrefetchRelayPagedCmd ''pages'' = 4"
  "field_width CQPrefetchRelayPagedPackedCmd ''count'' = 2"
  "field_width CQPrefetchRelayPagedPackedCmd ''total_length'' = 4"
  "field_width CQPrefetchRelayPagedPackedCmd ''stride'' = 4"
  "field_width CQPrefetchRelayInlineCmd ''dispatcher_type'' = 1"
  "field_width CQPrefetchRelayInlineCmd ''length'' = 4"
  "field_width CQPrefetchRelayInlineCmd ''stride'' = 4"
  "field_width CQPrefetchExecBufCmd ''base_addr'' = 4"
  "field_width CQPrefetchExecBufCmd ''log_page_size'' = 4"
  "field_width CQPrefetchExecBufCmd ''pages'' = 4"
  "field_width CQDispatchWriteCmd ''num_mcast_dests'' = 1"
  "field_width CQDispatchWriteCmd ''write_offset_index'' = 1"
  "field_width CQDispatchWriteCmd ''noc_xy_addr'' = 4"
  "field_width CQDispatchWriteCmd ''addr'' = 4"
  "field_width CQDispatchWriteCmd ''length'' = 4"
  "field_width CQDispatchWriteHostCmd ''is_event'' = 1"
  "field_width CQDispatchWriteHostCmd ''length'' = 4"
  "field_width CQDispatchWritePagedCmd ''is_dram'' = 1"
  "field_width CQDispatchWritePagedCmd ''start_page'' = 2"
  "field_width CQDispatchWritePagedCmd ''base_addr'' = 4"
  "field_width CQDispatchWritePagedCmd ''page_size'' = 4"
  "field_width CQDispatchWritePagedCmd ''pages'' = 4"
  "field_width CQDispatchWritePackedCmd ''flags'' = 1"
  "field_width CQDispatchWritePackedCmd ''count'' = 2"
  "field_width CQDispatchWritePackedCmd ''write_offset_index'' = 2"
  "field_width CQDispatchWritePackedCmd ''size'' = 2"
  "field_width CQDispatchWritePackedCmd ''addr'' = 4"
  "field_width CQDispatchWritePackedLargeCmd ''count'' = 2"
  "field_width CQDispatchWritePackedLargeCmd ''alignment'' = 2"
  "field_width CQDispatchWritePackedLargeCmd ''write_offset_index'' = 2"
  "field_width CQDispatchWaitCmd ''barrier'' = 1"
  "field_width CQDispatchWaitCmd ''notify_prefetch'' = 1"
  "field_width CQDispatchWaitCmd ''clear_count'' = 1"
  "field_width CQDispatchWaitCmd ''wait'' = 1"
  "field_width CQDispatchWaitCmd ''addr'' = 4"
  "field_width CQDispatchWaitCmd ''count'' = 4"
  "field_width CQDispatchSetWriteOffsetCmd ''offset0'' = 4"
  "field_width CQDispatchSetWriteOffsetCmd ''offset1'' = 4"
  "field_width CQDispatchSetWriteOffsetCmd ''offset2'' = 4"
  "field_width CQDispatchGoSignalMcastCmd ''go_signal'' = 4"
  "field_width CQDispatchGoSignalMcastCmd ''num_mcast_txns'' = 1"
  "field_width CQDispatchGoSignalMcastCmd ''num_unicast_txns'' = 1"
  "field_width CQDispatchGoSignalMcastCmd ''noc_data_start_index'' = 1"
  "field_width CQDispatchGoSignalMcastCmd ''wait_count'' = 4"
  "field_width CQDispatchGoSignalMcastCmd ''wait_addr'' = 4"
  "field_width CQDispatchNotifySlaveGoSignalCmd ''wait'' = 1"
  "field_width CQDispatchNotifySlaveGoSignalCmd ''index_bitmask'' = 2"
  "field_width CQDispatchSetNumWorkerSemsCmd ''num_worker_sems'' = 4"
  "field_width CQDispatchSetGoSignalNocDataCmd ''num_words'' = 4"
  by (simp_all add: struct_defs field_width_def)

lemma layout_sizes:
  "struct_size CQGenericDebugCmd < 16"
  "struct_size CQPrefetchRelayLinearCmd < 16"
  "struct_size CQPrefetchRelayPagedCmd < 16"
  "struct_size CQPrefetchRelayPagedPackedCmd < 16"
  "struct_size CQPrefetchRelayInlineCmd < 16"
  "struct_size CQPrefetchExecBufCmd < 16"
  "struct_size CQDispatchWriteCmd < 16"
  "struct_size CQDispatchWriteHostCmd < 16"
  "struct_size CQDispatchWritePagedCmd < 16"
  "struct_size CQDispatchWritePackedCmd < 16"
  "struct_size CQDispatchWritePackedLargeCmd < 16"
  "struct_size CQDispatchWaitCmd < 16"
  "struct_size CQDispatchSetWriteOffsetCmd < 16"
  "struct_size CQDispatchGoSignalMcastCmd < 16"
  "struct_size CQDispatchNotifySlaveGoSignalCmd < 16"
  "struct_size CQDispatchSetNumWorkerSemsCmd < 16"
  "struct_size CQDispatchSetGoSignalNocDataCmd < 16"
  by (simp_all add: struct_defs struct_size_def)

lemma sub_cmd_sizes: "struct_size CQDispatchWritePackedLargeSubCmd = 12" "struct_size CQPrefetchRelayPagedPackedSubCmd = 12"
  by (simp_all add: struct_size_def CQDispatchWritePackedLargeSubCmd_def CQPrefetchRelayPagedPackedSubCmd_def)

lemma layout_fields:
  "fst ` set CQGenericDebugCmd = {''pad'', ''key'', ''checksum'', ''size'', ''stride''}"
  "fst ` set CQPrefetchRelayLinearCmd = {''pad1'', ''pad2'', ''noc_xy_addr'', ''addr'', ''length''}"
  "fst ` set CQPrefetchRelayPagedCmd = {''packed_page_flags'', ''length_adjust'', ''base_addr'', ''page_size'', ''pages''}"
  "fst ` set CQPrefetchRelayPagedPackedCmd = {''pad1'', ''count'', ''total_length'', ''stride''}"
  "fst ` set CQPrefetchRelayInlineCmd = {''dispatcher_type'', ''pad'', ''length'', ''stride''}"
  "fst ` set CQPrefetchExecBufCmd = {''pad1'', ''pad2'', ''base_addr'', ''log_page_size'', ''pages''}"
  "fst ` set CQDispatchWriteCmd = {''num_mcast_dests'', ''write_offset_index'', ''pad1'', ''noc_xy_addr'', ''addr'', ''length''}"
  "fst ` set CQDispatchWriteHostCmd = {''is_event'', ''pad1'', ''pad2'', ''pad3'', ''length''}"
  "fst ` set CQDispatchWritePagedCmd = {''is_dram'', ''start_page'', ''base_addr'', ''page_size'', ''pages''}"
  "fst ` set CQDispatchWritePackedCmd = {''flags'', ''count'', ''write_offset_index'', ''size'', ''addr''}"
  "fst ` set CQDispatchWritePackedLargeCmd = {''pad1'', ''count'', ''alignment'', ''write_offset_index''}"
  "fst ` set CQDispatchWaitCmd = {''barrier'', ''notify_prefetch'', ''clear_count'', ''wait'', ''pad1'', ''pad2'', ''addr'', ''count''}"
  "fst ` set CQDispatchSetWriteOffsetCmd = {''pad1'', ''pad2'', ''offset0'', ''offset1'', ''offset2''}"
  "fst ` set CQDispatchGoSignalMcastCmd = {''go_signal'', ''num_mcast_txns'', ''num_unicast_txns'', ''noc_data_start_index'', ''wait_count'', ''wait_addr''}"
  "fst ` set CQDispatchNotifySlaveGoSignalCmd = {''wait'', ''index_bitmask'', ''pad3''}"
  "fst ` set CQDispatchSetNumWorkerSemsCmd = {''pad1'', ''pad2'', ''num_worker_sems''}"
  "fst ` set CQDispatchSetGoSignalNocDataCmd = {''pad1'', ''pad2'', ''num_words''}"
  by (simp_all add: struct_defs)

lemma view_wait:
  assumes b: "length b = 16" and v: "barrier < 256" "ad < 2 ^ 32" "count < 2 ^ 32" "clear < 256"
  shows "dispatch_view l1 (init_cmd CQ_DISPATCH_CMD_WAIT CQDispatchWaitCmd [(''barrier'', barrier), (''notify_prefetch'', of_bool notify),
      (''wait'', of_bool do_wait), (''addr'', ad), (''count'', count), (''clear_count'', clear)] b @ data) =
    Some (D_wait (barrier \<noteq> 0) notify (clear \<noteq> 0) do_wait ad count)" (is "dispatch_view l1 (init_cmd ?i ?l ?fs b @ data) = _")
proof -
  define c where c: "c = init_cmd ?i ?l ?fs b @ data"
  have "cmd_id c = ?i mod 256" "list_all (\<lambda>(f, v). get_field ?l f c = v mod 256 ^ field_width ?l f) ?fs"
    by (rule init_cmd_fields [OF b layout_sizes(12) _ _ c], simp add: layout_fields, simp)+
  then show ?thesis unfolding c [symmetric] using v by (simp add: field_widths dispatch_view_def Let_def cq_cmd_ids)
qed

lemma view_write_linear:
  assumes b: "length b = 16" and v: "dests < 256" "noc < 2 ^ 32" "ad < 2 ^ 32" "len < 2 ^ 32" "idx < 256"
  shows "dispatch_view l1 (init_cmd CQ_DISPATCH_CMD_WRITE_LINEAR CQDispatchWriteCmd [(''num_mcast_dests'', dests), (''write_offset_index'', idx), (''noc_xy_addr'', noc), (''addr'', ad), (''length'', len)] b @ data) =
    Some (D_write_linear dests idx noc ad len data)" (is "dispatch_view l1 (init_cmd ?i ?l ?fs b @ data) = _")
proof -
  define c where c: "c = init_cmd ?i ?l ?fs b @ data"
  have "cmd_id c = ?i mod 256" "list_all (\<lambda>(f, v). get_field ?l f c = v mod 256 ^ field_width ?l f) ?fs" "drop 16 c = data"
    by (rule init_cmd_fields [OF b layout_sizes(7) _ _ c], simp add: layout_fields, simp)+
  then show ?thesis unfolding c [symmetric] using v by (simp add: field_widths dispatch_view_def Let_def cq_cmd_ids CMD_SIZE_def)
qed

lemma view_write_paged:
  assumes b: "length b = 16" and v: "is_dram < 256" "start < 2 ^ 16" "base < 2 ^ 32" "page_size < 2 ^ 32" "pages < 2 ^ 32"
  shows "dispatch_view l1 (init_cmd CQ_DISPATCH_CMD_WRITE_PAGED CQDispatchWritePagedCmd [(''is_dram'', is_dram), (''start_page'', start), (''base_addr'', base), (''page_size'', page_size), (''pages'', pages)] b @ data) =
    Some (D_write_paged (is_dram \<noteq> 0) start base page_size pages data)" (is "dispatch_view l1 (init_cmd ?i ?l ?fs b @ data) = _")
proof -
  define c where c: "c = init_cmd ?i ?l ?fs b @ data"
  have "cmd_id c = ?i mod 256" "list_all (\<lambda>(f, v). get_field ?l f c = v mod 256 ^ field_width ?l f) ?fs" "drop 16 c = data"
    by (rule init_cmd_fields [OF b layout_sizes(9) _ _ c], simp add: layout_fields, simp)+
  then show ?thesis unfolding c [symmetric] using v by (simp add: field_widths dispatch_view_def Let_def cq_cmd_ids CMD_SIZE_def)
qed

lemma view_write_host:
  assumes b: "length b = 16" and v: "len < 2 ^ 32"
  shows "dispatch_view l1 (init_cmd CQ_DISPATCH_CMD_WRITE_LINEAR_H_HOST CQDispatchWriteHostCmd [(''is_event'', of_bool is_event), (''length'', len)] b @ data) =
    Some (D_write_host is_event len data)" (is "dispatch_view l1 (init_cmd ?i ?l ?fs b @ data) = _")
proof -
  define c where c: "c = init_cmd ?i ?l ?fs b @ data"
  have "cmd_id c = ?i mod 256" "list_all (\<lambda>(f, v). get_field ?l f c = v mod 256 ^ field_width ?l f) ?fs" "drop 16 c = data"
    by (rule init_cmd_fields [OF b layout_sizes(8) _ _ c], simp add: layout_fields, simp)+
  then show ?thesis unfolding c [symmetric] using v by (simp add: field_widths dispatch_view_def Let_def cq_cmd_ids CMD_SIZE_def)
qed

lemma view_go_signal:
  assumes b: "length b = 16" and v: "wait_count < 2 ^ 32" "go_signal < 2 ^ 32" "wait_addr < 2 ^ 32" "mcasts < 256" "unicasts < 256" "start < 256"
  shows "dispatch_view l1 (init_cmd CQ_DISPATCH_CMD_SEND_GO_SIGNAL CQDispatchGoSignalMcastCmd [(''go_signal'', go_signal), (''wait_count'', wait_count), (''num_mcast_txns'', mcasts), (''num_unicast_txns'', unicasts),
      (''noc_data_start_index'', start), (''wait_addr'', wait_addr)] b @ data) =
    Some (D_send_go_signal go_signal mcasts unicasts start wait_count wait_addr)" (is "dispatch_view l1 (init_cmd ?i ?l ?fs b @ data) = _")
proof -
  define c where c: "c = init_cmd ?i ?l ?fs b @ data"
  have "cmd_id c = ?i mod 256" "list_all (\<lambda>(f, v). get_field ?l f c = v mod 256 ^ field_width ?l f) ?fs" "drop 16 c = data"
    by (rule init_cmd_fields [OF b layout_sizes(14) _ _ c], simp add: layout_fields, simp)+
  then show ?thesis unfolding c [symmetric] using v by (simp add: field_widths dispatch_view_def Let_def cq_cmd_ids CMD_SIZE_def)
qed

lemma view_notify:
  assumes b: "length b = 16" and v: "wait < 256" "bitmask < 2 ^ 16"
  shows "dispatch_view l1 (init_cmd CQ_DISPATCH_NOTIFY_SLAVE_GO_SIGNAL CQDispatchNotifySlaveGoSignalCmd [(''wait'', wait), (''index_bitmask'', bitmask)] b @ data) =
    Some (D_notify_dispatch_s (wait \<noteq> 0) bitmask)" (is "dispatch_view l1 (init_cmd ?i ?l ?fs b @ data) = _")
proof -
  define c where c: "c = init_cmd ?i ?l ?fs b @ data"
  have "cmd_id c = ?i mod 256" "list_all (\<lambda>(f, v). get_field ?l f c = v mod 256 ^ field_width ?l f) ?fs" "drop 16 c = data"
    by (rule init_cmd_fields [OF b layout_sizes(15) _ _ c], simp add: layout_fields, simp)+
  then show ?thesis unfolding c [symmetric] using v by (simp add: field_widths dispatch_view_def Let_def cq_cmd_ids CMD_SIZE_def)
qed

lemma view_num_sems:
  assumes b: "length b = 16" and v: "n < 2 ^ 32"
  shows "dispatch_view l1 (init_cmd CQ_DISPATCH_SET_NUM_WORKER_SEMS CQDispatchSetNumWorkerSemsCmd [(''num_worker_sems'', n)] b @ data) =
    Some (D_set_num_worker_sems n)" (is "dispatch_view l1 (init_cmd ?i ?l ?fs b @ data) = _")
proof -
  define c where c: "c = init_cmd ?i ?l ?fs b @ data"
  have "cmd_id c = ?i mod 256" "list_all (\<lambda>(f, v). get_field ?l f c = v mod 256 ^ field_width ?l f) ?fs" "drop 16 c = data"
    by (rule init_cmd_fields [OF b layout_sizes(16) _ _ c], simp add: layout_fields, simp)+
  then show ?thesis unfolding c [symmetric] using v by (simp add: field_widths dispatch_view_def Let_def cq_cmd_ids CMD_SIZE_def)
qed

lemma view_noc_data:
  assumes b: "length b = 16" and v: "n < 2 ^ 32"
  shows "dispatch_view l1 (init_cmd CQ_DISPATCH_SET_GO_SIGNAL_NOC_DATA CQDispatchSetGoSignalNocDataCmd [(''num_words'', n)] b @ data) =
    Some (D_set_go_signal_noc_data (map le_value (chunks n 4 data)))" (is "dispatch_view l1 (init_cmd ?i ?l ?fs b @ data) = _")
proof -
  define c where c: "c = init_cmd ?i ?l ?fs b @ data"
  have "cmd_id c = ?i mod 256" "list_all (\<lambda>(f, v). get_field ?l f c = v mod 256 ^ field_width ?l f) ?fs" "drop 16 c = data"
    by (rule init_cmd_fields [OF b layout_sizes(17) _ _ c], simp add: layout_fields, simp)+
  then show ?thesis unfolding c [symmetric] using v by (simp add: field_widths dispatch_view_def Let_def cq_cmd_ids CMD_SIZE_def)
qed

lemma view_write_offsets:
  assumes b: "length b = 16" and v: "o0 < 2 ^ 32" "o1 < 2 ^ 32" "o2 < 2 ^ 32"
  shows "dispatch_view l1 (init_cmd CQ_DISPATCH_CMD_SET_WRITE_OFFSET CQDispatchSetWriteOffsetCmd [(''offset0'', o0), (''offset1'', o1), (''offset2'', o2)] b @ data) =
    Some (D_set_write_offset o0 o1 o2)" (is "dispatch_view l1 (init_cmd ?i ?l ?fs b @ data) = _")
proof -
  define c where c: "c = init_cmd ?i ?l ?fs b @ data"
  have "cmd_id c = ?i mod 256" "list_all (\<lambda>(f, v). get_field ?l f c = v mod 256 ^ field_width ?l f) ?fs" "drop 16 c = data"
    by (rule init_cmd_fields [OF b layout_sizes(13) _ _ c], simp add: layout_fields, simp)+
  then show ?thesis unfolding c [symmetric] using v by (simp add: field_widths dispatch_view_def Let_def cq_cmd_ids CMD_SIZE_def)
qed

lemma view_packed_large:
  assumes b: "length b = 16" and v: "n < 2 ^ 16" "al < 2 ^ 16" "idx < 2 ^ 16"
  shows "dispatch_view l1 (init_cmd CQ_DISPATCH_CMD_WRITE_PACKED_LARGE CQDispatchWritePackedLargeCmd [(''count'', n), (''alignment'', al), (''write_offset_index'', idx)] b @ data) =
    Some (D_write_packed_large al idx (chunks n 12 data))" (is "dispatch_view l1 (init_cmd ?i ?l ?fs b @ data) = _")
proof -
  define c where c: "c = init_cmd ?i ?l ?fs b @ data"
  have "cmd_id c = ?i mod 256" "list_all (\<lambda>(f, v). get_field ?l f c = v mod 256 ^ field_width ?l f) ?fs" "drop 16 c = data"
    by (rule init_cmd_fields [OF b layout_sizes(11) _ _ c], simp add: layout_fields, simp)+
  then show ?thesis unfolding c [symmetric] using v by (simp add: field_widths dispatch_view_def Let_def cq_cmd_ids CMD_SIZE_def sub_cmd_sizes)
qed

lemma view_bare:
  assumes b: "length b = 16"
  shows "dispatch_view l1 (init_cmd CQ_DISPATCH_CMD_TERMINATE [] [] b @ data) = Some D_terminate"
    "dispatch_view l1 (init_cmd CQ_DISPATCH_CMD_EXEC_BUF_END [] [] b @ data) = Some D_exec_buf_end"
proof -
  have "cmd_id (init_cmd i [] [] b @ data) = i mod 256" for i
    by (rule init_cmd_fields(1) [OF b _ _ _ refl]) (simp_all add: struct_size_def)
  then show "dispatch_view l1 (init_cmd CQ_DISPATCH_CMD_TERMINATE [] [] b @ data) = Some D_terminate"
    "dispatch_view l1 (init_cmd CQ_DISPATCH_CMD_EXEC_BUF_END [] [] b @ data) = Some D_exec_buf_end"
    by (simp_all add: dispatch_view_def Let_def cq_cmd_ids)
qed

subsection \<open>Commands of the prefetcher\<close>

lemma reads_relay_linear:
  assumes b: "length b = 16" and len: "16 + length rest = al" and v: "noc < 2 ^ 32" "n < 2 ^ 32" "ad < 2 ^ 32"
  shows "reads al l1 ex (init_cmd CQ_PREFETCH_CMD_RELAY_LINEAR CQPrefetchRelayLinearCmd [(''noc_xy_addr'', noc), (''length'', n), (''addr'', ad)] b @ rest)
    [V_prefetch (Relay_linear noc ad n)] False" (is "reads al l1 ex (init_cmd ?i ?l ?fs b @ rest) [V_prefetch ?a] False")
proof (rule reads_single [where a = ?a and stride = 0])
  have ok: "struct_size ?l < 16" "fst ` set ?fs \<subseteq> fst ` set ?l" "distinct (map fst ?fs)" by (simp_all add: layout_sizes layout_fields)
  show "process_cmd al ex ((init_cmd ?i ?l ?fs b @ rest) @ more) =
      Some (?a, if False then 0 else length (init_cmd ?i ?l ?fs b @ rest), False)" for more
  proof -
    define c where c: "c = init_cmd ?i ?l ?fs b @ rest @ more"
    have "length (init_cmd ?i ?l ?fs b @ rest) = al" using init_cmd_read(1) [OF b ok] len by simp
    then show ?thesis using init_cmd_fields [OF b ok c] v unfolding append_assoc c [symmetric]
      by (simp add: field_widths process_cmd_def Let_def cq_cmd_ids)
  qed
  show "init_cmd ?i ?l ?fs b @ rest \<noteq> []" using init_cmd_read(1) [OF b ok, of ?i] by (cases "init_cmd ?i ?l ?fs b") simp_all
qed simp

lemma reads_exec_buf:
  assumes b: "length b = 16" and len: "16 + length rest = al" and v: "base < 2 ^ 32" "n < 2 ^ 32" "pages < 2 ^ 32" "\<not> ex"
  shows "reads al l1 ex (init_cmd CQ_PREFETCH_CMD_EXEC_BUF CQPrefetchExecBufCmd [(''base_addr'', base), (''log_page_size'', n), (''pages'', pages)] b @ rest)
    [V_prefetch (Exec_buf base n pages)] False" (is "reads al l1 ex (init_cmd ?i ?l ?fs b @ rest) [V_prefetch ?a] False")
proof (rule reads_single [where a = ?a and stride = 0])
  have ok: "struct_size ?l < 16" "fst ` set ?fs \<subseteq> fst ` set ?l" "distinct (map fst ?fs)" by (simp_all add: layout_sizes layout_fields)
  show "process_cmd al ex ((init_cmd ?i ?l ?fs b @ rest) @ more) =
      Some (?a, if False then 0 else length (init_cmd ?i ?l ?fs b @ rest), False)" for more
  proof -
    define c where c: "c = init_cmd ?i ?l ?fs b @ rest @ more"
    have "length (init_cmd ?i ?l ?fs b @ rest) = al" using init_cmd_read(1) [OF b ok] len by simp
    then show ?thesis using init_cmd_fields [OF b ok c] v unfolding append_assoc c [symmetric]
      by (simp add: field_widths process_cmd_def Let_def cq_cmd_ids)
  qed
  show "init_cmd ?i ?l ?fs b @ rest \<noteq> []" using init_cmd_read(1) [OF b ok, of ?i] by (cases "init_cmd ?i ?l ?fs b") simp_all
qed simp

end
