(* ===== verification/Command_Stream_Ops.thy ===== *)
theory Command_Stream_Ops
  imports Command_Stream
begin

text \<open>
  Every operation of the builder succeeds when there is space, takes the space announced for
  it, and reads on the device as intended.
\<close>

section \<open>The other commands of the prefetcher\<close>

lemma flags_read:
  assumes "is_dram < 2" "start < 16"
  shows "packed_page_flags is_dram start < 256" "packed_page_flags is_dram start AND 15 = start"
    "(0 < packed_page_flags is_dram start AND 16) = (0 < is_dram)"
proof -
  have e: "packed_page_flags is_dram start = is_dram * 16 + start"
    using push_or_add [of start 4 is_dram] assms(2)
    by (simp add: packed_page_flags_def CQ_PREFETCH_RELAY_PAGED_IS_DRAM_SHIFT_def CQ_PREFETCH_RELAY_PAGED_START_PAGE_SHIFT_def)
  show "packed_page_flags is_dram start < 256" using e assms by simp
  have "(is_dram * 16 + start) AND mask 4 = start" using assms(2) by (simp add: take_bit_eq_mod flip: take_bit_eq_mask)
  then show "packed_page_flags is_dram start AND 15 = start" unfolding e by (simp add: mask_eq_exp_minus_1)
  have "is_dram = 0 \<or> is_dram = 1" using assms(1) by auto
  then have "bit (is_dram * 16 + start) 4 = (0 < is_dram)" using assms(2) by (auto simp: bit_iff_odd)
  then show "(0 < packed_page_flags is_dram start AND 16) = (0 < is_dram)"
    unfolding e using and_exp_eq_0_iff_not_bit [of "is_dram * 16 + start" 4] by (auto intro: gr0I)
qed

lemma reads_relay_paged:
  assumes b: "length b = 16" and len: "16 + length rest = al"
    and v: "is_dram < 2" "start < 16" "base < 2 ^ 32" "page_size < 2 ^ 32" "pages < 2 ^ 32" "adjust < 2 ^ 16"
  shows "reads al l1 ex (init_cmd CQ_PREFETCH_CMD_RELAY_PAGED CQPrefetchRelayPagedCmd
      [(''packed_page_flags'', packed_page_flags is_dram start), (''length_adjust'', adjust), (''base_addr'', base),
       (''page_size'', page_size), (''pages'', pages)] b @ rest)
    [V_prefetch (Relay_paged (is_dram \<noteq> 0) start base page_size pages adjust)] False"
    (is "reads al l1 ex (init_cmd ?i ?l ?fs b @ rest) [V_prefetch ?a] False")
proof (rule reads_single [where a = ?a and stride = 0])
  have ok: "struct_size ?l < 16" "fst ` set ?fs \<subseteq> fst ` set ?l" "distinct (map fst ?fs)" by (simp_all add: layout_sizes layout_fields)
  show "process_cmd al ex ((init_cmd ?i ?l ?fs b @ rest) @ more) =
      Some (?a, if False then 0 else length (init_cmd ?i ?l ?fs b @ rest), False)" for more
  proof -
    define c where c: "c = init_cmd ?i ?l ?fs b @ rest @ more"
    have "length (init_cmd ?i ?l ?fs b @ rest) = al" using init_cmd_read(1) [OF b ok] len by simp
    then show ?thesis using init_cmd_fields [OF b ok c] v(3-6) flags_read [OF v(1,2)] unfolding append_assoc c [symmetric]
      by (simp add: field_widths process_cmd_def relay_paged_action_def Let_def cq_cmd_ids CQ_PREFETCH_RELAY_PAGED_IS_DRAM_SHIFT_def
          CQ_PREFETCH_RELAY_PAGED_START_PAGE_SHIFT_def CQ_PREFETCH_RELAY_PAGED_START_PAGE_MASK_def push_bit_eq_mult)
  qed
  show "init_cmd ?i ?l ?fs b @ rest \<noteq> []" using init_cmd_read(1) [OF b ok, of ?i] by (cases "init_cmd ?i ?l ?fs b") simp_all
qed simp

lemma reads_bare:
  assumes b: "length b = 16" and len: "16 + length rest = al"
  shows "reads al l1 ex (init_cmd CQ_PREFETCH_CMD_STALL [] [] b @ rest) [V_prefetch Stall_prefetch] False"
    "\<not> ex \<Longrightarrow> reads al l1 ex (init_cmd CQ_PREFETCH_CMD_TERMINATE [] [] b @ rest) [V_prefetch Terminate_prefetch] True"
proof -
  have ok: "struct_size [] < 16" "fst ` set ([] :: (string \<times> nat) list) \<subseteq> fst ` set ([] :: (string \<times> nat) list)"
    "distinct (map fst ([] :: (string \<times> nat) list))" by (simp_all add: struct_size_def)
  have l: "length (init_cmd i [] [] b @ rest) = al" for i using init_cmd_read(1) [OF b ok] len by simp
  have ne: "init_cmd i [] [] b @ rest \<noteq> []" for i using init_cmd_read(1) [OF b ok, of i] by (cases "init_cmd i [] [] b") simp_all
  have i: "cmd_id ((init_cmd i [] [] b @ rest) @ more) = i mod 256" for i more using init_cmd_read(2) [OF b ok] by simp
  show "reads al l1 ex (init_cmd CQ_PREFETCH_CMD_STALL [] [] b @ rest) [V_prefetch Stall_prefetch] False"
    by (rule reads_single [where a = Stall_prefetch and stride = 0, OF ne])
      (use l i [of CQ_PREFETCH_CMD_STALL] in \<open>simp_all add: process_cmd_def Let_def cq_cmd_ids\<close>)
  show "reads al l1 ex (init_cmd CQ_PREFETCH_CMD_TERMINATE [] [] b @ rest) [V_prefetch Terminate_prefetch] True" if "\<not> ex"
    by (rule reads_single [where a = Terminate_prefetch and stride = 0, OF ne])
      (use that i [of CQ_PREFETCH_CMD_TERMINATE] in \<open>simp_all add: process_cmd_def Let_def cq_cmd_ids\<close>)
qed

lemma reads_paged_packed:
  assumes b: "length b = 16" and v: "n < 2 ^ 32" "m < 2 ^ 16" "stride < 2 ^ 32" and subs: "length subs = 12 * m" "16 + length subs + length pad = stride"
  shows "reads al l1 ex (init_cmd CQ_PREFETCH_CMD_RELAY_PAGED_PACKED CQPrefetchRelayPagedPackedCmd
      [(''total_length'', n), (''stride'', stride), (''count'', m)] b @ subs @ pad) [V_prefetch (Relay_paged_packed n subs)] False"
    (is "reads al l1 ex (init_cmd ?i ?l ?fs b @ subs @ pad) [V_prefetch ?a] False")
proof (rule reads_single [where a = ?a and stride = 0])
  have ok: "struct_size ?l < 16" "fst ` set ?fs \<subseteq> fst ` set ?l" "distinct (map fst ?fs)" by (simp_all add: layout_sizes layout_fields)
  show "process_cmd al ex ((init_cmd ?i ?l ?fs b @ subs @ pad) @ more) =
      Some (?a, if False then 0 else length (init_cmd ?i ?l ?fs b @ subs @ pad), False)" for more
  proof -
    define c where c: "c = init_cmd ?i ?l ?fs b @ subs @ pad @ more"
    have "length (init_cmd ?i ?l ?fs b @ subs @ pad) = stride" using init_cmd_read(1) [OF b ok] subs by simp
    then show ?thesis using init_cmd_fields [OF b ok c] v subs unfolding append_assoc c [symmetric]
      by (simp add: field_widths process_cmd_def relay_paged_packed_action_def Let_def cq_cmd_ids CMD_SIZE_def sub_cmd_sizes)
  qed
  show "init_cmd ?i ?l ?fs b @ subs @ pad \<noteq> []" using init_cmd_read(1) [OF b ok, of ?i] by (cases "init_cmd ?i ?l ?fs b") simp_all
qed simp

lemma reads_exec_buf_end:
  assumes b: "length b = 16" "length b2 = 16" and ex
  shows "reads al l1 ex (init_cmd CQ_PREFETCH_CMD_EXEC_BUF_END CQPrefetchRelayInlineCmd [(''length'', 16), (''stride'', stride)] b @
      init_cmd CQ_DISPATCH_CMD_EXEC_BUF_END [] [] b2 @ pad) [V_end D_exec_buf_end] True"
    (is "reads al l1 ex (init_cmd ?i ?l ?fs b @ ?d @ pad) _ True")
proof (rule reads_single [where a = "Exec_buf_end ?d" and stride = "stride mod 2 ^ 32"])
  have ok: "struct_size ?l < 16" "fst ` set ?fs \<subseteq> fst ` set ?l" "distinct (map fst ?fs)" by (simp_all add: layout_sizes layout_fields)
  have d: "length ?d = 16" using init_cmd_read(1) [OF b(2), of "[]" "[]"] by (simp add: struct_size_def)
  show "process_cmd al ex ((init_cmd ?i ?l ?fs b @ ?d @ pad) @ more) =
      Some (Exec_buf_end ?d, if True then stride mod 2 ^ 32 else length (init_cmd ?i ?l ?fs b @ ?d @ pad), True)" for more
  proof -
    define c where c: "c = init_cmd ?i ?l ?fs b @ ?d @ pad @ more"
    show ?thesis using init_cmd_fields [OF b(1) ok c] d assms(3) unfolding append_assoc c [symmetric]
      by (simp add: field_widths process_cmd_def relayed_data_def relay_stride_def Let_def cq_cmd_ids CMD_SIZE_def)
  qed
  show "init_cmd ?i ?l ?fs b @ ?d @ pad \<noteq> []" using init_cmd_read(1) [OF b(1) ok, of ?i] by (cases "init_cmd ?i ?l ?fs b") simp_all
  show "view_action l1 (Exec_buf_end ?d) = Some (V_end D_exec_buf_end)" using view_bare(2) [OF b(2), of l1 "[]"] by simp
qed

lemma chunks_concat: "\<forall>x \<in> set xs. length x = w \<Longrightarrow> chunks (length xs) w (concat xs @ rest) = xs"
  by (induction xs) auto

lemma length_concat_12: "\<forall>x \<in> set xs. length x = w \<Longrightarrow> length (concat xs) = w * length xs"
  by (induction xs) auto

section \<open>Operations\<close>

definition op_reads :: "bool \<Rightarrow> (device_command \<Rightarrow> tt_error + device_command) \<Rightarrow> device_command \<Rightarrow> nat \<Rightarrow> device_view list \<Rightarrow> bool \<Rightarrow> bool" where
  "op_reads ex f c n vs fin \<longleftrightarrow> (\<exists>c' ch. f c = Inr c' \<and> emits c c' ch \<and> length ch = n \<and> reads (pcie_align c) 16 ex ch vs fin)"

definition room :: "device_command \<Rightarrow> nat \<Rightarrow> bool" where
  "room c n \<longleftrightarrow> good c \<and> pcie_align c dvd cmd_write_offsetB c \<and> cmd_write_offsetB c + n \<le> cmd_sequence_sizeB c"

lemma good_pow2: "good c \<Longrightarrow> \<exists>k \<ge> 5. k \<le> 12 \<and> pcie_align c = 2 ^ k"
  by (auto simp: good_def)

lemma ceil_cmd:
  assumes "good c" "0 < n" "n \<le> 32"
  shows "ceil_to n (pcie_align c) = pcie_align c"
  using ceil_to_unique [OF good_pcie(1) [OF assms(1)], of "pcie_align c" n] dvd_imp_le [OF good_pcie(2) [OF assms(1)]]
    good_pcie(1) [OF assms(1)] assms(2,3) by simp

lemma inc_cmd: "good c \<Longrightarrow> increment_sizeB CMD_SIZE c = pcie_align c"
  using good_align [of c 16] ceil_cmd [of c 16] by (simp add: increment_sizeB_def CMD_SIZE_def)

lemma prefetch_reads:
  assumes r: "room c (pcie_align c)" and len: "\<And>b. length b = 16 \<Longrightarrow> length (initialize b) = 16"
    and rd: "\<And>b rest. length b = 16 \<Longrightarrow> 16 + length rest = pcie_align c \<Longrightarrow> reads (pcie_align c) 16 ex (initialize b @ rest) vs fin"
  shows "op_reads ex (\<lambda>c. place_cmd (increment_sizeB CMD_SIZE c) initialize c) c (pcie_align c) vs fin"
proof -
  have g: "good c" and al: "16 \<le> pcie_align c"
    using r dvd_imp_le [OF good_pcie(2), of c] good_pcie(1) [of c] by (auto simp: room_def)
  obtain c' b rest where "place_cmd (pcie_align c) initialize c = Inr c'" "length b = 16" "length rest = pcie_align c - 16"
    "emits c c' (initialize b @ rest)"
    using place_cmd_ok [where initialize = initialize, OF g dvd_16 [OF g] al _ len] r by (auto simp: room_def)
  then show ?thesis using rd [of b rest] len [of b] al inc_cmd [OF g] unfolding op_reads_def
    by (intro exI [of _ c'] exI [of _ "initialize b @ rest"]) simp
qed

lemma relay_16_reads:
  assumes r: "room c (pcie_align c)" and b: "length b1 = 16" "length payload = 16"
    and e: "length (relay_inline_cmd CQ_PREFETCH_CMD_RELAY_INLINE d 16 (pcie_align c) b1 @ payload @ pad) = pcie_align c"
    and v: "dispatch_view 16 payload = Some v" "d < 256"
  shows "reads (pcie_align c) 16 ex (relay_inline_cmd CQ_PREFETCH_CMD_RELAY_INLINE d 16 (pcie_align c) b1 @ payload @ pad)
    [V_relay True (if d = 0 then DISPATCH_MASTER else DISPATCH_SLAVE) v] False"
proof (rule reads_relay [OF b(1)])
  have g: "good c" using r by (simp add: room_def)
  show "16 + 16 + length pad = ceil_to (16 + 16) (pcie_align c)"
    using e relay_inline_read(1) [OF b(1)] b(2) ceil_cmd [OF g, of 32] by simp
qed (use b v r good_pow2 in \<open>auto simp: room_def\<close>)

lemma relay_aligned_reads:
  assumes r: "room c (pcie_align c)" and len: "\<And>b. length b = 16 \<Longrightarrow> length (initialize b) = 16"
    and v: "\<And>b. length b = 16 \<Longrightarrow> dispatch_view 16 (initialize b) = Some v"
  shows "op_reads ex (relay_aligned CMD_SIZE sel initialize) c (pcie_align c) [V_relay True sel v] False"
proof -
  have g: "good c" and off: "pcie_align c dvd cmd_write_offsetB c" and fit: "cmd_write_offsetB c + 32 \<le> cmd_sequence_sizeB c"
    using r dvd_imp_le [OF good_pcie(2), of c] good_pcie(1) [of c] by (auto simp: room_def)
  let ?r = "relay_inline_cmd CQ_PREFETCH_CMD_RELAY_INLINE (dispatcher_index sel) 16 (pcie_align c)"
  obtain c1 b1 b2 where c1: "relay_cmd True 16 sel initialize c = Inr c1" "length b1 = 16" "length b2 = 16" "emits c c1 (?r b1 @ initialize b2)"
    using relay_cmd_ok [where initialize = initialize and flush = True and L = 16 and sel = sel, OF g dvd_16 [OF g off] fit _ len relay_inline_read(1)]
    by auto
  obtain pad where pad: "emits c (align_offset c1) (?r b1 @ initialize b2 @ pad)"
    "length (?r b1 @ initialize b2 @ pad) = ceil_to (length (?r b1 @ initialize b2)) (pcie_align c)"
    using aligned_end [OF g off c1(4)] by auto
  have l: "length (?r b1 @ initialize b2 @ pad) = pcie_align c"
    using pad(2) relay_inline_read(1) [OF c1(2)] len [OF c1(3)] ceil_cmd [OF g, of 32] by simp
  have "reads (pcie_align c) 16 ex (?r b1 @ initialize b2 @ pad)
      [V_relay True (if dispatcher_index sel = 0 then DISPATCH_MASTER else DISPATCH_SLAVE) v] False"
    by (rule relay_16_reads [OF r c1(2) len [OF c1(3)] l v [OF c1(3)]]) (cases sel; simp)
  then have "reads (pcie_align c) 16 ex (?r b1 @ initialize b2 @ pad) [V_relay True sel v] False" by (cases sel) simp_all
  moreover have "relay_aligned CMD_SIZE sel initialize c = Inr (align_offset c1)" using c1(1) by (simp add: relay_aligned_def CMD_SIZE_def)
  ultimately show ?thesis using pad(1) l unfolding op_reads_def by blast
qed

lemma wait_reads:
  assumes r: "room c (pcie_align c)" and v: "barrier < 256" "ad < 2 ^ 32" "count < 2 ^ 32" "clear < 256" "d < 256"
  shows "op_reads ex (add_dispatch_wait barrier ad count clear notify do_wait d) c (pcie_align c)
    [V_relay True (if d = 0 then DISPATCH_MASTER else DISPATCH_SLAVE) (D_wait (barrier \<noteq> 0) notify (clear \<noteq> 0) do_wait ad count)] False"
proof -
  have g: "good c" and off: "pcie_align c dvd cmd_write_offsetB c" and fit: "cmd_write_offsetB c + ceil_to 32 (pcie_align c) \<le> cmd_sequence_sizeB c"
    using r ceil_cmd [of c 32] by (auto simp: room_def)
  let ?r = "relay_inline_cmd CQ_PREFETCH_CMD_RELAY_INLINE d 16 (pcie_align c)"
  let ?w = "init_cmd CQ_DISPATCH_CMD_WAIT CQDispatchWaitCmd [(''barrier'', barrier), (''notify_prefetch'', of_bool notify),
    (''wait'', of_bool do_wait), (''addr'', ad), (''count'', count), (''clear_count'', clear)]"
  have len: "length (?w b) = 16" if "length b = 16" for b
    by (rule init_cmd_read(1) [OF that]) (simp_all add: layout_sizes layout_fields)
  obtain c' b1 b2 pad where c': "place_two ?r ?w c = Inr c'" "length b1 = 16" "length b2 = 16" "emits c c' (?r b1 @ ?w b2 @ pad)"
    "length (?r b1 @ ?w b2 @ pad) = ceil_to 32 (pcie_align c)"
    using place_two_ok [where first = ?r and second = ?w, OF g off fit relay_inline_read(1) len] by blast
  have l: "length (?r b1 @ ?w b2 @ pad) = pcie_align c" using c'(5) ceil_cmd [OF g, of 32] by simp
  have "dispatch_view 16 (?w b2) = Some (D_wait (barrier \<noteq> 0) notify (clear \<noteq> 0) do_wait ad count)"
    using view_wait [OF c'(3) v(1-4), of 16 notify do_wait "[]"] by simp
  then show ?thesis using relay_16_reads [OF r c'(2) len [OF c'(3)] l _ v(5), of _ ex] c'(1,4) l
    unfolding op_reads_def add_dispatch_wait_def CMD_SIZE_def by blast
qed

lemma op_reads_then:
  assumes "op_reads ex f c n vs False" "\<And>c'. same_frame c c' \<Longrightarrow> cmd_write_offsetB c' = cmd_write_offsetB c + n \<Longrightarrow> op_reads ex g c' m ws fin"
  shows "op_reads ex (\<lambda>c. bind_result (f c) g) c (n + m) (vs @ ws) fin"
proof -
  obtain c1 a where c1: "f c = Inr c1" "emits c c1 a" "length a = n" "reads (pcie_align c) 16 ex a vs False"
    using assms(1) by (auto simp: op_reads_def)
  have fr: "same_frame c c1" "cmd_write_offsetB c1 = cmd_write_offsetB c + n" using c1(2,3) by (auto simp: emits_def)
  obtain c2 b where c2: "g c1 = Inr c2" "emits c1 c2 b" "length b = m" "reads (pcie_align c1) 16 ex b ws fin"
    using assms(2) [OF fr] by (auto simp: op_reads_def)
  have "reads (pcie_align c) 16 ex (a @ b) (vs @ ws) fin"
    using reads_append [OF c1(4)] c2(4) fr(1) by (simp add: same_frame_def)
  then show ?thesis using c1(1,3) c2(1,3) emits_trans [OF c1(2) c2(2)] unfolding op_reads_def
    by (intro exI [of _ c2] exI [of _ "a @ b"]) simp
qed

lemma room_after:
  assumes "room c (n + m)" "same_frame c c'" "cmd_write_offsetB c' = cmd_write_offsetB c + n" "pcie_align c dvd n"
  shows "room c' m"
  using assms same_frame_good [OF assms(2)] by (auto simp: room_def same_frame_def)

lemma wait_stall_reads:
  assumes r: "room c (2 * pcie_align c)" and v: "barrier < 256" "ad < 2 ^ 32" "count < 2 ^ 32" "clear < 256"
  shows "op_reads ex (add_dispatch_wait_with_prefetch_stall barrier ad count clear do_wait) c (2 * pcie_align c)
    [V_relay True DISPATCH_MASTER (D_wait (barrier \<noteq> 0) True (clear \<noteq> 0) do_wait ad count), V_prefetch Stall_prefetch] False"
proof -
  let ?a = "pcie_align c" and ?w = "V_relay True DISPATCH_MASTER (D_wait (barrier \<noteq> 0) True (clear \<noteq> 0) do_wait ad count)"
  have r1: "room c (?a + ?a)" using r by (simp add: mult_2)
  have "op_reads ex (\<lambda>c. bind_result (add_dispatch_wait barrier ad count clear True do_wait 0 c)
      (\<lambda>c. place_cmd (increment_sizeB CMD_SIZE c) (zeroed (init_cmd CQ_PREFETCH_CMD_STALL [] [])) c)) c (?a + ?a) ([?w] @ [V_prefetch Stall_prefetch]) False"
  proof (rule op_reads_then)
    show "op_reads ex (add_dispatch_wait barrier ad count clear True do_wait 0) c ?a [?w] False"
      using wait_reads [of c barrier ad count clear 0 ex True do_wait] r1 v by (auto simp: room_def)
    fix c' assume c': "same_frame c c'" "cmd_write_offsetB c' = cmd_write_offsetB c + ?a"
    have al: "pcie_align c' = ?a" using c'(1) by (simp add: same_frame_def)
    have "op_reads ex (\<lambda>c. place_cmd (increment_sizeB CMD_SIZE c) (zeroed (init_cmd CQ_PREFETCH_CMD_STALL [] [])) c) c' (pcie_align c')
        [V_prefetch Stall_prefetch] False"
    proof (rule prefetch_reads)
      show "room c' (pcie_align c')" using room_after [OF r1 c'] al by simp
    qed (auto simp: zeroed_def CMD_SIZE_def reads_bare(1) init_cmd_read(1) struct_size_def)
    then show "op_reads ex (\<lambda>c. place_cmd (increment_sizeB CMD_SIZE c) (zeroed (init_cmd CQ_PREFETCH_CMD_STALL [] [])) c) c' ?a
        [V_prefetch Stall_prefetch] False" using al by simp
  qed
  then show ?thesis by (simp add: add_dispatch_wait_with_prefetch_stall_def [abs_def] mult_2)
qed

end
