(* ===== verification/Command_Stream_Writes.thy ===== *)
theory Command_Stream_Writes
  imports Command_Stream_Ops
begin

text \<open>
  The operations of the command builder that carry data or sub-commands, and a lemma on all
  operations together.
\<close>

section \<open>Writes with data\<close>

text \<open>
  A relayed command with data behind it: \<open>tail\<close> is what adds the data and fills the space up.
\<close>

lemma relay_chunk_emits:
  assumes r: "room c (ceil_to (32 + n) (pcie_align c))" and n: "n < 2 ^ 30" and fl: "flush \<or> n = 0"
    and L: "L = 16 + n" and sel: "flush \<or> sel = DISPATCH_MASTER"
    and len: "\<And>b. length b = 16 \<Longrightarrow> length (initialize b) = 16"
    and tl: "\<And>c1. same_frame c c1 \<Longrightarrow> cmd_write_offsetB c1 = cmd_write_offsetB c + 32 \<Longrightarrow>
      \<exists>c2 data pad. tail c1 = Inr c2 \<and> emits c1 c2 (data @ pad) \<and> length data = n \<and> 32 + length (data @ pad) = ceil_to (32 + n) (pcie_align c) \<and> Q data"
  shows "\<exists>c' pre b data pad. bind_result (relay_cmd flush L sel initialize c) tail = Inr c' \<and> length pre = 16 \<and> length b = 16 \<and> length data = n \<and>
    emits c c' (pre @ (initialize b @ data) @ pad) \<and> length (pre @ (initialize b @ data) @ pad) = ceil_to (32 + n) (pcie_align c) \<and> Q data \<and>
    (\<forall>v. dispatch_view 16 (initialize b @ data) = Some v \<longrightarrow> reads (pcie_align c) 16 ex (pre @ (initialize b @ data) @ pad) [V_relay flush sel v] False)"
proof -
  have g: "good c" and off: "pcie_align c dvd cmd_write_offsetB c"
    and fit: "cmd_write_offsetB c + ceil_to (32 + n) (pcie_align c) \<le> cmd_sequence_sizeB c" using r by (auto simp: room_def)
  have fit32: "cmd_write_offsetB c + 32 \<le> cmd_sequence_sizeB c" using ceil_le_size [OF g off fit] by simp
  let ?i = "if flush then CQ_PREFETCH_CMD_RELAY_INLINE else CQ_PREFETCH_CMD_RELAY_INLINE_NOFLUSH"
  let ?r = "relay_inline_cmd ?i (dispatcher_index sel) L (pcie_align c)"
  have L': "flush \<or> L \<le> 4096" using fl L by auto
  obtain c1 b1 b2 where c1: "relay_cmd flush L sel initialize c = Inr c1" "length b1 = 16" "length b2 = 16" "emits c c1 (?r b1 @ initialize b2)"
    using relay_cmd_ok [where initialize = initialize and sel = sel, OF g dvd_16 [OF g off] fit32 L' len relay_inline_read(1)] by blast
  have l16: "length (?r b1) = 16" "length (initialize b2) = 16" using relay_inline_read(1) [OF c1(2)] len [OF c1(3)] by auto
  have "same_frame c c1" "cmd_write_offsetB c1 = cmd_write_offsetB c + 32" using c1(4) l16 by (auto simp: emits_def)
  then obtain c2 data pad where c2: "tail c1 = Inr c2" "emits c1 c2 (data @ pad)" "length data = n"
    "32 + length (data @ pad) = ceil_to (32 + n) (pcie_align c)" "Q data"
    using tl [of c1] by blast
  have e: "emits c c2 (?r b1 @ (initialize b2 @ data) @ pad)" using emits_trans [OF c1(4) c2(2)] by simp
  have "reads (pcie_align c) 16 ex (?r b1 @ (initialize b2 @ data) @ pad) [V_relay flush sel v] False"
    if v: "dispatch_view 16 (initialize b2 @ data) = Some v" for v
  proof (rule reads_relay [OF c1(2)])
    show "length (initialize b2 @ data) = L" "L < 2 ^ 30 + 16" "16 + L + length pad = ceil_to (16 + L) (pcie_align c)"
      using l16(2) L n c2(3,4) by simp_all
    show "sel = (if dispatcher_index sel = 0 \<or> \<not> flush then DISPATCH_MASTER else DISPATCH_SLAVE)" "dispatcher_index sel < 256"
      using sel by (cases sel; simp)+
  qed (rule good_pow2 [OF g], rule v, rule refl)
  moreover have "length (?r b1 @ (initialize b2 @ data) @ pad) = ceil_to (32 + n) (pcie_align c)" using l16 c2(4) by simp
  moreover have "bind_result (relay_cmd flush L sel initialize c) tail = Inr c2" using c1(1) c2(1) by simp
  ultimately show ?thesis using c1(3) c2(3,5) l16(1) e by blast
qed

lemma relay_chunk_reads:
  assumes r: "room c (ceil_to (32 + n) (pcie_align c))" and n: "n < 2 ^ 30" and fl: "flush \<or> n = 0"
    and L: "L = 16 + n" and sel: "flush \<or> sel = DISPATCH_MASTER"
    and len: "\<And>b. length b = 16 \<Longrightarrow> length (initialize b) = 16"
    and tl: "\<And>c1. same_frame c c1 \<Longrightarrow> cmd_write_offsetB c1 = cmd_write_offsetB c + 32 \<Longrightarrow>
      \<exists>c2 data pad. tail c1 = Inr c2 \<and> emits c1 c2 (data @ pad) \<and> length data = n \<and> 32 + length (data @ pad) = ceil_to (32 + n) (pcie_align c) \<and>
        (\<forall>b. length b = 16 \<longrightarrow> dispatch_view 16 (initialize b @ data) = Some v)"
  shows "op_reads ex (\<lambda>c. bind_result (relay_cmd flush L sel initialize c) tail) c (ceil_to (32 + n) (pcie_align c)) [V_relay flush sel v] False"
  unfolding op_reads_def
  using relay_chunk_emits [where tail = tail and initialize = initialize and ex = ex and
    Q = "\<lambda>data. \<forall>b. length b = 16 \<longrightarrow> dispatch_view 16 (initialize b @ data) = Some v", OF r n fl L sel len tl] by blast

lemma relay_data_reads:
  assumes r: "room c (ceil_to (32 + length data) (pcie_align c))" and n: "length data < 2 ^ 30" and fl: "flush \<or> data = []"
    and L: "L = 16 + length data" and sel: "flush \<or> sel = DISPATCH_MASTER"
    and len: "\<And>b. length b = 16 \<Longrightarrow> length (initialize b) = 16"
    and v: "\<And>b. length b = 16 \<Longrightarrow> dispatch_view 16 (initialize b @ data) = Some v"
    and tl: "\<And>c1. same_frame c c1 \<Longrightarrow> cmd_write_offsetB c1 = cmd_write_offsetB c + 32 \<Longrightarrow>
      \<exists>c2 pad. tail c1 = Inr c2 \<and> emits c1 c2 (data @ pad) \<and> 32 + length (data @ pad) = ceil_to (32 + length data) (pcie_align c)"
  shows "op_reads ex (\<lambda>c. bind_result (relay_cmd flush L sel initialize c) tail) c (ceil_to (32 + length data) (pcie_align c)) [V_relay flush sel v] False"
proof (rule relay_chunk_reads [OF r n _ L sel len])
  show "\<exists>c2 data' pad. tail c1 = Inr c2 \<and> emits c1 c2 (data' @ pad) \<and> length data' = length data \<and>
      32 + length (data' @ pad) = ceil_to (32 + length data) (pcie_align c) \<and> (\<forall>b. length b = 16 \<longrightarrow> dispatch_view 16 (initialize b @ data') = Some v)"
    if "same_frame c c1" "cmd_write_offsetB c1 = cmd_write_offsetB c + 32" for c1
    using tl [OF that] v by metis
qed (use fl in auto)

lemma payload_size_eq: "n < 2 ^ 30 \<Longrightarrow> payload_size flush n = (if flush then 16 + n else 16)"
  by (simp add: payload_size_def CMD_SIZE_def add32_small)

text \<open>Data rounded up on its own fills the space exactly when commands are aligned to 32 bytes.\<close>

lemma add_inline_data_ok:
  assumes r: "room c (ceil_to (32 + length (data_of data)) 32)" and al: "pcie_align c = 32" and n: "length (data_of data) < 2 ^ 30"
    and c1: "same_frame c c1" "cmd_write_offsetB c1 = cmd_write_offsetB c + 32"
  shows "\<exists>c2 pad. add_inline_data data c1 = Inr c2 \<and> emits c1 c2 (data_of data @ pad) \<and>
    32 + length (data_of data @ pad) = ceil_to (32 + length (data_of data)) 32"
proof (cases data)
  case None
  then show ?thesis using c1 r same_frame_refl [of c1]
    by (auto simp: add_inline_data_def data_of_def emits_def room_def same_frame_def ceil_to_def)
next
  case (Some bs)
  let ?n = "length bs"
  have g1: "good c1" using same_frame_good [OF c1(1)] r by (simp add: room_def)
  have al1: "pcie_align c1 = 32" and s1: "cmd_sequence_sizeB c1 = cmd_sequence_sizeB c" using c1(1) al by (auto simp: same_frame_def)
  have e: "ceil_to (32 + ?n) 32 = 32 + ceil_to ?n 32"
    by (rule ceil_to_unique [symmetric]) (use ceil_to_props [of 32 ?n] in auto)
  have inc: "increment_sizeB ?n c1 = ceil_to ?n 32" using good_align [OF g1, of ?n] n Some al1 by (simp add: increment_sizeB_def data_of_def)
  have "\<exists>c2 rest. add_data bs (ceil_to ?n 32) c1 = Inr c2 \<and> length rest = ceil_to ?n 32 - ?n \<and> emits c1 c2 (bs @ rest)"
  proof (rule add_data_ok [OF g1])
    show "16 dvd cmd_write_offsetB c1" using dvd_16 [of c] r c1(2) by (auto simp: room_def)
    show "?n \<le> ceil_to ?n 32" by (rule ceil_to_props) simp
    show "cmd_write_offsetB c1 + ceil_to ?n 32 \<le> cmd_sequence_sizeB c1" using r c1(2) s1 e Some by (simp add: room_def data_of_def)
  qed
  then obtain c2 rest where "add_data bs (ceil_to ?n 32) c1 = Inr c2" "length rest = ceil_to ?n 32 - ?n" "emits c1 c2 (bs @ rest)" by blast
  then show ?thesis using e inc Some ceil_to_props(2) [of 32 ?n]
    by (intro exI [of _ c2] exI [of _ rest]) (simp add: add_inline_data_def data_of_def)
qed

lemma write_linear_reads:
  assumes r: "room c (op_size (pcie_align c) (Op_write_linear dests noc ad n data idx))"
    and ok: "op_ok (pcie_align c) ex (Op_write_linear dests noc ad n data idx)"
  shows "op_reads ex (apply_op (Op_write_linear dests noc ad n data idx)) c (op_size (pcie_align c) (Op_write_linear dests noc ad n data idx))
    (intended (Op_write_linear dests noc ad n data idx)) False"
proof -
  let ?w = "init_cmd CQ_DISPATCH_CMD_WRITE_LINEAR CQDispatchWriteCmd [(''num_mcast_dests'', dests), (''write_offset_index'', idx),
    (''noc_xy_addr'', noc), (''addr'', ad), (''length'', n)]"
  have al: "pcie_align c = 32" using ok by simp
  have small: "length (data_of data) < 2 ^ 30" using ok by (cases data) (auto simp: data_of_def)
  have L: "payload_size (data \<noteq> None) n = 16 + length (data_of data)" using ok
    by (cases data) (auto simp: payload_size_eq data_of_def payload_size_def CMD_SIZE_def add32_def)
  have len: "length (?w b) = 16" if "length b = 16" for b
    by (rule init_cmd_read(1) [OF that]) (simp_all add: layout_sizes layout_fields)
  have "op_reads ex (\<lambda>c. bind_result (relay_cmd (data \<noteq> None) (payload_size (data \<noteq> None) n) DISPATCH_MASTER ?w c) (add_inline_data data)) c
      (ceil_to (32 + length (data_of data)) (pcie_align c)) [V_relay (data \<noteq> None) DISPATCH_MASTER (D_write_linear dests idx noc ad n (data_of data))] False"
  proof (rule relay_data_reads [OF _ small _ L _ len])
    show "dispatch_view 16 (?w b @ data_of data) = Some (D_write_linear dests idx noc ad n (data_of data))" if "length b = 16" for b
      using view_write_linear [OF that, of dests noc ad n idx] ok by simp
    show "\<exists>c2 pad. add_inline_data data c1 = Inr c2 \<and> emits c1 c2 (data_of data @ pad) \<and>
        32 + length (data_of data @ pad) = ceil_to (32 + length (data_of data)) (pcie_align c)"
      if "same_frame c c1" "cmd_write_offsetB c1 = cmd_write_offsetB c + 32" for c1
      using add_inline_data_ok [OF _ al small that] r al by simp
    show "data \<noteq> None \<or> data_of data = []" by (cases data) (auto simp: data_of_def)
  qed (use r in auto)
  then show ?thesis by (simp add: op_reads_def add_dispatch_write_linear_def)
qed

lemma write_paged_reads:
  assumes r: "room c (op_size (pcie_align c) (Op_write_paged is_dram start base page_size pages data))"
    and ok: "op_ok (pcie_align c) ex (Op_write_paged is_dram start base page_size pages data)"
  shows "op_reads ex (apply_op (Op_write_paged is_dram start base page_size pages data)) c
    (op_size (pcie_align c) (Op_write_paged is_dram start base page_size pages data)) (intended (Op_write_paged is_dram start base page_size pages data)) False"
proof -
  let ?w = "init_cmd CQ_DISPATCH_CMD_WRITE_PAGED CQDispatchWritePagedCmd [(''is_dram'', is_dram), (''start_page'', start),
    (''base_addr'', base), (''page_size'', page_size), (''pages'', pages)]" and ?n = "mul32 page_size pages"
  have al: "pcie_align c = 32" using ok by simp
  have small: "length (data_of data) < 2 ^ 30" using ok by (cases data) (auto simp: data_of_def)
  have L: "payload_size (data \<noteq> None) ?n = 16 + length (data_of data)" using ok
    by (cases data) (auto simp: payload_size_eq data_of_def payload_size_def CMD_SIZE_def add32_def mul32_def)
  have len: "length (?w b) = 16" if "length b = 16" for b
    by (rule init_cmd_read(1) [OF that]) (simp_all add: layout_sizes layout_fields)
  have "op_reads ex (\<lambda>c. bind_result (relay_cmd (data \<noteq> None) (payload_size (data \<noteq> None) ?n) DISPATCH_MASTER ?w c) (add_inline_data data)) c
      (ceil_to (32 + length (data_of data)) (pcie_align c)) (intended (Op_write_paged is_dram start base page_size pages data)) False"
    unfolding intended.simps
  proof (rule relay_data_reads [OF _ small _ L _ len])
    show "dispatch_view 16 (?w b @ data_of data) = Some (D_write_paged (is_dram \<noteq> 0) start base page_size pages (data_of data))" if "length b = 16" for b
      using view_write_paged [OF that, of is_dram start base page_size pages] ok by simp
    show "\<exists>c2 pad. add_inline_data data c1 = Inr c2 \<and> emits c1 c2 (data_of data @ pad) \<and>
        32 + length (data_of data @ pad) = ceil_to (32 + length (data_of data)) (pcie_align c)"
      if "same_frame c c1" "cmd_write_offsetB c1 = cmd_write_offsetB c + 32" for c1
      using add_inline_data_ok [OF _ al small that] r al by simp
    show "data \<noteq> None \<or> data_of data = []" by (cases data) (auto simp: data_of_def)
  qed (use r in auto)
  then show ?thesis by (simp add: op_reads_def add_dispatch_write_paged_def)
qed

text \<open>Data whose end is aligned fills the space for every alignment.\<close>

lemma aligned_after:
  assumes r: "room c (ceil_to (n + length ch) (pcie_align c))" and fr: "same_frame c c1" "cmd_write_offsetB c1 = cmd_write_offsetB c + n"
    and e: "emits c1 c2 ch"
  shows "\<exists>pad. emits c1 (align_offset c2) (ch @ pad) \<and> n + length (ch @ pad) = ceil_to (n + length ch) (pcie_align c)"
proof -
  have g: "good c" and off: "pcie_align c dvd cmd_write_offsetB c" using r by (auto simp: room_def)
  let ?p = "cmd_write_offsetB c" and ?a = "pcie_align c" and ?n = "n + length ch"
  have g2: "good c2" by (rule emits_good [OF e same_frame_good [OF fr(1) g]])
  have c2: "pcie_align c2 = ?a" "cmd_write_offsetB c2 = ?p + ?n" "cmd_write_offsetB c2 \<le> cmd_sequence_sizeB c2"
    using e fr by (auto simp: emits_def same_frame_def)
  obtain pad where pad: "emits c2 (align_offset c2) pad" "cmd_write_offsetB (align_offset c2) = ceil_to (?p + ?n) ?a"
    using align_offset_ok [OF g2 c2(3)] c2 by auto
  have a: "0 < ?a" by (rule good_pcie(1) [OF g])
  have "?p + ceil_to ?n ?a = ceil_to (?p + ?n) ?a"
    by (rule ceil_to_unique [OF a]) (use ceil_to_props [OF a, of ?n] off in auto)
  moreover have "cmd_write_offsetB (align_offset c2) = ?p + ?n + length pad" using pad(1) c2(2) by (simp add: emits_def)
  ultimately have "n + length (ch @ pad) = ceil_to ?n ?a" using pad(2) by simp
  then show ?thesis using emits_trans [OF e pad(1)] by blast
qed

lemma add_data_exact:
  assumes "good c" "16 dvd cmd_write_offsetB c" "cmd_write_offsetB c + length bs \<le> cmd_sequence_sizeB c"
  shows "\<exists>c'. add_data bs (length bs) c = Inr c' \<and> emits c c' bs"
  using add_data_ok [OF assms(1,2) order_refl assms(3)] by auto

lemma emits_nothing: "cmd_write_offsetB c \<le> cmd_sequence_sizeB c \<Longrightarrow> emits c c []"
  by (simp add: emits_def same_frame_refl)

lemma room_32:
  assumes "room c (ceil_to (32 + n) (pcie_align c))" "same_frame c c1" "cmd_write_offsetB c1 = cmd_write_offsetB c + 32"
  shows "good c1" "16 dvd cmd_write_offsetB c1" "cmd_write_offsetB c1 + n \<le> cmd_sequence_sizeB c1"
proof -
  have g: "good c" and off: "pcie_align c dvd cmd_write_offsetB c" using assms(1) by (auto simp: room_def)
  show "good c1" by (rule same_frame_good [OF assms(2) g])
  show "16 dvd cmd_write_offsetB c1" using dvd_16 [OF g off] assms(3) by simp
  show "cmd_write_offsetB c1 + n \<le> cmd_sequence_sizeB c1"
    using ceil_le_size [OF g off, of "32 + n"] assms by (simp add: room_def same_frame_def)
qed

lemma write_host_reads:
  assumes r: "room c (op_size (pcie_align c) (Op_write_host n is_event data))" and ok: "op_ok (pcie_align c) ex (Op_write_host n is_event data)"
  shows "op_reads ex (apply_op (Op_write_host n is_event data)) c (op_size (pcie_align c) (Op_write_host n is_event data))
    (intended (Op_write_host n is_event data)) False"
proof -
  let ?w = "init_cmd CQ_DISPATCH_CMD_WRITE_LINEAR_H_HOST CQDispatchWriteHostCmd [(''is_event'', of_bool is_event), (''length'', add32 CMD_SIZE n)]"
  let ?tail = "\<lambda>c. bind_result (case data of None \<Rightarrow> Inr c | Some bs \<Rightarrow> add_data bs (length bs) c) (\<lambda>c. Inr (align_offset c))"
  have small: "length (data_of data) < 2 ^ 30" using ok by (cases data) (auto simp: data_of_def)
  have L: "payload_size (data \<noteq> None) n = 16 + length (data_of data)" using ok
    by (cases data) (auto simp: payload_size_eq data_of_def payload_size_def CMD_SIZE_def add32_def)
  have len: "length (?w b) = 16" if "length b = 16" for b
    by (rule init_cmd_read(1) [OF that]) (simp_all add: layout_sizes layout_fields)
  have r': "room c (ceil_to (32 + length (data_of data)) (pcie_align c))" using r by simp
  have "op_reads ex (\<lambda>c. bind_result (relay_cmd (data \<noteq> None) (payload_size (data \<noteq> None) n) DISPATCH_MASTER ?w c) ?tail) c
      (ceil_to (32 + length (data_of data)) (pcie_align c)) (intended (Op_write_host n is_event data)) False"
    unfolding intended.simps
  proof (rule relay_data_reads [OF r' small _ L _ len])
    have "add32 CMD_SIZE n = 16 + n" using ok by (simp add: add32_def CMD_SIZE_def)
    then show "dispatch_view 16 (?w b @ data_of data) = Some (D_write_host is_event (16 + n) (data_of data))" if "length b = 16" for b
      using view_write_host [OF that, of "16 + n"] ok by simp
    show "\<exists>c2 pad. ?tail c1 = Inr c2 \<and> emits c1 c2 (data_of data @ pad) \<and>
        32 + length (data_of data @ pad) = ceil_to (32 + length (data_of data)) (pcie_align c)"
      if c1: "same_frame c c1" "cmd_write_offsetB c1 = cmd_write_offsetB c + 32" for c1
    proof -
      obtain c2 where c2: "(case data of None \<Rightarrow> Inr c1 | Some bs \<Rightarrow> add_data bs (length bs) c1) = Inr c2" "emits c1 c2 (data_of data)"
        using add_data_exact [OF room_32 [OF r' c1]] room_32(3) [OF r' c1] emits_nothing [of c1]
        by (cases data) (auto simp: data_of_def)
      show ?thesis using aligned_after [OF r' c1 c2(2)] c2(1) by auto
    qed
    show "data \<noteq> None \<or> data_of data = []" by (cases data) (auto simp: data_of_def)
  qed (use r in auto)
  then show ?thesis by (simp add: op_reads_def add_dispatch_write_host_def)
qed

section \<open>Commands with sub-commands\<close>

lemma reserve_copy_ok:
  assumes g: "good c" and off: "16 dvd cmd_write_offsetB c" and fit: "cmd_write_offsetB c + length bs \<le> cmd_sequence_sizeB c"
    and z: "\<And>k. object = Some k \<Longrightarrow> cmd_write_offsetB c + k \<le> cmd_sequence_sizeB c" and four: "4 dvd length bs"
  shows "\<exists>c1 c2. reserve_space object (length bs) c = Inr (cmd_write_offsetB c, c1) \<and> dc_memcpy (cmd_write_offsetB c) bs c1 = Inr c2 \<and> emits c c2 bs"
proof -
  let ?p = "cmd_write_offsetB c"
  obtain c1 where c1: "reserve_space object (length bs) c = Inr (?p, c1)" "same_frame c c1" "cmd_write_offsetB c1 = ?p + length bs"
    "take ?p (cmd_region c1) = take ?p (cmd_region c)"
    using reserve_space_ok [OF g off fit z] by blast
  have "?p + length bs \<le> cmd_sequence_sizeB c1" using fit c1(2) by (simp add: same_frame_def)
  then obtain c2 where c2: "dc_memcpy ?p bs c1 = Inr c2" "same_frame c1 c2" "cmd_write_offsetB c2 = ?p + length bs"
    "cmd_region c2 = take ?p (cmd_region c1) @ bs @ drop (?p + length bs) (cmd_region c1)"
    using dc_memcpy_ok [OF same_frame_good [OF c1(2) g] _ off, of bs] four c1(3) by auto
  have "length (take ?p (cmd_region c)) = ?p" using g fit by (simp add: good_def)
  then have "emits c c2 bs" using c2(3) fit same_frame_trans [OF c1(2) c2(2)] unfolding emits_def c2(4) c1(4) by simp
  then show ?thesis using c1(1) c2(1) by blast
qed

lemma concat_words: "length (concat (map (le_bytes 4) ws)) = 4 * length ws"
  "\<forall>w \<in> set ws. w < 2 ^ 32 \<Longrightarrow> map le_value (chunks (length ws) 4 (concat (map (le_bytes 4) ws))) = ws"
proof -
  show "length (concat (map (le_bytes 4) ws)) = 4 * length ws" by (induction ws) simp_all
  assume w: "\<forall>w \<in> set ws. w < 2 ^ 32"
  have "chunks (length (map (le_bytes 4) ws)) 4 (concat (map (le_bytes 4) ws) @ []) = map (le_bytes 4) ws"
    by (rule chunks_concat) auto
  then have "map le_value (chunks (length ws) 4 (concat (map (le_bytes 4) ws))) = map (le_value \<circ> le_bytes 4) ws" by simp
  also have "\<dots> = map id ws" using w by (intro map_cong) (auto simp: le_value_bytes)
  finally show "map le_value (chunks (length ws) 4 (concat (map (le_bytes 4) ws))) = ws" by simp
qed

lemma noc_data_reads:
  assumes r: "room c (op_size (pcie_align c) (Op_set_go_signal_noc_data ws d))" and ok: "op_ok (pcie_align c) ex (Op_set_go_signal_noc_data ws d)"
  shows "op_reads ex (apply_op (Op_set_go_signal_noc_data ws d)) c (op_size (pcie_align c) (Op_set_go_signal_noc_data ws d))
    (intended (Op_set_go_signal_noc_data ws d)) False"
proof -
  let ?w = "init_cmd CQ_DISPATCH_SET_GO_SIGNAL_NOC_DATA CQDispatchSetGoSignalNocDataCmd [(''num_words'', length ws)]"
  let ?bs = "concat (map (le_bytes 4) ws)"
  let ?tail = "\<lambda>c. bind_result (reserve_space (Some 4) (length ws * 4) c) (\<lambda>(dst, c).
    bind_result (dc_memcpy dst ?bs c) (\<lambda>c. Inr (align_offset c)))"
  have n: "length ws \<le> 64" "ws \<noteq> []" "\<forall>w \<in> set ws. w < 2 ^ 32" using ok by auto
  have len: "length (?w b) = 16" if "length b = 16" for b
    by (rule init_cmd_read(1) [OF that]) (simp_all add: layout_sizes layout_fields)
  have r': "room c (ceil_to (32 + length ?bs) (pcie_align c))" using r by (simp add: concat_words)
  have "op_reads ex (\<lambda>c. bind_result (relay_cmd True (16 + 4 * length ws) d ?w c) ?tail) c
      (ceil_to (32 + length ?bs) (pcie_align c)) [V_relay True d (D_set_go_signal_noc_data ws)] False"
  proof (rule relay_data_reads [OF r' _ _ _ _ len])
    show "dispatch_view 16 (?w b @ ?bs) = Some (D_set_go_signal_noc_data ws)" if "length b = 16" for b
      using view_noc_data [OF that, of "length ws" 16 ?bs] concat_words(2) [OF n(3)] n(1) by simp
    show "\<exists>c2 pad. ?tail c1 = Inr c2 \<and> emits c1 c2 (?bs @ pad) \<and> 32 + length (?bs @ pad) = ceil_to (32 + length ?bs) (pcie_align c)"
      if c1: "same_frame c c1" "cmd_write_offsetB c1 = cmd_write_offsetB c + 32" for c1
    proof -
      note c1_ok = room_32 [OF r' c1]
      have "4 \<le> length ?bs" using n(2) by (cases ws) simp_all
      then obtain c2 c3 where c3: "reserve_space (Some 4) (length ?bs) c1 = Inr (cmd_write_offsetB c1, c2)"
        "dc_memcpy (cmd_write_offsetB c1) ?bs c2 = Inr c3" "emits c1 c3 ?bs"
        using reserve_copy_ok [OF c1_ok, of "Some 4"] c1_ok(3) by (auto simp: concat_words)
      then have "?tail c1 = Inr (align_offset c3)" by (simp add: concat_words mult.commute)
      then show ?thesis using aligned_after [OF r' c1 c3(3)] by blast
    qed
  qed (use n in \<open>auto simp: concat_words\<close>)
  then show ?thesis using n(1)
    by (simp add: op_reads_def add_dispatch_set_go_signal_noc_data_def concat_words Let_def add32_def CMD_SIZE_def
        DISPATCH_GO_SIGNAL_NOC_DATA_ENTRIES_def DISPATCH_BUFFER_LOG_PAGE_SIZE_def mult.commute)
qed

lemma place_with_data_ok:
  assumes g: "good c" and off: "16 dvd cmd_write_offsetB c" and sz: "16 + length bs \<le> sz" "cmd_write_offsetB c + sz \<le> cmd_sequence_sizeB c"
    and len: "\<And>b. length b = 16 \<Longrightarrow> length (initialize b) = 16" and four: "4 dvd length bs"
  shows "\<exists>c1 c2 c3 b rest. reserve_space (Some CMD_SIZE) sz c = Inr (cmd_write_offsetB c, c1) \<and>
    write_cmd (cmd_write_offsetB c) initialize c1 = Inr c2 \<and> dc_memcpy (cmd_write_offsetB c + CMD_SIZE) bs c2 = Inr c3 \<and>
    length b = 16 \<and> length (initialize b @ bs @ rest) = sz \<and> emits c c3 (initialize b @ bs @ rest)"
proof -
  let ?p = "cmd_write_offsetB c"
  obtain c1 where c1: "reserve_space (Some CMD_SIZE) sz c = Inr (?p, c1)" "same_frame c c1" "cmd_write_offsetB c1 = ?p + sz"
    "take ?p (cmd_region c1) = take ?p (cmd_region c)"
    using reserve_space_ok [OF g off sz(2), of "Some CMD_SIZE"] sz by (auto simp: CMD_SIZE_def)
  have g1: "good c1" and s1: "cmd_sequence_sizeB c1 = cmd_sequence_sizeB c"
    using same_frame_good [OF c1(2) g] c1(2) by (auto simp: same_frame_def)
  obtain c2 b where c2: "write_cmd ?p initialize c1 = Inr c2" "same_frame c1 c2" "cmd_write_offsetB c2 = ?p + sz" "length b = 16"
    "cmd_region c2 = take ?p (cmd_region c1) @ initialize b @ drop (?p + 16) (cmd_region c1)"
    using write_cmd_ok [OF g1 _ off len] sz s1 c1(3) by fastforce
  have g2: "good c2" and s2: "cmd_sequence_sizeB c2 = cmd_sequence_sizeB c"
    using same_frame_good [OF c2(2) g1] c2(2) s1 by (auto simp: same_frame_def)
  have "?p + 16 + length bs \<le> cmd_sequence_sizeB c2" "16 dvd ?p + 16" using sz s2 off by simp_all
  then obtain c3 where c3: "dc_memcpy (?p + 16) bs c2 = Inr c3" "same_frame c2 c3" "cmd_write_offsetB c3 = ?p + sz"
    "cmd_region c3 = take (?p + 16) (cmd_region c2) @ bs @ drop (?p + 16 + length bs) (cmd_region c2)"
    using dc_memcpy_ok [OF g2, of "?p + 16" bs] four c2(3) by auto
  let ?rest = "take (sz - 16 - length bs) (drop (?p + 16 + length bs) (cmd_region c2))"
  have p: "length (take ?p (cmd_region c)) = ?p" using g sz by (simp add: good_def)
  have l: "length (cmd_region c2) = cmd_sequence_sizeB c" using g2 s2 by (simp add: good_def)
  have pre: "take (?p + 16) (cmd_region c2) = take ?p (cmd_region c) @ initialize b"
    unfolding c2(5) c1(4) using p len [OF c2(4)] by simp
  have "take (?p + sz) (cmd_region c3) = take ?p (cmd_region c) @ initialize b @ bs @ ?rest"
    unfolding c3(4) pre using p len [OF c2(4)] sz by simp
  moreover have "length (initialize b @ bs @ ?rest) = sz" using l sz len [OF c2(4)] by simp
  moreover have "same_frame c c3" using c1(2) c2(2) c3(2) same_frame_trans by blast
  ultimately have "emits c c3 (initialize b @ bs @ ?rest)" using c3(3) sz by (simp add: emits_def)
  with \<open>length (initialize b @ bs @ ?rest) = sz\<close> show ?thesis using c1(1) c2(1,4) c3(1) unfolding CMD_SIZE_def by blast
qed

lemma sub_cmd_bytes_all: "sub_cmd_bytes 0 (length subs) subs = Inr (concat subs)"
  by (simp add: sub_cmd_bytes_def)

lemma paged_packed_reads:
  assumes r: "room c (op_size (pcie_align c) (Op_relay_paged_packed n subs))" and ok: "op_ok (pcie_align c) ex (Op_relay_paged_packed n subs)"
  shows "op_reads ex (apply_op (Op_relay_paged_packed n subs)) c (op_size (pcie_align c) (Op_relay_paged_packed n subs))
    (intended (Op_relay_paged_packed n subs)) False"
proof -
  let ?m = "length subs" and ?a = "pcie_align c"
  let ?sz = "ceil_to (16 + 12 * ?m) ?a"
  let ?w = "init_cmd CQ_PREFETCH_CMD_RELAY_PAGED_PACKED CQPrefetchRelayPagedPackedCmd [(''total_length'', n), (''stride'', ?sz), (''count'', ?m)]"
  have m: "?m < 2 ^ 16" "n < 2 ^ 32" and l: "length (concat subs) = 12 * ?m" using ok length_concat_12 [of subs 12] by auto
  have g: "good c" and off: "?a dvd cmd_write_offsetB c" and fit: "cmd_write_offsetB c + ?sz \<le> cmd_sequence_sizeB c"
    using r by (auto simp: room_def)
  have inc: "increment_sizeB (add32 (mul32 ?m 12) CMD_SIZE) c = ?sz"
    using good_align [OF g, of "16 + 12 * ?m"] m by (simp add: increment_sizeB_def add32_def mul32_def CMD_SIZE_def add.commute mult.commute)
  have ge: "16 + length (concat subs) \<le> ?sz" using ceil_to_props(2) [OF good_pcie(1) [OF g]] l by simp
  have len: "length (?w b) = 16" if "length b = 16" for b
    by (rule init_cmd_read(1) [OF that]) (simp_all add: layout_sizes layout_fields)
  obtain c1 c2 c3 b rest where c3: "reserve_space (Some CMD_SIZE) ?sz c = Inr (cmd_write_offsetB c, c1)"
    "write_cmd (cmd_write_offsetB c) ?w c1 = Inr c2" "dc_memcpy (cmd_write_offsetB c + CMD_SIZE) (concat subs) c2 = Inr c3"
    "length b = 16" "length (?w b @ concat subs @ rest) = ?sz" "emits c c3 (?w b @ concat subs @ rest)"
    using place_with_data_ok [where initialize = ?w, OF g dvd_16 [OF g off] ge fit len] l by auto
  have big: "?sz < 2 ^ 32" using fit g by (simp add: good_def)
  have "16 + length (concat subs) + length rest = ?sz" using c3(5) len [OF c3(4)] by simp
  then have "reads ?a 16 ex (?w b @ concat subs @ rest) [V_prefetch (Relay_paged_packed n (concat subs))] False"
    using reads_paged_packed [OF c3(4) m(2,1) big l] by simp
  moreover have "apply_op (Op_relay_paged_packed n subs) c = Inr c3" using c3(1-3) inc
    by (simp add: add_prefetch_relay_paged_packed_def sub_cmd_sizes Let_def sub_cmd_bytes_all)
  ultimately show ?thesis using c3(5,6) unfolding op_reads_def op_size.simps intended.simps by blast
qed

definition packed_large_cmd :: "nat \<Rightarrow> nat \<Rightarrow> nat \<Rightarrow> byte list \<Rightarrow> byte list" where
  "packed_large_cmd m al idx = init_cmd CQ_DISPATCH_CMD_WRITE_PACKED_LARGE CQDispatchWritePackedLargeCmd
     [(''count'', m), (''alignment'', al), (''write_offset_index'', idx)]"

lemma packed_large_ok:
  assumes r: "room c (ceil_to (16 + L) (pcie_align c))" and L: "L = ceil_to (16 + 12 * length subs) 16"
    and m: "length subs \<le> 35" and s12: "\<forall>x \<in> set subs. length x = 12"
  shows "\<exists>c' b1 b rest. add_dispatch_write_packed_large al (length subs) subs 0 idx c = Inr (align_offset c') \<and> length b1 = 16 \<and> length b = 16 \<and>
    16 + length (packed_large_cmd (length subs) al idx b @ concat subs @ rest) = ceil_to (16 + L) (pcie_align c) \<and>
    emits c c' (relay_inline_cmd CQ_PREFETCH_CMD_RELAY_INLINE_NOFLUSH 0 L (pcie_align c) b1 @
      packed_large_cmd (length subs) al idx b @ concat subs @ rest)"
proof -
  let ?m = "length subs" and ?a = "pcie_align c" and ?sz = "ceil_to (16 + L) (pcie_align c)" and ?w = "packed_large_cmd (length subs) al idx"
  let ?r = "relay_inline_cmd CQ_PREFETCH_CMD_RELAY_INLINE_NOFLUSH 0 L ?a"
  have l: "length (concat subs) = 12 * ?m" by (rule length_concat_12 [OF s12])
  have g: "good c" and off: "?a dvd cmd_write_offsetB c" and fit: "cmd_write_offsetB c + ?sz \<le> cmd_sequence_sizeB c"
    using r by (auto simp: room_def)
  have Lb: "16 + 12 * ?m \<le> L" "L < 16 + 12 * ?m + 16" "L \<le> 4096" using ceil_to_props(2,3) [of 16 "16 + 12 * ?m"] m L by auto
  have szL: "16 + L \<le> ?sz" by (rule ceil_to_props(2) [OF good_pcie(1) [OF g]])
  have len: "length (?w b) = 16" if "length b = 16" for b
    unfolding packed_large_cmd_def by (rule init_cmd_read(1) [OF that]) (simp_all add: layout_sizes layout_fields)
  obtain c1 b1 where c1: "place_cmd 16 ?r c = Inr c1" "length b1 = 16" "emits c c1 (?r b1)"
    using place_cmd_ok [where initialize = ?r and sz = 16, OF g dvd_16 [OF g off] _ _ relay_inline_read(1)] fit szL by auto
  have o1: "cmd_write_offsetB c1 = cmd_write_offsetB c + 16" and f1: "cmd_sequence_sizeB c1 = cmd_sequence_sizeB c" "pcie_align c1 = ?a"
    using c1(3) relay_inline_read(1) [OF c1(2)] by (auto simp: emits_def same_frame_def)
  have "\<exists>c2 c3 c4 b rest. reserve_space (Some CMD_SIZE) (?sz - 16) c1 = Inr (cmd_write_offsetB c1, c2) \<and>
    write_cmd (cmd_write_offsetB c1) ?w c2 = Inr c3 \<and> dc_memcpy (cmd_write_offsetB c1 + CMD_SIZE) (concat subs) c3 = Inr c4 \<and>
    length b = 16 \<and> length (?w b @ concat subs @ rest) = ?sz - 16 \<and> emits c1 c4 (?w b @ concat subs @ rest)"
    using place_with_data_ok [where initialize = ?w and sz = "?sz - 16" and bs = "concat subs", OF emits_good [OF c1(3) g] _ _ _ len]
      l Lb szL o1 f1 fit dvd_16 [OF g off] by simp
  then obtain c2 c3 c4 b rest where c4: "reserve_space (Some CMD_SIZE) (?sz - 16) c1 = Inr (cmd_write_offsetB c1, c2)"
    "write_cmd (cmd_write_offsetB c1) ?w c2 = Inr c3" "dc_memcpy (cmd_write_offsetB c1 + CMD_SIZE) (concat subs) c3 = Inr c4"
    "length b = 16" "length (?w b @ concat subs @ rest) = ?sz - 16" "emits c1 c4 (?w b @ concat subs @ rest)" by blast
  have "align_u32 (add32 CMD_SIZE (mul32 ?m 12)) (l1_align c) = L" using align_pow2 [of "16 + 12 * ?m" 4] m g L
    by (simp add: good_def add32_def mul32_def CMD_SIZE_def mult.commute)
  moreover have "sub32 (align_u32 (add32 CMD_SIZE L) ?a) CMD_SIZE = ?sz - 16"
    using good_align [OF g, of "16 + L"] Lb(3) szL fit g sub32_small [of 16 ?sz]
    by (simp add: good_def add32_def CMD_SIZE_def)
  ultimately have "add_dispatch_write_packed_large al ?m subs 0 idx c = Inr (align_offset c4)"
    using c1(1) c4(1-3) f1 m Lb(3)
    by (simp add: add_dispatch_write_packed_large_def add_prefetch_relay_inline_def sub_cmd_sizes Let_def sub_cmd_bytes_all
        CQ_DISPATCH_CMD_PACKED_WRITE_LARGE_MAX_SUB_CMDS_def DISPATCH_BUFFER_LOG_PAGE_SIZE_def CMD_SIZE_def packed_large_cmd_def)
  moreover have "16 + length (?w b @ concat subs @ rest) = ?sz" using c4(5) szL by simp
  ultimately show ?thesis using c1(2) c4(4) emits_trans [OF c1(3) c4(6)] by blast
qed

lemma packed_large_reads:
  assumes r: "room c (op_size (pcie_align c) (Op_write_packed_large al subs idx))" and ok: "op_ok (pcie_align c) ex (Op_write_packed_large al subs idx)"
  shows "op_reads ex (apply_op (Op_write_packed_large al subs idx)) c (op_size (pcie_align c) (Op_write_packed_large al subs idx))
    (intended (Op_write_packed_large al subs idx)) False"
proof -
  let ?m = "length subs" and ?a = "pcie_align c" and ?w = "packed_large_cmd (length subs) al idx"
  define L where L: "L = ceil_to (16 + 12 * ?m) 16"
  let ?r = "relay_inline_cmd CQ_PREFETCH_CMD_RELAY_INLINE_NOFLUSH 0 L ?a" and ?sz = "ceil_to (16 + L) ?a"
  have m: "?m \<le> 35" and v: "al < 2 ^ 16" "idx < 2 ^ 16" and s12: "\<forall>x \<in> set subs. length x = 12" using ok by auto
  have r': "room c ?sz" using r L by simp
  then have g: "good c" and off: "?a dvd cmd_write_offsetB c" by (auto simp: room_def)
  obtain c' b1 b rest where c': "add_dispatch_write_packed_large al ?m subs 0 idx c = Inr (align_offset c')" "length b1 = 16" "length b = 16"
    "16 + length (?w b @ concat subs @ rest) = ?sz" "emits c c' (?r b1 @ ?w b @ concat subs @ rest)"
    using packed_large_ok [OF r' L m s12] by blast
  let ?ch = "?r b1 @ ?w b @ concat subs @ rest" and ?k = "L - 16 - 12 * ?m"
  have w16: "length (?w b) = 16"
    unfolding packed_large_cmd_def by (rule init_cmd_read(1) [OF c'(3)]) (simp_all add: layout_sizes layout_fields)
  have chl: "length ?ch = ?sz" using c'(4) relay_inline_read(1) [OF c'(2)] by simp
  have Lb: "16 + 12 * ?m \<le> L" "L \<le> 4096" using ceil_to_props(2,3) [of 16 "16 + 12 * ?m"] m L by auto
  have szL: "16 + L \<le> ?sz" by (rule ceil_to_props(2) [OF good_pcie(1) [OF g]])
  have l: "length (concat subs) = 12 * ?m" by (rule length_concat_12 [OF s12])
  let ?data = "concat subs @ take ?k rest"
  have view: "dispatch_view 16 (?w b @ ?data) = Some (D_write_packed_large al idx subs)"
    using view_packed_large [OF c'(3), of ?m al idx 16 ?data] v m chunks_concat [OF s12, of "take ?k rest"]
    by (simp add: packed_large_cmd_def)
  have "reads ?a 16 ex (?r b1 @ (?w b @ ?data) @ drop ?k rest) [V_relay False DISPATCH_MASTER (D_write_packed_large al idx subs)] False"
    by (rule reads_relay [OF c'(2) _ _ good_pow2 [OF g] _ view]) (use c'(4) w16 l Lb szL in simp_all)
  moreover have "?r b1 @ (?w b @ ?data) @ drop ?k rest = ?ch" by simp
  moreover obtain pad where pad: "emits c (align_offset c') (?ch @ pad)" "length (?ch @ pad) = ceil_to (length ?ch) ?a"
    using aligned_end [OF g off c'(5)] by blast
  moreover have "ceil_to ?sz ?a = ?sz"
    by (rule ceil_to_unique [OF good_pcie(1) [OF g], symmetric]) (use ceil_to_props(1) good_pcie(1) [OF g] in auto)
  then have "length (?ch @ pad) = ?sz" using pad(2) chl by simp
  then have "length pad = 0" using chl by (simp only: length_append)
  then have "pad = []" by simp
  ultimately show ?thesis using c'(1) chl unfolding op_reads_def op_size.simps intended.simps apply_op.simps L [symmetric]
    by (intro exI [of _ "align_offset c'"] exI [of _ ?ch]) simp
qed

section \<open>Packed writes\<close>

lemma copy_packed_ok:
  assumes "good c" "16 dvd cmd_write_offsetB c" "cmd_write_offsetB c + length ds * ceil_to n 16 \<le> cmd_sequence_sizeB c" "\<forall>x \<in> set ds. length x = n"
  shows "\<exists>c' ch. copy_packed (ceil_to n 16) (map (\<lambda>bs. [(bs, 0)]) ds) c = Inr c' \<and> emits c c' ch \<and> length ch = length ds * ceil_to n 16 \<and>
    (\<forall>k < length ds. take n (drop (k * ceil_to n 16) ch) = ds ! k)"
  using assms
proof (induction ds arbitrary: c)
  case Nil
  then show ?case using emits_nothing [of c] by auto
next
  case (Cons d ds)
  let ?s = "ceil_to n 16" and ?p = "cmd_write_offsetB c"
  have le: "n \<le> ?s" by (rule ceil_to_props(2)) simp
  obtain c1 rest where c1: "add_data d ?s c = Inr c1" "length rest = ?s - n" "emits c c1 (d @ rest)"
    using add_data_ok [OF Cons.prems(1,2), of d ?s] Cons.prems(3,4) le by auto
  have copy: "bind_result (copy_pieces 0 [(d, 0)] c) (\<lambda>c. Inr (advance ?s c)) = Inr c1"
    using c1(1) by (cases "dc_memcpy ?p d c") (auto simp: add_data_def validate_cmd_write_def split: if_splits)
  have "cmd_write_offsetB c1 = ?p + ?s" "cmd_sequence_sizeB c1 = cmd_sequence_sizeB c"
    using c1(2,3) Cons.prems(4) le by (auto simp: emits_def same_frame_def)
  moreover have "16 dvd ?s" by (rule ceil_to_props(1)) simp
  ultimately obtain c2 ch where c2: "copy_packed ?s (map (\<lambda>bs. [(bs, 0)]) ds) c1 = Inr c2" "emits c1 c2 ch" "length ch = length ds * ?s"
    "\<forall>k < length ds. take n (drop (k * ?s) ch) = ds ! k"
    using Cons.IH [OF emits_good [OF c1(3) Cons.prems(1)]] Cons.prems by (auto simp: add.assoc)
  have l: "length (d @ rest) = ?s" "length d = n" using c1(2) Cons.prems(4) le by auto
  have "take n (drop (k * ?s) ((d @ rest) @ ch)) = (d # ds) ! k" if "k < length (d # ds)" for k
  proof (cases k)
    case 0
    then show ?thesis using l(2) by simp
  next
    case (Suc j)
    then have "drop (k * ?s) ((d @ rest) @ ch) = drop (j * ?s) ch" using l(1) by (simp del: append_assoc)
    then show ?thesis using c2(4) that Suc by simp
  qed
  moreover have "copy_packed ?s (map (\<lambda>bs. [(bs, 0)]) (d # ds)) c = Inr c2" using copy c2(1)
    by (cases "copy_pieces 0 [(d, 0)] c") auto
  moreover have "emits c c2 ((d @ rest) @ ch)" "length ((d @ rest) @ ch) = length (d # ds) * ?s"
    using emits_trans [OF c1(3) c2(2)] l(1) c2(3) by simp_all
  ultimately show ?case by blast
qed

definition write_packed_cmd :: "bool \<Rightarrow> bool \<Rightarrow> nat \<Rightarrow> nat \<Rightarrow> nat \<Rightarrow> nat \<Rightarrow> byte list \<Rightarrow> byte list" where
  "write_packed_cmd multicast no_stride m idx ad n = init_cmd CQ_DISPATCH_CMD_WRITE_PACKED CQDispatchWritePackedCmd
     [(''flags'', write_packed_flags multicast no_stride), (''count'', m), (''write_offset_index'', idx), (''addr'', ad), (''size'', n)]"

lemma packed_sub_cmd_sizes: "packed_sub_cmd_size multicast = (if multicast then 8 else 4)"
  by (simp add: packed_sub_cmd_size_def struct_size_def CQDispatchWritePackedMulticastSubCmd_def CQDispatchWritePackedUnicastSubCmd_def)

lemma write_packed_flags_read:
  "write_packed_flags multicast no_stride mod 256 AND CQ_DISPATCH_CMD_PACKED_WRITE_FLAG_MCAST \<noteq> 0 \<longleftrightarrow> multicast"
  "write_packed_flags multicast no_stride mod 256 AND CQ_DISPATCH_CMD_PACKED_WRITE_FLAG_NO_STRIDE \<noteq> 0 \<longleftrightarrow> no_stride"
  by (cases multicast; cases no_stride; simp add: write_packed_flags_def CQ_DISPATCH_CMD_PACKED_WRITE_FLAG_MCAST_def
      CQ_DISPATCH_CMD_PACKED_WRITE_FLAG_NO_STRIDE_def CQ_DISPATCH_CMD_PACKED_WRITE_FLAG_NONE_def)+

lemma view_write_packed:
  assumes b: "length b = 16" and v: "m < 2 ^ 16" "idx < 2 ^ 16" "ad < 2 ^ 32" "n < 2 ^ 16"
  shows "dispatch_view 16 (write_packed_cmd multicast no_stride m idx ad n b @ data) =
    Some (D_write_packed multicast no_stride ad n idx (zip (chunks m (packed_sub_cmd_size multicast) data)
      (map (\<lambda>k. take n (drop (ceil_to (16 + m * packed_sub_cmd_size multicast) 16 - 16 + k * (if no_stride then 0 else ceil_to n 16)) data)) [0..<m])))"
proof -
  let ?l = CQDispatchWritePackedCmd and ?fs = "[(''flags'', write_packed_flags multicast no_stride), (''count'', m),
    (''write_offset_index'', idx), (''addr'', ad), (''size'', n)]"
  define c where c: "c = init_cmd CQ_DISPATCH_CMD_WRITE_PACKED ?l ?fs b @ data"
  have ok: "struct_size ?l < 16" "fst ` set ?fs \<subseteq> fst ` set ?l" "distinct (map fst ?fs)" by (simp_all add: layout_sizes layout_fields)
  note f = init_cmd_fields [OF b ok c]
  let ?w = "packed_sub_cmd_size multicast"
  have a: "align_u32 (16 + m * ?w) 16 = ceil_to (16 + m * ?w) 16" "align_u32 n 16 = ceil_to n 16"
    using align_pow2 [of "16 + m * ?w" 4] align_pow2 [of n 4] v by (simp_all add: packed_sub_cmd_sizes)
  have dr: "drop (ceil_to (16 + m * ?w) 16 + j) c = drop (ceil_to (16 + m * ?w) 16 - 16 + j) data" for j
  proof -
    have "16 \<le> ceil_to (16 + m * ?w) 16" using ceil_to_props(2) [of 16 "16 + m * ?w"] by simp
    then have "drop (ceil_to (16 + m * ?w) 16 + j) c = drop (ceil_to (16 + m * ?w) 16 - 16 + j) (drop 16 c)" by (simp add: add.commute)
    then show ?thesis using f(3) by simp
  qed
  show ?thesis unfolding write_packed_cmd_def c [symmetric] using f v write_packed_flags_read [of multicast no_stride]
    by (simp add: field_widths dispatch_view_def write_packed_view_def Let_def cq_cmd_ids CMD_SIZE_def a dr)
qed

lemma packed_data_read:
  assumes s12: "\<forall>x \<in> set subs. length x = w" and ch: "\<forall>k < length datas. take n (drop (k * ceil_to n 16) ch) = datas ! k"
    and nd: "length datas = (if no_stride then 1 else length subs)" and l: "length (concat subs @ rest) = s"
  shows "zip (chunks (length subs) w ((concat subs @ rest) @ ch))
      (map (\<lambda>k. take n (drop (s + k * (if no_stride then 0 else ceil_to n 16)) ((concat subs @ rest) @ ch))) [0..<length subs]) =
    zip subs (if no_stride then replicate (length subs) (hd datas) else datas)"
proof -
  have c: "chunks (length subs) w ((concat subs @ rest) @ ch) = subs" using chunks_concat [OF s12, of "rest @ ch"] by simp
  have d: "drop (s + j) ((concat subs @ rest) @ ch) = drop j ch" for j using l by (simp del: append_assoc)
  have "map (\<lambda>k. take n (drop (k * (if no_stride then 0 else ceil_to n 16)) ch)) [0..<length subs] =
      (if no_stride then replicate (length subs) (hd datas) else datas)"
  proof (cases no_stride)
    case True
    then obtain x where "datas = [x]" using nd by (cases datas) auto
    then show ?thesis using True ch by (simp add: map_replicate_const)
  next
    case False
    then show ?thesis using ch nd by (intro nth_equalityI) auto
  qed
  then show ?thesis unfolding c d by simp
qed

lemma packed_tail_ok:
  assumes g: "good c" and off: "16 dvd cmd_write_offsetB c" and fit: "cmd_write_offsetB c + s \<le> cmd_sequence_sizeB c"
    and s: "s = ceil_to (length (concat subs)) 16"
    and rows: "\<And>c'. same_frame c c' \<Longrightarrow> cmd_write_offsetB c' = cmd_write_offsetB c + s \<Longrightarrow>
      \<exists>c2 ch. copy_packed inc rows c' = Inr c2 \<and> emits c' c2 ch \<and> length ch = len \<and> P ch"
  shows "\<exists>c1 c2 rest ch. dc_memcpy (cmd_write_offsetB c) (concat subs) c = Inr c1 \<and>
    copy_packed inc rows (advance s c1) = Inr c2 \<and> emits c c2 ((concat subs @ rest) @ ch) \<and>
    length (concat subs @ rest) = s \<and> length ch = len \<and> l1_align c1 = 16 \<and> P ch"
proof -
  have le: "length (concat subs) \<le> s" unfolding s by (rule ceil_to_props(2)) simp
  obtain c2 rest where c2: "add_data (concat subs) s c = Inr c2" "length rest = s - length (concat subs)" "emits c c2 (concat subs @ rest)"
    using add_data_ok [OF g off le fit] by auto
  obtain c1 where c1: "dc_memcpy (cmd_write_offsetB c) (concat subs) c = Inr c1" "c2 = advance s c1"
    using c2(1) by (cases "dc_memcpy (cmd_write_offsetB c) (concat subs) c") (auto simp: add_data_def validate_cmd_write_def split: if_splits)
  have l: "length (concat subs @ rest) = s" using c2(2) le by simp
  have o2: "same_frame c c2" "cmd_write_offsetB c2 = cmd_write_offsetB c + s" "l1_align c2 = l1_align c"
    using c2(3) l by (auto simp: emits_def same_frame_def)
  obtain c3 ch where c3: "copy_packed inc rows c2 = Inr c3" "emits c2 c3 ch" "length ch = len" "P ch" using rows [OF o2(1,2)] by blast
  moreover have "l1_align c1 = 16" using o2(3) c1(2) g by (simp add: advance_def good_def)
  ultimately show ?thesis using c1 l emits_trans [OF c2(3) c3(2)] by blast
qed

lemma packed_layout:
  assumes "m < 2 ^ 16" "n < 2 ^ 16" "s = ceil_to (m * packed_sub_cmd_size multicast) 16"
  shows "ceil_to (16 + m * packed_sub_cmd_size multicast) 16 = 16 + s" "packed_payload multicast m nd n = 16 + (s + nd * ceil_to n 16)"
    "align_u32 (mul32 m (packed_sub_cmd_size multicast)) 16 = s" "align_u32 n 16 = ceil_to n 16" "16 dvd s"
proof -
  let ?w = "packed_sub_cmd_size multicast"
  show e: "ceil_to (16 + m * ?w) 16 = 16 + s" unfolding assms(3)
    by (rule ceil_to_unique [symmetric]) (use ceil_to_props [of 16 "m * ?w"] in auto)
  then show "packed_payload multicast m nd n = 16 + (s + nd * ceil_to n 16)" by (simp add: packed_payload_def)
  show "align_u32 (mul32 m ?w) 16 = s" "align_u32 n 16 = ceil_to n 16"
    using align_pow2 [of "m * ?w" 4] align_pow2 [of n 4] assms by (simp_all add: mul32_def packed_sub_cmd_sizes)
  show "16 dvd s" unfolding assms(3) by (rule ceil_to_props(1)) simp
qed

lemma write_packed_reads:
  assumes r: "room c (op_size (pcie_align c) (Op_write_packed multicast ad n subs datas max_unicast no_stride idx))"
    and ok: "op_ok (pcie_align c) ex (Op_write_packed multicast ad n subs datas max_unicast no_stride idx)"
  shows "op_reads ex (apply_op (Op_write_packed multicast ad n subs datas max_unicast no_stride idx)) c
    (op_size (pcie_align c) (Op_write_packed multicast ad n subs datas max_unicast no_stride idx))
    (intended (Op_write_packed multicast ad n subs datas max_unicast no_stride idx)) False"
proof -
  let ?m = "length subs" and ?w = "packed_sub_cmd_size multicast" and ?nd = "length datas"
  define s where s: "s = ceil_to (?m * ?w) 16"
  let ?n = "s + ?nd * ceil_to n 16" and ?cmd = "write_packed_cmd multicast no_stride ?m idx ad n"
  have v: "?m < 2 ^ 16" "idx < 2 ^ 16" "ad < 2 ^ 32" "n < 2 ^ 16" and sw: "\<forall>x \<in> set subs. length x = ?w" and dn: "\<forall>x \<in> set datas. length x = n"
    and nd: "?nd = (if no_stride then 1 else ?m)"
    and few: "?m \<le> (if multicast then get_packed_write_max_multicast_sub_cmds max_unicast else max_unicast)" using ok by auto
  have lc: "length (concat subs) = ?m * ?w" using length_concat_12 [OF sw] by simp
  note lay = packed_layout [OF v(1,4) s]
  have s16: "ceil_to (16 + ?m * ?w) 16 = 16 + s" and pay: "packed_payload multicast ?m ?nd n = 16 + ?n" by (rule lay(1), rule lay(2))
  have "packed_payload multicast ?m ?nd n \<le> 2 ^ 30" using ok unfolding op_ok.simps by blast
  then have n30: "?n < 2 ^ 30" unfolding pay by simp
  have r': "room c (ceil_to (32 + ?n) (pcie_align c))" using r pay by (simp add: add.assoc [symmetric])
  let ?tail = "\<lambda>c. bind_result (dc_memcpy (cmd_write_offsetB c) (concat subs) c) (\<lambda>c.
    bind_result (copy_packed (align_u32 n (l1_align c)) (map (\<lambda>bs. [(bs, 0)]) datas) (advance (align_u32 (mul32 ?m ?w) (l1_align c)) c))
      (\<lambda>c. Inr (align_offset c)))"
  note al = lay(3,4)
  have "op_reads ex (\<lambda>c. bind_result (relay_cmd True (16 + ?n) DISPATCH_MASTER ?cmd c) ?tail) c (ceil_to (32 + ?n) (pcie_align c))
    (intended (Op_write_packed multicast ad n subs datas max_unicast no_stride idx)) False" unfolding intended.simps
  proof (rule relay_chunk_reads [OF r' n30 _ refl])
    show "length (?cmd b) = 16" if "length b = 16" for b
      unfolding write_packed_cmd_def by (rule init_cmd_read(1) [OF that]) (simp_all add: layout_sizes layout_fields)
    fix c1 assume c1: "same_frame c c1" "cmd_write_offsetB c1 = cmd_write_offsetB c + 32"
    have sc: "s = ceil_to (length (concat subs)) 16" by (simp add: s lc)
    note c1_ok = room_32 [OF r' c1]
    have rows: "\<exists>c2 ch. copy_packed (ceil_to n 16) (map (\<lambda>bs. [(bs, 0)]) datas) c' = Inr c2 \<and> emits c' c2 ch \<and>
        length ch = ?nd * ceil_to n 16 \<and> (\<forall>k < ?nd. take n (drop (k * ceil_to n 16) ch) = datas ! k)"
      if "same_frame c1 c'" "cmd_write_offsetB c' = cmd_write_offsetB c1 + s" for c'
    proof (rule copy_packed_ok [OF _ _ _ dn])
      show "16 dvd cmd_write_offsetB c'" using that(2) c1_ok(2) lay(5) by simp
      show "good c'" by (rule same_frame_good [OF that(1) c1_ok(1)])
      show "cmd_write_offsetB c' + ?nd * ceil_to n 16 \<le> cmd_sequence_sizeB c'" using that c1_ok(3) by (simp add: same_frame_def)
    qed
    have fit1: "cmd_write_offsetB c1 + s \<le> cmd_sequence_sizeB c1" using c1_ok(3) by simp
    obtain c2 c3 rest ch where t: "dc_memcpy (cmd_write_offsetB c1) (concat subs) c1 = Inr c2"
      "copy_packed (ceil_to n 16) (map (\<lambda>bs. [(bs, 0)]) datas) (advance s c2) = Inr c3" "emits c1 c3 ((concat subs @ rest) @ ch)"
      "length (concat subs @ rest) = s" "length ch = ?nd * ceil_to n 16" "l1_align c2 = 16"
      "\<forall>k < ?nd. take n (drop (k * ceil_to n 16) ch) = datas ! k"
      using packed_tail_ok [where P = "\<lambda>ch. \<forall>k < ?nd. take n (drop (k * ceil_to n 16) ch) = datas ! k", OF c1_ok(1,2) fit1 sc rows] by blast
    have len: "length ((concat subs @ rest) @ ch) = ?n" using t(4,5) by simp
    obtain pad where "emits c1 (align_offset c3) (((concat subs @ rest) @ ch) @ pad)" "32 + length (((concat subs @ rest) @ ch) @ pad) = ceil_to (32 + ?n) (pcie_align c)"
      using aligned_after [OF _ c1 t(3)] r' unfolding len by blast
    moreover have "?tail c1 = Inr (align_offset c3)" using t(1,2,6) al by simp
    moreover have "dispatch_view 16 (?cmd b @ (concat subs @ rest) @ ch) = Some (D_write_packed multicast no_stride ad n idx
        (zip subs (if no_stride then replicate ?m (hd datas) else datas)))" if "length b = 16" for b
      using view_write_packed [OF that v] packed_data_read [OF sw t(7) nd t(4)] s16 by simp
    ultimately show "\<exists>c2 data pad. ?tail c1 = Inr c2 \<and> emits c1 c2 (data @ pad) \<and> length data = ?n \<and>
      32 + length (data @ pad) = ceil_to (32 + ?n) (pcie_align c) \<and> (\<forall>b. length b = 16 \<longrightarrow> dispatch_view 16 (?cmd b @ data) =
        Some (D_write_packed multicast no_stride ad n idx (zip subs (if no_stride then replicate ?m (hd datas) else datas))))"
      using len by blast
  qed simp_all
  moreover have slice: "packed_slice 0 (if no_stride then 1 else ?m) (map (\<lambda>bs. [(bs, 0)]) datas) = Inr (map (\<lambda>bs. [(bs, 0 :: nat)]) datas)"
    unfolding nd [symmetric] by (simp add: packed_slice_def)
  have l1: "l1_align (advance k c) = l1_align c" for k c by (simp add: advance_def)
  have "apply_op (Op_write_packed multicast ad n subs datas max_unicast no_stride idx) c =
      bind_result (relay_cmd True (16 + ?n) DISPATCH_MASTER ?cmd c) ?tail"
    using few unfolding apply_op.simps pay add_dispatch_write_packed_def write_packed_def Let_def slice sub_cmd_bytes_all l1
    by (simp add: write_packed_cmd_def)
  moreover have "op_size (pcie_align c) (Op_write_packed multicast ad n subs datas max_unicast no_stride idx) = ceil_to (32 + ?n) (pcie_align c)"
    unfolding op_size.simps pay by (simp add: add.assoc [symmetric])
  ultimately show ?thesis unfolding op_reads_def by (simp only:)
qed

section \<open>All operations\<close>

lemma empty_layout: "struct_size [] < 16"
  by (simp add: struct_size_def)

lemma exec_buf_end_reads:
  assumes r: "room c (pcie_align c)" and ex
  shows "op_reads ex add_prefetch_exec_buf_end c (pcie_align c) [V_end D_exec_buf_end] True"
proof -
  have g: "good c" and off: "pcie_align c dvd cmd_write_offsetB c" and fit: "cmd_write_offsetB c + ceil_to 32 (pcie_align c) \<le> cmd_sequence_sizeB c"
    using r ceil_cmd [of c 32] by (auto simp: room_def)
  let ?p = "init_cmd CQ_PREFETCH_CMD_EXEC_BUF_END CQPrefetchRelayInlineCmd [(''length'', 16), (''stride'', align_u32 (16 + 16) (pcie_align c))]"
  let ?d = "init_cmd CQ_DISPATCH_CMD_EXEC_BUF_END [] []"
  have p: "length (?p b) = 16" if "length b = 16" for b
    by (rule init_cmd_read(1) [OF that]) (simp_all add: layout_sizes layout_fields)
  have d: "length (?d b) = 16" if "length b = 16" for b
    by (rule init_cmd_read(1) [OF that]) (simp_all add: struct_size_def)
  obtain c' b1 b2 pad where c': "place_two ?p ?d c = Inr c'" "length b1 = 16" "length b2 = 16" "emits c c' (?p b1 @ ?d b2 @ pad)"
    "length (?p b1 @ ?d b2 @ pad) = ceil_to 32 (pcie_align c)"
    using place_two_ok [where first = ?p and second = ?d, OF g off fit p d] by blast
  then show ?thesis using reads_exec_buf_end [OF c'(2,3) assms(2)] ceil_cmd [OF g, of 32] unfolding op_reads_def add_prefetch_exec_buf_end_def CMD_SIZE_def
    by (intro exI [of _ c'] exI [of _ "?p b1 @ ?d b2 @ pad"]) simp
qed

lemma prefetch_op_reads:
  assumes r: "room c (pcie_align c)"
  shows "op_ok al ex (Op_relay_linear noc n ad) \<Longrightarrow> op_reads ex (add_prefetch_relay_linear noc n ad) c (pcie_align c) (intended (Op_relay_linear noc n ad)) False"
    "op_ok al ex (Op_relay_paged is_dram start base page_size pages adjust) \<Longrightarrow>
      op_reads ex (add_prefetch_relay_paged is_dram start base page_size pages adjust) c (pcie_align c)
        (intended (Op_relay_paged is_dram start base page_size pages adjust)) False"
    "op_ok al ex (Op_exec_buf base m pages) \<Longrightarrow> op_reads ex (add_prefetch_exec_buf base m pages) c (pcie_align c) (intended (Op_exec_buf base m pages)) False"
    "op_ok al ex Op_prefetch_terminate \<Longrightarrow> op_reads ex add_prefetch_terminate c (pcie_align c) (intended Op_prefetch_terminate) True"
  unfolding add_prefetch_relay_linear_def [abs_def] add_prefetch_relay_paged_def [abs_def] add_prefetch_exec_buf_def [abs_def]
    add_prefetch_terminate_def [abs_def] intended.simps
  by (rule prefetch_reads [OF r]; auto simp: zeroed_def CMD_SIZE_def empty_layout layout_sizes layout_fields
        intro!: init_cmd_read(1) reads_relay_linear reads_relay_paged [simplified] reads_exec_buf reads_bare(2))+

lemma relayed_op_reads:
  assumes r: "room c (pcie_align c)"
  shows "op_ok al ex (Op_go_signal wait_count go_signal wait_addr mcasts unicasts start d) \<Longrightarrow>
      op_reads ex (add_dispatch_go_signal_mcast wait_count go_signal wait_addr mcasts unicasts start d) c (pcie_align c)
        (intended (Op_go_signal wait_count go_signal wait_addr mcasts unicasts start d)) False"
    "op_ok al ex (Op_notify_dispatch_s wait bitmask) \<Longrightarrow> op_reads ex (add_notify_dispatch_s_go_signal_cmd wait bitmask) c (pcie_align c)
      (intended (Op_notify_dispatch_s wait bitmask)) False"
    "op_ok al ex (Op_set_num_worker_sems n d) \<Longrightarrow> op_reads ex (add_dispatch_set_num_worker_sems n d) c (pcie_align c)
      (intended (Op_set_num_worker_sems n d)) False"
    "op_ok al ex (Op_set_write_offsets o0 o1 o2) \<Longrightarrow> op_reads ex (add_dispatch_set_write_offsets o0 o1 o2) c (pcie_align c)
      (intended (Op_set_write_offsets o0 o1 o2)) False"
    "op_reads ex (add_dispatch_terminate d) c (pcie_align c) (intended (Op_dispatch_terminate d)) False"
  unfolding add_dispatch_go_signal_mcast_def add_notify_dispatch_s_go_signal_cmd_def add_dispatch_set_num_worker_sems_def
    add_dispatch_set_write_offsets_def add_dispatch_terminate_def intended.simps
  by (rule relay_aligned_reads [OF r]; auto simp: zeroed_def CMD_SIZE_def empty_layout layout_sizes layout_fields
        intro!: init_cmd_read(1) view_go_signal [where data = "[]", simplified] view_notify [where data = "[]", simplified, simplified]
          view_num_sems [where data = "[]", simplified] view_write_offsets [where data = "[]", simplified] view_bare(1) [where data = "[]", simplified])+

lemma apply_op_eqs:
  "apply_op (Op_wait barrier ad count clear notify do_wait i) = add_dispatch_wait barrier ad count clear notify do_wait i"
  "apply_op (Op_wait_stall barrier ad count clear do_wait) = add_dispatch_wait_with_prefetch_stall barrier ad count clear do_wait"
  "apply_op (Op_relay_linear noc n ad) = add_prefetch_relay_linear noc n ad"
  "apply_op (Op_relay_paged is_dram start base page_size pages adjust) = add_prefetch_relay_paged is_dram start base page_size pages adjust"
  "apply_op (Op_go_signal wait_count go_signal wait_addr mcasts unicasts start d) =
     add_dispatch_go_signal_mcast wait_count go_signal wait_addr mcasts unicasts start d"
  "apply_op (Op_notify_dispatch_s wait bitmask) = add_notify_dispatch_s_go_signal_cmd wait bitmask"
  "apply_op (Op_exec_buf base m pages) = add_prefetch_exec_buf base m pages"
  "apply_op (Op_set_num_worker_sems n d) = add_dispatch_set_num_worker_sems n d"
  "apply_op (Op_set_write_offsets o0 o1 o2) = add_dispatch_set_write_offsets o0 o1 o2"
  "apply_op (Op_dispatch_terminate d) = add_dispatch_terminate d"
  "apply_op Op_prefetch_terminate = add_prefetch_terminate"
  "apply_op Op_exec_buf_end = add_prefetch_exec_buf_end"
  by (rule ext, simp)+

lemma op_reads_all:
  assumes r: "room c (op_size (pcie_align c) p)" and ok: "op_ok (pcie_align c) ex p"
  shows "op_reads ex (apply_op p) c (op_size (pcie_align c) p) (intended p) (ends p)"
proof (cases p)
  case (Op_wait barrier ad count clear notify do_wait d)
  then show ?thesis using wait_reads [of c barrier ad count clear d] r ok by (simp add: apply_op_eqs)
next
  case (Op_wait_stall barrier ad count clear do_wait)
  then show ?thesis using wait_stall_reads [of c barrier ad count clear] r ok by (simp add: apply_op_eqs)
next
  case (Op_relay_linear noc n ad)
  then show ?thesis using prefetch_op_reads(1) [of c "pcie_align c" ex noc n ad] r ok by (simp add: apply_op_eqs)
next
  case (Op_relay_paged is_dram start base page_size pages adjust)
  then show ?thesis using prefetch_op_reads(2) [of c "pcie_align c" ex is_dram start base page_size pages adjust] r ok by (simp add: apply_op_eqs)
next
  case (Op_relay_paged_packed n subs)
  then show ?thesis using paged_packed_reads [of c n subs ex] r ok by simp
next
  case (Op_write_linear dests noc ad n data idx)
  then show ?thesis using write_linear_reads [of c dests noc ad n data idx ex] r ok by simp
next
  case (Op_write_paged is_dram start base page_size pages data)
  then show ?thesis using write_paged_reads [of c is_dram start base page_size pages data ex] r ok by simp
next
  case (Op_write_host n is_event data)
  then show ?thesis using write_host_reads [of c n is_event data ex] r ok by simp
next
  case (Op_go_signal wait_count go_signal wait_addr mcasts unicasts start d)
  then show ?thesis using relayed_op_reads(1) [of c "pcie_align c" ex wait_count go_signal wait_addr mcasts unicasts start d] r ok
    by (simp add: apply_op_eqs)
next
  case (Op_notify_dispatch_s wait bitmask)
  then show ?thesis using relayed_op_reads(2) [of c "pcie_align c" ex wait bitmask] r ok by (simp add: apply_op_eqs)
next
  case (Op_exec_buf base m pages)
  then show ?thesis using prefetch_op_reads(3) [of c "pcie_align c" ex base m pages] r ok by (simp add: apply_op_eqs)
next
  case (Op_set_num_worker_sems n d)
  then show ?thesis using relayed_op_reads(3) [of c "pcie_align c" ex n d] r ok by (simp add: apply_op_eqs)
next
  case (Op_set_go_signal_noc_data ws d)
  then show ?thesis using noc_data_reads [of c ws d ex] r ok by simp
next
  case (Op_set_write_offsets o0 o1 o2)
  then show ?thesis using relayed_op_reads(4) [of c "pcie_align c" ex o0 o1 o2] r ok by (simp add: apply_op_eqs)
next
  case (Op_dispatch_terminate d)
  then show ?thesis using relayed_op_reads(5) [of c ex d] r by (simp add: apply_op_eqs)
next
  case Op_prefetch_terminate
  then show ?thesis using prefetch_op_reads(4) [of c "pcie_align c" ex] r ok by (simp add: apply_op_eqs)
next
  case Op_exec_buf_end
  then show ?thesis using exec_buf_end_reads [of c ex] r ok by (simp add: apply_op_eqs)
next
  case (Op_write_packed_large al subs idx)
  then show ?thesis using packed_large_reads [of c al subs idx ex] r ok by simp
next
  case (Op_write_packed multicast ad n subs datas max_unicast no_stride idx)
  then show ?thesis using write_packed_reads [of c multicast ad n subs datas max_unicast no_stride idx ex] r ok by (simp only: ends.simps)
qed

end
