(* ===== verification/Command_Stream_Theorems.thy ===== *)
theory Command_Stream_Theorems
  imports Command_Stream_Writes
begin

text \<open>
  Whole sequences of commands: what the builder writes into memory is what the kernels on the
  device read, command after command; and where this fails.
\<close>

section \<open>Sequences\<close>

lemma op_size_dvd: "0 < al \<Longrightarrow> al dvd op_size al p"
  by (cases p) (simp_all add: ceil_to_props(1))

lemma apply_ops_reads:
  assumes "room c (sum_list (map (op_size (pcie_align c)) ops))" "\<forall>p \<in> set ops. op_ok (pcie_align c) ex p"
  shows "\<exists>c' ch. apply_ops ops c = Inr c' \<and> emits c c' ch \<and> length ch = sum_list (map (op_size (pcie_align c)) ops) \<and>
    device_reads (pcie_align c) 16 ex ch = Some (intended_all ops)"
  using assms
proof (induction ops arbitrary: c)
  case Nil
  then show ?case using emits_nothing [of c] by (auto simp: room_def device_reads_def prefetch_walk.simps)
next
  case (Cons p ps)
  let ?a = "pcie_align c"
  have r: "room c (op_size ?a p + sum_list (map (op_size ?a) ps))" using Cons.prems(1) by simp
  then have g: "good c" and "room c (op_size ?a p)" by (auto simp: room_def)
  then obtain c1 ch1 where c1: "apply_op p c = Inr c1" "emits c c1 ch1" "length ch1 = op_size ?a p" "reads ?a 16 ex ch1 (intended p) (ends p)"
    using op_reads_all [of c p ex] Cons.prems(2) by (auto simp: op_reads_def)
  have fr: "same_frame c c1" "cmd_write_offsetB c1 = cmd_write_offsetB c + op_size ?a p" using c1(2,3) by (auto simp: emits_def)
  have al: "pcie_align c1 = ?a" using fr(1) by (simp add: same_frame_def)
  have r1: "room c1 (sum_list (map (op_size (pcie_align c1)) ps))"
    using room_after [OF r fr op_size_dvd [OF good_pcie(1) [OF g]]] al by simp
  then obtain c2 ch2 where c2: "apply_ops ps c1 = Inr c2" "emits c1 c2 ch2" "length ch2 = sum_list (map (op_size ?a) ps)"
    "device_reads ?a 16 ex ch2 = Some (intended_all ps)"
    using Cons.IH [OF r1] Cons.prems(2) al by auto
  have "device_reads ?a 16 ex (ch1 @ ch2) = Some (intended_all (p # ps))" using c1(4) c2(4) by (simp add: reads_def)
  then show ?case using c1(1,3) c2(1,3) emits_trans [OF c1(2) c2(2)]
    by (intro exI [of _ c2] exI [of _ "ch1 @ ch2"]) simp
qed

definition fresh_command :: "hal_values \<Rightarrow> u32 \<Rightarrow> device_command \<Rightarrow> bool" where
  "fresh_command h sz c \<longleftrightarrow> (\<exists>zero_init. host_command_new h zero_init sz = Inr c) \<or>
     (\<exists>zero_init contents ad memory. hugepage_command_new h zero_init contents ad memory sz = Inr c \<and>
        length contents = CMD_SIZE \<and> ad mod 16 = 0 \<and> length memory = sz)"

lemma fresh_command_good:
  assumes "fresh_command h sz c" "host_alignment h = 2 ^ k" "5 \<le> k" "k \<le> 12" "l1_alignment h = 16" "2 ^ k dvd sz" "sz < 2 ^ 31"
  shows "good c" "cmd_write_offsetB c = 0" "cmd_sequence_sizeB c = sz" "pcie_align c = 2 ^ k"
proof -
  have "2 ^ 2 dvd (2 :: nat) ^ k" using assms(3) by (intro le_imp_power_dvd) simp
  then have "4 dvd sz" using assms(6) dvd_trans by fastforce
  then have four: "4 * (sz div 4) = sz" by simp
  consider zero_init where "host_command_new h zero_init sz = Inr c"
    | zero_init contents ad memory where "hugepage_command_new h zero_init contents ad memory sz = Inr c"
        "length contents = 16" "ad mod 16 = 0" "length memory = sz"
    using assms(1) by (auto simp: fresh_command_def CMD_SIZE_def)
  then have c: "length (cmd_region c) = sz \<and> cmd_sequence_sizeB c = sz \<and> cmd_write_offsetB c = 0 \<and> pcie_align c = 2 ^ k \<and> l1_align c = 16 \<and>
    16 dvd cmd_region_addr c \<and> (\<forall>g. uninitialized c = Some g \<longrightarrow> length g = 16)"
    by cases (use assms four in \<open>auto simp: host_command_new_def hugepage_command_new_def check_sequence_size_def split: if_splits\<close>)
  then show "good c" using assms(3,4,6,7) by (auto simp: good_def)
  show "cmd_write_offsetB c = 0" "cmd_sequence_sizeB c = sz" "pcie_align c = 2 ^ k" using c by auto
qed

text \<open>
  C8: A sequence of commands assembled with the command builder, in host memory or directly in the
  huge page, whose sizes add up to no more than the space reserved, is accepted without an error
  and takes exactly that space; and walking over the written memory with the strides stored in it,
  the prefetch and dispatch kernels read the commands that were added, with all their arguments and
  data, in order, up to the first one that ends the walk.
\<close>

theorem command_sequence_reads:
  assumes "fresh_command h sz c" "host_alignment h = 2 ^ k" "5 \<le> k" "k \<le> 12" "l1_alignment h = 16" "2 ^ k dvd sz" "sz < 2 ^ 31"
    and "sum_list (map (op_size (2 ^ k)) ops) \<le> sz" "\<forall>p \<in> set ops. op_ok (2 ^ k) ex p"
  shows "\<exists>c'. apply_ops ops c = Inr c' \<and> cmd_write_offsetB c' = sum_list (map (op_size (2 ^ k)) ops) \<and>
    device_reads (host_alignment h) (l1_alignment h) ex (take (cmd_write_offsetB c') (cmd_region c')) = Some (intended_all ops)"
proof -
  note f = fresh_command_good [OF assms(1-7)]
  have "room c (sum_list (map (op_size (pcie_align c)) ops))" using f assms(8) by (simp add: room_def)
  then obtain c' ch where c': "apply_ops ops c = Inr c'" "emits c c' ch" "length ch = sum_list (map (op_size (2 ^ k)) ops)"
    "device_reads (2 ^ k) 16 ex ch = Some (intended_all ops)"
    using apply_ops_reads [of c ops ex] assms(9) f(4) by auto
  have e: "cmd_write_offsetB c' = cmd_write_offsetB c + length ch"
    "take (cmd_write_offsetB c') (cmd_region c') = take (cmd_write_offsetB c) (cmd_region c) @ ch"
    using c'(2) unfolding emits_def by blast+
  have "cmd_write_offsetB c' = length ch" using e(1) f(2) by simp
  moreover have "take (cmd_write_offsetB c') (cmd_region c') = ch" using e(2) f(2) by (simp only: take_0 append_Nil)
  ultimately show ?thesis using c'(1,3,4) assms(2,5) by auto
qed

definition example_hal :: "u32 \<Rightarrow> hal_values" where
  "example_hal al = \<lparr>host_alignment = al, l1_alignment = 16, tensix_unreserved = 0, idle_eth_unreserved = 0, mem_l1_size = 0, mem_eth_size = 0\<rparr>"

definition example_ops :: "builder_op list" where
  "example_ops = [Op_wait_stall 1 100 5 0 True, Op_write_linear 0 7 4096 3 (Some [1, 2, 3]) 0, Op_write_packed False 512 2 [[1, 0, 0, 0], [2, 0, 0, 0]] [[8, 9], [6, 7]] 4 False 1,
     Op_relay_paged 1 3 4096 2048 4 0, Op_prefetch_terminate]"

theorem command_sequence_reads_witness:
  "\<exists>c c'. host_command_new (example_hal 32) True 320 = Inr c \<and> apply_ops example_ops c = Inr c' \<and>
    device_reads 32 16 False (take (cmd_write_offsetB c') (cmd_region c')) = Some (intended_all example_ops)"
proof -
  obtain c where c: "host_command_new (example_hal 32) True 320 = Inr c"
    by (simp add: host_command_new_def check_sequence_size_def)
  then have "fresh_command (example_hal 32) 320 c" by (auto simp: fresh_command_def)
  moreover have "sum_list (map (op_size (2 ^ 5)) example_ops) \<le> 320"
    by (simp add: example_ops_def ceil_to_def data_of_def packed_payload_def packed_sub_cmd_sizes)
  moreover have "\<forall>p \<in> set example_ops. op_ok (2 ^ 5) False p"
    by (simp add: example_ops_def packed_payload_def packed_sub_cmd_sizes ceil_to_def)
  ultimately show ?thesis using command_sequence_reads [of "example_hal 32" 320 c 5 example_ops False] c by (auto simp: example_hal_def)
qed

section \<open>Misplaced commands\<close>

lemma reserve_space_rest:
  assumes g: "good c" and off: "16 dvd cmd_write_offsetB c" and fit: "cmd_write_offsetB c + 16 \<le> cmd_sequence_sizeB c"
    and r: "reserve_space (Some CMD_SIZE) sz c = Inr (dst, c1)"
  shows "dst = cmd_write_offsetB c" "drop (cmd_write_offsetB c + 16) (cmd_region c1) = drop (cmd_write_offsetB c + 16) (cmd_region c)"
proof -
  let ?p = "cmd_write_offsetB c"
  have l: "?p \<le> length (cmd_region c)" using g fit by (simp add: good_def)
  obtain c2 where c2: "dc_memcpy ?p (replicate CMD_SIZE 0) c = Inr c2" "cmd_write_offsetB c2 = ?p"
    "cmd_region c2 = take ?p (cmd_region c) @ replicate 16 0 @ drop (?p + 16) (cmd_region c)"
    using dc_memcpy_ok [OF g _ off, of "replicate CMD_SIZE 0"] fit by (auto simp: CMD_SIZE_def)
  then show "dst = ?p" "drop (?p + 16) (cmd_region c1) = drop (?p + 16) (cmd_region c)" using r l
    by (auto simp: reserve_space_def validate_cmd_write_def advance_def split: if_splits)
qed

lemma place_cmd_rest:
  assumes g: "good c" and off: "16 dvd cmd_write_offsetB c" and sz: "16 \<le> sz" "cmd_write_offsetB c + sz \<le> cmd_sequence_sizeB c"
    and len: "\<And>b. length b = 16 \<Longrightarrow> length (initialize b) = 16" and r: "place_cmd sz initialize c = Inr c'"
  shows "drop (cmd_write_offsetB c + 16) (cmd_region c') = drop (cmd_write_offsetB c + 16) (cmd_region c)"
proof -
  let ?p = "cmd_write_offsetB c"
  have fit: "?p + 16 \<le> cmd_sequence_sizeB c" using sz by simp
  obtain c1 where c1: "reserve_space (Some CMD_SIZE) sz c = Inr (?p, c1)" "same_frame c c1"
    using reserve_space_ok [OF g off sz(2), of "Some CMD_SIZE"] sz by (auto simp: CMD_SIZE_def)
  have g1: "good c1" "cmd_sequence_sizeB c1 = cmd_sequence_sizeB c" using same_frame_good [OF c1(2) g] c1(2) by (auto simp: same_frame_def)
  then obtain b where "length b = 16" "cmd_region c' = take ?p (cmd_region c1) @ initialize b @ drop (?p + 16) (cmd_region c1)"
    using write_cmd_ok [where initialize = initialize, OF g1(1) _ off len] fit c1(1) r by (auto simp: place_cmd_def)
  moreover have "length (take ?p (cmd_region c1)) = ?p" using g1 fit by (simp add: good_def)
  ultimately show ?thesis using len [of b] reserve_space_rest(2) [OF g off fit c1(1)] by simp
qed

lemma zeros_not_read: "0 < n \<Longrightarrow> device_reads al l1 ex (replicate n 0) = None"
  by (cases n) (simp_all add: device_reads_def prefetch_walk.simps [of al ex "0 # _"] process_cmd_def cmd_id_def Let_def cq_cmd_ids)

lemma relay_cmd_rest:
  assumes g: "good c" and off: "16 dvd cmd_write_offsetB c" and fit: "cmd_write_offsetB c + 32 \<le> cmd_sequence_sizeB c" and fl: "flush \<or> L \<le> 4096"
    and len: "\<And>b. length b = 16 \<Longrightarrow> length (initialize b) = 16" and r: "relay_cmd flush L sel initialize c = Inr c'"
  shows "drop (cmd_write_offsetB c + 32) (cmd_region c') = drop (cmd_write_offsetB c + 32) (cmd_region c)"
proof -
  let ?p = "cmd_write_offsetB c"
  let ?r = "relay_inline_cmd (if flush then CQ_PREFETCH_CMD_RELAY_INLINE else CQ_PREFETCH_CMD_RELAY_INLINE_NOFLUSH) (dispatcher_index sel) L (pcie_align c)"
  have "\<exists>c1 b rest. place_cmd 16 ?r c = Inr c1 \<and> length b = 16 \<and> length rest = 16 - 16 \<and> emits c c1 (?r b @ rest)"
    by (rule place_cmd_ok [OF g off _ _ relay_inline_read(1)]) (use fit in simp_all)
  then obtain c1 b where c1: "place_cmd 16 ?r c = Inr c1" "length b = 16" "emits c c1 (?r b)" by auto
  have o1: "cmd_write_offsetB c1 = ?p + 16" "cmd_sequence_sizeB c1 = cmd_sequence_sizeB c"
    using c1(3) relay_inline_read(1) [OF c1(2)] by (auto simp: emits_def same_frame_def)
  have "\<not> (\<not> flush \<and> \<not> L \<le> 2 ^ DISPATCH_BUFFER_LOG_PAGE_SIZE)" using fl by (auto simp: DISPATCH_BUFFER_LOG_PAGE_SIZE_def)
  then have p2: "place_cmd 16 initialize c1 = Inr c'"
    using c1(1) r unfolding relay_cmd_def add_prefetch_relay_inline_def by (simp only: if_False bind_result.simps CMD_SIZE_def)
  have "drop (?p + 16 + 16) (cmd_region c') = drop (?p + 16 + 16) (cmd_region c1)"
    using place_cmd_rest [OF emits_good [OF c1(3) g] _ _ _ len p2] o1 off fit by simp
  moreover have "drop (?p + 16) (cmd_region c1) = drop (?p + 16) (cmd_region c)"
    by (rule place_cmd_rest [OF g off _ _ relay_inline_read(1) c1(1)]) (use fit in simp_all)
  then have "drop 16 (drop (?p + 16) (cmd_region c1)) = drop 16 (drop (?p + 16) (cmd_region c))" by (rule arg_cong)
  ultimately show ?thesis by (simp add: add.commute)
qed

lemma misplaced_walk:
  assumes g: "good c" and c0: "cmd_write_offsetB c = 0" "cmd_sequence_sizeB c = 2 * pcie_align c" "cmd_region c = replicate (2 * pcie_align c) 0"
    and big: "64 \<le> pcie_align c"
    and len: "\<And>b. length b = 16 \<Longrightarrow> length (first b) = 16" "\<And>b. length b = 16 \<Longrightarrow> length (second b) = 16"
    and view: "\<And>b. length b = 16 \<Longrightarrow> dispatch_view 16 (first b) = Some v"
  shows "\<exists>c1 c2. relay_cmd False 16 DISPATCH_MASTER first c = Inr c1 \<and> place_cmd (increment_sizeB CMD_SIZE c1) second c1 = Inr c2 \<and>
    cmd_write_offsetB c2 = pcie_align c + 32 \<and> device_reads (pcie_align c) 16 ex (cmd_region c2) = None"
proof -
  let ?a = "pcie_align c" and ?r = "relay_inline_cmd CQ_PREFETCH_CMD_RELAY_INLINE_NOFLUSH 0 16 (pcie_align c)"
  have "\<exists>c1 b1 b2. relay_cmd False 16 DISPATCH_MASTER first c = Inr c1 \<and> length b1 = 16 \<and> length b2 = 16 \<and> emits c c1 (?r b1 @ first b2)"
    using relay_cmd_ok [where initialize = first and flush = False and sel = DISPATCH_MASTER and L = 16, OF g _ _ _ len(1) relay_inline_read(1)] c0 big by simp
  then obtain c1 b1 b2 where c1: "relay_cmd False 16 DISPATCH_MASTER first c = Inr c1" "length b1 = 16" "length b2 = 16"
    "emits c c1 (?r b1 @ first b2)" by blast
  have l32: "length (?r b1 @ first b2) = 32" using relay_inline_read(1) [OF c1(2)] len(1) [OF c1(3)] by simp
  have g1: "good c1" and o1: "cmd_write_offsetB c1 = 32" "cmd_sequence_sizeB c1 = 2 * ?a" "pcie_align c1 = ?a"
    "take 32 (cmd_region c1) = ?r b1 @ first b2"
    using emits_good [OF c1(4) g] c1(4) l32 c0 by (auto simp: emits_def same_frame_def)
  have r1: "drop 32 (cmd_region c1) = drop 32 (cmd_region c)"
    using relay_cmd_rest [OF g _ _ _ len(1) c1(1)] c0 big by simp
  obtain c2 b rest where c2: "place_cmd ?a second c1 = Inr c2" "length b = 16" "length rest = ?a - 16" "emits c1 c2 (second b @ rest)"
    using place_cmd_ok [where initialize = second and sz = ?a, OF g1 _ _ _ len(2)] o1 big by auto
  have o2: "cmd_write_offsetB c2 = ?a + 32" using c2(3,4) len(2) [OF c2(2)] o1(1) big by (simp add: emits_def)
  have "take (?a + 32) (cmd_region c2) = take 32 (cmd_region c1) @ second b @ rest"
    using c2(4) unfolding emits_def o2 o1(1) by blast
  then have "take 32 (take (?a + 32) (cmd_region c2)) = take 32 (take 32 (cmd_region c1) @ second b @ rest)" by (rule arg_cong)
  then have t2: "take 32 (cmd_region c2) = ?r b1 @ first b2" using o1(4) l32 by simp
  have "drop 48 (cmd_region c2) = drop 48 (cmd_region c1)" using place_cmd_rest [OF g1 _ _ _ len(2) c2(1)] o1 big by simp
  moreover have "drop 48 (cmd_region c1) = drop 48 (cmd_region c)" using arg_cong [OF r1, of "drop 16"] by simp
  ultimately have "drop (?a - 48) (drop 48 (cmd_region c2)) = drop (?a - 48) (drop 48 (cmd_region c))" by (simp only:)
  then have z: "drop ?a (cmd_region c2) = replicate ?a 0" using c0(3) big by simp
  let ?pad = "take (?a - 32) (drop 32 (cmd_region c2))"
  have "cmd_region c2 = take 32 (cmd_region c2) @ take (?a - 32) (drop 32 (cmd_region c2)) @ drop (?a - 32) (drop 32 (cmd_region c2))"
    by (simp only: append_take_drop_id)
  then have region: "cmd_region c2 = (?r b1 @ first b2 @ ?pad) @ replicate ?a 0" using t2 z big by simp
  have "length (cmd_region c2) = 2 * ?a" using emits_good [OF c2(4) g1] c2(4) o1(2) by (simp add: good_def emits_def same_frame_def)
  then have "16 + 16 + length ?pad = ceil_to (16 + 16) ?a" using ceil_cmd [OF g, of 32] big by simp
  then have "reads ?a 16 ex (?r b1 @ first b2 @ ?pad) [V_relay False DISPATCH_MASTER v] False"
    using reads_relay [OF c1(2) len(1) [OF c1(3)] _ good_pow2 [OF g] _ view [OF c1(3)], of ?pad 0 _ False] by simp
  then have "device_reads ?a 16 ex ((?r b1 @ first b2 @ ?pad) @ replicate ?a 0) = None"
    using zeros_not_read [of ?a ?a 16 ex] big by (simp add: reads_def)
  then show ?thesis using c1(1) c2(1) o2 region inc_cmd [OF g1] o1(3) by auto
qed

text \<open>
  C36: A write of data that is relayed later (\<open>add_dispatch_write_linear\<close> without the data) does not
  align the offset of the builder as the other commands do, while the stride stored in it is
  aligned. With an alignment of 64 bytes or more the next command is placed before the place where
  the prefetch kernel looks for it. This is how the commands that send kernel binaries to single
  cores are assembled: in a sequence in host memory, a write followed by the command that
  relays the pages of the binary. The builder accepts both; the prefetch kernel meets zeros
  behind the first one, which is no command.
\<close>

theorem write_linear_misplaced:
  assumes "host_command_new h zero_init sz = Inr c" "host_alignment h = 2 ^ k" "6 \<le> k" "k \<le> 12" "l1_alignment h = 16" "sz = 2 * 2 ^ k"
    and "dests < 256" "noc < 2 ^ 32" "ad < 2 ^ 32" "n < 2 ^ 32" "idx < 256"
  shows "\<exists>c'. apply_ops [Op_write_linear dests noc ad n None idx, Op_relay_paged is_dram start base page_size pages adjust] c = Inr c' \<and>
    cmd_write_offsetB c' = 2 ^ k + 32 \<and> device_reads (host_alignment h) (l1_alignment h) False (cmd_region c') = None"
proof -
  let ?a = "2 ^ k :: nat"
  have "(2 :: nat) ^ k \<le> 2 ^ 12" using assms(4) by (intro power_increasing) auto
  then have small: "?a \<le> 4096" by simp
  have "(2 :: nat) ^ 6 \<le> ?a" using assms(3) by (intro power_increasing) auto
  then have big: "64 \<le> ?a" by simp
  have "fresh_command h sz c" using assms(1) by (auto simp: fresh_command_def)
  then have g: "good c" and c0: "cmd_write_offsetB c = 0" "cmd_sequence_sizeB c = sz" "pcie_align c = ?a"
    using fresh_command_good [OF _ assms(2) _ assms(4,5)] assms(3,6) small by auto
  have zero: "cmd_region c = replicate sz 0" and un: "uninitialized c = None"
    using assms(1,6) big by (auto simp: host_command_new_def check_sequence_size_def split: if_splits)
  let ?w = "init_cmd CQ_DISPATCH_CMD_WRITE_LINEAR CQDispatchWriteCmd [(''num_mcast_dests'', dests), (''write_offset_index'', idx),
    (''noc_xy_addr'', noc), (''addr'', ad), (''length'', n)]"
  let ?p = "init_cmd CQ_PREFETCH_CMD_RELAY_PAGED CQPrefetchRelayPagedCmd [(''packed_page_flags'', packed_page_flags is_dram start),
    (''length_adjust'', adjust), (''base_addr'', base), (''page_size'', page_size), (''pages'', pages)]"
  have len: "length (?w b) = 16" "length (?p b) = 16" if "length b = 16" for b
    by (rule init_cmd_read(1) [OF that]; simp add: layout_sizes layout_fields)+
  have view: "dispatch_view 16 (?w b) = Some (D_write_linear dests idx noc ad n [])" if "length b = 16" for b
    using view_write_linear [OF that assms(7-11), of 16 "[]"] by simp
  have "\<exists>c1 c2. relay_cmd False 16 DISPATCH_MASTER ?w c = Inr c1 \<and> place_cmd (increment_sizeB CMD_SIZE c1) ?p c1 = Inr c2 \<and>
      cmd_write_offsetB c2 = pcie_align c + 32 \<and> device_reads (pcie_align c) 16 False (cmd_region c2) = None"
    by (rule misplaced_walk [OF g c0(1) _ _ _ len view]) (use c0 zero assms(6) big in auto)
  then obtain c1 c2 where c12: "relay_cmd False 16 DISPATCH_MASTER ?w c = Inr c1" "place_cmd (increment_sizeB CMD_SIZE c1) ?p c1 = Inr c2"
    "cmd_write_offsetB c2 = ?a + 32" "device_reads ?a 16 False (cmd_region c2) = None" using c0(3) by auto
  have "payload_size False n = 16" by (simp add: payload_size_def CMD_SIZE_def add32_def)
  then have "apply_ops [Op_write_linear dests noc ad n None idx, Op_relay_paged is_dram start base page_size pages adjust] c = Inr c2"
    using c12(1,2) by (simp add: add_dispatch_write_linear_def add_inline_data_def add_prefetch_relay_paged_def)
  then show ?thesis using c12(3,4) assms(2,5) by simp
qed

theorem write_linear_misplaced_witness:
  "\<exists>c c'. host_command_new (example_hal 64) False 128 = Inr c \<and>
    apply_ops [Op_write_linear 0 7 4096 2048 None 0, Op_relay_paged 1 3 4096 2048 1 0] c = Inr c' \<and>
    cmd_write_offsetB c' = 2 ^ 6 + 32 \<and> device_reads 64 16 False (cmd_region c') = None"
proof -
  obtain c where c: "host_command_new (example_hal 64) False 128 = Inr c"
    by (simp add: host_command_new_def check_sequence_size_def)
  have h: "host_alignment (example_hal 64) = 64" "host_alignment (example_hal 64) = 2 ^ 6" "l1_alignment (example_hal 64) = 16"
    by (simp_all add: example_hal_def)
  show ?thesis using write_linear_misplaced [OF c h(2) _ _ h(3), of 0 7 4096 2048 0 1 3 4096 2048 1 0, unfolded h(1,3)] c by auto
qed

end
