(* ===== verification/Write_Buffer.thy ===== *)
theory Write_Buffer
  imports Command_Stream_Theorems "HOL-Library.Signed_Division"
begin

text \<open>
  Writing the data of the user to a buffer on the device (src/tt_metal/impl/dispatch/command_queue.cpp):
  how \<open>HWCommandQueue::enqueue_write_buffer\<close> splits an interleaved buffer into commands,
  how \<open>EnqueueWriteBufferCommand\<close> builds one, and where the dispatch kernel puts the pages of a
  command. The memory of the user is a list of bytes; reading beyond its end is undefined.
\<close>

section \<open>Buffers and commands\<close>

text \<open>What is asked of a buffer: its address, page size, size, alignment, kind of memory and number of banks.\<close>

record write_buffer =
  wb_address :: u32
  wb_page_size :: u32
  wb_size :: u64
  wb_alignment :: u32
  wb_is_dram :: nat
  wb_num_banks :: u32

definition wb_num_pages :: "write_buffer \<Rightarrow> u32" where
  "wb_num_pages b = (if wb_page_size b = 0 then 0 else wb_size b div wb_page_size b mod 2 ^ 32)"

definition wb_aligned_page_size :: "write_buffer \<Rightarrow> u32" where
  "wb_aligned_page_size b = align_u32 (wb_page_size b) (wb_alignment b)"

record write_command =
  wc_issue_wait :: bool
  wc_bank_base_address :: u32
  wc_padded_page_size :: u32
  wc_dst_page_index :: u32
  wc_pages_to_write :: u32

section \<open>One command\<close>

definition src_bytes :: "byte list \<Rightarrow> u32 \<Rightarrow> u32 \<Rightarrow> tt_error + byte list" where
  "src_bytes src off n = (if off + n \<le> length src then Inr (take n (drop off src)) else Inl Undefined)"

definition add_src :: "byte list \<Rightarrow> u32 \<Rightarrow> u32 \<Rightarrow> u32 \<Rightarrow> device_command \<Rightarrow> tt_error + device_command" where
  "add_src src off n increment c = bind_result (src_bytes src off n) (\<lambda>bs. add_data bs increment c)"

definition add_dispatch_write :: "write_buffer \<Rightarrow> write_command \<Rightarrow> device_command \<Rightarrow> tt_error + device_command" where
  "add_dispatch_write b w c =
     (if \<not> wc_dst_page_index w \<le> 0xFFFF
      then Inl (Tt_assert ''Page offset needs to fit within range of uint16_t'')
      else add_dispatch_write_paged True (wb_is_dram b) (wc_dst_page_index w AND 0xFFFF) (wc_bank_base_address w)
             (wc_padded_page_size w) (wc_pages_to_write w) None c)"

definition data_size_bytes :: "write_command \<Rightarrow> u32" where
  "data_size_bytes w = mul32 (wc_pages_to_write w) (wc_padded_page_size w)"

text \<open>The loops over the data advance by a page from zero while they are below its size.\<close>

definition data_turns :: "write_command \<Rightarrow> nat" where
  "data_turns w = (data_size_bytes w + wc_padded_page_size w - 1) div wc_padded_page_size w"

fun add_partial_pages :: "nat \<Rightarrow> write_buffer \<Rightarrow> write_command \<Rightarrow> byte list \<Rightarrow> u32 \<Rightarrow> device_command \<Rightarrow> tt_error + device_command" where
  "add_partial_pages 0 b w src off c = Inr c"
| "add_partial_pages (Suc n) b w src off c =
     (let padding = sub32 (wb_aligned_page_size b) (wb_page_size b); padded = wc_padded_page_size w;
          page_size_to_copy = (if add32 off padded > wb_page_size b then sub32 padded padding else padded)
      in bind_result (add_src src off page_size_to_copy padded c) (add_partial_pages n b w src (add32 off page_size_to_copy)))"

fun add_pages :: "nat \<Rightarrow> u32 \<Rightarrow> u32 \<Rightarrow> byte list \<Rightarrow> u32 \<Rightarrow> device_command \<Rightarrow> tt_error + device_command" where
  "add_pages 0 page_size padded src off c = Inr c"
| "add_pages (Suc n) page_size padded src off c =
     bind_result (add_src src off page_size padded c) (add_pages n page_size padded src (add32 off page_size))"

definition add_buffer_data :: "write_buffer \<Rightarrow> write_command \<Rightarrow> byte list \<Rightarrow> device_command \<Rightarrow> tt_error + device_command" where
  "add_buffer_data b w src c =
     (let buffer_addr_offset = sub32 (wc_bank_base_address w) (wb_address b); padded = wc_padded_page_size w
      in if padded < wb_aligned_page_size b then add_partial_pages (data_turns w) b w src buffer_addr_offset c
         else
           let unpadded_src_offset = mul32 (add32 (mul32 (buffer_addr_offset div padded) (wb_num_banks b)) (wc_dst_page_index w)) (wb_page_size b)
           in if wb_page_size b mod wb_alignment b \<noteq> 0 \<and> wb_page_size b \<noteq> wb_size b
              then add_pages (data_turns w) (wb_page_size b) padded src unpadded_src_offset c
              else add_src src unpadded_src_offset (data_size_bytes w) (data_size_bytes w) c)"

text \<open>The waits are the addresses of the counters of the sub-devices with the values expected.\<close>

fun add_waits :: "(u32 \<times> u32) list \<Rightarrow> device_command \<Rightarrow> tt_error + device_command" where
  "add_waits [] c = Inr c"
| "add_waits ((ad, count) # ws) c = bind_result (add_dispatch_wait 0 ad count 0 False True 0 c) (add_waits ws)"

definition write_cmd_sequence_sizeB :: "hal_values \<Rightarrow> nat \<Rightarrow> write_command \<Rightarrow> u32" where
  "write_cmd_sequence_sizeB h num_worker_counters w =
     add32 (add32 (host_alignment h) (data_size_bytes w)) (if wc_issue_wait w then mul32 (host_alignment h) num_worker_counters else 0)"

definition process_write_buffer ::
    "(u32 \<Rightarrow> tt_error + device_command) \<Rightarrow> hal_values \<Rightarrow> (u32 \<times> u32) list \<Rightarrow> write_buffer \<Rightarrow> write_command \<Rightarrow> byte list \<Rightarrow> tt_error + device_command" where
  "process_write_buffer command_new h waits b w src =
     bind_result (command_new (write_cmd_sequence_sizeB h (length waits) w)) (\<lambda>c.
       bind_result (if wc_issue_wait w then add_waits waits c else Inr c) (\<lambda>c.
         bind_result (add_dispatch_write b w c) (add_buffer_data b w src)))"

section \<open>Splitting a buffer\<close>

definition BASE_PARTIAL_PAGE_SIZE :: u32 where "BASE_PARTIAL_PAGE_SIZE = 4096"

partial_function (option) partial_size_loop :: "u32 \<Rightarrow> u32 \<Rightarrow> u32 \<Rightarrow> u32 option" where
  "partial_size_loop padded_buffer_size pcie_alignment partial_size =
     (if padded_buffer_size mod partial_size \<noteq> 0
      then partial_size_loop padded_buffer_size pcie_alignment (add32 partial_size pcie_alignment)
      else Some partial_size)"

record write_plan =
  wp_partial :: bool
  wp_page_size :: u32
  wp_total_pages :: u32
  wp_max_pages :: u32

definition write_plan_new :: "hal_values \<Rightarrow> u32 \<Rightarrow> write_buffer \<Rightarrow> (tt_error + write_plan) option" where
  "write_plan_new h max_command_sizeB b =
     (let padded_page_size = wb_aligned_page_size b;
          max_data_sizeB = sub32 max_command_sizeB (mul32 (host_alignment h) 2);
          padded_buffer_size = mul32 (wb_num_pages b) padded_page_size
      in if padded_page_size > max_data_sizeB
         then if wb_num_pages b \<noteq> 1
              then Some (Inl (Tt_fatal ''TODO: add support for multi-paged buffer with page size > 64KB''))
              else map_option (\<lambda>partial_size.
                     let num_pages_round_robined = wb_num_pages b div wb_num_banks b;
                         num_partials_round_robined = mul32 (padded_page_size div partial_size) num_pages_round_robined
                     in Inr \<lparr>wp_partial = True, wp_page_size = partial_size, wp_total_pages = padded_buffer_size div partial_size,
                             wp_max_pages = (if num_pages_round_robined > 0 then mul32 (wb_num_banks b) num_partials_round_robined
                                             else wb_num_pages b mod wb_num_banks b)\<rparr>)
                   (partial_size_loop padded_buffer_size (host_alignment h) BASE_PARTIAL_PAGE_SIZE)
         else Some (Inr \<lparr>wp_partial = False, wp_page_size = padded_page_size, wp_total_pages = wb_num_pages b, wp_max_pages = wb_num_pages b\<rparr>))"

definition int32 :: "u32 \<Rightarrow> int" where
  "int32 n = (if n < 2 ^ 31 then int n else int n - 2 ^ 32)"

definition pages_available :: "hal_values \<Rightarrow> u32 \<Rightarrow> write_plan \<Rightarrow> bool \<Rightarrow> u32 \<Rightarrow> int" where
  "pages_available h max_command_sizeB p issue_wait queue_space =
     (let data_offsetB = (if issue_wait then mul32 (host_alignment h) 2 else host_alignment h);
          space_availableB = min queue_space max_command_sizeB
      in (int32 space_availableB - int32 data_offsetB) sdiv int32 (wp_page_size p))"

text \<open>The command of one turn of the loop; \<open>queue_space\<close> is the space before the end of the issue queue.\<close>

definition next_write :: "hal_values \<Rightarrow> u32 \<Rightarrow> write_buffer \<Rightarrow> write_plan \<Rightarrow> u32 \<Rightarrow> u32 \<Rightarrow> u32 \<Rightarrow> u32 \<Rightarrow> write_command option" where
  "next_write h max_command_sizeB b p queue_space total_pages dst_page_index bank_base_address =
     (let issue_wait = (dst_page_index = 0 \<and> bank_base_address = wb_address b);
          available = pages_available h max_command_sizeB p issue_wait queue_space;
          n = min (min (nat available) (wp_max_pages p)) total_pages
      in if available \<le> 0 then None
         else if dst_page_index > 0xFFFF \<or> n = wp_max_pages p \<and> wp_partial p
         then let num_banks_to_use = (if wp_partial p then wp_max_pages p else wb_num_banks b)
              in Some \<lparr>wc_issue_wait = issue_wait,
                       wc_bank_base_address = add32 bank_base_address (mul32 (dst_page_index div num_banks_to_use) (wp_page_size p)),
                       wc_padded_page_size = wp_page_size p, wc_dst_page_index = dst_page_index mod num_banks_to_use, wc_pages_to_write = n\<rparr>
         else Some \<lparr>wc_issue_wait = issue_wait, wc_bank_base_address = bank_base_address, wc_padded_page_size = wp_page_size p,
                    wc_dst_page_index = dst_page_index, wc_pages_to_write = n\<rparr>)"

text \<open>
  The loop over the pages. Enqueuing a command and wrapping the queue move its write pointer;
  the list has the space found in each turn. There is no result if it is too short.
\<close>

fun enqueue_write_loop :: "hal_values \<Rightarrow> u32 \<Rightarrow> write_buffer \<Rightarrow> write_plan \<Rightarrow> u32 list \<Rightarrow> u32 \<Rightarrow> u32 \<Rightarrow> u32 \<Rightarrow> write_command list option" where
  "enqueue_write_loop h max_command_sizeB b p spaces 0 dst_page_index bank_base_address = Some []"
| "enqueue_write_loop h max_command_sizeB b p [] (Suc left) dst_page_index bank_base_address = None"
| "enqueue_write_loop h max_command_sizeB b p (space # spaces) (Suc left) dst_page_index bank_base_address =
     (case next_write h max_command_sizeB b p space (Suc left) dst_page_index bank_base_address of
        None \<Rightarrow> enqueue_write_loop h max_command_sizeB b p spaces (Suc left) dst_page_index bank_base_address
      | Some w \<Rightarrow>
          map_option (\<lambda>ws. w # ws)
            (enqueue_write_loop h max_command_sizeB b p spaces (sub32 (Suc left) (wc_pages_to_write w))
               (add32 (wc_dst_page_index w) (wc_pages_to_write w)) (wc_bank_base_address w)))"

definition enqueue_write_buffer :: "hal_values \<Rightarrow> u32 \<Rightarrow> write_buffer \<Rightarrow> u32 list \<Rightarrow> (tt_error + write_command list) option" where
  "enqueue_write_buffer h max_command_sizeB b spaces =
     (case write_plan_new h max_command_sizeB b of
        None \<Rightarrow> None
      | Some (Inl e) \<Rightarrow> Some (Inl e)
      | Some (Inr p) \<Rightarrow> map_option Inr (enqueue_write_loop h max_command_sizeB b p spaces (wp_total_pages p) 0 (wb_address b)))"

section \<open>Where the pages go\<close>

text \<open>The address generator of the kernels: the bank of a page, and the address in it with an offset into the page.\<close>

definition get_noc_addr :: "u32 \<Rightarrow> u32 \<Rightarrow> u32 \<Rightarrow> u32 \<Rightarrow> u32 \<Rightarrow> u32 \<Rightarrow> nat \<times> u32" where
  "get_noc_addr allocator_alignment num_banks bank_base_address page_size page_id off =
     (let bank_offset_index = page_id div num_banks
      in (page_id - bank_offset_index * num_banks,
          add32 (add32 (mul32 bank_offset_index (align_u32 page_size allocator_alignment)) bank_base_address) off))"

text \<open>
  The loop of the dispatch kernel over the data of a paged write. The list has the data
  available in the circular buffer in each turn; a transfer has its destination and its bytes.
\<close>

type_synonym transfer = "(nat \<times> u32) \<times> byte list"

fun write_paged_loop :: "u32 \<Rightarrow> (u32 \<Rightarrow> u32 \<Rightarrow> nat \<times> u32) \<Rightarrow> u32 \<Rightarrow> u32 list \<Rightarrow> u32 \<Rightarrow> u32 \<Rightarrow> byte list \<Rightarrow> transfer list option" where
  "write_paged_loop max_burst addr_gen page_size avs page_id off [] = Some []"
| "write_paged_loop max_burst addr_gen page_size [] page_id off (x # data) = None"
| "write_paged_loop max_burst addr_gen page_size (available_data # avs) page_id off (x # data) =
     (let remaining_page_size = sub32 page_size off;
          xfer_size = (if remaining_page_size > available_data then available_data else remaining_page_size);
          xfer_size = (if xfer_size > max_burst then max_burst else xfer_size);
          rest = drop xfer_size (x # data)
      in map_option (\<lambda>ts. (addr_gen page_id off, take xfer_size (x # data)) # ts)
           (if xfer_size < remaining_page_size
            then write_paged_loop max_burst addr_gen page_size avs page_id (add32 off xfer_size) rest
            else write_paged_loop max_burst addr_gen page_size avs (add32 page_id 1) 0 rest))"

definition process_write_paged :: "u32 \<Rightarrow> u32 \<Rightarrow> u32 \<Rightarrow> u32 list \<Rightarrow> u32 \<Rightarrow> u32 \<Rightarrow> u32 \<Rightarrow> u32 \<Rightarrow> byte list \<Rightarrow> transfer list option" where
  "process_write_paged max_burst allocator_alignment num_banks avs start_page base_addr page_size pages data =
     write_paged_loop max_burst (get_noc_addr allocator_alignment num_banks base_addr page_size) page_size avs start_page 0
       (take (mul32 pages page_size) data)"

section \<open>From the host to the banks\<close>

text \<open>
  All commands of a buffer, one after the other: each is built by the host in a fresh piece of
  memory, read by the prefetch kernel and carried out by the dispatch kernel. The list has, for
  each command, where it is built and the data available in each turn of the kernel's loop.
\<close>

fun view_transfers :: "u32 \<Rightarrow> write_buffer \<Rightarrow> u32 list \<Rightarrow> device_view \<Rightarrow> transfer list option" where
  "view_transfers max_burst b avs (V_relay flush d (D_write_paged is_dram start base page_size pages data)) =
     process_write_paged max_burst (wb_alignment b) (wb_num_banks b) avs start base page_size pages data"
| "view_transfers max_burst b avs v = Some []"

definition run_command ::
    "u32 \<Rightarrow> hal_values \<Rightarrow> (u32 \<times> u32) list \<Rightarrow> write_buffer \<Rightarrow> byte list \<Rightarrow> (u32 \<Rightarrow> tt_error + device_command) \<Rightarrow> u32 list \<Rightarrow> write_command \<Rightarrow> transfer list option" where
  "run_command max_burst h waits b src command_new avs w =
     (case process_write_buffer command_new h waits b w src of
        Inl e \<Rightarrow> None
      | Inr c \<Rightarrow> Option.bind (device_reads (host_alignment h) (l1_alignment h) False (cmd_region c))
                  (\<lambda>vs. map_option concat (those (map (view_transfers max_burst b avs) vs))))"

fun run_commands ::
    "u32 \<Rightarrow> hal_values \<Rightarrow> (u32 \<times> u32) list \<Rightarrow> write_buffer \<Rightarrow> byte list \<Rightarrow> ((u32 \<Rightarrow> tt_error + device_command) \<times> u32 list) list \<Rightarrow> write_command list \<Rightarrow> transfer list option" where
  "run_commands max_burst h waits b src es [] = Some []"
| "run_commands max_burst h waits b src [] (w # ws) = None"
| "run_commands max_burst h waits b src ((command_new, avs) # es) (w # ws) =
     Option.bind (run_command max_burst h waits b src command_new avs w)
       (\<lambda>ts. map_option (\<lambda>us. ts @ us) (run_commands max_burst h waits b src es ws))"

text \<open>The bytes that transfers put into the banks, in their order.\<close>

definition transfer_bytes :: "transfer \<Rightarrow> ((nat \<times> u32) \<times> byte) list" where
  "transfer_bytes t = map (\<lambda>j. ((fst (fst t), snd (fst t) + j), snd t ! j)) [0..<length (snd t)]"

definition all_bytes :: "transfer list \<Rightarrow> ((nat \<times> u32) \<times> byte) list" where
  "all_bytes ts = concat (map transfer_bytes ts)"

end
