(* ===== verification/Write_Buffer_Props.thy ===== *)
theory Write_Buffer_Props
  imports Write_Buffer
begin

text \<open>
  What one command that writes to an interleaved buffer has in it: the waits, the paged write
  and the pages of the user behind it.
\<close>

section \<open>Waits\<close>

definition wait_view :: "u32 \<times> u32 \<Rightarrow> device_view" where
  "wait_view x = V_relay True DISPATCH_MASTER (D_wait False False False True (fst x) (snd x))"

lemma add_waits_reads:
  assumes "room c (length ws * pcie_align c)" "\<forall>x \<in> set ws. fst x < 2 ^ 32 \<and> snd x < 2 ^ 32"
  shows "op_reads ex (add_waits ws) c (length ws * pcie_align c) (map wait_view ws) False"
  using assms
proof (induction ws arbitrary: c)
  case Nil
  then have "emits c c []" by (intro emits_nothing) (simp add: room_def)
  moreover have "((@) []) = (\<lambda>vs :: device_view list. vs)" by (rule ext) simp
  ultimately show ?case by (auto simp: op_reads_def reads_def option.map_ident)
next
  case (Cons x ws)
  obtain ad count where x: "x = (ad, count)" by force
  let ?a = "pcie_align c"
  have r: "room c (?a + length ws * ?a)" using Cons.prems(1) by simp
  have w: "op_reads ex (add_dispatch_wait 0 ad count 0 False True 0) c ?a [wait_view x] False"
    using wait_reads [of c 0 ad count 0 0 ex False True] r Cons.prems(2) x by (auto simp: room_def wait_view_def)
  have "op_reads ex (\<lambda>c. bind_result (add_dispatch_wait 0 ad count 0 False True 0 c) (add_waits ws)) c (?a + length ws * ?a)
      ([wait_view x] @ map wait_view ws) False"
  proof (rule op_reads_then [OF w])
    fix c' assume c': "same_frame c c'" "cmd_write_offsetB c' = cmd_write_offsetB c + ?a"
    have al: "pcie_align c' = ?a" using c'(1) by (simp add: same_frame_def)
    have "room c' (length ws * ?a)" by (rule room_after [OF r c']) simp
    then show "op_reads ex (add_waits ws) c' (length ws * ?a) (map wait_view ws) False" using Cons.IH [of c'] Cons.prems(2) al by simp
  qed
  then show ?case using x by (simp add: op_reads_def)
qed

section \<open>Pages\<close>

lemma add_src_ok:
  assumes "good c" "16 dvd cmd_write_offsetB c" "n \<le> inc" "cmd_write_offsetB c + inc \<le> cmd_sequence_sizeB c" "off + n \<le> length src"
  shows "\<exists>c' data. add_src src off n inc c = Inr c' \<and> emits c c' data \<and> length data = inc \<and> take n data = take n (drop off src)"
proof -
  let ?bs = "take n (drop off src)"
  have l: "length ?bs = n" using assms(5) by simp
  obtain c' rest where "add_data ?bs inc c = Inr c'" "length rest = inc - length ?bs" "emits c c' (?bs @ rest)"
    using add_data_ok [OF assms(1,2), of ?bs inc] assms(3,4) l by auto
  then show ?thesis using assms(3,5) l by (intro exI [of _ c'] exI [of _ "?bs @ rest"]) (simp add: add_src_def src_bytes_def)
qed

lemma add_pages_ok:
  assumes "good c" "16 dvd cmd_write_offsetB c" "16 dvd padded" "n \<le> padded" "cmd_write_offsetB c + m * padded \<le> cmd_sequence_sizeB c"
    "off + m * n \<le> length src" "length src < 2 ^ 32"
  shows "\<exists>c' data. add_pages m n padded src off c = Inr c' \<and> emits c c' data \<and> length data = m * padded \<and>
    (\<forall>i < m. take n (drop (i * padded) data) = take n (drop (off + i * n) src))"
  using assms
proof (induction m arbitrary: c off)
  case 0
  then show ?case using emits_nothing [of c] by auto
next
  case (Suc m)
  obtain c1 d where c1: "add_src src off n padded c = Inr c1" "emits c c1 d" "length d = padded" "take n d = take n (drop off src)"
    using add_src_ok [OF Suc.prems(1,2,4), of off src] Suc.prems(5,6) by auto
  have o1: "cmd_write_offsetB c1 = cmd_write_offsetB c + padded" "cmd_sequence_sizeB c1 = cmd_sequence_sizeB c"
    using c1(2,3) by (auto simp: emits_def same_frame_def)
  obtain c2 data where c2: "add_pages m n padded src (off + n) c1 = Inr c2" "emits c1 c2 data" "length data = m * padded"
    "\<forall>i < m. take n (drop (i * padded) data) = take n (drop (off + n + i * n) src)"
    using Suc.IH [OF emits_good [OF c1(2) Suc.prems(1)], of "off + n"] Suc.prems o1 by (auto simp: add.assoc)
  have "add32 off n = off + n" using Suc.prems(6,7) by (simp add: add32_def)
  then have "add_pages (Suc m) n padded src off c = Inr c2" using c1(1) c2(1) by simp
  moreover have "take n (drop (i * padded) (d @ data)) = take n (drop (off + i * n) src)" if "i < Suc m" for i
  proof (cases i)
    case 0
    then show ?thesis using c1(3,4) Suc.prems(4) by simp
  next
    case (Suc j)
    then show ?thesis using c1(3) c2(4) that by (simp add: add.assoc)
  qed
  ultimately show ?case using emits_trans [OF c1(2) c2(2)] c1(3) c2(3) by (intro exI [of _ c2] exI [of _ "d @ data"]) simp
qed

section \<open>The data of a command\<close>

definition first_page :: "write_buffer \<Rightarrow> write_command \<Rightarrow> nat" where
  "first_page b w = (wc_bank_base_address w - wb_address b) div wb_aligned_page_size b * wb_num_banks b + wc_dst_page_index w"

text \<open>
  A buffer that lies within the address space: it has a whole number of pages, and its pages
  rounded up to the alignment of the buffer are multiples of the alignment \<open>2 ^ k\<close> of commands.
\<close>

definition buffer_ok :: "write_buffer \<Rightarrow> nat \<Rightarrow> bool" where
  "buffer_ok b k \<longleftrightarrow> 0 < wb_page_size b \<and> wb_page_size b < 2 ^ 31 \<and> wb_size b = wb_num_pages b * wb_page_size b \<and>
     (\<exists>a. k \<le> a \<and> a \<le> 12 \<and> wb_alignment b = 2 ^ a) \<and> 0 < wb_num_banks b \<and> wb_num_banks b \<le> 2 ^ 16 \<and>
     wb_address b + wb_num_pages b * wb_aligned_page_size b < 2 ^ 32 \<and> wb_is_dram b < 256"

definition command_ok :: "write_buffer \<Rightarrow> write_command \<Rightarrow> bool" where
  "command_ok b w \<longleftrightarrow> wc_padded_page_size w = wb_aligned_page_size b \<and> 0 < wc_pages_to_write w \<and> wc_dst_page_index w \<le> 0xFFFF \<and>
     (\<exists>q. wc_bank_base_address w = wb_address b + q * wb_aligned_page_size b) \<and> first_page b w + wc_pages_to_write w \<le> wb_num_pages b"

lemma aligned_page:
  assumes "buffer_ok b k"
  shows "wb_page_size b \<le> wb_aligned_page_size b" "0 < wb_aligned_page_size b" "wb_alignment b dvd wb_aligned_page_size b"
    "2 ^ k dvd wb_aligned_page_size b" "wb_page_size b mod wb_alignment b = 0 \<longrightarrow> wb_aligned_page_size b = wb_page_size b"
    "wb_aligned_page_size b < 2 ^ 31 + 4096"
proof -
  obtain a where a: "k \<le> a" "a \<le> 12" "wb_alignment b = 2 ^ a" and p: "0 < wb_page_size b" "wb_page_size b < 2 ^ 31"
    using assms by (auto simp: buffer_ok_def)
  let ?A = "2 ^ a :: nat"
  have al: "wb_aligned_page_size b = ceil_to (wb_page_size b) ?A" using align_pow2 [OF p(2) a(2)] a(3) by (simp add: wb_aligned_page_size_def)
  have pos: "0 < ?A" by simp
  note c = ceil_to_props [OF pos, of "wb_page_size b"]
  show "wb_page_size b \<le> wb_aligned_page_size b" "0 < wb_aligned_page_size b" "wb_alignment b dvd wb_aligned_page_size b"
    using c p(1) a(3) al by auto
  show "2 ^ k dvd wb_aligned_page_size b" using c(1) al le_imp_power_dvd [OF a(1), of "2 :: nat"] dvd_trans by metis
  show "wb_page_size b mod wb_alignment b = 0 \<longrightarrow> wb_aligned_page_size b = wb_page_size b"
    using ceil_to_unique [OF pos, of "wb_page_size b" "wb_page_size b"] al a(3) by (auto simp: mod_eq_0_iff_dvd)
  show "wb_aligned_page_size b < 2 ^ 31 + 4096" using c(3) al p(2) pow2_le_4096 [OF a(2)] by simp
qed

lemma first_page_eq:
  assumes "buffer_ok b k" "wc_bank_base_address w = wb_address b + q * wb_aligned_page_size b"
  shows "first_page b w = q * wb_num_banks b + wc_dst_page_index w"
  using aligned_page(2) [OF assms(1)] assms(2) by (simp add: first_page_def)

text \<open>The offset into the memory of the user.\<close>

lemma src_offset:
  assumes b: "buffer_ok b k" and w: "command_ok b w"
  shows "mul32 (add32 (mul32 (sub32 (wc_bank_base_address w) (wb_address b) div wc_padded_page_size w) (wb_num_banks b)) (wc_dst_page_index w)) (wb_page_size b) =
      first_page b w * wb_page_size b"
    "mul32 (wc_pages_to_write w) (wc_padded_page_size w) = wc_pages_to_write w * wb_aligned_page_size b"
    "(first_page b w + wc_pages_to_write w) * wb_page_size b \<le> wb_size b" "wb_size b < 2 ^ 32"
    "wc_bank_base_address w < 2 ^ 32"
proof -
  let ?ps = "wb_aligned_page_size b" and ?f = "first_page b w" and ?np = "wb_num_pages b" and ?nb = "wb_num_banks b"
  note ap = aligned_page [OF b]
  obtain q where q: "wc_bank_base_address w = wb_address b + q * ?ps" using w by (auto simp: command_ok_def)
  have fp: "?f = q * ?nb + wc_dst_page_index w" by (rule first_page_eq [OF b q])
  have le: "?f + wc_pages_to_write w \<le> ?np" and padded: "wc_padded_page_size w = ?ps" using w by (auto simp: command_ok_def)
  have sz: "wb_size b = ?np * wb_page_size b" and top: "wb_address b + ?np * ?ps < 2 ^ 32" and nb: "0 < ?nb" and psz: "0 < wb_page_size b"
    using b by (auto simp: buffer_ok_def)
  have "wb_size b \<le> ?np * ?ps" using sz ap(1) by simp
  then show small: "wb_size b < 2 ^ 32" using top by simp
  show last: "(?f + wc_pages_to_write w) * wb_page_size b \<le> wb_size b" using le sz by simp
  have "?np \<le> wb_size b" using sz psz by simp
  have "q \<le> q * ?nb" using nb by simp
  then have qn: "q \<le> ?np" using fp le by linarith
  then have "q * ?ps \<le> ?np * ?ps" by simp
  then show base: "wc_bank_base_address w < 2 ^ 32" using q top by linarith
  have "sub32 (wc_bank_base_address w) (wb_address b) = q * ?ps" using q base by (simp add: sub32_def)
  moreover have "?f < 2 ^ 32" using le \<open>?np \<le> wb_size b\<close> small by simp
  moreover have "?f * wb_page_size b < 2 ^ 32" using last small by (simp add: distrib_right)
  ultimately show "mul32 (add32 (mul32 (sub32 (wc_bank_base_address w) (wb_address b) div wc_padded_page_size w) ?nb) (wc_dst_page_index w)) (wb_page_size b) =
      ?f * wb_page_size b" using padded ap(2) fp by (simp add: mul32_def add32_def)
  have "wc_pages_to_write w * ?ps \<le> ?np * ?ps" using le by (intro mult_le_mono1) simp
  then have "wc_pages_to_write w * ?ps < 2 ^ 32" using top by linarith
  then show "mul32 (wc_pages_to_write w) (wc_padded_page_size w) = wc_pages_to_write w * ?ps" using padded top by (simp add: mul32_def)
qed

lemma add_buffer_data_ok:
  assumes b: "buffer_ok b k" and w: "command_ok b w" and full: "wb_page_size b mod wb_alignment b = 0 \<or> wb_page_size b \<noteq> wb_size b"
    and src: "length src = wb_size b" and k: "4 \<le> k"
    and c: "good c" "16 dvd cmd_write_offsetB c" "cmd_write_offsetB c + wc_pages_to_write w * wb_aligned_page_size b \<le> cmd_sequence_sizeB c"
  shows "\<exists>c' data. add_buffer_data b w src c = Inr c' \<and> emits c c' data \<and> length data = wc_pages_to_write w * wb_aligned_page_size b \<and>
    (\<forall>i < wc_pages_to_write w. take (wb_page_size b) (drop (i * wb_aligned_page_size b) data) =
      take (wb_page_size b) (drop ((first_page b w + i) * wb_page_size b) src))"
proof -
  let ?ps = "wb_aligned_page_size b" and ?p = "wb_page_size b" and ?f = "first_page b w" and ?m = "wc_pages_to_write w"
  note ap = aligned_page [OF b] and so = src_offset [OF b w]
  have padded: "wc_padded_page_size w = ?ps" using w by (simp add: command_ok_def)
  have "(2 :: nat) ^ 4 dvd 2 ^ k" using k by (rule le_imp_power_dvd)
  then have d16: "16 dvd ?ps" using ap(4) dvd_trans by fastforce
  have "?m * ?ps + ?ps - 1 = ?ps - 1 + ?m * ?ps" using ap(2) by simp
  moreover have "(?ps - 1 + ?m * ?ps) div ?ps = ?m" using ap(2) by (subst div_mult_self1) simp_all
  ultimately have turns: "data_turns w = ?m" using so(2) unfolding data_turns_def data_size_bytes_def padded by (simp only:)
  have fits: "?f * ?p + ?m * ?p \<le> length src" using so(3) src by (simp add: distrib_right)
  show ?thesis
  proof (cases "?p mod wb_alignment b = 0")
    case False
    then have "add_buffer_data b w src c = add_pages ?m ?p ?ps src (?f * ?p) c"
      using full padded so(1) turns by (simp add: add_buffer_data_def Let_def)
    then show ?thesis using add_pages_ok [OF c(1,2) d16 ap(1) c(3), of "?f * ?p" src] fits so(4) src by (auto simp: distrib_right)
  next
    case True
    then have eq: "?ps = ?p" using ap(5) by simp
    have "add_buffer_data b w src c = add_src src (?f * ?p) (?m * ?ps) (?m * ?ps) c"
      using True padded so(1,2) by (simp add: add_buffer_data_def Let_def data_size_bytes_def)
    moreover obtain c' data where "add_src src (?f * ?p) (?m * ?ps) (?m * ?ps) c = Inr c'" "emits c c' data" "length data = ?m * ?ps"
      "take (?m * ?ps) data = take (?m * ?ps) (drop (?f * ?p) src)"
      using add_src_ok [OF c(1,2) order_refl c(3), of "?f * ?p" src] fits eq by auto
    moreover have "take ?p (drop (i * ?p) (take (?m * ?p) (drop (?f * ?p) src))) = take ?p (drop ((?f + i) * ?p) src)" if "i < ?m" for i
    proof -
      have "Suc i * ?p \<le> ?m * ?p" using that by (intro mult_le_mono) auto
      then show ?thesis by (simp add: drop_take distrib_right add.commute)
    qed
    ultimately show ?thesis using eq by auto
  qed
qed


section \<open>The whole command\<close>

definition write_view :: "write_buffer \<Rightarrow> write_command \<Rightarrow> byte list \<Rightarrow> device_view" where
  "write_view b w data = V_relay True DISPATCH_MASTER
     (D_write_paged (wb_is_dram b \<noteq> 0) (wc_dst_page_index w) (wc_bank_base_address w) (wb_aligned_page_size b) (wc_pages_to_write w) data)"

definition pages_of :: "write_buffer \<Rightarrow> byte list \<Rightarrow> nat \<Rightarrow> nat \<Rightarrow> byte list \<Rightarrow> bool" where
  "pages_of b src f m data \<longleftrightarrow> length data = m * wb_aligned_page_size b \<and>
     (\<forall>i < m. take (wb_page_size b) (drop (i * wb_aligned_page_size b) data) = take (wb_page_size b) (drop ((f + i) * wb_page_size b) src))"

text \<open>The data is placed behind the command; what is left of the space is skipped by the stride.\<close>

lemma paged_tail_ok:
  assumes b: "buffer_ok b k" and w: "command_ok b w" and full: "wb_page_size b mod wb_alignment b = 0 \<or> wb_page_size b \<noteq> wb_size b"
    and src: "length src = wb_size b" and k: "5 \<le> k" and al: "pcie_align c = 2 ^ k"
    and r: "room c (2 ^ k + wc_pages_to_write w * wb_aligned_page_size b)"
    and c1: "same_frame c c1" "cmd_write_offsetB c1 = cmd_write_offsetB c + 32"
  shows "\<exists>c2 data pad. bind_result (add_buffer_data b w src c1) (\<lambda>c. Inr (align_offset c)) = Inr c2 \<and> emits c1 c2 (data @ pad) \<and>
    length data = wc_pages_to_write w * wb_aligned_page_size b \<and>
    32 + length (data @ pad) = ceil_to (32 + wc_pages_to_write w * wb_aligned_page_size b) (pcie_align c) \<and>
    pages_of b src (first_page b w) (wc_pages_to_write w) data"
proof -
  let ?n = "wc_pages_to_write w * wb_aligned_page_size b" and ?a = "2 ^ k :: nat" and ?o = "cmd_write_offsetB c"
  have g: "good c" and off: "?a dvd ?o" and fit: "?o + (?a + ?n) \<le> cmd_sequence_sizeB c" using r al by (auto simp: room_def)
  have "(2 :: nat) ^ 5 \<le> ?a" using k by (intro power_increasing) auto
  then have a32: "32 \<le> ?a" by simp
  have g1: "good c1" and s1: "cmd_sequence_sizeB c1 = cmd_sequence_sizeB c" "pcie_align c1 = ?a"
    using same_frame_good [OF c1(1) g] c1(1) al by (auto simp: same_frame_def)
  have "16 dvd cmd_write_offsetB c1" using dvd_16 [OF g] off al c1(2) by auto
  then obtain c2 data where c2: "add_buffer_data b w src c1 = Inr c2" "emits c1 c2 data" "pages_of b src (first_page b w) (wc_pages_to_write w) data"
    using add_buffer_data_ok [OF b w full src _ g1] k fit s1 c1(2) a32 by (fastforce simp: pages_of_def)
  then have l: "length data = ?n" by (simp add: pages_of_def)
  have g2: "good c2" by (rule emits_good [OF c2(2) g1])
  have s2: "cmd_write_offsetB c2 = ?o + 32 + ?n" "cmd_write_offsetB c2 \<le> cmd_sequence_sizeB c2" "pcie_align c2 = ?a"
    using c2(2) s1 c1(2) l by (auto simp: emits_def same_frame_def)
  obtain pad where pad: "emits c2 (align_offset c2) pad" "cmd_write_offsetB (align_offset c2) = ceil_to (?o + 32 + ?n) ?a"
    using align_offset_ok [OF g2 s2(2)] s2 by auto
  have dn: "?a dvd ?n" using aligned_page(4) [OF b] by simp
  have "?o + ?a + ?n = ceil_to (?o + 32 + ?n) ?a" "?a + ?n = ceil_to (32 + ?n) ?a"
    by (rule ceil_to_unique; use dn off a32 in auto)+
  moreover have "cmd_write_offsetB (align_offset c2) = ?o + 32 + ?n + length pad" using pad(1) s2(1) by (simp add: emits_def)
  ultimately have "32 + length (data @ pad) = ceil_to (32 + ?n) ?a" using pad(2) l by simp
  then show ?thesis using c2(1,3) emits_trans [OF c2(2) pad(1)] l al by (intro exI [of _ "align_offset c2"] exI [of _ data] exI [of _ pad]) simp
qed

lemma add_dispatch_write_eq:
  assumes b: "buffer_ok b k" and w: "command_ok b w" and n: "wc_pages_to_write w * wb_aligned_page_size b < 2 ^ 30"
  shows "add_dispatch_write b w c = relay_cmd True (16 + wc_pages_to_write w * wb_aligned_page_size b) DISPATCH_MASTER
    (init_cmd CQ_DISPATCH_CMD_WRITE_PAGED CQDispatchWritePagedCmd [(''is_dram'', wb_is_dram b), (''start_page'', wc_dst_page_index w),
      (''base_addr'', wc_bank_base_address w), (''page_size'', wb_aligned_page_size b), (''pages'', wc_pages_to_write w)]) c"
proof -
  have i: "wc_dst_page_index w \<le> 0xFFFF" and padded: "wc_padded_page_size w = wb_aligned_page_size b" using w by (auto simp: command_ok_def)
  have "take_bit 16 (wc_dst_page_index w) = wc_dst_page_index w" using i by (simp add: take_bit_nat_eq_self)
  then have "wc_dst_page_index w AND 0xFFFF = wc_dst_page_index w"
    using take_bit_eq_mask [of 16 "wc_dst_page_index w"] by (simp add: mask_eq_exp_minus_1)
  moreover have "payload_size True (mul32 (wb_aligned_page_size b) (wc_pages_to_write w)) = 16 + wc_pages_to_write w * wb_aligned_page_size b"
    using n by (simp add: payload_size_eq mul32_def mult.commute)
  moreover have "bind_result x (add_inline_data None) = x" for x by (cases x) (simp_all add: add_inline_data_def)
  ultimately show ?thesis using i padded by (simp add: add_dispatch_write_def add_dispatch_write_paged_def)
qed

lemma dispatch_write_accepted:
  assumes b: "buffer_ok b k" and w: "command_ok b w" and k: "5 \<le> k" and al: "pcie_align c = 2 ^ k"
    and n: "wc_pages_to_write w * wb_aligned_page_size b < 2 ^ 30" and r: "room c (2 ^ k + wc_pages_to_write w * wb_aligned_page_size b)"
  shows "\<exists>c'. add_dispatch_write b w c = Inr c'"
proof -
  have g: "good c" and off: "16 dvd cmd_write_offsetB c" and fit: "cmd_write_offsetB c + 2 ^ k \<le> cmd_sequence_sizeB c"
    using r dvd_16 [of c] by (auto simp: room_def)
  have "(2 :: nat) ^ 5 \<le> 2 ^ k" using k by (intro power_increasing) auto
  then have "cmd_write_offsetB c + 32 \<le> cmd_sequence_sizeB c" using fit by simp
  note fit32 = this
  let ?w = "init_cmd CQ_DISPATCH_CMD_WRITE_PAGED CQDispatchWritePagedCmd [(''is_dram'', wb_is_dram b), (''start_page'', wc_dst_page_index w),
      (''base_addr'', wc_bank_base_address w), (''page_size'', wb_aligned_page_size b), (''pages'', wc_pages_to_write w)]"
  have len: "length (?w x) = 16" if "length x = 16" for x
    by (rule init_cmd_read(1) [OF that]) (simp_all add: layout_sizes layout_fields)
  show ?thesis unfolding add_dispatch_write_eq [OF b w n]
    using relay_cmd_ok [where flush = True and initialize = ?w, OF g off fit32 _ len relay_inline_read(1)] by blast
qed

lemma paged_chunk:
  assumes b: "buffer_ok b k" and w: "command_ok b w" and full: "wb_page_size b mod wb_alignment b = 0 \<or> wb_page_size b \<noteq> wb_size b"
    and src: "length src = wb_size b" and k: "5 \<le> k" and al: "pcie_align c = 2 ^ k" and n: "wc_pages_to_write w * wb_aligned_page_size b < 2 ^ 30"
    and r: "room c (2 ^ k + wc_pages_to_write w * wb_aligned_page_size b)"
  shows "\<exists>c' ch data. bind_result (add_dispatch_write b w c) (add_buffer_data b w src) = Inr c' \<and> emits c (align_offset c') ch \<and>
    length ch = 2 ^ k + wc_pages_to_write w * wb_aligned_page_size b \<and> pages_of b src (first_page b w) (wc_pages_to_write w) data \<and>
    reads (2 ^ k) 16 ex ch [write_view b w data] False"
proof -
  let ?n = "wc_pages_to_write w * wb_aligned_page_size b" and ?a = "2 ^ k :: nat"
  let ?w = "init_cmd CQ_DISPATCH_CMD_WRITE_PAGED CQDispatchWritePagedCmd [(''is_dram'', wb_is_dram b), (''start_page'', wc_dst_page_index w),
      (''base_addr'', wc_bank_base_address w), (''page_size'', wb_aligned_page_size b), (''pages'', wc_pages_to_write w)]"
  let ?tail = "\<lambda>c. bind_result (add_buffer_data b w src c) (\<lambda>c. Inr (align_offset c))"
  have len: "length (?w x) = 16" if "length x = 16" for x
    by (rule init_cmd_read(1) [OF that]) (simp_all add: layout_sizes layout_fields)
  have "(2 :: nat) ^ 5 \<le> ?a" using k by (intro power_increasing) auto
  then have "?a + ?n = ceil_to (32 + ?n) ?a" using aligned_page(4) [OF b] by (intro ceil_to_unique) auto
  then have r': "room c (ceil_to (32 + ?n) (pcie_align c))" and sz: "ceil_to (32 + ?n) (pcie_align c) = ?a + ?n" using r al by auto
  have "\<exists>c' pre x data pad. bind_result (relay_cmd True (16 + ?n) DISPATCH_MASTER ?w c) ?tail = Inr c' \<and> length pre = 16 \<and> length x = 16 \<and> length data = ?n \<and>
    emits c c' (pre @ (?w x @ data) @ pad) \<and> length (pre @ (?w x @ data) @ pad) = ceil_to (32 + ?n) (pcie_align c) \<and>
    pages_of b src (first_page b w) (wc_pages_to_write w) data \<and>
    (\<forall>v. dispatch_view 16 (?w x @ data) = Some v \<longrightarrow> reads (pcie_align c) 16 ex (pre @ (?w x @ data) @ pad) [V_relay True DISPATCH_MASTER v] False)"
    by (rule relay_chunk_emits [where tail = ?tail and initialize = ?w and flush = True, OF r' n _ refl _ len paged_tail_ok [OF b w full src k al r]]) auto
  then obtain c' pre x data pad where c': "bind_result (relay_cmd True (16 + ?n) DISPATCH_MASTER ?w c) ?tail = Inr c'" "length x = 16"
    "emits c c' (pre @ (?w x @ data) @ pad)" "length (pre @ (?w x @ data) @ pad) = ?a + ?n" "pages_of b src (first_page b w) (wc_pages_to_write w) data"
    "\<forall>v. dispatch_view 16 (?w x @ data) = Some v \<longrightarrow> reads ?a 16 ex (pre @ (?w x @ data) @ pad) [V_relay True DISPATCH_MASTER v] False"
    using sz al by metis
  have "wc_pages_to_write w * 1 \<le> ?n" using aligned_page(2) [OF b] by (intro mult_le_mono) simp_all
  then have "wc_pages_to_write w < 2 ^ 30" using n by linarith
  then have pp: "wc_pages_to_write w < 2 ^ 32" by simp
  have "dispatch_view 16 (?w x @ data) = Some (D_write_paged (wb_is_dram b \<noteq> 0) (wc_dst_page_index w) (wc_bank_base_address w)
      (wb_aligned_page_size b) (wc_pages_to_write w) data)"
    by (rule view_write_paged [OF c'(2)])
      (use b w pp aligned_page(6) [OF b] src_offset(5) [OF b w] in \<open>auto simp: buffer_ok_def command_ok_def\<close>)
  then have rd: "reads ?a 16 ex (pre @ (?w x @ data) @ pad) [write_view b w data] False" using c'(6) by (simp add: write_view_def)
  obtain ca c0 where "relay_cmd True (16 + ?n) DISPATCH_MASTER ?w c = Inr ca" "add_buffer_data b w src ca = Inr c0" "c' = align_offset c0"
    using c'(1) by (auto simp: bind_result_Inr)
  then show ?thesis using c'(3-5) rd add_dispatch_write_eq [OF b w n, of c] by (intro exI [of _ c0] exI [of _ "pre @ (?w x @ data) @ pad"] exI [of _ data]) simp
qed

lemma reads_all: "reads al l1 ex ch vs False \<Longrightarrow> device_reads al l1 ex ch = Some vs"
  unfolding reads_def by (drule spec [of _ "[]"]) (simp add: device_reads_def prefetch_walk.simps [of al ex "[]"])

definition issued_waits :: "(u32 \<times> u32) list \<Rightarrow> write_command \<Rightarrow> (u32 \<times> u32) list" where
  "issued_waits waits w = (if wc_issue_wait w then waits else [])"

lemma write_cmd_size:
  assumes b: "buffer_ok b k" and w: "command_ok b w" and h: "host_alignment h = 2 ^ k"
    and sz: "length (issued_waits waits w) * 2 ^ k + (2 ^ k + wc_pages_to_write w * wb_aligned_page_size b) < 2 ^ 31"
  shows "write_cmd_sequence_sizeB h (length waits) w = length (issued_waits waits w) * 2 ^ k + (2 ^ k + wc_pages_to_write w * wb_aligned_page_size b)"
  using sz src_offset(2) [OF b w] h
  by (auto simp: write_cmd_sequence_sizeB_def data_size_bytes_def issued_waits_def add32_def mul32_def mult.commute split: if_splits)

lemma waits_prefix:
  assumes b: "buffer_ok b k" and w: "command_ok b w" and h: "host_alignment h = 2 ^ k" "5 \<le> k" "k \<le> 12" "l1_alignment h = 16"
    and waits: "\<forall>x \<in> set waits. fst x < 2 ^ 32 \<and> snd x < 2 ^ 32"
    and sz: "length (issued_waits waits w) * 2 ^ k + (2 ^ k + wc_pages_to_write w * wb_aligned_page_size b) < 2 ^ 31"
    and new: "\<forall>sz. 2 ^ k dvd sz \<longrightarrow> sz < 2 ^ 31 \<longrightarrow> (\<exists>c. command_new sz = Inr c \<and> fresh_command h sz c)"
  shows "\<exists>c c1 ch1. process_write_buffer command_new h waits b w src = bind_result (add_dispatch_write b w c1) (add_buffer_data b w src) \<and>
    good c \<and> cmd_write_offsetB c = 0 \<and> cmd_sequence_sizeB c = length (issued_waits waits w) * 2 ^ k + (2 ^ k + wc_pages_to_write w * wb_aligned_page_size b) \<and>
    emits c c1 ch1 \<and> length ch1 = length (issued_waits waits w) * 2 ^ k \<and> reads (2 ^ k) 16 False ch1 (map wait_view (issued_waits waits w)) False \<and>
    pcie_align c1 = 2 ^ k \<and> room c1 (2 ^ k + wc_pages_to_write w * wb_aligned_page_size b)"
proof -
  let ?a = "2 ^ k :: nat" and ?n = "wc_pages_to_write w * wb_aligned_page_size b" and ?iw = "issued_waits waits w"
  define S where S: "S = length ?iw * ?a + (?a + ?n)"
  have size: "write_cmd_sequence_sizeB h (length waits) w = S" using write_cmd_size [OF b w h(1) sz] S by simp
  have d: "?a dvd S" "S < 2 ^ 31" using aligned_page(4) [OF b] sz S by auto
  then obtain c where c: "command_new S = Inr c" "fresh_command h S c" using new by blast
  note f = fresh_command_good [OF c(2) h(1-4) d]
  have r: "room c (length ?iw * pcie_align c + (?a + ?n))" using f S by (simp add: room_def)
  have iw: "(if wc_issue_wait w then add_waits waits c else Inr c) = add_waits ?iw c" by (simp add: issued_waits_def)
  have "op_reads False (add_waits ?iw) c (length ?iw * pcie_align c) (map wait_view ?iw) False"
    by (rule add_waits_reads) (use r waits in \<open>auto simp: room_def issued_waits_def\<close>)
  then obtain c1 ch1 where c1: "add_waits ?iw c = Inr c1" "emits c c1 ch1" "length ch1 = length ?iw * ?a" "reads ?a 16 False ch1 (map wait_view ?iw) False"
    using f(4) by (auto simp: op_reads_def)
  have fr: "same_frame c c1" "cmd_write_offsetB c1 = cmd_write_offsetB c + length ?iw * pcie_align c" using c1(2,3) f(4) by (auto simp: emits_def)
  have "pcie_align c1 = ?a" "room c1 (?a + ?n)" using room_after [OF r fr] fr(1) f(4) by (auto simp: same_frame_def)
  moreover have "process_write_buffer command_new h waits b w src = bind_result (add_dispatch_write b w c1) (add_buffer_data b w src)"
    using size c(1) iw c1(1) by (simp add: process_write_buffer_def)
  ultimately show ?thesis using f(1-3) c1(2-4) S by blast
qed

lemma process_write_ok:
  assumes b: "buffer_ok b k" and w: "command_ok b w" and full: "wb_page_size b mod wb_alignment b = 0 \<or> wb_page_size b \<noteq> wb_size b"
    and src: "length src = wb_size b" and h: "host_alignment h = 2 ^ k" "5 \<le> k" "k \<le> 12" "l1_alignment h = 16"
    and n: "wc_pages_to_write w * wb_aligned_page_size b < 2 ^ 30" and waits: "\<forall>x \<in> set waits. fst x < 2 ^ 32 \<and> snd x < 2 ^ 32"
    and sz: "length (issued_waits waits w) * 2 ^ k + (2 ^ k + wc_pages_to_write w * wb_aligned_page_size b) < 2 ^ 31"
    and new: "\<forall>sz. 2 ^ k dvd sz \<longrightarrow> sz < 2 ^ 31 \<longrightarrow> (\<exists>c. command_new sz = Inr c \<and> fresh_command h sz c)"
  shows "\<exists>c data. process_write_buffer command_new h waits b w src = Inr c \<and> pages_of b src (first_page b w) (wc_pages_to_write w) data \<and>
    device_reads (2 ^ k) 16 False (cmd_region c) = Some (map wait_view (issued_waits waits w) @ [write_view b w data])"
proof -
  let ?a = "2 ^ k :: nat" and ?n = "wc_pages_to_write w * wb_aligned_page_size b" and ?iw = "issued_waits waits w"
  define S where S: "S = length ?iw * ?a + (?a + ?n)"
  obtain c c1 ch1 where p: "process_write_buffer command_new h waits b w src = bind_result (add_dispatch_write b w c1) (add_buffer_data b w src)"
    and f: "good c" "cmd_write_offsetB c = 0" "cmd_sequence_sizeB c = S"
    and c1: "emits c c1 ch1" "length ch1 = length ?iw * ?a" "reads ?a 16 False ch1 (map wait_view ?iw) False" "pcie_align c1 = ?a" "room c1 (?a + ?n)"
    using waits_prefix [OF b w h waits sz new, of src] S by blast
  obtain c2 ch2 data where c2: "bind_result (add_dispatch_write b w c1) (add_buffer_data b w src) = Inr c2" "emits c1 (align_offset c2) ch2"
    "length ch2 = ?a + ?n" "pages_of b src (first_page b w) (wc_pages_to_write w) data" "reads ?a 16 False ch2 [write_view b w data] False"
    using paged_chunk [OF b w full src h(2) c1(4) n c1(5)] by blast
  have e: "emits c (align_offset c2) (ch1 @ ch2)" by (rule emits_trans [OF c1(1) c2(2)])
  have "length (cmd_region c2) = S" using e f emits_good [OF e f(1)] by (auto simp: emits_def good_def same_frame_def align_offset_def)
  moreover have "cmd_write_offsetB (align_offset c2) = S" using e c1(2) c2(3) f(2) S by (simp add: emits_def)
  ultimately have region: "cmd_region c2 = ch1 @ ch2" using e f(2) by (simp add: emits_def align_offset_def)
  have "reads ?a 16 False (ch1 @ ch2) (map wait_view ?iw @ [write_view b w data]) False" by (rule reads_append [OF c1(3) c2(5)])
  then have "device_reads ?a 16 False (ch1 @ ch2) = Some (map wait_view ?iw @ [write_view b w data])" by (rule reads_all)
  then show ?thesis using p c2(1,4) region by (intro exI [of _ c2] exI [of _ data]) simp
qed

end
