(* ===== verification/Write_Buffer_Kernel.thy ===== *)
theory Write_Buffer_Kernel
  imports Write_Buffer_Props
begin

text \<open>
  Where the bytes of a write go: the transfers of the dispatch kernel for one command, however
  the data arrives, and for a chain of commands whose pages follow one another.
\<close>

section \<open>Transfers\<close>

lemma all_bytes_simps [simp]: "all_bytes [] = []" "all_bytes (t # ts) = transfer_bytes t @ all_bytes ts"
  "all_bytes (ts @ us) = all_bytes ts @ all_bytes us"
  by (simp_all add: all_bytes_def)

lemma upt_split: "x \<le> n \<Longrightarrow> map f [0..<n] = map f [0..<x] @ map (\<lambda>j. f (x + j)) [0..<n - x]"
  by (rule nth_equalityI) (auto simp: nth_append)

definition placement :: "(nat \<Rightarrow> nat) \<Rightarrow> (nat \<Rightarrow> nat) \<Rightarrow> nat \<Rightarrow> nat \<Rightarrow> byte list \<Rightarrow> ((nat \<times> u32) \<times> byte) list" where
  "placement bank ad ps pos data = map (\<lambda>j. ((bank ((pos + j) div ps), ad ((pos + j) div ps) + (pos + j) mod ps), data ! j)) [0..<length data]"

lemma placement_append: "placement bank ad ps pos (xs @ ys) = placement bank ad ps pos xs @ placement bank ad ps (pos + length xs) ys"
  unfolding placement_def by (rule nth_equalityI) (auto simp: nth_append add.assoc)

lemma write_paged_loop_ok:
  assumes "0 < ps" "ps < 2 ^ 32" "0 < max_burst" "\<forall>a \<in> set avs. 0 < a" "length data \<le> length avs" "off < ps" "ps dvd off + length data"
    "page_id * ps + off + length data \<le> np * ps" "np < 2 ^ 32" "\<forall>p j. p < np \<longrightarrow> j < ps \<longrightarrow> gen p j = (bank p, ad p + j)"
  shows "\<exists>ts. write_paged_loop max_burst gen ps avs page_id off data = Some ts \<and> all_bytes ts = placement bank ad ps (page_id * ps + off) data"
  using assms
proof (induction avs arbitrary: page_id off data)
  case Nil
  then show ?case by (simp add: placement_def)
next
  case (Cons a avs)
  show ?case
  proof (cases data)
    case Nil
    then show ?thesis by (simp add: placement_def)
  next
    case (Cons x0 rest)
    define rem where rem: "rem = ps - off"
    define x where x: "x = min (min a rem) max_burst"
    have r32: "sub32 ps off = rem" using Cons.prems(2,6) rem by (simp add: sub32_small)
    have x': "(if (if rem > a then a else rem) > max_burst then max_burst else (if rem > a then a else rem)) = x" by (simp add: x min_def)
    have xpos: "0 < x" "x \<le> rem" using Cons.prems(3,4,6) rem x by auto
    have "ps \<le> off + length data" using Cons.prems(6,7) Cons by (intro dvd_imp_le) auto
    then have xl: "x \<le> length data" using xpos(2) rem by simp
    have pl: "page_id < np"
    proof -
      have "0 < length data" using Cons by simp
      then have "page_id * ps < np * ps" using Cons.prems(8) by linarith
      then show ?thesis by simp
    qed
    have gen: "gen page_id off = (bank page_id, ad page_id + off)" using Cons.prems(6,10) pl by simp
    have first: "transfer_bytes (gen page_id off, take x data) = placement bank ad ps (page_id * ps + off) (take x data)"
      unfolding transfer_bytes_def placement_def gen using xpos(2) rem Cons.prems(1) by (auto simp: add.assoc)
    let ?q = "if x < rem then page_id else page_id + 1" and ?o = "if x < rem then off + x else 0"
    have pos: "?q * ps + ?o = page_id * ps + off + x" using xpos(2) rem Cons.prems(6) by auto
    have "\<exists>ts. write_paged_loop max_burst gen ps avs ?q ?o (drop x data) = Some ts \<and>
        all_bytes ts = placement bank ad ps (?q * ps + ?o) (drop x data)"
    proof (rule Cons.IH [OF Cons.prems(1-3)])
      show "ps dvd ?o + length (drop x data)"
      proof (cases "x < rem")
        case True
        then show ?thesis using Cons.prems(7) xl by simp
      next
        case False
        then have "off + length data = ps + (?o + length (drop x data))" using xl xpos(2) rem Cons.prems(6) by auto
        then show ?thesis using Cons.prems(7) by simp
      qed
      show "?q * ps + ?o + length (drop x data) \<le> np * ps" using pos Cons.prems(8) xl by simp
    qed (use Cons.prems xpos xl rem in auto)
    then obtain ts where ts: "write_paged_loop max_burst gen ps avs ?q ?o (drop x data) = Some ts"
      "all_bytes ts = placement bank ad ps (page_id * ps + off + x) (drop x data)" using pos by auto
    have o32: "x < rem \<Longrightarrow> add32 off x = off + x" "add32 page_id 1 = page_id + 1"
      using rem Cons.prems(2,9) pl by (auto simp: add32_def)
    have "write_paged_loop max_burst gen ps (a # avs) page_id off data = Some ((gen page_id off, take x data) # ts)"
      using ts(1) o32 unfolding Cons by (simp add: Let_def r32 x' split: if_splits)
    moreover have "all_bytes ((gen page_id off, take x data) # ts) = placement bank ad ps (page_id * ps + off) data"
      using first ts(2) placement_append [of bank ad ps "page_id * ps + off" "take x data" "drop x data"] xl by (simp add: min_absorb2)
    ultimately show ?thesis by blast
  qed
qed

section \<open>One command\<close>

text \<open>The bytes from page \<open>f\<close> of the buffer on: pages go round the banks.\<close>

definition in_banks :: "write_buffer \<Rightarrow> nat \<Rightarrow> byte list \<Rightarrow> ((nat \<times> u32) \<times> byte) list" where
  "in_banks b f data = placement (\<lambda>p. p mod wb_num_banks b) (\<lambda>p. wb_address b + p div wb_num_banks b * wb_aligned_page_size b)
     (wb_aligned_page_size b) (f * wb_aligned_page_size b) data"

lemma get_noc_addr_ok:
  assumes b: "buffer_ok b k" and ps: "wb_aligned_page_size b < 2 ^ 30" and base: "base = wb_address b + q * wb_aligned_page_size b"
    and p: "q * wb_num_banks b + p < wb_num_pages b" and j: "j < wb_aligned_page_size b"
  shows "get_noc_addr (wb_alignment b) (wb_num_banks b) base (wb_aligned_page_size b) p j =
    (p mod wb_num_banks b, base + p div wb_num_banks b * wb_aligned_page_size b + j)"
proof -
  let ?ps = "wb_aligned_page_size b" and ?nb = "wb_num_banks b" and ?np = "wb_num_pages b"
  obtain a where a: "a \<le> 12" "wb_alignment b = 2 ^ a" and top: "wb_address b + ?np * ?ps < 2 ^ 32" and nb: "0 < ?nb"
    using b by (auto simp: buffer_ok_def)
  have "ceil_to ?ps (2 ^ a) = ?ps" by (rule ceil_to_unique [symmetric]) (use aligned_page(3) [OF b] a(2) in auto)
  then have al: "align_u32 ?ps (wb_alignment b) = ?ps" using align_pow2 [OF _ a(1), of ?ps] ps a(2) by simp
  have "q + p div ?nb = (p + q * ?nb) div ?nb" using nb by simp
  also have "\<dots> \<le> p + q * ?nb" by (rule div_le_dividend)
  finally have "(q + p div ?nb + 1) * ?ps \<le> ?np * ?ps" using p by (intro mult_le_mono1) simp
  then have small: "base + p div ?nb * ?ps + j < 2 ^ 32" using base top j by (simp add: distrib_right)
  have "p - p div ?nb * ?nb = p mod ?nb" by (rule minus_div_mult_eq_mod)
  then show ?thesis using al small by (simp add: get_noc_addr_def Let_def mul32_def add32_def add.commute add.left_commute)
qed

lemma kernel_command_ok:
  assumes b: "buffer_ok b k" and w: "command_ok b w" and n: "wc_pages_to_write w * wb_aligned_page_size b < 2 ^ 30"
    and d: "length data = wc_pages_to_write w * wb_aligned_page_size b"
    and avs: "0 < max_burst" "\<forall>a \<in> set avs. 0 < a" "length data \<le> length avs"
  shows "\<exists>ts. view_transfers max_burst b avs (write_view b w data) = Some ts \<and> all_bytes ts = in_banks b (first_page b w) data"
proof -
  let ?ps = "wb_aligned_page_size b" and ?nb = "wb_num_banks b" and ?m = "wc_pages_to_write w" and ?i = "wc_dst_page_index w"
  let ?base = "wc_bank_base_address w" and ?gen = "get_noc_addr (wb_alignment b) (wb_num_banks b) (wc_bank_base_address w) (wb_aligned_page_size b)"
  have m: "0 < ?m" using w by (simp add: command_ok_def)
  obtain q where q: "?base = wb_address b + q * ?ps" using w by (auto simp: command_ok_def)
  have fp: "first_page b w = q * ?nb + ?i" by (rule first_page_eq [OF b q])
  have le: "q * ?nb + ?i + ?m \<le> wb_num_pages b" using w fp by (simp add: command_ok_def)
  note ap = aligned_page [OF b]
  have nb: "0 < ?nb" using b by (simp add: buffer_ok_def)
  have "1 * ?ps \<le> ?m * ?ps" using m by (intro mult_le_mono1) simp
  then have ps: "?ps < 2 ^ 30" using n by linarith
  have "?m * 1 \<le> ?m * ?ps" using ap(2) by (intro mult_le_mono2) simp
  then have "?m < 2 ^ 30" using n by linarith
  then have last: "?i + ?m < 2 ^ 32" using w by (simp add: command_ok_def)
  have gen: "?gen p j = (p mod ?nb, ?base + p div ?nb * ?ps + j)" if "p < ?i + ?m" "j < ?ps" for p j
    using get_noc_addr_ok [OF b ps q _ that(2), of p] that(1) le by simp
  have "\<exists>ts. write_paged_loop max_burst ?gen ?ps avs ?i 0 data = Some ts \<and>
      all_bytes ts = placement (\<lambda>p. p mod ?nb) (\<lambda>p. ?base + p div ?nb * ?ps) ?ps (?i * ?ps + 0) data"
    by (rule write_paged_loop_ok [where np = "?i + ?m"]) (use avs ap(2) ps d last gen in \<open>auto simp: distrib_right\<close>)
  then obtain ts where ts: "write_paged_loop max_burst ?gen ?ps avs ?i 0 data = Some ts"
    "all_bytes ts = placement (\<lambda>p. p mod ?nb) (\<lambda>p. ?base + p div ?nb * ?ps) ?ps (?i * ?ps) data" by auto
  have "placement (\<lambda>p. p mod ?nb) (\<lambda>p. ?base + p div ?nb * ?ps) ?ps (?i * ?ps) data = in_banks b (first_page b w) data"
    using ap(2) nb unfolding in_banks_def placement_def fp q
    by (intro map_cong refl) (simp add: distrib_right add.assoc)
  moreover have "take (mul32 ?m ?ps) data = data" using d n by (simp add: mul32_def)
  ultimately show ?thesis using ts by (simp add: write_view_def process_write_paged_def)
qed

section \<open>Chains of commands\<close>

fun page_chain :: "write_buffer \<Rightarrow> nat \<Rightarrow> write_command list \<Rightarrow> bool" where
  "page_chain b f [] \<longleftrightarrow> f = wb_num_pages b"
| "page_chain b f (w # ws) \<longleftrightarrow> command_ok b w \<and> first_page b w = f \<and> page_chain b (f + wc_pages_to_write w) ws"

text \<open>Commands of a buffer whose data and waits fit below the limits of the builder.\<close>

definition commands_small :: "write_buffer \<Rightarrow> nat \<Rightarrow> nat \<Rightarrow> write_command list \<Rightarrow> bool" where
  "commands_small b k waits ws \<longleftrightarrow> (\<forall>w \<in> set ws. wc_pages_to_write w * wb_aligned_page_size b < 2 ^ 30 \<and>
     waits * 2 ^ k + 2 ^ k + wc_pages_to_write w * wb_aligned_page_size b < 2 ^ 31)"

text \<open>Where a command is built, and the data the dispatch kernel finds in each turn of its loop.\<close>

definition env_ok :: "hal_values \<Rightarrow> nat \<Rightarrow> nat \<Rightarrow> (u32 \<Rightarrow> tt_error + device_command) \<times> u32 list \<Rightarrow> bool" where
  "env_ok h k n e \<longleftrightarrow> (\<forall>sz. 2 ^ k dvd sz \<longrightarrow> sz < 2 ^ 31 \<longrightarrow> (\<exists>c. fst e sz = Inr c \<and> fresh_command h sz c)) \<and>
     (\<forall>a \<in> set (snd e). 0 < a) \<and> n \<le> length (snd e)"

lemma run_command_ok:
  assumes b: "buffer_ok b k" and w: "command_ok b w" and full: "wb_page_size b mod wb_alignment b = 0 \<or> wb_page_size b \<noteq> wb_size b"
    and src: "length src = wb_size b" and h: "host_alignment h = 2 ^ k" "5 \<le> k" "k \<le> 12" "l1_alignment h = 16"
    and waits: "\<forall>x \<in> set waits. fst x < 2 ^ 32 \<and> snd x < 2 ^ 32" and sz: "commands_small b k (length waits) [w]"
    and e: "env_ok h k (wb_num_pages b * wb_aligned_page_size b) (command_new, avs)" and burst: "0 < max_burst"
  shows "\<exists>ts data. run_command max_burst h waits b src command_new avs w = Some ts \<and>
    pages_of b src (first_page b w) (wc_pages_to_write w) data \<and> all_bytes ts = in_banks b (first_page b w) data"
proof -
  let ?ps = "wb_aligned_page_size b" and ?m = "wc_pages_to_write w"
  have n: "?m * ?ps < 2 ^ 30" and total: "length waits * 2 ^ k + 2 ^ k + ?m * ?ps < 2 ^ 31" using sz by (auto simp: commands_small_def)
  have "length (issued_waits waits w) \<le> length waits" by (simp add: issued_waits_def)
  then have "length (issued_waits waits w) * 2 ^ k \<le> length waits * 2 ^ k" by (rule mult_le_mono1)
  then have total': "length (issued_waits waits w) * 2 ^ k + (2 ^ k + ?m * ?ps) < 2 ^ 31" using total by linarith
  have new: "\<forall>sz. 2 ^ k dvd sz \<longrightarrow> sz < 2 ^ 31 \<longrightarrow> (\<exists>c. command_new sz = Inr c \<and> fresh_command h sz c)"
    and avs: "\<forall>a \<in> set avs. 0 < a" "wb_num_pages b * ?ps \<le> length avs" using e by (auto simp: env_ok_def)
  obtain c data where c: "process_write_buffer command_new h waits b w src = Inr c" "pages_of b src (first_page b w) ?m data"
    "device_reads (2 ^ k) 16 False (cmd_region c) = Some (map wait_view (issued_waits waits w) @ [write_view b w data])"
    using process_write_ok [OF b w full src h n waits total' new] by blast
  have d: "length data = ?m * ?ps" using c(2) by (simp add: pages_of_def)
  have "?m \<le> wb_num_pages b" using w by (simp add: command_ok_def)
  then have "?m * ?ps \<le> wb_num_pages b * ?ps" by (rule mult_le_mono1)
  then have "length data \<le> length avs" using avs(2) d by linarith
  then obtain ts where ts: "view_transfers max_burst b avs (write_view b w data) = Some ts" "all_bytes ts = in_banks b (first_page b w) data"
    using kernel_command_ok [OF b w n d burst avs(1)] by blast
  have "map_option concat (those (map (view_transfers max_burst b avs) (map wait_view ys @ [write_view b w data]))) = Some ts" for ys
    using ts(1) by (induction ys) (auto simp: wait_view_def)
  then have "run_command max_burst h waits b src command_new avs w = Some ts"
    unfolding run_command_def using c(1,3) h(1,4) by (simp only: sum.case bind.bind_lunit)
  then show ?thesis using c(2) ts(2) by blast
qed

lemma in_banks_append:
  "length xs = m * wb_aligned_page_size b \<Longrightarrow> in_banks b f (xs @ ys) = in_banks b f xs @ in_banks b (f + m) ys"
  by (simp add: in_banks_def placement_append distrib_right)

lemma pages_of_append:
  assumes xs: "pages_of b src f m xs" and ys: "pages_of b src (f + m) l ys" and le: "wb_page_size b \<le> wb_aligned_page_size b"
  shows "pages_of b src f (m + l) (xs @ ys)"
proof -
  let ?ps = "wb_aligned_page_size b" and ?p = "wb_page_size b"
  have lx: "length xs = m * ?ps" "length ys = l * ?ps" using xs ys by (auto simp: pages_of_def)
  have "take ?p (drop (i * ?ps) (xs @ ys)) = take ?p (drop ((f + i) * ?p) src)" if i: "i < m + l" for i
  proof (cases "i < m")
    case True
    then have "Suc i * ?ps \<le> m * ?ps" by (intro mult_le_mono1) simp
    then have "i * ?ps + ?p \<le> length xs" using lx le by simp
    then show ?thesis using xs True by (simp add: pages_of_def)
  next
    case False
    then obtain j where j: "i = m + j" "j < l" using i by (metis add_less_cancel_left le_iff_add not_less)
    then show ?thesis using ys lx by (simp add: pages_of_def distrib_right add.assoc)
  qed
  then show ?thesis using lx by (simp add: pages_of_def distrib_right)
qed

lemma run_commands_ok:
  assumes b: "buffer_ok b k" and full: "wb_page_size b mod wb_alignment b = 0 \<or> wb_page_size b \<noteq> wb_size b"
    and src: "length src = wb_size b" and h: "host_alignment h = 2 ^ k" "5 \<le> k" "k \<le> 12" "l1_alignment h = 16"
    and waits: "\<forall>x \<in> set waits. fst x < 2 ^ 32 \<and> snd x < 2 ^ 32" and burst: "0 < max_burst"
    and ws: "page_chain b f ws" "commands_small b k (length waits) ws" "length ws \<le> length es"
      "\<forall>e \<in> set es. env_ok h k (wb_num_pages b * wb_aligned_page_size b) e"
  shows "\<exists>ts data. run_commands max_burst h waits b src es ws = Some ts \<and> f \<le> wb_num_pages b \<and>
    pages_of b src f (wb_num_pages b - f) data \<and> all_bytes ts = in_banks b f data"
  using ws
proof (induction ws arbitrary: f es)
  case Nil
  then show ?case by (auto simp: pages_of_def in_banks_def placement_def)
next
  case (Cons w ws)
  obtain command_new avs es' where es: "es = (command_new, avs) # es'" using Cons.prems(3) by (cases es) auto
  let ?m = "wc_pages_to_write w"
  have w: "command_ok b w" "first_page b w = f" "page_chain b (f + ?m) ws" using Cons.prems(1) by auto
  have small: "commands_small b k (length waits) [w]" "commands_small b k (length waits) ws" using Cons.prems(2) by (auto simp: commands_small_def)
  have e: "env_ok h k (wb_num_pages b * wb_aligned_page_size b) (command_new, avs)" using Cons.prems(4) es by simp
  obtain ts data where ts: "run_command max_burst h waits b src command_new avs w = Some ts" "pages_of b src f ?m data" "all_bytes ts = in_banks b f data"
    using run_command_ok [OF b w(1) full src h waits small(1) e burst] w(2) by auto
  obtain us rest where us: "run_commands max_burst h waits b src es' ws = Some us" "f + ?m \<le> wb_num_pages b"
    "pages_of b src (f + ?m) (wb_num_pages b - (f + ?m)) rest" "all_bytes us = in_banks b (f + ?m) rest"
    using Cons.IH [OF w(3) small(2), of es'] Cons.prems(3,4) es by auto
  have "pages_of b src f (?m + (wb_num_pages b - (f + ?m))) (data @ rest)" by (rule pages_of_append [OF ts(2) us(3) aligned_page(1) [OF b]])
  moreover have "in_banks b f (data @ rest) = all_bytes (ts @ us)"
    using in_banks_append [of data ?m b f rest] ts(2,3) us(4) by (simp add: pages_of_def)
  ultimately show ?case using ts(1) us(1,2) es by (intro exI [of _ "ts @ us"] exI [of _ "data @ rest"]) simp
qed

end
