(* ===== verification/Write_Buffer_Theorems.thy ===== *)
theory Write_Buffer_Theorems
  imports Write_Buffer_Kernel
begin

text \<open>
  Splitting a buffer into commands: the pages of the commands follow one another up to the end
  of the buffer, every command fits the prefetch kernel when one sub-device is waited for, and
  the bytes of the user reach the banks. Where this fails.
\<close>

section \<open>The loop over the pages\<close>

definition whole_pages :: "write_buffer \<Rightarrow> write_plan" where
  "whole_pages b = \<lparr>wp_partial = False, wp_page_size = wb_aligned_page_size b, wp_total_pages = wb_num_pages b, wp_max_pages = wb_num_pages b\<rparr>"

definition position :: "write_buffer \<Rightarrow> nat \<Rightarrow> u32 \<Rightarrow> u32 \<Rightarrow> bool" where
  "position b f idx base \<longleftrightarrow> f \<le> wb_num_pages b \<and> (\<exists>q. base = wb_address b + q * wb_aligned_page_size b \<and> q * wb_num_banks b + idx = f)"

text \<open>The bytes a command takes with one wait, which only the first command has.\<close>

definition one_wait_size :: "write_buffer \<Rightarrow> nat \<Rightarrow> write_command \<Rightarrow> nat" where
  "one_wait_size b k w = (if wc_issue_wait w then 2 * 2 ^ k else 2 ^ k) + wc_pages_to_write w * wb_aligned_page_size b"

lemma num_pages_bound:
  assumes "buffer_ok b k"
  shows "wb_num_pages b < 2 ^ 32" "wb_address b + wb_num_pages b * wb_aligned_page_size b < 2 ^ 32"
proof -
  show top: "wb_address b + wb_num_pages b * wb_aligned_page_size b < 2 ^ 32" using assms by (simp add: buffer_ok_def)
  have "wb_num_pages b * 1 \<le> wb_num_pages b * wb_aligned_page_size b" using aligned_page(2) [OF assms] by (intro mult_le_mono2) simp
  then show "wb_num_pages b < 2 ^ 32" using top by linarith
qed

lemma sdiv_of_nat:
  shows "s < t \<Longrightarrow> 0 < c \<Longrightarrow> (int s - int t) sdiv int c \<le> 0" "t \<le> s \<Longrightarrow> 0 < c \<Longrightarrow> (int s - int t) sdiv int c = int ((s - t) div c)"
proof -
  assume "s < t" "0 < c"
  moreover from this have "0 \<le> (int t - int s) div int c" by (simp add: pos_imp_zdiv_nonneg_iff)
  ultimately show "(int s - int t) sdiv int c \<le> 0" by (simp add: signed_divide_int_def)
next
  assume "t \<le> s" "0 < c"
  then have "int s - int t = int (s - t)" by simp
  moreover have "int n sdiv int c = int n div int c" for n using \<open>0 < c\<close> by (cases "n = 0") (simp_all add: signed_divide_int_def)
  ultimately show "(int s - int t) sdiv int c = int ((s - t) div c)" by (simp only: zdiv_int)
qed

lemma pages_available_spec:
  assumes h: "host_alignment h = 2 ^ k" "k \<le> 12" and M: "M < 2 ^ 30" and p: "0 < wp_page_size p" "wp_page_size p < 2 ^ 30"
    and off_def: "off = (if issue_wait then 2 * 2 ^ k else 2 ^ k)"
  shows "0 < pages_available h M p issue_wait space \<Longrightarrow> off + nat (pages_available h M p issue_wait space) * wp_page_size p \<le> min space M"
    "off + wp_page_size p \<le> min space M \<Longrightarrow> 0 < pages_available h M p issue_wait space"
    "off \<le> min space M \<Longrightarrow> pages_available h M p issue_wait space = int ((min space M - off) div wp_page_size p)"
proof -
  let ?s = "min space M" and ?ps = "wp_page_size p" and ?av = "pages_available h M p issue_wait space"
  have "(2 :: nat) ^ k \<le> 2 ^ 12" using h(2) by (intro power_increasing) auto
  then have k: "(2 :: nat) ^ k \<le> 4096" by simp
  have "(if issue_wait then mul32 (host_alignment h) 2 else host_alignment h) = off" using h(1) k by (simp add: off_def mul32_def)
  moreover have "int32 ?s = int ?s" "int32 off = int off" "int32 ?ps = int ?ps" using M p k by (auto simp: int32_def off_def)
  ultimately have av: "?av = (int ?s - int off) sdiv int ?ps" by (simp add: pages_available_def Let_def)
  have neg: "?av \<le> 0" if "?s < off" using sdiv_of_nat(1) [OF that p(1)] av by simp
  show pos: "?av = int ((?s - off) div ?ps)" if "off \<le> ?s" using sdiv_of_nat(2) [OF that p(1)] av by simp
  show "off + nat ?av * ?ps \<le> ?s" if "0 < ?av"
  proof -
    have le: "off \<le> ?s" using neg that by (metis not_less)
    have "(?s - off) div ?ps * ?ps \<le> ?s - off" by simp
    then have "nat ?av * ?ps \<le> ?s - off" using pos [OF le] by (simp only: nat_int)
    then show ?thesis using le by (simp only: le_diff_conv2 add.commute)
  qed
  show "0 < ?av" if t: "off + ?ps \<le> ?s"
  proof -
    have le: "off \<le> ?s" "?ps \<le> ?s - off" using t by linarith+
    then have "0 < (?s - off) div ?ps" using p(1) by (simp only: div_greater_zero_iff)
    then show ?thesis unfolding pos [OF le(1)] by (simp only: of_nat_0_less_iff)
  qed
qed

lemma next_write_ok:
  assumes b: "buffer_ok b k" and h: "host_alignment h = 2 ^ k" "k \<le> 12" and M: "M < 2 ^ 30" "2 * 2 ^ k + wb_aligned_page_size b \<le> M"
    and pos: "position b f idx base" and f: "f < wb_num_pages b"
  shows "M \<le> space \<longrightarrow> next_write h M b (whole_pages b) space (wb_num_pages b - f) idx base \<noteq> None"
    "next_write h M b (whole_pages b) space (wb_num_pages b - f) idx base = Some w \<longrightarrow>
      command_ok b w \<and> first_page b w = f \<and> wc_issue_wait w = (f = 0) \<and> one_wait_size b k w \<le> M \<and>
      position b (f + wc_pages_to_write w) (wc_dst_page_index w + wc_pages_to_write w) (wc_bank_base_address w)"
proof -
  let ?ps = "wb_aligned_page_size b" and ?np = "wb_num_pages b" and ?nb = "wb_num_banks b" and ?p = "whole_pages b"
  let ?wait = "idx = 0 \<and> base = wb_address b"
  define av where av: "av = pages_available h M ?p ?wait space"
  note ap = aligned_page [OF b] and np = num_pages_bound [OF b]
  have nb: "0 < ?nb" "?nb \<le> 2 ^ 16" using b by (auto simp: buffer_ok_def)
  obtain q where q: "base = wb_address b + q * ?ps" "q * ?nb + idx = f" using pos by (auto simp: position_def)
  have wait: "?wait \<longleftrightarrow> f = 0" using q ap(2) nb by auto
  have ps: "wp_page_size ?p = ?ps" "?ps < 2 ^ 30" using M by (auto simp: whole_pages_def)
  note avail = pages_available_spec [of h k M ?p _ ?wait space, OF h M(1) _ _ refl, unfolded ps(1), OF ap(2) ps(2), folded av]
  show "M \<le> space \<longrightarrow> next_write h M b ?p space (?np - f) idx base \<noteq> None"
  proof
    assume "M \<le> space"
    then have "0 < av" by (intro avail(2)) (use M in auto)
    then show "next_write h M b ?p space (?np - f) idx base \<noteq> None" by (simp add: next_write_def Let_def av)
  qed
  define n where n: "n = min (min (nat av) ?np) (?np - f)"
  define base' idx' where new: "base' = (if idx > 0xFFFF then add32 base (mul32 (idx div ?nb) ?ps) else base)"
    "idx' = (if idx > 0xFFFF then idx mod ?nb else idx)"
  have eq: "next_write h M b ?p space (?np - f) idx base =
      (if av \<le> 0 then None else Some \<lparr>wc_issue_wait = ?wait, wc_bank_base_address = base', wc_padded_page_size = ?ps, wc_dst_page_index = idx', wc_pages_to_write = n\<rparr>)"
    unfolding next_write_def Let_def av [symmetric] n new by (simp add: whole_pages_def)
  have moved: "\<exists>q'. base' = wb_address b + q' * ?ps \<and> q' * ?nb + idx' = f"
  proof (cases "idx > 0xFFFF")
    case True
    have "q + idx div ?nb = f div ?nb" using q(2) nb(1) by (metis add.commute div_mult_self3 mult.commute not_less_zero)
    also have "\<dots> \<le> ?np" using f div_le_dividend [of f ?nb] by linarith
    finally have "(q + idx div ?nb) * ?ps \<le> ?np * ?ps" by (rule mult_le_mono1)
    then have "wb_address b + (q * ?ps + idx div ?nb * ?ps) < 2 ^ 32" using np(2) by (simp add: distrib_right)
    then have "base' = wb_address b + (q + idx div ?nb) * ?ps" using True q(1) by (simp add: new add32_def mul32_def distrib_right add.assoc)
    moreover have "(q + idx div ?nb) * ?nb + idx' = f" using True q(2) by (simp add: new distrib_right add.assoc)
    ultimately show ?thesis by blast
  qed (use q new in auto)
  have small: "idx' \<le> 0xFFFF" using nb mod_less_divisor [OF nb(1), of idx] by (auto simp: new)
  show "next_write h M b ?p space (?np - f) idx base = Some w \<longrightarrow>
      command_ok b w \<and> first_page b w = f \<and> wc_issue_wait w = (f = 0) \<and> one_wait_size b k w \<le> M \<and>
      position b (f + wc_pages_to_write w) (wc_dst_page_index w + wc_pages_to_write w) (wc_bank_base_address w)"
  proof
    assume s: "next_write h M b ?p space (?np - f) idx base = Some w"
    then have a: "0 < av" and w: "w = \<lparr>wc_issue_wait = ?wait, wc_bank_base_address = base', wc_padded_page_size = ?ps, wc_dst_page_index = idx', wc_pages_to_write = n\<rparr>"
      unfolding eq by (auto split: if_splits)
    obtain q' where q': "base' = wb_address b + q' * ?ps" "q' * ?nb + idx' = f" using moved by blast
    have fp: "first_page b w = f" using first_page_eq [OF b, of w q'] q' w by simp
    have n': "0 < n" "f + n \<le> ?np" "n \<le> nat av" using n a f by auto
    have "n * ?ps \<le> nat av * ?ps" using n'(3) by (rule mult_le_mono1)
    moreover have "(if ?wait then 2 * 2 ^ k else 2 ^ k) + nat av * ?ps \<le> M" using avail(1) [OF a] by (simp only: min.bounded_iff)
    ultimately have "(if ?wait then 2 * 2 ^ k else 2 ^ k) + n * ?ps \<le> M" by linarith
    then have "one_wait_size b k w \<le> M" using w by (simp only: one_wait_size_def write_command.select_convs)
    then show "command_ok b w \<and> first_page b w = f \<and> wc_issue_wait w = (f = 0) \<and> one_wait_size b k w \<le> M \<and>
      position b (f + wc_pages_to_write w) (wc_dst_page_index w + wc_pages_to_write w) (wc_bank_base_address w)"
      using w fp n' q' small wait by (auto simp: command_ok_def position_def)
  qed
qed

text \<open>Each turn with room for a whole command writes a page at least, so as many such turns as pages are enough.\<close>

definition first_waits :: "nat \<Rightarrow> write_command list \<Rightarrow> bool" where
  "first_waits f ws \<longleftrightarrow> (\<forall>i < length ws. wc_issue_wait (ws ! i) \<longleftrightarrow> f = 0 \<and> i = 0)"

lemma enqueue_loop_ok:
  assumes b: "buffer_ok b k" and h: "host_alignment h = 2 ^ k" "k \<le> 12" and M: "M < 2 ^ 30" "2 * 2 ^ k + wb_aligned_page_size b \<le> M"
    and "position b f idx base" "wb_num_pages b - f \<le> length (filter (\<lambda>s. M \<le> s) spaces)"
  shows "\<exists>ws. enqueue_write_loop h M b (whole_pages b) spaces (wb_num_pages b - f) idx base = Some ws \<and> page_chain b f ws \<and>
    (\<forall>w \<in> set ws. one_wait_size b k w \<le> M) \<and> first_waits f ws \<and> length ws \<le> wb_num_pages b - f"
  using assms(6,7)
proof (induction spaces arbitrary: f idx base)
  case Nil
  then show ?case by (simp add: position_def first_waits_def)
next
  case (Cons space spaces)
  let ?np = "wb_num_pages b"
  show ?case
  proof (cases "f = ?np")
    case True
    then show ?thesis by (simp add: first_waits_def)
  next
    case False
    then have f: "f < ?np" using Cons.prems(1) by (simp add: position_def)
    then obtain l where l: "?np - f = Suc l" by (metis Suc_diff_Suc)
    note nw = next_write_ok [OF b h M Cons.prems(1) f, of space]
    show ?thesis
    proof (cases "next_write h M b (whole_pages b) space (?np - f) idx base")
      case None
      then have "?np - f \<le> length (filter (\<lambda>s. M \<le> s) spaces)" using nw(1) Cons.prems(2) by (auto split: if_splits)
      then show ?thesis using Cons.IH [OF Cons.prems(1)] None l by simp
    next
      case (Some w)
      let ?n = "wc_pages_to_write w"
      have w: "command_ok b w" "first_page b w = f" "wc_issue_wait w = (f = 0)" "one_wait_size b k w \<le> M"
        "position b (f + ?n) (wc_dst_page_index w + ?n) (wc_bank_base_address w)" using nw(2) [of w] Some by auto
      have n: "0 < ?n" "f + ?n \<le> ?np" using w(1,2) by (auto simp: command_ok_def)
      have "?np - (f + ?n) \<le> length (filter (\<lambda>s. M \<le> s) spaces)" using Cons.prems(2) n by (auto split: if_splits)
      then obtain ws where ws: "enqueue_write_loop h M b (whole_pages b) spaces (?np - (f + ?n)) (wc_dst_page_index w + ?n) (wc_bank_base_address w) = Some ws"
        "page_chain b (f + ?n) ws" "\<forall>w \<in> set ws. one_wait_size b k w \<le> M" "first_waits (f + ?n) ws" "length ws \<le> ?np - (f + ?n)"
        using Cons.IH [OF w(5)] by blast
      have "wc_dst_page_index w \<le> f" using w(2) by (simp add: first_page_def)
      then have a: "add32 (wc_dst_page_index w) ?n = wc_dst_page_index w + ?n" "sub32 (?np - f) ?n = ?np - (f + ?n)"
        using n num_pages_bound(1) [OF b] by (simp_all add: add32_small sub32_small)
      have "enqueue_write_loop h M b (whole_pages b) (space # spaces) (?np - f) idx base = Some (w # ws)" using Some ws(1) a l by simp
      moreover have "first_waits f (w # ws)" using w(3) ws(4) n(1) by (auto simp: first_waits_def nth_Cons split: nat.split)
      ultimately show ?thesis using w(1,2,4) ws(2,3,5) n by (intro exI [of _ "w # ws"]) auto
    qed
  qed
qed

lemma plan_whole_pages:
  assumes h: "host_alignment h = 2 ^ k" "k \<le> 12" and M: "M < 2 ^ 30" "2 * 2 ^ k + wb_aligned_page_size b \<le> M"
  shows "write_plan_new h M b = Some (Inr (whole_pages b))"
proof -
  have "(2 :: nat) ^ k \<le> 2 ^ 12" using h(2) by (intro power_increasing) auto
  then have "sub32 M (mul32 (host_alignment h) 2) = M - 2 * 2 ^ k" using h(1) M by (simp add: mul32_small sub32_small)
  moreover have "\<not> wb_aligned_page_size b > M - 2 * 2 ^ k" using M(2) by linarith
  ultimately show ?thesis by (simp add: write_plan_new_def Let_def whole_pages_def)
qed

lemma enqueue_write_ok:
  assumes b: "buffer_ok b k" and h: "host_alignment h = 2 ^ k" "k \<le> 12" and M: "M < 2 ^ 30" "2 * 2 ^ k + wb_aligned_page_size b \<le> M"
    and sp: "wb_num_pages b \<le> length (filter (\<lambda>s. M \<le> s) spaces)"
  shows "\<exists>ws. enqueue_write_buffer h M b spaces = Some (Inr ws) \<and> page_chain b 0 ws \<and>
    (\<forall>w \<in> set ws. one_wait_size b k w \<le> M) \<and> first_waits 0 ws \<and> length ws \<le> wb_num_pages b"
proof -
  note plan_whole_pages [OF h M]
  moreover have "position b 0 0 (wb_address b)" by (auto simp: position_def intro: exI [of _ 0])
  ultimately show ?thesis using enqueue_loop_ok [OF b h M, of 0 0 "wb_address b" spaces] sp
    by (auto simp: enqueue_write_buffer_def whole_pages_def)
qed

lemma page_chain_pages:
  "page_chain b f ws \<Longrightarrow> f \<le> wb_num_pages b \<and> concat (map (\<lambda>w. [first_page b w..<first_page b w + wc_pages_to_write w]) ws) = [f..<wb_num_pages b]"
proof (induction ws arbitrary: f)
  case (Cons w ws)
  let ?n = "wc_pages_to_write w"
  have w: "first_page b w = f" "f + ?n \<le> wb_num_pages b" using Cons.prems by (auto simp: command_ok_def)
  have "[f..<wb_num_pages b] = [f..<f + ?n] @ [f + ?n..<wb_num_pages b]"
    using upt_add_eq_append [of f "f + ?n" "wb_num_pages b - (f + ?n)"] w(2) by simp
  then show ?case using Cons.IH [of "f + ?n"] Cons.prems w by simp
qed simp

lemma commands_fit:
  assumes b: "buffer_ok b k" and h: "host_alignment h = 2 ^ k" and M: "M < 2 ^ 30" and w: "command_ok b w" and sz: "one_wait_size b k w \<le> M"
  shows "write_cmd_sequence_sizeB h 1 w = one_wait_size b k w"
proof -
  have "length (issued_waits [(0, 0)] w) * 2 ^ k + (2 ^ k + wc_pages_to_write w * wb_aligned_page_size b) = one_wait_size b k w"
    by (simp add: issued_waits_def one_wait_size_def)
  then show ?thesis using write_cmd_size [OF b w h, of "[(0, 0)]"] sz M by simp
qed

lemma page_chain_commands: "page_chain b f ws \<Longrightarrow> w \<in> set ws \<Longrightarrow> command_ok b w"
  by (induction ws arbitrary: f) auto

text \<open>
  C13: Splitting an interleaved buffer whose pages fit into a command: the loop of
  \<open>enqueue_write_buffer\<close> ends once the issue queue has had room for a largest command as often
  as the buffer has pages. The commands have the pages of the buffer in order, each exactly once,
  also when the 16 bits of the page index of a command overflow; only the first command waits
  for the workers; and with one sub-device to wait for every command fits the prefetch kernel.
\<close>

theorem write_buffer_split:
  assumes "buffer_ok b k" "host_alignment h = 2 ^ k" "k \<le> 12" "M < 2 ^ 30" "2 * 2 ^ k + wb_aligned_page_size b \<le> M"
    and "wb_num_pages b \<le> length (filter (\<lambda>s. M \<le> s) spaces)"
  shows "\<exists>ws. enqueue_write_buffer h M b spaces = Some (Inr ws) \<and>
    concat (map (\<lambda>w. [first_page b w..<first_page b w + wc_pages_to_write w]) ws) = [0..<wb_num_pages b] \<and>
    (\<forall>i < length ws. wc_issue_wait (ws ! i) \<longleftrightarrow> i = 0) \<and>
    (\<forall>w \<in> set ws. wc_dst_page_index w < 2 ^ 16 \<and> 0 < wc_pages_to_write w \<and> write_cmd_sequence_sizeB h 1 w \<le> M)"
proof -
  obtain ws where ws: "enqueue_write_buffer h M b spaces = Some (Inr ws)" "page_chain b 0 ws" "\<forall>w \<in> set ws. one_wait_size b k w \<le> M" "first_waits 0 ws"
    using enqueue_write_ok [OF assms] by blast
  have "wc_dst_page_index w < 2 ^ 16 \<and> 0 < wc_pages_to_write w \<and> write_cmd_sequence_sizeB h 1 w \<le> M" if w: "w \<in> set ws" for w
    using page_chain_commands [OF ws(2) w] commands_fit [OF assms(1,2,4), of w] ws(3) w by (auto simp: command_ok_def)
  then show ?thesis using ws page_chain_pages [OF ws(2)] by (auto simp: first_waits_def)
qed

definition example_buffer :: "u32 \<Rightarrow> u64 \<Rightarrow> write_buffer" where
  "example_buffer page_size sz = \<lparr>wb_address = 4096, wb_page_size = page_size, wb_size = sz, wb_alignment = 32, wb_is_dram = 1, wb_num_banks = 3\<rparr>"

lemma example_buffer_aligned:
  assumes "0 < p" "p < 2 ^ 31"
  shows "wb_aligned_page_size (example_buffer p sz) = ceil_to p 32"
  using align_pow2 [of p 5] assms by (simp add: wb_aligned_page_size_def example_buffer_def)

lemma example_buffer_ok:
  assumes "0 < p" "p < 2 ^ 20" "n < 2 ^ 10"
  shows "buffer_ok (example_buffer p (n * p)) 5" "wb_num_pages (example_buffer p (n * p)) = n"
proof -
  have "n * p < 2 ^ 10 * 2 ^ 20" using assms by (intro mult_strict_mono) auto
  then show np: "wb_num_pages (example_buffer p (n * p)) = n" using assms by (simp add: wb_num_pages_def example_buffer_def)
  have "ceil_to p 32 < p + 32" by (rule ceil_to_props(3)) simp
  then have "ceil_to p 32 \<le> 2 ^ 20 + 32" using assms(2) by simp
  then have "n * ceil_to p 32 \<le> 2 ^ 10 * (2 ^ 20 + 32)" using assms(3) by (intro mult_le_mono) auto
  then show "buffer_ok (example_buffer p (n * p)) 5"
    using assms np example_buffer_aligned [of p "n * p"] by (auto simp: buffer_ok_def example_buffer_def intro!: exI [of _ 5])
qed

theorem write_buffer_split_witness:
  "\<exists>ws. enqueue_write_buffer (example_hal 32) 4096 (example_buffer 1000 5000) [100, 4096, 5000, 4096, 8000, 4096] = Some (Inr ws) \<and>
    concat (map (\<lambda>w. [first_page (example_buffer 1000 5000) w..<first_page (example_buffer 1000 5000) w + wc_pages_to_write w]) ws) = [0..<5] \<and>
    (\<forall>w \<in> set ws. write_cmd_sequence_sizeB (example_hal 32) 1 w \<le> 4096)"
proof -
  have b: "buffer_ok (example_buffer 1000 5000) 5" "wb_num_pages (example_buffer 1000 5000) = 5" using example_buffer_ok [of 1000 5] by simp_all
  have "wb_aligned_page_size (example_buffer 1000 5000) = 1024" using example_buffer_aligned [of 1000 5000] by (simp add: ceil_to_def)
  then show ?thesis
    using write_buffer_split [OF b(1), of "example_hal 32" 4096 "[100, 4096, 5000, 4096, 8000, 4096]"] b(2) by (auto simp: example_hal_def)
qed

section \<open>The bytes reach the banks\<close>


definition example_new :: "hal_values \<Rightarrow> u32 \<Rightarrow> tt_error + device_command" where
  "example_new h sz = hugepage_command_new h True (replicate 16 0) 65536 (replicate sz 7) sz"

lemma example_new_ok:
  assumes "2 ^ 5 dvd sz"
  shows "\<exists>c. example_new h sz = Inr c \<and> fresh_command h sz c"
proof -
  have "sz mod 4 = 0" using assms dvd_trans [of 4 32 sz] by (simp add: mod_eq_0_iff_dvd)
  then obtain c where c: "example_new h sz = Inr c" by (simp add: example_new_def hugepage_command_new_def check_sequence_size_def)
  then have "fresh_command h sz c" unfolding fresh_command_def example_new_def
    by (intro disjI2 exI [of _ True] exI [of _ "replicate 16 0"] exI [of _ 65536] exI [of _ "replicate sz 7"]) (simp add: CMD_SIZE_def)
  then show ?thesis using c by blast
qed


section \<open>Several sub-devices\<close>

lemma first_write:
  assumes b: "buffer_ok b k" and h: "host_alignment h = 2 ^ k" "k \<le> 12" and M: "M < 2 ^ 30" "2 * 2 ^ k + wb_aligned_page_size b \<le> M"
    and sp: "M \<le> space" and np: "(M - 2 * 2 ^ k) div wb_aligned_page_size b \<le> wb_num_pages b"
  shows "\<exists>w. next_write h M b (whole_pages b) space (wb_num_pages b) 0 (wb_address b) = Some w \<and> wc_issue_wait w \<and>
    wc_pages_to_write w = (M - 2 * 2 ^ k) div wb_aligned_page_size b"
proof -
  let ?ps = "wb_aligned_page_size b"
  have ps: "wp_page_size (whole_pages b) = ?ps" "?ps < 2 ^ 30" "0 < ?ps" using M aligned_page(2) [OF b] by (auto simp: whole_pages_def)
  have "2 * 2 ^ k \<le> min space M" using M(2) sp by linarith
  moreover have "min space M = M" using sp by simp
  ultimately have av: "pages_available h M (whole_pages b) True space = int ((M - 2 * 2 ^ k) div ?ps)"
    using pages_available_spec(3) [of h k M "whole_pages b" _ True space, OF h M(1) _ _ refl] ps by simp
  have "?ps \<le> M - 2 * 2 ^ k" using M(2) by linarith
  then have "0 < (M - 2 * 2 ^ k) div ?ps" using ps(3) by (simp add: div_greater_zero_iff)
  then show ?thesis using av np by (simp add: next_write_def Let_def whole_pages_def)
qed

text \<open>
  C38: The pages of the first command are counted with room for one wait, but the command has a
  wait for every sub-device. With more than one and pages that fill the space, the first command of
  a large enough buffer is longer than the largest command, and \<open>fetch_queue_write\<close> stops on it.
\<close>

theorem write_waits_overflow:
  assumes "buffer_ok b k" "host_alignment h = 2 ^ k" "k \<le> 12" "M < 2 ^ 30" "2 * 2 ^ k + wb_aligned_page_size b \<le> M"
    and "M \<le> space" "wb_num_pages b \<le> length (filter (\<lambda>s. M \<le> s) spaces)" "(M - 2 * 2 ^ k) div wb_aligned_page_size b \<le> wb_num_pages b"
    and "n \<le> 8" "(M - 2 * 2 ^ k) mod wb_aligned_page_size b < (n - 1) * 2 ^ k" "max_prefetch_command_size dc = M"
  shows "\<exists>w ws. enqueue_write_buffer h M b (space # spaces) = Some (Inr (w # ws)) \<and>
    fetch_queue_write dc (write_cmd_sequence_sizeB h n w) q stall m = Inl (Tt_assert ''exceeds max command size'')"
proof -
  let ?ps = "wb_aligned_page_size b" and ?r = "M - 2 * 2 ^ k"
  have sp: "wb_num_pages b \<le> length (filter (\<lambda>s. M \<le> s) (space # spaces))" using assms(7) by simp
  obtain ws0 where ws0: "enqueue_write_buffer h M b (space # spaces) = Some (Inr ws0)" "page_chain b 0 ws0"
    using enqueue_write_ok [OF assms(1-5) sp] by blast
  obtain w where w: "next_write h M b (whole_pages b) space (wb_num_pages b) 0 (wb_address b) = Some w" "wc_issue_wait w" "wc_pages_to_write w = ?r div ?ps"
    using first_write [OF assms(1-6,8)] by blast
  have "?ps \<le> ?r" using assms(5) by linarith
  then have "0 < ?r div ?ps" using aligned_page(2) [OF assms(1)] by (simp add: div_greater_zero_iff)
  then obtain l where np: "wb_num_pages b = Suc l" using assms(8) by (cases "wb_num_pages b") auto
  have pw: "write_plan_new h M b = Some (Inr (whole_pages b))" by (rule plan_whole_pages [OF assms(2-5)])
  have tot: "wp_total_pages (whole_pages b) = Suc l" using np by (simp add: whole_pages_def)
  obtain ws where ws: "ws0 = w # ws"
  proof -
    have "enqueue_write_loop h M b (whole_pages b) (space # spaces) (wp_total_pages (whole_pages b)) 0 (wb_address b) = Some ws0"
      using ws0(1) pw by (simp add: enqueue_write_buffer_def)
    then have "enqueue_write_loop h M b (whole_pages b) (space # spaces) (Suc l) 0 (wb_address b) = Some ws0" unfolding tot .
    then show ?thesis using w(1) that unfolding np by auto
  qed
  have ok: "command_ok b w" using ws0(2) ws by simp
  have "(2 :: nat) ^ k \<le> 2 ^ 12" using assms(3) by (intro power_increasing) auto
  then have "n * 2 ^ k \<le> 8 * 2 ^ 12" using assms(9) by (intro mult_le_mono) auto
  moreover have "?r div ?ps * ?ps \<le> M" by (rule order_trans [OF div_times_less_eq_dividend diff_le_self])
  moreover have "a + (c + d) < 2 ^ 31" if "a \<le> 8 * 2 ^ 12" "c \<le> 2 ^ 12" "d \<le> M" for a c d :: nat using that assms(4) by simp
  ultimately have small: "n * 2 ^ k + (2 ^ k + ?r div ?ps * ?ps) < 2 ^ 31" using \<open>2 ^ k \<le> 2 ^ 12\<close> by blast
  have l: "length (issued_waits (replicate n (0, 0)) w) = n" using w(2) by (simp add: issued_waits_def)
  have size: "write_cmd_sequence_sizeB h n w = n * 2 ^ k + (2 ^ k + ?r div ?ps * ?ps)"
    using write_cmd_size [OF assms(1) ok assms(2), of "replicate n (0, 0)", unfolded l w(3), OF small] by simp
  obtain n' where n': "n = Suc n'" using assms(10) by (cases n) auto
  have "?r = ?r div ?ps * ?ps + ?r mod ?ps" "n * 2 ^ k = 2 ^ k + n' * 2 ^ k" "?r mod ?ps < n' * 2 ^ k" using assms(10) n' by simp_all
  then have "M < n * 2 ^ k + (2 ^ k + ?r div ?ps * ?ps)" using assms(5) by linarith
  then show ?thesis using ws0(1) ws size assms(11) by (simp add: fetch_queue_write_def)
qed

theorem write_waits_overflow_witness:
  "\<exists>w ws dc m. enqueue_write_buffer (example_hal 32) 256 (example_buffer 64 256) [256, 256, 256, 256, 256] = Some (Inr (w # ws)) \<and>
    fetch_queue_write dc (write_cmd_sequence_sizeB (example_hal 32) 2 w) 0 False m = Inl (Tt_assert ''exceeds max command size'')"
proof -
  let ?b = "example_buffer 64 256"
  have b: "buffer_ok ?b 5" "wb_num_pages ?b = 4" using example_buffer_ok [of 64 4] by simp_all
  have ps: "wb_aligned_page_size ?b = 64" using example_buffer_aligned [of 64 256] by (simp add: ceil_to_def)
  define dc :: dispatch_constants where "dc = undefined\<lparr>max_prefetch_command_size := 256\<rparr>"
  then have dc: "max_prefetch_command_size dc = 256" by simp
  have h: "host_alignment (example_hal 32) = 2 ^ 5" by (simp add: example_hal_def)
  have M: "2 * 2 ^ 5 + wb_aligned_page_size ?b \<le> 256" "(256 - 2 * 2 ^ 5) div wb_aligned_page_size ?b \<le> wb_num_pages ?b"
    "(256 - 2 * 2 ^ 5) mod wb_aligned_page_size ?b < (2 - 1) * 2 ^ 5" using b(2) ps by simp_all
  have sp: "wb_num_pages ?b \<le> length (filter (\<lambda>s. 256 \<le> s) [256 :: nat, 256, 256, 256])" using b(2) by simp
  have small: "(5 :: nat) \<le> 12" "(256 :: nat) < 2 ^ 30" "(2 :: nat) \<le> 8" by simp_all
  show ?thesis using write_waits_overflow [OF b(1) h small(1,2) M(1) order_refl sp M(2) small(3) M(3) dc] by blast
qed

end
