(* ===== verification/Write_Buffer_Limits.thy ===== *)
theory Write_Buffer_Limits
  imports Write_Buffer_Theorems
begin

text \<open>
  Buffers with a single page at the limits of \<open>enqueue_write_buffer\<close>: a page that is not aligned
  is read beyond the end of the user's memory, and some pages larger than a command are never written.
\<close>

section \<open>Partial pages\<close>

text \<open>
  The search for the size of a partial page ends: it finds the least multiple of the alignment
  from the start value on that divides the size of the buffer.
\<close>

lemma partial_size_loop_ok:
  assumes "0 < start" "al dvd start" "al dvd sz" "start \<le> sz" "sz < 2 ^ 32"
  shows "\<exists>p. partial_size_loop sz al start = Some p \<and> al dvd p \<and> start \<le> p \<and> p dvd sz"
  using assms
proof (induction "sz - start" arbitrary: start rule: less_induct)
  case less
  show ?case
  proof (cases "start dvd sz")
    case True
    then show ?thesis using less.prems(2) by (subst partial_size_loop.simps) (simp add: mod_eq_0_iff_dvd)
  next
    case False
    then have lt: "start < sz" using less.prems(4) by (cases "start = sz") auto
    have al: "0 < al" using less.prems(1,2) by (cases al) auto
    have "al dvd sz - start" using less.prems(2,3) by (rule dvd_diff_nat [rotated])
    then have "al \<le> sz - start" using lt by (intro dvd_imp_le) auto
    then have le: "start + al \<le> sz" using lt by simp
    then have a: "add32 start al = start + al" using less.prems(5) by (simp add: add32_small)
    have "sz - (start + al) < sz - start" using al lt by simp
    then obtain p where "partial_size_loop sz al (start + al) = Some p" "al dvd p" "start + al \<le> p" "p dvd sz"
      using less.hyps [of "start + al"] less.prems le by auto
    then show ?thesis using False a by (subst partial_size_loop.simps) (auto simp: mod_eq_0_iff_dvd)
  qed
qed

lemma no_space_never_ends:
  assumes "\<And>space. next_write h M b p space (Suc l) 0 (wb_address b) = None"
  shows "enqueue_write_loop h M b p spaces (Suc l) 0 (wb_address b) = None"
  using assms by (induction spaces) simp_all

text \<open>
  C39: A page larger than a command is written in partial pages, whose size is the first multiple
  of the alignment from 4096 on that divides the page. When every such divisor is larger than a
  command (for example, when the page is the alignment times a large prime number), \<open>enqueue_write_buffer\<close>
  accepts the buffer and enters its loop, but finds no room for a partial page whatever space the
  issue queue has: it wraps the queue for ever and never sends a command.
\<close>

theorem large_page_never_written:
  assumes "wb_num_pages b = 1" "0 < wb_num_banks b" "host_alignment h = 2 ^ k" "k \<le> 12" "2 * 2 ^ k \<le> M" "M < 2 ^ 30"
    and "M - 2 * 2 ^ k < wb_aligned_page_size b" "4096 \<le> wb_aligned_page_size b" "wb_aligned_page_size b < 2 ^ 31" "2 ^ k dvd wb_aligned_page_size b"
    and "\<forall>d. 4096 \<le> d \<longrightarrow> 2 ^ k dvd d \<longrightarrow> d dvd wb_aligned_page_size b \<longrightarrow> M - 2 * 2 ^ k < d"
  shows "(\<exists>p. write_plan_new h M b = Some (Inr p) \<and> 0 < wp_total_pages p) \<and> enqueue_write_buffer h M b spaces = None"
proof -
  let ?ps = "wb_aligned_page_size b" and ?a = "2 ^ k :: nat"
  have "?a \<le> 2 ^ 12" using assms(4) by (intro power_increasing) auto
  then have maxd: "sub32 M (mul32 (host_alignment h) 2) = M - 2 * ?a" using assms(3,5,6) by (simp add: mul32_small sub32_small mult.commute)
  have "?a dvd 2 ^ 12" using assms(4) by (rule le_imp_power_dvd)
  then have "?a dvd 4096" by simp
  then obtain q where q: "partial_size_loop ?ps ?a 4096 = Some q" "?a dvd q" "4096 \<le> q" "q dvd ?ps"
    using partial_size_loop_ok [of 4096 ?a ?ps] assms(8-10) by auto
  have big: "M - 2 * ?a < q" using assms(11) q by simp
  have qle: "0 < q" "q \<le> ?ps" using q(3,4) assms(8) by (auto intro: dvd_imp_le)
  define p where p: "p = \<lparr>wp_partial = True, wp_page_size = q, wp_total_pages = ?ps div q,
    wp_max_pages = (if 1 div wb_num_banks b > 0 then mul32 (wb_num_banks b) (mul32 (?ps div q) (1 div wb_num_banks b)) else 1 mod wb_num_banks b)\<rparr>"
  have "mul32 1 ?ps = ?ps" using assms(9) by (simp add: mul32_small)
  then have plan: "write_plan_new h M b = Some (Inr p)"
    using assms(1,3,7) maxd q(1) by (simp add: write_plan_new_def Let_def p BASE_PARTIAL_PAGE_SIZE_def)
  have "0 < ?ps div q" using qle by (simp add: div_greater_zero_iff)
  then obtain l where l: "wp_total_pages p = Suc l" using p by (cases "?ps div q") auto
  have none: "next_write h M b p space (Suc l) 0 (wb_address b) = None" for space
  proof -
    have i: "int32 (min space M) = int (min space M)" "int32 (2 * ?a) = int (2 * ?a)" "int32 q = int q"
      using assms(6,9) qle(2) \<open>?a \<le> 2 ^ 12\<close> by (auto simp: int32_def)
    have "mul32 (host_alignment h) 2 = 2 * ?a" using assms(3) \<open>?a \<le> 2 ^ 12\<close> by (simp add: mul32_small mult.commute)
    then have av: "pages_available h M p True space = (int (min space M) - int (2 * ?a)) sdiv int q"
      unfolding pages_available_def Let_def using i p by simp
    have "(int (min space M) - int (2 * ?a)) sdiv int q \<le> 0"
    proof (cases "2 * ?a \<le> min space M")
      case True
      moreover have "min space M - 2 * ?a < q" using big diff_le_mono [OF min.cobounded2 [of space M], of "2 * ?a"] by linarith
      ultimately show ?thesis using sdiv_of_nat(2) [OF True qle(1)] by simp
    qed (rule sdiv_of_nat(1) [OF _ qle(1)], simp only: not_le)
    then show ?thesis using av by (simp add: next_write_def Let_def)
  qed
  have "enqueue_write_buffer h M b spaces = None"
    unfolding enqueue_write_buffer_def plan using no_space_never_ends [OF none, of spaces] l by simp
  then show ?thesis using plan l by simp
qed

text \<open>The largest command on a worker core has 128 KB; 4099 is a prime number.\<close>

theorem large_page_never_written_witness:
  "wb_page_size (example_buffer (32 * 4099) (32 * 4099)) = 131168 \<and> (\<forall>spaces. enqueue_write_buffer (example_hal 32) (128 * 1024) (example_buffer (32 * 4099) (32 * 4099)) spaces = None)"
proof -
  let ?b = "example_buffer (32 * 4099) (32 * 4099)"
  have ps: "wb_aligned_page_size ?b = 131168" using example_buffer_aligned [of "32 * 4099" "32 * 4099"] by (simp add: ceil_to_def)
  have b: "wb_num_pages ?b = 1" "0 < wb_num_banks ?b" "wb_page_size ?b = 131168" by (simp_all add: wb_num_pages_def example_buffer_def)
  have h: "host_alignment (example_hal 32) = 2 ^ 5" by (simp add: example_hal_def)
  have "128 * 1024 - 2 * 2 ^ 5 < d" if d: "4096 \<le> d" "2 ^ 5 dvd d" "d dvd 131168" for d :: nat
  proof (rule ccontr)
    assume "\<not> 128 * 1024 - 2 * 2 ^ 5 < d"
    then have d': "d \<le> 131008" by simp
    obtain e where e: "131168 = d * e" using d(3) by (auto simp: dvd_def)
    obtain c where c: "d = 32 * c" using d(2) by (auto simp: dvd_def)
    have ce: "c * e = 4099" using e c by simp
    have "c \<le> 4094" "128 \<le> c" using c d' d(1) by auto
    have "e \<le> 32"
    proof (rule ccontr)
      assume "\<not> e \<le> 32"
      then have "128 * 33 \<le> c * e" using \<open>128 \<le> c\<close> by (intro mult_le_mono) auto
      then show False using ce by simp
    qed
    moreover have "e \<noteq> 1" using ce \<open>c \<le> 4094\<close> by auto
    moreover have "e dvd 4099" using ce by (metis dvd_triv_right)
    moreover have "e \<noteq> 0" using ce by (intro notI) simp
    ultimately have "e \<in> {2..<33}" "e dvd 4099" by auto
    moreover have "\<forall>x \<in> set [2..<33]. \<not> x dvd (4099 :: nat)" by (simp add: upt_rec)
    ultimately show False unfolding set_upt by blast
  qed
  then have "\<forall>d. 4096 \<le> d \<longrightarrow> 2 ^ 5 dvd d \<longrightarrow> d dvd wb_aligned_page_size ?b \<longrightarrow> 128 * 1024 - 2 * 2 ^ 5 < d" unfolding ps by blast
  then have "enqueue_write_buffer (example_hal 32) (128 * 1024) ?b spaces = None" for spaces
    using large_page_never_written [OF b(1,2) h, of "128 * 1024" spaces] ps by simp
  then show ?thesis using b(3) by blast
qed

section \<open>Pages that are not aligned\<close>

text \<open>
  C40: A buffer with one page whose size is no multiple of the alignment is copied in one piece of
  the padded size, so the copy reads beyond the end of the user's memory, which is undefined.
\<close>

theorem single_page_overread:
  assumes "buffer_ok b k" "wb_num_pages b = 1" "wb_page_size b mod wb_alignment b \<noteq> 0" "length src = wb_size b"
    and "host_alignment h = 2 ^ k" "5 \<le> k" "k \<le> 12" "l1_alignment h = 16"
    and "M < 2 ^ 30" "2 * 2 ^ k + wb_aligned_page_size b \<le> M" "M \<le> space"
    and "\<forall>x \<in> set waits. fst x < 2 ^ 32 \<and> snd x < 2 ^ 32" "length waits \<le> 8"
    and "\<forall>sz. 2 ^ k dvd sz \<longrightarrow> sz < 2 ^ 31 \<longrightarrow> (\<exists>c. command_new sz = Inr c \<and> fresh_command h sz c)"
  shows "\<exists>w. enqueue_write_buffer h M b [space] = Some (Inr [w]) \<and> process_write_buffer command_new h waits b w src = Inl Undefined"
proof -
  let ?ps = "wb_aligned_page_size b" and ?p = "wb_page_size b"
  have sz: "wb_size b = ?p" using assms(1,2) by (simp add: buffer_ok_def)
  have "\<exists>ws. enqueue_write_buffer h M b [space] = Some (Inr ws) \<and> page_chain b 0 ws \<and>
      (\<forall>w \<in> set ws. one_wait_size b k w \<le> M) \<and> first_waits 0 ws \<and> length ws \<le> wb_num_pages b"
    by (rule enqueue_write_ok [OF assms(1,5,7,9,10)]) (use assms(2,11) in simp)
  then obtain ws where ws: "enqueue_write_buffer h M b [space] = Some (Inr ws)" "page_chain b 0 ws" "\<forall>w \<in> set ws. one_wait_size b k w \<le> M" "length ws \<le> 1"
    using assms(2) by auto
  then obtain w where w: "ws = [w]" using assms(2) by (cases ws) auto
  then have ok: "command_ok b w" "first_page b w = 0" "wc_pages_to_write w = 1" using ws(2) assms(2) by auto
  have n: "1 * ?ps < 2 ^ 30" using assms(9,10) by simp
  have k: "(2 :: nat) ^ k \<le> 2 ^ 12" using assms(7) by (intro power_increasing) auto
  have "length (issued_waits waits w) \<le> 8" using assms(13) by (simp add: issued_waits_def)
  then have "length (issued_waits waits w) * 2 ^ k \<le> 8 * 2 ^ 12" using k by (rule mult_le_mono)
  then have small: "length (issued_waits waits w) * 2 ^ k + (2 ^ k + wc_pages_to_write w * ?ps) < 2 ^ 31" using n ok(3) k by simp
  obtain c1 where c1: "process_write_buffer command_new h waits b w src = bind_result (add_dispatch_write b w c1) (add_buffer_data b w src)"
    "pcie_align c1 = 2 ^ k" "room c1 (2 ^ k + wc_pages_to_write w * ?ps)"
    using waits_prefix [OF assms(1) ok(1) assms(5-8,12) small assms(14), of src] by blast
  obtain c2 where c2: "add_dispatch_write b w c1 = Inr c2" using dispatch_write_accepted [OF assms(1) ok(1) assms(6) c1(2) _ c1(3)] n ok(3) by auto
  have "?p < ?ps" using aligned_page(1,3) [OF assms(1)] assms(3) by (metis dvd_imp_mod_0 order_le_imp_less_or_eq)
  then have "add_src src 0 ?ps ?ps c = Inl Undefined" for c using assms(4) sz by (simp add: add_src_def src_bytes_def)
  then have "add_buffer_data b w src c2 = Inl Undefined"
    using src_offset(1,2) [OF assms(1) ok(1)] ok sz by (simp add: add_buffer_data_def Let_def data_size_bytes_def command_ok_def)
  then show ?thesis using ws(1) w c1(1) c2 by simp
qed

theorem single_page_overread_witness:
  "\<exists>w. enqueue_write_buffer (example_hal 32) 256 (example_buffer 40 40) [256] = Some (Inr [w]) \<and>
    process_write_buffer (example_new (example_hal 32)) (example_hal 32) [(256, 4)] (example_buffer 40 40) w (replicate 40 1) = Inl Undefined"
proof -
  let ?b = "example_buffer 40 40" and ?h = "example_hal 32"
  have b: "buffer_ok ?b 5" "wb_num_pages ?b = 1" using example_buffer_ok [of 40 1] by simp_all
  have ps: "wb_aligned_page_size ?b = 64" using example_buffer_aligned [of 40 40] by (simp add: ceil_to_def)
  have f: "wb_page_size ?b mod wb_alignment ?b \<noteq> 0" "length (replicate 40 (1 :: byte)) = wb_size ?b" by (simp_all add: example_buffer_def)
  have h: "host_alignment ?h = 2 ^ 5" "l1_alignment ?h = 16" by (simp_all add: example_hal_def)
  have M: "2 * 2 ^ 5 + wb_aligned_page_size ?b \<le> 256" using ps by simp
  have small: "(5 :: nat) \<le> 12" "(256 :: nat) < 2 ^ 30" "length [(256 :: u32, 4 :: u32)] \<le> 8"
    "\<forall>x \<in> set [(256 :: u32, 4 :: u32)]. fst x < 2 ^ 32 \<and> snd x < 2 ^ 32" by simp_all
  have new: "\<forall>sz. 2 ^ 5 dvd sz \<longrightarrow> sz < 2 ^ 31 \<longrightarrow> (\<exists>c. example_new ?h sz = Inr c \<and> fresh_command ?h sz c)" using example_new_ok by blast
  show ?thesis using single_page_overread [OF b f h(1) order_refl small(1) h(2) small(2) M order_refl small(4,3) new] by blast
qed

end
