(* ===== verification/Runtime_Args.thy ===== *)
theory Runtime_Args
  imports Command_Stream_Theorems
begin

text \<open>
  Packed writes of the launch of a program: how many sub-commands fit into one command, the
  sizes of the commands, and the commands that carry the runtime arguments of kernels
  (src/tt_metal/impl/dispatch/command_queue.cpp). The data of a core is a list of pieces, the
  arguments of its kernels, each with the distance to the next one. The pointers through
  which later calls change the arguments are recorded as a command and an offset into it.
\<close>

section \<open>Sizes\<close>

definition max_prefetch_size :: "hal_values \<Rightarrow> u32 \<Rightarrow> u32" where
  "max_prefetch_size h max_prefetch_cmd_size =
     sub32 (sub32 (sub32 (sub32 max_prefetch_cmd_size CMD_SIZE) (host_alignment h)) CMD_SIZE) (l1_alignment h)"

definition get_max_write_packed_sub_cmds :: "hal_values \<Rightarrow> bool \<Rightarrow> u32 \<Rightarrow> u32 \<Rightarrow> u32 \<Rightarrow> bool \<Rightarrow> u32" where
  "get_max_write_packed_sub_cmds h multicast data_size max_prefetch_cmd_size packed_write_max_unicast_sub_cmds no_stride =
     (let sub_cmd_sizeB = packed_sub_cmd_size multicast;
          data_sizeB = align_u32 (mul32 data_size 4) (l1_alignment h);
          room_for = max_prefetch_size h max_prefetch_cmd_size;
          max_prefetch_num_packed_cmds =
            (if no_stride then sub32 room_for data_sizeB div sub_cmd_sizeB else room_for div add32 data_sizeB sub_cmd_sizeB)
      in min max_prefetch_num_packed_cmds
           (if multicast then get_packed_write_max_multicast_sub_cmds packed_write_max_unicast_sub_cmds
            else packed_write_max_unicast_sub_cmds))"

text \<open>The loop over the sub-commands that are left; with a maximum of zero it goes on for ever.\<close>

partial_function (option) payload_loop ::
    "hal_values \<Rightarrow> bool \<Rightarrow> u32 \<Rightarrow> u32 \<Rightarrow> u32 \<Rightarrow> u32 \<Rightarrow> (u32 \<times> u32) list \<Rightarrow> (u32 \<times> (u32 \<times> u32) list) option" where
  "payload_loop h multicast aligned_sub_cmd_sizeB max_per_cmd rem cmd_payload_sizeB payloads =
     (if rem = 0 then Some (cmd_payload_sizeB, payloads)
      else let num_sub_cmds_in_cmd = min max_per_cmd rem;
               aligned_data_sizeB = mul32 aligned_sub_cmd_sizeB num_sub_cmds_in_cmd;
               dispatch_cmd_sizeB = align_u32 (add32 CMD_SIZE (mul32 num_sub_cmds_in_cmd (packed_sub_cmd_size multicast))) (l1_alignment h);
               payload = add32 dispatch_cmd_sizeB aligned_data_sizeB
           in payload_loop h multicast aligned_sub_cmd_sizeB max_per_cmd (sub32 rem num_sub_cmds_in_cmd)
                (add32 cmd_payload_sizeB (align_u32 (add32 CMD_SIZE payload) (host_alignment h)))
                (payloads @ [(num_sub_cmds_in_cmd, payload)]))"

definition insert_write_packed_payloads ::
    "hal_values \<Rightarrow> bool \<Rightarrow> u32 \<Rightarrow> u32 \<Rightarrow> u32 \<Rightarrow> u32 \<Rightarrow> (u32 \<times> u32) list \<Rightarrow> (u32 \<times> (u32 \<times> u32) list) option" where
  "insert_write_packed_payloads h multicast num_sub_cmds sub_cmd_sizeB max_command_sizeB packed_write_max_unicast_sub_cmds payloads =
     (let aligned_sub_cmd_sizeB = align_u32 sub_cmd_sizeB (l1_alignment h)
      in payload_loop h multicast aligned_sub_cmd_sizeB
           (get_max_write_packed_sub_cmds h multicast aligned_sub_cmd_sizeB max_command_sizeB packed_write_max_unicast_sub_cmds False)
           num_sub_cmds 0 payloads)"

section \<open>Runtime arguments\<close>

definition get_runtime_payload_sizeB :: "hal_values \<Rightarrow> bool \<Rightarrow> u32 \<Rightarrow> u32 \<Rightarrow> bool \<Rightarrow> u32" where
  "get_runtime_payload_sizeB h multicast num_packed_cmds runtime_args_len no_stride =
     (let dispatch_cmd_sizeB = add32 CMD_SIZE (align_u32 (mul32 num_packed_cmds (packed_sub_cmd_size multicast)) (l1_alignment h));
          aligned_runtime_data_sizeB = mul32 (if no_stride then 1 else num_packed_cmds) (align_u32 (mul32 runtime_args_len 4) (l1_alignment h))
      in add32 dispatch_cmd_sizeB aligned_runtime_data_sizeB)"

definition get_runtime_args_data_offset :: "hal_values \<Rightarrow> bool \<Rightarrow> u32 \<Rightarrow> u32" where
  "get_runtime_args_data_offset h multicast num_packed_cmds =
     add32 CMD_SIZE (add32 CMD_SIZE (align_u32 (mul32 num_packed_cmds (packed_sub_cmd_size multicast)) (l1_alignment h)))"

text \<open>The pointers of the arguments of one core, given how many arguments each kernel has, and of all cores of a command.\<close>

fun arg_pointers :: "nat \<Rightarrow> u32 \<Rightarrow> u32 list \<Rightarrow> (nat \<times> u32) list" where
  "arg_pointers cmd off [] = []"
| "arg_pointers cmd off (count # counts) = (cmd, off) # arg_pointers cmd (add32 off (mul32 count 4)) counts"

fun cmd_pointers :: "nat \<Rightarrow> u32 \<Rightarrow> u32 \<Rightarrow> u32 list list \<Rightarrow> (nat \<times> u32) list list" where
  "cmd_pointers cmd data_offset data_inc [] = []"
| "cmd_pointers cmd data_offset data_inc (counts # rest) =
     arg_pointers cmd data_offset counts # cmd_pointers cmd (add32 data_offset data_inc) data_inc rest"

text \<open>What does not change in the loop.\<close>

record rt_params =
  rt_hal :: hal_values
  rt_zero_init :: bool
  rt_multicast :: bool
  l1_arg_base_addr :: u32
  rt_sub_cmds :: "byte list list"
  rt_data_and_sizes :: "(byte list \<times> u32) list list"
  max_runtime_args_len :: u32
  rt_args_counts :: "u32 list list"
  rt_max_unicast :: u32
  rt_no_stride :: bool
  rt_write_offset_index :: u32

definition runtime_args_cmd :: "rt_params \<Rightarrow> u32 \<Rightarrow> u32 \<Rightarrow> tt_error + device_command" where
  "runtime_args_cmd r num_packed_cmds offset_idx =
     (let payload = get_runtime_payload_sizeB (rt_hal r) (rt_multicast r) num_packed_cmds (max_runtime_args_len r) (rt_no_stride r);
          sz = align_u32 (add32 CMD_SIZE payload) (host_alignment (rt_hal r))
      in bind_result (host_command_new (rt_hal r) (rt_zero_init r) sz)
           (add_dispatch_write_packed_pieces (rt_multicast r) (num_packed_cmds mod 2 ^ 16) (l1_arg_base_addr r)
              (mul32 (max_runtime_args_len r) 4 mod 2 ^ 16) payload (rt_sub_cmds r) (rt_data_and_sizes r) (rt_max_unicast r) offset_idx
              (rt_no_stride r) (rt_write_offset_index r)))"

definition runtime_args_pointers :: "rt_params \<Rightarrow> nat \<Rightarrow> u32 \<Rightarrow> u32 \<Rightarrow> tt_error + (nat \<times> u32) list list" where
  "runtime_args_pointers r cmd num_packed_cmds offset_idx =
     bind_result (packed_slice offset_idx (if rt_no_stride r then 1 else num_packed_cmds) (rt_args_counts r)) (\<lambda>counts.
       Inr (cmd_pointers cmd (get_runtime_args_data_offset (rt_hal r) (rt_multicast r) num_packed_cmds)
              (align_u32 (mul32 (max_runtime_args_len r) 4) (l1_alignment (rt_hal r))) counts))"

partial_function (option) runtime_args_loop ::
    "rt_params \<Rightarrow> u32 \<Rightarrow> u32 \<Rightarrow> u32 \<Rightarrow> device_command list \<Rightarrow> (nat \<times> u32) list list \<Rightarrow>
     (tt_error + device_command list \<times> (nat \<times> u32) list list) option" where
  "runtime_args_loop r max_packed_cmds num_packed_cmds_in_seq offset_idx cmds ptrs =
     (if num_packed_cmds_in_seq = 0 then Some (Inr (cmds, ptrs))
      else let num_packed_cmds = min num_packed_cmds_in_seq max_packed_cmds
           in case runtime_args_cmd r num_packed_cmds offset_idx of
                Inl e \<Rightarrow> Some (Inl e)
              | Inr c \<Rightarrow>
                  (case runtime_args_pointers r (length cmds) num_packed_cmds offset_idx of
                     Inl e \<Rightarrow> Some (Inl e)
                   | Inr ps \<Rightarrow> runtime_args_loop r max_packed_cmds (sub32 num_packed_cmds_in_seq num_packed_cmds)
                                (add32 offset_idx num_packed_cmds) (cmds @ [c]) (ptrs @ ps)))"

definition rt_max_packed_cmds :: "rt_params \<Rightarrow> u32 \<Rightarrow> u32" where
  "rt_max_packed_cmds r max_command_sizeB =
     get_max_write_packed_sub_cmds (rt_hal r) (rt_multicast r) (max_runtime_args_len r) max_command_sizeB (rt_max_unicast r) (rt_no_stride r)"

text \<open>The commands are appended to those there are already, of which there are \<open>length cmds\<close>.\<close>

definition generate_runtime_args_cmds ::
    "rt_params \<Rightarrow> u32 \<Rightarrow> device_command list \<Rightarrow> (tt_error + device_command list \<times> (nat \<times> u32) list list) option" where
  "generate_runtime_args_cmds r max_command_sizeB cmds =
     (let max_packed_cmds = rt_max_packed_cmds r max_command_sizeB; num = length (rt_sub_cmds r) mod 2 ^ 32
      in if rt_no_stride r \<and> \<not> num \<le> max_packed_cmds
         then Some (Inl (Tt_fatal ''num_packed_cmds_in_seq cannot exceed max_packed_cmds when no_stride is true''))
         else runtime_args_loop r max_packed_cmds num 0 cmds [])"

end
