(* ===== verification/Runtime_Args_Props.thy ===== *)
theory Runtime_Args_Props
  imports Runtime_Args
begin

text \<open>
  Packed writes whose data comes in pieces: where the pieces end up in the command, and what
  the dispatch kernel reads of them.
\<close>

section \<open>Pieces of data\<close>

fun laid_out :: "nat \<Rightarrow> (byte list \<times> nat) list \<Rightarrow> byte list \<Rightarrow> bool" where
  "laid_out off [] ch \<longleftrightarrow> True"
| "laid_out off ((bs, stride) # ps) ch \<longleftrightarrow> take (length bs) (drop off ch) = bs \<and> laid_out (off + stride) ps ch"

definition pieces_ok :: "nat \<Rightarrow> (byte list \<times> nat) list \<Rightarrow> bool" where
  "pieces_ok n ps \<longleftrightarrow> (\<forall>(bs, stride) \<in> set ps. length bs \<le> stride) \<and> sum_list (map snd ps) \<le> n"

lemma laid_out_take:
  assumes "\<forall>(bs, stride) \<in> set ps. length bs \<le> stride" "off + sum_list (map snd ps) \<le> n" "laid_out off ps ch"
  shows "laid_out off ps (take n ch)"
  using assms
proof (induction ps arbitrary: off)
  case (Cons p ps)
  obtain bs stride where p: "p = (bs, stride)" by force
  have "length bs \<le> n - off" using Cons.prems(1,2) p by auto
  then have "take (length bs) (drop off (take n ch)) = take (length bs) (drop off ch)" by (simp add: drop_take min_absorb1)
  then show ?case using Cons p by simp
qed simp

lemma copy_pieces_ok:
  assumes "uninitialized c = None" "cmd_write_offsetB c + off + sum_list (map snd ps) \<le> length (cmd_region c)"
    "off + sum_list (map snd ps) < 2 ^ 32" "\<forall>(bs, stride) \<in> set ps. length bs \<le> stride"
  shows "\<exists>c'. copy_pieces off ps c = Inr c' \<and> same_frame c c' \<and> cmd_write_offsetB c' = cmd_write_offsetB c \<and>
    take (cmd_write_offsetB c + off) (cmd_region c') = take (cmd_write_offsetB c + off) (cmd_region c) \<and>
    laid_out off ps (drop (cmd_write_offsetB c) (cmd_region c'))"
  using assms
proof (induction ps arbitrary: c off)
  case Nil
  then show ?case by (simp add: same_frame_refl)
next
  case (Cons p ps)
  let ?p = "cmd_write_offsetB c" and ?R = "cmd_region c"
  obtain bs stride where p: "p = (bs, stride)" by force
  have fit: "length bs \<le> stride" "?p + off + length bs \<le> length ?R" using Cons.prems(2,4) p by auto
  obtain c1 where c1: "put_bytes (?p + off) bs c = Inr c1" "same_frame c c1" "cmd_write_offsetB c1 = ?p"
    "cmd_region c1 = take (?p + off) ?R @ bs @ drop (?p + off + length bs) ?R"
    using put_bytes_ok [of "?p + off" bs c] fit by auto
  have o: "add32 off stride = off + stride" using Cons.prems(3) p by (simp add: add32_def)
  have "\<exists>c'. copy_pieces (off + stride) ps c1 = Inr c' \<and> same_frame c1 c' \<and> cmd_write_offsetB c' = cmd_write_offsetB c1 \<and>
    take (cmd_write_offsetB c1 + (off + stride)) (cmd_region c') = take (cmd_write_offsetB c1 + (off + stride)) (cmd_region c1) \<and>
    laid_out (off + stride) ps (drop (cmd_write_offsetB c1) (cmd_region c'))"
    using Cons.IH [of c1 "off + stride"] Cons.prems p c1(2,3) by (auto simp: same_frame_def)
  then obtain c' where c': "copy_pieces (off + stride) ps c1 = Inr c'" "same_frame c1 c'" "cmd_write_offsetB c' = ?p"
    "take (?p + (off + stride)) (cmd_region c') = take (?p + (off + stride)) (cmd_region c1)" "laid_out (off + stride) ps (drop ?p (cmd_region c'))"
    using c1(3) by auto
  have l: "length (take (?p + off) ?R) = ?p + off" using fit by simp
  have "take (?p + off) (take (?p + (off + stride)) (cmd_region c')) = take (?p + off) (take (?p + (off + stride)) (cmd_region c1))" using c'(4) by simp
  then have t: "take (?p + off) (cmd_region c') = take (?p + off) ?R" using l unfolding c1(4) by simp
  have "take (length bs) (drop (?p + off) (take (?p + (off + stride)) (cmd_region c'))) = take (length bs) (drop (?p + off) (take (?p + (off + stride)) (cmd_region c1)))"
    using c'(4) by simp
  then have "take (length bs) (drop (?p + off) (cmd_region c')) = take (length bs) (drop (?p + off) (cmd_region c1))"
    using fit(1) by (simp add: drop_take min_absorb1)
  then have "take (length bs) (drop (?p + off) (cmd_region c')) = bs" using l unfolding c1(4) by simp
  then show ?case using c1(1) c'(1,2,3,5) t p o same_frame_trans [OF c1(2)] Cons.prems(1)
    by (intro exI [of _ c']) (simp add: dc_memcpy_def add.commute)
qed

lemma copy_rows_ok:
  assumes "good c" "uninitialized c = None" "cmd_write_offsetB c + length pss * s \<le> cmd_sequence_sizeB c" "\<forall>ps \<in> set pss. pieces_ok n ps" "n \<le> s"
  shows "\<exists>c' ch. copy_packed s pss c = Inr c' \<and> emits c c' ch \<and> length ch = length pss * s \<and>
    (\<forall>k < length pss. laid_out 0 (pss ! k) (take n (drop (k * s) ch)))"
  using assms
proof (induction pss arbitrary: c)
  case Nil
  then show ?case using emits_nothing [of c] by auto
next
  case (Cons ps pss)
  let ?p = "cmd_write_offsetB c"
  have size: "length (cmd_region c) = cmd_sequence_sizeB c" "cmd_sequence_sizeB c < 2 ^ 31" using Cons.prems(1) by (auto simp: good_def)
  have ps: "\<forall>(bs, stride) \<in> set ps. length bs \<le> stride" "sum_list (map snd ps) \<le> n" using Cons.prems(4) by (auto simp: pieces_ok_def)
  obtain c1 where c1: "copy_pieces 0 ps c = Inr c1" "same_frame c c1" "cmd_write_offsetB c1 = ?p" "take ?p (cmd_region c1) = take ?p (cmd_region c)"
    "laid_out 0 ps (drop ?p (cmd_region c1))"
    using copy_pieces_ok [OF Cons.prems(2), of 0 ps] ps Cons.prems(3,5) size by auto
  let ?c1 = "advance s c1" and ?row = "take s (drop ?p (cmd_region c1))"
  have fit: "?p + s \<le> cmd_sequence_sizeB c" using Cons.prems(3) by simp
  have lr: "length ?row = s" using c1(2) size fit by (simp add: same_frame_def)
  have o1: "cmd_write_offsetB ?c1 = ?p + s" using c1(3) fit size by (simp add: advance_def add32_def)
  have f1: "same_frame c ?c1" using c1(2) by (simp add: advance_def same_frame_def)
  have "take (?p + s) (cmd_region c1) = take ?p (cmd_region c) @ ?row" using c1(4) by (simp add: take_add)
  then have e1: "emits c ?c1 ?row" using f1 o1 lr fit by (simp add: emits_def) (simp add: advance_def)
  obtain c2 ch where c2: "copy_packed s pss ?c1 = Inr c2" "emits ?c1 c2 ch" "length ch = length pss * s"
    "\<forall>k < length pss. laid_out 0 (pss ! k) (take n (drop (k * s) ch))"
    using Cons.IH [of ?c1] emits_good [OF e1 Cons.prems(1)] f1 o1 Cons.prems by (auto simp: same_frame_def add.assoc)
  have "laid_out 0 ((ps # pss) ! k) (take n (drop (k * s) (?row @ ch)))" if "k < length (ps # pss)" for k
  proof (cases k)
    case 0
    have "take n (?row @ ch) = take n (drop ?p (cmd_region c1))" using lr Cons.prems(5) by (simp add: min_absorb2 min_absorb1)
    then show ?thesis using laid_out_take [OF ps(1) _ c1(5), of n] ps(2) 0 by simp
  next
    case (Suc j)
    then have "drop (k * s) (?row @ ch) = drop (j * s) ch" using lr by simp
    then show ?thesis using c2(4) that Suc by simp
  qed
  then show ?case using c1(1) c2(1,3) lr emits_trans [OF e1 c2(2)]
    by (intro exI [of _ c2] exI [of _ "?row @ ch"]) simp
qed

section \<open>A packed write of pieces\<close>

lemma rows_read:
  assumes sw: "\<forall>x \<in> set subs. length x = w" and l: "length (concat subs @ rest) = s"
  shows "zip (chunks (length subs) w ((concat subs @ rest) @ ch))
      (map (\<lambda>k. take n (drop (s + k * inc) ((concat subs @ rest) @ ch))) [0..<length subs]) =
    zip subs (map (\<lambda>k. take n (drop (k * inc) ch)) [0..<length subs])"
proof -
  have "chunks (length subs) w ((concat subs @ rest) @ ch) = subs" using chunks_concat [OF sw, of "rest @ ch"] by simp
  moreover have "drop (s + j) ((concat subs @ rest) @ ch) = drop j ch" for j using l by (simp del: append_assoc)
  ultimately show ?thesis by simp
qed

lemma write_packed_pieces_ok:
  assumes r: "room c (ceil_to (16 + packed_payload multicast m nd n) (pcie_align c))" and un: "uninitialized c = None"
    and v: "m < 2 ^ 16" "idx < 2 ^ 16" "ad < 2 ^ 32" "n < 2 ^ 16" and big: "packed_payload multicast m nd n \<le> 2 ^ 30"
    and sl: "sub_cmd_bytes start m subs = Inr (concat ms)" "length ms = m" "\<forall>x \<in> set ms. length x = packed_sub_cmd_size multicast"
    and ds: "packed_slice start nd pss = Inr rows" "length rows = nd" "\<forall>ps \<in> set rows. pieces_ok n ps" and nd: "nd = (if no_stride then 1 else m)"
    and few: "m \<le> (if multicast then get_packed_write_max_multicast_sub_cmds max_unicast else max_unicast)"
    and s: "s = ceil_to (m * packed_sub_cmd_size multicast) 16" and inc: "inc = (if no_stride then 0 else ceil_to n 16)"
  shows "\<exists>c' ch. write_packed e multicast m ad n (packed_payload multicast m nd n) subs pss max_unicast start no_stride idx c = Inr c' \<and>
    emits c c' ch \<and> length ch = ceil_to (16 + packed_payload multicast m nd n) (pcie_align c) \<and>
    reads (pcie_align c) 16 ex ch [V_relay True DISPATCH_MASTER (D_write_packed multicast no_stride ad n idx
      (zip ms (map (\<lambda>k. take n (drop (32 + s + k * inc) ch)) [0..<m])))] False \<and>
    (\<forall>k < nd. laid_out 0 (rows ! k) (take n (drop (32 + s + k * ceil_to n 16) ch)))"
proof -
  let ?w = "packed_sub_cmd_size multicast" and ?n = "s + nd * ceil_to n 16" and ?cmd = "write_packed_cmd multicast no_stride m idx ad n"
  note lay = packed_layout [OF v(1,4) s]
  have lc: "length (concat ms) = m * ?w" using length_concat_12 [OF sl(3)] sl(2) by simp
  note pay = lay(2) [of nd]
  have n30: "?n < 2 ^ 30" using big unfolding pay by simp
  have r': "room c (ceil_to (32 + ?n) (pcie_align c))" using r unfolding pay by (simp add: add.assoc [symmetric])
  let ?tail = "\<lambda>c. bind_result (dc_memcpy (cmd_write_offsetB c) (concat ms) c) (\<lambda>c.
    bind_result (copy_packed (align_u32 n (l1_align c)) rows (advance (align_u32 (mul32 m ?w) (l1_align c)) c)) (\<lambda>c. Inr (align_offset c)))"
  define Q where Q: "Q = (\<lambda>data. \<exists>rest ch. data = (concat ms @ rest) @ ch \<and> length (concat ms @ rest) = s \<and>
    (\<forall>k < nd. laid_out 0 (rows ! k) (take n (drop (k * ceil_to n 16) ch))))"
  have len: "length (?cmd b) = 16" if "length b = 16" for b
    unfolding write_packed_cmd_def by (rule init_cmd_read(1) [OF that]) (simp_all add: layout_sizes layout_fields)
  have tl: "\<exists>c2 data pad. ?tail c1 = Inr c2 \<and> emits c1 c2 (data @ pad) \<and> length data = ?n \<and>
      32 + length (data @ pad) = ceil_to (32 + ?n) (pcie_align c) \<and> Q data"
    if c1: "same_frame c c1" "cmd_write_offsetB c1 = cmd_write_offsetB c + 32" for c1
  proof -
    note c1_ok = room_32 [OF r' c1]
    have sc: "s = ceil_to (length (concat ms)) 16" by (simp add: s lc)
    have fit1: "cmd_write_offsetB c1 + s \<le> cmd_sequence_sizeB c1" using c1_ok(3) by simp
    have rows: "\<exists>c2 ch. copy_packed (ceil_to n 16) rows c' = Inr c2 \<and> emits c' c2 ch \<and>
        length ch = nd * ceil_to n 16 \<and> (\<forall>k < nd. laid_out 0 (rows ! k) (take n (drop (k * ceil_to n 16) ch)))"
      if "same_frame c1 c'" "cmd_write_offsetB c' = cmd_write_offsetB c1 + s" for c'
      unfolding ds(2) [symmetric]
    proof (rule copy_rows_ok [OF _ _ _ ds(3)])
      show "good c'" by (rule same_frame_good [OF that(1) c1_ok(1)])
      show "uninitialized c' = None" using that(1) c1(1) un by (simp add: same_frame_def)
      show "cmd_write_offsetB c' + length rows * ceil_to n 16 \<le> cmd_sequence_sizeB c'" using that c1_ok(3) ds(2) by (simp add: same_frame_def)
      show "n \<le> ceil_to n 16" by (rule ceil_to_props(2)) simp
    qed
    obtain c2 c3 rest ch where t: "dc_memcpy (cmd_write_offsetB c1) (concat ms) c1 = Inr c2"
      "copy_packed (ceil_to n 16) rows (advance s c2) = Inr c3" "emits c1 c3 ((concat ms @ rest) @ ch)"
      "length (concat ms @ rest) = s" "length ch = nd * ceil_to n 16" "l1_align c2 = 16"
      "\<forall>k < nd. laid_out 0 (rows ! k) (take n (drop (k * ceil_to n 16) ch))"
      using packed_tail_ok [where P = "\<lambda>ch. \<forall>k < nd. laid_out 0 (rows ! k) (take n (drop (k * ceil_to n 16) ch))", OF c1_ok(1,2) fit1 sc rows] by blast
    have ln: "length ((concat ms @ rest) @ ch) = ?n" using t(4,5) by simp
    obtain pad where "emits c1 (align_offset c3) (((concat ms @ rest) @ ch) @ pad)" "32 + length (((concat ms @ rest) @ ch) @ pad) = ceil_to (32 + ?n) (pcie_align c)"
      using aligned_after [OF _ c1 t(3)] r' unfolding ln by blast
    moreover have "?tail c1 = Inr (align_offset c3)" using t(1,2,6) lay(3,4) by simp
    moreover have "Q ((concat ms @ rest) @ ch)" unfolding Q using t(4,7) by blast
    ultimately show ?thesis using ln by blast
  qed
  obtain c' pre b data pad where c': "bind_result (relay_cmd True (16 + ?n) DISPATCH_MASTER ?cmd c) ?tail = Inr c'" "length pre = 16" "length b = 16"
    "length data = ?n" "emits c c' (pre @ (?cmd b @ data) @ pad)" "length (pre @ (?cmd b @ data) @ pad) = ceil_to (32 + ?n) (pcie_align c)" "Q data"
    "\<forall>v. dispatch_view 16 (?cmd b @ data) = Some v \<longrightarrow>
      reads (pcie_align c) 16 ex (pre @ (?cmd b @ data) @ pad) [V_relay True DISPATCH_MASTER v] False"
    using relay_chunk_emits [where tail = ?tail and Q = Q and initialize = ?cmd and flush = True, OF r' n30 _ refl _ len tl] by blast
  obtain rest ch where data: "data = (concat ms @ rest) @ ch" "length (concat ms @ rest) = s"
    "\<forall>k < nd. laid_out 0 (rows ! k) (take n (drop (k * ceil_to n 16) ch))"
    using c'(7) unfolding Q by blast
  define chunk where chunk: "chunk = pre @ (?cmd b @ data) @ pad"
  note c = c'(5,6,8) [folded chunk]
  have d: "take n (drop (32 + s + j) chunk) = take n (drop j ch)" if "j + n \<le> length ch" for j
  proof -
    let ?pre = "pre @ ?cmd b @ concat ms @ rest"
    have "length ?pre = 32 + s" using c'(2) len [OF c'(3)] data(2) by simp
    then have "drop (32 + s + j) (?pre @ ch @ pad) = drop j (ch @ pad)" by (simp del: append_assoc)
    then show ?thesis using that unfolding chunk data(1) by simp
  qed
  have lch: "length ch = nd * ceil_to n 16" using c'(4) data(2) unfolding data(1) by simp
  have row: "k * ceil_to n 16 + n \<le> length ch" if "k < nd" for k
    using that lch ceil_to_props(2) [of 16 n] mult_le_mono1 [of "Suc k" nd "ceil_to n 16"] by simp
  have step: "k * inc + n \<le> length ch" if "k < m" for k using row [of 0] row [of k] that nd inc by (cases no_stride) auto
  have "map (\<lambda>k. take n (drop (k * inc) ch)) [0..<m] = map (\<lambda>k. take n (drop (32 + s + k * inc) chunk)) [0..<m]"
    using d [OF step] by (intro map_cong) auto
  moreover have "dispatch_view 16 (?cmd b @ data) = Some (D_write_packed multicast no_stride ad n idx
      (zip ms (map (\<lambda>k. take n (drop (k * inc) ch)) [0..<m])))"
    using view_write_packed [OF c'(3) v, of multicast no_stride data] rows_read [OF sl(3) data(2), of ch n inc] lay(1) sl(2) data(1) inc by simp
  ultimately have rd: "reads (pcie_align c) 16 ex chunk [V_relay True DISPATCH_MASTER (D_write_packed multicast no_stride ad n idx
      (zip ms (map (\<lambda>k. take n (drop (32 + s + k * inc) chunk)) [0..<m])))] False" using c(3) by (simp only:)
  have l1: "l1_align (advance k c) = l1_align c" for k c by (simp add: advance_def)
  have "write_packed e multicast m ad n (packed_payload multicast m nd n) subs pss max_unicast start no_stride idx c =
      bind_result (relay_cmd True (16 + ?n) DISPATCH_MASTER ?cmd c) ?tail"
    using few ds(1) unfolding pay write_packed_def Let_def sl(1) l1 nd [symmetric] by (simp add: write_packed_cmd_def)
  then have "write_packed e multicast m ad n (packed_payload multicast m nd n) subs pss max_unicast start no_stride idx c = Inr c'"
    using c'(1) by simp
  moreover have "length chunk = ceil_to (16 + packed_payload multicast m nd n) (pcie_align c)" using c(2) unfolding pay by (simp add: add.assoc [symmetric])
  moreover have "\<forall>k < nd. laid_out 0 (rows ! k) (take n (drop (32 + s + k * ceil_to n 16) chunk))" using data(3) d [OF row] by simp
  ultimately show ?thesis using c(1) rd by blast
qed

end
