(* ===== verification/Runtime_Args_Theorems.thy ===== *)
theory Runtime_Args_Theorems
  imports Runtime_Args_Props
begin

text \<open>
  The commands of a launch fit into what the prefetch kernel can take, and the commands for the
  runtime arguments of kernels bring every core its own.
\<close>

section \<open>Commands fit\<close>

definition sizes_ok :: "hal_values \<Rightarrow> nat \<Rightarrow> nat \<Rightarrow> bool" where
  "sizes_ok h k M \<longleftrightarrow> host_alignment h = 2 ^ k \<and> 5 \<le> k \<and> k \<le> 12 \<and> l1_alignment h = 16 \<and> 2 ^ k + 48 \<le> M \<and> M \<le> 2 ^ 30"

lemma sizes_bound: "sizes_ok h k M \<Longrightarrow> (2 :: nat) ^ k \<le> 4096"
  using power_increasing [of k 12 "2 :: nat"] by (simp add: sizes_ok_def)

lemma max_prefetch_size_eq:
  assumes "sizes_ok h k M"
  shows "max_prefetch_size h M = M - (2 ^ k + 48)"
proof -
  define a where a: "a = (2 :: nat) ^ k"
  have b: "a + 48 \<le> M" "M < 2 ^ 32" using assms by (auto simp: sizes_ok_def a)
  have "sub32 M 16 = M - 16" using b by (intro sub32_small) auto
  moreover have "sub32 (M - 16) a = M - 16 - a" using b by (intro sub32_small) auto
  moreover have "sub32 (M - 16 - a) 16 = M - 32 - a" using b sub32_small [of 16 "M - 16 - a"] by simp
  moreover have "sub32 (M - 32 - a) 16 = M - (a + 48)" using b sub32_small [of 16 "M - 32 - a"] by simp
  ultimately show ?thesis using assms by (simp add: sizes_ok_def max_prefetch_size_def CMD_SIZE_def a)
qed

lemma packed_command_fits:
  assumes "sizes_ok h k M" "m \<le> get_max_write_packed_sub_cmds h multicast data_size M max_unicast no_stride" "4 * data_size < 2 ^ 31"
    "nd = (if no_stride then 1 else m)" "n \<le> 4 * data_size" "no_stride \<Longrightarrow> ceil_to (4 * data_size) 16 \<le> M - (2 ^ k + 48)"
  shows "ceil_to (16 + packed_payload multicast m nd n) (2 ^ k) \<le> M"
proof -
  let ?w = "packed_sub_cmd_size multicast" and ?D = "ceil_to (4 * data_size) 16" and ?R = "M - (2 ^ k + 48)"
  have D: "align_u32 (mul32 data_size 4) (l1_alignment h) = ?D"
    using align_pow2 [of "4 * data_size" 4] assms(1,3) by (simp add: sizes_ok_def mul32_def mult.commute)
  have Db: "?D < 2 ^ 31 + 16" using ceil_to_props(3) [of 16 "4 * data_size"] assms(3) by simp
  have w: "0 < ?w" "?w \<le> 8" by (auto simp: packed_sub_cmd_sizes)
  have "m * ?w + nd * ?D \<le> ?R"
  proof (cases no_stride)
    case True
    have "sub32 ?R ?D = ?R - ?D" using assms(1,6) True by (intro sub32_small) (auto simp: sizes_ok_def)
    then have "m \<le> (?R - ?D) div ?w" using assms(2) True max_prefetch_size_eq [OF assms(1)] D
      by (simp add: get_max_write_packed_sub_cmds_def Let_def)
    then have "m * ?w \<le> ?R - ?D" using w(1) by (simp add: less_eq_div_iff_mult_less_eq)
    then show ?thesis using assms(4,6) True by simp
  next
    case False
    have "add32 ?D ?w = ?D + ?w" using Db w(2) by (intro add32_small) simp
    then have "m \<le> ?R div (?D + ?w)" using assms(2) False max_prefetch_size_eq [OF assms(1)] D
      by (simp add: get_max_write_packed_sub_cmds_def Let_def)
    then have "m * (?D + ?w) \<le> ?R" using w(1) by (simp add: less_eq_div_iff_mult_less_eq)
    then show ?thesis using assms(4) False by (simp add: algebra_simps)
  qed
  moreover have "ceil_to n 16 \<le> ?D"
    by (rule ceil_to_least) (use assms(5) ceil_to_props(1,2) [of 16 "4 * data_size"] in auto)
  then have "nd * ceil_to n 16 \<le> nd * ?D" by (rule mult_le_mono2)
  moreover have "ceil_to (16 + m * ?w) 16 < 16 + m * ?w + 16" by (rule ceil_to_props(3)) simp
  ultimately have "16 + packed_payload multicast m nd n < 48 + ?R" unfolding packed_payload_def by linarith
  moreover have "ceil_to (16 + packed_payload multicast m nd n) (2 ^ k) < 16 + packed_payload multicast m nd n + 2 ^ k"
    by (rule ceil_to_props(3)) simp
  ultimately show ?thesis using assms(1) by (simp add: sizes_ok_def)
qed

section \<open>Splitting sub-commands\<close>

definition split_ok :: "nat \<Rightarrow> bool \<Rightarrow> nat \<Rightarrow> nat \<Rightarrow> nat \<Rightarrow> (nat \<times> nat) list \<Rightarrow> bool" where
  "split_ok k multicast mx n M ps \<longleftrightarrow> (\<forall>(m, p) \<in> set ps. 0 < m \<and> m \<le> mx \<and> p = packed_payload multicast m m n \<and> ceil_to (16 + p) (2 ^ k) \<le> M)"

lemma payload_step:
  assumes so: "sizes_ok h k M" and n: "4 * ceil_to n 16 < 2 ^ 31"
    and m: "m \<le> get_max_write_packed_sub_cmds h multicast (ceil_to n 16) M max_unicast False"
  shows "add32 (align_u32 (add32 CMD_SIZE (mul32 m (packed_sub_cmd_size multicast))) (l1_alignment h)) (mul32 (ceil_to n 16) m) =
      packed_payload multicast m m n"
    "align_u32 (add32 CMD_SIZE (packed_payload multicast m m n)) (host_alignment h) = ceil_to (16 + packed_payload multicast m m n) (2 ^ k)"
    "ceil_to (16 + packed_payload multicast m m n) (2 ^ k) \<le> M"
proof -
  let ?w = "packed_sub_cmd_size multicast" and ?p = "packed_payload multicast m m n"
  have h: "host_alignment h = 2 ^ k" "l1_alignment h = 16" "k \<le> 12" "M \<le> 2 ^ 30" using so by (auto simp: sizes_ok_def)
  show fits: "ceil_to (16 + ?p) (2 ^ k) \<le> M"
    by (rule packed_command_fits [OF so m n]) (use ceil_to_props(2) [of 16 n] in auto)
  have "16 + ?p \<le> ceil_to (16 + ?p) (2 ^ k)" by (rule ceil_to_props(2)) simp
  then have p: "16 + ?p \<le> 1073741824" using fits h(4) by simp
  have le: "16 + m * ?w \<le> ceil_to (16 + m * ?w) 16" by (rule ceil_to_props(2)) simp
  have sz: "16 + m * ?w < 2147483648" "m * ceil_to n 16 < 2147483648" using le p unfolding packed_payload_def by simp_all
  have "align_u32 (add32 CMD_SIZE (mul32 m ?w)) (l1_alignment h) = ceil_to (16 + m * ?w) 16"
    using align_pow2 [of "16 + m * ?w" 4] sz h(2) by (simp add: add32_def mul32_def CMD_SIZE_def)
  then show "add32 (align_u32 (add32 CMD_SIZE (mul32 m ?w)) (l1_alignment h)) (mul32 (ceil_to n 16) m) = ?p"
    using p sz by (simp add: add32_def mul32_def mult.commute packed_payload_def)
  show "align_u32 (add32 CMD_SIZE ?p) (host_alignment h) = ceil_to (16 + ?p) (2 ^ k)"
    using align_pow2 [of "16 + ?p" k] p h by (simp add: add32_def CMD_SIZE_def)
qed

lemma payload_loop_ok:
  assumes so: "sizes_ok h k M" and n: "4 * ceil_to n 16 < 2 ^ 31" and mx: "0 < mx"
    "mx \<le> get_max_write_packed_sub_cmds h multicast (ceil_to n 16) M max_unicast False" and t: "t < 2 ^ 32" "left < 2 ^ 32"
  shows "\<exists>ps. payload_loop h multicast (ceil_to n 16) mx left t old =
      Some ((t + (\<Sum>(m, p) \<leftarrow> ps. ceil_to (16 + p) (2 ^ k))) mod 2 ^ 32, old @ ps) \<and>
    sum_list (map fst ps) = left \<and> split_ok k multicast mx n M ps"
  using t
proof (induction left arbitrary: t old rule: less_induct)
  case (less left)
  show ?case
  proof (cases "left = 0")
    case True
    then show ?thesis using less.prems by (intro exI [of _ "[]"]) (simp add: payload_loop.simps split_ok_def)
  next
    case False
    define m where m: "m = min mx left"
    have m0: "0 < m" "m \<le> left" "m \<le> mx" using mx(1) False by (auto simp: m)
    note st = payload_step [OF so n order_trans [OF m0(3) mx(2)]]
    let ?p = "packed_payload multicast m m n"
    let ?c = "ceil_to (16 + ?p) (2 ^ k)"
    have sub: "sub32 left m = left - m" using m0 less.prems by (intro sub32_small) auto
    have smaller: "left - m < left" using m0 False by simp
    have bounds: "add32 t ?c < 2 ^ 32" "left - m < 2 ^ 32" using less.prems(2) by (simp_all add: add32_def)
    obtain ps where ps: "payload_loop h multicast (ceil_to n 16) mx (left - m) (add32 t ?c) (old @ [(m, ?p)]) =
        Some ((add32 t ?c + (\<Sum>(m, p) \<leftarrow> ps. ceil_to (16 + p) (2 ^ k))) mod 2 ^ 32, (old @ [(m, ?p)]) @ ps)"
      "sum_list (map fst ps) = left - m" "split_ok k multicast mx n M ps"
      using less.IH [OF smaller bounds, of "old @ [(m, ?p)]"] by blast
    have "payload_loop h multicast (ceil_to n 16) mx left t old =
        payload_loop h multicast (ceil_to n 16) mx (left - m) (add32 t ?c) (old @ [(m, ?p)])"
      using False by (subst payload_loop.simps) (simp add: Let_def m [symmetric] st(1,2) sub)
    moreover have "(add32 t ?c + (\<Sum>(m, p) \<leftarrow> ps. ceil_to (16 + p) (2 ^ k))) mod 2 ^ 32 =
        (t + (\<Sum>(m, p) \<leftarrow> (m, ?p) # ps. ceil_to (16 + p) (2 ^ k))) mod 2 ^ 32"
      by (simp add: add32_def mod_add_left_eq add.assoc)
    ultimately show ?thesis using ps m0 st(3) by (intro exI [of _ "(m, ?p) # ps"]) (simp add: split_ok_def)
  qed
qed

lemma payload_loop_zero:
  assumes "payload_loop h multicast A mx left t old = Some y"
  shows "mx = 0 \<longrightarrow> left = 0 \<or> 2 ^ 32 \<le> left"
proof (rule payload_loop.raw_induct [where P = "\<lambda>h multicast A mx left t old y. mx = 0 \<longrightarrow> left = 0 \<or> 2 ^ 32 \<le> left", OF _ assms], goal_cases)
  case (1 loop h multicast A mx left t old y)
  show ?case
  proof
    assume z: "mx = 0"
    show "left = 0 \<or> 2 ^ 32 \<le> left"
    proof (cases "left = 0 \<or> 2 ^ 32 \<le> left")
      case False
      then obtain t' old' where "loop h multicast A mx (sub32 left (min mx left)) t' old' = Some y" using 1(2) unfolding Let_def by auto
      from 1(1) [OF this] show ?thesis using z False by (auto simp: sub32_small)
    qed
  qed
qed

text \<open>
  C37: The sub-commands of a packed write are split over several commands. If the maximum computed
  for one command is positive, the loop ends, every sub-command is in exactly one command, no
  command has more than the maximum, its announced payload is what the builder writes, the whole
  command fits into what the prefetch kernel can take, and the sizes are added up; if the maximum
  is zero the loop never ends.
\<close>

theorem packed_payloads_split:
  assumes "sizes_ok h k M" "4 * ceil_to n 16 < 2 ^ 31" "num < 2 ^ 32"
    and mx: "mx = get_max_write_packed_sub_cmds h multicast (ceil_to n 16) M max_unicast False"
  shows "(0 < mx \<longrightarrow> (\<exists>ps. insert_write_packed_payloads h multicast num n M max_unicast old =
        Some ((\<Sum>(m, p) \<leftarrow> ps. ceil_to (16 + p) (2 ^ k)) mod 2 ^ 32, old @ ps) \<and> sum_list (map fst ps) = num \<and>
      (\<forall>(m, p) \<in> set ps. 0 < m \<and> m \<le> mx \<and> p = packed_payload multicast m m n \<and> ceil_to (16 + p) (2 ^ k) \<le> M))) \<and>
    (mx = 0 \<longrightarrow> 0 < num \<longrightarrow> insert_write_packed_payloads h multicast num n M max_unicast old = None)"
proof (intro conjI impI)
  have a: "align_u32 n (l1_alignment h) = ceil_to n 16"
    using align_pow2 [of n 4] ceil_to_props(2) [of 16 n] assms(1,2) by (simp add: sizes_ok_def)
  show "\<exists>ps. insert_write_packed_payloads h multicast num n M max_unicast old =
      Some ((\<Sum>(m, p) \<leftarrow> ps. ceil_to (16 + p) (2 ^ k)) mod 2 ^ 32, old @ ps) \<and> sum_list (map fst ps) = num \<and>
    (\<forall>(m, p) \<in> set ps. 0 < m \<and> m \<le> mx \<and> p = packed_payload multicast m m n \<and> ceil_to (16 + p) (2 ^ k) \<le> M)" if "0 < mx"
    using payload_loop_ok [OF assms(1,2) that _ _ assms(3), of multicast max_unicast 0 old] mx
    by (simp add: insert_write_packed_payloads_def a Let_def split_ok_def)
  show "insert_write_packed_payloads h multicast num n M max_unicast old = None" if "mx = 0" "0 < num"
  proof (rule ccontr)
    assume "insert_write_packed_payloads h multicast num n M max_unicast old \<noteq> None"
    then obtain y where "payload_loop h multicast (ceil_to n 16) mx num 0 old = Some y"
      using mx by (auto simp: insert_write_packed_payloads_def a Let_def)
    then show False using payload_loop_zero that assms(3) by fastforce
  qed
qed

theorem packed_payloads_split_witness:
  "(\<exists>ps. insert_write_packed_payloads (example_hal 32) False 3000 16 131072 1020 [] =
      Some ((\<Sum>(m, p) \<leftarrow> ps. ceil_to (16 + p) (2 ^ 5)) mod 2 ^ 32, ps) \<and> sum_list (map fst ps) = 3000) \<and>
    insert_write_packed_payloads (example_hal 32) False 1 40000 131072 1020 [] = None"
proof -
  have so: "sizes_ok (example_hal 32) 5 131072" by (simp add: sizes_ok_def example_hal_def)
  have mx: "get_max_write_packed_sub_cmds (example_hal 32) False (ceil_to 16 16) 131072 1020 False = 1020"
    "get_max_write_packed_sub_cmds (example_hal 32) False (ceil_to 40000 16) 131072 1020 False = 0"
    using max_prefetch_size_eq [OF so] align_pow2 [of 64 4] align_pow2 [of 160000 4]
    by (simp_all add: get_max_write_packed_sub_cmds_def Let_def packed_sub_cmd_sizes ceil_to_def example_hal_def mul32_def add32_def)
  have "\<exists>ps. insert_write_packed_payloads (example_hal 32) False 3000 16 131072 1020 [] =
      Some ((\<Sum>(m, p) \<leftarrow> ps. ceil_to (16 + p) (2 ^ 5)) mod 2 ^ 32, ps) \<and> sum_list (map fst ps) = 3000"
    using packed_payloads_split [OF so _ _ mx(1) [symmetric], of 3000 "[]"] by (auto simp: ceil_to_def)
  moreover have "insert_write_packed_payloads (example_hal 32) False 1 40000 131072 1020 [] = None"
    using packed_payloads_split [OF so _ _ mx(2) [symmetric], of 1 "[]"] by (auto simp: ceil_to_def)
  ultimately show ?thesis by blast
qed

section \<open>One command of runtime arguments\<close>

definition rt_size :: "rt_params \<Rightarrow> nat" where "rt_size r = 4 * max_runtime_args_len r"

definition rt_rows :: "rt_params \<Rightarrow> nat \<Rightarrow> nat" where "rt_rows r m = (if rt_no_stride r then 1 else m)"

definition rt_row :: "rt_params \<Rightarrow> nat \<Rightarrow> nat" where "rt_row r k = (if rt_no_stride r then 0 else k)"

text \<open>
  What the callers guarantee: sub-commands of the right size, the data of one core each, or one
  for all, in pieces that fit, with the number of arguments of each kernel as its distance.
\<close>

definition rt_ok :: "rt_params \<Rightarrow> nat \<Rightarrow> nat \<Rightarrow> bool" where
  "rt_ok r k M \<longleftrightarrow> sizes_ok (rt_hal r) k M \<and> l1_arg_base_addr r < 2 ^ 32 \<and> rt_write_offset_index r < 2 ^ 16 \<and> rt_size r < 2 ^ 16 \<and>
     rt_sub_cmds r \<noteq> [] \<and> length (rt_sub_cmds r) < 2 ^ 16 \<and> (\<forall>x \<in> set (rt_sub_cmds r). length x = packed_sub_cmd_size (rt_multicast r)) \<and>
     length (rt_data_and_sizes r) = rt_rows r (length (rt_sub_cmds r)) \<and> (\<forall>ps \<in> set (rt_data_and_sizes r). pieces_ok (rt_size r) ps) \<and>
     map (map (\<lambda>count. 4 * count)) (rt_args_counts r) = map (map snd) (rt_data_and_sizes r) \<and>
     (rt_no_stride r \<longrightarrow> ceil_to (rt_size r) 16 \<le> M - (2 ^ k + 48))"

definition rt_place :: "rt_params \<Rightarrow> nat \<Rightarrow> nat" where
  "rt_place r m = 32 + ceil_to (m * packed_sub_cmd_size (rt_multicast r)) 16"

definition rt_entries :: "rt_params \<Rightarrow> nat \<Rightarrow> nat \<Rightarrow> byte list \<Rightarrow> (byte list \<times> byte list) list" where
  "rt_entries r m start region = zip (take m (drop start (rt_sub_cmds r)))
     (map (\<lambda>j. take (rt_size r) (drop (rt_place r m + j * (if rt_no_stride r then 0 else ceil_to (rt_size r) 16)) region)) [0..<m])"

definition rt_view :: "rt_params \<Rightarrow> (byte list \<times> byte list) list \<Rightarrow> device_view" where
  "rt_view r entries = V_relay True DISPATCH_MASTER
     (D_write_packed (rt_multicast r) (rt_no_stride r) (l1_arg_base_addr r) (rt_size r) (rt_write_offset_index r) entries)"

lemma runtime_payload_eq:
  assumes ok: "rt_ok r k M" and m: "m \<le> rt_max_packed_cmds r M" "m < 2 ^ 16"
  shows "get_runtime_payload_sizeB (rt_hal r) (rt_multicast r) m (max_runtime_args_len r) (rt_no_stride r) =
      packed_payload (rt_multicast r) m (rt_rows r m) (rt_size r)"
    "ceil_to (16 + packed_payload (rt_multicast r) m (rt_rows r m) (rt_size r)) (2 ^ k) \<le> M"
    "align_u32 (add32 CMD_SIZE (packed_payload (rt_multicast r) m (rt_rows r m) (rt_size r))) (host_alignment (rt_hal r)) =
      ceil_to (16 + packed_payload (rt_multicast r) m (rt_rows r m) (rt_size r)) (2 ^ k)"
    "packed_payload (rt_multicast r) m (rt_rows r m) (rt_size r) \<le> 2 ^ 30"
proof -
  let ?n = "rt_size r" and ?p = "packed_payload (rt_multicast r) m (rt_rows r m) (rt_size r)"
  have so: "sizes_ok (rt_hal r) k M" and n: "?n < 2 ^ 16" using ok by (auto simp: rt_ok_def)
  then have h: "host_alignment (rt_hal r) = 2 ^ k" "l1_alignment (rt_hal r) = 16" "k \<le> 12" "M \<le> 2 ^ 30" by (auto simp: sizes_ok_def)
  show fits: "ceil_to (16 + ?p) (2 ^ k) \<le> M"
    by (rule packed_command_fits [OF so m(1) [unfolded rt_max_packed_cmds_def]]) (use n ok in \<open>auto simp: rt_size_def rt_rows_def rt_ok_def\<close>)
  have "16 + ?p \<le> ceil_to (16 + ?p) (2 ^ k)" by (rule ceil_to_props(2)) simp
  then have p: "16 + ?p \<le> 1073741824" using fits h(4) by simp
  then show "?p \<le> 2 ^ 30" by simp
  show "align_u32 (add32 CMD_SIZE ?p) (host_alignment (rt_hal r)) = ceil_to (16 + ?p) (2 ^ k)"
    using align_pow2 [of "16 + ?p" k] p h by (simp add: add32_def CMD_SIZE_def)
  note lay = packed_layout [where multicast = "rt_multicast r", OF m(2) n refl]
  let ?s = "ceil_to (m * packed_sub_cmd_size (rt_multicast r)) 16"
  have sz: "?s < 1073741824" "rt_rows r m * ceil_to ?n 16 < 1073741824" using p unfolding lay(2) by simp_all
  have len: "mul32 (max_runtime_args_len r) 4 = ?n" using n by (simp add: rt_size_def mul32_def mult.commute)
  have "get_runtime_payload_sizeB (rt_hal r) (rt_multicast r) m (max_runtime_args_len r) (rt_no_stride r) =
      add32 (add32 16 ?s) (mul32 (rt_rows r m) (ceil_to ?n 16))"
    using lay(3,4) h(2) len by (simp add: get_runtime_payload_sizeB_def Let_def CMD_SIZE_def rt_rows_def)
  then show "get_runtime_payload_sizeB (rt_hal r) (rt_multicast r) m (max_runtime_args_len r) (rt_no_stride r) = ?p"
    using sz p unfolding lay(2) by (simp add: add32_def mul32_def)
qed

lemma runtime_args_cmd_ok:
  assumes ok: "rt_ok r k M" and m: "0 < m" "start + m \<le> length (rt_sub_cmds r)" "m \<le> rt_max_packed_cmds r M" and st: "rt_no_stride r \<Longrightarrow> start = 0"
  shows "\<exists>c. runtime_args_cmd r m start = Inr c \<and> length (cmd_region c) = cmd_sequence_sizeB c \<and> cmd_sequence_sizeB c \<le> M \<and>
    device_reads (2 ^ k) 16 False (cmd_region c) = Some [rt_view r (rt_entries r m start (cmd_region c))] \<and>
    (\<forall>j < rt_rows r m. laid_out 0 (rt_data_and_sizes r ! (start + j)) (take (rt_size r) (drop (rt_place r m + j * ceil_to (rt_size r) 16) (cmd_region c))))"
proof -
  let ?mc = "rt_multicast r" and ?n = "rt_size r" and ?nd = "rt_rows r m" and ?ns = "rt_no_stride r"
  let ?p = "packed_payload ?mc m ?nd ?n" and ?ms = "take m (drop start (rt_sub_cmds r))" and ?rows = "take ?nd (drop start (rt_data_and_sizes r))"
  let ?s = "ceil_to (m * packed_sub_cmd_size ?mc) 16" and ?inc = "if ?ns then 0 else ceil_to ?n 16"
  have so: "sizes_ok (rt_hal r) k M" and n: "?n < 2 ^ 16" and m16: "m < 2 ^ 16" using ok m(2) by (auto simp: rt_ok_def)
  then have h: "host_alignment (rt_hal r) = 2 ^ k" "5 \<le> k" "k \<le> 12" "l1_alignment (rt_hal r) = 16" "M \<le> 2 ^ 30" by (auto simp: sizes_ok_def)
  note pay = runtime_payload_eq [OF ok m(3) m16]
  let ?sz = "ceil_to (16 + ?p) (2 ^ k)"
  have dv: "2 ^ k dvd ?sz" "(4 :: nat) dvd 2 ^ k" using le_imp_power_dvd [of 2 k "2 :: nat"] h(2) by (auto simp: ceil_to_props(1))
  have "4 dvd ?sz" using dvd_trans [OF dv(2,1)] .
  then obtain c where c: "host_command_new (rt_hal r) (rt_zero_init r) ?sz = Inr c" and un: "uninitialized c = None"
    by (auto simp: host_command_new_def check_sequence_size_def)
  have "fresh_command (rt_hal r) ?sz c" using c by (auto simp: fresh_command_def)
  note f = fresh_command_good [OF this h(1-4) dv(1)]
  have lt: "?sz < 2 ^ 31" using pay(2) h(5) by simp
  have r: "room c (ceil_to (16 + ?p) (pcie_align c))" using f lt by (simp add: room_def)
  have sub: "sub_cmd_bytes start m (rt_sub_cmds r) = Inr (concat ?ms)" "length ?ms = m" "\<forall>x \<in> set ?ms. length x = packed_sub_cmd_size ?mc"
    using m(2) ok by (auto simp: sub_cmd_bytes_def rt_ok_def dest!: in_set_takeD in_set_dropD)
  have fit: "start + ?nd \<le> length (rt_data_and_sizes r)" using ok m st by (auto simp: rt_ok_def rt_rows_def)
  have rows: "packed_slice start ?nd (rt_data_and_sizes r) = Inr ?rows" "length ?rows = ?nd" "\<forall>ps \<in> set ?rows. pieces_ok ?n ps"
    using fit ok by (auto simp: packed_slice_def rt_ok_def dest!: in_set_takeD in_set_dropD)
  have few: "m \<le> (if ?mc then get_packed_write_max_multicast_sub_cmds (rt_max_unicast r) else rt_max_unicast r)"
    using m(3) by (simp add: rt_max_packed_cmds_def get_max_write_packed_sub_cmds_def Let_def)
  have args: "rt_write_offset_index r < 2 ^ 16" "l1_arg_base_addr r < 2 ^ 32" using ok by (auto simp: rt_ok_def)
  let ?w = "write_packed (Tt_assert ''Max number of packed sub commands'') ?mc m (l1_arg_base_addr r) ?n ?p (rt_sub_cmds r)
    (rt_data_and_sizes r) (rt_max_unicast r) start ?ns (rt_write_offset_index r) c"
  let ?es = "\<lambda>ch. zip ?ms (map (\<lambda>k. take ?n (drop (32 + ?s + k * ?inc) ch)) [0..<m])"
  have "\<exists>c' ch. ?w = Inr c' \<and> emits c c' ch \<and> length ch = ceil_to (16 + ?p) (pcie_align c) \<and>
      reads (pcie_align c) 16 False ch [V_relay True DISPATCH_MASTER (D_write_packed ?mc ?ns (l1_arg_base_addr r) ?n (rt_write_offset_index r) (?es ch))] False \<and>
      (\<forall>k < ?nd. laid_out 0 (?rows ! k) (take ?n (drop (32 + ?s + k * ceil_to ?n 16) ch)))"
    by (rule write_packed_pieces_ok [OF r un m16 args n pay(4) sub rows _ few refl refl]) (simp add: rt_rows_def)
  then obtain c' ch where w: "?w = Inr c'" "emits c c' ch" "length ch = ceil_to (16 + ?p) (pcie_align c)"
      "reads (pcie_align c) 16 False ch [rt_view r (?es ch)] False"
      "\<forall>k < ?nd. laid_out 0 (?rows ! k) (take ?n (drop (32 + ?s + k * ceil_to ?n 16) ch))"
    unfolding rt_view_def by (elim exE conjE)
  have fr: "cmd_sequence_sizeB c' = ?sz" "length (cmd_region c') = ?sz" "cmd_write_offsetB c' = ?sz" "take (cmd_write_offsetB c') (cmd_region c') = ch"
    using w(2,3) f(2,3,4) [OF lt] f(1) [OF lt] by (auto simp: emits_def same_frame_def good_def)
  then have region: "cmd_region c' = ch" by simp
  have "device_reads (pcie_align c) 16 False [] = Some []" by (simp add: device_reads_def prefetch_walk.simps)
  then have "device_reads (2 ^ k) 16 False ch = Some [rt_view r (?es ch)]" using w(4) f(4) [OF lt] unfolding reads_def by (metis append_Nil2 option.simps(9))
  moreover have "runtime_args_cmd r m start = Inr c'" using c w(1) pay(1,3) m16 n
    by (simp add: runtime_args_cmd_def Let_def add_dispatch_write_packed_pieces_def rt_size_def mul32_def mult.commute)
  ultimately show ?thesis using fr(1,2) region pay(2) w(5) fit
    by (intro exI [of _ c']) (simp add: rt_entries_def rt_place_def nth_take)
qed

section \<open>Pointers to the arguments\<close>

lemma length_arg_pointers: "length (arg_pointers i off counts) = length counts"
  by (induction counts arbitrary: off) auto

lemma arg_pointers_nth:
  assumes "off + 4 * sum_list counts < 2 ^ 32" "j < length counts"
  shows "arg_pointers i off counts ! j = (i, off + 4 * sum_list (take j counts))"
  using assms
proof (induction counts arbitrary: off j)
  case (Cons count counts)
  have "add32 off (mul32 count 4) = off + 4 * count" using Cons.prems(1) by (simp add: add32_def mul32_def)
  then show ?case using Cons by (cases j) auto
qed simp

lemma length_cmd_pointers: "length (cmd_pointers i base inc rows) = length rows"
  by (induction rows arbitrary: base) auto

lemma cmd_pointers_nth:
  assumes "base + length rows * inc < 2 ^ 32" "j < length rows"
  shows "cmd_pointers i base inc rows ! j = arg_pointers i (base + j * inc) (rows ! j)"
  using assms
proof (induction rows arbitrary: base j)
  case (Cons counts rows)
  have "add32 base inc = base + inc" using Cons.prems(1) by (simp add: add32_def)
  then show ?case using Cons by (cases j) (auto simp: add.assoc)
qed simp

lemma runtime_args_pointers_ok:
  assumes ok: "rt_ok r k M" and m: "0 < m" "start + m \<le> length (rt_sub_cmds r)" "m \<le> rt_max_packed_cmds r M" and st: "rt_no_stride r \<Longrightarrow> start = 0"
  shows "\<exists>ps. runtime_args_pointers r i m start = Inr ps \<and> length ps = rt_rows r m \<and>
    (\<forall>j < rt_rows r m. ps ! j = arg_pointers i (rt_place r m + j * ceil_to (rt_size r) 16) (rt_args_counts r ! (start + j)) \<and>
      rt_place r m + j * ceil_to (rt_size r) 16 + rt_size r \<le> M)"
proof -
  let ?n = "rt_size r" and ?nd = "rt_rows r m" and ?s = "ceil_to (m * packed_sub_cmd_size (rt_multicast r)) 16"
  have so: "sizes_ok (rt_hal r) k M" and n: "?n < 2 ^ 16" and m16: "m < 2 ^ 16" using ok m(2) by (auto simp: rt_ok_def)
  then have h: "l1_alignment (rt_hal r) = 16" "M \<le> 1073741824" by (auto simp: sizes_ok_def)
  note lay = packed_layout [where multicast = "rt_multicast r", OF m16 n refl]
  have "16 + packed_payload (rt_multicast r) m ?nd ?n \<le> M"
    using runtime_payload_eq(2) [OF ok m(3) m16] ceil_to_props(2) [of "2 ^ k" "16 + packed_payload (rt_multicast r) m ?nd ?n"] by simp
  then have p: "32 + ?s + ?nd * ceil_to ?n 16 \<le> M" unfolding lay(2) by simp
  have "map (map (\<lambda>count. 4 * count)) (rt_args_counts r) = map (map snd) (rt_data_and_sizes r)" using ok by (simp add: rt_ok_def)
  then have lc: "length (rt_args_counts r) = length (rt_data_and_sizes r)" by (rule map_eq_imp_length_eq)
  have fit: "start + ?nd \<le> length (rt_args_counts r)" using ok m st lc by (auto simp: rt_ok_def rt_rows_def)
  have off: "get_runtime_args_data_offset (rt_hal r) (rt_multicast r) m = rt_place r m"
    using lay(3) h p by (simp add: get_runtime_args_data_offset_def rt_place_def CMD_SIZE_def add32_def)
  let ?ps = "cmd_pointers i (rt_place r m) (ceil_to ?n 16) (take ?nd (drop start (rt_args_counts r)))"
  have len: "mul32 (max_runtime_args_len r) 4 = ?n" using n by (simp add: rt_size_def mul32_def mult.commute)
  have "runtime_args_pointers r i m start = Inr ?ps" using fit off lay(4) h(1) len
    by (simp add: runtime_args_pointers_def packed_slice_def rt_rows_def)
  moreover have "?ps ! j = arg_pointers i (rt_place r m + j * ceil_to ?n 16) (rt_args_counts r ! (start + j))" if "j < ?nd" for j
    using cmd_pointers_nth [of "rt_place r m" "take ?nd (drop start (rt_args_counts r))" "ceil_to ?n 16" j i] that fit p h(2) by (simp add: rt_place_def)
  moreover have "rt_place r m + j * ceil_to ?n 16 + ?n \<le> M" if "j < ?nd" for j
    using p ceil_to_props(2) [of 16 ?n] mult_le_mono1 [of "Suc j" ?nd "ceil_to ?n 16"] that by (simp add: rt_place_def)
  ultimately show ?thesis using fit by (intro exI [of _ ?ps]) (simp add: length_cmd_pointers)
qed

section \<open>All commands\<close>

definition delivered :: "rt_params \<Rightarrow> nat \<Rightarrow> nat \<Rightarrow> nat \<Rightarrow> nat \<Rightarrow> device_command list \<Rightarrow> (nat \<times> u32) list list \<Rightarrow>
    (byte list \<times> byte list) list list \<Rightarrow> bool" where
  "delivered r k M start fst_cmd cmds ptrs entries \<longleftrightarrow>
     (\<forall>c \<in> set cmds. length (cmd_region c) = cmd_sequence_sizeB c \<and> cmd_sequence_sizeB c \<le> M) \<and>
     list_all2 (\<lambda>c es. device_reads (2 ^ k) 16 False (cmd_region c) = Some [rt_view r es]) cmds entries \<and>
     map fst (concat entries) = drop start (rt_sub_cmds r) \<and>
     (\<forall>j < length (concat entries). laid_out 0 (rt_data_and_sizes r ! rt_row r (start + j)) (snd (concat entries ! j))) \<and>
     length ptrs = length (rt_data_and_sizes r) - start \<and>
     (\<forall>j < length ptrs. \<exists>i base. i < length cmds \<and> base + rt_size r \<le> M \<and>
        ptrs ! j = arg_pointers (fst_cmd + i) base (rt_args_counts r ! (start + j)) \<and>
        snd (concat entries ! j) = take (rt_size r) (drop base (cmd_region (cmds ! i))))"

lemma delivered_Nil: "rt_ok r k M \<Longrightarrow> delivered r k M (length (rt_sub_cmds r)) i [] [] []"
  by (cases "rt_sub_cmds r") (auto simp: delivered_def rt_ok_def rt_rows_def)

lemma rt_entries_nth:
  assumes "start + m \<le> length (rt_sub_cmds r)" "j < m"
  shows "snd (rt_entries r m start region ! j) =
    take (rt_size r) (drop (rt_place r m + j * (if rt_no_stride r then 0 else ceil_to (rt_size r) 16)) region)"
  using assms by (simp add: rt_entries_def)

lemma rt_entries_fst:
  assumes "start + m \<le> length (rt_sub_cmds r)"
  shows "length (rt_entries r m start region) = m" "map fst (rt_entries r m start region) = take m (drop start (rt_sub_cmds r))"
  using assms by (simp_all add: rt_entries_def)

lemma delivered_Cons:
  assumes ok: "rt_ok r k M" and m: "0 < m" "start + m \<le> length (rt_sub_cmds r)"
    and st: "rt_no_stride r \<Longrightarrow> start = 0 \<and> m = length (rt_sub_cmds r)"
    and c: "length (cmd_region c) = cmd_sequence_sizeB c" "cmd_sequence_sizeB c \<le> M"
      "device_reads (2 ^ k) 16 False (cmd_region c) = Some [rt_view r (rt_entries r m start (cmd_region c))]"
      "\<forall>j < rt_rows r m. laid_out 0 (rt_data_and_sizes r ! (start + j)) (take (rt_size r) (drop (rt_place r m + j * ceil_to (rt_size r) 16) (cmd_region c)))"
    and ps: "length ps = rt_rows r m" "\<forall>j < rt_rows r m. ps ! j = arg_pointers i (rt_place r m + j * ceil_to (rt_size r) 16) (rt_args_counts r ! (start + j)) \<and>
      rt_place r m + j * ceil_to (rt_size r) 16 + rt_size r \<le> M"
    and d: "delivered r k M (start + m) (Suc i) cmds ptrs entries"
  shows "delivered r k M start i (c # cmds) (ps @ ptrs) (rt_entries r m start (cmd_region c) # entries)"
proof -
  let ?es = "rt_entries r m start (cmd_region c)" and ?D = "length (rt_data_and_sizes r)"
  note es = rt_entries_fst [OF m(2), of "cmd_region c"]
  have D: "?D = rt_rows r (length (rt_sub_cmds r))" using ok by (simp add: rt_ok_def)
  have view: "laid_out 0 (rt_data_and_sizes r ! rt_row r (start + j)) (snd (?es ! j))" if "j < m" for j
    using c(4) st that rt_entries_nth [OF m(2) that] by (cases "rt_no_stride r") (auto simp: rt_rows_def rt_row_def)
  have "map fst (concat (?es # entries)) = drop start (rt_sub_cmds r)"
    using d es(2) by (simp add: delivered_def add.commute) (metis append_take_drop_id drop_drop)
  moreover have "laid_out 0 (rt_data_and_sizes r ! rt_row r (start + j)) (snd (concat (?es # entries) ! j))" if "j < length (concat (?es # entries))" for j
  proof (cases "j < m")
    case True
    then show ?thesis using view es(1) by (simp add: nth_append)
  next
    case False
    then show ?thesis using d that es(1) by (auto simp: delivered_def nth_append dest!: spec [of _ "j - m"])
  qed
  moreover have len: "length (ps @ ptrs) = ?D - start" using d ps(1) m st D by (auto simp: delivered_def rt_rows_def)
  moreover have "\<exists>i' base. i' < length (c # cmds) \<and> base + rt_size r \<le> M \<and> (ps @ ptrs) ! j = arg_pointers (i + i') base (rt_args_counts r ! (start + j)) \<and>
      snd (concat (?es # entries) ! j) = take (rt_size r) (drop base (cmd_region ((c # cmds) ! i')))" if j: "j < length (ps @ ptrs)" for j
  proof (cases "j < rt_rows r m")
    case True
    then have "j < m" using m(1) by (simp add: rt_rows_def split: if_splits)
    then show ?thesis using True ps rt_entries_nth [OF m(2)] es(1)
      by (intro exI [of _ 0] exI [of _ "rt_place r m + j * ceil_to (rt_size r) 16"]) (auto simp: nth_append rt_rows_def)
  next
    case False
    then have ns: "\<not> rt_no_stride r" "m \<le> j" using j len D st by (auto simp: rt_rows_def split: if_splits)
    then have "j - m < length ptrs" using j ps(1) by (simp add: rt_rows_def)
    then obtain i' base where b: "i' < length cmds" "base + rt_size r \<le> M" "ptrs ! (j - m) = arg_pointers (Suc i + i') base (rt_args_counts r ! (start + m + (j - m)))"
      "snd (concat entries ! (j - m)) = take (rt_size r) (drop base (cmd_region (cmds ! i')))"
      using d unfolding delivered_def by blast
    then show ?thesis using ns ps(1) es(1)
      by (intro exI [of _ "Suc i'"] exI [of _ base]) (simp add: nth_append rt_rows_def)
  qed
  ultimately show ?thesis using d c(1-3) unfolding delivered_def by simp
qed

lemma runtime_args_loop_ok:
  assumes ok: "rt_ok r k M" and mx: "0 < mx" "mx = rt_max_packed_cmds r M"
  shows "start + left = length (rt_sub_cmds r) \<Longrightarrow> (rt_no_stride r \<Longrightarrow> left = 0 \<or> start = 0 \<and> left \<le> mx) \<Longrightarrow>
    \<exists>cmds ptrs entries. runtime_args_loop r mx left start old oldp = Some (Inr (old @ cmds, oldp @ ptrs)) \<and>
      delivered r k M start (length old) cmds ptrs entries"
proof (induction left arbitrary: start old oldp rule: less_induct)
  case (less left)
  show ?case
  proof (cases "left = 0")
    case True
    then show ?thesis using delivered_Nil [OF ok, of "length old"] less.prems(1)
      by (intro exI [of _ "[]"]) (simp add: runtime_args_loop.simps)
  next
    case False
    define m where m: "m = min left mx"
    have m0: "0 < m" "start + m \<le> length (rt_sub_cmds r)" "m \<le> rt_max_packed_cmds r M" "m \<le> left"
      using mx False less.prems(1) by (auto simp: m)
    have st: "rt_no_stride r \<Longrightarrow> start = 0 \<and> m = length (rt_sub_cmds r)" using less.prems False by (auto simp: m)
    have big: "length (rt_sub_cmds r) < 2 ^ 32" using ok by (simp add: rt_ok_def)
    obtain c where c: "runtime_args_cmd r m start = Inr c" "length (cmd_region c) = cmd_sequence_sizeB c" "cmd_sequence_sizeB c \<le> M"
      "device_reads (2 ^ k) 16 False (cmd_region c) = Some [rt_view r (rt_entries r m start (cmd_region c))]"
      "\<forall>j < rt_rows r m. laid_out 0 (rt_data_and_sizes r ! (start + j)) (take (rt_size r) (drop (rt_place r m + j * ceil_to (rt_size r) 16) (cmd_region c)))"
      using runtime_args_cmd_ok [OF ok m0(1-3)] st by blast
    obtain ps where ps: "runtime_args_pointers r (length old) m start = Inr ps" "length ps = rt_rows r m"
      "\<forall>j < rt_rows r m. ps ! j = arg_pointers (length old) (rt_place r m + j * ceil_to (rt_size r) 16) (rt_args_counts r ! (start + j)) \<and>
        rt_place r m + j * ceil_to (rt_size r) 16 + rt_size r \<le> M"
      using runtime_args_pointers_ok [OF ok m0(1-3), of "length old"] st by blast
    have smaller: "left - m < left" "start + m + (left - m) = length (rt_sub_cmds r)" using m0 False less.prems(1) by auto
    have done_ns: "left - m = 0 \<or> start + m = 0 \<and> left - m \<le> mx" if "rt_no_stride r" using st [OF that] less.prems(1) by simp
    obtain cmds ptrs entries where rest: "runtime_args_loop r mx (left - m) (start + m) (old @ [c]) (oldp @ ps) = Some (Inr ((old @ [c]) @ cmds, (oldp @ ps) @ ptrs))"
      "delivered r k M (start + m) (length (old @ [c])) cmds ptrs entries"
      using less.IH [OF smaller done_ns, of "old @ [c]" "oldp @ ps"] by blast
    have sub: "sub32 left m = left - m" "add32 start m = start + m" using m0 less.prems(1) big by (auto intro: sub32_small add32_small)
    have "runtime_args_loop r mx left start old oldp = runtime_args_loop r mx (left - m) (start + m) (old @ [c]) (oldp @ ps)"
      using False c(1) ps(1) sub by (subst runtime_args_loop.simps) (simp add: Let_def m [symmetric])
    moreover have "delivered r k M start (length old) (c # cmds) (ps @ ptrs) (rt_entries r m start (cmd_region c) # entries)"
      using delivered_Cons [OF ok m0(1,2) st c(2-5) ps(2,3)] rest(2) by simp
    ultimately show ?thesis using rest(1) by (intro exI [of _ "c # cmds"] exI [of _ "ps @ ptrs"]) auto
  qed
qed


definition example_rt :: rt_params where
  "example_rt = \<lparr>rt_hal = example_hal 64, rt_zero_init = False, rt_multicast = False, l1_arg_base_addr = 4096,
     rt_sub_cmds = [[1, 0, 0, 0], [2, 0, 0, 0], [3, 0, 0, 0]],
     rt_data_and_sizes = [[([7, 0, 0, 0], 4), ([8, 0, 0, 0], 8)], [([9, 0, 0, 0], 4), ([1, 0, 0, 0, 2, 0, 0, 0], 8)], [([], 4), ([5, 0, 0, 0], 8)]],
     max_runtime_args_len = 3, rt_args_counts = [[1, 2], [1, 2], [1, 2]], rt_max_unicast = 2, rt_no_stride = False, rt_write_offset_index = 1\<rparr>"


end
