(* ===== verification/Circular_Buffer.thy ===== *)
theory Circular_Buffer
  imports Core_Coord Tt_Math
begin

text \<open>
  Circular buffers: their configuration (src/tt_metal/impl/buffers/circular_buffer_types.cpp),
  the buffers themselves (circular_buffer.cpp), and the part of a program that adds them to
  cores and gives them addresses (src/tt_metal/impl/program/program.cpp).

  The type of data formats and the type of tiles are type variables. What the code reads from
  a buffer of the device and from a global circular buffer are records. The handle of a
  circular buffer is its position in the list of the program, where the source uses the
  address of the object. Checks by \<open>TT_ASSERT\<close> that are followed by code for release builds
  have the kind of build as the argument \<open>debug\<close>.
\<close>

section \<open>Configuration\<close>

definition NUM_CIRCULAR_BUFFERS :: nat where "NUM_CIRCULAR_BUFFERS = 32"

record dyn_buffer =
  db_is_l1 :: bool
  db_address :: u32
  db_aligned_size_per_bank :: u32
  db_aligned_size :: u32

record ('f, 't) cb_config =
  total_size :: u32
  globally_allocated_address :: "u32 option"
  data_formats :: "'f option list"
  page_sizes :: "u32 option list"
  cb_tiles :: "'t option list"
  buffer_indices :: "nat set"
  local_buffer_indices :: "nat set"
  remote_buffer_indices :: "nat set"
  dynamic_cb :: bool
  cb_max_size :: u32
  cb_buffer_size :: u32
  shadow_global_buffer :: "dyn_buffer option"

definition cb_config_size :: "u32 \<Rightarrow> ('f, 't) cb_config" where
  "cb_config_size sz =
     \<lparr>total_size = sz, globally_allocated_address = None, data_formats = replicate NUM_CIRCULAR_BUFFERS None,
      page_sizes = replicate NUM_CIRCULAR_BUFFERS None, cb_tiles = replicate NUM_CIRCULAR_BUFFERS None,
      buffer_indices = {}, local_buffer_indices = {}, remote_buffer_indices = {}, dynamic_cb = False,
      cb_max_size = 0, cb_buffer_size = 0, shadow_global_buffer = None\<rparr>"

fun set_formats :: "(nat \<times> 'f) list \<Rightarrow> ('f, 't) cb_config \<Rightarrow> tt_error + ('f, 't) cb_config" where
  "set_formats [] c = Inr c"
| "set_formats ((i, f) # fs) c =
     (if i > NUM_CIRCULAR_BUFFERS - 1 then Inl (Tt_throw ''Buffer index exceeds max number of circular buffers per core'')
      else set_formats fs
        (c\<lparr>data_formats := (data_formats c)[i := Some f], buffer_indices := insert i (buffer_indices c),
           local_buffer_indices := insert i (local_buffer_indices c)\<rparr>))"

text \<open>The specification is a \<open>std::map\<close>: pairs with distinct keys, in the order of the keys.\<close>

definition set_config :: "(nat \<times> 'f) list \<Rightarrow> ('f, 't) cb_config \<Rightarrow> tt_error + ('f, 't) cb_config" where
  "set_config spec c =
     (if length spec > NUM_CIRCULAR_BUFFERS then Inl (Tt_throw ''Only 32 circular buffer slots are available'')
      else set_formats spec c)"

definition cb_config_static :: "u32 \<Rightarrow> (nat \<times> 'f) list \<Rightarrow> tt_error + ('f, 't) cb_config" where
  "cb_config_static sz spec = set_config spec (cb_config_size sz)"

definition cb_set_page_size :: "nat \<Rightarrow> u32 \<Rightarrow> ('f, 't) cb_config \<Rightarrow> tt_error + ('f, 't) cb_config" where
  "cb_set_page_size i ps c =
     (if i > NUM_CIRCULAR_BUFFERS - 1 then Inl (Tt_throw ''Buffer index exceeds max number of circular buffers per core'')
      else if i \<notin> buffer_indices c then Inl (Tt_throw ''Illegal circular buffer index'')
      else if ps = 0 then Inl Div_by_zero
      else if total_size c mod ps \<noteq> 0 then Inl (Tt_throw ''Total circular buffer size must be divisible by page size'')
      else Inr (c\<lparr>page_sizes := (page_sizes c)[i := Some ps]\<rparr>))"

definition size_check :: "bool \<Rightarrow> u32 \<Rightarrow> ('f, 't) cb_config \<Rightarrow> tt_error option" where
  "size_check debug sz c =
     (if sz > cb_max_size c
      then (if debug then Some (Tt_assert ''larger than the L1 buffer bank size'')
            else if sz > cb_buffer_size c then Some (Tt_throw ''larger than the L1 buffer size'') else None)
      else None)"

definition set_total_size :: "bool \<Rightarrow> u32 \<Rightarrow> ('f, 't) cb_config \<Rightarrow> tt_error + ('f, 't) cb_config" where
  "set_total_size debug sz c =
     (case if dynamic_cb c then size_check debug sz c else None of
        Some e \<Rightarrow> Inl e
      | None \<Rightarrow> if sz = 0 then Inl (Tt_throw ''Total size for circular buffer must be non-zero!'')
                else Inr (c\<lparr>total_size := sz\<rparr>))"

text \<open>The fields are assigned before the checks, so an exception leaves the new ones.\<close>

definition set_globally_allocated_address_and_total_size ::
    "bool \<Rightarrow> dyn_buffer \<Rightarrow> u32 \<Rightarrow> ('f, 't) cb_config \<Rightarrow> tt_error option \<times> ('f, 't) cb_config" where
  "set_globally_allocated_address_and_total_size debug b sz c =
     (if \<not> db_is_l1 b then (Some (Tt_throw ''Only L1 buffers can have an associated circular buffer!''), c)
      else
        let c = c\<lparr>globally_allocated_address := Some (db_address b), dynamic_cb := True,
                  cb_max_size := db_aligned_size_per_bank b, cb_buffer_size := db_aligned_size b,
                  shadow_global_buffer := Some b\<rparr>
        in case size_check debug sz c of
             Some e \<Rightarrow> (Some e, c)
           | None \<Rightarrow> if sz = 0 then (Some (Tt_throw ''Total size for circular buffer must be non-zero!''), c)
                     else (None, c\<lparr>total_size := sz\<rparr>))"

definition set_globally_allocated_address ::
    "bool \<Rightarrow> dyn_buffer \<Rightarrow> ('f, 't) cb_config \<Rightarrow> tt_error option \<times> ('f, 't) cb_config" where
  "set_globally_allocated_address debug b c = set_globally_allocated_address_and_total_size debug b (total_size c) c"

definition cb_config_dynamic ::
    "bool \<Rightarrow> u32 \<Rightarrow> (nat \<times> 'f) list \<Rightarrow> dyn_buffer \<Rightarrow> tt_error + ('f, 't) cb_config" where
  "cb_config_dynamic debug sz spec b =
     (case set_globally_allocated_address debug b (cb_config_size sz) of
        (Some e, c) \<Rightarrow> Inl e
      | (None, c) \<Rightarrow> set_config spec c)"

definition set_tile_dims :: "nat \<Rightarrow> 't \<Rightarrow> ('f, 't) cb_config \<Rightarrow> tt_error + ('f, 't) cb_config" where
  "set_tile_dims i t c =
     (if i \<ge> NUM_CIRCULAR_BUFFERS then Inl Undefined else Inr (c\<lparr>cb_tiles := (cb_tiles c)[i := Some t]\<rparr>))"

text \<open>A builder is a configuration and an index; the operations on it are those above.\<close>

definition builder :: "nat \<Rightarrow> ('f, 't) cb_config \<Rightarrow> tt_error + ('f, 't) cb_config" where
  "builder i c =
     (if i > NUM_CIRCULAR_BUFFERS - 1 then Inl (Tt_throw ''Buffer index exceeds max number of circular buffers per core'')
      else Inr (c\<lparr>buffer_indices := insert i (buffer_indices c)\<rparr>))"

definition LocalBuilder :: "nat \<Rightarrow> ('f, 't) cb_config \<Rightarrow> tt_error + ('f, 't) cb_config" where
  "LocalBuilder i c =
     (if i \<in> remote_buffer_indices c then Inl (Tt_throw ''Buffer index is already marked as remote'')
      else bind_result (builder i c) (\<lambda>c. Inr (c\<lparr>local_buffer_indices := insert i (local_buffer_indices c)\<rparr>)))"

definition RemoteBuilder :: "nat \<Rightarrow> ('f, 't) cb_config \<Rightarrow> tt_error + ('f, 't) cb_config" where
  "RemoteBuilder i c =
     (if i \<in> local_buffer_indices c then Inl (Tt_throw ''Buffer index is already marked as local'')
      else if i \<notin> remote_buffer_indices c \<and> remote_buffer_indices c \<noteq> {}
        then Inl (Tt_fatal ''Can only specify one remote buffer index per config'')
      else bind_result (builder i c) (\<lambda>c. Inr (c\<lparr>remote_buffer_indices := insert i (remote_buffer_indices c)\<rparr>)))"

definition builder_set_data_format :: "nat \<Rightarrow> 'f \<Rightarrow> ('f, 't) cb_config \<Rightarrow> ('f, 't) cb_config" where
  "builder_set_data_format i f c = c\<lparr>data_formats := (data_formats c)[i := Some f]\<rparr>"

section \<open>Circular buffers\<close>

record global_cb =
  gcb_all_cores :: core_range_set
  gcb_buffer :: dyn_buffer
  gcb_buffer_address :: u32
  gcb_config_address :: u64

record ('f, 't) circular_buffer =
  cb_core_ranges :: core_range_set
  cb_conf :: "('f, 't) cb_config"
  locally_allocated_address :: "u32 option"
  cb_globally_allocated_address :: u32
  global_circular_buffer_config_address :: u64
  is_global_circular_buffer :: bool

definition globally_allocated :: "('f, 't) circular_buffer \<Rightarrow> bool" where
  "globally_allocated b \<longleftrightarrow> globally_allocated_address (cb_conf b) \<noteq> None"

definition cb_size :: "('f, 't) circular_buffer \<Rightarrow> u32" where
  "cb_size b = total_size (cb_conf b)"

definition validate_set_config_attributes :: "('f, 't) cb_config \<Rightarrow> tt_error option" where
  "validate_set_config_attributes c =
     (if list_all (\<lambda>i. (data_formats c ! i \<noteq> None) = (page_sizes c ! i \<noteq> None)) [0 ..< NUM_CIRCULAR_BUFFERS]
      then None else Some (Tt_throw ''Expected both data format and page size to be set''))"

definition circular_buffer_new :: "core_range_set \<Rightarrow> ('f, 't) cb_config \<Rightarrow> tt_error + ('f, 't) circular_buffer" where
  "circular_buffer_new rs c =
     (case validate_set_config_attributes c of
        Some e \<Rightarrow> Inl e
      | None \<Rightarrow>
          if remote_buffer_indices c \<noteq> {}
          then Inl (Tt_fatal ''Remote buffer indices are not supported without a GlobalCircularBuffer'')
          else Inr \<lparr>cb_core_ranges = rs, cb_conf = c, locally_allocated_address = None,
                    cb_globally_allocated_address = (case globally_allocated_address c of None \<Rightarrow> 0 | Some a \<Rightarrow> a),
                    global_circular_buffer_config_address = 0, is_global_circular_buffer = False\<rparr>)"

definition set_global_circular_buffer ::
    "bool \<Rightarrow> global_cb \<Rightarrow> ('f, 't) circular_buffer \<Rightarrow> tt_error option \<times> ('f, 't) circular_buffer" where
  "set_global_circular_buffer debug g b =
     (if \<not> crs_contains (gcb_all_cores g) (cb_core_ranges b)
      then (Some (Tt_fatal ''Specified cores are not contained in associated GlobalCircularBuffer''), b)
      else
        let (e, c) = set_globally_allocated_address debug (gcb_buffer g) (cb_conf b);
            b = b\<lparr>cb_conf := c\<rparr>
        in case e of
             Some e \<Rightarrow> (Some e, b)
           | None \<Rightarrow> (None, b\<lparr>is_global_circular_buffer := True, cb_globally_allocated_address := gcb_buffer_address g,
                             global_circular_buffer_config_address := gcb_config_address g\<rparr>))"

definition circular_buffer_new_global ::
    "bool \<Rightarrow> core_range_set \<Rightarrow> ('f, 't) cb_config \<Rightarrow> global_cb \<Rightarrow> tt_error + ('f, 't) circular_buffer" where
  "circular_buffer_new_global debug rs c g =
     (case validate_set_config_attributes c of
        Some e \<Rightarrow> Inl e
      | None \<Rightarrow>
          if globally_allocated_address c \<noteq> None
          then Inl (Tt_fatal ''Cannot create CircularBuffer when config already linked to a buffer'')
          else if remote_buffer_indices c = {} then Inl (Tt_fatal ''Remote buffer indices should be specified'')
          else
            let (e, b) = set_global_circular_buffer debug g
                  \<lparr>cb_core_ranges = rs, cb_conf = c, locally_allocated_address = None, cb_globally_allocated_address = 0,
                   global_circular_buffer_config_address = 0, is_global_circular_buffer = False\<rparr>
            in case e of Some e \<Rightarrow> Inl e | None \<Rightarrow> Inr b)"

definition is_on_logical_core :: "core_coord \<Rightarrow> ('f, 't) circular_buffer \<Rightarrow> bool" where
  "is_on_logical_core c b = crs_contains_coord (cb_core_ranges b) c"

definition uses_buffer_index :: "nat \<Rightarrow> ('f, 't) circular_buffer \<Rightarrow> bool" where
  "uses_buffer_index i b \<longleftrightarrow> i \<in> buffer_indices (cb_conf b)"

definition value_at :: "nat \<Rightarrow> 'a option list \<Rightarrow> tt_error + 'a" where
  "value_at i xs =
     (if i \<ge> length xs then Inl Out_of_range
      else case xs ! i of None \<Rightarrow> Inl Out_of_range | Some v \<Rightarrow> Inr v)"

definition cb_page_size :: "nat \<Rightarrow> ('f, 't) circular_buffer \<Rightarrow> tt_error + u32" where
  "cb_page_size i b =
     (if \<not> uses_buffer_index i b then Inl (Tt_throw ''Cannot access page size for buffer index'')
      else bind_result (value_at i (page_sizes (cb_conf b))) (\<lambda>ps.
        if ps = 0 then Inl Div_by_zero
        else if cb_size b mod ps \<noteq> 0 then Inl (Tt_throw ''Total circular buffer size must be divisible by page size'')
        else Inr ps))"

definition cb_num_pages :: "nat \<Rightarrow> ('f, 't) circular_buffer \<Rightarrow> tt_error + u32" where
  "cb_num_pages i b = bind_result (cb_page_size i b) (\<lambda>ps. Inr (cb_size b div ps))"

definition cb_data_format :: "nat \<Rightarrow> ('f, 't) circular_buffer \<Rightarrow> tt_error + 'f" where
  "cb_data_format i b =
     (if \<not> uses_buffer_index i b then Inl (Tt_throw ''Cannot access data format for buffer index'')
      else value_at i (data_formats (cb_conf b)))"

definition cb_address :: "('f, 't) circular_buffer \<Rightarrow> tt_error + u32" where
  "cb_address b =
     (if globally_allocated b then Inr (cb_globally_allocated_address b)
      else case locally_allocated_address b of
             None \<Rightarrow> Inl (Tt_throw ''Circular buffer has not been allocated, cannot request address at this time!'')
           | Some a \<Rightarrow> Inr a)"

definition assign_global_address :: "('f, 't) circular_buffer \<Rightarrow> tt_error + ('f, 't) circular_buffer" where
  "assign_global_address b =
     (case shadow_global_buffer (cb_conf b) of
        None \<Rightarrow> Inl Null_deref
      | Some d \<Rightarrow> Inr (b\<lparr>cb_globally_allocated_address := db_address d\<rparr>))"

section \<open>Circular buffers of a program\<close>

record cb_allocator =
  cba_core_range :: core_range
  l1_regions :: "(u64 \<times> u64) list"

definition get_cb_region_end :: "cb_allocator \<Rightarrow> u64" where
  "get_cb_region_end a = (if l1_regions a = [] then 0 else snd (last (l1_regions a)))"

definition mark_address :: "u64 \<Rightarrow> u64 \<Rightarrow> u64 \<Rightarrow> cb_allocator \<Rightarrow> tt_error option \<times> cb_allocator" where
  "mark_address address sz base a =
     (let regions = (if l1_regions a = [] then [(base, base)] else l1_regions a);
          a = a\<lparr>l1_regions := regions\<rparr>;
          (first, lst) = last regions
      in if address < lst then (Some (Tt_throw ''Local buffer address has to append to last L1 region''), a)
         else if address = lst then (None, a\<lparr>l1_regions := butlast regions @ [(first, add64 lst sz)]\<rparr>)
         else (None, a\<lparr>l1_regions := regions @ [(address, add64 address sz)]\<rparr>))"

record ('f, 't) program_cbs =
  circular_buffers :: "('f, 't) circular_buffer list"
  per_core_cb_indices :: "core_coord \<Rightarrow> nat set"
  per_core_local_cb_indices :: "core_coord \<Rightarrow> nat set"
  per_core_remote_cb_indices :: "core_coord \<Rightarrow> nat set"
  cb_allocators :: "cb_allocator list"
  local_circular_buffer_allocation_needed :: bool

definition program_new :: "('f, 't) program_cbs" where
  "program_new =
     \<lparr>circular_buffers = [], per_core_cb_indices = (\<lambda>_. {}), per_core_local_cb_indices = (\<lambda>_. {}),
      per_core_remote_cb_indices = (\<lambda>_. {}), cb_allocators = [], local_circular_buffer_allocation_needed = False\<rparr>"

definition invalidate_circular_buffer_allocation :: "('f, 't) program_cbs \<Rightarrow> ('f, 't) program_cbs" where
  "invalidate_circular_buffer_allocation p =
     (if local_circular_buffer_allocation_needed p then p
      else p\<lparr>cb_allocators := map (\<lambda>a. a\<lparr>l1_regions := []\<rparr>) (cb_allocators p),
             local_circular_buffer_allocation_needed := True\<rparr>)"

text \<open>
  The loops of \<open>add_circular_buffer_\<close>. The indices are an \<open>unordered_set\<close>: its elements, in
  the order of its iteration, are a list. An exception leaves what was marked before it.
\<close>

fun add_local_indices :: "core_coord \<Rightarrow> nat list \<Rightarrow> ('f, 't) program_cbs \<Rightarrow> tt_error option \<times> ('f, 't) program_cbs" where
  "add_local_indices c [] p = (None, p)"
| "add_local_indices c (i # is) p =
     (if \<not> i < NUM_CIRCULAR_BUFFERS then (Some (Tt_assert ''Invalid circular buffer index''), p)
      else if i \<in> per_core_cb_indices p c then (Some (Tt_throw ''another circular buffer already exists''), p)
      else add_local_indices c is
        (p\<lparr>per_core_cb_indices := (per_core_cb_indices p)(c := insert i (per_core_cb_indices p c)),
           per_core_local_cb_indices := (per_core_local_cb_indices p)(c := insert i (per_core_local_cb_indices p c))\<rparr>))"

fun add_remote_indices :: "core_coord \<Rightarrow> nat list \<Rightarrow> ('f, 't) program_cbs \<Rightarrow> tt_error option \<times> ('f, 't) program_cbs" where
  "add_remote_indices c [] p = (None, p)"
| "add_remote_indices c (i # is) p =
     (if \<not> i < NUM_CIRCULAR_BUFFERS then (Some (Tt_assert ''Invalid circular buffer index''), p)
      else if i \<in> per_core_cb_indices p c then (Some (Tt_throw ''another circular buffer already exists''), p)
      else add_remote_indices c is
        (p\<lparr>per_core_cb_indices := (per_core_cb_indices p)(c := insert i (per_core_cb_indices p c)),
           per_core_remote_cb_indices := (per_core_remote_cb_indices p)(c := insert i (per_core_remote_cb_indices p c))\<rparr>))"

fun add_on_cores ::
    "core_coord list \<Rightarrow> nat list \<Rightarrow> nat list \<Rightarrow> ('f, 't) program_cbs \<Rightarrow> tt_error option \<times> ('f, 't) program_cbs" where
  "add_on_cores [] ls rs p = (None, p)"
| "add_on_cores (c # cs) ls rs p =
     (case add_local_indices c ls p of
        (Some e, p) \<Rightarrow> (Some e, p)
      | (None, p) \<Rightarrow>
          case add_remote_indices c rs p of
            (Some e, p) \<Rightarrow> (Some e, p)
          | (None, p) \<Rightarrow> add_on_cores cs ls rs p)"

definition range_columns :: "core_range \<Rightarrow> core_coord list" where
  "range_columns r =
     concat (map (\<lambda>x. map (coord x) [cy (start_coord r) ..< cy (end_coord r) + 1])
       [cx (start_coord r) ..< cx (end_coord r) + 1])"

definition add_allocator :: "core_range \<Rightarrow> ('f, 't) program_cbs \<Rightarrow> ('f, 't) program_cbs" where
  "add_allocator r p =
     (if list_ex (\<lambda>a. cba_core_range a = r) (cb_allocators p) then p
      else p\<lparr>cb_allocators := cb_allocators p @ [\<lparr>cba_core_range = r, l1_regions = []\<rparr>]\<rparr>)"

fun add_on_ranges ::
    "core_range list \<Rightarrow> nat list \<Rightarrow> nat list \<Rightarrow> ('f, 't) program_cbs \<Rightarrow> tt_error option \<times> ('f, 't) program_cbs" where
  "add_on_ranges [] ls rs p = (None, p)"
| "add_on_ranges (r # ranges) ls rs p =
     (case add_on_cores (range_columns r) ls rs p of
        (Some e, p) \<Rightarrow> (Some e, p)
      | (None, p) \<Rightarrow> add_on_ranges ranges ls rs (add_allocator r p))"

definition add_circular_buffer_impl ::
    "nat list \<Rightarrow> nat list \<Rightarrow> ('f, 't) circular_buffer \<Rightarrow> ('f, 't) program_cbs \<Rightarrow> (tt_error + nat) \<times> ('f, 't) program_cbs" where
  "add_circular_buffer_impl ls rs b p =
     (case if globally_allocated b then assign_global_address b else Inr b of
        Inl e \<Rightarrow> (Inl e, p)
      | Inr b \<Rightarrow>
          let p = (if globally_allocated b then p else invalidate_circular_buffer_allocation p)
          in case add_on_ranges (ranges_of (cb_core_ranges b)) ls rs p of
               (Some e, p) \<Rightarrow> (Inl e, p)
             | (None, p) \<Rightarrow> (Inr (length (circular_buffers p)), p\<lparr>circular_buffers := circular_buffers p @ [b]\<rparr>))"

definition add_circular_buffer ::
    "nat list \<Rightarrow> core_range_set \<Rightarrow> ('f, 't) cb_config \<Rightarrow> bool \<Rightarrow> ('f, 't) program_cbs \<Rightarrow> (tt_error + nat) \<times> ('f, 't) program_cbs" where
  "add_circular_buffer ls crs c compiled p =
     (if compiled then (Inl (Tt_fatal ''Cannot add circular buffer to an already compiled program''), p)
      else case circular_buffer_new crs c of
             Inl e \<Rightarrow> (Inl e, p)
           | Inr b \<Rightarrow> add_circular_buffer_impl ls [] b p)"

definition add_circular_buffer_global ::
    "nat list \<Rightarrow> nat list \<Rightarrow> bool \<Rightarrow> core_range_set \<Rightarrow> ('f, 't) cb_config \<Rightarrow> global_cb \<Rightarrow> bool \<Rightarrow> ('f, 't) program_cbs \<Rightarrow>
     (tt_error + nat) \<times> ('f, 't) program_cbs" where
  "add_circular_buffer_global ls rs debug crs c g compiled p =
     (if compiled then (Inl (Tt_fatal ''Cannot add circular buffer to an already compiled program''), p)
      else case circular_buffer_new_global debug crs c g of
             Inl e \<Rightarrow> (Inl e, p)
           | Inr b \<Rightarrow> add_circular_buffer_impl ls rs b p)"

text \<open>The address of a circular buffer: the end of what is placed on each of its core ranges.\<close>

definition region_end_of :: "core_range \<Rightarrow> cb_allocator list \<Rightarrow> u64" where
  "region_end_of r as = (case find (\<lambda>a. cba_core_range a = r) as of None \<Rightarrow> 0 | Some a \<Rightarrow> get_cb_region_end a)"

definition compute_addr :: "u64 \<Rightarrow> u32 \<Rightarrow> core_range list \<Rightarrow> cb_allocator list \<Rightarrow> u64" where
  "compute_addr base alignment rs as =
     align_u32 (fold (\<lambda>r addr. max addr (region_end_of r as)) rs base mod 2 ^ 32) alignment"

fun cb_mark_range :: "u64 \<Rightarrow> u64 \<Rightarrow> u64 \<Rightarrow> core_range \<Rightarrow> cb_allocator list \<Rightarrow> tt_error option \<times> cb_allocator list" where
  "cb_mark_range addr sz base r [] = (None, [])"
| "cb_mark_range addr sz base r (a # as) =
     (let (e, a) = (if \<not> cr_intersects (cba_core_range a) r then (None, a)
                    else if cba_core_range a \<noteq> r \<and> addr < get_cb_region_end a then (None, a)
                    else mark_address addr sz base a)
      in case e of
           Some e \<Rightarrow> (Some e, a # as)
         | None \<Rightarrow> let (e, as) = cb_mark_range addr sz base r as in (e, a # as))"

fun cb_mark_ranges :: "u64 \<Rightarrow> u64 \<Rightarrow> u64 \<Rightarrow> core_range list \<Rightarrow> cb_allocator list \<Rightarrow> tt_error option \<times> cb_allocator list" where
  "cb_mark_ranges addr sz base [] as = (None, as)"
| "cb_mark_ranges addr sz base (r # rs) as =
     (case cb_mark_range addr sz base r as of
        (Some e, as) \<Rightarrow> (Some e, as)
      | (None, as) \<Rightarrow> cb_mark_ranges addr sz base rs as)"

fun allocate_loop ::
    "u64 \<Rightarrow> u32 \<Rightarrow> ('f, 't) circular_buffer list \<Rightarrow> cb_allocator list \<Rightarrow>
     tt_error option \<times> ('f, 't) circular_buffer list \<times> cb_allocator list" where
  "allocate_loop base alignment [] as = (None, [], as)"
| "allocate_loop base alignment (b # bs) as =
     (if globally_allocated b
      then let (e, bs, as) = allocate_loop base alignment bs as in (e, b # bs, as)
      else
        let rs = ranges_of (cb_core_ranges b);
            addr = compute_addr base alignment rs as
        in case cb_mark_ranges addr (cb_size b) base rs as of
             (Some e, as) \<Rightarrow> (Some e, b # bs, as)
           | (None, as) \<Rightarrow>
               let (e, bs, as) = allocate_loop base alignment bs as
               in (e, b\<lparr>locally_allocated_address := Some (addr mod 2 ^ 32)\<rparr> # bs, as))"

definition allocate_circular_buffers ::
    "u64 \<Rightarrow> u32 \<Rightarrow> ('f, 't) program_cbs \<Rightarrow> tt_error option \<times> ('f, 't) program_cbs" where
  "allocate_circular_buffers base alignment p =
     (if \<not> local_circular_buffer_allocation_needed p then (None, p)
      else
        let (e, bs, as) = allocate_loop base alignment (circular_buffers p) (cb_allocators p);
            p = p\<lparr>circular_buffers := bs, cb_allocators := as\<rparr>
        in case e of
             Some e \<Rightarrow> (Some e, p)
           | None \<Rightarrow> (None, p\<lparr>local_circular_buffer_allocation_needed := False\<rparr>))"

fun validate_regions :: "u64 option \<Rightarrow> u32 \<Rightarrow> cb_allocator list \<Rightarrow> tt_error option" where
  "validate_regions lowest max_l1 [] = None"
| "validate_regions lowest max_l1 (a # as) =
     (if l1_regions a = [] then validate_regions lowest max_l1 as
      else
        let region_end = snd (last (l1_regions a))
        in if region_end > max_l1 then Some (Tt_throw ''beyond max L1 size'')
           else if (case lowest of None \<Rightarrow> False | Some l \<Rightarrow> l < region_end)
             then Some (Tt_throw ''Statically allocated circular buffers clash with L1 buffers'')
           else validate_regions lowest max_l1 as)"

definition validate_circular_buffer_region :: "u64 option \<Rightarrow> u32 \<Rightarrow> ('f, 't) program_cbs \<Rightarrow> tt_error option" where
  "validate_circular_buffer_region lowest max_l1 p = validate_regions lowest max_l1 (cb_allocators p)"

definition get_circular_buffer :: "nat \<Rightarrow> ('f, 't) program_cbs \<Rightarrow> tt_error + ('f, 't) circular_buffer" where
  "get_circular_buffer h p =
     (if h < length (circular_buffers p) then Inr (circular_buffers p ! h)
      else Inl (Tt_throw ''No circular buffer with id exists in Program''))"

definition circular_buffers_on_core :: "core_coord \<Rightarrow> ('f, 't) program_cbs \<Rightarrow> ('f, 't) circular_buffer list" where
  "circular_buffers_on_core c p = filter (is_on_logical_core c) (circular_buffers p)"

definition circular_buffers_unique_coreranges :: "('f, 't) program_cbs \<Rightarrow> core_range list" where
  "circular_buffers_unique_coreranges p =
     fold (\<lambda>r rs. if r \<in> set rs then rs else rs @ [r])
       (concat (map (\<lambda>b. ranges_of (cb_core_ranges b)) (circular_buffers p))) []"

end
