(* ===== verification/Circular_Buffer_Props.thy ===== *)
theory Circular_Buffer_Props
  imports Circular_Buffer Core_Coord_Props
begin

text \<open>
  How adding circular buffers marks indices on cores, and how the allocation of their
  addresses moves the ends of the regions of each core range.
\<close>

section \<open>Indices on cores\<close>

definition cb_indices :: "('f, 't) circular_buffer \<Rightarrow> nat set" where
  "cb_indices b = local_buffer_indices (cb_conf b) \<union> remote_buffer_indices (cb_conf b)"

definition cb_cores :: "('f, 't) circular_buffer \<Rightarrow> core_coord set" where
  "cb_cores b = cores_of (cb_core_ranges b)"

text \<open>
  The programs made by adding circular buffers to an empty program and by allocating them,
  where an addition may fail and an allocation succeeds.
\<close>

inductive program_reachable :: "('f, 't) program_cbs \<Rightarrow> bool" where
  new: "program_reachable program_new"
| add: "program_reachable p \<Longrightarrow> crs_ok (cb_core_ranges b) \<Longrightarrow> set ls = local_buffer_indices (cb_conf b) \<Longrightarrow>
    set rs = remote_buffer_indices (cb_conf b) \<Longrightarrow> add_circular_buffer_impl ls rs b p = (res, p') \<Longrightarrow> program_reachable p'"
| invalidate: "program_reachable p \<Longrightarrow> program_reachable (invalidate_circular_buffer_allocation p)"
| allocate: "program_reachable p \<Longrightarrow> allocate_circular_buffers base alignment p = (None, p') \<Longrightarrow> program_reachable p'"

definition grows :: "('f, 't) program_cbs \<Rightarrow> ('f, 't) program_cbs \<Rightarrow> bool" where
  "grows p p' \<longleftrightarrow> circular_buffers p' = circular_buffers p \<and> (\<forall>c. per_core_cb_indices p c \<subseteq> per_core_cb_indices p' c) \<and>
     local_circular_buffer_allocation_needed p' = local_circular_buffer_allocation_needed p"

lemma grows_refl: "grows p p"
  by (simp add: grows_def)

lemma grows_trans: "grows p q \<Longrightarrow> grows q r \<Longrightarrow> grows p r"
  by (auto simp: grows_def)

lemma local_indices_added:
  "add_local_indices c is p = (e, p') \<Longrightarrow> grows p p' \<and> cb_allocators p' = cb_allocators p \<and>
    (e = None \<longrightarrow> set is \<subseteq> per_core_cb_indices p' c \<and> set is \<inter> per_core_cb_indices p c = {})"
proof (induction c "is" p rule: add_local_indices.induct)
  case (2 c i "is" p)
  then show ?case by (fastforce simp: grows_def split: if_splits)
qed (simp add: grows_refl)

lemma remote_indices_added:
  "add_remote_indices c is p = (e, p') \<Longrightarrow> grows p p' \<and> cb_allocators p' = cb_allocators p \<and>
    (e = None \<longrightarrow> set is \<subseteq> per_core_cb_indices p' c \<and> set is \<inter> per_core_cb_indices p c = {})"
proof (induction c "is" p rule: add_remote_indices.induct)
  case (2 c i "is" p)
  then show ?case by (fastforce simp: grows_def split: if_splits)
qed (simp add: grows_refl)

lemma cores_added:
  "add_on_cores cs ls rs p = (e, p') \<Longrightarrow> grows p p' \<and> cb_allocators p' = cb_allocators p \<and>
    (e = None \<longrightarrow> (\<forall>c \<in> set cs. set ls \<union> set rs \<subseteq> per_core_cb_indices p' c \<and> (set ls \<union> set rs) \<inter> per_core_cb_indices p c = {}))"
proof (induction cs arbitrary: p)
  case (Cons c cs)
  obtain e1 p1 where l: "add_local_indices c ls p = (e1, p1)" by fastforce
  note l' = local_indices_added [OF l]
  show ?case
  proof (cases e1)
    case None
    obtain e2 p2 where r: "add_remote_indices c rs p1 = (e2, p2)" by fastforce
    note r' = remote_indices_added [OF r]
    show ?thesis
    proof (cases e2)
      case None
      then have "add_on_cores cs ls rs p2 = (e, p')" using Cons.prems l r \<open>e1 = None\<close> by simp
      note IH = Cons.IH [OF this]
      have m: "per_core_cb_indices p x \<subseteq> per_core_cb_indices p1 x" "per_core_cb_indices p1 x \<subseteq> per_core_cb_indices p2 x"
        "per_core_cb_indices p2 x \<subseteq> per_core_cb_indices p' x" for x using l' r' IH by (simp_all add: grows_def)
      have "set ls \<union> set rs \<subseteq> per_core_cb_indices p' x \<and> (set ls \<union> set rs) \<inter> per_core_cb_indices p x = {}"
        if "e = None" "x \<in> set (c # cs)" for x
      proof (cases "x = c")
        case True
        have "set ls \<subseteq> per_core_cb_indices p1 c" "set ls \<inter> per_core_cb_indices p c = {}"
          "set rs \<subseteq> per_core_cb_indices p2 c" "set rs \<inter> per_core_cb_indices p1 c = {}"
          using l' r' \<open>e1 = None\<close> None by simp_all
        then show ?thesis using m [of c] True by blast
      next
        case False
        then have "set ls \<union> set rs \<subseteq> per_core_cb_indices p' x" "(set ls \<union> set rs) \<inter> per_core_cb_indices p2 x = {}"
          using IH that by auto
        then show ?thesis using m [of x] by blast
      qed
      then show ?thesis using IH l' r' by (auto intro: grows_trans)
    next
      case (Some x)
      then show ?thesis using Cons.prems l r \<open>e1 = None\<close> l' r' by (auto intro: grows_trans)
    qed
  next
    case (Some x)
    then show ?thesis using Cons.prems l l' by auto
  qed
qed (simp add: grows_refl)

lemma set_range_columns: "set (range_columns r) = cells r"
proof (intro set_eqI)
  fix c :: core_coord
  obtain x y where "c = coord x y" by (cases c) simp
  then show "c \<in> set (range_columns r) \<longleftrightarrow> c \<in> cells r" by (auto simp: range_columns_def in_cells image_iff simp del: upt_Suc)
qed

text \<open>Adding allocators for the ranges.\<close>

definition allocators_ok :: "cb_allocator list \<Rightarrow> bool" where
  "allocators_ok as \<longleftrightarrow> distinct (map cba_core_range as) \<and> (\<forall>a \<in> set as. valid_range (cba_core_range a))"

lemma add_allocator_fields:
  "circular_buffers (add_allocator r p) = circular_buffers p" "per_core_cb_indices (add_allocator r p) = per_core_cb_indices p"
  "local_circular_buffer_allocation_needed (add_allocator r p) = local_circular_buffer_allocation_needed p"
  by (simp_all add: add_allocator_def)

lemma add_allocator_ok:
  assumes "allocators_ok (cb_allocators p)" "valid_range r"
  shows "allocators_ok (cb_allocators (add_allocator r p))"
    "cba_core_range ` set (cb_allocators (add_allocator r p)) = insert r (cba_core_range ` set (cb_allocators p))"
    "\<forall>a \<in> set (cb_allocators p). l1_regions a = [] \<Longrightarrow> \<forall>a \<in> set (cb_allocators (add_allocator r p)). l1_regions a = []"
  using assms by (auto simp: add_allocator_def allocators_ok_def list_ex_iff)

lemma ranges_added:
  assumes "add_on_ranges ranges ls rs p = (e, p')" "\<forall>r \<in> set ranges. valid_range r" "allocators_ok (cb_allocators p)"
  shows "grows p p' \<and> allocators_ok (cb_allocators p') \<and>
    cba_core_range ` set (cb_allocators p) \<subseteq> cba_core_range ` set (cb_allocators p') \<and>
    ((\<forall>a \<in> set (cb_allocators p). l1_regions a = []) \<longrightarrow> (\<forall>a \<in> set (cb_allocators p'). l1_regions a = [])) \<and>
    (e = None \<longrightarrow> set ranges \<subseteq> cba_core_range ` set (cb_allocators p') \<and>
      (\<forall>c \<in> cover (set ranges). set ls \<union> set rs \<subseteq> per_core_cb_indices p' c \<and> (set ls \<union> set rs) \<inter> per_core_cb_indices p c = {}))"
  using assms
proof (induction ranges arbitrary: p)
  case (Cons r ranges)
  obtain e1 p1 where c: "add_on_cores (range_columns r) ls rs p = (e1, p1)" by fastforce
  note c' = cores_added [OF c, unfolded set_range_columns]
  show ?case
  proof (cases e1)
    case None
    let ?p = "add_allocator r p1"
    have ok1: "allocators_ok (cb_allocators p1)" using c' Cons.prems(3) by simp
    have r: "valid_range r" using Cons.prems(2) by simp
    note a = add_allocator_ok [OF ok1 r]
    have step: "add_on_ranges ranges ls rs ?p = (e, p')" using Cons.prems(1) c None by simp
    have g1: "grows p ?p" using c' by (simp add: grows_def add_allocator_fields)
    have IH: "grows ?p p' \<and> allocators_ok (cb_allocators p') \<and>
      cba_core_range ` set (cb_allocators ?p) \<subseteq> cba_core_range ` set (cb_allocators p') \<and>
      ((\<forall>a \<in> set (cb_allocators ?p). l1_regions a = []) \<longrightarrow> (\<forall>a \<in> set (cb_allocators p'). l1_regions a = [])) \<and>
      (e = None \<longrightarrow> set ranges \<subseteq> cba_core_range ` set (cb_allocators p') \<and>
        (\<forall>c \<in> cover (set ranges). set ls \<union> set rs \<subseteq> per_core_cb_indices p' c \<and> (set ls \<union> set rs) \<inter> per_core_cb_indices ?p c = {}))"
      by (rule Cons.IH [OF step]) (use Cons.prems(2) a in auto)
    have covered: "set ls \<union> set rs \<subseteq> per_core_cb_indices p' c \<and> (set ls \<union> set rs) \<inter> per_core_cb_indices p c = {}"
      if "e = None" "c \<in> cover (set (r # ranges))" for c
    proof (cases "c \<in> cells r")
      case True
      then have "set ls \<union> set rs \<subseteq> per_core_cb_indices ?p c \<and> (set ls \<union> set rs) \<inter> per_core_cb_indices p c = {}"
        using c' None by (simp add: add_allocator_fields)
      moreover have "per_core_cb_indices ?p c \<subseteq> per_core_cb_indices p' c" using IH by (simp add: grows_def)
      ultimately show ?thesis by blast
    next
      case False
      then have "c \<in> cover (set ranges)" using that(2) by (auto simp: cover_def)
      then have "set ls \<union> set rs \<subseteq> per_core_cb_indices p' c \<and> (set ls \<union> set rs) \<inter> per_core_cb_indices ?p c = {}"
        using IH that(1) by blast
      moreover have "per_core_cb_indices p c \<subseteq> per_core_cb_indices ?p c" using g1 by (simp add: grows_def)
      ultimately show ?thesis by blast
    qed
    have g: "grows p p'" using IH g1 by (blast intro: grows_trans)
    have "cba_core_range ` set (cb_allocators ?p) = insert r (cba_core_range ` set (cb_allocators p))" using a(2) c' by simp
    then have dom: "cba_core_range ` set (cb_allocators p) \<subseteq> cba_core_range ` set (cb_allocators p')"
      "e = None \<longrightarrow> set (r # ranges) \<subseteq> cba_core_range ` set (cb_allocators p')" using IH by auto
    have empty: "(\<forall>a \<in> set (cb_allocators p). l1_regions a = []) \<longrightarrow> (\<forall>a \<in> set (cb_allocators p'). l1_regions a = [])"
    proof
      have eq: "cb_allocators p1 = cb_allocators p" using c' by blast
      assume "\<forall>a \<in> set (cb_allocators p). l1_regions a = []"
      then have "\<forall>a \<in> set (cb_allocators ?p). l1_regions a = []" by (intro a(3)) (simp only: eq)
      then show "\<forall>a \<in> set (cb_allocators p'). l1_regions a = []" using IH by (elim conjE) (rule mp)
    qed
    have ok': "allocators_ok (cb_allocators p')" using IH by blast
    show ?thesis using g ok' dom empty covered by blast
  next
    case (Some x)
    then show ?thesis using Cons.prems c c' by auto
  qed
qed (auto simp: grows_refl cover_def)

section \<open>Allocation\<close>

lemma region_end_mark:
  assumes "get_cb_region_end a \<le> addr" "base \<le> addr" "addr + sz < 2 ^ 64"
  shows "\<exists>a'. mark_address addr sz base a = (None, a') \<and> cba_core_range a' = cba_core_range a \<and> get_cb_region_end a' = addr + sz"
proof -
  let ?rs = "if l1_regions a = [] then [(base, base)] else l1_regions a"
  obtain f l where fl: "last ?rs = (f, l)" by fastforce
  have l: "l \<le> addr" using assms(1,2) fl by (auto simp: get_cb_region_end_def split: if_splits)
  have s: "add64 addr sz = addr + sz" using assms(3) by (rule add64_small)
  show ?thesis
  proof (cases "addr = l")
    case True
    then have "mark_address addr sz base a = (None, a\<lparr>l1_regions := butlast ?rs @ [(f, addr + sz)]\<rparr>)"
      unfolding mark_address_def Let_def fl using s by simp
    then show ?thesis by (simp add: get_cb_region_end_def)
  next
    case False
    then have "mark_address addr sz base a = (None, a\<lparr>l1_regions := ?rs @ [(addr, addr + sz)]\<rparr>)"
      unfolding mark_address_def Let_def fl using s l by simp
    then show ?thesis by (simp add: get_cb_region_end_def)
  qed
qed

definition marked :: "nat \<Rightarrow> core_range set \<Rightarrow> cb_allocator \<Rightarrow> cb_allocator \<Rightarrow> bool" where
  "marked e rs a a' \<longleftrightarrow> cba_core_range a' = cba_core_range a \<and> get_cb_region_end a \<le> get_cb_region_end a' \<and>
     get_cb_region_end a' \<le> max (get_cb_region_end a) e \<and>
     (cba_core_range a \<in> rs \<longrightarrow> e \<le> get_cb_region_end a') \<and>
     ((\<forall>r \<in> rs. \<not> cr_intersects (cba_core_range a) r) \<longrightarrow> a' = a)"

lemma mark_range_marks:
  assumes "\<forall>a \<in> set as. cba_core_range a = r \<longrightarrow> get_cb_region_end a \<le> addr" "base \<le> addr" "addr + sz < 2 ^ 64" "valid_range r"
  shows "\<exists>as'. cb_mark_range addr sz base r as = (None, as') \<and> list_all2 (marked (addr + sz) {r}) as as'"
  using assms(1)
proof (induction as)
  case (Cons a as)
  have self: "cr_intersects r r" using assms(4) by (auto simp: cr_intersects_def valid_range_def)
  obtain as' where as': "cb_mark_range addr sz base r as = (None, as')" "list_all2 (marked (addr + sz) {r}) as as'"
    using Cons by auto
  show ?case
  proof (cases "cr_intersects (cba_core_range a) r \<and> (cba_core_range a = r \<or> get_cb_region_end a \<le> addr)")
    case True
    then have "get_cb_region_end a \<le> addr" using Cons.prems by auto
    then obtain a' where "mark_address addr sz base a = (None, a')" "cba_core_range a' = cba_core_range a"
      "get_cb_region_end a' = addr + sz" "get_cb_region_end a \<le> addr"
      using region_end_mark [OF _ assms(2,3)] by blast
    then have "marked (addr + sz) {r} a a'" "cb_mark_range addr sz base r (a # as) = (None, a' # as')"
      using True as'(1) by (auto simp: marked_def)
    then show ?thesis using as'(2) by blast
  next
    case False
    then have "marked (addr + sz) {r} a a" "cb_mark_range addr sz base r (a # as) = (None, a # as')"
      using as'(1) self by (auto simp: marked_def)
    then show ?thesis using as'(2) by blast
  qed
qed simp

lemma mark_ranges_marks:
  assumes "\<forall>a \<in> set as. cba_core_range a \<in> set rs \<longrightarrow> get_cb_region_end a \<le> addr" "base \<le> addr" "addr + sz < 2 ^ 64"
    "\<forall>r \<in> set rs. valid_range r" "distinct rs" "apart (set rs)"
  shows "\<exists>as'. cb_mark_ranges addr sz base rs as = (None, as') \<and> list_all2 (marked (addr + sz) (set rs)) as as'"
  using assms(1,4-6)
proof (induction rs arbitrary: as)
  case Nil
  then show ?case by (auto simp: marked_def intro: list_all2_refl)
next
  case (Cons r rs)
  have r: "valid_range r" using Cons.prems(2) by simp
  obtain as1 where as1: "cb_mark_range addr sz base r as = (None, as1)" "list_all2 (marked (addr + sz) {r}) as as1"
    using mark_range_marks [OF _ assms(2,3) r, of as] Cons.prems(1) by auto
  have far: "\<not> cr_intersects q r" if "q \<in> set rs" for q
    using Cons.prems that cells_intersect [of q r] by (auto simp: apart_def)
  have "\<forall>a \<in> set as1. cba_core_range a \<in> set rs \<longrightarrow> get_cb_region_end a \<le> addr"
  proof (intro ballI impI)
    fix a1
    assume a1: "a1 \<in> set as1" "cba_core_range a1 \<in> set rs"
    then obtain a where a: "a \<in> set as" "marked (addr + sz) {r} a a1" using list_all2_setD [OF as1(2) a1(1)] by blast
    then have "a1 = a" using far a1(2) by (auto simp: marked_def)
    then show "get_cb_region_end a1 \<le> addr" using Cons.prems(1) a(1) a1(2) by auto
  qed
  then obtain as' where as': "cb_mark_ranges addr sz base rs as1 = (None, as')" "list_all2 (marked (addr + sz) (set rs)) as1 as'"
    using Cons.IH [of as1] Cons.prems by (auto simp: apart_def)
  have "marked (addr + sz) (set (r # rs)) a a'" if "marked (addr + sz) {r} a a1" "marked (addr + sz) (set rs) a1 a'" for a a1 a'
    using that by (auto simp: marked_def)
  then have "list_all2 (marked (addr + sz) (set (r # rs))) as as'"
    using list_all2_trans [OF _ as1(2) as'(2)] by blast
  then show ?case using as1(1) as'(1) by auto
qed


text \<open>
  The ends of the regions per core range before and after, through which the addresses are
  placed one after the other.
\<close>

fun placed :: "nat \<Rightarrow> nat \<Rightarrow> (core_range \<Rightarrow> nat) \<Rightarrow> ('f, 't) circular_buffer list \<Rightarrow> (core_range \<Rightarrow> nat) \<Rightarrow> bool" where
  "placed k base e [] e' \<longleftrightarrow> (\<forall>r. e r \<le> e' r)"
| "placed k base e (b # bs) e' \<longleftrightarrow>
     (if globally_allocated b then placed k base e bs e'
      else \<exists>a e1. locally_allocated_address b = Some a \<and> 2 ^ k dvd a \<and> base \<le> a \<and> (\<forall>r. e r \<le> e1 r) \<and>
        (\<forall>r \<in> set (ranges_of (cb_core_ranges b)). e r \<le> a \<and> a + cb_size b \<le> e1 r) \<and> placed k base e1 bs e')"

lemma placed_mono: "placed k base e bs e' \<Longrightarrow> e r \<le> e' r"
  by (induction k base e bs e' rule: placed.induct) (auto split: if_splits intro: order_trans)

lemma placed_nth:
  assumes "placed k base e bs e'" "i < length bs" "\<not> globally_allocated (bs ! i)"
  obtains a where "locally_allocated_address (bs ! i) = Some a" "2 ^ k dvd a" "base \<le> a"
    "\<And>r. r \<in> set (ranges_of (cb_core_ranges (bs ! i))) \<Longrightarrow> e r \<le> a \<and> a + cb_size (bs ! i) \<le> e' r"
  using assms
proof (induction bs arbitrary: e i thesis)
  case (Cons b bs)
  show ?case
  proof (cases i)
    case 0
    then obtain a e1 where a: "locally_allocated_address b = Some a" "2 ^ k dvd a" "base \<le> a" "placed k base e1 bs e'"
      "\<forall>r \<in> set (ranges_of (cb_core_ranges b)). e r \<le> a \<and> a + cb_size b \<le> e1 r"
      using Cons.prems by auto
    then show ?thesis using Cons.prems(1) [of a] placed_mono [OF a(4)] 0 by (auto intro: order_trans)
  next
    case (Suc j)
    obtain e1 where e1: "placed k base e1 bs e'" "\<forall>r. e r \<le> e1 r" using Cons.prems(2) by (auto split: if_splits)
    show ?thesis
      by (rule Cons.IH [OF _ e1(1), of j])
        (use Cons.prems Suc e1(2) in \<open>auto intro: order_trans\<close>)
  qed
qed simp

lemma placed_order:
  assumes "placed k base e bs e'" "i < j" "j < length bs" "\<not> globally_allocated (bs ! i)" "\<not> globally_allocated (bs ! j)"
    "r \<in> set (ranges_of (cb_core_ranges (bs ! i)))" "r \<in> set (ranges_of (cb_core_ranges (bs ! j)))"
  shows "the (locally_allocated_address (bs ! i)) + cb_size (bs ! i) \<le> the (locally_allocated_address (bs ! j))"
  using assms
proof (induction bs arbitrary: e i j)
  case (Cons b bs)
  obtain j' where j: "j = Suc j'" using Cons.prems(2) by (cases j) auto
  show ?case
  proof (cases i)
    case 0
    then obtain a e1 where a: "locally_allocated_address b = Some a" "placed k base e1 bs e'"
      "\<forall>r \<in> set (ranges_of (cb_core_ranges b)). e r \<le> a \<and> a + cb_size b \<le> e1 r"
      using Cons.prems by auto
    obtain a' where "locally_allocated_address (bs ! j') = Some a'" "e1 r \<le> a'"
      using placed_nth [OF a(2), of j'] Cons.prems(3,5,7) j by auto
    then show ?thesis using a Cons.prems(6) 0 j by (auto intro: order_trans)
  next
    case (Suc i')
    obtain e1 where e1: "placed k base e1 bs e'" using Cons.prems(1) by (auto split: if_splits)
    show ?thesis using Cons.IH [OF e1, of i' j'] Cons.prems Suc j by simp
  qed
qed simp

lemma region_end_marked:
  assumes "list_all2 (marked m rs) as as'"
  shows "region_end_of r as \<le> region_end_of r as'"
    "r \<in> rs \<Longrightarrow> r \<in> cba_core_range ` set as \<Longrightarrow> m \<le> region_end_of r as'"
    "map cba_core_range as' = map cba_core_range as"
  using assms by (induction rule: list_all2_induct) (auto simp: region_end_of_def marked_def)

lemma region_end_of_mem:
  assumes "allocators_ok as" "a \<in> set as"
  shows "region_end_of (cba_core_range a) as = get_cb_region_end a"
  using assms by (induction as) (auto simp: region_end_of_def allocators_ok_def)

lemma region_end_le: "\<forall>a \<in> set as. get_cb_region_end a \<le> m \<Longrightarrow> region_end_of r as \<le> m"
  by (auto simp: region_end_of_def find_Some_iff split: option.splits)

lemma max_ends:
  fixes e :: "core_range \<Rightarrow> nat"
  shows "base \<le> fold (\<lambda>r addr. max addr (e r)) rs base \<and> (\<forall>r \<in> set rs. e r \<le> fold (\<lambda>r addr. max addr (e r)) rs base) \<and>
    ((\<forall>r \<in> set rs. e r \<le> m) \<and> base \<le> m \<longrightarrow> fold (\<lambda>r addr. max addr (e r)) rs base \<le> m)"
  by (induction rs arbitrary: base) (auto intro: order_trans [OF max.cobounded1] order_trans [OF max.cobounded2])

lemma compute_addr_bounds:
  assumes "\<forall>a \<in> set as. get_cb_region_end a \<le> m" "base \<le> m" "m < 2 ^ 31" "k \<le> 12"
  shows "2 ^ k dvd compute_addr base (2 ^ k) rs as" "base \<le> compute_addr base (2 ^ k) rs as"
    "compute_addr base (2 ^ k) rs as < m + 4096" "r \<in> set rs \<Longrightarrow> region_end_of r as \<le> compute_addr base (2 ^ k) rs as"
proof -
  let ?x = "fold (\<lambda>r addr. max addr (region_end_of r as)) rs base"
  note x = max_ends [of base "\<lambda>r. region_end_of r as" rs m]
  have xm: "?x \<le> m" using x region_end_le [OF assms(1)] assms(2) by blast
  then have "?x mod 2 ^ 32 = ?x" "?x < 2 ^ 31" using assms(3) by simp_all
  then have c: "compute_addr base (2 ^ k) rs as = align_u32 ?x (2 ^ k)" and
    n: "2 ^ k dvd align_u32 ?x (2 ^ k)" "?x \<le> align_u32 ?x (2 ^ k)" "align_u32 ?x (2 ^ k) < ?x + 4096"
    using align_u32_near [of ?x k] assms(4) by (simp_all add: compute_addr_def)
  show "2 ^ k dvd compute_addr base (2 ^ k) rs as" "base \<le> compute_addr base (2 ^ k) rs as"
    "compute_addr base (2 ^ k) rs as < m + 4096" using c n x xm by auto
  show "region_end_of r as \<le> compute_addr base (2 ^ k) rs as" if "r \<in> set rs" using c n(2) x that by fastforce
qed

lemma allocate_loop_placed:
  assumes "allocators_ok as" "\<forall>b \<in> set bs. crs_ok (cb_core_ranges b) \<and> set (ranges_of (cb_core_ranges b)) \<subseteq> cba_core_range ` set as"
    "\<forall>a \<in> set as. get_cb_region_end a \<le> m" "base \<le> m" "m + (\<Sum>b\<leftarrow>bs. cb_size b + 4096) < 2 ^ 31" "k \<le> 12"
  shows "\<exists>bs' as'. allocate_loop base (2 ^ k) bs as = (None, bs', as') \<and>
    placed k base (\<lambda>r. region_end_of r as) bs' (\<lambda>r. region_end_of r as') \<and>
    list_all2 (\<lambda>b b'. cb_conf b' = cb_conf b \<and> cb_core_ranges b' = cb_core_ranges b) bs bs' \<and>
    map cba_core_range as' = map cba_core_range as"
  using assms(1-5)
proof (induction bs arbitrary: as m)
  case (Cons b bs)
  show ?case
  proof (cases "globally_allocated b")
    case True
    obtain bs' as' where IH: "allocate_loop base (2 ^ k) bs as = (None, bs', as')"
      "placed k base (\<lambda>r. region_end_of r as) bs' (\<lambda>r. region_end_of r as')"
      "list_all2 (\<lambda>b b'. cb_conf b' = cb_conf b \<and> cb_core_ranges b' = cb_core_ranges b) bs bs'"
      "map cba_core_range as' = map cba_core_range as"
      using Cons.IH [OF Cons.prems(1) _ Cons.prems(3,4)] Cons.prems(2,5) by auto
    then show ?thesis using True by (intro exI [of _ "b # bs'"] exI [of _ as']) auto
  next
    case False
    let ?rs = "ranges_of (cb_core_ranges b)"
    define addr where "addr = compute_addr base (2 ^ k) ?rs as"
    have m: "m < 2 ^ 31" using Cons.prems(5) by simp
    note c = compute_addr_bounds [OF Cons.prems(3,4) m assms(6), where rs = ?rs, folded addr_def]
    have crs: "\<forall>r \<in> set ?rs. valid_range r" "distinct ?rs" "apart (set ?rs)" and sub: "set ?rs \<subseteq> cba_core_range ` set as"
      using Cons.prems(2) by (auto simp: crs_ok_def)
    have fit: "addr + cb_size b < 2 ^ 64" using c(3) Cons.prems(5) by simp
    have "\<forall>a \<in> set as. cba_core_range a \<in> set ?rs \<longrightarrow> get_cb_region_end a \<le> addr"
      using c(4) region_end_of_mem [OF Cons.prems(1)] by metis
    from mark_ranges_marks [OF this c(2) fit crs] obtain as1 where
      as1: "cb_mark_ranges addr (cb_size b) base ?rs as = (None, as1)" "list_all2 (marked (addr + cb_size b) (set ?rs)) as as1" by blast
    note e1 = region_end_marked [OF as1(2)]
    have dom: "cba_core_range ` set as1 = cba_core_range ` set as" using e1(3) by (metis list.set_map)
    have v: "\<forall>r \<in> cba_core_range ` set as. valid_range r" using Cons.prems(1) by (auto simp: allocators_ok_def)
    have ok1: "allocators_ok as1" using Cons.prems(1) e1(3) v unfolding allocators_ok_def dom [symmetric] by auto
    have ends: "\<forall>a \<in> set as1. get_cb_region_end a \<le> m + 4096 + cb_size b"
    proof
      fix a1
      assume "a1 \<in> set as1"
      then obtain a where "a \<in> set as" "marked (addr + cb_size b) (set ?rs) a a1" using list_all2_setD [OF as1(2)] by blast
      then have "get_cb_region_end a1 \<le> max (get_cb_region_end a) (addr + cb_size b)" "get_cb_region_end a \<le> m"
        using Cons.prems(3) by (auto simp: marked_def)
      then show "get_cb_region_end a1 \<le> m + 4096 + cb_size b" using c(3) by linarith
    qed
    have "\<exists>bs' as'. allocate_loop base (2 ^ k) bs as1 = (None, bs', as') \<and>
      placed k base (\<lambda>r. region_end_of r as1) bs' (\<lambda>r. region_end_of r as') \<and>
      list_all2 (\<lambda>b b'. cb_conf b' = cb_conf b \<and> cb_core_ranges b' = cb_core_ranges b) bs bs' \<and>
      map cba_core_range as' = map cba_core_range as1"
      by (rule Cons.IH [OF ok1 _ ends]) (use Cons.prems(2,4,5) dom in auto)
    then obtain bs' as' where IH: "allocate_loop base (2 ^ k) bs as1 = (None, bs', as')"
      "placed k base (\<lambda>r. region_end_of r as1) bs' (\<lambda>r. region_end_of r as')"
      "list_all2 (\<lambda>b b'. cb_conf b' = cb_conf b \<and> cb_core_ranges b' = cb_core_ranges b) bs bs'"
      "map cba_core_range as' = map cba_core_range as1" by blast
    let ?b = "b\<lparr>locally_allocated_address := Some addr\<rparr>"
    have "addr mod 2 ^ 32 = addr" using c(3) m by simp
    then have run: "allocate_loop base (2 ^ k) (b # bs) as = (None, ?b # bs', as')"
      using False as1(1) IH(1) by (simp add: addr_def [symmetric] Let_def)
    have "placed k base (\<lambda>r. region_end_of r as) (?b # bs') (\<lambda>r. region_end_of r as')"
      using False c e1(1,2) sub IH(2) by (auto simp: globally_allocated_def cb_size_def intro!: exI [of _ "\<lambda>r. region_end_of r as1"])
    then show ?thesis using run IH(3,4) e1(3) by (intro exI [of _ "?b # bs'"] exI [of _ as']) auto
  qed
qed simp

end
