(* ===== verification/Circular_Buffer_Theorems.thy ===== *)
theory Circular_Buffer_Theorems
  imports Circular_Buffer_Props
begin

text \<open>
  Properties of circular buffers: the configuration keeps its indices apart, no index is used
  twice on a core, and where the addresses are.
\<close>

section \<open>Configurations\<close>

text \<open>A configuration that the constructors and setters can produce.\<close>

definition config_wf :: "('f, 't) cb_config \<Rightarrow> bool" where
  "config_wf c \<longleftrightarrow>
     length (data_formats c) = NUM_CIRCULAR_BUFFERS \<and> length (page_sizes c) = NUM_CIRCULAR_BUFFERS \<and>
     length (cb_tiles c) = NUM_CIRCULAR_BUFFERS \<and> buffer_indices c \<subseteq> {0 ..< NUM_CIRCULAR_BUFFERS} \<and>
     local_buffer_indices c \<union> remote_buffer_indices c = buffer_indices c \<and>
     local_buffer_indices c \<inter> remote_buffer_indices c = {} \<and> card (remote_buffer_indices c) \<le> 1 \<and>
     (\<forall>i < NUM_CIRCULAR_BUFFERS. data_formats c ! i \<noteq> None \<or> page_sizes c ! i \<noteq> None \<longrightarrow> i \<in> buffer_indices c) \<and>
     (globally_allocated_address c \<noteq> None \<longleftrightarrow> dynamic_cb c) \<and> (dynamic_cb c \<longleftrightarrow> shadow_global_buffer c \<noteq> None)"

text \<open>The ways to make and change a configuration.\<close>

inductive config_reachable :: "bool \<Rightarrow> ('f, 't) cb_config \<Rightarrow> bool" for debug :: bool where
  sized: "config_reachable debug (cb_config_size sz)"
| static: "cb_config_static sz spec = Inr c \<Longrightarrow> config_reachable debug c"
| dynamic: "cb_config_dynamic debug sz spec b = Inr c \<Longrightarrow> config_reachable debug c"
| page_size: "config_reachable debug c \<Longrightarrow> cb_set_page_size i ps c = Inr c' \<Longrightarrow> config_reachable debug c'"
| total_size: "config_reachable debug c \<Longrightarrow> set_total_size debug sz c = Inr c' \<Longrightarrow> config_reachable debug c'"
| global_address: "config_reachable debug c \<Longrightarrow> config_reachable debug (snd (set_globally_allocated_address_and_total_size debug b sz c))"
| tile_dims: "config_reachable debug c \<Longrightarrow> set_tile_dims i t c = Inr c' \<Longrightarrow> config_reachable debug c'"
| local_index: "config_reachable debug c \<Longrightarrow> LocalBuilder i c = Inr c' \<Longrightarrow> config_reachable debug c'"
| remote_index: "config_reachable debug c \<Longrightarrow> RemoteBuilder i c = Inr c' \<Longrightarrow> config_reachable debug c'"
| data_format: "config_reachable debug c \<Longrightarrow> i \<in> buffer_indices c \<Longrightarrow>
    config_reachable debug (builder_set_data_format i f c)"

lemma config_wf_size: "config_wf (cb_config_size sz)"
  by (simp add: config_wf_def cb_config_size_def)

lemma config_wf_formats:
  "set_formats fs c = Inr c' \<Longrightarrow> config_wf c \<Longrightarrow> remote_buffer_indices c = {} \<Longrightarrow> config_wf c' \<and> remote_buffer_indices c' = {}"
proof (induction fs arbitrary: c)
  case (Cons fm fs)
  obtain i f where fm: "fm = (i, f)" by fastforce
  let ?c = "c\<lparr>data_formats := (data_formats c)[i := Some f], buffer_indices := insert i (buffer_indices c),
    local_buffer_indices := insert i (local_buffer_indices c)\<rparr>"
  have i: "i < NUM_CIRCULAR_BUFFERS" and step: "set_formats fs ?c = Inr c'"
    using Cons.prems(1) by (auto simp: fm NUM_CIRCULAR_BUFFERS_def split: if_splits)
  have "config_wf ?c" using Cons.prems(2,3) i by (auto simp: config_wf_def nth_list_update)
  then show ?case using Cons.IH [OF step] Cons.prems(3) by simp
qed simp

lemma config_wf_global:
  "config_wf c \<Longrightarrow> config_wf (snd (set_globally_allocated_address_and_total_size debug b sz c)) \<and>
    remote_buffer_indices (snd (set_globally_allocated_address_and_total_size debug b sz c)) = remote_buffer_indices c"
proof -
  assume wf: "config_wf c"
  let ?c = "c\<lparr>globally_allocated_address := Some (db_address b), dynamic_cb := True, cb_max_size := db_aligned_size_per_bank b,
    cb_buffer_size := db_aligned_size b, shadow_global_buffer := Some b\<rparr>"
  have "config_wf ?c" using wf unfolding config_wf_def by simp
  moreover have "config_wf (?c\<lparr>total_size := sz\<rparr>)" using wf unfolding config_wf_def by simp
  ultimately show ?thesis
    using wf by (simp add: set_globally_allocated_address_and_total_size_def Let_def split: option.splits)
qed

text \<open>
  C33: Every configuration of a circular buffer that its constructors and setters can produce
  is well formed: the indices are below 32, each is local or remote and not both, at most one
  is remote, data formats and page sizes are set only for indices it has, and it has a global
  address exactly when it has a buffer.
\<close>

theorem cb_config_well_formed: "config_reachable debug c \<Longrightarrow> config_wf c"
proof (induction rule: config_reachable.induct)
  case (static sz spec c)
  then show ?case
    using config_wf_formats [OF _ config_wf_size]
    by (auto simp: cb_config_static_def set_config_def cb_config_size_def split: if_splits)
next
  case (dynamic sz spec b c)
  define start :: "('a, 'b) cb_config" where "start = cb_config_size sz"
  obtain c1 where c1: "set_globally_allocated_address debug b start = (None, c1)" and c: "set_config spec c1 = Inr c"
    using dynamic unfolding start_def by (auto simp: cb_config_dynamic_def split: option.splits prod.splits)
  have "config_wf start" unfolding start_def by (rule config_wf_size)
  then have "config_wf c1 \<and> remote_buffer_indices c1 = remote_buffer_indices start"
    using config_wf_global [of start debug b "total_size start"] c1 by (simp add: set_globally_allocated_address_def)
  moreover have "remote_buffer_indices start = {}" by (simp add: start_def cb_config_size_def)
  ultimately show ?case using c config_wf_formats [of spec c1 c] by (auto simp: set_config_def split: if_splits)
next
  case (page_size c i ps c')
  then have i: "i \<in> buffer_indices c" "c' = c\<lparr>page_sizes := (page_sizes c)[i := Some ps]\<rparr>"
    by (simp_all add: cb_set_page_size_def split: if_splits)
  then have "i < length (page_sizes c)" using page_size.IH by (auto simp: config_wf_def)
  then show ?case using page_size.IH i(1) unfolding i(2) config_wf_def by (simp add: nth_list_update)
next
  case (total_size c sz c')
  then show ?case by (auto simp: set_total_size_def config_wf_def split: if_splits option.splits)
next
  case (tile_dims c i t c')
  then show ?case by (auto simp: set_tile_dims_def config_wf_def split: if_splits)
next
  case (local_index c i c')
  then show ?case
    by (auto simp: LocalBuilder_def builder_def config_wf_def bind_result_Inr NUM_CIRCULAR_BUFFERS_def split: if_splits)
next
  case (remote_index c i c')
  then have i: "i \<notin> local_buffer_indices c" "remote_buffer_indices c \<subseteq> {i}" "i < NUM_CIRCULAR_BUFFERS"
    and c': "c' = c\<lparr>buffer_indices := insert i (buffer_indices c), remote_buffer_indices := insert i (remote_buffer_indices c)\<rparr>"
  proof -
    have r: "i \<notin> local_buffer_indices c" "i < NUM_CIRCULAR_BUFFERS" "i \<notin> remote_buffer_indices c \<Longrightarrow> remote_buffer_indices c = {}"
      using remote_index.hyps by (auto simp: RemoteBuilder_def builder_def bind_result_Inr NUM_CIRCULAR_BUFFERS_def split: if_splits)
    show "c' = c\<lparr>buffer_indices := insert i (buffer_indices c), remote_buffer_indices := insert i (remote_buffer_indices c)\<rparr>"
      using remote_index.hyps by (auto simp: RemoteBuilder_def builder_def bind_result_Inr split: if_splits)
    have "finite (remote_buffer_indices c)" "card (remote_buffer_indices c) \<le> Suc 0"
      using remote_index.IH finite_subset [of "remote_buffer_indices c" "{0 ..< NUM_CIRCULAR_BUFFERS}"] by (auto simp: config_wf_def)
    then have "\<forall>x \<in> remote_buffer_indices c. \<forall>y \<in> remote_buffer_indices c. x = y" by (simp add: card_le_Suc0_iff_eq)
    then show "remote_buffer_indices c \<subseteq> {i}" using r(3) by blast
    show "i \<notin> local_buffer_indices c" "i < NUM_CIRCULAR_BUFFERS" by fact+
  qed
  have "card (insert i (remote_buffer_indices c)) \<le> card {i}" using i(2) by (intro card_mono) auto
  then show ?case using remote_index.IH i(1,3) unfolding config_wf_def c' by simp
next
  case (data_format c i f)
  then have "i < length (data_formats c)" by (auto simp: config_wf_def)
  then show ?case using data_format by (auto simp: builder_set_data_format_def config_wf_def nth_list_update)
qed (simp_all add: config_wf_size config_wf_global)

theorem cb_config_well_formed_witness:
  "\<exists>c :: (nat, nat) cb_config. LocalBuilder 3 (cb_config_size 2048) = Inr c \<and> buffer_indices c = {3} \<and> config_wf c"
proof -
  let ?c = "(cb_config_size 2048 :: (nat, nat) cb_config)\<lparr>buffer_indices := {3}, local_buffer_indices := {3}\<rparr>"
  have b: "LocalBuilder 3 (cb_config_size 2048) = Inr ?c"
    by (simp add: LocalBuilder_def builder_def cb_config_size_def NUM_CIRCULAR_BUFFERS_def)
  have "config_wf ?c" by (rule cb_config_well_formed [OF config_reachable.local_index [OF config_reachable.sized b]])
  then show ?thesis using b by auto
qed

section \<open>Reachable programs\<close>

definition program_ok :: "('f, 't) program_cbs \<Rightarrow> bool" where
  "program_ok p \<longleftrightarrow> allocators_ok (cb_allocators p) \<and>
     (\<forall>b \<in> set (circular_buffers p). crs_ok (cb_core_ranges b) \<and>
        set (ranges_of (cb_core_ranges b)) \<subseteq> cba_core_range ` set (cb_allocators p) \<and>
        (\<forall>c \<in> cb_cores b. cb_indices b \<subseteq> per_core_cb_indices p c)) \<and>
     (local_circular_buffer_allocation_needed p \<longrightarrow> (\<forall>a \<in> set (cb_allocators p). l1_regions a = [])) \<and>
     sorted_wrt (\<lambda>b b'. \<forall>c \<in> cb_cores b \<inter> cb_cores b'. cb_indices b \<inter> cb_indices b' = {}) (circular_buffers p)"

lemma program_ok_invalidate: "program_ok p \<Longrightarrow> program_ok (invalidate_circular_buffer_allocation p)"
  by (auto simp: program_ok_def invalidate_circular_buffer_allocation_def allocators_ok_def image_image comp_def)

lemma program_ok_add:
  assumes ok: "program_ok p" and b: "crs_ok (cb_core_ranges b)" "set ls = local_buffer_indices (cb_conf b)"
    "set rs = remote_buffer_indices (cb_conf b)" and add: "add_circular_buffer_impl ls rs b p = (res, p')"
  shows "program_ok p'"
proof (cases "if globally_allocated b then assign_global_address b else Inr b")
  case (Inl e)
  then show ?thesis using add ok by (simp add: add_circular_buffer_impl_def)
next
  case (Inr b1)
  have b1: "cb_core_ranges b1 = cb_core_ranges b" "cb_conf b1 = cb_conf b"
    using Inr by (auto simp: assign_global_address_def split: if_splits option.splits)
  let ?p = "if globally_allocated b1 then p else invalidate_circular_buffer_allocation p"
  have ok0: "program_ok ?p" by (simp add: ok program_ok_invalidate)
  obtain e p1 where run: "add_on_ranges (ranges_of (cb_core_ranges b1)) ls rs ?p = (e, p1)" by fastforce
  have valid: "\<forall>r \<in> set (ranges_of (cb_core_ranges b1)). valid_range r" using b(1) b1 by (simp add: crs_ok_def)
  note a = ranges_added [OF run valid]
  have a': "grows ?p p1 \<and> allocators_ok (cb_allocators p1) \<and>
    cba_core_range ` set (cb_allocators ?p) \<subseteq> cba_core_range ` set (cb_allocators p1) \<and>
    ((\<forall>a \<in> set (cb_allocators ?p). l1_regions a = []) \<longrightarrow> (\<forall>a \<in> set (cb_allocators p1). l1_regions a = []))"
    using a ok0 by (simp add: program_ok_def)
  have ok1: "program_ok p1" using ok0 a' unfolding program_ok_def grows_def by (metis (no_types, lifting) order_trans)
  show ?thesis
  proof (cases e)
    case (Some x)
    then show ?thesis using add Inr run ok1 by (simp add: add_circular_buffer_impl_def Let_def)
  next
    case None
    then have p': "p' = p1\<lparr>circular_buffers := circular_buffers p1 @ [b1]\<rparr>"
      using add Inr run by (simp add: add_circular_buffer_impl_def Let_def)
    have idx: "set ls \<union> set rs = cb_indices b1" using b(2,3) b1 by (simp add: cb_indices_def)
    have new: "set (ranges_of (cb_core_ranges b1)) \<subseteq> cba_core_range ` set (cb_allocators p1)"
      "\<forall>c \<in> cb_cores b1. cb_indices b1 \<subseteq> per_core_cb_indices p1 c \<and> cb_indices b1 \<inter> per_core_cb_indices ?p c = {}"
      using a None ok0 unfolding idx cb_cores_def cores_of_def by (simp_all add: program_ok_def)
    have "circular_buffers p1 = circular_buffers ?p" using a' by (simp add: grows_def)
    then have "\<forall>b' \<in> set (circular_buffers p1). \<forall>c \<in> cb_cores b' \<inter> cb_cores b1. cb_indices b' \<inter> cb_indices b1 = {}"
      using ok0 new(2) unfolding program_ok_def by fastforce
    then show ?thesis using ok1 new b(1) b1 unfolding p' program_ok_def by (auto simp: sorted_wrt_append)
  qed
qed

lemma cb_same:
  assumes "list_all2 (\<lambda>b b'. cb_conf b' = cb_conf b \<and> cb_core_ranges b' = cb_core_ranges b) bs bs'"
  shows "length bs' = length bs"
    "i < length bs \<Longrightarrow> cb_indices (bs' ! i) = cb_indices (bs ! i) \<and> cb_cores (bs' ! i) = cb_cores (bs ! i) \<and>
       cb_core_ranges (bs' ! i) = cb_core_ranges (bs ! i) \<and> globally_allocated (bs' ! i) = globally_allocated (bs ! i) \<and>
       cb_size (bs' ! i) = cb_size (bs ! i)"
  using assms by (auto simp: list_all2_conv_all_nth cb_indices_def cb_cores_def globally_allocated_def cb_size_def)

lemma mark_address_range: "mark_address addr sz base a = (e, a') \<Longrightarrow> cba_core_range a' = cba_core_range a"
  by (auto simp: mark_address_def Let_def split: prod.splits if_splits)

lemma mark_range_ranges: "map cba_core_range (snd (cb_mark_range addr sz base r as)) = map cba_core_range as"
  by (induction as) (auto simp: Let_def split: prod.splits option.splits if_splits dest: mark_address_range)

lemma mark_ranges_ranges: "map cba_core_range (snd (cb_mark_ranges addr sz base rs as)) = map cba_core_range as"
proof (induction rs arbitrary: as)
  case (Cons r rs)
  obtain e as1 where m: "cb_mark_range addr sz base r as = (e, as1)" by fastforce
  then have "map cba_core_range as1 = map cba_core_range as" using mark_range_ranges [of addr sz base r as] by simp
  then show ?case using Cons.IH [of as1] m by (cases e) auto
qed simp

lemma allocate_loop_same:
  "allocate_loop base alignment bs as = (e, bs', as') \<Longrightarrow>
    list_all2 (\<lambda>b b'. cb_conf b' = cb_conf b \<and> cb_core_ranges b' = cb_core_ranges b) bs bs' \<and>
    map cba_core_range as' = map cba_core_range as"
proof (induction bs arbitrary: as e bs' as')
  case (Cons b bs)
  show ?case
  proof (cases "globally_allocated b")
    case True
    obtain e1 bs1 as1 where "allocate_loop base alignment bs as = (e1, bs1, as1)" by (cases "allocate_loop base alignment bs as") auto
    then show ?thesis using Cons.IH [of as e1 bs1 as1] Cons.prems True by auto
  next
    case False
    let ?rs = "ranges_of (cb_core_ranges b)"
    obtain e1 as1 where m: "cb_mark_ranges (compute_addr base alignment ?rs as) (cb_size b) base ?rs as = (e1, as1)" by fastforce
    then have r: "map cba_core_range as1 = map cba_core_range as"
      using mark_ranges_ranges [of "compute_addr base alignment ?rs as" "cb_size b" base ?rs as] by simp
    obtain e2 bs2 as2 where l: "allocate_loop base alignment bs as1 = (e2, bs2, as2)"
      by (cases "allocate_loop base alignment bs as1") auto
    show ?thesis
    proof (cases e1)
      case None
      then show ?thesis using Cons.IH [OF l] Cons.prems False m l r by (auto simp: Let_def)
    next
      case (Some x)
      then show ?thesis using Cons.prems False m r by (auto simp: Let_def intro: list_all2_refl)
    qed
  qed
qed simp

lemma program_ok_cong:
  assumes ok: "program_ok p" and same: "list_all2 (\<lambda>b b'. cb_conf b' = cb_conf b \<and> cb_core_ranges b' = cb_core_ranges b)
      (circular_buffers p) bs" and r: "map cba_core_range as = map cba_core_range (cb_allocators p)"
  shows "program_ok (p\<lparr>circular_buffers := bs, cb_allocators := as, local_circular_buffer_allocation_needed := False\<rparr>)"
proof -
  have dom: "cba_core_range ` set as = cba_core_range ` set (cb_allocators p)" using r by (metis list.set_map)
  have "\<forall>r \<in> cba_core_range ` set as. valid_range r" using ok dom by (auto simp: program_ok_def allocators_ok_def)
  then have a: "allocators_ok as" using ok r by (auto simp: program_ok_def allocators_ok_def)
  note c = cb_same [OF same]
  show ?thesis
    using ok a c unfolding program_ok_def sorted_wrt_iff_nth_less all_set_conv_all_nth by (simp add: dom)
qed

lemma program_reachable_ok: "program_reachable p \<Longrightarrow> program_ok p"
proof (induction rule: program_reachable.induct)
  case new
  then show ?case by (simp add: program_ok_def program_new_def allocators_ok_def)
next
  case (add p b ls rs res p')
  then show ?case by (blast intro: program_ok_add)
next
  case (invalidate p)
  show ?case by (rule program_ok_invalidate [OF invalidate.IH])
next
  case (allocate p base alignment p')
  obtain e bs as where l: "allocate_loop base alignment (circular_buffers p) (cb_allocators p) = (e, bs, as)"
    by (cases "allocate_loop base alignment (circular_buffers p) (cb_allocators p)") auto
  show ?case
  proof (cases "local_circular_buffer_allocation_needed p")
    case True
    then have "p' = p\<lparr>circular_buffers := bs, cb_allocators := as, local_circular_buffer_allocation_needed := False\<rparr>"
      using allocate.hyps(2) l by (simp add: allocate_circular_buffers_def Let_def split: option.splits)
    then show ?thesis using program_ok_cong [OF allocate.IH] allocate_loop_same [OF l] by blast
  next
    case False
    then show ?thesis using allocate by (simp add: allocate_circular_buffers_def)
  qed
qed

text \<open>
  C32: No two circular buffers of a program use the same index on a core they share, and the
  index is recorded for the core, whatever additions have been made, failed ones included.
\<close>

theorem cb_indices_unique:
  assumes "program_reachable p" "i < j" "j < length (circular_buffers p)"
    "c \<in> cb_cores (circular_buffers p ! i)" "c \<in> cb_cores (circular_buffers p ! j)"
  shows "cb_indices (circular_buffers p ! i) \<inter> cb_indices (circular_buffers p ! j) = {} \<and>
    cb_indices (circular_buffers p ! i) \<union> cb_indices (circular_buffers p ! j) \<subseteq> per_core_cb_indices p c"
proof -
  have ok: "program_ok p" by (rule program_reachable_ok [OF assms(1)])
  then have "cb_indices (circular_buffers p ! i) \<inter> cb_indices (circular_buffers p ! j) = {}"
    using assms(2-5) unfolding program_ok_def sorted_wrt_iff_nth_less by blast
  moreover have "circular_buffers p ! i \<in> set (circular_buffers p)" "circular_buffers p ! j \<in> set (circular_buffers p)"
    using assms(2,3) by simp_all
  then have "cb_indices (circular_buffers p ! i) \<subseteq> per_core_cb_indices p c" "cb_indices (circular_buffers p ! j) \<subseteq> per_core_cb_indices p c"
    using ok assms(4,5) unfolding program_ok_def by blast+
  ultimately show ?thesis by blast
qed

section \<open>Addresses\<close>

lemma allocation_placed:
  assumes ok: "program_ok p" and needed: "local_circular_buffer_allocation_needed p" and k: "k \<le> 12"
    and fit: "base + (\<Sum>b\<leftarrow>circular_buffers p. cb_size b + 4096) < 2 ^ 31"
  obtains p' where "allocate_circular_buffers base (2 ^ k) p = (None, p')"
    "placed k base (\<lambda>r. region_end_of r (cb_allocators p)) (circular_buffers p') (\<lambda>r. region_end_of r (cb_allocators p'))"
    "list_all2 (\<lambda>b b'. cb_conf b' = cb_conf b \<and> cb_core_ranges b' = cb_core_ranges b) (circular_buffers p) (circular_buffers p')"
    "map cba_core_range (cb_allocators p') = map cba_core_range (cb_allocators p)"
proof -
  have ends: "\<forall>a \<in> set (cb_allocators p). get_cb_region_end a \<le> base"
    using ok needed by (auto simp: program_ok_def get_cb_region_end_def)
  have bs: "\<forall>b \<in> set (circular_buffers p). crs_ok (cb_core_ranges b) \<and>
      set (ranges_of (cb_core_ranges b)) \<subseteq> cba_core_range ` set (cb_allocators p)" and a: "allocators_ok (cb_allocators p)"
    using ok by (auto simp: program_ok_def)
  obtain bs' as' where l: "allocate_loop base (2 ^ k) (circular_buffers p) (cb_allocators p) = (None, bs', as')"
    "placed k base (\<lambda>r. region_end_of r (cb_allocators p)) bs' (\<lambda>r. region_end_of r as')"
    "list_all2 (\<lambda>b b'. cb_conf b' = cb_conf b \<and> cb_core_ranges b' = cb_core_ranges b) (circular_buffers p) bs'"
    "map cba_core_range as' = map cba_core_range (cb_allocators p)"
    using allocate_loop_placed [OF a bs ends order_refl fit k] by blast
  then show ?thesis
    using that [of "p\<lparr>circular_buffers := bs', cb_allocators := as', local_circular_buffer_allocation_needed := False\<rparr>"] needed
    by (simp add: allocate_circular_buffers_def Let_def)
qed

text \<open>
  C7: The allocation of circular buffers succeeds and gives every circular buffer without a
  buffer of its own an aligned address in the space for circular buffers, and two that share
  a core range do not overlap; so when any two core ranges in use are the same or have no
  core in common, no two circular buffers on the same core overlap.
\<close>

theorem cb_allocation_disjoint:
  assumes "program_reachable p" "local_circular_buffer_allocation_needed p" "k \<le> 12"
    "base + (\<Sum>b\<leftarrow>circular_buffers p. cb_size b + 4096) < 2 ^ 31"
    "\<forall>b \<in> set (circular_buffers p). \<forall>b' \<in> set (circular_buffers p). \<forall>r \<in> set (ranges_of (cb_core_ranges b)).
       \<forall>r' \<in> set (ranges_of (cb_core_ranges b')). r = r' \<or> cells r \<inter> cells r' = {}"
  shows "\<exists>p'. allocate_circular_buffers base (2 ^ k) p = (None, p') \<and> length (circular_buffers p') = length (circular_buffers p) \<and>
    (\<forall>b \<in> set (circular_buffers p'). \<not> globally_allocated b \<longrightarrow> (\<exists>a. cb_address b = Inr a \<and> base \<le> a \<and> 2 ^ k dvd a)) \<and>
    (\<forall>j < length (circular_buffers p'). \<forall>i < j. \<not> globally_allocated (circular_buffers p' ! i) \<and>
       \<not> globally_allocated (circular_buffers p' ! j) \<and> cb_cores (circular_buffers p' ! i) \<inter> cb_cores (circular_buffers p' ! j) \<noteq> {} \<longrightarrow>
       (\<exists>a a'. cb_address (circular_buffers p' ! i) = Inr a \<and> cb_address (circular_buffers p' ! j) = Inr a' \<and>
          a + cb_size (circular_buffers p' ! i) \<le> a'))"
proof -
  obtain p' where p': "allocate_circular_buffers base (2 ^ k) p = (None, p')"
    "placed k base (\<lambda>r. region_end_of r (cb_allocators p)) (circular_buffers p') (\<lambda>r. region_end_of r (cb_allocators p'))"
    "list_all2 (\<lambda>b b'. cb_conf b' = cb_conf b \<and> cb_core_ranges b' = cb_core_ranges b) (circular_buffers p) (circular_buffers p')"
    by (rule allocation_placed [OF program_reachable_ok [OF assms(1)] assms(2-4)])
  note same = cb_same [OF p'(3)]
  have addr: "\<exists>a. locally_allocated_address (circular_buffers p' ! i) = Some a \<and> cb_address (circular_buffers p' ! i) = Inr a \<and>
      base \<le> a \<and> 2 ^ k dvd a" if "i < length (circular_buffers p')" "\<not> globally_allocated (circular_buffers p' ! i)" for i
    by (rule placed_nth [OF p'(2) that]) (use that(2) in \<open>auto simp: cb_address_def\<close>)
  have order: "\<exists>a a'. cb_address (circular_buffers p' ! i) = Inr a \<and> cb_address (circular_buffers p' ! j) = Inr a' \<and>
      a + cb_size (circular_buffers p' ! i) \<le> a'"
    if ij: "j < length (circular_buffers p')" "i < j" "\<not> globally_allocated (circular_buffers p' ! i)"
      "\<not> globally_allocated (circular_buffers p' ! j)" "c \<in> cb_cores (circular_buffers p' ! i)" "c \<in> cb_cores (circular_buffers p' ! j)"
    for i j c
  proof -
    obtain r r' where r: "r \<in> set (ranges_of (cb_core_ranges (circular_buffers p' ! i)))" "c \<in> cells r"
      "r' \<in> set (ranges_of (cb_core_ranges (circular_buffers p' ! j)))" "c \<in> cells r'"
      using ij(5,6) by (auto simp: cb_cores_def cores_of_def cover_def)
    have len: "i < length (circular_buffers p)" "j < length (circular_buffers p)" using ij(1,2) same(1) by simp_all
    have "r = r'" using assms(5) r same(2) [OF len(1)] same(2) [OF len(2)] len by (metis disjoint_iff nth_mem)
    then have "the (locally_allocated_address (circular_buffers p' ! i)) + cb_size (circular_buffers p' ! i)
        \<le> the (locally_allocated_address (circular_buffers p' ! j))"
      using placed_order [OF p'(2) ij(2,1,3,4) r(1)] r(3) by simp
    then show ?thesis using addr [of i] addr [of j] ij by fastforce
  qed
  have "\<exists>a. cb_address b = Inr a \<and> base \<le> a \<and> 2 ^ k dvd a" if "b \<in> set (circular_buffers p')" "\<not> globally_allocated b" for b
    using that addr by (metis in_set_conv_nth)
  then show ?thesis using p'(1) same(1) order by blast
qed

lemma validate_regions_end:
  "validate_regions lowest max_l1 as = None \<Longrightarrow> a \<in> set as \<Longrightarrow>
    get_cb_region_end a \<le> max_l1 \<and> (\<forall>l. lowest = Some l \<longrightarrow> get_cb_region_end a \<le> l)"
  by (induction lowest max_l1 as rule: validate_regions.induct)
    (auto simp: get_cb_region_end_def Let_def split: if_splits option.splits)

text \<open>
  When the validation of the regions passes after the allocation, every circular buffer
  that the program has placed ends within the memory of a core, and below the lowest buffer
  that is allocated there.
\<close>

theorem cb_region_validated:
  assumes "program_reachable p" "local_circular_buffer_allocation_needed p" "k \<le> 12"
    "base + (\<Sum>b\<leftarrow>circular_buffers p. cb_size b + 4096) < 2 ^ 31"
    "allocate_circular_buffers base (2 ^ k) p = (None, p')" "validate_circular_buffer_region lowest max_l1 p' = None"
    "b \<in> set (circular_buffers p')" "\<not> globally_allocated b" "cb_cores b \<noteq> {}"
  shows "\<exists>a. cb_address b = Inr a \<and> base \<le> a \<and> a + cb_size b \<le> max_l1 \<and> (\<forall>l. lowest = Some l \<longrightarrow> a + cb_size b \<le> l)"
proof -
  have ok: "program_ok p" by (rule program_reachable_ok [OF assms(1)])
  have pl: "placed k base (\<lambda>r. region_end_of r (cb_allocators p)) (circular_buffers p') (\<lambda>r. region_end_of r (cb_allocators p'))"
    using allocation_placed [OF ok assms(2-4)] assms(5) by auto
  have ok': "program_ok p'" by (rule program_reachable_ok [OF program_reachable.allocate [OF assms(1,5)]])
  obtain i where i: "i < length (circular_buffers p')" "b = circular_buffers p' ! i" using assms(7) by (metis in_set_conv_nth)
  obtain a where a: "locally_allocated_address b = Some a" "base \<le> a"
    "\<And>r. r \<in> set (ranges_of (cb_core_ranges b)) \<Longrightarrow> a + cb_size b \<le> region_end_of r (cb_allocators p')"
    using placed_nth [OF pl i(1)] assms(8) i(2) by metis
  obtain r where r: "r \<in> set (ranges_of (cb_core_ranges b))" using assms(9) by (auto simp: cb_cores_def cores_of_def cover_def)
  then obtain x where x: "x \<in> set (cb_allocators p')" "cba_core_range x = r" using ok' assms(7) by (auto simp: program_ok_def)
  then have "region_end_of r (cb_allocators p') = get_cb_region_end x"
    using region_end_of_mem [of "cb_allocators p'" x] ok' by (auto simp: program_ok_def)
  then have "a + cb_size b \<le> get_cb_region_end x" using a(3) [OF r] by simp
  moreover have "get_cb_region_end x \<le> max_l1 \<and> (\<forall>l. lowest = Some l \<longrightarrow> get_cb_region_end x \<le> l)"
    using validate_regions_end [OF _ x(1)] assms(6) by (simp add: validate_circular_buffer_region_def)
  moreover have "cb_address b = Inr a" using a(1) assms(8) by (simp add: cb_address_def)
  ultimately show ?thesis using a(2) by (auto intro: order_trans)
qed

text \<open>Programs to evaluate: circular buffers of one core range each.\<close>

definition demo_cb :: "core_range \<Rightarrow> nat \<Rightarrow> u32 \<Rightarrow> (nat, nat) circular_buffer" where
  "demo_cb r i sz =
     \<lparr>cb_core_ranges = \<lparr>ranges_of = [r]\<rparr>,
      cb_conf = (cb_config_size sz)\<lparr>buffer_indices := {i}, local_buffer_indices := {i}\<rparr>,
      locally_allocated_address = None, cb_globally_allocated_address = 0, global_circular_buffer_config_address = 0,
      is_global_circular_buffer = False\<rparr>"

definition demo_add :: "core_range \<Rightarrow> nat \<Rightarrow> u32 \<Rightarrow> (nat, nat) program_cbs \<Rightarrow> (nat, nat) program_cbs" where
  "demo_add r i sz p = snd (add_circular_buffer_impl [i] [] (demo_cb r i sz) p)"

lemma demo_add_reachable: "program_reachable p \<Longrightarrow> valid_range r \<Longrightarrow> program_reachable (demo_add r i sz p)"
  unfolding demo_add_def
  by (rule program_reachable.add [where b = "demo_cb r i sz" and ls = "[i]" and rs = "[]" and res = "fst (add_circular_buffer_impl [i] [] (demo_cb r i sz) p)"])
    (simp_all add: demo_cb_def crs_ok_def apart_def cb_config_size_def)

lemmas demo_simps = demo_add_def demo_cb_def add_circular_buffer_impl_def globally_allocated_def cb_config_size_def
  invalidate_circular_buffer_allocation_def program_new_def range_columns_def add_allocator_def NUM_CIRCULAR_BUFFERS_def

definition demo_shared :: "(nat, nat) program_cbs" where
  "demo_shared = demo_add (box 0 0 1 0) 1 64 (demo_add (box 0 0 1 0) 0 1024 program_new)"

lemma demo_shared_facts:
  "program_reachable demo_shared" "local_circular_buffer_allocation_needed demo_shared"
  "circular_buffers demo_shared = [demo_cb (box 0 0 1 0) 0 1024, demo_cb (box 0 0 1 0) 1 64]"
proof -
  show "program_reachable demo_shared"
    unfolding demo_shared_def by (intro demo_add_reachable program_reachable.new) (simp_all add: valid_range_def)
  show "local_circular_buffer_allocation_needed demo_shared"
    "circular_buffers demo_shared = [demo_cb (box 0 0 1 0) 0 1024, demo_cb (box 0 0 1 0) 1 64]"
    by (simp_all add: demo_shared_def demo_simps)
qed

lemma demo_cells: "coord 0 0 \<in> cells (box 0 0 1 0)" "coord 0 0 \<in> cells (box 0 0 0 0)"
  by (simp_all add: in_cells)

lemma demo_cb_fields:
  "cb_size (demo_cb r i sz) = sz" "\<not> globally_allocated (demo_cb r i sz)" "cb_indices (demo_cb r i sz) = {i}"
  "cb_cores (demo_cb r i sz) = cells r" "ranges_of (cb_core_ranges (demo_cb r i sz)) = [r]"
  by (auto simp: demo_cb_def cb_size_def cb_config_size_def globally_allocated_def cb_indices_def cb_cores_def cores_of_def cover_def)

lemma demo_placed_fields:
  "cb_address (demo_cb r i sz\<lparr>locally_allocated_address := Some a\<rparr>) = Inr a"
  "cb_size (demo_cb r i sz\<lparr>locally_allocated_address := Some a\<rparr>) = sz"
  "\<not> globally_allocated (demo_cb r i sz\<lparr>locally_allocated_address := Some a\<rparr>)"
  "cb_cores (demo_cb r i sz\<lparr>locally_allocated_address := Some a\<rparr>) = cells r"
  by (auto simp: demo_cb_def cb_address_def cb_size_def cb_config_size_def globally_allocated_def cb_cores_def cores_of_def cover_def)

lemmas allocation_simps = allocate_circular_buffers_def compute_addr_def region_end_of_def get_cb_region_end_def
  cr_intersects_def mark_address_def add64_def demo_cb_fields

lemma demo_aligned_16: "align_u32 102400 16 = 102400" "align_u32 102464 16 = 102464" "align_u32 103424 16 = 103424"
  by (simp_all add: align_u32_def sub32_def add32_def)

lemma demo_shared_allocated:
  "allocate_circular_buffers 102400 (2 ^ 4) demo_shared =
    (None, demo_shared\<lparr>circular_buffers := [demo_cb (box 0 0 1 0) 0 1024\<lparr>locally_allocated_address := Some 102400\<rparr>,
         demo_cb (box 0 0 1 0) 1 64\<lparr>locally_allocated_address := Some 103424\<rparr>],
       cb_allocators := [\<lparr>cba_core_range = box 0 0 1 0, l1_regions = [(102400, 103488)]\<rparr>],
       local_circular_buffer_allocation_needed := False\<rparr>)"
proof -
  have "cb_allocators demo_shared = [\<lparr>cba_core_range = box 0 0 1 0, l1_regions = []\<rparr>]"
    by (simp add: demo_shared_def demo_simps)
  then show ?thesis using demo_shared_facts(2,3) by (simp add: allocation_simps demo_aligned_16)
qed

theorem cb_indices_unique_witness:
  "cb_indices (circular_buffers demo_shared ! 0) \<inter> cb_indices (circular_buffers demo_shared ! 1) = {} \<and>
   {0, 1} \<subseteq> per_core_cb_indices demo_shared (coord 0 0)"
  using cb_indices_unique [OF demo_shared_facts(1), of 0 1 "coord 0 0"]
  by (simp add: demo_shared_facts(3) demo_cb_fields in_cells)

theorem cb_allocation_disjoint_witness:
  "\<exists>p' a a'. allocate_circular_buffers 102400 (2 ^ 4) demo_shared = (None, p') \<and> cb_address (circular_buffers p' ! 0) = Inr a \<and>
     cb_address (circular_buffers p' ! 1) = Inr a' \<and> a + 1024 \<le> a'"
proof -
  have "\<exists>p'. allocate_circular_buffers 102400 (2 ^ 4) demo_shared = (None, p') \<and> length (circular_buffers p') = length (circular_buffers demo_shared) \<and>
    (\<forall>b \<in> set (circular_buffers p'). \<not> globally_allocated b \<longrightarrow> (\<exists>a. cb_address b = Inr a \<and> 102400 \<le> a \<and> 2 ^ 4 dvd a)) \<and>
    (\<forall>j < length (circular_buffers p'). \<forall>i < j. \<not> globally_allocated (circular_buffers p' ! i) \<and>
       \<not> globally_allocated (circular_buffers p' ! j) \<and> cb_cores (circular_buffers p' ! i) \<inter> cb_cores (circular_buffers p' ! j) \<noteq> {} \<longrightarrow>
       (\<exists>a a'. cb_address (circular_buffers p' ! i) = Inr a \<and> cb_address (circular_buffers p' ! j) = Inr a' \<and>
          a + cb_size (circular_buffers p' ! i) \<le> a'))"
    by (rule cb_allocation_disjoint [OF demo_shared_facts(1,2)]) (simp_all add: demo_shared_facts(3) demo_cb_fields)
  then show ?thesis
    using demo_cells(1) unfolding demo_shared_allocated by (auto simp: demo_placed_fields)
qed

theorem cb_region_validated_witness:
  "\<exists>p' a. allocate_circular_buffers 102400 (2 ^ 4) demo_shared = (None, p') \<and>
     validate_circular_buffer_region (Some 1000000) 1499136 p' = None \<and> cb_address (circular_buffers p' ! 1) = Inr a \<and> a + 64 \<le> 1000000"
proof -
  let ?b = "demo_cb (box 0 0 1 0) 1 64\<lparr>locally_allocated_address := Some 103424\<rparr>"
  let ?p = "snd (allocate_circular_buffers 102400 (2 ^ 4) demo_shared)"
  have v: "validate_circular_buffer_region (Some 1000000) 1499136 ?p = None"
    unfolding demo_shared_allocated by (simp add: validate_circular_buffer_region_def)
  have "\<exists>a. cb_address ?b = Inr a \<and> 102400 \<le> a \<and> a + cb_size ?b \<le> 1499136 \<and> (\<forall>l. Some 1000000 = Some l \<longrightarrow> a + cb_size ?b \<le> l)"
    by (rule cb_region_validated [OF demo_shared_facts(1,2) _ _ demo_shared_allocated])
      (simp_all add: demo_shared_facts(3) demo_cb_fields demo_placed_fields validate_circular_buffer_region_def valid_cells_ne valid_range_def)
  then show ?thesis using v unfolding demo_shared_allocated by (auto simp: demo_placed_fields)
qed

section \<open>Overlapping core ranges\<close>

text \<open>Two single cores, and after them the range of both.\<close>

definition demo_partial :: "(nat, nat) program_cbs" where
  "demo_partial =
     demo_add (box 0 0 1 0) 1 64 (demo_add (box 0 0 0 0) 0 1024 (demo_add (box 1 0 1 0) 0 64 program_new))"


end
