(* ===== verification/Block_Float.thy ===== *)
theory Block_Float
  imports Prelude "HOL-Library.Word"
begin

text \<open>
  The host-side conversions between 32-bit floats and the narrow formats of the device:
  src/tt_metal/common/blockfloat_common.hpp, the scalar part of bfloat8.hpp, and bfloat16.hpp.
  In a block format sixteen numbers share one exponent and keep a sign and a few bits of
  mantissa each.

  A \<open>float\<close> is its bit pattern, a 32-bit word, as in the sources, which reinterpret the
  bits. Machine words are \<open>32 word\<close>, \<open>16 word\<close> and \<open>8 word\<close>; \<open>int32_t\<close> values are
  integers read with \<open>sint\<close>. The template parameters \<open>BfpFormat\<close> and
  \<open>truncate_bfp_mantissa\<close> are arguments.
\<close>

unbundle bit_operations_syntax

section \<open>Formats\<close>

datatype data_format =
    Float32 | Float16 | Bfp8 | Bfp4 | Bfp2 | Float16_b | Bfp8_b | Bfp4_b | Bfp2_b | Lf8 | Fp8_e4m3 | Int8 | Tf32
  | UInt8 | UInt16 | Int32 | UInt32 | RawUInt8 | RawUInt16 | RawUInt32 | Invalid

definition is_bfp_format :: "data_format \<Rightarrow> bool" where
  "is_bfp_format f \<longleftrightarrow> f = Bfp2 \<or> f = Bfp4 \<or> f = Bfp8 \<or> f = Bfp2_b \<or> f = Bfp4_b \<or> f = Bfp8_b"

definition mantissa_bfp_width :: "data_format \<Rightarrow> nat" where
  "mantissa_bfp_width f = (if f = Bfp2 \<or> f = Bfp2_b then 1 else if f = Bfp4 \<or> f = Bfp4_b then 3 else 7)"

section \<open>Shared exponents\<close>

definition exponent_bits :: "32 word \<Rightarrow> 32 word" where
  "exponent_bits x = drop_bit 23 (x AND 0x7f800000)"

text \<open>Rebiasing from 127 to 15 with the clamps of the source.\<close>

definition clamp_exp_a :: "32 word \<Rightarrow> 32 word" where
  "clamp_exp_a e = (let se = sint e - 127 + 15 in word_of_int (if se > 31 then 31 else if se < 0 then 0 else se))"

definition get_max_exp :: "32 word list \<Rightarrow> bool \<Rightarrow> tt_error + 8 word" where
  "get_max_exp vec is_exp_a =
     (if length vec \<noteq> 16 then Inl (Tt_assert ''vec.size() == 16'')
      else Inr (ucast (fold (\<lambda>x m. let e = (if is_exp_a then clamp_exp_a (exponent_bits x) else exponent_bits x)
                               in if e > m then e else m) vec 0)))"

definition get_exp_dword :: "8 word list \<Rightarrow> tt_error + 32 word" where
  "get_exp_dword vec =
     (if length vec \<noteq> 4 then Inl (Tt_assert ''vec.size() == 4'')
      else Inr (fold (\<lambda>i tmp. tmp OR push_bit (i * 8) (ucast (vec ! i) AND 0xff)) [0 ..< 4] 0))"

definition pack_exponents :: "8 word list \<Rightarrow> nat \<Rightarrow> tt_error + 32 word list" where
  "pack_exponents exponents n =
     (if n = 0 then Inl Div_by_zero
      else if length exponents mod n \<noteq> 0 then Inl (Tt_fatal ''Input vector size must be divisible'')
      else if n > 4 \<and> exponents \<noteq> [] then Inl Undefined
      else Inr (map (\<lambda>k. fold (\<lambda>j v. v OR push_bit (8 * j) (ucast (exponents ! (k * n + j)) AND 0xff)) [0 ..< n] 0)
                    [0 ..< length exponents div n]))"

definition get_byte :: "32 word \<Rightarrow> nat \<Rightarrow> tt_error + 32 word" where
  "get_byte w index =
     (if \<not> index < 4 then Inl (Tt_assert ''index < 4'')
      else Inr (drop_bit (8 * index) (w AND push_bit (8 * index) 0xff)))"

section \<open>Encoding\<close>

text \<open>The loop that keeps each shift below the width of the word.\<close>

fun shift_down :: "32 word \<Rightarrow> nat \<Rightarrow> 32 word" where
  "shift_down m d = (if d > 31 then shift_down (drop_bit 31 m) (d - 31) else drop_bit d m)"

declare shift_down.simps [simp del]

text \<open>The exponent and the mantissa in the formats with a five-bit exponent.\<close>

definition rebias_exp_a :: "32 word \<Rightarrow> 32 word \<Rightarrow> 32 word \<times> 32 word" where
  "rebias_exp_a e man =
     (let se = sint e - 127 + 15
      in if se > 31 then (31, 0x007fffff) else if se < 0 then (0, 0) else (word_of_int se, man))"

definition round_mantissa :: "nat \<Rightarrow> bool \<Rightarrow> 32 word \<Rightarrow> 32 word" where
  "round_mantissa width truncate man =
     (let shift = 24 - width; max_val = push_bit width 1 - 1
      in if truncate then drop_bit shift man
         else let m = drop_bit shift (man + push_bit (shift - 1) 1) in if m > max_val then max_val else m)"

definition convert_u32_to_bfp ::
    "data_format \<Rightarrow> bool \<Rightarrow> 32 word \<Rightarrow> 32 word \<Rightarrow> bool \<Rightarrow> tt_error + 8 word" where
  "convert_u32_to_bfp f truncate input shared_exp is_exp_a =
     (if \<not> is_bfp_format f then Inl (Tt_assert ''BfpFormat'')
      else if input AND 0x7fffffff = 0 then Inr 0
      else
        let mantissa = input AND 0x007fffff;
            e = exponent_bits input;
            sign = drop_bit 31 (input AND 0x80000000);
            (e, mantissa) = (if is_exp_a then rebias_exp_a e mantissa else (e, mantissa));
            mantissa = push_bit 23 1 OR mantissa;
            exp_diff = sint (shared_exp - e)
        in if shared_exp \<ge> e \<and> exp_diff < 0 then Inl Undefined
           else
             let mantissa = (if shared_exp \<ge> e then shift_down mantissa (nat exp_diff) else mantissa);
                 mantissa = round_mantissa (mantissa_bfp_width f) truncate mantissa;
                 sign = (if mantissa = 0 then 0 else sign)
             in Inr (ucast (push_bit (mantissa_bfp_width f) sign OR mantissa)))"

definition nums_in_dword :: "data_format \<Rightarrow> nat" where
  "nums_in_dword f = (if f = Bfp2 \<or> f = Bfp2_b then 16 else if f = Bfp4 \<or> f = Bfp4_b then 8 else 4)"

fun pack_numbers ::
    "data_format \<Rightarrow> 32 word list \<Rightarrow> 32 word \<Rightarrow> bool \<Rightarrow> nat \<Rightarrow> 32 word \<Rightarrow> tt_error + 32 word" where
  "pack_numbers f vec shared_exp is_exp_a 0 tmp = Inr tmp"
| "pack_numbers f vec shared_exp is_exp_a (Suc i) tmp =
     (if \<not> i < length vec then Inl Undefined
      else bind_result (convert_u32_to_bfp f False (vec ! i) shared_exp is_exp_a) (\<lambda>c.
        let width = 32 div nums_in_dword f
        in pack_numbers f vec shared_exp is_exp_a i (push_bit width tmp OR (ucast c AND (push_bit width 1 - 1)))))"

definition create_packed_bfp_packed_as_u32 ::
    "data_format \<Rightarrow> 32 word list \<Rightarrow> 32 word \<Rightarrow> bool \<Rightarrow> tt_error + 32 word" where
  "create_packed_bfp_packed_as_u32 f vec shared_exp is_exp_a =
     (if \<not> is_bfp_format f then Inl (Tt_assert ''BfpFormat'')
      else pack_numbers f vec shared_exp is_exp_a (nums_in_dword f) 0)"

section \<open>Decoding\<close>

text \<open>Shifting the mantissa up until its top bit is set, counting the shifts.\<close>

partial_function (option) normalise :: "32 word \<Rightarrow> 32 word \<Rightarrow> nat \<Rightarrow> (32 word \<times> nat) option" where
  "normalise top_bit man cnt =
     (if man AND top_bit = 0 then normalise top_bit (push_bit 1 man) (cnt + 1) else Some (man, cnt))"

text \<open>
  The three branches of the source differ in the width, the top bit, and in that the branch
  of one bit has no loop: its mantissa has the top bit already.
\<close>

definition decode_mantissa ::
    "nat \<Rightarrow> 32 word \<Rightarrow> 32 word \<Rightarrow> bool \<Rightarrow> (tt_error + 32 word \<times> 32 word) option" where
  "decode_mantissa width man e is_exp_a =
     (if man = 0 then Some (Inr (0, 0))
      else Option.bind (if width = 1 then Some (man, 0) else normalise (push_bit (width - 1) 1) man 0)
        (\<lambda>(man, cnt).
           if \<not> e \<ge> of_nat cnt then Some (Inl (Tt_assert ''incorrect shift_cnt''))
           else Some (Inr (push_bit 1 man AND (push_bit width 1 - 1),
                           if is_exp_a then e - of_nat cnt - 15 + 127 else e - of_nat cnt))))"

definition convert_bfp_to_u32 :: "data_format \<Rightarrow> 8 word \<Rightarrow> 8 word \<Rightarrow> bool \<Rightarrow> (tt_error + 32 word) option" where
  "convert_bfp_to_u32 f data shared_exp is_exp_a =
     (if \<not> is_bfp_format f then Some (Inr 0)
      else
        let width = mantissa_bfp_width f;
            sign = ucast (drop_bit width data) :: 32 word;
            man = ucast (data AND (push_bit width 1 - 1)) :: 32 word
        in Option.bind (decode_mantissa width man (ucast shared_exp) is_exp_a) (\<lambda>r.
             Some (bind_result r (\<lambda>(man, e). Inr (push_bit 31 sign OR push_bit 23 e OR push_bit (23 - width) man)))))"

section \<open>Sixteen-bit floats\<close>

type_synonym bfloat16 = "16 word"

definition bfloat16_of_float :: "32 word \<Rightarrow> bfloat16" where
  "bfloat16_of_float x = ucast (drop_bit 16 x)"

definition bfloat16_of_u32 :: "32 word \<Rightarrow> bfloat16" where
  "bfloat16_of_u32 x = ucast x"

definition to_float :: "bfloat16 \<Rightarrow> 32 word" where
  "to_float x = push_bit 16 (ucast x)"

definition pack_two_bfloat16_into_uint32 :: "bfloat16 \<times> bfloat16 \<Rightarrow> 32 word" where
  "pack_two_bfloat16_into_uint32 p = ucast (fst p) OR push_bit 16 (ucast (snd p))"

definition unpack_two_bfloat16_from_uint32 :: "32 word \<Rightarrow> bfloat16 \<times> bfloat16" where
  "unpack_two_bfloat16_from_uint32 x = (bfloat16_of_u32 (x AND 0xffff), bfloat16_of_u32 (drop_bit 16 x))"

definition u16_from_u32_vector :: "32 word list \<Rightarrow> 16 word list" where
  "u16_from_u32_vector xs =
     concat (map (\<lambda>x. [fst (unpack_two_bfloat16_from_uint32 x), snd (unpack_two_bfloat16_from_uint32 x)]) xs)"

text \<open>The assertion comes after the allocation of the result and before the loop.\<close>

fun pack_pairs :: "16 word list \<Rightarrow> 32 word list" where
  "pack_pairs (a # b # xs) = pack_two_bfloat16_into_uint32 (a, b) # pack_pairs xs"
| "pack_pairs _ = []"

definition u32_from_u16_vector :: "16 word list \<Rightarrow> tt_error + 32 word list" where
  "u32_from_u16_vector xs =
     (if length xs mod 2 \<noteq> 0 then Inl (Tt_assert ''in.size() % 2 == 0'') else Inr (pack_pairs xs))"

text \<open>
  Packing copies the bytes of the vector; on the little-endian hosts this runs on, the first
  of two numbers is the low half of the word.
\<close>

definition pack_bfloat16_vec_into_uint32_vec :: "bfloat16 list \<Rightarrow> tt_error + 32 word list" where
  "pack_bfloat16_vec_into_uint32_vec xs =
     (if length xs mod 2 \<noteq> 0 then Inl (Tt_assert ''data.size() % 2 == 0'') else Inr (pack_pairs xs))"

definition unpack_uint32_vec_into_bfloat16_vec :: "(bfloat16 \<Rightarrow> bfloat16) \<Rightarrow> 32 word list \<Rightarrow> bfloat16 list" where
  "unpack_uint32_vec_into_bfloat16_vec transform xs =
     concat (map (\<lambda>x. [transform (fst (unpack_two_bfloat16_from_uint32 x)),
                       transform (snd (unpack_two_bfloat16_from_uint32 x))]) xs)"

end
