(* ===== verification/Block_Float_Props.thy ===== *)
theory Block_Float_Props
  imports Block_Float
begin

text \<open>
  The conversions on natural numbers: the fields of a float as quotients and remainders of
  its bit pattern, and the rounding and the normalisation of mantissas as arithmetic.
\<close>

section \<open>Fields\<close>

definition frac :: "32 word \<Rightarrow> nat" where
  "frac x = unat x mod 2 ^ 23"

definition expo :: "32 word \<Rightarrow> nat" where
  "expo x = unat x div 2 ^ 23 mod 2 ^ 8"

definition sgn_bit :: "32 word \<Rightarrow> nat" where
  "sgn_bit x = unat x div 2 ^ 31"

lemma unat_take_bit: "unat (take_bit n x) = unat x mod 2 ^ n"
  unfolding unsigned_take_bit_eq by (rule take_bit_eq_mod)

lemma unat_drop_bit: "unat (drop_bit n x) = unat x div 2 ^ n"
  unfolding unat_drop_bit_eq by (rule drop_bit_eq_div)

lemma unat_push_bit:
  fixes x :: "'a::len word"
  assumes "unat x * 2 ^ n < 2 ^ LENGTH('a)"
  shows "unat (push_bit n x) = unat x * 2 ^ n"
  using assms unfolding unsigned_push_bit_eq by (simp add: push_bit_eq_mult take_bit_eq_mod)

lemma unat_or_push:
  fixes x y :: "'a::len word"
  assumes "unat y < 2 ^ n" "unat x * 2 ^ n < 2 ^ LENGTH('a)"
  shows "unat (push_bit n x OR y) = unat x * 2 ^ n + unat y"
proof -
  have "unat (push_bit n x) = push_bit n (unat x)"
    unfolding unat_push_bit [OF assms(2)] by (simp add: push_bit_eq_mult)
  then show ?thesis using push_or_add [OF assms(1), of "unat x"] unfolding unsigned_or_eq by simp
qed

lemma mask_words: "(0x007fffff :: 32 word) = mask 23" "(0x7fffffff :: 32 word) = mask 31"
  "(0xff :: 32 word) = mask 8" "(0xffff :: 32 word) = mask 16"
  by (simp_all add: mask_eq_exp_minus_1)

lemma push_minus_mask: "n < LENGTH('a) \<Longrightarrow> push_bit n 1 - 1 = (mask n :: 'a::len word)"
  by (simp add: mask_eq_exp_minus_1 push_bit_eq_mult)

lemma unat_frac: "unat (x AND 0x007fffff) = frac x"
  by (simp add: mask_words frac_def unat_take_bit flip: take_bit_eq_mask)

lemma unat_expo: "unat (exponent_bits x) = expo x"
proof -
  have c: "(0x7f800000 :: 32 word) = push_bit 23 (mask 8)" by (simp add: mask_eq_exp_minus_1)
  have "exponent_bits x = take_bit 8 (drop_bit 23 x)"
    unfolding exponent_bits_def c by (rule bit_word_eqI) (auto simp: bit_simps)
  then show ?thesis by (simp add: unat_take_bit unat_drop_bit expo_def)
qed

lemma unat_sgn: "unat (drop_bit 31 (x AND 0x80000000)) = sgn_bit x"
proof -
  have "(0x80000000 :: 32 word) = push_bit 31 (mask 1)" by (simp add: mask_eq_exp_minus_1)
  then have "drop_bit 31 (x AND 0x80000000) = drop_bit 31 x"
    by (auto simp: bit_eq_iff bit_simps dest: bit_imp_le_length)
  then show ?thesis by (simp add: unat_drop_bit sgn_bit_def)
qed

lemma field_bounds [simp]: "frac x < 8388608" "expo x < 256" "sgn_bit x < 2"
proof -
  have "unat x < 2 ^ 32" using unsigned_less [of x] by simp
  then show "sgn_bit x < 2" by (simp add: sgn_bit_def less_mult_imp_div_less)
qed (simp_all add: frac_def expo_def)

lemma fields_eq: "unat x = sgn_bit x * 2 ^ 31 + expo x * 2 ^ 23 + frac x"
proof -
  have "unat x div 2 ^ 23 = unat x div 2 ^ 31 * 2 ^ 8 + expo x"
    unfolding expo_def by (simp add: div_mult2_eq [of _ 8388608 256, simplified] mult.commute)
  then show ?thesis
    using div_mult_mod_eq [of "unat x" "2 ^ 23"] by (simp add: sgn_bit_def frac_def algebra_simps)
qed

section \<open>Encoding\<close>

lemma unat_shift_down: "unat (shift_down m d) = unat m div 2 ^ d"
proof (induction m d rule: shift_down.induct)
  case (1 m d)
  show ?case
  proof (cases "d > 31")
    case True
    then have "unat (shift_down m d) = unat m div 2 ^ 31 div 2 ^ (d - 31)"
      using 1 by (simp add: shift_down.simps [of m] unat_drop_bit)
    also have "\<dots> = unat m div (2 ^ 31 * 2 ^ (d - 31))" by (rule div_mult2_eq [symmetric])
    also have "\<dots> = unat m div 2 ^ d"
      using True power_add [of "2 :: nat" 31 "d - 31"] by simp
    finally show ?thesis .
  qed (simp add: shift_down.simps unat_drop_bit)
qed

lemma mantissa_width_cases: "mantissa_bfp_width f = 1 \<or> mantissa_bfp_width f = 3 \<or> mantissa_bfp_width f = 7"
  by (simp add: mantissa_bfp_width_def)

lemma mantissa_width_bounds: "1 \<le> mantissa_bfp_width f" "mantissa_bfp_width f \<le> 7"
  using mantissa_width_cases [of f] by auto

lemma unat_mask: "n \<le> LENGTH('a) \<Longrightarrow> unat (mask n :: 'a::len word) = 2 ^ n - 1"
proof -
  assume n: "n \<le> LENGTH('a)"
  have "unat (mask n :: 'a word) = take_bit n (unat (- 1 :: 'a word))"
    by (simp add: take_bit_minus_one_eq_mask flip: unsigned_take_bit_eq)
  also have "\<dots> = mask n" using n by (simp add: unsigned_minus_1_eq_mask take_bit_of_mask min_def)
  finally show ?thesis by (simp add: mask_eq_exp_minus_1)
qed

lemma unat_round_mantissa:
  assumes "unat m < 2 ^ 24" "1 \<le> w" "w \<le> 7"
  shows "unat (round_mantissa w False m) = min (2 ^ w - 1) ((unat m + 2 ^ (23 - w)) div 2 ^ (24 - w))"
proof -
  have "(2 :: nat) ^ (23 - w) \<le> 2 ^ 22" using assms(2) by (intro power_increasing) auto
  then have small: "unat m + 2 ^ (23 - w) < 2 ^ 32" using assms(1) by simp
  have p: "unat (push_bit (23 - w) (1 :: 32 word)) = 2 ^ (23 - w)"
    using \<open>2 ^ (23 - w) \<le> 2 ^ 22\<close> unat_push_bit [of "1 :: 32 word" "23 - w"] by simp
  have s: "24 - w - 1 = 23 - w" by simp
  have "unat (m + push_bit (23 - w) 1) = unat m + 2 ^ (23 - w)"
    using small p by (simp add: unat_word_ariths)
  then have q: "unat (drop_bit (24 - w) (m + push_bit (23 - w) 1)) = (unat m + 2 ^ (23 - w)) div 2 ^ (24 - w)"
    by (simp add: unat_drop_bit)
  have k: "unat (push_bit w 1 - 1 :: 32 word) = 2 ^ w - 1"
    using push_minus_mask [of w, where 'a = 32] unat_mask [of w, where 'a = 32] assms(3) by simp
  show ?thesis
    using q k unfolding round_mantissa_def Let_def s by (simp add: word_less_nat_alt min_def)
qed

lemma nested_rounding:
  fixes m :: nat
  shows "(m div 2 ^ d + 2 ^ h) div 2 ^ Suc h = (m + 2 ^ (h + d)) div 2 ^ (Suc h + d)"
proof -
  have "(m + 2 ^ (h + d)) div 2 ^ d = m div 2 ^ d + 2 ^ h"
    by (simp add: power_add)
  then show ?thesis by (metis div_mult2_eq add.commute power_add)
qed

text \<open>The mantissa with its hidden bit, and what encoding makes of it for a shared exponent.\<close>

definition significand :: "32 word \<Rightarrow> nat" where
  "significand x = 2 ^ 23 + frac x"

definition rounded :: "nat \<Rightarrow> nat \<Rightarrow> nat \<Rightarrow> nat" where
  "rounded w m d = min (2 ^ w - 1) ((m + 2 ^ (23 - w + d)) div 2 ^ (24 - w + d))"

lemma significand_bound: "significand x < 2 ^ 24" "2 ^ 23 \<le> significand x"
  using field_bounds(1) [of x] by (simp_all add: significand_def)

lemma sint_uint_small: "unat (x :: 32 word) < 2 ^ 31 \<Longrightarrow> sint x = uint x"
proof -
  assume "unat x < 2 ^ 31"
  then have "int (unat x) < int (2 ^ 31)" by (rule of_nat_less_iff [THEN iffD2])
  then have "uint x < 2 ^ 31" by simp
  moreover have "- (2 ^ 31) \<le> uint x" by (rule order_trans [OF _ uint_ge_0]) simp
  ultimately show ?thesis unfolding sint_uint using signed_take_bit_int_eq_self [of 31 "uint x"] by simp
qed

lemma ucast_join:
  fixes s m :: "32 word"
  assumes "unat s < 2" "unat m < 2 ^ w" "1 \<le> w" "w \<le> 7"
  shows "unat (ucast (push_bit w s OR m) :: 8 word) = unat s * 2 ^ w + unat m"
proof -
  have p: "(2 :: nat) ^ w \<le> 128" using power_increasing [OF assms(4), of "2 :: nat"] by simp
  have "unat s \<le> 1" using assms(1) by simp
  then have le: "unat s * 2 ^ w \<le> 1 * 2 ^ w" by (intro mult_right_mono) auto
  have "unat s * 2 ^ w \<le> 128" using order_trans [OF le [unfolded mult_1] p] .
  then have sm: "unat s * 2 ^ w < 2 ^ 32" by (rule le_less_trans) simp
  have j: "unat (push_bit w s OR m) = unat s * 2 ^ w + unat m"
    by (rule unat_or_push [OF assms(2)]) (use sm in simp)
  have "unat (push_bit w s OR m) < 256" using j le p assms(2) by linarith
  then show ?thesis using j by (simp add: unsigned_ucast_eq take_bit_eq_mod)
qed

lemma convert_u32_to_bfp_eq:
  assumes f: "is_bfp_format f" and nz: "unat x mod 2 ^ 31 \<noteq> 0"
    and s: "expo x \<le> unat s" "unat s < 2 ^ 31"
    and q: "q = rounded (mantissa_bfp_width f) (significand x) (unat s - expo x)"
  shows "\<exists>r. convert_u32_to_bfp f False x s False = Inr r \<and>
    unat r = (if q = 0 then 0 else sgn_bit x * 2 ^ mantissa_bfp_width f) + q"
proof -
  let ?w = "mantissa_bfp_width f" and ?d = "unat s - expo x"
  define e where "e = exponent_bits x"
  have e: "unat e = expo x" by (simp add: e_def unat_expo)
  define m0 where "m0 = push_bit 23 1 OR (x AND 0x007fffff)"
  have m0: "unat m0 = significand x"
    using unat_or_push [of "x AND 0x007fffff" 23 "1 :: 32 word"] field_bounds(1) [of x]
    by (simp add: m0_def unat_frac significand_def)
  have ge: "s \<ge> e" using s(1) e by (simp add: word_le_nat_alt)
  have df: "unat (s - e) = ?d" using ge e by (simp add: unat_sub)
  have sd: "sint (s - e) = int ?d"
    using df s(2) by (subst sint_uint_small) (simp_all add: uint_nat)
  define m1 where "m1 = shift_down m0 ?d"
  have m1: "unat m1 = significand x div 2 ^ ?d" by (simp add: m1_def unat_shift_down m0)
  then have m1b: "unat m1 < 2 ^ 24" using significand_bound(1) [of x] div_le_dividend le_less_trans by metis
  define m2 where "m2 = round_mantissa ?w False m1"
  note w = mantissa_width_bounds [of f]
  have h: "24 - ?w = Suc (23 - ?w)" using w by simp
  have "unat m2 = min (2 ^ ?w - 1) ((significand x div 2 ^ ?d + 2 ^ (23 - ?w)) div 2 ^ (24 - ?w))"
    unfolding m2_def using unat_round_mantissa [OF m1b w] m1 by simp
  also have "\<dots> = q"
    unfolding q rounded_def h nested_rounding ..
  finally have m2: "unat m2 = q" .
  have "q \<le> 2 ^ ?w - 1" unfolding q rounded_def by (rule min.cobounded1)
  moreover have "(0 :: nat) < 2 ^ ?w" by simp
  ultimately have qb: "q < 2 ^ ?w" by linarith
  have nz': "x AND 0x7fffffff \<noteq> 0"
    using nz unat_take_bit [of 31 x] by (auto simp: mask_words simp flip: take_bit_eq_mask)
  define sg where "sg = (if m2 = 0 then 0 else drop_bit 31 (x AND 0x80000000))"
  have sg: "unat sg = (if q = 0 then 0 else sgn_bit x)"
    using m2 unat_sgn [of x] unsigned_eq_0_iff [of m2, where 'a = nat] by (auto simp: sg_def)
  have "convert_u32_to_bfp f False x s False = Inr (ucast (push_bit ?w sg OR m2))"
    using f nz' ge sd unfolding convert_u32_to_bfp_def Let_def
    by (simp add: sg_def m2_def m1_def m0_def flip: e_def)
  moreover have "unat (ucast (push_bit ?w sg OR m2) :: 8 word) = unat sg * 2 ^ ?w + unat m2"
    by (rule ucast_join) (use sg m2 qb w field_bounds(3) [of x] in auto)
  ultimately show ?thesis using sg m2 by auto
qed

section \<open>Decoding\<close>

lemma top_bit_test:
  fixes man :: "32 word"
  assumes "unat man < 2 ^ Suc n"
  shows "man AND push_bit n 1 = 0 \<longleftrightarrow> unat man < 2 ^ n"
proof -
  have "man AND push_bit n 1 = 0 \<longleftrightarrow> \<not> bit man n"
    by (simp add: push_bit_eq_mult and_exp_eq_0_iff_not_bit)
  also have "bit man n \<longleftrightarrow> odd (unat man div 2 ^ n)"
    by (simp add: bit_unsigned_iff flip: bit_iff_odd)
  also have "\<dots> \<longleftrightarrow> \<not> unat man < 2 ^ n"
  proof (cases "unat man < 2 ^ n")
    case False
    have "unat man div 2 ^ n = 1"
      by (rule div_nat_eqI) (use assms False in auto)
    then show ?thesis using False by simp
  qed simp
  finally show ?thesis by simp
qed

lemma normalise_ok:
  fixes man :: "32 word"
  assumes "0 < unat man" "unat man < 2 ^ Suc n" "n \<le> 6"
  shows "\<exists>man' cnt. normalise (push_bit n 1) man c = Some (man', c + cnt) \<and> unat man' = unat man * 2 ^ cnt \<and>
    2 ^ n \<le> unat man * 2 ^ cnt \<and> unat man * 2 ^ cnt < 2 ^ Suc n"
  using assms(1,2)
proof (induction "2 ^ Suc n - unat man" arbitrary: man c rule: less_induct)
  case less
  show ?case
  proof (cases "unat man < 2 ^ n")
    case True
    have "(2 :: nat) ^ n \<le> 2 ^ 6" using assms(3) by (rule power_increasing) simp
    then have "unat man * 2 ^ 1 < 2 ^ LENGTH(32)" using True by simp
    then have m: "unat (push_bit 1 man) = 2 * unat man" using unat_push_bit [of man 1] by simp
    have "2 ^ Suc n - unat (push_bit 1 man) < 2 ^ Suc n - unat man" "0 < unat (push_bit 1 man)"
      "unat (push_bit 1 man) < 2 ^ Suc n"
      unfolding m using True less.prems by auto
    note IH = less.hyps [OF this, of "c + 1"]
    obtain man' cnt where "normalise (push_bit n 1) (push_bit 1 man) (c + 1) = Some (man', c + 1 + cnt)"
      "unat man' = unat (push_bit 1 man) * 2 ^ cnt" "2 ^ n \<le> unat (push_bit 1 man) * 2 ^ cnt"
      "unat (push_bit 1 man) * 2 ^ cnt < 2 ^ Suc n"
      using IH by blast
    then show ?thesis unfolding m using True top_bit_test [OF less.prems(2)]
      by (intro exI [of _ man'] exI [of _ "Suc cnt"]) (subst normalise.simps, simp add: mult.assoc mult.left_commute)
  next
    case False
    then show ?thesis using less.prems top_bit_test [OF less.prems(2)]
      by (intro exI [of _ man] exI [of _ 0]) (subst normalise.simps, simp)
  qed
qed

text \<open>How far a mantissa is shifted up, as a function of the mantissa alone.\<close>

definition normalised :: "nat \<Rightarrow> nat \<Rightarrow> nat \<Rightarrow> bool" where
  "normalised w q cnt \<longleftrightarrow> 2 ^ (w - 1) \<le> q * 2 ^ cnt \<and> q * 2 ^ cnt < 2 ^ w"

lemma decode_mantissa_ok:
  fixes man e :: "32 word"
  assumes "0 < unat man" "unat man < 2 ^ w" "1 \<le> w" "w \<le> 7"
  shows "\<exists>cnt. normalised w (unat man) cnt \<and>
    (if unat e < cnt then decode_mantissa w man e False = Some (Inl (Tt_assert ''incorrect shift_cnt''))
     else \<exists>m'. decode_mantissa w man e False = Some (Inr (m', e - of_nat cnt)) \<and>
            unat m' = 2 * (unat man * 2 ^ cnt) - 2 ^ w)"
proof -
  have w: "Suc (w - 1) = w" using assms(3) by simp
  obtain man' cnt where n: "(if w = 1 then Some (man, 0) else normalise (push_bit (w - 1) 1) man 0) = Some (man', cnt)"
    "unat man' = unat man * 2 ^ cnt" "normalised w (unat man) cnt"
  proof (cases "w = 1")
    case True
    then show ?thesis using that [of man 0] assms(1,2) by (simp add: normalised_def)
  next
    case False
    then show ?thesis
      using normalise_ok [of man "w - 1" 0] assms that w by (auto simp: normalised_def)
  qed
  have c32: "cnt < 2 ^ 32"
  proof -
    have "cnt < 2 ^ cnt" by (rule less_exp)
    also have "\<dots> \<le> unat man * 2 ^ cnt" using assms(1) by simp
    also have "\<dots> < 2 ^ w" using n(3) by (simp add: normalised_def)
    also have "\<dots> \<le> 2 ^ 32" using assms(4) by (intro power_increasing) auto
    finally show ?thesis .
  qed
  then have uc: "unat (of_nat cnt :: 32 word) = cnt" by (simp add: unat_of_nat)
  have p: "(2 :: nat) ^ w \<le> 128" using power_increasing [OF assms(4), of "2 :: nat"] by simp
  have lt: "unat man' < 2 ^ w" "2 ^ (w - 1) \<le> unat man'" using n(2,3) by (simp_all add: normalised_def)
  then have "unat (push_bit 1 man') = 2 * unat man'" using unat_push_bit [of man' 1] p by simp
  then have "unat (push_bit 1 man' AND (push_bit w 1 - 1)) = 2 * unat man' mod 2 ^ w"
    using push_minus_mask [of w, where 'a = 32] assms(4) by (simp add: unat_take_bit flip: take_bit_eq_mask)
  also have "\<dots> = 2 * unat man' - 2 ^ w"
  proof -
    have "(2 :: nat) ^ w = 2 * 2 ^ (w - 1)" using w by (metis power_Suc)
    then have "2 ^ w \<le> 2 * unat man'" "2 * unat man' < 2 * 2 ^ w" using lt by linarith+
    then show ?thesis by (simp add: le_mod_geq)
  qed
  finally have m: "unat (push_bit 1 man' AND (push_bit w 1 - 1)) = 2 * (unat man * 2 ^ cnt) - 2 ^ w"
    using n(2) by simp
  have nz: "man \<noteq> 0" using assms(1) by auto
  have ge: "of_nat cnt \<le> e \<longleftrightarrow> \<not> unat e < cnt" using uc by (simp add: word_le_nat_alt not_less)
  show ?thesis
    using n(3) m nz unfolding decode_mantissa_def n(1) by (intro exI [of _ cnt]) (simp add: ge)
qed

lemma fields_of:
  assumes "unat x = s * 2 ^ 31 + e * 2 ^ 23 + m" "e < 2 ^ 8" "m < 2 ^ 23"
  shows "sgn_bit x = s" "expo x = e" "frac x = m"
proof -
  have a: "unat x = (s * 2 ^ 8 + e) * 2 ^ 23 + m" using assms(1) by simp
  show m: "frac x = m" unfolding frac_def a mod_mult_self3 using assms(3) by simp
  have q: "unat x div 2 ^ 23 = s * 2 ^ 8 + e" unfolding a using assms(3) by simp
  then show "expo x = e" using assms(2) by (simp add: expo_def)
  have "unat x div 2 ^ 31 = unat x div 2 ^ 23 div 2 ^ 8" by (simp flip: div_mult2_eq)
  then show "sgn_bit x = s" unfolding sgn_bit_def q using assms(2) by simp
qed

lemma unat_ucast_up: "unat (ucast (x :: 8 word) :: 32 word) = unat x"
  by (simp add: unsigned_ucast_eq take_bit_nat_eq_self order_less_trans [OF unsigned_less])

lemma convert_bfp_to_u32_ok:
  assumes f: "is_bfp_format f" and w: "w = mantissa_bfp_width f" and data: "unat data < 2 ^ Suc w"
    and q: "q = unat data mod 2 ^ w" "0 < q"
  shows "\<exists>cnt. normalised w q cnt \<and>
    (if unat s < cnt then convert_bfp_to_u32 f data s False = Some (Inl (Tt_assert ''incorrect shift_cnt''))
     else \<exists>y. convert_bfp_to_u32 f data s False = Some (Inr y) \<and> sgn_bit y = unat data div 2 ^ w \<and>
            expo y = unat s - cnt \<and> significand y = q * 2 ^ cnt * 2 ^ (24 - w))"
proof -
  note wb = mantissa_width_bounds [of f, folded w]
  define man where "man = (ucast (data AND (push_bit w 1 - 1)) :: 32 word)"
  define sg where "sg = (ucast (drop_bit w data) :: 32 word)"
  have man: "unat man = q"
    using push_minus_mask [of w, where 'a = 8] wb(2) q(1)
    by (simp add: man_def unat_ucast_up unat_take_bit flip: take_bit_eq_mask)
  have sg: "unat sg = unat data div 2 ^ w" by (simp add: sg_def unat_ucast_up unat_drop_bit)
  have sg2: "unat sg < 2" using data sg by (simp add: less_mult_imp_div_less)
  have qw: "q < 2 ^ w" using q(1) by simp
  have us: "unat (ucast s :: 32 word) = unat s" by (rule unat_ucast_up)
  obtain cnt where cnt: "normalised w q cnt" and dec:
    "if unat s < cnt then decode_mantissa w man (ucast s) False = Some (Inl (Tt_assert ''incorrect shift_cnt''))
     else \<exists>m'. decode_mantissa w man (ucast s) False = Some (Inr (m', ucast s - of_nat cnt)) \<and>
            unat m' = 2 * (q * 2 ^ cnt) - 2 ^ w"
    using decode_mantissa_ok [of man w "ucast s"] man q(2) qw wb us by auto
  have conv: "convert_bfp_to_u32 f data s False = Option.bind (decode_mantissa w man (ucast s) False) (\<lambda>r.
      Some (bind_result r (\<lambda>(man, e). Inr (push_bit 31 sg OR push_bit 23 e OR push_bit (23 - w) man))))"
    using f unfolding convert_bfp_to_u32_def Let_def man_def sg_def w by simp
  show ?thesis
  proof (cases "unat s < cnt")
    case True
    then show ?thesis using cnt dec conv by (intro exI [of _ cnt]) simp
  next
    case False
    then obtain m' where m': "decode_mantissa w man (ucast s) False = Some (Inr (m', ucast s - of_nat cnt))"
      "unat m' = 2 * (q * 2 ^ cnt) - 2 ^ w" using dec by auto
    define e where "e = (ucast s - of_nat cnt :: 32 word)"
    have s8: "unat s < 256" using unsigned_less [of s] by simp
    then have uc: "unat (of_nat cnt :: 32 word) = cnt" using False by (simp add: unat_of_nat)
    have e: "unat e = unat s - cnt"
      using False us uc by (simp add: e_def unat_sub word_le_nat_alt)
    have n2: "2 ^ w \<le> 2 * (q * 2 ^ cnt)" "q * 2 ^ cnt < 2 ^ w"
      using cnt wb(1) power_Suc [of "2 :: nat" "w - 1"] by (simp_all add: normalised_def)
    have mb: "unat m' < 2 ^ w" using m'(2) n2 by linarith
    have pw: "(2 :: nat) ^ w * 2 ^ (23 - w) = 2 ^ 23" using wb(2) by (simp flip: power_add)
    have "unat m' * 2 ^ (23 - w) < 2 ^ w * 2 ^ (23 - w)" using mb by simp
    then have mlt: "unat m' * 2 ^ (23 - w) < 2 ^ 23" unfolding pw .
    then have um: "unat (push_bit (23 - w) m') = unat m' * 2 ^ (23 - w)" using unat_push_bit [of m' "23 - w"] by simp
    have low: "unat (push_bit 23 e OR push_bit (23 - w) m') = unat e * 2 ^ 23 + unat m' * 2 ^ (23 - w)"
      using unat_or_push [of "push_bit (23 - w) m'" 23 e] um mlt e s8 by simp
    have "unat (push_bit 31 sg OR (push_bit 23 e OR push_bit (23 - w) m')) =
        unat sg * 2 ^ 31 + unat e * 2 ^ 23 + unat m' * 2 ^ (23 - w)"
      using unat_or_push [of "push_bit 23 e OR push_bit (23 - w) m'" 31 sg] low mlt e s8 sg2 by simp
    note fld = fields_of [OF this _ mlt]
    have "significand (push_bit 31 sg OR (push_bit 23 e OR push_bit (23 - w) m')) = q * 2 ^ cnt * 2 ^ (24 - w)"
    proof -
      have "24 - w = Suc (23 - w)" using wb(2) by simp
      then have "(2 :: nat) ^ (24 - w) = 2 * 2 ^ (23 - w)" by simp
      then have "q * 2 ^ cnt * 2 ^ (24 - w) = 2 * (q * 2 ^ cnt) * 2 ^ (23 - w)" by simp
      also have "\<dots> = (2 ^ w + unat m') * 2 ^ (23 - w)" using m'(2) n2(1) by simp
      also have "\<dots> = 2 ^ 23 + unat m' * 2 ^ (23 - w)" unfolding add_mult_distrib pw ..
      finally show ?thesis using fld(3) e s8 by (simp add: significand_def)
    qed
    then show ?thesis
      using False cnt conv m'(1) fld(1,2) e s8 sg by (intro exI [of _ cnt]) (simp add: e_def)
  qed
qed

end
