(* ===== verification/Block_Float_Theorems.thy ===== *)
theory Block_Float_Theorems
  imports Block_Float_Props
begin

text \<open>
  The properties of the narrow number formats: how far encoding is from the number, that
  decoding is exact and undone by encoding, where packed numbers lie, and what the formats
  with a five-bit exponent make of very small numbers.
\<close>

section \<open>Encoding rounds to the nearest value\<close>

lemma div_bounds:
  fixes n k :: nat
  assumes "0 < k"
  shows "n div k * k \<le> n" "n < (n div k + 1) * k"
proof -
  have "n div k * k + n mod k = n" "n mod k < k" using assms by simp_all
  then show "n div k * k \<le> n" "n < (n div k + 1) * k" unfolding add_mult_distrib mult_1 by linarith+
qed

lemma rounded_error:
  fixes m d :: nat
  assumes "m < 2 ^ 24" "1 \<le> w" "w \<le> 7"
  defines "u \<equiv> 2 ^ (24 - w + d)" and "q \<equiv> rounded w m d"
  shows "(2 * (q * u) \<le> 2 * m + u \<and> 2 * m \<le> 2 * (q * u) + u) \<or>
    (q = 2 ^ w - 1 \<and> d = 0 \<and> q * u \<le> m \<and> m < (q + 1) * u)"
proof -
  let ?k = "(m + 2 ^ (23 - w + d)) div 2 ^ (24 - w + d)"
  have h: "24 - w = Suc (23 - w)" using assms(3) by simp
  have u: "u = 2 * 2 ^ (23 - w + d)" unfolding u_def h by simp
  have dm: "?k * u \<le> m + 2 ^ (23 - w + d)" "m + 2 ^ (23 - w + d) < (?k + 1) * u"
    unfolding u_def by (rule div_bounds; simp)+
  have near: "2 * (?k * u) \<le> 2 * m + u" "2 * m \<le> 2 * (?k * u) + u" using dm u by (simp_all add: algebra_simps)
  show ?thesis
  proof (cases "?k \<le> 2 ^ w - 1")
    case True
    then show ?thesis using near by (simp add: q_def rounded_def min_absorb2)
  next
    case False
    have pos: "(1 :: nat) \<le> 2 ^ w" by simp
    have q: "q = 2 ^ w - 1" using False by (simp add: q_def rounded_def min_absorb1)
    have ge: "2 ^ w * u \<le> m + 2 ^ (23 - w + d)"
      using False dm(1) pos mult_le_mono1 [of "2 ^ w" ?k u] by linarith
    have wu: "(2 :: nat) ^ w * u = 2 ^ 24 * 2 ^ d" unfolding u_def using assms(3) power_add [of "2 :: nat" 24 d]
      by (simp flip: power_add)
    have d: "d = 0"
    proof (rule ccontr)
      assume "d \<noteq> 0"
      then obtain d' where d': "d = Suc d'" by (cases d) auto
      have "(2 :: nat) ^ (23 - w + d) \<le> 2 ^ 22 * 2 ^ d"
        unfolding power_add using assms(2) by (intro mult_right_mono power_increasing) auto
      then have "2 ^ 24 * 2 ^ d \<le> m + 2 ^ 22 * 2 ^ d" using ge wu by linarith
      then have "25165824 * 2 ^ d' \<le> m" using d' by simp
      moreover have "(1 :: nat) \<le> 2 ^ d'" by simp
      ultimately have "25165824 \<le> m" by linarith
      then show False using assms(1) by simp
    qed
    have "q * u + u = 2 ^ w * u" using q pos by (metis add.commute mult_Suc Suc_pred' less_eq_Suc_le One_nat_def)
    moreover have "m < 2 ^ w * u" using wu d assms(1) by simp
    moreover have "2 ^ (23 - w + d) \<le> u" using u by simp
    ultimately show ?thesis using q d ge by simp
  qed
qed



section \<open>Decoding is exact\<close>

lemma div_joined: "h < k \<Longrightarrow> (q * k + h) div k = (q :: nat)"
  by simp

lemma rounded_exact:
  assumes "q < 2 ^ w" "1 \<le> w" "w \<le> 7"
  shows "rounded w (q * 2 ^ cnt * 2 ^ (24 - w)) cnt = q"
proof -
  have "(23 :: nat) - w + cnt < 24 - w + cnt" using assms(3) by simp
  then have "(2 :: nat) ^ (23 - w + cnt) < 2 ^ (24 - w + cnt)" by (rule power_strict_increasing) simp
  then have "(q * 2 ^ (24 - w + cnt) + 2 ^ (23 - w + cnt)) div 2 ^ (24 - w + cnt) = q" by (rule div_joined)
  moreover have "q * 2 ^ cnt * 2 ^ (24 - w) = q * 2 ^ (24 - w + cnt)" by (simp only: power_add ac_simps)
  ultimately have "(q * 2 ^ cnt * 2 ^ (24 - w) + 2 ^ (23 - w + cnt)) div 2 ^ (24 - w + cnt) = q" by metis
  moreover have "q \<le> 2 ^ w - 1" using assms(1) by linarith
  ultimately show ?thesis by (simp only: rounded_def min_absorb2)
qed

lemma normalised_bound:
  assumes "normalised w q cnt" "0 < q" "w \<le> 7"
  shows "cnt < 7"
proof -
  have "1 * 2 ^ cnt \<le> q * 2 ^ cnt" using assms(2) by (intro mult_right_mono) auto
  also have "\<dots> < 2 ^ w" using assms(1) by (simp add: normalised_def)
  also have "\<dots> \<le> 2 ^ 7" using assms(3) by (intro power_increasing) auto
  finally show ?thesis using power_less_imp_less_exp [of "2 :: nat" cnt 7] by simp
qed



section \<open>Packed words\<close>

lemma pack_numbers_fields:
  assumes "0 < W" "W * i \<le> 32" "i \<le> length vec" "W = 32 div nums_in_dword f"
    "\<forall>j < i. convert_u32_to_bfp f False (vec ! j) s a = Inr (c j)" "unat tmp < 2 ^ (32 - W * i)"
  shows "\<exists>r. pack_numbers f vec s a i tmp = Inr r \<and> unat r div 2 ^ (W * i) = unat tmp \<and>
    (\<forall>j < i. unat r div 2 ^ (W * j) mod 2 ^ W = unat (c j) mod 2 ^ W)"
  using assms(2,3,5,6)
proof (induction i arbitrary: tmp)
  case (Suc i)
  let ?c = "ucast (c i) AND (push_bit W 1 - 1) :: 32 word"
  let ?t = "push_bit W tmp OR ?c"
  have Wi: "W * i + W \<le> 32" using Suc.prems(1) by simp
  have uc: "unat ?c = unat (c i) mod 2 ^ W"
  proof (cases "W < 32")
    case True
    then show ?thesis using push_minus_mask [of W, where 'a = 32]
      by (simp add: unat_take_bit unat_ucast_up flip: take_bit_eq_mask)
  next
    case False
    then have "W = 32" "nums_in_dword f = 1" using Wi assms(4) by (auto simp: nums_in_dword_def split: if_splits)
    then show ?thesis by (auto simp: nums_in_dword_def split: if_splits)
  qed
  have split: "(2 :: nat) ^ (32 - W * Suc i) * 2 ^ W = 2 ^ (32 - W * i)"
    using Wi by (simp flip: power_add)
  have "Suc (unat tmp) * 2 ^ W \<le> 2 ^ (32 - W * Suc i) * 2 ^ W"
    using Suc.prems(4) by (intro mult_right_mono) auto
  then have fit: "unat tmp * 2 ^ W + 2 ^ W \<le> 2 ^ (32 - W * i)" unfolding split by simp
  have le: "(2 :: nat) ^ (32 - W * i) \<le> 2 ^ 32" by (intro power_increasing) auto
  have pos: "0 < (2 :: nat) ^ W" by simp
  have small: "unat tmp * 2 ^ W < 2 ^ 32" using fit le pos by linarith
  have ut: "unat ?t = unat tmp * 2 ^ W + unat (c i) mod 2 ^ W"
    using unat_or_push [of ?c W tmp] uc small by simp
  have "unat (c i) mod 2 ^ W < 2 ^ W" by simp
  then have "unat ?t < 2 ^ (32 - W * i)" using ut fit by linarith
  then obtain r where r: "pack_numbers f vec s a i ?t = Inr r" "unat r div 2 ^ (W * i) = unat ?t"
    "\<forall>j < i. unat r div 2 ^ (W * j) mod 2 ^ W = unat (c j) mod 2 ^ W"
    using Suc.IH [of ?t] Suc.prems(2,3) Wi by auto
  have "unat r div 2 ^ (W * Suc i) = unat r div 2 ^ (W * i) div 2 ^ W"
    by (simp add: power_add mult.commute flip: div_mult2_eq)
  also have "\<dots> = unat tmp" unfolding r(2) ut by simp
  finally have top: "unat r div 2 ^ (W * Suc i) = unat tmp" .
  have "unat r div 2 ^ (W * i) mod 2 ^ W = unat (c i) mod 2 ^ W" unfolding r(2) ut by simp
  then have "\<forall>j < Suc i. unat r div 2 ^ (W * j) mod 2 ^ W = unat (c j) mod 2 ^ W"
    using r(3) by (simp add: less_Suc_eq)
  moreover have "pack_numbers f vec s a (Suc i) tmp = Inr r"
    using r(1) Suc.prems(2,3) by (simp add: Let_def flip: assms(4))
  ultimately show ?case using top by blast
qed simp

lemma get_byte_ok:
  assumes "i < 4"
  shows "\<exists>b. get_byte w i = Inr b \<and> unat b = unat w div 2 ^ (8 * i) mod 2 ^ 8"
proof -
  have "drop_bit (8 * i) (w AND push_bit (8 * i) (mask 8)) = take_bit 8 (drop_bit (8 * i) w)"
    by (rule bit_word_eqI) (use assms in \<open>auto simp: bit_simps\<close>)
  then show ?thesis
    using assms by (simp add: get_byte_def mask_words(3) unat_take_bit unat_drop_bit)
qed

text \<open>
  The numbers of a packed word lie in it in order, the first in the lowest bits: field
  number \<open>j\<close> of the word is the encoding of number \<open>j\<close>, and for the eight-bit formats
  \<open>get_byte\<close> reads it back.
\<close>

theorem packed_fields:
  assumes "is_bfp_format f" "nums_in_dword f \<le> length vec"
    "\<forall>j < nums_in_dword f. convert_u32_to_bfp f False (vec ! j) s a = Inr (c j)"
  shows "\<exists>r. create_packed_bfp_packed_as_u32 f vec s a = Inr r \<and>
    (\<forall>j < nums_in_dword f. unat r div 2 ^ (32 div nums_in_dword f * j) mod 2 ^ (32 div nums_in_dword f) =
       unat (c j) mod 2 ^ (32 div nums_in_dword f)) \<and>
    (\<forall>j < 4. nums_in_dword f = 4 \<longrightarrow> get_byte r j = Inr (ucast (c j)))"
proof -
  let ?n = "nums_in_dword f" and ?W = "32 div nums_in_dword f"
  have n: "0 < ?W" "?W * ?n = 32" by (auto simp: nums_in_dword_def)
  obtain r where r: "pack_numbers f vec s a ?n 0 = Inr r"
    "\<forall>j < ?n. unat r div 2 ^ (?W * j) mod 2 ^ ?W = unat (c j) mod 2 ^ ?W"
    using pack_numbers_fields [of ?W ?n vec f s a c 0] n assms(2,3) by auto
  have "get_byte r j = Inr (ucast (c j))" if "?n = 4" "j < 4" for j
  proof -
    obtain b where b: "get_byte r j = Inr b" "unat b = unat r div 2 ^ (8 * j) mod 2 ^ 8"
      using get_byte_ok [OF \<open>j < 4\<close>] by blast
    have "unat (c j) < 2 ^ 8" using unsigned_less [of "c j"] by simp
    then have "unat b = unat (c j)" using b(2) r(2) that by simp
    then have "b = ucast (c j)" by (simp add: word_unat_eq_iff unat_ucast_up)
    then show ?thesis using b(1) by simp
  qed
  then show ?thesis using r assms(1) by (intro exI [of _ r]) (simp add: create_packed_bfp_packed_as_u32_def)
qed

theorem packed_fields_witness:
  "\<exists>r. create_packed_bfp_packed_as_u32 Bfp8_b [0x3f800000, 0, 0, 0] 127 False = Inr r \<and> get_byte r 0 = Inr 64"
proof -
  have f: "is_bfp_format Bfp8_b" "nums_in_dword Bfp8_b = 4" by (simp_all add: is_bfp_format_def nums_in_dword_def)
  have one: "convert_u32_to_bfp Bfp8_b False 0x3f800000 127 False = Inr 64"
    by (simp add: convert_u32_to_bfp_def is_bfp_format_def exponent_bits_def shift_down.simps round_mantissa_def
        mantissa_bfp_width_def Let_def)
  have zero: "convert_u32_to_bfp Bfp8_b False 0 127 False = Inr 0"
    by (simp add: convert_u32_to_bfp_def is_bfp_format_def)
  have c: "\<forall>j < 4. convert_u32_to_bfp Bfp8_b False ([0x3f800000, 0, 0, 0] ! j) 127 False = Inr (if j = 0 then 64 else 0)"
    using one zero by (auto simp: nth_Cons')
  show ?thesis
    using packed_fields [OF f(1), of "[0x3f800000, 0, 0, 0]" 127 False "\<lambda>j. if j = 0 then 64 else 0"] f(2) c by auto
qed

section \<open>Very small numbers\<close>

lemma clamp_small:
  assumes "expo x < 112"
  shows "clamp_exp_a (exponent_bits x) = 0" "rebias_exp_a (exponent_bits x) m = (0, 0)"
proof -
  have "unat (exponent_bits x) < 2 ^ 31" using assms by (simp add: unat_expo)
  then have "sint (exponent_bits x) = int (expo x)" by (simp add: sint_uint_small uint_nat unat_expo)
  then show "clamp_exp_a (exponent_bits x) = 0" "rebias_exp_a (exponent_bits x) m = (0, 0)"
    using assms by (simp_all add: clamp_exp_a_def rebias_exp_a_def Let_def)
qed

text \<open>
  C31: In the formats with a five-bit exponent, a block of sixteen nonzero numbers too small
  for the format is not flushed to zero: the mantissa is cleared and then gets its hidden
  bit, so every such number is encoded as one half of the largest mantissa plus one, and
  decoded as two to the power of minus fifteen, however small it was.
\<close>

theorem bfp8_underflow_not_flushed:
  assumes "length xs = 16" "\<forall>x \<in> set xs. unat x mod 2 ^ 31 \<noteq> 0 \<and> expo x < 112"
  shows "get_max_exp xs True = Inr 0 \<and>
    (\<forall>x \<in> set xs. sgn_bit x = 0 \<longrightarrow> convert_u32_to_bfp Bfp8 False x 0 True = Inr 64) \<and>
    convert_bfp_to_u32 Bfp8 64 0 True = Some (Inr 0x38000000)"
proof (intro conjI ballI impI)
  have "fold (\<lambda>x m. let e = clamp_exp_a (exponent_bits x) in if e > m then e else m) xs 0 = 0"
    using assms(2) by (induction xs) (simp_all add: clamp_small)
  then show "get_max_exp xs True = Inr 0" using assms(1) by (simp add: get_max_exp_def)
next
  fix x
  assume "x \<in> set xs" and pos: "sgn_bit x = 0"
  then have x: "unat x mod 2 ^ 31 \<noteq> 0" "expo x < 112" using assms(2) by blast+
  have nz: "x AND 0x7fffffff \<noteq> 0"
    using x(1) unat_take_bit [of 31 x] by (auto simp: mask_words simp flip: take_bit_eq_mask)
  have "unat (drop_bit 31 (x AND 0x80000000)) = 0" using unat_sgn [of x] pos by simp
  then have sg: "drop_bit 31 (x AND 0x80000000) = 0" by (simp only: unsigned_eq_0_iff)
  show "convert_u32_to_bfp Bfp8 False x 0 True = Inr 64"
    unfolding convert_u32_to_bfp_def sg
    using nz by (simp add: clamp_small(2) [OF x(2)] is_bfp_format_def shift_down.simps round_mantissa_def mantissa_bfp_width_def Let_def)
next
  show "convert_bfp_to_u32 Bfp8 64 0 True = Some (Inr 0x38000000)"
    by (simp add: convert_bfp_to_u32_def is_bfp_format_def mantissa_bfp_width_def decode_mantissa_def
        normalise.simps Let_def)
qed

theorem bfp8_underflow_not_flushed_witness:
  "get_max_exp (replicate 16 0x1e3ce508) True = Inr 0 \<and> convert_u32_to_bfp Bfp8 False 0x1e3ce508 0 True = Inr 64"
proof -
  have "sgn_bit 0x1e3ce508 = 0" "unat (0x1e3ce508 :: 32 word) mod 2 ^ 31 \<noteq> 0 \<and> expo 0x1e3ce508 < 112"
    by (simp_all add: sgn_bit_def expo_def)
  then show ?thesis using bfp8_underflow_not_flushed [of "replicate 16 0x1e3ce508"] by simp
qed

end
