(* ===== verification/Tilize.thy ===== *)
theory Tilize
  imports Prelude
begin

text \<open>
  The change of layout between rows and tiles, src/tt_metal/common/tilize_untilize.hpp. A tile
  has 32 by 32 numbers and is stored as four faces of 16 by 16.

  The template parameter \<open>T\<close> is the type of the elements; the sources only support
  \<open>bfloat16\<close>, and \<open>is_bfloat16\<close> is the compile-time test. Indices are 32-bit numbers; the
  vector is indexed without a check, and the theorems cover the inputs on which every index
  is in range.
\<close>

section \<open>Loops\<close>

text \<open>A loop that appends what its body produces at a running index and adds a step to it.\<close>

fun loop_from :: "(u32 \<Rightarrow> 'a list) \<Rightarrow> u32 \<Rightarrow> nat \<Rightarrow> u32 \<Rightarrow> 'a list" where
  "loop_from body step 0 start = []"
| "loop_from body step (Suc count) start = body start @ loop_from body step count (add32 start step)"

definition TILE_HEIGHT :: u32 where "TILE_HEIGHT = 32"
definition TILE_WIDTH :: u32 where "TILE_WIDTH = 32"
definition FACE_HEIGHT :: u32 where "FACE_HEIGHT = 16"
definition FACE_WIDTH :: u32 where "FACE_WIDTH = 16"

text \<open>The checks both functions start with.\<close>

definition check_shape :: "nat \<Rightarrow> u32 \<Rightarrow> u32 \<Rightarrow> tt_error + unit" where
  "check_shape len m n =
     (if \<not> (len > 0 \<and> m > 0 \<and> n > 0) then Inl (Tt_fatal ''None of the input size, m, nor n can be 0'')
      else if mul32 m n = 0 then Inl Div_by_zero
      else if len mod mul32 m n \<noteq> 0 then Inl (Tt_fatal ''Input size must be divisible by m and n'')
      else Inr ())"

definition check_tiles :: "u32 \<Rightarrow> u32 \<Rightarrow> tt_error + unit" where
  "check_tiles m n =
     (if \<not> (m mod TILE_HEIGHT = 0 \<and> n mod TILE_WIDTH = 0) then Inl (Tt_fatal ''m and n must be divisible by 32'')
      else Inr ())"

section \<open>Tilizing\<close>

definition write_face :: "'a list \<Rightarrow> u32 \<Rightarrow> u32 \<Rightarrow> u32 \<Rightarrow> u32 \<Rightarrow> 'a list" where
  "write_face input face_height face_width face_idx n =
     loop_from (\<lambda>idx. map (\<lambda>j. input ! add32 idx j) [0 ..< face_width]) n face_height face_idx"

definition write_tile :: "'a list \<Rightarrow> u32 \<Rightarrow> u32 \<Rightarrow> 'a list" where
  "write_tile input n face0_id =
     (let face1_id = add32 face0_id FACE_WIDTH;
          face2_id = add32 face0_id (mul32 n FACE_HEIGHT);
          face3_id = add32 face2_id FACE_WIDTH
      in write_face input FACE_HEIGHT FACE_WIDTH face0_id n @ write_face input FACE_HEIGHT FACE_WIDTH face1_id n @
         write_face input FACE_HEIGHT FACE_WIDTH face2_id n @ write_face input FACE_HEIGHT FACE_WIDTH face3_id n)"

definition tilize :: "bool \<Rightarrow> 'a list \<Rightarrow> u32 \<Rightarrow> u32 \<Rightarrow> tt_error + 'a list" where
  "tilize is_bfloat16 input m n =
     bind_result (check_shape (length input) m n) (\<lambda>_.
       let block_num_elements = mul32 m n;
           num_blocks = (length input div block_num_elements) mod 2 ^ 32
       in if \<not> is_bfloat16 then Inl (Tt_throw ''Invalid type passed into tilize'')
          else bind_result (check_tiles m n) (\<lambda>_.
            Inr (loop_from
                   (loop_from (loop_from (write_tile input n) TILE_WIDTH (n div TILE_WIDTH))
                      (mul32 TILE_HEIGHT n) (m div TILE_HEIGHT))
                   block_num_elements num_blocks 0)))"

section \<open>Untilizing\<close>

definition untilize_row :: "'a list \<Rightarrow> u32 \<Rightarrow> u32 \<Rightarrow> u32 \<Rightarrow> u32 \<Rightarrow> u32 \<Rightarrow> 'a list" where
  "untilize_row input face_height face_width tile_idx tile_width n =
     loop_from (\<lambda>face_start.
       concat (map (\<lambda>i.
         loop_from (\<lambda>row_start.
             map (\<lambda>k. input ! add32 row_start k) [0 ..< face_width] @
             map (\<lambda>k. input ! add32 (add32 row_start (mul32 face_height face_width)) k) [0 ..< face_width])
           (add32 (mul32 face_height face_width) (mul32 (mul32 face_height face_width) 3)) (n div tile_width)
           (add32 face_start (mul32 i face_width)))
         [0 ..< face_height]))
       (mul32 (mul32 face_height face_width) 2) 2 tile_idx"

definition untilize :: "bool \<Rightarrow> 'a list \<Rightarrow> u32 \<Rightarrow> u32 \<Rightarrow> tt_error + 'a list" where
  "untilize is_bfloat16 input m n =
     bind_result (check_shape (length input) m n) (\<lambda>_.
       let block_num_elements = mul32 m n;
           num_blocks = (length input div block_num_elements) mod 2 ^ 32
       in if \<not> is_bfloat16 then Inl (Tt_throw ''Invalid type passed into untilize'')
          else bind_result (check_tiles m n) (\<lambda>_.
            Inr (loop_from
                   (loop_from (\<lambda>start. untilize_row input FACE_HEIGHT FACE_WIDTH start TILE_WIDTH n)
                      (mul32 TILE_HEIGHT n) (m div TILE_HEIGHT))
                   block_num_elements num_blocks 0)))"

end
