(* ===== verification/Tilize_Props.thy ===== *)
theory Tilize_Props
  imports Tilize
begin

text \<open>
  The loops as lists of blocks of equal length, and where an element of the input ends up.
\<close>

section \<open>Blocks of equal length\<close>

definition blocks :: "(nat \<Rightarrow> 'a list) \<Rightarrow> nat \<Rightarrow> 'a list" where
  "blocks F n = concat (map F [0 ..< n])"

lemma blocks_Suc: "blocks F (Suc n) = blocks F n @ F n"
  by (simp add: blocks_def)

lemma blocks_cong: "n = m \<Longrightarrow> (\<And>i. i < m \<Longrightarrow> F i = G i) \<Longrightarrow> blocks F n = blocks G m"
  unfolding blocks_def by (rule arg_cong [of _ _ concat]) (auto intro: map_cong)

lemma length_blocks: "(\<And>i. i < n \<Longrightarrow> length (F i) = l) \<Longrightarrow> length (blocks F n) = n * l"
  by (induction n) (simp_all add: blocks_Suc blocks_def [of F 0])

lemma nth_blocks:
  assumes "\<And>i. i < n \<Longrightarrow> length (F i) = l" "a < n" "b < l"
  shows "blocks F n ! (a * l + b) = F a ! b"
  using assms
proof (induction n)
  case (Suc n)
  have len: "length (blocks F n) = n * l" using Suc.prems(1) by (intro length_blocks) simp
  show ?case
  proof (cases "a = n")
    case True
    then show ?thesis using len Suc.prems(3) by (simp add: blocks_Suc nth_append)
  next
    case False
    then have a: "a < n" using Suc.prems(2) by simp
    then have "Suc a * l \<le> n * l" by (intro mult_right_mono) auto
    then have "a * l + b < n * l" using Suc.prems(3) by simp
    then show ?thesis using len a Suc by (simp add: blocks_Suc nth_append)
  qed
qed simp

lemma blocks_shift: "F 0 @ blocks (\<lambda>i. F (Suc i)) n = blocks F (Suc n)"
  by (simp add: blocks_def upt_conv_Cons map_Suc_upt [symmetric] comp_def del: upt_Suc)

lemma blocks_add: "blocks G (p + q) = blocks G p @ blocks (\<lambda>b. G (p + b)) q"
  by (induction q) (simp_all add: blocks_Suc blocks_def [of _ 0])

lemma blocks_flatten: "blocks (\<lambda>a. blocks (\<lambda>b. G (a * q + b)) q) p = blocks G (p * q)"
proof (induction p)
  case (Suc p)
  have "blocks G (Suc p * q) = blocks G (p * q) @ blocks (\<lambda>b. G (p * q + b)) q"
    using blocks_add [of G "p * q" q] by (simp add: add.commute)
  then show ?case using Suc by (simp add: blocks_Suc)
qed (simp add: blocks_def)

lemma map_upt_blocks: "map f [0 ..< n] = blocks (\<lambda>k. [f k]) n"
  by (induction n) (simp_all add: blocks_Suc blocks_def [of _ 0])

lemma blocks_nth_self: "blocks (\<lambda>k. [xs ! k]) (length xs) = xs"
  using map_nth [of xs] by (simp add: map_upt_blocks)

lemma blocks_2: "blocks F 2 = F 0 @ F 1"
  by (simp add: blocks_def numeral_2_eq_2)

lemma blocks_4: "blocks F 4 = F 0 @ F 1 @ F 2 @ F 3"
  by (simp add: blocks_def eval_nat_numeral)

text \<open>Seven nested loops over consecutive digits of an index visit the indices in order.\<close>

lemma row_major:
  assumes "n = C * 32" "N = R * (2 * (16 * n))" "length xs = B * N"
  shows "blocks (\<lambda>b. blocks (\<lambda>r. blocks (\<lambda>mm. blocks (\<lambda>i. blocks (\<lambda>c. blocks (\<lambda>h. blocks (\<lambda>k.
      [xs ! (b * N + (r * (2 * (16 * n)) + (mm * (16 * n) + (i * n + (c * 32 + (h * 16 + k))))))])
      16) 2) C) 16) 2) R) B = xs" (is "?l = _")
proof -
  have 1: "blocks (\<lambda>h. blocks (\<lambda>k. [xs ! (s + (h * 16 + k))]) 16) 2 = blocks (\<lambda>t. [xs ! (s + t)]) 32" for s
    using blocks_flatten [of "\<lambda>t. [xs ! (s + t)]" 16 2] by simp
  have 2: "blocks (\<lambda>c. blocks (\<lambda>t. [xs ! (s + (c * 32 + t))]) 32) C = blocks (\<lambda>t. [xs ! (s + t)]) n" for s
    using blocks_flatten [of "\<lambda>t. [xs ! (s + t)]" 32 C] assms(1) by simp
  have 3: "blocks (\<lambda>i. blocks (\<lambda>t. [xs ! (s + (i * n + t))]) n) 16 = blocks (\<lambda>t. [xs ! (s + t)]) (16 * n)" for s
    by (rule blocks_flatten [of "\<lambda>t. [xs ! (s + t)]"])
  have 4: "blocks (\<lambda>i. blocks (\<lambda>t. [xs ! (s + (i * (16 * n) + t))]) (16 * n)) 2 = blocks (\<lambda>t. [xs ! (s + t)]) (2 * (16 * n))" for s
    by (rule blocks_flatten [of "\<lambda>t. [xs ! (s + t)]"])
  have 5: "blocks (\<lambda>i. blocks (\<lambda>t. [xs ! (s + (i * (2 * (16 * n)) + t))]) (2 * (16 * n))) R = blocks (\<lambda>t. [xs ! (s + t)]) N" for s
    unfolding assms(2) by (rule blocks_flatten [of "\<lambda>t. [xs ! (s + t)]"])
  note g = 1 [of "_ + (_ + (_ + (_ + _)))", simplified add.assoc] 2 [of "_ + (_ + (_ + _))", simplified add.assoc]
    3 [of "_ + (_ + _)", simplified add.assoc] 4 [of "_ + _", simplified add.assoc] 5
  have "?l = blocks (\<lambda>b. blocks (\<lambda>t. [xs ! (b * N + t)]) N) B"
    unfolding g ..
  also have "\<dots> = xs"
    using blocks_flatten [of "\<lambda>t. [xs ! t]" N B] blocks_nth_self [of xs] assms(3) by simp
  finally show ?thesis .
qed

section \<open>The loops\<close>

lemma loop_from_blocks:
  assumes "\<And>i. i < count \<Longrightarrow> start + i * step < 2 ^ 32"
  shows "loop_from body step count start = blocks (\<lambda>i. body (start + i * step)) count"
  using assms
proof (induction count arbitrary: start)
  case (Suc count)
  have "loop_from body step count (add32 start step) = blocks (\<lambda>i. body (start + step + i * step)) count"
  proof (cases count)
    case (Suc c)
    have "add32 start step = start + step"
      using Suc.prems [of 1] Suc by (intro add32_small) simp
    then show ?thesis
      using Suc.IH [of "start + step"] Suc.prems [of "Suc _"] by (simp add: algebra_simps)
  qed (simp add: blocks_def)
  then show ?case
    using blocks_shift [of "\<lambda>i. body (start + i * step)" count] by (simp add: algebra_simps)
qed (simp add: blocks_def)

lemma digit_le: "a < A \<Longrightarrow> x \<le> p \<Longrightarrow> a * p + x \<le> A * p" for a A x p :: nat
proof -
  assume "a < A" "x \<le> p"
  then have "Suc a * p \<le> A * p" by (intro mult_right_mono) auto
  then show ?thesis using \<open>x \<le> p\<close> by simp
qed

text \<open>The shapes both functions accept, on inputs whose indices fit 32 bits.\<close>

definition tile_shape :: "nat \<Rightarrow> u32 \<Rightarrow> u32 \<Rightarrow> nat \<Rightarrow> nat \<Rightarrow> nat \<Rightarrow> bool" where
  "tile_shape len m n B R C \<longleftrightarrow>
     m = R * 32 \<and> n = C * 32 \<and> len = B * (m * n) \<and> 0 < B \<and> 0 < R \<and> 0 < C \<and> len < 2 ^ 32"

lemma tile_shape_bounds:
  assumes "tile_shape len m n B R C"
  shows "m * n = R * (2 * (16 * n))" "m * n \<le> len" "n \<le> m * n" "32 * n \<le> m * n" "len < 2 ^ 32" "mul32 m n = m * n"
    "mul32 TILE_HEIGHT n = 2 * (16 * n)" "n div TILE_WIDTH = C" "m div TILE_HEIGHT = R" "(len div (m * n)) mod 2 ^ 32 = B"
proof -
  have e: "m = R * 32" "n = C * 32" "len = B * (m * n)" "0 < B" "0 < R" "0 < C" and len: "len < 2 ^ 32"
    using assms by (auto simp: tile_shape_def)
  show 1: "m * n \<le> len" "n \<le> m * n" "32 * n \<le> m * n" using e by (simp_all add: Suc_le_eq)
  show "m * n = R * (2 * (16 * n))" using e by simp
  show "len < 2 ^ 32" by (rule len)
  show "mul32 m n = m * n" using 1 len by (intro mul32_small) simp
  have "TILE_HEIGHT * n = 2 * (16 * n)" by (simp add: TILE_HEIGHT_def)
  moreover have "TILE_HEIGHT * n < 2 ^ 32" unfolding TILE_HEIGHT_def using 1 len by linarith
  ultimately show "mul32 TILE_HEIGHT n = 2 * (16 * n)" by (simp add: mul32_small)
  show "n div TILE_WIDTH = C" "m div TILE_HEIGHT = R" using e by (simp_all add: TILE_WIDTH_def TILE_HEIGHT_def)
  have "0 < m * n" using e by simp
  then have "len div (m * n) = B" "B \<le> len" using e(3) by auto
  then show "(len div (m * n)) mod 2 ^ 32 = B" using len by simp
qed

lemma tile_shape_checks:
  assumes "tile_shape len m n B R C"
  shows "check_shape len m n = Inr ()" "check_tiles m n = Inr ()"
proof -
  have "0 < m" "0 < n" "0 < len" "len mod (m * n) = 0" using assms by (auto simp: tile_shape_def)
  then show "check_shape len m n = Inr ()"
    using tile_shape_bounds(6) [OF assms] by (simp add: check_shape_def)
  show "check_tiles m n = Inr ()" using assms
    by (simp add: tile_shape_def check_tiles_def TILE_HEIGHT_def TILE_WIDTH_def)
qed

lemma tile_index_bound:
  assumes "tile_shape len m n B R C" "b < B" "r < R" "x \<le> 32 * n"
  shows "b * (m * n) + (r * (2 * (16 * n)) + x) \<le> len"
proof -
  have "r * (2 * (16 * n)) + x \<le> R * (2 * (16 * n))" by (rule digit_le) (use assms in simp_all)
  then have "r * (2 * (16 * n)) + x \<le> m * n" by (simp only: tile_shape_bounds(1) [OF assms(1)])
  then have "b * (m * n) + (r * (2 * (16 * n)) + x) \<le> B * (m * n)" by (rule digit_le [OF assms(2)])
  then show ?thesis using assms(1) by (simp add: tile_shape_def)
qed

section \<open>Tilizing\<close>

definition face_of :: "'a list \<Rightarrow> nat \<Rightarrow> nat \<Rightarrow> 'a list" where
  "face_of xs n s = blocks (\<lambda>i. blocks (\<lambda>j. [xs ! (s + (i * n + j))]) 16) 16"

lemma write_face_eq:
  assumes "s + (15 * n + 16) \<le> 2 ^ 32"
  shows "write_face xs FACE_HEIGHT FACE_WIDTH s n = face_of xs n s"
proof -
  have i: "s + i * n + 16 \<le> 2 ^ 32" if "i < 16" for i
  proof -
    have "i * n \<le> 15 * n" using that by (intro mult_right_mono) auto
    then show ?thesis using assms by linarith
  qed
  have "write_face xs FACE_HEIGHT FACE_WIDTH s n =
      blocks (\<lambda>i. map (\<lambda>j. xs ! add32 (s + i * n) j) [0 ..< 16]) 16"
    unfolding write_face_def FACE_HEIGHT_def FACE_WIDTH_def
    by (rule loop_from_blocks) (use i in fastforce)
  also have "\<dots> = face_of xs n s"
    unfolding face_of_def map_upt_blocks
  proof (intro blocks_cong refl)
    fix i j :: nat assume "i < 16" "j < 16"
    then have "s + i * n + j < 2 ^ 32" using i [of i] by simp
    then show "[xs ! add32 (s + i * n) j] = [xs ! (s + (i * n + j))]" by (simp add: add32_small add.assoc)
  qed
  finally show ?thesis .
qed

definition tile_of :: "'a list \<Rightarrow> nat \<Rightarrow> nat \<Rightarrow> 'a list" where
  "tile_of xs n s = blocks (\<lambda>f. face_of xs n (s + ((f div 2) * (16 * n) + (f mod 2) * 16))) 4"

lemma write_tile_eq:
  assumes "s + (31 * n + 32) \<le> 2 ^ 32"
  shows "write_tile xs n s = tile_of xs n s"
proof -
  have m: "mul32 n FACE_HEIGHT = 16 * n" using assms by (simp add: mul32_small FACE_HEIGHT_def)
  have a: "add32 s FACE_WIDTH = s + 16" "add32 s (16 * n) = s + 16 * n" "add32 (s + 16 * n) FACE_WIDTH = s + (16 * n + 16)"
    using assms by (simp_all add: add32_small FACE_WIDTH_def)
  have f: "write_face xs FACE_HEIGHT FACE_WIDTH (s + d) n = face_of xs n (s + d)" if "d \<le> 16 * n + 16" for d
    by (rule write_face_eq) (use that assms in simp)
  show ?thesis
    using f [of 0] f [of 16] f [of "16 * n"] f [of "16 * n + 16"]
    by (simp add: write_tile_def Let_def m a tile_of_def blocks_4)
qed

definition tiled :: "'a list \<Rightarrow> nat \<Rightarrow> nat \<Rightarrow> nat \<Rightarrow> nat \<Rightarrow> nat \<Rightarrow> 'a list" where
  "tiled xs m n B R C =
     blocks (\<lambda>b. blocks (\<lambda>r. blocks (\<lambda>c. tile_of xs n (b * (m * n) + (r * (2 * (16 * n)) + c * 32))) C) R) B"

lemma tilize_eq:
  assumes "tile_shape (length xs) m n B R C"
  shows "tilize True xs m n = Inr (tiled xs m n B R C)"
proof -
  note b = tile_shape_bounds [OF assms]
  have n: "n = C * 32" using assms by (simp add: tile_shape_def)
  have col: "loop_from (write_tile xs n) TILE_WIDTH C s = blocks (\<lambda>c. tile_of xs n (s + c * 32)) C"
    if s: "s + 32 * n \<le> 2 ^ 32" for s
  proof -
    have c: "s + c * 32 + (31 * n + 32) \<le> 2 ^ 32" if "c < C" for c
      using s digit_le [OF that, of 32 32] n by simp
    have "loop_from (write_tile xs n) TILE_WIDTH C s = blocks (\<lambda>c. write_tile xs n (s + c * 32)) C"
      unfolding TILE_WIDTH_def by (rule loop_from_blocks) (use c in fastforce)
    also have "\<dots> = blocks (\<lambda>c. tile_of xs n (s + c * 32)) C"
      by (intro blocks_cong refl write_tile_eq c)
    finally show ?thesis .
  qed
  have bound: "b' * (m * n) + r * (2 * (16 * n)) + x \<le> 2 ^ 32" if "b' < B" "r < R" "x \<le> 32 * n" for b' r x
    using tile_index_bound [OF assms that] b(5) by linarith
  have lt: "b' * (m * n) + r * (2 * (16 * n)) < 2 ^ 32" if "b' < B" "r < R" for b' r
    using tile_index_bound [OF assms that, of 0] b(5) by linarith
  have row: "loop_from (loop_from (write_tile xs n) TILE_WIDTH C) (2 * (16 * n)) R (b' * (m * n)) =
      blocks (\<lambda>r. blocks (\<lambda>c. tile_of xs n (b' * (m * n) + (r * (2 * (16 * n)) + c * 32))) C) R" if "b' < B" for b'
  proof -
    have "loop_from (write_tile xs n) TILE_WIDTH C (b' * (m * n) + r * (2 * (16 * n))) =
        blocks (\<lambda>c. tile_of xs n (b' * (m * n) + (r * (2 * (16 * n)) + c * 32))) C" if "r < R" for r
      using col [OF bound [OF \<open>b' < B\<close> that le_refl]] by (simp only: add.assoc)
    then show ?thesis
      by (subst loop_from_blocks [OF lt [OF that]]) (auto intro!: blocks_cong)
  qed
  have "0 < R" using assms by (simp add: tile_shape_def)
  then have 3: "0 + b' * (m * n) < 2 ^ 32" if "b' < B" for b' using lt [OF that, of 0] by simp
  have "loop_from (loop_from (loop_from (write_tile xs n) TILE_WIDTH C) (2 * (16 * n)) R) (m * n) B 0 = tiled xs m n B R C"
    unfolding tiled_def by (subst loop_from_blocks [OF 3], assumption, intro blocks_cong refl) (simp only: row add_0)
  then show ?thesis
    unfolding tilize_def tile_shape_checks [OF assms] b(6-10) Let_def by simp
qed


text \<open>An element of the tiled list, by the digits of its index.\<close>

lemma length_singles: "length (blocks (\<lambda>j. [F j]) k) = k"
  using length_blocks [of k "\<lambda>j. [F j]" 1] by simp

lemma length_face_of: "length (face_of xs n s) = 256"
  unfolding face_of_def by (rule trans [OF length_blocks [of 16 _ 16]]) (simp_all add: length_singles)

lemma length_tile_of: "length (tile_of xs n s) = 1024"
  unfolding tile_of_def by (rule trans [OF length_blocks [of 4 _ 256]]) (simp_all add: length_face_of)

lemma nth_face_of:
  assumes "i < 16" "j < 16"
  shows "face_of xs n s ! (i * 16 + j) = xs ! (s + (i * n + j))"
proof -
  have "face_of xs n s ! (i * 16 + j) = blocks (\<lambda>j. [xs ! (s + (i * n + j))]) 16 ! j"
    unfolding face_of_def by (rule nth_blocks) (simp_all add: length_singles assms)
  also have "\<dots> = xs ! (s + (i * n + j))"
    using nth_blocks [of 16 "\<lambda>j. [xs ! (s + (i * n + j))]" 1 j 0] assms by simp
  finally show ?thesis .
qed

lemma nth_tiled:
  assumes "tile_shape len m n B R C" "b < B" "r < R" "c < C" "v < 2" "h < 2" "i < 16" "j < 16"
  shows "tiled xs m n B R C ! (b * (m * n) + (r * (2 * (16 * n)) + (c * 1024 + ((2 * v + h) * 256 + (i * 16 + j))))) =
    xs ! (b * (m * n) + (r * (2 * (16 * n)) + (v * (16 * n) + (i * n + (c * 32 + (h * 16 + j))))))"
proof -
  define s where "s = b * (m * n) + (r * (2 * (16 * n)) + c * 32)"
  have n: "2 * (16 * n) = C * 1024" and N: "m * n = R * (2 * (16 * n))" and f: "2 * v + h < 4"
    using assms by (simp_all add: tile_shape_def)
  have e: "i * 16 + j < 256" using assms(7,8) by simp
  have d: "(2 * v + h) * 256 + (i * 16 + j) < 1024" using e f by simp
  have q: "c * 1024 + ((2 * v + h) * 256 + (i * 16 + j)) < 2 * (16 * n)"
    using digit_le [OF assms(4), of "Suc ((2 * v + h) * 256 + (i * 16 + j))" 1024] d by (simp only: n Suc_le_eq add_Suc_right)
  have q': "r * (2 * (16 * n)) + (c * 1024 + ((2 * v + h) * 256 + (i * 16 + j))) < m * n"
    using digit_le [OF assms(3), of "Suc (c * 1024 + ((2 * v + h) * 256 + (i * 16 + j)))" "2 * (16 * n)"] q
    by (simp only: N Suc_le_eq add_Suc_right)
  note L = length_tile_of length_face_of
  have L1: "length (blocks (\<lambda>c. tile_of xs n (b * (m * n) + (r * (2 * (16 * n)) + c * 32))) C) = 2 * (16 * n)" for b r
    unfolding n by (rule length_blocks) (rule L)
  have L2: "length (blocks (\<lambda>r. blocks (\<lambda>c. tile_of xs n (b * (m * n) + (r * (2 * (16 * n)) + c * 32))) C) R) = m * n" for b
    unfolding N by (rule length_blocks) (rule L1 [unfolded N])
  have "tiled xs m n B R C ! (b * (m * n) + (r * (2 * (16 * n)) + (c * 1024 + ((2 * v + h) * 256 + (i * 16 + j))))) =
      tile_of xs n s ! ((2 * v + h) * 256 + (i * 16 + j))"
    unfolding tiled_def s_def
    by (subst nth_blocks [OF L2 assms(2) q'], subst nth_blocks [OF L1 assms(3) q], rule nth_blocks [OF L(1) assms(4) d])
  also have "\<dots> = face_of xs n (s + (((2 * v + h) div 2) * (16 * n) + ((2 * v + h) mod 2) * 16)) ! (i * 16 + j)"
    unfolding tile_of_def by (rule nth_blocks [OF L(2) f e])
  also have "\<dots> = xs ! (s + (((2 * v + h) div 2) * (16 * n) + ((2 * v + h) mod 2) * 16) + (i * n + j))"
    by (rule nth_face_of) fact+
  also have "s + (((2 * v + h) div 2) * (16 * n) + ((2 * v + h) mod 2) * 16) + (i * n + j) =
      b * (m * n) + (r * (2 * (16 * n)) + (v * (16 * n) + (i * n + (c * 32 + (h * 16 + j)))))"
    using assms(6) by (simp add: s_def)
  finally show ?thesis .
qed

section \<open>Untilizing\<close>

definition untiled_row :: "'a list \<Rightarrow> nat \<Rightarrow> nat \<Rightarrow> 'a list" where
  "untiled_row ys C s = blocks (\<lambda>v. blocks (\<lambda>i. blocks (\<lambda>c. blocks (\<lambda>h. blocks (\<lambda>k.
     [ys ! (s + (c * 1024 + ((2 * v + h) * 256 + (i * 16 + k))))]) 16) 2) C) 16) 2"

lemma untilize_row_eq:
  assumes "s + C * 1024 \<le> 2 ^ 32" "n div TILE_WIDTH = C" "0 < C"
  shows "untilize_row ys FACE_HEIGHT FACE_WIDTH s TILE_WIDTH n = untiled_row ys C s"
proof -
  let ?p = "\<lambda>v i c. s + v * 512 + i * 16 + c * 1024"
  have lt: "?p v i c + 256 + 16 \<le> 2 ^ 32" if "v < 2" "i < 16" "c < C" for v i c
    using assms(1) digit_le [OF that(3), of 1024 1024] that(1,2) by linarith
  let ?g = "\<lambda>t. map (\<lambda>k. ys ! add32 t k) [0 ..< 16] @ map (\<lambda>k. ys ! add32 (add32 t 256) k) [0 ..< 16]"
  have g: "?g (?p v i c) = blocks (\<lambda>h. blocks (\<lambda>k. [ys ! (s + (c * 1024 + ((2 * v + h) * 256 + (i * 16 + k))))]) 16) 2"
    if "v < 2" "i < 16" "c < C" for v i c
    unfolding blocks_2 map_upt_blocks
    by (intro arg_cong2 [of _ _ _ _ "(@)"] blocks_cong refl) (use lt [OF that] in \<open>simp_all add: add32_small algebra_simps\<close>)
  have col: "loop_from ?g 1024 C (add32 (s + v * 512) (mul32 i 16)) =
      blocks (\<lambda>c. blocks (\<lambda>h. blocks (\<lambda>k. [ys ! (s + (c * 1024 + ((2 * v + h) * 256 + (i * 16 + k))))]) 16) 2) C"
    if vi: "v < 2" "i < 16" for v i
  proof -
    have "?p v i 0 + 256 + 16 \<le> 2 ^ 32" using lt [OF vi assms(3)] .
    then have "add32 (s + v * 512) (mul32 i 16) = s + v * 512 + i * 16"
      using vi by (simp add: mul32_small add32_small)
    moreover have "loop_from ?g 1024 C (s + v * 512 + i * 16) = blocks (\<lambda>c. ?g (?p v i c)) C"
      by (rule loop_from_blocks) (use lt [OF vi] in fastforce)
    moreover have "\<dots> = blocks (\<lambda>c. blocks (\<lambda>h. blocks (\<lambda>k.
        [ys ! (s + (c * 1024 + ((2 * v + h) * 256 + (i * 16 + k))))]) 16) 2) C"
      by (intro blocks_cong refl g vi)
    ultimately show ?thesis by (simp only:)
  qed
  have start: "s + v * 512 < 2 ^ 32" if "v < 2" for v
    using lt [of v 0 0] that assms(3) by simp
  have c: "mul32 16 16 = 256" "mul32 256 3 = 768" "add32 256 768 = 1024" "mul32 256 2 = 512"
    by (simp_all add: mul32_def add32_def)
  have row: "untilize_row ys FACE_HEIGHT FACE_WIDTH s TILE_WIDTH n =
      loop_from (\<lambda>t. blocks (\<lambda>i. loop_from ?g 1024 C (add32 t (mul32 i 16))) 16) 512 2 s"
    unfolding untilize_row_def FACE_HEIGHT_def FACE_WIDTH_def c assms(2) blocks_def ..
  have "untilize_row ys FACE_HEIGHT FACE_WIDTH s TILE_WIDTH n =
      blocks (\<lambda>v. blocks (\<lambda>i. loop_from ?g 1024 C (add32 (s + v * 512) (mul32 i 16))) 16) 2"
    unfolding row by (intro loop_from_blocks start)
  also have "\<dots> = untiled_row ys C s"
    unfolding untiled_row_def by (intro blocks_cong refl col)
  finally show ?thesis .
qed

lemma untilize_eq:
  assumes "tile_shape (length ys) m n B R C"
  shows "untilize True ys m n =
    Inr (blocks (\<lambda>b. blocks (\<lambda>r. untiled_row ys C (b * (m * n) + r * (2 * (16 * n)))) R) B)"
proof -
  note b = tile_shape_bounds [OF assms]
  have n: "C * 1024 = 32 * n" using assms by (simp add: tile_shape_def)
  have bound: "b' * (m * n) + r * (2 * (16 * n)) + C * 1024 \<le> 2 ^ 32" if "b' < B" "r < R" for b' r
    unfolding n using tile_index_bound [OF assms that le_refl] b(5) by linarith
  have lt: "b' * (m * n) + r * (2 * (16 * n)) < 2 ^ 32" if "b' < B" "r < R" for b' r
    using tile_index_bound [OF assms that, of 0] b(5) by linarith
  have "0 < R" and C: "0 < C" using assms by (simp_all add: tile_shape_def)
  then have 3: "0 + b' * (m * n) < 2 ^ 32" if "b' < B" for b' using lt [OF that, of 0] by simp
  let ?row = "\<lambda>start. untilize_row ys FACE_HEIGHT FACE_WIDTH start TILE_WIDTH n"
  have row: "loop_from ?row (2 * (16 * n)) R (b' * (m * n)) =
      blocks (\<lambda>r. untiled_row ys C (b' * (m * n) + r * (2 * (16 * n)))) R" if "b' < B" for b'
    by (subst loop_from_blocks [OF lt [OF that]], assumption) (intro blocks_cong refl untilize_row_eq bound that b(8) C)
  have "loop_from (loop_from ?row (2 * (16 * n)) R) (m * n) B 0 =
      blocks (\<lambda>b. blocks (\<lambda>r. untiled_row ys C (b * (m * n) + r * (2 * (16 * n)))) R) B"
    by (subst loop_from_blocks [OF 3], assumption, intro blocks_cong refl) (simp only: row add_0)
  then show ?thesis
    unfolding untilize_def tile_shape_checks [OF assms] b(6-10) Let_def by simp
qed

lemma length_tiled:
  assumes "tile_shape len m n B R C"
  shows "length (tiled xs m n B R C) = len"
proof -
  have e: "C * 1024 = 2 * (16 * n)" "R * (2 * (16 * n)) = m * n" "B * (m * n) = len"
    using assms by (simp_all add: tile_shape_def)
  have "length (tiled xs m n B R C) = B * (R * (C * 1024))"
    unfolding tiled_def by (intro length_blocks length_tile_of)
  then show ?thesis by (simp only: e)
qed

lemma untilize_tiled:
  assumes "tile_shape (length xs) m n B R C"
  shows "untilize True (tiled xs m n B R C) m n = Inr xs"
proof -
  have n: "n = C * 32" and len: "length xs = B * (m * n)" using assms by (auto simp: tile_shape_def)
  have "untilize True (tiled xs m n B R C) m n =
      Inr (blocks (\<lambda>b. blocks (\<lambda>r. untiled_row (tiled xs m n B R C) C (b * (m * n) + r * (2 * (16 * n)))) R) B)"
    by (rule untilize_eq) (simp only: length_tiled [OF assms] assms)
  also have "blocks (\<lambda>b. blocks (\<lambda>r. untiled_row (tiled xs m n B R C) C (b * (m * n) + r * (2 * (16 * n)))) R) B =
      blocks (\<lambda>b. blocks (\<lambda>r. blocks (\<lambda>v. blocks (\<lambda>i. blocks (\<lambda>c. blocks (\<lambda>h. blocks (\<lambda>k.
      [xs ! (b * (m * n) + (r * (2 * (16 * n)) + (v * (16 * n) + (i * n + (c * 32 + (h * 16 + k))))))])
      16) 2) C) 16) 2) R) B"
    unfolding untiled_row_def add.assoc
    by (intro blocks_cong refl arg_cong [of _ _ "\<lambda>x. [x]"] nth_tiled [OF assms])
  also have "\<dots> = xs"
    by (rule row_major [OF n tile_shape_bounds(1) [OF assms] len])
  finally show ?thesis .
qed

end
