(* ===== verification/Tilize_Theorems.thy ===== *)
theory Tilize_Theorems
  imports Tilize_Props
begin

text \<open>
  The change of layout places every number where the tile layout says, and untilizing undoes it.
\<close>

lemma shape_of:
  assumes "32 dvd m" "32 dvd n" "0 < m" "0 < n" "m * n dvd len" "0 < len" "len < 2 ^ 32"
  shows "tile_shape len m n (len div (m * n)) (m div 32) (n div 32)"
proof -
  have "0 < len div (m * n)" using assms by (simp add: div_greater_zero_iff dvd_imp_le)
  moreover have "0 < m div 32" "0 < n div 32" using assms by (auto simp: div_greater_zero_iff dvd_imp_le)
  ultimately show ?thesis using assms by (simp add: tile_shape_def)
qed

lemma digits_32: "p = p div 32 * 32 + p mod 32 div 16 * 16 + p mod 16" for p :: nat
proof -
  have "p mod 32 mod 16 = p mod 16" by (rule mod_mod_cancel) simp
  then show ?thesis using div_mult_mod_eq [of "p mod 32" 16] div_mult_mod_eq [of p 32] by linarith
qed

lemma tiled_position:
  assumes "tile_shape len m n B R C" "b < B" "p < m" "q < n"
  shows "tiled xs m n B R C ! (b * (m * n) + (((p div 32) * C + q div 32) * 1024 +
      ((2 * (p mod 32 div 16) + q mod 32 div 16) * 256 + ((p mod 16) * 16 + q mod 16)))) = xs ! (b * (m * n) + (p * n + q))"
proof -
  let ?r = "p div 32" and ?c = "q div 32" and ?v = "p mod 32 div 16" and ?h = "q mod 32 div 16"
  have e: "m = R * 32" "n = C * 32" using assms(1) by (auto simp: tile_shape_def)
  have d: "?r < R" "?c < C" "?v < 2" "?h < 2" "p mod 16 < 16" "q mod 16 < 16"
    using assms(3,4) e by (auto simp: less_mult_imp_div_less)
  have "p * n + q = (?r * 32 + ?v * 16 + p mod 16) * n + (?c * 32 + ?h * 16 + q mod 16)"
    by (simp only: digits_32 [symmetric])
  also have "\<dots> = ?r * (2 * (16 * n)) + (?v * (16 * n) + ((p mod 16) * n + (?c * 32 + (?h * 16 + q mod 16))))"
    by (simp add: algebra_simps)
  finally have pos: "p * n + q = \<dots>" .
  have "(?r * C + ?c) * 1024 = ?r * (2 * (16 * n)) + ?c * 1024" using e by (simp add: algebra_simps)
  then show ?thesis using nth_tiled [OF assms(1,2) d, of xs] by (simp only: pos add.assoc)
qed

text \<open>
  C21: Tilizing a vector of 32-bit indexable length whose blocks have a multiple of 32 rows and
  columns succeeds. The number in row \<open>p\<close> and column \<open>q\<close> of a block is stored in the tile that
  covers it, tiles in row-major order of 1024 numbers each, there in the face of 256 numbers
  that covers it, and in its row-major place in the face. Untilizing the result gives the
  vector back.
\<close>

theorem tilize_layout:
  assumes "32 dvd m" "32 dvd n" "0 < m" "0 < n" "m * n dvd length xs" "xs \<noteq> []" "length xs < 2 ^ 32"
  shows "\<exists>ys. tilize True xs m n = Inr ys \<and> length ys = length xs \<and> untilize True ys m n = Inr xs \<and>
    (\<forall>b p q. b < length xs div (m * n) \<and> p < m \<and> q < n \<longrightarrow>
      ys ! (b * (m * n) + (((p div 32) * (n div 32) + q div 32) * 1024 +
        ((2 * (p mod 32 div 16) + q mod 32 div 16) * 256 + ((p mod 16) * 16 + q mod 16)))) =
      xs ! (b * (m * n) + (p * n + q)))"
proof -
  have s: "tile_shape (length xs) m n (length xs div (m * n)) (m div 32) (n div 32)"
    by (rule shape_of) (use assms in simp_all)
  show ?thesis
    using tilize_eq [OF s] length_tiled [OF s] untilize_tiled [OF s] tiled_position [OF s] by blast
qed

theorem tilize_layout_witness:
  "\<exists>ys. tilize True [0 ..< 2048] 32 64 = Inr ys \<and> length ys = 2048 \<and> untilize True ys 32 64 = Inr [0 ..< 2048] \<and>
    ys ! 1024 = 32"
proof -
  have "(32 :: nat) dvd 32" "(32 :: nat) dvd 64" "(32 :: nat) * 64 dvd length [0 ..< 2048]" by simp_all
  then obtain ys where ys: "tilize True [0 ..< 2048] 32 64 = Inr ys" "length ys = 2048"
    "untilize True ys 32 64 = Inr [0 ..< 2048]"
    and nth: "\<And>b p q. b < length [0 ..< 2048] div (32 * 64) \<and> p < 32 \<and> q < 64 \<Longrightarrow>
      ys ! (b * (32 * 64) + (((p div 32) * (64 div 32) + q div 32) * 1024 +
        ((2 * (p mod 32 div 16) + q mod 32 div 16) * 256 + ((p mod 16) * 16 + q mod 16)))) =
      [0 ..< 2048] ! (b * (32 * 64) + (p * 64 + q))"
    using tilize_layout [of 32 64 "[0 ..< 2048]"] by (auto simp del: upt_rec_numeral)
  from nth [of 0 0 32] have "ys ! 1024 = 32" by (simp del: upt_rec_numeral)
  with ys show ?thesis by blast
qed

end
