(* ===== verification/Spec2Isabelle.thy ===== *)
theory Spec2Isabelle
  imports Free_List_Theorems Core_Coord_Theorems Tt_Math Work_Split_Theorems
    Device_Allocator_Theorems Slot_Map_Theorems Buffer_Pages_Theorems
    Lock_Free_Queue_Theorems Config_Buffer_Theorems Issue_Queue_Theorems Completion_Queue_Theorems
    Read_Buffer_Theorems Command_Stream_Theorems Write_Buffer_Limits Runtime_Args_Theorems Circular_Buffer_Theorems Block_Float_Theorems Tilize_Theorems
begin

text \<open>
  A verification library for the host-side runtime of TT-Metalium (src/tt_metal), which
  drives Tenstorrent accelerators: it decides which cores run what, where buffers live in the
  banks of a device, and how launches of programs are queued.

  \<^bold>\<open>How the parts interact.\<close> A device has an allocator, which has one bank manager per kind
  of memory, and each bank manager runs the free-list algorithm on the address range that is
  the same in all its banks. A buffer asks the allocator of its device for a region per bank;
  if it is sharded, its pages are laid out over the cores of a core range set. The launch of
  a program splits work over core ranges, reserves configuration space on the cores, and
  reaches the device through a queue between the host thread and the worker thread of the
  device.

  \<^bold>\<open>Conventions\<close> (\<open>Prelude\<close>). Unsigned machine integers are natural numbers with the
  wrap-around written out; exceptions and undefined operations are values of \<open>tt_error\<close>; an
  operation that changes an object takes and returns it. Loops that end for every input are
  functions with a measure; loops whose end depends on an invariant are partial functions
  into the option type, and the theorems state that they return a value. No fuel is used.

  \<^bold>\<open>Free list\<close> (src/tt_metal/impl/allocator/algorithms). \<open>Free_List\<close> translates \<open>FreeList\<close>
  and its base class field by field on a heap of linked blocks. \<open>Region_Spec\<close> is the
  abstract view: an address range tiled by free and used regions. \<open>Free_List_Links\<close> shows
  how each pointer update changes the two linked lists, \<open>Free_List_Correct\<close> and
  \<open>Free_List_Resize\<close> that the operations refine the abstract ones, \<open>Free_List_Props\<close> that
  every reachable state is well formed, and \<open>Free_List_Theorems\<close> states the properties:
  allocation, allocation at an address, release, statistics, available addresses, shrinking
  and resetting. \<open>Region_Interface\<close> is the contract the bank manager relies on, a locale
  interpreted on the free list.

  \<^bold>\<open>Bank managers and the allocator\<close> (src/tt_metal/impl/allocator). \<open>Bank_Manager\<close> and
  \<open>Bank_Manager_Props\<close> have \<open>BankManager\<close>; \<open>Device_Allocator\<close> has \<open>Allocator\<close> with the
  basic and the L1-banking initialisation. \<open>Device_Allocator_Props\<close> carries the free-list
  facts to a device, \<open>Device_Allocator_Banks\<close> the tables between bank ids and cores, and
  \<open>Device_Allocator_Theorems\<close> shows that regions held on a device never overlap, that the
  tables are inverse to each other, and that releasing a buffer undoes its allocation.

  \<^bold>\<open>Cores and work\<close> (src/tt_metal/common). \<open>Core_Coord\<close>, \<open>Core_Coord_Merge\<close>,
  \<open>Core_Coord_Props\<close> and \<open>Core_Coord_Theorems\<close> relate \<open>CoreRange\<close> and \<open>CoreRangeSet\<close> to
  sets of cores. \<open>Tt_Math\<close> has the rounding helpers. \<open>Work_Split\<close>, \<open>Work_Split_Props\<close> and
  \<open>Work_Split_Theorems\<close> have the distribution of units of work over cores.

  \<^bold>\<open>Buffers\<close> (src/tt_metal/impl/buffers). \<open>Buffer_Pages\<close> has the shard specification, the
  sizes and addresses of pages and the page mapping of a sharded buffer; \<open>Buffer_Pages_Props\<close>
  and \<open>Buffer_Pages_Theorems\<close> show that the mapping between host pages and device pages is
  one to one and that the pages of an interleaved buffer fit in the space reserved per bank.

  \<^bold>\<open>Circular buffers\<close> (src/tt_metal/impl/buffers, src/tt_metal/impl/program).
  \<open>Circular_Buffer\<close> has the configuration of circular buffers, the buffers, and how a program
  adds them to cores and gives them addresses; \<open>Circular_Buffer_Props\<close> follows the marks on
  cores and the ends of the regions, and \<open>Circular_Buffer_Theorems\<close> shows that
  configurations are well formed, that indices are unique on a core, that addresses on equal
  core ranges never overlap and fit after validation, and that on core ranges which overlap
  in part they may collide.

  \<^bold>\<open>Slot map\<close> (src/tt_metal/tt_stl/slotmap.hpp). \<open>Slot_Map\<close> has the container, \<open>Keyed_Store\<close>
  its contract as a locale, \<open>Slot_Map_Props\<close> the interpretation, and \<open>Slot_Map_Theorems\<close> the
  refinement of a finite map, the death of removed keys, iteration, and what happens when the
  versions of a slot run out.

  \<^bold>\<open>Dispatch\<close> (src/tt_metal/impl/dispatch). \<open>Lock_Free_Queue\<close> has the single-writer
  single-reader ring, its operations run by one thread and as a step relation of two threads;
  \<open>Lock_Free_Queue_Props\<close>, \<open>Lock_Free_Queue_Threads\<close> and \<open>Lock_Free_Queue_Theorems\<close> show
  the order of the values, the absence of lost or null values, and that the reader can always
  drain the queue. \<open>Config_Buffer\<close> has the rings of configuration entries and their use when
  a program is launched; \<open>Config_Buffer_Layout\<close>, \<open>Config_Buffer_Props\<close>,
  \<open>Config_Buffer_Process\<close> and \<open>Config_Buffer_Theorems\<close> show that the regions in use never
  overlap while reservations are positive.

  \<^bold>\<open>Queues between host and device\<close> (src/tt_metal/impl/dispatch). \<open>Command_Queue_Interface\<close>
  has the layout of the dispatch core, the regions of the queues in host memory and the
  operations of \<open>SystemMemoryManager\<close>. \<open>Prefetch_Kernel\<close> has the fetch of commands by the
  prefetch kernel and, as a step relation, kernel and host together; \<open>Issue_Queue_Props\<close>,
  \<open>Issue_Queue_Invariant\<close> and \<open>Issue_Queue_Theorems\<close> show that the kernel reads exactly the
  commands sent, that the host never writes over one not yet read, and that its wait for
  space ends. \<open>Completion_Queue\<close> has the way back, the writer in the dispatch kernel and the
  reader of the host with pointers that carry a toggle, and \<open>Completion_Queue_Theorems\<close> that
  it delivers every page in order and that neither side gets stuck. \<open>Read_Buffer\<close> has how the
  host takes the pages of a buffer out of the completion queue, \<open>Read_Buffer_Props\<close> follows
  one piece of the queue and \<open>Read_Buffer_Theorems\<close> all of them: the user gets every page at
  its place without its padding, unless the padding of a page is cut by the end of a piece.

  \<^bold>\<open>Device commands\<close> (device_command.hpp, cq_commands.hpp, memcpy.hpp and the readers in
  cq_prefetch.cpp and cq_dispatch.cpp). \<open>Cq_Commands\<close> has the packed structures of the
  commands as lists of fields with their widths, \<open>Device_Command\<close> every operation of the builder
  \<open>DeviceCommand\<close> on the bytes of its region, \<open>Command_Reader\<close> the walk of the prefetch kernel
  over fetched commands and what the dispatch kernel reads of those relayed to it.
  \<open>Device_Command_Props\<close> shows what the parts of the builder append to memory,
  \<open>Command_Stream\<close> and \<open>Command_Stream_Ops\<close> how the commands read, \<open>Command_Stream_Writes\<close> the
  commands with data; \<open>Command_Stream_Theorems\<close> concludes that sequences read as they were
  built, and where a command is placed wrongly when the alignment is more than 32 bytes. The
  walk of the reader ends because every command it goes on from has a positive stride.
  \<open>Runtime_Args\<close> has how the launch of a program sizes and splits packed writes and builds the
  commands for the runtime arguments of kernels (command_queue.cpp); \<open>Runtime_Args_Props\<close> follows
  the pieces of data into a command, and \<open>Runtime_Args_Theorems\<close> shows that the commands fit,
  that every core gets its arguments, and when the splitting does not end.
  \<open>Write_Buffer\<close> has the writing of the user's data to an interleaved buffer: the splitting into
  commands in \<open>enqueue_write_buffer\<close> and the building of one (command_queue.cpp), and the loop of
  the dispatch kernel that carries a paged write out (cq_dispatch.cpp, dataflow_api.h). The space
  left in the issue queue and the data found in the circular buffer are given turn by turn, so that
  every course of the queues is covered. \<open>Write_Buffer_Props\<close> shows what one command has in it,
  \<open>Write_Buffer_Kernel\<close> where the kernel puts it, \<open>Write_Buffer_Theorems\<close> that all bytes reach
  their places in the banks and when a command gets too long, and \<open>Write_Buffer_Limits\<close> what
  goes wrong for single pages that are very large or not aligned. Writes to sharded buffers are not modelled.

  \<^bold>\<open>Number formats and tiles\<close> (src/tt_metal/common). \<open>Block_Float\<close> has the formats in which
  sixteen numbers share an exponent, and the sixteen-bit floats, on machine words;
  \<open>Block_Float_Props\<close> reads the words as sign, exponent and significand, and
  \<open>Block_Float_Theorems\<close> shows that encoding rounds to the nearest representable number, that
  decoding is exact and undone by encoding, and how numbers lie in a packed word. \<open>Tilize\<close>,
  \<open>Tilize_Props\<close> and \<open>Tilize_Theorems\<close> have the change between rows and tiles: every number
  ends up in its face and tile, and untilizing undoes it.

  \<^bold>\<open>Parameters.\<close> The soc descriptor, the device configuration and the shuffle of the bank
  ids, which come from outside these sources, are arguments of the definitions that use them;
  theorems that depend on them name what they rely on as hypotheses.

  \<^bold>\<open>Not modelled.\<close> Firmware, kernels and register definitions that run on the device, apart from
  the ends of the two queues; the
  just-in-time build; reading and writing devices through the driver; which
  commands the launch of a program is made of, beyond the builder of commands; profiling, printing and watching; the tensor operations of ttnn and the
  Python bindings; tests and models. They are input and output, generated or third-party
  code, or code whose meaning lies in the hardware.
\<close>

end
